(* ===== verification/Prelude.thy ===== *)
theory Prelude
  imports Main "HOL-Library.Word"
begin

text \<open>
  Shared vocabulary of the development: the machine types of the LP64 platform the
  library is modelled on (\<open>int\<close> of 32 bits; \<open>long\<close>, \<open>size_t\<close>, \<open>uintptr_t\<close> and
  \<open>cu_word_t\<close> of 64 bits; \<open>uint_fast8_t\<close> of 8 bits and the wider \<open>uint_fast\<close>
  types of 64 bits), the word store used for code that writes through pointers, and the
  lemmas on words, bits and division that several components need.
\<close>

unbundle bit_operations_syntax

section \<open>Machine types\<close>

type_synonym u8 = "8 word"
type_synonym u16 = "16 word"
type_synonym u32 = "32 word"
type_synonym u64 = "64 word"

text \<open>
  Memory as the word-array code sees it: one 64-bit word per address. A pointer to words
  is an address, pointer arithmetic is addition, and two pointers may alias.
\<close>

type_synonym store = "nat \<Rightarrow> u64"

named_theorems bit_facts \<open>bit-level characterisations of word operations\<close>
named_theorems store_facts \<open>contents of the store after an operation\<close>

section \<open>Bits and division\<close>

lemma word_eq_bitI:
  fixes x y :: u64
  assumes "\<And>n. n < 64 \<Longrightarrow> bit x n \<longleftrightarrow> bit y n"
  shows "x = y"
  by (rule bit_word_eqI) (simp add: assms)

lemma bit_u64_bound [dest]: "bit (x :: u64) n \<Longrightarrow> n < 64"
  using bit_imp_le_length [of x n] by simp

lemma bit_unat_u64: "bit (x :: u64) n \<longleftrightarrow> odd (unat x div 2 ^ n)"
  by (metis bit_iff_odd bit_unsigned_iff possible_bit_nat)

lemma unat_u64_bound: "unat (x :: u64) < 2 ^ 64"
  using unsigned_less [of x, where 'a = nat] by simp

lemma nat_div_pow2_mono:
  fixes a b :: nat
  assumes "a div 2 ^ m = b div 2 ^ m" and "m \<le> n"
  shows "a div 2 ^ n = b div 2 ^ n"
proof -
  have "x div 2 ^ n = x div 2 ^ m div 2 ^ (n - m)" for x :: nat
    using assms(2) by (metis div_mult2_eq le_add_diff_inverse power_add)
  then show ?thesis
    using assms(1) by simp
qed

section \<open>Words as numbers\<close>

lemma xor_eq_zero_iff: "(x :: u64) XOR y = 0 \<longleftrightarrow> x = y"
  by (auto simp: bit_eq_iff bit_simps)

lemma unat_drop_bit: "unat (drop_bit n (x :: 'a::len word)) = unat x div 2 ^ n"
proof -
  have "unat (drop_bit n x) = drop_bit n (unat x)"
    by (rule bit_eqI) (simp add: bit_simps)
  then show ?thesis by (simp add: drop_bit_eq_div [where 'a = nat])
qed

lemma unat_take_bit: "unat (take_bit n (x :: 'a::len word)) = unat x mod 2 ^ n"
proof -
  have "unat (take_bit n x) = take_bit n (unat x)"
    by (rule bit_eqI) (simp add: bit_simps)
  then show ?thesis by (simp add: take_bit_eq_mod [where 'a = nat])
qed

section \<open>The lowest set bit\<close>

text \<open>
  The position of the lowest set bit, 64 for zero: the arithmetic behind the masks
  \<open>x ^ (x - 1)\<close> and \<open>~x & (x - 1)\<close> of the C code.
\<close>

definition lowest :: "u64 \<Rightarrow> nat" where
  "lowest x = (if x = 0 then 64 else LEAST n. bit x n)"

lemma lowest_zero [simp]: "lowest 0 = 64"
  by (simp add: lowest_def)

lemma lowest_bit: "x \<noteq> 0 \<Longrightarrow> bit x (lowest x)"
  by (metis LeastI bit_eqI bit_0_eq bot_apply bot_bool_def lowest_def)

lemma lowest_below: "n < lowest x \<Longrightarrow> \<not> bit x n"
  by (metis bit_0_eq bot_apply bot_bool_def lowest_def not_less_Least)

lemma lowest_eqI: "bit x z \<Longrightarrow> (\<And>n. n < z \<Longrightarrow> \<not> bit x n) \<Longrightarrow> lowest x = z"
  by (metis lowest_below lowest_bit bit_0_eq bot_apply bot_bool_def linorder_neqE_nat)

lemma lowest_le [simp]: "lowest x \<le> 64"
  using lowest_bit [of x] bit_u64_bound [of x "lowest x"] by (cases "x = 0") auto

lemma lowest_less: "x \<noteq> 0 \<Longrightarrow> lowest x < 64"
  using lowest_bit bit_u64_bound by blast

lemma lowest_eq_64 [simp]: "lowest x = 64 \<longleftrightarrow> x = 0"
  using lowest_less [of x] by (cases "x = 0") auto

lemma lowest_less_iff: "lowest x < 64 \<longleftrightarrow> x \<noteq> 0"
  using lowest_less [of x] by (cases "x = 0") auto

lemma word_split_at_lowest:
  fixes x :: u64
  assumes "x \<noteq> 0"
  shows "x = (x AND NOT (mask (Suc (lowest x)))) OR 2 ^ lowest x"
proof (rule word_eq_bitI)
  fix n :: nat
  assume "n < 64"
  then show "bit x n \<longleftrightarrow> bit ((x AND NOT (mask (Suc (lowest x)))) OR 2 ^ lowest x) n"
    using lowest_bit [OF assms] lowest_below [of n x]
    by (cases n "lowest x" rule: linorder_cases) (auto simp: bit_simps)
qed

lemma bit_minus_one:
  fixes x :: u64
  assumes "x \<noteq> 0"
  shows "bit (x - 1) n \<longleftrightarrow> n < lowest x \<or> (lowest x < n \<and> bit x n)"
proof -
  define h where "h = x AND NOT (mask (Suc (lowest x)) :: u64)"
  have x: "x = h OR 2 ^ lowest x"
    using word_split_at_lowest [OF assms] by (simp add: h_def)
  have "h OR 2 ^ lowest x = h + 2 ^ lowest x"
    by (rule disjunctive_add [symmetric]) (auto simp: h_def bit_simps)
  then have "x - 1 = h + (2 ^ lowest x - 1)"
    using x by simp
  also have "\<dots> = h + mask (lowest x)"
    by (simp add: mask_eq_decr_exp)
  also have "\<dots> = h OR mask (lowest x)"
    by (rule disjunctive_add) (auto simp: h_def bit_simps)
  finally show ?thesis
    using lowest_less [OF assms] by (auto simp: h_def bit_simps)
qed

lemma xor_minus_one: "x XOR (x - 1) = (mask (Suc (lowest x)) :: u64)"
proof (cases "x = 0")
  case True
  show ?thesis
    unfolding True by (rule word_eq_bitI) (simp add: bit_simps)
next
  case False
  show ?thesis
  proof (rule word_eq_bitI)
    fix n :: nat
    assume "n < 64"
    then show "bit (x XOR (x - 1)) n \<longleftrightarrow> bit (mask (Suc (lowest x)) :: u64) n"
      using lowest_bit [OF False] lowest_below [of n x]
      by (cases n "lowest x" rule: linorder_cases) (auto simp: bit_simps bit_minus_one [OF False])
  qed
qed

lemma lzeros_mask: "NOT x AND (x - 1) = (mask (lowest x) :: u64)"
proof (cases "x = 0")
  case True
  show ?thesis
    unfolding True by (rule word_eq_bitI) (simp add: bit_simps)
next
  case False
  show ?thesis
  proof (rule word_eq_bitI)
    fix n :: nat
    assume "n < 64"
    then show "bit (NOT x AND (x - 1)) n \<longleftrightarrow> bit (mask (lowest x) :: u64) n"
      using lowest_bit [OF False] lowest_below [of n x]
      by (cases n "lowest x" rule: linorder_cases) (auto simp: bit_simps bit_minus_one [OF False])
  qed
qed

end
