(* ===== verification/CuInt.thy ===== *)
theory CuInt
  imports Prelude
begin

text \<open>
  Integer functions of \<^verbatim>\<open>cu/int.h\<close>, \<^verbatim>\<open>cu/int.c\<close>, \<^verbatim>\<open>cu/size.h\<close> and
  \<^verbatim>\<open>cu/word.h\<close>: comparison helpers, bit counts by table, downward covers, logarithms,
  lowest set bit, byte order. A function that aborts through \<^verbatim>\<open>cu_check_arg\<close> or
  \<^verbatim>\<open>cu_debug_assert\<close>, or that would index a table out of its bounds, returns \<open>None\<close>
  there. Functions whose names start with an underscore in C carry the prefix \<open>p_\<close>.
\<close>

section \<open>Comparison, absolute value, sign\<close>

definition cu_int_min :: "u32 \<Rightarrow> u32 \<Rightarrow> u32" where
  "cu_int_min x y = (if x <s y then x else y)"

definition cu_int_max :: "u32 \<Rightarrow> u32 \<Rightarrow> u32" where
  "cu_int_max x y = (if y <s x then x else y)"

definition cu_uint_min :: "u32 \<Rightarrow> u32 \<Rightarrow> u32" where
  "cu_uint_min x y = (if x < y then x else y)"

definition cu_uint_max :: "u32 \<Rightarrow> u32 \<Rightarrow> u32" where
  "cu_uint_max x y = (if x > y then x else y)"

definition cu_long_min :: "u64 \<Rightarrow> u64 \<Rightarrow> u64" where
  "cu_long_min x y = (if x <s y then x else y)"

definition cu_long_max :: "u64 \<Rightarrow> u64 \<Rightarrow> u64" where
  "cu_long_max x y = (if y <s x then x else y)"

definition cu_ulong_min :: "u64 \<Rightarrow> u64 \<Rightarrow> u64" where
  "cu_ulong_min x y = (if x < y then x else y)"

definition cu_ulong_max :: "u64 \<Rightarrow> u64 \<Rightarrow> u64" where
  "cu_ulong_max x y = (if x > y then x else y)"

definition cu_uintptr_min :: "u64 \<Rightarrow> u64 \<Rightarrow> u64" where
  "cu_uintptr_min x y = (if x < y then x else y)"

definition cu_uintptr_max :: "u64 \<Rightarrow> u64 \<Rightarrow> u64" where
  "cu_uintptr_max x y = (if x > y then x else y)"

definition cu_size_min :: "u64 \<Rightarrow> u64 \<Rightarrow> u64" where
  "cu_size_min n m = (if n < m then n else m)"

definition cu_size_max :: "u64 \<Rightarrow> u64 \<Rightarrow> u64" where
  "cu_size_max n m = (if n > m then n else m)"

text \<open>The negation of the least \<open>int\<close> overflows, which C leaves undefined: \<open>None\<close>.\<close>

definition cu_int_abs :: "u32 \<Rightarrow> u32 option" where
  "cu_int_abs x = (if 0 \<le>s x then Some x else if x = 0x80000000 then None else Some (- x))"

definition cu_long_abs :: "u64 \<Rightarrow> u64 option" where
  "cu_long_abs x =
     (if 0 \<le>s x then Some x else if x = 0x8000000000000000 then None else Some (- x))"

definition cu_int_sgn :: "u32 \<Rightarrow> int" where
  "cu_int_sgn x = (if x <s 0 then -1 else if 0 <s x then 1 else 0)"

text \<open>
  The parameter of \<open>cu_long_sgn\<close> is declared \<open>int\<close>: a \<open>long\<close> argument is
  narrowed to its low 32 bits by the call.
\<close>

definition cu_long_sgn :: "u64 \<Rightarrow> int" where
  "cu_long_sgn a = (let x = (ucast a :: u32) in if x <s 0 then -1 else if 0 <s x then 1 else 0)"

definition cu_int_cmp :: "u32 \<Rightarrow> u32 \<Rightarrow> int" where
  "cu_int_cmp x y = (if x <s y then -1 else if y <s x then 1 else 0)"

definition cu_long_cmp :: "u64 \<Rightarrow> u64 \<Rightarrow> int" where
  "cu_long_cmp x y = (if x <s y then -1 else if y <s x then 1 else 0)"

definition cu_size_cmp :: "u64 \<Rightarrow> u64 \<Rightarrow> int" where
  "cu_size_cmp n m = (if n < m then -1 else if n > m then 1 else 0)"

section \<open>Rounding\<close>

text \<open>Division by zero has no value in C: \<open>None\<close>.\<close>

definition cu_uint_ceil_div :: "u32 \<Rightarrow> u32 \<Rightarrow> u32 option" where
  "cu_uint_ceil_div x y = (if y = 0 then None else Some ((x + y - 1) div y))"

definition cu_ulong_ceil_div :: "u64 \<Rightarrow> u64 \<Rightarrow> u64 option" where
  "cu_ulong_ceil_div x y = (if y = 0 then None else Some ((x + y - 1) div y))"

definition cu_size_ceil_div :: "u64 \<Rightarrow> u64 \<Rightarrow> u64 option" where
  "cu_size_ceil_div n m = (if m = 0 then None else Some ((n + m - 1) div m))"

definition cu_size_mulceil :: "u64 \<Rightarrow> u64 \<Rightarrow> u64 option" where
  "cu_size_mulceil n m = map_option (\<lambda>q. q * m) (cu_size_ceil_div n m)"

definition cu_size_mulfloor :: "u64 \<Rightarrow> u64 \<Rightarrow> u64 option" where
  "cu_size_mulfloor n m = (if m = 0 then None else Some ((n div m) * m))"

text \<open>A shift by 64 or more places is undefined in C: \<open>None\<close>.\<close>

definition cu_size_lmask :: "nat \<Rightarrow> u64 option" where
  "cu_size_lmask b = (if b < 64 then Some (push_bit b 1 - 1) else None)"

definition cu_size_scal2ceil :: "u64 \<Rightarrow> nat \<Rightarrow> u64 option" where
  "cu_size_scal2ceil n b = map_option (\<lambda>m. (n + m) AND NOT m) (cu_size_lmask b)"

definition cu_size_scal2floor :: "u64 \<Rightarrow> nat \<Rightarrow> u64 option" where
  "cu_size_scal2floor n b = map_option (\<lambda>m. n AND NOT m) (cu_size_lmask b)"

section \<open>Bit counts\<close>

definition bit_count_table :: "u8 list" where
  "bit_count_table = [
      0, 1, 1, 2, 1, 2, 2, 3, 1, 2, 2, 3, 2, 3, 3, 4,
      1, 2, 2, 3, 2, 3, 3, 4, 2, 3, 3, 4, 3, 4, 4, 5,
      1, 2, 2, 3, 2, 3, 3, 4, 2, 3, 3, 4, 3, 4, 4, 5,
      2, 3, 3, 4, 3, 4, 4, 5, 3, 4, 4, 5, 4, 5, 5, 6,
      1, 2, 2, 3, 2, 3, 3, 4, 2, 3, 3, 4, 3, 4, 4, 5,
      2, 3, 3, 4, 3, 4, 4, 5, 3, 4, 4, 5, 4, 5, 5, 6,
      2, 3, 3, 4, 3, 4, 4, 5, 3, 4, 4, 5, 4, 5, 5, 6,
      3, 4, 4, 5, 4, 5, 5, 6, 4, 5, 5, 6, 5, 6, 6, 7,
      1, 2, 2, 3, 2, 3, 3, 4, 2, 3, 3, 4, 3, 4, 4, 5,
      2, 3, 3, 4, 3, 4, 4, 5, 3, 4, 4, 5, 4, 5, 5, 6,
      2, 3, 3, 4, 3, 4, 4, 5, 3, 4, 4, 5, 4, 5, 5, 6,
      3, 4, 4, 5, 4, 5, 5, 6, 4, 5, 5, 6, 5, 6, 6, 7,
      2, 3, 3, 4, 3, 4, 4, 5, 3, 4, 4, 5, 4, 5, 5, 6,
      3, 4, 4, 5, 4, 5, 5, 6, 4, 5, 5, 6, 5, 6, 6, 7,
      3, 4, 4, 5, 4, 5, 5, 6, 4, 5, 5, 6, 5, 6, 6, 7,
      4, 5, 5, 6, 5, 6, 6, 7, 5, 6, 6, 7, 6, 7, 7, 8]"

definition bit_count_at :: "nat \<Rightarrow> u32 option" where
  "bit_count_at i = (if i < 256 then Some (ucast (bit_count_table ! i)) else None)"

definition cu_uint8_bit_count :: "u8 \<Rightarrow> u32 option" where
  "cu_uint8_bit_count x = bit_count_at (unat x)"

definition cu_uint16_bit_count :: "u64 \<Rightarrow> u32 option" where
  "cu_uint16_bit_count x =
     (case bit_count_at (unat (x AND 0xff)) of None \<Rightarrow> None | Some r \<Rightarrow>
      let x = drop_bit 8 x in
      map_option (\<lambda>c. r + c) (bit_count_at (unat x)))"

definition cu_uint32_bit_count :: "u64 \<Rightarrow> u32 option" where
  "cu_uint32_bit_count x =
     (case bit_count_at (unat (x AND 0xff)) of None \<Rightarrow> None | Some r \<Rightarrow>
      let x = drop_bit 8 x in
      case bit_count_at (unat (x AND 0xff)) of None \<Rightarrow> None | Some c \<Rightarrow>
      let r = r + c; x = drop_bit 8 x in
      case bit_count_at (unat (x AND 0xff)) of None \<Rightarrow> None | Some c \<Rightarrow>
      let r = r + c; x = drop_bit 8 x in
      map_option (\<lambda>c. r + c) (bit_count_at (unat x)))"

fun bit_count_rounds :: "nat \<Rightarrow> u32 \<Rightarrow> u64 \<Rightarrow> (u32 \<times> u64) option" where
  "bit_count_rounds 0 r x = Some (r, x)"
| "bit_count_rounds (Suc n) r x =
     (case bit_count_at (unat (x AND 0xff)) of
        None \<Rightarrow> None
      | Some c \<Rightarrow> bit_count_rounds n (r + c) (drop_bit 8 x))"

text \<open>Seven masked rounds, then the last byte.\<close>

definition cu_uint64_bit_count :: "u64 \<Rightarrow> u32 option" where
  "cu_uint64_bit_count x =
     (case bit_count_rounds 7 0 x of
        None \<Rightarrow> None
      | Some (r, x) \<Rightarrow> map_option (\<lambda>c. r + c) (bit_count_at (unat x)))"

section \<open>Covers\<close>

definition cu_uint8_dcover :: "u8 \<Rightarrow> u8" where
  "cu_uint8_dcover x =
     (let x = x OR drop_bit 1 x; x = x OR drop_bit 2 x; x = x OR drop_bit 4 x in x)"

definition cu_uint16_dcover :: "u64 \<Rightarrow> u64" where
  "cu_uint16_dcover x =
     (let x = x OR drop_bit 1 x; x = x OR drop_bit 2 x; x = x OR drop_bit 4 x;
          x = x OR drop_bit 8 x in x)"

definition cu_uint32_dcover :: "u64 \<Rightarrow> u64" where
  "cu_uint32_dcover x =
     (let x = x OR drop_bit 1 x; x = x OR drop_bit 2 x; x = x OR drop_bit 4 x;
          x = x OR drop_bit 8 x; x = x OR drop_bit 16 x in x)"

definition cu_uint64_dcover :: "u64 \<Rightarrow> u64" where
  "cu_uint64_dcover x =
     (let x = x OR drop_bit 1 x; x = x OR drop_bit 2 x; x = x OR drop_bit 4 x;
          x = x OR drop_bit 8 x; x = x OR drop_bit 16 x; x = x OR drop_bit 32 x in x)"

definition cu_uintptr_dcover :: "u64 \<Rightarrow> u64" where
  "cu_uintptr_dcover x = cu_uint64_dcover x"

definition cu_ulong_dcover :: "u64 \<Rightarrow> u64" where
  "cu_ulong_dcover x = cu_uint64_dcover x"

definition cu_ulong_ucover :: "u64 \<Rightarrow> u64" where
  "cu_ulong_ucover x = x OR NOT (x - 1)"

definition cu_ulong_lzeros :: "u64 \<Rightarrow> u64" where
  "cu_ulong_lzeros x = NOT x AND (x - 1)"

definition cu_ulong_uzeros :: "u64 \<Rightarrow> u64" where
  "cu_ulong_uzeros x = NOT (cu_ulong_dcover x)"

definition cu_uint8_exp2_ceil_log2 :: "u8 \<Rightarrow> u8" where
  "cu_uint8_exp2_ceil_log2 x = cu_uint8_dcover (x - 1) + 1"

definition cu_uint64_exp2_ceil_log2 :: "u64 \<Rightarrow> u64" where
  "cu_uint64_exp2_ceil_log2 x = cu_uint64_dcover (x - 1) + 1"

definition cu_size_exp2floor :: "u64 \<Rightarrow> u64" where
  "cu_size_exp2floor n = drop_bit 1 (cu_uint64_dcover n) + 1"

section \<open>Logarithms\<close>

definition p_floor_log2_table :: "u8 list" where
  "p_floor_log2_table = [
      -1, 0, 1, 1, 2, 2, 2, 2, 3, 3, 3, 3, 3, 3, 3, 3,
      4, 4, 4, 4, 4, 4, 4, 4, 4, 4, 4, 4, 4, 4, 4, 4,
      5, 5, 5, 5, 5, 5, 5, 5, 5, 5, 5, 5, 5, 5, 5, 5,
      5, 5, 5, 5, 5, 5, 5, 5, 5, 5, 5, 5, 5, 5, 5, 5,
      6, 6, 6, 6, 6, 6, 6, 6, 6, 6, 6, 6, 6, 6, 6, 6,
      6, 6, 6, 6, 6, 6, 6, 6, 6, 6, 6, 6, 6, 6, 6, 6,
      6, 6, 6, 6, 6, 6, 6, 6, 6, 6, 6, 6, 6, 6, 6, 6,
      6, 6, 6, 6, 6, 6, 6, 6, 6, 6, 6, 6, 6, 6, 6, 6,
      7, 7, 7, 7, 7, 7, 7, 7, 7, 7, 7, 7, 7, 7, 7, 7,
      7, 7, 7, 7, 7, 7, 7, 7, 7, 7, 7, 7, 7, 7, 7, 7,
      7, 7, 7, 7, 7, 7, 7, 7, 7, 7, 7, 7, 7, 7, 7, 7,
      7, 7, 7, 7, 7, 7, 7, 7, 7, 7, 7, 7, 7, 7, 7, 7,
      7, 7, 7, 7, 7, 7, 7, 7, 7, 7, 7, 7, 7, 7, 7, 7,
      7, 7, 7, 7, 7, 7, 7, 7, 7, 7, 7, 7, 7, 7, 7, 7,
      7, 7, 7, 7, 7, 7, 7, 7, 7, 7, 7, 7, 7, 7, 7, 7,
      7, 7, 7, 7, 7, 7, 7, 7, 7, 7, 7, 7, 7, 7, 7, 7]"

text \<open>A \<open>signed char\<close> entry is sign-extended to \<open>unsigned int\<close>: entry 0 is \<open>UINT_MAX\<close>.\<close>

definition p_uint8_floor_log2 :: "u8 \<Rightarrow> u32" where
  "p_uint8_floor_log2 x = scast (p_floor_log2_table ! unat x)"

definition p_uint16_floor_log2 :: "u64 \<Rightarrow> u32" where
  "p_uint16_floor_log2 x =
     (if x \<ge> 0x100 then p_uint8_floor_log2 (ucast (drop_bit 8 x)) + 8
      else p_uint8_floor_log2 (ucast x))"

definition p_uint32_floor_log2 :: "u64 \<Rightarrow> u32" where
  "p_uint32_floor_log2 x =
     (if x \<ge> 0x10000 then p_uint16_floor_log2 (drop_bit 16 x) + 16
      else p_uint16_floor_log2 x)"

definition p_uint64_floor_log2 :: "u64 \<Rightarrow> u32" where
  "p_uint64_floor_log2 x =
     (if x \<ge> 0x100000000 then p_uint32_floor_log2 (drop_bit 32 x) + 32
      else p_uint32_floor_log2 x)"

definition cu_uint8_floor_log2 :: "u8 \<Rightarrow> u32 option" where
  "cu_uint8_floor_log2 x = (if x > 0 then Some (p_uint8_floor_log2 x) else None)"

definition cu_uint16_floor_log2 :: "u64 \<Rightarrow> u32 option" where
  "cu_uint16_floor_log2 x = (if x > 0 then Some (p_uint16_floor_log2 x) else None)"

definition cu_uint32_floor_log2 :: "u64 \<Rightarrow> u32 option" where
  "cu_uint32_floor_log2 x = (if x > 0 then Some (p_uint32_floor_log2 x) else None)"

definition cu_uint64_floor_log2 :: "u64 \<Rightarrow> u32 option" where
  "cu_uint64_floor_log2 x = (if x > 0 then Some (p_uint64_floor_log2 x) else None)"

definition cu_uint8_ceil_log2 :: "u8 \<Rightarrow> u32 option" where
  "cu_uint8_ceil_log2 x = (if x > 0 then Some (p_uint8_floor_log2 (x - 1) + 1) else None)"

definition cu_uint16_ceil_log2 :: "u64 \<Rightarrow> u32 option" where
  "cu_uint16_ceil_log2 x = (if x > 0 then Some (p_uint16_floor_log2 (x - 1) + 1) else None)"

definition cu_uint32_ceil_log2 :: "u64 \<Rightarrow> u32 option" where
  "cu_uint32_ceil_log2 x = (if x > 0 then Some (p_uint32_floor_log2 (x - 1) + 1) else None)"

definition cu_uint64_ceil_log2 :: "u64 \<Rightarrow> u32 option" where
  "cu_uint64_ceil_log2 x = (if x > 0 then Some (p_uint64_floor_log2 (x - 1) + 1) else None)"

definition cu_uint64_log2_lowbit :: "u64 \<Rightarrow> u32 option" where
  "cu_uint64_log2_lowbit x = (if x = 0 then None else cu_uint64_bit_count (NOT x AND (x - 1)))"

section \<open>Byte order\<close>

text \<open>The little-endian branch of the conditional compilation.\<close>

definition cu_uint16_hton :: "u16 \<Rightarrow> u16" where
  "cu_uint16_hton i = (drop_bit 8 i) OR (push_bit 8 (i AND 0xff))"

definition cu_uint32_hton :: "u32 \<Rightarrow> u32" where
  "cu_uint32_hton i = ((drop_bit 24 i OR push_bit 24 (i AND 0xff))
     OR drop_bit 8 (i AND 0xff0000)) OR push_bit 8 (i AND 0xff00)"

section \<open>Machine words\<close>

definition cu_word_rcmp :: "u64 \<Rightarrow> u64 \<Rightarrow> int" where
  "cu_word_rcmp w0 w1 =
     (let d = w0 XOR w1; m = (d - 1) XOR d; w0 = w0 AND m; w1 = w1 AND m
      in if w0 < w1 then -1 else if w0 > w1 then 1 else 0)"

section \<open>Bit counts are population counts\<close>

primrec popcounts :: "nat \<Rightarrow> nat list" where
  "popcounts 0 = [0]"
| "popcounts (Suc k) = popcounts k @ map Suc (popcounts k)"

lemma bit_count_table_eq: "bit_count_table = map of_nat (popcounts 8)"
  by (simp add: bit_count_table_def eval_nat_numeral)

lemma length_popcounts [simp]: "length (popcounts k) = 2 ^ k"
  by (induction k) auto

lemma card_bits_Suc:
  "card {n. n < Suc k \<and> P n} = card {n. n < k \<and> P n} + of_bool (P k)"
proof -
  have "{n. n < Suc k \<and> P n} = {n. n < k \<and> P n} \<union> (if P k then {k} else {})"
    by (auto simp: less_Suc_eq)
  then show ?thesis
    by (simp add: card_insert_if)
qed

lemma popcounts_nth: "m < 2 ^ k \<Longrightarrow> popcounts k ! m = card {n. n < k \<and> bit m n}"
proof (induction k arbitrary: m)
  case 0
  then show ?case by simp
next
  case (Suc k)
  show ?case
  proof (cases "m < 2 ^ k")
    case True
    then have "\<not> bit m k" by (simp add: bit_iff_odd)
    with True Suc.IH show ?thesis
      by (simp add: nth_append card_bits_Suc)
  next
    case False
    define m' where "m' = m - 2 ^ k"
    have m': "m = m' + 2 ^ k" "m' < 2 ^ k"
      using False Suc.prems by (auto simp: m'_def)
    have "bit m k" using m' by (simp add: bit_iff_odd div_add_self2)
    moreover have "n < k \<Longrightarrow> bit m n \<longleftrightarrow> bit m' n" for n
    proof -
      assume "n < k"
      then obtain d where "k = n + Suc d" using less_iff_Suc_add by auto
      then have "m = m' + 2 * 2 ^ d * 2 ^ n" by (simp add: m' power_add mult.commute mult.left_commute)
      then show ?thesis by (simp add: bit_iff_odd)
    qed
    ultimately show ?thesis
      using False m' Suc.IH [of m'] by (simp add: nth_append card_bits_Suc cong: conj_cong)
  qed
qed
lemma bit_count_at_correct:
  assumes "m < 256"
  shows "bit_count_at m = Some (of_nat (card {n. n < 8 \<and> bit m n}))"
proof -
  have "popcounts 8 ! m \<le> 8"
    using popcounts_nth [of m 8] assms card_mono [of "{..<8}" "{n. n < 8 \<and> bit m n}"] by auto
  then have "(ucast (of_nat (popcounts 8 ! m) :: u8) :: u32) = of_nat (popcounts 8 ! m)"
    by (simp add: unsigned_of_nat take_bit_nat_eq_self)
  with assms show ?thesis by (simp add: bit_count_at_def bit_count_table_eq popcounts_nth)
qed

lemma bit_count_at_byte:
  "bit_count_at (unat (x AND 0xff :: u64)) = Some (of_nat (card {n. n < 8 \<and> bit x n}))"
proof -
  have "x AND 0xff = take_bit 8 x"
    by (simp add: take_bit_eq_mask mask_eq_exp_minus_1)
  moreover have "unat (take_bit 8 x) < 256"
    by (simp only: unsigned_take_bit_eq) (simp add: take_bit_eq_mod)
  moreover have "bit (unat (take_bit 8 x)) n \<longleftrightarrow> n < 8 \<and> bit x n" for n
    by (auto simp: bit_simps)
  ultimately show ?thesis
    by (simp add: bit_count_at_correct conj_commute cong: conj_cong)
qed
lemma bit_count_rounds_correct:
  "bit_count_rounds k r x = Some (r + of_nat (card {n. n < 8 * k \<and> bit x n}), drop_bit (8 * k) x)"
proof (induction k arbitrary: r x)
  case 0
  then show ?case by simp
next
  case (Suc k)
  have "{n. n < 8 * Suc k \<and> bit x n} =
     {n. n < 8 \<and> bit x n} \<union> (\<lambda>n. n + 8) ` {n. n < 8 * k \<and> bit x (n + 8)}" (is "_ = ?A \<union> ?B")
  proof (intro equalityI subsetI)
    fix n assume "n \<in> {n. n < 8 * Suc k \<and> bit x n}"
    then show "n \<in> ?A \<union> ?B"
      by (cases "n < 8") (auto intro!: image_eqI [of _ _ "n - 8"])
  qed auto
  moreover have "?A \<inter> ?B = {}" by auto
  ultimately have "card {n. n < 8 * Suc k \<and> bit x n}
      = card {n. n < 8 \<and> bit x n} + card {n. n < 8 * k \<and> bit x (n + 8)}"
    by (simp add: card_Un_disjoint card_image)
  then show ?case
    by (simp add: bit_count_at_byte Suc.IH bit_simps add.commute)
qed

theorem cu_uint64_bit_count_correct:
  "cu_uint64_bit_count x = Some (of_nat (card {n. bit x n}))"
proof -
  have top: "unat (drop_bit 56 x) < 256"
    using unat_u64_bound [of x] by (simp add: unat_drop_bit)
  have "bit (unat (drop_bit 56 x)) n \<longleftrightarrow> bit x (56 + n)" for n
    by (auto simp: bit_simps)
  then have last: "bit_count_at (unat (drop_bit 56 x)) = Some (of_nat (card {n. n < 8 \<and> bit x (56 + n)}))"
    using bit_count_at_correct [OF top] by simp
  have "{n. bit x n} = {n. n < 56 \<and> bit x n} \<union> (\<lambda>n. 56 + n) ` {n. n < 8 \<and> bit x (56 + n)}"
    (is "_ = ?A \<union> ?B")
  proof (intro equalityI subsetI)
    fix n assume "n \<in> {n. bit x n}"
    then show "n \<in> ?A \<union> ?B"
      by (cases "n < 56") (auto dest: bit_u64_bound intro!: image_eqI [of _ _ "n - 56"])
  qed auto
  moreover have "?A \<inter> ?B = {}" by auto
  ultimately have "card {n. bit x n} = card {n. n < 56 \<and> bit x n} + card {n. n < 8 \<and> bit x (56 + n)}"
    by (simp add: card_Un_disjoint card_image)
  then show ?thesis
    using bit_count_rounds_correct [of 7 0 x] by (simp add: cu_uint64_bit_count_def last)
qed

theorem cu_uint64_log2_lowbit_correct:
  "cu_uint64_log2_lowbit x = (if x = 0 then None else Some (of_nat (lowest x)))"
proof -
  have "{n. bit (mask (lowest x) :: u64) n} = {..<lowest x}"
    using lowest_le [of x] by (auto simp: bit_simps intro: order_less_le_trans)
  then show ?thesis
    by (simp add: cu_uint64_log2_lowbit_def lzeros_mask cu_uint64_bit_count_correct)
qed

section \<open>The downward cover\<close>

lemma dcover_step:
  fixes x y :: "'a::len word"
  assumes "\<And>n. bit y n \<longleftrightarrow> (\<exists>i<w. bit x (n + i))"
  shows "bit (y OR drop_bit w y) n \<longleftrightarrow> (\<exists>i<2 * w. bit x (n + i))"
proof
  assume "bit (y OR drop_bit w y) n"
  then have "(\<exists>i<w. bit x (n + i)) \<or> (\<exists>i<w. bit x (n + (w + i)))"
    by (simp add: bit_simps assms add.assoc add.left_commute)
  then show "\<exists>i<2 * w. bit x (n + i)"
  proof
    assume "\<exists>i<w. bit x (n + (w + i))"
    then obtain i where "i < w" "bit x (n + (w + i))" by blast
    then show ?thesis by (intro exI [of _ "w + i"]) simp
  next
    assume "\<exists>i<w. bit x (n + i)"
    then obtain i where "i < w" "bit x (n + i)" by blast
    then show ?thesis by (intro exI [of _ i]) simp
  qed
next
  assume "\<exists>i<2 * w. bit x (n + i)"
  then obtain i where i: "i < 2 * w" "bit x (n + i)" by blast
  show "bit (y OR drop_bit w y) n"
  proof (cases "i < w")
    case True
    with i show ?thesis by (auto simp: bit_simps assms)
  next
    case False
    then have "i - w < w" "bit x (w + n + (i - w))"
      using i by auto
    then show ?thesis by (auto simp: bit_simps assms)
  qed
qed

lemma bit_dcover_unroll:
  "bit (cu_uint64_dcover x) n \<longleftrightarrow> (\<exists>i<64. bit x (n + i))"
proof -
  have s0: "bit x n \<longleftrightarrow> (\<exists>i<1. bit x (n + i))" for n by simp
  note s1 = dcover_step [of x 1 x, OF s0, simplified mult_1_right]
  note s2 = dcover_step [OF s1]
  note s3 = dcover_step [OF s2]
  note s4 = dcover_step [OF s3]
  note s5 = dcover_step [OF s4]
  note s6 = dcover_step [OF s5]
  show ?thesis
    unfolding cu_uint64_dcover_def Let_def using s6 by simp
qed

theorem cu_uint64_dcover_correct [bit_facts]:
  "bit (cu_uint64_dcover x) n \<longleftrightarrow> (\<exists>m\<ge>n. bit x m)"
  unfolding bit_dcover_unroll
proof
  assume "\<exists>m\<ge>n. bit x m"
  then obtain m where "n \<le> m" "bit x m" by blast
  then show "\<exists>i<64. bit x (n + i)"
    using bit_u64_bound [of x m] by (intro exI [of _ "m - n"]) auto
qed (meson le_add1)

section \<open>Correctness of the logarithms\<close>

definition is_floor_log2 :: "nat \<Rightarrow> nat \<Rightarrow> bool" where
  "is_floor_log2 x r \<longleftrightarrow> 2 ^ r \<le> x \<and> x < 2 ^ Suc r"

definition is_ceil_log2 :: "nat \<Rightarrow> nat \<Rightarrow> bool" where
  "is_ceil_log2 x r \<longleftrightarrow> x \<le> 2 ^ r \<and> (\<forall>s<r. 2 ^ s < x)"

primrec floorlogs :: "nat \<Rightarrow> nat list" where
  "floorlogs 0 = []"
| "floorlogs (Suc k) = floorlogs k @ replicate (2 ^ k) k"

lemma p_floor_log2_table_eq: "p_floor_log2_table = -1 # map of_nat (floorlogs 8)"
  by (simp add: p_floor_log2_table_def eval_nat_numeral)

lemma length_floorlogs: "Suc (length (floorlogs k)) = 2 ^ k"
  by (induction k) auto

lemma floorlogs_nth: "Suc m < 2 ^ k \<Longrightarrow> floorlogs k ! m < k \<and> is_floor_log2 (Suc m) (floorlogs k ! m)"
proof (induction k)
  case 0
  then show ?case by simp
next
  case (Suc k)
  show ?case
  proof (cases "Suc m < 2 ^ k")
    case True
    then have "m < length (floorlogs k)" using length_floorlogs [of k] by simp
    then show ?thesis using Suc.IH True by (simp add: nth_append)
  next
    case False
    then have "\<not> m < length (floorlogs k)" "m - length (floorlogs k) < 2 ^ k"
      using length_floorlogs [of k] Suc.prems by auto
    then have "floorlogs (Suc k) ! m = k" by (simp add: nth_append)
    then show ?thesis using False Suc.prems by (simp add: is_floor_log2_def)
  qed
qed

lemma p_uint8_floor_log2_correct:
  assumes "x \<noteq> 0"
  shows "unat (p_uint8_floor_log2 x) < 8 \<and> is_floor_log2 (unat x) (unat (p_uint8_floor_log2 x))"
proof -
  obtain m where m: "unat x = Suc m"
    using assms by (metis not0_implies_Suc unat_eq_zero)
  have "unat x < 2 ^ 8" using unsigned_less [of x, where 'a = nat] by simp
  then have f: "floorlogs 8 ! m < 8" "is_floor_log2 (Suc m) (floorlogs 8 ! m)" "m < length (floorlogs 8)"
    using floorlogs_nth [of m 8] length_floorlogs [of 8] m by auto
  then have "p_uint8_floor_log2 x = scast (of_nat (floorlogs 8 ! m) :: u8)"
    by (simp add: p_uint8_floor_log2_def p_floor_log2_table_eq m)
  also have "\<dots> = of_nat (floorlogs 8 ! m)"
  proof -
    from f(1) have "floorlogs 8 ! m \<in> {0,1,2,3,4,5,6,7}" by auto
    then show ?thesis by auto
  qed
  finally have "unat (p_uint8_floor_log2 x) = floorlogs 8 ! m"
    using f(1) by (simp add: unsigned_of_nat take_bit_nat_eq_self)
  with f m show ?thesis by simp
qed

lemma is_floor_log2_shift:
  assumes "is_floor_log2 (x div 2 ^ k) r"
  shows "is_floor_log2 x (r + k)"
proof -
  have "2 ^ r * 2 ^ k \<le> x"
    using assms by (simp add: is_floor_log2_def less_eq_div_iff_mult_less_eq)
  moreover have "x < 2 * 2 ^ r * 2 ^ k"
    using assms by (simp add: is_floor_log2_def div_less_iff_less_mult)
  ultimately show ?thesis by (simp add: is_floor_log2_def power_add mult.assoc)
qed

lemma unat_add_small: "unat (r :: u32) + n < 2 ^ 32 \<Longrightarrow> unat (r + of_nat n) = unat r + n"
  by (simp add: unat_word_ariths unsigned_of_nat take_bit_nat_eq_self)

lemma unat_ge_iff: "(numeral n \<le> (x :: u64)) \<longleftrightarrow> unat (numeral n :: u64) \<le> unat x"
  by (simp add: word_le_nat_alt)

lemma p_uint16_floor_log2_correct:
  assumes "x \<noteq> 0" and "unat x < 2 ^ 16"
  shows "unat (p_uint16_floor_log2 x) < 16 \<and> is_floor_log2 (unat x) (unat (p_uint16_floor_log2 x))"
proof (cases "x \<ge> 0x100")
  case True
  let ?y = "ucast (drop_bit 8 x) :: u8"
  have y: "unat ?y = unat x div 2 ^ 8"
    using assms by (simp add: unsigned_ucast_eq take_bit_nat_eq_self unat_drop_bit)
  have "?y \<noteq> 0"
    using True y by (auto simp: word_le_nat_alt unat_eq_zero [symmetric])
  then have "unat (p_uint8_floor_log2 ?y) < 8" "is_floor_log2 (unat x div 2 ^ 8) (unat (p_uint8_floor_log2 ?y))"
    using p_uint8_floor_log2_correct [of ?y] y by auto
  then show ?thesis
    using True unat_add_small [of "p_uint8_floor_log2 ?y" 8]
    by (simp add: p_uint16_floor_log2_def is_floor_log2_shift)
next
  case False
  then have "unat (ucast x :: u8) = unat x"
    by (simp add: word_le_nat_alt unsigned_ucast_eq take_bit_nat_eq_self)
  moreover from this have "(ucast x :: u8) \<noteq> 0"
    using assms(1) by (metis unat_eq_zero)
  ultimately show ?thesis
    using False p_uint8_floor_log2_correct [of "ucast x"]
    by (simp add: p_uint16_floor_log2_def)
qed

lemma p_uint32_floor_log2_correct:
  assumes "x \<noteq> 0" and "unat x < 2 ^ 32"
  shows "unat (p_uint32_floor_log2 x) < 32 \<and> is_floor_log2 (unat x) (unat (p_uint32_floor_log2 x))"
proof (cases "x \<ge> 0x10000")
  case True
  let ?y = "drop_bit 16 x"
  have y: "unat ?y = unat x div 2 ^ 16" "unat ?y < 2 ^ 16" 
    using assms by (simp_all add: unat_drop_bit)
  have "?y \<noteq> 0"
    using True y by (auto simp: word_le_nat_alt unat_eq_zero [symmetric])
  then have "unat (p_uint16_floor_log2 ?y) < 16" "is_floor_log2 (unat x div 2 ^ 16) (unat (p_uint16_floor_log2 ?y))"
    using p_uint16_floor_log2_correct [of ?y] y by auto
  then show ?thesis
    using True unat_add_small [of "p_uint16_floor_log2 ?y" 16]
    by (simp add: p_uint32_floor_log2_def is_floor_log2_shift)
next
  case False
  then show ?thesis
    using assms p_uint16_floor_log2_correct [of x]
    by (simp add: p_uint32_floor_log2_def word_le_nat_alt)
qed

lemma p_uint64_floor_log2_correct:
  assumes "x \<noteq> 0"
  shows "unat (p_uint64_floor_log2 x) < 64 \<and> is_floor_log2 (unat x) (unat (p_uint64_floor_log2 x))"
proof (cases "x \<ge> 0x100000000")
  case True
  let ?y = "drop_bit 32 x"
  have y: "unat ?y = unat x div 2 ^ 32" "unat ?y < 2 ^ 32" 
    using unat_u64_bound [of x] by (simp_all add: unat_drop_bit)
  have "?y \<noteq> 0"
    using True y by (auto simp: word_le_nat_alt unat_eq_zero [symmetric])
  then have "unat (p_uint32_floor_log2 ?y) < 32" "is_floor_log2 (unat x div 2 ^ 32) (unat (p_uint32_floor_log2 ?y))"
    using p_uint32_floor_log2_correct [of ?y] y by auto
  then show ?thesis
    using True unat_add_small [of "p_uint32_floor_log2 ?y" 32]
    by (simp add: p_uint64_floor_log2_def is_floor_log2_shift)
next
  case False
  then show ?thesis
    using assms p_uint32_floor_log2_correct [of x]
    by (simp add: p_uint64_floor_log2_def word_le_nat_alt)
qed

lemma is_floor_log2_unique:
  assumes "is_floor_log2 n a" and "is_floor_log2 n b"
  shows "a = b"
proof -
  have "\<not> c < d" if "is_floor_log2 n c" "is_floor_log2 n d" for c d
  proof
    assume "c < d"
    then have "(2::nat) ^ Suc c \<le> 2 ^ d" by (intro power_increasing) auto
    with that show False by (simp add: is_floor_log2_def)
  qed
  with assms show ?thesis by (meson linorder_neqE_nat)
qed

theorem cu_uint64_floor_log2_correct:
  "cu_uint64_floor_log2 x = Some r \<longleftrightarrow> x \<noteq> 0 \<and> is_floor_log2 (unat x) (unat r)"
proof -
  show ?thesis
    using p_uint64_floor_log2_correct [of x] is_floor_log2_unique
    by (auto simp: cu_uint64_floor_log2_def word_gt_0 word_unat_eq_iff)
qed

lemma is_ceil_log2_from_floor:
  assumes "is_floor_log2 x r"
  shows "is_ceil_log2 (Suc x) (Suc r)"
proof -
  have "2 ^ s < Suc x" if "s < Suc r" for s
  proof -
    have "(2::nat) ^ s \<le> 2 ^ r" using that by (simp add: power_increasing)
    also have "2 ^ r < Suc x" using assms by (simp add: is_floor_log2_def)
    finally show ?thesis .
  qed
  then show ?thesis using assms by (simp add: is_ceil_log2_def is_floor_log2_def)
qed

theorem cu_uint64_ceil_log2_correct:
  assumes "x \<noteq> 0"
  shows "\<exists>r. cu_uint64_ceil_log2 x = Some r \<and> is_ceil_log2 (unat x) (unat r)"
proof (cases "x = 1")
  case True
  have "p_uint8_floor_log2 0 = -1"
    by (simp add: p_uint8_floor_log2_def p_floor_log2_table_eq)
  then have "cu_uint64_ceil_log2 x = Some 0"
    by (simp add: True cu_uint64_ceil_log2_def p_uint64_floor_log2_def p_uint32_floor_log2_def
        p_uint16_floor_log2_def)
  then show ?thesis by (simp add: True is_ceil_log2_def)
next
  case False
  then have "x - 1 \<noteq> 0" by simp
  then have f: "unat (p_uint64_floor_log2 (x - 1)) < 64"
    "is_floor_log2 (unat (x - 1)) (unat (p_uint64_floor_log2 (x - 1)))"
    using p_uint64_floor_log2_correct by blast+
  have "unat x = Suc (unat (x - 1))"
    using assms by (simp add: unat_minus_one unat_gt_0)
  moreover have "unat (p_uint64_floor_log2 (x - 1) + 1) = Suc (unat (p_uint64_floor_log2 (x - 1)))"
    using f(1) unat_add_small [of "p_uint64_floor_log2 (x - 1)" 1] by simp
  ultimately show ?thesis
    using assms is_ceil_log2_from_floor [OF f(2)] by (simp add: cu_uint64_ceil_log2_def word_gt_0)
qed

section \<open>Correctness of rounding and order\<close>

theorem cu_size_ceil_div_correct:
  assumes "m \<noteq> 0" and "unat n + unat m \<le> 2 ^ 64"
  shows "\<exists>q. cu_size_ceil_div n m = Some q \<and> unat n \<le> unat q * unat m \<and> unat q * unat m < unat n + unat m"
proof -
  have pos: "0 < unat m" using assms(1) by (simp add: unat_gt_0)
  have "unat (n + m - 1) = unat n + unat m - 1"
  proof -
    have "unat (m - 1) = unat m - 1" using assms(1) by (simp add: unat_minus_one)
    moreover have "unat (n + (m - 1)) = unat n + unat (m - 1)"
      using assms(2) pos calculation by (simp add: unat_word_ariths)
    ultimately show ?thesis
      using pos by (simp add: add_diff_eq)
  qed
  then have q: "unat ((n + m - 1) div m) = (unat n + unat m - 1) div unat m"
    by (simp add: unat_div)
  define q where "q = (unat n + unat m - 1) div unat m"
  have "q * unat m + (unat n + unat m - 1) mod unat m = unat n + unat m - 1"
    unfolding q_def by simp
  moreover have "(unat n + unat m - 1) mod unat m < unat m" using pos by simp
  ultimately have "unat n \<le> q * unat m \<and> q * unat m < unat n + unat m" using pos by linarith
  then show ?thesis
    using assms(1) q by (simp add: cu_size_ceil_div_def q_def)
qed

theorem cu_uint16_hton_involutive: "cu_uint16_hton (cu_uint16_hton i) = i"
proof (rule bit_word_eqI)
  have [simp]: "(0xff :: u16) = mask 8" by (simp add: mask_eq_exp_minus_1)
  fix n assume "n < LENGTH(16)"
  then show "bit (cu_uint16_hton (cu_uint16_hton i)) n \<longleftrightarrow> bit i n"
    by (cases "n < 8") (auto simp: cu_uint16_hton_def bit_simps)
qed

lemma cu_long_sgn_truncates: "cu_long_sgn 0x100000000 = 0"
  by (simp add: cu_long_sgn_def word_sless_alt)

theorem cu_uint32_hton_involutive: "cu_uint32_hton (cu_uint32_hton i) = i"
proof (rule bit_word_eqI)
  have [simp]: "(0xff :: u32) = mask 8" "(0xff00 :: u32) = push_bit 8 (mask 8)"
    "(0xff0000 :: u32) = push_bit 16 (mask 8)" by (simp_all add: mask_eq_exp_minus_1)
  fix n assume "n < LENGTH(32)"
  then consider "n < 8" | "8 \<le> n" "n < 16" | "16 \<le> n" "n < 24" | "24 \<le> n" "n < 32" by force
  then show "bit (cu_uint32_hton (cu_uint32_hton i)) n \<longleftrightarrow> bit i n"
    by cases (auto simp: cu_uint32_hton_def bit_simps dest: bit_imp_le_length)
qed

theorem cu_word_rcmp_correct:
  "cu_word_rcmp w0 w1 =
     (if w0 = w1 then 0 else if bit w1 (lowest (w0 XOR w1)) then -1 else 1)"
proof (cases "w0 = w1")
  case True
  then show ?thesis by (simp add: cu_word_rcmp_def)
next
  case False
  define z where "z = lowest (w0 XOR w1)"
  have differ: "bit w0 z \<noteq> bit w1 z"
    using lowest_bit [of "w0 XOR w1"] False by (simp add: z_def bit_simps xor_eq_zero_iff)
  have agree: "take_bit z w0 = take_bit z w1"
    using lowest_below [of _ "w0 XOR w1"] by (auto simp: z_def bit_eq_iff bit_simps)
  have m: "((w0 XOR w1) - 1) XOR (w0 XOR w1) = mask (Suc z)"
    using xor_minus_one [of "w0 XOR w1"] by (simp add: z_def ac_simps)
  have u: "unat (w AND mask (Suc z)) = 2 ^ z * of_bool (bit w z) + unat (take_bit z w)" for w :: u64
  proof -
    have "unat (w AND mask (Suc z)) = take_bit (Suc z) (unat w)"
      by (rule bit_eqI) (auto simp: bit_simps)
    moreover have "unat (take_bit z w) = take_bit z (unat w)"
      by (rule bit_eqI) (auto simp: bit_simps)
    moreover have "bit (unat w) z \<longleftrightarrow> bit w z"
      by (simp add: bit_simps)
    ultimately show ?thesis
      by (simp add: take_bit_Suc_from_most)
  qed
  have "w0 AND mask (Suc z) < w1 AND mask (Suc z) \<longleftrightarrow> bit w1 z"
       "w1 AND mask (Suc z) < w0 AND mask (Suc z) \<longleftrightarrow> bit w0 z"
    using differ unfolding word_less_nat_alt u agree by auto
  then show ?thesis
    using False differ by (simp add: cu_word_rcmp_def m Let_def flip: z_def)
qed

section \<open>Powers of two by covers\<close>

lemma dcover_floor_log2:
  assumes "is_floor_log2 (unat x) h"
  shows "cu_uint64_dcover x = mask (Suc h)"
proof (rule word_eq_bitI)
  fix n :: nat
  have "unat x div 2 ^ h = 1" using assms by (intro div_nat_eqI) (simp_all add: is_floor_log2_def)
  then have "bit x h" by (simp add: bit_unat_u64)
  moreover have "\<not> bit x m" if "h < m" for m
  proof -
    have "(2::nat) ^ Suc h \<le> 2 ^ m" using that by (intro power_increasing) auto
    then have "unat x < 2 ^ m" using assms by (simp add: is_floor_log2_def)
    then show ?thesis by (simp add: bit_unat_u64)
  qed
  ultimately have "(\<exists>m\<ge>n. bit x m) \<longleftrightarrow> n \<le> h" by (meson not_le order_trans)
  moreover assume "n < 64"
  ultimately show "bit (cu_uint64_dcover x) n \<longleftrightarrow> bit (mask (Suc h) :: u64) n"
    by (auto simp: cu_uint64_dcover_correct bit_simps less_Suc_eq_le)
qed

lemma floor_log2_exists:
  assumes "x \<noteq> (0 :: u64)"
  obtains h where "h < 64" "is_floor_log2 (unat x) h"
  using p_uint64_floor_log2_correct [OF assms] by blast

lemma exp2floor_correct:
  assumes "x \<noteq> 0"
  shows "\<exists>h. is_floor_log2 (unat x) h \<and> cu_size_exp2floor x = 2 ^ h"
proof -
  obtain h where h: "h < 64" "is_floor_log2 (unat x) h" using assms by (rule floor_log2_exists)
  have "drop_bit 1 (mask (Suc h)) = (mask h :: u64)"
    using h by (intro word_eq_bitI) (auto simp: bit_simps)
  then have "cu_size_exp2floor x = 2 ^ h"
    by (simp add: cu_size_exp2floor_def dcover_floor_log2 [OF h(2)] mask_eq_exp_minus_1)
  then show ?thesis using h by blast
qed

lemma exp2_ceil_log2_correct:
  assumes "x \<noteq> 0"
  shows "\<exists>r. is_ceil_log2 (unat x) r \<and> cu_uint64_exp2_ceil_log2 x = 2 ^ r"
proof (cases "x = 1")
  case True
  then show ?thesis
    by (intro exI [of _ 0]) (simp add: is_ceil_log2_def cu_uint64_exp2_ceil_log2_def cu_uint64_dcover_def)
next
  case False
  then have "x - 1 \<noteq> 0" by simp
  then obtain h where h: "h < 64" "is_floor_log2 (unat (x - 1)) h" by (rule floor_log2_exists)
  have "Suc (unat (x - 1)) = unat x" using assms by (simp add: unat_minus_one unat_gt_0)
  then have "is_ceil_log2 (unat x) (Suc h)" using is_ceil_log2_from_floor [OF h(2)] by simp
  moreover have "cu_uint64_exp2_ceil_log2 x = 2 ^ Suc h"
    by (simp add: cu_uint64_exp2_ceil_log2_def dcover_floor_log2 [OF h(2)] mask_eq_exp_minus_1)
  ultimately show ?thesis by blast
qed

section \<open>Properties\<close>

text \<open>the table-driven population count of \<open>cu_uint64_bit_count\<close> never indexes its
  table out of bounds and returns the number of set bits.\<close>

theorem bit_count_is_popcount:
  "cu_uint64_bit_count x = Some (of_nat (card {n. bit x n}))"
  by (rule cu_uint64_bit_count_correct)

text \<open>on a nonzero word \<open>cu_uint64_log2_lowbit\<close> passes its argument check and returns the
  position of the lowest set bit; on zero the check fails.\<close>

theorem log2_lowbit_position:
  assumes "x \<noteq> 0"
  shows "(\<exists>r. cu_uint64_log2_lowbit x = Some r \<and> bit x (unat r) \<and> (\<forall>n<unat r. \<not> bit x n))
    \<and> cu_uint64_log2_lowbit 0 = None"
proof -
  have "unat (of_nat (lowest x) :: u32) = lowest x"
    using lowest_less [OF assms] by (simp add: unsigned_of_nat take_bit_nat_eq_self)
  then show ?thesis
    using assms lowest_bit [OF assms] lowest_below [of _ x] by (simp add: cu_uint64_log2_lowbit_correct)
qed

theorem log2_lowbit_position_witness:
  "\<exists>r. cu_uint64_log2_lowbit 40 = Some r \<and> bit (40 :: u64) (unat r) \<and> (\<forall>n<unat r. \<not> bit (40 :: u64) n)"
  using log2_lowbit_position [of 40] by simp

text \<open>\<open>cu_uint64_floor_log2\<close> returns \<open>r\<close> exactly when its argument is nonzero and lies
  between \<open>2 ^ r\<close> and \<open>2 ^ (r + 1)\<close>.\<close>

theorem floor_log2_exact:
  "cu_uint64_floor_log2 x = Some r \<longleftrightarrow> x \<noteq> 0 \<and> 2 ^ unat r \<le> unat x \<and> unat x < 2 ^ Suc (unat r)"
  using cu_uint64_floor_log2_correct [of x r] by (simp add: is_floor_log2_def)

text \<open>\<open>cu_uint64_ceil_log2\<close> of a nonzero number is the least exponent whose power of two
  reaches it.\<close>

theorem ceil_log2_exact:
  assumes "x \<noteq> 0"
  shows "\<exists>r. cu_uint64_ceil_log2 x = Some r \<and> unat x \<le> 2 ^ unat r \<and> (\<forall>s<unat r. 2 ^ s < unat x)"
  using cu_uint64_ceil_log2_correct [OF assms] by (simp add: is_ceil_log2_def)

theorem ceil_log2_exact_witness:
  "\<exists>r. cu_uint64_ceil_log2 9 = Some r \<and> unat (9 :: u64) \<le> 2 ^ unat r \<and> (\<forall>s<unat r. 2 ^ s < unat (9 :: u64))"
  using ceil_log2_exact [of 9] by simp

text \<open>\<open>cu_size_exp2floor\<close> is the greatest power of two not above its nonzero argument,
  \<open>cu_uint64_exp2_ceil_log2\<close> the least one not below it (which wraps to zero above \<open>2 ^ 63\<close>).\<close>

theorem exp2_floor_ceil:
  assumes "x \<noteq> 0"
  shows "(\<exists>h. is_floor_log2 (unat x) h \<and> cu_size_exp2floor x = 2 ^ h)
    \<and> (\<exists>r. is_ceil_log2 (unat x) r \<and> cu_uint64_exp2_ceil_log2 x = 2 ^ r)"
  using exp2floor_correct [OF assms] exp2_ceil_log2_correct [OF assms] by blast

theorem exp2_floor_ceil_witness:
  "(\<exists>h. is_floor_log2 (unat (12 :: u64)) h \<and> cu_size_exp2floor 12 = 2 ^ h)
    \<and> (\<exists>r. is_ceil_log2 (unat (12 :: u64)) r \<and> cu_uint64_exp2_ceil_log2 12 = 2 ^ r)"
  using exp2_floor_ceil [of 12] by simp

text \<open>the rounding division of \<open>cu/size.h\<close> returns the least quotient that covers \<open>n\<close>,
  provided the sum of its arguments does not overflow.\<close>

theorem ceil_div_least:
  assumes "m \<noteq> 0" and "unat n + unat m \<le> 2 ^ 64"
  shows "\<exists>q. cu_size_ceil_div n m = Some q \<and> unat n \<le> unat q * unat m \<and> unat q * unat m < unat n + unat m"
  using assms by (rule cu_size_ceil_div_correct)

theorem ceil_div_least_witness:
  "\<exists>q. cu_size_ceil_div 10 4 = Some q \<and> 10 \<le> unat q * 4 \<and> unat q * 4 < 14"
  using ceil_div_least [of 4 10] by simp

text \<open>\<open>cu_word_rcmp\<close> compares words as bit strings with the least significant bit first:
  the lowest differing bit decides.\<close>

theorem word_rcmp_bit_order:
  "cu_word_rcmp w0 w1 =
     (if w0 = w1 then 0 else if bit w1 (lowest (w0 XOR w1)) then -1 else 1)"
  by (rule cu_word_rcmp_correct)

text \<open>The byte-order conversions of 16 and 32 bits are their own inverses.\<close>

theorem hton_involutive:
  "cu_uint16_hton (cu_uint16_hton i) = i \<and> cu_uint32_hton (cu_uint32_hton j) = j"
  by (simp add: cu_uint16_hton_involutive cu_uint32_hton_involutive)

text \<open>\<open>cu_long_sgn\<close> declares its parameter as \<open>int\<close>, so the sign of the positive number
  \<open>2 ^ 32\<close> comes out as zero.\<close>

theorem long_sgn_loses_high_half: "0 <s (0x100000000 :: u64) \<and> cu_long_sgn 0x100000000 = 0"
  by (simp add: cu_long_sgn_truncates word_sless_alt)

end
