(* ===== verification/CuBool.thy ===== *)
theory CuBool
  imports CuInt
begin

text \<open>
  Boolean functions as numbers, \<^verbatim>\<open>cu/bool.h\<close> and \<^verbatim>\<open>cu/bool.c\<close>, and their bitwise images
  on words, \<open>cu_word_bitimg\<close> and \<open>cu_word_bitimg2\<close> of \<^verbatim>\<open>cu/word.h\<close> and \<^verbatim>\<open>cu/word.c\<close>. The
  enumerations are the integers C gives them, since the code computes with their bits; a
  C truth value is a \<open>bool\<close>, and \<open>!!x\<close> is \<open>of_bool x\<close>. A code that none of the
  enumerators has makes a \<open>switch\<close> run into \<open>cu_debug_unreachable\<close>, which is \<open>None\<close>.
\<close>

section \<open>Unary functions\<close>

type_synonym cu_bool1f = u32
type_synonym cu_bool2f = u32

abbreviation CU_BOOL1F_FALSE :: cu_bool1f where "CU_BOOL1F_FALSE \<equiv> 0x0"
abbreviation CU_BOOL1F_TRUE :: cu_bool1f where "CU_BOOL1F_TRUE \<equiv> 0x3"
abbreviation CU_BOOL1F_IDENT :: cu_bool1f where "CU_BOOL1F_IDENT \<equiv> 0x2"
abbreviation CU_BOOL1F_NOT :: cu_bool1f where "CU_BOOL1F_NOT \<equiv> 0x1"

definition cu_bool_cmp :: "bool \<Rightarrow> bool \<Rightarrow> int" where
  "cu_bool_cmp x y = (if x then (if y then 0 else 1) else (if y then -1 else 0))"

definition cu_bool1f_to_func :: "cu_bool1f \<Rightarrow> (bool \<Rightarrow> bool) option" where
  "cu_bool1f_to_func f =
     (if f = CU_BOOL1F_FALSE then Some (\<lambda>x. False)
      else if f = CU_BOOL1F_IDENT then Some (\<lambda>x. x)
      else if f = CU_BOOL1F_NOT then Some (\<lambda>x. \<not> x)
      else if f = CU_BOOL1F_TRUE then Some (\<lambda>x. True)
      else None)"

definition cu_bool1f_from_func :: "(bool \<Rightarrow> bool) \<Rightarrow> cu_bool1f" where
  "cu_bool1f_from_func f =
     (let yF = (if f False then 1 else 0); yT = (if f True then 2 else 0) in yF + yT)"

definition cu_bool1f_apply :: "cu_bool1f \<Rightarrow> bool \<Rightarrow> bool" where
  "cu_bool1f_apply f x \<longleftrightarrow> drop_bit (of_bool x) f AND 1 \<noteq> 0"

definition cu_bool1f_konst :: "bool \<Rightarrow> cu_bool1f" where
  "cu_bool1f_konst x = 3 * of_bool x"

definition cu_bool1f_not :: "cu_bool1f \<Rightarrow> cu_bool1f" where
  "cu_bool1f_not f = NOT f AND 0x3"

definition cu_bool1f_compose :: "cu_bool1f \<Rightarrow> cu_bool1f \<Rightarrow> cu_bool1f" where
  "cu_bool1f_compose f g =
     (3 * (f AND 1) AND NOT g) OR (3 * drop_bit 1 (f AND 2) AND g)"

section \<open>Binary functions\<close>

abbreviation CU_BOOL2F_FALSE :: cu_bool2f where "CU_BOOL2F_FALSE \<equiv> 0x0"
abbreviation CU_BOOL2F_TRUE :: cu_bool2f where "CU_BOOL2F_TRUE \<equiv> 0xf"
abbreviation CU_BOOL2F_LEFT :: cu_bool2f where "CU_BOOL2F_LEFT \<equiv> 0xa"
abbreviation CU_BOOL2F_RIGHT :: cu_bool2f where "CU_BOOL2F_RIGHT \<equiv> 0xc"
abbreviation CU_BOOL2F_NOT_LEFT :: cu_bool2f where "CU_BOOL2F_NOT_LEFT \<equiv> 0x5"
abbreviation CU_BOOL2F_NOT_RIGHT :: cu_bool2f where "CU_BOOL2F_NOT_RIGHT \<equiv> 0x3"
abbreviation CU_BOOL2F_NOR :: cu_bool2f where "CU_BOOL2F_NOR \<equiv> 0x1"
abbreviation CU_BOOL2F_XOR :: cu_bool2f where "CU_BOOL2F_XOR \<equiv> 0x6"
abbreviation CU_BOOL2F_NAND :: cu_bool2f where "CU_BOOL2F_NAND \<equiv> 0x7"
abbreviation CU_BOOL2F_AND :: cu_bool2f where "CU_BOOL2F_AND \<equiv> 0x8"
abbreviation CU_BOOL2F_IFF :: cu_bool2f where "CU_BOOL2F_IFF \<equiv> 0x9"
abbreviation CU_BOOL2F_OR :: cu_bool2f where "CU_BOOL2F_OR \<equiv> 0xe"
abbreviation CU_BOOL2F_AND_NOT :: cu_bool2f where "CU_BOOL2F_AND_NOT \<equiv> 0x2"
abbreviation CU_BOOL2F_NOT_AND :: cu_bool2f where "CU_BOOL2F_NOT_AND \<equiv> 0x4"
abbreviation CU_BOOL2F_OR_NOT :: cu_bool2f where "CU_BOOL2F_OR_NOT \<equiv> 0xb"
abbreviation CU_BOOL2F_NOT_OR :: cu_bool2f where "CU_BOOL2F_NOT_OR \<equiv> 0xd"

definition b2f_arr :: "(bool \<Rightarrow> bool \<Rightarrow> bool) list" where
  "b2f_arr = [
     \<lambda>x y. False, \<lambda>x y. \<not> (x \<or> y), \<lambda>x y. x \<and> \<not> y, \<lambda>x y. \<not> y,
     \<lambda>x y. \<not> x \<and> y, \<lambda>x y. \<not> x, \<lambda>x y. (\<not> x) \<noteq> (\<not> y), \<lambda>x y. \<not> (x \<and> y),
     \<lambda>x y. x \<and> y, \<lambda>x y. (\<not> x) = (\<not> y), \<lambda>x y. x, \<lambda>x y. x \<or> \<not> y,
     \<lambda>x y. y, \<lambda>x y. \<not> x \<or> y, \<lambda>x y. x \<or> y, \<lambda>x y. True]"

text \<open>An index outside the array has no function.\<close>

definition cu_bool2f_to_func :: "cu_bool2f \<Rightarrow> (bool \<Rightarrow> bool \<Rightarrow> bool) option" where
  "cu_bool2f_to_func f = (if unat f < 16 then Some (b2f_arr ! unat f) else None)"

definition cu_bool2f_from_func :: "(bool \<Rightarrow> bool \<Rightarrow> bool) \<Rightarrow> cu_bool2f" where
  "cu_bool2f_from_func f =
     (let r = (if f False False then 1 else 0);
          r = r OR (if f True False then 2 else 0);
          r = r OR (if f False True then 4 else 0);
          r = r OR (if f True True then 8 else 0)
      in r)"

definition cu_bool2f_apply :: "cu_bool2f \<Rightarrow> bool \<Rightarrow> bool \<Rightarrow> bool" where
  "cu_bool2f_apply f x y \<longleftrightarrow> drop_bit (of_bool x OR (2 * of_bool y)) f AND 1 \<noteq> 0"

definition cu_bool2f_apply_left :: "cu_bool2f \<Rightarrow> bool \<Rightarrow> cu_bool1f" where
  "cu_bool2f_apply_left f x = (let i = drop_bit (of_bool x) f in (i AND 1) OR (drop_bit 1 i AND 2))"

definition cu_bool2f_apply_right :: "cu_bool2f \<Rightarrow> bool \<Rightarrow> cu_bool1f" where
  "cu_bool2f_apply_right f y = drop_bit (2 * of_bool y) f AND 3"

definition cu_bool2f_konst :: "bool \<Rightarrow> cu_bool2f" where
  "cu_bool2f_konst v = (if v then 15 else 0)"

definition cu_bool2f_not :: "cu_bool2f \<Rightarrow> cu_bool2f" where
  "cu_bool2f_not f = NOT f AND 0xf"

definition cu_bool2f_not_left :: "cu_bool2f \<Rightarrow> cu_bool2f" where
  "cu_bool2f_not_left f = push_bit 1 (f AND 5) OR drop_bit 1 (f AND 10)"

definition cu_bool2f_not_right :: "cu_bool2f \<Rightarrow> cu_bool2f" where
  "cu_bool2f_not_right f = drop_bit 2 f OR push_bit 2 (f AND 3)"

definition cu_bool2f_swap :: "cu_bool2f \<Rightarrow> cu_bool2f" where
  "cu_bool2f_swap f = ((f AND 9) OR push_bit 1 (f AND 2)) OR drop_bit 1 (f AND 4)"

definition cu_bool2f_compose :: "cu_bool1f \<Rightarrow> cu_bool2f \<Rightarrow> cu_bool2f" where
  "cu_bool2f_compose f g = (15 * (f AND 1) AND NOT g) OR (15 * drop_bit 1 (f AND 2) AND g)"

definition cu_bool2f_compose_left :: "cu_bool2f \<Rightarrow> cu_bool1f \<Rightarrow> cu_bool2f" where
  "cu_bool2f_compose_left f g =
     (let gg = g OR push_bit 2 g; fL = f AND 5; fH = drop_bit 1 f AND 5
      in (3 * fL AND NOT gg) OR (3 * fH AND gg))"

definition cu_bool2f_compose_right :: "cu_bool2f \<Rightarrow> cu_bool1f \<Rightarrow> cu_bool2f" where
  "cu_bool2f_compose_right f g =
     (let gg = 3 * (g + (g AND 2)); fL = f AND 3; fH = drop_bit 2 f
      in (5 * fL AND NOT gg) OR (5 * fH AND gg))"

section \<open>Bitwise images of words\<close>

definition cu_word_bitimg :: "cu_bool1f \<Rightarrow> u64 \<Rightarrow> u64" where
  "cu_word_bitimg f x =
     (if f AND 1 \<noteq> 0 then (if f AND 2 \<noteq> 0 then NOT 0 else NOT x)
      else (if f AND 2 \<noteq> 0 then x else 0))"

definition cu_word_bitimg2 :: "cu_bool2f \<Rightarrow> u64 \<Rightarrow> u64 \<Rightarrow> u64 option" where
  "cu_word_bitimg2 f x y =
     (let not_r = (f \<ge> 8); f = (if f \<ge> 8 then 15 - f else f);
          r = (if f = CU_BOOL2F_FALSE then Some 0
               else if f = CU_BOOL2F_NOR then Some (NOT x AND NOT y)
               else if f = CU_BOOL2F_AND_NOT then Some (x AND NOT y)
               else if f = CU_BOOL2F_NOT_RIGHT then Some (NOT y)
               else if f = CU_BOOL2F_NOT_AND then Some (NOT x AND y)
               else if f = CU_BOOL2F_NOT_LEFT then Some (NOT x)
               else if f = CU_BOOL2F_XOR then Some (x XOR y)
               else if f = CU_BOOL2F_NAND then Some (NOT (x AND y))
               else None)
      in map_option (\<lambda>r. if not_r then NOT r else r) r)"

section \<open>The codes compute the functions\<close>

text \<open>
  There are finitely many codes and truth values: a law is checked on all of them and carried
  over to the words below 4 and 16.
\<close>

abbreviation bool1f_codes :: "cu_bool1f list" where
  "bool1f_codes \<equiv> [0, 1, 2, 3]"

abbreviation bool2f_codes :: "cu_bool2f list" where
  "bool2f_codes \<equiv> [0, 1, 2, 3, 4, 5, 6, 7, 8, 9, 10, 11, 12, 13, 14, 15]"

lemma bool1f_code: "f < 4 \<Longrightarrow> f \<in> set bool1f_codes" for f :: u32
  by (simp add: word_less_nat_alt word_unat_eq_iff) linarith

lemma bool2f_code: "f < 16 \<Longrightarrow> f \<in> set bool2f_codes" for f :: u32
  by (simp add: word_less_nat_alt word_unat_eq_iff) presburger

lemma in_bools: "x \<in> set [True, False]"
  by simp

lemma bool1f_laws:
  "\<forall>f\<in>set bool1f_codes. \<forall>g\<in>set bool1f_codes. \<forall>x\<in>set [True, False].
     cu_bool1f_apply (cu_bool1f_compose f g) x = cu_bool1f_apply f (cu_bool1f_apply g x)
     \<and> cu_bool1f_apply (cu_bool1f_not f) x = (\<not> cu_bool1f_apply f x)
     \<and> cu_bool1f_from_func (cu_bool1f_apply f) = f
     \<and> the (cu_bool1f_to_func f) x = cu_bool1f_apply f x \<and> cu_bool1f_to_func f \<noteq> None"
  by code_simp

lemma bool2f_laws:
  "\<forall>f\<in>set bool2f_codes. \<forall>x\<in>set [True, False]. \<forall>y\<in>set [True, False].
     cu_bool2f_apply (cu_bool2f_swap f) x y = cu_bool2f_apply f y x
     \<and> cu_bool2f_apply (cu_bool2f_not f) x y = (\<not> cu_bool2f_apply f x y)
     \<and> cu_bool2f_apply (cu_bool2f_not_left f) x y = cu_bool2f_apply f (\<not> x) y
     \<and> cu_bool2f_apply (cu_bool2f_not_right f) x y = cu_bool2f_apply f x (\<not> y)
     \<and> cu_bool1f_apply (cu_bool2f_apply_left f x) y = cu_bool2f_apply f x y
     \<and> cu_bool1f_apply (cu_bool2f_apply_right f y) x = cu_bool2f_apply f x y
     \<and> cu_bool2f_from_func (cu_bool2f_apply f) = f
     \<and> (b2f_arr ! unat f) x y = cu_bool2f_apply f x y \<and> cu_bool2f_swap f < 16"
  by code_simp

lemma bool2f_compose_laws:
  "\<forall>f\<in>set bool2f_codes. \<forall>g\<in>set bool1f_codes. \<forall>x\<in>set [True, False]. \<forall>y\<in>set [True, False].
     cu_bool2f_apply (cu_bool2f_compose g f) x y = cu_bool1f_apply g (cu_bool2f_apply f x y)
     \<and> cu_bool2f_apply (cu_bool2f_compose_left f g) x y = cu_bool2f_apply f (cu_bool1f_apply g x) y
     \<and> cu_bool2f_apply (cu_bool2f_compose_right f g) x y = cu_bool2f_apply f x (cu_bool1f_apply g y)"
  by code_simp

lemmas bool1f_law = bool1f_laws [rule_format, OF bool1f_code bool1f_code in_bools]
lemmas bool2f_law = bool2f_laws [rule_format, OF bool2f_code in_bools in_bools]
lemmas bool2f_compose_law = bool2f_compose_laws [rule_format, OF bool2f_code bool1f_code in_bools in_bools]

lemma bool2f_apply_arr: "f < 16 \<Longrightarrow> cu_bool2f_apply f = b2f_arr ! unat f"
  using bool2f_law by (simp add: fun_eq_iff)

lemma bool2f_swap_code: "f < 16 \<Longrightarrow> cu_bool2f_swap f < 16"
  using bool2f_law by blast

lemma bit_bitimg:
  assumes "f < 4" "n < 64"
  shows "bit (cu_word_bitimg f x) n \<longleftrightarrow> cu_bool1f_apply f (bit x n)"
proof -
  have "cu_bool1f_apply 0 b = False" "cu_bool1f_apply 1 b = (\<not> b)" "cu_bool1f_apply 2 b = b"
    "cu_bool1f_apply 3 b = True" for b
    by (cases b; simp add: cu_bool1f_apply_def)+
  then show ?thesis
    using bool1f_code [OF assms(1)] assms(2) by (auto simp: cu_word_bitimg_def bit_simps)
qed

lemma bit_bitimg2:
  assumes "f < 16"
  shows "\<exists>r. cu_word_bitimg2 f x y = Some r
    \<and> (\<forall>n<64. bit r n \<longleftrightarrow> cu_bool2f_apply f (bit x n) (bit y n))"
  using bool2f_code [OF assms] unfolding bool2f_apply_arr [OF assms]
  by (auto simp: cu_word_bitimg2_def b2f_arr_def bit_simps word_le_nat_alt)

section \<open>Properties\<close>

text \<open>the codes of binary boolean functions form an algebra under \<open>cu_bool2f_apply\<close>: swapping,
  negating, partially applying and composing a code gives the code of the function so made, and a
  code is recovered from its function.\<close>

theorem bool2f_algebra:
  assumes "f < 16" "g < 4"
  shows "cu_bool2f_apply (cu_bool2f_swap f) x y = cu_bool2f_apply f y x
    \<and> cu_bool2f_apply (cu_bool2f_not f) x y = (\<not> cu_bool2f_apply f x y)
    \<and> cu_bool2f_apply (cu_bool2f_not_left f) x y = cu_bool2f_apply f (\<not> x) y
    \<and> cu_bool2f_apply (cu_bool2f_not_right f) x y = cu_bool2f_apply f x (\<not> y)
    \<and> cu_bool1f_apply (cu_bool2f_apply_left f x) y = cu_bool2f_apply f x y
    \<and> cu_bool1f_apply (cu_bool2f_apply_right f y) x = cu_bool2f_apply f x y
    \<and> cu_bool2f_apply (cu_bool2f_compose g f) x y = cu_bool1f_apply g (cu_bool2f_apply f x y)
    \<and> cu_bool2f_apply (cu_bool2f_compose_left f g) x y = cu_bool2f_apply f (cu_bool1f_apply g x) y
    \<and> cu_bool2f_apply (cu_bool2f_compose_right f g) x y = cu_bool2f_apply f x (cu_bool1f_apply g y)
    \<and> cu_bool2f_from_func (cu_bool2f_apply f) = f \<and> cu_bool2f_to_func f = Some (cu_bool2f_apply f)"
proof -
  have "unat f < 16" using assms(1) by (simp add: word_less_nat_alt)
  then show ?thesis
    using bool2f_law [OF assms(1), of x y] bool2f_compose_law [OF assms, of x y]
    by (simp add: cu_bool2f_to_func_def bool2f_apply_arr [OF assms(1)])
qed

theorem bool2f_algebra_witness:
  "cu_bool2f_apply (cu_bool2f_compose_left CU_BOOL2F_AND CU_BOOL1F_NOT) False True"
  using bool2f_algebra [of CU_BOOL2F_AND CU_BOOL1F_NOT False True]
  by (simp add: cu_bool2f_apply_def cu_bool1f_apply_def)

text \<open>\<open>cu_word_bitimg2\<close> on a valid code reaches no unreachable case and applies the function to
  each pair of corresponding bits.\<close>

theorem word_bitimg2_bitwise:
  assumes "f < 16"
  shows "\<exists>r. cu_word_bitimg2 f x y = Some r
    \<and> (\<forall>n<64. bit r n \<longleftrightarrow> cu_bool2f_apply f (bit x n) (bit y n))"
  using assms by (rule bit_bitimg2)

theorem word_bitimg2_bitwise_witness:
  "\<exists>r. cu_word_bitimg2 CU_BOOL2F_NOT_OR 12 10 = Some r
    \<and> (\<forall>n<64. bit r n \<longleftrightarrow> cu_bool2f_apply CU_BOOL2F_NOT_OR (bit (12 :: u64) n) (bit (10 :: u64) n))"
  using word_bitimg2_bitwise [of CU_BOOL2F_NOT_OR 12 10] by simp

end
