(* ===== verification/CuWordarr.thy ===== *)
theory CuWordarr
  imports CuBool
begin

text \<open>
  Word arrays, \<^verbatim>\<open>cu/wordarr.h\<close> and \<^verbatim>\<open>cu/wordarr.c\<close>. The functions read and write a word
  store through pointers, which are addresses; nothing keeps the arrays apart, so what the
  loops do when source and destination overlap is part of the model. A loop over a count
  is recursion on the count, and the loops of one \<open>switch\<close> that differ only in the
  expression they store are one recursion over that expression.
\<close>

section \<open>Comparison\<close>

fun cu_wordarr_eq :: "nat \<Rightarrow> nat \<Rightarrow> nat \<Rightarrow> store \<Rightarrow> bool" where
  "cu_wordarr_eq 0 arr0 arr1 m = True"
| "cu_wordarr_eq (Suc count) arr0 arr1 m =
     (if m arr0 \<noteq> m arr1 then False else cu_wordarr_eq count (arr0 + 1) (arr1 + 1) m)"

fun cu_wordarr_cmp :: "nat \<Rightarrow> nat \<Rightarrow> nat \<Rightarrow> store \<Rightarrow> int" where
  "cu_wordarr_cmp 0 arr0 arr1 m = 0"
| "cu_wordarr_cmp (Suc count) arr0 arr1 m =
     (let w0 = m arr0; w1 = m arr1 in
      if w0 \<noteq> w1 then (if w0 < w1 then -1 else 1)
      else cu_wordarr_cmp count (arr0 + 1) (arr1 + 1) m)"

section \<open>Aligned copies\<close>

fun cu_wordarr_fill :: "nat \<Rightarrow> nat \<Rightarrow> u64 \<Rightarrow> store \<Rightarrow> store" where
  "cu_wordarr_fill 0 dst val m = m"
| "cu_wordarr_fill (Suc count) dst val m = cu_wordarr_fill count (dst + 1) val (m(dst := val))"

fun cu_wordarr_copy :: "nat \<Rightarrow> nat \<Rightarrow> nat \<Rightarrow> store \<Rightarrow> store" where
  "cu_wordarr_copy 0 dst src m = m"
| "cu_wordarr_copy (Suc count) dst src m = cu_wordarr_copy count (dst + 1) (src + 1) (m(dst := m src))"

fun cu_wordarr_copy_bitnot :: "nat \<Rightarrow> nat \<Rightarrow> nat \<Rightarrow> store \<Rightarrow> store" where
  "cu_wordarr_copy_bitnot 0 dst src m = m"
| "cu_wordarr_copy_bitnot (Suc count) dst src m =
     cu_wordarr_copy_bitnot count (dst + 1) (src + 1) (m(dst := NOT (m src)))"

definition cu_wordarr_copy_bitimg :: "cu_bool1f \<Rightarrow> nat \<Rightarrow> nat \<Rightarrow> nat \<Rightarrow> store \<Rightarrow> store" where
  "cu_wordarr_copy_bitimg f count dst src m =
     (if f = CU_BOOL1F_FALSE then cu_wordarr_fill count dst 0 m
      else if f = CU_BOOL1F_TRUE then cu_wordarr_fill count dst (NOT 0) m
      else if f = CU_BOOL1F_IDENT then cu_wordarr_copy count dst src m
      else if f = CU_BOOL1F_NOT then cu_wordarr_copy_bitnot count dst src m
      else m)"

text \<open>The loop \<open>*dst++ = g(*left++, *right++)\<close>.\<close>

fun wordarr_loop2 :: "(u64 \<Rightarrow> u64 \<Rightarrow> u64) \<Rightarrow> nat \<Rightarrow> nat \<Rightarrow> nat \<Rightarrow> nat \<Rightarrow> store \<Rightarrow> store" where
  "wordarr_loop2 g 0 dst left right m = m"
| "wordarr_loop2 g (Suc count) dst left right m =
     wordarr_loop2 g count (dst + 1) (left + 1) (right + 1) (m(dst := g (m left) (m right)))"

definition cu_wordarr_copy_bitimg2 :: "cu_bool2f \<Rightarrow> nat \<Rightarrow> nat \<Rightarrow> nat \<Rightarrow> nat \<Rightarrow> store \<Rightarrow> store" where
  "cu_wordarr_copy_bitimg2 f count dst left right m =
     (if f = CU_BOOL2F_FALSE then cu_wordarr_fill count dst 0 m
      else if f = CU_BOOL2F_TRUE then cu_wordarr_fill count dst (NOT 0) m
      else if f = CU_BOOL2F_LEFT then cu_wordarr_copy count dst left m
      else if f = CU_BOOL2F_RIGHT then cu_wordarr_copy count dst right m
      else if f = CU_BOOL2F_NOT_LEFT then cu_wordarr_copy_bitnot count dst left m
      else if f = CU_BOOL2F_NOT_RIGHT then cu_wordarr_copy_bitnot count dst right m
      else if f = CU_BOOL2F_NOR then wordarr_loop2 (\<lambda>x y. NOT (x OR y)) count dst left right m
      else if f = CU_BOOL2F_XOR then wordarr_loop2 (\<lambda>x y. x XOR y) count dst left right m
      else if f = CU_BOOL2F_NAND then wordarr_loop2 (\<lambda>x y. NOT (x AND y)) count dst left right m
      else if f = CU_BOOL2F_AND then wordarr_loop2 (\<lambda>x y. x AND y) count dst left right m
      else if f = CU_BOOL2F_IFF then wordarr_loop2 (\<lambda>x y. NOT (x XOR y)) count dst left right m
      else if f = CU_BOOL2F_OR then wordarr_loop2 (\<lambda>x y. x OR y) count dst left right m
      else if f = CU_BOOL2F_NOT_AND then wordarr_loop2 (\<lambda>x y. x AND NOT y) count dst right left m
      else if f = CU_BOOL2F_AND_NOT then wordarr_loop2 (\<lambda>x y. x AND NOT y) count dst left right m
      else if f = CU_BOOL2F_NOT_OR then wordarr_loop2 (\<lambda>x y. x OR NOT y) count dst right left m
      else if f = CU_BOOL2F_OR_NOT then wordarr_loop2 (\<lambda>x y. x OR NOT y) count dst left right m
      else m)"

section \<open>Skewed copies\<close>

text \<open>The word that starts at bit \<open>offset\<close> of the pair of words \<open>a\<close>, \<open>b\<close>.\<close>

definition skew_word :: "nat \<Rightarrow> u64 \<Rightarrow> u64 \<Rightarrow> u64" where
  "skew_word offset a b = drop_bit offset a OR push_bit (64 - offset) b"

fun wordarr_skew_loop :: "(u64 \<Rightarrow> u64) \<Rightarrow> nat \<Rightarrow> nat \<Rightarrow> nat \<Rightarrow> nat \<Rightarrow> u64 \<Rightarrow> store \<Rightarrow> store" where
  "wordarr_skew_loop g 0 dst src_offset src a m = m"
| "wordarr_skew_loop g (Suc count) dst src_offset src a m =
     (let b = m src; m = m(dst := g (skew_word src_offset a b))
      in wordarr_skew_loop g count (dst + 1) src_offset (src + 1) b m)"

definition cu_wordarr_skewcopy :: "nat \<Rightarrow> nat \<Rightarrow> nat \<Rightarrow> nat \<Rightarrow> store \<Rightarrow> store" where
  "cu_wordarr_skewcopy count dst src_offset src m =
     (if src_offset = 0 then cu_wordarr_copy count dst src m
      else wordarr_skew_loop (\<lambda>x. x) count dst src_offset (src + 1) (m src) m)"

definition cu_wordarr_skewcopy_bitnot :: "nat \<Rightarrow> nat \<Rightarrow> nat \<Rightarrow> nat \<Rightarrow> store \<Rightarrow> store" where
  "cu_wordarr_skewcopy_bitnot count dst src_offset src m =
     (if src_offset = 0 then cu_wordarr_copy_bitnot count dst src m
      else wordarr_skew_loop (\<lambda>x. NOT x) count dst src_offset (src + 1) (m src) m)"

definition cu_wordarr_skewcopy_bitimg :: "cu_bool1f \<Rightarrow> nat \<Rightarrow> nat \<Rightarrow> nat \<Rightarrow> nat \<Rightarrow> store \<Rightarrow> store" where
  "cu_wordarr_skewcopy_bitimg f count dst src_offset src m =
     (if f = CU_BOOL1F_FALSE then cu_wordarr_fill count dst 0 m
      else if f = CU_BOOL1F_TRUE then cu_wordarr_fill count dst (NOT 0) m
      else if f = CU_BOOL1F_IDENT then cu_wordarr_skewcopy count dst src_offset src m
      else if f = CU_BOOL1F_NOT then cu_wordarr_skewcopy_bitnot count dst src_offset src m
      else m)"

fun wordarr_semiskew_loop ::
    "(u64 \<Rightarrow> u64 \<Rightarrow> u64) \<Rightarrow> nat \<Rightarrow> nat \<Rightarrow> nat \<Rightarrow> nat \<Rightarrow> nat \<Rightarrow> u64 \<Rightarrow> store \<Rightarrow> store" where
  "wordarr_semiskew_loop g 0 dst src0 offset1 src1 a1 m = m"
| "wordarr_semiskew_loop g (Suc count) dst src0 offset1 src1 a1 m =
     (let b1 = m src1; x1 = skew_word offset1 a1 b1; m = m(dst := g (m src0) x1)
      in wordarr_semiskew_loop g count (dst + 1) (src0 + 1) offset1 (src1 + 1) b1 m)"

text \<open>The stored expressions of \<open>_wordarr_semiskew_bitimg2\<close> and \<open>cu_wordarr_skewcopy_bitimg2\<close>.\<close>

definition skew_expr :: "cu_bool2f \<Rightarrow> (u64 \<Rightarrow> u64 \<Rightarrow> u64) option" where
  "skew_expr f =
     (if f = CU_BOOL2F_NOR then Some (\<lambda>x y. NOT (x OR y))
      else if f = CU_BOOL2F_XOR then Some (\<lambda>x y. x XOR y)
      else if f = CU_BOOL2F_NAND then Some (\<lambda>x y. NOT (x AND y))
      else if f = CU_BOOL2F_AND then Some (\<lambda>x y. x AND y)
      else if f = CU_BOOL2F_IFF then Some (\<lambda>x y. NOT (x XOR y))
      else if f = CU_BOOL2F_OR then Some (\<lambda>x y. x OR y)
      else if f = CU_BOOL2F_NOT_AND then Some (\<lambda>x y. NOT x AND y)
      else if f = CU_BOOL2F_AND_NOT then Some (\<lambda>x y. x AND NOT y)
      else if f = CU_BOOL2F_NOT_OR then Some (\<lambda>x y. NOT x OR y)
      else if f = CU_BOOL2F_OR_NOT then Some (\<lambda>x y. x OR NOT y)
      else None)"

definition wordarr_semiskew_bitimg2 ::
    "cu_bool2f \<Rightarrow> nat \<Rightarrow> nat \<Rightarrow> nat \<Rightarrow> nat \<Rightarrow> nat \<Rightarrow> store \<Rightarrow> store option" where
  "wordarr_semiskew_bitimg2 f count dst src0 offset1 src1 m =
     map_option (\<lambda>g. wordarr_semiskew_loop g count dst src0 offset1 (src1 + 1) (m src1) m) (skew_expr f)"

fun wordarr_skew_loop2 ::
    "(u64 \<Rightarrow> u64 \<Rightarrow> u64) \<Rightarrow> nat \<Rightarrow> nat \<Rightarrow> nat \<Rightarrow> nat \<Rightarrow> nat \<Rightarrow> nat \<Rightarrow> u64 \<Rightarrow> u64 \<Rightarrow> store \<Rightarrow> store" where
  "wordarr_skew_loop2 g 0 dst offset0 src0 offset1 src1 a0 a1 m = m"
| "wordarr_skew_loop2 g (Suc count) dst offset0 src0 offset1 src1 a0 a1 m =
     (let b0 = m src0; b1 = m src1; x0 = skew_word offset0 a0 b0; x1 = skew_word offset1 a1 b1;
          m = m(dst := g x0 x1)
      in wordarr_skew_loop2 g count (dst + 1) offset0 (src0 + 1) offset1 (src1 + 1) b0 b1 m)"

definition cu_wordarr_skewcopy_bitimg2 ::
    "cu_bool2f \<Rightarrow> nat \<Rightarrow> nat \<Rightarrow> nat \<Rightarrow> nat \<Rightarrow> nat \<Rightarrow> nat \<Rightarrow> store \<Rightarrow> store option" where
  "cu_wordarr_skewcopy_bitimg2 f count dst offset0 src0 offset1 src1 m =
     (if f = CU_BOOL2F_FALSE then Some (cu_wordarr_fill count dst 0 m)
      else if f = CU_BOOL2F_TRUE then Some (cu_wordarr_fill count dst (NOT 0) m)
      else if f = CU_BOOL2F_LEFT then Some (cu_wordarr_skewcopy count dst offset0 src0 m)
      else if f = CU_BOOL2F_RIGHT then Some (cu_wordarr_skewcopy count dst offset1 src1 m)
      else if f = CU_BOOL2F_NOT_LEFT then Some (cu_wordarr_skewcopy_bitnot count dst offset0 src0 m)
      else if f = CU_BOOL2F_NOT_RIGHT then Some (cu_wordarr_skewcopy_bitnot count dst offset1 src1 m)
      else if offset0 = 0 then
        (if offset1 = 0 then Some (cu_wordarr_copy_bitimg2 f count dst src0 src1 m)
         else wordarr_semiskew_bitimg2 f count dst src0 offset1 src1 m)
      else if offset1 = 0 then
        wordarr_semiskew_bitimg2 (cu_bool2f_swap f) count dst src1 offset0 src0 m
      else
        map_option (\<lambda>g. wordarr_skew_loop2 g count dst offset0 (src0 + 1) offset1 (src1 + 1)
                          (m src0) (m src1) m) (skew_expr f))"

section \<open>What the loops store\<close>

text \<open>The store after writing \<open>w i\<close> at \<open>dst + i\<close> for each \<open>i\<close> below \<open>count\<close>.\<close>

definition store_range :: "nat \<Rightarrow> nat \<Rightarrow> (nat \<Rightarrow> u64) \<Rightarrow> store \<Rightarrow> store" where
  "store_range dst count w m p = (if dst \<le> p \<and> p < dst + count then w (p - dst) else m p)"

text \<open>
  A loop that moves forward may overwrite a source once it has been read. The source at
  \<open>src\<close> is safe when the destination starts no later, or beyond its end.
\<close>

definition forward_safe :: "nat \<Rightarrow> nat \<Rightarrow> nat \<Rightarrow> bool" where
  "forward_safe dst src count \<longleftrightarrow> dst \<le> src \<or> src + count \<le> dst"

lemma forward_safe_Suc:
  "forward_safe dst src (Suc count) \<Longrightarrow> forward_safe (dst + 1) (src + 1) count"
  by (auto simp: forward_safe_def)

lemma forward_safe_read:
  "forward_safe dst src (Suc count) \<Longrightarrow> i < count \<Longrightarrow> (m(dst := v)) (Suc (src + i)) = m (Suc (src + i))"
  by (auto simp: forward_safe_def)

lemma store_range_0 [simp]: "store_range dst 0 w m = m"
  by (auto simp: fun_eq_iff store_range_def)

lemma store_range_step:
  assumes "\<And>i. i < count \<Longrightarrow> w i = w' (Suc i)" "v = w' 0"
  shows "store_range (dst + 1) count w (m(dst := v)) = store_range dst (Suc count) w' m"
proof
  fix p
  show "store_range (dst + 1) count w (m(dst := v)) p = store_range dst (Suc count) w' m p"
  proof (cases "dst < p \<and> p < dst + Suc count")
    case True
    then have "w (p - (dst + 1)) = w' (p - dst)"
      using assms(1) [of "p - (dst + 1)"] by (simp add: Suc_diff_Suc less_diff_conv2)
    then show ?thesis using True by (simp add: store_range_def)
  next
    case False
    then show ?thesis using assms(2) by (auto simp: store_range_def)
  qed
qed

lemma fill_range [store_facts]: "cu_wordarr_fill count dst val m = store_range dst count (\<lambda>i. val) m"
proof (induction count arbitrary: dst m)
  case (Suc count)
  show ?case unfolding cu_wordarr_fill.simps Suc by (rule store_range_step) simp_all
qed simp

lemma loop2_range [store_facts]:
  assumes "forward_safe dst left count" "forward_safe dst right count"
  shows "wordarr_loop2 g count dst left right m =
    store_range dst count (\<lambda>i. g (m (left + i)) (m (right + i))) m"
  using assms
proof (induction count arbitrary: dst left right m)
  case (Suc count)
  note IH = Suc.IH [OF forward_safe_Suc [OF Suc.prems(1)] forward_safe_Suc [OF Suc.prems(2)]]
  show ?case
    unfolding wordarr_loop2.simps IH
    by (rule store_range_step) (simp_all add: forward_safe_read [OF Suc.prems(1)] forward_safe_read [OF Suc.prems(2)]
        del: fun_upd_apply)
qed simp

lemma copy_loop2: "cu_wordarr_copy count dst src m = wordarr_loop2 (\<lambda>x y. x) count dst src src m"
  by (induction count arbitrary: dst src m) auto

lemma copy_bitnot_loop2:
  "cu_wordarr_copy_bitnot count dst src m = wordarr_loop2 (\<lambda>x y. NOT x) count dst src src m"
  by (induction count arbitrary: dst src m) auto

lemma copy_range [store_facts]:
  "forward_safe dst src count \<Longrightarrow> cu_wordarr_copy count dst src m = store_range dst count (\<lambda>i. m (src + i)) m"
  by (simp add: copy_loop2 loop2_range)

lemma copy_bitnot_range [store_facts]:
  "forward_safe dst src count \<Longrightarrow>
     cu_wordarr_copy_bitnot count dst src m = store_range dst count (\<lambda>i. NOT (m (src + i))) m"
  by (simp add: copy_bitnot_loop2 loop2_range)

text \<open>The skewed loops keep the last word read in a variable; \<open>prev\<close> is its value in round \<open>i\<close>.\<close>

definition prev :: "u64 \<Rightarrow> nat \<Rightarrow> store \<Rightarrow> nat \<Rightarrow> u64" where
  "prev a src m i = (case i of 0 \<Rightarrow> a | Suc j \<Rightarrow> m (src + j))"

lemma prev_simps [simp]: "prev a src m 0 = a" "prev a src m (Suc j) = m (src + j)"
  by (simp_all add: prev_def)

lemma prev_read:
  assumes "forward_safe dst src (Suc count)" "i < count"
  shows "prev (m src) (Suc src) (m(dst := v)) i = m (src + i)"
proof (cases i)
  case (Suc j)
  then show ?thesis using forward_safe_read [OF assms(1), of j m v] assms(2) by (simp del: fun_upd_apply)
qed simp

lemma prev_Suc_read: "prev (m src) (Suc src) m i = m (src + i)"
  by (cases i) simp_all

lemma skew_loop2_range [store_facts]:
  assumes "forward_safe dst src0 count" "forward_safe dst src1 count"
  shows "wordarr_skew_loop2 g count dst o0 src0 o1 src1 a0 a1 m =
    store_range dst count (\<lambda>i. g (skew_word o0 (prev a0 src0 m i) (m (src0 + i)))
      (skew_word o1 (prev a1 src1 m i) (m (src1 + i)))) m"
  using assms
proof (induction count arbitrary: dst src0 src1 a0 a1 m)
  case (Suc count)
  note IH = Suc.IH [OF forward_safe_Suc [OF Suc.prems(1)] forward_safe_Suc [OF Suc.prems(2)]]
  note reads = forward_safe_read [OF Suc.prems(1)] forward_safe_read [OF Suc.prems(2)]
    prev_read [OF Suc.prems(1)] prev_read [OF Suc.prems(2)]
  show ?case
    unfolding wordarr_skew_loop2.simps Let_def IH
    by (rule store_range_step) (simp_all add: reads del: fun_upd_apply)
qed simp

lemma semiskew_loop_range [store_facts]:
  assumes "forward_safe dst src0 count" "forward_safe dst src1 count"
  shows "wordarr_semiskew_loop g count dst src0 o1 src1 a1 m =
    store_range dst count (\<lambda>i. g (m (src0 + i)) (skew_word o1 (prev a1 src1 m i) (m (src1 + i)))) m"
  using assms
proof (induction count arbitrary: dst src0 src1 a1 m)
  case (Suc count)
  note IH = Suc.IH [OF forward_safe_Suc [OF Suc.prems(1)] forward_safe_Suc [OF Suc.prems(2)]]
  note reads = forward_safe_read [OF Suc.prems(1)] forward_safe_read [OF Suc.prems(2)]
    prev_read [OF Suc.prems(2)]
  show ?case
    unfolding wordarr_semiskew_loop.simps Let_def IH
    by (rule store_range_step) (simp_all add: reads del: fun_upd_apply)
qed simp

lemma skew_loop_loop2:
  "wordarr_skew_loop g count dst off src a m =
     wordarr_skew_loop2 (\<lambda>x y. g x) count dst off src off src a a m"
  by (induction count arbitrary: dst src a m) (auto simp: Let_def)

section \<open>Bits of arrays\<close>

text \<open>Bit \<open>l\<close> of the array at \<open>p\<close>, as the comment of \<open>cu_wordarr_skewcopy\<close> numbers them.\<close>

definition arr_bit :: "store \<Rightarrow> nat \<Rightarrow> nat \<Rightarrow> bool" where
  "arr_bit m p l \<longleftrightarrow> bit (m (p + l div 64)) (l mod 64)"

definition skewed :: "store \<Rightarrow> nat \<Rightarrow> nat \<Rightarrow> nat \<Rightarrow> u64" where
  "skewed m off src i = (if off = 0 then m (src + i) else skew_word off (m (src + i)) (m (src + 1 + i)))"

lemma skewed_words:
  "skewed m 0 src = (\<lambda>i. m (src + i))"
  "off \<noteq> 0 \<Longrightarrow> skewed m off src = (\<lambda>i. skew_word off (m (src + i)) (m (Suc (src + i))))"
  by (simp_all add: skewed_def fun_eq_iff)

lemma bit_skew_word:
  assumes "0 < off" "off < 64" "n < 64"
  shows "bit (skew_word off a b) n \<longleftrightarrow> (if off + n < 64 then bit a (off + n) else bit b (off + n - 64))"
proof (cases "off + n < 64")
  case True
  then show ?thesis using assms by (auto simp: skew_word_def bit_simps)
next
  case False
  then have "\<not> bit a (off + n)" by (auto dest: bit_u64_bound)
  then show ?thesis using False assms by (auto simp: skew_word_def bit_simps algebra_simps)
qed

lemma bit_skewed:
  assumes "off < 64" "n < 64"
  shows "bit (skewed m off src i) n \<longleftrightarrow> arr_bit m src (off + (64 * i + n))"
proof (cases "off = 0")
  case True
  then show ?thesis using assms by (simp add: skewed_def arr_bit_def)
next
  case False
  show ?thesis
  proof (cases "off + n < 64")
    case True
    have "off + (64 * i + n) = (off + n) + i * 64" by simp
    then have "(off + (64 * i + n)) div 64 = i \<and> (off + (64 * i + n)) mod 64 = off + n"
      using True by (simp only: div_mult_self1 mod_mult_self1) simp
    then show ?thesis using True False assms by (simp add: skewed_def arr_bit_def bit_skew_word)
  next
    case wrap: False
    then obtain k where k: "off + n = 64 + k" by (metis le_iff_add not_less)
    then have "off + (64 * i + n) = k + Suc i * 64" "k < 64" using assms by simp_all
    then have "(off + (64 * i + n)) div 64 = Suc i \<and> (off + (64 * i + n)) mod 64 = k"
      by (simp only: div_mult_self1 mod_mult_self1) simp
    then show ?thesis using k False assms by (simp add: skewed_def arr_bit_def bit_skew_word)
  qed
qed

section \<open>The images\<close>

definition bitwise :: "cu_bool2f \<Rightarrow> (u64 \<Rightarrow> u64 \<Rightarrow> u64) \<Rightarrow> bool" where
  "bitwise f g \<longleftrightarrow> (\<forall>x y n. n < 64 \<longrightarrow> bit (g x y) n = cu_bool2f_apply f (bit x n) (bit y n))"

abbreviation unary_codes :: "cu_bool2f list" where
  "unary_codes \<equiv> [CU_BOOL2F_FALSE, CU_BOOL2F_TRUE, CU_BOOL2F_LEFT, CU_BOOL2F_RIGHT,
     CU_BOOL2F_NOT_LEFT, CU_BOOL2F_NOT_RIGHT]"

lemma skew_expr_bitwise:
  assumes "f < 16" "f \<notin> set unary_codes"
  obtains g where "skew_expr f = Some g" "bitwise f g"
  using bool2f_code [OF assms(1)] assms(2) that
  by (auto simp: skew_expr_def bitwise_def bool2f_apply_arr b2f_arr_def bit_simps)

lemma swap_binary:
  assumes "f < 16" "f \<notin> set unary_codes"
  shows "cu_bool2f_swap f \<notin> set unary_codes"
proof -
  have "\<forall>f\<in>set bool2f_codes. f \<in> set unary_codes \<or> cu_bool2f_swap f \<notin> set unary_codes" by code_simp
  then show ?thesis using bool2f_code [OF assms(1)] assms(2) by blast
qed

text \<open>The store \<open>m'\<close> holds at \<open>dst\<close> the image of the words \<open>u0 i\<close> and \<open>u1 i\<close>.\<close>

definition image2 :: "cu_bool2f \<Rightarrow> nat \<Rightarrow> nat \<Rightarrow> (nat \<Rightarrow> u64) \<Rightarrow> (nat \<Rightarrow> u64) \<Rightarrow> store \<Rightarrow> store \<Rightarrow> bool" where
  "image2 f count dst u0 u1 m m' \<longleftrightarrow> (\<exists>w. m' = store_range dst count w m \<and>
     (\<forall>i n. n < 64 \<longrightarrow> bit (w i) n = cu_bool2f_apply f (bit (u0 i) n) (bit (u1 i) n)))"

lemma image2I:
  assumes "\<And>i n. n < 64 \<Longrightarrow> bit (w i) n = cu_bool2f_apply f (bit (u0 i) n) (bit (u1 i) n)"
  shows "image2 f count dst u0 u1 m (store_range dst count w m)"
  using assms by (auto simp: image2_def)

lemmas image2_bits = bool2f_apply_arr b2f_arr_def bit_simps

lemma copy_bitimg2_image:
  assumes "f < 16" "forward_safe dst left count" "forward_safe dst right count"
  shows "image2 f count dst (\<lambda>i. m (left + i)) (\<lambda>i. m (right + i)) m
    (cu_wordarr_copy_bitimg2 f count dst left right m)"
  using bool2f_code [OF assms(1)] unfolding cu_wordarr_copy_bitimg2_def
  by (auto simp: store_facts assms(2,3) image2_bits intro!: image2I)

lemma forward_safe_weaken:
  assumes "forward_safe dst src (count + 1)"
  shows "forward_safe dst src count" "forward_safe dst (Suc src) count"
  using assms by (auto simp: forward_safe_def)

lemma skewcopy_range:
  assumes "forward_safe dst src (count + 1)"
  shows "cu_wordarr_skewcopy count dst off src m = store_range dst count (skewed m off src) m"
    and "cu_wordarr_skewcopy_bitnot count dst off src m = store_range dst count (\<lambda>i. NOT (skewed m off src i)) m"
  using forward_safe_weaken [OF assms]
  by (cases "off = 0"; simp add: cu_wordarr_skewcopy_def cu_wordarr_skewcopy_bitnot_def skew_loop_loop2
      store_facts skewed_words prev_Suc_read)+

lemma semiskew_image:
  assumes "f < 16" "f \<notin> set unary_codes" "forward_safe dst src0 (count + 1)" "forward_safe dst src1 (count + 1)" "o1 \<noteq> 0"
  obtains m' where "wordarr_semiskew_bitimg2 f count dst src0 o1 src1 m = Some m'"
    "image2 f count dst (skewed m 0 src0) (skewed m o1 src1) m m'"
proof -
  obtain g where g: "skew_expr f = Some g" "bitwise f g" using skew_expr_bitwise [OF assms(1,2)] .
  then have "wordarr_semiskew_bitimg2 f count dst src0 o1 src1 m =
      Some (store_range dst count (\<lambda>i. g (skewed m 0 src0 i) (skewed m o1 src1 i)) m)"
    using forward_safe_weaken [OF assms(3)] forward_safe_weaken [OF assms(4)] assms(5)
    by (simp add: wordarr_semiskew_bitimg2_def store_facts skewed_words prev_Suc_read)
  then show thesis by (rule that) (use g(2) in \<open>auto intro!: image2I simp: bitwise_def\<close>)
qed

lemma image2_swap: "f < 16 \<Longrightarrow> image2 (cu_bool2f_swap f) count dst u1 u0 m m' \<Longrightarrow> image2 f count dst u0 u1 m m'"
  using bool2f_law [of f] by (simp add: image2_def)

lemma skewcopy_bitimg2_image:
  assumes f: "f < 16" and safe: "forward_safe dst src0 (count + 1)" "forward_safe dst src1 (count + 1)"
  shows "\<exists>m'. cu_wordarr_skewcopy_bitimg2 f count dst o0 src0 o1 src1 m = Some m'
    \<and> image2 f count dst (skewed m o0 src0) (skewed m o1 src1) m m'"
proof (cases "f \<in> set unary_codes")
  case True
  then show ?thesis
    unfolding cu_wordarr_skewcopy_bitimg2_def
    by (auto simp: skewcopy_range [OF safe(1)] skewcopy_range [OF safe(2)] fill_range image2_bits
        intro!: image2I)
next
  case False
  obtain g where g: "skew_expr f = Some g" "bitwise f g" using skew_expr_bitwise [OF f False] .
  note w = forward_safe_weaken [OF safe(1)] forward_safe_weaken [OF safe(2)]
  consider "o0 = 0" "o1 = 0" | "o0 = 0" "o1 \<noteq> 0" | "o0 \<noteq> 0" "o1 = 0" | "o0 \<noteq> 0" "o1 \<noteq> 0" by blast
  then show ?thesis
  proof cases
    case 1
    then show ?thesis
      using copy_bitimg2_image [OF f w(1,3), of m] False
      by (simp add: cu_wordarr_skewcopy_bitimg2_def skewed_words)
  next
    case 2
    obtain m' where "wordarr_semiskew_bitimg2 f count dst src0 o1 src1 m = Some m'"
      "image2 f count dst (skewed m 0 src0) (skewed m o1 src1) m m'"
      using semiskew_image [OF f False safe 2(2)] .
    then show ?thesis using 2 False by (simp add: cu_wordarr_skewcopy_bitimg2_def)
  next
    case 3
    obtain m' where "wordarr_semiskew_bitimg2 (cu_bool2f_swap f) count dst src1 o0 src0 m = Some m'"
      "image2 (cu_bool2f_swap f) count dst (skewed m 0 src1) (skewed m o0 src0) m m'"
      using semiskew_image [OF bool2f_swap_code [OF f] swap_binary [OF f False] safe(2,1) 3(1)] .
    then show ?thesis using 3 False image2_swap [OF f] by (simp add: cu_wordarr_skewcopy_bitimg2_def)
  next
    case 4
    then have "cu_wordarr_skewcopy_bitimg2 f count dst o0 src0 o1 src1 m =
        Some (store_range dst count (\<lambda>i. g (skewed m o0 src0 i) (skewed m o1 src1 i)) m)"
      using g(1) w False
      by (simp add: cu_wordarr_skewcopy_bitimg2_def store_facts skewed_words prev_Suc_read)
    then show ?thesis using g(2) by (auto intro!: image2I simp: bitwise_def)
  qed
qed

lemma all_nat_split: "(\<forall>i. P i) \<longleftrightarrow> P 0 \<and> (\<forall>i. P (Suc i))"
  by (metis not0_implies_Suc)

lemma ex_nat_split: "(\<exists>i. P i) \<longleftrightarrow> P 0 \<or> (\<exists>i. P (Suc i))"
  by (metis not0_implies_Suc)

section \<open>Properties\<close>

text \<open>C37: \<open>cu_wordarr_skewcopy_bitimg2\<close>, for a valid function code, offsets below the word width and a
  destination that starts no later than each source or beyond the words read from it, stores at each
  destination bit the function of the two source bits at their offsets, and writes nothing else.\<close>

theorem skewcopy_bitimg2_bits:
  assumes "f < 16" "o0 < 64" "o1 < 64"
    and "dst \<le> src0 \<or> src0 + count < dst" "dst \<le> src1 \<or> src1 + count < dst"
  shows "\<exists>m'. cu_wordarr_skewcopy_bitimg2 f count dst o0 src0 o1 src1 m = Some m'
    \<and> (\<forall>l<64 * count. arr_bit m' dst l \<longleftrightarrow>
          cu_bool2f_apply f (arr_bit m src0 (o0 + l)) (arr_bit m src1 (o1 + l)))
    \<and> (\<forall>p. p < dst \<or> dst + count \<le> p \<longrightarrow> m' p = m p)"
proof -
  have "forward_safe dst src0 (count + 1)" "forward_safe dst src1 (count + 1)"
    using assms(4,5) by (auto simp: forward_safe_def)
  from skewcopy_bitimg2_image [OF assms(1) this, of o0 o1 m] obtain w where
    w: "cu_wordarr_skewcopy_bitimg2 f count dst o0 src0 o1 src1 m = Some (store_range dst count w m)"
      "\<And>i n. n < 64 \<Longrightarrow> bit (w i) n =
         cu_bool2f_apply f (bit (skewed m o0 src0 i) n) (bit (skewed m o1 src1 i) n)"
    by (auto simp: image2_def)
  have "arr_bit (store_range dst count w m) dst l \<longleftrightarrow>
      cu_bool2f_apply f (arr_bit m src0 (o0 + l)) (arr_bit m src1 (o1 + l))" if "l < 64 * count" for l
  proof -
    have "l div 64 < count" using that by (simp add: div_less_iff_less_mult mult.commute)
    then have "arr_bit (store_range dst count w m) dst l \<longleftrightarrow> bit (w (l div 64)) (l mod 64)"
      by (simp add: arr_bit_def store_range_def)
    moreover have "64 * (l div 64) + l mod 64 = l" by simp
    ultimately show ?thesis
      using w(2) [of "l mod 64" "l div 64"] bit_skewed [OF assms(2), of "l mod 64" m src0 "l div 64"]
        bit_skewed [OF assms(3), of "l mod 64" m src1 "l div 64"] by simp
  qed
  then show ?thesis using w(1) by (auto simp: store_range_def)
qed

theorem skewcopy_bitimg2_bits_witness:
  "\<exists>m'. cu_wordarr_skewcopy_bitimg2 CU_BOOL2F_XOR 2 0 3 10 5 20 (\<lambda>p. of_nat p) = Some m'
    \<and> (\<forall>l<64 * 2. arr_bit m' 0 l \<longleftrightarrow>
          cu_bool2f_apply CU_BOOL2F_XOR (arr_bit (\<lambda>p. of_nat p) 10 (3 + l)) (arr_bit (\<lambda>p. of_nat p) 20 (5 + l)))"
  using skewcopy_bitimg2_bits [of CU_BOOL2F_XOR 3 5 0 10 2 20 "\<lambda>p. of_nat p"] by auto

text \<open>\<open>cu_wordarr_copy_bitimg2\<close> stores the image under the function of the corresponding words,
  also when the destination is one of the sources or starts before it.\<close>

theorem copy_bitimg2_words:
  assumes "f < 16" "dst \<le> left \<or> left + count \<le> dst" "dst \<le> right \<or> right + count \<le> dst" "i < count" "n < 64"
  shows "bit (cu_wordarr_copy_bitimg2 f count dst left right m (dst + i)) n \<longleftrightarrow>
    cu_bool2f_apply f (bit (m (left + i)) n) (bit (m (right + i)) n)"
  using copy_bitimg2_image [of f dst left count right m] assms
  by (auto simp: forward_safe_def store_range_def image2_def)

theorem copy_bitimg2_words_witness:
  "bit (cu_wordarr_copy_bitimg2 CU_BOOL2F_NOT_AND 3 7 7 9 (\<lambda>p. of_nat p) (7 + 2)) 1 \<longleftrightarrow>
    cu_bool2f_apply CU_BOOL2F_NOT_AND (bit (9 :: u64) 1) (bit (11 :: u64) 1)"
  using copy_bitimg2_words [of CU_BOOL2F_NOT_AND 7 7 3 9 2 1 "\<lambda>p. of_nat p"] by simp

text \<open>\<open>cu_wordarr_cmp\<close> compares lexicographically: zero when all words agree (as
  \<open>cu_wordarr_eq\<close> decides), otherwise the order of the first words that differ.\<close>

theorem wordarr_cmp_lexicographic:
  "(cu_wordarr_eq count p q m \<longleftrightarrow> cu_wordarr_cmp count p q m = 0)
   \<and> (cu_wordarr_cmp count p q m = 0 \<longleftrightarrow> (\<forall>i. i \<ge> count \<or> m (p + i) = m (q + i)))
   \<and> (cu_wordarr_cmp count p q m = -1 \<longleftrightarrow>
        (\<exists>k. k < count \<and> m (p + k) < m (q + k) \<and> (\<forall>i. i \<ge> k \<or> m (p + i) = m (q + i))))"
proof (induction count arbitrary: p q)
  case (Suc count)
  have all: "(\<forall>i. i \<ge> Suc c \<or> m (p + i) = m (q + i)) \<longleftrightarrow>
      m p = m q \<and> (\<forall>i. i \<ge> c \<or> m (p + 1 + i) = m (q + 1 + i))" for c
  proof -
    have "(\<forall>i. i \<ge> Suc c \<or> m (p + i) = m (q + i)) \<longleftrightarrow>
        m p = m q \<and> (\<forall>i. Suc i \<ge> Suc c \<or> m (p + Suc i) = m (q + Suc i))"
      by (subst all_nat_split) simp
    then show ?thesis by simp
  qed
  have ex: "(\<exists>k. k < Suc count \<and> m (p + k) < m (q + k) \<and> (\<forall>i. i \<ge> k \<or> m (p + i) = m (q + i))) \<longleftrightarrow>
      m p < m q \<or> m p = m q \<and> (\<exists>k. k < count \<and> m (p + 1 + k) < m (q + 1 + k)
         \<and> (\<forall>i. i \<ge> k \<or> m (p + 1 + i) = m (q + 1 + i)))" (is "(\<exists>k. ?P k) \<longleftrightarrow> ?R")
  proof -
    have "(\<exists>k. ?P k) \<longleftrightarrow> ?P 0 \<or> (\<exists>k. ?P (Suc k))" by (rule ex_nat_split)
    also have "\<dots> \<longleftrightarrow> ?R" unfolding all by auto
    finally show ?thesis .
  qed
  show ?case
    using Suc [of "p + 1" "q + 1"] unfolding all ex by (auto simp: Let_def)
qed simp

end
