(* ===== verification/Bitarray.thy ===== *)
theory Bitarray
  imports CuWordarr
begin

text \<open>
  Bit arrays, \<^verbatim>\<open>cucon/bitarray.h\<close> and \<^verbatim>\<open>cucon/bitarray.c\<close>. A bit array is the C struct: a
  capacity in bytes, a size in bits and a pointer into the word store. An operation takes the
  struct and the store and returns what it changes of them. Sizes are 64-bit words and wrap.
  The address that the allocator returns is an argument of the functions that allocate, and
  freeing leaves the store alone. \<open>memset\<close> and \<open>memcpy\<close> run over whole words, since every
  length passed to them is a multiple of the word size.
\<close>

section \<open>Representation\<close>

record cucon_bitarray =
  ba_cap :: u64
  ba_size :: u64
  ba_arr :: nat

definition WORD_BIT :: "nat \<Rightarrow> u64" where
  "WORD_BIT n = push_bit n 1"

definition WORD_MASK :: "nat \<Rightarrow> u64" where
  "WORD_MASK n = WORD_BIT n - 1"

definition ceil_words :: "u64 \<Rightarrow> u64" where
  "ceil_words n = the (cu_size_ceil_div n 64)"

definition capacity_for :: "u64 \<Rightarrow> u64" where
  "capacity_for n = 8 * ceil_words n"

definition memset_words :: "nat \<Rightarrow> u64 \<Rightarrow> u64 \<Rightarrow> store \<Rightarrow> store" where
  "memset_words dst val len m = cu_wordarr_fill (unat len div 8) dst val m"

definition memcpy_words :: "nat \<Rightarrow> nat \<Rightarrow> u64 \<Rightarrow> store \<Rightarrow> store" where
  "memcpy_words dst src len m = cu_wordarr_copy (unat len div 8) dst src m"

section \<open>Construction\<close>

definition cucon_bitarray_init :: "nat \<Rightarrow> u64 \<Rightarrow> cucon_bitarray" where
  "cucon_bitarray_init new sz =
     (let cap = capacity_for sz in \<lparr>ba_cap = cap, ba_size = sz, ba_arr = new\<rparr>)"

definition cucon_bitarray_init_fill :: "nat \<Rightarrow> u64 \<Rightarrow> bool \<Rightarrow> store \<Rightarrow> cucon_bitarray \<times> store" where
  "cucon_bitarray_init_fill new sz val m =
     (let cap = capacity_for sz
      in (\<lparr>ba_cap = cap, ba_size = sz, ba_arr = new\<rparr>,
          memset_words new (if val then NOT 0 else 0) cap m))"

definition cucon_bitarray_init_copy :: "nat \<Rightarrow> cucon_bitarray \<Rightarrow> store \<Rightarrow> cucon_bitarray \<times> store" where
  "cucon_bitarray_init_copy new ba_src m =
     (let sz = ba_size ba_src; cap = capacity_for sz
      in (\<lparr>ba_cap = cap, ba_size = sz, ba_arr = new\<rparr>, memcpy_words new (ba_arr ba_src) cap m))"

definition cucon_bitarray_swap :: "cucon_bitarray \<Rightarrow> cucon_bitarray \<Rightarrow> cucon_bitarray \<times> cucon_bitarray" where
  "cucon_bitarray_swap ba0 ba1 =
     (ba0\<lparr>ba_cap := ba_cap ba1, ba_size := ba_size ba1, ba_arr := ba_arr ba1\<rparr>,
      ba1\<lparr>ba_cap := ba_cap ba0, ba_size := ba_size ba0, ba_arr := ba_arr ba0\<rparr>)"

section \<open>Element access\<close>

definition cucon_bitarray_set_at :: "cucon_bitarray \<Rightarrow> u64 \<Rightarrow> bool \<Rightarrow> store \<Rightarrow> store" where
  "cucon_bitarray_set_at ba i value m =
     (let mask = push_bit (unat (i mod 64)) 1; p = ba_arr ba + unat (i div 64)
      in if value then m(p := m p OR mask) else m(p := m p AND NOT mask))"

definition cucon_bitarray_at :: "cucon_bitarray \<Rightarrow> u64 \<Rightarrow> store \<Rightarrow> bool" where
  "cucon_bitarray_at ba i m \<longleftrightarrow> m (ba_arr ba + unat (i div 64)) AND push_bit (unat (i mod 64)) 1 \<noteq> 0"

text \<open>The inner \<open>while\<close> of the fill: \<open>k\<close> words from \<open>iword\<close> on; the final index is returned too.\<close>

fun bitarray_fill_loop :: "nat \<Rightarrow> nat \<Rightarrow> nat \<Rightarrow> u64 \<Rightarrow> store \<Rightarrow> nat \<times> store" where
  "bitarray_fill_loop 0 iword arr v m = (iword, m)"
| "bitarray_fill_loop (Suc k) iword arr v m = bitarray_fill_loop k (iword + 1) arr v (m(arr + iword := v))"

definition cucon_bitarray_fill :: "cucon_bitarray \<Rightarrow> u64 \<Rightarrow> u64 \<Rightarrow> bool \<Rightarrow> store \<Rightarrow> store" where
  "cucon_bitarray_fill ba i j val m =
     (let iword = unat (i div 64); ibit = unat (i mod 64);
          jword = unat (j div 64); jbit = unat (j mod 64); arr = ba_arr ba
      in if val then
           (if iword = jword then
              (if ibit = jbit then m
               else m(arr + iword := m (arr + iword) OR (WORD_BIT jbit - WORD_BIT ibit)))
            else
              (let m = m(arr + iword := m (arr + iword) OR NOT (WORD_BIT ibit - 1));
                   (iword, m) = bitarray_fill_loop (jword - (iword + 1)) (iword + 1) arr (NOT 0) m
               in if jbit = 0 then m
                  else m(arr + iword := m (arr + iword) OR (WORD_BIT jbit - 1))))
         else
           (if iword = jword then
              (if ibit = jbit then m
               else m(arr + iword := m (arr + iword) AND NOT (WORD_BIT jbit - WORD_BIT ibit)))
            else
              (let m = m(arr + iword := m (arr + iword) AND (WORD_BIT ibit - 1));
                   (iword, m) = bitarray_fill_loop (jword - (iword + 1)) (iword + 1) arr 0 m
               in if jbit = 0 then m
                  else m(arr + iword := m (arr + iword) AND NOT (WORD_BIT jbit - 1)))))"

section \<open>Comparison\<close>

fun bitarray_cmp_loop :: "nat \<Rightarrow> nat \<Rightarrow> nat \<Rightarrow> store \<Rightarrow> int" where
  "bitarray_cmp_loop 0 arr0 arr1 m = 0"
| "bitarray_cmp_loop (Suc sizew) arr0 arr1 m =
     (let cmp = cu_word_rcmp (m arr0) (m arr1)
      in if cmp \<noteq> 0 then cmp else bitarray_cmp_loop sizew (arr0 + 1) (arr1 + 1) m)"

definition cucon_bitarray_cmp :: "cucon_bitarray \<Rightarrow> cucon_bitarray \<Rightarrow> store \<Rightarrow> int" where
  "cucon_bitarray_cmp ba0 ba1 m =
     (let size0 = ba_size ba0; size1 = ba_size ba1; sz = cu_size_min size0 size1;
          sizew = unat (sz div 64); cmp = bitarray_cmp_loop sizew (ba_arr ba0) (ba_arr ba1) m
      in if cmp \<noteq> 0 then cmp
         else
           (let rest = sz mod 64;
                cmp = (if rest \<noteq> 0 then cu_word_rcmp (m (ba_arr ba0 + sizew)) (m (ba_arr ba1 + sizew)) else 0)
            in if cmp \<noteq> 0 then cmp
               else if size0 < size1 then -1
               else if size0 > size1 then 1
               else 0))"

definition cucon_bitarray_eq :: "cucon_bitarray \<Rightarrow> cucon_bitarray \<Rightarrow> store \<Rightarrow> bool" where
  "cucon_bitarray_eq ba0 ba1 m =
     (let size0 = ba_size ba0; size1 = ba_size ba1 in
      if size0 \<noteq> size1 then False
      else
        (let sizew = unat (size0 div 64) in
         if \<not> cu_wordarr_eq sizew (ba_arr ba0) (ba_arr ba1) m then False
         else
           (let rest = unat (size0 mod 64) in
            if rest \<noteq> 0 then
              (let mask = WORD_MASK rest in
               if m (ba_arr ba0 + sizew) AND mask \<noteq> m (ba_arr ba1 + sizew) AND mask then False else True)
            else True)))"

section \<open>Search\<close>

text \<open>
  Position of the lowest bit of \<open>x\<close> as an array index from \<open>base\<close> on, or \<open>-1\<close> past the size;
  \<open>None\<close> is the failed argument check of \<open>cu_size_log2_lowbit\<close> on zero.
\<close>

definition bitarray_hit :: "u64 \<Rightarrow> u64 \<Rightarrow> u64 \<Rightarrow> u64 option" where
  "bitarray_hit sz base x =
     map_option (\<lambda>b. let r = base + ucast b in if r \<ge> sz then -1 else r) (cu_uint64_log2_lowbit x)"

text \<open>The \<open>for\<close> loops: \<open>k\<close> words are left, \<open>w i\<close> is the word tested at index \<open>i\<close>.\<close>

fun bitarray_find_loop :: "(nat \<Rightarrow> u64) \<Rightarrow> u64 \<Rightarrow> nat \<Rightarrow> nat \<Rightarrow> u64 option" where
  "bitarray_find_loop w sz 0 i = Some (-1)"
| "bitarray_find_loop w sz (Suc k) i =
     (if w i \<noteq> 0 then bitarray_hit sz (of_nat i * 64) (w i)
      else bitarray_find_loop w sz k (i + 1))"

definition cucon_bitarray_find :: "cucon_bitarray \<Rightarrow> u64 \<Rightarrow> bool \<Rightarrow> store \<Rightarrow> u64 option" where
  "cucon_bitarray_find ba start val m =
     (let sz = ba_size ba; n = unat (ceil_words (ba_size ba)); arr = ba_arr ba;
          i = unat (start div 64); l = unat (start mod 64)
      in if l \<noteq> 0 \<and> m (arr + i) \<noteq> 0 then
           bitarray_hit sz (of_nat i * 64 + of_nat l) (drop_bit l (m (arr + i)))
         else
           (let i = (if l \<noteq> 0 then i + 1 else i)
            in if val then bitarray_find_loop (\<lambda>i. m (arr + i)) sz (n - i) i
               else bitarray_find_loop (\<lambda>i. NOT (m (arr + i))) sz (n - i) i))"

definition cucon_bitarray_find2 ::
    "cucon_bitarray \<Rightarrow> cucon_bitarray \<Rightarrow> u64 \<Rightarrow> bool \<Rightarrow> bool \<Rightarrow> store \<Rightarrow> u64 option" where
  "cucon_bitarray_find2 ba0 ba1 start val0 val1 m =
     (let sz = cu_size_min (ba_size ba0) (ba_size ba1); n = unat (ceil_words sz);
          x01 = (\<lambda>i. (if val0 then m (ba_arr ba0 + i) else NOT (m (ba_arr ba0 + i)))
                 AND (if val1 then m (ba_arr ba1 + i) else NOT (m (ba_arr ba1 + i))));
          i = unat (start div 64); l = unat (start mod 64)
      in if l \<noteq> 0 \<and> x01 i \<noteq> 0 then
           bitarray_hit sz (of_nat i * 64 + of_nat l) (drop_bit l (x01 i))
         else
           (let i = (if l \<noteq> 0 then i + 1 else i)
            in bitarray_find_loop x01 sz (n - i) i))"

section \<open>Resizing\<close>

text \<open>\<open>None\<close> is the failed assertion that the new capacity holds what is copied.\<close>

definition bitarray_realloc :: "nat \<Rightarrow> cucon_bitarray \<Rightarrow> u64 \<Rightarrow> u64 \<Rightarrow> store \<Rightarrow> (cucon_bitarray \<times> store) option" where
  "bitarray_realloc new ba new_cap new_size m =
     (let old_arr = ba_arr ba; copy_cap = capacity_for (cu_size_min new_size (ba_size ba))
      in if \<not> new_cap \<ge> copy_cap then None
         else Some (ba\<lparr>ba_cap := new_cap, ba_arr := new\<rparr>, memcpy_words new old_arr copy_cap m))"

definition set_size :: "u64 \<Rightarrow> (cucon_bitarray \<times> store) option \<Rightarrow> (cucon_bitarray \<times> store) option" where
  "set_size sz r = map_option (\<lambda>(ba, m). (ba\<lparr>ba_size := sz\<rparr>, m)) r"

definition cucon_bitarray_resize_gp ::
    "nat \<Rightarrow> cucon_bitarray \<Rightarrow> u64 \<Rightarrow> store \<Rightarrow> (cucon_bitarray \<times> store) option" where
  "cucon_bitarray_resize_gp new ba sz m =
     (let min_cap = capacity_for sz; old_cap = ba_cap ba
      in set_size sz
           (if min_cap > old_cap then
              (let new_cap = cu_size_max min_cap (old_cap * 2) in bitarray_realloc new ba new_cap sz m)
            else if min_cap * 2 < old_cap then bitarray_realloc new ba min_cap sz m
            else Some (ba, m)))"

definition cucon_bitarray_resize_gpmax ::
    "nat \<Rightarrow> cucon_bitarray \<Rightarrow> u64 \<Rightarrow> store \<Rightarrow> (cucon_bitarray \<times> store) option" where
  "cucon_bitarray_resize_gpmax new ba sz m =
     (let min_cap = capacity_for sz; old_cap = ba_cap ba
      in set_size sz
           (if min_cap > old_cap then
              (let new_cap = cu_size_max min_cap (old_cap * 2) in bitarray_realloc new ba new_cap sz m)
            else Some (ba, m)))"

definition cucon_bitarray_resize_exact ::
    "nat \<Rightarrow> cucon_bitarray \<Rightarrow> u64 \<Rightarrow> store \<Rightarrow> (cucon_bitarray \<times> store) option" where
  "cucon_bitarray_resize_exact new ba sz m =
     (let new_cap = capacity_for sz
      in set_size sz
           (if new_cap \<noteq> ba_cap ba then bitarray_realloc new ba new_cap sz m else Some (ba, m)))"

definition cucon_bitarray_resize_exactmax ::
    "nat \<Rightarrow> cucon_bitarray \<Rightarrow> u64 \<Rightarrow> store \<Rightarrow> (cucon_bitarray \<times> store) option" where
  "cucon_bitarray_resize_exactmax new ba sz m =
     (let new_cap = capacity_for sz
      in set_size sz
           (if new_cap > ba_cap ba then bitarray_realloc new ba new_cap sz m else Some (ba, m)))"

definition cucon_bitarray_resize_fill_gp ::
    "nat \<Rightarrow> cucon_bitarray \<Rightarrow> u64 \<Rightarrow> bool \<Rightarrow> store \<Rightarrow> (cucon_bitarray \<times> store) option" where
  "cucon_bitarray_resize_fill_gp new ba new_size fill_value m =
     (let old_size = ba_size ba
      in map_option (\<lambda>(ba, m). (ba, if old_size < new_size then cucon_bitarray_fill ba old_size new_size fill_value m
                                    else m))
           (cucon_bitarray_resize_gp new ba new_size m))"

definition cucon_bitarray_resize_fill_exact ::
    "nat \<Rightarrow> cucon_bitarray \<Rightarrow> u64 \<Rightarrow> bool \<Rightarrow> store \<Rightarrow> (cucon_bitarray \<times> store) option" where
  "cucon_bitarray_resize_fill_exact new ba new_size fill_value m =
     (let old_size = ba_size ba
      in map_option (\<lambda>(ba, m). (ba, if old_size < new_size then cucon_bitarray_fill ba old_size new_size fill_value m
                                    else m))
           (cucon_bitarray_resize_exact new ba new_size m))"

definition cucon_bitarray_resize_set_at ::
    "nat \<Rightarrow> cucon_bitarray \<Rightarrow> u64 \<Rightarrow> bool \<Rightarrow> bool \<Rightarrow> store \<Rightarrow> (cucon_bitarray \<times> store) option" where
  "cucon_bitarray_resize_set_at new ba i fill_value set_value m =
     (let old_size = ba_size ba
      in map_option (\<lambda>(ba, m).
             let m = (if old_size \<le> i then cucon_bitarray_fill ba old_size (i + 1) fill_value m else m)
             in (ba, cucon_bitarray_set_at ba i set_value m))
           (cucon_bitarray_resize_gp new ba (i + 1) m))"

section \<open>Images\<close>

definition cucon_bitarray_init_img_bool1f ::
    "nat \<Rightarrow> cu_bool1f \<Rightarrow> cucon_bitarray \<Rightarrow> store \<Rightarrow> cucon_bitarray \<times> store" where
  "cucon_bitarray_init_img_bool1f new f arg m =
     (let ba = cucon_bitarray_init new (ba_size arg)
      in (ba, cu_wordarr_copy_bitimg f (unat (ceil_words (ba_size ba))) (ba_arr ba) (ba_arr arg) m))"

definition cucon_bitarray_init_img_bool2f ::
    "nat \<Rightarrow> cu_bool2f \<Rightarrow> cucon_bitarray \<Rightarrow> cucon_bitarray \<Rightarrow> store \<Rightarrow> cucon_bitarray \<times> store" where
  "cucon_bitarray_init_img_bool2f new f arg0 arg1 m =
     (let sz = cu_size_min (ba_size arg0) (ba_size arg1); ba = cucon_bitarray_init new sz
      in (ba, cu_wordarr_copy_bitimg2 f (unat (ceil_words sz)) (ba_arr ba) (ba_arr arg0) (ba_arr arg1) m))"

definition cucon_bitarray_update_img_bool1f :: "cu_bool1f \<Rightarrow> cucon_bitarray \<Rightarrow> store \<Rightarrow> store" where
  "cucon_bitarray_update_img_bool1f f ba m =
     cu_wordarr_copy_bitimg f (unat (ceil_words (ba_size ba))) (ba_arr ba) (ba_arr ba) m"

definition cucon_bitarray_update_img_bool2f ::
    "cu_bool2f \<Rightarrow> cucon_bitarray \<Rightarrow> cucon_bitarray \<Rightarrow> store \<Rightarrow> store" where
  "cucon_bitarray_update_img_bool2f f ba ba_src m =
     cu_wordarr_copy_bitimg2 f (unat (ceil_words (ba_size ba))) (ba_arr ba) (ba_arr ba) (ba_arr ba_src) m"

end
