(* ===== verification/BitarrayContents.thy ===== *)
theory BitarrayContents
  imports Bitarray
begin

text \<open>
  The contents of bit arrays: the list of bits an array holds in a store, single elements, filling,
  equality, order and search in terms of it.
\<close>

section \<open>Contents\<close>

text \<open>The bits of an array as a list, and the arrays whose capacity holds their size.\<close>

definition ba_bits :: "cucon_bitarray \<Rightarrow> store \<Rightarrow> bool list" where
  "ba_bits ba m = map (arr_bit m (ba_arr ba)) [0..<unat (ba_size ba)]"

definition ba_wf :: "cucon_bitarray \<Rightarrow> bool" where
  "ba_wf ba \<longleftrightarrow> unat (ba_size ba) + 63 < 2 ^ 64 \<and> unat (ba_size ba) \<le> 8 * unat (ba_cap ba) \<and> 8 dvd unat (ba_cap ba)"

lemma length_ba_bits [simp]: "length (ba_bits ba m) = unat (ba_size ba)"
  by (simp add: ba_bits_def)

lemma nth_ba_bits [simp]: "k < unat (ba_size ba) \<Longrightarrow> ba_bits ba m ! k = arr_bit m (ba_arr ba) k"
  by (simp add: ba_bits_def)

lemma unat_index: "unat (i div 64) = unat i div 64" "unat (i mod 64) = unat i mod 64" for i :: u64
  by (simp_all add: unat_div unat_mod)

lemma index_le: "(i :: nat) \<le> k \<longleftrightarrow> i div 64 < k div 64 \<or> i div 64 = k div 64 \<and> i mod 64 \<le> k mod 64"
proof -
  have "i = 64 * (i div 64) + i mod 64" "k = 64 * (k div 64) + k mod 64" "i mod 64 < 64" "k mod 64 < 64" by simp_all
  then show ?thesis by (cases "i div 64" "k div 64" rule: linorder_cases) linarith+
qed

lemma index_less: "(k :: nat) < j \<longleftrightarrow> k div 64 < j div 64 \<or> k div 64 = j div 64 \<and> k mod 64 < j mod 64"
  using index_le [of j k] by (auto simp: not_le)

lemma index_eq: "(i :: nat) = k \<longleftrightarrow> i div 64 = k div 64 \<and> i mod 64 = k mod 64"
  using div_mult_mod_eq [of i 64] div_mult_mod_eq [of k 64] by metis

lemma arr_bit_upd: "arr_bit (m(arr + q := x)) arr k = (if k div 64 = q then bit x (k mod 64) else arr_bit m arr k)"
  by (simp add: arr_bit_def)

lemma unat_ceil_words:
  assumes "unat n + 63 < 2 ^ 64"
  shows "unat (ceil_words n) = (unat n + 63) div 64"
proof -
  have "unat (n + 63) = unat n + 63" using assms by (simp add: unat_word_ariths)
  moreover have "n + 64 - 1 = n + 63" by simp
  then have "ceil_words n = (n + 63) div 64" by (simp only: ceil_words_def cu_size_ceil_div_def) simp
  ultimately show ?thesis by (simp only: unat_div) simp
qed

lemma unat_capacity_for:
  assumes "unat n + 63 < 2 ^ 64"
  shows "unat (capacity_for n) = 8 * ((unat n + 63) div 64)"
proof -
  have "8 * ((unat n + 63) div 64) < 2 ^ 64" using assms by linarith
  then show ?thesis using unat_ceil_words [OF assms] by (simp add: capacity_for_def unat_word_ariths)
qed

section \<open>Single elements\<close>

lemma at_bit: "cucon_bitarray_at ba i m \<longleftrightarrow> arr_bit m (ba_arr ba) (unat i)"
  by (simp add: cucon_bitarray_at_def arr_bit_def unat_index bit_iff_and_push_bit_not_eq_0)

lemma set_at_bit:
  "arr_bit (cucon_bitarray_set_at ba i v m) (ba_arr ba) k = (if k = unat i then v else arr_bit m (ba_arr ba) k)"
proof -
  have "bit (x OR push_bit (unat i mod 64) 1) n \<longleftrightarrow> n = unat i mod 64 \<or> bit x n"
    "bit (x AND NOT (push_bit (unat i mod 64) 1)) n \<longleftrightarrow> n \<noteq> unat i mod 64 \<and> bit x n" if "n < 64" for x :: u64 and n
    using that by (auto simp: bit_simps)
  from this [of "k mod 64"] show ?thesis
    by (auto simp: cucon_bitarray_set_at_def Let_def arr_bit_upd unat_index index_eq [of k] arr_bit_def)
qed

section \<open>Filling\<close>

lemma bit_WORD_BIT_minus_1: "bit (WORD_BIT n - 1) i \<longleftrightarrow> i < n" if "n < 64" "i < 64"
  using that by (simp add: WORD_BIT_def push_bit_eq_mult flip: mask_eq_exp_minus_1) (simp add: bit_simps)

lemma bit_WORD_BIT_diff:
  assumes "a \<le> b" "b < 64" "n < 64"
  shows "bit (WORD_BIT b - WORD_BIT a) n \<longleftrightarrow> a \<le> n \<and> n < b"
proof -
  have "mask b = mask a OR (mask b AND NOT (mask a) :: u64)"
    using assms(1) by (intro bit_eqI) (auto simp: bit_simps)
  also have "\<dots> = mask a + (mask b AND NOT (mask a))"
    by (rule disjunctive_add [symmetric]) (auto simp: bit_simps)
  finally have "WORD_BIT b - WORD_BIT a = mask b AND NOT (mask a)"
    by (simp add: WORD_BIT_def push_bit_eq_mult mask_eq_exp_minus_1 algebra_simps)
  then show ?thesis using assms by (auto simp: bit_simps)
qed

lemma fill_loop_range:
  "bitarray_fill_loop k iword arr v m = (iword + k, store_range (arr + iword) k (\<lambda>i. v) m)"
proof (induction k arbitrary: iword m)
  case (Suc k)
  have "store_range (Suc (arr + iword)) k (\<lambda>i. v) (m(arr + iword := v)) = store_range (arr + iword) (Suc k) (\<lambda>i. v) m"
    using store_range_step [of k "\<lambda>i. v" "\<lambda>i. v" v "arr + iword" m] by simp
  then show ?case using Suc [of "iword + 1"] by (simp del: fun_upd_apply)
qed simp

lemma arr_bit_store_range:
  "arr_bit (store_range (arr + a) c (\<lambda>i. v) m) arr k =
     (if a \<le> k div 64 \<and> k div 64 < a + c then bit v (k mod 64) else arr_bit m arr k)"
  by (auto simp: arr_bit_def store_range_def)

text \<open>Filling across words: the first word from \<open>ib\<close> on, whole words, the last word below \<open>jb\<close>.\<close>

lemma fill_across_bit:
  assumes "iw < jw" "ib < 64" "jb < 64"
    and first: "\<And>n. n < 64 \<Longrightarrow> bit x n = (if ib \<le> n then val else bit (m (arr + iw)) n)"
    and mid: "\<And>n. n < 64 \<Longrightarrow> bit v n = val"
    and last: "\<And>w n. n < 64 \<Longrightarrow> bit (y w) n = (if n < jb then val else bit w n)"
  defines "m1 \<equiv> store_range (arr + (iw + 1)) (jw - (iw + 1)) (\<lambda>i. v) (m(arr + iw := x))"
  shows "arr_bit (if jb = 0 then m1 else m1(arr + jw := y (m1 (arr + jw)))) arr k =
    (if (iw < k div 64 \<or> iw = k div 64 \<and> ib \<le> k mod 64) \<and> (k div 64 < jw \<or> k div 64 = jw \<and> k mod 64 < jb)
     then val else arr_bit m arr k)"
proof -
  have m1: "arr_bit m1 arr k = (if iw + 1 \<le> k div 64 \<and> k div 64 < jw then val
      else if k div 64 = iw then bit x (k mod 64) else arr_bit m arr k)" for k
    unfolding m1_def arr_bit_store_range using assms(1) mid [of "k mod 64"] by (simp add: arr_bit_upd)
  have at: "bit (m1 (arr + jw)) (k mod 64) = arr_bit m arr k" if "k div 64 = jw"
    using m1 [of k] that assms(1) by (simp add: arr_bit_def)
  have at0: "bit (m (arr + iw)) (k mod 64) = arr_bit m arr k" if "k div 64 = iw"
    using that by (simp add: arr_bit_def)
  consider "k div 64 < iw" | "k div 64 = iw" | "iw < k div 64" "k div 64 < jw" | "k div 64 = jw" | "jw < k div 64"
    by linarith
  then show ?thesis
    by cases (use assms(1) first [of "k mod 64"] last [of "k mod 64" "m1 (arr + jw)"] at at0 in
        \<open>simp_all add: arr_bit_upd m1\<close>)
qed

lemma fill_bit:
  assumes "i \<le> j"
  shows "arr_bit (cucon_bitarray_fill ba i j val m) (ba_arr ba) k =
    (if unat i \<le> k \<and> k < unat j then val else arr_bit m (ba_arr ba) k)"
proof -
  let ?iw = "unat i div 64" and ?ib = "unat i mod 64" and ?jw = "unat j div 64" and ?jb = "unat j mod 64"
  let ?q = "k div 64" and ?r = "k mod 64" and ?arr = "ba_arr ba"
  have ij: "unat i \<le> unat j" using assms by (simp add: word_le_nat_alt)
  then have w: "?iw < ?jw \<or> ?iw = ?jw \<and> ?ib \<le> ?jb" using index_le by blast
  have range: "unat i \<le> k \<and> k < unat j \<longleftrightarrow>
      (?iw < ?q \<or> ?iw = ?q \<and> ?ib \<le> ?r) \<and> (?q < ?jw \<or> ?q = ?jw \<and> ?r < ?jb)"
    using index_le [of "unat i" k] index_less [of k "unat j"] by blast
  show ?thesis
  proof (cases "?iw = ?jw")
    case True
    then have eq: "?ib \<le> ?jb" using w by simp
    have old: "bit (m (?arr + ?q)) ?r = arr_bit m ?arr k" by (simp add: arr_bit_def)
    show ?thesis
      using True old bit_WORD_BIT_diff [OF eq, of ?r] unfolding range cucon_bitarray_fill_def Let_def unat_index
      by (cases "?q = ?jw"; cases val; cases "?ib = ?jb") (simp_all add: arr_bit_upd bit_simps, auto)
  next
    case False
    then have lt: "?iw < ?jw" using w by blast
    then have jw: "?iw + 1 + (?jw - (?iw + 1)) = ?jw" by simp
    note across = fill_across_bit [OF lt, of ?ib ?jb, where arr = ?arr and k = k and m = m]
    show ?thesis
    proof (cases val)
      case True
      show ?thesis
        unfolding range cucon_bitarray_fill_def Let_def unat_index fill_loop_range prod.case jw
        using across [of "m (?arr + ?iw) OR NOT (WORD_BIT ?ib - 1)" True "NOT 0" "\<lambda>w. w OR (WORD_BIT ?jb - 1)"]
          False True
        by (simp add: bit_simps bit_WORD_BIT_minus_1 del: fun_upd_apply)
    next
      case val: False
      show ?thesis
        unfolding range cucon_bitarray_fill_def Let_def unat_index fill_loop_range prod.case jw
        using across [of "m (?arr + ?iw) AND (WORD_BIT ?ib - 1)" False 0 "\<lambda>w. w AND NOT (WORD_BIT ?jb - 1)"]
          False val
        by (simp add: bit_simps bit_WORD_BIT_minus_1 del: fun_upd_apply)
    qed
  qed
qed

section \<open>Equality and order\<close>

lemma wordarr_eq_iff: "cu_wordarr_eq count p q m \<longleftrightarrow> (\<forall>i<count. m (p + i) = m (q + i))"
proof (induction count arbitrary: p q)
  case (Suc count)
  then show ?case by (auto simp: less_Suc_eq_0_disj)
qed simp

lemma words_eq_bits:
  "(\<forall>i<c. m (p + i) = m (q + i)) \<longleftrightarrow> (\<forall>k<64 * c. arr_bit m p k = arr_bit m q k)"
proof
  assume L: "\<forall>i<c. m (p + i) = m (q + i)"
  show "\<forall>k<64 * c. arr_bit m p k = arr_bit m q k"
    using L by (auto simp: arr_bit_def div_less_iff_less_mult mult.commute)
next
  assume R: "\<forall>k<64 * c. arr_bit m p k = arr_bit m q k"
  show "\<forall>i<c. m (p + i) = m (q + i)"
  proof (intro allI impI word_eq_bitI)
    fix i n :: nat
    assume "i < c" "n < 64"
    moreover from this have "64 * i + n < 64 * c" by simp
    ultimately show "bit (m (p + i)) n = bit (m (q + i)) n"
      using R [rule_format, of "64 * i + n"] by (simp add: arr_bit_def)
  qed
qed

lemma masked_eq_bits:
  assumes "r < 64"
  shows "x AND WORD_MASK r = y AND WORD_MASK r \<longleftrightarrow> (\<forall>n<r. bit x n = bit y n)"
proof -
  have b: "bit (x AND WORD_MASK r) n \<longleftrightarrow> n < r \<and> bit x n" if "n < 64" for x n
    using bit_WORD_BIT_minus_1 [OF assms that] by (simp add: bit_and_iff WORD_MASK_def conj_commute)
  show ?thesis
  proof
    assume "x AND WORD_MASK r = y AND WORD_MASK r"
    then have "bit x n = bit y n" if "n < r" for n
      using b [of n x] b [of n y] that less_trans [OF that assms] by simp
    then show "\<forall>n<r. bit x n = bit y n" by blast
  next
    assume "\<forall>n<r. bit x n = bit y n"
    then show "x AND WORD_MASK r = y AND WORD_MASK r" by (intro word_eq_bitI) (auto simp: b)
  qed
qed

lemma split_bits_below:
  fixes P :: "nat \<Rightarrow> bool"
  shows "(\<forall>k<n. P k) \<longleftrightarrow> (\<forall>k<64 * (n div 64). P k) \<and> (\<forall>r<n mod 64. P (64 * (n div 64) + r))"
proof -
  have "(\<forall>k<a + b. P k) \<longleftrightarrow> (\<forall>k<a. P k) \<and> (\<forall>r<b. P (a + r))" for a b :: nat
    using less_diff_conv2 [of a _ b] by (auto simp: not_less) (metis add_diff_inverse_nat add_less_cancel_left)
  from this [of "64 * (n div 64)" "n mod 64"] show ?thesis by simp
qed

lemma bits_eq_iff:
  "ba_bits a m = ba_bits b m \<longleftrightarrow> ba_size a = ba_size b \<and>
     (\<forall>k<unat (ba_size a). arr_bit m (ba_arr a) k = arr_bit m (ba_arr b) k)"
  by (auto simp: ba_bits_def list_eq_iff_nth_eq word_unat_eq_iff)

lemma eq_bits: "cucon_bitarray_eq a b m \<longleftrightarrow> ba_bits a m = ba_bits b m"
proof -
  let ?n = "unat (ba_size a)"
  let ?w = "?n div 64" and ?r = "?n mod 64"
  have rest: "arr_bit m p (64 * ?w + r) = bit (m (p + ?w)) r" if "r < ?r" for p r
  proof -
    have "r < 64" using that by (rule less_trans) simp
    then show ?thesis by (simp add: arr_bit_def)
  qed
  have mask: "m (ba_arr a + ?w) AND WORD_MASK ?r = m (ba_arr b + ?w) AND WORD_MASK ?r \<longleftrightarrow>
      (\<forall>r<?r. arr_bit m (ba_arr a) (64 * ?w + r) = arr_bit m (ba_arr b) (64 * ?w + r))"
    by (simp add: masked_eq_bits rest)
  have "cucon_bitarray_eq a b m \<longleftrightarrow> ba_size a = ba_size b \<and>
      (\<forall>i<?w. m (ba_arr a + i) = m (ba_arr b + i)) \<and>
      (?r = 0 \<or> m (ba_arr a + ?w) AND WORD_MASK ?r = m (ba_arr b + ?w) AND WORD_MASK ?r)"
    by (auto simp: cucon_bitarray_eq_def Let_def unat_index wordarr_eq_iff)
  then show ?thesis
    unfolding words_eq_bits mask bits_eq_iff
    using split_bits_below [of ?n "\<lambda>k. arr_bit m (ba_arr a) k = arr_bit m (ba_arr b) k"] by auto
qed

text \<open>The order on bit lists: the first difference decides, then the length.\<close>

fun bits_cmp :: "bool list \<Rightarrow> bool list \<Rightarrow> int" where
  "bits_cmp [] [] = 0"
| "bits_cmp [] (_ # _) = -1"
| "bits_cmp (_ # _) [] = 1"
| "bits_cmp (x # xs) (y # ys) = (if x = y then bits_cmp xs ys else if y then -1 else 1)"

section \<open>Search\<close>

lemma hit_position:
  assumes "x \<noteq> 0" "unat base + lowest x < 2 ^ 64"
  shows "bitarray_hit sz base x = Some (if unat sz \<le> unat base + lowest x then -1 else of_nat (unat base + lowest x))"
proof -
  have "(ucast (of_nat (lowest x) :: u32) :: u64) = of_nat (lowest x)"
    using lowest_less [OF assms(1)] by (simp add: unsigned_of_nat take_bit_nat_eq_self)
  moreover have "sz \<le> base + of_nat (lowest x) \<longleftrightarrow> unat sz \<le> unat base + lowest x"
  proof -
    have "unat (base + of_nat (lowest x)) = unat base + lowest x"
      using assms(2) by (simp add: unat_word_ariths unsigned_of_nat take_bit_nat_eq_self)
    then show ?thesis by (simp add: word_le_nat_alt)
  qed
  ultimately show ?thesis
    using assms(1) by (simp add: bitarray_hit_def cu_uint64_log2_lowbit_correct Let_def)
qed

text \<open>\<open>r\<close> is the answer of a search from \<open>lo\<close> below \<open>hi\<close>: the least hit, or \<open>-1\<close>.\<close>

definition search_result :: "(nat \<Rightarrow> bool) \<Rightarrow> nat \<Rightarrow> nat \<Rightarrow> u64 \<Rightarrow> bool" where
  "search_result P lo hi r \<longleftrightarrow>
     (if \<exists>j. lo \<le> j \<and> j < hi \<and> P j
      then lo \<le> unat r \<and> unat r < hi \<and> P (unat r) \<and> (\<forall>j. lo \<le> j \<and> j < unat r \<longrightarrow> \<not> P j)
      else r = -1)"

lemma search_resultI:
  assumes "lo \<le> j" "P j" "\<And>i. lo \<le> i \<Longrightarrow> i < j \<Longrightarrow> \<not> P i" "j < 2 ^ 64"
  shows "search_result P lo hi (if hi \<le> j then -1 else of_nat j)"
proof (cases "hi \<le> j")
  case True
  then have "\<not> (\<exists>j. lo \<le> j \<and> j < hi \<and> P j)" using assms(3) by (meson less_le_trans)
  then show ?thesis using True by (auto simp: search_result_def)
next
  case False
  moreover have "unat (of_nat j :: u64) = j" using assms(4) by (simp add: unsigned_of_nat take_bit_nat_eq_self)
  ultimately show ?thesis using assms by (auto simp: search_result_def)
qed

lemma search_result_skip:
  assumes "\<And>j. lo \<le> j \<Longrightarrow> j < lo' \<Longrightarrow> \<not> P j" "lo \<le> lo'" "search_result P lo' hi r"
  shows "search_result P lo hi r"
proof (cases "\<exists>j. lo' \<le> j \<and> j < hi \<and> P j")
  case True
  then have r: "lo' \<le> unat r" "unat r < hi" "P (unat r)" "\<And>j. lo' \<le> j \<Longrightarrow> j < unat r \<Longrightarrow> \<not> P j"
    using assms(3) by (auto simp: search_result_def)
  have "lo \<le> unat r" using assms(2) r(1) by (rule le_trans)
  moreover have "\<not> P j" if "lo \<le> j" "j < unat r" for j
    using that assms(1) [of j] r(4) [of j] by (cases "j < lo'") auto
  ultimately show ?thesis using r(2,3) unfolding search_result_def by auto
next
  case False
  then have "\<not> (\<exists>j. lo \<le> j \<and> j < hi \<and> P j)" using assms(1) by (meson not_le)
  moreover have "r = -1" using False assms(3) unfolding search_result_def by (simp only: if_False)
  ultimately show ?thesis unfolding search_result_def by (simp only: if_False)
qed

lemma search_result_cong:
  assumes "\<And>j. j < hi \<Longrightarrow> P j = Q j" "search_result P lo hi r"
  shows "search_result Q lo hi r"
proof (cases "\<exists>j. lo \<le> j \<and> j < hi \<and> P j")
  case True
  then have r: "lo \<le> unat r" "unat r < hi" "P (unat r)" "\<And>j. lo \<le> j \<Longrightarrow> j < unat r \<Longrightarrow> \<not> P j"
    using assms(2) by (auto simp: search_result_def)
  have "\<not> Q j" if "lo \<le> j" "j < unat r" for j
    using r(4) [OF that] assms(1) [OF less_trans [OF that(2) r(2)]] by simp
  moreover have "Q (unat r)" using r(3) assms(1) [OF r(2)] by simp
  ultimately show ?thesis using r(1,2) unfolding search_result_def by auto
next
  case False
  moreover have "r = -1" using False assms(2) unfolding search_result_def by (simp only: if_False)
  moreover have "\<not> (\<exists>j. lo \<le> j \<and> j < hi \<and> Q j)" using False assms(1) by blast
  ultimately show ?thesis unfolding search_result_def by (simp only: if_False)
qed

lemma find_loop_search:
  assumes "64 * (i + k) < 2 ^ 64"
  shows "\<exists>r. bitarray_find_loop w sz k i = Some r
    \<and> search_result (\<lambda>j. j < 64 * (i + k) \<and> bit (w (j div 64)) (j mod 64)) (64 * i) (unat sz) r"
  using assms
proof (induction k arbitrary: i)
  case 0
  show ?case by (auto simp: search_result_def)
next
  case (Suc k)
  let ?P = "\<lambda>j. j < 64 * (i + Suc k) \<and> bit (w (j div 64)) (j mod 64)"
  show ?case
  proof (cases "w i = 0")
    case True
    then have skip: "\<not> bit (w (j div 64)) (j mod 64)" if "64 * i \<le> j" "j < 64 * (i + 1)" for j
    proof -
      have "j div 64 = i" using that by (intro div_nat_eqI) auto
      then show ?thesis using True by simp
    qed
    obtain r where r: "bitarray_find_loop w sz k (i + 1) = Some r"
      "search_result ?P (64 * (i + 1)) (unat sz) r" using Suc.IH [of "i + 1"] Suc.prems by auto
    have "search_result ?P (64 * i) (unat sz) r"
      using r(2) skip by (intro search_result_skip [of "64 * i" "64 * (i + 1)"]) auto
    then show ?thesis using r(1) True by auto
  next
    case False
    let ?j = "64 * i + lowest (w i)"
    have l: "lowest (w i) < 64" using False by (rule lowest_less)
    have ub: "unat (of_nat i * 64 :: u64) = 64 * i"
      using Suc.prems by (simp add: unat_word_ariths unsigned_of_nat take_bit_nat_eq_self)
    then have "bitarray_find_loop w sz (Suc k) i = Some (if unat sz \<le> ?j then -1 else of_nat ?j)"
      using False l Suc.prems hit_position [OF False, of "of_nat i * 64" sz] by (simp add: ub)
    moreover have "search_result ?P (64 * i) (unat sz) (if unat sz \<le> ?j then -1 else of_nat ?j)"
    proof (rule search_resultI)
      show "?P ?j" using l lowest_bit [OF False] by simp
      fix j assume j: "64 * i \<le> j" "j < ?j"
      then have "j div 64 = i" using l by (intro div_nat_eqI) auto
      moreover have "j mod 64 < lowest (w i)" using j \<open>j div 64 = i\<close> by (metis add_less_cancel_left mult_div_mod_eq)
      ultimately show "\<not> ?P j" using lowest_below [of "j mod 64" "w i"] by simp
    qed (use l Suc.prems in simp_all)
    ultimately show ?thesis by blast
  qed
qed

lemma ceil_words_cover:
  assumes "unat n + 63 < 2 ^ 64"
  shows "unat n \<le> 64 * unat (ceil_words n)" "64 * unat (ceil_words n) < 2 ^ 64"
  using assms by (auto simp: unat_ceil_words)

text \<open>A search whose first word is not cut: from a word boundary.\<close>

lemma search_aligned:
  fixes start :: u64
  assumes "unat n + 63 < 2 ^ 64" "start mod 64 = 0"
  shows "\<exists>r. bitarray_find_loop w n (unat (ceil_words n) - unat (start div 64)) (unat (start div 64)) = Some r
    \<and> search_result (\<lambda>j. bit (w (j div 64)) (j mod 64)) (unat start) (unat n) r"
proof -
  let ?i = "unat (start div 64)" and ?n = "unat (ceil_words n)"
  have s: "64 * ?i = unat start"
    using assms(2) unat_index(2) [of start] by (simp add: unat_index) (metis mult_div_mod_eq add.right_neutral unat_0)
  show ?thesis
  proof (cases "?i \<le> ?n")
    case True
    then obtain r where r: "bitarray_find_loop w n (?n - ?i) ?i = Some r"
      "search_result (\<lambda>j. j < 64 * ?n \<and> bit (w (j div 64)) (j mod 64)) (64 * ?i) (unat n) r"
      using find_loop_search [of ?i "?n - ?i" w n] ceil_words_cover [OF assms(1)] by auto
    have "search_result (\<lambda>j. bit (w (j div 64)) (j mod 64)) (64 * ?i) (unat n) r"
      by (rule search_result_cong [OF _ r(2)]) (use ceil_words_cover(1) [OF assms(1)] in auto)
    then show ?thesis using r(1) s by simp
  next
    case False
    then have "unat n \<le> unat start" using s ceil_words_cover(1) [OF assms(1)] by linarith
    then show ?thesis using False by (auto simp: search_result_def)
  qed
qed

section \<open>Order\<close>

text \<open>\<open>c\<close> is the outcome of comparing bit by bit below \<open>n\<close>: zero, or the order at the first difference.\<close>

definition first_difference :: "(nat \<Rightarrow> bool) \<Rightarrow> (nat \<Rightarrow> bool) \<Rightarrow> nat \<Rightarrow> int \<Rightarrow> bool" where
  "first_difference P Q n c \<longleftrightarrow>
     c = 0 \<and> (\<forall>k<n. P k = Q k) \<or>
     (\<exists>k<n. (\<forall>j<k. P j = Q j) \<and> P k \<noteq> Q k \<and> c = (if Q k then -1 else 1))"

lemma rcmp_first_difference: "first_difference (bit x) (bit y) 64 (cu_word_rcmp x y)"
proof (cases "x = y")
  case True
  then show ?thesis by (simp add: first_difference_def cu_word_rcmp_correct)
next
  case False
  let ?k = "lowest (x XOR y)"
  have ne: "x XOR y \<noteq> 0" using False by (simp add: xor_eq_zero_iff)
  have "bit x ?k \<noteq> bit y ?k" using lowest_bit [OF ne] by (simp add: bit_xor_iff)
  moreover have "bit x j = bit y j" if "j < ?k" for j
    using lowest_below [OF that] by (simp add: bit_xor_iff)
  ultimately show ?thesis
    using lowest_less [OF ne] False unfolding first_difference_def cu_word_rcmp_correct by auto
qed

lemma first_difference_append:
  assumes "first_difference P Q n c" "first_difference (\<lambda>k. P (n + k)) (\<lambda>k. Q (n + k)) l d"
  shows "first_difference P Q (n + l) (if c \<noteq> 0 then c else d)"
proof (cases "c = 0")
  case False
  then obtain k where "k < n" "\<forall>j<k. P j = Q j" "P k \<noteq> Q k" "c = (if Q k then -1 else 1)"
    using assms(1) by (auto simp: first_difference_def)
  then show ?thesis using False unfolding first_difference_def by (intro disjI2 exI [of _ k]) auto
next
  case True
  then have eq: "P k = Q k" if "k < n" for k
    using assms(1) that by (auto simp: first_difference_def split: if_splits)
  consider "d = 0" "\<forall>k<l. P (n + k) = Q (n + k)"
    | k where "k < l" "\<forall>j<k. P (n + j) = Q (n + j)" "P (n + k) \<noteq> Q (n + k)" "d = (if Q (n + k) then -1 else 1)"
    using assms(2) by (auto simp: first_difference_def)
  then show ?thesis
  proof cases
    case 1
    then have "P k = Q k" if "k < n + l" for k
      using eq [of k] that by (cases "k < n") (auto simp: not_less le_iff_add)
    then show ?thesis using True 1(1) by (simp add: first_difference_def)
  next
    case 2
    then have "P j = Q j" if "j < n + k" for j
      using eq [of j] that by (cases "j < n") (auto simp: not_less le_iff_add)
    then show ?thesis
      using True 2 unfolding first_difference_def by (intro disjI2 exI [of _ "n + k"]) auto
  qed
qed

lemma first_difference_cong:
  assumes "first_difference P Q n c" "\<And>k. k < n \<Longrightarrow> P k = P' k" "\<And>k. k < n \<Longrightarrow> Q k = Q' k"
  shows "first_difference P' Q' n c"
proof -
  consider "c = 0" "\<forall>k<n. P k = Q k"
    | k where "k < n" "\<forall>j<k. P j = Q j" "P k \<noteq> Q k" "c = (if Q k then -1 else 1)"
    using assms(1) by (auto simp: first_difference_def)
  then show ?thesis
  proof cases
    case 1
    then show ?thesis using assms(2,3) by (simp add: first_difference_def)
  next
    case 2
    then have "P' j = Q' j" if "j < k" for j
      using assms(2,3) that less_trans [OF that 2(1)] by blast
    then show ?thesis
      using 2 assms(2,3) [of k] unfolding first_difference_def by (intro disjI2 exI [of _ k]) auto
  qed
qed

lemma first_difference_Suc:
  "first_difference P Q (Suc n) c \<longleftrightarrow>
    (if P 0 = Q 0 then first_difference (\<lambda>k. P (Suc k)) (\<lambda>k. Q (Suc k)) n c else c = (if Q 0 then -1 else 1))"
  unfolding first_difference_def All_less_Suc2 Ex_less_Suc2 by auto

lemma arr_bit_shift: "arr_bit m p (64 * i + n) = arr_bit m (p + i) n"
  by (simp add: arr_bit_def add.assoc)

lemma cmp_loop_first_difference:
  "first_difference (arr_bit m p) (arr_bit m q) (64 * c) (bitarray_cmp_loop c p q m)"
proof (induction c arbitrary: p q)
  case 0
  show ?case by (simp add: first_difference_def)
next
  case (Suc c)
  have w: "first_difference (arr_bit m p) (arr_bit m q) 64 (cu_word_rcmp (m p) (m q))"
    by (rule first_difference_cong [OF rcmp_first_difference]) (simp_all add: arr_bit_def)
  have "first_difference (\<lambda>k. arr_bit m p (64 + k)) (\<lambda>k. arr_bit m q (64 + k)) (64 * c)
      (bitarray_cmp_loop c (p + 1) (q + 1) m)"
    using Suc.IH [of "p + 1" "q + 1"] arr_bit_shift [of m p 1] arr_bit_shift [of m q 1] by simp
  from first_difference_append [OF w this] show ?case by (simp add: Let_def)
qed

lemma bits_cmp_first_difference:
  assumes "first_difference (\<lambda>k. xs ! k) (\<lambda>k. ys ! k) (min (length xs) (length ys)) c"
  shows "bits_cmp xs ys = (if c \<noteq> 0 then c else if length xs < length ys then -1
    else if length ys < length xs then 1 else 0)"
  using assms
proof (induction xs ys rule: bits_cmp.induct)
  case (4 x xs y ys)
  show ?case
  proof (cases "x = y")
    case True
    have "first_difference (\<lambda>k. xs ! k) (\<lambda>k. ys ! k) (min (length xs) (length ys)) c"
      using "4.prems" True by (simp add: first_difference_Suc)
    then show ?thesis using "4.IH" True by simp
  next
    case False
    then show ?thesis
      using "4.prems" by (simp add: first_difference_Suc)
  qed
qed (auto simp: first_difference_def)

lemma cmp_bits:
  assumes "cu_size_min (ba_size a) (ba_size b) mod 64 = 0"
  shows "cucon_bitarray_cmp a b m = bits_cmp (ba_bits a m) (ba_bits b m)"
proof -
  let ?s = "cu_size_min (ba_size a) (ba_size b)"
  let ?c = "bitarray_cmp_loop (unat (?s div 64)) (ba_arr a) (ba_arr b) m"
  have s: "64 * unat (?s div 64) = unat ?s"
    using assms unat_index(2) [of ?s] unfolding unat_index(1) by (metis mult_div_mod_eq add.right_neutral unat_0)
  have min: "unat ?s = min (unat (ba_size a)) (unat (ba_size b))"
    by (simp add: cu_size_min_def word_less_nat_alt)
  have "first_difference (\<lambda>k. ba_bits a m ! k) (\<lambda>k. ba_bits b m ! k)
      (min (length (ba_bits a m)) (length (ba_bits b m))) ?c"
    using cmp_loop_first_difference [of m "ba_arr a" "ba_arr b" "unat (?s div 64)"] unfolding s min length_ba_bits
    by (rule first_difference_cong) simp_all
  from bits_cmp_first_difference [OF this] show ?thesis
    using assms by (simp add: cucon_bitarray_cmp_def Let_def word_less_nat_alt)
qed

section \<open>The store outside the array\<close>

lemma set_at_frame: "p < ba_arr ba \<Longrightarrow> cucon_bitarray_set_at ba i v m p = m p"
  by (simp add: cucon_bitarray_set_at_def Let_def)

lemma fill_frame: "p < ba_arr ba \<Longrightarrow> cucon_bitarray_fill ba i j v m p = m p"
  by (simp add: cucon_bitarray_fill_def Let_def fill_loop_range store_range_def)

lemma store_eqI:
  assumes "\<And>k. arr_bit m arr k = arr_bit m' arr k" "\<And>p. p < arr \<Longrightarrow> m p = m' p"
  shows "m = m'"
proof
  fix p
  show "m p = m' p"
  proof (cases "p < arr")
    case False
    then obtain q where "p = arr + q" using le_Suc_ex not_less by blast
    moreover have "bit (m (arr + q)) n = bit (m' (arr + q)) n" if "n < 64" for n
      using assms(1) [of "64 * q + n"] that by (simp add: arr_bit_def)
    ultimately show ?thesis using word_eq_bitI by blast
  qed (rule assms(2))
qed

lemma fold_set_at_bit:
  assumes "n \<le> 2 ^ 64"
  shows "arr_bit (fold (\<lambda>k. cucon_bitarray_set_at ba (of_nat k) v) [l..<n] m) (ba_arr ba) k =
    (if l \<le> k \<and> k < n then v else arr_bit m (ba_arr ba) k)"
  using assms
proof (induction n)
  case (Suc n)
  have "unat (of_nat n :: u64) = n" using Suc.prems by (simp add: unsigned_of_nat take_bit_nat_eq_self)
  then show ?case using Suc by (auto simp: set_at_bit)
qed simp

lemma fold_set_at_frame:
  "p < ba_arr ba \<Longrightarrow> fold (\<lambda>k. cucon_bitarray_set_at ba (of_nat k) v) ks m p = m p"
  by (induction ks arbitrary: m) (auto simp: set_at_frame)

lemma fill_is_fold:
  assumes "i \<le> j"
  shows "cucon_bitarray_fill ba i j v m =
    fold (\<lambda>k. cucon_bitarray_set_at ba (of_nat k) v) [unat i..<unat j] m"
  using less_imp_le [OF unat_u64_bound [of j]]
  by (intro store_eqI [of _ "ba_arr ba"]) (simp_all add: fill_bit assms fold_set_at_bit fill_frame fold_set_at_frame)

section \<open>Copies\<close>

lemma memcpy_bits:
  assumes "new \<le> arr \<or> arr + unat len div 8 \<le> new" "k < 64 * (unat len div 8)"
  shows "arr_bit (memcpy_words new arr len m) new k = arr_bit m arr k"
proof -
  have "k div 64 < unat len div 8" using assms(2) by (simp add: div_less_iff_less_mult mult.commute)
  then show ?thesis
    using assms(1) by (simp add: memcpy_words_def copy_range forward_safe_def arr_bit_def store_range_def)
qed

end
