(* ===== verification/BitarrayResize.thy ===== *)
theory BitarrayResize
  imports BitarrayContents
begin

text \<open>
  Resizing of bit arrays as an interface that the four resizing policies implement, copies and
  images, and the properties of bit arrays.
\<close>

section \<open>Resizing\<close>

text \<open>
  A block handed out by the allocator lies before the array or beyond its words. A resizing
  returns a well-formed array of the new size that keeps the bits below both sizes.
\<close>

definition fresh_for :: "nat \<Rightarrow> cucon_bitarray \<Rightarrow> bool" where
  "fresh_for new ba \<longleftrightarrow> new < ba_arr ba \<or> ba_arr ba + unat (ba_cap ba) div 8 \<le> new"

definition resized :: "cucon_bitarray \<Rightarrow> store \<Rightarrow> u64 \<Rightarrow> (cucon_bitarray \<times> store) option \<Rightarrow> bool" where
  "resized ba m sz r \<longleftrightarrow> (\<exists>ba' m'. r = Some (ba', m') \<and> ba_wf ba' \<and> ba_size ba' = sz
     \<and> (\<forall>k<min (unat sz) (unat (ba_size ba)). arr_bit m' (ba_arr ba') k = arr_bit m (ba_arr ba) k))"

lemma capacity_for_covers:
  assumes "unat n + 63 < 2 ^ 64"
  shows "unat n \<le> 8 * unat (capacity_for n)" "8 dvd unat (capacity_for n)"
    "unat (capacity_for n) div 8 = (unat n + 63) div 64"
  using assms by (auto simp: unat_capacity_for)

lemma capacity_for_mono:
  assumes "unat a \<le> unat b" "unat b + 63 < 2 ^ 64"
  shows "capacity_for a \<le> capacity_for b"
  using assms div_le_mono [of "unat a + 63" "unat b + 63" 64]
  by (simp add: word_le_nat_alt unat_capacity_for)

lemma keep_resized:
  assumes "ba_wf ba" "unat sz + 63 < 2 ^ 64" "capacity_for sz \<le> ba_cap ba"
  shows "resized ba m sz (set_size sz (Some (ba, m)))"
  using assms capacity_for_covers(1) [OF assms(2)]
  by (auto simp: resized_def set_size_def ba_wf_def word_le_nat_alt)

lemma realloc_resized:
  assumes "ba_wf ba" "unat sz + 63 < 2 ^ 64" "fresh_for new ba" "capacity_for sz \<le> cap" "8 dvd unat cap"
  shows "resized ba m sz (set_size sz (bitarray_realloc new ba cap sz m))"
proof -
  let ?s = "cu_size_min sz (ba_size ba)"
  have s: "unat ?s = min (unat sz) (unat (ba_size ba))"
    by (simp add: cu_size_min_def word_less_nat_alt)
  then have b: "unat ?s + 63 < 2 ^ 64" using assms(2) by simp
  have "capacity_for ?s \<le> capacity_for sz" using assms(2) s by (intro capacity_for_mono) simp_all
  then have le: "capacity_for ?s \<le> cap" using assms(4) by simp
  have c: "unat cap \<ge> unat (capacity_for sz)" using assms(4) by (simp add: word_le_nat_alt)
  have "(unat ?s + 63) div 64 \<le> unat (ba_cap ba) div 8"
    using assms(1) s unfolding ba_wf_def by (auto elim!: dvdE)
  then have sep: "new \<le> ba_arr ba \<or> ba_arr ba + unat (capacity_for ?s) div 8 \<le> new"
    using assms(3) capacity_for_covers(3) [OF b] by (auto simp: fresh_for_def)
  have "arr_bit (memcpy_words new (ba_arr ba) (capacity_for ?s) m) new k = arr_bit m (ba_arr ba) k"
    if "k < min (unat sz) (unat (ba_size ba))" for k
    using that s capacity_for_covers(1,2) [OF b] by (intro memcpy_bits sep) auto
  then show ?thesis
    using le c assms(2,5) capacity_for_covers(1) [OF assms(2)]
    by (auto simp: resized_def set_size_def bitarray_realloc_def Let_def ba_wf_def)
qed

locale bitarray_resizer =
  fixes resize :: "nat \<Rightarrow> cucon_bitarray \<Rightarrow> u64 \<Rightarrow> store \<Rightarrow> (cucon_bitarray \<times> store) option"
  assumes resize_resized:
    "ba_wf ba \<Longrightarrow> unat sz + 63 < 2 ^ 64 \<Longrightarrow> fresh_for new ba \<Longrightarrow> resized ba m sz (resize new ba sz m)"
begin

lemma resize_bits:
  assumes "ba_wf ba" "unat sz + 63 < 2 ^ 64" "fresh_for new ba"
  shows "\<exists>ba' m'. resize new ba sz m = Some (ba', m') \<and> ba_wf ba' \<and> ba_size ba' = sz
    \<and> take (unat (ba_size ba)) (ba_bits ba' m') = take (unat sz) (ba_bits ba m)"
proof -
  obtain ba' m' where r: "resize new ba sz m = Some (ba', m')" "ba_wf ba'" "ba_size ba' = sz"
    "\<And>k. k < min (unat sz) (unat (ba_size ba)) \<Longrightarrow> arr_bit m' (ba_arr ba') k = arr_bit m (ba_arr ba) k"
    using resize_resized [OF assms, of m] by (auto simp: resized_def)
  have "take (unat (ba_size ba)) (ba_bits ba' m') = take (unat sz) (ba_bits ba m)"
    using r(3,4) by (intro nth_equalityI) (auto simp: min.commute)
  then show ?thesis using r by blast
qed

lemma resize_fill_bits:
  assumes "ba_wf ba" "unat sz + 63 < 2 ^ 64" "fresh_for new ba"
  shows "\<exists>ba' m'. map_option (\<lambda>(ba', m). (ba', if ba_size ba < sz then cucon_bitarray_fill ba' (ba_size ba) sz v m else m))
      (resize new ba sz m) = Some (ba', m') \<and> ba_wf ba' \<and> ba_size ba' = sz
    \<and> ba_bits ba' m' = take (unat sz) (ba_bits ba m) @ replicate (unat sz - unat (ba_size ba)) v"
proof -
  obtain ba' m' where r: "resize new ba sz m = Some (ba', m')" "ba_wf ba'" "ba_size ba' = sz"
    "\<And>k. k < min (unat sz) (unat (ba_size ba)) \<Longrightarrow> arr_bit m' (ba_arr ba') k = arr_bit m (ba_arr ba) k"
    using resize_resized [OF assms, of m] by (auto simp: resized_def)
  let ?m = "if ba_size ba < sz then cucon_bitarray_fill ba' (ba_size ba) sz v m' else m'"
  have "arr_bit ?m (ba_arr ba') k = (if k < unat (ba_size ba) then arr_bit m (ba_arr ba) k else v)"
    if "k < unat sz" for k
    using that r(4) by (auto simp: fill_bit order_less_imp_le word_less_nat_alt)
  then have "ba_bits ba' ?m = take (unat sz) (ba_bits ba m) @ replicate (unat sz - unat (ba_size ba)) v"
    using r(3) by (intro nth_equalityI) (auto simp: nth_append)
  then show ?thesis using r by auto
qed

end

lemma dvd_cap:
  assumes "ba_wf ba" "unat sz + 63 < 2 ^ 64"
  shows "8 dvd unat (cu_size_max (capacity_for sz) (ba_cap ba * 2))"
proof -
  have "8 dvd unat (ba_cap ba * 2)"
    using assms(1) by (simp add: unat_word_ariths dvd_mod ba_wf_def)
  then show ?thesis using capacity_for_covers(2) [OF assms(2)] by (simp add: cu_size_max_def)
qed

lemma le_size_max: "a \<le> cu_size_max a b"
  by (auto simp: cu_size_max_def)

interpretation gp: bitarray_resizer cucon_bitarray_resize_gp
proof unfold_locales
  fix ba and sz :: u64 and new and m
  assume a: "ba_wf ba" "unat sz + 63 < 2 ^ 64" "fresh_for new ba"
  show "resized ba m sz (cucon_bitarray_resize_gp new ba sz m)"
    using realloc_resized [OF a] realloc_resized [OF a le_size_max dvd_cap [OF a(1,2)]] keep_resized [OF a(1,2)]
      capacity_for_covers(2) [OF a(2)]
    by (auto simp: cucon_bitarray_resize_gp_def Let_def)
qed

interpretation gpmax: bitarray_resizer cucon_bitarray_resize_gpmax
proof unfold_locales
  fix ba and sz :: u64 and new and m
  assume a: "ba_wf ba" "unat sz + 63 < 2 ^ 64" "fresh_for new ba"
  show "resized ba m sz (cucon_bitarray_resize_gpmax new ba sz m)"
    using realloc_resized [OF a le_size_max dvd_cap [OF a(1,2)]] keep_resized [OF a(1,2)]
    by (auto simp: cucon_bitarray_resize_gpmax_def Let_def)
qed

interpretation exact: bitarray_resizer cucon_bitarray_resize_exact
proof unfold_locales
  fix ba and sz :: u64 and new and m
  assume a: "ba_wf ba" "unat sz + 63 < 2 ^ 64" "fresh_for new ba"
  show "resized ba m sz (cucon_bitarray_resize_exact new ba sz m)"
    using realloc_resized [OF a] keep_resized [OF a(1,2)] capacity_for_covers(2) [OF a(2)]
    by (auto simp: cucon_bitarray_resize_exact_def Let_def)
qed

interpretation exactmax: bitarray_resizer cucon_bitarray_resize_exactmax
proof unfold_locales
  fix ba and sz :: u64 and new and m
  assume a: "ba_wf ba" "unat sz + 63 < 2 ^ 64" "fresh_for new ba"
  show "resized ba m sz (cucon_bitarray_resize_exactmax new ba sz m)"
    using realloc_resized [OF a] keep_resized [OF a(1,2)] capacity_for_covers(2) [OF a(2)]
    by (auto simp: cucon_bitarray_resize_exactmax_def Let_def)
qed

lemma resize_set_at_bits:
  assumes "ba_wf ba" "unat i + 64 < 2 ^ 64" "fresh_for new ba"
  shows "\<exists>ba' m'. cucon_bitarray_resize_set_at new ba i fv sv m = Some (ba', m') \<and> ba_wf ba'
    \<and> ba_bits ba' m' = take (unat i) (ba_bits ba m) @ replicate (unat i - unat (ba_size ba)) fv @ [sv]"
proof -
  have i1: "unat (i + 1) = unat i + 1" using assms(2) by (simp add: unat_word_ariths)
  let ?f = "\<lambda>(ba', m). (ba', if ba_size ba < i + 1 then cucon_bitarray_fill ba' (ba_size ba) (i + 1) fv m else m)"
  obtain ba' m' where r: "map_option ?f (cucon_bitarray_resize_gp new ba (i + 1) m) = Some (ba', m')"
    "ba_wf ba'" "ba_size ba' = i + 1"
    "ba_bits ba' m' = take (unat (i + 1)) (ba_bits ba m) @ replicate (unat (i + 1) - unat (ba_size ba)) fv"
    using gp.resize_fill_bits [of ba "i + 1" new fv m] assms i1 by auto
  have lt: "ba_size ba < i + 1 \<longleftrightarrow> ba_size ba \<le> i" by (simp add: word_less_nat_alt word_le_nat_alt i1 less_Suc_eq_le)
  have eq: "cucon_bitarray_resize_set_at new ba i fv sv m = Some (ba', cucon_bitarray_set_at ba' i sv m')"
    using r(1) by (auto simp: cucon_bitarray_resize_set_at_def lt Let_def)
  have "ba_bits ba' (cucon_bitarray_set_at ba' i sv m') = (ba_bits ba' m')[unat i := sv]"
    using r(3) i1 by (intro nth_equalityI) (auto simp: set_at_bit nth_list_update)
  also have "\<dots> = take (unat i) (ba_bits ba m) @ replicate (unat i - unat (ba_size ba)) fv @ [sv]"
    unfolding r(4) i1 by (intro nth_equalityI) (auto simp: nth_append nth_list_update)
  finally show ?thesis using eq r(2) by auto
qed

section \<open>Copies and images\<close>

lemma arr_bit_store:
  assumes "k < 64 * count"
  shows "arr_bit (store_range dst count w m) dst k = bit (w (k div 64)) (k mod 64)"
  using assms by (simp add: arr_bit_def store_range_def div_less_iff_less_mult mult.commute)

lemma bits_covered:
  assumes "unat n + 63 < 2 ^ 64" "k < unat n"
  shows "k < 64 * unat (ceil_words n)"
  using ceil_words_cover(1) [OF assms(1)] assms(2) by linarith

lemma init_copy_bits:
  assumes "ba_wf ba" "fresh_for new ba"
  shows "case cucon_bitarray_init_copy new ba m of (ba', m') \<Rightarrow> ba_wf ba' \<and> ba_bits ba' m' = ba_bits ba m"
proof -
  have b: "unat (ba_size ba) + 63 < 2 ^ 64" using assms(1) by (simp add: ba_wf_def)
  have "(unat (ba_size ba) + 63) div 64 \<le> unat (ba_cap ba) div 8"
    using assms(1) unfolding ba_wf_def by (auto elim!: dvdE)
  then have sep: "new \<le> ba_arr ba \<or> ba_arr ba + unat (capacity_for (ba_size ba)) div 8 \<le> new"
    using assms(2) capacity_for_covers(3) [OF b] by (auto simp: fresh_for_def)
  have "arr_bit (memcpy_words new (ba_arr ba) (capacity_for (ba_size ba)) m) new k = arr_bit m (ba_arr ba) k"
    if "k < unat (ba_size ba)" for k
    using that capacity_for_covers(1,2) [OF b] by (intro memcpy_bits sep) auto
  then show ?thesis
    using b capacity_for_covers [OF b] by (simp add: cucon_bitarray_init_copy_def Let_def ba_wf_def ba_bits_def)
qed

lemma init_fill_bits:
  assumes "unat sz + 63 < 2 ^ 64"
  shows "case cucon_bitarray_init_fill new sz v m of (ba, m') \<Rightarrow> ba_wf ba \<and> ba_bits ba m' = replicate (unat sz) v"
proof -
  have "unat sz \<le> 64 * (unat (capacity_for sz) div 8)"
    using capacity_for_covers(1,2) [OF assms] by auto
  then have "arr_bit (memset_words new (if v then NOT 0 else 0) (capacity_for sz) m) new k = v" if "k < unat sz" for k
    using that by (simp add: memset_words_def fill_range arr_bit_store bit_not_iff)
  then have "ba_bits \<lparr>ba_cap = capacity_for sz, ba_size = sz, ba_arr = new\<rparr>
      (memset_words new (if v then NOT 0 else 0) (capacity_for sz) m) = replicate (unat sz) v"
    by (intro nth_equalityI) auto
  then show ?thesis
    using assms capacity_for_covers [OF assms]
    by (simp add: cucon_bitarray_init_fill_def Let_def ba_wf_def)
qed

text \<open>The image of two arrays in a destination that a forward loop may write.\<close>

lemma bitimg2_bit:
  assumes "f < 16" "forward_safe dst left count" "forward_safe dst right count" "k < 64 * count"
  shows "arr_bit (cu_wordarr_copy_bitimg2 f count dst left right m) dst k \<longleftrightarrow>
    cu_bool2f_apply f (arr_bit m left k) (arr_bit m right k)"
  using copy_bitimg2_image [OF assms(1-3), of m] arr_bit_store [OF assms(4)]
  by (auto simp: image2_def arr_bit_def)

lemma init_img2_bits:
  assumes "f < 16" "ba_wf a" "ba_wf b" "fresh_for new a" "fresh_for new b"
  shows "case cucon_bitarray_init_img_bool2f new f a b m of (ba, m') \<Rightarrow>
    ba_wf ba \<and> ba_bits ba m' = map2 (cu_bool2f_apply f) (ba_bits a m) (ba_bits b m)"
proof -
  let ?s = "cu_size_min (ba_size a) (ba_size b)"
  have s: "unat ?s = min (unat (ba_size a)) (unat (ba_size b))"
    by (simp add: cu_size_min_def word_less_nat_alt)
  then have b: "unat ?s + 63 < 2 ^ 64" using assms(2) by (simp add: ba_wf_def min_less_iff_disj)
  have "unat (ceil_words ?s) \<le> unat (ba_cap a) div 8" "unat (ceil_words ?s) \<le> unat (ba_cap b) div 8"
    using assms(2,3) s unfolding ba_wf_def unat_ceil_words [OF b] by (auto elim!: dvdE)
  then have "forward_safe new (ba_arr a) (unat (ceil_words ?s))" "forward_safe new (ba_arr b) (unat (ceil_words ?s))"
    using assms(4,5) by (auto simp: fresh_for_def forward_safe_def)
  then have "arr_bit (cu_wordarr_copy_bitimg2 f (unat (ceil_words ?s)) new (ba_arr a) (ba_arr b) m) new k \<longleftrightarrow>
      cu_bool2f_apply f (arr_bit m (ba_arr a) k) (arr_bit m (ba_arr b) k)" if "k < unat ?s" for k
    using bits_covered [OF b that] by (intro bitimg2_bit assms(1))
  then have "ba_bits \<lparr>ba_cap = capacity_for ?s, ba_size = ?s, ba_arr = new\<rparr>
      (cu_wordarr_copy_bitimg2 f (unat (ceil_words ?s)) new (ba_arr a) (ba_arr b) m) =
      map2 (cu_bool2f_apply f) (ba_bits a m) (ba_bits b m)"
    using s by (intro nth_equalityI) auto
  then show ?thesis
    using b capacity_for_covers [OF b]
    by (simp add: cucon_bitarray_init_img_bool2f_def cucon_bitarray_init_def Let_def ba_wf_def)
qed

lemma update_img2_bits:
  assumes "f < 16" "ba_wf a" "ba_wf b" "ba_size a \<le> ba_size b" "fresh_for (ba_arr a) b"
  shows "ba_bits a (cucon_bitarray_update_img_bool2f f a b m) =
    map2 (cu_bool2f_apply f) (ba_bits a m) (ba_bits b m)"
proof -
  have b: "unat (ba_size a) + 63 < 2 ^ 64" using assms(2) by (simp add: ba_wf_def)
  have "unat (ceil_words (ba_size a)) \<le> unat (ba_cap b) div 8"
    using assms(3,4) unfolding ba_wf_def unat_ceil_words [OF b] word_le_nat_alt by (auto elim!: dvdE)
  then have f: "forward_safe (ba_arr a) (ba_arr b) (unat (ceil_words (ba_size a)))"
    using assms(5) by (auto simp: fresh_for_def forward_safe_def)
  have "arr_bit (cucon_bitarray_update_img_bool2f f a b m) (ba_arr a) k \<longleftrightarrow>
      cu_bool2f_apply f (arr_bit m (ba_arr a) k) (arr_bit m (ba_arr b) k)" if "k < unat (ba_size a)" for k
    unfolding cucon_bitarray_update_img_bool2f_def
    using bits_covered [OF b that] by (intro bitimg2_bit assms(1) f) (simp_all add: forward_safe_def)
  then show ?thesis using assms(4) by (intro nth_equalityI) (auto simp: word_le_nat_alt)
qed


section \<open>Searching the bits\<close>

lemma find_search:
  assumes "ba_wf a" "start mod 64 = 0"
  shows "\<exists>r. cucon_bitarray_find a start v m = Some r
    \<and> search_result (\<lambda>j. ba_bits a m ! j = v) (unat start) (unat (ba_size a)) r"
proof -
  have b: "unat (ba_size a) + 63 < 2 ^ 64" using assms(1) by (simp add: ba_wf_def)
  let ?w = "\<lambda>i. if v then m (ba_arr a + i) else NOT (m (ba_arr a + i))"
  obtain r where r: "bitarray_find_loop ?w (ba_size a)
      (unat (ceil_words (ba_size a)) - unat (start div 64)) (unat (start div 64)) = Some r"
    "search_result (\<lambda>j. bit (?w (j div 64)) (j mod 64)) (unat start) (unat (ba_size a)) r"
    using search_aligned [OF b assms(2), of ?w] by blast
  have "cucon_bitarray_find a start v m = Some r"
    using r(1) assms(2) by (cases v) (simp_all add: cucon_bitarray_find_def Let_def)
  moreover have "search_result (\<lambda>j. ba_bits a m ! j = v) (unat start) (unat (ba_size a)) r"
    by (rule search_result_cong [OF _ r(2)]) (auto simp: arr_bit_def bit_not_iff)
  ultimately show ?thesis by blast
qed

lemma find2_search:
  assumes "ba_wf a" "ba_wf b" "start mod 64 = 0"
  shows "\<exists>r. cucon_bitarray_find2 a b start v w m = Some r
    \<and> search_result (\<lambda>j. ba_bits a m ! j = v \<and> ba_bits b m ! j = w) (unat start)
        (min (unat (ba_size a)) (unat (ba_size b))) r"
proof -
  let ?s = "cu_size_min (ba_size a) (ba_size b)"
  have s: "unat ?s = min (unat (ba_size a)) (unat (ba_size b))"
    by (simp add: cu_size_min_def word_less_nat_alt)
  then have b: "unat ?s + 63 < 2 ^ 64" using assms(1) by (simp add: ba_wf_def min_less_iff_disj)
  let ?w = "\<lambda>i. (if v then m (ba_arr a + i) else NOT (m (ba_arr a + i)))
    AND (if w then m (ba_arr b + i) else NOT (m (ba_arr b + i)))"
  obtain r where r: "bitarray_find_loop ?w ?s (unat (ceil_words ?s) - unat (start div 64)) (unat (start div 64)) = Some r"
    "search_result (\<lambda>j. bit (?w (j div 64)) (j mod 64)) (unat start) (unat ?s) r"
    using search_aligned [OF b assms(3), of ?w] by blast
  have "cucon_bitarray_find2 a b start v w m = Some r"
    using r(1) assms(3) by (simp add: cucon_bitarray_find2_def Let_def)
  moreover have "search_result (\<lambda>j. ba_bits a m ! j = v \<and> ba_bits b m ! j = w) (unat start) (unat ?s) r"
    by (rule search_result_cong [OF _ r(2)]) (auto simp: s arr_bit_def bit_not_iff bit_and_iff)
  ultimately show ?thesis by (simp add: s)
qed

section \<open>Properties\<close>

text \<open>\<open>cucon_bitarray_set_at\<close> updates exactly one element of the list of bits, \<open>cucon_bitarray_at\<close>
  reads it, and no word before the array changes.\<close>

theorem bitarray_set_at_updates:
  assumes "i < ba_size ba"
  shows "ba_bits ba (cucon_bitarray_set_at ba i v m) = (ba_bits ba m)[unat i := v]
    \<and> (cucon_bitarray_at ba i m \<longleftrightarrow> ba_bits ba m ! unat i)
    \<and> (\<forall>p<ba_arr ba. cucon_bitarray_set_at ba i v m p = m p)"
  using assms
  by (auto simp: at_bit set_at_bit set_at_frame word_less_nat_alt nth_list_update intro!: nth_equalityI)

theorem bitarray_set_at_updates_witness:
  "ba_bits \<lparr>ba_cap = 16, ba_size = 70, ba_arr = 3\<rparr> (cucon_bitarray_set_at \<lparr>ba_cap = 16, ba_size = 70, ba_arr = 3\<rparr> 65 True (\<lambda>p. 5)) =
     (ba_bits \<lparr>ba_cap = 16, ba_size = 70, ba_arr = 3\<rparr> (\<lambda>p. 5))[65 := True]"
  using bitarray_set_at_updates [of 65 "\<lparr>ba_cap = 16, ba_size = 70, ba_arr = 3\<rparr>" True "\<lambda>p. 5"] by simp

text \<open>\<open>cucon_bitarray_fill\<close>, which works a word at a time with masks at both ends, changes the store
  exactly as setting each of the bits from \<open>i\<close> below \<open>j\<close> one by one would.\<close>

theorem bitarray_fill_is_loop:
  assumes "i \<le> j"
  shows "cucon_bitarray_fill ba i j v m =
    fold (\<lambda>k. cucon_bitarray_set_at ba (of_nat k) v) [unat i..<unat j] m"
  using assms by (rule fill_is_fold)

theorem bitarray_fill_is_loop_witness:
  "cucon_bitarray_fill \<lparr>ba_cap = 24, ba_size = 192, ba_arr = 0\<rparr> 60 130 True (\<lambda>p. 0) =
     fold (\<lambda>k. cucon_bitarray_set_at \<lparr>ba_cap = 24, ba_size = 192, ba_arr = 0\<rparr> (of_nat k) True) [60..<130] (\<lambda>p. 0)"
  using bitarray_fill_is_loop [of 60 130 "\<lparr>ba_cap = 24, ba_size = 192, ba_arr = 0\<rparr>" True "\<lambda>p. 0"] by simp

text \<open>\<open>cucon_bitarray_eq\<close> decides whether the two arrays hold the same list of bits, whatever the
  unused bits of the last words hold.\<close>

theorem bitarray_eq_decides: "cucon_bitarray_eq a b m \<longleftrightarrow> ba_bits a m = ba_bits b m"
  by (rule eq_bits)

text \<open>when the smaller size is a whole number of words, \<open>cucon_bitarray_cmp\<close> orders the lists of bits
  by their first difference and then by length.\<close>

theorem bitarray_cmp_order:
  assumes "cu_size_min (ba_size a) (ba_size b) mod 64 = 0"
  shows "cucon_bitarray_cmp a b m = bits_cmp (ba_bits a m) (ba_bits b m)"
  using assms by (rule cmp_bits)

theorem bitarray_cmp_order_witness:
  "cucon_bitarray_cmp \<lparr>ba_cap = 8, ba_size = 64, ba_arr = 0\<rparr> \<lparr>ba_cap = 16, ba_size = 70, ba_arr = 1\<rparr> (\<lambda>p. 9) =
     bits_cmp (ba_bits \<lparr>ba_cap = 8, ba_size = 64, ba_arr = 0\<rparr> (\<lambda>p. 9)) (ba_bits \<lparr>ba_cap = 16, ba_size = 70, ba_arr = 1\<rparr> (\<lambda>p. 9))"
  by (rule bitarray_cmp_order) code_simp

text \<open>\<open>cucon_bitarray_cmp\<close> compares the whole last word, so two arrays that hold the same bits and
  that \<open>cucon_bitarray_eq\<close> finds equal can compare as different by their unused bits.\<close>

theorem bitarray_cmp_reads_unused_bits:
  "let a = \<lparr>ba_cap = 8, ba_size = 3, ba_arr = 0\<rparr>; b = \<lparr>ba_cap = 8, ba_size = 3, ba_arr = 1\<rparr>;
       m = (\<lambda>p. if p = 0 then 5 else 13)
   in ba_bits a m = ba_bits b m \<and> cucon_bitarray_eq a b m \<and> cucon_bitarray_cmp a b m = -1"
  by code_simp

text \<open>from a start on a word boundary \<open>cucon_bitarray_find\<close> passes its argument checks and returns the
  least position from there on that holds the value, or \<open>-1\<close> when there is none;
  \<open>cucon_bitarray_find2\<close> does so for a pair of arrays.\<close>

theorem bitarray_find_least:
  assumes "ba_wf a" "ba_wf b" "start mod 64 = 0"
  shows "(\<exists>r. cucon_bitarray_find a start v m = Some r
      \<and> search_result (\<lambda>j. ba_bits a m ! j = v) (unat start) (unat (ba_size a)) r)
    \<and> (\<exists>r. cucon_bitarray_find2 a b start v w m = Some r
      \<and> search_result (\<lambda>j. ba_bits a m ! j = v \<and> ba_bits b m ! j = w) (unat start)
          (min (unat (ba_size a)) (unat (ba_size b))) r)"
  using find_search [OF assms(1,3)] find2_search [OF assms] by blast

theorem bitarray_find_least_witness:
  "\<exists>r. cucon_bitarray_find \<lparr>ba_cap = 24, ba_size = 150, ba_arr = 0\<rparr> 64 True (\<lambda>p. if p = 2 then 4 else 0) = Some r
    \<and> search_result (\<lambda>j. ba_bits \<lparr>ba_cap = 24, ba_size = 150, ba_arr = 0\<rparr> (\<lambda>p. if p = 2 then 4 else 0) ! j = True) 64 150 r"
  using bitarray_find_least [of "\<lparr>ba_cap = 24, ba_size = 150, ba_arr = 0\<rparr>" "\<lparr>ba_cap = 24, ba_size = 150, ba_arr = 0\<rparr>" 64 True
      "\<lambda>p. if p = 2 then 4 else 0"] by (simp add: ba_wf_def)

text \<open>a start inside a word misleads \<open>cucon_bitarray_find\<close>: it tests the word unshifted and ignores the
  value sought, so it can return a position holding the opposite value, and when the set bits all lie
  below the start it takes the lowest bit of zero, which the argument check refuses.\<close>

theorem bitarray_find_inside_word:
  "let a = \<lparr>ba_cap = 8, ba_size = 64, ba_arr = 0\<rparr>
   in cucon_bitarray_find a 1 False (\<lambda>p. 6) = Some 1 \<and> cucon_bitarray_at a 1 (\<lambda>p. 6)
     \<and> cucon_bitarray_find a 1 True (\<lambda>p. 1) = None"
  by code_simp

text \<open>C38: resizing with filling, by either growth policy, never fails its capacity assertion, keeps the
  array well-formed and refines truncation and padding of the list of bits.\<close>

theorem bitarray_resize_fill_pads:
  assumes "ba_wf ba" "unat sz + 63 < 2 ^ 64" "fresh_for new ba"
  shows "(\<exists>ba' m'. cucon_bitarray_resize_fill_gp new ba sz v m = Some (ba', m') \<and> ba_wf ba'
      \<and> ba_bits ba' m' = take (unat sz) (ba_bits ba m) @ replicate (unat sz - unat (ba_size ba)) v)
    \<and> (\<exists>ba' m'. cucon_bitarray_resize_fill_exact new ba sz v m = Some (ba', m') \<and> ba_wf ba'
      \<and> ba_bits ba' m' = take (unat sz) (ba_bits ba m) @ replicate (unat sz - unat (ba_size ba)) v)"
  using gp.resize_fill_bits [OF assms, of v m] exact.resize_fill_bits [OF assms, of v m]
  unfolding cucon_bitarray_resize_fill_gp_def cucon_bitarray_resize_fill_exact_def Let_def by blast

theorem bitarray_resize_fill_pads_witness:
  "\<exists>ba' m'. cucon_bitarray_resize_fill_gp 9 \<lparr>ba_cap = 8, ba_size = 3, ba_arr = 0\<rparr> 200 True (\<lambda>p. 5) = Some (ba', m')
    \<and> ba_wf ba' \<and> ba_bits ba' m' = [True, False, True] @ replicate 197 True"
proof -
  have "ba_wf \<lparr>ba_cap = 8, ba_size = 3, ba_arr = 0\<rparr>" "fresh_for 9 \<lparr>ba_cap = 8, ba_size = 3, ba_arr = 0\<rparr>"
    by (simp_all add: ba_wf_def fresh_for_def)
  moreover have "ba_bits \<lparr>ba_cap = 8, ba_size = 3, ba_arr = 0\<rparr> (\<lambda>p. 5) = [True, False, True]" by code_simp
  ultimately show ?thesis
    using bitarray_resize_fill_pads [of "\<lparr>ba_cap = 8, ba_size = 3, ba_arr = 0\<rparr>" 200 9 True "\<lambda>p. 5"] by simp
qed

text \<open>\<open>cucon_bitarray_resize_set_at\<close> always ends with \<open>i + 1\<close> elements, the last of them set: it pads a
  shorter array, and cuts off what a longer array held after position \<open>i\<close>.\<close>

theorem bitarray_resize_set_at_ends:
  assumes "ba_wf ba" "unat i + 64 < 2 ^ 64" "fresh_for new ba"
  shows "\<exists>ba' m'. cucon_bitarray_resize_set_at new ba i fv sv m = Some (ba', m') \<and> ba_wf ba'
    \<and> ba_bits ba' m' = take (unat i) (ba_bits ba m) @ replicate (unat i - unat (ba_size ba)) fv @ [sv]"
  using assms by (rule resize_set_at_bits)

theorem bitarray_resize_set_at_ends_witness:
  "\<exists>ba' m'. cucon_bitarray_resize_set_at 9 \<lparr>ba_cap = 8, ba_size = 3, ba_arr = 0\<rparr> 1 False True (\<lambda>p. 5) = Some (ba', m')
    \<and> ba_wf ba' \<and> ba_bits ba' m' = [True, True]"
proof -
  have "ba_wf \<lparr>ba_cap = 8, ba_size = 3, ba_arr = 0\<rparr>" "fresh_for 9 \<lparr>ba_cap = 8, ba_size = 3, ba_arr = 0\<rparr>"
    by (simp_all add: ba_wf_def fresh_for_def)
  moreover have "ba_bits \<lparr>ba_cap = 8, ba_size = 3, ba_arr = 0\<rparr> (\<lambda>p. 5) = [True, False, True]" by code_simp
  ultimately show ?thesis
    using bitarray_resize_set_at_ends [of "\<lparr>ba_cap = 8, ba_size = 3, ba_arr = 0\<rparr>" 1 9 False True "\<lambda>p. 5"] by simp
qed

text \<open>\<open>cucon_bitarray_init_img_bool2f\<close> makes the pointwise image of two arrays under a binary boolean
  function, as long as the shorter one; \<open>cucon_bitarray_update_img_bool2f\<close> does so in place.\<close>

theorem bitarray_img2_pointwise:
  assumes "f < 16" "ba_wf a" "ba_wf b" "fresh_for new a" "fresh_for new b"
  shows "(case cucon_bitarray_init_img_bool2f new f a b m of (ba, m') \<Rightarrow>
      ba_wf ba \<and> ba_bits ba m' = map2 (cu_bool2f_apply f) (ba_bits a m) (ba_bits b m))
    \<and> (ba_size a \<le> ba_size b \<and> fresh_for (ba_arr a) b \<longrightarrow>
        ba_bits a (cucon_bitarray_update_img_bool2f f a b m) =
          map2 (cu_bool2f_apply f) (ba_bits a m) (ba_bits b m))"
  using init_img2_bits [OF assms, of m] update_img2_bits [OF assms(1-3), of m] by auto

theorem bitarray_img2_pointwise_witness:
  "case cucon_bitarray_init_img_bool2f 9 CU_BOOL2F_XOR \<lparr>ba_cap = 8, ba_size = 3, ba_arr = 0\<rparr> \<lparr>ba_cap = 8, ba_size = 4, ba_arr = 1\<rparr>
      (\<lambda>p. if p = 0 then 5 else 3) of (ba, m') \<Rightarrow> ba_wf ba \<and> ba_bits ba m' = [False, True, True]"
proof -
  have "ba_wf \<lparr>ba_cap = 8, ba_size = 3, ba_arr = 0\<rparr>" "fresh_for 9 \<lparr>ba_cap = 8, ba_size = 3, ba_arr = 0\<rparr>"
    "ba_wf \<lparr>ba_cap = 8, ba_size = 4, ba_arr = 1\<rparr>" "fresh_for 9 \<lparr>ba_cap = 8, ba_size = 4, ba_arr = 1\<rparr>"
    by (simp_all add: ba_wf_def fresh_for_def)
  moreover have "map2 (cu_bool2f_apply CU_BOOL2F_XOR)
      (ba_bits \<lparr>ba_cap = 8, ba_size = 3, ba_arr = 0\<rparr> (\<lambda>p. if p = 0 then 5 else 3))
      (ba_bits \<lparr>ba_cap = 8, ba_size = 4, ba_arr = 1\<rparr> (\<lambda>p. if p = 0 then 5 else 3)) = [False, True, True]" by code_simp
  ultimately show ?thesis
    using bitarray_img2_pointwise [of CU_BOOL2F_XOR "\<lparr>ba_cap = 8, ba_size = 3, ba_arr = 0\<rparr>" "\<lparr>ba_cap = 8, ba_size = 4, ba_arr = 1\<rparr>" 9
        "\<lambda>p. if p = 0 then 5 else 3"] by simp
qed

end
