(* ===== verification/KeyCover.thy ===== *)
theory KeyCover
  imports CuInt
begin

text \<open>
  The order structure under the constructive maps and sets of \<^verbatim>\<open>cucon\<close>. A key stands
  for the dyadic block of integers around it whose size is given by its lowest set bit; a
  branch of a tree holds keys of the block of the node above. The locale states what the
  trees need of such keys; \<^verbatim>\<open>ucmap.c\<close> and \<^verbatim>\<open>ucset.c\<close> have their own versions of the
  key functions, which differ on the key zero, and each interprets the locale.
\<close>

section \<open>The interface\<close>

locale key_cover =
  fixes covers :: "'k::linorder \<Rightarrow> 'k \<Rightarrow> bool"
    and join :: "'k \<Rightarrow> 'k \<Rightarrow> 'k"
  assumes covers_trans: "covers a b \<Longrightarrow> covers b c \<Longrightarrow> covers a c"
    and covers_antisym: "covers a b \<Longrightarrow> covers b a \<Longrightarrow> a = b"
    and covers_laminar: "covers a c \<Longrightarrow> covers b c \<Longrightarrow> a = b \<or> covers a b \<or> covers b a"
    and covers_side_less: "covers a b \<Longrightarrow> b < a \<Longrightarrow> covers b c \<Longrightarrow> c < a"
    and covers_side_greater: "covers a b \<Longrightarrow> a < b \<Longrightarrow> covers b c \<Longrightarrow> a < c"
    and join_left: "a \<noteq> b \<Longrightarrow> \<not> covers a b \<Longrightarrow> \<not> covers b a \<Longrightarrow> covers (join a b) a"
    and join_right: "a \<noteq> b \<Longrightarrow> \<not> covers a b \<Longrightarrow> \<not> covers b a \<Longrightarrow> covers (join a b) b"
    and join_between: "a \<noteq> b \<Longrightarrow> \<not> covers a b \<Longrightarrow> \<not> covers b a \<Longrightarrow>
      min a b < join a b \<and> join a b < max a b"
begin

text \<open>
  A key \<open>m\<close> is a root for a set of keys when it covers them all and is either one of
  them or separates them. There is at most one root, which is what makes the shape of a
  shrunk tree a function of its contents.
\<close>

definition root_of :: "'k \<Rightarrow> 'k set \<Rightarrow> bool" where
  "root_of m S \<longleftrightarrow> (\<forall>s\<in>S. s = m \<or> covers m s) \<and>
     (m \<in> S \<or> (\<exists>a\<in>S. a < m) \<and> (\<exists>b\<in>S. m < b))"

lemma root_not_below:
  assumes m: "root_of m S" and n: "root_of n S" and "covers m n"
  shows "m = n"
proof (rule ccontr)
  assume ne: "m \<noteq> n"
  from ne assms(3) have not: "\<not> covers n m" using covers_antisym by blast
  have inside: "s = n \<or> covers n s" if "s \<in> S" for s
    using n that by (auto simp: root_of_def)
  then have "m \<notin> S" using ne not by blast
  then obtain a b where "a \<in> S" "a < m" "b \<in> S" "m < b"
    using m by (auto simp: root_of_def)
  consider "n < m" | "m < n" using ne by force
  then show False
  proof cases
    case 1
    then have "s < m" if "s \<in> S" for s
      using inside [OF that] covers_side_less [OF assms(3)] by blast
    with \<open>b \<in> S\<close> \<open>m < b\<close> show False by fastforce
  next
    case 2
    then have "m < s" if "s \<in> S" for s
      using inside [OF that] covers_side_greater [OF assms(3)] by blast
    with \<open>a \<in> S\<close> \<open>a < m\<close> show False by fastforce
  qed
qed

lemma root_unique:
  assumes "root_of m S" and "root_of n S" and "S \<noteq> {}"
  shows "m = n"
proof -
  obtain s where "s \<in> S" using assms(3) by blast
  then have "s = m \<or> covers m s" "s = n \<or> covers n s"
    using assms by (auto simp: root_of_def)
  then have "m = n \<or> covers m n \<or> covers n m"
    using covers_laminar by blast
  then show ?thesis using root_not_below assms by blast
qed

lemma root_inside_greater:
  assumes m: "root_of m S" and "S \<noteq> {}" and S: "\<forall>s\<in>S. covers n s \<and> n < s"
  shows "covers n m \<and> n < m"
proof -
  obtain s where s: "s \<in> S" "s = m \<or> covers m s" using assms by (auto simp: root_of_def)
  have ne: "m \<noteq> n" and nc: "\<not> covers m n"
  proof -
    show "m \<noteq> n" using m S by (metis less_asym less_irrefl root_of_def)
    then show "\<not> covers m n"
      using m S covers_antisym covers_side_less covers_side_greater
      by (metis less_asym linorder_neqE root_of_def)
  qed
  then have c: "covers n m" using s S covers_laminar by blast
  moreover have "\<not> m < n" using covers_side_less [OF c] s S by (metis less_asym)
  ultimately show ?thesis using ne by auto
qed

lemma root_inside_less:
  assumes m: "root_of m S" and "S \<noteq> {}" and S: "\<forall>s\<in>S. covers n s \<and> s < n"
  shows "covers n m \<and> m < n"
proof -
  obtain s where s: "s \<in> S" "s = m \<or> covers m s" using assms by (auto simp: root_of_def)
  have ne: "m \<noteq> n" and nc: "\<not> covers m n"
  proof -
    show "m \<noteq> n" using m S by (metis less_asym less_irrefl root_of_def)
    then show "\<not> covers m n"
      using m S covers_antisym covers_side_less covers_side_greater
      by (metis less_asym linorder_neqE root_of_def)
  qed
  then have c: "covers n m" using s S covers_laminar by blast
  moreover have "\<not> n < m" using covers_side_greater [OF c] s S by (metis less_asym)
  ultimately show ?thesis using ne by auto
qed

lemma join_inside_less:
  assumes "covers m a" "covers m b" "a < m" "b < m" and ab: "a \<noteq> b" "\<not> covers a b" "\<not> covers b a"
  shows "covers m (join a b) \<and> join a b < m"
proof -
  have lt: "join a b < m" and gt: "min a b < join a b"
    using join_between [OF ab] assms(3,4) by (auto simp: min_def max_def split: if_splits)
  have "\<not> covers (join a b) m"
    using covers_side_greater [OF _ lt] assms(1,2) gt by (metis min_def not_less_iff_gr_or_eq)
  then have "covers m (join a b)"
    using covers_laminar [OF assms(1) join_left [OF ab]] lt by auto
  with lt show ?thesis by simp
qed

lemma join_inside_greater:
  assumes "covers m a" "covers m b" "m < a" "m < b" and ab: "a \<noteq> b" "\<not> covers a b" "\<not> covers b a"
  shows "covers m (join a b) \<and> m < join a b"
proof -
  have gt: "m < join a b" and lt: "join a b < max a b"
    using join_between [OF ab] assms(3,4) by (auto simp: min_def max_def split: if_splits)
  have "\<not> covers (join a b) m"
    using covers_side_less [OF _ gt] assms(1,2) lt by (metis max_def not_less_iff_gr_or_eq)
  then have "covers m (join a b)"
    using covers_laminar [OF assms(1) join_left [OF ab]] gt by auto
  with gt show ?thesis by simp
qed

lemma cover_inside_less: "covers a b \<Longrightarrow> b < a \<Longrightarrow> c = b \<or> covers b c \<Longrightarrow> covers a c \<and> c < a"
  using covers_trans covers_side_less by blast

lemma cover_inside_greater: "covers a b \<Longrightarrow> a < b \<Longrightarrow> c = b \<or> covers b c \<Longrightarrow> covers a c \<and> a < c"
  using covers_trans covers_side_greater by blast

end

section \<open>Dyadic blocks\<close>

text \<open>The number of the block of size \<open>2 ^ Suc z\<close> that holds a key.\<close>

definition block :: "nat \<Rightarrow> u64 \<Rightarrow> nat" where
  "block z x = unat x div 2 ^ Suc z"

lemma block_mono: "block m a = block m b \<Longrightarrow> m \<le> n \<Longrightarrow> block n a = block n b"
  unfolding block_def by (rule nat_div_pow2_mono [of _ "Suc m"]) auto

lemma block_64 [simp]: "64 \<le> z \<Longrightarrow> block z x = 0"
proof -
  assume "64 \<le> z"
  then have "(2::nat) ^ 64 \<le> 2 ^ Suc z" by (intro power_increasing) auto
  then show ?thesis using unat_u64_bound [of x] by (simp add: block_def)
qed

lemma block_halve: "unat x div 2 ^ z = 2 * block z x + of_bool (bit x z)"
proof -
  have "unat x div 2 ^ Suc z = unat x div 2 ^ z div 2"
    by (metis div_mult2_eq power_Suc2)
  moreover have "unat x div 2 ^ z = 2 * (unat x div 2 ^ z div 2) + of_bool (odd (unat x div 2 ^ z))"
    by (simp add: odd_two_times_div_two_succ)
  ultimately show ?thesis by (simp only: block_def bit_unat_u64)
qed

lemma block_eq_iff_bits: "block z x = block z y \<longleftrightarrow> (\<forall>n>z. bit x n \<longleftrightarrow> bit y n)"
proof -
  have b: "bit (block z x) n \<longleftrightarrow> bit x (Suc z + n)" for x n
    by (simp add: block_def bit_unat_u64 bit_iff_odd power_add div_mult2_eq)
  show ?thesis
  proof
    assume eq: "block z x = block z y"
    show "\<forall>n>z. bit x n \<longleftrightarrow> bit y n"
    proof (intro allI impI)
      fix n assume "z < n"
      then obtain i where "n = Suc z + i" using less_imp_Suc_add by auto
      then show "bit x n \<longleftrightarrow> bit y n" using b [of x i] b [of y i] eq by simp
    qed
  next
    assume "\<forall>n>z. bit x n \<longleftrightarrow> bit y n"
    then show "block z x = block z y" by (intro bit_eqI) (simp add: b)
  qed
qed

lemma upper_bits_eq_iff:
  "x AND NOT (mask (Suc z)) = y AND NOT (mask (Suc z)) \<longleftrightarrow> block z x = block z y"
  unfolding block_eq_iff_bits
  by (auto simp: bit_eq_iff bit_simps dest: bit_u64_bound)

lemma lower_bits_nonzero_iff:
  assumes "z < 64"
  shows "x AND mask (Suc z) \<noteq> (0 :: u64) \<longleftrightarrow> lowest x \<le> z"
proof
  assume "x AND mask (Suc z) \<noteq> 0"
  then obtain n where "bit x n" "n \<le> z" by (auto simp: bit_eq_iff bit_simps)
  then show "lowest x \<le> z" using lowest_below [of n x] by force
next
  assume "lowest x \<le> z"
  then have "bit x (lowest x)" using assms by (intro lowest_bit) auto
  then have "bit (x AND mask (Suc z)) (lowest x)"
    using \<open>lowest x \<le> z\<close> by (auto simp: bit_simps)
  then show "x AND mask (Suc z) \<noteq> 0" by auto
qed

lemma lowest_pos: "lowest x = z \<Longrightarrow> z < 64 \<Longrightarrow> unat x = (2 * block z x + 1) * 2 ^ z"
proof -
  assume z: "lowest x = z" "z < 64"
  then have "bit x z" using lowest_bit [of x] lowest_less_iff [of x] by auto
  have "take_bit z x = 0"
    using lowest_below [of _ x] z by (auto simp: bit_eq_iff bit_simps)
  then have "unat x mod 2 ^ z = 0" using unat_take_bit [of z x] by simp
  then have "unat x = unat x div 2 ^ z * 2 ^ z" by (metis mult.commute mult_div_mod_eq add.right_neutral)
  then show ?thesis using block_halve [of x z] \<open>bit x z\<close> by simp
qed

lemma same_block_unique:
  assumes "block (lowest x) x = block (lowest x) y" and "lowest x = lowest y"
  shows "x = y"
proof (cases "x = 0")
  case True
  then show ?thesis using assms(2) lowest_eq_64 [of y] by simp
next
  case False
  then have "lowest x < 64" by (rule lowest_less)
  then show ?thesis
    using assms lowest_pos [of x "lowest x"] lowest_pos [of y "lowest x"]
    by (simp add: word_unat_eq_iff)
qed

text \<open>The keys strictly below and above a key inside its block, and what lies around them.\<close>

lemma block_side_less:
  assumes "block (lowest a) a = block (lowest a) b" and "b < a" and "lowest b < lowest a"
    and "block (lowest b) b = block (lowest b) c"
  shows "c < a"
proof -
  let ?z = "lowest a"
  have a: "a \<noteq> 0" using assms(2) by auto
  then have za: "?z < 64" by (rule lowest_less)
  have ua: "unat a = (2 * block ?z a + 1) * 2 ^ ?z" using za by (intro lowest_pos) auto
  have "unat b div 2 ^ ?z = unat c div 2 ^ ?z"
    using assms(3,4) nat_div_pow2_mono [of "unat b" "Suc (lowest b)" "unat c" ?z]
    by (simp add: block_def)
  moreover have "unat b div 2 ^ ?z < 2 * block ?z a + 1"
    using assms(2) ua by (simp add: word_less_nat_alt div_less_iff_less_mult)
  ultimately show ?thesis
    unfolding word_less_nat_alt ua by (simp add: div_less_iff_less_mult)
qed

lemma block_side_greater:
  assumes "block (lowest a) a = block (lowest a) b" and "a < b" and "lowest b < lowest a"
    and "block (lowest b) b = block (lowest b) c" and "lowest c \<le> lowest b"
  shows "a < c"
proof (cases "a = 0")
  case True
  then show ?thesis using assms(3,5) lowest_less [of b] by (auto simp: word_gt_0)
next
  case False
  let ?z = "lowest a"
  have za: "?z < 64" using False by (rule lowest_less)
  have ua: "unat a = (2 * block ?z a + 1) * 2 ^ ?z" using za by (intro lowest_pos) auto
  have "unat b div 2 ^ ?z = unat c div 2 ^ ?z"
    using assms(3,4) nat_div_pow2_mono [of "unat b" "Suc (lowest b)" "unat c" ?z]
    by (simp add: block_def)
  moreover have "2 * block ?z a + 1 \<le> unat b div 2 ^ ?z"
    using assms(2) ua by (simp add: word_less_nat_alt less_eq_div_iff_mult_less_eq)
  ultimately have "unat a \<le> unat c"
    unfolding ua by (simp add: less_eq_div_iff_mult_less_eq)
  moreover have "a \<noteq> c" using assms(3,5) by auto
  ultimately show ?thesis by (simp add: word_less_nat_alt word_unat_eq_iff)
qed


section \<open>The tightest common block of two keys\<close>

definition top_diff :: "u64 \<Rightarrow> u64 \<Rightarrow> nat \<Rightarrow> bool" where
  "top_diff a b h \<longleftrightarrow> bit a h \<noteq> bit b h \<and> (\<forall>n>h. bit a n \<longleftrightarrow> bit b n)"

lemma top_diff_exists:
  assumes "a \<noteq> b"
  shows "\<exists>h. top_diff a b h"
proof -
  let ?D = "{n. bit a n \<noteq> bit b n}"
  have ne: "?D \<noteq> {}" using assms by (auto simp: bit_eq_iff)
  have fin: "finite ?D" by (rule finite_subset [of _ "{..<64}"]) (auto dest: bit_u64_bound)
  have "Max ?D \<in> ?D" using fin ne by (rule Max_in)
  moreover have "n \<notin> ?D" if "Max ?D < n" for n
    using Max_ge [OF fin, of n] that by force
  ultimately show ?thesis unfolding top_diff_def by blast
qed

lemma top_diff_bound: "top_diff a b h \<Longrightarrow> h < 64"
  by (auto simp: top_diff_def dest: bit_u64_bound)

lemma top_diff_sym: "top_diff a b h \<longleftrightarrow> top_diff b a h"
  by (auto simp: top_diff_def)

lemma dcover_top_diff:
  assumes "top_diff a b h"
  shows "cu_uintptr_dcover (a XOR b) = mask (Suc h)"
proof (rule word_eq_bitI)
  fix n :: nat
  assume "n < 64"
  have "(\<exists>m\<ge>n. bit a m \<noteq> bit b m) \<longleftrightarrow> n \<le> h"
    using assms unfolding top_diff_def by (meson not_le order_trans)
  then show "bit (cu_uintptr_dcover (a XOR b)) n \<longleftrightarrow> bit (mask (Suc h) :: u64) n"
    using \<open>n < 64\<close> by (auto simp: cu_uintptr_dcover_def cu_uint64_dcover_correct bit_simps less_Suc_eq_le)
qed

definition tight_join :: "u64 \<Rightarrow> u64 \<Rightarrow> u64" where
  "tight_join k0 k1 =
     (let k = cu_uintptr_dcover (k0 XOR k1) in (k0 AND NOT k) OR (drop_bit 1 k + 1))"

lemma tight_join_bits:
  assumes "top_diff a b h"
  shows "bit (tight_join a b) n \<longleftrightarrow> n = h \<or> (h < n \<and> bit a n)"
proof -
  have h: "h < 64" using assms by (rule top_diff_bound)
  have "drop_bit 1 (mask (Suc h)) = (mask h :: u64)"
    using h by (intro word_eq_bitI) (auto simp: bit_simps)
  then have "drop_bit 1 (mask (Suc h)) + 1 = (2 ^ h :: u64)"
    by (simp add: mask_eq_decr_exp)
  then show ?thesis
    using h by (auto simp: tight_join_def dcover_top_diff [OF assms] bit_simps dest: bit_u64_bound)
qed

lemma tight_join_props:
  assumes "top_diff a b h"
  shows "lowest (tight_join a b) = h"
    and "block h (tight_join a b) = block h a"
    and "block h a = block h b"
  using tight_join_bits [OF assms] assms
  by (auto intro!: lowest_eqI simp: block_eq_iff_bits top_diff_def)

lemma tight_join_sym: "tight_join a b = tight_join b a"
proof (cases "a = b")
  case False
  then obtain h where h: "top_diff a b h" using top_diff_exists by blast
  have h': "top_diff b a h" using h by (simp add: top_diff_sym)
  show ?thesis
    using h by (auto simp: bit_eq_iff tight_join_bits [OF h] tight_join_bits [OF h'] top_diff_def)
qed simp

lemma tight_join_between:
  assumes "a < b" "top_diff a b h"
  shows "a < tight_join a b" and "tight_join a b \<le> b" and "lowest b \<le> h" and "b \<noteq> 0"
proof -
  note m = tight_join_props [OF assms(2)]
  have div: "unat a div 2 ^ h = 2 * block h a + of_bool (bit a h)"
      "unat b div 2 ^ h = 2 * block h a + of_bool (bit b h)"
    using block_halve [of a h] block_halve [of b h] m(3) by auto
  have "unat a div 2 ^ h \<le> unat b div 2 ^ h"
    using assms(1) by (simp add: word_less_nat_alt div_le_mono)
  with div assms(2) have bits: "\<not> bit a h" "bit b h"
    by (auto simp: top_diff_def split: if_splits)
  then show "lowest b \<le> h" "b \<noteq> 0" using lowest_below [of h b] by force+
  have um: "unat (tight_join a b) = (2 * block h a + 1) * 2 ^ h"
    using lowest_pos [OF m(1) top_diff_bound [OF assms(2)]] m(2) by simp
  have "unat a div 2 ^ h < 2 * block h a + 1" using div(1) bits by simp
  then show "a < tight_join a b"
    unfolding word_less_nat_alt um by (subst (asm) div_less_iff_less_mult) auto
  have "2 * block h a + 1 \<le> unat b div 2 ^ h" using div(2) bits by simp
  then show "tight_join a b \<le> b"
    unfolding word_le_nat_alt um by (subst (asm) less_eq_div_iff_mult_less_eq) auto
qed

end
