(* ===== verification/Ucmap.thy ===== *)
theory Ucmap
  imports KeyCover
begin

text \<open>
  The constructive maps from unsigned integers of \<^verbatim>\<open>cucon/ucmap.c\<close>: binary trees shaped
  by the bits of the keys. A node is hash-consed by the C code, so equal nodes are the same
  pointer; here a node is a value and pointer comparison is equality of values. The flag
  \<open>has_value\<close> is the low bit of the \<open>left\<close> field of the C struct. Callbacks are
  functions that pass an explicit state along.
\<close>

section \<open>Nodes\<close>

datatype ucmap =
    Null
  | Node (node_key: u64) (node_left: ucmap) (node_right: ucmap) (has_value: bool) (node_value: u64)

definition ucmap_key_covers :: "u64 \<Rightarrow> u64 \<Rightarrow> bool" where
  "ucmap_key_covers key0 key1 =
     (let mask0 = NOT (key0 XOR (key0 - 1))
      in key0 AND mask0 = key1 AND mask0 \<and> key1 AND NOT mask0 \<noteq> 0)"

definition ucmap_key_coverseq :: "u64 \<Rightarrow> u64 \<Rightarrow> bool" where
  "ucmap_key_coverseq key0 key1 =
     (let mask0 = NOT (key0 XOR (key0 - 1)) in key0 AND mask0 = key1 AND mask0)"

text \<open>The assertion of \<open>_key_join\<close> is the lemma \<open>ucmap_key_join_assert\<close> below.\<close>

definition ucmap_key_join :: "u64 \<Rightarrow> u64 \<Rightarrow> u64" where
  "ucmap_key_join k0 k1 =
     (let k = cu_uintptr_dcover (k0 XOR k1) in (k0 AND NOT k) OR (drop_bit 1 k + 1))"

definition ucmap_node_new_val :: "u64 \<Rightarrow> ucmap \<Rightarrow> ucmap \<Rightarrow> u64 \<Rightarrow> ucmap" where
  "ucmap_node_new_val key l r val = Node key l r True val"

definition ucmap_node_new_noval :: "u64 \<Rightarrow> ucmap \<Rightarrow> ucmap \<Rightarrow> ucmap" where
  "ucmap_node_new_noval key l r = Node key l r False 0"

fun ucmap_node_new_lr :: "ucmap \<Rightarrow> ucmap \<Rightarrow> ucmap \<Rightarrow> ucmap" where
  "ucmap_node_new_lr (Node key _ _ hv v) l r = Node key l r hv v"
| "ucmap_node_new_lr Null l r = Null"

lemmas ucmap_node_defs = ucmap_node_new_val_def ucmap_node_new_noval_def

section \<open>Construction\<close>

definition cucon_ucmap_empty :: ucmap where
  "cucon_ucmap_empty = Null"

definition cucon_ucmap_is_empty :: "ucmap \<Rightarrow> bool" where
  "cucon_ucmap_is_empty m \<longleftrightarrow> m = Null"

definition cucon_ucmap_singleton :: "u64 \<Rightarrow> u64 \<Rightarrow> ucmap" where
  "cucon_ucmap_singleton key val = ucmap_node_new_val key Null Null val"

text \<open>
  The macro-free test of the header reads the raw \<open>left\<close> field: it is \<open>NULL\<close> only
  when the left branch is empty and the value bit is clear.
\<close>

fun cucon_ucmap_is_singleton :: "ucmap \<Rightarrow> bool" where
  "cucon_ucmap_is_singleton Null = False"
| "cucon_ucmap_is_singleton (Node _ l r hv _) = ((l = Null \<and> \<not> hv) \<and> r = Null)"

text \<open>
  The construction from a sorted array. The array cursor and the remaining length are the
  list of elements still to be read, which is returned beside the node. The recursion and
  the loop are driven by fuel; \<open>None\<close> is running out of it or the failure of the final
  assertion, and neither happens on a sorted array.
\<close>

type_synonym ucmap_element = "u64 \<times> u64"

fun ucmap_from_sorted_array_rec :: "nat \<Rightarrow> u64 \<Rightarrow> ucmap_element list \<Rightarrow> (ucmap \<times> ucmap_element list) option"
  and ucmap_from_sorted_array_loop ::
    "nat \<Rightarrow> u64 \<Rightarrow> u64 \<Rightarrow> ucmap \<Rightarrow> ucmap_element list \<Rightarrow> (ucmap \<times> ucmap_element list) option" where
  "ucmap_from_sorted_array_rec 0 max_key arr = None"
| "ucmap_from_sorted_array_rec (Suc n) max_key [] = Some (Null, [])"
| "ucmap_from_sorted_array_rec (Suc n) max_key ((cur_key, value) # arr) =
     (if cur_key > max_key then Some (Null, (cur_key, value) # arr)
      else
        (let arr = dropWhile (\<lambda>e. fst e = cur_key) arr in
         if arr = [] then Some (ucmap_node_new_val cur_key Null Null value, [])
         else if ucmap_key_covers cur_key (fst (hd arr)) then
           (case ucmap_from_sorted_array_rec n (cur_key OR (cur_key - 1)) arr of
              None \<Rightarrow> None
            | Some (right_node, rest) \<Rightarrow>
                let cur_node = ucmap_node_new_val cur_key Null right_node value in
                if rest = [] then Some (cur_node, [])
                else ucmap_from_sorted_array_loop n max_key cur_key cur_node rest)
         else
           ucmap_from_sorted_array_loop n max_key cur_key
             (ucmap_node_new_val cur_key Null Null value) arr))"
| "ucmap_from_sorted_array_loop 0 max_key cur_key cur_node arr = None"
| "ucmap_from_sorted_array_loop (Suc n) max_key cur_key cur_node [] = Some (cur_node, [])"
| "ucmap_from_sorted_array_loop (Suc n) max_key cur_key cur_node ((next_key, value) # arr) =
     (if next_key > max_key then Some (cur_node, (next_key, value) # arr)
      else if ucmap_key_covers next_key cur_key then
        (let arr = dropWhile (\<lambda>e. fst e = next_key) arr in
         if arr = [] then Some (ucmap_node_new_val next_key cur_node Null value, [])
         else
           (case ucmap_from_sorted_array_rec n (next_key OR (next_key - 1)) arr of
              None \<Rightarrow> None
            | Some (right_node, rest) \<Rightarrow>
                ucmap_from_sorted_array_loop n max_key next_key
                  (ucmap_node_new_val next_key cur_node right_node value) rest))
      else
        (let cur_key = (if \<not> ucmap_key_covers cur_key next_key then ucmap_key_join cur_key next_key
                        else cur_key)
         in case ucmap_from_sorted_array_rec n (cur_key OR (cur_key - 1)) ((next_key, value) # arr) of
              None \<Rightarrow> None
            | Some (right_node, rest) \<Rightarrow>
                ucmap_from_sorted_array_loop n max_key cur_key
                  (ucmap_node_new_noval cur_key cur_node right_node) rest))"

definition cucon_ucmap_from_sorted_array :: "ucmap_element list \<Rightarrow> ucmap option" where
  "cucon_ucmap_from_sorted_array arr =
     (case ucmap_from_sorted_array_rec (2 * length arr + 1) (-1) arr of
        Some (M, []) \<Rightarrow> Some M
      | _ \<Rightarrow> None)"

fun cucon_ucmap_insert :: "ucmap \<Rightarrow> u64 \<Rightarrow> u64 \<Rightarrow> ucmap" where
  "cucon_ucmap_insert Null key val = ucmap_node_new_val key Null Null val"
| "cucon_ucmap_insert (Node nk l r hv v) key val =
     (let node = Node nk l r hv v in
      if nk = key then
        (if v = val then node else ucmap_node_new_val nk l r val)
      else if ucmap_key_covers nk key then
        (if key < nk then
           (let new_left = cucon_ucmap_insert l key val in
            if new_left \<noteq> l then ucmap_node_new_lr node new_left r else node)
         else
           (let new_right = cucon_ucmap_insert r key val in
            if new_right \<noteq> r then ucmap_node_new_lr node l new_right else node))
      else if ucmap_key_covers key nk then
        (if nk < key then ucmap_node_new_val key node Null val
         else ucmap_node_new_val key Null node val)
      else
        (let key_node = ucmap_node_new_val key Null Null val; j = ucmap_key_join key nk in
         if key < nk then ucmap_node_new_noval j key_node node
         else ucmap_node_new_noval j node key_node))"

text \<open>Pointers are stored as integers; an \<open>int\<close> is sign-extended to \<open>uintptr_t\<close>.\<close>

definition cucon_ucmap_insert_int :: "ucmap \<Rightarrow> u64 \<Rightarrow> u32 \<Rightarrow> ucmap" where
  "cucon_ucmap_insert_int m key val = cucon_ucmap_insert m key (scast val)"

fun cucon_ucmap_erase :: "ucmap \<Rightarrow> u64 \<Rightarrow> ucmap" where
  "cucon_ucmap_erase Null key = Null"
| "cucon_ucmap_erase (Node nk l r hv v) key =
     (let node = Node nk l r hv v in
      if nk = key then
        (if hv then
           (if l = Null then r
            else if r = Null then l
            else ucmap_node_new_noval nk l r)
         else node)
      else if ucmap_key_covers nk key then
        (if key < nk then
           (let new_left = cucon_ucmap_erase l key in
            if new_left = Null \<and> \<not> hv then r
            else if new_left \<noteq> l then ucmap_node_new_lr node new_left r
            else node)
         else
           (let new_right = cucon_ucmap_erase r key in
            if new_right = Null \<and> \<not> hv then l
            else if new_right \<noteq> r then ucmap_node_new_lr node l new_right
            else node))
      else node)"

section \<open>Lookup\<close>

fun cucon_ucmap_contains :: "ucmap \<Rightarrow> u64 \<Rightarrow> bool" where
  "cucon_ucmap_contains Null key = False"
| "cucon_ucmap_contains (Node nk l r hv v) key =
     (if key = nk then hv
      else if ucmap_key_coverseq nk key then
        (if key < nk then cucon_ucmap_contains l key else cucon_ucmap_contains r key)
      else False)"

text \<open>The result is \<open>None\<close> for a false return and \<open>Some\<close> of the value stored through the out-pointer.\<close>

fun cucon_ucmap_find :: "ucmap \<Rightarrow> u64 \<Rightarrow> u64 option" where
  "cucon_ucmap_find Null key = None"
| "cucon_ucmap_find (Node nk l r hv v) key =
     (if key = nk then (if \<not> hv then None else Some v)
      else if ucmap_key_coverseq nk key then
        (if key < nk then cucon_ucmap_find l key else cucon_ucmap_find r key)
      else None)"

fun cucon_ucmap_find_ptr :: "ucmap \<Rightarrow> u64 \<Rightarrow> u64" where
  "cucon_ucmap_find_ptr Null key = 0"
| "cucon_ucmap_find_ptr (Node nk l r hv v) key =
     (if key = nk then (if \<not> hv then 0 else v)
      else if ucmap_key_coverseq nk key then
        (if key < nk then cucon_ucmap_find_ptr l key else cucon_ucmap_find_ptr r key)
      else 0)"

definition cucon_ucmap_int_none :: u32 where
  "cucon_ucmap_int_none = 0x80000000"

fun cucon_ucmap_find_int :: "ucmap \<Rightarrow> u64 \<Rightarrow> u32" where
  "cucon_ucmap_find_int Null key = cucon_ucmap_int_none"
| "cucon_ucmap_find_int (Node nk l r hv v) key =
     (if key = nk then (if \<not> hv then cucon_ucmap_int_none else ucast v)
      else if ucmap_key_coverseq nk key then
        (if key < nk then cucon_ucmap_find_int l key else cucon_ucmap_find_int r key)
      else cucon_ucmap_int_none)"

section \<open>Counting and iteration\<close>

text \<open>The count is a \<open>size_t\<close> and wraps; the loop over right branches is the recursion on \<open>r\<close>.\<close>

fun ucmap_card_loop :: "ucmap \<Rightarrow> u64 \<Rightarrow> u64" where
  "ucmap_card_loop Null count = count"
| "ucmap_card_loop (Node nk l r hv v) count =
     (let count = count + ucmap_card_loop l 0;
          count = (if hv then count + 1 else count)
      in ucmap_card_loop r count)"

definition cucon_ucmap_card :: "ucmap \<Rightarrow> u64" where
  "cucon_ucmap_card m = ucmap_card_loop m 0"

fun ucmap_clipped_card_loop :: "u64 \<Rightarrow> u64 \<Rightarrow> ucmap \<Rightarrow> u64 \<Rightarrow> u64" where
  "ucmap_clipped_card_loop k_min k_max Null count = count"
| "ucmap_clipped_card_loop k_min k_max (Node nk l r hv v) count =
     (if nk < k_min then ucmap_clipped_card_loop k_min k_max r count
      else if nk > k_max then ucmap_clipped_card_loop k_min k_max l count
      else
        (let count = (if hv then count + 1 else count);
             count = count + ucmap_clipped_card_loop k_min k_max l 0
         in ucmap_clipped_card_loop k_min k_max r count))"

definition cucon_ucmap_clipped_card :: "ucmap \<Rightarrow> u64 \<Rightarrow> u64 \<Rightarrow> u64" where
  "cucon_ucmap_clipped_card M k_min k_max =
     (if k_min \<le> k_max then ucmap_clipped_card_loop k_min k_max M 0
      else ucmap_clipped_card_loop k_min (-1) M 0 + ucmap_clipped_card_loop 0 k_max M 0)"

type_synonym 's ucmap_callback = "u64 \<Rightarrow> u64 \<Rightarrow> 's \<Rightarrow> bool \<times> 's"

fun cucon_ucmap_iterA :: "'s ucmap_callback \<Rightarrow> ucmap \<Rightarrow> 's \<Rightarrow> bool \<times> 's" where
  "cucon_ucmap_iterA f Null s = (True, s)"
| "cucon_ucmap_iterA f (Node nk l r hv v) s =
     (case cucon_ucmap_iterA f l s of
        (False, s) \<Rightarrow> (False, s)
      | (True, s) \<Rightarrow>
          if hv then
            (case f nk v s of
               (False, s) \<Rightarrow> (False, s)
             | (True, s) \<Rightarrow> cucon_ucmap_iterA f r s)
          else cucon_ucmap_iterA f r s)"

text \<open>The conjunction of two effectful tests, as C's \<open>&&\<close> evaluates it.\<close>

definition and_then :: "('s \<Rightarrow> bool \<times> 's) \<Rightarrow> ('s \<Rightarrow> bool \<times> 's) \<Rightarrow> 's \<Rightarrow> bool \<times> 's" where
  "and_then p q s = (case p s of (False, s) \<Rightarrow> (False, s) | (True, s) \<Rightarrow> q s)"

definition call_value :: "'s ucmap_callback \<Rightarrow> u64 \<Rightarrow> bool \<Rightarrow> u64 \<Rightarrow> 's \<Rightarrow> bool \<times> 's" where
  "call_value f k hv v s = (if \<not> hv then (True, s) else f k v s)"

fun ucmap_iterA_above :: "'s ucmap_callback \<Rightarrow> ucmap \<Rightarrow> u64 \<Rightarrow> 's \<Rightarrow> bool \<times> 's" where
  "ucmap_iterA_above f Null k_min s = (True, s)"
| "ucmap_iterA_above f (Node nk l r hv v) k_min s =
     (if nk < k_min then ucmap_iterA_above f r k_min s
      else and_then (ucmap_iterA_above f l k_min)
             (and_then (call_value f nk hv v) (cucon_ucmap_iterA f r)) s)"

fun ucmap_iterA_below :: "'s ucmap_callback \<Rightarrow> ucmap \<Rightarrow> u64 \<Rightarrow> 's \<Rightarrow> bool \<times> 's" where
  "ucmap_iterA_below f Null k_max s = (True, s)"
| "ucmap_iterA_below f (Node nk l r hv v) k_max s =
     (if nk > k_max then ucmap_iterA_below f l k_max s
      else and_then (cucon_ucmap_iterA f l)
             (and_then (call_value f nk hv v) (ucmap_iterA_below f r k_max)) s)"

fun ucmap_iterA_between :: "'s ucmap_callback \<Rightarrow> ucmap \<Rightarrow> u64 \<Rightarrow> u64 \<Rightarrow> 's \<Rightarrow> bool \<times> 's" where
  "ucmap_iterA_between f Null k_min k_max s = (True, s)"
| "ucmap_iterA_between f (Node nk l r hv v) k_min k_max s =
     (if nk < k_min then ucmap_iterA_between f r k_min k_max s
      else if nk > k_max then ucmap_iterA_between f l k_min k_max s
      else and_then (ucmap_iterA_above f l k_min)
             (and_then (call_value f nk hv v) (ucmap_iterA_below f r k_max)) s)"

definition cucon_ucmap_iterA_clipped ::
    "'s ucmap_callback \<Rightarrow> ucmap \<Rightarrow> u64 \<Rightarrow> u64 \<Rightarrow> 's \<Rightarrow> bool \<times> 's" where
  "cucon_ucmap_iterA_clipped f M k_min k_max =
     (if k_min \<le> k_max then ucmap_iterA_between f M k_min k_max
      else and_then (\<lambda>s. ucmap_iterA_below f M k_max s) (\<lambda>s. ucmap_iterA_above f M k_min s))"

fun cucon_ucmap_iter_ptr :: "ucmap \<Rightarrow> (u64 \<Rightarrow> u64 \<Rightarrow> 's \<Rightarrow> 's) \<Rightarrow> 's \<Rightarrow> 's" where
  "cucon_ucmap_iter_ptr Null f s = s"
| "cucon_ucmap_iter_ptr (Node nk l r hv v) f s =
     (let s = cucon_ucmap_iter_ptr l f s; s = (if hv then f nk v s else s)
      in cucon_ucmap_iter_ptr r f s)"

fun cucon_ucmap_iter_int :: "ucmap \<Rightarrow> (u64 \<Rightarrow> u32 \<Rightarrow> 's \<Rightarrow> 's) \<Rightarrow> 's \<Rightarrow> 's" where
  "cucon_ucmap_iter_int Null f s = s"
| "cucon_ucmap_iter_int (Node nk l r hv v) f s =
     (let s = cucon_ucmap_iter_int l f s; s = (if hv then f nk (ucast v) s else s)
      in cucon_ucmap_iter_int r f s)"

fun cucon_ucmap_conj_ptr :: "ucmap \<Rightarrow> 's ucmap_callback \<Rightarrow> 's \<Rightarrow> bool \<times> 's" where
  "cucon_ucmap_conj_ptr Null cb s = (True, s)"
| "cucon_ucmap_conj_ptr (Node nk l r hv v) cb s =
     (case cucon_ucmap_conj_ptr l cb s of
        (False, s) \<Rightarrow> (False, s)
      | (True, s) \<Rightarrow>
          (case (if hv then cb nk v s else (True, s)) of
             (False, s) \<Rightarrow> (False, s)
           | (True, s) \<Rightarrow> cucon_ucmap_conj_ptr r cb s))"

fun cucon_ucmap_conj_int :: "ucmap \<Rightarrow> (u64 \<Rightarrow> u32 \<Rightarrow> 's \<Rightarrow> bool \<times> 's) \<Rightarrow> 's \<Rightarrow> bool \<times> 's" where
  "cucon_ucmap_conj_int Null cb s = (True, s)"
| "cucon_ucmap_conj_int (Node nk l r hv v) cb s =
     (case cucon_ucmap_conj_int l cb s of
        (False, s) \<Rightarrow> (False, s)
      | (True, s) \<Rightarrow>
          (case (if hv then cb nk (ucast v) s else (True, s)) of
             (False, s) \<Rightarrow> (False, s)
           | (True, s) \<Rightarrow> cucon_ucmap_conj_int r cb s))"

section \<open>Unions\<close>

fun cucon_ucmap_left_union :: "ucmap \<Rightarrow> ucmap \<Rightarrow> ucmap" where
  "cucon_ucmap_left_union Null M1 = M1"
| "cucon_ucmap_left_union M0 Null = M0"
| "cucon_ucmap_left_union (Node k0 l0 r0 hv0 v0) (Node k1 l1 r1 hv1 v1) =
     (let M0 = Node k0 l0 r0 hv0 v0; M1 = Node k1 l1 r1 hv1 v1 in
      if k0 = k1 then
        (let M_left = cucon_ucmap_left_union l0 l1;
             M_right = cucon_ucmap_left_union r0 r1
         in ucmap_node_new_lr (if hv0 then M0 else M1) M_left M_right)
      else if ucmap_key_covers k0 k1 then
        (if k1 < k0 then ucmap_node_new_lr M0 (cucon_ucmap_left_union l0 M1) r0
         else ucmap_node_new_lr M0 l0 (cucon_ucmap_left_union r0 M1))
      else if ucmap_key_covers k1 k0 then
        (if k0 < k1 then ucmap_node_new_lr M1 (cucon_ucmap_left_union M0 l1) r1
         else ucmap_node_new_lr M1 l1 (cucon_ucmap_left_union M0 r1))
      else
        (let k = ucmap_key_join k0 k1 in
         if k0 < k1 then ucmap_node_new_noval k M0 M1
         else ucmap_node_new_noval k M1 M0))"

fun cucon_ucmap_combined_union :: "(u64 \<Rightarrow> u64 \<Rightarrow> u64) \<Rightarrow> ucmap \<Rightarrow> ucmap \<Rightarrow> ucmap" where
  "cucon_ucmap_combined_union f Null M1 = M1"
| "cucon_ucmap_combined_union f M0 Null = M0"
| "cucon_ucmap_combined_union f (Node k0 l0 r0 hv0 v0) (Node k1 l1 r1 hv1 v1) =
     (let M0 = Node k0 l0 r0 hv0 v0; M1 = Node k1 l1 r1 hv1 v1 in
      if k0 = k1 then
        (let M_left = cucon_ucmap_combined_union f l0 l1;
             M_right = cucon_ucmap_combined_union f r0 r1
         in if \<not> hv0 then
              (if \<not> hv1 then ucmap_node_new_noval k0 M_left M_right
               else ucmap_node_new_lr M1 M_left M_right)
            else if \<not> hv1 then ucmap_node_new_lr M0 M_left M_right
            else ucmap_node_new_val k0 M_left M_right (f v0 v1))
      else if ucmap_key_covers k0 k1 then
        (if k1 < k0 then ucmap_node_new_lr M0 (cucon_ucmap_combined_union f l0 M1) r0
         else ucmap_node_new_lr M0 l0 (cucon_ucmap_combined_union f r0 M1))
      else if ucmap_key_covers k1 k0 then
        (if k0 < k1 then ucmap_node_new_lr M1 (cucon_ucmap_combined_union f M0 l1) r1
         else ucmap_node_new_lr M1 l1 (cucon_ucmap_combined_union f M0 r1))
      else
        (let k = ucmap_key_join k0 k1 in
         if k0 < k1 then ucmap_node_new_noval k M0 M1
         else ucmap_node_new_noval k M1 M0))"

section \<open>Extremal keys and clipping\<close>

fun ucmap_min_loop :: "ucmap \<Rightarrow> u64 \<Rightarrow> u64" where
  "ucmap_min_loop Null mn = mn"
| "ucmap_min_loop (Node nk l r hv v) mn = ucmap_min_loop l nk"

definition cucon_ucmap_min_ukey :: "ucmap \<Rightarrow> u64" where
  "cucon_ucmap_min_ukey m = ucmap_min_loop m (-1)"

fun ucmap_max_loop :: "ucmap \<Rightarrow> u64 \<Rightarrow> u64" where
  "ucmap_max_loop Null mx = mx"
| "ucmap_max_loop (Node nk l r hv v) mx = ucmap_max_loop r nk"

definition cucon_ucmap_max_ukey :: "ucmap \<Rightarrow> u64" where
  "cucon_ucmap_max_ukey m = ucmap_max_loop m 0"

fun ucmap_uclip_upper :: "ucmap \<Rightarrow> u64 \<Rightarrow> ucmap" where
  "ucmap_uclip_upper Null k_min = Null"
| "ucmap_uclip_upper (Node nk l r hv v) k_min =
     (if nk < k_min then ucmap_uclip_upper r k_min
      else ucmap_node_new_lr (Node nk l r hv v) (ucmap_uclip_upper l k_min) r)"

fun ucmap_uclip_lower :: "ucmap \<Rightarrow> u64 \<Rightarrow> ucmap" where
  "ucmap_uclip_lower Null k_max = Null"
| "ucmap_uclip_lower (Node nk l r hv v) k_max =
     (if nk > k_max then ucmap_uclip_lower l k_max
      else ucmap_node_new_lr (Node nk l r hv v) l (ucmap_uclip_lower r k_max))"

fun cucon_ucmap_uclip :: "ucmap \<Rightarrow> u64 \<Rightarrow> u64 \<Rightarrow> ucmap" where
  "cucon_ucmap_uclip Null k_min k_max = Null"
| "cucon_ucmap_uclip (Node nk l r hv v) k_min k_max =
     (if nk < k_min then cucon_ucmap_uclip r k_min k_max
      else if nk > k_max then cucon_ucmap_uclip l k_min k_max
      else ucmap_node_new_lr (Node nk l r hv v)
             (ucmap_uclip_upper l k_min) (ucmap_uclip_lower r k_max))"

definition cucon_ucmap_clip :: "ucmap \<Rightarrow> u64 \<Rightarrow> u64 \<Rightarrow> ucmap" where
  "cucon_ucmap_clip M k_min k_max =
     (if k_min \<le> k_max then cucon_ucmap_uclip M k_min k_max
      else cucon_ucmap_left_union (ucmap_uclip_lower M k_max) (ucmap_uclip_upper M k_min))"

section \<open>Comparison\<close>

text \<open>The first test of each function compares pointers, which hash-consing makes equality.\<close>

fun cucon_ucmap_eq :: "ucmap \<Rightarrow> ucmap \<Rightarrow> bool" where
  "cucon_ucmap_eq Null M1 = (Null = M1)"
| "cucon_ucmap_eq M0 Null = False"
| "cucon_ucmap_eq (Node k0 l0 r0 hv0 v0) (Node k1 l1 r1 hv1 v1) =
     (if Node k0 l0 r0 hv0 v0 = Node k1 l1 r1 hv1 v1 then True
      else if k0 \<noteq> k1 then False
      else if hv0 \<noteq> hv1 then False
      else if v0 \<noteq> v1 then False
      else if \<not> cucon_ucmap_eq l0 l1 then False
      else cucon_ucmap_eq r0 r1)"

fun cucon_ucmap_eq_ptr :: "(u64 \<Rightarrow> u64 \<Rightarrow> bool) \<Rightarrow> ucmap \<Rightarrow> ucmap \<Rightarrow> bool" where
  "cucon_ucmap_eq_ptr f Null M1 = (Null = M1)"
| "cucon_ucmap_eq_ptr f M0 Null = False"
| "cucon_ucmap_eq_ptr f (Node k0 l0 r0 hv0 v0) (Node k1 l1 r1 hv1 v1) =
     (if Node k0 l0 r0 hv0 v0 = Node k1 l1 r1 hv1 v1 then True
      else if k0 \<noteq> k1 then False
      else if \<not> cucon_ucmap_eq_ptr f l0 l1 then False
      else if hv0 \<and> \<not> hv1 then False
      else if hv0 \<and> \<not> f v0 v1 then False
      else if \<not> hv0 \<and> hv1 then False
      else cucon_ucmap_eq_ptr f r0 r1)"

fun cucon_ucmap_cmp :: "ucmap \<Rightarrow> ucmap \<Rightarrow> int" where
  "cucon_ucmap_cmp Null M1 = (if Null = M1 then 0 else -1)"
| "cucon_ucmap_cmp M0 Null = 1"
| "cucon_ucmap_cmp (Node k0 l0 r0 hv0 v0) (Node k1 l1 r1 hv1 v1) =
     (if Node k0 l0 r0 hv0 v0 = Node k1 l1 r1 hv1 v1 then 0
      else if k0 < k1 then -1
      else if k0 > k1 then 1
      else
        (let c = cucon_ucmap_cmp l0 l1 in
         if c \<noteq> 0 then c
         else if hv0 \<and> \<not> hv1 then 1
         else if hv0 \<and> v0 < v1 then -1
         else if hv0 \<and> v0 > v1 then 1
         else if \<not> hv0 \<and> hv1 then -1
         else cucon_ucmap_cmp r0 r1))"

fun cucon_ucmap_cmp_ptr :: "(u64 \<Rightarrow> u64 \<Rightarrow> int) \<Rightarrow> ucmap \<Rightarrow> ucmap \<Rightarrow> int" where
  "cucon_ucmap_cmp_ptr f Null M1 = (if Null = M1 then 0 else -1)"
| "cucon_ucmap_cmp_ptr f M0 Null = 1"
| "cucon_ucmap_cmp_ptr f (Node k0 l0 r0 hv0 v0) (Node k1 l1 r1 hv1 v1) =
     (if Node k0 l0 r0 hv0 v0 = Node k1 l1 r1 hv1 v1 then 0
      else if k0 < k1 then -1
      else if k0 > k1 then 1
      else
        (let c = cucon_ucmap_cmp_ptr f l0 l1 in
         if c \<noteq> 0 then c
         else if hv0 \<and> \<not> hv1 then 1
         else if hv0 \<and> f v0 v1 \<noteq> 0 then f v0 v1
         else if \<not> hv0 \<and> hv1 then -1
         else cucon_ucmap_cmp_ptr f r0 r1))"


section \<open>The keys of a map interpret the cover interface\<close>

lemma ucmap_mask0: "NOT (k XOR (k - 1)) = (NOT (mask (Suc (lowest k))) :: u64)"
  by (simp only: xor_minus_one)

lemma ucmap_key_coverseq_block:
  "ucmap_key_coverseq k j \<longleftrightarrow> block (lowest k) k = block (lowest k) j"
  by (simp only: ucmap_key_coverseq_def Let_def ucmap_mask0 upper_bits_eq_iff)

lemma ucmap_key_covers_block:
  "ucmap_key_covers k j \<longleftrightarrow> block (lowest k) k = block (lowest k) j \<and> j \<noteq> 0 \<and> lowest j \<le> lowest k"
proof -
  have "j AND mask (Suc (lowest k)) \<noteq> 0 \<longleftrightarrow> j \<noteq> 0 \<and> lowest j \<le> lowest k"
  proof (cases "k = 0")
    case True
    have "j AND mask 65 = j" by (rule word_eq_bitI) (simp add: bit_simps)
    then show ?thesis using True by simp
  next
    case False
    then show ?thesis using lower_bits_nonzero_iff [OF lowest_less, of k j] lowest_less [of k] by auto
  qed
  then show ?thesis
    by (simp only: ucmap_key_covers_def Let_def ucmap_mask0 upper_bits_eq_iff bit.double_compl)
qed

lemma ucmap_covers_imp_coverseq: "ucmap_key_covers k j \<Longrightarrow> ucmap_key_coverseq k j"
  by (simp add: ucmap_key_covers_block ucmap_key_coverseq_block)

lemma ucmap_covers_level: "ucmap_key_covers k j \<Longrightarrow> j \<noteq> k \<Longrightarrow> lowest j < lowest k"
  using same_block_unique [of k j] by (fastforce simp: ucmap_key_covers_block)

lemma ucmap_key_join_eq: "ucmap_key_join = tight_join"
  by (simp add: fun_eq_iff ucmap_key_join_def tight_join_def)

lemma ucmap_key_join_incomparable:
  assumes "a < b" "\<not> ucmap_key_covers a b" "\<not> ucmap_key_covers b a"
  shows "ucmap_key_covers (tight_join a b) a \<and> ucmap_key_covers (tight_join a b) b
     \<and> a < tight_join a b \<and> tight_join a b < b"
proof -
  obtain h where h: "top_diff a b h" using assms(1) top_diff_exists by (metis less_irrefl)
  note m = tight_join_props [OF h] and btw = tight_join_between [OF assms(1) h]
  have la: "lowest a \<le> h"
  proof (rule ccontr)
    assume "\<not> lowest a \<le> h"
    then have "block (lowest a) a = block (lowest a) b" using block_mono [OF m(3)] by simp
    then show False using assms(2) btw \<open>\<not> lowest a \<le> h\<close> by (simp add: ucmap_key_covers_block)
  qed
  have a0: "a \<noteq> 0" using la top_diff_bound [OF h] by auto
  have "tight_join a b \<noteq> b"
    using assms(3) a0 la m by (auto simp: ucmap_key_covers_block)
  then show ?thesis
    using m a0 la btw by (simp add: ucmap_key_covers_block)
qed

lemma ucmap_key_join_level:
  assumes "k0 \<noteq> k1" "\<not> ucmap_key_covers k0 k1" "\<not> ucmap_key_covers k1 k0" "top_diff k0 k1 h"
  shows "h \<noteq> 0"
proof -
  obtain a where a: "ucmap_key_covers (tight_join k0 k1) a" "a \<noteq> tight_join k0 k1"
    using ucmap_key_join_incomparable [of k0 k1] ucmap_key_join_incomparable [of k1 k0] assms(1-3)
      tight_join_sym [of k0 k1] by (cases "k0 < k1") fastforce+
  then have "lowest a < h"
    using ucmap_covers_level [of "tight_join k0 k1" a] tight_join_props(1) [OF assms(4)] by simp
  then show ?thesis by simp
qed

lemma ucmap_key_join_assert:
  assumes "k0 \<noteq> k1" "\<not> ucmap_key_covers k0 k1" "\<not> ucmap_key_covers k1 k0"
  shows "2 \<le> cu_uintptr_dcover (k0 XOR k1)"
proof -
  obtain h where h: "top_diff k0 k1 h" using assms(1) top_diff_exists by blast
  have "bit (mask (Suc h) :: u64) 1"
    using ucmap_key_join_level [OF assms h] by (simp add: bit_simps)
  then have "2 ^ 1 \<le> unat (mask (Suc h) :: u64)"
    by (metis bit_unat_u64 div_less even_zero not_le)
  then show ?thesis by (simp add: dcover_top_diff [OF h] word_le_nat_alt)
qed

interpretation ucm: key_cover ucmap_key_covers ucmap_key_join
proof
  fix a b c :: u64
  show "ucmap_key_covers a c" if "ucmap_key_covers a b" "ucmap_key_covers b c"
    using that block_mono [of "lowest b" b c "lowest a"] unfolding ucmap_key_covers_block
    by (metis order_trans)
  show "a = b" if "ucmap_key_covers a b" "ucmap_key_covers b a"
    using that same_block_unique [of a b] unfolding ucmap_key_covers_block by (meson le_antisym)
  show "c < a" if "ucmap_key_covers a b" "b < a" "ucmap_key_covers b c"
    using that block_side_less [of a b c] ucmap_covers_level [of a b]
    unfolding ucmap_key_covers_block by (metis less_irrefl)
  show "a < c" if "ucmap_key_covers a b" "a < b" "ucmap_key_covers b c"
    using that block_side_greater [of a b c] ucmap_covers_level [of a b]
    unfolding ucmap_key_covers_block by (metis less_irrefl)
  show "a = b \<or> ucmap_key_covers a b \<or> ucmap_key_covers b a"
    if "ucmap_key_covers a c" "ucmap_key_covers b c"
  proof (cases "lowest a \<le> lowest b")
    case True
    then have "block (lowest b) a = block (lowest b) c"
      using that block_mono [of "lowest a" a c] by (simp add: ucmap_key_covers_block)
    then show ?thesis
      using that True lowest_less [of b] by (auto simp: ucmap_key_covers_block)
  next
    case False
    then have "block (lowest a) b = block (lowest a) c"
      using that block_mono [of "lowest b" b c] by (simp add: ucmap_key_covers_block)
    then show ?thesis
      using that False lowest_le [of a] by (auto simp: ucmap_key_covers_block)
  qed
  assume ne: "a \<noteq> b" "\<not> ucmap_key_covers a b" "\<not> ucmap_key_covers b a"
  have "ucmap_key_covers (tight_join a b) a \<and> ucmap_key_covers (tight_join a b) b \<and>
     min a b < tight_join a b \<and> tight_join a b < max a b"
    using ucmap_key_join_incomparable [of a b] ucmap_key_join_incomparable [of b a] ne
      tight_join_sym [of a b] by (cases "a < b") (auto simp: min_def max_def)
  then show "ucmap_key_covers (ucmap_key_join a b) a" "ucmap_key_covers (ucmap_key_join a b) b"
    "min a b < ucmap_key_join a b \<and> ucmap_key_join a b < max a b" by (auto simp: ucmap_key_join_eq)
qed

section \<open>Properties\<close>

text \<open>\<open>_key_join\<close> of two keys that do not cover each other passes its assertion and is
  their tightest cover: it covers both, separates them, and every other key that covers both
  covers it.\<close>

theorem key_join_tightest:
  assumes "a < b" "\<not> ucmap_key_covers a b" "\<not> ucmap_key_covers b a"
  shows "2 \<le> cu_uintptr_dcover (a XOR b)
    \<and> ucmap_key_covers (ucmap_key_join a b) a \<and> ucmap_key_covers (ucmap_key_join a b) b
    \<and> a < ucmap_key_join a b \<and> ucmap_key_join a b < b
    \<and> (\<forall>c. ucmap_key_covers c a \<and> ucmap_key_covers c b \<longrightarrow>
          c = ucmap_key_join a b \<or> ucmap_key_covers c (ucmap_key_join a b))"
proof -
  let ?j = "ucmap_key_join a b"
  have ne: "a \<noteq> b" using assms by simp
  have j: "ucmap_key_covers ?j a" "ucmap_key_covers ?j b" "a < ?j" "?j < b"
    using ucm.join_left [OF ne assms(2,3)] ucm.join_right [OF ne assms(2,3)]
      ucm.join_between [OF ne assms(2,3)] assms(1) by (auto simp: min_def max_def split: if_splits)
  have "c = ?j \<or> ucmap_key_covers c ?j" if c: "ucmap_key_covers c a" "ucmap_key_covers c b" for c
  proof (rule ccontr)
    assume no: "\<not> (c = ?j \<or> ucmap_key_covers c ?j)"
    then have jc: "ucmap_key_covers ?j c" using ucm.covers_laminar [OF c(1) j(1)] by blast
    show False
      using no ucm.covers_side_less [OF jc _ c(2)] ucm.covers_side_greater [OF jc _ c(1)] j(3,4)
      by (metis less_asym linorder_neqE)
  qed
  then show ?thesis using j ucmap_key_join_assert [OF ne assms(2,3)] by blast
qed

theorem key_join_tightest_witness:
  "ucmap_key_covers (ucmap_key_join 9 13) 9 \<and> ucmap_key_covers (ucmap_key_join 9 13) 13"
proof -
  have "\<not> ucmap_key_covers 9 13" "\<not> ucmap_key_covers 13 9" by code_simp+
  then show ?thesis using key_join_tightest [of 9 13] by simp
qed

text \<open>The header's \<open>cucon_ucmap_is_singleton\<close> tests the raw left field, which carries the
  value bit, and so denies every map that \<open>cucon_ucmap_singleton\<close> makes.\<close>

theorem is_singleton_denies_singletons:
  "\<not> cucon_ucmap_is_singleton (cucon_ucmap_singleton key val)"
  by (simp add: cucon_ucmap_singleton_def ucmap_node_defs)

end
