(* ===== verification/MapSpec.thy ===== *)
theory MapSpec
  imports Prelude
begin

text \<open>
  The interface of a constructive (persistent, hash-consed) map, as the clients of
  \<^verbatim>\<open>cucon\<close> rely on it: each operation acts on the finite map that lookup shows, and two
  maps that show the same finite map are the same object. What clients may conclude from
  that is proved here once. The predicate \<open>storable\<close> limits the values for which insertion
  is promised to take effect.
\<close>

locale constructive_map =
  fixes invar :: "'m \<Rightarrow> bool" and lookup :: "'m \<Rightarrow> 'k \<Rightarrow> 'v option" and storable :: "'v \<Rightarrow> bool"
    and empty :: 'm and insert :: "'m \<Rightarrow> 'k \<Rightarrow> 'v \<Rightarrow> 'm" and erase :: "'m \<Rightarrow> 'k \<Rightarrow> 'm"
    and left_union :: "'m \<Rightarrow> 'm \<Rightarrow> 'm"
  assumes invar_empty: "invar empty"
    and lookup_empty: "lookup empty = Map.empty"
    and invar_insert: "invar m \<Longrightarrow> invar (insert m k v)"
    and lookup_insert: "invar m \<Longrightarrow> storable v \<Longrightarrow> lookup (insert m k v) = (lookup m)(k \<mapsto> v)"
    and invar_erase: "invar m \<Longrightarrow> invar (erase m k)"
    and lookup_erase: "invar m \<Longrightarrow> lookup (erase m k) = (lookup m)(k := None)"
    and invar_union: "invar m \<Longrightarrow> invar n \<Longrightarrow> invar (left_union m n)"
    and lookup_union: "invar m \<Longrightarrow> invar n \<Longrightarrow> lookup (left_union m n) = lookup n ++ lookup m"
    and extensional: "invar m \<Longrightarrow> invar n \<Longrightarrow> lookup m = lookup n \<Longrightarrow> m = n"
begin

lemmas invars = invar_empty invar_insert invar_erase invar_union
lemmas lookups = lookup_empty lookup_insert lookup_erase lookup_union

lemma insert_commute:
  assumes "invar m" "storable v" "storable w" "k \<noteq> j"
  shows "insert (insert m k v) j w = insert (insert m j w) k v"
  using assms by (intro extensional) (simp_all add: invars lookups fun_upd_twist)

lemma insert_overwrite:
  assumes "invar m" "storable v" "storable w"
  shows "insert (insert m k v) k w = insert m k w"
  using assms by (intro extensional) (simp_all add: invars lookups)

lemma insert_present:
  assumes "invar m" "storable v" "lookup m k = Some v"
  shows "insert m k v = m"
  using assms by (intro extensional) (simp_all add: invars lookups fun_upd_idem)

lemma erase_insert:
  assumes "invar m" "storable v" "lookup m k = None"
  shows "erase (insert m k v) k = m"
  using assms by (intro extensional) (simp_all add: invars lookups fun_upd_idem)

lemma erase_absent:
  assumes "invar m" "lookup m k = None"
  shows "erase m k = m"
  using assms by (intro extensional) (simp_all add: invars lookups fun_upd_idem)

lemma union_assoc:
  assumes "invar l" "invar m" "invar n"
  shows "left_union (left_union l m) n = left_union l (left_union m n)"
  using assms by (intro extensional) (simp_all add: invars lookups)

lemma union_idem:
  assumes "invar m"
  shows "left_union m m = m"
proof -
  have "lookup m ++ lookup m = lookup m" by (rule map_add_subsumed1) simp
  then show ?thesis using assms by (intro extensional) (simp_all add: invars lookups)
qed

text \<open>Building a map by repeated insertion.\<close>

definition insert_all :: "('k \<times> 'v) list \<Rightarrow> 'm \<Rightarrow> 'm" where
  "insert_all ps m = fold (\<lambda>(k, v) m. insert m k v) ps m"

lemma insert_all:
  assumes "invar m" "\<forall>p\<in>set ps. storable (snd p)"
  shows "invar (insert_all ps m) \<and> lookup (insert_all ps m) = lookup m ++ map_of (rev ps)"
  using assms
proof (induction ps arbitrary: m)
  case (Cons p ps)
  obtain k v where p: "p = (k, v)" by (cases p)
  have "invar (insert_all ps (insert m k v)) \<and>
      lookup (insert_all ps (insert m k v)) = lookup (insert m k v) ++ map_of (rev ps)"
    using Cons p by (intro Cons.IH) (auto simp: invars)
  then show ?case
    using Cons.prems by (simp add: p insert_all_def lookups map_of_append map_add_assoc [symmetric])
qed (simp add: insert_all_def)

lemma built_by_insertion:
  assumes "invar m" "lookup m = map_of ps" "\<forall>p\<in>set ps. storable (snd p)"
  shows "m = insert_all (rev ps) empty"
  using assms insert_all [OF invar_empty, of "rev ps"]
  by (intro extensional) (simp_all add: lookup_empty)

end

end
