(* ===== verification/UcmapContents.thy ===== *)
theory UcmapContents
  imports Ucmap MapSpec
begin

text \<open>
  What a constructive map holds: the invariant of the trees of \<^verbatim>\<open>cucon/ucmap.c\<close>, lookup as
  the abstraction to a finite map, insertion, erasure and the unions against it, and the
  fact that a well-formed tree is determined by its contents.
\<close>

section \<open>Invariants\<close>

text \<open>
  \<open>ucmap_ord\<close>: the keys of each branch lie in the block of the node, on their side of
  it, and a node without a value has a zero value field. \<open>ucmap_shrunk\<close>: a node without
  a value has both branches.
  A well-formed map has both.
\<close>

fun ucmap_ord :: "ucmap \<Rightarrow> bool" where
  "ucmap_ord Null = True"
| "ucmap_ord (Node k l r hv v) =
     (ucmap_ord l \<and> ucmap_ord r \<and> (\<not> hv \<longrightarrow> v = 0)
      \<and> (l \<noteq> Null \<longrightarrow> ucmap_key_covers k (node_key l) \<and> node_key l < k)
      \<and> (r \<noteq> Null \<longrightarrow> ucmap_key_covers k (node_key r) \<and> k < node_key r))"

fun ucmap_shrunk :: "ucmap \<Rightarrow> bool" where
  "ucmap_shrunk Null = True"
| "ucmap_shrunk (Node k l r hv v) =
     (ucmap_shrunk l \<and> ucmap_shrunk r \<and> (\<not> hv \<longrightarrow> l \<noteq> Null \<and> r \<noteq> Null))"

definition ucmap_wf :: "ucmap \<Rightarrow> bool" where
  "ucmap_wf M \<longleftrightarrow> ucmap_ord M \<and> ucmap_shrunk M"

text \<open>The entries of a map in the order of a left-to-right walk: its abstraction.\<close>

fun entries :: "ucmap \<Rightarrow> (u64 \<times> u64) list" where
  "entries Null = []"
| "entries (Node k l r hv v) = entries l @ (if hv then [(k, v)] else []) @ entries r"

lemma ucmap_new_lr [simp]: "ucmap_node_new_lr (Node k l r hv v) l' r' = Node k l' r' hv v"
  by simp

section \<open>Lookup and the abstraction\<close>

lemma find_inside:
  assumes "ucmap_ord M" "cucon_ucmap_find M j = Some w"
  shows "j = node_key M \<or> ucmap_key_covers (node_key M) j"
  using assms
proof (induction M)
  case (Node k l r hv v)
  have "ucmap_key_covers k j" if "cucon_ucmap_find l j = Some w"
    using that Node.IH(1) Node.prems(1) ucm.covers_trans [of k "node_key l" j] by (cases l) auto
  moreover have "ucmap_key_covers k j" if "cucon_ucmap_find r j = Some w"
    using that Node.IH(2) Node.prems(1) ucm.covers_trans [of k "node_key r" j] by (cases r) auto
  ultimately show ?case using Node.prems(2) by (auto split: if_splits)
qed simp

lemma find_left_inside:
  assumes "ucmap_ord (Node k l r hv v)" "cucon_ucmap_find l j = Some w"
  shows "ucmap_key_covers k j \<and> j < k"
  using assms find_inside [of l j w] ucm.cover_inside_less [of k "node_key l" j] by (cases l) auto

lemma find_right_inside:
  assumes "ucmap_ord (Node k l r hv v)" "cucon_ucmap_find r j = Some w"
  shows "ucmap_key_covers k j \<and> k < j"
  using assms find_inside [of r j w] ucm.cover_inside_greater [of k "node_key r" j] by (cases r) auto

lemma find_Node:
  assumes "ucmap_ord (Node k l r hv v)"
  shows "cucon_ucmap_find (Node k l r hv v) j =
    (if j = k then (if hv then Some v else None) else if j < k then cucon_ucmap_find l j else cucon_ucmap_find r j)"
  using find_left_inside [OF assms, of j] find_right_inside [OF assms, of j]
    ucmap_covers_imp_coverseq [of k j]
  by (cases "cucon_ucmap_find l j"; cases "cucon_ucmap_find r j") auto

declare cucon_ucmap_find.simps(2) [simp del]

lemma entries_iff_find:
  "ucmap_ord M \<Longrightarrow> (j, w) \<in> set (entries M) \<longleftrightarrow> cucon_ucmap_find M j = Some w"
proof (induction M)
  case (Node k l r hv v)
  then have "(j, w) \<in> set (entries l) \<longleftrightarrow> cucon_ucmap_find l j = Some w"
    "(j, w) \<in> set (entries r) \<longleftrightarrow> cucon_ucmap_find r j = Some w" by auto
  then show ?case
    using find_left_inside [OF Node.prems, of j w] find_right_inside [OF Node.prems, of j w]
    by (auto simp: find_Node [OF Node.prems])
qed simp

lemma entries_sorted: "ucmap_ord M \<Longrightarrow> sorted_wrt (<) (map fst (entries M))"
proof (induction M)
  case (Node k l r hv v)
  have l: "\<forall>p\<in>set (entries l). fst p < k" and r: "\<forall>p\<in>set (entries r). k < fst p"
    using Node.prems find_left_inside [OF Node.prems] find_right_inside [OF Node.prems]
    by (auto simp: entries_iff_find)
  then show ?case using Node by (fastforce simp: sorted_wrt_append)
qed simp

lemma find_map_of:
  assumes "ucmap_ord M"
  shows "cucon_ucmap_find M = map_of (entries M)"
proof
  fix j
  have "distinct (map fst (entries M))"
    using entries_sorted [OF assms] by (simp add: strict_sorted_iff)
  then show "cucon_ucmap_find M j = map_of (entries M) j"
    using entries_iff_find [OF assms, of j]
    by (metis map_of_SomeD map_of_eq_Some_iff not_None_eq)
qed

lemma contains_find: "cucon_ucmap_contains M j \<longleftrightarrow> cucon_ucmap_find M j \<noteq> None"
  by (induction M) (auto simp: cucon_ucmap_find.simps)

lemma find_ptr_find: "cucon_ucmap_find_ptr M j = (case cucon_ucmap_find M j of None \<Rightarrow> 0 | Some v \<Rightarrow> v)"
  by (induction M) (auto simp: cucon_ucmap_find.simps)

lemma find_int_find:
  "cucon_ucmap_find_int M j =
     (case cucon_ucmap_find M j of None \<Rightarrow> cucon_ucmap_int_none | Some v \<Rightarrow> ucast v)"
  by (induction M) (auto simp: cucon_ucmap_find.simps)

section \<open>Insertion\<close>

text \<open>The node that \<open>insert\<close> mistakes for one that already has the value.\<close>

fun valueless_at :: "ucmap \<Rightarrow> u64 \<Rightarrow> bool" where
  "valueless_at Null key = False"
| "valueless_at (Node k l r hv v) key =
     (if k = key then \<not> hv
      else if ucmap_key_covers k key then
        (if key < k then valueless_at l key else valueless_at r key)
      else False)"

lemma insert_Node:
  "cucon_ucmap_insert (Node k l r hv v) key val =
     (if k = key then Node k l r (hv \<or> v \<noteq> val) val
      else if ucmap_key_covers k key then
        (if key < k then Node k (cucon_ucmap_insert l key val) r hv v
         else Node k l (cucon_ucmap_insert r key val) hv v)
      else if ucmap_key_covers key k then
        (if k < key then Node key (Node k l r hv v) Null True val
         else Node key Null (Node k l r hv v) True val)
      else if key < k then Node (ucmap_key_join key k) (Node key Null Null True val) (Node k l r hv v) False 0
      else Node (ucmap_key_join key k) (Node k l r hv v) (Node key Null Null True val) False 0)"
  by (auto simp: ucmap_node_defs Let_def)

declare cucon_ucmap_insert.simps(2) [simp del]

lemma insert_not_Null [simp]: "cucon_ucmap_insert M key val \<noteq> Null"
  by (cases M) (auto simp: insert_Node ucmap_node_defs)

lemma node_key_insert:
  "node_key (cucon_ucmap_insert M key val) =
     (if M = Null then key
      else if node_key M = key \<or> ucmap_key_covers (node_key M) key then node_key M
      else if ucmap_key_covers key (node_key M) then key
      else ucmap_key_join key (node_key M))"
  by (cases M) (auto simp: insert_Node ucmap_node_defs)

lemma insert_inside_less:
  assumes "M \<noteq> Null \<Longrightarrow> ucmap_key_covers m (node_key M) \<and> node_key M < m"
    and "ucmap_key_covers m key" "key < m"
  shows "ucmap_key_covers m (node_key (cucon_ucmap_insert M key val))
       \<and> node_key (cucon_ucmap_insert M key val) < m"
  using assms ucm.join_inside_less [of m key "node_key M"] by (auto simp: node_key_insert)

lemma insert_inside_greater:
  assumes "M \<noteq> Null \<Longrightarrow> ucmap_key_covers m (node_key M) \<and> m < node_key M"
    and "ucmap_key_covers m key" "m < key"
  shows "ucmap_key_covers m (node_key (cucon_ucmap_insert M key val))
       \<and> m < node_key (cucon_ucmap_insert M key val)"
  using assms ucm.join_inside_greater [of m key "node_key M"] by (auto simp: node_key_insert)

lemma join_facts:
  assumes "a \<noteq> b" "\<not> ucmap_key_covers a b" "\<not> ucmap_key_covers b a"
  shows "ucmap_key_covers (ucmap_key_join a b) a" "ucmap_key_covers (ucmap_key_join a b) b"
    "a < b \<Longrightarrow> a < ucmap_key_join a b \<and> ucmap_key_join a b < b"
    "b < a \<Longrightarrow> b < ucmap_key_join a b \<and> ucmap_key_join a b < a"
  using ucm.join_left [OF assms] ucm.join_right [OF assms] ucm.join_between [OF assms]
  by (auto simp: min_def max_def split: if_splits)

lemma insert_ord: "ucmap_ord M \<Longrightarrow> ucmap_ord (cucon_ucmap_insert M key val)"
proof (induction M)
  case Null
  then show ?case by (simp add: ucmap_node_defs)
next
  case (Node k l r hv v)
  consider (eq) "k = key" | (down) "k \<noteq> key" "ucmap_key_covers k key"
    | (up) "k \<noteq> key" "\<not> ucmap_key_covers k key" "ucmap_key_covers key k"
    | (join) "k \<noteq> key" "\<not> ucmap_key_covers k key" "\<not> ucmap_key_covers key k" by blast
  then show ?case
  proof cases
    case down
    then show ?thesis
      using Node insert_inside_less [of l k key val] insert_inside_greater [of r k key val]
      by (auto simp: insert_Node)
  next
    case join
    then show ?thesis
      using Node.prems join_facts [of key k] by (auto simp: insert_Node)
  qed (use Node.prems in \<open>auto simp: insert_Node\<close>)
qed

lemma insert_shrunk: "ucmap_shrunk M \<Longrightarrow> ucmap_shrunk (cucon_ucmap_insert M key val)"
  by (induction M) (auto simp: insert_Node ucmap_node_defs)


text \<open>Lookup in the three ways a tree is placed under a new node.\<close>

definition on_left :: "u64 \<Rightarrow> ucmap \<Rightarrow> bool" where
  "on_left m M \<longleftrightarrow> (M \<noteq> Null \<longrightarrow> ucmap_key_covers m (node_key M) \<and> node_key M < m)"

definition on_right :: "u64 \<Rightarrow> ucmap \<Rightarrow> bool" where
  "on_right m M \<longleftrightarrow> (M \<noteq> Null \<longrightarrow> ucmap_key_covers m (node_key M) \<and> m < node_key M)"

lemma ord_Node: "ucmap_ord (Node k l r hv v) \<longleftrightarrow>
    ucmap_ord l \<and> ucmap_ord r \<and> on_left k l \<and> on_right k r \<and> (\<not> hv \<longrightarrow> v = 0)"
  by (auto simp: on_left_def on_right_def)

declare ucmap_ord.simps(2) [simp del]

lemma ord_leaf [simp]: "ucmap_ord (Node k Null Null True v)"
  by (simp add: ord_Node on_left_def on_right_def)

lemma find_leaf [simp]: "cucon_ucmap_find (Node k Null Null True v) = [k \<mapsto> v]"
  by (rule ext) (simp add: cucon_ucmap_find.simps)

lemma find_on_left: "ucmap_ord M \<Longrightarrow> on_left m M \<Longrightarrow> cucon_ucmap_find M j = Some w \<Longrightarrow> j < m"
  using find_inside [of M j w] ucm.cover_inside_less [of m "node_key M" j]
  by (cases "M = Null") (auto simp: on_left_def)

lemma find_on_right: "ucmap_ord M \<Longrightarrow> on_right m M \<Longrightarrow> cucon_ucmap_find M j = Some w \<Longrightarrow> m < j"
  using find_inside [of M j w] ucm.cover_inside_greater [of m "node_key M" j]
  by (cases "M = Null") (auto simp: on_right_def)

lemma find_wrap:
  assumes "ucmap_ord (Node m A B hv v)"
  shows "cucon_ucmap_find (Node m A B hv v) =
    ((cucon_ucmap_find A ++ cucon_ucmap_find B)(m := (if hv then Some v else None)))"
proof
  fix j
  have "j < m" if "cucon_ucmap_find A j = Some w" for w
    using that assms find_on_left [of A m j w] unfolding ord_Node by blast
  moreover have "m < j" if "cucon_ucmap_find B j = Some w" for w
    using that assms find_on_right [of B m j w] unfolding ord_Node by blast
  ultimately show "cucon_ucmap_find (Node m A B hv v) j =
    ((cucon_ucmap_find A ++ cucon_ucmap_find B)(m := (if hv then Some v else None))) j"
    unfolding find_Node [OF assms] map_add_def
    by (cases "cucon_ucmap_find A j"; cases "cucon_ucmap_find B j") fastforce+
qed

lemma find_outside:
  "ucmap_ord M \<Longrightarrow> j \<noteq> node_key M \<Longrightarrow> \<not> ucmap_key_covers (node_key M) j \<Longrightarrow> cucon_ucmap_find M j = None"
  using find_inside [of M j] by (cases "cucon_ucmap_find M j") auto

text \<open>How a key lies against the root of a tree.\<close>

lemma key_position_cases:
  obtains (eq) "k = key" | (left) "k \<noteq> key" "ucmap_key_covers k key" "key < k"
    | (right) "k \<noteq> key" "ucmap_key_covers k key" "\<not> key < k" "k < key"
    | (up) "k \<noteq> key" "\<not> ucmap_key_covers k key" "ucmap_key_covers key k"
    | (join) "k \<noteq> key" "\<not> ucmap_key_covers k key" "\<not> ucmap_key_covers key k"
  by (metis linorder_neqE)

lemma find_Null [simp]: "cucon_ucmap_find Null = Map.empty"
  by (rule ext) simp

lemma disjoint_trees:
  assumes "ucmap_ord A" "ucmap_ord B" "\<not> ucmap_key_covers (node_key A) (node_key B)"
    "\<not> ucmap_key_covers (node_key B) (node_key A)" "node_key A \<noteq> node_key B"
    "cucon_ucmap_find A j = Some w"
  shows "cucon_ucmap_find B j = None"
  using assms find_inside [of A j w] find_inside [of B j] ucm.covers_laminar [of "node_key A" j "node_key B"]
  by (cases "cucon_ucmap_find B j") auto

text \<open>Two trees whose keys do not cover each other, put under their join.\<close>

lemma branch_tree:
  assumes ord: "ucmap_ord A" "ucmap_ord B" and ne: "A \<noteq> Null" "B \<noteq> Null"
    and inc: "node_key A \<noteq> node_key B" "\<not> ucmap_key_covers (node_key A) (node_key B)"
      "\<not> ucmap_key_covers (node_key B) (node_key A)"
  defines "m \<equiv> ucmap_key_join (node_key A) (node_key B)"
  defines "T \<equiv> if node_key A < node_key B then Node m A B False 0 else Node m B A False 0"
  shows "ucmap_ord T" and "cucon_ucmap_find T = cucon_ucmap_find A ++ cucon_ucmap_find B"
proof -
  note jf = join_facts [OF inc, folded m_def]
  have oT: "ucmap_ord (Node m A B False 0)" if "node_key A < node_key B"
    using that ord jf by (simp add: ord_Node on_left_def on_right_def)
  have oT': "ucmap_ord (Node m B A False 0)" if "\<not> node_key A < node_key B"
    using that ord jf inc(1) by (auto simp: ord_Node on_left_def on_right_def)
  show "ucmap_ord T" using oT oT' by (simp add: T_def)
  have "\<not> ucmap_key_covers (node_key A) m" "m \<noteq> node_key A"
       "\<not> ucmap_key_covers (node_key B) m" "m \<noteq> node_key B"
    using jf inc ucm.covers_antisym by (metis less_irrefl linorder_neqE)+
  then have none: "cucon_ucmap_find A m = None" "cucon_ucmap_find B m = None"
    using find_outside ord by auto
  have disj: "cucon_ucmap_find B j = None" if "cucon_ucmap_find A j = Some w" for j w
    using disjoint_trees [OF ord inc(2,3,1) that] .
  show "cucon_ucmap_find T = cucon_ucmap_find A ++ cucon_ucmap_find B"
  proof (cases "node_key A < node_key B")
    case True
    then show ?thesis using none find_wrap [OF oT] by (auto simp: T_def fun_eq_iff map_add_def)
  next
    case False
    then show ?thesis
      using none disj find_wrap [OF oT'] by (fastforce simp: T_def fun_eq_iff map_add_def split: option.splits)
  qed
qed

lemma find_insert:
  assumes "ucmap_ord M"
  shows "cucon_ucmap_find (cucon_ucmap_insert M key val) =
    (cucon_ucmap_find M)(key := (if val = 0 \<and> valueless_at M key then None else Some val))"
  using assms
proof (induction M)
  case Null
  show ?case by (rule ext) (simp add: ucmap_node_defs cucon_ucmap_find.simps)
next
  case (Node k l r hv v)
  define M where "M = Node k l r hv v"
  have ordM: "ucmap_ord M" and keyM: "node_key M = k" and vl: "k \<noteq> key \<Longrightarrow> \<not> ucmap_key_covers k key \<Longrightarrow> \<not> valueless_at M key"
    using Node.prems by (auto simp: M_def)
  have ord': "ucmap_ord (cucon_ucmap_insert M key val)" using ordM by (rule insert_ord)
  note ins = insert_Node [of k l r hv v key val, folded M_def]
  have IH: "cucon_ucmap_find (cucon_ucmap_insert l key val) =
      (cucon_ucmap_find l)(key := (if val = 0 \<and> valueless_at l key then None else Some val))"
      "cucon_ucmap_find (cucon_ucmap_insert r key val) =
      (cucon_ucmap_find r)(key := (if val = 0 \<and> valueless_at r key then None else Some val))"
    using Node.IH Node.prems unfolding ord_Node by blast+
  have fM: "cucon_ucmap_find M =
      (cucon_ucmap_find l ++ cucon_ucmap_find r)(k := (if hv then Some v else None))"
    unfolding M_def using Node.prems by (rule find_wrap)
  have "cucon_ucmap_find (cucon_ucmap_insert M key val) =
      (cucon_ucmap_find M)(key := (if val = 0 \<and> valueless_at M key then None else Some val))"
  proof (cases rule: key_position_cases [of k key])
    case eq
    then have i: "cucon_ucmap_insert M key val = Node k l r (hv \<or> v \<noteq> val) val" by (simp add: ins)
    show ?thesis
      unfolding i find_wrap [OF ord' [unfolded i]] fM using eq Node.prems by (auto simp: M_def fun_eq_iff ord_Node)
  next
    case left
    then have i: "cucon_ucmap_insert M key val = Node k (cucon_ucmap_insert l key val) r hv v" by (simp add: ins)
    have "cucon_ucmap_find r key = None"
      using find_on_right [of r k key] Node.prems left(3) unfolding ord_Node
      by (cases "cucon_ucmap_find r key") auto
    then show ?thesis
      unfolding i find_wrap [OF ord' [unfolded i]] fM IH using left
      by (auto simp: M_def fun_eq_iff map_add_def split: option.splits)
  next
    case right
    then have i: "cucon_ucmap_insert M key val = Node k l (cucon_ucmap_insert r key val) hv v" by (simp add: ins)
    have "cucon_ucmap_find l key = None"
      using find_on_left [of l k key] Node.prems right(4) unfolding ord_Node
      by (cases "cucon_ucmap_find l key") auto
    then show ?thesis
      unfolding i find_wrap [OF ord' [unfolded i]] fM IH using right
      by (auto simp: M_def fun_eq_iff map_add_def split: option.splits)
  next
    case up
    have "cucon_ucmap_find (cucon_ucmap_insert M key val) = (cucon_ucmap_find M)(key \<mapsto> val)"
    proof (cases "k < key")
      case True
      with up have i: "cucon_ucmap_insert M key val = Node key M Null True val" by (simp add: ins)
      show ?thesis unfolding i find_wrap [OF ord' [unfolded i]] by simp
    next
      case False
      with up have i: "cucon_ucmap_insert M key val = Node key Null M True val" by (simp add: ins)
      show ?thesis unfolding i find_wrap [OF ord' [unfolded i]] by simp
    qed
    then show ?thesis using vl up by simp
  next
    case join
    have none: "cucon_ucmap_find M key = None"
      using join find_outside [OF ordM] keyM by metis
    let ?K = "Node key Null Null True val"
    have i: "cucon_ucmap_insert M key val =
       (if node_key ?K < node_key M then Node (ucmap_key_join (node_key ?K) (node_key M)) ?K M False 0
        else Node (ucmap_key_join (node_key ?K) (node_key M)) M ?K False 0)"
      using join keyM by (simp add: ins)
    have "cucon_ucmap_find (cucon_ucmap_insert M key val) = cucon_ucmap_find ?K ++ cucon_ucmap_find M"
      unfolding i by (rule branch_tree(2)) (use join ordM keyM in \<open>auto simp: M_def\<close>)
    also have "\<dots> = (cucon_ucmap_find M)(key \<mapsto> val)"
      using none by (auto simp: fun_eq_iff map_add_def split: option.splits)
    finally have "cucon_ucmap_find (cucon_ucmap_insert M key val) = (cucon_ucmap_find M)(key \<mapsto> val)" .
    then show ?thesis using vl join by simp
  qed
  then show ?case by (simp only: M_def)
qed


corollary find_insert_nonzero:
  "ucmap_ord M \<Longrightarrow> val \<noteq> 0 \<Longrightarrow>
     cucon_ucmap_find (cucon_ucmap_insert M key val) = (cucon_ucmap_find M)(key \<mapsto> val)"
  by (simp add: find_insert)

section \<open>Erasure\<close>

lemma on_left_child: "ucmap_ord (Node k l r hv v) \<Longrightarrow> on_left m (Node k l r hv v) \<Longrightarrow> on_left m l \<and> on_left m r"
  using ucm.cover_inside_less [of m k "node_key l"] ucm.cover_inside_less [of m k "node_key r"]
  by (auto simp: on_left_def ord_Node on_right_def)

lemma on_right_child: "ucmap_ord (Node k l r hv v) \<Longrightarrow> on_right m (Node k l r hv v) \<Longrightarrow> on_right m l \<and> on_right m r"
  using ucm.cover_inside_greater [of m k "node_key l"] ucm.cover_inside_greater [of m k "node_key r"]
  by (auto simp: on_right_def ord_Node on_left_def)

lemma erase_Node:
  "cucon_ucmap_erase (Node k l r hv v) key =
     (if k = key then
        (if \<not> hv then Node k l r hv v else if l = Null then r else if r = Null then l else Node k l r False 0)
      else if \<not> ucmap_key_covers k key then Node k l r hv v
      else if key < k then
        (if cucon_ucmap_erase l key = Null \<and> \<not> hv then r else Node k (cucon_ucmap_erase l key) r hv v)
      else
        (if cucon_ucmap_erase r key = Null \<and> \<not> hv then l else Node k l (cucon_ucmap_erase r key) hv v))"
  by (auto simp: ucmap_node_defs Let_def)

declare cucon_ucmap_erase.simps(2) [simp del]

lemma erase_on_left:
  assumes "ucmap_ord M" "on_left m M"
  shows "on_left m (cucon_ucmap_erase M key)"
proof (cases M)
  case (Node k l r hv v)
  then show ?thesis
    using assms on_left_child [of k l r hv v m] by (auto simp: erase_Node on_left_def)
qed (use assms in simp)

lemma erase_on_right:
  assumes "ucmap_ord M" "on_right m M"
  shows "on_right m (cucon_ucmap_erase M key)"
proof (cases M)
  case (Node k l r hv v)
  then show ?thesis
    using assms on_right_child [of k l r hv v m] by (auto simp: erase_Node on_right_def)
qed (use assms in simp)

lemma erase_ord: "ucmap_ord M \<Longrightarrow> ucmap_ord (cucon_ucmap_erase M key)"
proof (induction M)
  case (Node k l r hv v)
  then show ?case
    using erase_on_left [of l k key] erase_on_right [of r k key]
    by (auto simp: ord_Node erase_Node)
qed simp

lemma erase_shrunk: "ucmap_shrunk M \<Longrightarrow> ucmap_shrunk (cucon_ucmap_erase M key)"
  by (induction M) (auto simp: erase_Node)

lemma find_erase:
  "ucmap_ord M \<Longrightarrow> cucon_ucmap_find (cucon_ucmap_erase M key) = (cucon_ucmap_find M)(key := None)"
proof (induction M)
  case (Node k l r hv v)
  let ?M = "Node k l r hv v"
  have ordc: "ucmap_ord l" "ucmap_ord r" "on_left k l" "on_right k r"
    using Node.prems by (auto simp: ord_Node)
  have ord': "ucmap_ord (cucon_ucmap_erase ?M key)" using Node.prems by (rule erase_ord)
  have IH: "cucon_ucmap_find (cucon_ucmap_erase l key) = (cucon_ucmap_find l)(key := None)"
    "cucon_ucmap_find (cucon_ucmap_erase r key) = (cucon_ucmap_find r)(key := None)"
    using Node.IH ordc by blast+
  have kl: "cucon_ucmap_find l j = None" if "k \<le> j" for j
    using find_on_left [OF ordc(1,3), of j] that by (cases "cucon_ucmap_find l j") auto
  have kr: "cucon_ucmap_find r j = None" if "j \<le> k" for j
    using find_on_right [OF ordc(2,4), of j] that by (cases "cucon_ucmap_find r j") auto
  note fM = find_wrap [OF Node.prems]
  show ?case
  proof (cases "k = key \<or> \<not> ucmap_key_covers k key")
    case True
    show ?thesis
    proof (cases "k = key")
      case True
      then show ?thesis
        using kl [of k] kr [of k] find_wrap [of k l r False 0] Node.prems unfolding fM erase_Node
        by (auto simp: fM fun_eq_iff map_add_def ord_Node split: option.splits)
    next
      case False
      with \<open>k = key \<or> \<not> ucmap_key_covers k key\<close> show ?thesis
        using find_outside [OF Node.prems, of key] unfolding erase_Node by (auto simp: fun_eq_iff)
    qed
  next
    case False
    then have ne: "key \<noteq> k" "k \<noteq> key" by auto
    let ?l = "cucon_ucmap_erase l key" and ?r = "cucon_ucmap_erase r key"
    show ?thesis
    proof (cases "key < k")
      case True
      have "cucon_ucmap_find (Node k ?l r hv v) = (cucon_ucmap_find ?M)(key := None)"
        using find_wrap [of k ?l r hv v] erase_ord erase_on_left ordc Node.prems kr [of key] True ne
        unfolding fM IH by (auto simp: ord_Node fun_eq_iff map_add_def split: option.splits)
      moreover have "cucon_ucmap_find r = cucon_ucmap_find (Node k ?l r hv v)" if "?l = Null" "\<not> hv"
        using that find_wrap [of k Null r False v] ordc kr [of k] Node.prems by (auto simp: ord_Node on_left_def fun_eq_iff)
      ultimately show ?thesis using True False unfolding erase_Node by auto
    next
      case ge: False
      have "cucon_ucmap_find (Node k l ?r hv v) = (cucon_ucmap_find ?M)(key := None)"
        using find_wrap [of k l ?r hv v] erase_ord erase_on_right ordc Node.prems kl [of key] ge ne
        unfolding fM IH by (auto simp: ord_Node fun_eq_iff map_add_def split: option.splits)
      moreover have "cucon_ucmap_find l = cucon_ucmap_find (Node k l ?r hv v)" if "?r = Null" "\<not> hv"
        using that find_wrap [of k l Null False v] ordc kl [of k] Node.prems by (auto simp: ord_Node on_right_def fun_eq_iff)
      ultimately show ?thesis using ge False unfolding erase_Node by auto
    qed
  qed
qed (simp add: fun_eq_iff)

section \<open>The shape of a map is determined by its contents\<close>

lemma wf_Node: "ucmap_wf (Node k l r hv v) \<longleftrightarrow>
    ucmap_wf l \<and> ucmap_wf r \<and> on_left k l \<and> on_right k r \<and> (if hv then True else v = 0 \<and> l \<noteq> Null \<and> r \<noteq> Null)"
  by (auto simp: ucmap_wf_def ord_Node)

lemma wf_Null [simp]: "ucmap_wf Null"
  by (simp add: ucmap_wf_def)

lemma wf_ord: "ucmap_wf M \<Longrightarrow> ucmap_ord M"
  by (simp add: ucmap_wf_def)

lemma find_children:
  assumes "ucmap_ord (Node k l r hv v)"
  shows "cucon_ucmap_find l j = (if j < k then cucon_ucmap_find (Node k l r hv v) j else None)"
    and "cucon_ucmap_find r j = (if k < j then cucon_ucmap_find (Node k l r hv v) j else None)"
  using find_left_inside [OF assms, of j] find_right_inside [OF assms, of j]
  unfolding find_Node [OF assms]
  by (cases "cucon_ucmap_find l j"; cases "cucon_ucmap_find r j"; auto)+

lemma wf_inhabited: "ucmap_wf M \<Longrightarrow> M \<noteq> Null \<Longrightarrow> dom (cucon_ucmap_find M) \<noteq> {}"
proof (induction M)
  case (Node k l r hv v)
  note ord = wf_ord [OF Node.prems(1)]
  show ?case
  proof (cases hv)
    case True
    then show ?thesis using find_Node [OF ord, of k] by auto
  next
    case False
    then obtain j w where "cucon_ucmap_find l j = Some w" using Node by (fastforce simp: wf_Node)
    then have "cucon_ucmap_find (Node k l r hv v) j = Some w"
      using find_children(1) [OF ord, of j] by (simp split: if_splits)
    then show ?thesis by blast
  qed
qed simp

lemma wf_root:
  assumes "ucmap_wf M" "M \<noteq> Null"
  shows "ucm.root_of (node_key M) (dom (cucon_ucmap_find M))"
proof (cases M)
  case (Node k l r hv v)
  note ord = wf_ord [OF assms(1), unfolded Node]
  have "hv \<or> dom (cucon_ucmap_find l) \<noteq> {} \<and> dom (cucon_ucmap_find r) \<noteq> {}"
    using assms(1) wf_inhabited [of l] wf_inhabited [of r] by (auto simp: Node wf_Node)
  then have "k \<in> dom (cucon_ucmap_find M) \<or>
      (\<exists>a\<in>dom (cucon_ucmap_find M). a < k) \<and> (\<exists>b\<in>dom (cucon_ucmap_find M). k < b)"
    using find_children [OF ord] find_Node [OF ord, of k] unfolding Node dom_def
    by (auto split: if_splits)
  moreover have "\<forall>s\<in>dom (cucon_ucmap_find M). s = k \<or> ucmap_key_covers k s"
    using find_inside [OF ord] by (auto simp: Node dom_def)
  ultimately show ?thesis by (simp add: ucm.root_of_def Node)
qed (use assms in simp)

lemma canonical:
  "ucmap_wf A \<Longrightarrow> ucmap_wf B \<Longrightarrow> cucon_ucmap_find A = cucon_ucmap_find B \<Longrightarrow> A = B"
proof (induction A arbitrary: B)
  case Null
  then show ?case using wf_inhabited [of B] by auto
next
  case (Node k l r hv v)
  have "B \<noteq> Null" using wf_inhabited [OF Node.prems(1)] Node.prems(3) by auto
  then obtain k' l' r' hv' v' where B: "B = Node k' l' r' hv' v'" by (cases B) auto
  have "ucm.root_of k' (dom (cucon_ucmap_find (Node k l r hv v)))"
    using wf_root [OF Node.prems(2) \<open>B \<noteq> Null\<close>] unfolding Node.prems(3) by (simp add: B)
  then have k: "k = k'"
    using ucm.root_unique [OF wf_root [OF Node.prems(1)]] wf_inhabited [OF Node.prems(1)] by simp
  note ord = wf_ord [OF Node.prems(1)] wf_ord [OF Node.prems(2), unfolded B]
  note eq = Node.prems(3) [unfolded B k]
  have fl: "cucon_ucmap_find l = cucon_ucmap_find l'"
    unfolding fun_eq_iff find_children(1) [OF ord(1)] find_children(1) [OF ord(2)] k eq by simp
  have fr: "cucon_ucmap_find r = cucon_ucmap_find r'"
    unfolding fun_eq_iff find_children(2) [OF ord(1)] find_children(2) [OF ord(2)] k eq by simp
  have wfc: "ucmap_wf l" "ucmap_wf r" "ucmap_wf l'" "ucmap_wf r'"
    using Node.prems(1,2) by (auto simp: B wf_Node)
  have "l = l'" using wfc(1,3) fl by (rule Node.IH(1))
  moreover have "r = r'" using wfc(2,4) fr by (rule Node.IH(2))
  moreover have "(if hv then Some v else None) = (if hv' then Some v' else None)"
    using find_Node [OF ord(1), of k] find_Node [OF ord(2), of k] by (simp add: k eq)
  then have "hv = hv' \<and> v = v'"
    using Node.prems(1,2) by (auto simp: B wf_Node split: if_splits)
  ultimately show ?case using k B by simp
qed

lemma wf_insert: "ucmap_wf M \<Longrightarrow> ucmap_wf (cucon_ucmap_insert M key val)"
  by (simp add: ucmap_wf_def insert_ord insert_shrunk)

lemma wf_erase: "ucmap_wf M \<Longrightarrow> ucmap_wf (cucon_ucmap_erase M key)"
  by (simp add: ucmap_wf_def erase_ord erase_shrunk)

section \<open>Union\<close>

text \<open>
  Both unions place trees in the same way and differ only where the roots meet; the
  lemmas are proved for \<open>combined_union\<close> and \<open>left_union\<close> at once through the
  placement lemma of a subtree union.
\<close>

lemma union_left_null [simp]: "cucon_ucmap_left_union M Null = M"
  by (cases M) auto

lemma union_combined_null [simp]: "cucon_ucmap_combined_union f M Null = M"
  by (cases M) auto

text \<open>\<open>left_union\<close> is the combined union that keeps the value of the left map.\<close>

lemma left_union_combined:
  "ucmap_ord A \<Longrightarrow> ucmap_ord B \<Longrightarrow> cucon_ucmap_left_union A B = cucon_ucmap_combined_union (\<lambda>x y. x) A B"
proof (induction A B rule: cucon_ucmap_left_union.induct)
  case (3 k0 l0 r0 hv0 v0 k1 l1 r1 hv1 v1)
  then show ?case
    by (cases rule: key_position_cases [of k0 k1]) (simp_all add: ord_Node ucmap_node_defs Let_def)
qed auto

lemma union_Null [simp]: "cucon_ucmap_combined_union f A B = Null \<longleftrightarrow> A = Null \<and> B = Null"
  by (induction f A B rule: cucon_ucmap_combined_union.induct) (auto simp: Let_def ucmap_node_defs)

lemma node_key_union:
  assumes "A \<noteq> Null" "B \<noteq> Null"
  shows "node_key (cucon_ucmap_combined_union f A B) =
    (if node_key A = node_key B \<or> ucmap_key_covers (node_key A) (node_key B) then node_key A
     else if ucmap_key_covers (node_key B) (node_key A) then node_key B
     else ucmap_key_join (node_key A) (node_key B))"
  using assms by (cases A; cases B) (auto simp: Let_def ucmap_node_defs)

lemma union_on_left:
  "on_left m A \<Longrightarrow> on_left m B \<Longrightarrow> on_left m (cucon_ucmap_combined_union f A B)"
  using ucm.join_inside_less [of m "node_key A" "node_key B"]
  by (cases "A = Null"; cases "B = Null") (auto simp: on_left_def node_key_union)

lemma union_on_right:
  "on_right m A \<Longrightarrow> on_right m B \<Longrightarrow> on_right m (cucon_ucmap_combined_union f A B)"
  using ucm.join_inside_greater [of m "node_key A" "node_key B"]
  by (cases "A = Null"; cases "B = Null") (auto simp: on_right_def node_key_union)

lemma combined_union_ord:
  "ucmap_ord A \<Longrightarrow> ucmap_ord B \<Longrightarrow> ucmap_ord (cucon_ucmap_combined_union f A B)"
proof (induction f A B rule: cucon_ucmap_combined_union.induct)
  case (3 f k0 l0 r0 hv0 v0 k1 l1 r1 hv1 v1)
  let ?A = "Node k0 l0 r0 hv0 v0" and ?B = "Node k1 l1 r1 hv1 v1"
  show ?case
  proof (cases rule: key_position_cases [of k0 k1])
    case eq
    then show ?thesis
      using 3 union_on_left [of k0 l0 l1 f] union_on_right [of k0 r0 r1 f]
      by (simp add: ord_Node Let_def ucmap_node_defs)
  next
    case left
    then have "on_left k0 ?B" by (simp add: on_left_def)
    then show ?thesis
      using 3 left union_on_left [of k0 l0 ?B f] by (simp add: ord_Node Let_def)
  next
    case right
    then have "on_right k0 ?B" by (simp add: on_right_def)
    then show ?thesis
      using 3 right union_on_right [of k0 r0 ?B f] by (simp add: ord_Node Let_def)
  next
    case up
    then show ?thesis
      using 3 union_on_left [of k1 ?A l1 f] union_on_right [of k1 ?A r1 f]
      by (auto simp: ord_Node on_left_def on_right_def Let_def)
  next
    case join
    then show ?thesis
      using branch_tree(1) [of ?A ?B] 3(7,8) by (cases "k0 < k1") (simp_all add: ucmap_node_defs Let_def)
  qed
qed auto

lemma combined_union_shrunk:
  "ucmap_shrunk A \<Longrightarrow> ucmap_shrunk B \<Longrightarrow> ucmap_shrunk (cucon_ucmap_combined_union f A B)"
proof (induction f A B rule: cucon_ucmap_combined_union.induct)
  case (3 f k0 l0 r0 hv0 v0 k1 l1 r1 hv1 v1)
  then show ?case by (auto simp: ucmap_node_defs Let_def)
qed auto

text \<open>The contents of a combined union.\<close>

definition combine_maps :: "(u64 \<Rightarrow> u64 \<Rightarrow> u64) \<Rightarrow> (u64 \<rightharpoonup> u64) \<Rightarrow> (u64 \<rightharpoonup> u64) \<Rightarrow> u64 \<rightharpoonup> u64" where
  "combine_maps f a b k =
     (case a k of None \<Rightarrow> b k | Some x \<Rightarrow> (case b k of None \<Rightarrow> Some x | Some y \<Rightarrow> Some (f x y)))"

lemma combine_maps_empty [simp]:
  "combine_maps f Map.empty b = b" "combine_maps f a Map.empty = a"
  by (auto simp: fun_eq_iff combine_maps_def split: option.splits)

lemma combine_keep_left: "combine_maps (\<lambda>x y. x) a b = b ++ a"
  by (auto simp: fun_eq_iff combine_maps_def map_add_def split: option.splits)

lemma find_at_or_below:
  assumes "ucmap_ord M"
  shows "on_left m M \<Longrightarrow> m \<le> j \<Longrightarrow> cucon_ucmap_find M j = None"
    and "on_right m M \<Longrightarrow> j \<le> m \<Longrightarrow> cucon_ucmap_find M j = None"
  using find_on_left [OF assms, of m j] find_on_right [OF assms, of m j]
  by (cases "cucon_ucmap_find M j"; auto)+

lemma find_combined_union:
  "ucmap_ord A \<Longrightarrow> ucmap_ord B \<Longrightarrow> cucon_ucmap_find (cucon_ucmap_combined_union f A B) j =
     combine_maps f (cucon_ucmap_find A) (cucon_ucmap_find B) j"
proof (induction f A B rule: cucon_ucmap_combined_union.induct)
  case (3 f k0 l0 r0 hv0 v0 k1 l1 r1 hv1 v1)
  let ?A = "Node k0 l0 r0 hv0 v0" and ?B = "Node k1 l1 r1 hv1 v1"
  have ordU: "ucmap_ord (cucon_ucmap_combined_union f ?A ?B)"
    using 3 by (intro combined_union_ord)
  note fA = find_Node [OF 3(7)] and fB = find_Node [OF 3(8)] and oA = 3(7) [unfolded ord_Node] and oB = 3(8) [unfolded ord_Node]
  show ?case
  proof (cases rule: key_position_cases [of k0 k1])
    case eq
    then have u: "cucon_ucmap_combined_union f ?A ?B =
      Node k0 (cucon_ucmap_combined_union f l0 l1) (cucon_ucmap_combined_union f r0 r1)
        (hv0 \<or> hv1) (if hv0 \<and> hv1 then f v0 v1 else if hv0 then v0 else if hv1 then v1 else 0)"
      by (simp add: Let_def ucmap_node_defs)
    show ?thesis
      using 3 eq oA oB unfolding u find_Node [OF ordU [unfolded u]] combine_maps_def fA fB
      by (auto simp: combine_maps_def)
  next
    case left
    then have u: "cucon_ucmap_combined_union f ?A ?B = Node k0 (cucon_ucmap_combined_union f l0 ?B) r0 hv0 v0"
      by (simp add: Let_def)
    have "on_left k0 ?B" using left by (simp add: on_left_def)
    then have "k0 \<le> j \<Longrightarrow> cucon_ucmap_find ?B j = None" using 3(8) by (simp add: find_at_or_below)
    then show ?thesis
      using 3 left oA unfolding u find_Node [OF ordU [unfolded u]] combine_maps_def fA
      by (auto simp: combine_maps_def split: option.splits)
  next
    case right
    then have u: "cucon_ucmap_combined_union f ?A ?B = Node k0 l0 (cucon_ucmap_combined_union f r0 ?B) hv0 v0"
      by (simp add: Let_def)
    have "on_right k0 ?B" using right by (simp add: on_right_def)
    then have "j \<le> k0 \<Longrightarrow> cucon_ucmap_find ?B j = None" using 3(8) by (simp add: find_at_or_below)
    then show ?thesis
      using 3 right oA unfolding u find_Node [OF ordU [unfolded u]] combine_maps_def fA
      by (auto simp: combine_maps_def split: option.splits)
  next
    case up
    show ?thesis
    proof (cases "k0 < k1")
      case True
      with up have u: "cucon_ucmap_combined_union f ?A ?B = Node k1 (cucon_ucmap_combined_union f ?A l1) r1 hv1 v1"
        by (simp add: Let_def)
      have "on_left k1 ?A" using up True by (simp add: on_left_def)
      then have "k1 \<le> j \<Longrightarrow> cucon_ucmap_find ?A j = None" using 3(7) by (simp add: find_at_or_below)
      then show ?thesis
        using 3 up True oB unfolding u find_Node [OF ordU [unfolded u]] combine_maps_def fB
        by (auto simp: combine_maps_def split: option.splits)
    next
      case False
      with up have u: "cucon_ucmap_combined_union f ?A ?B = Node k1 l1 (cucon_ucmap_combined_union f ?A r1) hv1 v1"
        by (simp add: Let_def)
      have "on_right k1 ?A" using up False by (simp add: on_right_def)
      then have "j \<le> k1 \<Longrightarrow> cucon_ucmap_find ?A j = None" using 3(7) by (simp add: find_at_or_below)
      then show ?thesis
        using 3 up False oB unfolding u find_Node [OF ordU [unfolded u]] combine_maps_def fB
        by (auto simp: combine_maps_def split: option.splits)
    qed
  next
    case join
    have "cucon_ucmap_find ?B j = None" if "cucon_ucmap_find ?A j = Some w" for w
      using disjoint_trees [of ?A ?B j w] 3(7,8) join that by simp
    then show ?thesis
      using branch_tree(2) [OF 3(7,8)] join
      by (auto simp: ucmap_node_defs Let_def combine_maps_def map_add_def split: option.splits)
  qed
qed auto

lemma left_union_ord: "ucmap_ord A \<Longrightarrow> ucmap_ord B \<Longrightarrow> ucmap_ord (cucon_ucmap_left_union A B)"
  by (simp add: left_union_combined combined_union_ord)

lemma find_left_union: "ucmap_ord A \<Longrightarrow> ucmap_ord B \<Longrightarrow>
    cucon_ucmap_find (cucon_ucmap_left_union A B) = cucon_ucmap_find B ++ cucon_ucmap_find A"
  by (simp add: fun_eq_iff left_union_combined find_combined_union flip: combine_keep_left)

lemma wf_combined_union: "ucmap_wf A \<Longrightarrow> ucmap_wf B \<Longrightarrow> ucmap_wf (cucon_ucmap_combined_union f A B)"
  by (simp add: ucmap_wf_def combined_union_ord combined_union_shrunk)

lemma wf_left_union: "ucmap_wf A \<Longrightarrow> ucmap_wf B \<Longrightarrow> ucmap_wf (cucon_ucmap_left_union A B)"
  by (simp add: left_union_combined wf_ord wf_combined_union)

section \<open>The maps implement the interface\<close>

text \<open>
  The value zero is left out: \<open>cucon_ucmap_insert\<close> drops it when the key is that of a
  branch node without a value (\<open>find_insert\<close>).
\<close>

interpretation ucmap_map: constructive_map ucmap_wf cucon_ucmap_find "\<lambda>v. v \<noteq> 0"
    cucon_ucmap_empty cucon_ucmap_insert cucon_ucmap_erase cucon_ucmap_left_union
  by unfold_locales
    (simp_all add: cucon_ucmap_empty_def wf_insert wf_erase wf_left_union wf_ord find_insert
      find_erase find_left_union canonical)

section \<open>Properties\<close>

text \<open>C1: \<open>cucon_ucmap_insert\<close> keeps the tree well-formed and maps the key to the value, leaving
  every other key alone, except that the value zero is dropped when the tree has a branch node
  without a value at that very key.\<close>

theorem ucmap_insert_correct:
  assumes "ucmap_wf M"
  shows "ucmap_wf (cucon_ucmap_insert M key val)
    \<and> cucon_ucmap_find (cucon_ucmap_insert M key val) =
        (cucon_ucmap_find M)(key := (if val = 0 \<and> valueless_at M key then None else Some val))"
  using assms by (simp add: wf_insert find_insert wf_ord)

theorem ucmap_insert_correct_witness:
  "cucon_ucmap_find (cucon_ucmap_insert (cucon_ucmap_insert (cucon_ucmap_insert Null 9 1) 13 2) 5 7) 13 = Some 2"
proof -
  have "ucmap_wf (cucon_ucmap_insert (cucon_ucmap_insert Null 9 1) 13 2)" by code_simp
  from ucmap_insert_correct [OF this, of 5 7] have
    "cucon_ucmap_find (cucon_ucmap_insert (cucon_ucmap_insert (cucon_ucmap_insert Null 9 1) 13 2) 5 7) 13 =
       cucon_ucmap_find (cucon_ucmap_insert (cucon_ucmap_insert Null 9 1) 13 2) 13" by simp
  also have "\<dots> = Some 2" by code_simp
  finally show ?thesis .
qed

text \<open>the lost zero happens: with the keys 9 and 13 present, inserting the value 0 at the key
  12 of their branch node leaves the key 12 unmapped.\<close>

theorem ucmap_insert_loses_zero:
  "cucon_ucmap_find
     (cucon_ucmap_insert (cucon_ucmap_insert (cucon_ucmap_insert cucon_ucmap_empty 9 1) 13 1) 12 0) 12 = None"
  by code_simp

text \<open>C4: \<open>cucon_ucmap_erase\<close> keeps the tree well-formed and removes exactly the given key.\<close>

theorem ucmap_erase_correct:
  assumes "ucmap_wf M"
  shows "ucmap_wf (cucon_ucmap_erase M key)
    \<and> cucon_ucmap_find (cucon_ucmap_erase M key) = (cucon_ucmap_find M)(key := None)"
  using assms by (simp add: wf_erase find_erase wf_ord)

theorem ucmap_erase_correct_witness:
  "cucon_ucmap_find (cucon_ucmap_erase (cucon_ucmap_insert (cucon_ucmap_insert Null 9 1) 13 2) 9) 9 = None"
proof -
  have "ucmap_wf (cucon_ucmap_insert (cucon_ucmap_insert Null 9 1) 13 2)" by code_simp
  from ucmap_erase_correct [OF this, of 9] show ?thesis by simp
qed

text \<open>inserting a nonzero value at an unmapped key and erasing the key again gives back the
  same map, the same object under hash-consing.\<close>

theorem ucmap_erase_undoes_insert:
  assumes "ucmap_wf M" "val \<noteq> 0" "cucon_ucmap_find M key = None"
  shows "cucon_ucmap_erase (cucon_ucmap_insert M key val) key = M"
  using assms by (rule ucmap_map.erase_insert)

theorem ucmap_erase_undoes_insert_witness:
  "cucon_ucmap_erase (cucon_ucmap_insert (cucon_ucmap_insert Null 9 1) 13 2) 13 = cucon_ucmap_insert Null 9 1"
proof -
  have "ucmap_wf (cucon_ucmap_insert Null 9 1)" "cucon_ucmap_find (cucon_ucmap_insert Null 9 1) 13 = None"
    by code_simp+
  then show ?thesis using ucmap_erase_undoes_insert [of _ 2 13] by simp
qed

text \<open>\<open>cucon_ucmap_left_union\<close> keeps the trees well-formed and agrees with its first argument
  where that is defined and with the second elsewhere.\<close>

theorem ucmap_left_union_correct:
  assumes "ucmap_wf A" "ucmap_wf B"
  shows "ucmap_wf (cucon_ucmap_left_union A B)
    \<and> cucon_ucmap_find (cucon_ucmap_left_union A B) = cucon_ucmap_find B ++ cucon_ucmap_find A"
  using assms by (simp add: wf_left_union find_left_union wf_ord)

theorem ucmap_left_union_correct_witness:
  "cucon_ucmap_find (cucon_ucmap_left_union (cucon_ucmap_insert Null 9 1)
      (cucon_ucmap_insert (cucon_ucmap_insert Null 9 5) 13 2)) 9 = Some 1"
proof -
  have "ucmap_wf (cucon_ucmap_insert Null 9 1)" "ucmap_wf (cucon_ucmap_insert (cucon_ucmap_insert Null 9 5) 13 2)"
    "cucon_ucmap_find (cucon_ucmap_insert Null 9 1) 9 = Some 1"
    by code_simp+
  then show ?thesis using ucmap_left_union_correct by simp
qed

text \<open>C21: \<open>cucon_ucmap_combined_union\<close> keeps the trees well-formed, unites the keys, and combines
  with the callback exactly where both maps are defined, the first map's value first.\<close>

theorem ucmap_combined_union_correct:
  assumes "ucmap_wf A" "ucmap_wf B"
  shows "ucmap_wf (cucon_ucmap_combined_union f A B)
    \<and> cucon_ucmap_find (cucon_ucmap_combined_union f A B) j =
       (case cucon_ucmap_find A j of
          None \<Rightarrow> cucon_ucmap_find B j
        | Some x \<Rightarrow> (case cucon_ucmap_find B j of None \<Rightarrow> Some x | Some y \<Rightarrow> Some (f x y)))"
  using assms by (simp add: wf_combined_union find_combined_union wf_ord combine_maps_def)

theorem ucmap_combined_union_correct_witness:
  "cucon_ucmap_find (cucon_ucmap_combined_union (-) (cucon_ucmap_insert Null 9 7)
      (cucon_ucmap_insert (cucon_ucmap_insert Null 9 5) 13 2)) 9 = Some 2"
proof -
  have "ucmap_wf (cucon_ucmap_insert Null 9 7)" "ucmap_wf (cucon_ucmap_insert (cucon_ucmap_insert Null 9 5) 13 2)"
    "cucon_ucmap_find (cucon_ucmap_insert Null 9 7) 9 = Some 7"
    "cucon_ucmap_find (cucon_ucmap_insert (cucon_ucmap_insert Null 9 5) 13 2) 9 = Some 5"
    by code_simp+
  then show ?thesis using ucmap_combined_union_correct [of _ _ "(-)" 9] by simp
qed

text \<open>the three other lookup functions agree with \<open>cucon_ucmap_find\<close>: membership, the pointer
  or null, and the truncated integer or \<open>INT_MIN\<close>.\<close>

theorem ucmap_lookups_agree:
  "(cucon_ucmap_contains M j \<longleftrightarrow> cucon_ucmap_find M j \<noteq> None)
   \<and> cucon_ucmap_find_ptr M j = (case cucon_ucmap_find M j of None \<Rightarrow> 0 | Some v \<Rightarrow> v)
   \<and> cucon_ucmap_find_int M j = (case cucon_ucmap_find M j of None \<Rightarrow> 0x80000000 | Some v \<Rightarrow> ucast v)"
  using contains_find [of M j] find_ptr_find [of M j] find_int_find [of M j, unfolded cucon_ucmap_int_none_def]
  by simp

end
