(* ===== verification/UcmapIter.thy ===== *)
theory UcmapIter
  imports UcmapContents
begin

text \<open>
  Walking a constructive map: iteration, conjunction and counting visit the entries in
  increasing key order; the clipped versions visit those of an interval; the extremal keys
  and the clip operation of \<^verbatim>\<open>cucon/ucmap.c\<close>.
\<close>

section \<open>Iteration\<close>

text \<open>What iterating promises: the callback on each pair in turn, until it returns false.\<close>

fun visit :: "'s ucmap_callback \<Rightarrow> (u64 \<times> u64) list \<Rightarrow> 's \<Rightarrow> bool \<times> 's" where
  "visit f [] s = (True, s)"
| "visit f ((k, v) # ps) s = (case f k v s of (False, s) \<Rightarrow> (False, s) | (True, s) \<Rightarrow> visit f ps s)"

lemma and_then_simps [simp]:
  "p s = (True, s') \<Longrightarrow> and_then p q s = q s'" "p s = (False, s') \<Longrightarrow> and_then p q s = (False, s')"
  by (simp_all add: and_then_def)

lemma and_then_assoc: "and_then (and_then p q) r = and_then p (and_then q r)"
  by (auto simp: fun_eq_iff and_then_def split: prod.splits bool.splits)

lemma and_then_return [simp]: "and_then (\<lambda>s. (True, s)) q = q" "and_then p (\<lambda>s. (True, s)) = p"
  by (auto simp: fun_eq_iff and_then_def split: prod.splits bool.splits)

lemma visit_Nil [simp]: "visit f [] = (\<lambda>s. (True, s))"
  by (simp add: fun_eq_iff)

lemma visit_append: "visit f (ps @ qs) = and_then (visit f ps) (visit f qs)"
proof
  show "visit f (ps @ qs) s = and_then (visit f ps) (visit f qs) s" for s
    by (induction f ps s rule: visit.induct) (auto simp: and_then_def split: prod.splits bool.splits)
qed

lemma visit_call: "visit f (if hv then [(k, v)] else []) = call_value f k hv v"
  by (auto simp: fun_eq_iff call_value_def split: prod.splits bool.splits)

lemmas visit_Node = visit_append visit_call

lemma iterA_step:
  "cucon_ucmap_iterA f (Node k l r hv v) =
     and_then (cucon_ucmap_iterA f l) (and_then (call_value f k hv v) (cucon_ucmap_iterA f r))"
  by (auto simp: fun_eq_iff and_then_def call_value_def split: prod.splits bool.splits)

lemma iterA_visit: "cucon_ucmap_iterA f M = visit f (entries M)"
proof (induction M)
  case (Node k l r hv v)
  then show ?case by (simp add: iterA_step visit_Node)
qed (simp add: fun_eq_iff)

lemma conj_ptr_visit: "cucon_ucmap_conj_ptr M f = visit f (entries M)"
proof -
  have "cucon_ucmap_conj_ptr M f s = cucon_ucmap_iterA f M s" for s
    by (induction M arbitrary: s) (auto split: prod.splits bool.splits)
  then show ?thesis by (simp add: fun_eq_iff iterA_visit)
qed

lemma conj_int_visit: "cucon_ucmap_conj_int M f = visit (\<lambda>k v. f k (ucast v)) (entries M)"
proof -
  have "cucon_ucmap_conj_int M f s = cucon_ucmap_iterA (\<lambda>k v. f k (ucast v)) M s" for s
    by (induction M arbitrary: s) (auto split: prod.splits bool.splits)
  then show ?thesis by (simp add: fun_eq_iff iterA_visit)
qed

lemma iter_ptr_fold: "cucon_ucmap_iter_ptr M f s = fold (\<lambda>(k, v). f k v) (entries M) s"
  by (induction M arbitrary: s) (auto simp: Let_def)

lemma iter_int_fold: "cucon_ucmap_iter_int M f s = fold (\<lambda>(k, v). f k (ucast v)) (entries M) s"
  by (induction M arbitrary: s) (auto simp: Let_def)

text \<open>Clipping the entries of a node, by where its key lies.\<close>

lemma entries_sides:
  assumes "ucmap_ord (Node k l r hv v)"
  shows "p \<in> set (entries l) \<Longrightarrow> fst p < k" and "p \<in> set (entries r) \<Longrightarrow> k < fst p"
  using assms find_left_inside [OF assms, of "fst p" "snd p"] find_right_inside [OF assms, of "fst p" "snd p"]
  by (simp_all add: ord_Node flip: entries_iff_find)

lemma entries_above:
  assumes "ucmap_ord (Node k l r hv v)"
  shows "k < a \<Longrightarrow> filter (\<lambda>p. a \<le> fst p) (entries l) = []"
    and "a \<le> k \<Longrightarrow> filter (\<lambda>p. a \<le> fst p) (entries r) = entries r"
  using entries_sides [OF assms] by (fastforce simp: filter_empty_conv filter_id_conv)+

lemma entries_below:
  assumes "ucmap_ord (Node k l r hv v)"
  shows "b < k \<Longrightarrow> filter (\<lambda>p. fst p \<le> b) (entries r) = []"
    and "k \<le> b \<Longrightarrow> filter (\<lambda>p. fst p \<le> b) (entries l) = entries l"
  using entries_sides [OF assms] by (fastforce simp: filter_empty_conv filter_id_conv)+

lemma entries_between:
  assumes "ucmap_ord (Node k l r hv v)"
  shows "k < a \<Longrightarrow> filter (\<lambda>p. a \<le> fst p \<and> fst p \<le> b) (entries l) = []"
    and "b < k \<Longrightarrow> filter (\<lambda>p. a \<le> fst p \<and> fst p \<le> b) (entries r) = []"
    and "k \<le> b \<Longrightarrow> filter (\<lambda>p. a \<le> fst p \<and> fst p \<le> b) (entries l) = filter (\<lambda>p. a \<le> fst p) (entries l)"
    and "a \<le> k \<Longrightarrow> filter (\<lambda>p. a \<le> fst p \<and> fst p \<le> b) (entries r) = filter (\<lambda>p. fst p \<le> b) (entries r)"
  using entries_sides [OF assms] by (fastforce simp: filter_empty_conv intro!: filter_cong)+

lemma iterA_above_visit:
  "ucmap_ord M \<Longrightarrow> ucmap_iterA_above f M a = visit f (filter (\<lambda>p. a \<le> fst p) (entries M))"
proof (induction M)
  case (Node k l r hv v)
  then have IH: "ucmap_iterA_above f l a = visit f (filter (\<lambda>p. a \<le> fst p) (entries l))"
    "ucmap_iterA_above f r a = visit f (filter (\<lambda>p. a \<le> fst p) (entries r))" by (simp_all add: ord_Node)
  show ?case
    using entries_above [OF Node.prems, of a]
    by (cases "k < a") (auto simp: fun_eq_iff IH iterA_visit visit_Node simp flip: visit_call)
qed (simp add: fun_eq_iff)

lemma iterA_below_visit:
  "ucmap_ord M \<Longrightarrow> ucmap_iterA_below f M b = visit f (filter (\<lambda>p. fst p \<le> b) (entries M))"
proof (induction M)
  case (Node k l r hv v)
  then have IH: "ucmap_iterA_below f l b = visit f (filter (\<lambda>p. fst p \<le> b) (entries l))"
    "ucmap_iterA_below f r b = visit f (filter (\<lambda>p. fst p \<le> b) (entries r))" by (simp_all add: ord_Node)
  show ?case
    using entries_below [OF Node.prems, of b]
    by (cases "b < k") (auto simp: fun_eq_iff IH iterA_visit visit_Node simp flip: visit_call)
qed (simp add: fun_eq_iff)

lemma iterA_between_visit:
  "ucmap_ord M \<Longrightarrow> a \<le> b \<Longrightarrow>
     ucmap_iterA_between f M a b = visit f (filter (\<lambda>p. a \<le> fst p \<and> fst p \<le> b) (entries M))"
proof (induction M)
  case (Node k l r hv v)
  then have ord: "ucmap_ord l" "ucmap_ord r" by (simp_all add: ord_Node)
  note IH = Node.IH [OF _ Node.prems(2)]
  consider "k < a" | "b < k" "a \<le> k" | "a \<le> k" "k \<le> b" by fastforce
  then show ?case
    by cases (use Node.prems(2) in \<open>auto simp: fun_eq_iff IH ord iterA_above_visit iterA_below_visit visit_Node
        entries_between [OF Node.prems(1)] simp flip: visit_call\<close>)
qed (simp add: fun_eq_iff)

text \<open>The keys of a clip interval; bounds in the wrong order denote the wrapped interval.\<close>

definition clip_range :: "u64 \<Rightarrow> u64 \<Rightarrow> u64 \<Rightarrow> bool" where
  "clip_range a b k \<longleftrightarrow> (if a \<le> b then a \<le> k \<and> k \<le> b else k \<le> b \<or> a \<le> k)"

lemma iterA_clipped_visit:
  assumes "ucmap_ord M"
  shows "cucon_ucmap_iterA_clipped f M a b = visit f (filter (\<lambda>p. clip_range a b (fst p)) (entries M))"
proof (cases "a \<le> b")
  case True
  then show ?thesis
    by (simp add: cucon_ucmap_iterA_clipped_def clip_range_def iterA_between_visit assms)
next
  case False
  have "filter (\<lambda>p. fst p \<le> b) ps @ filter (\<lambda>p. a \<le> fst p) ps = filter (\<lambda>p. fst p \<le> b \<or> a \<le> fst p) ps"
    if "sorted_wrt (<) (map fst ps)" for ps :: "(u64 \<times> u64) list"
    using that
  proof (induction ps)
    case (Cons p ps)
    then have "filter (\<lambda>p. fst p \<le> b) ps = []" if "\<not> fst p \<le> b"
      using that by (fastforce simp: filter_empty_conv)
    with Cons False show ?case by auto
  qed simp
  from this [OF entries_sorted [OF assms]] show ?thesis
    using False assms
    by (simp add: cucon_ucmap_iterA_clipped_def clip_range_def iterA_above_visit iterA_below_visit
        flip: visit_append)
qed

section \<open>Cardinality\<close>

lemma card_loop_entries: "ucmap_card_loop M c = c + of_nat (length (entries M))"
  by (induction M arbitrary: c) (auto simp: Let_def)

lemma length_entries:
  assumes "ucmap_ord M"
  shows "length (entries M) = card (dom (cucon_ucmap_find M))"
proof -
  have "distinct (map fst (entries M))"
    using entries_sorted [OF assms] by (simp add: strict_sorted_iff)
  then have "length (entries M) = card (fst ` set (entries M))"
    by (metis distinct_card length_map list.set_map)
  then show ?thesis by (simp add: find_map_of [OF assms] dom_map_of_conv_image_fst)
qed

lemma length_filter_keys:
  assumes "distinct (map fst ps)"
  shows "length (filter (\<lambda>p. P (fst p)) ps) = card {k \<in> fst ` set ps. P k}"
proof -
  let ?qs = "filter (\<lambda>p. P (fst p)) ps"
  have "distinct (map fst ?qs)" using assms by (rule distinct_map_filter)
  then have "length ?qs = card (set (map fst ?qs))" by (metis distinct_card length_map)
  also have "set (map fst ?qs) = {k \<in> fst ` set ps. P k}" by auto
  finally show ?thesis .
qed

lemma clipped_card_loop_entries:
  assumes "ucmap_ord M" "a \<le> b"
  shows "ucmap_clipped_card_loop a b M c =
     c + of_nat (length (filter (\<lambda>p. a \<le> fst p \<and> fst p \<le> b) (entries M)))"
  using assms
proof (induction M arbitrary: c)
  case (Node k l r hv v)
  then have ord: "ucmap_ord l" "ucmap_ord r" by (simp_all add: ord_Node)
  note IH = Node.IH [OF _ Node.prems(2)]
  consider "k < a" | "b < k" "a \<le> k" | "a \<le> k" "k \<le> b" by fastforce
  then show ?case
    by cases (use Node.prems(2) in \<open>auto simp: IH ord Let_def entries_between(1,2) [OF Node.prems(1)]\<close>)
qed simp

lemma clipped_card_entries:
  assumes "ucmap_ord M"
  shows "cucon_ucmap_clipped_card M a b = of_nat (length (filter (\<lambda>p. clip_range a b (fst p)) (entries M)))"
proof (cases "a \<le> b")
  case True
  then show ?thesis
    by (simp add: cucon_ucmap_clipped_card_def clip_range_def clipped_card_loop_entries assms)
next
  case False
  have "length (filter (\<lambda>p. a \<le> fst p) ps) + length (filter (\<lambda>p. fst p \<le> b) ps)
      = length (filter (\<lambda>p. fst p \<le> b \<or> a \<le> fst p) ps)" for ps :: "(u64 \<times> u64) list"
    using False by (induction ps) auto
  then show ?thesis
    using False assms
    by (simp add: cucon_ucmap_clipped_card_def clip_range_def clipped_card_loop_entries flip: of_nat_add)
qed

section \<open>Extremal keys\<close>

lemma min_loop_entries:
  "ucmap_shrunk M \<Longrightarrow> ucmap_min_loop M mn = (case entries M of [] \<Rightarrow> mn | p # _ \<Rightarrow> fst p)"
proof (induction M arbitrary: mn)
  case (Node k l r hv v)
  then have l: "ucmap_min_loop l k = (case entries l of [] \<Rightarrow> k | p # _ \<Rightarrow> fst p)" by simp
  have "entries l = [] \<Longrightarrow> l = Null" if "ucmap_shrunk l" for l
    using that by (induction l) auto
  then show ?case using l Node.prems by (cases "entries l") auto
qed simp

lemma max_loop_entries:
  "ucmap_shrunk M \<Longrightarrow> ucmap_max_loop M mx = (if entries M = [] then mx else fst (last (entries M)))"
proof (induction M arbitrary: mx)
  case (Node k l r hv v)
  then have r: "ucmap_max_loop r k = (if entries r = [] then k else fst (last (entries r)))" by simp
  have "entries r = [] \<Longrightarrow> r = Null" if "ucmap_shrunk r" for r
    using that by (induction r) auto
  then show ?case using r Node.prems by auto
qed simp

lemma entries_Nil: "ucmap_ord M \<Longrightarrow> entries M = [] \<longleftrightarrow> dom (cucon_ucmap_find M) = {}"
  by (simp add: find_map_of dom_map_of_conv_image_fst)

lemma wf_dom_finite: "ucmap_ord M \<Longrightarrow> finite (dom (cucon_ucmap_find M))"
  by (simp add: find_map_of finite_dom_map_of)

lemma min_ukey_Min:
  assumes "ucmap_wf M" "M \<noteq> Null"
  shows "cucon_ucmap_min_ukey M = Min (dom (cucon_ucmap_find M))"
proof -
  note ord = wf_ord [OF assms(1)]
  obtain p ps where ps: "entries M = p # ps"
    using wf_inhabited [OF assms] entries_Nil [OF ord] by (cases "entries M") auto
  then have "dom (cucon_ucmap_find M) = insert (fst p) (fst ` set ps)"
    by (simp add: find_map_of [OF ord] dom_map_of_conv_image_fst)
  moreover have "\<forall>q\<in>set ps. fst p \<le> fst q" using entries_sorted [OF ord] ps by auto
  ultimately have "Min (dom (cucon_ucmap_find M)) = fst p" by (auto intro!: Min_eqI)
  then show ?thesis
    using assms(1) ps by (simp add: cucon_ucmap_min_ukey_def ucmap_wf_def min_loop_entries)
qed

lemma max_ukey_Max:
  assumes "ucmap_wf M" "M \<noteq> Null"
  shows "cucon_ucmap_max_ukey M = Max (dom (cucon_ucmap_find M))"
proof -
  note ord = wf_ord [OF assms(1)]
  obtain p ps where ps: "entries M = ps @ [p]"
    using wf_inhabited [OF assms] entries_Nil [OF ord] by (cases "entries M" rule: rev_cases) auto
  then have "dom (cucon_ucmap_find M) = insert (fst p) (fst ` set ps)"
    by (simp add: find_map_of [OF ord] dom_map_of_conv_image_fst)
  moreover have "\<forall>q\<in>set ps. fst q \<le> fst p"
    using entries_sorted [OF ord] ps by (auto simp: sorted_wrt_append)
  ultimately have "Max (dom (cucon_ucmap_find M)) = fst p" by (auto intro!: Max_eqI)
  then show ?thesis
    using assms(1) ps by (simp add: cucon_ucmap_max_ukey_def ucmap_wf_def max_loop_entries)
qed

section \<open>Clipping\<close>

lemma on_side_simps [simp]:
  "on_left m Null" "on_right m Null"
  "on_left m (Node k l r hv v) \<longleftrightarrow> ucmap_key_covers m k \<and> k < m"
  "on_right m (Node k l r hv v) \<longleftrightarrow> ucmap_key_covers m k \<and> m < k"
  by (simp_all add: on_left_def on_right_def)

lemma uclip_upper_on:
  "ucmap_ord M \<Longrightarrow> on_left m M \<Longrightarrow> on_left m (ucmap_uclip_upper M a)"
  "ucmap_ord M \<Longrightarrow> on_right m M \<Longrightarrow> on_right m (ucmap_uclip_upper M a)"
proof (induction M)
  case (Node k l r hv v)
  {
    case 1
    then show ?case using Node on_left_child [OF 1] by (auto simp: ord_Node)
  next
    case 2
    then show ?case using Node on_right_child [OF 2] by (auto simp: ord_Node)
  }
qed simp_all

lemma uclip_lower_on:
  "ucmap_ord M \<Longrightarrow> on_left m M \<Longrightarrow> on_left m (ucmap_uclip_lower M b)"
  "ucmap_ord M \<Longrightarrow> on_right m M \<Longrightarrow> on_right m (ucmap_uclip_lower M b)"
proof (induction M)
  case (Node k l r hv v)
  {
    case 1
    then show ?case using Node on_left_child [OF 1] by (auto simp: ord_Node)
  next
    case 2
    then show ?case using Node on_right_child [OF 2] by (auto simp: ord_Node)
  }
qed simp_all

lemma uclip_upper_ord: "ucmap_ord M \<Longrightarrow> ucmap_ord (ucmap_uclip_upper M a)"
  by (induction M) (auto simp: ord_Node uclip_upper_on)

lemma uclip_lower_ord: "ucmap_ord M \<Longrightarrow> ucmap_ord (ucmap_uclip_lower M b)"
  by (induction M) (auto simp: ord_Node uclip_lower_on)

lemma uclip_ord: "ucmap_ord M \<Longrightarrow> ucmap_ord (cucon_ucmap_uclip M a b)"
  by (induction M) (auto simp: ord_Node uclip_upper_on uclip_lower_on uclip_upper_ord uclip_lower_ord)

lemma uclip_upper_entries:
  "ucmap_ord M \<Longrightarrow> entries (ucmap_uclip_upper M a) = filter (\<lambda>p. a \<le> fst p) (entries M)"
proof (induction M)
  case (Node k l r hv v)
  then show ?case using entries_above [OF Node.prems, of a] by (auto simp: ord_Node)
qed simp

lemma uclip_lower_entries:
  "ucmap_ord M \<Longrightarrow> entries (ucmap_uclip_lower M b) = filter (\<lambda>p. fst p \<le> b) (entries M)"
proof (induction M)
  case (Node k l r hv v)
  then show ?case using entries_below [OF Node.prems, of b] by (auto simp: ord_Node)
qed simp

lemma uclip_entries:
  assumes "ucmap_ord M" "a \<le> b"
  shows "entries (cucon_ucmap_uclip M a b) = filter (\<lambda>p. a \<le> fst p \<and> fst p \<le> b) (entries M)"
  using assms
proof (induction M)
  case (Node k l r hv v)
  then have ord: "ucmap_ord l" "ucmap_ord r" by (simp_all add: ord_Node)
  note IH = Node.IH [OF _ Node.prems(2)]
  consider "k < a" | "b < k" "a \<le> k" | "a \<le> k" "k \<le> b" by fastforce
  then show ?case
    by cases (use Node.prems(2) in \<open>auto simp: IH ord uclip_upper_entries uclip_lower_entries
        entries_between [OF Node.prems(1)]\<close>)
qed simp

lemma map_of_filter_key: "map_of (filter (\<lambda>p. P (fst p)) ps) j = (if P j then map_of ps j else None)"
  by (induction ps) auto

lemma clip_ord: "ucmap_ord M \<Longrightarrow> ucmap_ord (cucon_ucmap_clip M a b)"
  by (simp add: cucon_ucmap_clip_def uclip_ord left_union_ord uclip_upper_ord uclip_lower_ord)

lemma find_clip:
  assumes "ucmap_ord M"
  shows "cucon_ucmap_find (cucon_ucmap_clip M a b) j = (if clip_range a b j then cucon_ucmap_find M j else None)"
proof -
  have "cucon_ucmap_find (ucmap_uclip_upper M a) j = (if a \<le> j then cucon_ucmap_find M j else None)"
    using map_of_filter_key [of "\<lambda>k. a \<le> k" "entries M" j]
    by (simp add: find_map_of assms uclip_upper_ord uclip_upper_entries)
  moreover have "cucon_ucmap_find (ucmap_uclip_lower M b) j = (if j \<le> b then cucon_ucmap_find M j else None)"
    using map_of_filter_key [of "\<lambda>k. k \<le> b" "entries M" j]
    by (simp add: find_map_of assms uclip_lower_ord uclip_lower_entries)
  moreover have "cucon_ucmap_find (cucon_ucmap_uclip M a b) j =
      (if a \<le> j \<and> j \<le> b then cucon_ucmap_find M j else None)" if "a \<le> b"
    using map_of_filter_key [of "\<lambda>k. a \<le> k \<and> k \<le> b" "entries M" j]
    by (simp add: find_map_of assms uclip_ord uclip_entries that)
  ultimately show ?thesis
    using assms by (auto simp: cucon_ucmap_clip_def clip_range_def find_left_union uclip_upper_ord uclip_lower_ord
        map_add_def split: option.splits)
qed

section \<open>Properties\<close>

text \<open>\<open>cucon_ucmap_iterA\<close> calls the callback on exactly the mappings of the map, in strictly
  increasing key order, stops at the first false return, and returns whether all were true.\<close>

theorem ucmap_iterA_visits_in_order:
  assumes "ucmap_wf M"
  shows "\<exists>ps. cucon_ucmap_iterA f M s = visit f ps s \<and> sorted_wrt (<) (map fst ps)
    \<and> map_of ps = cucon_ucmap_find M"
  using assms entries_sorted [of M] find_map_of [of M]
  by (intro exI [of _ "entries M"]) (simp add: iterA_visit wf_ord)

theorem ucmap_iterA_visits_in_order_witness:
  "\<exists>ps. cucon_ucmap_iterA (\<lambda>k v s. (k < 10, s @ [v])) (cucon_ucmap_insert (cucon_ucmap_insert Null 9 1) 13 2) [] = visit (\<lambda>k v s. (k < 10, s @ [v])) ps []
     \<and> sorted_wrt (<) (map fst ps) \<and> map_of ps = cucon_ucmap_find (cucon_ucmap_insert (cucon_ucmap_insert Null 9 1) 13 2)"
proof -
  have "ucmap_wf (cucon_ucmap_insert (cucon_ucmap_insert Null 9 1) 13 2)" by code_simp
  then show ?thesis by (rule ucmap_iterA_visits_in_order)
qed

text \<open>\<open>cucon_ucmap_iterA_clipped\<close> visits in increasing key order exactly the mappings whose keys
  lie in the interval, where a minimum above the maximum denotes the interval that wraps around.\<close>

theorem ucmap_iterA_clipped_visits:
  assumes "ucmap_wf M"
  shows "cucon_ucmap_iterA_clipped f M a b s = visit f (filter (\<lambda>p. clip_range a b (fst p)) (entries M)) s"
  using assms by (simp add: iterA_clipped_visit wf_ord)

theorem ucmap_iterA_clipped_visits_witness:
  "cucon_ucmap_iterA_clipped (\<lambda>k v s. (True, s @ [v])) (cucon_ucmap_insert (cucon_ucmap_insert Null 9 1) 13 2) 10 20 [] = (True, [2])"
proof -
  have wf: "ucmap_wf (cucon_ucmap_insert (cucon_ucmap_insert Null 9 1) 13 2)"
    and ex: "visit (\<lambda>k v s. (True, s @ [v])) (filter (\<lambda>p. clip_range 10 20 (fst p)) (entries (cucon_ucmap_insert (cucon_ucmap_insert Null 9 1) 13 2))) [] = (True, [2])"
    by code_simp+
  from ucmap_iterA_clipped_visits [OF wf] ex show ?thesis by (rule trans)
qed

text \<open>\<open>cucon_ucmap_card\<close> is the number of mappings, and \<open>cucon_ucmap_clipped_card\<close> that of the
  mappings in the interval, both as a \<open>size_t\<close> (which wraps only for the map on all keys).\<close>

theorem ucmap_card_counts:
  assumes "ucmap_wf M"
  shows "cucon_ucmap_card M = of_nat (card (dom (cucon_ucmap_find M)))
    \<and> cucon_ucmap_clipped_card M a b = of_nat (card {k \<in> dom (cucon_ucmap_find M). clip_range a b k})"
proof -
  note ord = wf_ord [OF assms]
  have "distinct (map fst (entries M))"
    using entries_sorted [OF ord] by (simp add: strict_sorted_iff)
  then show ?thesis
    using ord by (simp add: cucon_ucmap_card_def card_loop_entries length_entries clipped_card_entries
        length_filter_keys find_map_of dom_map_of_conv_image_fst)
qed

theorem ucmap_card_counts_witness:
  "cucon_ucmap_card (cucon_ucmap_insert (cucon_ucmap_insert Null 9 1) 13 2) = of_nat (card (dom (cucon_ucmap_find (cucon_ucmap_insert (cucon_ucmap_insert Null 9 1) 13 2))))"
proof -
  have "ucmap_wf (cucon_ucmap_insert (cucon_ucmap_insert Null 9 1) 13 2)" by code_simp
  then show ?thesis using ucmap_card_counts by blast
qed

text \<open>on a nonempty well-formed map \<open>cucon_ucmap_min_ukey\<close> and \<open>cucon_ucmap_max_ukey\<close> return its
  least and its greatest key.\<close>

theorem ucmap_extremal_keys:
  assumes "ucmap_wf M" "M \<noteq> Null"
  shows "cucon_ucmap_min_ukey M = Min (dom (cucon_ucmap_find M))
    \<and> cucon_ucmap_max_ukey M = Max (dom (cucon_ucmap_find M))"
  using assms by (simp add: min_ukey_Min max_ukey_Max)

theorem ucmap_extremal_keys_witness:
  "cucon_ucmap_min_ukey (cucon_ucmap_insert (cucon_ucmap_insert Null 9 1) 13 2) = Min (dom (cucon_ucmap_find (cucon_ucmap_insert (cucon_ucmap_insert Null 9 1) 13 2)))"
proof -
  have "ucmap_wf (cucon_ucmap_insert (cucon_ucmap_insert Null 9 1) 13 2)" "(cucon_ucmap_insert (cucon_ucmap_insert Null 9 1) 13 2) \<noteq> Null" by code_simp+
  then show ?thesis using ucmap_extremal_keys by blast
qed

text \<open>\<open>cucon_ucmap_clip\<close> keeps the order of the tree and restricts the map to the keys of the
  interval.\<close>

theorem ucmap_clip_restricts:
  assumes "ucmap_wf M"
  shows "ucmap_ord (cucon_ucmap_clip M a b)
    \<and> cucon_ucmap_find (cucon_ucmap_clip M a b) j = (if clip_range a b j then cucon_ucmap_find M j else None)"
  using assms by (simp add: clip_ord find_clip wf_ord)

theorem ucmap_clip_restricts_witness:
  "cucon_ucmap_find (cucon_ucmap_clip (cucon_ucmap_insert (cucon_ucmap_insert Null 9 1) 13 2) 10 20) 9 = None"
proof -
  have "ucmap_wf (cucon_ucmap_insert (cucon_ucmap_insert Null 9 1) 13 2)" by code_simp
  from ucmap_clip_restricts [OF this, of 10 20 9] show ?thesis by (simp add: clip_range_def)
qed

text \<open>clipping does not shrink: a branch node that lost one side stays. The clip of the map on 9
  and 13 to the keys from 10 to 20 has the contents of the singleton on 13, but is not equal to it
  for \<open>cucon_ucmap_eq\<close>, and its minimum key is reported as 12, which is not a key.\<close>

theorem ucmap_clip_not_shrunk:
  "entries (cucon_ucmap_clip (cucon_ucmap_insert (cucon_ucmap_insert Null 9 1) 13 2) 10 20) = entries (cucon_ucmap_singleton 13 2)
   \<and> \<not> cucon_ucmap_eq (cucon_ucmap_clip (cucon_ucmap_insert (cucon_ucmap_insert Null 9 1) 13 2) 10 20) (cucon_ucmap_singleton 13 2)
   \<and> cucon_ucmap_min_ukey (cucon_ucmap_clip (cucon_ucmap_insert (cucon_ucmap_insert Null 9 1) 13 2) 10 20) = 12"
  by code_simp

end
