(* ===== verification/UcmapOrder.thy ===== *)
theory UcmapOrder
  imports UcmapIter
begin

text \<open>
  Equality and comparison of constructive maps (\<open>cucon_ucmap_eq\<close>, \<open>cucon_ucmap_eq_ptr\<close>,
  \<open>cucon_ucmap_cmp\<close>, \<open>cucon_ucmap_cmp_ptr\<close>).
\<close>

section \<open>Comparison\<close>

lemma eq_iff: "cucon_ucmap_eq A B \<longleftrightarrow> A = B"
  by (induction A B rule: cucon_ucmap_eq.induct) auto

text \<open>Two well-formed maps with the same keys have the same shape.\<close>

lemma same_keys_split:
  assumes "ucmap_wf (Node k l r hv v)" "ucmap_wf (Node k' l' r' hv' v')"
    and dom: "dom (cucon_ucmap_find (Node k l r hv v)) = dom (cucon_ucmap_find (Node k' l' r' hv' v'))"
  shows "k = k'" "hv = hv'" "dom (cucon_ucmap_find l) = dom (cucon_ucmap_find l')"
    "dom (cucon_ucmap_find r) = dom (cucon_ucmap_find r')"
proof -
  note ord = wf_ord [OF assms(1)] wf_ord [OF assms(2)]
  show k: "k = k'"
    using ucm.root_unique [OF wf_root [OF assms(1)], of k'] wf_root [OF assms(2)] wf_inhabited [OF assms(1)]
    by (simp add: dom)
  have j: "cucon_ucmap_find (Node k l r hv v) j = None \<longleftrightarrow> cucon_ucmap_find (Node k' l' r' hv' v') j = None" for j
    using dom by (metis domIff)
  show "hv = hv'"
    using j [of k] find_Node [OF ord(1), of k] find_Node [OF ord(2), of k] k by (simp split: if_splits)
  have "cucon_ucmap_find l j = None \<longleftrightarrow> cucon_ucmap_find l' j = None" for j
    using j [of j] unfolding find_children(1) [OF ord(1), of j] find_children(1) [OF ord(2), of j] by (simp add: k)
  then show "dom (cucon_ucmap_find l) = dom (cucon_ucmap_find l')" by (auto simp: dom_def)
  have "cucon_ucmap_find r j = None \<longleftrightarrow> cucon_ucmap_find r' j = None" for j
    using j [of j] unfolding find_children(2) [OF ord(1), of j] find_children(2) [OF ord(2), of j] by (simp add: k)
  then show "dom (cucon_ucmap_find r) = dom (cucon_ucmap_find r')" by (auto simp: dom_def)
qed

lemma rel_option_dom: "(\<forall>j. rel_option f (a j) (b j)) \<Longrightarrow> dom a = dom b"
  by (auto simp: dom_def) (metis option.rel_distinct(2) not_None_eq, metis option.rel_distinct(1) not_None_eq)

lemma find_Node_rel:
  assumes "ucmap_ord (Node k l r hv v)" "ucmap_ord (Node k l' r' hv v')"
  shows "(\<forall>j. rel_option f (cucon_ucmap_find (Node k l r hv v) j) (cucon_ucmap_find (Node k l' r' hv v') j)) \<longleftrightarrow>
    (hv \<longrightarrow> f v v') \<and> (\<forall>j. rel_option f (cucon_ucmap_find l j) (cucon_ucmap_find l' j))
     \<and> (\<forall>j. rel_option f (cucon_ucmap_find r j) (cucon_ucmap_find r' j))" (is "(\<forall>j. ?P j) \<longleftrightarrow> ?Q")
proof
  assume P: "\<forall>j. ?P j"
  have "rel_option f (cucon_ucmap_find l j) (cucon_ucmap_find l' j)" for j
    using P unfolding find_children(1) [OF assms(1), of j] find_children(1) [OF assms(2), of j] by simp
  moreover have "rel_option f (cucon_ucmap_find r j) (cucon_ucmap_find r' j)" for j
    using P unfolding find_children(2) [OF assms(1), of j] find_children(2) [OF assms(2), of j] by simp
  ultimately show ?Q using P [rule_format, of k] by (simp add: find_Node assms split: if_splits)
next
  assume ?Q
  then show "\<forall>j. ?P j" by (simp add: find_Node assms)
qed

lemma eq_ptr_iff:
  "(\<forall>x. f x x) \<Longrightarrow> ucmap_wf A \<Longrightarrow> ucmap_wf B \<Longrightarrow> cucon_ucmap_eq_ptr f A B \<longleftrightarrow>
     (\<forall>j. rel_option f (cucon_ucmap_find A j) (cucon_ucmap_find B j))"
proof (induction f A B rule: cucon_ucmap_eq_ptr.induct)
  case (1 f M1)
  then show ?case using wf_inhabited [of M1] by (auto simp: option.rel_sel)
next
  case (2 f k l r hv v)
  then show ?case using wf_inhabited [of "Node k l r hv v"] by (fastforce simp: option.rel_sel)
next
  case (3 f k0 l0 r0 hv0 v0 k1 l1 r1 hv1 v1)
  let ?A = "Node k0 l0 r0 hv0 v0" and ?B = "Node k1 l1 r1 hv1 v1"
  have wf: "ucmap_wf l0" "ucmap_wf r0" "ucmap_wf l1" "ucmap_wf r1" using 3(4,5) by (auto simp: wf_Node)
  show ?case
  proof (cases "k0 = k1 \<and> hv0 = hv1 \<and> ?A \<noteq> ?B")
    case True
    have "cucon_ucmap_eq_ptr f ?A ?B \<longleftrightarrow>
       cucon_ucmap_eq_ptr f l0 l1 \<and> (hv0 \<longrightarrow> f v0 v1) \<and> cucon_ucmap_eq_ptr f r0 r1"
      using True by auto
    also have "\<dots> \<longleftrightarrow> (\<forall>j. rel_option f (cucon_ucmap_find ?A j) (cucon_ucmap_find ?B j))"
      using 3 wf True find_Node_rel [of k0 l0 r0 hv0 v0 l1 r1 v1 f] by (auto simp: wf_ord)
    finally show ?thesis .
  next
    case False
    then show ?thesis
    proof (cases "?A = ?B")
      case True
      have "rel_option f x x" for x using 3(3) by (cases x) auto
      then show ?thesis using True by simp
    next
      case ne: False
      then have "\<not> cucon_ucmap_eq_ptr f ?A ?B" using False by auto
      moreover have "\<not> (\<forall>j. rel_option f (cucon_ucmap_find ?A j) (cucon_ucmap_find ?B j))"
        using same_keys_split(1,2) [OF 3(4,5)] rel_option_dom [of f "cucon_ucmap_find ?A" "cucon_ucmap_find ?B"]
          False ne by blast
      ultimately show ?thesis by blast
    qed
  qed
qed

text \<open>
  Both comparisons are lexicographic: key, left branch, value slot, right branch.
  \<open>value_order\<close> is what the callback has to be for the result to be an order.
\<close>

definition value_order :: "(u64 \<Rightarrow> u64 \<Rightarrow> int) \<Rightarrow> bool" where
  "value_order f \<longleftrightarrow> (\<forall>x y. f x y = 0 \<longleftrightarrow> x = y) \<and> (\<forall>x y. f y x = - f x y)
     \<and> (\<forall>x y z. f x y < 0 \<longrightarrow> f y z < 0 \<longrightarrow> f x z < 0)"

definition uint_cmp :: "u64 \<Rightarrow> u64 \<Rightarrow> int" where
  "uint_cmp x y = (if x < y then -1 else if x > y then 1 else 0)"

definition slot_cmp :: "(u64 \<Rightarrow> u64 \<Rightarrow> int) \<Rightarrow> bool \<Rightarrow> u64 \<Rightarrow> bool \<Rightarrow> u64 \<Rightarrow> int" where
  "slot_cmp f hv0 v0 hv1 v1 =
     (if hv0 \<and> hv1 then f v0 v1 else if hv0 then 1 else if hv1 then -1 else 0)"

definition lex :: "int \<Rightarrow> int \<Rightarrow> int" where
  "lex c d = (if c \<noteq> 0 then c else d)"

definition chain :: "int \<Rightarrow> int \<Rightarrow> int \<Rightarrow> bool" where
  "chain a b c \<longleftrightarrow> (a \<le> 0 \<longrightarrow> b \<le> 0 \<longrightarrow> (c < 0 \<longleftrightarrow> a < 0 \<or> b < 0) \<and> c \<le> 0)"

lemma lex_zero: "lex c d = 0 \<longleftrightarrow> c = 0 \<and> d = 0"
  by (simp add: lex_def)

lemma lex_uminus: "lex (- c) (- d) = - lex c d"
  by (simp add: lex_def)

lemma lex_chain: "chain a b c \<Longrightarrow> chain a' b' c' \<Longrightarrow> chain (lex a a') (lex b b') (lex c c')"
  by (auto simp: lex_def chain_def)

lemma uint_cmp_order: "value_order uint_cmp"
  unfolding value_order_def uint_cmp_def by auto

lemma value_order_facts:
  assumes "value_order f"
  shows "f x y = 0 \<longleftrightarrow> x = y" "f y x = - f x y" "chain (f x y) (f y z) (f x z)"
proof -
  show z: "f x y = 0 \<longleftrightarrow> x = y" for x y using assms unfolding value_order_def by blast
  show "f y x = - f x y" using assms unfolding value_order_def by blast
  have "f x y < 0 \<Longrightarrow> f y z < 0 \<Longrightarrow> f x z < 0" using assms unfolding value_order_def by blast
  then show "chain (f x y) (f y z) (f x z)"
    using z [of x y] z [of y z] z [of x z] by (cases "x = y"; cases "y = z") (auto simp: chain_def)
qed

lemma slot_cmp_facts:
  assumes "value_order f"
  shows "slot_cmp f h x i y = 0 \<longleftrightarrow> h = i \<and> (h \<longrightarrow> x = y)" "slot_cmp f i y h x = - slot_cmp f h x i y"
    "chain (slot_cmp f h x i y) (slot_cmp f i y j z) (slot_cmp f h x j z)"
proof -
  note f = value_order_facts [OF assms]
  show "slot_cmp f h x i y = 0 \<longleftrightarrow> h = i \<and> (h \<longrightarrow> x = y)" using f(1) by (simp add: slot_cmp_def)
  show "slot_cmp f i y h x = - slot_cmp f h x i y" using f(2) [of y x] by (simp add: slot_cmp_def)
  show "chain (slot_cmp f h x i y) (slot_cmp f i y j z) (slot_cmp f h x j z)"
    using f(3) [of x y z] by (simp add: slot_cmp_def) (auto simp: chain_def)
qed

lemma cmp_ptr_refl [simp]: "cucon_ucmap_cmp_ptr f A A = 0"
  by (cases A) auto

lemma cmp_ptr_Null [simp]: "cucon_ucmap_cmp_ptr f Null B = (if B = Null then 0 else -1)"
  "cucon_ucmap_cmp_ptr f A Null = (if A = Null then 0 else 1)"
  by (cases A; auto)+

lemma cmp_ptr_Node:
  assumes "value_order f"
  shows "cucon_ucmap_cmp_ptr f (Node k0 l0 r0 hv0 v0) (Node k1 l1 r1 hv1 v1) =
    lex (uint_cmp k0 k1) (lex (cucon_ucmap_cmp_ptr f l0 l1)
      (lex (slot_cmp f hv0 v0 hv1 v1) (cucon_ucmap_cmp_ptr f r0 r1)))"
proof (cases "Node k0 l0 r0 hv0 v0 = Node k1 l1 r1 hv1 v1")
  case True
  then show ?thesis using value_order_facts(1) [OF assms] by (simp add: lex_def uint_cmp_def slot_cmp_def)
next
  case False
  then show ?thesis
    unfolding cucon_ucmap_cmp_ptr.simps(3) Let_def lex_def uint_cmp_def slot_cmp_def
    by (simp only: if_False) simp
qed

declare cucon_ucmap_cmp_ptr.simps(3) [simp del]

lemma cmp_cmp_ptr: "cucon_ucmap_cmp A B = cucon_ucmap_cmp_ptr uint_cmp A B"
proof (induction A arbitrary: B)
  case (Node k l r hv v)
  show ?case
  proof (cases B)
    case B: (Node k' l' r' hv' v')
    show ?thesis
      unfolding B cucon_ucmap_cmp.simps cucon_ucmap_cmp_ptr.simps Let_def Node.IH by (simp add: uint_cmp_def)
  qed simp
qed simp

lemma cmp_ptr_zero:
  "value_order f \<Longrightarrow> ucmap_ord A \<Longrightarrow> ucmap_ord B \<Longrightarrow> cucon_ucmap_cmp_ptr f A B = 0 \<longleftrightarrow> A = B"
proof (induction A arbitrary: B)
  case (Node k l r hv v)
  show ?case
  proof (cases B)
    case B: (Node k' l' r' hv' v')
    have "cucon_ucmap_cmp_ptr f l l' = 0 \<longleftrightarrow> l = l'" "cucon_ucmap_cmp_ptr f r r' = 0 \<longleftrightarrow> r = r'"
      using Node B by (simp_all add: ord_Node)
    then show ?thesis
      using Node.prems(2,3) unfolding B cmp_ptr_Node [OF Node.prems(1)] lex_zero ord_Node
        slot_cmp_facts(1) [OF Node.prems(1)] value_order_facts(1) [OF uint_cmp_order] by auto
  qed simp
qed auto

lemma cmp_ptr_antisym:
  assumes "value_order f"
  shows "cucon_ucmap_cmp_ptr f B A = - cucon_ucmap_cmp_ptr f A B"
proof (induction A arbitrary: B)
  case (Node k l r hv v)
  show ?case
  proof (cases B)
    case B: (Node k' l' r' hv' v')
    show ?thesis
      unfolding B cmp_ptr_Node [OF assms] Node.IH [of l'] Node.IH [of r'] lex_uminus
        value_order_facts(2) [OF uint_cmp_order, of k' k] slot_cmp_facts(2) [OF assms, of hv' v' hv v] ..
  qed simp
qed auto

lemma cmp_ptr_chain:
  assumes "value_order f"
  shows "chain (cucon_ucmap_cmp_ptr f A B) (cucon_ucmap_cmp_ptr f B C) (cucon_ucmap_cmp_ptr f A C)"
proof (induction A arbitrary: B C)
  case (Node k l r hv v)
  show ?case
  proof (cases "B = Null \<or> C = Null")
    case True
    then show ?thesis by (cases B; cases C) (auto simp: chain_def)
  next
    case False
    then obtain k1 l1 r1 hv1 v1 k2 l2 r2 hv2 v2
      where BC: "B = Node k1 l1 r1 hv1 v1" "C = Node k2 l2 r2 hv2 v2" by (metis ucmap.exhaust)
    show ?thesis
      unfolding BC cmp_ptr_Node [OF assms]
      by (intro lex_chain Node.IH value_order_facts(3) [OF uint_cmp_order] slot_cmp_facts(3) [OF assms])
  qed
next
  case Null
  show ?case by (cases B; cases C) (auto simp: chain_def)
qed

section \<open>Properties\<close>

text \<open>C2: on well-formed maps \<open>cucon_ucmap_eq\<close> decides whether the maps have the same contents, which
  is also whether they are the same hash-consed object.\<close>

theorem ucmap_eq_decides_contents:
  assumes "ucmap_wf A" "ucmap_wf B"
  shows "(cucon_ucmap_eq A B \<longleftrightarrow> cucon_ucmap_find A = cucon_ucmap_find B) \<and> (cucon_ucmap_eq A B \<longleftrightarrow> A = B)"
  using assms canonical [of A B] by (auto simp: eq_iff)

theorem ucmap_eq_decides_contents_witness:
  "cucon_ucmap_find (cucon_ucmap_insert (cucon_ucmap_insert Null 9 1) 13 2) = cucon_ucmap_find (cucon_ucmap_insert (cucon_ucmap_insert Null 13 2) 9 1)"
proof -
  have "ucmap_wf (cucon_ucmap_insert (cucon_ucmap_insert Null 9 1) 13 2)" "ucmap_wf (cucon_ucmap_insert (cucon_ucmap_insert Null 13 2) 9 1)"
    "cucon_ucmap_eq (cucon_ucmap_insert (cucon_ucmap_insert Null 9 1) 13 2) (cucon_ucmap_insert (cucon_ucmap_insert Null 13 2) 9 1)" by code_simp+
  then show ?thesis using ucmap_eq_decides_contents by blast
qed

text \<open>\<open>cucon_ucmap_eq_ptr\<close>, given a reflexive callback, decides whether the maps have the same keys
  and the callback accepts the two values of every key.\<close>

theorem ucmap_eq_ptr_decides:
  assumes "\<forall>x. f x x" "ucmap_wf A" "ucmap_wf B"
  shows "cucon_ucmap_eq_ptr f A B \<longleftrightarrow> (\<forall>j. rel_option f (cucon_ucmap_find A j) (cucon_ucmap_find B j))"
  using assms by (rule eq_ptr_iff)

theorem ucmap_eq_ptr_decides_witness:
  "\<forall>j. rel_option (\<lambda>x y. x AND 1 = y AND 1) (cucon_ucmap_find (cucon_ucmap_insert (cucon_ucmap_insert Null 9 1) 13 2) j)
     (cucon_ucmap_find (cucon_ucmap_insert (cucon_ucmap_insert Null 13 4) 9 3) j)"
proof -
  have "ucmap_wf (cucon_ucmap_insert (cucon_ucmap_insert Null 9 1) 13 2)" "ucmap_wf (cucon_ucmap_insert (cucon_ucmap_insert Null 13 4) 9 3)"
    "cucon_ucmap_eq_ptr (\<lambda>x y. x AND 1 = y AND 1) (cucon_ucmap_insert (cucon_ucmap_insert Null 9 1) 13 2) (cucon_ucmap_insert (cucon_ucmap_insert Null 13 4) 9 3)"
    by code_simp+
  then show ?thesis using ucmap_eq_ptr_decides [of "\<lambda>x y. x AND 1 = y AND 1"] by blast
qed

text \<open>C34: \<open>cucon_ucmap_cmp\<close> is a total order on well-formed maps: zero exactly on equal contents,
  antisymmetric and transitive.\<close>

theorem ucmap_cmp_total_order:
  assumes "ucmap_wf A" "ucmap_wf B" "ucmap_wf C"
  shows "(cucon_ucmap_cmp A B = 0 \<longleftrightarrow> cucon_ucmap_find A = cucon_ucmap_find B)
    \<and> cucon_ucmap_cmp B A = - cucon_ucmap_cmp A B
    \<and> (cucon_ucmap_cmp A B < 0 \<longrightarrow> cucon_ucmap_cmp B C < 0 \<longrightarrow> cucon_ucmap_cmp A C < 0)"
proof -
  have "cucon_ucmap_cmp A B = 0 \<longleftrightarrow> cucon_ucmap_find A = cucon_ucmap_find B"
    using assms canonical [of A B] cmp_ptr_zero [OF uint_cmp_order, of A B] by (auto simp: cmp_cmp_ptr wf_ord)
  then show ?thesis
    using cmp_ptr_antisym [OF uint_cmp_order, of B A] cmp_ptr_chain [OF uint_cmp_order, of A B C]
    by (auto simp: cmp_cmp_ptr chain_def)
qed

theorem ucmap_cmp_total_order_witness:
  "cucon_ucmap_cmp Null (cucon_ucmap_insert (cucon_ucmap_insert Null 9 1) 13 2) < 0 \<and> cucon_ucmap_cmp (cucon_ucmap_insert (cucon_ucmap_insert Null 9 1) 13 2) Null = - cucon_ucmap_cmp Null (cucon_ucmap_insert (cucon_ucmap_insert Null 9 1) 13 2)"
proof -
  have "ucmap_wf (cucon_ucmap_insert (cucon_ucmap_insert Null 9 1) 13 2)" "cucon_ucmap_cmp Null (cucon_ucmap_insert (cucon_ucmap_insert Null 9 1) 13 2) < 0" by code_simp+
  then show ?thesis using ucmap_cmp_total_order [of Null "(cucon_ucmap_insert (cucon_ucmap_insert Null 9 1) 13 2)" Null] by simp
qed

end
