(* ===== verification/UcmapSorted.thy ===== *)
theory UcmapSorted
  imports UcmapIter
begin

text \<open>
  The construction of a map from a sorted array, \<open>_ucmap_from_sorted_array\<close> of
  \<^verbatim>\<open>cucon/ucmap.c\<close>: enough fuel gives a result, which holds the array's elements.
\<close>

section \<open>Construction from a sorted array\<close>

text \<open>The keys above a key that it covers are those up to the last key of its block.\<close>

lemma unat_block_max:
  assumes "k \<noteq> 0"
  shows "unat (k OR (k - 1)) = unat k + 2 ^ lowest k - 1"
proof -
  have z: "lowest k < 64" using assms by (rule lowest_less)
  have "k OR (k - 1) = k OR mask (lowest k)"
    by (rule word_eq_bitI) (use lowest_bit [OF assms] in \<open>auto simp: bit_simps bit_minus_one [OF assms]\<close>)
  also have "\<dots> = k + mask (lowest k)"
    by (rule disjunctive_add [symmetric]) (use lowest_below [of _ k] in \<open>auto simp: bit_simps\<close>)
  finally have m: "k OR (k - 1) = k + mask (lowest k)" .
  have "unat (mask (lowest k) :: u64) = mask (lowest k)"
    by (rule bit_eqI) (use z in \<open>auto simp: bit_simps\<close>)
  then have um: "unat (mask (lowest k) :: u64) = 2 ^ lowest k - 1"
    by (simp add: mask_eq_exp_minus_1)
  have uk: "unat k = (2 * block (lowest k) k + 1) * 2 ^ lowest k" by (rule lowest_pos [OF refl z])
  have p: "(2::nat) ^ 64 = (2 * 2 ^ (63 - lowest k)) * 2 ^ lowest k"
    using z by (simp flip: power_Suc power_add)
  have "2 * block (lowest k) k + 1 < 2 * 2 ^ (63 - lowest k)"
    using unat_u64_bound [of k] unfolding uk p by (simp only: mult_less_cancel2)
  then have "(2 * block (lowest k) k + 2) * 2 ^ lowest k \<le> 2 ^ 64"
    unfolding p by (intro mult_right_mono) auto
  then have "unat k + 2 ^ lowest k \<le> 2 ^ 64" unfolding uk by (simp add: algebra_simps)
  then show ?thesis unfolding m by (simp add: um unat_word_ariths)
qed

lemma covers_greater_iff:
  "ucmap_key_covers k j \<and> k < j \<longleftrightarrow> k < j \<and> j \<le> k OR (k - 1)"
proof (cases "k = 0")
  case True
  then show ?thesis using lowest_le [of j] by (auto simp: ucmap_key_covers_block word_gt_0)
next
  case False
  let ?z = "lowest k"
  define B where "B = block ?z k"
  have z: "?z < 64" using False by (rule lowest_less)
  have uk: "unat k = (2 * B + 1) * 2 ^ ?z" unfolding B_def by (rule lowest_pos [OF refl z])
  have le: "j \<le> k OR (k - 1) \<longleftrightarrow> unat j < unat k + 2 ^ ?z"
    unfolding word_le_nat_alt unat_block_max [OF False]
    using zero_less_power [of "2 :: nat" ?z] by arith
  have "block ?z j = B \<and> lowest j \<le> ?z \<longleftrightarrow> unat j < unat k + 2 ^ ?z" if "k < j"
  proof
    assume "block ?z j = B \<and> lowest j \<le> ?z"
    then have "unat j div 2 ^ Suc ?z < B + 1" by (simp add: block_def)
    then have "unat j < (B + 1) * 2 ^ Suc ?z" by (subst (asm) div_less_iff_less_mult) auto
    then show "unat j < unat k + 2 ^ ?z" unfolding uk by (simp add: algebra_simps)
  next
    assume lt: "unat j < unat k + 2 ^ ?z"
    have lo: "(2 * B + 1) * 2 ^ ?z < unat j" using that unfolding word_less_nat_alt uk .
    have "block ?z j = B"
      unfolding block_def by (rule div_nat_eqI) (use lt [unfolded uk] lo in \<open>simp_all add: algebra_simps\<close>)
    moreover have "lowest j \<le> ?z"
    proof (rule ccontr)
      assume "\<not> lowest j \<le> ?z"
      then have "take_bit (Suc ?z) j = 0"
        using lower_bits_nonzero_iff [OF z, of j] by (simp add: take_bit_eq_mask)
      then have "unat j mod 2 ^ Suc ?z = 0" using unat_take_bit [of "Suc ?z" j] by simp
      then have "unat j = block ?z j * 2 ^ Suc ?z" unfolding block_def by (metis mod_0_imp_dvd dvd_div_mult_self)
      then show False using \<open>block ?z j = B\<close> lo by (simp add: algebra_simps)
    qed
    ultimately show "block ?z j = B \<and> lowest j \<le> ?z" by simp
  qed
  then show ?thesis using False unfolding le ucmap_key_covers_block B_def by (auto simp: word_gt_0)
qed

text \<open>Lists of elements in key order.\<close>

lemma map_of_dropWhile_le:
  "sorted (map fst ps) \<Longrightarrow> map_of (dropWhile (\<lambda>e. fst e \<le> m) ps) j = (if j \<le> m then None else map_of ps j)"
  for ps :: "(u64 \<times> u64) list"
proof (induction ps)
  case (Cons p ps)
  have "map_of ps j = None" if "\<not> fst p \<le> m" "j \<le> m"
    using Cons.prems that by (fastforce simp: map_of_eq_None_iff)
  then show ?case using Cons by auto
qed simp

lemma dropWhile_eq_le:
  "sorted (map fst ps) \<Longrightarrow> \<forall>p\<in>set ps. k \<le> fst p \<Longrightarrow>
     dropWhile (\<lambda>e. fst e = k) ps = dropWhile (\<lambda>e. fst e \<le> k) ps" for ps :: "(u64 \<times> u64) list"
  by (rule dropWhile_cong) auto

lemma dropWhile_le_mono:
  "m \<le> n \<Longrightarrow> dropWhile (\<lambda>e. fst e \<le> n) (dropWhile (\<lambda>e. fst e \<le> m) ps) = dropWhile (\<lambda>e. fst e \<le> n) ps"
  for ps :: "(u64 \<times> u64) list"
  by (induction ps) auto

lemma sorted_dropWhile_fst: "sorted (map fst ps) \<Longrightarrow> sorted (map fst (dropWhile P ps))"
  for ps :: "(u64 \<times> u64) list"
  by (induction ps) auto

lemma dropWhile_le_above:
  "sorted (map fst ps) \<Longrightarrow> p \<in> set (dropWhile (\<lambda>e. fst e \<le> m) ps) \<Longrightarrow> m < fst p"
  for ps :: "(u64 \<times> u64) list"
proof (induction ps)
  case (Cons q ps)
  then show ?case by (cases "fst q \<le> m") fastforce+
qed simp

text \<open>
  \<open>closed_above lo m\<close>: no block that starts at or above \<open>lo\<close> reaches past \<open>m\<close> without
  starting past it. The bounds passed down by the recursion have it.
\<close>

definition closed_above :: "u64 \<Rightarrow> u64 \<Rightarrow> bool" where
  "closed_above lo m \<longleftrightarrow> (\<forall>k. lo \<le> k \<and> k \<le> m \<longrightarrow> k OR (k - 1) \<le> m)"

lemma closed_above_mono: "closed_above lo m \<Longrightarrow> lo \<le> lo' \<Longrightarrow> closed_above lo' m"
  unfolding closed_above_def by (meson order_trans)

lemma block_max_ge: "k \<le> k OR (k - 1)" for k :: u64
proof (cases "k = 0")
  case False
  show ?thesis
    unfolding word_le_nat_alt unat_block_max [OF False]
    using zero_less_power [of "2 :: nat" "lowest k"] by arith
qed simp

lemma closed_above_block:
  assumes "k < lo"
  shows "closed_above lo (k OR (k - 1))"
  unfolding closed_above_def
proof (intro allI impI)
  fix j assume j: "lo \<le> j \<and> j \<le> k OR (k - 1)"
  then have kj: "ucmap_key_covers k j \<and> k < j" using covers_greater_iff [of k j] assms by auto
  show "j OR (j - 1) \<le> k OR (k - 1)"
  proof (cases "j < j OR (j - 1)")
    case True
    then have "ucmap_key_covers j (j OR (j - 1))" using covers_greater_iff [of j] by blast
    then show ?thesis using kj True ucm.covers_trans covers_greater_iff by (meson less_trans)
  next
    case False
    then show ?thesis using block_max_ge [of j] j by auto
  qed
qed

text \<open>What the recursion and the loop return.\<close>

definition sorted_rec_ok :: "nat \<Rightarrow> bool" where
  "sorted_rec_ok n \<longleftrightarrow> (\<forall>m arr. sorted (map fst arr) \<longrightarrow> 2 * length arr + 1 \<le> n \<longrightarrow>
     (arr \<noteq> [] \<longrightarrow> closed_above (fst (hd arr)) m) \<longrightarrow>
     (\<exists>M. ucmap_from_sorted_array_rec n m arr = Some (M, dropWhile (\<lambda>e. fst e \<le> m) arr) \<and> ucmap_wf M
        \<and> (\<forall>j. cucon_ucmap_find M j = (if j \<le> m then map_of arr j else None))))"

definition sorted_loop_ok :: "nat \<Rightarrow> bool" where
  "sorted_loop_ok n \<longleftrightarrow> (\<forall>m arr cur. sorted (map fst arr) \<longrightarrow> 2 * length arr + 2 \<le> n \<longrightarrow>
     closed_above (node_key cur) m \<longrightarrow> ucmap_wf cur \<longrightarrow> cur \<noteq> Null \<longrightarrow>
     (\<forall>p\<in>set arr. node_key cur OR (node_key cur - 1) < fst p) \<longrightarrow>
     (\<exists>M. ucmap_from_sorted_array_loop n m (node_key cur) cur arr = Some (M, dropWhile (\<lambda>e. fst e \<le> m) arr)
        \<and> ucmap_wf M
        \<and> (\<forall>j. cucon_ucmap_find M j =
             (case cucon_ucmap_find cur j of None \<Rightarrow> if j \<le> m then map_of arr j else None | Some w \<Rightarrow> Some w))))"

lemma wf_on_right:
  assumes "ucmap_wf M" "\<And>j w. cucon_ucmap_find M j = Some w \<Longrightarrow> k < j \<and> j \<le> k OR (k - 1)"
  shows "on_right k M"
proof (cases "M = Null")
  case False
  have "\<forall>s\<in>dom (cucon_ucmap_find M). ucmap_key_covers k s \<and> k < s"
    using assms(2) covers_greater_iff [of k] by blast
  then show ?thesis
    using ucm.root_inside_greater [OF wf_root [OF assms(1) False] wf_inhabited [OF assms(1) False]]
    by (auto simp: on_right_def)
qed simp

lemma sorted_recD:
  assumes "sorted_rec_ok n" "sorted (map fst ps)" "\<forall>p\<in>set ps. k < fst p" "2 * length ps + 1 \<le> n"
  obtains right where "ucmap_from_sorted_array_rec n (k OR (k - 1)) ps =
      Some (right, dropWhile (\<lambda>e. fst e \<le> k OR (k - 1)) ps)"
    "ucmap_wf right" "on_right k right"
    "\<And>j. cucon_ucmap_find right j = (if j \<le> k OR (k - 1) then map_of ps j else None)"
proof -
  have "ps \<noteq> [] \<longrightarrow> closed_above (fst (hd ps)) (k OR (k - 1))"
    using assms(3) by (auto intro!: closed_above_block)
  then obtain M where M: "ucmap_from_sorted_array_rec n (k OR (k - 1)) ps =
      Some (M, dropWhile (\<lambda>e. fst e \<le> k OR (k - 1)) ps)" "ucmap_wf M"
      "\<And>j. cucon_ucmap_find M j = (if j \<le> k OR (k - 1) then map_of ps j else None)"
    using assms(1,2,4) unfolding sorted_rec_ok_def by blast
  moreover have "on_right k M"
  proof (rule wf_on_right [OF M(2)])
    fix j w assume "cucon_ucmap_find M j = Some w"
    then show "k < j \<and> j \<le> k OR (k - 1)"
      using assms(3) M(3) [of j] map_of_SomeD [of ps j w] by (auto split: if_splits)
  qed
  ultimately show thesis using that by blast
qed

text \<open>The loop continued from a node whose right branch has just been read.\<close>

lemma sorted_loopD:
  assumes ok: "sorted_loop_ok n" and "sorted (map fst ps)" and above: "\<forall>p\<in>set ps. k < fst p"
    and m: "closed_above k m" "k \<le> m" and wf: "ucmap_wf (Node k cur right hv v)"
    and right: "\<And>j. cucon_ucmap_find right j = (if j \<le> k OR (k - 1) then map_of ps j else None)"
    and len: "2 * length (dropWhile (\<lambda>e. fst e \<le> k OR (k - 1)) ps) + 2 \<le> n"
  shows "\<exists>M. ucmap_from_sorted_array_loop n m k (Node k cur right hv v) (dropWhile (\<lambda>e. fst e \<le> k OR (k - 1)) ps)
        = Some (M, dropWhile (\<lambda>e. fst e \<le> m) ps) \<and> ucmap_wf M
     \<and> (\<forall>j. cucon_ucmap_find M j =
          (if j < k then cucon_ucmap_find cur j else if j = k then (if hv then Some v else None)
           else if j \<le> m then map_of ps j else None))"
proof -
  let ?bm = "k OR (k - 1)" and ?N = "Node k cur right hv v"
  have bm: "?bm \<le> m" using m by (simp add: closed_above_def)
  have "\<forall>p\<in>set (dropWhile (\<lambda>e. fst e \<le> ?bm) ps). ?bm < fst p"
    using dropWhile_le_above [OF assms(2)] by blast
  then obtain M where M: "ucmap_from_sorted_array_loop n m k ?N (dropWhile (\<lambda>e. fst e \<le> ?bm) ps)
        = Some (M, dropWhile (\<lambda>e. fst e \<le> m) (dropWhile (\<lambda>e. fst e \<le> ?bm) ps))" "ucmap_wf M"
     "\<And>j. cucon_ucmap_find M j = (case cucon_ucmap_find ?N j of
         None \<Rightarrow> if j \<le> m then map_of (dropWhile (\<lambda>e. fst e \<le> ?bm) ps) j else None | Some w \<Rightarrow> Some w)"
    using ok [unfolded sorted_loop_ok_def, rule_format, of "dropWhile (\<lambda>e. fst e \<le> ?bm) ps" ?N m]
      sorted_dropWhile_fst [OF assms(2)] len m(1) wf by auto
  have "cucon_ucmap_find M j =
      (if j < k then cucon_ucmap_find cur j else if j = k then (if hv then Some v else None)
       else if j \<le> m then map_of ps j else None)" for j
    using bm order_trans [of j ?bm m] less_le_trans [OF _ block_max_ge, of j k] block_max_ge [of k]
    unfolding M(3) find_Node [OF wf_ord, OF wf] map_of_dropWhile_le [OF assms(2)] right
    by (auto split: option.splits)
  then show ?thesis using M(1,2) by (simp add: dropWhile_le_mono [OF bm])
qed

lemma map_of_above: "\<forall>p\<in>set ps. k < fst p \<Longrightarrow> j \<le> k \<Longrightarrow> map_of ps j = None" for ps :: "(u64 \<times> u64) list"
  by (fastforce simp: map_of_eq_None_iff)

lemma sorted_drop_key:
  fixes ps :: "(u64 \<times> u64) list"
  assumes "sorted (map fst ((k, v) # ps))"
  shows "dropWhile (\<lambda>e. fst e = k) ps = dropWhile (\<lambda>e. fst e \<le> k) ps"
    and "\<forall>p\<in>set (dropWhile (\<lambda>e. fst e \<le> k) ps). k < fst p"
    and "sorted (map fst (dropWhile (\<lambda>e. fst e \<le> k) ps))"
    and "map_of ((k, v) # ps) j = (if j = k then Some v else map_of (dropWhile (\<lambda>e. fst e \<le> k) ps) j)"
    and "k \<le> m \<Longrightarrow> dropWhile (\<lambda>e. fst e \<le> m) ((k, v) # ps) =
           dropWhile (\<lambda>e. fst e \<le> m) (dropWhile (\<lambda>e. fst e \<le> k) ps)"
    and "length (dropWhile (\<lambda>e. fst e \<le> k) ps) \<le> length ps"
proof -
  have s: "sorted (map fst ps)" and ge: "\<forall>p\<in>set ps. k \<le> fst p" using assms by auto
  show "dropWhile (\<lambda>e. fst e = k) ps = dropWhile (\<lambda>e. fst e \<le> k) ps" by (rule dropWhile_eq_le [OF s ge])
  show "\<forall>p\<in>set (dropWhile (\<lambda>e. fst e \<le> k) ps). k < fst p" using dropWhile_le_above [OF s] by blast
  show "sorted (map fst (dropWhile (\<lambda>e. fst e \<le> k) ps))" by (rule sorted_dropWhile_fst [OF s])
  have "map_of ps j = None" if "j < k" using ge that by (fastforce simp: map_of_eq_None_iff)
  then show "map_of ((k, v) # ps) j = (if j = k then Some v else map_of (dropWhile (\<lambda>e. fst e \<le> k) ps) j)"
    by (auto simp: map_of_dropWhile_le [OF s])
  show "k \<le> m \<Longrightarrow> dropWhile (\<lambda>e. fst e \<le> m) ((k, v) # ps) =
           dropWhile (\<lambda>e. fst e \<le> m) (dropWhile (\<lambda>e. fst e \<le> k) ps)"
    by (simp add: dropWhile_le_mono)
  show "length (dropWhile (\<lambda>e. fst e \<le> k) ps) \<le> length ps" by (rule length_dropWhile_le)
qed

text \<open>The first node of a recursive call, with or without a right branch, enters the loop.\<close>

lemma sorted_rec_enters_loop:
  assumes rec: "sorted_rec_ok n" and s: "sorted (map fst ((k, v) # ps))" and km: "k \<le> m"
    and n: "2 * length (dropWhile (\<lambda>e. fst e \<le> k) ps) + 1 \<le> n" and ne: "dropWhile (\<lambda>e. fst e \<le> k) ps \<noteq> []"
  obtains right where "ucmap_wf (Node k Null right True v)"
    "\<And>j. cucon_ucmap_find right j =
       (if j \<le> k OR (k - 1) then map_of (dropWhile (\<lambda>e. fst e \<le> k) ps) j else None)"
    "ucmap_from_sorted_array_rec (Suc n) m ((k, v) # ps) = ucmap_from_sorted_array_loop n m k
       (Node k Null right True v) (dropWhile (\<lambda>e. fst e \<le> k OR (k - 1)) (dropWhile (\<lambda>e. fst e \<le> k) ps))"
proof -
  let ?ps = "dropWhile (\<lambda>e. fst e \<le> k) ps"
  note d = sorted_drop_key [OF s]
  obtain right where right: "ucmap_from_sorted_array_rec n (k OR (k - 1)) ?ps =
       Some (right, dropWhile (\<lambda>e. fst e \<le> k OR (k - 1)) ?ps)" "ucmap_wf right" "on_right k right"
      "\<And>j. cucon_ucmap_find right j = (if j \<le> k OR (k - 1) then map_of ?ps j else None)"
    using sorted_recD [OF rec d(3,2) n] by blast
  have nsuc: "n = Suc (n - 1)" using n by simp
  have "ucmap_from_sorted_array_rec (Suc n) m ((k, v) # ps) = ucmap_from_sorted_array_loop n m k
      (Node k Null right True v) (dropWhile (\<lambda>e. fst e \<le> k OR (k - 1)) ?ps)"
  proof (cases "ucmap_key_covers k (fst (hd ?ps))")
    case True
    have "ucmap_from_sorted_array_loop n m k N [] = Some (N, [])" for N by (subst nsuc) simp
    then show ?thesis
      using leD [OF km] ne True right(1) unfolding ucmap_from_sorted_array_rec.simps d(1) Let_def
      by (simp add: ucmap_node_defs del: dropWhile_eq_Nil_conv)
  next
    case nc: False
    have "\<not> fst (hd ?ps) \<le> k OR (k - 1)"
      using nc ne d(2) covers_greater_iff [of k "fst (hd ?ps)"] by (metis hd_in_set)
    then have drop: "dropWhile (\<lambda>e. fst e \<le> k OR (k - 1)) ?ps = ?ps" and above: "\<forall>p\<in>set ?ps. k OR (k - 1) < fst p"
      using ne d(3) by (cases ?ps; fastforce)+
    moreover have "right = Null"
    proof (rule ccontr)
      assume "right \<noteq> Null"
      then obtain j where "cucon_ucmap_find right j \<noteq> None" using wf_inhabited [OF right(2)] by blast
      then show False using right(4) [of j] map_of_above [OF above, of j] by (simp split: if_splits)
    qed
    ultimately show ?thesis
      using leD [OF km] ne nc unfolding ucmap_from_sorted_array_rec.simps d(1) Let_def
      by (simp add: ucmap_node_defs del: dropWhile_eq_Nil_conv)
  qed
  then show thesis using that right by (simp add: wf_Node)
qed

lemma sorted_rec_Suc:
  assumes rec: "sorted_rec_ok n" and loop: "sorted_loop_ok n"
  shows "sorted_rec_ok (Suc n)"
  unfolding sorted_rec_ok_def
proof (intro allI impI)
  fix m and arr :: "ucmap_element list"
  assume s: "sorted (map fst arr)" and len: "2 * length arr + 1 \<le> Suc n"
    and cl: "arr \<noteq> [] \<longrightarrow> closed_above (fst (hd arr)) m"
  show "\<exists>M. ucmap_from_sorted_array_rec (Suc n) m arr = Some (M, dropWhile (\<lambda>e. fst e \<le> m) arr) \<and> ucmap_wf M
        \<and> (\<forall>j. cucon_ucmap_find M j = (if j \<le> m then map_of arr j else None))"
  proof (cases arr)
    case (Cons p ps)
    then obtain k v where arr: "arr = (k, v) # ps" by (cases p) auto
    let ?ps = "dropWhile (\<lambda>e. fst e \<le> k) ps"
    note d = sorted_drop_key [OF s [unfolded arr]]
    consider "m < k" | "k \<le> m" "?ps = []" | "k \<le> m" "?ps \<noteq> []" by fastforce
    then show ?thesis
    proof cases
      case 1
      then have "map_of arr j = None" if "j \<le> m" for j
        using s that unfolding arr by (fastforce simp: map_of_eq_None_iff)
      then show ?thesis using 1 by (simp add: arr)
    next
      case 2
      have "dropWhile (\<lambda>e. fst e \<le> m) arr = []" "map_of arr j = (if j = k then Some v else None)" for j
        using d(5) [OF 2(1)] d(4) [of j] unfolding arr 2(2) by simp_all
      moreover have "ucmap_from_sorted_array_rec (Suc n) m arr = Some (Node k Null Null True v, [])"
        using 2(1) unfolding arr ucmap_from_sorted_array_rec.simps d(1) 2(2) by (simp add: ucmap_node_defs)
      ultimately show ?thesis using 2(1) by (auto simp: wf_Node simp del: dropWhile_eq_Nil_conv)
    next
      case 3
      have n: "2 * length ?ps + 1 \<le> n" using len d(6) by (simp add: arr)
      then have l: "2 * length (dropWhile (\<lambda>e. fst e \<le> k OR (k - 1)) ?ps) + 2 \<le> n"
        using len 3(2) d(6) length_dropWhile_le [of "\<lambda>e. fst e \<le> k OR (k - 1)" ?ps]
        by (cases ps) (simp_all add: arr)
      from sorted_rec_enters_loop [OF rec s [unfolded arr] 3(1) n 3(2)] obtain right
        where right: "ucmap_wf (Node k Null right True v)"
          "\<And>j. cucon_ucmap_find right j = (if j \<le> k OR (k - 1) then map_of ?ps j else None)"
          "ucmap_from_sorted_array_rec (Suc n) m arr = ucmap_from_sorted_array_loop n m k
             (Node k Null right True v) (dropWhile (\<lambda>e. fst e \<le> k OR (k - 1)) ?ps)"
        unfolding arr by blast
      have "closed_above k m" using cl by (simp add: arr)
      then obtain M where M: "ucmap_from_sorted_array_rec (Suc n) m arr = Some (M, dropWhile (\<lambda>e. fst e \<le> m) ?ps)"
          "ucmap_wf M" "\<And>j. cucon_ucmap_find M j =
            (if j < k then cucon_ucmap_find Null j else if j = k then (if True then Some v else None)
             else if j \<le> m then map_of ?ps j else None)"
        using sorted_loopD [OF loop d(3,2) _ 3(1) right(1,2) l] unfolding right(3) by blast
      have "cucon_ucmap_find M j = (if j \<le> m then map_of arr j else None)" for j
        using 3(1) map_of_above [OF d(2), of j] unfolding M(3) arr d(4) by auto
      then show ?thesis using M(1,2) d(5) [OF 3(1)] unfolding arr by auto
    qed
  qed simp
qed

text \<open>A node placed on top of the current one, its right branch read from the array.\<close>

lemma sorted_attach:
  assumes rec: "sorted_rec_ok n" and loop: "sorted_loop_ok n"
    and s: "sorted (map fst ps)" and above: "\<forall>p\<in>set ps. k < fst p"
    and m: "closed_above k m" "k \<le> m" and cur: "ucmap_wf cur" "on_left k cur"
    and slot: "if hv then True else v = 0 \<and> cur \<noteq> Null \<and> ps \<noteq> [] \<and> fst (hd ps) \<le> k OR (k - 1)"
    and n: "2 * length ps + 1 \<le> n" and l: "2 * length (dropWhile (\<lambda>e. fst e \<le> k OR (k - 1)) ps) + 2 \<le> n"
  obtains right rest M where "ucmap_from_sorted_array_rec n (k OR (k - 1)) ps = Some (right, rest)"
    "ucmap_from_sorted_array_loop n m k (Node k cur right hv v) rest = Some (M, dropWhile (\<lambda>e. fst e \<le> m) ps)"
    "ucmap_wf M"
    "\<And>j. cucon_ucmap_find M j =
       (case cucon_ucmap_find cur j of
          None \<Rightarrow> if j = k then (if hv then Some v else None) else if j \<le> m then map_of ps j else None
        | Some w \<Rightarrow> Some w)"
proof -
  obtain right where right: "ucmap_from_sorted_array_rec n (k OR (k - 1)) ps =
       Some (right, dropWhile (\<lambda>e. fst e \<le> k OR (k - 1)) ps)" "ucmap_wf right" "on_right k right"
      "\<And>j. cucon_ucmap_find right j = (if j \<le> k OR (k - 1) then map_of ps j else None)"
    using sorted_recD [OF rec s above n] by blast
  have "right \<noteq> Null" if "\<not> hv"
    using that slot right(4) [of "fst (hd ps)"] by (cases ps) auto
  then have wfN: "ucmap_wf (Node k cur right hv v)" using cur right slot by (auto simp: wf_Node)
  obtain M where M: "ucmap_from_sorted_array_loop n m k (Node k cur right hv v)
        (dropWhile (\<lambda>e. fst e \<le> k OR (k - 1)) ps) = Some (M, dropWhile (\<lambda>e. fst e \<le> m) ps)" "ucmap_wf M"
      "\<And>j. cucon_ucmap_find M j =
         (if j < k then cucon_ucmap_find cur j else if j = k then (if hv then Some v else None)
          else if j \<le> m then map_of ps j else None)"
    using sorted_loopD [OF loop s above m wfN right(4) l] by blast
  have "cucon_ucmap_find M j =
       (case cucon_ucmap_find cur j of
          None \<Rightarrow> if j = k then (if hv then Some v else None) else if j \<le> m then map_of ps j else None
        | Some w \<Rightarrow> Some w)" for j
    using find_on_left [OF wf_ord cur(2), OF cur(1), of j] map_of_above [OF above, of j] unfolding M(3)
    by (auto split: option.splits)
  then show thesis using that right(1) M(1,2) by blast
qed

lemma sorted_loop_cover:
  assumes rec: "sorted_rec_ok n" and loop: "sorted_loop_ok n"
    and s: "sorted (map fst ((k, v) # ps))" and len: "2 * length ((k, v) # ps) + 2 \<le> Suc n"
    and m: "closed_above k m" "k \<le> m" and cur: "ucmap_wf cur" "cur \<noteq> Null"
    and cov: "ucmap_key_covers k (node_key cur)" "node_key cur < k"
  shows "\<exists>M. ucmap_from_sorted_array_loop (Suc n) m (node_key cur) cur ((k, v) # ps) =
        Some (M, dropWhile (\<lambda>e. fst e \<le> m) ((k, v) # ps)) \<and> ucmap_wf M
        \<and> (\<forall>j. cucon_ucmap_find M j = (case cucon_ucmap_find cur j of
               None \<Rightarrow> if j \<le> m then map_of ((k, v) # ps) j else None | Some w \<Rightarrow> Some w))"
proof -
  note d = sorted_drop_key [OF s]
  let ?ps = "dropWhile (\<lambda>e. fst e \<le> k) ps"
  have left: "on_left k cur" using cov by (simp add: on_left_def)
  have slot: "if True then True else v = 0 \<and> cur \<noteq> Null \<and> ?ps \<noteq> [] \<and> fst (hd ?ps) \<le> k OR (k - 1)" by simp
  have n: "2 * length ?ps + 1 \<le> n" using len d(6) by simp
  have l: "2 * length (dropWhile (\<lambda>e. fst e \<le> k OR (k - 1)) ?ps) + 2 \<le> n"
    using len d(6) length_dropWhile_le [of "\<lambda>e. fst e \<le> k OR (k - 1)" ?ps] by simp
  obtain right rest M where r: "ucmap_from_sorted_array_rec n (k OR (k - 1)) ?ps = Some (right, rest)"
    "ucmap_from_sorted_array_loop n m k (Node k cur right True v) rest = Some (M, dropWhile (\<lambda>e. fst e \<le> m) ?ps)"
    "ucmap_wf M"
    "\<And>j. cucon_ucmap_find M j =
       (case cucon_ucmap_find cur j of
          None \<Rightarrow> if j = k then (if True then Some v else None) else if j \<le> m then map_of ?ps j else None
        | Some w \<Rightarrow> Some w)"
    by (rule sorted_attach [OF rec loop d(3,2) m cur(1) left slot n l]) (rule that)
  have "ucmap_from_sorted_array_loop (Suc n) m (node_key cur) cur ((k, v) # ps) =
      Some (M, dropWhile (\<lambda>e. fst e \<le> m) ?ps)"
  proof (cases "?ps = []")
    case True
    obtain n' where n': "n = Suc n'" using len by (cases n) auto
    have "right = Null \<and> rest = []" using r(1) unfolding True n' by simp
    then have "M = Node k cur Null True v" using r(2) unfolding True n' by simp
    then show ?thesis
      using leD [OF m(2)] cov(1) unfolding ucmap_from_sorted_array_loop.simps d(1) True
      by (simp add: ucmap_node_defs)
  next
    case False
    then show ?thesis
      using leD [OF m(2)] cov(1) r(1,2) unfolding ucmap_from_sorted_array_loop.simps d(1) Let_def
      by (simp add: ucmap_node_defs del: dropWhile_eq_Nil_conv)
  qed
  moreover have "cucon_ucmap_find M j = (case cucon_ucmap_find cur j of
         None \<Rightarrow> if j \<le> m then map_of ((k, v) # ps) j else None | Some w \<Rightarrow> Some w)" for j
    using m(2) unfolding r(4) d(4) by (auto split: option.splits)
  ultimately show ?thesis using r(3) d(5) [OF m(2)] by auto
qed

lemma sorted_loop_join:
  assumes rec: "sorted_rec_ok n" and loop: "sorted_loop_ok n"
    and s: "sorted (map fst ((k, v) # ps))" and len: "2 * length ((k, v) # ps) + 2 \<le> Suc n"
    and m: "closed_above (node_key cur) m" "k \<le> m" and cur: "ucmap_wf cur" "cur \<noteq> Null"
    and cov: "\<not> ucmap_key_covers k (node_key cur)" "\<not> ucmap_key_covers (node_key cur) k" "node_key cur < k"
  shows "\<exists>M. ucmap_from_sorted_array_loop (Suc n) m (node_key cur) cur ((k, v) # ps) =
        Some (M, dropWhile (\<lambda>e. fst e \<le> m) ((k, v) # ps)) \<and> ucmap_wf M
        \<and> (\<forall>j. cucon_ucmap_find M j = (case cucon_ucmap_find cur j of
               None \<Rightarrow> if j \<le> m then map_of ((k, v) # ps) j else None | Some w \<Rightarrow> Some w))"
proof -
  let ?arr = "(k, v) # ps"
  define c where "c = ucmap_key_join (node_key cur) k"
  have c: "ucmap_key_covers c (node_key cur)" "ucmap_key_covers c k" "node_key cur < c" "c < k"
    using join_facts [of "node_key cur" k] cov unfolding c_def by auto
  have left: "on_left c cur" using c by (simp add: on_left_def)
  have above: "\<forall>p\<in>set ?arr. c < fst p" using c(4) s by fastforce
  have cm: "closed_above c m" "c \<le> m" using closed_above_mono [OF m(1)] c m(2) by auto
  have k: "k \<le> c OR (c - 1)" using covers_greater_iff [of c k] c by blast
  have slot: "if False then True else 0 = (0 :: u64) \<and> cur \<noteq> Null \<and> ?arr \<noteq> [] \<and> fst (hd ?arr) \<le> c OR (c - 1)"
    using k cur(2) by simp
  have n: "2 * length ?arr + 1 \<le> n" using len by simp
  have l: "2 * length (dropWhile (\<lambda>e. fst e \<le> c OR (c - 1)) ?arr) + 2 \<le> n"
    using len k length_dropWhile_le [of "\<lambda>e. fst e \<le> c OR (c - 1)" ps] by simp
  obtain right rest M where r: "ucmap_from_sorted_array_rec n (c OR (c - 1)) ?arr = Some (right, rest)"
    "ucmap_from_sorted_array_loop n m c (Node c cur right False 0) rest = Some (M, dropWhile (\<lambda>e. fst e \<le> m) ?arr)"
    "ucmap_wf M"
    "\<And>j. cucon_ucmap_find M j =
       (case cucon_ucmap_find cur j of
          None \<Rightarrow> if j = c then (if False then Some 0 else None) else if j \<le> m then map_of ?arr j else None
        | Some w \<Rightarrow> Some w)"
    by (rule sorted_attach [OF rec loop s above cm cur(1) left slot n l]) (rule that)
  have "ucmap_from_sorted_array_loop (Suc n) m (node_key cur) cur ?arr = Some (M, dropWhile (\<lambda>e. fst e \<le> m) ?arr)"
    using leD [OF m(2)] cov r(1,2) unfolding ucmap_from_sorted_array_loop.simps Let_def
    by (simp add: ucmap_node_defs c_def)
  moreover have "cucon_ucmap_find M j = (case cucon_ucmap_find cur j of
         None \<Rightarrow> if j \<le> m then map_of ?arr j else None | Some w \<Rightarrow> Some w)" for j
    using map_of_above [OF above, of c] unfolding r(4) by (auto split: option.splits)
  ultimately show ?thesis using r(3) by blast
qed

lemma sorted_loop_Suc:
  assumes rec: "sorted_rec_ok n" and loop: "sorted_loop_ok n"
  shows "sorted_loop_ok (Suc n)"
  unfolding sorted_loop_ok_def
proof (intro allI impI)
  fix m and arr :: "ucmap_element list" and cur
  assume s: "sorted (map fst arr)" and len: "2 * length arr + 2 \<le> Suc n"
    and cl: "closed_above (node_key cur) m" and cur: "ucmap_wf cur" "cur \<noteq> Null"
    and above: "\<forall>p\<in>set arr. node_key cur OR (node_key cur - 1) < fst p"
  show "\<exists>M. ucmap_from_sorted_array_loop (Suc n) m (node_key cur) cur arr =
        Some (M, dropWhile (\<lambda>e. fst e \<le> m) arr) \<and> ucmap_wf M
        \<and> (\<forall>j. cucon_ucmap_find M j =
             (case cucon_ucmap_find cur j of None \<Rightarrow> if j \<le> m then map_of arr j else None | Some w \<Rightarrow> Some w))"
  proof (cases arr)
    case Nil
    then show ?thesis using cur by (auto split: option.splits)
  next
    case (Cons p ps)
    then obtain k v where arr: "arr = (k, v) # ps" by (cases p) auto
    have lt: "node_key cur OR (node_key cur - 1) < k" "node_key cur < k"
      using above block_max_ge [of "node_key cur"] by (auto simp: arr)
    have ncov: "\<not> ucmap_key_covers (node_key cur) k"
      using covers_greater_iff [of "node_key cur" k] lt by auto
    show ?thesis
    proof (cases "m < k")
      case True
      then have "map_of arr j = None" if "j \<le> m" for j
        using s that unfolding arr by (fastforce simp: map_of_eq_None_iff)
      then show ?thesis using True cur by (auto simp: arr split: option.splits)
    next
      case False
      then have km: "k \<le> m" by simp
      note sl = s [unfolded arr] len [unfolded arr]
      show ?thesis
      proof (cases "ucmap_key_covers k (node_key cur)")
        case True
        show ?thesis
          unfolding arr
          by (rule sorted_loop_cover [OF rec loop sl closed_above_mono [OF cl less_imp_le [OF lt(2)]] km cur True lt(2)])
      next
        case False
        show ?thesis
          unfolding arr by (rule sorted_loop_join [OF rec loop sl cl km cur False ncov lt(2)])
      qed
    qed
  qed
qed

lemma sorted_ok: "sorted_rec_ok n \<and> sorted_loop_ok n"
proof (induction n)
  case 0
  show ?case by (simp add: sorted_rec_ok_def sorted_loop_ok_def)
next
  case (Suc n)
  then show ?case using sorted_rec_Suc sorted_loop_Suc by blast
qed

lemma from_sorted_array:
  assumes "sorted (map fst arr)"
  shows "\<exists>M. cucon_ucmap_from_sorted_array arr = Some M \<and> ucmap_wf M \<and> cucon_ucmap_find M = map_of arr"
proof -
  have "closed_above lo (-1)" for lo by (simp add: closed_above_def)
  then obtain M where "ucmap_from_sorted_array_rec (2 * length arr + 1) (-1) arr =
      Some (M, dropWhile (\<lambda>e. fst e \<le> -1) arr)" "ucmap_wf M" "\<And>j. cucon_ucmap_find M j = map_of arr j"
    using sorted_ok [of "2 * length arr + 1"] assms unfolding sorted_rec_ok_def
    by (metis le_refl word_order.extremum)
  moreover have "dropWhile (\<lambda>e. fst e \<le> -1) arr = []" by simp
  ultimately show ?thesis by (simp add: cucon_ucmap_from_sorted_array_def fun_eq_iff del: dropWhile_eq_Nil_conv)
qed

section \<open>Properties\<close>

text \<open>C3: \<open>cucon_ucmap_from_sorted_array\<close> on an array sorted by key terminates with every element
  consumed, and returns a well-formed map that holds for each key the value of its first occurrence;
  with nonzero values this is the very map that inserting the elements from last to first builds.\<close>

theorem ucmap_from_sorted_array_correct:
  assumes "sorted (map fst arr)"
  shows "\<exists>M. cucon_ucmap_from_sorted_array arr = Some M \<and> ucmap_wf M \<and> cucon_ucmap_find M = map_of arr
     \<and> (0 \<notin> snd ` set arr \<longrightarrow>
          M = fold (\<lambda>(k, v) m. cucon_ucmap_insert m k v) (rev arr) cucon_ucmap_empty)"
proof -
  obtain M where M: "cucon_ucmap_from_sorted_array arr = Some M" "ucmap_wf M" "cucon_ucmap_find M = map_of arr"
    using from_sorted_array [OF assms] by blast
  moreover have "M = fold (\<lambda>(k, v) m. cucon_ucmap_insert m k v) (rev arr) cucon_ucmap_empty"
    if "0 \<notin> snd ` set arr"
    using ucmap_map.built_by_insertion [OF M(2,3)] that unfolding ucmap_map.insert_all_def by force
  ultimately show ?thesis by blast
qed

theorem ucmap_from_sorted_array_correct_witness:
  "\<exists>M. cucon_ucmap_from_sorted_array [(0x8100, 1), (0x8108, 2), (0x8108, 9), (0x8109, 3)] = Some M
     \<and> cucon_ucmap_find M 0x8108 = Some 2"
proof -
  have "sorted (map fst [(0x8100 :: u64, 1 :: u64), (0x8108, 2), (0x8108, 9), (0x8109, 3)])" by simp
  from ucmap_from_sorted_array_correct [OF this] show ?thesis by fastforce
qed

end
