(* ===== verification/Ucset.thy ===== *)
theory Ucset
  imports KeyCover
begin

text \<open>
  The constructive sets of unsigned integers of \<^verbatim>\<open>cucon/ucset.c\<close>: tries whose leaves are
  bitsets of 128 elements. An element that is a nonzero multiple of 128 is the key of a branch
  node, marked in the low bit of the raw key; every other element is a bit of a leaf. Sets are
  hash-consed, so pointer comparison is equality of values. The C code tells a leaf from a
  branch node by \<open>_key_is_leaflike\<close> of its key and casts; reading a field that the
  struct does not have gives a default here, and the invariant of \<open>UcsetContents\<close> (which
  includes the assertions of the node constructors) rules it out. A 64-bit word platform is
  taken, so \<open>BITSET_WIDTH\<close> is 128. Callbacks pass a state along.
\<close>

section \<open>Nodes and keys\<close>

datatype ucset =
    Nul
  | Ucnode (raw_key: u64) (left: ucset) (right: ucset)
  | Ucleaf (raw_key: u64) (bitset: "u64 list")
where
  "left Nul = Nul"
| "left (Ucleaf k b) = Nul"
| "right Nul = Nul"
| "right (Ucleaf k b) = Nul"
| "bitset Nul = []"
| "bitset (Ucnode k l r) = []"

definition ucset_key_covers :: "u64 \<Rightarrow> u64 \<Rightarrow> bool" where
  "ucset_key_covers key0 key1 =
     (let mask0 = NOT (key0 XOR (key0 - 1))
      in key0 \<noteq> 0 \<and> key0 AND mask0 = key1 AND mask0 \<and> (key1 AND NOT mask0 \<noteq> 0 \<or> key1 = 0))"

definition ucset_key_coverseq :: "u64 \<Rightarrow> u64 \<Rightarrow> bool" where
  "ucset_key_coverseq key0 key1 =
     (let mask0 = NOT (key0 XOR (key0 - 1)) in key0 AND mask0 = key1 AND mask0)"

definition key_is_leaflike :: "u64 \<Rightarrow> bool" where
  "key_is_leaflike key = (if key = 0 then True else let mask = key XOR (key - 1) in mask < 128)"

definition ucset_key_join :: "u64 \<Rightarrow> u64 \<Rightarrow> u64" where
  "ucset_key_join k0 k1 =
     (let k = cu_uintptr_dcover (k0 XOR k1) in (k0 AND NOT k) OR (drop_bit 1 k + 1))"

definition key_max :: "u64 \<Rightarrow> u64" where
  "key_max k = k OR (k - 1)"

definition ucnode_key :: "ucset \<Rightarrow> u64" where
  "ucnode_key node = raw_key node AND NOT 1"

definition ucnode_new :: "u64 \<Rightarrow> ucset \<Rightarrow> ucset \<Rightarrow> ucset" where
  "ucnode_new key l r = Ucnode key l r"

definition leaf_key :: "u64 \<Rightarrow> u64" where
  "leaf_key key = (key AND NOT 127) OR drop_bit 1 (127 + 1)"

section \<open>Leaves\<close>

definition ucleaf_find :: "ucset \<Rightarrow> u64 \<Rightarrow> bool" where
  "ucleaf_find node key =
     (let key = key AND 127
      in bitset node ! unat (key div 64) AND push_bit (unat (key mod 64)) 1 \<noteq> 0)"

definition ucleaf_subeq :: "ucset \<Rightarrow> ucset \<Rightarrow> bool" where
  "ucleaf_subeq lhs rhs = list_all2 (\<lambda>x y. x AND NOT y = 0) (bitset lhs) (bitset rhs)"

definition word_bit_count :: "u64 \<Rightarrow> u64" where
  "word_bit_count x = ucast (the (cu_uint64_bit_count x))"

definition ucleaf_card :: "ucset \<Rightarrow> u64" where
  "ucleaf_card node = fold (\<lambda>x card. card + word_bit_count x) (bitset node) (raw_key node AND 1)"

fun ucleaf_is_singleton_loop :: "u64 list \<Rightarrow> bool" where
  "ucleaf_is_singleton_loop [] = False"
| "ucleaf_is_singleton_loop (x # xs) =
     (let cnt = word_bit_count x in
      if cnt > 1 then False
      else if cnt \<noteq> 0 then list_all (\<lambda>y. y = 0) xs
      else ucleaf_is_singleton_loop xs)"

definition ucleaf_is_singleton :: "ucset \<Rightarrow> bool" where
  "ucleaf_is_singleton node = ucleaf_is_singleton_loop (bitset node)"

text \<open>\<open>bitset[key/64] |= 1 << key%64\<close>, for a key already reduced to its low bits.\<close>

definition set_bitset_bit :: "u64 list \<Rightarrow> u64 \<Rightarrow> u64 list" where
  "set_bitset_bit b key =
     (let i = unat (key div 64) in b[i := b ! i OR push_bit (unat (key mod 64)) 1])"

definition ucleaf_new :: "u64 \<Rightarrow> ucset" where
  "ucleaf_new key = Ucleaf (leaf_key key) (set_bitset_bit [0, 0] (key AND 127))"

definition ucleaf_insert :: "ucset \<Rightarrow> u64 \<Rightarrow> ucset" where
  "ucleaf_insert src_node add_key =
     Ucleaf (raw_key src_node) (set_bitset_bit (bitset src_node) (add_key AND 127))"

definition ucleaf_erase :: "ucset \<Rightarrow> u64 \<Rightarrow> ucset" where
  "ucleaf_erase src_node del_key =
     (let del_key = del_key AND 127; i = unat (del_key div 64);
          bits = bitset src_node ! i; bt = push_bit (unat (del_key mod 64)) 1
      in if bits AND bt = 0 then src_node
         else
           (let b = (bitset src_node)[i := bits AND NOT bt]
            in if list_ex (\<lambda>x. x \<noteq> 0) b then Ucleaf (raw_key src_node) b else Nul))"

definition ucleaf_union :: "ucset \<Rightarrow> ucset \<Rightarrow> ucset" where
  "ucleaf_union lhs rhs = Ucleaf (raw_key lhs) (map2 (OR) (bitset lhs) (bitset rhs))"

definition ucleaf_isecn :: "ucset \<Rightarrow> ucset \<Rightarrow> ucset" where
  "ucleaf_isecn lhs rhs =
     (let b = map2 (AND) (bitset lhs) (bitset rhs); have_nonzero = list_ex (\<lambda>x. x \<noteq> 0) b
      in if have_nonzero then Ucleaf (raw_key lhs) b else Nul)"

definition ucleaf_minus :: "ucset \<Rightarrow> ucset \<Rightarrow> ucset" where
  "ucleaf_minus lhs rhs =
     (let b = map2 (\<lambda>x y. x AND NOT y) (bitset lhs) (bitset rhs); have_nonzero = list_ex (\<lambda>x. x \<noteq> 0) b
      in if have_nonzero then Ucleaf (raw_key lhs) b else Nul)"

text \<open>
  The filter of a leaf counts its keys in an \<open>int\<close>: 32 bits, sign-extended when passed to the
  callback. The inner loop runs over the 64 bits, \<open>n\<close> being the current one.
\<close>

type_synonym 's ucset_pred = "u64 \<Rightarrow> 's \<Rightarrow> bool \<times> 's"

fun ucleaf_filter_word :: "'s ucset_pred \<Rightarrow> nat \<Rightarrow> u32 \<Rightarrow> u64 \<Rightarrow> bool \<Rightarrow> 's \<Rightarrow> u32 \<times> u64 \<times> bool \<times> 's" where
  "ucleaf_filter_word f 0 key bits have_change s = (key, bits, have_change, s)"
| "ucleaf_filter_word f (Suc k) key bits have_change s =
     (let bt = push_bit (63 - k) 1 in
      if bits AND bt \<noteq> 0 then
        (case f (scast key) s of
           (True, s) \<Rightarrow> ucleaf_filter_word f k (key + 1) bits have_change s
         | (False, s) \<Rightarrow> ucleaf_filter_word f k (key + 1) (bits AND NOT bt) True s)
      else ucleaf_filter_word f k (key + 1) bits have_change s)"

fun ucleaf_filter_loop :: "'s ucset_pred \<Rightarrow> u32 \<Rightarrow> u64 list \<Rightarrow> bool \<Rightarrow> 's \<Rightarrow> u64 list \<times> bool \<times> 's" where
  "ucleaf_filter_loop f key [] have_change s = ([], have_change, s)"
| "ucleaf_filter_loop f key (x # xs) have_change s =
     (case ucleaf_filter_word f 64 key x have_change s of
        (key, bits, have_change, s) \<Rightarrow>
          (case ucleaf_filter_loop f key xs have_change s of
             (b, have_change, s) \<Rightarrow> (bits # b, have_change, s)))"

definition ucleaf_filter :: "ucset \<Rightarrow> 's ucset_pred \<Rightarrow> 's \<Rightarrow> ucset \<times> 's" where
  "ucleaf_filter src_node f s =
     (case ucleaf_filter_loop f (ucast (raw_key src_node AND NOT 127)) (bitset src_node) False s of
        (b, have_change, s) \<Rightarrow>
          (if have_change then (if list_ex (\<lambda>x. x \<noteq> 0) b then Ucleaf (raw_key src_node) b else Nul)
           else src_node, s))"

section \<open>Comparison\<close>

definition cucon_ucset_eq :: "ucset \<Rightarrow> ucset \<Rightarrow> bool" where
  "cucon_ucset_eq set0 set1 \<longleftrightarrow> set0 = set1"

primrec nodes :: "ucset \<Rightarrow> nat" where
  "nodes Nul = 0"
| "nodes (Ucnode k l r) = Suc (nodes l + nodes r)"
| "nodes (Ucleaf k b) = 1"

lemma nodes_left: "t \<noteq> Nul \<Longrightarrow> nodes (left t) < nodes t"
  by (cases t) auto

lemma nodes_right: "t \<noteq> Nul \<Longrightarrow> nodes (right t) < nodes t"
  by (cases t) auto

lemmas nodes_branch = nodes_left nodes_right add_less_mono

function cucon_ucset_subeq :: "ucset \<Rightarrow> ucset \<Rightarrow> bool" where
  "cucon_ucset_subeq lhs rhs =
     (if lhs = rhs then True
      else if lhs = Nul then True
      else if rhs = Nul then False
      else
        (let lhs_key = ucnode_key lhs; rhs_key = ucnode_key rhs in
         if lhs_key = rhs_key then
           (if key_is_leaflike lhs_key then ucleaf_subeq lhs rhs
            else if raw_key lhs AND 1 > raw_key rhs AND 1 then False
            else if \<not> cucon_ucset_subeq (left lhs) (left rhs) then False
            else cucon_ucset_subeq (right lhs) (right rhs))
         else if ucset_key_covers rhs_key lhs_key then
           (if lhs_key < rhs_key then cucon_ucset_subeq lhs (left rhs)
            else cucon_ucset_subeq lhs (right rhs))
         else False))"
  by pat_completeness auto
termination
  by (relation "measure (\<lambda>(lhs, rhs). nodes lhs + nodes rhs)") (auto simp: nodes_branch)

function cucon_ucset_disjoint :: "ucset \<Rightarrow> ucset \<Rightarrow> bool" where
  "cucon_ucset_disjoint lhs rhs =
     (if lhs = Nul \<or> rhs = Nul then True
      else if lhs = rhs then False
      else
        (let lhs_key = ucnode_key lhs; rhs_key = ucnode_key rhs in
         if lhs_key = rhs_key then
           (if key_is_leaflike lhs_key then list_all2 (\<lambda>x y. x AND y = 0) (bitset lhs) (bitset rhs)
            else if raw_key lhs AND raw_key rhs AND 1 \<noteq> 0 then False
            else if \<not> cucon_ucset_disjoint (left lhs) (left rhs) then False
            else cucon_ucset_disjoint (right lhs) (right rhs))
         else if ucset_key_covers rhs_key lhs_key then
           (if lhs_key < rhs_key then cucon_ucset_disjoint lhs (left rhs)
            else cucon_ucset_disjoint lhs (right rhs))
         else if ucset_key_covers lhs_key rhs_key then
           (if rhs_key < lhs_key then cucon_ucset_disjoint (left lhs) rhs
            else cucon_ucset_disjoint (right lhs) rhs)
         else True))"
  by pat_completeness auto
termination
  by (relation "measure (\<lambda>(lhs, rhs). nodes lhs + nodes rhs)") (auto simp: nodes_branch)

section \<open>Construction\<close>

definition cucon_ucset_empty :: ucset where
  "cucon_ucset_empty = Nul"

definition cucon_ucset_is_empty :: "ucset \<Rightarrow> bool" where
  "cucon_ucset_is_empty S \<longleftrightarrow> S = Nul"

definition cucon_ucset_singleton :: "u64 \<Rightarrow> ucset" where
  "cucon_ucset_singleton key =
     (if key_is_leaflike key then ucleaf_new key else ucnode_new (key OR 1) Nul Nul)"

definition cucon_ucset_is_singleton :: "ucset \<Rightarrow> bool" where
  "cucon_ucset_is_singleton S =
     (if key_is_leaflike (ucnode_key S) then ucleaf_is_singleton S
      else left S = Nul \<and> right S = Nul)"

function cucon_ucset_insert :: "ucset \<Rightarrow> u64 \<Rightarrow> ucset" where
  "cucon_ucset_insert node key =
     (if node = Nul then
        (if key_is_leaflike key then ucleaf_new key else ucnode_new (key OR 1) Nul Nul)
      else
        (let node_key = ucnode_key node in
         if key = node_key then
           (if key_is_leaflike key then ucleaf_insert node key
            else if raw_key node AND 1 \<noteq> 0 then node
            else ucnode_new (raw_key node OR 1) (left node) (right node))
         else if ucset_key_covers node_key key then
           (if key_is_leaflike node_key then
              (if ucleaf_find node key then node else ucleaf_insert node key)
            else if key < node_key then
              (let new_left = cucon_ucset_insert (left node) key in
               if new_left \<noteq> left node then ucnode_new (raw_key node) new_left (right node) else node)
            else
              (let new_right = cucon_ucset_insert (right node) key in
               if new_right \<noteq> right node then ucnode_new (raw_key node) (left node) new_right else node))
         else if ucset_key_covers key node_key then
           (if node_key < key then ucnode_new (key OR 1) node Nul
            else ucnode_new (key OR 1) Nul node)
         else
           (let key_node = (if key_is_leaflike key then ucleaf_new key else ucnode_new (key OR 1) Nul Nul);
                j = cu_uintptr_dcover (key XOR node_key);
                j = (key AND NOT j) OR (drop_bit 1 j + 1)
            in if key < node_key then ucnode_new j key_node node
               else ucnode_new j node key_node)))"
  by pat_completeness auto
termination
  by (relation "measure (\<lambda>(node, key). nodes node)") (auto simp: nodes_branch)

function cucon_ucset_erase :: "ucset \<Rightarrow> u64 \<Rightarrow> ucset" where
  "cucon_ucset_erase node key =
     (if node = Nul then Nul
      else
        (let node_key = ucnode_key node in
         if key = node_key then
           (if key_is_leaflike node_key then ucleaf_erase node key
            else if raw_key node AND 1 \<noteq> 0 then
              (if left node = Nul then right node
               else if right node = Nul then left node
               else ucnode_new (raw_key node AND NOT 1) (left node) (right node))
            else node)
         else if ucset_key_covers node_key key then
           (if key_is_leaflike node_key then ucleaf_erase node key
            else if key < node_key then
              (let new_left = cucon_ucset_erase (left node) key in
               if new_left \<noteq> left node then
                 (if new_left = Nul \<and> raw_key node AND 1 = 0 then right node
                  else ucnode_new (raw_key node) new_left (right node))
               else node)
            else
              (let new_right = cucon_ucset_erase (right node) key in
               if new_right \<noteq> right node then
                 (if new_right = Nul \<and> raw_key node AND 1 = 0 then left node
                  else ucnode_new (raw_key node) (left node) new_right)
               else node))
         else node))"
  by pat_completeness auto
termination
  by (relation "measure (\<lambda>(node, key). nodes node)") (auto simp: nodes_branch)

section \<open>Set operations\<close>

text \<open>A call that swaps the arguments is made at most once in a row.\<close>

definition swap_measure :: "ucset \<times> ucset \<Rightarrow> nat" where
  "swap_measure p = (case p of (lhs, rhs) \<Rightarrow>
     of_bool (\<not> ucset_key_covers (ucnode_key rhs) (ucnode_key lhs)))"

function cucon_ucset_union :: "ucset \<Rightarrow> ucset \<Rightarrow> ucset" where
  "cucon_ucset_union lhs rhs =
     (if lhs = Nul then rhs
      else if rhs = Nul then lhs
      else
        (let lhs_key = ucnode_key lhs; rhs_key = ucnode_key rhs in
         if lhs_key = rhs_key then
           (if key_is_leaflike lhs_key then ucleaf_union lhs rhs
            else
              (let l = cucon_ucset_union (left lhs) (left rhs);
                   r = cucon_ucset_union (right lhs) (right rhs)
               in ucnode_new (raw_key lhs OR raw_key rhs) l r))
         else if ucset_key_covers rhs_key lhs_key then
           (if lhs_key < rhs_key then
              (let l = cucon_ucset_union lhs (left rhs) in ucnode_new (raw_key rhs) l (right rhs))
            else
              (let r = cucon_ucset_union lhs (right rhs) in ucnode_new (raw_key rhs) (left rhs) r))
         else if ucset_key_covers lhs_key rhs_key then cucon_ucset_union rhs lhs
         else
           (let j = cu_uintptr_dcover (lhs_key XOR rhs_key);
                j = (lhs_key AND NOT j) OR (drop_bit 1 j + 1)
            in if lhs_key < rhs_key then ucnode_new j lhs rhs else ucnode_new j rhs lhs)))"
  by pat_completeness auto
termination
  by (relation "measures [\<lambda>(lhs, rhs). nodes lhs + nodes rhs, swap_measure]")
    (auto simp: nodes_branch swap_measure_def)

function cucon_ucset_isecn :: "ucset \<Rightarrow> ucset \<Rightarrow> ucset" where
  "cucon_ucset_isecn lhs rhs =
     (if lhs = Nul \<or> rhs = Nul then Nul
      else
        (let lhs_key = ucnode_key lhs; rhs_key = ucnode_key rhs in
         if lhs_key = rhs_key then
           (if key_is_leaflike lhs_key then ucleaf_isecn lhs rhs
            else
              (let key = raw_key lhs AND raw_key rhs;
                   l = cucon_ucset_isecn (left lhs) (left rhs);
                   r = cucon_ucset_isecn (right lhs) (right rhs)
               in if key AND 1 = 0 \<and> l = Nul then r
                  else if key AND 1 = 0 \<and> r = Nul then l
                  else ucnode_new key l r))
         else if ucset_key_covers rhs_key lhs_key then
           (if lhs_key < rhs_key then cucon_ucset_isecn lhs (left rhs)
            else cucon_ucset_isecn lhs (right rhs))
         else if ucset_key_covers lhs_key rhs_key then cucon_ucset_isecn rhs lhs
         else Nul))"
  by pat_completeness auto
termination
  by (relation "measures [\<lambda>(lhs, rhs). nodes lhs + nodes rhs, swap_measure]")
    (auto simp: nodes_branch swap_measure_def)

function cucon_ucset_compl :: "ucset \<Rightarrow> ucset \<Rightarrow> ucset" where
  "cucon_ucset_compl lhs rhs =
     (if lhs = Nul then Nul
      else if rhs = Nul then lhs
      else
        (let lhs_key = ucnode_key lhs; rhs_key = ucnode_key rhs in
         if lhs_key = rhs_key then
           (if key_is_leaflike lhs_key then ucleaf_minus lhs rhs
            else
              (let key = raw_key lhs AND NOT (raw_key rhs AND 1);
                   l = cucon_ucset_compl (left lhs) (left rhs);
                   r = cucon_ucset_compl (right lhs) (right rhs)
               in if key AND 1 = 0 \<and> l = Nul then r
                  else if key AND 1 = 0 \<and> r = Nul then l
                  else ucnode_new key l r))
         else if ucset_key_covers lhs_key rhs_key then
           (if rhs_key < lhs_key then
              (let l = cucon_ucset_compl (left lhs) rhs in
               if l = Nul \<and> raw_key lhs AND 1 = 0 then right lhs
               else ucnode_new (raw_key lhs) l (right lhs))
            else
              (let r = cucon_ucset_compl (right lhs) rhs in
               if r = Nul \<and> raw_key lhs AND 1 = 0 then left lhs
               else ucnode_new (raw_key lhs) (left lhs) r))
         else if ucset_key_covers rhs_key lhs_key then
           (if lhs_key < rhs_key then cucon_ucset_compl lhs (left rhs)
            else cucon_ucset_compl lhs (right rhs))
         else lhs))"
  by pat_completeness auto
termination
  by (relation "measure (\<lambda>(lhs, rhs). nodes lhs + nodes rhs)") (auto simp: nodes_branch)

function cucon_ucset_find :: "ucset \<Rightarrow> u64 \<Rightarrow> bool" where
  "cucon_ucset_find node key =
     (if node = Nul then False
      else
        (let node_key = ucnode_key node in
         if \<not> ucset_key_coverseq node_key key then False
         else if key_is_leaflike node_key then ucleaf_find node key
         else if key = node_key then raw_key node AND 1 \<noteq> 0
         else if key < node_key then cucon_ucset_find (left node) key
         else cucon_ucset_find (right node) key))"
  by pat_completeness auto
termination
  by (relation "measure (\<lambda>(node, key). nodes node)") (auto simp: nodes_branch)

declare cucon_ucset_subeq.simps [simp del] cucon_ucset_disjoint.simps [simp del]
  cucon_ucset_insert.simps [simp del] cucon_ucset_erase.simps [simp del]
  cucon_ucset_union.simps [simp del] cucon_ucset_isecn.simps [simp del]
  cucon_ucset_compl.simps [simp del] cucon_ucset_find.simps [simp del]

end
