(* ===== verification/UcsetIter.thy ===== *)
theory UcsetIter
  imports Ucset
begin

text \<open>
  The operations of \<^verbatim>\<open>cucon/ucset.c\<close> that visit the elements of a set: iteration with
  callbacks, filtering, images, counting, extremal elements, clipping, the construction from
  sorted input, explicit iterators and translation.
\<close>

section \<open>Iteration\<close>

text \<open>The \<open>do ... while (++k & BITSET_MASK)\<close> loops over the keys of a leaf.\<close>

lemma leaf_loop_step:
  assumes "(k + 1) AND 127 \<noteq> (0 :: u64)"
  shows "127 - unat ((k + 1) AND 127) < 127 - unat (k AND 127)"
proof -
  have m: "x AND 127 = x mod 128" for x :: u64
    using word_mod_2p_is_mask [of 7 x] by (simp add: mask_eq_decr_exp)
  have "unat (k + 1) mod 128 = (unat k + 1) mod 128"
    by (simp add: unat_word_ariths mod_mod_cancel)
  moreover have "unat (k + 1) mod 128 \<noteq> 0"
    using assms unfolding m word_unat_eq_iff by (simp add: unat_mod)
  ultimately have "unat (k + 1) mod 128 = Suc (unat k mod 128)"
    by (metis One_nat_def Suc_eq_plus1 mod_Suc)
  moreover have "unat k mod 128 < 128" by simp
  moreover have "unat (k + 1) mod 128 < 128" by simp
  ultimately show ?thesis unfolding m unat_mod by simp
qed

function ucleaf_conj_loop :: "ucset \<Rightarrow> 's ucset_pred \<Rightarrow> u64 \<Rightarrow> 's \<Rightarrow> bool \<times> 's" where
  "ucleaf_conj_loop node cb k s =
     (case (if ucleaf_find node k then cb k s else (True, s)) of
        (False, s) \<Rightarrow> (False, s)
      | (True, s) \<Rightarrow>
          if (k + 1) AND 127 \<noteq> 0 then ucleaf_conj_loop node cb (k + 1) s else (True, s))"
  by pat_completeness auto
termination
  by (relation "measure (\<lambda>(node, cb, k, s). 127 - unat (k AND 127))") (use leaf_loop_step in auto)

fun cucon_ucset_conj :: "ucset \<Rightarrow> 's ucset_pred \<Rightarrow> 's \<Rightarrow> bool \<times> 's" where
  "cucon_ucset_conj Nul cb s = (True, s)"
| "cucon_ucset_conj (Ucleaf key b) cb s =
     ucleaf_conj_loop (Ucleaf key b) cb (ucnode_key (Ucleaf key b) AND NOT 127) s"
| "cucon_ucset_conj (Ucnode key l r) cb s =
     (case cucon_ucset_conj l cb s of
        (False, s) \<Rightarrow> (False, s)
      | (True, s) \<Rightarrow>
          (case (if key AND 1 \<noteq> 0 then cb (ucnode_key (Ucnode key l r)) s else (True, s)) of
             (False, s) \<Rightarrow> (False, s)
           | (True, s) \<Rightarrow> cucon_ucset_conj r cb s))"

function ucleaf_iter_loop :: "ucset \<Rightarrow> (u64 \<Rightarrow> 's \<Rightarrow> 's) \<Rightarrow> u64 \<Rightarrow> 's \<Rightarrow> 's" where
  "ucleaf_iter_loop node f k s =
     (let s = (if ucleaf_find node k then f k s else s)
      in if (k + 1) AND 127 \<noteq> 0 then ucleaf_iter_loop node f (k + 1) s else s)"
  by pat_completeness auto
termination
  by (relation "measure (\<lambda>(node, f, k, s). 127 - unat (k AND 127))") (use leaf_loop_step in auto)

declare ucleaf_conj_loop.simps [simp del] ucleaf_iter_loop.simps [simp del]

fun cucon_ucset_iter :: "ucset \<Rightarrow> (u64 \<Rightarrow> 's \<Rightarrow> 's) \<Rightarrow> 's \<Rightarrow> 's" where
  "cucon_ucset_iter Nul f s = s"
| "cucon_ucset_iter (Ucleaf key b) f s =
     ucleaf_iter_loop (Ucleaf key b) f (ucnode_key (Ucleaf key b) AND NOT 127) s"
| "cucon_ucset_iter (Ucnode key l r) f s =
     (let s = cucon_ucset_iter l f s;
          s = (if key AND 1 \<noteq> 0 then f (ucnode_key (Ucnode key l r)) s else s)
      in cucon_ucset_iter r f s)"

fun cucon_ucset_filter :: "ucset \<Rightarrow> 's ucset_pred \<Rightarrow> 's \<Rightarrow> ucset \<times> 's" where
  "cucon_ucset_filter Nul f s = (Nul, s)"
| "cucon_ucset_filter (Ucleaf key b) f s = ucleaf_filter (Ucleaf key b) f s"
| "cucon_ucset_filter (Ucnode key l r) f s =
     (let k = ucnode_key (Ucnode key l r);
          (l, s) = cucon_ucset_filter l f s;
          (r, s) = cucon_ucset_filter r f s;
          (keep, s) = (if key AND 1 \<noteq> 0 then f k s else (False, s))
      in (if keep then ucnode_new (k OR 1) l r
          else if l = Nul then r
          else if r = Nul then l
          else ucnode_new k l r, s))"

definition cucon_ucset_image :: "ucset \<Rightarrow> (u64 \<Rightarrow> 's \<Rightarrow> u64 \<times> 's) \<Rightarrow> 's \<Rightarrow> ucset \<times> 's" where
  "cucon_ucset_image S f s =
     cucon_ucset_iter S (\<lambda>key (image, s). case f key s of (k, s) \<Rightarrow> (cucon_ucset_insert image k, s)) (Nul, s)"

text \<open>The callback answers whether to keep the key and may replace it.\<close>

definition cucon_ucset_filter_image :: "ucset \<Rightarrow> (u64 \<Rightarrow> 's \<Rightarrow> bool \<times> u64 \<times> 's) \<Rightarrow> 's \<Rightarrow> ucset \<times> 's" where
  "cucon_ucset_filter_image S f s =
     cucon_ucset_iter S (\<lambda>key (image, s). case f key s of (keep, k, s) \<Rightarrow>
       (if keep then cucon_ucset_insert image k else image, s)) (Nul, s)"

section \<open>Counting and extremal elements\<close>

fun ucset_card_loop :: "ucset \<Rightarrow> u64 \<Rightarrow> u64" where
  "ucset_card_loop Nul cnt = cnt"
| "ucset_card_loop (Ucleaf key b) cnt = cnt + ucleaf_card (Ucleaf key b)"
| "ucset_card_loop (Ucnode key l r) cnt =
     (let cnt = (if key AND 1 \<noteq> 0 then cnt + 1 else cnt);
          cnt = cnt + ucset_card_loop l 0
      in ucset_card_loop r cnt)"

definition cucon_ucset_card :: "ucset \<Rightarrow> u64" where
  "cucon_ucset_card node = ucset_card_loop node 0"

definition word_log2_lowbit :: "u64 \<Rightarrow> u64" where
  "word_log2_lowbit x = ucast (the (cu_uint64_log2_lowbit x))"

definition word_floor_log2 :: "u64 \<Rightarrow> u64" where
  "word_floor_log2 x = ucast (the (cu_uint64_floor_log2 x))"

fun ucleaf_umin_loop :: "u64 \<Rightarrow> u64 \<Rightarrow> u64 list \<Rightarrow> u64" where
  "ucleaf_umin_loop key i [] = key"
| "ucleaf_umin_loop key i (x # xs) =
     (if x \<noteq> 0 then (key AND NOT 127) + word_log2_lowbit x + i * 64
      else ucleaf_umin_loop key (i + 1) xs)"

fun ucset_umin_loop :: "ucset \<Rightarrow> u64 \<Rightarrow> u64" where
  "ucset_umin_loop Nul mn = mn"
| "ucset_umin_loop (Ucleaf key b) mn = ucleaf_umin_loop (ucnode_key (Ucleaf key b)) 0 b"
| "ucset_umin_loop (Ucnode key l r) mn = ucset_umin_loop l (ucnode_key (Ucnode key l r))"

definition cucon_ucset_umin :: "ucset \<Rightarrow> u64" where
  "cucon_ucset_umin S = ucset_umin_loop S (-1)"

text \<open>The words of the leaf are scanned from the last one down: the list is reversed.\<close>

fun ucleaf_umax_loop :: "u64 \<Rightarrow> u64 \<Rightarrow> u64 list \<Rightarrow> u64" where
  "ucleaf_umax_loop key i [] = key"
| "ucleaf_umax_loop key i (x # xs) =
     (if x \<noteq> 0 then (key AND NOT 127) + word_floor_log2 x + i * 64
      else ucleaf_umax_loop key (i - 1) xs)"

fun ucset_umax_loop :: "ucset \<Rightarrow> u64 \<Rightarrow> u64" where
  "ucset_umax_loop Nul mx = mx"
| "ucset_umax_loop (Ucleaf key b) mx = ucleaf_umax_loop (ucnode_key (Ucleaf key b)) 1 (rev b)"
| "ucset_umax_loop (Ucnode key l r) mx = ucset_umax_loop r (ucnode_key (Ucnode key l r))"

definition cucon_ucset_umax :: "ucset \<Rightarrow> u64" where
  "cucon_ucset_umax S = ucset_umax_loop S 0"

text \<open>Signed results are 64-bit words read with \<open><s\<close>.\<close>

abbreviation INTPTR_MIN :: u64 where "INTPTR_MIN \<equiv> 0x8000000000000000"
abbreviation INTPTR_MAX :: u64 where "INTPTR_MAX \<equiv> 0x7fffffffffffffff"

definition cucon_ucset_smin :: "ucset \<Rightarrow> u64" where
  "cucon_ucset_smin node =
     (if node = Nul then INTPTR_MAX
      else
        (let min_key = INTPTR_MAX; node_key = ucnode_key node in
         if node_key = INTPTR_MIN then
           (if raw_key node AND 1 \<noteq> 0 then INTPTR_MIN
            else if right node \<noteq> Nul then cucon_ucset_umin (right node)
            else if left node = Nul then min_key
            else cucon_ucset_umin (left node))
         else if min_key <s node_key then 0
         else cucon_ucset_umin node))"

definition cucon_ucset_smax :: "ucset \<Rightarrow> u64" where
  "cucon_ucset_smax node =
     (if node = Nul then INTPTR_MIN
      else
        (let max_key = INTPTR_MIN; node_key = ucnode_key node in
         if node_key = INTPTR_MIN then
           (if left node \<noteq> Nul then cucon_ucset_umax (left node)
            else if max_key = 0 then 0
            else if right node = Nul then max_key
            else cucon_ucset_umax (right node))
         else if node_key <s max_key then 0
         else cucon_ucset_umax node))"

section \<open>Clipping\<close>

definition clip_mask :: "u64 \<Rightarrow> u64 \<Rightarrow> u64 \<Rightarrow> u64 \<Rightarrow> u64" where
  "clip_mask clip_min clip_max bs_min bs_max =
     (let mask = NOT 0;
          mask = (if clip_min > bs_min then mask AND NOT (push_bit (unat (clip_min - bs_min)) 1 - 1) else mask)
      in if clip_max < bs_max then mask AND (push_bit (unat (clip_max - bs_min)) 2 - 1) else mask)"

fun ucleaf_uclip_loop :: "u64 \<Rightarrow> u64 \<Rightarrow> u64 \<Rightarrow> u64 \<Rightarrow> u64 list \<Rightarrow> u64 list" where
  "ucleaf_uclip_loop clip_min clip_max bs_min bs_max [] = []"
| "ucleaf_uclip_loop clip_min clip_max bs_min bs_max (x # xs) =
     (if clip_min > bs_max \<or> clip_max < bs_min then 0 else x AND clip_mask clip_min clip_max bs_min bs_max)
       # ucleaf_uclip_loop clip_min clip_max (bs_min + 64) (bs_max + 64) xs"

definition ucleaf_uclip :: "ucset \<Rightarrow> u64 \<Rightarrow> u64 \<Rightarrow> ucset" where
  "ucleaf_uclip node clip_min clip_max =
     (let node_key = raw_key node; node_min = node_key AND NOT 127; node_max = node_key OR 127 in
      if clip_max < node_min \<or> clip_min > node_max then Nul
      else if clip_min \<le> node_min \<and> clip_max \<ge> node_max then node
      else
        (let b = ucleaf_uclip_loop clip_min clip_max node_min (node_min + 64 - 1) (bitset node);
             is_empty = list_all (\<lambda>x. x = 0) b
         in if is_empty then Nul else Ucleaf (raw_key node) b))"

function ucset_uclip :: "ucset \<Rightarrow> u64 \<Rightarrow> u64 \<Rightarrow> ucset" where
  "ucset_uclip node clip_min clip_max =
     (if node = Nul then Nul
      else
        (let node_key = ucnode_key node; node_mask = node_key XOR (node_key - 1);
             node_min = node_key AND NOT node_mask; node_max = node_key OR node_mask
         in if clip_min \<le> node_min \<and> node_max \<le> clip_max then node
            else if clip_max < node_min then Nul
            else if clip_min > node_max then Nul
            else if key_is_leaflike node_key then ucleaf_uclip node clip_min clip_max
            else if clip_max < node_key then ucset_uclip (left node) clip_min clip_max
            else if clip_min > node_key then ucset_uclip (right node) clip_min clip_max
            else
              (let new_left = ucset_uclip (left node) clip_min clip_max;
                   new_right = ucset_uclip (right node) clip_min clip_max
               in if raw_key node AND 1 \<noteq> 0 then ucnode_new (raw_key node) new_left new_right
                  else if new_left = Nul then new_right
                  else if new_right = Nul then new_left
                  else ucnode_new (raw_key node) new_left new_right)))"
  by pat_completeness auto
termination
  by (relation "measure (\<lambda>(node, clip_min, clip_max). nodes node)") (auto simp: nodes_branch)

declare ucset_uclip.simps [simp del]

definition cucon_ucset_uclip :: "ucset \<Rightarrow> u64 \<Rightarrow> u64 \<Rightarrow> ucset" where
  "cucon_ucset_uclip node clip_min clip_max =
     (if clip_min > clip_max then Nul else ucset_uclip node clip_min clip_max)"

definition cucon_ucset_sclip :: "ucset \<Rightarrow> u64 \<Rightarrow> u64 \<Rightarrow> ucset" where
  "cucon_ucset_sclip node clip_min clip_max =
     (if clip_max <s clip_min then Nul
      else if (clip_min <s 0) = (clip_max <s 0) then ucset_uclip node clip_min clip_max
      else
        (let S0 = ucset_uclip node 0 clip_max; S1 = ucset_uclip node clip_min (-1)
         in cucon_ucset_union S0 S1))"

section \<open>Construction from a sorted array\<close>

text \<open>
  The array cursor and length are the list of the elements left, returned beside the node.
  In the leaf loop, \<open>cur_key\<close> is the element under the cursor. The template of the leaf starts
  zeroed. \<open>None\<close> is exhausted fuel or the failed final assertion; reading past an empty array,
  which the C code does before it tests the length, is not observed.
\<close>

function ucset_leaf_loop :: "u64 \<Rightarrow> u64 list \<Rightarrow> u64 list \<Rightarrow> u64 list \<times> u64 list" where
  "ucset_leaf_loop cur_key_max b [] = (b, [])"
| "ucset_leaf_loop cur_key_max b (cur_key # arr) =
     (let arr = dropWhile (\<lambda>k. k = cur_key) arr; b = set_bitset_bit b (cur_key AND 127)
      in if arr = [] then (b, [])
         else if hd arr \<le> cur_key_max then ucset_leaf_loop cur_key_max b arr
         else (b, arr))"
  by pat_completeness auto
termination
  by (relation "measure (\<lambda>(cur_key_max, b, arr). length arr)") (auto simp: length_dropWhile_le less_Suc_eq_le)

definition ucset_leaf_from_sorted_array :: "u64 list \<Rightarrow> ucset \<times> u64 list" where
  "ucset_leaf_from_sorted_array arr =
     (if arr = [] then (Nul, [])
      else
        (let cur_key = hd arr; cur_key_max = cur_key OR 127
         in case ucset_leaf_loop cur_key_max [0, 0] arr of
              (b, arr) \<Rightarrow> (Ucleaf (leaf_key cur_key) b, arr)))"

fun ucset_from_sorted_array_rec :: "nat \<Rightarrow> u64 \<Rightarrow> u64 list \<Rightarrow> (ucset \<times> u64 list) option"
  and ucset_from_sorted_array_loop :: "nat \<Rightarrow> u64 \<Rightarrow> u64 \<Rightarrow> ucset \<Rightarrow> u64 list \<Rightarrow> (ucset \<times> u64 list) option" where
  "ucset_from_sorted_array_rec 0 max_key arr = None"
| "ucset_from_sorted_array_rec (Suc n) max_key [] = Some (Nul, [])"
| "ucset_from_sorted_array_rec (Suc n) max_key (cur_key # arr) =
     (if cur_key > max_key then Some (Nul, cur_key # arr)
      else if key_is_leaflike cur_key then
        (case ucset_leaf_from_sorted_array (cur_key # arr) of
           (cur_node, arr) \<Rightarrow> ucset_from_sorted_array_loop n max_key (ucnode_key cur_node) cur_node arr)
      else
        (let arr = dropWhile (\<lambda>k. k = cur_key) arr
         in case ucset_from_sorted_array_rec n (key_max cur_key) arr of
              None \<Rightarrow> None
            | Some (right_node, arr) \<Rightarrow>
                ucset_from_sorted_array_loop n max_key cur_key (ucnode_new (cur_key OR 1) Nul right_node) arr))"
| "ucset_from_sorted_array_loop 0 max_key cur_key cur_node arr = None"
| "ucset_from_sorted_array_loop (Suc n) max_key cur_key cur_node [] = Some (cur_node, [])"
| "ucset_from_sorted_array_loop (Suc n) max_key cur_key cur_node (next_key # arr) =
     (if next_key > max_key then Some (cur_node, next_key # arr)
      else
        (let key = ucset_key_join cur_key next_key; right_max = key_max key;
             (new_key, arr) =
               (if next_key = key then (key OR 1, dropWhile (\<lambda>k. k = key) arr) else (key, next_key # arr))
         in case ucset_from_sorted_array_rec n right_max arr of
              None \<Rightarrow> None
            | Some (right_node, arr) \<Rightarrow>
                ucset_from_sorted_array_loop n max_key key (ucnode_new new_key cur_node right_node) arr))"

definition cucon_ucset_from_sorted_array :: "u64 list \<Rightarrow> ucset option" where
  "cucon_ucset_from_sorted_array arr =
     (case ucset_from_sorted_array_rec (2 * length arr + 1) (-1) arr of
        Some (S, []) \<Rightarrow> Some S
      | _ \<Rightarrow> None)"

end
