(* ===== verification/UcsetContents.thy ===== *)
theory UcsetContents
  imports Ucset
begin

text \<open>
  What a constructive set holds: the cover interface for its keys, the invariant of the tries of
  \<^verbatim>\<open>cucon/ucset.c\<close>, their elements, lookup, and the fact that a well-formed set is determined
  by its elements.
\<close>

section \<open>The keys of a set interpret the cover interface\<close>

lemma ucset_mask0: "NOT (k XOR (k - 1)) = (NOT (mask (Suc (lowest k))) :: u64)"
  by (simp only: xor_minus_one)

lemma ucset_key_coverseq_block:
  "ucset_key_coverseq k j \<longleftrightarrow> block (lowest k) k = block (lowest k) j"
  by (simp only: ucset_key_coverseq_def Let_def ucset_mask0 upper_bits_eq_iff)

lemma ucset_key_covers_block:
  "ucset_key_covers k j \<longleftrightarrow>
     k \<noteq> 0 \<and> block (lowest k) k = block (lowest k) j \<and> (lowest j \<le> lowest k \<or> j = 0)"
proof (cases "k = 0")
  case False
  then have "j AND mask (Suc (lowest k)) \<noteq> 0 \<longleftrightarrow> lowest j \<le> lowest k"
    by (intro lower_bits_nonzero_iff lowest_less)
  then show ?thesis
    by (simp only: ucset_key_covers_def Let_def ucset_mask0 upper_bits_eq_iff bit.double_compl)
qed (simp add: ucset_key_covers_def)

lemma leaflike_iff: "key_is_leaflike k \<longleftrightarrow> k = 0 \<or> lowest k \<le> 6"
proof (cases "k = 0")
  case False
  then have l: "lowest k < 64" by (rule lowest_less)
  have "unat (mask (Suc (lowest k)) :: u64) = 2 ^ Suc (lowest k) - 1"
    using l unfolding mask_eq_exp_minus_1 [symmetric]
    by (intro bit_eqI) (auto simp: bit_unsigned_iff bit_mask_iff dest: bit_u64_bound)
  moreover have "(2::nat) ^ Suc (lowest k) - 1 < 128 \<longleftrightarrow> lowest k \<le> 6"
  proof -
    have "(2::nat) ^ Suc (lowest k) \<le> 2 ^ 7 \<longleftrightarrow> Suc (lowest k) \<le> 7"
      by (rule power_increasing_iff) simp
    moreover have "(2::nat) ^ Suc (lowest k) - 1 < 128 \<longleftrightarrow> (2::nat) ^ Suc (lowest k) \<le> 2 ^ 7"
      by (simp add: less_diff_conv2 Suc_le_eq [symmetric])
    ultimately show ?thesis by linarith
  qed
  ultimately show ?thesis
    using False by (simp add: key_is_leaflike_def Let_def xor_minus_one word_less_nat_alt)
qed (simp add: key_is_leaflike_def)

lemma ucset_covers_nonzero: "ucset_key_covers k j \<Longrightarrow> k \<noteq> 0"
  by (simp add: ucset_key_covers_block)

lemma ucset_covers_imp_coverseq: "ucset_key_covers k j \<Longrightarrow> ucset_key_coverseq k j"
  by (simp add: ucset_key_covers_block ucset_key_coverseq_block)

lemma ucset_covers_level: "ucset_key_covers k j \<Longrightarrow> j \<noteq> k \<Longrightarrow> j \<noteq> 0 \<Longrightarrow> lowest j < lowest k"
  using same_block_unique [of k j] by (fastforce simp: ucset_key_covers_block)

lemma ucset_key_join_eq: "ucset_key_join = tight_join"
  by (simp add: fun_eq_iff ucset_key_join_def tight_join_def)

text \<open>A block that holds zero belongs to a power of two.\<close>

lemma block_zero: "block z 0 = 0"
  by (simp add: block_def)

lemma covers_zero: "ucset_key_covers k 0 \<longleftrightarrow> k \<noteq> 0 \<and> block (lowest k) k = 0"
  by (auto simp: ucset_key_covers_block block_zero)

lemma covers_zero_pow: "ucset_key_covers k 0 \<Longrightarrow> unat k = 2 ^ lowest k"
  using lowest_pos [of k "lowest k"] lowest_less [of k] by (simp add: covers_zero)

lemma ucset_key_join_incomparable:
  assumes "a < b" "\<not> ucset_key_covers a b" "\<not> ucset_key_covers b a"
  shows "ucset_key_covers (tight_join a b) a \<and> ucset_key_covers (tight_join a b) b
     \<and> a < tight_join a b \<and> tight_join a b < b"
proof -
  obtain h where h: "top_diff a b h" using assms(1) top_diff_exists by (metis less_irrefl)
  note m = tight_join_props [OF h] and btw = tight_join_between [OF assms(1) h]
  have t0: "tight_join a b \<noteq> 0" using m(1) top_diff_bound [OF h] by auto
  have la: "lowest a \<le> h \<or> a = 0"
  proof (rule ccontr)
    assume n: "\<not> ?thesis"
    then have "block (lowest a) a = block (lowest a) b" using block_mono [OF m(3)] by simp
    then show False using assms(2) btw n by (simp add: ucset_key_covers_block)
  qed
  have ca: "ucset_key_covers (tight_join a b) a" using m t0 la by (simp add: ucset_key_covers_block)
  then have "tight_join a b \<noteq> b" using assms(3) by auto
  then show ?thesis
    using m t0 ca btw by (simp add: ucset_key_covers_block)
qed

interpretation ucs: key_cover ucset_key_covers ucset_key_join
proof
  fix a b c :: u64
  show "ucset_key_covers a c" if "ucset_key_covers a b" "ucset_key_covers b c"
    using that block_mono [of "lowest b" b c "lowest a"] unfolding ucset_key_covers_block
    by (metis order_trans)
  show "a = b" if "ucset_key_covers a b" "ucset_key_covers b a"
    using that same_block_unique [of a b] unfolding ucset_key_covers_block by (meson le_antisym)
  show "c < a" if "ucset_key_covers a b" "b < a" "ucset_key_covers b c"
    using that block_side_less [of a b c] ucset_covers_level [of a b] ucset_covers_nonzero [of b c]
    unfolding ucset_key_covers_block by (metis less_irrefl)
  show "a < c" if "ucset_key_covers a b" "a < b" "ucset_key_covers b c"
  proof (cases "c = 0")
    case True
    have "lowest b < lowest a" using that ucset_covers_level [of a b] ucset_covers_nonzero [of b c] by auto
    moreover have "unat b = 2 ^ lowest b" using that(3) True covers_zero_pow by simp
    moreover have "2 ^ lowest a \<le> unat a"
      using lowest_pos [of a "lowest a"] lowest_less [OF ucset_covers_nonzero [OF that(1)]] by simp
    ultimately have "unat b < unat a" by (metis less_le_trans one_less_numeral_iff power_strict_increasing semiring_norm(76))
    then show ?thesis using that(2) by (simp add: word_less_nat_alt)
  next
    case False
    then show ?thesis
      using that block_side_greater [of a b c] ucset_covers_level [of a b] ucset_covers_nonzero [of b c]
      unfolding ucset_key_covers_block by (metis less_irrefl)
  qed
  show "a = b \<or> ucset_key_covers a b \<or> ucset_key_covers b a"
    if "ucset_key_covers a c" "ucset_key_covers b c"
    using that block_mono [of "lowest a" a c "lowest b"] block_mono [of "lowest b" b c "lowest a"]
    unfolding ucset_key_covers_block by (metis linear)
  assume ab: "a \<noteq> b" "\<not> ucset_key_covers a b" "\<not> ucset_key_covers b a"
  have "ucset_key_covers (tight_join a b) a \<and> ucset_key_covers (tight_join a b) b
     \<and> min a b < tight_join a b \<and> tight_join a b < max a b"
    using ab ucset_key_join_incomparable [of a b] ucset_key_join_incomparable [of b a] tight_join_sym [of a b]
    by (cases "a < b") (auto simp: min_def max_def)
  then show "ucset_key_covers (ucset_key_join a b) a" "ucset_key_covers (ucset_key_join a b) b"
    "min a b < ucset_key_join a b \<and> ucset_key_join a b < max a b"
    by (simp_all add: ucset_key_join_eq)
qed

section \<open>Keys of elements\<close>

text \<open>The key of the node that would hold an element: its leaf, or itself.\<close>

definition slot :: "u64 \<Rightarrow> u64" where
  "slot j = (if key_is_leaflike j then leaf_key j else j)"

definition branch_key :: "u64 \<Rightarrow> bool" where
  "branch_key m \<longleftrightarrow> \<not> key_is_leaflike m"

definition left_side :: "u64 \<Rightarrow> u64 set" where
  "left_side m = {j. ucset_key_covers m j \<and> j < m}"

definition right_side :: "u64 \<Rightarrow> u64 set" where
  "right_side m = {j. ucset_key_covers m j \<and> m < j}"

lemma branch_key_iff: "branch_key m \<longleftrightarrow> m \<noteq> 0 \<and> 7 \<le> lowest m"
  by (auto simp: branch_key_def leaflike_iff)

lemma and_127: "x AND 127 = x mod (128 :: u64)"
  using word_mod_2p_is_mask [of 7 x] by (simp add: mask_eq_decr_exp)

lemma mask_7: "mask 7 = (127 :: u64)"
  by (simp add: mask_eq_decr_exp)

lemma leaf_key_mask: "leaf_key j = (j AND NOT (mask 7)) OR 2 ^ 6"
  by (simp add: leaf_key_def mask_7)

lemma bit_leaf_key: "n < 64 \<Longrightarrow> bit (leaf_key j) n \<longleftrightarrow> n = 6 \<or> 7 \<le> n \<and> bit j n"
  unfolding leaf_key_mask bit_or_iff bit_and_iff bit_not_iff bit_mask_iff bit_exp_iff by auto

lemma lowest_leaf_key [simp]: "lowest (leaf_key j) = 6"
  by (rule lowest_eqI) (auto simp: bit_leaf_key)

lemma leaf_key_nonzero [simp]: "leaf_key j \<noteq> 0"
  using bit_leaf_key [of 6 j] by auto

lemma block_leaf_key: "block 6 (leaf_key j) = block 6 j"
proof -
  have "bit (leaf_key j) n = bit j n" if "6 < n" for n
    using that bit_leaf_key [of n j] by (cases "n < 64") (auto dest: bit_u64_bound)
  then show ?thesis by (simp add: block_eq_iff_bits)
qed

lemma unat_branch: "branch_key m \<Longrightarrow> \<exists>q. unat m = 128 * q"
proof -
  assume "branch_key m"
  then have l: "7 \<le> lowest m" "lowest m < 64" by (auto simp: branch_key_iff intro: lowest_less)
  then obtain d where "lowest m = 7 + d" using le_Suc_ex by blast
  then have "unat m = 128 * ((2 * block (lowest m) m + 1) * 2 ^ d)"
    using lowest_pos [of m "lowest m"] l by (simp add: power_add)
  then show ?thesis by blast
qed

lemma unat_block_6: "unat j = 128 * block 6 j + unat j mod 128"
  by (simp add: block_def)

lemma unat_leaf_key: "unat (leaf_key j) = 128 * block 6 j + 64"
  using lowest_pos [of "leaf_key j" 6] by (simp add: block_leaf_key)

lemma leaf_key_eq_iff: "leaf_key i = leaf_key j \<longleftrightarrow> block 6 i = block 6 j"
  by (simp add: word_unat_eq_iff unat_leaf_key)

lemma leaf_key_less:
  assumes "branch_key m"
  shows "leaf_key j < m \<longleftrightarrow> j < m" and "m < leaf_key j \<longleftrightarrow> m \<le> j"
proof -
  obtain q where q: "unat m = 128 * q" using unat_branch [OF assms] by blast
  have r: "unat j mod 128 < 128" by simp
  have j: "unat j = 128 * block 6 j + unat j mod 128" by (rule unat_block_6)
  show "leaf_key j < m \<longleftrightarrow> j < m"
  proof (cases "block 6 j < q")
    case True
    then show ?thesis using j r unfolding word_less_nat_alt unat_leaf_key q by linarith
  next
    case False
    then show ?thesis using j r unfolding word_less_nat_alt unat_leaf_key q by linarith
  qed
  show "m < leaf_key j \<longleftrightarrow> m \<le> j"
  proof (cases "block 6 j < q")
    case True
    then show ?thesis using j r unfolding word_less_nat_alt word_le_nat_alt unat_leaf_key q by linarith
  next
    case False
    then show ?thesis using j r unfolding word_less_nat_alt word_le_nat_alt unat_leaf_key q by linarith
  qed
qed

lemma covers_leaf_key:
  assumes "branch_key m" "key_is_leaflike j"
  shows "ucset_key_covers m (leaf_key j) \<longleftrightarrow> ucset_key_covers m j"
proof -
  have m: "m \<noteq> 0" "6 \<le> lowest m" using assms(1) by (auto simp: branch_key_iff)
  then have "block (lowest m) (leaf_key j) = block (lowest m) j"
    using block_mono [OF block_leaf_key] by blast
  then show ?thesis using m assms(2) by (auto simp: ucset_key_covers_block leaflike_iff)
qed

lemma slot_below: "branch_key m \<Longrightarrow> ucset_key_covers m (slot j) \<and> slot j < m \<longleftrightarrow> j \<in> left_side m"
  by (simp add: slot_def left_side_def covers_leaf_key leaf_key_less)

lemma slot_above: "branch_key m \<Longrightarrow> ucset_key_covers m (slot j) \<and> m < slot j \<longleftrightarrow> j \<in> right_side m"
  using leaf_key_less(2) [of m j] covers_leaf_key [of m j]
  by (cases "m = j") (auto simp: slot_def right_side_def branch_key_def)

lemma sides_disjoint: "left_side m \<inter> right_side m = {}" "m \<notin> left_side m" "m \<notin> right_side m"
  by (auto simp: left_side_def right_side_def)

lemma sides_coverseq: "j \<in> left_side m \<Longrightarrow> ucset_key_coverseq m j" "j \<in> right_side m \<Longrightarrow> ucset_key_coverseq m j"
  by (auto simp: left_side_def right_side_def ucset_covers_imp_coverseq)

section \<open>Invariant and contents\<close>

text \<open>
  \<open>ucset_wf\<close>: the key of a leaf is the middle of its 128 elements, its bitset is nonempty and
  its first bit is clear except in the first leaf; the key of a branch node is a nonzero
  multiple of 128, the assertion of \<open>_ucnode_new\<close>; branches lie on their sides of the node, and a
  node that is not an element has both branches.
\<close>

fun ucset_wf :: "ucset \<Rightarrow> bool" where
  "ucset_wf Nul = True"
| "ucset_wf (Ucleaf k b) \<longleftrightarrow>
     leaf_key k = k \<and> length b = 2 \<and> list_ex (\<lambda>x. x \<noteq> 0) b \<and> (k = 64 \<or> \<not> bit (b ! 0) 0)"
| "ucset_wf (Ucnode k l r) \<longleftrightarrow>
     branch_key (k AND NOT 1) \<and> ucset_wf l \<and> ucset_wf r
      \<and> (l \<noteq> Nul \<longrightarrow> ucset_key_covers (k AND NOT 1) (ucnode_key l) \<and> ucnode_key l < k AND NOT 1)
      \<and> (r \<noteq> Nul \<longrightarrow> ucset_key_covers (k AND NOT 1) (ucnode_key r) \<and> k AND NOT 1 < ucnode_key r)
      \<and> (k AND 1 = 0 \<longrightarrow> l \<noteq> Nul \<and> r \<noteq> Nul)"

fun elems :: "ucset \<Rightarrow> u64 set" where
  "elems Nul = {}"
| "elems (Ucleaf k b) = {j. leaf_key j = k \<and> ucleaf_find (Ucleaf k b) j}"
| "elems (Ucnode k l r) = elems l \<union> elems r \<union> (if k AND 1 \<noteq> 0 then {k AND NOT 1} else {})"

section \<open>Bits of a leaf\<close>

definition leaf_bit :: "u64 list \<Rightarrow> nat \<Rightarrow> bool" where
  "leaf_bit b i \<longleftrightarrow> bit (b ! (i div 64)) (i mod 64)"

lemma leaf_index: "unat ((j AND 127) div 64) = unat j mod 128 div 64" "unat ((j AND 127) mod 64) = unat j mod 64"
  for j :: u64
proof -
  show "unat ((j AND 127) div 64) = unat j mod 128 div 64"
    by (simp add: and_127 unat_div unat_mod)
  have "unat j mod 128 mod 64 = unat j mod 64" by (simp add: mod_mod_cancel)
  then show "unat ((j AND 127) mod 64) = unat j mod 64"
    by (simp add: and_127 unat_mod)
qed

lemma leaf_find_bit: "ucleaf_find (Ucleaf k b) j \<longleftrightarrow> leaf_bit b (unat j mod 128)"
  by (simp add: ucleaf_find_def Let_def leaf_index leaf_bit_def bit_iff_and_push_bit_not_eq_0 mod_mod_cancel)

lemma leaf_elem:
  assumes "leaf_key k = k" "i < 128"
  shows "\<exists>j. leaf_key j = k \<and> unat j mod 128 = i"
proof -
  have k: "unat k = 128 * block 6 k + 64" using unat_leaf_key [of k] assms(1) by simp
  then have "128 * (block 6 k + 1) < 2 ^ 64 + 64" using unat_u64_bound [of k] by simp
  then have "block 6 k + 1 \<le> 2 ^ 57" by simp
  then have "128 * block 6 k + i < 2 ^ 64" using assms(2) by simp
  then have u: "unat (of_nat (128 * block 6 k + i) :: u64) = 128 * block 6 k + i"
    by (simp add: unsigned_of_nat take_bit_nat_eq_self del: of_nat_add)
  then have "block 6 (of_nat (128 * block 6 k + i)) = block 6 k"
    using assms(2) unfolding block_def by simp
  then have "leaf_key (of_nat (128 * block 6 k + i)) = leaf_key k" by (simp only: leaf_key_eq_iff)
  moreover have "(128 * block 6 k + i) mod 128 = i" using assms(2) by simp
  ultimately show ?thesis using u assms(1) by metis
qed

lemma leaf_bits_nonempty:
  assumes "length b = 2"
  shows "list_ex (\<lambda>x. x \<noteq> 0) b \<longleftrightarrow> (\<exists>i<128. leaf_bit b i)"
proof
  assume "list_ex (\<lambda>x. x \<noteq> 0) b"
  then obtain n where n: "n < 2" "b ! n \<noteq> 0" using assms by (auto simp: list_ex_length)
  then have "leaf_bit b (64 * n + lowest (b ! n))" "64 * n + lowest (b ! n) < 128"
    using lowest_less [OF n(2)] lowest_bit [OF n(2)] by (simp_all add: leaf_bit_def)
  then show "\<exists>i<128. leaf_bit b i" by blast
next
  assume "\<exists>i<128. leaf_bit b i"
  then obtain i where "i < 128" "bit (b ! (i div 64)) (i mod 64)" by (auto simp: leaf_bit_def)
  then have "i div 64 < length b" "b ! (i div 64) \<noteq> 0" using assms by (auto simp: div_less_iff_less_mult)
  then show "list_ex (\<lambda>x. x \<noteq> 0) b" by (auto simp: list_ex_length)
qed

lemma leaf_bits_eq:
  assumes "length a = 2" "length b = 2" "\<And>i. i < 128 \<Longrightarrow> leaf_bit a i = leaf_bit b i"
  shows "a = b"
proof (rule nth_equalityI)
  fix n assume n: "n < length a"
  show "a ! n = b ! n"
  proof (rule word_eq_bitI)
    fix i :: nat assume "i < 64"
    then show "bit (a ! n) i = bit (b ! n) i"
      using assms(1) assms(3) [of "64 * n + i"] n by (simp add: leaf_bit_def)
  qed
qed (use assms in simp)

lemma elems_leaf: "elems (Ucleaf k b) = {j. leaf_key j = k \<and> leaf_bit b (unat j mod 128)}"
  by (simp add: leaf_find_bit)

declare elems.simps(2) [simp del]

section \<open>Where the elements lie\<close>

lemma ucnode_key_node [simp]: "ucnode_key (Ucnode k l r) = k AND NOT 1"
  by (simp add: ucnode_key_def)

lemma clear_flag: "lowest k \<noteq> 0 \<Longrightarrow> k AND NOT 1 = k" for k :: u64
proof -
  assume "lowest k \<noteq> 0"
  then have "\<not> bit k 0" using lowest_below [of 0 k] by simp
  then show ?thesis by (intro word_eq_bitI) (auto simp: bit_simps intro: gr0I)
qed

lemma ucnode_key_leaf: "leaf_key k = k \<Longrightarrow> ucnode_key (Ucleaf k b) = k"
  using clear_flag [of k] lowest_leaf_key [of k] by (simp add: ucnode_key_def)

lemma leaf_elem_leaflike:
  assumes "ucset_wf (Ucleaf k b)" "j \<in> elems (Ucleaf k b)"
  shows "key_is_leaflike j"
proof (rule ccontr)
  assume n: "\<not> key_is_leaflike j"
  then obtain q where q: "unat j = 128 * q" using unat_branch [of j] by (auto simp: branch_key_def)
  then have "bit (b ! 0) 0" using assms(2) by (simp add: elems_leaf leaf_bit_def)
  then have "k = 64" using assms(1) by simp
  then have "128 * block 6 j + 64 = 64" using assms(2) unat_leaf_key [of j] by (simp add: elems_leaf)
  then have "unat j = 0" using q unat_block_6 [of j] by simp
  then show False using n by (simp add: key_is_leaflike_def unsigned_eq_0_iff)
qed

lemma elems_slot:
  assumes "ucset_wf A" "j \<in> elems A"
  shows "slot j = ucnode_key A \<or> ucset_key_covers (ucnode_key A) (slot j)"
  using assms
proof (induction A)
  case (Ucleaf k b)
  then show ?case
    using leaf_elem_leaflike [of k b j] by (auto simp: slot_def ucnode_key_leaf elems_leaf)
next
  case (Ucnode k l r)
  let ?k = "k AND NOT 1"
  consider "j \<in> elems l" | "j \<in> elems r" | "j = ?k" using Ucnode.prems(2) by (auto split: if_splits)
  then show ?case
  proof cases
    case 1
    then have "l \<noteq> Nul" by auto
    then show ?thesis
      using 1 Ucnode ucs.cover_inside_less [of ?k "ucnode_key l" "slot j"] by auto
  next
    case 2
    then have "r \<noteq> Nul" by auto
    then show ?thesis
      using 2 Ucnode ucs.cover_inside_greater [of ?k "ucnode_key r" "slot j"] by auto
  next
    case 3
    then show ?thesis using Ucnode.prems(1) by (simp add: slot_def branch_key_def)
  qed
qed simp

lemma elems_nonempty: "ucset_wf A \<Longrightarrow> A \<noteq> Nul \<Longrightarrow> elems A \<noteq> {}"
proof (induction A)
  case (Ucleaf k b)
  then obtain i where i: "i < 128" "leaf_bit b i" by (auto simp: leaf_bits_nonempty)
  obtain j where "leaf_key j = k" "unat j mod 128 = i" using leaf_elem [of k i] Ucleaf i(1) by auto
  then show ?case using i(2) by (auto simp: elems_leaf)
qed (auto split: if_splits)

lemma elems_eq_empty: "ucset_wf A \<Longrightarrow> elems A = {} \<longleftrightarrow> A = Nul"
  using elems_nonempty by force

lemma elems_below: 
  assumes "ucset_wf A" "branch_key m" "A \<noteq> Nul \<Longrightarrow> ucset_key_covers m (ucnode_key A) \<and> ucnode_key A < m"
  shows "elems A \<subseteq> left_side m"
proof
  fix j assume j: "j \<in> elems A"
  then have "A \<noteq> Nul" by auto
  then show "j \<in> left_side m"
    using j assms(3) elems_slot [OF assms(1) j] ucs.cover_inside_less [of m "ucnode_key A" "slot j"]
      slot_below [OF assms(2), of j] by blast
qed

lemma elems_above:
  assumes "ucset_wf A" "branch_key m" "A \<noteq> Nul \<Longrightarrow> ucset_key_covers m (ucnode_key A) \<and> m < ucnode_key A"
  shows "elems A \<subseteq> right_side m"
proof
  fix j assume j: "j \<in> elems A"
  then have "A \<noteq> Nul" by auto
  then show "j \<in> right_side m"
    using j assms(3) elems_slot [OF assms(1) j] ucs.cover_inside_greater [of m "ucnode_key A" "slot j"]
      slot_above [OF assms(2), of j] by blast
qed

lemma elems_root:
  assumes "ucset_wf A" "A \<noteq> Nul"
  shows "ucs.root_of (ucnode_key A) (slot ` elems A)"
proof -
  have all: "\<forall>s\<in>slot ` elems A. s = ucnode_key A \<or> ucset_key_covers (ucnode_key A) s"
    using elems_slot [OF assms(1)] by auto
  have "ucnode_key A \<in> slot ` elems A \<or>
      (\<exists>a\<in>slot ` elems A. a < ucnode_key A) \<and> (\<exists>b\<in>slot ` elems A. ucnode_key A < b)"
  proof (cases A)
    case (Ucleaf k b)
    obtain j where j: "j \<in> elems A" using elems_nonempty [OF assms] by blast
    then have "slot j = k"
      using assms(1) leaf_elem_leaflike [of k b j] Ucleaf by (auto simp: slot_def elems_leaf)
    then show ?thesis using j assms(1) Ucleaf by (auto simp: ucnode_key_leaf)
  next
    case (Ucnode k l r)
    let ?k = "k AND NOT 1"
    have wf: "ucset_wf l" "ucset_wf r" "branch_key ?k" using assms(1) Ucnode by auto
    show ?thesis
    proof (cases "k AND 1 = 0")
      case False
      then have "?k \<in> elems A" "slot ?k = ?k" using Ucnode wf(3) by (auto simp: slot_def branch_key_def)
      then show ?thesis using Ucnode by (metis image_eqI ucnode_key_node)
    next
      case True
      then have "l \<noteq> Nul" "r \<noteq> Nul" using assms(1) Ucnode by auto
      then obtain a b where ab: "a \<in> elems l" "b \<in> elems r" using elems_nonempty wf by blast
      have "slot a < ?k" "?k < slot b"
        using ab elems_below [of l ?k] elems_above [of r ?k] slot_below [of ?k a] slot_above [of ?k b]
          wf assms(1) Ucnode by auto
      then show ?thesis using ab Ucnode by auto
    qed
  qed (use assms in simp)
  then show ?thesis using all by (auto simp: ucs.root_of_def)
qed

lemma below_iff:
  assumes "ucset_wf A" "branch_key m"
  shows "(A \<noteq> Nul \<longrightarrow> ucset_key_covers m (ucnode_key A) \<and> ucnode_key A < m) \<longleftrightarrow> elems A \<subseteq> left_side m"
proof
  assume sub: "elems A \<subseteq> left_side m"
  show "A \<noteq> Nul \<longrightarrow> ucset_key_covers m (ucnode_key A) \<and> ucnode_key A < m"
  proof
    assume "A \<noteq> Nul"
    then show "ucset_key_covers m (ucnode_key A) \<and> ucnode_key A < m"
      using elems_root [OF assms(1)] elems_nonempty [OF assms(1)] sub slot_below [OF assms(2)]
      by (intro ucs.root_inside_less [of _ "slot ` elems A"]) auto
  qed
qed (use assms elems_below in blast)

lemma above_iff:
  assumes "ucset_wf A" "branch_key m"
  shows "(A \<noteq> Nul \<longrightarrow> ucset_key_covers m (ucnode_key A) \<and> m < ucnode_key A) \<longleftrightarrow> elems A \<subseteq> right_side m"
proof
  assume sub: "elems A \<subseteq> right_side m"
  show "A \<noteq> Nul \<longrightarrow> ucset_key_covers m (ucnode_key A) \<and> m < ucnode_key A"
  proof
    assume "A \<noteq> Nul"
    then show "ucset_key_covers m (ucnode_key A) \<and> m < ucnode_key A"
      using elems_root [OF assms(1)] elems_nonempty [OF assms(1)] sub slot_above [OF assms(2)]
      by (intro ucs.root_inside_greater [of _ "slot ` elems A"]) auto
  qed
qed (use assms elems_above in blast)

text \<open>The invariant of a branch node in terms of the elements of its branches.\<close>

lemma wf_node:
  "ucset_wf (Ucnode k l r) \<longleftrightarrow> branch_key (k AND NOT 1) \<and> ucset_wf l \<and> ucset_wf r
     \<and> elems l \<subseteq> left_side (k AND NOT 1) \<and> elems r \<subseteq> right_side (k AND NOT 1)
     \<and> (k AND 1 = 0 \<longrightarrow> l \<noteq> Nul \<and> r \<noteq> Nul)"
  using below_iff [of l "k AND NOT 1"] above_iff [of r "k AND NOT 1"] by auto

declare ucset_wf.simps(3) [simp del]

section \<open>Lookup\<close>

lemma ucset_leaf_or_node:
  assumes "ucset_wf A" "A \<noteq> Nul"
  shows "key_is_leaflike (ucnode_key A) \<longleftrightarrow> is_Ucleaf A"
proof (cases A)
  case (Ucleaf k b)
  then show ?thesis using assms lowest_leaf_key [of k] by (simp add: ucnode_key_leaf leaflike_iff)
next
  case (Ucnode k l r)
  then show ?thesis using assms by (simp add: wf_node branch_key_def)
qed (use assms in simp)

lemma find_elems: "ucset_wf A \<Longrightarrow> cucon_ucset_find A j \<longleftrightarrow> j \<in> elems A"
proof (induction A)
  case (Ucleaf k b)
  then have k: "ucnode_key (Ucleaf k b) = k" "key_is_leaflike k"
    using ucset_leaf_or_node [of "Ucleaf k b"] by (auto simp: ucnode_key_leaf)
  have "ucset_key_coverseq k j \<longleftrightarrow> leaf_key j = k"
    using Ucleaf lowest_leaf_key [of k] leaf_key_eq_iff [of j k]
    by (auto simp: ucset_key_coverseq_block)
  then show ?case
    using k by (subst cucon_ucset_find.simps) (auto simp: elems_leaf leaf_find_bit)
next
  case (Ucnode k l r)
  let ?k = "k AND NOT 1"
  have wf: "branch_key ?k" "elems l \<subseteq> left_side ?k" "elems r \<subseteq> right_side ?k" "ucset_wf l" "ucset_wf r"
    using Ucnode.prems by (auto simp: wf_node)
  have cov: "ucset_key_coverseq ?k j" if "j \<in> elems (Ucnode k l r)"
    using that wf(2,3) sides_coverseq [of j ?k] by (auto simp: ucset_key_coverseq_def split: if_splits)
  have "cucon_ucset_find (Ucnode k l r) j \<longleftrightarrow> ucset_key_coverseq ?k j \<and>
      (if j = ?k then k AND 1 \<noteq> 0 else if j < ?k then j \<in> elems l else j \<in> elems r)"
    using wf Ucnode.IH by (subst cucon_ucset_find.simps) (auto simp: branch_key_def Let_def)
  also have "\<dots> \<longleftrightarrow> j \<in> elems (Ucnode k l r)"
    using cov wf(2,3) by (auto simp: left_side_def right_side_def split: if_splits)
  finally show ?case .
qed (simp add: cucon_ucset_find.simps)

section \<open>A set is determined by its elements\<close>

lemma side_parts:
  assumes "ucset_wf (Ucnode k l r)"
  shows "elems l = elems (Ucnode k l r) \<inter> left_side (k AND NOT 1)"
    "elems r = elems (Ucnode k l r) \<inter> right_side (k AND NOT 1)"
    "k AND 1 \<noteq> 0 \<longleftrightarrow> k AND NOT 1 \<in> elems (Ucnode k l r)"
  using assms sides_disjoint [of "k AND NOT 1"] by (auto simp: wf_node split: if_splits)

lemma flag_eqI: "a AND NOT 1 = b AND NOT 1 \<Longrightarrow> (a AND 1 \<noteq> 0 \<longleftrightarrow> b AND 1 \<noteq> 0) \<Longrightarrow> a = b" for a b :: u64
proof (rule word_eq_bitI)
  fix n :: nat
  assume a: "a AND NOT 1 = b AND NOT 1" "a AND 1 \<noteq> 0 \<longleftrightarrow> b AND 1 \<noteq> 0" and n: "n < 64"
  have "bit (a AND NOT 1) n = bit (b AND NOT 1) n" using a(1) by simp
  then have "bit a n = bit b n" if "0 < n" using that n by (simp only: bit_and_iff bit_not_iff) (simp add: bit_simps)
  moreover have "bit a 0 = bit b 0" using a(2) by (auto simp: and_one_eq bit_0 mod2_eq_if split: if_splits)
  ultimately show "bit a n = bit b n" by (cases "n = 0") auto
qed

lemma same_root:
  assumes "ucset_wf A" "ucset_wf B" "elems A = elems B" "A \<noteq> Nul"
  shows "ucnode_key A = ucnode_key B"
proof -
  have "B \<noteq> Nul" using assms elems_eq_empty [of A] by auto
  then have "ucs.root_of (ucnode_key B) (slot ` elems A)" using elems_root [OF assms(2)] assms(3) by simp
  then show ?thesis
    using ucs.root_unique [OF elems_root [OF assms(1,4)]] elems_nonempty [OF assms(1,4)] by blast
qed

lemma ucset_canonical: "ucset_wf A \<Longrightarrow> ucset_wf B \<Longrightarrow> elems A = elems B \<Longrightarrow> A = B"
proof (induction A arbitrary: B)
  case Nul
  then show ?case using elems_eq_empty [of B] by auto
next
  case (Ucleaf k b)
  have B: "B \<noteq> Nul" using Ucleaf.prems elems_eq_empty [of "Ucleaf k b"] by auto
  have key: "ucnode_key B = k"
    using same_root [OF Ucleaf.prems] Ucleaf.prems(1) by (simp add: ucnode_key_leaf)
  then have "is_Ucleaf B" using B Ucleaf.prems ucset_leaf_or_node [of B] ucset_leaf_or_node [of "Ucleaf k b"]
    by (auto simp: ucnode_key_leaf)
  then obtain b' where B': "B = Ucleaf k b'" using key Ucleaf.prems(2) by (cases B) (auto simp: ucnode_key_leaf)
  have "leaf_bit b i = leaf_bit b' i" if i: "i < 128" for i
  proof -
    obtain j where j: "leaf_key j = k" "unat j mod 128 = i" using leaf_elem [of k i] i Ucleaf.prems by auto
    then have "j \<in> elems (Ucleaf k b) \<longleftrightarrow> j \<in> elems (Ucleaf k b')" using Ucleaf.prems(3) B' by simp
    then show ?thesis using j by (simp add: elems_leaf)
  qed
  then show ?case using B' Ucleaf.prems leaf_bits_eq [of b b'] by simp
next
  case (Ucnode k l r)
  have B: "B \<noteq> Nul" using Ucnode.prems elems_eq_empty [of "Ucnode k l r"] by auto
  have key: "ucnode_key B = k AND NOT 1"
    using same_root [OF Ucnode.prems] by simp
  then have "\<not> is_Ucleaf B" using B Ucnode.prems ucset_leaf_or_node [of B] by (simp add: wf_node branch_key_def)
  then obtain k' l' r' where B': "B = Ucnode k' l' r'" using B by (cases B) auto
  have kk: "k' AND NOT 1 = k AND NOT 1" using key B' by simp
  have e: "elems (Ucnode k' l' r') = elems (Ucnode k l r)" using Ucnode.prems(3) B' by simp
  have "ucset_wf (Ucnode k' l' r')" using Ucnode.prems(2) B' by simp
  note parts = side_parts [OF this, unfolded e kk] and parts0 = side_parts [OF Ucnode.prems(1)]
  have wf: "ucset_wf l" "ucset_wf l'" "ucset_wf r" "ucset_wf r'"
    using Ucnode.prems(1,2) unfolding B' wf_node by blast+
  have "k AND 1 \<noteq> 0 \<longleftrightarrow> k' AND 1 \<noteq> 0" unfolding parts(3) parts0(3) by (rule refl)
  then have "k = k'" by (rule flag_eqI [OF kk [symmetric]])
  moreover have "l = l'"
    by (rule Ucnode.IH(1)) (use wf trans [OF parts0(1) parts(1) [symmetric]] in \<open>simp_all only:\<close>)
  moreover have "r = r'"
    by (rule Ucnode.IH(2)) (use wf trans [OF parts0(2) parts(2) [symmetric]] in \<open>simp_all only:\<close>)
  ultimately show ?case using B' by simp
qed

end
