(* ===== verification/UcsetUpdate.thy ===== *)
theory UcsetUpdate
  imports UcsetContents
begin

text \<open>
  Leaves and branch nodes as the operations build them, insertion and erasure of an element.
\<close>

section \<open>Raw keys\<close>

lemma flag_bit: "k AND 1 \<noteq> 0 \<longleftrightarrow> bit k 0" for k :: u64
  by (simp add: and_one_eq bit_0 mod2_eq_if)

lemma raw_or_1 [simp]: "(k OR 1) AND NOT 1 = k AND NOT 1" "(k OR 1) AND 1 \<noteq> 0" for k :: u64
proof -
  show "(k OR 1) AND NOT 1 = k AND NOT 1" by (rule word_eq_bitI) (auto simp: bit_simps)
  show "(k OR 1) AND 1 \<noteq> 0" unfolding flag_bit bit_or_iff by simp
qed

lemma raw_clear: "(k AND NOT 1) AND 1 = 0" "(k AND NOT 1) AND NOT 1 = k AND NOT 1" "k AND 1 = 0 \<Longrightarrow> k AND NOT 1 = k"
  for k :: u64
proof -
  show "(k AND NOT 1) AND 1 = 0" "(k AND NOT 1) AND NOT 1 = k AND NOT 1"
    by (rule word_eq_bitI, auto simp: bit_simps)+
  assume "k AND 1 = 0"
  then have "\<not> bit k 0" using flag_bit [of k] by blast
  then show "k AND NOT 1 = k" by (intro word_eq_bitI) (auto simp: bit_simps intro: gr0I)
qed

lemma raw_bits: "a AND NOT 1 = b AND NOT 1 \<longleftrightarrow> (\<forall>n. 0 < n \<longrightarrow> bit a n = bit b n)" for a b :: u64
proof
  assume e: "a AND NOT 1 = b AND NOT 1"
  show "\<forall>n. 0 < n \<longrightarrow> bit a n = bit b n"
  proof (intro allI impI)
    fix n :: nat assume "0 < n"
    moreover have "bit (a AND NOT 1) n = bit (b AND NOT 1) n" using e by simp
    ultimately show "bit a n = bit b n"
      by (cases "n < 64") (simp_all only: bit_and_iff bit_not_iff, auto simp: bit_simps dest: bit_u64_bound)
  qed
next
  assume "\<forall>n. 0 < n \<longrightarrow> bit a n = bit b n"
  then show "a AND NOT 1 = b AND NOT 1" by (intro word_eq_bitI) (auto simp: bit_simps)
qed

lemma raw_combine:
  fixes a b :: u64
  assumes "a AND NOT 1 = b AND NOT 1"
  shows "(a OR b) AND NOT 1 = a AND NOT 1" "(a AND b) AND NOT 1 = a AND NOT 1"
    "(a AND NOT (b AND 1)) AND NOT 1 = a AND NOT 1"
    "(a OR b) AND 1 \<noteq> 0 \<longleftrightarrow> a AND 1 \<noteq> 0 \<or> b AND 1 \<noteq> 0"
    "(a AND b) AND 1 \<noteq> 0 \<longleftrightarrow> a AND 1 \<noteq> 0 \<and> b AND 1 \<noteq> 0"
    "(a AND NOT (b AND 1)) AND 1 \<noteq> 0 \<longleftrightarrow> a AND 1 \<noteq> 0 \<and> b AND 1 = 0"
  using assms unfolding raw_bits flag_bit
  by (auto simp: bit_simps dest: bit_u64_bound) (auto simp: flag_bit [symmetric] simp flip: bit_0)

section \<open>Making leaves and nodes\<close>

definition mk_leaf :: "u64 \<Rightarrow> u64 list \<Rightarrow> ucset" where
  "mk_leaf k b = (if list_ex (\<lambda>x. x \<noteq> 0) b then Ucleaf k b else Nul)"

lemma mk_leaf_elems:
  assumes "leaf_key k = k" "length b = 2" "k = 64 \<or> \<not> bit (b ! 0) 0"
  shows "ucset_wf (mk_leaf k b)" "elems (mk_leaf k b) = {j. leaf_key j = k \<and> leaf_bit b (unat j mod 128)}"
  using assms leaf_bits_nonempty [OF assms(2)] by (auto simp: mk_leaf_def elems_leaf)

lemma leaf_bit_0: "leaf_bit b 0 = bit (b ! 0) 0"
  by (simp add: leaf_bit_def)

lemma leaf_bit_map2:
  assumes "length a = 2" "length b = 2" "i < 128"
    and "\<And>x y n. n < 64 \<Longrightarrow> bit (f x y) n = F (bit x n) (bit y n)"
  shows "leaf_bit (map2 f a b) i = F (leaf_bit a i) (leaf_bit b i)"
proof -
  have "i div 64 < 2" using assms(3) by (simp add: div_less_iff_less_mult)
  then show ?thesis using assms by (simp add: leaf_bit_def)
qed

lemma leaf_index_eq:
  "i = unat key mod 128 \<longleftrightarrow> i div 64 = unat key mod 128 div 64 \<and> i mod 64 = unat key mod 64" for key :: u64
proof -
  let ?k = "unat key mod 128"
  have "?k mod 64 = unat key mod 64" by (simp add: mod_mod_cancel)
  moreover have "i = ?k \<longleftrightarrow> i div 64 = ?k div 64 \<and> i mod 64 = ?k mod 64"
    using div_mult_mod_eq [of i 64] div_mult_mod_eq [of ?k 64] by metis
  ultimately show ?thesis by simp
qed

lemma leaf_word_index: "unat key mod 128 div 64 < 2" for key :: u64
  by (simp add: div_less_iff_less_mult)

lemma leaf_bit_set:
  assumes "length b = 2" "i < 128"
  shows "leaf_bit (set_bitset_bit b (key AND 127)) i \<longleftrightarrow> leaf_bit b i \<or> i = unat key mod 128"
  unfolding set_bitset_bit_def leaf_bit_def Let_def leaf_index leaf_index_eq
  using assms leaf_word_index [of key] by (auto simp: nth_list_update bit_simps)

lemma length_set_bitset_bit [simp]: "length (set_bitset_bit b k) = length b"
  by (simp add: set_bitset_bit_def Let_def)

text \<open>A bit of a leaf of a set is set only where a leaflike element may be.\<close>

lemma leaf_first_bit:
  assumes "key_is_leaflike key" "unat key mod 128 = 0"
  shows "leaf_key key = 64"
proof -
  have "key = 0"
  proof (rule ccontr)
    assume n: "key \<noteq> 0"
    then have l: "lowest key \<le> 6" using assms(1) by (simp add: leaflike_iff)
    have "unat (take_bit 7 key) = 0" using assms(2) unat_take_bit [of 7 key] by simp
    then have "take_bit 7 key = 0" by (simp only: unsigned_eq_0_iff)
    moreover have "bit (take_bit 7 key) (lowest key)" using lowest_bit [OF n] l by (simp add: bit_simps)
    ultimately show False by simp
  qed
  then show ?thesis by (simp add: leaf_key_def)
qed

lemma leaf_same:
  assumes "leaf_key i = leaf_key j" "unat i mod 128 = unat j mod 128"
  shows "i = j"
proof -
  have "block 6 i = block 6 j" using assms(1) by (simp only: leaf_key_eq_iff)
  then have "unat i = unat j" using assms(2) unat_block_6 [of i] unat_block_6 [of j] by simp
  then show ?thesis by (simp only: word_unat_eq_iff)
qed

lemma leaf_key_idem [simp]: "leaf_key (leaf_key k) = leaf_key k"
  by (simp add: leaf_key_eq_iff block_leaf_key)

lemma leaf_new:
  assumes "key_is_leaflike key"
  shows "ucset_wf (ucleaf_new key) \<and> elems (ucleaf_new key) = {key}"
proof -
  let ?b = "set_bitset_bit [0, 0] (key AND 127)"
  have bit: "leaf_bit ?b i \<longleftrightarrow> i = unat key mod 128" if "i < 128" for i
    using that leaf_bit_set [of "[0, 0]" i key] by (auto simp: leaf_bit_def nth_Cons split: nat.splits)
  then have "list_ex (\<lambda>x. x \<noteq> 0) ?b"
    by (subst leaf_bits_nonempty) (auto intro!: exI [of _ "unat key mod 128"])
  moreover have "leaf_key key = 64 \<or> \<not> bit (?b ! 0) 0"
    using bit [of 0] leaf_first_bit [OF assms] by (auto simp: leaf_bit_0)
  ultimately show ?thesis
    using leaf_same by (auto simp: ucleaf_new_def elems_leaf bit)
qed

lemma leaf_insert:
  assumes "ucset_wf (Ucleaf k b)" "key_is_leaflike key" "leaf_key key = k"
  shows "ucset_wf (ucleaf_insert (Ucleaf k b) key) \<and>
    elems (ucleaf_insert (Ucleaf k b) key) = insert key (elems (Ucleaf k b))"
proof -
  let ?b = "set_bitset_bit b (key AND 127)"
  have bit: "leaf_bit ?b i \<longleftrightarrow> leaf_bit b i \<or> i = unat key mod 128" if "i < 128" for i
    using that assms(1) by (intro leaf_bit_set) simp_all
  have l: "length ?b = 2" using assms(1) by simp
  have "list_ex (\<lambda>x. x \<noteq> 0) ?b"
    using bit [of "unat key mod 128"] unfolding leaf_bits_nonempty [OF l] by (intro exI [of _ "unat key mod 128"]) simp
  moreover have "k = 64 \<or> \<not> bit (?b ! 0) 0"
    using bit [of 0] leaf_first_bit [OF assms(2)] assms(1,3) by (auto simp: leaf_bit_0)
  ultimately show ?thesis
    using assms(1,3) leaf_same [of _ key] by (auto simp: ucleaf_insert_def elems_leaf bit)
qed

lemma leaf_erase:
  assumes "ucset_wf (Ucleaf k b)" "leaf_key key = k"
  shows "ucset_wf (ucleaf_erase (Ucleaf k b) key) \<and>
    elems (ucleaf_erase (Ucleaf k b) key) = elems (Ucleaf k b) - {key}"
proof -
  let ?i = "unat key mod 128 div 64" and ?m = "push_bit (unat key mod 64) 1 :: u64"
  define b' where "b' = b[?i := b ! ?i AND NOT ?m]"
  have i: "?i < 2" by (simp add: div_less_iff_less_mult)
  have l: "length b = 2" "leaf_key k = k" "k = 64 \<or> \<not> bit (b ! 0) 0" using assms(1) by auto
  have bit: "leaf_bit b' n \<longleftrightarrow> leaf_bit b n \<and> n \<noteq> unat key mod 128" if "n < 128" for n
    unfolding leaf_index_eq leaf_bit_def b'_def using i l by (auto simp: nth_list_update bit_simps)
  have erase: "ucleaf_erase (Ucleaf k b) key = (if leaf_bit b (unat key mod 128) then mk_leaf k b' else Ucleaf k b)"
    by (simp add: b'_def ucleaf_erase_def Let_def leaf_index leaf_bit_def bit_iff_and_push_bit_not_eq_0 mk_leaf_def mod_mod_cancel)
  have "length b' = 2" "k = 64 \<or> \<not> bit (b' ! 0) 0" using l bit [of 0] by (auto simp: leaf_bit_0 b'_def)
  note mk = mk_leaf_elems [OF l(2) this]
  have "{j. leaf_key j = k \<and> leaf_bit b' (unat j mod 128)} = elems (Ucleaf k b) - {key}"
    using assms(2) leaf_same [of _ key] by (auto simp: bit elems_leaf)
  moreover have "elems (Ucleaf k b) - {key} = elems (Ucleaf k b)" if "\<not> leaf_bit b (unat key mod 128)"
    using that by (auto simp: elems_leaf)
  ultimately show ?thesis using mk assms(1) by (simp add: erase)
qed

text \<open>The element-wise operations on two leaves with the same key.\<close>

lemma leaf_map2:
  assumes "ucset_wf (Ucleaf k a)" "ucset_wf (Ucleaf k b)" "\<not> F False False"
    and "\<And>x y n. n < 64 \<Longrightarrow> bit (f x y) n = F (bit x n) (bit y n)"
  shows "ucset_wf (mk_leaf k (map2 f a b)) \<and>
    elems (mk_leaf k (map2 f a b)) = {j. F (j \<in> elems (Ucleaf k a)) (j \<in> elems (Ucleaf k b))}"
proof -
  have l: "length a = 2" "length b = 2" "leaf_key k = k" using assms(1,2) by auto
  note bit = leaf_bit_map2 [where f = f and F = F, OF l(1,2) _ assms(4)]
  have "k = 64 \<or> \<not> bit (map2 f a b ! 0) 0"
    using bit [of 0] assms(1-3) by (auto simp: leaf_bit_0)
  note mk = mk_leaf_elems [OF l(3) _ this]
  have "length (map2 f a b) = 2" using l by simp
  moreover have "{j. leaf_key j = k \<and> leaf_bit (map2 f a b) (unat j mod 128)} =
      {j. F (j \<in> elems (Ucleaf k a)) (j \<in> elems (Ucleaf k b))}"
  proof (intro Collect_cong)
    fix j
    show "leaf_key j = k \<and> leaf_bit (map2 f a b) (unat j mod 128) \<longleftrightarrow>
        F (j \<in> elems (Ucleaf k a)) (j \<in> elems (Ucleaf k b))"
      using assms(3) by (cases "leaf_key j = k") (simp_all add: bit elems_leaf)
  qed
  ultimately show ?thesis using mk by simp
qed

section \<open>Positions of trees\<close>

lemma node_level:
  assumes "ucset_wf A" "A \<noteq> Nul"
  shows "ucnode_key A \<noteq> 0" "6 \<le> lowest (ucnode_key A)"
proof (atomize (full), cases A)
  case (Ucleaf k b)
  then show "ucnode_key A \<noteq> 0 \<and> 6 \<le> lowest (ucnode_key A)"
    using assms leaf_key_nonzero [of k] lowest_leaf_key [of k] by (simp add: ucnode_key_leaf)
next
  case (Ucnode k l r)
  then show "ucnode_key A \<noteq> 0 \<and> 6 \<le> lowest (ucnode_key A)"
    using assms by (simp add: wf_node branch_key_iff)
qed (use assms in simp)

lemma branch_above:
  assumes "ucset_key_covers m a" "m \<noteq> a" "a \<noteq> 0" "6 \<le> lowest a"
  shows "branch_key m"
  using ucset_covers_level [of m a] ucset_covers_nonzero [OF assms(1)] assms by (simp add: branch_key_iff)

lemma join_key:
  assumes "a \<noteq> 0" "6 \<le> lowest a" "a \<noteq> b" "\<not> ucset_key_covers a b" "\<not> ucset_key_covers b a"
  shows "branch_key (ucset_key_join b a)" "ucset_key_covers (ucset_key_join b a) a"
    "ucset_key_covers (ucset_key_join b a) b"
    "b < a \<Longrightarrow> b < ucset_key_join b a \<and> ucset_key_join b a < a"
    "\<not> b < a \<Longrightarrow> a < ucset_key_join b a \<and> ucset_key_join b a < b"
proof -
  have inc: "b \<noteq> a" "\<not> ucset_key_covers b a" "\<not> ucset_key_covers a b" using assms by auto
  note j = ucs.join_left [OF inc] ucs.join_right [OF inc] ucs.join_between [OF inc]
  show "ucset_key_covers (ucset_key_join b a) a" "ucset_key_covers (ucset_key_join b a) b" using j by auto
  show "b < a \<Longrightarrow> b < ucset_key_join b a \<and> ucset_key_join b a < a"
    "\<not> b < a \<Longrightarrow> a < ucset_key_join b a \<and> ucset_key_join b a < b"
    using j(3) by (auto simp: min_def max_def split: if_splits)
  then have "ucset_key_join b a \<noteq> a" by (cases "b < a") auto
  then show "branch_key (ucset_key_join b a)" using j(2) assms(1,2) by (intro branch_above)
qed

lemma clear_branch: "branch_key m \<Longrightarrow> m AND NOT 1 = m" "branch_key m \<Longrightarrow> m AND 1 = 0"
proof -
  assume "branch_key m"
  then have "lowest m \<noteq> 0" by (auto simp: branch_key_iff)
  then show "m AND NOT 1 = m" by (rule clear_flag)
  have "\<not> bit m 0" using lowest_below [of 0 m] \<open>lowest m \<noteq> 0\<close> by simp
  then show "m AND 1 = 0" using flag_bit [of m] by blast
qed

lemma join_expand:
  "(key AND NOT (cu_uintptr_dcover (key XOR nk))) OR (drop_bit 1 (cu_uintptr_dcover (key XOR nk)) + 1) =
     ucset_key_join key nk"
  by (simp only: ucset_key_join_def Let_def)

text \<open>A node that is dropped when it has neither an element nor both branches.\<close>

definition mk_node :: "u64 \<Rightarrow> ucset \<Rightarrow> ucset \<Rightarrow> ucset" where
  "mk_node k l r =
     (if k AND 1 = 0 \<and> l = Nul then r else if k AND 1 = 0 \<and> r = Nul then l else Ucnode k l r)"

lemma mk_node_elems:
  assumes "branch_key (k AND NOT 1)" "ucset_wf l" "ucset_wf r"
    "elems l \<subseteq> left_side (k AND NOT 1)" "elems r \<subseteq> right_side (k AND NOT 1)"
  shows "ucset_wf (mk_node k l r) \<and>
    elems (mk_node k l r) = elems l \<union> elems r \<union> (if k AND 1 \<noteq> 0 then {k AND NOT 1} else {})"
proof (cases "k AND 1 = 0 \<and> (l = Nul \<or> r = Nul)")
  case True
  then show ?thesis using assms(2,3) by (auto simp: mk_node_def)
next
  case False
  then have "mk_node k l r = Ucnode k l r" by (auto simp: mk_node_def)
  then show ?thesis using assms False by (simp add: wf_node)
qed

lemma mk_node_wf: "ucset_wf (Ucnode k l r) \<Longrightarrow> mk_node k l r = Ucnode k l r"
  by (auto simp: mk_node_def wf_node)

section \<open>Insertion and erasure\<close>

definition single :: "u64 \<Rightarrow> ucset" where
  "single key = (if key_is_leaflike key then ucleaf_new key else Ucnode (key OR 1) Nul Nul)"

lemma single_elems: "ucset_wf (single key) \<and> elems (single key) = {key}" "single key \<noteq> Nul"
proof -
  show "ucset_wf (single key) \<and> elems (single key) = {key}"
  proof (cases "key_is_leaflike key")
    case True
    then show ?thesis using leaf_new by (simp add: single_def)
  next
    case False
    then have "branch_key key" by (simp add: branch_key_def)
    then show ?thesis
      using False clear_branch(1) [of key] raw_or_1 [of key] by (simp add: single_def wf_node del: raw_or_1 word_bw_assocs)
  qed
  show "single key \<noteq> Nul" by (simp add: single_def ucleaf_new_def)
qed

lemma insert_node:
  assumes "branch_key (k AND NOT 1)"
  shows "cucon_ucset_insert (Ucnode k l r) key =
    (let nk = k AND NOT 1; node = Ucnode k l r in
     if key = nk then (if k AND 1 \<noteq> 0 then node else Ucnode (k OR 1) l r)
     else if ucset_key_covers nk key then
       (if key < nk then Ucnode k (cucon_ucset_insert l key) r else Ucnode k l (cucon_ucset_insert r key))
     else if ucset_key_covers key nk then
       (if nk < key then Ucnode (key OR 1) node Nul else Ucnode (key OR 1) Nul node)
     else if key < nk then Ucnode (ucset_key_join key nk) (single key) node
     else Ucnode (ucset_key_join key nk) node (single key))"
  using assms
  by (subst cucon_ucset_insert.simps)
    (simp only: Let_def ucnode_key_node ucset.sel ucset.distinct if_False join_expand ucnode_new_def single_def
      branch_key_def, auto)

lemma insert_leaf:
  assumes "ucset_wf (Ucleaf k b)"
  shows "cucon_ucset_insert (Ucleaf k b) key =
    (let node = Ucleaf k b in
     if key = k \<or> ucset_key_covers k key then
       (if key \<noteq> k \<and> ucleaf_find node key then node else ucleaf_insert node key)
     else if ucset_key_covers key k then
       (if k < key then Ucnode (key OR 1) node Nul else Ucnode (key OR 1) Nul node)
     else if key < k then Ucnode (ucset_key_join key k) (single key) node
     else Ucnode (ucset_key_join key k) node (single key))"
proof -
  have "key_is_leaflike k" "ucnode_key (Ucleaf k b) = k"
    using assms ucset_leaf_or_node [OF assms] by (auto simp: ucnode_key_leaf)
  then show ?thesis
    by (subst cucon_ucset_insert.simps)
      (simp only: Let_def ucset.sel ucset.distinct if_False join_expand ucnode_new_def single_def, auto)
qed

text \<open>Placing a tree under a new key, above or beside it.\<close>

lemma wf_under:
  assumes "ucset_wf A" "A \<noteq> Nul" "ucset_key_covers key (ucnode_key A)" "key \<noteq> ucnode_key A"
  defines "T \<equiv> if ucnode_key A < key then Ucnode (key OR 1) A Nul else Ucnode (key OR 1) Nul A"
  shows "ucset_wf T \<and> elems T = insert key (elems A)"
proof -
  have b: "branch_key key" using assms(3,4) node_level [OF assms(1,2)] by (intro branch_above)
  note raw = raw_or_1 [of key, unfolded clear_branch(1) [OF b]]
  have "elems A \<subseteq> left_side key" if "ucnode_key A < key"
    using that assms(3) by (intro elems_below [OF assms(1) b]) simp
  moreover have "elems A \<subseteq> right_side key" if "\<not> ucnode_key A < key"
    using that assms(3,4) by (intro elems_above [OF assms(1) b]) auto
  ultimately show ?thesis using assms(1) b raw by (auto simp: T_def wf_node)
qed

lemma wf_beside:
  assumes "ucset_wf A" "A \<noteq> Nul" "ucset_wf B" "B \<noteq> Nul" "ucset_key_covers m a" "branch_key m"
    "ucset_key_covers m (ucnode_key A)" "elems B \<subseteq> (if a < ucnode_key A then left_side m else right_side m)"
    "a < ucnode_key A \<Longrightarrow> m < ucnode_key A" "\<not> a < ucnode_key A \<Longrightarrow> ucnode_key A < m"
  defines "T \<equiv> if a < ucnode_key A then Ucnode m B A else Ucnode m A B"
  shows "ucset_wf T \<and> elems T = elems B \<union> elems A"
proof -
  have "elems A \<subseteq> left_side m" if "\<not> a < ucnode_key A"
    using that assms(7,10) by (intro elems_below [OF assms(1,6)]) simp
  moreover have "elems A \<subseteq> right_side m" if "a < ucnode_key A"
    using that assms(7,9) by (intro elems_above [OF assms(1,6)]) auto
  ultimately show ?thesis
    using assms(1-4,6,8) clear_branch [OF assms(6)] by (auto simp: T_def wf_node)
qed

lemma wf_join_single:
  assumes "ucset_wf A" "A \<noteq> Nul" "key \<noteq> ucnode_key A"
    "\<not> ucset_key_covers (ucnode_key A) key" "\<not> ucset_key_covers key (ucnode_key A)"
  defines "m \<equiv> ucset_key_join key (ucnode_key A)"
  defines "T \<equiv> if key < ucnode_key A then Ucnode m (single key) A else Ucnode m A (single key)"
  shows "ucset_wf T \<and> elems T = insert key (elems A)"
proof -
  note jk = join_key [OF node_level [OF assms(1,2)], of key, folded m_def]
  have "elems (single key) \<subseteq> (if key < ucnode_key A then left_side m else right_side m)"
    using jk assms(3-5) single_elems(1) [of key] by (auto simp: left_side_def right_side_def)
  then show ?thesis
    using wf_beside [of A "single key" m key] jk assms(1-5) single_elems [of key] unfolding T_def by auto
qed

lemma covers_leaf:
  assumes "leaf_key k = k" "key = k \<or> ucset_key_covers k key"
  shows "leaf_key key = k \<and> key_is_leaflike key"
proof -
  have l: "lowest k = 6" using lowest_leaf_key [of k] assms(1) by simp
  have "block 6 key = block 6 k" using assms(2) l by (auto simp: ucset_key_covers_block)
  then have "leaf_key key = k" using leaf_key_eq_iff [of key k] assms(1) by simp
  moreover have "key_is_leaflike key" using assms(2) l by (auto simp: ucset_key_covers_block leaflike_iff)
  ultimately show ?thesis by simp
qed

lemma insert_elems: "ucset_wf A \<Longrightarrow> ucset_wf (cucon_ucset_insert A key) \<and> elems (cucon_ucset_insert A key) = insert key (elems A)"
proof (induction A)
  case Nul
  have "cucon_ucset_insert Nul key = single key"
    by (subst cucon_ucset_insert.simps) (simp add: single_def ucnode_new_def)
  then show ?case using single_elems(1) [of key] by simp
next
  case (Ucleaf k b)
  note wf = Ucleaf.prems
  have nk: "ucnode_key (Ucleaf k b) = k" using wf by (simp add: ucnode_key_leaf)
  consider (inside) "key = k \<or> ucset_key_covers k key"
    | (up) "key \<noteq> k" "\<not> ucset_key_covers k key" "ucset_key_covers key k"
    | (join) "key \<noteq> k" "\<not> ucset_key_covers k key" "\<not> ucset_key_covers key k" by blast
  then show ?case
  proof cases
    case inside
    then have "leaf_key key = k" "key_is_leaflike key" using covers_leaf [of k key] wf by auto
    moreover have "insert key (elems (Ucleaf k b)) = elems (Ucleaf k b)" if "ucleaf_find (Ucleaf k b) key"
      using that \<open>leaf_key key = k\<close> by (auto simp: elems.simps)
    ultimately show ?thesis using inside leaf_insert [OF wf] wf by (auto simp: insert_leaf [OF wf] Let_def)
  next
    case up
    then show ?thesis
      using wf_under [OF wf, of key] by (simp add: insert_leaf [OF wf] Let_def nk split: if_splits)
  next
    case join
    then show ?thesis
      using wf_join_single [OF wf, of key] by (simp add: insert_leaf [OF wf] Let_def nk split: if_splits)
  qed
next
  case (Ucnode k l r)
  let ?k = "k AND NOT 1" and ?A = "Ucnode k l r"
  note wf = Ucnode.prems
  have b: "branch_key ?k" and sides: "ucset_wf l" "ucset_wf r" "elems l \<subseteq> left_side ?k" "elems r \<subseteq> right_side ?k"
    using wf by (auto simp: wf_node)
  consider (eq) "key = ?k" | (left) "key \<noteq> ?k" "ucset_key_covers ?k key" "key < ?k"
    | (right) "key \<noteq> ?k" "ucset_key_covers ?k key" "\<not> key < ?k"
    | (up) "key \<noteq> ?k" "\<not> ucset_key_covers ?k key" "ucset_key_covers key ?k"
    | (join) "key \<noteq> ?k" "\<not> ucset_key_covers ?k key" "\<not> ucset_key_covers key ?k" by blast
  then show ?case
  proof cases
    case eq
    have i: "cucon_ucset_insert ?A key = (if k AND 1 \<noteq> 0 then ?A else Ucnode (k OR 1) l r)"
      unfolding insert_node [OF b] Let_def eq by (simp only: refl if_True)
    show ?thesis
    proof (cases "k AND 1 = 0")
      case True
      then show ?thesis
        using b sides eq raw_or_1 [of k] unfolding i by (auto simp only: wf_node elems.simps if_True if_False simp_thms)
    next
      case False
      then show ?thesis using wf eq unfolding i by auto
    qed
  next
    case left
    then have i: "cucon_ucset_insert ?A key = Ucnode k (cucon_ucset_insert l key) r"
      unfolding insert_node [OF b] Let_def by (simp only: if_True if_False)
    have "key \<in> left_side ?k" using left by (simp add: left_side_def)
    moreover have "cucon_ucset_insert l key \<noteq> Nul" using Ucnode.IH(1) sides(1) by force
    ultimately show ?thesis using Ucnode.IH(1) sides wf unfolding i wf_node by auto
  next
    case right
    then have i: "cucon_ucset_insert ?A key = Ucnode k l (cucon_ucset_insert r key)"
      unfolding insert_node [OF b] Let_def by (simp only: if_True if_False)
    have "key \<in> right_side ?k" using right by (auto simp: right_side_def)
    moreover have "cucon_ucset_insert r key \<noteq> Nul" using Ucnode.IH(2) sides(2) by force
    ultimately show ?thesis using Ucnode.IH(2) sides wf unfolding i wf_node by auto
  next
    case up
    then have i: "cucon_ucset_insert ?A key = (if ?k < key then Ucnode (key OR 1) ?A Nul else Ucnode (key OR 1) Nul ?A)"
      unfolding insert_node [OF b] Let_def by (simp only: if_True if_False)
    show ?thesis using wf_under [OF wf, of key] up unfolding i by simp
  next
    case join
    then have i: "cucon_ucset_insert ?A key = (if key < ?k then Ucnode (ucset_key_join key ?k) (single key) ?A
        else Ucnode (ucset_key_join key ?k) ?A (single key))"
      unfolding insert_node [OF b] Let_def by (simp only: if_True if_False)
    show ?thesis using wf_join_single [OF wf _ _ , of key, unfolded ucnode_key_node] join unfolding i elems.simps by blast
  qed
qed

lemma erase_node:
  assumes "ucset_wf (Ucnode k l r)"
  shows "cucon_ucset_erase (Ucnode k l r) key =
    (if key = k AND NOT 1 then mk_node (k AND NOT 1) l r
     else if ucset_key_covers (k AND NOT 1) key then
       (if key < k AND NOT 1 then mk_node k (cucon_ucset_erase l key) r else mk_node k l (cucon_ucset_erase r key))
     else Ucnode k l r)"
proof -
  have b: "\<not> key_is_leaflike (k AND NOT 1)" using assms by (simp add: wf_node branch_key_def)
  have r: "k AND 1 = 0 \<Longrightarrow> mk_node (k AND NOT 1) l r = Ucnode k l r"
    using mk_node_wf [OF assms] raw_clear(3) [of k] by simp
  have m: "mk_node (k AND NOT 1) l r = (if l = Nul then r else if r = Nul then l else Ucnode (k AND NOT 1) l r)"
    unfolding mk_node_def raw_clear by simp
  have side: "k AND 1 = 0 \<Longrightarrow> l \<noteq> Nul \<and> r \<noteq> Nul" using assms by (simp add: wf_node)
  note mk_node_wf [OF assms]
  then show ?thesis
    using b r side m
    by (subst cucon_ucset_erase.simps)
      (simp only: Let_def ucnode_key_node ucset.sel ucset.distinct if_False ucnode_new_def, auto simp: mk_node_def)
qed

lemma leaf_covers:
  assumes "leaf_key k = k" "leaf_key j = k" "key_is_leaflike j"
  shows "j = k \<or> ucset_key_covers k j"
proof -
  have "lowest k = 6" "k \<noteq> 0" using lowest_leaf_key [of k] leaf_key_nonzero [of k] assms(1) by auto
  moreover have "block 6 k = block 6 j" using leaf_key_eq_iff [of j k] assms by simp
  ultimately show ?thesis using assms(3) by (auto simp: ucset_key_covers_block leaflike_iff)
qed

lemma erase_elems: "ucset_wf A \<Longrightarrow> ucset_wf (cucon_ucset_erase A key) \<and> elems (cucon_ucset_erase A key) = elems A - {key}"
proof (induction A)
  case Nul
  then show ?case by (simp add: cucon_ucset_erase.simps)
next
  case (Ucleaf k b)
  note wf = Ucleaf
  have k: "ucnode_key (Ucleaf k b) = k" "key_is_leaflike k" "leaf_key k = k"
    using wf ucset_leaf_or_node [OF wf] by (auto simp: ucnode_key_leaf)
  have e: "cucon_ucset_erase (Ucleaf k b) key =
      (if key = k \<or> ucset_key_covers k key then ucleaf_erase (Ucleaf k b) key else Ucleaf k b)"
    using k by (subst cucon_ucset_erase.simps) (auto simp: Let_def)
  show ?case
  proof (cases "key = k \<or> ucset_key_covers k key")
    case True
    then show ?thesis using leaf_erase [OF wf] covers_leaf [OF k(3)] by (simp add: e)
  next
    case False
    then have "key \<notin> elems (Ucleaf k b)"
      using leaf_covers [OF k(3)] leaf_elem_leaflike [OF wf, of key] by (auto simp: elems_leaf)
    then show ?thesis using False wf by (auto simp: e)
  qed
next
  case (Ucnode k l r)
  let ?k = "k AND NOT 1" and ?A = "Ucnode k l r"
  note wf = Ucnode.prems
  have b: "branch_key ?k" and sides: "ucset_wf l" "ucset_wf r" "elems l \<subseteq> left_side ?k" "elems r \<subseteq> right_side ?k"
    using wf by (auto simp: wf_node)
  note IH = Ucnode.IH(1) [OF sides(1)] Ucnode.IH(2) [OF sides(2)]
  have notin: "key \<notin> elems r" if "key < ?k" using that sides(4) by (auto simp: right_side_def)
  have notin': "key \<notin> elems l" if "\<not> key < ?k" using that sides(3) by (auto simp: left_side_def)
  consider (eq) "key = ?k" | (left) "key \<noteq> ?k" "ucset_key_covers ?k key" "key < ?k"
    | (right) "key \<noteq> ?k" "ucset_key_covers ?k key" "\<not> key < ?k"
    | (out) "key \<noteq> ?k" "\<not> ucset_key_covers ?k key" by blast
  then show ?case
  proof cases
    case eq
    then have e: "cucon_ucset_erase ?A key = mk_node ?k l r" unfolding erase_node [OF wf] by (simp only: refl if_True)
    have "ucset_wf (mk_node ?k l r) \<and> elems (mk_node ?k l r) = elems l \<union> elems r"
      using mk_node_elems [of ?k l r, unfolded raw_clear] b sides by simp
    then show ?thesis using sides_disjoint(2,3) [of ?k] sides(3,4) eq unfolding e by auto
  next
    case left
    then have e: "cucon_ucset_erase ?A key = mk_node k (cucon_ucset_erase l key) r"
      unfolding erase_node [OF wf] by (simp only: if_True if_False)
    have "elems (cucon_ucset_erase l key) \<subseteq> left_side ?k" using IH(1) sides(3) by auto
    from mk_node_elems [OF b conjunct1 [OF IH(1)] sides(2) this sides(4)] show ?thesis
      using IH(1) left(1) notin [OF left(3)] unfolding e by auto
  next
    case right
    then have e: "cucon_ucset_erase ?A key = mk_node k l (cucon_ucset_erase r key)"
      unfolding erase_node [OF wf] by (simp only: if_True if_False)
    have "elems (cucon_ucset_erase r key) \<subseteq> right_side ?k" using IH(2) sides(4) by auto
    from mk_node_elems [OF b sides(1) conjunct1 [OF IH(2)] sides(3) this] show ?thesis
      using IH(2) right(1) notin' [OF right(3)] unfolding e by auto
  next
    case out
    then have e: "cucon_ucset_erase ?A key = ?A" unfolding erase_node [OF wf] by (simp only: if_False)
    have "key \<notin> elems ?A" using out sides(3,4) by (auto simp: left_side_def right_side_def)
    then show ?thesis using wf unfolding e by blast
  qed
qed

end
