(* ===== verification/SetSpec.thy ===== *)
theory SetSpec
  imports Prelude
begin

text \<open>
  The interface of a constructive (persistent, hash-consed) set, as the clients of \<^verbatim>\<open>cucon\<close>
  rely on it: each operation acts on the set of members, and two sets with the same members are
  the same object. The boolean algebra that follows holds for the objects themselves.
\<close>

locale constructive_set =
  fixes invar :: "'s \<Rightarrow> bool" and members :: "'s \<Rightarrow> 'a set"
    and empty :: 's and insert :: "'s \<Rightarrow> 'a \<Rightarrow> 's" and erase :: "'s \<Rightarrow> 'a \<Rightarrow> 's"
    and union :: "'s \<Rightarrow> 's \<Rightarrow> 's" and isecn :: "'s \<Rightarrow> 's \<Rightarrow> 's" and compl :: "'s \<Rightarrow> 's \<Rightarrow> 's"
    and subeq :: "'s \<Rightarrow> 's \<Rightarrow> bool"
  assumes invar_empty: "invar empty"
    and members_empty: "members empty = {}"
    and insert_law: "invar A \<Longrightarrow> invar (insert A x) \<and> members (insert A x) = Set.insert x (members A)"
    and erase_law: "invar A \<Longrightarrow> invar (erase A x) \<and> members (erase A x) = members A - {x}"
    and union_law: "invar A \<Longrightarrow> invar B \<Longrightarrow> invar (union A B) \<and> members (union A B) = members A \<union> members B"
    and isecn_law: "invar A \<Longrightarrow> invar B \<Longrightarrow> invar (isecn A B) \<and> members (isecn A B) = members A \<inter> members B"
    and compl_law: "invar A \<Longrightarrow> invar B \<Longrightarrow> invar (compl A B) \<and> members (compl A B) = members A - members B"
    and subeq_law: "invar A \<Longrightarrow> invar B \<Longrightarrow> subeq A B \<longleftrightarrow> members A \<subseteq> members B"
    and extensional: "invar A \<Longrightarrow> invar B \<Longrightarrow> members A = members B \<Longrightarrow> A = B"
begin

lemmas laws = invar_empty members_empty insert_law erase_law union_law isecn_law compl_law

lemma insert_commute: "invar A \<Longrightarrow> insert (insert A x) y = insert (insert A y) x"
  by (intro extensional) (auto simp: laws)

lemma insert_present: "invar A \<Longrightarrow> x \<in> members A \<Longrightarrow> insert A x = A"
  by (intro extensional) (auto simp: laws)

lemma erase_insert: "invar A \<Longrightarrow> x \<notin> members A \<Longrightarrow> erase (insert A x) x = A"
  by (intro extensional) (auto simp: laws)

lemma union_commute: "invar A \<Longrightarrow> invar B \<Longrightarrow> union A B = union B A"
  by (intro extensional) (auto simp: laws)

lemma union_assoc: "invar A \<Longrightarrow> invar B \<Longrightarrow> invar C \<Longrightarrow> union (union A B) C = union A (union B C)"
  by (intro extensional) (auto simp: laws)

lemma isecn_distrib:
  "invar A \<Longrightarrow> invar B \<Longrightarrow> invar C \<Longrightarrow> isecn A (union B C) = union (isecn A B) (isecn A C)"
  by (intro extensional) (auto simp: laws)

lemma compl_union: "invar A \<Longrightarrow> invar B \<Longrightarrow> invar C \<Longrightarrow> compl A (union B C) = isecn (compl A B) (compl A C)"
  by (intro extensional) (auto simp: laws)

lemma split_by: "invar A \<Longrightarrow> invar B \<Longrightarrow> union (isecn A B) (compl A B) = A"
  by (intro extensional) (auto simp: laws)

lemma subeq_union: "invar A \<Longrightarrow> invar B \<Longrightarrow> subeq A B \<longleftrightarrow> union A B = B"
  using extensional [of "union A B" B] union_law [of A B] subeq_law [of A B] by (metis subset_Un_eq)

text \<open>Building a set by repeated insertion.\<close>

lemma insert_fold: "invar A \<Longrightarrow> invar (fold (\<lambda>x A. insert A (f x)) xs A) \<and>
    members (fold (\<lambda>x A. insert A (f x)) xs A) = members A \<union> f ` set xs"
  by (induction xs arbitrary: A) (auto simp: laws)

lemma built_by_insertion: "invar A \<Longrightarrow> members A = set xs \<Longrightarrow> A = fold (\<lambda>x A. insert A x) xs empty"
  using insert_fold [of empty "\<lambda>x. x" xs] by (intro extensional) (simp_all add: laws)

end

end
