(* ===== verification/UcsetAlgebra.thy ===== *)
theory UcsetAlgebra
  imports UcsetUpdate SetSpec
begin

text \<open>
  Union, intersection, difference, inclusion and disjointness of constructive sets against their
  elements, and the set interface they implement.
\<close>

section \<open>Two trees\<close>

lemma elems_apart:
  assumes "ucset_wf A" "ucset_wf B" "ucnode_key A \<noteq> ucnode_key B"
    "\<not> ucset_key_covers (ucnode_key A) (ucnode_key B)" "\<not> ucset_key_covers (ucnode_key B) (ucnode_key A)"
  shows "elems A \<inter> elems B = {}"
proof -
  have False if "j \<in> elems A" "j \<in> elems B" for j
    using elems_slot [OF assms(1) that(1)] elems_slot [OF assms(2) that(2)] assms(3-5)
      ucs.covers_laminar [of "ucnode_key A" "slot j" "ucnode_key B"] by auto
  then show ?thesis by blast
qed

lemma covering_node:
  assumes "ucset_wf A" "A \<noteq> Nul" "ucset_wf B" "B \<noteq> Nul" "ucnode_key A \<noteq> ucnode_key B"
    "ucset_key_covers (ucnode_key B) (ucnode_key A)"
  obtains k l r where "B = Ucnode k l r" "branch_key (k AND NOT 1)"
    "ucnode_key A < k AND NOT 1 \<and> elems A \<subseteq> left_side (k AND NOT 1) \<or>
     \<not> ucnode_key A < k AND NOT 1 \<and> elems A \<subseteq> right_side (k AND NOT 1)"
proof -
  have b: "branch_key (ucnode_key B)"
    using assms(5,6) node_level [OF assms(1,2)] by (intro branch_above) auto
  then have "\<not> is_Ucleaf B" using ucset_leaf_or_node [OF assms(3,4)] by (simp add: branch_key_def)
  then obtain k l r where B: "B = Ucnode k l r" using assms(4) by (cases B) auto
  then show ?thesis
    using that [of k l r] b assms(5,6) elems_below [OF assms(1) b] elems_above [OF assms(1) b]
    by (cases "ucnode_key A < k AND NOT 1") auto
qed

text \<open>How two nonempty sets lie against each other; the cases the binary operations distinguish.\<close>

lemma position_cases [consumes 4, case_names leaves nodes under over apart]:
  assumes "ucset_wf A" "ucset_wf B" "A \<noteq> Nul" "B \<noteq> Nul"
  obtains
    (leaves) k a b where "A = Ucleaf k a" "B = Ucleaf k b" "key_is_leaflike k" "leaf_key k = k"
  | (nodes) ka la ra kb lb rb where "A = Ucnode ka la ra" "B = Ucnode kb lb rb"
      "ka AND NOT 1 = kb AND NOT 1" "\<not> key_is_leaflike (kb AND NOT 1)"
  | (under) kb lb rb where "B = Ucnode kb lb rb" "ucnode_key A \<noteq> kb AND NOT 1"
      "ucset_key_covers (kb AND NOT 1) (ucnode_key A)" "\<not> ucset_key_covers (ucnode_key A) (kb AND NOT 1)"
      "ucnode_key A < kb AND NOT 1 \<and> elems A \<subseteq> left_side (kb AND NOT 1) \<or>
       \<not> ucnode_key A < kb AND NOT 1 \<and> elems A \<subseteq> right_side (kb AND NOT 1)"
  | (over) ka la ra where "A = Ucnode ka la ra" "ucnode_key B \<noteq> ka AND NOT 1"
      "ucset_key_covers (ka AND NOT 1) (ucnode_key B)" "\<not> ucset_key_covers (ucnode_key B) (ka AND NOT 1)"
      "ucnode_key B < ka AND NOT 1 \<and> elems B \<subseteq> left_side (ka AND NOT 1) \<or>
       \<not> ucnode_key B < ka AND NOT 1 \<and> elems B \<subseteq> right_side (ka AND NOT 1)"
  | (apart) "ucnode_key A \<noteq> ucnode_key B" "\<not> ucset_key_covers (ucnode_key A) (ucnode_key B)"
      "\<not> ucset_key_covers (ucnode_key B) (ucnode_key A)" "elems A \<inter> elems B = {}"
proof (cases "ucnode_key A = ucnode_key B")
  case True
  show ?thesis
  proof (cases "key_is_leaflike (ucnode_key A)")
    case leaf: True
    then have "is_Ucleaf A" "is_Ucleaf B"
      using True ucset_leaf_or_node [OF assms(1,3)] ucset_leaf_or_node [OF assms(2,4)] by auto
    then obtain k a k' b where AB: "A = Ucleaf k a" "B = Ucleaf k' b" by (cases A; cases B) auto
    then show ?thesis using leaves [of k a b] True leaf assms(1,2) by (simp add: ucnode_key_leaf)
  next
    case node: False
    then have "\<not> is_Ucleaf A" "\<not> is_Ucleaf B"
      using True ucset_leaf_or_node [OF assms(1,3)] ucset_leaf_or_node [OF assms(2,4)] by auto
    then obtain ka la ra kb lb rb where AB: "A = Ucnode ka la ra" "B = Ucnode kb lb rb"
      using assms(3,4) by (cases A; cases B) auto
    show ?thesis
      by (rule nodes [OF AB]) (use True node AB in \<open>simp_all only: ucnode_key_node not_False_eq_True\<close>)
  qed
next
  case ne: False
  have anti: "\<not> ucset_key_covers (ucnode_key A) (ucnode_key B)" if "ucset_key_covers (ucnode_key B) (ucnode_key A)"
    using that ne ucs.covers_antisym by blast
  consider (1) "ucset_key_covers (ucnode_key B) (ucnode_key A)" | (2) "ucset_key_covers (ucnode_key A) (ucnode_key B)"
    | (3) "\<not> ucset_key_covers (ucnode_key B) (ucnode_key A)" "\<not> ucset_key_covers (ucnode_key A) (ucnode_key B)" by blast
  then show ?thesis
  proof cases
    case 1
    from covering_node [OF assms(1,3,2,4) ne 1] obtain k l r where B: "B = Ucnode k l r"
      "ucnode_key A < k AND NOT 1 \<and> elems A \<subseteq> left_side (k AND NOT 1) \<or>
       \<not> ucnode_key A < k AND NOT 1 \<and> elems A \<subseteq> right_side (k AND NOT 1)" by metis
    show ?thesis
      by (rule under [OF B(1) _ _ _ B(2)]) (use ne 1 anti B(1) in \<open>simp_all only: ucnode_key_node not_False_eq_True\<close>)
  next
    case 2
    from covering_node [OF assms(2,4,1,3) ne [symmetric] 2] obtain k l r where A: "A = Ucnode k l r"
      "ucnode_key B < k AND NOT 1 \<and> elems B \<subseteq> left_side (k AND NOT 1) \<or>
       \<not> ucnode_key B < k AND NOT 1 \<and> elems B \<subseteq> right_side (k AND NOT 1)" by metis
    show ?thesis
      by (rule over [OF A(1) _ _ _ A(2)]) (use ne [symmetric] 2 anti A(1) in \<open>auto simp only: ucnode_key_node\<close>)
  next
    case 3
    then show ?thesis using apart [OF ne] elems_apart [OF assms(1,2) ne] by blast
  qed
qed

section \<open>Union\<close>

lemmas node_simps = Let_def ucnode_key_node ucset.sel ucset.distinct ucnode_new_def refl if_True if_False simp_thms

lemma union_Nul [simp]: "cucon_ucset_union Nul B = B" "cucon_ucset_union A Nul = A"
  by (subst cucon_ucset_union.simps, simp)+

lemma union_leaves:
  assumes "ucset_wf (Ucleaf k a)" "ucset_wf (Ucleaf k b)"
  shows "cucon_ucset_union (Ucleaf k a) (Ucleaf k b) = mk_leaf k (map2 (OR) a b)"
proof -
  have "key_is_leaflike k" "ucnode_key (Ucleaf k a) = k" "ucnode_key (Ucleaf k b) = k"
    using assms ucset_leaf_or_node [OF assms(1)] by (auto simp: ucnode_key_leaf)
  then have "cucon_ucset_union (Ucleaf k a) (Ucleaf k b) = Ucleaf k (map2 (OR) a b)"
    by (subst cucon_ucset_union.simps) (simp add: ucleaf_union_def)
  moreover have "elems (mk_leaf k (map2 (OR) a b)) \<noteq> {}"
    using leaf_map2 [OF assms, of "(\<or>)" "(OR)"] elems_nonempty [OF assms(1)] by (auto simp: bit_simps)
  ultimately show ?thesis by (auto simp: mk_leaf_def split: if_splits)
qed

lemma union_nodes:
  assumes "ka AND NOT 1 = kb AND NOT 1" "\<not> key_is_leaflike (kb AND NOT 1)"
  shows "cucon_ucset_union (Ucnode ka la ra) (Ucnode kb lb rb) =
    Ucnode (ka OR kb) (cucon_ucset_union la lb) (cucon_ucset_union ra rb)"
  using assms by (subst cucon_ucset_union.simps) (simp only: node_simps)

lemma union_under:
  assumes "A \<noteq> Nul" "ucnode_key A \<noteq> kb AND NOT 1" "ucset_key_covers (kb AND NOT 1) (ucnode_key A)"
  shows "cucon_ucset_union A (Ucnode kb lb rb) =
    (if ucnode_key A < kb AND NOT 1 then Ucnode kb (cucon_ucset_union A lb) rb
     else Ucnode kb lb (cucon_ucset_union A rb))"
  using assms by (subst cucon_ucset_union.simps) (simp only: node_simps)

lemma union_over:
  assumes "B \<noteq> Nul" "ucnode_key B \<noteq> ka AND NOT 1" "ucset_key_covers (ka AND NOT 1) (ucnode_key B)"
    "\<not> ucset_key_covers (ucnode_key B) (ka AND NOT 1)"
  shows "cucon_ucset_union (Ucnode ka la ra) B =
    (if ucnode_key B < ka AND NOT 1 then Ucnode ka (cucon_ucset_union B la) ra
     else Ucnode ka la (cucon_ucset_union B ra))"
proof -
  have "cucon_ucset_union (Ucnode ka la ra) B = cucon_ucset_union B (Ucnode ka la ra)"
    using assms by (subst cucon_ucset_union.simps) (simp only: node_simps, metis)
  then show ?thesis using union_under [OF assms(1-3)] by simp
qed

lemma union_apart:
  assumes "A \<noteq> Nul" "B \<noteq> Nul" "ucnode_key A \<noteq> ucnode_key B" "\<not> ucset_key_covers (ucnode_key A) (ucnode_key B)"
    "\<not> ucset_key_covers (ucnode_key B) (ucnode_key A)"
  shows "cucon_ucset_union A B =
    (if ucnode_key A < ucnode_key B then Ucnode (ucset_key_join (ucnode_key A) (ucnode_key B)) A B
     else Ucnode (ucset_key_join (ucnode_key A) (ucnode_key B)) B A)"
  using assms by (subst cucon_ucset_union.simps) (simp only: node_simps join_expand)

text \<open>Replacing one branch of a node by a set with more elements on its side.\<close>

lemma grow_branch:
  assumes "ucset_wf (Ucnode k l r)"
    and "c \<and> S \<subseteq> left_side (k AND NOT 1) \<or> \<not> c \<and> S \<subseteq> right_side (k AND NOT 1)"
    and "ucset_wf l' \<and> elems l' = S \<union> elems l" "ucset_wf r' \<and> elems r' = S \<union> elems r"
  shows "ucset_wf (if c then Ucnode k l' r else Ucnode k l r') \<and>
    elems (if c then Ucnode k l' r else Ucnode k l r') = S \<union> elems (Ucnode k l r)"
proof (cases c)
  case True
  have "l' \<noteq> Nul" if "l \<noteq> Nul" using that assms(1,3) elems_nonempty [of l] by (auto simp: wf_node)
  then have "ucset_wf (Ucnode k l' r)" using assms(1-3) True unfolding wf_node by blast
  then show ?thesis using True assms(3) by auto
next
  case False
  have "r' \<noteq> Nul" if "r \<noteq> Nul" using that assms(1,4) elems_nonempty [of r] by (auto simp: wf_node)
  then have "ucset_wf (Ucnode k l r')" using assms(1,2,4) False unfolding wf_node by blast
  then show ?thesis using False assms(4) by auto
qed

lemma wf_branches: "ucset_wf (Ucnode k l r) \<Longrightarrow> ucset_wf l \<and> ucset_wf r"
  by (simp add: wf_node)

lemma union_elems:
  "ucset_wf A \<Longrightarrow> ucset_wf B \<Longrightarrow>
     ucset_wf (cucon_ucset_union A B) \<and> elems (cucon_ucset_union A B) = elems A \<union> elems B"
proof (induction "nodes A + nodes B" arbitrary: A B rule: less_induct)
  case less
  show ?case
  proof (cases "A = Nul \<or> B = Nul")
    case False
    then have ne: "A \<noteq> Nul" "B \<noteq> Nul" by auto
    from less.prems ne show ?thesis
    proof (cases rule: position_cases)
      case (leaves k a b)
      have "elems A \<union> elems B = {j. j \<in> elems A \<or> j \<in> elems B}" by blast
      then show ?thesis
        using leaf_map2 [of k a b "(\<or>)" "(OR)"] less.prems union_leaves [of k a b] leaves(1,2) by (simp add: bit_simps)
    next
      case (nodes ka la ra kb lb rb)
      have wf: "ucset_wf la" "ucset_wf ra" "ucset_wf lb" "ucset_wf rb"
        using less.prems wf_branches unfolding nodes(1,2) by blast+
      have IH: "ucset_wf (cucon_ucset_union la lb)" "elems (cucon_ucset_union la lb) = elems la \<union> elems lb"
        "ucset_wf (cucon_ucset_union ra rb)" "elems (cucon_ucset_union ra rb) = elems ra \<union> elems rb"
        using less.hyps [of la lb] less.hyps [of ra rb] wf unfolding nodes(1,2) by auto
      note raw = raw_combine [OF nodes(3)]
      have e: "elems (Ucnode (ka OR kb) (cucon_ucset_union la lb) (cucon_ucset_union ra rb)) = elems A \<union> elems B"
        unfolding nodes(1,2) elems.simps IH raw(1,4) nodes(3) by auto
      have "ucset_wf (Ucnode (ka OR kb) (cucon_ucset_union la lb) (cucon_ucset_union ra rb))"
        using less.prems IH raw(4) elems_eq_empty [OF wf(1)] elems_eq_empty [OF wf(2)]
          elems_eq_empty [OF IH(1)] elems_eq_empty [OF IH(3)]
        unfolding nodes(1,2) wf_node raw(1) nodes(3) by auto
      then show ?thesis using e unfolding nodes(1,2) union_nodes [OF nodes(3,4)] by simp
    next
      case (under kb lb rb)
      note wf = wf_branches [OF less.prems(2) [unfolded under(1)]]
      have "ucset_wf (cucon_ucset_union A lb) \<and> elems (cucon_ucset_union A lb) = elems A \<union> elems lb"
        "ucset_wf (cucon_ucset_union A rb) \<and> elems (cucon_ucset_union A rb) = elems A \<union> elems rb"
        using less.hyps [of A lb] less.hyps [of A rb] less.prems(1) wf unfolding under(1) by auto
      then show ?thesis
        unfolding under(1) union_under [OF ne(1) under(2,3)]
        by (rule grow_branch [OF less.prems(2) [unfolded under(1)] under(5)])
    next
      case (over ka la ra)
      note wf = wf_branches [OF less.prems(1) [unfolded over(1)]]
      have "ucset_wf (cucon_ucset_union B la) \<and> elems (cucon_ucset_union B la) = elems B \<union> elems la"
        "ucset_wf (cucon_ucset_union B ra) \<and> elems (cucon_ucset_union B ra) = elems B \<union> elems ra"
        using less.hyps [of B la] less.hyps [of B ra] less.prems(2) wf unfolding over(1) by auto
      then show ?thesis
        unfolding over(1) union_over [OF ne(2) over(2-4)] Un_commute [of _ "elems B"]
        by (rule grow_branch [OF less.prems(1) [unfolded over(1)] over(5)])
    next
      case apart
      let ?m = "ucset_key_join (ucnode_key A) (ucnode_key B)"
      note jk = join_key [OF node_level [OF less.prems(2) ne(2)], of "ucnode_key A"]
      have "elems A \<subseteq> (if ucnode_key A < ucnode_key B then left_side ?m else right_side ?m)"
        using jk apart(1-3) elems_below [OF less.prems(1), of ?m] elems_above [OF less.prems(1), of ?m] by auto
      then show ?thesis
        using wf_beside [OF less.prems(2) ne(2) less.prems(1) ne(1), of ?m "ucnode_key A"] jk apart(1-3)
        unfolding union_apart [OF ne apart(1-3)] by auto
    qed
  qed (use less.prems in auto)
qed

section \<open>Intersection and difference\<close>

text \<open>Elements on one side of a node meet only that branch.\<close>

lemma side_meet:
  assumes "ucset_wf (Ucnode k l r)"
    and "c \<and> S \<subseteq> left_side (k AND NOT 1) \<or> \<not> c \<and> S \<subseteq> right_side (k AND NOT 1)"
  shows "S \<inter> elems (Ucnode k l r) = S \<inter> elems (if c then l else r)"
  using assms sides_disjoint [of "k AND NOT 1"] by (auto simp: wf_node split: if_splits)

lemma side_minus:
  assumes "ucset_wf (Ucnode k l r)"
    and "c \<and> S \<subseteq> left_side (k AND NOT 1) \<or> \<not> c \<and> S \<subseteq> right_side (k AND NOT 1)"
  shows "S - elems (Ucnode k l r) = S - elems (if c then l else r)"
  using side_meet [OF assms] by blast

lemma isecn_Nul [simp]: "cucon_ucset_isecn Nul B = Nul" "cucon_ucset_isecn A Nul = Nul"
  by (subst cucon_ucset_isecn.simps, simp)+

lemma leaf_keys:
  assumes "ucset_wf (Ucleaf k a)"
  shows "key_is_leaflike k" "ucnode_key (Ucleaf k a) = k"
  using assms ucset_leaf_or_node [OF assms] by (auto simp: ucnode_key_leaf)

lemma isecn_leaves:
  assumes "ucset_wf (Ucleaf k a)" "ucset_wf (Ucleaf k b)"
  shows "cucon_ucset_isecn (Ucleaf k a) (Ucleaf k b) = mk_leaf k (map2 (AND) a b)"
  using leaf_keys [OF assms(1)] leaf_keys [OF assms(2)]
  by (subst cucon_ucset_isecn.simps) (simp add: ucleaf_isecn_def mk_leaf_def)

lemma isecn_nodes:
  assumes "ka AND NOT 1 = kb AND NOT 1" "\<not> key_is_leaflike (kb AND NOT 1)"
  shows "cucon_ucset_isecn (Ucnode ka la ra) (Ucnode kb lb rb) =
    mk_node (ka AND kb) (cucon_ucset_isecn la lb) (cucon_ucset_isecn ra rb)"
  using assms by (subst cucon_ucset_isecn.simps) (simp only: node_simps mk_node_def)

lemma isecn_under:
  assumes "A \<noteq> Nul" "ucnode_key A \<noteq> kb AND NOT 1" "ucset_key_covers (kb AND NOT 1) (ucnode_key A)"
  shows "cucon_ucset_isecn A (Ucnode kb lb rb) = cucon_ucset_isecn A (if ucnode_key A < kb AND NOT 1 then lb else rb)"
  using assms by (subst cucon_ucset_isecn.simps) (simp only: node_simps split: if_split, blast)

lemma isecn_over:
  assumes "B \<noteq> Nul" "ucnode_key B \<noteq> ka AND NOT 1" "ucset_key_covers (ka AND NOT 1) (ucnode_key B)"
    "\<not> ucset_key_covers (ucnode_key B) (ka AND NOT 1)"
  shows "cucon_ucset_isecn (Ucnode ka la ra) B = cucon_ucset_isecn B (if ucnode_key B < ka AND NOT 1 then la else ra)"
proof -
  have "cucon_ucset_isecn (Ucnode ka la ra) B = cucon_ucset_isecn B (Ucnode ka la ra)"
    using assms by (subst cucon_ucset_isecn.simps) (simp only: node_simps, metis)
  then show ?thesis using isecn_under [OF assms(1-3)] by simp
qed

lemma isecn_apart:
  assumes "ucnode_key A \<noteq> ucnode_key B" "\<not> ucset_key_covers (ucnode_key A) (ucnode_key B)"
    "\<not> ucset_key_covers (ucnode_key B) (ucnode_key A)"
  shows "cucon_ucset_isecn A B = Nul"
  using assms by (subst cucon_ucset_isecn.simps) (simp only: Let_def simp_thms if_False if_cancel)

lemma nodes_cond: "nodes (if c then l else r) < nodes (Ucnode k l r)"
  by auto

lemma isecn_elems:
  "ucset_wf A \<Longrightarrow> ucset_wf B \<Longrightarrow>
     ucset_wf (cucon_ucset_isecn A B) \<and> elems (cucon_ucset_isecn A B) = elems A \<inter> elems B"
proof (induction "nodes A + nodes B" arbitrary: A B rule: less_induct)
  case less
  show ?case
  proof (cases "A = Nul \<or> B = Nul")
    case False
    then have ne: "A \<noteq> Nul" "B \<noteq> Nul" by auto
    from less.prems ne show ?thesis
    proof (cases rule: position_cases)
      case (leaves k a b)
      have "elems A \<inter> elems B = {j. j \<in> elems A \<and> j \<in> elems B}" by blast
      then show ?thesis
        using leaf_map2 [of k a b "(\<and>)" "(AND)"] less.prems isecn_leaves [of k a b] leaves(1,2) by (simp add: bit_simps)
    next
      case (nodes ka la ra kb lb rb)
      note wfn = less.prems(1) [unfolded nodes(1)] less.prems(2) [unfolded nodes(2)]
      note wf = wf_branches [OF wfn(1)] wf_branches [OF wfn(2)]
      have IH: "ucset_wf (cucon_ucset_isecn la lb)" "elems (cucon_ucset_isecn la lb) = elems la \<inter> elems lb"
        "ucset_wf (cucon_ucset_isecn ra rb)" "elems (cucon_ucset_isecn ra rb) = elems ra \<inter> elems rb"
        using less.hyps [of la lb] less.hyps [of ra rb] wf unfolding nodes(1,2) by auto
      note raw = raw_combine [OF nodes(3)]
      have "ucset_wf (mk_node (ka AND kb) (cucon_ucset_isecn la lb) (cucon_ucset_isecn ra rb)) \<and>
          elems (mk_node (ka AND kb) (cucon_ucset_isecn la lb) (cucon_ucset_isecn ra rb)) =
          (elems la \<inter> elems lb) \<union> (elems ra \<inter> elems rb) \<union> (if ka AND 1 \<noteq> 0 \<and> kb AND 1 \<noteq> 0 then {ka AND NOT 1} else {})"
        unfolding IH(2,4) [symmetric] raw(5) [symmetric] raw(2) [symmetric]
        by (rule mk_node_elems) (use wfn IH in \<open>auto simp only: raw wf_node\<close>)
      moreover have "(elems la \<inter> elems lb) \<union> (elems ra \<inter> elems rb) \<union>
          (if ka AND 1 \<noteq> 0 \<and> kb AND 1 \<noteq> 0 then {ka AND NOT 1} else {}) = elems A \<inter> elems B"
        using wfn sides_disjoint [of "kb AND NOT 1"] unfolding nodes(1,2) wf_node elems.simps nodes(3) by auto
      ultimately show ?thesis unfolding nodes(1,2) isecn_nodes [OF nodes(3,4)] by simp
    next
      case (under kb lb rb)
      note wfn = less.prems(2) [unfolded under(1)]
      let ?t = "if ucnode_key A < kb AND NOT 1 then lb else rb"
      have "ucset_wf (cucon_ucset_isecn A ?t) \<and> elems (cucon_ucset_isecn A ?t) = elems A \<inter> elems ?t"
        using less.hyps [of A ?t] less.prems(1) wf_branches [OF wfn] nodes_cond [of _ lb rb kb] unfolding under(1) by auto
      then show ?thesis unfolding under(1) isecn_under [OF ne(1) under(2,3)] side_meet [OF wfn under(5)] .
    next
      case (over ka la ra)
      note wfn = less.prems(1) [unfolded over(1)]
      let ?t = "if ucnode_key B < ka AND NOT 1 then la else ra"
      have "ucset_wf (cucon_ucset_isecn B ?t) \<and> elems (cucon_ucset_isecn B ?t) = elems B \<inter> elems ?t"
        using less.hyps [of B ?t] less.prems(2) wf_branches [OF wfn] nodes_cond [of _ la ra ka] unfolding over(1) by auto
      then show ?thesis
        unfolding over(1) isecn_over [OF ne(2) over(2-4)] Int_commute [of _ "elems B"] side_meet [OF wfn over(5)] .
    next
      case apart
      then show ?thesis using isecn_apart [OF apart(1-3)] by simp
    qed
  qed auto
qed

lemma compl_Nul [simp]: "cucon_ucset_compl Nul B = Nul" "cucon_ucset_compl A Nul = A"
  by (subst cucon_ucset_compl.simps, simp)+

lemma compl_leaves:
  assumes "ucset_wf (Ucleaf k a)" "ucset_wf (Ucleaf k b)"
  shows "cucon_ucset_compl (Ucleaf k a) (Ucleaf k b) = mk_leaf k (map2 (\<lambda>x y. x AND NOT y) a b)"
  using leaf_keys [OF assms(1)] leaf_keys [OF assms(2)]
  by (subst cucon_ucset_compl.simps) (simp add: ucleaf_minus_def mk_leaf_def)

lemma compl_nodes:
  assumes "ka AND NOT 1 = kb AND NOT 1" "\<not> key_is_leaflike (kb AND NOT 1)"
  shows "cucon_ucset_compl (Ucnode ka la ra) (Ucnode kb lb rb) =
    mk_node (ka AND NOT (kb AND 1)) (cucon_ucset_compl la lb) (cucon_ucset_compl ra rb)"
  using assms by (subst cucon_ucset_compl.simps) (simp only: node_simps mk_node_def)

lemma compl_under:
  assumes "A \<noteq> Nul" "ucnode_key A \<noteq> kb AND NOT 1" "ucset_key_covers (kb AND NOT 1) (ucnode_key A)"
    "\<not> ucset_key_covers (ucnode_key A) (kb AND NOT 1)"
  shows "cucon_ucset_compl A (Ucnode kb lb rb) = cucon_ucset_compl A (if ucnode_key A < kb AND NOT 1 then lb else rb)"
  using assms by (subst cucon_ucset_compl.simps) (simp only: node_simps split: if_split, blast)

lemma compl_over:
  assumes "ucset_wf (Ucnode ka la ra)" "B \<noteq> Nul" "ucnode_key B \<noteq> ka AND NOT 1"
    "ucset_key_covers (ka AND NOT 1) (ucnode_key B)"
  shows "cucon_ucset_compl (Ucnode ka la ra) B =
    (if ucnode_key B < ka AND NOT 1 then mk_node ka (cucon_ucset_compl la B) ra
     else mk_node ka la (cucon_ucset_compl ra B))"
proof -
  have "ka AND 1 = 0 \<Longrightarrow> la \<noteq> Nul \<and> ra \<noteq> Nul" using assms(1) by (simp add: wf_node)
  then show ?thesis
    using assms(2-4) by (subst cucon_ucset_compl.simps) (simp only: node_simps mk_node_def not_sym, auto)
qed

lemma compl_apart:
  assumes "A \<noteq> Nul" "ucnode_key A \<noteq> ucnode_key B" "\<not> ucset_key_covers (ucnode_key A) (ucnode_key B)"
    "\<not> ucset_key_covers (ucnode_key B) (ucnode_key A)"
  shows "cucon_ucset_compl A B = A"
  using assms by (subst cucon_ucset_compl.simps) (simp only: Let_def simp_thms if_False if_cancel)

lemma compl_elems:
  "ucset_wf A \<Longrightarrow> ucset_wf B \<Longrightarrow>
     ucset_wf (cucon_ucset_compl A B) \<and> elems (cucon_ucset_compl A B) = elems A - elems B"
proof (induction "nodes A + nodes B" arbitrary: A B rule: less_induct)
  case less
  show ?case
  proof (cases "A = Nul \<or> B = Nul")
    case False
    then have ne: "A \<noteq> Nul" "B \<noteq> Nul" by auto
    from less.prems ne show ?thesis
    proof (cases rule: position_cases)
      case (leaves k a b)
      have "elems A - elems B = {j. j \<in> elems A \<and> j \<notin> elems B}" by blast
      then show ?thesis
        using leaf_map2 [of k a b "\<lambda>p q. p \<and> \<not> q" "\<lambda>x y. x AND NOT y"] less.prems compl_leaves [of k a b] leaves(1,2)
        by (simp add: bit_simps)
    next
      case (nodes ka la ra kb lb rb)
      note wfn = less.prems(1) [unfolded nodes(1)] less.prems(2) [unfolded nodes(2)]
      note wf = wf_branches [OF wfn(1)] wf_branches [OF wfn(2)]
      have IH: "ucset_wf (cucon_ucset_compl la lb)" "elems (cucon_ucset_compl la lb) = elems la - elems lb"
        "ucset_wf (cucon_ucset_compl ra rb)" "elems (cucon_ucset_compl ra rb) = elems ra - elems rb"
        using less.hyps [of la lb] less.hyps [of ra rb] wf unfolding nodes(1,2) by auto
      note raw = raw_combine [OF nodes(3)]
      have "ucset_wf (mk_node (ka AND NOT (kb AND 1)) (cucon_ucset_compl la lb) (cucon_ucset_compl ra rb)) \<and>
          elems (mk_node (ka AND NOT (kb AND 1)) (cucon_ucset_compl la lb) (cucon_ucset_compl ra rb)) =
          (elems la - elems lb) \<union> (elems ra - elems rb) \<union> (if ka AND 1 \<noteq> 0 \<and> kb AND 1 = 0 then {ka AND NOT 1} else {})"
        unfolding IH(2,4) [symmetric] raw(6) [symmetric] raw(3) [symmetric]
        by (rule mk_node_elems) (use wfn IH in \<open>auto simp only: raw wf_node\<close>)
      moreover have "(elems la - elems lb) \<union> (elems ra - elems rb) \<union>
          (if ka AND 1 \<noteq> 0 \<and> kb AND 1 = 0 then {ka AND NOT 1} else {}) = elems A - elems B"
        using wfn sides_disjoint [of "kb AND NOT 1"] unfolding nodes(1,2) wf_node elems.simps nodes(3) by auto
      ultimately show ?thesis unfolding nodes(1,2) compl_nodes [OF nodes(3,4)] by simp
    next
      case (under kb lb rb)
      note wfn = less.prems(2) [unfolded under(1)]
      let ?t = "if ucnode_key A < kb AND NOT 1 then lb else rb"
      have "ucset_wf (cucon_ucset_compl A ?t) \<and> elems (cucon_ucset_compl A ?t) = elems A - elems ?t"
        using less.hyps [of A ?t] less.prems(1) wf_branches [OF wfn] nodes_cond [of _ lb rb kb] unfolding under(1) by auto
      then show ?thesis unfolding under(1) compl_under [OF ne(1) under(2-4)] side_minus [OF wfn under(5)] .
    next
      case (over ka la ra)
      note wfn = less.prems(1) [unfolded over(1)]
      note wf = wf_branches [OF wfn]
      have IH: "ucset_wf (cucon_ucset_compl la B)" "elems (cucon_ucset_compl la B) = elems la - elems B"
        "ucset_wf (cucon_ucset_compl ra B)" "elems (cucon_ucset_compl ra B) = elems ra - elems B"
        using less.hyps [of la B] less.hyps [of ra B] less.prems(2) wf unfolding over(1) by auto
      have b: "branch_key (ka AND NOT 1)" "elems la \<subseteq> left_side (ka AND NOT 1)" "elems ra \<subseteq> right_side (ka AND NOT 1)"
        using wfn by (simp_all add: wf_node)
      show ?thesis
      proof (cases "ucnode_key B < ka AND NOT 1")
        case True
        then have "elems B \<subseteq> left_side (ka AND NOT 1)" using over(5) by simp
        moreover have "elems (cucon_ucset_compl la B) \<subseteq> left_side (ka AND NOT 1)" using IH(2) b(2) by blast
        ultimately show ?thesis
          using mk_node_elems [OF b(1) IH(1) conjunct2 [OF wf] _ b(3)] True b(3) sides_disjoint [of "ka AND NOT 1"]
          unfolding over(1) compl_over [OF wfn ne(2) over(2,3)] IH(2) by auto
      next
        case False
        then have "elems B \<subseteq> right_side (ka AND NOT 1)" using over(5) by simp
        moreover have "elems (cucon_ucset_compl ra B) \<subseteq> right_side (ka AND NOT 1)" using IH(4) b(3) by blast
        ultimately show ?thesis
          using mk_node_elems [OF b(1) conjunct1 [OF wf] IH(3) b(2)] False b(2) sides_disjoint [of "ka AND NOT 1"]
          unfolding over(1) compl_over [OF wfn ne(2) over(2,3)] IH(4) by auto
      qed
    next
      case apart
      then show ?thesis using compl_apart [OF ne(1) apart(1-3)] less.prems(1) by auto
    qed
  qed (use less.prems in auto)
qed

section \<open>Inclusion and disjointness\<close>

lemma leaf_all2:
  fixes f :: "u64 \<Rightarrow> u64 \<Rightarrow> u64"
  assumes "ucset_wf (Ucleaf k a)" "ucset_wf (Ucleaf k b)" "\<not> F False False"
    and "\<And>x y n. n < 64 \<Longrightarrow> bit (f x y) n = F (bit x n) (bit y n)"
  shows "list_all2 (\<lambda>x y. f x y = 0) a b \<longleftrightarrow>
    (\<forall>j. \<not> F (j \<in> elems (Ucleaf k a)) (j \<in> elems (Ucleaf k b)))"
proof -
  have lm: "ucset_wf (mk_leaf k (map2 f a b)) \<and>
      elems (mk_leaf k (map2 f a b)) = {j. F (j \<in> elems (Ucleaf k a)) (j \<in> elems (Ucleaf k b))}"
    using assms by (rule leaf_map2)
  have "length a = length b" using assms(1,2) by simp
  then have "list_all2 (\<lambda>x y. f x y = 0) a b \<longleftrightarrow> mk_leaf k (map2 f a b) = Nul"
    by (auto simp: mk_leaf_def list_all2_conv_all_nth list_ex_length)
  also have "\<dots> \<longleftrightarrow> {j. F (j \<in> elems (Ucleaf k a)) (j \<in> elems (Ucleaf k b))} = {}"
    using elems_eq_empty [OF conjunct1 [OF lm]] unfolding conjunct2 [OF lm] by (rule sym)
  finally show ?thesis by blast
qed

text \<open>A set whose key covers that of another lies on no single side of its key.\<close>

lemma covering_not_subset:
  assumes "ucset_wf (Ucnode k l r)" "c \<and> S \<subseteq> left_side (k AND NOT 1) \<or> \<not> c \<and> S \<subseteq> right_side (k AND NOT 1)"
  shows "\<not> elems (Ucnode k l r) \<subseteq> S"
proof (cases "k AND 1 = 0")
  case True
  then have "elems l \<noteq> {}" "elems r \<noteq> {}" using assms(1) elems_nonempty by (auto simp: wf_node)
  moreover have "elems l \<subseteq> left_side (k AND NOT 1)" "elems r \<subseteq> right_side (k AND NOT 1)"
    using assms(1) by (simp_all add: wf_node)
  ultimately show ?thesis using assms(2) sides_disjoint(1) [of "k AND NOT 1"] unfolding elems.simps by blast
next
  case False
  then show ?thesis using assms(2) sides_disjoint [of "k AND NOT 1"] by (auto simp only: elems.simps if_True simp_thms)
qed

lemma same_key_parts:
  assumes "ucset_wf (Ucnode ka la ra)" "ucset_wf (Ucnode kb lb rb)" "ka AND NOT 1 = kb AND NOT 1"
  shows "elems (Ucnode ka la ra) \<subseteq> elems (Ucnode kb lb rb) \<longleftrightarrow>
      \<not> (ka AND 1 \<noteq> 0 \<and> kb AND 1 = 0) \<and> elems la \<subseteq> elems lb \<and> elems ra \<subseteq> elems rb"
    "elems (Ucnode ka la ra) \<inter> elems (Ucnode kb lb rb) = {} \<longleftrightarrow>
      \<not> (ka AND 1 \<noteq> 0 \<and> kb AND 1 \<noteq> 0) \<and> elems la \<inter> elems lb = {} \<and> elems ra \<inter> elems rb = {}"
proof -
  define A B k where "A = elems (Ucnode ka la ra)" and "B = elems (Ucnode kb lb rb)" and "k = kb AND NOT 1"
  have a: "elems la = A \<inter> left_side k" "elems ra = A \<inter> right_side k" "ka AND 1 \<noteq> 0 \<longleftrightarrow> k \<in> A"
    using side_parts [OF assms(1)] unfolding assms(3) A_def k_def by blast+
  have b: "elems lb = B \<inter> left_side k" "elems rb = B \<inter> right_side k" "kb AND 1 \<noteq> 0 \<longleftrightarrow> k \<in> B"
    using side_parts [OF assms(2)] unfolding B_def k_def by blast+
  have A: "A \<subseteq> left_side k \<union> right_side k \<union> {k}"
    using assms(1) unfolding A_def k_def wf_node elems.simps assms(3) by auto
  show "elems (Ucnode ka la ra) \<subseteq> elems (Ucnode kb lb rb) \<longleftrightarrow>
      \<not> (ka AND 1 \<noteq> 0 \<and> kb AND 1 = 0) \<and> elems la \<subseteq> elems lb \<and> elems ra \<subseteq> elems rb"
    unfolding A_def [symmetric] B_def [symmetric] a(1,2) b(1,2) using A a(3) b(3) by blast
  show "elems (Ucnode ka la ra) \<inter> elems (Ucnode kb lb rb) = {} \<longleftrightarrow>
      \<not> (ka AND 1 \<noteq> 0 \<and> kb AND 1 \<noteq> 0) \<and> elems la \<inter> elems lb = {} \<and> elems ra \<inter> elems rb = {}"
    unfolding A_def [symmetric] B_def [symmetric] a(1,2) b(1,2) using A a(3) b(3) by blast
qed

lemma flag_less: "a AND 1 > b AND 1 \<longleftrightarrow> a AND 1 \<noteq> 0 \<and> b AND 1 = 0" for a b :: u64
  by (auto simp: and_one_eq mod2_eq_if)

lemma flag_and: "a AND b AND 1 \<noteq> 0 \<longleftrightarrow> a AND 1 \<noteq> 0 \<and> b AND 1 \<noteq> 0" for a b :: u64
  by (simp only: word_bw_assocs(1) [symmetric] flag_bit bit_and_iff)

lemma subeq_elems:
  "ucset_wf A \<Longrightarrow> ucset_wf B \<Longrightarrow> cucon_ucset_subeq A B \<longleftrightarrow> elems A \<subseteq> elems B"
proof (induction "nodes A + nodes B" arbitrary: A B rule: less_induct)
  case less
  consider (eq) "A = B" | (nil) "A = Nul" | (nil') "B = Nul" "A \<noteq> Nul" | (ne) "A \<noteq> B" "A \<noteq> Nul" "B \<noteq> Nul" by blast
  then show ?case
  proof cases
    case ne
    note unfold = cucon_ucset_subeq.simps [of A B]
    from less.prems ne(2,3) show ?thesis
    proof (cases rule: position_cases)
      case (leaves k a b)
      have "cucon_ucset_subeq A B \<longleftrightarrow> list_all2 (\<lambda>x y. x AND NOT y = 0) a b"
        using ne leaf_keys [of k a] leaf_keys [of k b] less.prems unfolding leaves(1,2)
        by (subst cucon_ucset_subeq.simps) (simp add: ucleaf_subeq_def)
      then show ?thesis
        using leaf_all2 [of k a b "\<lambda>p q. p \<and> \<not> q" "\<lambda>x y. x AND NOT y"] less.prems leaves(1,2)
        by (auto simp: bit_simps)
    next
      case (nodes ka la ra kb lb rb)
      note wfn = less.prems(1) [unfolded nodes(1)] less.prems(2) [unfolded nodes(2)]
      have "cucon_ucset_subeq A B \<longleftrightarrow> \<not> (ka AND 1 \<noteq> 0 \<and> kb AND 1 = 0) \<and> cucon_ucset_subeq la lb \<and> cucon_ucset_subeq ra rb"
        using ne(1) nodes(3,4) unfolding nodes(1,2)
        by (subst cucon_ucset_subeq.simps) (simp only: node_simps flag_less split: if_split, blast)
      moreover have "cucon_ucset_subeq la lb \<longleftrightarrow> elems la \<subseteq> elems lb" "cucon_ucset_subeq ra rb \<longleftrightarrow> elems ra \<subseteq> elems rb"
        using less.hyps [of la lb] less.hyps [of ra rb] wf_branches [OF wfn(1)] wf_branches [OF wfn(2)]
        unfolding nodes(1,2) by auto
      ultimately show ?thesis unfolding nodes(1,2) same_key_parts(1) [OF wfn nodes(3)] by blast
    next
      case (under kb lb rb)
      note wfn = less.prems(2) [unfolded under(1)]
      let ?t = "if ucnode_key A < kb AND NOT 1 then lb else rb"
      have "cucon_ucset_subeq A B \<longleftrightarrow> cucon_ucset_subeq A ?t"
        using ne(1,2) under(2,3) unfolding under(1)
        by (subst cucon_ucset_subeq.simps) (simp only: node_simps split: if_split, blast)
      also have "\<dots> \<longleftrightarrow> elems A \<subseteq> elems ?t"
        using less.hyps [of A ?t] less.prems(1) wf_branches [OF wfn] nodes_cond [of _ lb rb kb] unfolding under(1) by auto
      finally show ?thesis using side_meet [OF wfn under(5)] unfolding under(1) by blast
    next
      case (over ka la ra)
      then have "\<not> cucon_ucset_subeq A B"
        using ne by (subst cucon_ucset_subeq.simps) (simp only: node_simps, metis)
      then show ?thesis using covering_not_subset [OF less.prems(1) [unfolded over(1)] over(5)] over(1) by simp
    next
      case apart
      then have "\<not> cucon_ucset_subeq A B"
        using ne by (subst cucon_ucset_subeq.simps) (simp only: node_simps)
      then show ?thesis using apart(4) elems_nonempty [OF less.prems(1) ne(2)] by blast
    qed
  qed (use less.prems elems_nonempty in \<open>auto simp: cucon_ucset_subeq.simps\<close>)
qed

lemma disjoint_elems:
  "ucset_wf A \<Longrightarrow> ucset_wf B \<Longrightarrow> cucon_ucset_disjoint A B \<longleftrightarrow> elems A \<inter> elems B = {}"
proof (induction "nodes A + nodes B" arbitrary: A B rule: less_induct)
  case less
  consider (nil) "A = Nul \<or> B = Nul" | (eq) "A = B" "A \<noteq> Nul" | (ne) "A \<noteq> B" "A \<noteq> Nul" "B \<noteq> Nul" by blast
  then show ?case
  proof cases
    case ne
    from less.prems ne(2,3) show ?thesis
    proof (cases rule: position_cases)
      case (leaves k a b)
      have "cucon_ucset_disjoint A B \<longleftrightarrow> list_all2 (\<lambda>x y. x AND y = 0) a b"
        using ne leaf_keys [of k a] leaf_keys [of k b] less.prems unfolding leaves(1,2)
        by (subst cucon_ucset_disjoint.simps) simp
      then show ?thesis
        using leaf_all2 [of k a b "(\<and>)" "(AND)"] less.prems leaves(1,2)
        by (auto simp: bit_simps)
    next
      case (nodes ka la ra kb lb rb)
      note wfn = less.prems(1) [unfolded nodes(1)] less.prems(2) [unfolded nodes(2)]
      have "cucon_ucset_disjoint A B \<longleftrightarrow> \<not> (ka AND 1 \<noteq> 0 \<and> kb AND 1 \<noteq> 0) \<and> cucon_ucset_disjoint la lb \<and> cucon_ucset_disjoint ra rb"
        using ne(1) nodes(3,4) unfolding nodes(1,2)
        by (subst cucon_ucset_disjoint.simps) (simp only: node_simps flag_and split: if_split, blast)
      moreover have "cucon_ucset_disjoint la lb \<longleftrightarrow> elems la \<inter> elems lb = {}"
        "cucon_ucset_disjoint ra rb \<longleftrightarrow> elems ra \<inter> elems rb = {}"
        using less.hyps [of la lb] less.hyps [of ra rb] wf_branches [OF wfn(1)] wf_branches [OF wfn(2)]
        unfolding nodes(1,2) by auto
      ultimately show ?thesis unfolding nodes(1,2) same_key_parts(2) [OF wfn nodes(3)] by blast
    next
      case (under kb lb rb)
      note wfn = less.prems(2) [unfolded under(1)]
      let ?t = "if ucnode_key A < kb AND NOT 1 then lb else rb"
      have "cucon_ucset_disjoint A B \<longleftrightarrow> cucon_ucset_disjoint A ?t"
        using ne(1,2) under(2,3) unfolding under(1)
        by (subst cucon_ucset_disjoint.simps) (simp only: node_simps split: if_split, blast)
      also have "\<dots> \<longleftrightarrow> elems A \<inter> elems ?t = {}"
        using less.hyps [of A ?t] less.prems(1) wf_branches [OF wfn] nodes_cond [of _ lb rb kb] unfolding under(1) by auto
      finally show ?thesis unfolding side_meet [OF wfn under(5)] under(1) .
    next
      case (over ka la ra)
      note wfn = less.prems(1) [unfolded over(1)]
      let ?t = "if ucnode_key B < ka AND NOT 1 then la else ra"
      have "cucon_ucset_disjoint A B \<longleftrightarrow> cucon_ucset_disjoint ?t B"
        using ne(1,3) over(2) [symmetric] over(3,4) unfolding over(1)
        by (subst cucon_ucset_disjoint.simps) (simp only: node_simps split: if_split, blast)
      also have "\<dots> \<longleftrightarrow> elems ?t \<inter> elems B = {}"
        using less.hyps [of ?t B] less.prems(2) wf_branches [OF wfn] nodes_cond [of _ la ra ka] unfolding over(1) by auto
      finally show ?thesis unfolding Int_commute [of _ "elems B"] side_meet [OF wfn over(5)] over(1) .
    next
      case apart
      then have "cucon_ucset_disjoint A B"
        using ne by (subst cucon_ucset_disjoint.simps) (simp only: node_simps)
      then show ?thesis using apart(4) by simp
    qed
  qed (use less.prems elems_nonempty in \<open>auto simp: cucon_ucset_disjoint.simps\<close>)
qed

section \<open>The sets implement the interface\<close>

interpretation ucset: constructive_set ucset_wf elems cucon_ucset_empty cucon_ucset_insert cucon_ucset_erase
    cucon_ucset_union cucon_ucset_isecn cucon_ucset_compl cucon_ucset_subeq
  by unfold_locales
    (simp_all add: cucon_ucset_empty_def insert_elems erase_elems union_elems isecn_elems compl_elems subeq_elems ucset_canonical)

lemma find_set: "ucset_wf A \<Longrightarrow> {j. cucon_ucset_find A j} = elems A"
  by (simp add: find_elems)

section \<open>Properties\<close>

text \<open>C5: \<open>cucon_ucset_insert\<close> and \<open>cucon_ucset_erase\<close> keep a set well-formed, which includes the
  assertions of the node constructors, and add or remove exactly the given element; erasing a fresh
  element that was inserted gives back the same object.\<close>

theorem ucset_insert_erase_correct:
  assumes "ucset_wf A"
  shows "ucset_wf (cucon_ucset_insert A key) \<and> ucset_wf (cucon_ucset_erase A key)
    \<and> (\<forall>j. cucon_ucset_find (cucon_ucset_insert A key) j \<longleftrightarrow> j = key \<or> cucon_ucset_find A j)
    \<and> (\<forall>j. cucon_ucset_find (cucon_ucset_erase A key) j \<longleftrightarrow> j \<noteq> key \<and> cucon_ucset_find A j)
    \<and> (\<not> cucon_ucset_find A key \<longrightarrow> cucon_ucset_erase (cucon_ucset_insert A key) key = A)"
  using assms insert_elems [OF assms, of key] erase_elems [OF assms, of key] ucset.erase_insert [OF assms, of key]
  by (auto simp: find_elems)

theorem ucset_insert_erase_correct_witness:
  "cucon_ucset_erase (cucon_ucset_insert (cucon_ucset_insert (cucon_ucset_insert Nul 5) 128) 300) 300 =
     cucon_ucset_insert (cucon_ucset_insert Nul 5) 128"
proof -
  have "ucset_wf (cucon_ucset_insert (cucon_ucset_insert Nul 5) 128)"
    "\<not> cucon_ucset_find (cucon_ucset_insert (cucon_ucset_insert Nul 5) 128) 300" by code_simp+
  then show ?thesis using ucset_insert_erase_correct by blast
qed

text \<open>C6: union, intersection and difference of well-formed sets are well-formed and refine the
  operations on the sets of elements that \<open>cucon_ucset_find\<close> shows.\<close>

theorem ucset_set_operations:
  assumes "ucset_wf A" "ucset_wf B"
  shows "ucset_wf (cucon_ucset_union A B) \<and> ucset_wf (cucon_ucset_isecn A B) \<and> ucset_wf (cucon_ucset_compl A B)
    \<and> {j. cucon_ucset_find (cucon_ucset_union A B) j} = {j. cucon_ucset_find A j} \<union> {j. cucon_ucset_find B j}
    \<and> {j. cucon_ucset_find (cucon_ucset_isecn A B) j} = {j. cucon_ucset_find A j} \<inter> {j. cucon_ucset_find B j}
    \<and> {j. cucon_ucset_find (cucon_ucset_compl A B) j} = {j. cucon_ucset_find A j} - {j. cucon_ucset_find B j}"
  using union_elems [OF assms] isecn_elems [OF assms] compl_elems [OF assms] assms by (simp add: find_set)

theorem ucset_set_operations_witness:
  "ucset_wf (cucon_ucset_compl (cucon_ucset_insert (cucon_ucset_insert Nul 5) 256) (cucon_ucset_insert Nul 256))"
proof -
  have "ucset_wf (cucon_ucset_insert (cucon_ucset_insert Nul 5) 256)" "ucset_wf (cucon_ucset_insert Nul 256)"
    by code_simp+
  from ucset_set_operations [OF this] show ?thesis by blast
qed

text \<open>C22: on well-formed sets identity of objects, mutual inclusion and equality of elements coincide,
  and \<open>cucon_ucset_subeq\<close> and \<open>cucon_ucset_disjoint\<close> decide inclusion and disjointness.\<close>

theorem ucset_comparisons_decide:
  assumes "ucset_wf A" "ucset_wf B"
  shows "(cucon_ucset_eq A B \<longleftrightarrow> (\<forall>j. cucon_ucset_find A j = cucon_ucset_find B j))
    \<and> (cucon_ucset_eq A B \<longleftrightarrow> cucon_ucset_subeq A B \<and> cucon_ucset_subeq B A)
    \<and> (cucon_ucset_subeq A B \<longleftrightarrow> {j. cucon_ucset_find A j} \<subseteq> {j. cucon_ucset_find B j})
    \<and> (cucon_ucset_disjoint A B \<longleftrightarrow> {j. cucon_ucset_find A j} \<inter> {j. cucon_ucset_find B j} = {})"
proof -
  have eq: "A = B \<longleftrightarrow> elems A = elems B" using ucset_canonical assms by blast
  show ?thesis
    unfolding cucon_ucset_eq_def eq find_set [OF assms(1)] find_set [OF assms(2)] subeq_elems [OF assms]
      subeq_elems [OF assms(2,1)] disjoint_elems [OF assms]
    using assms by (auto simp: find_elems)
qed

theorem ucset_comparisons_decide_witness:
  "cucon_ucset_disjoint (cucon_ucset_insert Nul 5) (cucon_ucset_insert Nul 256)
     \<longleftrightarrow> {j. cucon_ucset_find (cucon_ucset_insert Nul 5) j} \<inter> {j. cucon_ucset_find (cucon_ucset_insert Nul 256) j} = {}"
proof -
  have "ucset_wf (cucon_ucset_insert Nul 5)" "ucset_wf (cucon_ucset_insert Nul 256)" by code_simp+
  from ucset_comparisons_decide [OF this] show ?thesis by blast
qed

text \<open>C23: the set objects form a boolean algebra up to identity: union is commutative and associative,
  intersection distributes over it, a difference of a union is the intersection of the differences,
  and inclusion is absorption.\<close>

theorem ucset_boolean_algebra:
  assumes "ucset_wf A" "ucset_wf B" "ucset_wf C"
  shows "cucon_ucset_union A B = cucon_ucset_union B A
    \<and> cucon_ucset_union (cucon_ucset_union A B) C = cucon_ucset_union A (cucon_ucset_union B C)
    \<and> cucon_ucset_isecn A (cucon_ucset_union B C) = cucon_ucset_union (cucon_ucset_isecn A B) (cucon_ucset_isecn A C)
    \<and> cucon_ucset_compl A (cucon_ucset_union B C) = cucon_ucset_isecn (cucon_ucset_compl A B) (cucon_ucset_compl A C)
    \<and> cucon_ucset_union (cucon_ucset_isecn A B) (cucon_ucset_compl A B) = A
    \<and> (cucon_ucset_subeq A B \<longleftrightarrow> cucon_ucset_union A B = B)"
  using ucset.union_commute [OF assms(1,2)] ucset.union_assoc [OF assms] ucset.isecn_distrib [OF assms]
    ucset.compl_union [OF assms] ucset.split_by [OF assms(1,2)] ucset.subeq_union [OF assms(1,2)] by blast

theorem ucset_boolean_algebra_witness:
  "cucon_ucset_union (cucon_ucset_insert Nul 5) (cucon_ucset_insert Nul 256) =
     cucon_ucset_union (cucon_ucset_insert Nul 256) (cucon_ucset_insert Nul 5)"
proof -
  have "ucset_wf (cucon_ucset_insert Nul 5)" "ucset_wf (cucon_ucset_insert Nul 256)" by code_simp+
  from ucset_boolean_algebra [OF this this(1)] show ?thesis by blast
qed

end
