(* ===== verification/UcsetVisit.thy ===== *)
theory UcsetVisit
  imports UcsetIter UcsetAlgebra
begin

text \<open>
  Visiting the elements of a constructive set, \<^verbatim>\<open>cucon/ucset.c\<close>: the list of elements in
  order and the iterations over it, counting, and the extremal elements, unsigned and signed.
\<close>

section \<open>The elements in order\<close>

definition leaf_keys_of :: "u64 \<Rightarrow> u64 list" where
  "leaf_keys_of k = map of_nat [128 * block 6 k..<128 * block 6 k + 128]"

fun ucset_list :: "ucset \<Rightarrow> u64 list" where
  "ucset_list Nul = []"
| "ucset_list (Ucleaf k b) = filter (ucleaf_find (Ucleaf k b)) (leaf_keys_of k)"
| "ucset_list (Ucnode k l r) = ucset_list l @ (if k AND 1 \<noteq> 0 then [k AND NOT 1] else []) @ ucset_list r"

lemma block_6_bound: "128 * block 6 k + 128 \<le> 2 ^ 64"
proof -
  have "block 6 k < 2 ^ 57" using unat_u64_bound [of k] by (simp add: block_def div_less_iff_less_mult)
  then show ?thesis by simp
qed

lemma unat_leaf_nth: "i < 128 \<Longrightarrow> unat (of_nat (128 * block 6 k + i) :: u64) = 128 * block 6 k + i"
proof -
  assume "i < 128"
  then have "128 * block 6 k + i < 2 ^ 64" using block_6_bound [of k] by linarith
  then show ?thesis by (simp add: unsigned_of_nat take_bit_nat_eq_self del: of_nat_add)
qed

lemma leaf_keys_of_nth: "i < 128 \<Longrightarrow> leaf_keys_of k ! i = of_nat (128 * block 6 k + i)"
  by (simp add: leaf_keys_of_def del: of_nat_add)

lemma set_leaf_keys_of: "set (leaf_keys_of k) = {j. leaf_key j = leaf_key k}"
proof -
  have "j \<in> set (leaf_keys_of k) \<longleftrightarrow> block 6 j = block 6 k" for j
  proof
    assume "j \<in> set (leaf_keys_of k)"
    then obtain n where "128 * block 6 k \<le> n" "n < 128 * block 6 k + 128" "j = of_nat n"
      by (auto simp: leaf_keys_of_def)
    moreover from this obtain i where "n = 128 * block 6 k + i" using le_Suc_ex by blast
    ultimately have "i < 128" "j = of_nat (128 * block 6 k + i)" by simp_all
    then show "block 6 j = block 6 k" using unat_leaf_nth [of i k] unfolding block_def [of 6 j] by simp
  next
    assume b: "block 6 j = block 6 k"
    have "j = of_nat (128 * block 6 k + unat j mod 128)" proof -
      have "of_nat (unat j) = j" by simp
      then show ?thesis using unat_block_6 [of j] b by metis
    qed
    moreover have "128 * block 6 k + unat j mod 128 \<in> {128 * block 6 k..<128 * block 6 k + 128}" by simp
    ultimately show "j \<in> set (leaf_keys_of k)" unfolding leaf_keys_of_def set_map set_upt by (rule image_eqI)
  qed
  then show ?thesis by (auto simp: leaf_key_eq_iff)
qed

lemma sorted_leaf_keys_of: "sorted_wrt (<) (leaf_keys_of k)"
proof -
  have "leaf_keys_of k ! i < leaf_keys_of k ! j" if "i < j" "j < 128" for i j
    using that unat_leaf_nth [of i k] unat_leaf_nth [of j k]
    by (simp add: leaf_keys_of_nth word_less_nat_alt del: of_nat_add)
  then show ?thesis by (simp add: sorted_wrt_iff_nth_less leaf_keys_of_def del: of_nat_add)
qed

lemma set_ucset_list: "ucset_wf A \<Longrightarrow> set (ucset_list A) = elems A"
  by (induction A) (auto simp: set_leaf_keys_of elems.simps wf_node)

lemma sorted_ucset_list: "ucset_wf A \<Longrightarrow> sorted_wrt (<) (ucset_list A)"
proof (induction A)
  case (Ucleaf k b)
  then show ?case using sorted_leaf_keys_of by (simp add: sorted_wrt_filter)
next
  case (Ucnode k l r)
  have wf: "ucset_wf l" "ucset_wf r" "elems l \<subseteq> left_side (k AND NOT 1)" "elems r \<subseteq> right_side (k AND NOT 1)"
    using Ucnode.prems by (auto simp: wf_node)
  have "\<forall>x\<in>elems l. x < k AND NOT 1" "\<forall>y\<in>elems r. k AND NOT 1 < y"
    using wf(3,4) by (auto simp: left_side_def right_side_def)
  moreover from this have "\<forall>x\<in>elems l. \<forall>y\<in>elems r. x < y" by (meson less_trans)
  ultimately show ?case
    using Ucnode.IH wf(1,2) by (auto simp: sorted_wrt_append set_ucset_list)
qed simp

section \<open>Iteration\<close>

lemma of_nat_block: "of_nat (128 * block 6 k) = (push_bit 7 (drop_bit 7 k) :: u64)"
proof -
  have "block 6 k = unat (drop_bit 7 k)" by (simp add: block_def unat_drop_bit)
  then show ?thesis by (simp add: push_bit_eq_mult)
qed

lemma leaf_base: "leaf_key k = k \<Longrightarrow> ucnode_key (Ucleaf k b) AND NOT 127 = of_nat (128 * block 6 k)"
proof -
  assume k: "leaf_key k = k"
  have "k AND NOT (mask 7) = push_bit 7 (drop_bit 7 k)" by (rule word_eq_bitI) (auto simp: bit_simps)
  then show ?thesis unfolding ucnode_key_leaf [OF k, of b] of_nat_block mask_7 .
qed

lemma unat_of_nat_mod_128: "unat ((of_nat m :: u64) mod 128) = m mod 128"
  by (simp add: unat_mod unsigned_of_nat take_bit_eq_mod mod_mod_cancel)

lemma leaf_step:
  assumes "i < 128"
  shows "(of_nat (128 * block 6 k + i) + 1 :: u64) = of_nat (128 * block 6 k + Suc i)"
    "(of_nat (128 * block 6 k + i) + 1) AND 127 = (0 :: u64) \<longleftrightarrow> i = 127"
proof -
  show s: "(of_nat (128 * block 6 k + i) + 1 :: u64) = of_nat (128 * block 6 k + Suc i)" by simp
  have "unat ((of_nat (128 * block 6 k + Suc i) :: u64) mod 128) = Suc i mod 128"
    unfolding unat_of_nat_mod_128 by simp
  moreover have "Suc i mod 128 = 0 \<longleftrightarrow> i = 127" using assms by (auto simp: mod_Suc)
  ultimately show "(of_nat (128 * block 6 k + i) + 1) AND 127 = (0 :: u64) \<longleftrightarrow> i = 127"
    unfolding s and_127 by (metis unsigned_eq_0_iff)
qed

lemma upt_last: "[128 * block 6 k + 127..<128 * block 6 k + 128] = [128 * block 6 k + 127]"
  by (simp add: upt_conv_Cons)

lemma iter_loop_fold:
  assumes "i < 128"
  shows "ucleaf_iter_loop node f (of_nat (128 * block 6 k + i)) s =
    fold f (filter (ucleaf_find node) (map of_nat [128 * block 6 k + i..<128 * block 6 k + 128])) s"
  using assms
proof (induction "127 - i" arbitrary: i s)
  case 0
  then have "i = 127" by simp
  then show ?case
    using leaf_step(2) [of 127 k] by (subst ucleaf_iter_loop.simps) (simp add: upt_last del: of_nat_add)
next
  case (Suc d)
  then have i: "i < 127" "Suc i < 128" by auto
  have "[128 * block 6 k + i..<128 * block 6 k + 128] =
      (128 * block 6 k + i) # [128 * block 6 k + Suc i..<128 * block 6 k + 128]"
    using i by (subst upt_conv_Cons) simp_all
  moreover have "ucleaf_iter_loop node f (of_nat (128 * block 6 k + Suc i)) s' =
      fold f (filter (ucleaf_find node) (map of_nat [128 * block 6 k + Suc i..<128 * block 6 k + 128])) s'" for s'
    using Suc i by (intro Suc.hyps) auto
  ultimately show ?case
    using i leaf_step [of i k] by (subst ucleaf_iter_loop.simps) (simp add: Let_def del: of_nat_add of_nat_Suc)
qed

lemma iter_fold: "ucset_wf A \<Longrightarrow> cucon_ucset_iter A f s = fold f (ucset_list A) s"
proof (induction A arbitrary: s)
  case (Ucleaf k b)
  then show ?case
    using leaf_base [of k b] iter_loop_fold [of 0 "Ucleaf k b" f k s] by (simp add: leaf_keys_of_def del: of_nat_mult)
next
  case (Ucnode k l r)
  then show ?case by (simp add: wf_node Let_def)
qed simp

fun visit_set :: "'s ucset_pred \<Rightarrow> u64 list \<Rightarrow> 's \<Rightarrow> bool \<times> 's" where
  "visit_set f [] s = (True, s)"
| "visit_set f (k # ks) s = (case f k s of (False, s) \<Rightarrow> (False, s) | (True, s) \<Rightarrow> visit_set f ks s)"

lemma visit_set_append:
  "visit_set f (xs @ ys) s = (case visit_set f xs s of (False, s) \<Rightarrow> (False, s) | (True, s) \<Rightarrow> visit_set f ys s)"
  by (induction xs arbitrary: s) (auto split: prod.splits bool.splits)

lemma conj_loop_visit:
  assumes "i < 128"
  shows "ucleaf_conj_loop node f (of_nat (128 * block 6 k + i)) s =
    visit_set f (filter (ucleaf_find node) (map of_nat [128 * block 6 k + i..<128 * block 6 k + 128])) s"
  using assms
proof (induction "127 - i" arbitrary: i s)
  case 0
  then have "i = 127" by simp
  then show ?case
    using leaf_step(2) [of 127 k]
    by (subst ucleaf_conj_loop.simps) (simp add: upt_last split: prod.splits bool.splits del: of_nat_add)
next
  case (Suc d)
  then have i: "i < 127" "Suc i < 128" by auto
  have "[128 * block 6 k + i..<128 * block 6 k + 128] =
      (128 * block 6 k + i) # [128 * block 6 k + Suc i..<128 * block 6 k + 128]"
    using i by (subst upt_conv_Cons) simp_all
  moreover have "ucleaf_conj_loop node f (of_nat (128 * block 6 k + Suc i)) s' =
      visit_set f (filter (ucleaf_find node) (map of_nat [128 * block 6 k + Suc i..<128 * block 6 k + 128])) s'" for s'
    using Suc i by (intro Suc.hyps) auto
  ultimately show ?case
    using i leaf_step [of i k]
    by (subst ucleaf_conj_loop.simps) (simp split: prod.splits bool.splits del: of_nat_add of_nat_Suc)
qed

lemma conj_visit: "ucset_wf A \<Longrightarrow> cucon_ucset_conj A f s = visit_set f (ucset_list A) s"
proof (induction A arbitrary: s)
  case (Ucleaf k b)
  then show ?case
    using leaf_base [of k b] conj_loop_visit [of 0 "Ucleaf k b" f k s] by (simp add: leaf_keys_of_def del: of_nat_mult)
next
  case (Ucnode k l r)
  then show ?case
    by (simp add: wf_node visit_set_append split: prod.splits bool.splits)
qed simp

lemma image_elems:
  assumes "ucset_wf A"
  shows "case cucon_ucset_image A (\<lambda>k s. (f k, s)) s of (B, s') \<Rightarrow>
    ucset_wf B \<and> elems B = f ` elems A \<and> s' = s"
proof -
  have "fold (\<lambda>key (image, s). (cucon_ucset_insert image (f key), s)) xs (B, s) =
      (fold (\<lambda>x B. cucon_ucset_insert B (f x)) xs B, s)" for xs B
    by (induction xs arbitrary: B) auto
  then show ?thesis
    using ucset.insert_fold [of Nul f "ucset_list A"] set_ucset_list [OF assms]
    by (simp add: cucon_ucset_image_def iter_fold [OF assms])
qed

lemma filter_image_elems:
  assumes "ucset_wf A"
  shows "case cucon_ucset_filter_image A (\<lambda>k s. (P k, f k, s)) s of (B, s') \<Rightarrow>
    ucset_wf B \<and> elems B = f ` {j \<in> elems A. P j} \<and> s' = s"
proof -
  have "fold (\<lambda>key (image, s). (if P key then cucon_ucset_insert image (f key) else image, s)) xs (B, s) =
      (fold (\<lambda>x B. cucon_ucset_insert B (f x)) (filter P xs) B, s)" for xs B
    by (induction xs arbitrary: B) auto
  then show ?thesis
    using ucset.insert_fold [of Nul f "filter P (ucset_list A)"] set_ucset_list [OF assms]
    by (simp add: cucon_ucset_filter_image_def iter_fold [OF assms])
qed

section \<open>Counting\<close>

lemma elems_leaf_nth:
  assumes "leaf_key k = k"
  shows "elems (Ucleaf k b) = (\<lambda>i. of_nat (128 * block 6 k + i)) ` {i. i < 128 \<and> leaf_bit b i}"
proof -
  have nth: "leaf_key (of_nat (128 * block 6 k + i)) = k" "unat (of_nat (128 * block 6 k + i) :: u64) mod 128 = i"
    if "i < 128" for i
  proof -
    show "leaf_key (of_nat (128 * block 6 k + i)) = k"
      using unat_leaf_nth [OF that, of k] that leaf_key_eq_iff [of "of_nat (128 * block 6 k + i)" k] assms
      by (simp add: block_def del: of_nat_add)
    show "unat (of_nat (128 * block 6 k + i) :: u64) mod 128 = i"
      using unat_leaf_nth [OF that, of k] that by simp
  qed
  have "j \<in> (\<lambda>i. of_nat (128 * block 6 k + i)) ` {i. i < 128 \<and> leaf_bit b i}"
    if "leaf_key j = k" "leaf_bit b (unat j mod 128)" for j
  proof (rule image_eqI)
    show "unat j mod 128 \<in> {i. i < 128 \<and> leaf_bit b i}" using that by simp
    have "unat j mod 128 < 128" by simp
    note n = nth [OF this]
    show "j = of_nat (128 * block 6 k + unat j mod 128)"
      by (rule leaf_same) (simp_all only: n that(1))
  qed
  then show ?thesis using nth by (auto simp: elems_leaf simp del: of_nat_add)
qed

lemma inj_leaf_nth: "inj_on (\<lambda>i. of_nat (128 * block 6 k + i) :: u64) {..<128}"
proof (rule inj_onI)
  fix i j assume "i \<in> {..<128}" "j \<in> {..<128}" "(of_nat (128 * block 6 k + i) :: u64) = of_nat (128 * block 6 k + j)"
  then show "i = j" using unat_leaf_nth [of i k] unat_leaf_nth [of j k] by simp
qed

lemma word_bit_count: "word_bit_count x = of_nat (card {n. bit x n})"
proof -
  have "card {n. bit x n} \<le> card {..<64::nat}" by (rule card_mono) (auto dest: bit_u64_bound)
  then show ?thesis
    by (simp add: word_bit_count_def cu_uint64_bit_count_correct unsigned_of_nat take_bit_nat_eq_self)
qed

lemma card_leaf_bits:
  "card {i. i < 128 \<and> leaf_bit [x, y] i} = card {n. bit x n} + card {n. bit y n}"
proof -
  have "{i. i < 128 \<and> leaf_bit [x, y] i} = {n. bit x n} \<union> (\<lambda>n. n + 64) ` {n. bit y n}"
  proof (rule set_eqI)
    fix i :: nat
    consider "i < 64" | "64 \<le> i" "i < 128" | "128 \<le> i" by linarith
    then consider "i < 64" | n where "i = n + 64" "n < 64" | "128 \<le> i"
    proof cases
      case 2
      then show ?thesis using that(2) [of "i - 64"] by simp
    qed (use that in blast)+
    then show "i \<in> {i. i < 128 \<and> leaf_bit [x, y] i} \<longleftrightarrow> i \<in> {n. bit x n} \<union> (\<lambda>n. n + 64) ` {n. bit y n}"
      by cases (auto simp: leaf_bit_def dest: bit_u64_bound)
  qed
  moreover have "card ((\<lambda>n. n + 64) ` {n. bit y n}) = card {n. bit y n}" by (intro card_image) simp
  moreover have "{n. bit x n} \<inter> (\<lambda>n. n + 64) ` {n. bit y n} = {}" by (auto dest: bit_u64_bound)
  moreover have "finite {n. bit z n}" for z :: u64
    by (rule finite_subset [of _ "{..<64}"]) (auto dest: bit_u64_bound)
  ultimately show ?thesis by (simp add: card_Un_disjoint)
qed

lemma leaf_card:
  assumes "ucset_wf (Ucleaf k b)"
  shows "ucleaf_card (Ucleaf k b) = of_nat (card (elems (Ucleaf k b)))"
proof -
  have k: "leaf_key k = k" "length b = 2" using assms by auto
  then obtain x y where b: "b = [x, y]" by (auto simp: numeral_2_eq_2 length_Suc_conv)
  have "k AND 1 = 0" using lowest_below [of 0 k] lowest_leaf_key [of k] k(1) flag_bit [of k] by auto
  moreover have "card (elems (Ucleaf k b)) = card {i. i < 128 \<and> leaf_bit b i}"
    unfolding elems_leaf_nth [OF k(1)] by (intro card_image inj_on_subset [OF inj_leaf_nth]) auto
  ultimately show ?thesis by (simp add: ucleaf_card_def b word_bit_count card_leaf_bits)
qed

lemma card_loop: "ucset_wf A \<Longrightarrow> ucset_card_loop A c = c + of_nat (card (elems A))"
proof (induction A arbitrary: c)
  case (Ucleaf k b)
  then show ?case by (simp add: leaf_card)
next
  case (Ucnode k l r)
  have wf: "ucset_wf l" "ucset_wf r" "elems l \<subseteq> left_side (k AND NOT 1)" "elems r \<subseteq> right_side (k AND NOT 1)"
    using Ucnode.prems by (auto simp: wf_node)
  have "elems l \<inter> elems r = {}" "k AND NOT 1 \<notin> elems l \<union> elems r"
    using wf(3,4) sides_disjoint [of "k AND NOT 1"] by auto
  then have "card (elems (Ucnode k l r)) = card (elems l) + card (elems r) + of_bool (k AND 1 \<noteq> 0)"
    by (simp add: card_Un_disjoint)
  then show ?case using Ucnode.IH wf(1,2) by (simp add: Let_def)
qed simp

section \<open>Extremal elements\<close>

definition least_of :: "u64 \<Rightarrow> u64 set \<Rightarrow> bool" where
  "least_of x S \<longleftrightarrow> x \<in> S \<and> (\<forall>j\<in>S. x \<le> j)"

definition greatest_of :: "u64 \<Rightarrow> u64 set \<Rightarrow> bool" where
  "greatest_of x S \<longleftrightarrow> x \<in> S \<and> (\<forall>j\<in>S. j \<le> x)"

lemma leaf_nth_le: "i \<le> j \<Longrightarrow> j < 128 \<Longrightarrow> (of_nat (128 * block 6 k + i) :: u64) \<le> of_nat (128 * block 6 k + j)"
  using unat_leaf_nth [of i k] unat_leaf_nth [of j k] by (simp add: word_le_nat_alt del: of_nat_add)

lemma leaf_least:
  assumes "leaf_key k = k" "i < 128" "leaf_bit b i" "\<And>j. j < i \<Longrightarrow> \<not> leaf_bit b j"
  shows "least_of (of_nat (128 * block 6 k + i)) (elems (Ucleaf k b))"
  using assms(2-4) leaf_nth_le [of i _ k] unfolding least_of_def elems_leaf_nth [OF assms(1)]
  by (auto simp del: of_nat_add) (metis not_less)

lemma leaf_greatest:
  assumes "leaf_key k = k" "i < 128" "leaf_bit b i" "\<And>j. i < j \<Longrightarrow> j < 128 \<Longrightarrow> \<not> leaf_bit b j"
  shows "greatest_of (of_nat (128 * block 6 k + i)) (elems (Ucleaf k b))"
  using assms(2-4) leaf_nth_le [of _ i k] unfolding greatest_of_def elems_leaf_nth [OF assms(1)]
  by (auto simp del: of_nat_add) (metis not_less)

lemma word_log2_lowbit: "x \<noteq> 0 \<Longrightarrow> word_log2_lowbit x = of_nat (lowest x)"
  using lowest_less [of x]
  by (simp add: word_log2_lowbit_def cu_uint64_log2_lowbit_correct unsigned_of_nat take_bit_nat_eq_self)

lemma word_floor_log2:
  assumes "x \<noteq> 0"
  shows "\<exists>r. word_floor_log2 x = of_nat r \<and> r < 64 \<and> bit x r \<and> (\<forall>n>r. \<not> bit x n)"
proof -
  let ?r = "unat (p_uint64_floor_log2 x)"
  have c: "cu_uint64_floor_log2 x = Some (p_uint64_floor_log2 x)" using assms by (simp add: cu_uint64_floor_log2_def word_gt_0)
  have r: "?r < 64" "is_floor_log2 (unat x) ?r" using p_uint64_floor_log2_correct [OF assms] by auto
  then have d: "2 ^ ?r \<le> unat x" "unat x < 2 ^ Suc ?r" by (simp_all add: is_floor_log2_def)
  then have "unat x div 2 ^ ?r = 1" by (intro div_nat_eqI) simp_all
  then have "bit x ?r" by (simp add: bit_unat_u64)
  moreover have "\<not> bit x n" if "?r < n" for n
  proof -
    have "(2::nat) ^ Suc ?r \<le> 2 ^ n" using that by (intro power_increasing) auto
    then have "unat x div 2 ^ n = 0" using d(2) by simp
    then show ?thesis by (simp add: bit_unat_u64)
  qed
  moreover have "word_floor_log2 x = of_nat ?r"
    using r(1) by (simp add: word_floor_log2_def c)
  ultimately show ?thesis using r(1) by blast
qed

lemma leaf_two_words: "ucset_wf (Ucleaf k b) \<Longrightarrow> \<exists>x y. b = [x, y] \<and> (x \<noteq> 0 \<or> y \<noteq> 0)"
  by (auto simp: numeral_2_eq_2 length_Suc_conv)

lemma leaf_bit_words: "n < 64 \<Longrightarrow> leaf_bit [x, y] n = bit x n" "n < 64 \<Longrightarrow> leaf_bit [x, y] (64 + n) = bit y n"
  by (simp_all add: leaf_bit_def)

lemma leaf_umin:
  assumes "ucset_wf (Ucleaf k b)"
  shows "least_of (ucset_umin_loop (Ucleaf k b) mn) (elems (Ucleaf k b))"
proof -
  have k: "leaf_key k = k" using assms by simp
  obtain x y where b: "b = [x, y]" "x \<noteq> 0 \<or> y \<noteq> 0" using leaf_two_words [OF assms] by blast
  note base = leaf_base [OF k, of b]
  show ?thesis
  proof (cases "x = 0")
    case False
    note l = lowest_less [OF False] lowest_bit [OF False]
    have "ucset_umin_loop (Ucleaf k b) mn = of_nat (128 * block 6 k + lowest x)"
      using base False by (simp add: b word_log2_lowbit)
    moreover have "\<not> leaf_bit b j" if "j < lowest x" for j
      using that l lowest_below [OF that] unfolding b by (simp add: leaf_bit_words)
    ultimately show ?thesis
      using leaf_least [OF k, of "lowest x" b] l by (simp add: b leaf_bit_words del: of_nat_add)
  next
    case True
    then have y: "y \<noteq> 0" using b by simp
    note l = lowest_less [OF y] lowest_bit [OF y]
    have "ucset_umin_loop (Ucleaf k b) mn = of_nat (128 * block 6 k + (64 + lowest y))"
      using base y True by (simp add: b word_log2_lowbit algebra_simps)
    moreover have "\<not> leaf_bit b j" if "j < 64 + lowest y" for j
    proof (cases "j < 64")
      case False
      then obtain d where "j = 64 + d" by (metis le_Suc_ex not_less)
      then show ?thesis using that l lowest_below [of d y] unfolding b by (simp add: leaf_bit_words)
    qed (simp add: b True leaf_bit_words)
    ultimately show ?thesis
      using leaf_least [OF k, of "64 + lowest y" b] l by (simp add: b leaf_bit_words del: of_nat_add)
  qed
qed

lemma leaf_umax:
  assumes "ucset_wf (Ucleaf k b)"
  shows "greatest_of (ucset_umax_loop (Ucleaf k b) mx) (elems (Ucleaf k b))"
proof -
  have k: "leaf_key k = k" using assms by simp
  obtain x y where b: "b = [x, y]" "x \<noteq> 0 \<or> y \<noteq> 0" using leaf_two_words [OF assms] by blast
  note base = leaf_base [OF k, of b]
  show ?thesis
  proof (cases "y = 0")
    case False
    obtain h where h: "word_floor_log2 y = of_nat h" "h < 64" "bit y h" "\<And>n. h < n \<Longrightarrow> \<not> bit y n"
      using word_floor_log2 [OF False] by blast
    have "ucset_umax_loop (Ucleaf k b) mx = of_nat (128 * block 6 k + (64 + h))"
      using base False h(1) by (simp add: b algebra_simps)
    moreover have "\<not> leaf_bit b j" if "64 + h < j" "j < 128" for j
    proof -
      have "64 \<le> j" using that by simp
      then obtain d where d: "j = 64 + d" using le_Suc_ex by blast
      then show ?thesis using that h(4) [of d] unfolding b by (simp add: leaf_bit_words)
    qed
    ultimately show ?thesis
      using leaf_greatest [OF k, of "64 + h" b] h by (simp add: b leaf_bit_words del: of_nat_add)
  next
    case True
    then have x: "x \<noteq> 0" using b by simp
    obtain h where h: "word_floor_log2 x = of_nat h" "h < 64" "bit x h" "\<And>n. h < n \<Longrightarrow> \<not> bit x n"
      using word_floor_log2 [OF x] by blast
    have "ucset_umax_loop (Ucleaf k b) mx = of_nat (128 * block 6 k + h)"
      using base x True h(1) by (simp add: b)
    moreover have "\<not> leaf_bit b j" if "h < j" "j < 128" for j
    proof (cases "j < 64")
      case False
      then obtain d where "j = 64 + d" by (metis le_Suc_ex not_less)
      then show ?thesis using that True unfolding b by (simp add: leaf_bit_words)
    qed (use that h in \<open>simp add: b leaf_bit_words\<close>)
    ultimately show ?thesis
      using leaf_greatest [OF k, of h b] h by (simp add: b leaf_bit_words del: of_nat_add)
  qed
qed

lemma umin_loop: "ucset_wf A \<Longrightarrow> A \<noteq> Nul \<Longrightarrow> least_of (ucset_umin_loop A mn) (elems A)"
proof (induction A arbitrary: mn)
  case (Ucleaf k b)
  then show ?case using leaf_umin by blast
next
  case (Ucnode k l r)
  let ?k = "k AND NOT 1"
  have wf: "ucset_wf l" "elems l \<subseteq> left_side ?k" "elems r \<subseteq> right_side ?k" "k AND 1 = 0 \<Longrightarrow> l \<noteq> Nul"
    using Ucnode.prems by (auto simp: wf_node)
  have up: "?k < j" if "j \<in> elems r" for j using that wf(3) by (auto simp: right_side_def)
  show ?case
  proof (cases "l = Nul")
    case True
    then have "k AND 1 \<noteq> 0" using wf(4) by blast
    then show ?thesis using True up by (auto simp: least_of_def intro: less_imp_le)
  next
    case False
    then have l: "least_of (ucset_umin_loop l ?k) (elems l)" using Ucnode.IH(1) wf(1) by blast
    then have "ucset_umin_loop l ?k < ?k" using wf(2) by (auto simp: least_of_def left_side_def)
    then show ?thesis
      using l up by (auto simp: least_of_def split: if_splits dest: less_trans intro: less_imp_le)
  qed
qed simp

lemma umax_loop: "ucset_wf A \<Longrightarrow> A \<noteq> Nul \<Longrightarrow> greatest_of (ucset_umax_loop A mx) (elems A)"
proof (induction A arbitrary: mx)
  case (Ucleaf k b)
  then show ?case using leaf_umax by blast
next
  case (Ucnode k l r)
  let ?k = "k AND NOT 1"
  have wf: "ucset_wf r" "elems l \<subseteq> left_side ?k" "elems r \<subseteq> right_side ?k" "k AND 1 = 0 \<Longrightarrow> r \<noteq> Nul"
    using Ucnode.prems by (auto simp: wf_node)
  have low: "j < ?k" if "j \<in> elems l" for j using that wf(2) by (auto simp: left_side_def)
  show ?case
  proof (cases "r = Nul")
    case True
    then have "k AND 1 \<noteq> 0" using wf(4) by blast
    then show ?thesis using True low by (auto simp: greatest_of_def intro: less_imp_le)
  next
    case False
    then have r: "greatest_of (ucset_umax_loop r ?k) (elems r)" using Ucnode.IH(2) wf(1) by blast
    then have "?k < ucset_umax_loop r ?k" using wf(3) by (auto simp: greatest_of_def right_side_def)
    then show ?thesis
      using r low by (auto simp: greatest_of_def split: if_splits dest: less_trans intro: less_imp_le)
  qed
qed simp

lemma umin_least: "ucset_wf A \<Longrightarrow> A \<noteq> Nul \<Longrightarrow> least_of (cucon_ucset_umin A) (elems A)"
  by (simp add: cucon_ucset_umin_def umin_loop)

lemma umax_greatest: "ucset_wf A \<Longrightarrow> A \<noteq> Nul \<Longrightarrow> greatest_of (cucon_ucset_umax A) (elems A)"
  by (simp add: cucon_ucset_umax_def umax_loop)

section \<open>Signed extremes\<close>

lemma sint_u64: "sint x = uint x - (if bit x 63 then 2 ^ 64 else 0)" for x :: u64
proof -
  have neg: "bit x 63 \<longleftrightarrow> sint x < 0" using bit_last_iff [of x] by simp
  have b: "- (2 ^ 63) \<le> sint x" "sint x < 2 ^ 63" using sint_ge [of x] sint_lt [of x] by simp_all
  have "uint x = sint x mod 2 ^ 64" using uint_sint [of x] by (simp add: take_bit_eq_mod)
  also have "\<dots> = (if sint x < 0 then sint x + 2 ^ 64 else sint x)"
  proof (cases "sint x < 0")
    case True
    have "sint x mod 2 ^ 64 = (sint x + 2 ^ 64) mod 2 ^ 64" by simp
    also have "\<dots> = sint x + 2 ^ 64" using True b by (intro mod_pos_pos_trivial) simp_all
    finally show ?thesis using True by simp
  next
    case False
    then show ?thesis using b by (simp add: mod_pos_pos_trivial)
  qed
  finally show ?thesis using neg by (simp split: if_splits)
qed

lemma sle_bits: "x \<le>s y \<longleftrightarrow> (if bit x 63 = bit y 63 then x \<le> y else bit x 63)" for x y :: u64
proof -
  have "0 \<le> uint z" "uint z < 2 ^ 64" for z :: u64 using unsigned_less [of z, where 'a = int] by simp_all
  from this [of x] this [of y] have "uint x - 2 ^ 64 \<le> uint y" "\<not> uint x \<le> uint y - 2 ^ 64" by linarith+
  then show ?thesis unfolding word_sle_eq sint_u64 word_le_def by auto
qed

text \<open>A set whose root is not the middle of the range lies on one side of it.\<close>

lemma same_sign:
  assumes "ucset_wf A" "ucnode_key A \<noteq> INTPTR_MIN" "i \<in> elems A" "j \<in> elems A"
  shows "bit i 63 = bit j 63"
proof -
  let ?k = "ucnode_key A"
  have ne: "A \<noteq> Nul" using assms(3) by auto
  note lv = node_level [OF assms(1) ne]
  have "lowest ?k \<noteq> 63"
  proof
    assume l: "lowest ?k = 63"
    have "unat ?k = 2 ^ 63" using lowest_pos [of ?k 63] l unat_u64_bound [of ?k] by simp
    then show False using assms(2) by (simp add: word_unat_eq_iff)
  qed
  then have l: "lowest ?k < 63" using lowest_less [OF lv(1)] by simp
  have "bit j 63 = bit ?k 63" if "j \<in> elems A" for j
  proof -
    have "block (lowest ?k) ?k = block (lowest ?k) (slot j)"
      using elems_slot [OF assms(1) that] by (auto simp: ucset_key_covers_block)
    moreover have "block (lowest ?k) (slot j) = block (lowest ?k) j"
      using block_mono [OF block_leaf_key lv(2)] by (simp add: slot_def)
    ultimately show ?thesis using l unfolding block_eq_iff_bits by auto
  qed
  then show ?thesis using assms(3,4) by simp
qed


definition signed_least_of :: "u64 \<Rightarrow> u64 set \<Rightarrow> bool" where
  "signed_least_of x S \<longleftrightarrow> x \<in> S \<and> (\<forall>j\<in>S. x \<le>s j)"

definition signed_greatest_of :: "u64 \<Rightarrow> u64 set \<Rightarrow> bool" where
  "signed_greatest_of x S \<longleftrightarrow> x \<in> S \<and> (\<forall>j\<in>S. j \<le>s x)"

lemma signed_of_unsigned:
  assumes "\<And>i j. i \<in> S \<Longrightarrow> j \<in> S \<Longrightarrow> bit i 63 = bit j 63"
  shows "least_of x S \<Longrightarrow> signed_least_of x S" "greatest_of x S \<Longrightarrow> signed_greatest_of x S"
  using assms unfolding least_of_def signed_least_of_def greatest_of_def signed_greatest_of_def sle_bits
  by metis+

lemma bit_63_iff: "bit x 63 \<longleftrightarrow> INTPTR_MIN \<le> x" for x :: u64
proof -
  have "bit x 63 \<longleftrightarrow> odd (unat x div 2 ^ 63)" by (rule bit_unat_u64)
  also have "\<dots> \<longleftrightarrow> 2 ^ 63 \<le> unat x"
  proof (cases "2 ^ 63 \<le> unat x")
    case True
    then have "unat x div 2 ^ 63 = 1" using unat_u64_bound [of x] by (intro div_nat_eqI) simp_all
    then show ?thesis using True by simp
  next
    case False
    then show ?thesis by simp
  qed
  finally show ?thesis by (simp add: word_le_nat_alt)
qed

lemma min_not_less: "\<not> INTPTR_MAX <s x" "\<not> x <s INTPTR_MIN" for x :: u64
proof -
  show "\<not> x <s INTPTR_MIN"
    using sle_bits [of INTPTR_MIN x] bit_63_iff [of x] bit_63_iff [of INTPTR_MIN] by (auto simp: word_sless_alt word_sle_eq)
  have "x \<le>s INTPTR_MAX"
    using sle_bits [of x INTPTR_MAX] bit_63_iff [of x] bit_63_iff [of INTPTR_MAX]
    by (auto simp: word_le_nat_alt)
  then show "\<not> INTPTR_MAX <s x" by (auto simp: word_sless_alt word_sle_eq)
qed

text \<open>A set whose root is the middle of the range: its left branch is nonnegative, its right one negative.\<close>

lemma root_middle:
  assumes "ucset_wf A" "A \<noteq> Nul" "ucnode_key A = INTPTR_MIN"
  obtains k l r where "A = Ucnode k l r" "k AND NOT 1 = INTPTR_MIN" "ucset_wf l" "ucset_wf r"
    "k AND 1 = 0 \<Longrightarrow> l \<noteq> Nul \<and> r \<noteq> Nul" "\<And>j. j \<in> elems l \<Longrightarrow> \<not> bit j 63" "\<And>j. j \<in> elems r \<Longrightarrow> bit j 63"
    "elems A = elems l \<union> elems r \<union> (if k AND 1 \<noteq> 0 then {INTPTR_MIN} else {})"
proof -
  have "branch_key (ucnode_key A)" using assms(3) by (simp add: branch_key_def key_is_leaflike_def)
  then have "\<not> is_Ucleaf A" using ucset_leaf_or_node [OF assms(1,2)] by (simp add: branch_key_def)
  then obtain k l r where A: "A = Ucnode k l r" using assms(2) by (cases A) auto
  have k: "k AND NOT 1 = INTPTR_MIN" using assms(3) A by (simp only: ucnode_key_node)
  have wf: "ucset_wf l" "ucset_wf r" "elems l \<subseteq> left_side INTPTR_MIN" "elems r \<subseteq> right_side INTPTR_MIN"
    "k AND 1 = 0 \<Longrightarrow> l \<noteq> Nul \<and> r \<noteq> Nul"
    using assms(1) unfolding A wf_node k by blast+
  show ?thesis
  proof (rule that [OF A k wf(1,2,5)])
    show "\<not> bit j 63" if "j \<in> elems l" for j
      using that wf(3) unfolding bit_63_iff by (auto simp: left_side_def)
    show "bit j 63" if "j \<in> elems r" for j
      using that wf(4) unfolding bit_63_iff by (auto simp: right_side_def)
    show "elems A = elems l \<union> elems r \<union> (if k AND 1 \<noteq> 0 then {INTPTR_MIN} else {})"
      unfolding A elems.simps k by (rule refl)
  qed
qed

lemma INTPTR_MIN_sle: "INTPTR_MIN \<le>s j" for j :: u64
  using min_not_less(2) [of j] by (auto simp: word_sless_alt word_sle_eq)

lemma smin_least:
  assumes "ucset_wf A" "A \<noteq> Nul"
  shows "signed_least_of (cucon_ucset_smin A) (elems A)"
proof (cases "ucnode_key A = INTPTR_MIN")
  case False
  then have "cucon_ucset_smin A = cucon_ucset_umin A"
    using assms(2) min_not_less by (simp add: cucon_ucset_smin_def Let_def)
  then show ?thesis
    using signed_of_unsigned(1) [OF same_sign [OF assms(1) False] umin_least [OF assms]] by (simp only:)
next
  case True
  from assms True show ?thesis
  proof (cases rule: root_middle)
    case (1 k l r)
    show ?thesis
    proof (cases "k AND 1 = 0")
      case False
      then have "cucon_ucset_smin A = INTPTR_MIN"
        unfolding cucon_ucset_smin_def Let_def 1(1) ucnode_key_node 1(2) by simp
      then show ?thesis using False by (simp add: signed_least_of_def 1(8) INTPTR_MIN_sle)
    next
      case True
      then have r: "r \<noteq> Nul" using 1(5) by blast
      have m: "cucon_ucset_smin A = cucon_ucset_umin r"
        unfolding cucon_ucset_smin_def Let_def 1(1) ucnode_key_node 1(2) using True r by simp
      have "signed_least_of (cucon_ucset_umin r) (elems r)"
        using umin_least [OF 1(4) r] 1(7) by (intro signed_of_unsigned(1)) auto
      then show ?thesis
        using 1(6,7) True unfolding m 1(8) signed_least_of_def by (auto simp: sle_bits)
    qed
  qed
qed

lemma smax_greatest:
  assumes "ucset_wf A" "A \<noteq> Nul"
  shows "signed_greatest_of (cucon_ucset_smax A) (elems A)"
proof (cases "ucnode_key A = INTPTR_MIN")
  case False
  then have "cucon_ucset_smax A = cucon_ucset_umax A"
    using assms(2) min_not_less by (simp add: cucon_ucset_smax_def Let_def)
  then show ?thesis
    using signed_of_unsigned(2) [OF same_sign [OF assms(1) False] umax_greatest [OF assms]] by (simp only:)
next
  case True
  from assms True show ?thesis
  proof (cases rule: root_middle)
    case (1 k l r)
    have smax: "cucon_ucset_smax A = (if l \<noteq> Nul then cucon_ucset_umax l
        else if r = Nul then INTPTR_MIN else cucon_ucset_umax r)"
      unfolding cucon_ucset_smax_def Let_def 1(1) ucnode_key_node 1(2) by simp
    have l: "signed_greatest_of (cucon_ucset_umax l) (elems l)" if "l \<noteq> Nul"
      using umax_greatest [OF 1(3) that] 1(6) by (intro signed_of_unsigned(2)) auto
    have r: "signed_greatest_of (cucon_ucset_umax r) (elems r)" if "r \<noteq> Nul"
      using umax_greatest [OF 1(4) that] 1(7) by (intro signed_of_unsigned(2)) auto
    have pos: "j \<le>s i" if "i \<in> elems l" "j \<in> elems r" for i j
      using 1(6) [OF that(1)] 1(7) [OF that(2)] by (simp add: sle_bits)
    show ?thesis
    proof (cases "l = Nul")
      case False
      then show ?thesis
        using l [OF False] pos unfolding smax 1(8) signed_greatest_of_def by (auto simp: INTPTR_MIN_sle)
    next
      case True
      then have "k AND 1 \<noteq> 0" using 1(5) by blast
      then show ?thesis
        using r True unfolding smax 1(8) signed_greatest_of_def
        by (cases "r = Nul") (auto simp: INTPTR_MIN_sle simp del: word_sle_eq)
    qed
  qed
qed

section \<open>Properties\<close>

text \<open>The elements of a well-formed set are listed in strictly increasing order, each once.
  \<open>cucon_ucset_iter\<close> calls its callback on them in this order, and \<open>cucon_ucset_conj\<close> does so up to
  the first call that answers false, which is then its result.\<close>

theorem ucset_iterates_in_order:
  assumes "ucset_wf A"
  shows "sorted_wrt (<) (ucset_list A) \<and> set (ucset_list A) = {j. cucon_ucset_find A j}
    \<and> cucon_ucset_iter A g s = fold g (ucset_list A) s
    \<and> cucon_ucset_conj A f t = visit_set f (ucset_list A) t"
  using assms by (simp add: sorted_ucset_list set_ucset_list find_set iter_fold conj_visit)

theorem ucset_iterates_in_order_witness:
  "set (ucset_list (cucon_ucset_insert (cucon_ucset_insert Nul 300) 128)) = {128, 300}
    \<and> cucon_ucset_iter (cucon_ucset_insert (cucon_ucset_insert Nul 300) 128) (#) [] =
        fold (#) (ucset_list (cucon_ucset_insert (cucon_ucset_insert Nul 300) 128)) []"
proof -
  let ?A = "cucon_ucset_insert (cucon_ucset_insert Nul 300) 128"
  have "ucset_wf ?A" by code_simp
  moreover have "ucset_wf Nul" by simp
  ultimately show ?thesis
    using ucset_iterates_in_order [of ?A "(#)" "[]" "\<lambda>k s. (True, s)" "()"] insert_elems [of Nul 300] insert_elems [of "cucon_ucset_insert Nul 300" 128]
    by (auto simp: find_set)
qed

text \<open>\<open>cucon_ucset_card\<close> of a well-formed set is the number of its elements, as a machine word.\<close>

theorem ucset_card_counts:
  assumes "ucset_wf A"
  shows "cucon_ucset_card A = of_nat (card {j. cucon_ucset_find A j})"
  using assms by (simp add: cucon_ucset_card_def card_loop find_set)

theorem ucset_card_counts_witness:
  "card {j. cucon_ucset_find (cucon_ucset_insert (cucon_ucset_insert Nul 300) 128) j} mod 2 ^ 64 = 2"
proof -
  let ?A = "cucon_ucset_insert (cucon_ucset_insert Nul 300) 128"
  have "ucset_wf ?A" "cucon_ucset_card ?A = 2" by code_simp+
  then have "unat (of_nat (card {j. cucon_ucset_find ?A j}) :: u64) = 2"
    using ucset_card_counts [of ?A] by simp
  then show ?thesis by (simp add: unsigned_of_nat take_bit_eq_mod)
qed

text \<open>On a nonempty well-formed set, \<open>cucon_ucset_umin\<close> and \<open>cucon_ucset_umax\<close> are the least and
  the greatest element, and \<open>cucon_ucset_smin\<close> and \<open>cucon_ucset_smax\<close> the least and the greatest element
  read as signed integers.\<close>

theorem ucset_extremal_elements:
  assumes "ucset_wf A" "\<not> cucon_ucset_is_empty A"
  shows "least_of (cucon_ucset_umin A) {j. cucon_ucset_find A j}
    \<and> greatest_of (cucon_ucset_umax A) {j. cucon_ucset_find A j}
    \<and> signed_least_of (cucon_ucset_smin A) {j. cucon_ucset_find A j}
    \<and> signed_greatest_of (cucon_ucset_smax A) {j. cucon_ucset_find A j}"
  using assms umin_least umax_greatest smin_least smax_greatest
  by (simp add: find_set cucon_ucset_is_empty_def)

theorem ucset_extremal_elements_witness:
  "signed_least_of (-3) {j. cucon_ucset_find (cucon_ucset_insert (cucon_ucset_insert Nul 300) (-3)) j}"
proof -
  let ?A = "cucon_ucset_insert (cucon_ucset_insert Nul 300) (-3)"
  have "ucset_wf ?A" "\<not> cucon_ucset_is_empty ?A" "cucon_ucset_smin ?A = -3" by code_simp+
  then show ?thesis using ucset_extremal_elements [of ?A] by simp
qed

text \<open>With a callback that computes \<open>f\<close>, \<open>cucon_ucset_image\<close> is a well-formed set whose elements
  are the values of \<open>f\<close> on the elements; \<open>cucon_ucset_filter_image\<close> does so for the elements the
  callback keeps.\<close>

theorem ucset_image_correct:
  assumes "ucset_wf A"
  shows "(case cucon_ucset_image A (\<lambda>k s. (f k, s)) s of (B, s') \<Rightarrow>
      ucset_wf B \<and> {j. cucon_ucset_find B j} = f ` {j. cucon_ucset_find A j} \<and> s' = s)
    \<and> (case cucon_ucset_filter_image A (\<lambda>k s. (P k, f k, s)) s of (B, s') \<Rightarrow>
      ucset_wf B \<and> {j. cucon_ucset_find B j} = f ` {j. cucon_ucset_find A j \<and> P j} \<and> s' = s)"
  using image_elems [OF assms, of f s] filter_image_elems [OF assms, where P = P and f = f and s = s]
  by (auto simp: find_elems [OF assms] find_elems find_set)

theorem ucset_image_correct_witness:
  "{j. cucon_ucset_find (fst (cucon_ucset_image (cucon_ucset_insert (cucon_ucset_insert Nul 300) 5) (\<lambda>k s. (k + 1, s)) ())) j} =
     {6, 301}"
proof -
  let ?A = "cucon_ucset_insert (cucon_ucset_insert Nul 300) 5"
  have "ucset_wf ?A" by code_simp
  moreover have "elems ?A = {5, 300}"
    using insert_elems [of Nul 300] insert_elems [of "cucon_ucset_insert Nul 300" 5] by auto
  ultimately show ?thesis
    using ucset_image_correct [of ?A "\<lambda>k. k + 1" "()" "\<lambda>k. True"] by (auto simp: find_set split: prod.splits)
qed

end
