(* ===== verification/UcsetClip.thy ===== *)
theory UcsetClip
  imports UcsetVisit
begin

text \<open>
  Clipping of constructive sets, \<^verbatim>\<open>cucon/ucset.c\<close>: the elements in an interval of unsigned or of
  signed integers.
\<close>

section \<open>The range of a node\<close>

lemma block_range:
  assumes "block z k = block z j"
  shows "k AND NOT (mask (Suc z)) \<le> j" "j \<le> k OR mask (Suc z)"
proof -
  have "k AND NOT (mask (Suc z)) = j AND NOT (mask (Suc z))" using assms by (simp only: upper_bits_eq_iff)
  then show "k AND NOT (mask (Suc z)) \<le> j" by (simp only: word_and_le2)
  have "k OR mask (Suc z) = j OR mask (Suc z)"
    using assms unfolding block_eq_iff_bits by (intro word_eq_bitI) (auto simp: bit_simps)
  then show "j \<le> k OR mask (Suc z)" by (simp only: le_word_or2)
qed

lemma elems_block:
  assumes "ucset_wf A" "j \<in> elems A"
  shows "block (lowest (ucnode_key A)) (ucnode_key A) = block (lowest (ucnode_key A)) j"
proof -
  have ne: "A \<noteq> Nul" using assms(2) by auto
  have "block (lowest (ucnode_key A)) (ucnode_key A) = block (lowest (ucnode_key A)) (slot j)"
    using elems_slot [OF assms] by (auto simp: ucset_key_covers_block)
  moreover have "block (lowest (ucnode_key A)) (slot j) = block (lowest (ucnode_key A)) j"
    using block_mono [OF block_leaf_key node_level(2) [OF assms(1) ne]] by (simp add: slot_def)
  ultimately show ?thesis by simp
qed

lemma elems_range:
  assumes "ucset_wf A" "j \<in> elems A"
  shows "ucnode_key A AND NOT (ucnode_key A XOR (ucnode_key A - 1)) \<le> j"
    "j \<le> ucnode_key A OR (ucnode_key A XOR (ucnode_key A - 1))"
  using block_range [OF elems_block [OF assms]] by (simp_all only: xor_minus_one)

section \<open>Clipping a leaf\<close>

lemma bit_low_mask: "s < 64 \<Longrightarrow> bit (push_bit s 1 - 1 :: u64) p \<longleftrightarrow> p < s"
  unfolding push_bit_of_1 mask_eq_decr_exp [symmetric] by (auto simp: bit_mask_iff)

lemma push_bit_2: "push_bit s 2 = (2 ^ Suc s :: u64)"
  by (simp add: push_bit_eq_mult)

lemma bit_high_mask: "s < 63 \<Longrightarrow> p < 64 \<Longrightarrow> bit (push_bit s 2 - 1 :: u64) p \<longleftrightarrow> p \<le> s"
  unfolding push_bit_2 mask_eq_decr_exp [symmetric] by (auto simp: bit_mask_iff)

lemma clip_word:
  fixes m x :: u64
  assumes "unat m + 63 < 2 ^ 64" "M = m + 63" "p < 64"
  shows "bit (if lo > M \<or> hi < m then 0 else x AND clip_mask lo hi m M) p \<longleftrightarrow>
    bit x p \<and> unat lo \<le> unat m + p \<and> unat m + p \<le> unat hi"
proof -
  have M: "unat M = unat m + 63" using assms(1,2) by (simp add: unat_plus_if' )
  show ?thesis
  proof (cases "lo > M \<or> hi < m")
    case True
    then show ?thesis using assms(3) M by (auto simp: word_less_nat_alt)
  next
    case False
    then have b: "unat lo \<le> unat m + 63" "unat m \<le> unat hi" by (auto simp: word_less_nat_alt M not_less)
    have lo: "bit (NOT (push_bit (unat (lo - m)) 1 - 1) :: u64) p \<longleftrightarrow> unat lo \<le> unat m + p" if "m < lo"
    proof -
      have "unat (lo - m) = unat lo - unat m" using that by (simp add: unat_sub_if' word_less_nat_alt)
      then show ?thesis using that b assms(3) bit_low_mask [of "unat (lo - m)" p]
        by (auto simp: bit_not_iff word_less_nat_alt)
    qed
    have hi: "bit (push_bit (unat (hi - m)) 2 - 1 :: u64) p \<longleftrightarrow> unat m + p \<le> unat hi" if "hi < M"
    proof -
      have "unat (hi - m) = unat hi - unat m" using b by (simp add: unat_sub_if')
      then show ?thesis using that b assms(3) M bit_high_mask [of "unat (hi - m)" p]
        by (auto simp: word_less_nat_alt)
    qed
    have "bit (clip_mask lo hi m M) p \<longleftrightarrow> unat lo \<le> unat m + p \<and> unat m + p \<le> unat hi"
      using assms(3) M lo hi unfolding clip_mask_def Let_def
      by (auto simp: bit_and_iff bit_not_iff word_less_nat_alt not_less split: if_splits)
    then show ?thesis using False by (auto simp: bit_and_iff)
  qed
qed

lemma leaf_words_bit: "i < 128 \<Longrightarrow> leaf_bit [x, y] i = (if i < 64 then bit x i else bit y (i - 64))"
  using leaf_bit_words(2) [of "i - 64" x y] by (auto simp: leaf_bit_words(1) not_less)

lemma clip_leaf_words:
  assumes "i < 128" "unat m + 127 < 2 ^ 64" "M = m + 63"
  shows "leaf_bit (ucleaf_uclip_loop lo hi m M [x, y]) i \<longleftrightarrow>
    leaf_bit [x, y] i \<and> unat lo \<le> unat m + i \<and> unat m + i \<le> unat hi"
proof -
  have u: "unat (m + 64) = unat m + 64" using assms(2) by (simp add: unat_plus_if')
  have M: "M + 64 = (m + 64) + 63" using assms(3) by simp
  have w: "leaf_bit (ucleaf_uclip_loop lo hi m M [x, y]) i \<longleftrightarrow>
      (if i < 64 then bit (if lo > M \<or> hi < m then 0 else x AND clip_mask lo hi m M) i
       else bit (if lo > M + 64 \<or> hi < m + 64 then 0 else y AND clip_mask lo hi (m + 64) (M + 64)) (i - 64))"
    by (simp only: ucleaf_uclip_loop.simps leaf_words_bit [OF assms(1)])
  show ?thesis
  proof (cases "i < 64")
    case True
    then show ?thesis
      unfolding w using clip_word [OF _ assms(3) True, of lo hi x] assms(2) leaf_words_bit [OF assms(1), of x y]
      by (simp only: if_True, linarith?)
  next
    case False
    then have i: "i - 64 < 64" "64 + (i - 64) = i" using assms(1) by auto
    then show ?thesis
      unfolding w using clip_word [OF _ M i(1), of lo hi y] assms(2) u False leaf_words_bit [OF assms(1), of x y]
      by (simp only: if_False, linarith?)
  qed
qed

lemma leaf_base_unat:
  assumes "leaf_key k = k"
  shows "unat (k AND NOT 127) = 128 * block 6 k" "unat (k AND NOT 127) + 127 < 2 ^ 64"
proof -
  have k: "k AND NOT 127 = of_nat (128 * block 6 k)"
    using leaf_base [OF assms] by (simp only: ucnode_key_leaf [OF assms])
  then show u: "unat (k AND NOT 127) = 128 * block 6 k" using unat_leaf_nth [of 0 k] by simp
  then show "unat (k AND NOT 127) + 127 < 2 ^ 64" using block_6_bound [of k] by simp
qed

lemma leaf_uclip_elems:
  assumes "ucset_wf (Ucleaf k b)"
  shows "ucset_wf (ucleaf_uclip (Ucleaf k b) lo hi) \<and>
    elems (ucleaf_uclip (Ucleaf k b) lo hi) = {j \<in> elems (Ucleaf k b). lo \<le> j \<and> j \<le> hi}"
proof -
  let ?A = "Ucleaf k b" and ?m = "k AND NOT 127"
  have k: "leaf_key k = k" using assms by simp
  obtain x y where b: "b = [x, y]" using leaf_two_words [OF assms] by blast
  have l6: "lowest k = 6" using lowest_leaf_key [of k] k by simp
  have range: "?m \<le> j" "j \<le> k OR 127" if "j \<in> elems ?A" for j
    using block_range [of 6 k j] elems_block [OF assms that] mask_7
    by (simp_all add: ucnode_key_leaf [OF k] l6)
  consider (out) "hi < ?m \<or> lo > k OR 127" | (whole) "\<not> (hi < ?m \<or> lo > k OR 127)" "lo \<le> ?m \<and> hi \<ge> k OR 127"
    | (part) "\<not> (hi < ?m \<or> lo > k OR 127)" "\<not> (lo \<le> ?m \<and> hi \<ge> k OR 127)" by blast
  then show ?thesis
  proof cases
    case out
    then have "{j \<in> elems ?A. lo \<le> j \<and> j \<le> hi} = {}" using range by (fastforce dest: order.trans leD)
    then show ?thesis using out by (simp add: ucleaf_uclip_def)
  next
    case whole
    then have "{j \<in> elems ?A. lo \<le> j \<and> j \<le> hi} = elems ?A" using range by (auto dest: order.trans)
    moreover have "ucleaf_uclip ?A lo hi = ?A" using whole unfolding ucleaf_uclip_def Let_def ucset.sel by (simp only: if_False if_True simp_thms)
    ultimately show ?thesis using assms by (simp only: simp_thms)
  next
    case part
    let ?b = "ucleaf_uclip_loop lo hi ?m (?m + 64 - 1) [x, y]"
    have e: "ucleaf_uclip ?A lo hi = mk_leaf k ?b"
      using part unfolding ucleaf_uclip_def Let_def ucset.sel mk_leaf_def b
      by (simp only: if_False if_True simp_thms) (auto simp: list_all_iff list_ex_iff)
    have len: "length ?b = 2" by simp
    have bits: "leaf_bit ?b i \<longleftrightarrow> leaf_bit b i \<and> unat lo \<le> unat ?m + i \<and> unat ?m + i \<le> unat hi" if "i < 128" for i
      unfolding b by (rule clip_leaf_words [OF that leaf_base_unat(2) [OF k]]) simp
    have "k = 64 \<or> \<not> bit (?b ! 0) 0"
      using assms bits [OF zero_less_numeral] unfolding leaf_bit_0 ucset_wf.simps by blast
    note mk = mk_leaf_elems [OF k len this]
    have "unat j = unat ?m + unat j mod 128" if "leaf_key j = k" for j
      using unat_block_6 [of j] that k leaf_base_unat(1) [OF k] leaf_key_eq_iff [of j k] by simp
    then have "{j. leaf_key j = k \<and> leaf_bit ?b (unat j mod 128)} = {j \<in> elems ?A. lo \<le> j \<and> j \<le> hi}"
      using bits unfolding elems_leaf word_le_nat_alt by auto
    then show ?thesis using mk unfolding e by (simp only: simp_thms)
  qed
qed

section \<open>Clipping a set\<close>

lemma mk_node_if:
  "(if k AND 1 \<noteq> 0 then Ucnode k l r else if l = Nul then r else if r = Nul then l else Ucnode k l r) = mk_node k l r"
  by (simp add: mk_node_def)

lemma if_or_Nul: "(if P then Nul else if Q then Nul else A) = (if P \<or> Q then Nul else A)"
  by simp

lemma uclip_node:
  assumes "ucset_wf (Ucnode k l r)"
  shows "ucset_uclip (Ucnode k l r) lo hi =
    (let key = k AND NOT 1; m = key XOR (key - 1) in
     if lo \<le> key AND NOT m \<and> key OR m \<le> hi then Ucnode k l r
     else if hi < key AND NOT m \<or> lo > key OR m then Nul
     else if hi < key then ucset_uclip l lo hi
     else if lo > key then ucset_uclip r lo hi
     else mk_node k (ucset_uclip l lo hi) (ucset_uclip r lo hi))"
proof -
  have b: "\<not> key_is_leaflike (k AND NOT 1)" using assms by (simp add: wf_node branch_key_def)
  show ?thesis
    unfolding ucset_uclip.simps [of "Ucnode k l r"] Let_def ucnode_key_node ucset.sel ucnode_new_def
      mk_node_if if_or_Nul by (simp only: b if_False ucset.distinct)
qed

lemma uclip_elems:
  "ucset_wf A \<Longrightarrow> ucset_wf (ucset_uclip A lo hi) \<and> elems (ucset_uclip A lo hi) = {j \<in> elems A. lo \<le> j \<and> j \<le> hi}"
proof (induction A)
  case Nul
  then show ?case by (simp add: ucset_uclip.simps)
next
  case (Ucleaf k b)
  let ?A = "Ucleaf k b" and ?m = "k XOR (k - 1)"
  have k: "ucnode_key ?A = k" "key_is_leaflike k"
    using Ucleaf ucset_leaf_or_node [of ?A] by (auto simp: ucnode_key_leaf)
  note range = elems_range [OF Ucleaf, unfolded k(1)]
  have e: "ucset_uclip ?A lo hi = (if lo \<le> k AND NOT ?m \<and> k OR ?m \<le> hi then ?A
      else if hi < k AND NOT ?m \<or> lo > k OR ?m then Nul else ucleaf_uclip ?A lo hi)"
    unfolding ucset_uclip.simps [of ?A] Let_def k(1) if_or_Nul using k(2) by (simp only: if_True ucset.distinct if_False)
  have "{j \<in> elems ?A. lo \<le> j \<and> j \<le> hi} = elems ?A" if "lo \<le> k AND NOT ?m \<and> k OR ?m \<le> hi"
    using that range by (auto dest: order.trans)
  moreover have "{j \<in> elems ?A. lo \<le> j \<and> j \<le> hi} = {}" if "hi < k AND NOT ?m \<or> lo > k OR ?m"
    using that range by (fastforce dest: order.trans leD)
  ultimately show ?case
    using Ucleaf leaf_uclip_elems [OF Ucleaf, of lo hi] unfolding e by (simp only: elems.simps(1) ucset_wf.simps(1) split: if_split) blast
next
  case (Ucnode k l r)
  let ?A = "Ucnode k l r" and ?k = "k AND NOT 1"
  let ?m = "?k XOR (?k - 1)"
  have wf: "ucset_wf l" "ucset_wf r" "branch_key ?k" "elems l \<subseteq> left_side ?k" "elems r \<subseteq> right_side ?k"
    using Ucnode.prems by (auto simp: wf_node)
  have IH: "ucset_wf (ucset_uclip l lo hi) \<and> elems (ucset_uclip l lo hi) = {j \<in> elems l. lo \<le> j \<and> j \<le> hi}"
    "ucset_wf (ucset_uclip r lo hi) \<and> elems (ucset_uclip r lo hi) = {j \<in> elems r. lo \<le> j \<and> j \<le> hi}"
    using Ucnode.IH wf(1,2) by auto
  have lt: "j < ?k" if "j \<in> elems l" for j using that wf(4) by (auto simp: left_side_def)
  have gt: "?k < j" if "j \<in> elems r" for j using that wf(5) by (auto simp: right_side_def)
  note range = elems_range [OF Ucnode.prems, unfolded ucnode_key_node]
  note e = uclip_node [OF Ucnode.prems, of lo hi, unfolded Let_def]
  consider (whole) "lo \<le> ?k AND NOT ?m \<and> ?k OR ?m \<le> hi"
    | (out) "\<not> (lo \<le> ?k AND NOT ?m \<and> ?k OR ?m \<le> hi)" "hi < ?k AND NOT ?m \<or> lo > ?k OR ?m"
    | (left) "\<not> (lo \<le> ?k AND NOT ?m \<and> ?k OR ?m \<le> hi)" "\<not> (hi < ?k AND NOT ?m \<or> lo > ?k OR ?m)" "hi < ?k"
    | (right) "\<not> (lo \<le> ?k AND NOT ?m \<and> ?k OR ?m \<le> hi)" "\<not> (hi < ?k AND NOT ?m \<or> lo > ?k OR ?m)" "\<not> hi < ?k" "lo > ?k"
    | (both) "\<not> (lo \<le> ?k AND NOT ?m \<and> ?k OR ?m \<le> hi)" "\<not> (hi < ?k AND NOT ?m \<or> lo > ?k OR ?m)" "\<not> hi < ?k" "\<not> lo > ?k"
    by blast
  then show ?case
  proof cases
    case whole
    then have "{j \<in> elems ?A. lo \<le> j \<and> j \<le> hi} = elems ?A" using range by (blast intro: order.trans)
    then show ?thesis using whole Ucnode.prems unfolding e by (simp only: if_True simp_thms)
  next
    case out
    then have "{j \<in> elems ?A. lo \<le> j \<and> j \<le> hi} = {}" using range by (blast dest: order.trans leD)
    then show ?thesis using out unfolding e by (simp only: if_True if_False elems.simps(1) ucset_wf.simps(1) simp_thms)
  next
    case left
    have u: "ucset_uclip ?A lo hi = ucset_uclip l lo hi" using left unfolding e by (simp only: if_True if_False)
    have "{j \<in> elems ?A. lo \<le> j \<and> j \<le> hi} = {j \<in> elems l. lo \<le> j \<and> j \<le> hi}"
      using left(3) by (auto split: if_splits dest!: gt)
    then show ?thesis using IH(1) unfolding u by (simp only: simp_thms)
  next
    case right
    have u: "ucset_uclip ?A lo hi = ucset_uclip r lo hi" using right unfolding e by (simp only: if_True if_False)
    have "{j \<in> elems ?A. lo \<le> j \<and> j \<le> hi} = {j \<in> elems r. lo \<le> j \<and> j \<le> hi}"
      using right(4) by (auto split: if_splits dest!: lt)
    then show ?thesis using IH(2) unfolding u by (simp only: simp_thms)
  next
    case both
    have u: "ucset_uclip ?A lo hi = mk_node k (ucset_uclip l lo hi) (ucset_uclip r lo hi)"
      using both unfolding e by (simp only: if_False)
    have "ucset_wf (mk_node k (ucset_uclip l lo hi) (ucset_uclip r lo hi)) \<and>
      elems (mk_node k (ucset_uclip l lo hi) (ucset_uclip r lo hi)) =
        elems (ucset_uclip l lo hi) \<union> elems (ucset_uclip r lo hi) \<union> (if k AND 1 \<noteq> 0 then {?k} else {})"
      using IH wf(3-5) by (intro mk_node_elems) auto
    then show ?thesis using IH both(3,4) unfolding u by auto
  qed
qed

lemma sclip_elems:
  assumes "ucset_wf A"
  shows "ucset_wf (cucon_ucset_sclip A lo hi) \<and>
    elems (cucon_ucset_sclip A lo hi) = {j \<in> elems A. lo \<le>s j \<and> j \<le>s hi}"
proof -
  have neg: "x <s 0 \<longleftrightarrow> bit x 63" for x :: u64
    using bit_last_iff [of x] by (simp add: word_sless_alt)
  have up: "bit j 63" if "bit i 63" "i \<le> j" for i j :: u64
    using that unfolding bit_63_iff by (rule order.trans)
  consider (empty) "hi <s lo" | (same) "\<not> hi <s lo" "bit lo 63 = bit hi 63" | (mixed) "\<not> hi <s lo" "bit lo 63 \<noteq> bit hi 63"
    by blast
  then show ?thesis
  proof cases
    case empty
    then have "{j \<in> elems A. lo \<le>s j \<and> j \<le>s hi} = {}" by (auto simp: word_sless_alt word_sle_eq)
    then show ?thesis using empty by (simp add: cucon_ucset_sclip_def)
  next
    case same
    have "lo \<le> j \<and> j \<le> hi \<longleftrightarrow> lo \<le>s j \<and> j \<le>s hi" for j
      using same(2) up [of lo j] up [of j hi] by (auto simp: sle_bits)
    then show ?thesis using same uclip_elems [OF assms, of lo hi] by (simp add: cucon_ucset_sclip_def neg)
  next
    case mixed
    have "bit lo 63" "\<not> bit hi 63"
      using mixed sle_bits [of lo hi] by (auto simp: word_sless_alt word_sle_eq split: if_splits)
    then have "(0 \<le> j \<and> j \<le> hi) \<or> (lo \<le> j \<and> j \<le> -1) \<longleftrightarrow> lo \<le>s j \<and> j \<le>s hi" for j
      using up [of lo j] up [of j hi] by (auto simp: sle_bits)
    then show ?thesis
      using mixed union_elems [of "ucset_uclip A 0 hi" "ucset_uclip A lo (-1)"]
        uclip_elems [OF assms, of 0 hi] uclip_elems [OF assms, of lo "-1"]
      by (auto simp: cucon_ucset_sclip_def neg)
  qed
qed

section \<open>Filtering\<close>

text \<open>The key of bit \<open>p\<close> as the filter of a leaf passes it: counted in 32 bits and sign-extended.\<close>

definition int_key :: "u32 \<Rightarrow> nat \<Rightarrow> u64" where
  "int_key key p = scast (key + of_nat p)"

lemma filter_word_bits:
  assumes "n \<le> 64"
  shows "case ucleaf_filter_word (\<lambda>k s. (P k, s)) n key bits have_change s of (key', bits', have_change', s') \<Rightarrow>
    key' = key + of_nat n \<and> s' = s
    \<and> (\<forall>p<64. bit bits' p \<longleftrightarrow> bit bits p \<and> (p < 64 - n \<or> P (int_key key (p - (64 - n)))))
    \<and> (have_change' \<longleftrightarrow> have_change \<or> bits' \<noteq> bits)"
  using assms
proof (induction n arbitrary: key bits have_change)
  case (Suc n)
  let ?b = "push_bit (63 - n) 1 :: u64"
  let ?keep = "bits AND ?b = 0 \<or> P (scast key)"
  have bt: "bit ?b p \<longleftrightarrow> p = 63 - n" if "p < 64" for p using that Suc.prems by (auto simp: bit_simps)
  have b0: "bits AND ?b = 0 \<longleftrightarrow> \<not> bit bits (63 - n)" using Suc.prems by (simp add: bit_iff_and_push_bit_not_eq_0)
  have clr: "bit (bits AND NOT ?b) p \<longleftrightarrow> bit bits p \<and> p \<noteq> 63 - n" if "p < 64" for p
    using that bt by (simp add: bit_and_iff bit_not_iff)
  have split: "p < 64 - n \<longleftrightarrow> p < 64 - Suc n \<or> p = 63 - n" for p using Suc.prems by auto
  have ik: "int_key (key + 1) (p - (64 - n)) = int_key key (p - (64 - Suc n))" if "63 - n < p" for p
  proof -
    have "p - (64 - Suc n) = Suc (p - (64 - n))" using that Suc.prems by auto
    then show ?thesis by (simp add: int_key_def add.assoc)
  qed
  have i0: "int_key key 0 = scast key" by (simp add: int_key_def)
  let ?bits = "if ?keep then bits else bits AND NOT ?b" and ?hc = "if ?keep then have_change else True"
  have step: "ucleaf_filter_word (\<lambda>k s. (P k, s)) (Suc n) key bits have_change s =
      ucleaf_filter_word (\<lambda>k s. (P k, s)) n (key + 1) ?bits ?hc s"
    by (simp add: Let_def split: bool.splits)
  obtain k' b' h' s' where r: "ucleaf_filter_word (\<lambda>k s. (P k, s)) n (key + 1) ?bits ?hc s = (k', b', h', s')"
    by (metis surj_pair)
  have IH: "k' = key + 1 + of_nat n" "s' = s"
    "\<And>p. p < 64 \<Longrightarrow> bit b' p \<longleftrightarrow> bit ?bits p \<and> (p < 64 - n \<or> P (int_key (key + 1) (p - (64 - n))))"
    "h' \<longleftrightarrow> ?hc \<or> b' \<noteq> ?bits"
    using Suc.IH [of "key + 1" ?bits ?hc] Suc.prems unfolding r by auto
  have bits: "bit b' p \<longleftrightarrow> bit bits p \<and> (p < 64 - Suc n \<or> P (int_key key (p - (64 - Suc n))))" if p: "p < 64" for p
  proof -
    consider "p < 63 - n" | "p = 63 - n" | "63 - n < p" by linarith
    then show ?thesis
      by cases (use IH(3) [OF p] clr [OF p] b0 i0 ik Suc.prems in \<open>auto split: if_splits\<close>)
  qed
  have "b' \<noteq> bits" if "\<not> ?keep"
  proof -
    have "bit bits (63 - n)" "\<not> bit b' (63 - n)" using that b0 IH(3) [of "63 - n"] clr [of "63 - n"] by auto
    then show ?thesis by auto
  qed
  then have "h' \<longleftrightarrow> have_change \<or> b' \<noteq> bits" using IH(4) by auto
  then show ?case unfolding step r using IH(1,2) bits by simp
qed simp

text \<open>What the filter passes to the callback for an element: a leaf element is truncated to 32 bits.\<close>

definition filter_arg :: "u64 \<Rightarrow> u64" where
  "filter_arg j = (if key_is_leaflike j then scast (ucast j :: u32) else j)"

lemma filter_arg_small:
  assumes "j < 2 ^ 31"
  shows "filter_arg j = j"
proof -
  have u: "uint j < 2 ^ 31" using assms by (simp add: word_less_def)
  have "take_bit 32 (uint j) = uint j" using u by (intro take_bit_int_eq_self) simp_all
  then have "sint (ucast j :: u32) = signed_take_bit 31 (uint j)"
    by (simp add: sint_uint unsigned_ucast_eq)
  also have "\<dots> = uint j" using u by (intro signed_take_bit_int_eq_self) (simp_all add: order.trans [of _ 0])
  finally have "(scast (ucast j :: u32) :: u64) = j" by (metis of_int_sint word_of_int_uint)
  then show ?thesis by (simp add: filter_arg_def)
qed

lemma leaf_filter_elems:
  assumes "ucset_wf (Ucleaf k b)"
  shows "case ucleaf_filter (Ucleaf k b) (\<lambda>k s. (P k, s)) s of (B, s') \<Rightarrow>
    ucset_wf B \<and> elems B = {j \<in> elems (Ucleaf k b). P (filter_arg j)} \<and> s' = s"
proof -
  let ?f = "\<lambda>k s. (P k, s)" and ?key = "ucast (k AND NOT 127) :: u32"
  have k: "leaf_key k = k" using assms by simp
  obtain x y where b: "b = [x, y]" using leaf_two_words [OF assms] by blast
  obtain k1 x' h1 s1 where r1: "ucleaf_filter_word ?f 64 ?key x False s = (k1, x', h1, s1)" by (metis surj_pair)
  obtain k2 y' h2 s2 where r2: "ucleaf_filter_word ?f 64 k1 y h1 s1 = (k2, y', h2, s2)" by (metis surj_pair)
  have 1: "k1 = ?key + 64" "s1 = s" "\<And>p. p < 64 \<Longrightarrow> bit x' p \<longleftrightarrow> bit x p \<and> P (int_key ?key p)" "h1 \<longleftrightarrow> x' \<noteq> x"
    using filter_word_bits [where n = 64 and P = P and key = ?key and bits = x and have_change = False and s = s] unfolding r1 by auto
  have 2: "s2 = s" "\<And>p. p < 64 \<Longrightarrow> bit y' p \<longleftrightarrow> bit y p \<and> P (int_key k1 p)" "h2 \<longleftrightarrow> h1 \<or> y' \<noteq> y"
    using filter_word_bits [where n = 64 and P = P and key = k1 and bits = y and have_change = h1 and s = s1] 1(2) unfolding r2 by auto
  have loop: "ucleaf_filter_loop ?f ?key b False s = ([x', y'], h2, s)"
    using r1 r2 1(2) 2(1) by (simp add: b)
  have bits: "leaf_bit [x', y'] i \<longleftrightarrow> leaf_bit b i \<and> P (int_key ?key i)" if "i < 128" for i
  proof (cases "i < 64")
    case True
    then show ?thesis using that 1(3) [of i] by (simp add: b leaf_words_bit)
  next
    case False
    then have "int_key k1 (i - 64) = int_key ?key i" by (simp add: 1(1) int_key_def of_nat_diff)
    then show ?thesis using that False 2(2) [of "i - 64"] by (simp add: b leaf_words_bit)
  qed
  have arg: "int_key ?key (unat j mod 128) = filter_arg j" if "j \<in> elems (Ucleaf k b)" for j
  proof -
    have "leaf_key j = k" using that by (simp add: elems_leaf)
    then have "unat j = unat (k AND NOT 127) + unat j mod 128"
      using unat_block_6 [of j] k leaf_base_unat(1) [OF k] leaf_key_eq_iff [of j k] by simp
    then have "(of_nat (unat j) :: u32) = of_nat (unat (k AND NOT 127)) + of_nat (unat j mod 128)"
      by (metis of_nat_add)
    then show ?thesis
      using leaf_elem_leaflike [OF assms that] unfolding of_nat_unat by (simp add: int_key_def filter_arg_def)
  qed
  have e: "ucleaf_filter (Ucleaf k b) ?f s = (mk_leaf k [x', y'], s)"
    using assms 1(4) 2(3) unfolding ucleaf_filter_def ucset.sel loop by (auto simp: mk_leaf_def b)
  have "k = 64 \<or> \<not> bit ([x', y'] ! 0) 0"
    using assms bits [OF zero_less_numeral] unfolding leaf_bit_0 ucset_wf.simps by blast
  note mk = mk_leaf_elems [OF k _ this]
  have "{j. leaf_key j = k \<and> leaf_bit [x', y'] (unat j mod 128)} = {j \<in> elems (Ucleaf k b). P (filter_arg j)}"
    using bits arg unfolding elems_leaf by auto
  then show ?thesis unfolding e using mk by simp
qed

lemma filter_elems:
  assumes "ucset_wf A"
  shows "case cucon_ucset_filter A (\<lambda>k s. (P k, s)) s of (B, s') \<Rightarrow>
    ucset_wf B \<and> elems B = {j \<in> elems A. P (filter_arg j)} \<and> s' = s"
  using assms
proof (induction A)
  case (Ucleaf k b)
  then show ?case using leaf_filter_elems [OF Ucleaf, of P s] by simp
next
  case (Ucnode k l r)
  let ?f = "\<lambda>k s. (P k, s)" and ?k = "k AND NOT 1"
  have wf: "ucset_wf l" "ucset_wf r" "branch_key ?k" "elems l \<subseteq> left_side ?k" "elems r \<subseteq> right_side ?k"
    using Ucnode.prems by (auto simp: wf_node)
  obtain l' sl r' sr where lr': "cucon_ucset_filter l ?f s = (l', sl)" "cucon_ucset_filter r ?f s = (r', sr)"
    by (metis surj_pair)
  then have "sl = s" "sr = s" using Ucnode.IH wf(1,2) by auto
  then have lr: "cucon_ucset_filter l ?f s = (l', s)" "cucon_ucset_filter r ?f s = (r', s)" using lr' by auto
  have IH: "ucset_wf l'" "elems l' = {j \<in> elems l. P (filter_arg j)}"
    "ucset_wf r'" "elems r' = {j \<in> elems r. P (filter_arg j)}"
    using Ucnode.IH wf(1,2) lr by auto
  let ?n = "if k AND 1 \<noteq> 0 \<and> P ?k then ?k OR 1 else ?k"
  have e: "cucon_ucset_filter (Ucnode k l r) ?f s = (mk_node ?n l' r', s)"
    unfolding cucon_ucset_filter.simps Let_def lr ucnode_key_node ucnode_new_def
    by (cases "k AND 1 \<noteq> 0"; cases "P ?k") (simp_all only: lr mk_node_def raw_clear raw_or_1 prod.case if_True if_False simp_thms)
  have n: "?n AND NOT 1 = ?k" "?n AND 1 \<noteq> 0 \<longleftrightarrow> k AND 1 \<noteq> 0 \<and> P ?k"
    by (cases "k AND 1 \<noteq> 0 \<and> P ?k", simp_all only: raw_clear raw_or_1 if_True if_False simp_thms)+
  have sub: "elems l' \<subseteq> left_side ?k" "elems r' \<subseteq> right_side ?k" using IH wf(4,5) by auto
  have "filter_arg ?k = ?k" using wf(3) by (simp add: filter_arg_def branch_key_def)
  moreover have "ucset_wf (mk_node ?n l' r') \<and>
      elems (mk_node ?n l' r') = elems l' \<union> elems r' \<union> (if k AND 1 \<noteq> 0 \<and> P ?k then {?k} else {})"
    by (rule mk_node_elems [of ?n l' r', unfolded n, OF wf(3) IH(1,3) sub])
  ultimately show ?case unfolding e using IH by auto
qed simp

section \<open>Properties\<close>

text \<open>Clipping a well-formed set gives a well-formed set: \<open>cucon_ucset_uclip\<close> keeps exactly the elements
  of the unsigned interval and \<open>cucon_ucset_sclip\<close> those of the signed one, also when it straddles
  zero; an empty interval gives the empty set.\<close>

theorem ucset_clip_correct:
  assumes "ucset_wf A"
  shows "ucset_wf (cucon_ucset_uclip A lo hi) \<and> ucset_wf (cucon_ucset_sclip A lo hi)
    \<and> {j. cucon_ucset_find (cucon_ucset_uclip A lo hi) j} = {j. cucon_ucset_find A j \<and> lo \<le> j \<and> j \<le> hi}
    \<and> {j. cucon_ucset_find (cucon_ucset_sclip A lo hi) j} = {j. cucon_ucset_find A j \<and> lo \<le>s j \<and> j \<le>s hi}"
proof -
  have "ucset_wf (cucon_ucset_uclip A lo hi) \<and> elems (cucon_ucset_uclip A lo hi) = {j \<in> elems A. lo \<le> j \<and> j \<le> hi}"
    using uclip_elems [OF assms, of lo hi] by (auto simp: cucon_ucset_uclip_def)
  then show ?thesis using sclip_elems [OF assms, of lo hi] assms by (simp add: find_elems)
qed

theorem ucset_clip_correct_witness:
  "{j. cucon_ucset_find (cucon_ucset_sclip (cucon_ucset_insert (cucon_ucset_insert Nul 300) (-3)) (-5) 4) j} = {-3}"
proof -
  let ?A = "cucon_ucset_insert (cucon_ucset_insert Nul 300) (-3)"
  have "ucset_wf ?A" by code_simp
  moreover have "elems ?A = {300, -3}"
    using insert_elems [of Nul 300] insert_elems [of "cucon_ucset_insert Nul 300" "-3"] by auto
  moreover have "(-5 :: u64) \<le>s -3" "(-3 :: u64) \<le>s 4" "\<not> (300 :: u64) \<le>s 4" by code_simp+
  ultimately have "{j. cucon_ucset_find ?A j \<and> -5 \<le>s j \<and> j \<le>s 4} = {-3}" by (auto simp: find_elems simp del: word_sle_eq)
  then show ?thesis using ucset_clip_correct [of ?A "-5" 4] \<open>ucset_wf ?A\<close> by blast
qed

text \<open>With a callback that decides \<open>P\<close>, \<open>cucon_ucset_filter\<close> gives a well-formed set. When every element
  is below 2^31 it holds exactly the elements that satisfy \<open>P\<close>; beyond that, an element stored in a
  leaf is passed to the callback truncated to 32 bits and sign-extended.\<close>

theorem ucset_filter_correct:
  assumes "ucset_wf A"
  shows "case cucon_ucset_filter A (\<lambda>k s. (P k, s)) s of (B, s') \<Rightarrow>
    ucset_wf B \<and> s' = s
    \<and> {j. cucon_ucset_find B j} = {j. cucon_ucset_find A j \<and>
        P (if key_is_leaflike j then scast (ucast j :: u32) else j)}
    \<and> ((\<forall>j. cucon_ucset_find A j \<longrightarrow> j < 2 ^ 31) \<longrightarrow>
        {j. cucon_ucset_find B j} = {j. cucon_ucset_find A j \<and> P j})"
proof -
  obtain B s' where r: "cucon_ucset_filter A (\<lambda>k s. (P k, s)) s = (B, s')" by (metis surj_pair)
  have e: "ucset_wf B" "elems B = {j \<in> elems A. P (filter_arg j)}" "s' = s"
    using filter_elems [OF assms, where P = P and s = s] unfolding r by auto
  have "{j \<in> elems A. P (filter_arg j)} = {j \<in> elems A. P j}" if "\<forall>j\<in>elems A. j < 2 ^ 31"
    using that filter_arg_small by fastforce
  then show ?thesis
    unfolding r prod.case filter_arg_def [symmetric] find_elems [OF e(1)] find_elems [OF assms]
    using e by (simp only: Collect_mem_eq simp_thms) (simp add: Ball_def)
qed

theorem ucset_filter_correct_witness:
  "{j. cucon_ucset_find (fst (cucon_ucset_filter (cucon_ucset_insert (cucon_ucset_insert Nul 300) 5) (\<lambda>k s. (k < 9, s)) ())) j} =
     {5}"
proof -
  let ?A = "cucon_ucset_insert (cucon_ucset_insert Nul 300) 5"
  have "ucset_wf ?A" by code_simp
  moreover have "elems ?A = {5, 300}"
    using insert_elems [of Nul 300] insert_elems [of "cucon_ucset_insert Nul 300" 5] by auto
  ultimately show ?thesis
    using ucset_filter_correct [of ?A, where P = "\<lambda>k. k < 9" and s = "()"] by (auto simp: find_elems split: prod.splits)
qed

text \<open>Above 2^31 the filter asks about the wrong key: filtering the singleton of 2^31 + 1 by equality with
  its element loses the element, and filtering by the sign-extended value keeps it.\<close>

theorem ucset_filter_truncates:
  "fst (cucon_ucset_filter (cucon_ucset_singleton 0x80000001) (\<lambda>k s. (k = 0x80000001, s)) ()) = Nul
    \<and> fst (cucon_ucset_filter (cucon_ucset_singleton 0x80000001) (\<lambda>k s. (k = 0xffffffff80000001, s)) ()) =
        cucon_ucset_singleton 0x80000001"
proof -
  let ?A = "cucon_ucset_singleton 0x80000001"
  have "?A = single 0x80000001" by (simp only: cucon_ucset_singleton_def single_def ucnode_new_def)
  then have wf: "ucset_wf ?A" "elems ?A = {0x80000001}" using single_elems(1) by simp_all
  have arg: "filter_arg 0x80000001 = 0xffffffff80000001" by code_simp
  have f: "ucset_wf (fst (cucon_ucset_filter ?A (\<lambda>k s. (P k, s)) ()))
      \<and> elems (fst (cucon_ucset_filter ?A (\<lambda>k s. (P k, s)) ())) = {j \<in> {0x80000001}. P (filter_arg j)}" for P
    using filter_elems [OF wf(1), where P = P and s = "()"] wf(2) by (auto split: prod.splits)
  show ?thesis
    using f [where P = "\<lambda>k. k = 0x80000001"] f [where P = "\<lambda>k. k = 0xffffffff80000001"] wf arg
    by (auto intro: ucset_canonical simp: elems_eq_empty)
qed

end
