(* ===== verification/UcsetSorted.thy ===== *)
theory UcsetSorted
  imports UcsetClip UcmapSorted
begin

text \<open>
  The construction of a set from a sorted array, \<open>_ucset_from_sorted_array\<close> of
  \<^verbatim>\<open>cucon/ucset.c\<close>: enough fuel gives a result, which holds the array's elements. The
  arithmetic of blocks is that of the maps.
\<close>

section \<open>Leaves\<close>

lemma or_127_le:
  assumes "m OR 127 = m" "k \<le> m"
  shows "k OR 127 \<le> (m :: u64)"
proof -
  have or: "unat (x OR 127) = 128 * block 6 x + 127" for x :: u64
  proof -
    have "x OR mask 7 = leaf_key x OR (leaf_key x - 1)"
    proof (rule word_eq_bitI)
      fix n :: nat assume "n < 64"
      then show "bit (x OR mask 7) n \<longleftrightarrow> bit (leaf_key x OR (leaf_key x - 1)) n"
        using bit_leaf_key [of n x] bit_minus_one [OF leaf_key_nonzero [of x], of n] by (auto simp: bit_simps)
    qed
    then show ?thesis using unat_block_max [OF leaf_key_nonzero [of x]] unat_leaf_key [of x] by (simp add: mask_7)
  qed
  have "block 6 k \<le> block 6 m" using assms(2) by (simp add: block_def word_le_nat_alt div_le_mono)
  then have "unat (k OR 127) \<le> unat (m OR 127)" unfolding or by simp
  then show ?thesis unfolding assms(1) word_le_nat_alt .
qed

lemma same_leaf:
  assumes "k \<le> j"
  shows "j \<le> k OR 127 \<longleftrightarrow> leaf_key j = leaf_key k"
proof
  assume "leaf_key j = leaf_key k"
  then have "block 6 k = block 6 j" by (simp add: leaf_key_eq_iff)
  then show "j \<le> k OR 127" using block_range(2) [of 6 k j] mask_7 by simp
next
  assume j: "j \<le> k OR 127"
  have "block 6 (k OR 127) = block 6 k"
    unfolding block_eq_iff_bits mask_7 [symmetric] by (auto simp: bit_simps)
  moreover have "block 6 k \<le> block 6 j" "block 6 j \<le> block 6 (k OR 127)"
    using assms j by (simp_all add: block_def word_le_nat_alt div_le_mono)
  ultimately show "leaf_key j = leaf_key k" by (simp add: leaf_key_eq_iff)
qed

lemma leaf_loop_bits:
  assumes "sorted arr" "arr \<noteq> []" "hd arr \<le> m" "length b = 2"
  shows "case ucset_leaf_loop m b arr of (b', rest) \<Rightarrow> rest = dropWhile (\<lambda>k. k \<le> m) arr \<and> length b' = 2
    \<and> (\<forall>i<128. leaf_bit b' i \<longleftrightarrow> leaf_bit b i \<or> (\<exists>j\<in>set arr. j \<le> m \<and> i = unat j mod 128))"
  using assms
proof (induction m b arr rule: ucset_leaf_loop.induct)
  case (2 m b k arr)
  let ?arr = "dropWhile (\<lambda>j. j = k) arr" and ?b = "set_bitset_bit b (k AND 127)"
  have s: "sorted ?arr" using 2(2) by (simp add: sorted_dropWhile)
  have "set arr = set (takeWhile (\<lambda>j. j = k) arr) \<union> set ?arr" by (metis set_append takeWhile_dropWhile_id)
  then have sub: "insert k (set arr) = insert k (set ?arr)" by (auto dest: set_takeWhileD)
  have dw: "dropWhile (\<lambda>j. j \<le> m) (k # arr) = dropWhile (\<lambda>j. j \<le> m) ?arr"
    using 2(4) by (induction arr) auto
  have bits: "leaf_bit ?b i \<longleftrightarrow> leaf_bit b i \<or> i = unat k mod 128" if "i < 128" for i
    by (rule leaf_bit_set [OF 2(5) that])
  have ex: "(\<exists>j\<in>set (k # arr). j \<le> m \<and> i = unat j mod 128) \<longleftrightarrow>
      i = unat k mod 128 \<or> (\<exists>j\<in>set ?arr. j \<le> m \<and> i = unat j mod 128)" for i
    unfolding list.simps sub using 2(4) by auto
  show ?case
  proof (cases "?arr \<noteq> [] \<and> hd ?arr \<le> m")
    case True
    have "ucset_leaf_loop m b (k # arr) = ucset_leaf_loop m ?b ?arr" using True by (simp add: Let_def del: dropWhile_eq_Nil_conv)
    moreover obtain b' rest where r: "ucset_leaf_loop m ?b ?arr = (b', rest)" by (metis surj_pair)
    moreover have "rest = dropWhile (\<lambda>j. j \<le> m) ?arr \<and> length b' = 2 \<and>
        (\<forall>i<128. leaf_bit b' i \<longleftrightarrow> leaf_bit ?b i \<or> (\<exists>j\<in>set ?arr. j \<le> m \<and> i = unat j mod 128))"
      using 2(1) [OF refl refl] True s 2(5) unfolding r by simp
    ultimately show ?thesis unfolding dw ex prod.case using bits by simp
  next
    case False
    then have e: "ucset_leaf_loop m b (k # arr) = (?b, ?arr)" by (auto simp: Let_def simp del: dropWhile_eq_Nil_conv)
    have above: "j \<in> set ?arr \<Longrightarrow> \<not> j \<le> m" for j using False s by (cases ?arr) auto
    have "dropWhile (\<lambda>j. j \<le> m) ?arr = ?arr" unfolding dropWhile_eq_self_iff using False by blast
    then show ?thesis unfolding dw ex e using above 2(5) by (auto simp: bits)
  qed
qed simp

lemma leaf_from_sorted_array:
  assumes "sorted (k # arr)" "key_is_leaflike k"
  obtains b where "ucset_leaf_from_sorted_array (k # arr) = (Ucleaf (leaf_key k) b, dropWhile (\<lambda>j. j \<le> k OR 127) (k # arr))"
    "ucset_wf (Ucleaf (leaf_key k) b)" "elems (Ucleaf (leaf_key k) b) = {j \<in> set (k # arr). j \<le> k OR 127}"
proof -
  let ?m = "k OR 127"
  have km: "k \<le> ?m" by (simp add: le_word_or2)
  obtain b rest where r: "ucset_leaf_loop ?m [0, 0] (k # arr) = (b, rest)" by (metis surj_pair)
  have z: "\<not> leaf_bit [0, 0] i" if "i < 128" for i using that by (simp add: leaf_words_bit)
  have b: "rest = dropWhile (\<lambda>j. j \<le> ?m) (k # arr)" "length b = 2"
    "\<And>i. i < 128 \<Longrightarrow> leaf_bit b i \<longleftrightarrow> (\<exists>j\<in>set (k # arr). j \<le> ?m \<and> i = unat j mod 128)"
    using leaf_loop_bits [OF assms(1), of ?m "[0, 0]"] km z unfolding r prod.case by simp_all
  have ge: "k \<le> j" if "j \<in> set (k # arr)" for j using that assms(1) by auto
  have leaf: "leaf_key j = leaf_key k \<longleftrightarrow> j \<le> ?m" if "j \<in> set (k # arr)" for j
    using same_leaf [OF ge [OF that]] by simp
  have el: "elems (Ucleaf (leaf_key k) b) = {j \<in> set (k # arr). j \<le> ?m}" (is "?E = ?S")
  proof (rule set_eqI)
    fix j
    have "j \<in> ?E \<longleftrightarrow> leaf_key j = leaf_key k \<and> (\<exists>i\<in>set (k # arr). i \<le> ?m \<and> unat j mod 128 = unat i mod 128)"
      unfolding elems_leaf using b(3) [of "unat j mod 128"] by simp
    also have "\<dots> \<longleftrightarrow> j \<in> ?S"
    proof
      assume "leaf_key j = leaf_key k \<and> (\<exists>i\<in>set (k # arr). i \<le> ?m \<and> unat j mod 128 = unat i mod 128)"
      then obtain i where i: "i \<in> set (k # arr)" "i \<le> ?m" "unat j mod 128 = unat i mod 128" "leaf_key j = leaf_key k" by blast
      have "leaf_key j = leaf_key i" using leaf [OF i(1)] i(2,4) by metis
      then have "j = i" using i(3) by (rule leaf_same)
      then show "j \<in> ?S" using i(1,2) by blast
    next
      assume "j \<in> ?S"
      then show "leaf_key j = leaf_key k \<and> (\<exists>i\<in>set (k # arr). i \<le> ?m \<and> unat j mod 128 = unat i mod 128)"
        using leaf [of j] by blast
    qed
    finally show "j \<in> ?E \<longleftrightarrow> j \<in> ?S" .
  qed
  have "leaf_key k = 64" if bit0: "bit (b ! 0) 0"
  proof -
    obtain j where j: "j \<in> set (k # arr)" "j \<le> ?m" "unat j mod 128 = 0"
      using bit0 b(3) [OF zero_less_numeral] unfolding leaf_bit_0 by metis
    have "unat j = 128 * block 6 j" using unat_block_6 [of j] j(3) by simp
    moreover have "block 6 j = block 6 k" using leaf [OF j(1)] j(2) by (simp add: leaf_key_eq_iff)
    ultimately have "unat j \<le> unat k" using unat_block_6 [of k] by simp
    then have "j = k" using ge [OF j(1)] by (simp add: word_le_nat_alt word_unat_eq_iff)
    then show ?thesis using leaf_first_bit [OF assms(2)] j(3) by simp
  qed
  moreover have "list_ex (\<lambda>x. x \<noteq> 0) b"
    unfolding leaf_bits_nonempty [OF b(2)] using b(3) [of "unat k mod 128"] km by (intro exI [of _ "unat k mod 128"]) simp
  ultimately have "ucset_wf (Ucleaf (leaf_key k) b)" using b(2) by auto
  moreover have "ucset_leaf_from_sorted_array (k # arr) = (Ucleaf (leaf_key k) b, dropWhile (\<lambda>j. j \<le> ?m) (k # arr))"
    using r b(1) unfolding ucset_leaf_from_sorted_array_def by (simp add: Let_def)
  ultimately show thesis using that el by blast
qed

section \<open>Keys above a node\<close>

lemma set_covers_greater:
  assumes "k \<noteq> 0"
  shows "ucset_key_covers k j \<and> k < j \<longleftrightarrow> k < j \<and> j \<le> key_max k"
  using covers_greater_iff [of k j] assms
  by (auto simp: ucset_key_covers_block ucmap_key_covers_block key_max_def)

lemma right_side_max: "k \<noteq> 0 \<Longrightarrow> right_side k = {j. k < j \<and> j \<le> key_max k}"
  using set_covers_greater [of k] by (auto simp: right_side_def)

lemma branch_max_leaf:
  assumes "branch_key k"
  shows "key_max k OR 127 = key_max k"
proof (rule word_eq_bitI)
  fix n :: nat assume n: "n < 64"
  have k: "k \<noteq> 0" "7 \<le> lowest k" using assms by (auto simp: branch_key_iff)
  then show "bit (key_max k OR 127) n \<longleftrightarrow> bit (key_max k) n"
    using n bit_minus_one [OF k(1), of n] unfolding key_max_def mask_7 [symmetric]
    by (auto simp: bit_simps)
qed

lemma leaf_key_max: "key_max (leaf_key k) = k OR 127"
proof -
  have "k OR mask 7 = leaf_key k OR (leaf_key k - 1)"
    by (rule word_eq_bitI) (use bit_leaf_key [of _ k] bit_minus_one [OF leaf_key_nonzero [of k]] in \<open>auto simp: bit_simps\<close>)
  then show ?thesis by (simp add: key_max_def mask_7)
qed

text \<open>The bound of a recursive call: it cuts no block that starts below it, and no leaf.\<close>

definition set_closed :: "u64 \<Rightarrow> u64 \<Rightarrow> bool" where
  "set_closed lo m \<longleftrightarrow> closed_above lo m \<and> m OR 127 = m"

lemma set_closedD: "set_closed lo m \<Longrightarrow> lo \<le> k \<Longrightarrow> k \<le> m \<Longrightarrow> key_max k \<le> m"
  by (simp add: set_closed_def closed_above_def key_max_def)

lemma set_closed_mono: "set_closed lo m \<Longrightarrow> lo \<le> lo' \<Longrightarrow> set_closed lo' m"
  using closed_above_mono by (auto simp: set_closed_def)

lemma set_closed_branch: "branch_key k \<Longrightarrow> k < lo \<Longrightarrow> set_closed lo (key_max k)"
  using closed_above_block [of k lo] branch_max_leaf [of k] by (simp add: set_closed_def key_max_def)

lemma join_up:
  assumes "a \<noteq> 0" "6 \<le> lowest a" "key_max a < b"
  shows "branch_key (ucset_key_join a b)" "ucset_key_covers (ucset_key_join a b) a" "a < ucset_key_join a b"
    "ucset_key_join a b \<le> b" "b \<le> key_max (ucset_key_join a b)"
proof -
  have ab: "a < b" using assms(3) block_max_ge [of a] by (simp add: key_max_def)
  have nc: "\<not> ucset_key_covers a b" using set_covers_greater [OF assms(1), of b] ab assms(3) by auto
  let ?c = "ucset_key_join a b"
  have "ucset_key_covers ?c a \<and> a < ?c \<and> ?c \<le> b \<and> (?c = b \<or> ucset_key_covers ?c b)"
  proof (cases "ucset_key_covers b a")
    case False
    then show ?thesis using ucset_key_join_incomparable [OF ab nc] by (auto simp: ucset_key_join_eq)
  next
    case True
    obtain h where h: "top_diff a b h" using ab top_diff_exists by (metis less_irrefl)
    note m = tight_join_props [OF h] and btw = tight_join_between [OF ab h]
    have b: "b \<noteq> 0" "block (lowest b) b = block (lowest b) a" using True by (auto simp: ucset_key_covers_block)
    have "\<not> lowest b < h"
    proof
      assume "lowest b < h"
      then have "bit b h = bit a h" using b(2) unfolding block_eq_iff_bits by blast
      then show False using h by (simp add: top_diff_def)
    qed
    then have "lowest b = h" using btw(3) by simp
    then have "tight_join a b = b" using same_block_unique [of b "tight_join a b"] m b(2) by simp
    then show ?thesis using True ab by (simp add: ucset_key_join_eq)
  qed
  then show "ucset_key_covers ?c a" "a < ?c" "?c \<le> b" by auto
  then show br: "branch_key ?c" using branch_above [of ?c a] assms(1,2) by auto
  then have "?c \<noteq> 0" by (auto simp: branch_key_iff)
  then show "b \<le> key_max ?c"
    using \<open>ucset_key_covers ?c a \<and> _\<close> set_covers_greater [of ?c b] block_max_ge [of ?c] unfolding key_max_def
    by (cases "?c = b") auto
qed

section \<open>The recursion and the loop\<close>

lemma set_drop_le: "sorted ps \<Longrightarrow> set (dropWhile (\<lambda>j. j \<le> m) ps) = {j \<in> set ps. m < j}" for ps :: "u64 list"
  by (induction ps) (auto simp: not_le)

lemma drop_le_mono: "m \<le> n \<Longrightarrow> dropWhile (\<lambda>j. j \<le> n) (dropWhile (\<lambda>j. j \<le> m) ps) = dropWhile (\<lambda>j. j \<le> n) ps"
  for ps :: "u64 list"
  by (induction ps) auto

lemma drop_key:
  fixes ps :: "u64 list"
  assumes "sorted (k # ps)"
  shows "dropWhile (\<lambda>j. j = k) (k # ps) = dropWhile (\<lambda>j. j \<le> k) ps"
    "dropWhile (\<lambda>j. j = k) ps = dropWhile (\<lambda>j. j \<le> k) ps"
proof -
  show "dropWhile (\<lambda>j. j = k) ps = dropWhile (\<lambda>j. j \<le> k) ps" by (rule dropWhile_cong) (use assms in auto)
  then show "dropWhile (\<lambda>j. j = k) (k # ps) = dropWhile (\<lambda>j. j \<le> k) ps" by simp
qed

definition set_rec_ok :: "nat \<Rightarrow> bool" where
  "set_rec_ok n \<longleftrightarrow> (\<forall>m arr. sorted arr \<longrightarrow> 2 * length arr + 1 \<le> n \<longrightarrow> (arr \<noteq> [] \<longrightarrow> set_closed (hd arr) m) \<longrightarrow>
     (\<exists>A. ucset_from_sorted_array_rec n m arr = Some (A, dropWhile (\<lambda>j. j \<le> m) arr) \<and> ucset_wf A
        \<and> elems A = {j \<in> set arr. j \<le> m}))"

definition set_loop_ok :: "nat \<Rightarrow> bool" where
  "set_loop_ok n \<longleftrightarrow> (\<forall>m arr cur. sorted arr \<longrightarrow> 2 * length arr + 2 \<le> n \<longrightarrow> ucset_wf cur \<longrightarrow> cur \<noteq> Nul \<longrightarrow>
     set_closed (key_max (ucnode_key cur)) m \<longrightarrow> (\<forall>j\<in>set arr. key_max (ucnode_key cur) < j) \<longrightarrow>
     (\<exists>A. ucset_from_sorted_array_loop n m (ucnode_key cur) cur arr = Some (A, dropWhile (\<lambda>j. j \<le> m) arr)
        \<and> ucset_wf A \<and> elems A = elems cur \<union> {j \<in> set arr. j \<le> m}))"

lemma set_loopD:
  assumes "set_loop_ok n" "sorted arr" "2 * length arr + 2 \<le> n" "ucset_wf cur" "cur \<noteq> Nul"
    "set_closed (key_max (ucnode_key cur)) m" "\<forall>j\<in>set arr. key_max (ucnode_key cur) < j"
  obtains A where "ucset_from_sorted_array_loop n m (ucnode_key cur) cur arr = Some (A, dropWhile (\<lambda>j. j \<le> m) arr)"
    "ucset_wf A" "elems A = elems cur \<union> {j \<in> set arr. j \<le> m}"
  using assms unfolding set_loop_ok_def by blast

text \<open>A branch node placed on top of the current node, its right branch read from the array.\<close>

lemma set_attach:
  assumes rec: "set_rec_ok n" and loop: "set_loop_ok n" and s: "sorted ps" and above: "\<forall>j\<in>set ps. c < j"
    and c: "branch_key c" "set_closed c m" "c \<le> m" and cur: "ucset_wf cur" "elems cur \<subseteq> left_side c"
    and slot: "nk = c OR 1 \<or> nk = c \<and> cur \<noteq> Nul \<and> ps \<noteq> [] \<and> hd ps \<le> key_max c"
    and n: "2 * length ps + 1 \<le> n" and l: "2 * length (dropWhile (\<lambda>j. j \<le> key_max c) ps) + 2 \<le> n"
  obtains right rest A where "ucset_from_sorted_array_rec n (key_max c) ps = Some (right, rest)"
    "ucset_from_sorted_array_loop n m c (Ucnode nk cur right) rest = Some (A, dropWhile (\<lambda>j. j \<le> m) ps)"
    "ucset_wf A" "elems A = elems cur \<union> (if nk = c then {} else {c}) \<union> {j \<in> set ps. j \<le> m}"
proof -
  have c0: "c \<noteq> 0" using c(1) by (auto simp: branch_key_iff)
  have "ps \<noteq> [] \<longrightarrow> set_closed (hd ps) (key_max c)"
    using above by (intro impI set_closed_branch [OF c(1)]) simp
  then obtain right where right: "ucset_from_sorted_array_rec n (key_max c) ps =
      Some (right, dropWhile (\<lambda>j. j \<le> key_max c) ps)" "ucset_wf right" "elems right = {j \<in> set ps. j \<le> key_max c}"
    using rec s n unfolding set_rec_ok_def by blast
  have raw: "nk AND NOT 1 = c" "nk AND 1 \<noteq> 0 \<longleftrightarrow> nk = c OR 1" "c OR 1 \<noteq> c"
    using slot raw_or_1 [of c] clear_branch [OF c(1)] by metis+
  have rs: "elems right \<subseteq> right_side c" using above unfolding right(3) right_side_max [OF c0] by auto
  have "right \<noteq> Nul" if "nk = c"
  proof -
    have "hd ps \<in> elems right" using slot that raw(3) unfolding right(3) by auto
    then show ?thesis by auto
  qed
  then have wf: "ucset_wf (Ucnode nk cur right)"
    unfolding wf_node raw(1) using slot raw(2) c(1) cur right(2) rs by auto
  have key: "ucnode_key (Ucnode nk cur right) = c" by (simp only: ucnode_key_node raw(1))
  have el: "elems (Ucnode nk cur right) = elems cur \<union> elems right \<union> (if nk = c then {} else {c})"
    unfolding elems.simps raw(1) using slot raw(2,3) by auto
  let ?rest = "dropWhile (\<lambda>j. j \<le> key_max c) ps"
  have cm: "key_max c \<le> m" by (rule set_closedD [OF c(2) order.refl c(3)])
  have ck: "c \<le> key_max c" using block_max_ge [of c] by (simp add: key_max_def)
  have sr: "sorted ?rest" "\<forall>j\<in>set ?rest. key_max (ucnode_key (Ucnode nk cur right)) < j"
    unfolding key set_drop_le [OF s] using s by (auto simp: sorted_dropWhile)
  have cl: "set_closed (key_max (ucnode_key (Ucnode nk cur right))) m"
    unfolding key by (rule set_closed_mono [OF c(2) ck])
  obtain A where A: "ucset_from_sorted_array_loop n m (ucnode_key (Ucnode nk cur right)) (Ucnode nk cur right) ?rest =
      Some (A, dropWhile (\<lambda>j. j \<le> m) ?rest)" "ucset_wf A"
      "elems A = elems (Ucnode nk cur right) \<union> {j \<in> set ?rest. j \<le> m}"
    by (rule set_loopD [OF loop sr(1) l wf ucset.distinct(2) cl sr(2)])
  have "elems A = elems cur \<union> (if nk = c then {} else {c}) \<union> {j \<in> set ps. j \<le> m}"
    using cm unfolding A(3) el right(3) set_drop_le [OF s] by auto
  then show thesis
    using that [OF right(1) A(1) [unfolded key drop_le_mono [OF cm]] A(2)] by blast
qed

lemma branch_flag: "branch_key c \<Longrightarrow> c OR 1 \<noteq> c"
  using raw_or_1(2) [of c] clear_branch(2) [of c] by metis

lemma set_rec_leaf:
  assumes loop: "set_loop_ok n" and s: "sorted (k # ps)" and len: "2 * length (k # ps) + 1 \<le> Suc n"
    and cl: "set_closed k m" "k \<le> m" and leaf: "key_is_leaflike k"
  shows "\<exists>A. ucset_from_sorted_array_rec (Suc n) m (k # ps) = Some (A, dropWhile (\<lambda>j. j \<le> m) (k # ps)) \<and> ucset_wf A
      \<and> elems A = {j \<in> set (k # ps). j \<le> m}"
proof -
  obtain b where b: "ucset_leaf_from_sorted_array (k # ps) = (Ucleaf (leaf_key k) b, dropWhile (\<lambda>j. j \<le> k OR 127) (k # ps))"
    "ucset_wf (Ucleaf (leaf_key k) b)" "elems (Ucleaf (leaf_key k) b) = {j \<in> set (k # ps). j \<le> k OR 127}"
    using leaf_from_sorted_array [OF s leaf] by blast
  let ?cur = "Ucleaf (leaf_key k) b" and ?rest = "dropWhile (\<lambda>j. j \<le> k OR 127) (k # ps)"
  have km: "k \<le> k OR 127" by (simp add: le_word_or2)
  have mm: "k OR 127 \<le> m" using or_127_le cl by (simp add: set_closed_def)
  have key: "ucnode_key ?cur = leaf_key k" by (simp add: ucnode_key_leaf)
  have "length ?rest \<le> length ps" using km length_dropWhile_le [of _ ps] by simp
  then have l: "2 * length ?rest + 2 \<le> n" using len by simp
  have sr: "sorted ?rest" "\<forall>j\<in>set ?rest. key_max (ucnode_key ?cur) < j"
    unfolding key leaf_key_max set_drop_le [OF s] by (rule sorted_dropWhile [OF s]) simp
  have scl: "set_closed (key_max (ucnode_key ?cur)) m"
    unfolding key leaf_key_max by (rule set_closed_mono [OF cl(1) km])
  obtain A where A: "ucset_from_sorted_array_loop n m (ucnode_key ?cur) ?cur ?rest = Some (A, dropWhile (\<lambda>j. j \<le> m) ?rest)"
      "ucset_wf A" "elems A = elems ?cur \<union> {j \<in> set ?rest. j \<le> m}"
    by (rule set_loopD [OF loop sr(1) l b(2) ucset.distinct(4) scl sr(2)])
  have "elems A = {j \<in> set (k # ps). j \<le> m}"
    using mm unfolding A(3) b(3) set_drop_le [OF s] by auto
  moreover have "ucset_from_sorted_array_rec (Suc n) m (k # ps) = Some (A, dropWhile (\<lambda>j. j \<le> m) (k # ps))"
    using cl(2) leaf A(1) unfolding ucset_from_sorted_array_rec.simps b(1) drop_le_mono [OF mm] by simp
  ultimately show ?thesis using A(2) by blast
qed

lemma set_rec_branch:
  assumes rec: "set_rec_ok n" and loop: "set_loop_ok n" and s: "sorted (k # ps)" and len: "2 * length (k # ps) + 1 \<le> Suc n"
    and cl: "set_closed k m" "k \<le> m" and branch: "\<not> key_is_leaflike k"
  shows "\<exists>A. ucset_from_sorted_array_rec (Suc n) m (k # ps) = Some (A, dropWhile (\<lambda>j. j \<le> m) (k # ps)) \<and> ucset_wf A
      \<and> elems A = {j \<in> set (k # ps). j \<le> m}"
proof -
  let ?ps = "dropWhile (\<lambda>j. j \<le> k) ps"
  have s': "sorted ps" using s by simp
  have c: "branch_key k" using branch by (simp add: branch_key_def)
  have ps: "sorted ?ps" "\<forall>j\<in>set ?ps. k < j" "length ?ps \<le> length ps"
    unfolding set_drop_le [OF s'] using s' length_dropWhile_le by (auto simp: sorted_dropWhile)
  have n: "2 * length ?ps + 1 \<le> n" using ps(3) len by simp
  have l: "2 * length (dropWhile (\<lambda>j. j \<le> key_max k) ?ps) + 2 \<le> n"
    using length_dropWhile_le [of "\<lambda>j. j \<le> key_max k" ?ps] ps(3) len by simp
  have slot: "k OR 1 = k OR 1 \<or> k OR 1 = k \<and> Nul \<noteq> Nul \<and> ?ps \<noteq> [] \<and> hd ?ps \<le> key_max k" by simp
  have sub: "ucset_wf Nul" "elems Nul \<subseteq> left_side k" by simp_all
  obtain right rest A where r: "ucset_from_sorted_array_rec n (key_max k) ?ps = Some (right, rest)"
    "ucset_from_sorted_array_loop n m k (Ucnode (k OR 1) Nul right) rest = Some (A, dropWhile (\<lambda>j. j \<le> m) ?ps)"
    "ucset_wf A" "elems A = elems Nul \<union> (if k OR 1 = k then {} else {k}) \<union> {j \<in> set ?ps. j \<le> m}"
    by (rule set_attach [OF rec loop ps(1,2) c cl sub slot n l])
  have "elems A = {j \<in> set (k # ps). j \<le> m}"
    using cl(2) s branch_flag [OF c] unfolding r(4) set_drop_le [OF s'] by auto
  moreover have "dropWhile (\<lambda>j. j \<le> m) ?ps = dropWhile (\<lambda>j. j \<le> m) (k # ps)"
    using cl(2) drop_le_mono [OF cl(2), of ps] by simp
  moreover have "ucset_from_sorted_array_rec (Suc n) m (k # ps) = Some (A, dropWhile (\<lambda>j. j \<le> m) ?ps)"
    using cl(2) branch r(1,2) unfolding ucset_from_sorted_array_rec.simps drop_key(2) [OF s] by (simp add: Let_def ucnode_new_def)
  ultimately show ?thesis using r(3) by auto
qed

lemma set_rec_Suc: "set_rec_ok n \<Longrightarrow> set_loop_ok n \<Longrightarrow> set_rec_ok (Suc n)"
  unfolding set_rec_ok_def [of "Suc n"]
proof (intro allI impI)
  fix m and arr :: "u64 list"
  assume ok: "set_rec_ok n" "set_loop_ok n" and s: "sorted arr" and len: "2 * length arr + 1 \<le> Suc n"
    and cl: "arr \<noteq> [] \<longrightarrow> set_closed (hd arr) m"
  show "\<exists>A. ucset_from_sorted_array_rec (Suc n) m arr = Some (A, dropWhile (\<lambda>j. j \<le> m) arr) \<and> ucset_wf A
      \<and> elems A = {j \<in> set arr. j \<le> m}"
  proof (cases arr)
    case (Cons k ps)
    have "j \<notin> set ps" if "\<not> k \<le> m" "j \<le> m" for j using that s unfolding Cons by fastforce
    then have "{j \<in> set arr. j \<le> m} = {}" if "\<not> k \<le> m" using that unfolding Cons by auto
    then show ?thesis
      using set_rec_leaf [OF ok(2) s [unfolded Cons] len [unfolded Cons]] set_rec_branch [OF ok s [unfolded Cons] len [unfolded Cons]] cl
      unfolding Cons by (cases "k \<le> m"; cases "key_is_leaflike k") auto
  qed simp
qed

lemma set_loop_step:
  assumes rec: "set_rec_ok n" and loop: "set_loop_ok n" and s: "sorted (k # ps)" and len: "2 * length (k # ps) + 2 \<le> Suc n"
    and cur: "ucset_wf cur" "cur \<noteq> Nul" and cl: "set_closed (key_max (ucnode_key cur)) m" "k \<le> m"
    and lt: "key_max (ucnode_key cur) < k"
  shows "\<exists>A. ucset_from_sorted_array_loop (Suc n) m (ucnode_key cur) cur (k # ps) = Some (A, dropWhile (\<lambda>j. j \<le> m) (k # ps))
        \<and> ucset_wf A \<and> elems A = elems cur \<union> {j \<in> set (k # ps). j \<le> m}"
proof -
  define c where "c = ucset_key_join (ucnode_key cur) k"
  note c = join_up [OF node_level [OF cur] lt, folded c_def]
  have nc: "\<not> ucset_key_covers (ucnode_key cur) c" using ucs.covers_antisym c(2,3) by blast
  have lo: "key_max (ucnode_key cur) \<le> c"
    using set_covers_greater [OF node_level(1) [OF cur], of c] nc c(3) by auto
  have cm: "set_closed c m" "c \<le> m" using set_closed_mono [OF cl(1) lo] order.trans [OF c(4) cl(2)] by auto
  have left: "elems cur \<subseteq> left_side c" using c(2,3) by (intro elems_below [OF cur(1) c(1)]) simp
  let ?flag = "k = c"
  define nk where "nk = (if ?flag then c OR 1 else c)"
  define ps' where "ps' = (if ?flag then dropWhile (\<lambda>j. j = c) (k # ps) else k # ps)"
  have drop: "ps' = dropWhile (\<lambda>j. j \<le> c) (k # ps)"
    using drop_key(1) [OF s] c(4) unfolding ps'_def by auto
  have ps: "sorted ps'" "\<forall>j\<in>set ps'. c < j" unfolding drop set_drop_le [OF s] using s by (auto simp: sorted_dropWhile)
  have len': "length ps' \<le> length (k # ps)" unfolding drop by (rule length_dropWhile_le)
  have n: "2 * length ps' + 1 \<le> n" using len len' by simp
  have "length (dropWhile (\<lambda>j. j \<le> key_max c) (k # ps)) \<le> length ps" using c(5) length_dropWhile_le by simp
  moreover have "c \<le> key_max c" using block_max_ge [of c] by (simp add: key_max_def)
  ultimately have l: "2 * length (dropWhile (\<lambda>j. j \<le> key_max c) ps') + 2 \<le> n"
    using len unfolding drop by (simp only: drop_le_mono) simp
  have slot: "nk = c OR 1 \<or> nk = c \<and> cur \<noteq> Nul \<and> ps' \<noteq> [] \<and> hd ps' \<le> key_max c"
    using cur(2) c(5) by (simp add: nk_def ps'_def)
  obtain right rest A where r: "ucset_from_sorted_array_rec n (key_max c) ps' = Some (right, rest)"
    "ucset_from_sorted_array_loop n m c (Ucnode nk cur right) rest = Some (A, dropWhile (\<lambda>j. j \<le> m) ps')"
    "ucset_wf A" "elems A = elems cur \<union> (if nk = c then {} else {c}) \<union> {j \<in> set ps'. j \<le> m}"
    by (rule set_attach [OF rec loop ps c(1) cm cur(1) left slot n l])
  have "(if nk = c then {} else {c}) \<union> {j \<in> set ps'. j \<le> m} = {j \<in> set (k # ps). j \<le> m}"
    using branch_flag [OF c(1)] c(4) cl(2) s unfolding nk_def drop set_drop_le [OF s] by auto
  then have el: "elems A = elems cur \<union> {j \<in> set (k # ps). j \<le> m}" unfolding r(4) by blast
  have "(if k = c then (c OR 1, dropWhile (\<lambda>k. k = c) ps) else (c, k # ps)) = (nk, ps')"
    by (simp add: nk_def ps'_def)
  then have "ucset_from_sorted_array_loop (Suc n) m (ucnode_key cur) cur (k # ps) = Some (A, dropWhile (\<lambda>j. j \<le> m) ps')"
    using leD [OF cl(2)] r(1,2) unfolding ucset_from_sorted_array_loop.simps Let_def c_def [symmetric] ucnode_new_def
    by (simp only: if_False prod.case option.case)
  moreover have "dropWhile (\<lambda>j. j \<le> m) ps' = dropWhile (\<lambda>j. j \<le> m) (k # ps)" unfolding drop by (rule drop_le_mono [OF cm(2)])
  ultimately show ?thesis using r(3) el by (simp only: simp_thms) simp
qed

lemma set_loop_Suc: "set_rec_ok n \<Longrightarrow> set_loop_ok n \<Longrightarrow> set_loop_ok (Suc n)"
  unfolding set_loop_ok_def [of "Suc n"]
proof (intro allI impI)
  fix m cur and arr :: "u64 list"
  assume ok: "set_rec_ok n" "set_loop_ok n" and s: "sorted arr" and len: "2 * length arr + 2 \<le> Suc n"
    and cur: "ucset_wf cur" "cur \<noteq> Nul" and cl: "set_closed (key_max (ucnode_key cur)) m"
    and above: "\<forall>j\<in>set arr. key_max (ucnode_key cur) < j"
  show "\<exists>A. ucset_from_sorted_array_loop (Suc n) m (ucnode_key cur) cur arr = Some (A, dropWhile (\<lambda>j. j \<le> m) arr)
        \<and> ucset_wf A \<and> elems A = elems cur \<union> {j \<in> set arr. j \<le> m}"
  proof (cases arr)
    case Nil
    then show ?thesis using cur by simp
  next
    case (Cons k ps)
    have "j \<notin> set ps" if "\<not> k \<le> m" "j \<le> m" for j using that s unfolding Cons by fastforce
    then have "{j \<in> set arr. j \<le> m} = {}" if "\<not> k \<le> m" using that unfolding Cons by auto
    moreover have "key_max (ucnode_key cur) < k" using above Cons by simp
    ultimately show ?thesis
      using set_loop_step [OF ok s [unfolded Cons] len [unfolded Cons] cur cl] cur(1)
      unfolding Cons by (cases "k \<le> m") auto
  qed
qed

lemma set_sorted_ok: "set_rec_ok n \<and> set_loop_ok n"
proof (induction n)
  case 0
  show ?case by (simp add: set_rec_ok_def set_loop_ok_def)
next
  case (Suc n)
  then show ?case using set_rec_Suc set_loop_Suc by blast
qed

lemma set_from_sorted_array:
  assumes "sorted arr"
  shows "\<exists>A. cucon_ucset_from_sorted_array arr = Some A \<and> ucset_wf A \<and> elems A = set arr"
proof -
  have "set_closed lo (-1)" for lo by (simp add: set_closed_def closed_above_def)
  then obtain A where "ucset_from_sorted_array_rec (2 * length arr + 1) (-1) arr =
      Some (A, dropWhile (\<lambda>j. j \<le> -1) arr)" "ucset_wf A" "elems A = {j \<in> set arr. j \<le> -1}"
    using set_sorted_ok [of "2 * length arr + 1"] assms unfolding set_rec_ok_def by blast
  moreover have "dropWhile (\<lambda>j. j \<le> -1) arr = []" by simp
  ultimately show ?thesis by (simp add: cucon_ucset_from_sorted_array_def del: dropWhile_eq_Nil_conv)
qed

section \<open>Properties\<close>

text \<open>\<open>cucon_ucset_from_sorted_array\<close> on a sorted array, with or without repetitions, terminates with
  every element consumed and returns the well-formed set of its elements, the very set that
  inserting them one by one builds.\<close>

theorem ucset_from_sorted_array_correct:
  assumes "sorted arr"
  shows "\<exists>A. cucon_ucset_from_sorted_array arr = Some A \<and> ucset_wf A
    \<and> {j. cucon_ucset_find A j} = set arr
    \<and> A = fold (\<lambda>j A. cucon_ucset_insert A j) arr cucon_ucset_empty"
proof -
  obtain A where A: "cucon_ucset_from_sorted_array arr = Some A" "ucset_wf A" "elems A = set arr"
    using set_from_sorted_array [OF assms] by blast
  then show ?thesis using find_set ucset.built_by_insertion [OF A(2,3)] by blast
qed

theorem ucset_from_sorted_array_correct_witness:
  "\<exists>A. cucon_ucset_from_sorted_array [3, 3, 128, 200, 300, 1000] = Some A \<and> {j. cucon_ucset_find A j} = {3, 128, 200, 300, 1000}"
proof -
  have "sorted [3 :: u64, 3, 128, 200, 300, 1000]" by simp
  from ucset_from_sorted_array_correct [OF this] show ?thesis by auto
qed

end
