(* ===== verification/UcsetItr.thy ===== *)
theory UcsetItr
  imports UcsetIter
begin

text \<open>
  Explicit iterators over constructive sets and the translation built on them,
  \<^verbatim>\<open>cucon/ucset.c\<close>. An iterator is the stack of nodes from the current one (first) to the
  root, the C array \<open>node_stack[sp], ..., node_stack[0]\<close>, with the position in a leaf; the
  empty stack is \<open>sp = -1\<close>.
\<close>

section \<open>Iterators\<close>

record ucset_itr =
  itr_pos :: int
  itr_stack :: "ucset list"

text \<open>The size in bytes of the iterator struct with its stack slots.\<close>

definition cucon_ucset_itr_size :: "ucset \<Rightarrow> u64" where
  "cucon_ucset_itr_size S =
     (if S = Nul then 16 - 8
      else
        (let key = ucnode_key S;
             l = (if key_is_leaflike key then 1 else word_log2_lowbit key - 7 + 2)
         in 16 + (l - 1) * 8))"

fun ucset_itr_reset_leaf :: "u64 list \<Rightarrow> int \<Rightarrow> int \<Rightarrow> int" where
  "ucset_itr_reset_leaf [] i pos = pos"
| "ucset_itr_reset_leaf (x # xs) i pos =
     (if x \<noteq> 0 then uint (word_log2_lowbit x) + i * 64 else ucset_itr_reset_leaf xs (i + 1) pos)"

fun ucset_itr_descend :: "ucset \<Rightarrow> ucset_itr \<Rightarrow> ucset_itr" where
  "ucset_itr_descend Nul itr = itr"
| "ucset_itr_descend (Ucleaf key b) itr = itr\<lparr>itr_pos := ucset_itr_reset_leaf b 0 (itr_pos itr)\<rparr>"
| "ucset_itr_descend (Ucnode key l r) itr =
     (if l = Nul then itr else ucset_itr_descend l (itr\<lparr>itr_stack := l # itr_stack itr\<rparr>))"

text \<open>Pops while the popped node is the right branch of the one below; \<open>node\<close> is the last one popped.\<close>

fun ucset_itr_ascend :: "ucset \<Rightarrow> ucset list \<Rightarrow> ucset list" where
  "ucset_itr_ascend node [] = []"
| "ucset_itr_ascend node (parent # stack) =
     (if right parent = node then ucset_itr_ascend parent stack else parent # stack)"

definition cucon_ucset_itr_init :: "ucset \<Rightarrow> ucset_itr" where
  "cucon_ucset_itr_init S =
     (if S = Nul then \<lparr>itr_pos = 0, itr_stack = []\<rparr>
      else ucset_itr_descend S \<lparr>itr_pos = -1, itr_stack = [S]\<rparr>)"

definition cucon_ucset_itr_at_end :: "ucset_itr \<Rightarrow> bool" where
  "cucon_ucset_itr_at_end itr \<longleftrightarrow> itr_stack itr = []"

text \<open>The scan of a leaf for its next bit, \<open>k\<close> positions being left from \<open>p\<close> on.\<close>

fun ucset_itr_scan :: "u64 list \<Rightarrow> nat \<Rightarrow> nat \<Rightarrow> nat option" where
  "ucset_itr_scan b 0 p = None"
| "ucset_itr_scan b (Suc k) p =
     (if b ! (p div 64) AND push_bit (p mod 64) 1 \<noteq> 0 then Some p else ucset_itr_scan b k (p + 1))"

definition ucset_itr_push :: "ucset \<Rightarrow> ucset_itr \<Rightarrow> ucset_itr" where
  "ucset_itr_push node itr = ucset_itr_descend node (itr\<lparr>itr_stack := node # itr_stack itr\<rparr>)"

text \<open>Leaving a finished node: up to the first unfinished one, and into its right branch unless it is an element.\<close>

definition ucset_itr_leave :: "ucset \<Rightarrow> ucset list \<Rightarrow> ucset_itr \<Rightarrow> ucset_itr" where
  "ucset_itr_leave node stack itr =
     (case ucset_itr_ascend node stack of
        [] \<Rightarrow> itr\<lparr>itr_stack := []\<rparr>
      | parent # stack \<Rightarrow>
          if raw_key parent AND 1 = 0 then ucset_itr_push (right parent) (itr\<lparr>itr_stack := parent # stack\<rparr>)
          else itr\<lparr>itr_stack := parent # stack\<rparr>)"

definition cucon_ucset_itr_get :: "ucset_itr \<Rightarrow> (u64 \<times> ucset_itr) option" where
  "cucon_ucset_itr_get itr =
     (case itr_stack itr of
        [] \<Rightarrow> None
      | node # stack \<Rightarrow>
          (let key = ucnode_key node in
           if key_is_leaflike key then
             (let res = key - 64 + word_of_int (itr_pos itr);
                  pos = nat (itr_pos itr + 1)
              in case ucset_itr_scan (bitset node) (128 - pos) pos of
                   Some p \<Rightarrow> Some (res, itr\<lparr>itr_pos := int p\<rparr>)
                 | None \<Rightarrow> Some (res, ucset_itr_leave node stack (itr\<lparr>itr_pos := itr_pos itr + 1\<rparr>)))
           else if right node \<noteq> Nul then Some (key, ucset_itr_push (right node) itr)
           else Some (key, ucset_itr_leave node stack itr)))"

section \<open>Construction from a monotonic generator\<close>

text \<open>
  A generator returns the next key or \<open>None\<close> at its end; the pair of \<open>have_next\<close> and
  \<open>next_key\<close> is an option. Results are \<open>None\<close> when an assertion fails or fuel runs out.
\<close>

type_synonym 's ucset_gen = "'s \<Rightarrow> u64 option \<times> 's"

fun ucleaf_monotonic_loop ::
    "nat \<Rightarrow> 's ucset_gen \<Rightarrow> u64 \<Rightarrow> u64 list \<Rightarrow> u64 option \<Rightarrow> 's \<Rightarrow> (u64 list \<times> u64 option \<times> 's) option" where
  "ucleaf_monotonic_loop 0 f max_key b next s = None"
| "ucleaf_monotonic_loop (Suc n) f max_key b None s = Some (b, None, s)"
| "ucleaf_monotonic_loop (Suc n) f max_key b (Some key) s =
     (if key \<le> max_key then
        (case f s of (next, s) \<Rightarrow> ucleaf_monotonic_loop n f max_key (set_bitset_bit b (key AND 127)) next s)
      else Some (b, Some key, s))"

definition ucleaf_from_monotonic ::
    "nat \<Rightarrow> 's ucset_gen \<Rightarrow> u64 \<Rightarrow> u64 option \<Rightarrow> 's \<Rightarrow> (ucset \<times> u64 option \<times> 's) option" where
  "ucleaf_from_monotonic n f clip_max next s =
     (case next of
        None \<Rightarrow> None
      | Some key \<Rightarrow>
          (let max_key = cu_uintptr_min clip_max (key OR 127) in
           if \<not> key \<le> max_key then None
           else
             (case ucleaf_monotonic_loop n f max_key [0, 0] next s of
                None \<Rightarrow> None
              | Some (b, next, s) \<Rightarrow> Some (Ucleaf (leaf_key key) b, next, s))))"

fun ucset_from_monotonic_rec ::
    "nat \<Rightarrow> 's ucset_gen \<Rightarrow> u64 \<Rightarrow> u64 option \<Rightarrow> 's \<Rightarrow> (ucset \<times> u64 option \<times> 's) option"
  and ucset_from_monotonic_loop ::
    "nat \<Rightarrow> 's ucset_gen \<Rightarrow> u64 \<Rightarrow> u64 \<Rightarrow> ucset \<Rightarrow> u64 option \<Rightarrow> 's \<Rightarrow> (ucset \<times> u64 option \<times> 's) option" where
  "ucset_from_monotonic_rec 0 f clip_max next s = None"
| "ucset_from_monotonic_rec (Suc n) f clip_max None s = Some (Nul, None, s)"
| "ucset_from_monotonic_rec (Suc n) f clip_max (Some key) s =
     (if key > clip_max then Some (Nul, Some key, s)
      else if key_is_leaflike key then
        (case ucleaf_from_monotonic n f clip_max (Some key) s of
           None \<Rightarrow> None
         | Some (l, next, s) \<Rightarrow> ucset_from_monotonic_loop n f clip_max (ucnode_key l) l next s)
      else ucset_from_monotonic_loop n f clip_max (key - 1) Nul (Some key) s)"
| "ucset_from_monotonic_loop 0 f clip_max left_key l next s = None"
| "ucset_from_monotonic_loop (Suc n) f clip_max left_key l None s = Some (l, None, s)"
| "ucset_from_monotonic_loop (Suc n) f clip_max left_key l (Some key) s =
     (if key > clip_max then Some (l, Some key, s)
      else
        (let key_diff = left_key XOR key;
             span_lmask = (if key_diff \<noteq> 0 then cu_uintptr_dcover key_diff else NOT 0);
             span_min = left_key AND NOT span_lmask;
             span_max = left_key OR span_lmask;
             span_key = span_min + (drop_bit 1 span_lmask + 1);
             (new_key, next, s) =
               (if span_key = key then (case f s of (next, s) \<Rightarrow> (span_key OR 1, next, s))
                else (span_key, Some key, s))
         in if \<not> span_max \<le> clip_max then None
            else if left_key = (case next of None \<Rightarrow> key | Some k \<Rightarrow> k) then None
            else
              (case ucset_from_monotonic_rec n f span_max next s of
                 None \<Rightarrow> None
               | Some (r, next, s) \<Rightarrow>
                   ucset_from_monotonic_loop n f clip_max left_key (ucnode_new new_key l r) next s)))"

section \<open>Translation\<close>

text \<open>
  The closure of the translation: the iterator, and the element that was read but lay beyond the
  clip limit. A failed assertion of the iterator does not arise, as the end is tested first.
\<close>

record ucset_translate_helper =
  th_itr :: ucset_itr
  th_cut :: "u64 option"

definition ucset_translate_helper_call :: "u64 \<Rightarrow> u64 \<Rightarrow> ucset_translate_helper ucset_gen" where
  "ucset_translate_helper_call diff clip_max st =
     (if cucon_ucset_itr_at_end (th_itr st) then (None, st)
      else
        (case cucon_ucset_itr_get (th_itr st) of
           None \<Rightarrow> (None, st)
         | Some (val, itr) \<Rightarrow>
             if val > clip_max then (None, st\<lparr>th_itr := itr, th_cut := Some val\<rparr>)
             else (Some (val + diff), st\<lparr>th_itr := itr\<rparr>)))"

text \<open>Skips the elements below \<open>clip_min\<close>; \<open>Inl\<close> is the early return of the empty set.\<close>

fun ucset_translate_skip :: "nat \<Rightarrow> u64 \<Rightarrow> u64 \<Rightarrow> ucset_itr \<Rightarrow> (unit + u64 \<times> ucset_itr) option" where
  "ucset_translate_skip 0 clip_min clip_max itr = None"
| "ucset_translate_skip (Suc n) clip_min clip_max itr =
     (if cucon_ucset_itr_at_end itr then Some (Inl ())
      else
        (case cucon_ucset_itr_get itr of
           None \<Rightarrow> None
         | Some (next_key, itr) \<Rightarrow>
             if next_key > clip_max then Some (Inl ())
             else if next_key < clip_min then ucset_translate_skip n clip_min clip_max itr
             else Some (Inr (next_key, itr))))"

definition cucon_ucset_translate_uclip :: "nat \<Rightarrow> ucset \<Rightarrow> u64 \<Rightarrow> u64 \<Rightarrow> u64 \<Rightarrow> ucset option" where
  "cucon_ucset_translate_uclip n S diff clip_min clip_max =
     (case ucset_translate_skip n clip_min clip_max (cucon_ucset_itr_init S) of
        None \<Rightarrow> None
      | Some (Inl ()) \<Rightarrow> Some Nul
      | Some (Inr (next_key, itr)) \<Rightarrow>
          (let next_key = next_key + diff; cut = - diff - 1; st = \<lparr>th_itr = itr, th_cut = None\<rparr>;
               rest = (\<lambda>S0 next_key st.
                 case ucset_from_monotonic_rec n (ucset_translate_helper_call diff clip_max) (-1) (Some next_key) st of
                   None \<Rightarrow> None
                 | Some (S1, _, _) \<Rightarrow> Some (cucon_ucset_union S0 S1))
           in if cut < clip_max then
                (case ucset_from_monotonic_rec n (ucset_translate_helper_call diff cut) (-1) (Some next_key) st of
                   None \<Rightarrow> None
                 | Some (S0, _, st) \<Rightarrow>
                     (case th_cut st of
                        None \<Rightarrow> Some S0
                      | Some val \<Rightarrow> if val > clip_max then Some S0 else rest S0 (val + diff) st))
              else rest Nul next_key st))"

definition cucon_ucset_translate_sclip :: "nat \<Rightarrow> ucset \<Rightarrow> u64 \<Rightarrow> u64 \<Rightarrow> u64 \<Rightarrow> ucset option" where
  "cucon_ucset_translate_sclip n S diff clip_min clip_max =
     (if clip_max <s clip_min then Some Nul
      else if (clip_min <s 0) = (clip_max <s 0) then cucon_ucset_translate_uclip n S diff clip_min clip_max
      else
        (case cucon_ucset_translate_uclip n S diff 0 clip_max of
           None \<Rightarrow> None
         | Some S0 \<Rightarrow>
             (case cucon_ucset_translate_uclip n S diff clip_min (-1) of
                None \<Rightarrow> None
              | Some S1 \<Rightarrow> Some (cucon_ucset_union S0 S1))))"

definition cucon_ucset_translate :: "nat \<Rightarrow> ucset \<Rightarrow> u64 \<Rightarrow> ucset option" where
  "cucon_ucset_translate n S diff = cucon_ucset_translate_uclip n S diff 0 (-1)"

end
