(* ===== verification/UcsetItrRun.thy ===== *)
theory UcsetItrRun
  imports UcsetItr UcsetClip
begin

text \<open>
  The explicit iterators of \<^verbatim>\<open>cucon/ucset.c\<close>: what is left to visit, that reading takes its head,
  and that the stack fits in the memory the iterator is given.
\<close>

section \<open>The path on the stack\<close>

definition flag_list :: "ucset \<Rightarrow> u64 list" where
  "flag_list p = (if raw_key p AND 1 \<noteq> 0 then [ucnode_key p] else [])"

text \<open>The stack is a path from the current node to the root.\<close>

fun itr_path :: "ucset \<Rightarrow> ucset list \<Rightarrow> bool" where
  "itr_path A [] \<longleftrightarrow> False"
| "itr_path A [n] \<longleftrightarrow> n = A"
| "itr_path A (n # p # st) \<longleftrightarrow> n \<noteq> Nul \<and> (left p = n \<or> right p = n) \<and> itr_path A (p # st)"

text \<open>The elements after those of the current node, and all that are left.\<close>

fun up_list :: "ucset \<Rightarrow> ucset list \<Rightarrow> u64 list" where
  "up_list n [] = []"
| "up_list n (p # st) = (if right p = n then [] else flag_list p @ ucset_list (right p)) @ up_list p st"

definition leaf_rest :: "u64 \<Rightarrow> u64 list \<Rightarrow> nat \<Rightarrow> u64 list" where
  "leaf_rest k b p = map (\<lambda>i. of_nat (128 * block 6 k + i)) (filter (leaf_bit b) [p..<128])"

fun node_rest :: "ucset \<Rightarrow> int \<Rightarrow> u64 list" where
  "node_rest Nul pos = []"
| "node_rest (Ucleaf k b) pos = leaf_rest k b (nat pos)"
| "node_rest (Ucnode k l r) pos = flag_list (Ucnode k l r) @ ucset_list r"

definition itr_rest :: "ucset_itr \<Rightarrow> u64 list" where
  "itr_rest itr = (case itr_stack itr of [] \<Rightarrow> [] | n # st \<Rightarrow> node_rest n (itr_pos itr) @ up_list n st)"

text \<open>An iterator in use stands at an element.\<close>

fun at_element :: "ucset \<Rightarrow> int \<Rightarrow> bool" where
  "at_element Nul pos \<longleftrightarrow> False"
| "at_element (Ucleaf k b) pos \<longleftrightarrow> 0 \<le> pos \<and> pos < 128 \<and> leaf_bit b (nat pos)"
| "at_element (Ucnode k l r) pos \<longleftrightarrow> k AND 1 \<noteq> 0"

definition itr_ok :: "ucset \<Rightarrow> ucset_itr \<Rightarrow> bool" where
  "itr_ok A itr \<longleftrightarrow> (case itr_stack itr of [] \<Rightarrow> True | n # st \<Rightarrow> itr_path A (n # st) \<and> at_element n (itr_pos itr))"

lemma path_Nul: "itr_path Nul (n # st) \<Longrightarrow> n = Nul"
proof (induction st arbitrary: n)
  case (Cons p st)
  then have "p = Nul" by auto
  then show ?case using Cons.prems by auto
qed simp

lemma path_wf:
  assumes "itr_path A (n # st)" "ucset_wf A" "A \<noteq> Nul"
  shows "ucset_wf n \<and> n \<noteq> Nul"
  using assms
proof (induction st arbitrary: n)
  case (Cons p st)
  then have p: "ucset_wf p" "p \<noteq> Nul" "left p = n \<or> right p = n" "n \<noteq> Nul" by auto
  then show ?case by (cases p) (auto simp: wf_node)
qed simp

lemma path_parent:
  assumes "itr_path A (n # p # st)" "ucset_wf A" "A \<noteq> Nul"
  obtains k l r where "p = Ucnode k l r" "l = n \<and> r \<noteq> n \<or> r = n \<and> l \<noteq> n" "ucset_wf p"
proof -
  have n: "n \<noteq> Nul" "left p = n \<or> right p = n" "itr_path A (p # st)" using assms(1) by auto
  have wf: "ucset_wf p" using path_wf [OF n(3) assms(2,3)] by blast
  then obtain k l r where p: "p = Ucnode k l r" using n by (cases p) auto
  have "l \<noteq> r"
  proof
    assume e: "l = r"
    have w: "ucset_wf l" "elems l \<subseteq> left_side (k AND NOT 1)" "elems r \<subseteq> right_side (k AND NOT 1)"
      using wf unfolding p wf_node by auto
    then have "elems l = {}" using sides_disjoint(1) [of "k AND NOT 1"] e by auto
    then show False using elems_nonempty [OF w(1)] n(1,2) e p by auto
  qed
  then show thesis using that [OF p _ wf] n(2) p by auto
qed

lemma ucset_list_leaf: "ucset_list (Ucleaf k b) = leaf_rest k b 0"
proof -
  have f: "ucleaf_find (Ucleaf k b) (of_nat (128 * block 6 k + i)) \<longleftrightarrow> leaf_bit b i" if "i < 128" for i
    using unat_leaf_nth [OF that, of k] that unfolding leaf_find_bit by simp
  have m: "leaf_keys_of k = map (\<lambda>i. of_nat (128 * block 6 k + i)) [0..<128]"
    by (rule nth_equalityI) (simp_all add: leaf_keys_of_def)
  have "filter (ucleaf_find (Ucleaf k b)) (leaf_keys_of k) =
      map (\<lambda>i. of_nat (128 * block 6 k + i)) (filter (\<lambda>i. ucleaf_find (Ucleaf k b) (of_nat (128 * block 6 k + i))) [0..<128])"
    unfolding m filter_map o_def ..
  also have "filter (\<lambda>i. ucleaf_find (Ucleaf k b) (of_nat (128 * block 6 k + i))) [0..<128] = filter (leaf_bit b) [0..<128]"
    by (rule filter_cong) (use f in auto)
  finally show ?thesis by (simp add: leaf_rest_def del: of_nat_add)
qed

lemma leaf_rest_skip:
  assumes "p \<le> q" "q \<le> 128" "\<And>i. p \<le> i \<Longrightarrow> i < q \<Longrightarrow> \<not> leaf_bit b i"
  shows "leaf_rest k b p = leaf_rest k b q"
proof -
  have "[p..<128] = [p..<q] @ [q..<128]" using assms(1,2) by (metis le_Suc_ex upt_add_eq_append)
  moreover have "filter (leaf_bit b) [p..<q] = []" using assms(3) by (simp add: filter_empty_conv)
  ultimately show ?thesis by (simp add: leaf_rest_def)
qed

lemma leaf_rest_hit:
  assumes "p < 128" "leaf_bit b p"
  shows "leaf_rest k b p = of_nat (128 * block 6 k + p) # leaf_rest k b (Suc p)"
  using assms by (simp add: leaf_rest_def upt_conv_Cons del: of_nat_add)

lemma leaf_rest_end: "leaf_rest k b 128 = []"
  by (simp add: leaf_rest_def)

section \<open>Moving the iterator\<close>

lemma reset_leaf:
  assumes "ucset_wf (Ucleaf k b)"
  shows "at_element (Ucleaf k b) (ucset_itr_reset_leaf b 0 pos)
    \<and> node_rest (Ucleaf k b) (ucset_itr_reset_leaf b 0 pos) = ucset_list (Ucleaf k b)"
proof -
  obtain x y where b: "b = [x, y]" "x \<noteq> 0 \<or> y \<noteq> 0" using leaf_two_words [OF assms] by blast
  let ?p = "if x \<noteq> 0 then lowest x else 64 + lowest y"
  have p: "?p < 128" using b(2) lowest_less [of x] lowest_less [of y] by auto
  have "uint (word_log2_lowbit w) = int (lowest w)" if "w \<noteq> 0" for w
    using that lowest_less [OF that] by (simp add: word_log2_lowbit unsigned_of_nat take_bit_nat_eq_self uint_nat)
  then have r: "ucset_itr_reset_leaf b 0 pos = int ?p" using b by auto
  have hit: "leaf_bit b ?p"
    using b p lowest_bit [of x] lowest_bit [of y] lowest_less [of x] lowest_less [of y] by (auto simp: leaf_words_bit)
  have "\<not> leaf_bit b i" if "i < ?p" for i
    using that p b lowest_less [of x] lowest_below [of i x] lowest_below [of "i - 64" y] by (auto simp: leaf_words_bit split: if_splits)
  then have "leaf_rest k b 0 = leaf_rest k b ?p" using p by (intro leaf_rest_skip) auto
  then show ?thesis using p hit unfolding r ucset_list_leaf by simp
qed

lemma ucset_list_node: "ucset_list (Ucnode k l r) = ucset_list l @ flag_list (Ucnode k l r) @ ucset_list r"
  by (simp add: flag_list_def)

text \<open>Descending from a node that has just been pushed reaches its first element.\<close>

lemma descend_ok:
  assumes "itr_path A (n # st)" "ucset_wf A" "A \<noteq> Nul" "itr_stack itr = n # st"
  shows "itr_ok A (ucset_itr_descend n itr) \<and> itr_stack (ucset_itr_descend n itr) \<noteq> []
    \<and> itr_rest (ucset_itr_descend n itr) = ucset_list n @ up_list n st"
  using assms
proof (induction n arbitrary: st itr)
  case Nul
  then show ?case using path_wf [of A Nul st] by auto
next
  case (Ucleaf k b)
  have wf: "ucset_wf (Ucleaf k b)" using path_wf [OF Ucleaf(1-3)] by blast
  show ?case using reset_leaf [OF wf, of "itr_pos itr"] Ucleaf(1,4) by (simp add: itr_ok_def itr_rest_def del: ucset_list.simps node_rest.simps)
next
  case (Ucnode k l r)
  let ?n = "Ucnode k l r"
  have wf: "ucset_wf ?n" using path_wf [OF Ucnode.prems(1-3)] by blast
  show ?case
  proof (cases "l = Nul")
    case True
    then have "k AND 1 \<noteq> 0" using wf by (auto simp: wf_node)
    then show ?thesis using True Ucnode.prems by (simp add: itr_ok_def itr_rest_def flag_list_def)
  next
    case False
    then have path: "itr_path A (l # ?n # st)" using Ucnode.prems(1) by simp
    have "r \<noteq> l" by (rule path_parent [OF path Ucnode.prems(2,3)]) auto
    then have "ucset_list ?n @ up_list ?n st = ucset_list l @ up_list l (?n # st)"
      by (simp add: flag_list_def)
    then show ?thesis
      using Ucnode.IH(1) [OF path Ucnode.prems(2,3), of "itr\<lparr>itr_stack := l # itr_stack itr\<rparr>"] False Ucnode.prems(4) by simp
  qed
qed

lemma push_ok:
  assumes "itr_path A (r # itr_stack itr)" "ucset_wf A" "A \<noteq> Nul"
  shows "itr_ok A (ucset_itr_push r itr) \<and> itr_rest (ucset_itr_push r itr) = ucset_list r @ up_list r (itr_stack itr)"
  using descend_ok [OF assms, of "itr\<lparr>itr_stack := r # itr_stack itr\<rparr>"] by (simp add: ucset_itr_push_def)

text \<open>Ascending drops the nodes whose right branch is finished.\<close>

lemma ascend_up:
  assumes "itr_path A (n # st)" "ucset_wf A" "A \<noteq> Nul"
  shows "case ucset_itr_ascend n st of
      [] \<Rightarrow> up_list n st = []
    | p # st' \<Rightarrow> itr_path A (p # st') \<and> (\<exists>k l r. p = Ucnode k l r)
        \<and> up_list n st = flag_list p @ ucset_list (right p) @ up_list p st'"
  using assms
proof (induction st arbitrary: n)
  case (Cons p st)
  have "itr_path A (p # st)" using Cons.prems(1) by simp
  moreover obtain k l r where "p = Ucnode k l r" using path_parent [OF Cons.prems] by blast
  ultimately show ?case using Cons.IH [of p] Cons.prems by (auto split: list.splits)
qed simp

lemma leave_ok:
  assumes "itr_path A (n # st)" "ucset_wf A" "A \<noteq> Nul"
  shows "itr_ok A (ucset_itr_leave n st itr) \<and> itr_rest (ucset_itr_leave n st itr) = up_list n st"
proof (cases "ucset_itr_ascend n st")
  case Nil
  then show ?thesis using ascend_up [OF assms] by (simp add: ucset_itr_leave_def itr_ok_def itr_rest_def)
next
  case (Cons p st')
  then obtain k l r where p: "itr_path A (p # st')" "up_list n st = flag_list p @ ucset_list (right p) @ up_list p st'"
    and pk: "p = Ucnode k l r"
    using ascend_up [OF assms] by auto
  have wf: "ucset_wf p" using path_wf [OF p(1) assms(2,3)] by blast
  show ?thesis
  proof (cases "k AND 1 = 0")
    case True
    then have r: "r \<noteq> Nul" using wf pk by (simp add: wf_node)
    then have "itr_path A (r # p # st')" using p(1) pk by simp
    moreover from path_parent [OF this assms(2,3)] have "up_list r (p # st') = up_list p st'" using pk by auto
    ultimately show ?thesis
      using push_ok [where A = A and r = r and itr = "itr\<lparr>itr_stack := p # st'\<rparr>"] assms(2,3) True p(2) pk Cons
      by (simp add: ucset_itr_leave_def flag_list_def)
  next
    case False
    then show ?thesis
      using p pk Cons by (simp add: ucset_itr_leave_def itr_ok_def itr_rest_def flag_list_def)
  qed
qed

section \<open>Reading\<close>

lemma scan_bits:
  assumes "p + d = 128"
  shows "case ucset_itr_scan b d p of
      None \<Rightarrow> \<forall>i. p \<le> i \<and> i < 128 \<longrightarrow> \<not> leaf_bit b i
    | Some q \<Rightarrow> p \<le> q \<and> q < 128 \<and> leaf_bit b q \<and> (\<forall>i. p \<le> i \<and> i < q \<longrightarrow> \<not> leaf_bit b i)"
  using assms
proof (induction d arbitrary: p)
  case (Suc d)
  have hit: "b ! (p div 64) AND push_bit (p mod 64) 1 \<noteq> 0 \<longleftrightarrow> leaf_bit b p"
    by (simp only: leaf_bit_def bit_iff_and_push_bit_not_eq_0)
  have IH: "case ucset_itr_scan b d (Suc p) of
      None \<Rightarrow> \<forall>i. Suc p \<le> i \<and> i < 128 \<longrightarrow> \<not> leaf_bit b i
    | Some q \<Rightarrow> Suc p \<le> q \<and> q < 128 \<and> leaf_bit b q \<and> (\<forall>i. Suc p \<le> i \<and> i < q \<longrightarrow> \<not> leaf_bit b i)"
    using Suc by simp
  have step: "p \<le> i \<longleftrightarrow> i = p \<or> Suc p \<le> i" for i by auto
  show ?case
  proof (cases "leaf_bit b p")
    case True
    then show ?thesis using Suc.prems hit by auto
  next
    case False
    then have "ucset_itr_scan b (Suc d) p = ucset_itr_scan b d (Suc p)" using hit by simp
    then show ?thesis using IH False unfolding step by (auto split: option.splits)
  qed
qed auto

lemma leaf_position:
  assumes "leaf_key k = k" "0 \<le> pos"
  shows "k - 64 + word_of_int pos = of_nat (128 * block 6 k + nat pos)"
proof -
  have "k = of_nat (unat k)" by simp
  also have "\<dots> = of_nat (128 * block 6 k + 64)" using unat_leaf_key [of k] assms(1) by simp
  finally have "k - 64 = of_nat (128 * block 6 k)" by (simp add: algebra_simps)
  moreover have "(word_of_int pos :: u64) = of_nat (nat pos)" using assms(2) by simp
  ultimately show ?thesis by (simp only: of_nat_add)
qed

lemma get_leaf_ok:
  assumes "itr_path A (Ucleaf k b # st)" "ucset_wf A" "A \<noteq> Nul"
    and itr: "itr_stack itr = Ucleaf k b # st" "at_element (Ucleaf k b) (itr_pos itr)"
  shows "\<exists>itr'. cucon_ucset_itr_get itr = Some (of_nat (128 * block 6 k + nat (itr_pos itr)), itr')
    \<and> leaf_rest k b (Suc (nat (itr_pos itr))) @ up_list (Ucleaf k b) st = itr_rest itr' \<and> itr_ok A itr'"
proof -
  let ?n = "Ucleaf k b" and ?p = "nat (itr_pos itr)"
  have wf: "ucset_wf ?n" using path_wf [OF assms(1-3)] by blast
  then have k: "leaf_key k = k" "key_is_leaflike k"
    using ucset_leaf_or_node [OF wf] by (auto simp: ucnode_key_leaf)
  have pos: "0 \<le> itr_pos itr" "?p < 128" using itr(2) by auto
  have nat: "nat (itr_pos itr + 1) = Suc ?p" using pos(1) by simp
  note scan = scan_bits [of "Suc ?p" "128 - Suc ?p" b]
  have g: "cucon_ucset_itr_get itr = (case ucset_itr_scan b (128 - Suc ?p) (Suc ?p) of
      Some q \<Rightarrow> Some (of_nat (128 * block 6 k + ?p), itr\<lparr>itr_pos := int q\<rparr>)
    | None \<Rightarrow> Some (of_nat (128 * block 6 k + ?p), ucset_itr_leave ?n st (itr\<lparr>itr_pos := itr_pos itr + 1\<rparr>)))"
    unfolding cucon_ucset_itr_get_def itr(1) using k
    by (simp only: list.case Let_def ucnode_key_leaf if_True leaf_position [OF k(1) pos(1)] nat ucset.sel)
  show ?thesis
  proof (cases "ucset_itr_scan b (128 - Suc ?p) (Suc ?p)")
    case None
    then have none: "\<And>i. Suc ?p \<le> i \<Longrightarrow> i < 128 \<Longrightarrow> \<not> leaf_bit b i" using scan pos(2) by simp
    have "leaf_rest k b (Suc ?p) = leaf_rest k b 128"
      by (rule leaf_rest_skip) (use pos(2) none in auto)
    then show ?thesis
      using leave_ok [OF assms(1-3), of "itr\<lparr>itr_pos := itr_pos itr + 1\<rparr>"] None unfolding g leaf_rest_end by simp
  next
    case (Some q)
    then have q: "Suc ?p \<le> q" "q < 128" "leaf_bit b q" "\<And>i. Suc ?p \<le> i \<Longrightarrow> i < q \<Longrightarrow> \<not> leaf_bit b i"
      using scan pos(2) by auto
    have "leaf_rest k b (Suc ?p) = leaf_rest k b q" by (rule leaf_rest_skip) (use q in auto)
    then show ?thesis using Some q assms(1) itr(1) unfolding g by (simp add: itr_ok_def itr_rest_def)
  qed
qed

lemma get_ok:
  assumes "itr_ok A itr" "ucset_wf A" "A \<noteq> Nul" "itr_stack itr \<noteq> []"
  obtains k itr' where "cucon_ucset_itr_get itr = Some (k, itr')" "itr_rest itr = k # itr_rest itr'" "itr_ok A itr'"
proof -
  obtain n st where st: "itr_stack itr = n # st" using assms(4) by (cases "itr_stack itr") auto
  then have path: "itr_path A (n # st)" and at: "at_element n (itr_pos itr)" using assms(1) by (auto simp: itr_ok_def)
  have wf: "ucset_wf n" using path_wf [OF path assms(2,3)] by blast
  show thesis
  proof (cases n)
    case Nul
    then show ?thesis using at by simp
  next
    case (Ucleaf k b)
    have "itr_rest itr = of_nat (128 * block 6 k + nat (itr_pos itr)) #
        leaf_rest k b (Suc (nat (itr_pos itr))) @ up_list (Ucleaf k b) st"
    proof -
      have "0 \<le> itr_pos itr \<and> itr_pos itr < 128 \<and> leaf_bit b (nat (itr_pos itr))" using at Ucleaf by simp
      moreover from this have "nat (itr_pos itr) < 128" by linarith
      ultimately show ?thesis
        using leaf_rest_hit [of "nat (itr_pos itr)" b k] by (simp add: itr_rest_def st Ucleaf del: of_nat_add)
    qed
    then show ?thesis
      using get_leaf_ok [OF path [unfolded Ucleaf] assms(2,3) st [unfolded Ucleaf] at [unfolded Ucleaf]] that by metis
  next
    case (Ucnode k l r)
    have fl: "flag_list n = [ucnode_key n]" using at by (simp add: flag_list_def Ucnode)
    have nl: "\<not> key_is_leaflike (ucnode_key n)" using wf by (simp add: Ucnode wf_node branch_key_def)
    have rest: "itr_rest itr = ucnode_key n # ucset_list r @ up_list n st"
      using fl by (simp add: itr_rest_def st Ucnode)
    show ?thesis
    proof (cases "r = Nul")
      case True
      have "cucon_ucset_itr_get itr = Some (ucnode_key n, ucset_itr_leave n st itr)"
        unfolding cucon_ucset_itr_get_def st using nl True by (simp add: Let_def Ucnode)
      then show ?thesis using that leave_ok [OF path assms(2,3), of itr] rest True by simp
    next
      case False
      then have p: "itr_path A (r # itr_stack itr)" using path by (simp add: st Ucnode)
      have "cucon_ucset_itr_get itr = Some (ucnode_key n, ucset_itr_push r itr)"
        unfolding cucon_ucset_itr_get_def st using nl False by (simp add: Let_def Ucnode)
      moreover have "up_list r (itr_stack itr) = up_list n st" by (simp add: st Ucnode)
      ultimately show ?thesis using that push_ok [OF p assms(2,3)] rest by simp
    qed
  qed
qed

section \<open>The stack fits\<close>

lemma path_depth:
  assumes "itr_path A (n # st)" "ucset_wf A" "A \<noteq> Nul"
  shows "length (n # st) + lowest (ucnode_key n) \<le> Suc (lowest (ucnode_key A))"
  using assms
proof (induction st arbitrary: n)
  case (Cons p st)
  obtain k l r where p: "p = Ucnode k l r" "l = n \<and> r \<noteq> n \<or> r = n \<and> l \<noteq> n" "ucset_wf p"
    using path_parent [OF Cons.prems] by blast
  have n: "n \<noteq> Nul" "ucset_wf n" using path_wf [OF Cons.prems] by auto
  have "ucset_key_covers (ucnode_key p) (ucnode_key n)" "ucnode_key p \<noteq> ucnode_key n"
    using p n(1) by (auto simp: ucset_wf.simps(3))
  then have "lowest (ucnode_key n) < lowest (ucnode_key p)"
    using ucset_covers_level node_level(1) [OF n(2,1)] by metis
  then show ?case using Cons.IH [of p] Cons.prems by simp
qed simp

lemma itr_size:
  assumes "ucset_wf A" "A \<noteq> Nul"
  shows "unat (cucon_ucset_itr_size A) = 8 + 8 * (lowest (ucnode_key A) - 5)"
proof (cases "key_is_leaflike (ucnode_key A)")
  case True
  then have "lowest (ucnode_key A) = 6"
    using node_level [OF assms] by (simp add: leaflike_iff)
  then show ?thesis using True assms(2) by (simp add: cucon_ucset_itr_size_def)
next
  case False
  let ?z = "lowest (ucnode_key A)"
  have z: "7 \<le> ?z" "?z < 64" using False node_level [OF assms] lowest_less by (auto simp: leaflike_iff)
  have l: "word_log2_lowbit (ucnode_key A) - 7 + 2 - 1 = (of_nat (?z - 6) :: u64)"
    using z node_level(1) [OF assms] by (simp add: word_log2_lowbit of_nat_diff)
  have "cucon_ucset_itr_size A = of_nat (16 + (?z - 6) * 8)"
    using False assms(2) unfolding cucon_ucset_itr_size_def Let_def by (simp only: if_False l) simp
  moreover have "unat (of_nat (16 + (?z - 6) * 8) :: u64) = 16 + (?z - 6) * 8"
    using z(2) by (simp add: unsigned_of_nat take_bit_nat_eq_self del: of_nat_add of_nat_mult)
  ultimately show ?thesis using z(1) by simp
qed

section \<open>A run of the iterator\<close>

text \<open>The states an iterator over a set goes through, with the elements read so far.\<close>

inductive itr_run :: "ucset \<Rightarrow> u64 list \<Rightarrow> ucset_itr \<Rightarrow> bool" for A where
  init: "itr_run A [] (cucon_ucset_itr_init A)"
| get: "itr_run A ks itr \<Longrightarrow> cucon_ucset_itr_get itr = Some (k, itr') \<Longrightarrow> itr_run A (ks @ [k]) itr'"

inductive_cases itr_runE: "itr_run A ks itr"

lemma init_ok:
  assumes "ucset_wf A"
  shows "itr_ok A (cucon_ucset_itr_init A) \<and> itr_rest (cucon_ucset_itr_init A) = ucset_list A"
proof (cases "A = Nul")
  case False
  then show ?thesis
    using descend_ok [of A A "[]" "\<lparr>itr_pos = -1, itr_stack = [A]\<rparr>"] assms by (simp add: cucon_ucset_itr_init_def)
qed (simp add: cucon_ucset_itr_init_def itr_ok_def itr_rest_def)

lemma run_ok:
  assumes "itr_run A ks itr" "ucset_wf A"
  shows "itr_ok A itr \<and> ks @ itr_rest itr = ucset_list A"
  using assms(1)
proof induction
  case init
  then show ?case using init_ok [OF assms(2)] by simp
next
  case (get ks itr k itr')
  have st: "itr_stack itr \<noteq> []" using get.hyps(2) by (auto simp: cucon_ucset_itr_get_def)
  have "A \<noteq> Nul"
  proof
    assume "A = Nul"
    then have "itr_rest itr = []" using get.IH by simp
    moreover obtain n st' where "itr_stack itr = n # st'" using st by (cases "itr_stack itr") auto
    moreover have "itr_path A (n # st')" "at_element n (itr_pos itr)" using get.IH calculation(2) by (auto simp: itr_ok_def)
    moreover have "n = Nul" using path_Nul \<open>A = Nul\<close> \<open>itr_path A (n # st')\<close> by blast
    ultimately show False by simp
  qed
  then obtain k' itr'' where "cucon_ucset_itr_get itr = Some (k', itr'')" "itr_rest itr = k' # itr_rest itr''" "itr_ok A itr''"
    using get_ok [OF conjunct1 [OF get.IH] assms(2) _ st] by metis
  then show ?case using get by simp
qed

lemma run_at_end:
  assumes "itr_run A ks itr" "ucset_wf A"
  shows "cucon_ucset_itr_at_end itr \<longleftrightarrow> itr_rest itr = []"
proof (cases "itr_stack itr")
  case (Cons n st)
  then have "itr_path A (n # st)" "at_element n (itr_pos itr)"
    using run_ok [OF assms] by (auto simp: itr_ok_def)
  moreover have "node_rest n pos \<noteq> []" if "at_element n pos" for pos
    using that leaf_rest_hit [of "nat pos"] by (cases n) (auto simp: flag_list_def nat_less_iff)
  ultimately show ?thesis using Cons by (simp add: cucon_ucset_itr_at_end_def itr_rest_def)
qed (simp add: cucon_ucset_itr_at_end_def itr_rest_def)

lemma run_stack:
  assumes "itr_run A ks itr" "ucset_wf A"
  shows "8 + 8 * length (itr_stack itr) \<le> unat (cucon_ucset_itr_size A)"
proof (cases "itr_stack itr")
  case Nil
  then show ?thesis using itr_size [OF assms(2)] by (cases "A = Nul") (simp_all add: cucon_ucset_itr_size_def)
next
  case (Cons n st)
  then have path: "itr_path A (n # st)" and at: "at_element n (itr_pos itr)" using run_ok [OF assms] by (auto simp: itr_ok_def)
  have "A \<noteq> Nul" using path at path_Nul by fastforce
  then have "length (n # st) + lowest (ucnode_key n) \<le> Suc (lowest (ucnode_key A))"
      "6 \<le> lowest (ucnode_key n)" "6 \<le> lowest (ucnode_key A)"
    using path_depth [OF path assms(2)] path_wf [OF path assms(2)] node_level(2) [OF assms(2)] node_level(2) [of n] by blast+
  then show ?thesis using itr_size [OF assms(2) \<open>A \<noteq> Nul\<close>] Cons by simp
qed

section \<open>Properties\<close>

text \<open>C35: In every state an iterator over a well-formed set reaches, the elements read so far are the first
  ones of the increasing list of elements; the iterator is at its end exactly when they are all of
  them, and otherwise the next read does not fail its assertion and returns the next element.\<close>

theorem ucset_itr_reads_in_order:
  assumes "ucset_wf A" "itr_run A ks itr"
  shows "ks = take (length ks) (ucset_list A) \<and> (cucon_ucset_itr_at_end itr \<longleftrightarrow> ks = ucset_list A)
    \<and> (\<not> cucon_ucset_itr_at_end itr \<longrightarrow> (\<exists>itr'. cucon_ucset_itr_get itr = Some (ucset_list A ! length ks, itr')))"
proof -
  have r: "itr_ok A itr" "ucset_list A = ks @ itr_rest itr" using run_ok [OF assms(2,1)] by auto
  have e: "cucon_ucset_itr_at_end itr \<longleftrightarrow> itr_rest itr = []" by (rule run_at_end [OF assms(2,1)])
  have "\<exists>itr'. cucon_ucset_itr_get itr = Some (ucset_list A ! length ks, itr')" if ne: "itr_rest itr \<noteq> []"
  proof -
    have st: "itr_stack itr \<noteq> []" using ne by (auto simp: itr_rest_def)
    have "A \<noteq> Nul" using ne r(2) by auto
    then show ?thesis using get_ok [OF r(1) assms(1) _ st] unfolding r(2) by (metis nth_append_length)
  qed
  then show ?thesis using e by (simp add: r(2))
qed

theorem ucset_itr_reads_in_order_witness:
  "\<exists>itr. cucon_ucset_itr_get (cucon_ucset_itr_init (cucon_ucset_insert Nul 5)) = Some (ucset_list (cucon_ucset_insert Nul 5) ! 0, itr)"
proof -
  have "ucset_wf (cucon_ucset_insert Nul 5)" "\<not> cucon_ucset_itr_at_end (cucon_ucset_itr_init (cucon_ucset_insert Nul 5))"
    by code_simp+
  then show ?thesis using ucset_itr_reads_in_order [OF _ itr_run.init, of "cucon_ucset_insert Nul 5"] by simp
qed

text \<open>Reading on from any state an iterator over a well-formed set reaches, the end is reached, with all
  elements read.\<close>

theorem ucset_itr_finishes:
  assumes "ucset_wf A" "itr_run A ks itr"
  shows "\<exists>itr'. itr_run A (ucset_list A) itr' \<and> cucon_ucset_itr_at_end itr'"
  using assms(2)
proof (induction "length (itr_rest itr)" arbitrary: ks itr)
  case 0
  then show ?case using run_at_end [OF 0(2) assms(1)] run_ok [OF 0(2) assms(1)] by auto
next
  case (Suc n)
  have r: "itr_ok A itr" "ks @ itr_rest itr = ucset_list A" using run_ok [OF Suc.prems assms(1)] by auto
  have st: "itr_stack itr \<noteq> []" using Suc.hyps(2) by (auto simp: itr_rest_def)
  have "A \<noteq> Nul" using Suc.hyps(2) r(2) by auto
  then obtain k itr' where g: "cucon_ucset_itr_get itr = Some (k, itr')" "itr_rest itr = k # itr_rest itr'"
    using get_ok [OF r(1) assms(1) _ st] by metis
  then show ?case using Suc.hyps(1) [of itr' "ks @ [k]"] Suc.hyps(2) itr_run.get [OF Suc.prems g(1)] by simp
qed

theorem ucset_itr_finishes_witness:
  "\<exists>itr. itr_run (cucon_ucset_insert Nul 5) (ucset_list (cucon_ucset_insert Nul 5)) itr \<and> cucon_ucset_itr_at_end itr"
proof -
  have "ucset_wf (cucon_ucset_insert Nul 5)" by code_simp
  then show ?thesis using ucset_itr_finishes itr_run.init by blast
qed

text \<open>C36: The stack of an iterator over a well-formed set never outgrows the memory that
  \<open>cucon_ucset_itr_size\<close> asks for: two 32-bit integers and a pointer for each node on the stack.\<close>

theorem ucset_itr_stack_bound:
  assumes "ucset_wf A" "itr_run A ks itr"
  shows "8 + 8 * length (itr_stack itr) \<le> unat (cucon_ucset_itr_size A)"
  by (rule run_stack [OF assms(2,1)])

theorem ucset_itr_stack_bound_witness:
  "8 + 8 * length (itr_stack (cucon_ucset_itr_init (cucon_ucset_insert Nul 5))) \<le> unat (cucon_ucset_itr_size (cucon_ucset_insert Nul 5))"
proof -
  have "ucset_wf (cucon_ucset_insert Nul 5)" by code_simp
  then show ?thesis using ucset_itr_stack_bound itr_run.init by blast
qed

end
