(* ===== verification/CLib.thy ===== *)
theory CLib
  imports Prelude
begin

text \<open>
  The functions of the C library on character arrays that the modelled code calls, in the C
  locale. Characters are bytes, compared as unsigned; only the sign of a comparison is specified.
\<close>

fun memcmp :: "nat \<Rightarrow> u8 list \<Rightarrow> u8 list \<Rightarrow> int" where
  "memcmp (Suc n) (x # xs) (y # ys) = (if x < y then -1 else if x > y then 1 else memcmp n xs ys)"
| "memcmp n xs ys = 0"

fun strncmp :: "nat \<Rightarrow> u8 list \<Rightarrow> u8 list \<Rightarrow> int" where
  "strncmp (Suc n) (x # xs) (y # ys) =
     (if x < y then -1 else if x > y then 1 else if x = 0 then 0 else strncmp n xs ys)"
| "strncmp n xs ys = 0"

text \<open>A C string is given by the bytes before its terminating zero.\<close>

definition strlen :: "u8 list \<Rightarrow> u64" where
  "strlen s = of_nat (length (takeWhile (\<lambda>c. c \<noteq> 0) s))"

definition isspace :: "u8 \<Rightarrow> bool" where
  "isspace c \<longleftrightarrow> c = 32 \<or> 9 \<le> c \<and> c \<le> 13"

definition toupper :: "u8 \<Rightarrow> u8" where
  "toupper c = (if 97 \<le> c \<and> c \<le> 122 then c - 32 else c)"

definition tolower :: "u8 \<Rightarrow> u8" where
  "tolower c = (if 65 \<le> c \<and> c \<le> 90 then c + 32 else c)"

text \<open>
  Sorting by a comparison function. The order of elements that compare equal is not specified by
  the C standard, nor is the result for a comparison that is not an order.
\<close>

fun qsort_insert :: "('a \<Rightarrow> 'a \<Rightarrow> int) \<Rightarrow> 'a \<Rightarrow> 'a list \<Rightarrow> 'a list" where
  "qsort_insert compar x [] = [x]"
| "qsort_insert compar x (y # ys) = (if compar x y \<le> 0 then x # y # ys else y # qsort_insert compar x ys)"

definition qsort :: "('a \<Rightarrow> 'a \<Rightarrow> int) \<Rightarrow> 'a list \<Rightarrow> 'a list" where
  "qsort compar base = foldr (qsort_insert compar) base []"

lemma memcmp_zero: "length xs = n \<Longrightarrow> length ys = n \<Longrightarrow> memcmp n xs ys = 0 \<longleftrightarrow> xs = ys"
  by (induction n xs ys rule: memcmp.induct) auto

lemma memcmp_flip: "memcmp n xs ys < 0 \<longleftrightarrow> 0 < memcmp n ys xs"
  by (induction n xs ys rule: memcmp.induct) auto

lemma strncmp_flip: "strncmp n xs ys < 0 \<longleftrightarrow> 0 < strncmp n ys xs"
  by (induction n xs ys rule: strncmp.induct) auto

lemma strncmp_memcmp: "0 \<notin> set xs \<Longrightarrow> strncmp n xs ys = memcmp n xs ys"
  by (induction n xs ys rule: strncmp.induct) auto

end
