(* ===== verification/Rbtree.thy ===== *)
theory Rbtree
  imports CuInt CLib "HOL-Library.Monad_Syntax"
begin

text \<open>
  The red-black trees of \<^verbatim>\<open>cucon/rbtree.c\<close>. A node has its colour in \<open>is_black\<close>, zero for red;
  at the root, which is black, this field holds the number of nodes. The C functions walk down
  the tree and push each node on a stack \<open>sp\<close>, with \<open>sp[0]\<close> the current node, \<open>sp[1]\<close> its parent
  and a null pointer above the root; they then change nodes through the stack. Here the nodes
  above the current one are a list of crumbs, each a node without the child that the next lower
  entry of the stack is, so that a test like \<open>sp[0] == LEFT(sp[1])\<close> is a case distinction on the
  first crumb. The result \<open>None\<close> stands for a null pointer dereference, a failed assertion or a
  push outside the array that was allocated for the stack. Slots are values: the memory a caller
  fills through the returned pointer is the content given for a new node.
\<close>

section \<open>Nodes\<close>

datatype 'a rbnode =
    RbNull
  | RbNode (is_black: u64) (rb_left: "'a rbnode") (rb_mem: 'a) (rb_right: "'a rbnode")

record 'a rbtree =
  rb_root :: "'a rbnode"

datatype 'a crumb =
    InLeft u64 'a "'a rbnode"
  | InRight u64 "'a rbnode" 'a

definition IS_BLACK :: "'a rbnode \<Rightarrow> bool" where
  "IS_BLACK node \<longleftrightarrow> is_black node \<noteq> 0"

text \<open>The tests \<open>y && IS_RED(y)\<close> and \<open>!y || IS_BLACK(y)\<close>.\<close>

definition is_red_node :: "'a rbnode \<Rightarrow> bool" where
  "is_red_node y \<longleftrightarrow> y \<noteq> RbNull \<and> \<not> IS_BLACK y"

fun set_black :: "u64 \<Rightarrow> 'a rbnode \<Rightarrow> 'a rbnode" where
  "set_black c RbNull = RbNull"
| "set_black c (RbNode b l v r) = RbNode c l v r"

abbreviation BECOME_BLACK :: "'a rbnode \<Rightarrow> 'a rbnode" where "BECOME_BLACK \<equiv> set_black 1"
abbreviation BECOME_RED :: "'a rbnode \<Rightarrow> 'a rbnode" where "BECOME_RED \<equiv> set_black 0"

fun crumb_black :: "'a crumb \<Rightarrow> u64" where
  "crumb_black (InLeft b v r) = b"
| "crumb_black (InRight b l v) = b"

fun plug1 :: "'a crumb \<Rightarrow> 'a rbnode \<Rightarrow> 'a rbnode" where
  "plug1 (InLeft b v r) t = RbNode b t v r"
| "plug1 (InRight b l v) t = RbNode b l v t"

text \<open>The node at \<open>*sp_root\<close>.\<close>

fun plug :: "'a rbnode \<Rightarrow> 'a crumb list \<Rightarrow> 'a rbnode" where
  "plug t [] = t"
| "plug t (p # sp) = plug (plug1 p t) sp"

definition cucon_rbtree_init :: "'a rbtree" where
  "cucon_rbtree_init = \<lparr>rb_root = RbNull\<rparr>"

definition cucon_rbtree_size :: "'a rbtree \<Rightarrow> u64" where
  "cucon_rbtree_size tree = (if rb_root tree \<noteq> RbNull then is_black (rb_root tree) else 0)"

definition cucon_rbtree_is_empty :: "'a rbtree \<Rightarrow> bool" where
  "cucon_rbtree_is_empty tree \<longleftrightarrow> rb_root tree = RbNull"

text \<open>A shared copy, to be changed by constructive operations only.\<close>

definition cucon_rbtree_new_copy_ctive :: "'a rbtree \<Rightarrow> 'a rbtree" where
  "cucon_rbtree_new_copy_ctive src = \<lparr>rb_root = rb_root src\<rparr>"

text \<open>Deep copies: the callback gives the slot of a copied node, whose colour is that of the source.\<close>

fun rbnode_copy_rec :: "('a \<Rightarrow> 'b) \<Rightarrow> 'a rbnode \<Rightarrow> 'b rbnode" where
  "rbnode_copy_rec node_new_copy RbNull = RbNull"
| "rbnode_copy_rec node_new_copy (RbNode b l v r) =
     RbNode b (rbnode_copy_rec node_new_copy l) (node_new_copy v) (rbnode_copy_rec node_new_copy r)"

definition cucon_rbtree_new_copy_node :: "'a rbtree \<Rightarrow> ('a \<Rightarrow> 'b) \<Rightarrow> 'b rbtree" where
  "cucon_rbtree_new_copy_node src node_new_copy = \<lparr>rb_root = rbnode_copy_rec node_new_copy (rb_root src)\<rparr>"

definition cucon_rbtree_new_copy_ptr :: "'a rbtree \<Rightarrow> 'a rbtree" where
  "cucon_rbtree_new_copy_ptr src = \<lparr>rb_root = rbnode_copy_rec (\<lambda>p. p) (rb_root src)\<rparr>"

section \<open>Rotations\<close>

fun rbnode_rotate_right :: "'a rbnode \<Rightarrow> 'a rbnode option" where
  "rbnode_rotate_right (RbNode bz (RbNode bx a x b) z c) = Some (RbNode bx a x (RbNode bz b z c))"
| "rbnode_rotate_right node = None"

fun rbnode_rotate_left :: "'a rbnode \<Rightarrow> 'a rbnode option" where
  "rbnode_rotate_left (RbNode bx a x (RbNode bz b z c)) = Some (RbNode bz (RbNode bx a x b) z c)"
| "rbnode_rotate_left node = None"

section \<open>Insertion\<close>

text \<open>The loop of the rebalancing: \<open>x\<close> is the red node \<open>sp[0]\<close>. After a rotation \<open>sp[1]\<close> is black and the loop ends.\<close>

fun rbtree_rebalance_loop :: "'a rbnode \<Rightarrow> 'a crumb list \<Rightarrow> 'a rbnode option" where
  "rbtree_rebalance_loop x [] = Some x"
| "rbtree_rebalance_loop x [p] = (if crumb_black p = 0 then None else Some (plug x [p]))"
| "rbtree_rebalance_loop x (p # g # sp) =
     (if crumb_black p \<noteq> 0 then Some (plug x (p # g # sp))
      else
        (case g of
           InLeft bg vg y \<Rightarrow>
             if is_red_node y then
               rbtree_rebalance_loop (RbNode 0 (BECOME_BLACK (plug1 p x)) vg (BECOME_BLACK y)) sp
             else do {
               n \<leftarrow> (case p of InRight _ _ _ \<Rightarrow> rbnode_rotate_left (plug1 p x) | InLeft _ _ _ \<Rightarrow> Some (plug1 p x));
               n \<leftarrow> rbnode_rotate_right (RbNode 0 (BECOME_BLACK n) vg y);
               Some (plug n sp)
             }
         | InRight bg y vg \<Rightarrow>
             if is_red_node y then
               rbtree_rebalance_loop (RbNode 0 (BECOME_BLACK y) vg (BECOME_BLACK (plug1 p x))) sp
             else do {
               n \<leftarrow> (case p of InLeft _ _ _ \<Rightarrow> rbnode_rotate_right (plug1 p x) | InRight _ _ _ \<Rightarrow> Some (plug1 p x));
               n \<leftarrow> rbnode_rotate_left (RbNode 0 y vg (BECOME_BLACK n));
               Some (plug n sp)
             }))"

definition rbtree_rebalance_dtive :: "'a rbnode \<Rightarrow> 'a crumb list \<Rightarrow> 'a rbnode option" where
  "rbtree_rebalance_dtive x sp = rbtree_rebalance_loop (BECOME_RED x) sp"

text \<open>The number of stack entries allocated for a tree; \<open>None\<close> when the logarithm of zero is asked for.\<close>

definition rb_stack_size :: "u64 \<Rightarrow> nat option" where
  "rb_stack_size tree_size = map_option (\<lambda>l. 2 * unat l + 3) (cu_uint64_floor_log2 (tree_size + 1))"

text \<open>
  The descent to the node for which the comparison is zero or to a null pointer. The null pointer
  above the root and the crumbs fill \<open>Suc (length sp)\<close> entries of the stack when a node is pushed.
\<close>

fun rbtree_descend :: "nat \<Rightarrow> ('a \<Rightarrow> int) \<Rightarrow> 'a rbnode \<Rightarrow> 'a crumb list \<Rightarrow> ('a rbnode \<times> 'a crumb list) option" where
  "rbtree_descend stack_size compare RbNull sp = Some (RbNull, sp)"
| "rbtree_descend stack_size compare (RbNode b l v r) sp =
     (if stack_size < length sp + 2 then None
      else
        (let cmp = compare v in
         if cmp < 0 then rbtree_descend stack_size compare l (InLeft b v r # sp)
         else if cmp > 0 then rbtree_descend stack_size compare r (InRight b l v # sp)
         else Some (RbNode b l v r, sp)))"

text \<open>Returns whether a node was inserted, and the slot.\<close>

definition cucon_rbtree_insert1m_mem :: "('a \<Rightarrow> int) \<Rightarrow> 'a \<Rightarrow> 'a rbtree \<Rightarrow> (bool \<times> 'a \<times> 'a rbtree) option" where
  "cucon_rbtree_insert1m_mem compare new tree =
     (let tree_size = cucon_rbtree_size tree in
      do {
        stack_size \<leftarrow> rb_stack_size tree_size;
        (if rb_root tree \<noteq> RbNull \<and> \<not> IS_BLACK (rb_root tree) then None else Some ());
        (x, sp) \<leftarrow> rbtree_descend stack_size compare (rb_root tree) [];
        (case x of
           RbNode b l v r \<Rightarrow> if is_black (rb_root tree) = tree_size then Some (False, v, tree) else None
         | RbNull \<Rightarrow>
             if stack_size < length sp + 2 then None
             else do {
               root \<leftarrow> rbtree_rebalance_dtive (RbNode 0 RbNull new RbNull) sp;
               Some (True, new, tree\<lparr>rb_root := set_black (tree_size + 1) root\<rparr>)
             })
      })"

text \<open>
  The functions on keys: the slot starts with the key, followed by what the client stores. The
  body of \<open>cucon_rbtree_insert2p_node\<close> is that of \<open>cucon_rbtree_insert1m_mem\<close> with the comparison
  applied to the key; \<open>rest\<close> is the fresh memory after the key.
\<close>

definition cucon_rbtree_insert2p_node ::
    "('k \<Rightarrow> 'k \<Rightarrow> int) \<Rightarrow> 'k \<Rightarrow> 'v \<Rightarrow> ('k \<times> 'v) rbtree \<Rightarrow> (bool \<times> ('k \<times> 'v) \<times> ('k \<times> 'v) rbtree) option" where
  "cucon_rbtree_insert2p_node compare key rest tree =
     cucon_rbtree_insert1m_mem (\<lambda>slot. compare key (fst slot)) (key, rest) tree"

text \<open>Returns also the value of \<open>*ptr_io\<close> afterwards: the key in either case.\<close>

definition cucon_rbtree_insert2p_ptr ::
    "('k \<Rightarrow> 'k \<Rightarrow> int) \<Rightarrow> 'k \<Rightarrow> ('k \<times> unit) rbtree \<Rightarrow> (bool \<times> 'k \<times> ('k \<times> unit) rbtree) option" where
  "cucon_rbtree_insert2p_ptr compare ptr tree =
     (case cucon_rbtree_insert2p_node compare ptr () tree of
        None \<Rightarrow> None
      | Some (True, node, tree) \<Rightarrow> Some (True, fst node, tree)
      | Some (False, node, tree) \<Rightarrow> Some (False, ptr, tree))"

section \<open>Constructive insertion\<close>

text \<open>
  The nodes on the path to the new node are copied, and so are the nodes that the rebalancing
  changes outside the path; \<open>cp\<close> is what the callback makes of a slot. A rotation copies the node that moves up
  (again) unless it is the new node.
\<close>

fun copy_crumb :: "('a \<Rightarrow> 'a) \<Rightarrow> 'a crumb \<Rightarrow> 'a crumb" where
  "copy_crumb cp (InLeft b v r) = InLeft b (cp v) r"
| "copy_crumb cp (InRight b l v) = InRight b l (cp v)"

fun copy_node :: "('a \<Rightarrow> 'a) \<Rightarrow> 'a rbnode \<Rightarrow> 'a rbnode" where
  "copy_node cp RbNull = RbNull"
| "copy_node cp (RbNode b l v r) = RbNode b l (cp v) r"

fun rbnode_rotate_right_ctive :: "('a \<Rightarrow> 'a) \<Rightarrow> bool \<Rightarrow> 'a rbnode \<Rightarrow> 'a rbnode option" where
  "rbnode_rotate_right_ctive cp is_new (RbNode bz (RbNode bx a x b) z c) =
     Some (RbNode bx a (if is_new then x else cp x) (RbNode bz b z c))"
| "rbnode_rotate_right_ctive cp is_new node = None"

fun rbnode_rotate_left_ctive :: "('a \<Rightarrow> 'a) \<Rightarrow> bool \<Rightarrow> 'a rbnode \<Rightarrow> 'a rbnode option" where
  "rbnode_rotate_left_ctive cp is_new (RbNode bx a x (RbNode bz b z c)) =
     Some (RbNode bz (RbNode bx a x b) (if is_new then z else cp z) c)"
| "rbnode_rotate_left_ctive cp is_new node = None"

text \<open>\<open>is_new\<close> tells whether \<open>sp[0]\<close> is the new node.\<close>

fun rbtree_crebalance_loop :: "('a \<Rightarrow> 'a) \<Rightarrow> bool \<Rightarrow> 'a rbnode \<Rightarrow> 'a crumb list \<Rightarrow> 'a rbnode option" where
  "rbtree_crebalance_loop cp is_new x [] = Some x"
| "rbtree_crebalance_loop cp is_new x [p] = (if crumb_black p = 0 then None else Some (plug x [p]))"
| "rbtree_crebalance_loop cp is_new x (p # g # sp) =
     (if crumb_black p \<noteq> 0 then Some (plug x (p # g # sp))
      else
        (case g of
           InLeft bg vg y \<Rightarrow>
             if is_red_node y then
               rbtree_crebalance_loop cp False
                 (RbNode 0 (BECOME_BLACK (plug1 p x)) vg (BECOME_BLACK (copy_node cp y))) sp
             else do {
               (n, up) \<leftarrow> (case p of
                   InRight _ _ _ \<Rightarrow> map_option (\<lambda>n. (n, is_new)) (rbnode_rotate_left_ctive cp is_new (plug1 p x))
                 | InLeft _ _ _ \<Rightarrow> Some (plug1 p x, False));
               n \<leftarrow> rbnode_rotate_right_ctive cp up (RbNode 0 (BECOME_BLACK n) vg y);
               Some (plug n sp)
             }
         | InRight bg y vg \<Rightarrow>
             if is_red_node y then
               rbtree_crebalance_loop cp False
                 (RbNode 0 (BECOME_BLACK (copy_node cp y)) vg (BECOME_BLACK (plug1 p x))) sp
             else do {
               (n, up) \<leftarrow> (case p of
                   InLeft _ _ _ \<Rightarrow> map_option (\<lambda>n. (n, is_new)) (rbnode_rotate_right_ctive cp is_new (plug1 p x))
                 | InRight _ _ _ \<Rightarrow> Some (plug1 p x, False));
               n \<leftarrow> rbnode_rotate_left_ctive cp up (RbNode 0 y vg (BECOME_BLACK n));
               Some (plug n sp)
             }))"

definition cucon_rbtree_cinsert1m_mem ::
    "('a \<Rightarrow> int) \<Rightarrow> ('a \<Rightarrow> 'a) \<Rightarrow> 'a \<Rightarrow> 'a rbtree \<Rightarrow> (bool \<times> 'a \<times> 'a rbtree) option" where
  "cucon_rbtree_cinsert1m_mem slot_compare node_new_copy new tree =
     (let tree_size = cucon_rbtree_size tree in
      do {
        stack_size \<leftarrow> rb_stack_size tree_size;
        (if rb_root tree = RbNull then Some (True, new, tree\<lparr>rb_root := RbNode 1 RbNull new RbNull\<rparr>)
         else if \<not> IS_BLACK (rb_root tree) then None
         else do {
           (x, sp) \<leftarrow> rbtree_descend stack_size slot_compare (rb_root tree) [];
           (case x of
              RbNode b l v r \<Rightarrow> if is_black (rb_root tree) = tree_size then Some (False, v, tree) else None
            | RbNull \<Rightarrow>
                if stack_size < length sp + 2 then None
                else if length sp \<ge> 2 \<and> \<not> length sp - 1 < stack_size - 2 then None
                else do {
                  root \<leftarrow> rbtree_crebalance_loop node_new_copy True (RbNode 0 RbNull new RbNull)
                             (map (copy_crumb node_new_copy) sp);
                  Some (True, new, tree\<lparr>rb_root := set_black (tree_size + 1) root\<rparr>)
                })
         })
      })"

text \<open>On pointers, the result is the new value of \<open>*ptr_io\<close>.\<close>

definition cucon_rbtree_cinsert2p_ptr ::
    "('k \<Rightarrow> 'k \<Rightarrow> int) \<Rightarrow> 'k \<Rightarrow> ('k \<times> unit) rbtree \<Rightarrow> (bool \<times> 'k \<times> ('k \<times> unit) rbtree) option" where
  "cucon_rbtree_cinsert2p_ptr ptr_compare ptr tree =
     (case cucon_rbtree_cinsert1m_mem (\<lambda>slot. ptr_compare ptr (fst slot)) (\<lambda>slot. slot) (ptr, ()) tree of
        None \<Rightarrow> None
      | Some (True, slot, tree) \<Rightarrow> Some (True, ptr, tree)
      | Some (False, slot, tree) \<Rightarrow> Some (False, fst slot, tree))"

text \<open>Slots of bytes that start with their key; the memory after the key is zero.\<close>

definition cucon_rbtree_insert_imem_ctive ::
    "nat \<Rightarrow> u8 list \<Rightarrow> nat \<Rightarrow> u8 list rbtree \<Rightarrow> (bool \<times> u8 list \<times> u8 list rbtree) option" where
  "cucon_rbtree_insert_imem_ctive key_size key slot_size tree =
     cucon_rbtree_cinsert1m_mem (memcmp key_size key) (\<lambda>slot. take slot_size slot)
       (take key_size key @ replicate (slot_size - key_size) 0) tree"

section \<open>Erasure\<close>

text \<open>
  The rebalancing loop: \<open>x\<close>, possibly null, is \<open>sp[0]\<close> and its side of the parent lacks a black
  node. \<open>rbtree_erase_left\<close> is the part of the loop body after the sibling was made black, for a left child \<open>x\<close> of a
  parent with colour \<open>bp\<close> and slot \<open>vp\<close>, with sibling \<open>y\<close>; \<open>rbtree_erase_right\<close> is its mirror image.
\<close>

function (sequential)
    rbtree_erase_loop :: "nat \<Rightarrow> 'a rbnode \<Rightarrow> 'a crumb list \<Rightarrow> 'a rbnode option"
  and rbtree_erase_left :: "nat \<Rightarrow> 'a rbnode \<Rightarrow> u64 \<Rightarrow> 'a \<Rightarrow> 'a rbnode \<Rightarrow> 'a crumb list \<Rightarrow> 'a rbnode option"
  and rbtree_erase_right :: "nat \<Rightarrow> 'a rbnode \<Rightarrow> u64 \<Rightarrow> 'a \<Rightarrow> 'a rbnode \<Rightarrow> 'a crumb list \<Rightarrow> 'a rbnode option" where
  "rbtree_erase_loop stack_size x [] = Some (BECOME_BLACK x)"
| "rbtree_erase_loop stack_size x (p # sp) =
     (if is_red_node x then Some (plug (BECOME_BLACK x) (p # sp))
      else
        (case p of
           InLeft bp vp y \<Rightarrow>
             (case y of
                RbNull \<Rightarrow> None
              | RbNode by yl yv yr \<Rightarrow>
                  if by = 0 then
                    (if stack_size < length (p # sp) + 3 then None
                     else rbtree_erase_left stack_size x 0 vp yl (InLeft 1 yv yr # sp))
                  else rbtree_erase_left stack_size x bp vp y sp)
         | InRight bp y vp \<Rightarrow>
             (case y of
                RbNull \<Rightarrow> None
              | RbNode by yl yv yr \<Rightarrow>
                  if by = 0 then
                    (if stack_size < length (p # sp) + 3 then None
                     else rbtree_erase_right stack_size x 0 vp yr (InRight 1 yl yv # sp))
                  else rbtree_erase_right stack_size x bp vp y sp)))"
| "rbtree_erase_left stack_size x bp vp RbNull sp = None"
| "rbtree_erase_left stack_size x bp vp (RbNode by yl yv yr) sp =
     (if \<not> is_red_node yl \<and> \<not> is_red_node yr then
        rbtree_erase_loop stack_size (RbNode bp x vp (RbNode 0 yl yv yr)) sp
      else do {
        y \<leftarrow> (if \<not> is_red_node yr then rbnode_rotate_right (RbNode 0 (BECOME_BLACK yl) yv yr)
             else Some (RbNode by yl yv yr));
        n \<leftarrow> (case y of
               RbNull \<Rightarrow> None
             | RbNode _ yl yv yr \<Rightarrow> rbnode_rotate_left (RbNode 1 x vp (RbNode bp yl yv (BECOME_BLACK yr))));
        Some (BECOME_BLACK (plug n sp))
      })"
| "rbtree_erase_right stack_size x bp vp RbNull sp = None"
| "rbtree_erase_right stack_size x bp vp (RbNode by yl yv yr) sp =
     (if \<not> is_red_node yr \<and> \<not> is_red_node yl then
        rbtree_erase_loop stack_size (RbNode bp (RbNode 0 yl yv yr) vp x) sp
      else do {
        y \<leftarrow> (if \<not> is_red_node yl then rbnode_rotate_left (RbNode 0 yl yv (BECOME_BLACK yr))
             else Some (RbNode by yl yv yr));
        n \<leftarrow> (case y of
               RbNull \<Rightarrow> None
             | RbNode _ yl yv yr \<Rightarrow> rbnode_rotate_right (RbNode 1 (RbNode bp (BECOME_BLACK yl) yv yr) vp x));
        Some (BECOME_BLACK (plug n sp))
      })"
  by pat_completeness auto

text \<open>After the sibling was red, the parent is, and the loop ends at it: the path does not grow twice.\<close>

termination
  by (relation "measure (\<lambda>args. case args of
        Inl (stack_size, x, sp) \<Rightarrow> 4 * length sp + (if is_red_node x then 0 else 2)
      | Inr (Inl (stack_size, x, bp, vp, y, sp)) \<Rightarrow> 4 * length sp + (if bp = 0 then 1 else 3)
      | Inr (Inr (stack_size, x, bp, vp, y, sp)) \<Rightarrow> 4 * length sp + (if bp = 0 then 1 else 3))")
    (auto simp: is_red_node_def IS_BLACK_def)

text \<open>
  The leftmost node of a nonempty subtree, with its colour, slot and right child and the path to
  it; \<open>depth\<close> crumbs lie above the subtree.
\<close>

fun rbtree_leftmost ::
    "nat \<Rightarrow> nat \<Rightarrow> 'a rbnode \<Rightarrow> 'a crumb list \<Rightarrow> (u64 \<times> 'a \<times> 'a rbnode \<times> 'a crumb list) option" where
  "rbtree_leftmost stack_size depth RbNull sp = None"
| "rbtree_leftmost stack_size depth (RbNode b l v r) sp =
     (if stack_size < depth + length sp + 2 then None
      else if l = RbNull then Some (b, v, r, sp)
      else rbtree_leftmost stack_size depth l (InLeft b v r # sp))"

text \<open>\<open>_rbtree_erase\<close> for the node \<open>z\<close> below the path \<open>sp\<close>; the result is the new root.\<close>

fun rbtree_erase_node :: "nat \<Rightarrow> 'a rbnode \<Rightarrow> 'a crumb list \<Rightarrow> 'a rbnode option" where
  "rbtree_erase_node stack_size RbNull sp = None"
| "rbtree_erase_node stack_size (RbNode bz zl zv zr) sp =
     do {
       (x, sp, is_unbalanced) \<leftarrow>
         (if zl = RbNull then Some (zr, sp, bz \<noteq> 0)
          else if zr = RbNull then Some (zl, sp, bz \<noteq> 0)
          else do {
            (yb, yv, yr, path) \<leftarrow> rbtree_leftmost stack_size (length sp + 1) zr [];
            Some (yr, path @ InRight bz zl yv # sp, yb \<noteq> 0)
          });
       (if is_unbalanced then rbtree_erase_loop stack_size x sp
        else Some (plug (BECOME_BLACK x) sp))
     }"

definition rbtree_erase :: "('a \<Rightarrow> int) \<Rightarrow> 'a rbtree \<Rightarrow> ('a option \<times> 'a rbtree) option" where
  "rbtree_erase compare tree =
     (let tree_size = cucon_rbtree_size tree in
      do {
        stack_size \<leftarrow> rb_stack_size tree_size;
        (z, sp) \<leftarrow> rbtree_descend stack_size compare (rb_root tree) [];
        (case z of
           RbNull \<Rightarrow> Some (None, tree)
         | RbNode b l v r \<Rightarrow> do {
             root \<leftarrow> rbtree_erase_node stack_size z sp;
             Some (Some v, tree\<lparr>rb_root := set_black (tree_size - 1) root\<rparr>)
           })
      })"

definition cucon_rbtree_erase1m :: "('a \<Rightarrow> int) \<Rightarrow> 'a rbtree \<Rightarrow> ('a option \<times> 'a rbtree) option" where
  "cucon_rbtree_erase1m compare tree = rbtree_erase compare tree"

definition cucon_rbtree_erase2p ::
    "('k \<Rightarrow> 'k \<Rightarrow> int) \<Rightarrow> 'k \<Rightarrow> ('k \<times> 'v) rbtree \<Rightarrow> (('k \<times> 'v) option \<times> ('k \<times> 'v) rbtree) option" where
  "cucon_rbtree_erase2p compare key tree = rbtree_erase (\<lambda>slot. compare key (fst slot)) tree"

section \<open>Lookup\<close>

fun rbnode_find :: "('a \<Rightarrow> int) \<Rightarrow> 'a rbnode \<Rightarrow> 'a option" where
  "rbnode_find compare RbNull = None"
| "rbnode_find compare (RbNode b l v r) =
     (let cmp = compare v in
      if cmp < 0 then rbnode_find compare l
      else if cmp > 0 then rbnode_find compare r
      else Some v)"

definition cucon_rbtree_find1m_mem :: "'a rbtree \<Rightarrow> ('a \<Rightarrow> int) \<Rightarrow> 'a option" where
  "cucon_rbtree_find1m_mem tree compare = rbnode_find compare (rb_root tree)"

definition cucon_rbtree_find2p_node :: "('k \<times> 'v) rbtree \<Rightarrow> ('k \<Rightarrow> 'k \<Rightarrow> int) \<Rightarrow> 'k \<Rightarrow> ('k \<times> 'v) option" where
  "cucon_rbtree_find2p_node tree compare key = rbnode_find (\<lambda>slot. compare key (fst slot)) (rb_root tree)"

definition cucon_rbtree_find2p_ptr :: "('k \<times> 'v) rbtree \<Rightarrow> ('k \<Rightarrow> 'k \<Rightarrow> int) \<Rightarrow> 'k \<Rightarrow> 'k option" where
  "cucon_rbtree_find2p_ptr tree compare key =
     map_option fst (rbnode_find (\<lambda>slot. compare key (fst slot)) (rb_root tree))"

fun rb_last :: "'a rbnode \<Rightarrow> 'a option \<Rightarrow> 'a option" where
  "rb_last RbNull below = below"
| "rb_last (RbNode b l v r) below = rb_last r (Some v)"

fun rb_first :: "'a rbnode \<Rightarrow> 'a option \<Rightarrow> 'a option" where
  "rb_first RbNull abv = abv"
| "rb_first (RbNode b l v r) abv = rb_first l (Some v)"

fun rbnode_nearest ::
    "('a \<Rightarrow> int) \<Rightarrow> 'a rbnode \<Rightarrow> 'a option \<Rightarrow> 'a option \<Rightarrow> 'a option \<times> 'a option \<times> 'a option" where
  "rbnode_nearest cmp2 RbNull below abv = (below, None, abv)"
| "rbnode_nearest cmp2 (RbNode b l v r) below abv =
     (let cmp = cmp2 v in
      if cmp < 0 then rbnode_nearest cmp2 l below (Some v)
      else if cmp > 0 then rbnode_nearest cmp2 r (Some v) abv
      else (rb_last l below, Some v, rb_first r abv))"

text \<open>The nodes below, equal to and above a key.\<close>

definition cucon_rbtree_nearest2p ::
    "('k \<times> 'v) rbtree \<Rightarrow> ('k \<Rightarrow> 'k \<Rightarrow> int) \<Rightarrow> 'k \<Rightarrow>
     ('k \<times> 'v) option \<times> ('k \<times> 'v) option \<times> ('k \<times> 'v) option" where
  "cucon_rbtree_nearest2p tree cmp2 key =
     rbnode_nearest (\<lambda>slot. cmp2 key (fst slot)) (rb_root tree) None None"

section \<open>Iteration\<close>

text \<open>Callbacks pass a state. The functions on pointers pass the first word of a slot.\<close>

fun rbnode_iter :: "('a \<Rightarrow> 's \<Rightarrow> 's) \<Rightarrow> 'a rbnode \<Rightarrow> 's \<Rightarrow> 's" where
  "rbnode_iter cb RbNull s = s"
| "rbnode_iter cb (RbNode b l v r) s = rbnode_iter cb r (cb v (rbnode_iter cb l s))"

fun rbnode_rev_iter :: "('a \<Rightarrow> 's \<Rightarrow> 's) \<Rightarrow> 'a rbnode \<Rightarrow> 's \<Rightarrow> 's" where
  "rbnode_rev_iter cb RbNull s = s"
| "rbnode_rev_iter cb (RbNode b l v r) s = rbnode_rev_iter cb l (cb v (rbnode_rev_iter cb r s))"

fun rbnode_conj :: "('a \<Rightarrow> 's \<Rightarrow> bool \<times> 's) \<Rightarrow> 'a rbnode \<Rightarrow> 's \<Rightarrow> bool \<times> 's" where
  "rbnode_conj cb RbNull s = (True, s)"
| "rbnode_conj cb (RbNode b l v r) s =
     (case rbnode_conj cb l s of
        (False, s) \<Rightarrow> (False, s)
      | (True, s) \<Rightarrow> (case cb v s of (False, s) \<Rightarrow> (False, s) | (True, s) \<Rightarrow> rbnode_conj cb r s))"

fun rbnode_rev_conj :: "('a \<Rightarrow> 's \<Rightarrow> bool \<times> 's) \<Rightarrow> 'a rbnode \<Rightarrow> 's \<Rightarrow> bool \<times> 's" where
  "rbnode_rev_conj cb RbNull s = (True, s)"
| "rbnode_rev_conj cb (RbNode b l v r) s =
     (case rbnode_rev_conj cb r s of
        (False, s) \<Rightarrow> (False, s)
      | (True, s) \<Rightarrow> (case cb v s of (False, s) \<Rightarrow> (False, s) | (True, s) \<Rightarrow> rbnode_rev_conj cb l s))"

definition cucon_rbtree_iter_mem :: "'a rbtree \<Rightarrow> ('a \<Rightarrow> 's \<Rightarrow> 's) \<Rightarrow> 's \<Rightarrow> 's" where
  "cucon_rbtree_iter_mem tree cb = rbnode_iter cb (rb_root tree)"

definition cucon_rbtree_iter_ptr :: "('k \<times> 'v) rbtree \<Rightarrow> ('k \<Rightarrow> 's \<Rightarrow> 's) \<Rightarrow> 's \<Rightarrow> 's" where
  "cucon_rbtree_iter_ptr tree cb = rbnode_iter (\<lambda>slot. cb (fst slot)) (rb_root tree)"

definition cucon_rbtree_rev_iter_mem :: "'a rbtree \<Rightarrow> ('a \<Rightarrow> 's \<Rightarrow> 's) \<Rightarrow> 's \<Rightarrow> 's" where
  "cucon_rbtree_rev_iter_mem tree cb = rbnode_rev_iter cb (rb_root tree)"

definition cucon_rbtree_rev_iter_ptr :: "('k \<times> 'v) rbtree \<Rightarrow> ('k \<Rightarrow> 's \<Rightarrow> 's) \<Rightarrow> 's \<Rightarrow> 's" where
  "cucon_rbtree_rev_iter_ptr tree cb = rbnode_rev_iter (\<lambda>slot. cb (fst slot)) (rb_root tree)"

definition cucon_rbtree_conj_mem :: "'a rbtree \<Rightarrow> ('a \<Rightarrow> 's \<Rightarrow> bool \<times> 's) \<Rightarrow> 's \<Rightarrow> bool \<times> 's" where
  "cucon_rbtree_conj_mem tree cb = rbnode_conj cb (rb_root tree)"

definition cucon_rbtree_conj_ptr :: "('k \<times> 'v) rbtree \<Rightarrow> ('k \<Rightarrow> 's \<Rightarrow> bool \<times> 's) \<Rightarrow> 's \<Rightarrow> bool \<times> 's" where
  "cucon_rbtree_conj_ptr tree cb = rbnode_conj (\<lambda>slot. cb (fst slot)) (rb_root tree)"

definition cucon_rbtree_rev_conj_mem :: "'a rbtree \<Rightarrow> ('a \<Rightarrow> 's \<Rightarrow> bool \<times> 's) \<Rightarrow> 's \<Rightarrow> bool \<times> 's" where
  "cucon_rbtree_rev_conj_mem tree cb = rbnode_rev_conj cb (rb_root tree)"

definition cucon_rbtree_rev_conj_ptr :: "('k \<times> 'v) rbtree \<Rightarrow> ('k \<Rightarrow> 's \<Rightarrow> bool \<times> 's) \<Rightarrow> 's \<Rightarrow> bool \<times> 's" where
  "cucon_rbtree_rev_conj_ptr tree cb = rbnode_rev_conj (\<lambda>slot. cb (fst slot)) (rb_root tree)"

text \<open>
  Merging calls \<open>cucon_rbtree_insert2p_ptr\<close> with each value of the source in place of the address of a
  pointer, so that the word \<open>load value\<close> it points to is the key that is inserted. (Storing the
  key back there changes nothing.) Both functions do the same.
\<close>

definition merge_ptr_cb ::
    "('k \<Rightarrow> 'k) \<Rightarrow> ('k \<Rightarrow> 'k \<Rightarrow> int) \<Rightarrow> 'k \<Rightarrow> ('k \<times> unit) rbtree option \<Rightarrow> ('k \<times> unit) rbtree option" where
  "merge_ptr_cb load cmp value dst =
     do { dst \<leftarrow> dst; (_, _, dst) \<leftarrow> cucon_rbtree_insert2p_ptr cmp (load value) dst; Some dst }"

definition cucon_rbtree_merge2p ::
    "('k \<Rightarrow> 'k) \<Rightarrow> ('k \<times> unit) rbtree \<Rightarrow> ('k \<times> unit) rbtree \<Rightarrow> ('k \<Rightarrow> 'k \<Rightarrow> int) \<Rightarrow> ('k \<times> unit) rbtree option" where
  "cucon_rbtree_merge2p load dst src cmp = cucon_rbtree_iter_ptr src (merge_ptr_cb load cmp) (Some dst)"

definition cucon_rbtree_cmerge2p ::
    "('k \<Rightarrow> 'k) \<Rightarrow> ('k \<times> unit) rbtree \<Rightarrow> ('k \<times> unit) rbtree \<Rightarrow> ('k \<Rightarrow> 'k \<Rightarrow> int) \<Rightarrow> ('k \<times> unit) rbtree option" where
  "cucon_rbtree_cmerge2p load dst src cmp = cucon_rbtree_iter_ptr src (merge_ptr_cb load cmp) (Some dst)"

end
