(* ===== verification/RbtreeInv.thy ===== *)
theory RbtreeInv
  imports Rbtree
begin

text \<open>
  The invariants of \<^verbatim>\<open>cucon/rbtree.c\<close>: every path from a node to a null pointer has the same
  number of black nodes and no red node has a red child. They are stated for subtrees and for the
  path above a subtree, so that one equivalence, \<open>plug_inv\<close>, carries them up and down the stack.
\<close>

section \<open>Invariants\<close>

fun rb_count :: "'a rbnode \<Rightarrow> nat" where
  "rb_count RbNull = 0"
| "rb_count (RbNode b l v r) = Suc (rb_count l + rb_count r)"

fun rb_inorder :: "'a rbnode \<Rightarrow> 'a list" where
  "rb_inorder RbNull = []"
| "rb_inorder (RbNode b l v r) = rb_inorder l @ v # rb_inorder r"

fun rb_height :: "'a rbnode \<Rightarrow> nat" where
  "rb_height RbNull = 0"
| "rb_height (RbNode b l v r) = Suc (max (rb_height l) (rb_height r))"

definition black_step :: "u64 \<Rightarrow> nat" where
  "black_step b = (if b = 0 then 0 else 1)"

fun black_height :: "'a rbnode \<Rightarrow> nat" where
  "black_height RbNull = 0"
| "black_height (RbNode b l v r) = black_step b + black_height l"

fun balanced :: "'a rbnode \<Rightarrow> bool" where
  "balanced RbNull \<longleftrightarrow> True"
| "balanced (RbNode b l v r) \<longleftrightarrow>
     balanced l \<and> balanced r \<and> black_height l = black_height r \<and>
     (b = 0 \<longrightarrow> \<not> is_red_node l \<and> \<not> is_red_node r)"

text \<open>The path above a subtree of black height \<open>h\<close>, which is red or not.\<close>

fun balanced_path :: "nat \<Rightarrow> bool \<Rightarrow> 'a crumb list \<Rightarrow> bool" where
  "balanced_path h red [] \<longleftrightarrow> True"
| "balanced_path h red (InLeft b v r # sp) \<longleftrightarrow>
     balanced r \<and> black_height r = h \<and> (b = 0 \<longrightarrow> \<not> red \<and> \<not> is_red_node r) \<and>
     balanced_path (black_step b + h) (b = 0) sp"
| "balanced_path h red (InRight b l v # sp) \<longleftrightarrow>
     balanced l \<and> black_height l = h \<and> (b = 0 \<longrightarrow> \<not> red \<and> \<not> is_red_node l) \<and>
     balanced_path (black_step b + h) (b = 0) sp"

fun path_left :: "'a crumb list \<Rightarrow> 'a list" where
  "path_left [] = []"
| "path_left (InLeft b v r # sp) = path_left sp"
| "path_left (InRight b l v # sp) = path_left sp @ rb_inorder l @ [v]"

fun path_right :: "'a crumb list \<Rightarrow> 'a list" where
  "path_right [] = []"
| "path_right (InLeft b v r # sp) = v # rb_inorder r @ path_right sp"
| "path_right (InRight b l v # sp) = path_right sp"

text \<open>The root has the number of nodes in place of its colour.\<close>

definition rb_wf :: "'a rbtree \<Rightarrow> bool" where
  "rb_wf tree \<longleftrightarrow>
     balanced (rb_root tree) \<and> rb_count (rb_root tree) < 2 ^ 64 \<and>
     cucon_rbtree_size tree = of_nat (rb_count (rb_root tree))"

named_theorems rb_simps \<open>colours, heights and contents of changed nodes\<close>

lemma is_red_node_simps [simp]:
  "is_red_node RbNull = False" "is_red_node (RbNode b l v r) \<longleftrightarrow> b = 0"
  by (simp_all add: is_red_node_def IS_BLACK_def)

lemma IS_BLACK_simp [simp]: "IS_BLACK (RbNode b l v r) \<longleftrightarrow> b \<noteq> 0"
  by (simp add: IS_BLACK_def)

lemma black_step_simps [simp]: "black_step 0 = 0" "b \<noteq> 0 \<Longrightarrow> black_step b = 1"
  by (simp_all add: black_step_def)

lemma set_black_contents [simp]:
  "rb_inorder (set_black c t) = rb_inorder t" "rb_count (set_black c t) = rb_count t"
  "set_black c t = RbNull \<longleftrightarrow> t = RbNull"
  by (cases t; simp)+

lemma is_red_set_black [simp]: "is_red_node (set_black c t) \<longleftrightarrow> t \<noteq> RbNull \<and> c = 0"
  by (cases t) simp_all

lemma balanced_BECOME_BLACK [simp]: "balanced t \<Longrightarrow> c \<noteq> 0 \<Longrightarrow> balanced (set_black c t)"
  by (cases t) auto

lemma black_height_set_black:
  "c \<noteq> 0 \<Longrightarrow> black_height (set_black c t) = (if is_red_node t then Suc (black_height t) else black_height t)"
  by (cases t) auto

lemma red_nodeE:
  assumes "is_red_node t"
  obtains l v r where "t = RbNode 0 l v r"
  using assms by (cases t) auto

lemma length_rb_inorder [simp]: "length (rb_inorder t) = rb_count t"
  by (induction t) auto

lemma plug_inorder [simp]: "rb_inorder (plug t sp) = path_left sp @ rb_inorder t @ path_right sp"
proof (induction sp arbitrary: t)
  case (Cons p sp)
  then show ?case by (cases p) simp_all
qed simp

lemma plug_append [simp]: "plug t (sp @ sp') = plug (plug t sp) sp'"
  by (induction sp arbitrary: t) simp_all

text \<open>A tree is balanced when a subtree and the path above it are.\<close>

lemma plug_inv:
  "balanced (plug t sp) \<longleftrightarrow> balanced t \<and> balanced_path (black_height t) (is_red_node t) sp"
proof (induction sp arbitrary: t)
  case (Cons p sp)
  show ?case by (cases p) (auto simp: Cons.IH)
qed simp

lemma balanced_path_mono: "balanced_path h red sp \<Longrightarrow> (red' \<Longrightarrow> red) \<Longrightarrow> balanced_path h red' sp"
proof (cases sp)
  case (Cons p qs)
  then show "balanced_path h red sp \<Longrightarrow> (red' \<Longrightarrow> red) \<Longrightarrow> balanced_path h red' sp"
    by (cases p) auto
qed simp

lemma plug_eq_RbNull [simp]: "plug t sp = RbNull \<longleftrightarrow> t = RbNull \<and> sp = []"
proof (induction sp arbitrary: t)
  case (Cons p sp)
  then show ?case by (cases p) simp_all
qed simp

section \<open>Heights\<close>

lemma unat_of_nat_u64: "n < 2 ^ 64 \<Longrightarrow> unat (of_nat n :: u64) = n"
  by (simp add: unat_of_nat)

lemma rb_height_black_height:
  "balanced t \<Longrightarrow> rb_height t \<le> 2 * black_height t + (if is_red_node t then 1 else 0)"
proof (induction t)
  case (RbNode b l v r)
  then show ?case by (auto simp: black_step_def split: if_splits)
qed simp

lemma count_black_height: "balanced t \<Longrightarrow> 2 ^ black_height t \<le> Suc (rb_count t)"
proof (induction t)
  case (RbNode b l v r)
  then have "2 ^ black_height l \<le> Suc (rb_count l)" "2 ^ black_height r \<le> Suc (rb_count r)"
    "black_height l = black_height r"
    by auto
  then show ?case by (auto simp: black_step_def)
qed simp

text \<open>The logarithm in the size of the stack bounds the black height.\<close>

lemma floor_log2_ge:
  assumes "cu_uint64_floor_log2 x = Some l" and "2 ^ k \<le> unat x"
  shows "k \<le> unat l"
proof -
  have "is_floor_log2 (unat x) (unat l)"
    using assms(1) p_uint64_floor_log2_correct [of x]
    by (auto simp: cu_uint64_floor_log2_def split: if_splits)
  then have "unat x < 2 ^ Suc (unat l)"
    by (simp add: is_floor_log2_def)
  then have "(2::nat) ^ k < 2 ^ Suc (unat l)"
    using assms(2) by simp
  then have "k < Suc (unat l)"
    by (rule power_less_imp_less_exp [rotated]) simp
  then show ?thesis by simp
qed

lemma rb_wf_root_black:
  assumes "rb_wf tree"
  shows "\<not> is_red_node (rb_root tree)"
proof
  let ?t = "rb_root tree"
  assume "is_red_node ?t"
  then obtain a v r where t: "?t = RbNode 0 a v r" by (rule red_nodeE)
  then have "of_nat (rb_count ?t) = (0 :: u64)"
    using assms by (simp add: cucon_rbtree_size_def rb_wf_def)
  then have "rb_count ?t = 0"
    using assms unat_of_nat_u64 [of "rb_count ?t"] by (simp add: rb_wf_def)
  then show False by (simp add: t)
qed

lemma rb_stack_size_bound:
  assumes "rb_wf tree" and "rb_count (rb_root tree) + 1 < 2 ^ 64"
  obtains n where "rb_stack_size (cucon_rbtree_size tree) = Some n"
    and "rb_height (rb_root tree) + 3 \<le> n"
proof -
  let ?t = "rb_root tree" and ?x = "cucon_rbtree_size tree + 1"
  have size: "cucon_rbtree_size tree = of_nat (rb_count ?t)" and bal: "balanced ?t"
    using assms(1) by (simp_all add: rb_wf_def)
  have "unat (of_nat (rb_count ?t + 1) :: u64) = rb_count ?t + 1"
    by (rule unat_of_nat_u64) (rule assms(2))
  then have x: "unat ?x = rb_count ?t + 1"
    by (simp add: size add.commute)
  then have "?x \<noteq> 0"
    by (metis Suc_eq_plus1 nat.distinct(1) unat_0)
  then obtain l where l: "cu_uint64_floor_log2 ?x = Some l"
    by (auto simp: cu_uint64_floor_log2_def word_gt_0)
  have "black_height ?t \<le> unat l"
    using count_black_height [OF bal] by (intro floor_log2_ge [OF l]) (simp add: x)
  moreover have "\<not> is_red_node ?t"
    using assms(1) by (rule rb_wf_root_black)
  ultimately have "rb_height ?t + 3 \<le> 2 * unat l + 3"
    using rb_height_black_height [OF bal] by simp
  then show ?thesis
    using that [of "2 * unat l + 3"] l by (simp add: rb_stack_size_def)
qed

end
