(* ===== verification/RbtreeInsert.thy ===== *)
theory RbtreeInsert
  imports RbtreeInv
begin

text \<open>
  Insertion into the trees of \<^verbatim>\<open>cucon/rbtree.c\<close>: the rebalancing restores the invariants, the
  descent finds the place that the comparisons name, and the stack allocated for the path suffices.
\<close>

section \<open>Rebalancing\<close>

lemma recolour_left:
  assumes "balanced x" "is_red_node x" "balanced_path (black_height x) False (p # InLeft bg vg y # sp)"
    and "is_red_node y" and "crumb_black p = 0"
  defines "n \<equiv> RbNode 0 (BECOME_BLACK (plug1 p x)) vg (BECOME_BLACK y)"
  shows "balanced n" "balanced_path (black_height n) False sp"
    "rb_inorder (plug n sp) = rb_inorder (plug x (p # InLeft bg vg y # sp))"
  using assms(1-5) unfolding n_def by (cases p; auto simp: black_height_set_black)+

lemma recolour_right:
  assumes "balanced x" "is_red_node x" "balanced_path (black_height x) False (p # InRight bg y vg # sp)"
    and "is_red_node y" and "crumb_black p = 0"
  defines "n \<equiv> RbNode 0 (BECOME_BLACK y) vg (BECOME_BLACK (plug1 p x))"
  shows "balanced n" "balanced_path (black_height n) False sp"
    "rb_inorder (plug n sp) = rb_inorder (plug x (p # InRight bg y vg # sp))"
  using assms(1-5) unfolding n_def by (cases p; auto simp: black_height_set_black)+

text \<open>The rotations of the last step, in the form the loop has them.\<close>

lemma rotate_below_left:
  assumes "balanced x" "is_red_node x" "balanced_path (black_height x) False (p # InLeft bg vg y # sp)"
    and "\<not> is_red_node y" and "crumb_black p = 0"
  shows "\<exists>n n'.
    (case p of InRight _ _ _ \<Rightarrow> rbnode_rotate_left (plug1 p x) | InLeft _ _ _ \<Rightarrow> Some (plug1 p x)) = Some n \<and>
    rbnode_rotate_right (RbNode 0 (BECOME_BLACK n) vg y) = Some n' \<and> balanced (plug n' sp) \<and>
    rb_inorder (plug n' sp) = rb_inorder (plug x (p # InLeft bg vg y # sp))"
  using assms by (cases p; cases x) (auto simp: plug_inv)

lemma rotate_below_right:
  assumes "balanced x" "is_red_node x" "balanced_path (black_height x) False (p # InRight bg y vg # sp)"
    and "\<not> is_red_node y" and "crumb_black p = 0"
  shows "\<exists>n n'.
    (case p of InLeft _ _ _ \<Rightarrow> rbnode_rotate_right (plug1 p x) | InRight _ _ _ \<Rightarrow> Some (plug1 p x)) = Some n \<and>
    rbnode_rotate_left (RbNode 0 y vg (BECOME_BLACK n)) = Some n' \<and> balanced (plug n' sp) \<and>
    rb_inorder (plug n' sp) = rb_inorder (plug x (p # InRight bg y vg # sp))"
  using assms by (cases p; cases x) (auto simp: plug_inv)

lemma black_crumb_path:
  assumes "balanced_path h False (p # sp)" and "crumb_black p \<noteq> 0"
  shows "balanced_path h red (p # sp)"
  using assms by (cases p) auto

lemma rebalance_loop_correct:
  assumes "balanced x" "is_red_node x" "balanced_path (black_height x) False sp"
    and "sp \<noteq> [] \<Longrightarrow> crumb_black (last sp) \<noteq> 0"
  shows "\<exists>t. rbtree_rebalance_loop x sp = Some t \<and> balanced t \<and> rb_inorder t = rb_inorder (plug x sp)"
  using assms
proof (induction x sp rule: rbtree_rebalance_loop.induct)
  case (1 x)
  then show ?case by simp
next
  case (2 x p)
  have "crumb_black p \<noteq> 0" using "2.prems"(4) by simp
  moreover from this have "balanced (plug x [p])"
    using "2.prems"(1) black_crumb_path [OF "2.prems"(3)] unfolding plug_inv by blast
  ultimately show ?case by simp
next
  case (3 x p g sp)
  show ?case
  proof (cases "crumb_black p = 0")
    case False
    then have "balanced (plug x (p # g # sp))"
      using "3.prems"(1) black_crumb_path [OF "3.prems"(3)] unfolding plug_inv by blast
    then show ?thesis using False by simp
  next
    case p: True
    have last: "sp \<noteq> [] \<Longrightarrow> crumb_black (last sp) \<noteq> 0"
      using "3.prems"(4) by simp
    show ?thesis
    proof (cases g)
      case g: (InLeft bg vg y)
      show ?thesis
      proof (cases "is_red_node y")
        case True
        note step = recolour_left [OF "3.prems"(1,2) "3.prems"(3) [unfolded g] True p]
        show ?thesis
          using "3.IH"(1) [OF _ g True step(1) _ step(2) last] step(3) p True
          by (simp add: g del: plug.simps plug_inorder)
      next
        case False
        show ?thesis
          using rotate_below_left [OF "3.prems"(1,2) "3.prems"(3) [unfolded g] False p] p False
          by (auto simp: g simp del: plug.simps plug_inorder)
      qed
    next
      case g: (InRight bg y vg)
      show ?thesis
      proof (cases "is_red_node y")
        case True
        note step = recolour_right [OF "3.prems"(1,2) "3.prems"(3) [unfolded g] True p]
        show ?thesis
          using "3.IH"(2) [OF _ g True step(1) _ step(2) last] step(3) p True
          by (simp add: g del: plug.simps plug_inorder)
      next
        case False
        show ?thesis
          using rotate_below_right [OF "3.prems"(1,2) "3.prems"(3) [unfolded g] False p] p False
          by (auto simp: g simp del: plug.simps plug_inorder)
      qed
    qed
  qed
qed

section \<open>Descent\<close>

text \<open>
  A comparison with one key fits a list of slots when the slots for which it is positive come
  first, then at most one for which it is zero, then those for which it is negative.
\<close>

definition key_cut :: "('a \<Rightarrow> int) \<Rightarrow> 'a list \<Rightarrow> bool" where
  "key_cut compare xs \<longleftrightarrow> sorted_wrt (\<lambda>a b. compare a > 0 \<or> compare b < 0) xs"

lemma key_cut_split:
  assumes "key_cut compare (xs @ v # ys)"
  shows "key_cut compare xs" "key_cut compare ys"
    "compare v \<le> 0 \<Longrightarrow> y \<in> set ys \<Longrightarrow> compare y < 0"
    "compare v \<ge> 0 \<Longrightarrow> x \<in> set xs \<Longrightarrow> compare x > 0"
  using assms by (force simp: key_cut_def sorted_wrt_append)+

lemma takeWhile_below:
  assumes "key_cut compare (xs @ v # ys)" and "compare v < 0"
  shows "takeWhile (\<lambda>a. compare a > 0) (xs @ v # ys) = takeWhile (\<lambda>a. compare a > 0) xs"
    "dropWhile (\<lambda>a. compare a > 0) (xs @ v # ys) = dropWhile (\<lambda>a. compare a > 0) xs @ v # ys"
  using assms(2) by (induction xs) auto

lemma takeWhile_above:
  assumes "key_cut compare (xs @ v # ys)" and "compare v > 0"
  shows "takeWhile (\<lambda>a. compare a > 0) (xs @ v # ys) = xs @ v # takeWhile (\<lambda>a. compare a > 0) ys"
    "dropWhile (\<lambda>a. compare a > 0) (xs @ v # ys) = dropWhile (\<lambda>a. compare a > 0) ys"
  using assms(2) key_cut_split(4) [OF assms(1)] by simp_all

text \<open>The descent ends at the slot that compares equal, or at the null pointer between the others.\<close>

lemma rbtree_descend_found:
  assumes "key_cut compare (rb_inorder t)" and "length sp + rb_height t + 1 \<le> n"
    and "\<exists>v \<in> set (rb_inorder t). compare v = 0"
  shows "\<exists>b l v r sp'. rbtree_descend n compare t sp = Some (RbNode b l v r, sp') \<and>
    compare v = 0 \<and> plug (RbNode b l v r) sp' = plug t sp \<and>
    length sp' + rb_height (RbNode b l v r) \<le> length sp + rb_height t"
  using assms
proof (induction t arbitrary: sp)
  case (RbNode b l v r)
  note cut = key_cut_split [OF RbNode.prems(1) [unfolded rb_inorder.simps]]
  consider "compare v < 0" | "compare v > 0" | "compare v = 0" by linarith
  then show ?case
  proof cases
    case 1
    then have "\<exists>v \<in> set (rb_inorder l). compare v = 0"
      using RbNode.prems(3) cut(3) by fastforce
    from RbNode.IH(1) [OF cut(1) _ this, of "InLeft b v r # sp"] show ?thesis
      using 1 RbNode.prems(2) by fastforce
  next
    case 2
    then have "\<exists>v \<in> set (rb_inorder r). compare v = 0"
      using RbNode.prems(3) cut(4) by fastforce
    from RbNode.IH(2) [OF cut(2) _ this, of "InRight b l v # sp"] show ?thesis
      using 2 RbNode.prems(2) by fastforce
  qed (use RbNode.prems(2) in auto)
qed simp

lemma rbtree_descend_missing:
  assumes "key_cut compare (rb_inorder t)" and "length sp + rb_height t + 1 \<le> n"
    and "\<forall>v \<in> set (rb_inorder t). compare v \<noteq> 0"
  shows "\<exists>sp'. rbtree_descend n compare t sp = Some (RbNull, sp') \<and>
    plug RbNull sp' = plug t sp \<and> length sp' \<le> length sp + rb_height t \<and>
    path_left sp' = path_left sp @ takeWhile (\<lambda>a. compare a > 0) (rb_inorder t) \<and>
    path_right sp' = dropWhile (\<lambda>a. compare a > 0) (rb_inorder t) @ path_right sp"
  using assms
proof (induction t arbitrary: sp)
  case (RbNode b l v r)
  note prem = RbNode.prems(1) [unfolded rb_inorder.simps]
  note cut = key_cut_split [OF prem]
  have ne: "\<forall>v \<in> set (rb_inorder l). compare v \<noteq> 0" "\<forall>v \<in> set (rb_inorder r). compare v \<noteq> 0"
    "compare v \<noteq> 0"
    using RbNode.prems(3) by auto
  show ?case
  proof (cases "compare v < 0")
    case True
    from RbNode.IH(1) [OF cut(1) _ ne(1), of "InLeft b v r # sp"] show ?thesis
      using True RbNode.prems(2) takeWhile_below [OF prem True] by fastforce
  next
    case False
    then have pos: "compare v > 0" using ne(3) by simp
    from RbNode.IH(2) [OF cut(2) _ ne(2), of "InRight b l v # sp"] show ?thesis
      using pos RbNode.prems(2) takeWhile_above [OF prem pos] by fastforce
  qed
qed simp

section \<open>Insertion\<close>

lemma last_crumb_black: "sp \<noteq> [] \<Longrightarrow> is_red_node (plug t sp) \<longleftrightarrow> crumb_black (last sp) = 0"
proof (induction sp arbitrary: t)
  case (Cons p sp)
  then show ?case by (cases "sp = []"; cases p) simp_all
qed simp

lemma key_cut_unique:
  assumes "key_cut compare xs" and "v \<in> set xs" "w \<in> set xs" and "compare v = 0" "compare w = 0"
  shows "v = w"
  using assms by (induction xs) (auto simp: key_cut_def)

text \<open>What insertion does to the list of slots: the slot found or made, and the new list.\<close>

definition list_insert :: "('a \<Rightarrow> int) \<Rightarrow> 'a \<Rightarrow> 'a list \<Rightarrow> bool \<times> 'a \<times> 'a list" where
  "list_insert compare new xs =
     (case find (\<lambda>v. compare v = 0) xs of
        Some v \<Rightarrow> (False, v, xs)
      | None \<Rightarrow> (True, new, takeWhile (\<lambda>v. compare v > 0) xs @ new # dropWhile (\<lambda>v. compare v > 0) xs))"

lemma list_insert_found:
  assumes "key_cut compare xs" and "v \<in> set xs" and "compare v = 0"
  shows "list_insert compare new xs = (False, v, xs)"
proof -
  obtain w where "find (\<lambda>v. compare v = 0) xs = Some w"
    using assms(2,3) by (cases "find (\<lambda>v. compare v = 0) xs") (auto simp: find_None_iff)
  moreover from this have "w \<in> set xs" "compare w = 0"
    by (auto simp: find_Some_iff)
  ultimately show ?thesis
    using key_cut_unique [OF assms(1)] assms(2,3) by (simp add: list_insert_def)
qed

lemma list_insert_missing:
  assumes "\<forall>v \<in> set xs. compare v \<noteq> 0"
  shows "list_insert compare new xs =
    (True, new, takeWhile (\<lambda>v. compare v > 0) xs @ new # dropWhile (\<lambda>v. compare v > 0) xs)"
  using assms by (simp add: list_insert_def find_None_iff [THEN iffD2])

lemma rb_wf_set_black:
  assumes "balanced t" "t \<noteq> RbNull" and "rb_count t < 2 ^ 64"
  shows "rb_wf (tree\<lparr>rb_root := set_black (of_nat (rb_count t)) t\<rparr>)"
proof -
  have "rb_count t \<noteq> 0"
    using assms(2) by (cases t) simp_all
  then have "of_nat (rb_count t) \<noteq> (0 :: u64)"
    using unat_of_nat_u64 [OF assms(3)] by (metis unat_0)
  moreover have "is_black (set_black c t) = c" for c
    using assms(2) by (cases t) simp_all
  ultimately show ?thesis
    using assms by (simp add: rb_wf_def cucon_rbtree_size_def)
qed

lemma rbtree_insert_missing:
  assumes "rb_wf tree" "rb_count (rb_root tree) + 1 < 2 ^ 64"
    and "plug RbNull sp = rb_root tree"
  shows "\<exists>root. rbtree_rebalance_dtive (RbNode 0 RbNull new RbNull) sp = Some root \<and>
    rb_wf (tree\<lparr>rb_root := set_black (cucon_rbtree_size tree + 1) root\<rparr>) \<and>
    rb_inorder root = path_left sp @ new # path_right sp"
proof -
  let ?x = "RbNode 0 RbNull new RbNull :: 'a rbnode"
  have "balanced (plug RbNull sp)"
    using assms(1,3) by (simp add: rb_wf_def)
  then have "balanced_path (black_height ?x) False sp"
    by (simp add: plug_inv)
  moreover have "sp \<noteq> [] \<Longrightarrow> crumb_black (last sp) \<noteq> 0"
    using rb_wf_root_black [OF assms(1)] last_crumb_black [of sp RbNull] assms(3) by simp
  ultimately obtain root where root: "rbtree_rebalance_loop ?x sp = Some root" "balanced root"
      "rb_inorder root = path_left sp @ new # path_right sp"
    using rebalance_loop_correct [of ?x sp] by auto
  have "rb_count root = rb_count (rb_root tree) + 1"
    using root(3) by (simp flip: assms(3) length_rb_inorder)
  moreover from this have "root \<noteq> RbNull" by auto
  moreover have "cucon_rbtree_size tree + 1 = of_nat (rb_count (rb_root tree) + 1)"
    using assms(1) by (simp add: rb_wf_def)
  ultimately have "rb_wf (tree\<lparr>rb_root := set_black (cucon_rbtree_size tree + 1) root\<rparr>)"
    using rb_wf_set_black [OF root(2)] assms(2) by metis
  then show ?thesis
    using root by (simp add: rbtree_rebalance_dtive_def)
qed

lemma insert1m_correct:
  assumes "rb_wf tree" "rb_count (rb_root tree) + 1 < 2 ^ 64" "key_cut compare (rb_inorder (rb_root tree))"
  shows "\<exists>inserted slot tree'. cucon_rbtree_insert1m_mem compare new tree = Some (inserted, slot, tree') \<and>
    rb_wf tree' \<and>
    (inserted, slot, rb_inorder (rb_root tree')) = list_insert compare new (rb_inorder (rb_root tree)) \<and>
    (\<not> inserted \<longrightarrow> tree' = tree)"
proof -
  obtain n where n: "rb_stack_size (cucon_rbtree_size tree) = Some n" "rb_height (rb_root tree) + 3 \<le> n"
    using rb_stack_size_bound [OF assms(1,2)] .
  have black: "rb_root tree = RbNull \<or> IS_BLACK (rb_root tree)"
    using rb_wf_root_black [OF assms(1)] by (auto simp: is_red_node_def)
  show ?thesis
  proof (cases "\<exists>v \<in> set (rb_inorder (rb_root tree)). compare v = 0")
    case True
    from rbtree_descend_found [OF assms(3) _ this, of "[]" n] n(2)
    obtain b l v r sp where z: "rbtree_descend n compare (rb_root tree) [] = Some (RbNode b l v r, sp)"
        "compare v = 0" "plug (RbNode b l v r) sp = rb_root tree"
      by auto
    have "v \<in> set (rb_inorder (rb_root tree))" and ne: "rb_root tree \<noteq> RbNull"
      unfolding z(3) [symmetric] by simp_all
    have "cucon_rbtree_insert1m_mem compare new tree = Some (False, v, tree)"
      unfolding cucon_rbtree_insert1m_mem_def Let_def n(1) using black ne z(1)
      by (simp add: cucon_rbtree_size_def)
    moreover have "list_insert compare new (rb_inorder (rb_root tree)) = (False, v, rb_inorder (rb_root tree))"
      using assms(3) \<open>v \<in> set _\<close> z(2) by (rule list_insert_found)
    ultimately show ?thesis using assms(1) by auto
  next
    case False
    then have none: "\<forall>v \<in> set (rb_inorder (rb_root tree)). compare v \<noteq> 0" by blast
    from rbtree_descend_missing [OF assms(3) _ this, of "[]" n] n(2)
    obtain sp where sp: "rbtree_descend n compare (rb_root tree) [] = Some (RbNull, sp)"
        "plug RbNull sp = rb_root tree" "length sp + 3 \<le> n"
        "path_left sp = takeWhile (\<lambda>a. compare a > 0) (rb_inorder (rb_root tree))"
        "path_right sp = dropWhile (\<lambda>a. compare a > 0) (rb_inorder (rb_root tree))"
      by auto
    from rbtree_insert_missing [OF assms(1,2) sp(2), of new] obtain root where root:
      "rbtree_rebalance_dtive (RbNode 0 RbNull new RbNull) sp = Some root"
      "rb_wf (tree\<lparr>rb_root := set_black (cucon_rbtree_size tree + 1) root\<rparr>)"
      "rb_inorder root = path_left sp @ new # path_right sp"
      by blast
    have "cucon_rbtree_insert1m_mem compare new tree =
        Some (True, new, tree\<lparr>rb_root := set_black (cucon_rbtree_size tree + 1) root\<rparr>)"
      unfolding cucon_rbtree_insert1m_mem_def Let_def n(1) using black sp(1,3) root(1) by simp
    then show ?thesis
      using root(2,3) by (auto simp: list_insert_missing [OF none] sp(4,5))
  qed
qed

section \<open>Constructive insertion\<close>

text \<open>
  With copies that keep the slot, the constructive functions compute the same tree; their own
  assertion on the stack holds whenever the stack is large enough for the push.
\<close>

lemma copy_crumb_same [simp]: "copy_crumb (\<lambda>v. v) p = p"
  by (cases p) simp_all

lemma copy_node_same [simp]: "copy_node (\<lambda>v. v) t = t"
  by (cases t) simp_all

lemma rotate_right_same [simp]: "rbnode_rotate_right_ctive (\<lambda>v. v) up t = rbnode_rotate_right t"
  by (cases t rule: rbnode_rotate_right.cases) simp_all

lemma rotate_left_same [simp]: "rbnode_rotate_left_ctive (\<lambda>v. v) up t = rbnode_rotate_left t"
  by (cases t rule: rbnode_rotate_left.cases) simp_all

lemma crebalance_loop_same:
  "rbtree_crebalance_loop (\<lambda>v. v) new x sp = rbtree_rebalance_loop x sp"
proof (induction x sp arbitrary: new rule: rbtree_rebalance_loop.induct)
  case (3 x p g sp)
  then show ?case
    by (cases g; cases p) (simp_all add: Option.bind_map_option comp_def)
qed simp_all

theorem cinsert1m_is_insert1m:
  assumes "rb_wf tree" "rb_count (rb_root tree) + 1 < 2 ^ 64"
  shows "cucon_rbtree_cinsert1m_mem compare (\<lambda>v. v) new tree = cucon_rbtree_insert1m_mem compare new tree"
proof -
  obtain n where n: "rb_stack_size (cucon_rbtree_size tree) = Some n" "rb_height (rb_root tree) + 3 \<le> n"
    using rb_stack_size_bound [OF assms(1,2)] .
  have black: "rb_root tree = RbNull \<or> IS_BLACK (rb_root tree)"
    using rb_wf_root_black [OF assms(1)] by (auto simp: is_red_node_def)
  have copies: "map (copy_crumb (\<lambda>v. v)) sp = sp" for sp :: "'b crumb list"
    by (induction sp) simp_all
  have red: "BECOME_RED (RbNode 0 RbNull new RbNull) = RbNode 0 RbNull new RbNull"
    by simp
  show ?thesis
  proof (cases "rb_root tree = RbNull")
    case True
    then have "cucon_rbtree_size tree = 0" by (simp add: cucon_rbtree_size_def)
    then show ?thesis
      using True n by (simp add: cucon_rbtree_cinsert1m_mem_def cucon_rbtree_insert1m_mem_def
          rbtree_rebalance_dtive_def)
  next
    case False
    then show ?thesis
      unfolding cucon_rbtree_cinsert1m_mem_def cucon_rbtree_insert1m_mem_def Let_def n(1)
        copies crebalance_loop_same rbtree_rebalance_dtive_def red
      using black n(2) by (auto split: Option.bind_split rbnode.split)
  qed
qed

end
