(* ===== verification/RbtreeErase.thy ===== *)
theory RbtreeErase
  imports RbtreeInsert
begin

text \<open>
  Erasure from the trees of \<^verbatim>\<open>cucon/rbtree.c\<close>: the loop carries a missing black node up the
  path until it can be made good, without leaving the stack.
\<close>

section \<open>The rebalancing loop\<close>

lemma balanced_BECOME_BLACK_same: "\<not> is_red_node x \<Longrightarrow> c \<noteq> 0 \<Longrightarrow> balanced (set_black c x) \<longleftrightarrow> balanced x"
  by (cases x) auto

text \<open>The last rotations, for a sibling with a red child.\<close>

lemma erase_rotate_left:
  assumes "balanced x" "balanced (RbNode by yl yv yr)" "by \<noteq> 0" "\<not> is_red_node x"
    and "black_height (RbNode by yl yv yr) = Suc (black_height x)"
    and "balanced_path (black_step bp + Suc (black_height x)) (bp = 0) sp"
    and "is_red_node yl \<or> is_red_node yr"
  shows "\<exists>y n.
    (if \<not> is_red_node yr then rbnode_rotate_right (RbNode 0 (BECOME_BLACK yl) yv yr)
     else Some (RbNode by yl yv yr)) = Some y \<and>
    (case y of RbNull \<Rightarrow> None
     | RbNode _ yl yv yr \<Rightarrow> rbnode_rotate_left (RbNode 1 x vp (RbNode bp yl yv (BECOME_BLACK yr)))) = Some n \<and>
    balanced (plug n sp) \<and> rb_inorder n = rb_inorder x @ vp # rb_inorder yl @ yv # rb_inorder yr"
proof (cases "is_red_node yr")
  case True
  then show ?thesis
    using assms by (cases yr) (auto simp: plug_inv)
next
  case False
  with assms(7) have "is_red_node yl" by simp
  then obtain a v b where "yl = RbNode 0 a v b" by (rule red_nodeE)
  then show ?thesis
    using assms False by (auto simp: plug_inv black_height_set_black balanced_BECOME_BLACK_same)
qed

lemma erase_rotate_right:
  assumes "balanced x" "balanced (RbNode by yl yv yr)" "by \<noteq> 0" "\<not> is_red_node x"
    and "black_height (RbNode by yl yv yr) = Suc (black_height x)"
    and "balanced_path (black_step bp + Suc (black_height x)) (bp = 0) sp"
    and "is_red_node yl \<or> is_red_node yr"
  shows "\<exists>y n.
    (if \<not> is_red_node yl then rbnode_rotate_left (RbNode 0 yl yv (BECOME_BLACK yr))
     else Some (RbNode by yl yv yr)) = Some y \<and>
    (case y of RbNull \<Rightarrow> None
     | RbNode _ yl yv yr \<Rightarrow> rbnode_rotate_right (RbNode 1 (RbNode bp (BECOME_BLACK yl) yv yr) vp x)) = Some n \<and>
    balanced (plug n sp) \<and> rb_inorder n = rb_inorder yl @ yv # rb_inorder yr @ vp # rb_inorder x"
proof (cases "is_red_node yl")
  case True
  then show ?thesis
    using assms by (cases yl) (auto simp: plug_inv)
next
  case False
  with assms(7) have "is_red_node yr" by simp
  then obtain a v b where "yr = RbNode 0 a v b" by (rule red_nodeE)
  then show ?thesis
    using assms False by (auto simp: plug_inv black_height_set_black balanced_BECOME_BLACK_same)
qed

text \<open>
  What is required of the loop and of its two halves: \<open>x\<close> misses a black node, it is balanced but
  for its own colour, and unless it is red there is room on the stack for one more node.
\<close>

definition erase_loop_pre :: "nat \<Rightarrow> 'a rbnode \<Rightarrow> 'a crumb list \<Rightarrow> bool" where
  "erase_loop_pre n x sp \<longleftrightarrow>
     balanced (BECOME_BLACK x) \<and> (\<not> is_red_node x \<longrightarrow> length sp + 3 \<le> n) \<and>
     balanced_path (Suc (black_height x)) False sp"

definition erase_half_pre :: "nat \<Rightarrow> 'a rbnode \<Rightarrow> u64 \<Rightarrow> 'a rbnode \<Rightarrow> 'a crumb list \<Rightarrow> bool" where
  "erase_half_pre n x bp y sp \<longleftrightarrow>
     balanced x \<and> \<not> is_red_node x \<and> balanced y \<and> \<not> is_red_node y \<and>
     black_height y = Suc (black_height x) \<and> (bp \<noteq> 0 \<longrightarrow> length sp + 3 \<le> n) \<and>
     balanced_path (black_step bp + Suc (black_height x)) (bp = 0) sp"

lemma erase_half_recolour:
  assumes "erase_half_pre n x bp (RbNode by yl yv yr) sp" "\<not> is_red_node yl" "\<not> is_red_node yr"
  shows "erase_loop_pre n (RbNode bp x vp (RbNode 0 yl yv yr)) sp"
    "erase_loop_pre n (RbNode bp (RbNode 0 yl yv yr) vp x) sp"
  using assms by (auto simp: erase_half_pre_def erase_loop_pre_def intro: balanced_path_mono)

lemma erase_loop_red:
  assumes "erase_loop_pre n x sp" "is_red_node x"
  shows "balanced (plug (BECOME_BLACK x) sp)"
  using assms by (auto simp: erase_loop_pre_def plug_inv black_height_set_black elim!: red_nodeE)

lemma erase_loop_half:
  assumes "erase_loop_pre n x (p # sp)" "\<not> is_red_node x"
    and "p = InLeft bp vp y \<or> p = InRight bp y vp"
  shows "(y = RbNull \<longrightarrow> False) \<and>
    (\<not> is_red_node y \<longrightarrow> erase_half_pre n x bp y sp) \<and>
    (\<forall>yl yv yr. y = RbNode 0 yl yv yr \<longrightarrow>
       erase_half_pre n x 0 yl (InLeft 1 yv yr # sp) \<and> erase_half_pre n x 0 yr (InRight 1 yl yv # sp))"
  using assms balanced_BECOME_BLACK_same [OF assms(2), of 1]
  by (elim disjE; clarsimp simp: erase_loop_pre_def erase_half_pre_def; force intro: balanced_path_mono)

lemma erase_loop_correct:
  "erase_loop_pre n x sp \<Longrightarrow>
     \<exists>t. rbtree_erase_loop n x sp = Some t \<and> balanced t \<and> rb_inorder t = rb_inorder (plug x sp)"
  "erase_half_pre n x bp y sp \<Longrightarrow>
     \<exists>t. rbtree_erase_left n x bp vp y sp = Some t \<and> balanced t \<and>
       rb_inorder t = rb_inorder (plug x (InLeft bp vp y # sp))"
  "erase_half_pre n x bp y sp \<Longrightarrow>
     \<exists>t. rbtree_erase_right n x bp vp y sp = Some t \<and> balanced t \<and>
       rb_inorder t = rb_inorder (plug x (InRight bp y vp # sp))"
proof (induction n x sp and n x bp vp y sp and n x bp vp y sp
    rule: rbtree_erase_loop_rbtree_erase_left_rbtree_erase_right.induct)
  case (1 n x)
  then show ?case by (simp add: erase_loop_pre_def)
next
  case (2 n x p sp)
  show ?case
  proof (cases "is_red_node x")
    case True
    then show ?thesis
      using erase_loop_red [OF "2.prems" True] by (simp del: plug.simps)
  next
    case False
    show ?thesis
    proof (cases p)
      case p: (InLeft bp vp y)
      note half = erase_loop_half [OF "2.prems" False disjI1 [OF p]]
      obtain yb yl yv yr where y: "y = RbNode yb yl yv yr" using half by (cases y) auto
      have room: "\<not> n < length (p # sp) + 3"
        using "2.prems" False by (auto simp: erase_loop_pre_def)
      show ?thesis
      proof (cases "yb = 0")
        case True
        then show ?thesis
          using "2.IH"(1) [OF False p y True room] half False p y room by auto
      next
        case yb: False
        then show ?thesis
          using "2.IH"(2) [OF False p y yb] half False p y by auto
      qed
    next
      case p: (InRight bp y vp)
      note half = erase_loop_half [OF "2.prems" False disjI2 [OF p]]
      obtain yb yl yv yr where y: "y = RbNode yb yl yv yr" using half by (cases y) auto
      have room: "\<not> n < length (p # sp) + 3"
        using "2.prems" False by (auto simp: erase_loop_pre_def)
      show ?thesis
      proof (cases "yb = 0")
        case True
        then show ?thesis
          using "2.IH"(3) [OF False p y True room] half False p y room by auto
      next
        case yb: False
        then show ?thesis
          using "2.IH"(4) [OF False p y yb] half False p y by auto
      qed
    qed
  qed
next
  case (3 n x bp vp sp)
  then show ?case by (simp add: erase_half_pre_def)
next
  case (4 n x bp vp "by" yl yv yr sp)
  show ?case
  proof (cases "\<not> is_red_node yl \<and> \<not> is_red_node yr")
    case True
    then show ?thesis
      using "4.IH" [OF True] erase_half_recolour(1) [OF "4.prems"] by simp
  next
    case False
    with "4.prems" have "\<exists>y m.
      (if \<not> is_red_node yr then rbnode_rotate_right (RbNode 0 (BECOME_BLACK yl) yv yr)
       else Some (RbNode by yl yv yr)) = Some y \<and>
      (case y of RbNull \<Rightarrow> None
       | RbNode _ yl yv yr \<Rightarrow> rbnode_rotate_left (RbNode 1 x vp (RbNode bp yl yv (BECOME_BLACK yr)))) = Some m \<and>
      balanced (plug m sp) \<and> rb_inorder m = rb_inorder x @ vp # rb_inorder yl @ yv # rb_inorder yr"
      unfolding erase_half_pre_def by (intro erase_rotate_left) auto
    with False show ?thesis by auto
  qed
next
  case (5 n x bp vp sp)
  then show ?case by (simp add: erase_half_pre_def)
next
  case (6 n x bp vp "by" yl yv yr sp)
  show ?case
  proof (cases "\<not> is_red_node yr \<and> \<not> is_red_node yl")
    case True
    then show ?thesis
      using "6.IH" [OF True] erase_half_recolour(2) [OF "6.prems"] by simp
  next
    case False
    with "6.prems" have "\<exists>y m.
      (if \<not> is_red_node yl then rbnode_rotate_left (RbNode 0 yl yv (BECOME_BLACK yr))
       else Some (RbNode by yl yv yr)) = Some y \<and>
      (case y of RbNull \<Rightarrow> None
       | RbNode _ yl yv yr \<Rightarrow> rbnode_rotate_right (RbNode 1 (RbNode bp (BECOME_BLACK yl) yv yr) vp x)) = Some m \<and>
      balanced (plug m sp) \<and> rb_inorder m = rb_inorder yl @ yv # rb_inorder yr @ vp # rb_inorder x"
      unfolding erase_half_pre_def by (intro erase_rotate_right) auto
    with False show ?thesis by auto
  qed
qed

section \<open>The erased node\<close>

lemma rbtree_leftmost_correct:
  assumes "t \<noteq> RbNull" and "depth + length sp + rb_height t + 1 \<le> n"
  shows "\<exists>b v r sp'. rbtree_leftmost n depth t sp = Some (b, v, r, sp') \<and>
    plug (RbNode b RbNull v r) sp' = plug t sp \<and> path_left sp' = path_left sp \<and>
    length sp' + 1 \<le> length sp + rb_height t"
  using assms
proof (induction n depth t sp rule: rbtree_leftmost.induct)
  case (2 n depth b l v r sp)
  show ?case
  proof (cases "l = RbNull")
    case True
    then show ?thesis using "2.prems" by auto
  next
    case False
    with 2 show ?thesis by force
  qed
qed simp

lemma path_append:
  "path_left (sp @ sp') = path_left sp' @ path_left sp"
  "path_right (sp @ sp') = path_right sp @ path_right sp'"
proof (induction sp)
  case (Cons p sp)
  { case 1 show ?case using Cons by (cases p) simp_all }
  { case 2 show ?case using Cons by (cases p) simp_all }
qed simp_all

lemma balanced_slot: "balanced (RbNode b l v r) \<longleftrightarrow> balanced (RbNode b l w r)"
  "black_height (RbNode b l v r) = black_height (RbNode b l w r)"
  "is_red_node (RbNode b l v r) \<longleftrightarrow> is_red_node (RbNode b l w r)"
  by simp_all

lemma black_height_0: "balanced t \<Longrightarrow> black_height t = 0 \<Longrightarrow> \<not> is_red_node t \<Longrightarrow> t = RbNull"
  by (cases t) auto

text \<open>Taking out a node with at most one child.\<close>

lemma take_out_correct:
  assumes "balanced (plug (RbNode b l v r) sp)" and "x = l \<and> r = RbNull \<or> x = r \<and> l = RbNull"
    and "length sp + 3 \<le> n"
  shows "\<exists>t. (if b \<noteq> 0 then rbtree_erase_loop n x sp else Some (plug (BECOME_BLACK x) sp)) = Some t \<and>
    balanced t \<and> rb_inorder t = path_left sp @ rb_inorder x @ path_right sp"
proof -
  have node: "balanced (RbNode b l v r)" "balanced_path (black_height (RbNode b l v r)) (b = 0) sp"
    using assms(1) by (auto simp only: plug_inv is_red_node_simps)
  then have x: "balanced x" "black_height x = 0"
    using assms(2) by auto
  show ?thesis
  proof (cases "b = 0")
    case True
    with node assms(2) have "\<not> is_red_node x" by auto
    with x have "x = RbNull" by (intro black_height_0)
    moreover have "balanced (plug RbNull sp)"
      using node True assms(2) x by (auto simp: plug_inv intro: balanced_path_mono)
    ultimately show ?thesis using True by simp
  next
    case False
    then have "erase_loop_pre n x sp"
      using node x assms(2,3) by (auto simp: erase_loop_pre_def)
    then show ?thesis
      using erase_loop_correct(1) [of n x sp] False by simp
  qed
qed

lemma rbtree_erase_node_correct:
  assumes "balanced (plug (RbNode b l v r) sp)"
    and "length sp + rb_height (RbNode b l v r) + 3 \<le> n"
  shows "\<exists>t. rbtree_erase_node n (RbNode b l v r) sp = Some t \<and> balanced t \<and>
    rb_inorder t = path_left sp @ rb_inorder l @ rb_inorder r @ path_right sp"
proof (cases "l = RbNull \<or> r = RbNull")
  case True
  then show ?thesis
    using take_out_correct [OF assms(1), of r n] take_out_correct [OF assms(1), of l n] assms(2)
    by auto
next
  case False
  then obtain yb yv yr path where y: "rbtree_leftmost n (length sp + 1) r [] = Some (yb, yv, yr, path)"
      "plug (RbNode yb RbNull yv yr) path = r" "path_left path = []" "length path + 1 \<le> rb_height r"
    using rbtree_leftmost_correct [of r "length sp + 1" "[]" n] assms(2) by (auto simp: max_def split: if_splits)
  let ?sp = "path @ InRight b l yv # sp"
  have "plug (RbNode yb RbNull yv yr) ?sp = plug (RbNode b l yv r) sp"
    by (simp only: plug_append plug.simps plug1.simps y(2))
  moreover have "balanced (plug (RbNode b l yv r) sp)"
    using assms(1) by (auto simp: plug_inv)
  ultimately have bal: "balanced (plug (RbNode yb RbNull yv yr) ?sp)"
    by metis
  have room: "length ?sp + 3 \<le> n"
    using y(4) assms(2) by simp
  have "rb_inorder r = yv # rb_inorder yr @ path_right path"
    using y(3) plug_inorder [of "RbNode yb RbNull yv yr" path] y(2) by simp
  moreover have "path_left (path @ p # sp) = path_left (p # sp) @ path_left path"
      "path_right (path @ p # sp) = path_right path @ path_right (p # sp)" for p
    using path_append [of path "p # sp"] by simp_all
  ultimately show ?thesis
    using take_out_correct [OF bal _ room, of yr] y(1,3) False by simp
qed

text \<open>What erasure does to the list of slots.\<close>

definition list_erase :: "('a \<Rightarrow> int) \<Rightarrow> 'a list \<Rightarrow> 'a option \<times> 'a list" where
  "list_erase compare xs = (find (\<lambda>v. compare v = 0) xs, filter (\<lambda>v. compare v \<noteq> 0) xs)"

lemma list_erase_found:
  assumes "key_cut compare (xs @ v # ys)" and "compare v = 0"
  shows "list_erase compare (xs @ v # ys) = (Some v, xs @ ys)"
proof -
  have "\<forall>a \<in> set xs. compare a \<noteq> 0" "\<forall>a \<in> set ys. compare a \<noteq> 0"
    using key_cut_split [OF assms(1)] assms(2) by fastforce+
  moreover from this(1) have "find (\<lambda>v. compare v = 0) (xs @ v # ys) = Some v"
    using assms(2) by (induction xs) auto
  ultimately show ?thesis
    using assms(2) by (simp add: list_erase_def)
qed

lemma erase_correct:
  assumes "rb_wf tree" "rb_count (rb_root tree) + 1 < 2 ^ 64" "key_cut compare (rb_inorder (rb_root tree))"
  shows "\<exists>slot tree'. rbtree_erase compare tree = Some (slot, tree') \<and> rb_wf tree' \<and>
    (slot, rb_inorder (rb_root tree')) = list_erase compare (rb_inorder (rb_root tree)) \<and>
    (slot = None \<longrightarrow> tree' = tree)"
proof -
  obtain n where n: "rb_stack_size (cucon_rbtree_size tree) = Some n" "rb_height (rb_root tree) + 3 \<le> n"
    using rb_stack_size_bound [OF assms(1,2)] .
  show ?thesis
  proof (cases "\<exists>v \<in> set (rb_inorder (rb_root tree)). compare v = 0")
    case True
    from rbtree_descend_found [OF assms(3) _ this, of "[]" n] n(2)
    obtain b l v r sp where z: "rbtree_descend n compare (rb_root tree) [] = Some (RbNode b l v r, sp)"
        "compare v = 0" "plug (RbNode b l v r) sp = rb_root tree"
        "length sp + rb_height (RbNode b l v r) + 3 \<le> n"
      by auto
    have "balanced (plug (RbNode b l v r) sp)"
      using assms(1) by (simp only: z(3) rb_wf_def)
    from rbtree_erase_node_correct [OF this z(4)] obtain root where
      root: "rbtree_erase_node n (RbNode b l v r) sp = Some root" "balanced root"
        "rb_inorder root = (path_left sp @ rb_inorder l) @ rb_inorder r @ path_right sp"
      by auto
    have old: "rb_inorder (rb_root tree) = (path_left sp @ rb_inorder l) @ v # rb_inorder r @ path_right sp"
      by (simp flip: z(3))
    have "list_erase compare (rb_inorder (rb_root tree)) = (Some v, rb_inorder root)"
      using list_erase_found [OF assms(3) [unfolded old] z(2)] by (simp add: old root(3))
    moreover have erase: "rbtree_erase compare tree =
        Some (Some v, tree\<lparr>rb_root := set_black (cucon_rbtree_size tree - 1) root\<rparr>)"
      by (simp add: rbtree_erase_def Let_def n(1) z(1) root(1) del: rbtree_erase_node.simps)
    moreover have "rb_wf (tree\<lparr>rb_root := set_black (cucon_rbtree_size tree - 1) root\<rparr>)"
    proof -
      have count: "rb_count (rb_root tree) = Suc (rb_count root)"
        using root(3) old by (simp flip: length_rb_inorder)
      then have "cucon_rbtree_size tree - 1 = of_nat (rb_count root)"
        using assms(1) by (simp add: rb_wf_def)
      then show ?thesis
        using rb_wf_set_black [OF root(2)] count assms(2)
        by (cases "root = RbNull") (simp_all add: rb_wf_def cucon_rbtree_size_def)
    qed
    ultimately show ?thesis by auto
  next
    case False
    then have none: "\<forall>v \<in> set (rb_inorder (rb_root tree)). compare v \<noteq> 0" by blast
    from rbtree_descend_missing [OF assms(3) _ this, of "[]" n] n(2)
    obtain sp where "rbtree_descend n compare (rb_root tree) [] = Some (RbNull, sp)"
      by auto
    moreover have "list_erase compare (rb_inorder (rb_root tree)) = (None, rb_inorder (rb_root tree))"
      using none by (simp add: list_erase_def find_None_iff [THEN iffD2] filter_id_conv)
    ultimately show ?thesis
      using assms(1) n(1) by (simp add: rbtree_erase_def Let_def)
  qed
qed

end
