(* ===== verification/RbtreeKeys.thy ===== *)
theory RbtreeKeys
  imports RbtreeErase
begin

text \<open>
  Searching and iteration in the trees of \<^verbatim>\<open>cucon/rbtree.c\<close>, and the functions that compare
  keys. What these need of a comparison function is the interface \<open>ordered_keys\<close>; the
  comparisons of \<^verbatim>\<open>cu/int.h\<close> and \<^verbatim>\<open>cu/size.h\<close> provide it.
\<close>

section \<open>Searching\<close>

lemma find_append: "find P (xs @ ys) = (case find P xs of None \<Rightarrow> find P ys | Some x \<Rightarrow> Some x)"
  by (induction xs) auto

lemma find_NoneI: "\<forall>x \<in> set xs. \<not> P x \<Longrightarrow> find P xs = None"
  by (simp add: find_None_iff)

lemma rbnode_find_correct:
  "key_cut compare (rb_inorder t) \<Longrightarrow> rbnode_find compare t = find (\<lambda>v. compare v = 0) (rb_inorder t)"
proof (induction t)
  case (RbNode b l v r)
  note cut = key_cut_split [OF RbNode.prems [unfolded rb_inorder.simps]]
  consider "compare v < 0" | "compare v > 0" | "compare v = 0" by linarith
  then show ?case
  proof cases
    case 1
    then have "find (\<lambda>v. compare v = 0) (rb_inorder r) = None"
      using cut(3) by (intro find_NoneI) fastforce
    then show ?thesis
      using 1 RbNode.IH(1) [OF cut(1)] by (auto simp: find_append split: option.split)
  next
    case 2
    then have "find (\<lambda>v. compare v = 0) (rb_inorder l) = None"
      using cut(4) by (intro find_NoneI) fastforce
    then show ?thesis
      using 2 RbNode.IH(2) [OF cut(2)] by (simp add: find_append)
  next
    case 3
    then have "find (\<lambda>v. compare v = 0) (rb_inorder l) = None"
      using cut(4) by (intro find_NoneI) fastforce
    then show ?thesis
      using 3 by (simp add: find_append)
  qed
qed simp

text \<open>The first and the last element of a list that may be empty.\<close>

definition last_or :: "'a list \<Rightarrow> 'a option \<Rightarrow> 'a option" where
  "last_or xs none = (if xs = [] then none else Some (last xs))"

definition first_or :: "'a list \<Rightarrow> 'a option \<Rightarrow> 'a option" where
  "first_or xs none = (if xs = [] then none else Some (hd xs))"

lemma rb_last_correct: "rb_last t below = last_or (rb_inorder t) below"
  by (induction t arbitrary: below) (auto simp: last_or_def)

lemma rb_first_correct: "rb_first t abv = first_or (rb_inorder t) abv"
  by (induction t arbitrary: abv) (auto simp: first_or_def)

lemma filter_all: "\<forall>x \<in> set xs. P x \<Longrightarrow> filter P xs = xs"
  by (rule filter_True)

lemma rbnode_nearest_correct:
  assumes "key_cut cmp (rb_inorder t)"
  shows "rbnode_nearest cmp t below abv =
    (last_or (filter (\<lambda>v. cmp v > 0) (rb_inorder t)) below,
     find (\<lambda>v. cmp v = 0) (rb_inorder t),
     first_or (filter (\<lambda>v. cmp v < 0) (rb_inorder t)) abv)"
  using assms
proof (induction t arbitrary: below abv)
  case (RbNode b l v r)
  note cut = key_cut_split [OF RbNode.prems [unfolded rb_inorder.simps]]
  consider "cmp v < 0" | "cmp v > 0" | "cmp v = 0" by linarith
  then show ?case
  proof cases
    case 1
    then have r: "\<forall>a \<in> set (rb_inorder r). cmp a < 0"
      using cut(3) by simp
    then have "filter (\<lambda>v. cmp v > 0) (rb_inorder r) = []" "find (\<lambda>v. cmp v = 0) (rb_inorder r) = None"
      by (force simp: filter_empty_conv find_None_iff)+
    then show ?thesis
      using 1 RbNode.IH(1) [OF cut(1)]
      by (auto simp: find_append first_or_def split: option.split)
  next
    case 2
    then have l: "\<forall>a \<in> set (rb_inorder l). cmp a > 0"
      using cut(4) by simp
    then have "filter (\<lambda>v. cmp v < 0) (rb_inorder l) = []" "find (\<lambda>v. cmp v = 0) (rb_inorder l) = None"
      by (force simp: filter_empty_conv find_None_iff)+
    then show ?thesis
      using 2 RbNode.IH(2) [OF cut(2)] by (auto simp: find_append last_or_def)
  next
    case 3
    then have "\<forall>a \<in> set (rb_inorder l). cmp a > 0" "\<forall>a \<in> set (rb_inorder r). cmp a < 0"
      using cut(3,4) by simp_all
    then have "filter (\<lambda>v. cmp v > 0) (rb_inorder l) = rb_inorder l" "filter (\<lambda>v. cmp v > 0) (rb_inorder r) = []"
      "filter (\<lambda>v. cmp v < 0) (rb_inorder r) = rb_inorder r" "filter (\<lambda>v. cmp v < 0) (rb_inorder l) = []"
      "find (\<lambda>v. cmp v = 0) (rb_inorder l) = None"
      by (force simp: filter_empty_conv find_None_iff filter_id_conv)+
    then show ?thesis
      using 3 by (simp add: find_append rb_last_correct rb_first_correct)
  qed
qed (simp add: last_or_def first_or_def)

section \<open>Iteration\<close>

text \<open>Calling a predicate on the elements of a list until it fails.\<close>

fun conj_list :: "('a \<Rightarrow> 's \<Rightarrow> bool \<times> 's) \<Rightarrow> 'a list \<Rightarrow> 's \<Rightarrow> bool \<times> 's" where
  "conj_list cb [] s = (True, s)"
| "conj_list cb (x # xs) s = (case cb x s of (True, s) \<Rightarrow> conj_list cb xs s | (False, s) \<Rightarrow> (False, s))"

lemma conj_list_append:
  "conj_list cb (xs @ ys) s =
     (case conj_list cb xs s of (True, s) \<Rightarrow> conj_list cb ys s | (False, s) \<Rightarrow> (False, s))"
  by (induction xs arbitrary: s) (auto split: prod.split bool.split)

lemma rbnode_iter_inorder: "rbnode_iter cb t s = fold cb (rb_inorder t) s"
  by (induction t arbitrary: s) simp_all

lemma rbnode_rev_iter_inorder: "rbnode_rev_iter cb t s = fold cb (rev (rb_inorder t)) s"
  by (induction t arbitrary: s) simp_all

lemma rbnode_conj_inorder: "rbnode_conj cb t s = conj_list cb (rb_inorder t) s"
  by (induction t arbitrary: s) (auto simp: conj_list_append split: prod.split bool.split)

lemma rbnode_rev_conj_inorder: "rbnode_rev_conj cb t s = conj_list cb (rev (rb_inorder t)) s"
  by (induction t arbitrary: s) (auto simp: conj_list_append split: prod.split bool.split)

section \<open>Keys\<close>

text \<open>The contract of a comparison function: it orders the keys, up to keys it does not distinguish.\<close>

locale ordered_keys =
  fixes compare :: "'k \<Rightarrow> 'k \<Rightarrow> int"
  assumes flip: "compare a b < 0 \<longleftrightarrow> 0 < compare b a"
    and less_trans: "compare a b < 0 \<Longrightarrow> compare b c < 0 \<Longrightarrow> compare a c < 0"
    and same_less: "compare a b = 0 \<Longrightarrow> compare b c < 0 \<Longrightarrow> compare a c < 0"

definition keys_sorted :: "('k \<Rightarrow> 'k \<Rightarrow> int) \<Rightarrow> ('k \<times> 'v) list \<Rightarrow> bool" where
  "keys_sorted compare xs \<longleftrightarrow> sorted_wrt (\<lambda>a b. compare (fst a) (fst b) < 0) xs"

abbreviation slot_compare :: "('k \<Rightarrow> 'k \<Rightarrow> int) \<Rightarrow> 'k \<Rightarrow> 'k \<times> 'v \<Rightarrow> int" where
  "slot_compare compare key \<equiv> \<lambda>slot. compare key (fst slot)"

abbreviation list_lookup :: "('k \<Rightarrow> 'k \<Rightarrow> int) \<Rightarrow> 'k \<Rightarrow> ('k \<times> 'v) list \<Rightarrow> ('k \<times> 'v) option" where
  "list_lookup compare key xs \<equiv> find (\<lambda>slot. compare key (fst slot) = 0) xs"

context ordered_keys
begin

lemma flip_zero: "compare a b = 0 \<longleftrightarrow> compare b a = 0"
  using flip [of a b] flip [of b a] by linarith

lemma same_trans:
  assumes "compare a b = 0" "compare b c = 0"
  shows "compare a c = 0"
proof -
  have "compare b a = 0" using assms(1) by (simp add: flip_zero)
  then have "\<not> compare a c < 0" using same_less [of b a c] assms(2) by auto
  moreover have "\<not> compare c a < 0" using same_less [of b c a] assms(2) \<open>compare b a = 0\<close> by auto
  ultimately show ?thesis using flip [of c a] by linarith
qed

lemma refl_zero: "compare a a = 0"
  using flip [of a a] by linarith

lemma keys_sorted_cut: "keys_sorted compare xs \<Longrightarrow> key_cut (slot_compare compare key) xs"
  unfolding keys_sorted_def key_cut_def
  by (erule sorted_wrt_mono_rel [rotated]) (metis less_trans linorder_cases same_less)

lemma insert_sorted:
  assumes "keys_sorted compare xs" "list_insert (slot_compare compare key) (key, v) xs = (ins, slot, ys)"
  shows "keys_sorted compare ys"
proof (cases "list_lookup compare key xs")
  case None
  let ?below = "\<lambda>slot. 0 < compare key (fst slot)"
  have ys: "ys = takeWhile ?below xs @ (key, v) # dropWhile ?below xs"
    using assms(2) None by (auto simp: list_insert_def)
  have xs: "keys_sorted compare (takeWhile ?below xs @ dropWhile ?below xs)"
    using assms(1) by simp
  have "\<forall>b \<in> set (dropWhile ?below xs). compare key (fst b) < 0"
  proof (cases "dropWhile ?below xs")
    case (Cons d ds)
    then have "\<not> ?below d" using hd_dropWhile [of ?below xs] by simp
    moreover have "d \<in> set xs" using Cons by (metis list.set_intros(1) set_dropWhileD)
    ultimately have d: "compare key (fst d) < 0"
      using None unfolding find_None_iff by (meson linorder_neqE)
    have "\<forall>b \<in> set ds. compare (fst d) (fst b) < 0"
      using xs unfolding Cons keys_sorted_def by (simp add: sorted_wrt_append)
    then show ?thesis using Cons d less_trans by auto
  qed (simp del: dropWhile_eq_Nil_conv)
  moreover have "\<forall>a \<in> set (takeWhile ?below xs). compare (fst a) key < 0"
    using flip by (auto dest: set_takeWhileD)
  ultimately show ?thesis
    using xs unfolding ys keys_sorted_def by (auto simp: sorted_wrt_append simp del: takeWhile_dropWhile_id)
qed (use assms in \<open>simp add: list_insert_def\<close>)

lemma erase_sorted:
  "keys_sorted compare xs \<Longrightarrow> keys_sorted compare (snd (list_erase (slot_compare compare key) xs))"
  by (simp add: list_erase_def keys_sorted_def sorted_wrt_filter)

lemma lookup_cong: "compare k key = 0 \<Longrightarrow> list_lookup compare k xs = list_lookup compare key xs"
  by (rule arg_cong [where f = "\<lambda>P. find P xs"]) (use same_trans flip_zero in blast)

lemma lookup_insert:
  assumes "list_insert (slot_compare compare key) (key, v) xs = (ins, slot, ys)"
  shows "list_lookup compare k ys = (if compare k key = 0 then Some slot else list_lookup compare k xs)"
proof (cases "list_lookup compare key xs")
  case None
  let ?below = "\<lambda>slot. 0 < compare key (fst slot)"
  have ys: "ys = takeWhile ?below xs @ (key, v) # dropWhile ?below xs" "slot = (key, v)"
    using assms None by (auto simp: list_insert_def)
  have split: "list_lookup compare k xs = (case list_lookup compare k (takeWhile ?below xs) of
      None \<Rightarrow> list_lookup compare k (dropWhile ?below xs) | Some x \<Rightarrow> Some x)"
    using find_append [of _ "takeWhile ?below xs" "dropWhile ?below xs"] by simp
  show ?thesis
  proof (cases "compare k key = 0")
    case True
    then have "list_lookup compare k xs = None"
      using None lookup_cong by (simp only: lookup_cong)
    then have "list_lookup compare k (takeWhile ?below xs) = None"
      using split by (cases "list_lookup compare k (takeWhile ?below xs)") simp_all
    then show ?thesis using True by (simp add: ys find_append)
  next
    case False
    then show ?thesis by (auto simp: ys find_append split simp del: takeWhile_dropWhile_id split: option.split)
  qed
next
  case (Some s)
  then show ?thesis
    using assms lookup_cong [of k key ys] by (cases "compare k key = 0") (auto simp: list_insert_def)
qed

lemma lookup_erase:
  "list_lookup compare k (snd (list_erase (slot_compare compare key) xs)) =
     (if compare k key = 0 then None else list_lookup compare k xs)"
proof (cases "compare k key = 0")
  case True
  then show ?thesis
    using same_trans flip_zero by (auto simp: list_erase_def find_None_iff)
next
  case False
  then have "compare k (fst s) = 0 \<longrightarrow> compare key (fst s) \<noteq> 0" for s
    using same_trans flip_zero by blast
  then show ?thesis
    using False by (induction xs) (auto simp: list_erase_def)
qed

end

interpretation size_keys: ordered_keys cu_size_cmp
  by unfold_locales (auto simp: cu_size_cmp_def split: if_splits)

interpretation long_keys: ordered_keys cu_long_cmp
  by unfold_locales (auto simp: cu_long_cmp_def split: if_splits)

interpretation int_keys: ordered_keys cu_int_cmp
  by unfold_locales (auto simp: cu_int_cmp_def split: if_splits)

end
