(* ===== verification/RbtreeDict.thy ===== *)
theory RbtreeDict
  imports RbtreeKeys
begin

text \<open>
  What the operations of \<^verbatim>\<open>cucon/rbtree.c\<close> promise to their callers: on trees that satisfy the
  invariants and are sorted by the comparison in use they return, without a null pointer dereference, a failed assertion
  or a push outside the stack, and behave like a finite map from keys to slots.
\<close>

definition rb_sorted :: "('k \<Rightarrow> 'k \<Rightarrow> int) \<Rightarrow> ('k \<times> 'v) rbtree \<Rightarrow> bool" where
  "rb_sorted compare tree \<longleftrightarrow> rb_wf tree \<and> keys_sorted compare (rb_inorder (rb_root tree))"

lemma rb_sorted_init [simp]: "rb_sorted compare cucon_rbtree_init"
  by (simp add: rb_sorted_def rb_wf_def cucon_rbtree_init_def cucon_rbtree_size_def keys_sorted_def)

lemma rb_sorted_cut:
  "ordered_keys compare \<Longrightarrow> rb_sorted compare tree \<Longrightarrow> key_cut (slot_compare compare key) (rb_inorder (rb_root tree))"
  by (simp add: rb_sorted_def ordered_keys.keys_sorted_cut)

lemma find2p_node_lookup:
  "ordered_keys compare \<Longrightarrow> rb_sorted compare tree \<Longrightarrow>
     cucon_rbtree_find2p_node tree compare key = list_lookup compare key (rb_inorder (rb_root tree))"
  by (simp add: cucon_rbtree_find2p_node_def rbnode_find_correct [OF rb_sorted_cut])

lemma list_insert_length:
  assumes "list_insert compare new xs = (inserted, slot, ys)"
  shows "length ys = length xs + (if inserted then 1 else 0)"
proof -
  have "length (takeWhile P xs) + length (dropWhile P xs) = length xs" for P
    by (metis length_append takeWhile_dropWhile_id)
  from this [of "\<lambda>v. 0 < compare v"] show ?thesis
    using assms by (cases "find (\<lambda>v. compare v = 0) xs") (auto simp: list_insert_def)
qed

section \<open>Insertion and erasure as operations on a map\<close>

lemma insert2p_node_correct:
  assumes ord: "ordered_keys compare" and "rb_sorted compare tree" "rb_count (rb_root tree) + 1 < 2 ^ 64"
  shows "\<exists>inserted slot tree'.
    cucon_rbtree_insert2p_node compare key rest tree = Some (inserted, slot, tree') \<and>
    rb_sorted compare tree' \<and>
    inserted = (cucon_rbtree_find2p_node tree compare key = None) \<and>
    slot = (case cucon_rbtree_find2p_node tree compare key of None \<Rightarrow> (key, rest) | Some s \<Rightarrow> s) \<and>
    cucon_rbtree_size tree' = cucon_rbtree_size tree + (if inserted then 1 else 0) \<and>
    rb_count (rb_root tree') = rb_count (rb_root tree) + (if inserted then 1 else 0) \<and>
    (\<forall>k. cucon_rbtree_find2p_node tree' compare k =
       (if compare k key = 0 then Some slot else cucon_rbtree_find2p_node tree compare k))"
proof -
  let ?xs = "rb_inorder (rb_root tree)"
  have wf: "rb_wf tree" and sorted: "keys_sorted compare ?xs"
    using assms(2) by (simp_all add: rb_sorted_def)
  obtain inserted slot tree' where
    ins: "cucon_rbtree_insert1m_mem (slot_compare compare key) (key, rest) tree = Some (inserted, slot, tree')"
      "rb_wf tree'"
    and ys: "list_insert (slot_compare compare key) (key, rest) ?xs = (inserted, slot, rb_inorder (rb_root tree'))"
    using insert1m_correct [OF wf assms(3) rb_sorted_cut [OF ord assms(2)]] by metis
  have sorted': "rb_sorted compare tree'"
    using ordered_keys.insert_sorted [OF ord sorted ys] ins(2) by (simp add: rb_sorted_def)
  have "length (rb_inorder (rb_root tree')) = length ?xs + (if inserted then 1 else 0)"
    by (rule list_insert_length [OF ys])
  then have count: "rb_count (rb_root tree') = rb_count (rb_root tree) + (if inserted then 1 else 0)"
    by simp
  then have "cucon_rbtree_size tree' = cucon_rbtree_size tree + (if inserted then 1 else 0)"
    using wf ins(2) by (simp add: rb_wf_def)
  moreover have "inserted = (list_lookup compare key ?xs = None)"
    "slot = (case list_lookup compare key ?xs of None \<Rightarrow> (key, rest) | Some s \<Rightarrow> s)"
    using ys by (auto simp: list_insert_def split: option.splits)
  ultimately show ?thesis
    using ins(1) sorted' count ordered_keys.lookup_insert [OF ord ys]
    by (simp add: find2p_node_lookup [OF ord] assms(2) cucon_rbtree_insert2p_node_def)
qed

text \<open>C7: Inserting a key with \<^verbatim>\<open>cucon_rbtree_insert2p_node\<close> into a sorted tree returns, keeps the
  red-black invariants and the order, reports whether the key was missing, gives the slot of the key found or
  else made, and changes the lookup of that key only; the size grows by one exactly when a node was made.
\<close>

theorem rbtree_insert2p_correct:
  assumes "ordered_keys compare" "rb_sorted compare tree" "rb_count (rb_root tree) + 1 < 2 ^ 64"
  shows "\<exists>inserted slot tree'.
    cucon_rbtree_insert2p_node compare key rest tree = Some (inserted, slot, tree') \<and>
    rb_sorted compare tree' \<and>
    inserted = (cucon_rbtree_find2p_node tree compare key = None) \<and>
    slot = (case cucon_rbtree_find2p_node tree compare key of None \<Rightarrow> (key, rest) | Some s \<Rightarrow> s) \<and>
    cucon_rbtree_size tree' = cucon_rbtree_size tree + (if inserted then 1 else 0) \<and>
    (\<forall>k. cucon_rbtree_find2p_node tree' compare k =
       (if compare k key = 0 then Some slot else cucon_rbtree_find2p_node tree compare k))"
  using insert2p_node_correct [OF assms] by blast

definition sample_tree :: "(u64 \<times> nat) rbtree" where
  "sample_tree = \<lparr>rb_root = RbNode 4 (RbNode 1 RbNull (2, 20) RbNull) (5, 50)
     (RbNode 1 RbNull (7, 70) (RbNode 0 RbNull (9, 90) RbNull))\<rparr>"

lemma sample_tree_sorted: "rb_sorted cu_size_cmp sample_tree"
  by (simp add: sample_tree_def rb_sorted_def rb_wf_def cucon_rbtree_size_def keys_sorted_def cu_size_cmp_def
      black_step_def)

lemma sample_tree_count: "rb_count (rb_root sample_tree) + 1 < 2 ^ 64"
  by (simp add: sample_tree_def)

theorem rbtree_insert2p_correct_witness:
  "\<exists>inserted slot tree'.
    cucon_rbtree_insert2p_node cu_size_cmp 8 80 sample_tree = Some (inserted, slot, tree') \<and>
    rb_sorted cu_size_cmp tree' \<and>
    inserted = (cucon_rbtree_find2p_node sample_tree cu_size_cmp 8 = None) \<and>
    slot = (case cucon_rbtree_find2p_node sample_tree cu_size_cmp 8 of None \<Rightarrow> (8, 80) | Some s \<Rightarrow> s) \<and>
    cucon_rbtree_size tree' = cucon_rbtree_size sample_tree + (if inserted then 1 else 0) \<and>
    (\<forall>k. cucon_rbtree_find2p_node tree' cu_size_cmp k =
       (if cu_size_cmp k 8 = 0 then Some slot else cucon_rbtree_find2p_node sample_tree cu_size_cmp k))"
  by (rule rbtree_insert2p_correct [OF size_keys.ordered_keys_axioms sample_tree_sorted sample_tree_count])

lemma erase2p_correct:
  assumes ord: "ordered_keys compare" and "rb_sorted compare tree" "rb_count (rb_root tree) + 1 < 2 ^ 64"
  shows "\<exists>tree'.
    cucon_rbtree_erase2p compare key tree = Some (cucon_rbtree_find2p_node tree compare key, tree') \<and>
    rb_sorted compare tree' \<and>
    (cucon_rbtree_find2p_node tree compare key = None \<longrightarrow> tree' = tree) \<and>
    (\<forall>k. cucon_rbtree_find2p_node tree' compare k =
       (if compare k key = 0 then None else cucon_rbtree_find2p_node tree compare k))"
proof -
  let ?xs = "rb_inorder (rb_root tree)"
  have wf: "rb_wf tree" and sorted: "keys_sorted compare ?xs"
    using assms(2) by (simp_all add: rb_sorted_def)
  obtain slot tree' where
    del: "rbtree_erase (slot_compare compare key) tree = Some (slot, tree')" "rb_wf tree'"
      "slot = None \<longrightarrow> tree' = tree"
    and ys: "list_erase (slot_compare compare key) ?xs = (slot, rb_inorder (rb_root tree'))"
    using erase_correct [OF wf assms(3) rb_sorted_cut [OF ord assms(2)]] by metis
  have "slot = list_lookup compare key ?xs"
    using ys by (simp add: list_erase_def)
  moreover have "rb_sorted compare tree'"
    using ordered_keys.erase_sorted [OF ord sorted, of key] ys del(2) by (simp add: rb_sorted_def)
  moreover have "list_lookup compare k (rb_inorder (rb_root tree')) =
      (if compare k key = 0 then None else list_lookup compare k ?xs)" for k
    using ordered_keys.lookup_erase [OF ord, of k key ?xs] ys by simp
  ultimately show ?thesis
    using del by (simp add: find2p_node_lookup [OF ord] assms(2) cucon_rbtree_erase2p_def)
qed

text \<open>C8: Erasing a key with \<^verbatim>\<open>cucon_rbtree_erase2p\<close> from a sorted tree returns, gives the slot that had the
  key or nothing, keeps the red-black invariants and the order, and changes the lookup of that key only.
\<close>

theorem rbtree_erase2p_correct:
  assumes "ordered_keys compare" "rb_sorted compare tree" "rb_count (rb_root tree) + 1 < 2 ^ 64"
  shows "\<exists>tree'.
    cucon_rbtree_erase2p compare key tree = Some (cucon_rbtree_find2p_node tree compare key, tree') \<and>
    rb_sorted compare tree' \<and>
    (cucon_rbtree_find2p_node tree compare key = None \<longrightarrow> tree' = tree) \<and>
    (\<forall>k. cucon_rbtree_find2p_node tree' compare k =
       (if compare k key = 0 then None else cucon_rbtree_find2p_node tree compare k))"
  by (rule erase2p_correct [OF assms])

theorem rbtree_erase2p_correct_witness:
  "\<exists>tree'.
    cucon_rbtree_erase2p cu_size_cmp 5 sample_tree =
      Some (cucon_rbtree_find2p_node sample_tree cu_size_cmp 5, tree') \<and>
    rb_sorted cu_size_cmp tree' \<and>
    (cucon_rbtree_find2p_node sample_tree cu_size_cmp 5 = None \<longrightarrow> tree' = sample_tree) \<and>
    (\<forall>k. cucon_rbtree_find2p_node tree' cu_size_cmp k =
       (if cu_size_cmp k 5 = 0 then None else cucon_rbtree_find2p_node sample_tree cu_size_cmp k))"
  by (rule rbtree_erase2p_correct [OF size_keys.ordered_keys_axioms sample_tree_sorted sample_tree_count])

section \<open>The stack\<close>

text \<open>C24: The height of a tree of \<open>n\<close> nodes is at most twice the logarithm of \<open>n + 1\<close>, and the stack
  that insertion and erasure allocate has at least three entries more than the height: one for the null
  pointer above the root, one for a new node and one for the node the erasure pushes again.
\<close>

theorem rbtree_stack_suffices:
  assumes "rb_wf tree" "rb_count (rb_root tree) + 1 < 2 ^ 64"
  shows "\<exists>stack_size. rb_stack_size (cucon_rbtree_size tree) = Some stack_size \<and>
    rb_height (rb_root tree) + 3 \<le> stack_size \<and>
    2 ^ ((rb_height (rb_root tree) + 1) div 2) \<le> rb_count (rb_root tree) + 1"
proof -
  let ?t = "rb_root tree"
  have bal: "balanced ?t" using assms(1) by (simp add: rb_wf_def)
  have "rb_height ?t \<le> 2 * black_height ?t"
    using rb_height_black_height [OF bal] rb_wf_root_black [OF assms(1)] by simp
  then have "(rb_height ?t + 1) div 2 \<le> black_height ?t"
    by linarith
  then have "(2::nat) ^ ((rb_height ?t + 1) div 2) \<le> 2 ^ black_height ?t"
    by (rule power_increasing) simp
  also have "\<dots> \<le> rb_count ?t + 1"
    using count_black_height [OF bal] by simp
  finally have "2 ^ ((rb_height ?t + 1) div 2) \<le> rb_count ?t + 1" .
  then show ?thesis
    using rb_stack_size_bound [OF assms] by blast
qed

theorem rbtree_stack_suffices_witness:
  "\<exists>stack_size. rb_stack_size (cucon_rbtree_size sample_tree) = Some stack_size \<and>
    rb_height (rb_root sample_tree) + 3 \<le> stack_size \<and>
    2 ^ ((rb_height (rb_root sample_tree) + 1) div 2) \<le> rb_count (rb_root sample_tree) + 1"
  using rbtree_stack_suffices [OF _ sample_tree_count] sample_tree_sorted by (simp add: rb_sorted_def)

section \<open>Constructive insertion\<close>

text \<open>The constructive insertion with a copier that keeps slots computes the same result and the same tree as the
  destructive one, on every tree that satisfies the invariants.
\<close>

theorem rbtree_cinsert_equivalent:
  assumes "rb_wf tree" "rb_count (rb_root tree) + 1 < 2 ^ 64"
  shows "cucon_rbtree_cinsert1m_mem compare (\<lambda>slot. slot) new tree = cucon_rbtree_insert1m_mem compare new tree"
  by (rule cinsert1m_is_insert1m [OF assms])

theorem rbtree_cinsert_equivalent_witness:
  "cucon_rbtree_cinsert1m_mem (slot_compare cu_size_cmp 8) (\<lambda>slot. slot) (8, 80) sample_tree =
   cucon_rbtree_insert1m_mem (slot_compare cu_size_cmp 8) (8, 80) sample_tree"
  using rbtree_cinsert_equivalent [OF _ sample_tree_count] sample_tree_sorted by (simp add: rb_sorted_def)

section \<open>Nearest keys\<close>

lemma last_or_None: "last_or xs None = None \<longleftrightarrow> xs = []" "first_or xs None = None \<longleftrightarrow> xs = []"
  by (simp_all add: last_or_def first_or_def)

lemma keys_sorted_last:
  assumes "keys_sorted compare xs" "last_or xs None = Some s" "s' \<in> set xs" "s' \<noteq> s"
  shows "compare (fst s') (fst s) < 0"
proof -
  obtain ys where "xs = ys @ [s]"
    using assms(2) by (metis last_or_def append_butlast_last_id option.distinct(1) option.inject)
  then show ?thesis
    using assms by (auto simp: keys_sorted_def sorted_wrt_append)
qed

lemma keys_sorted_first:
  assumes "keys_sorted compare xs" "first_or xs None = Some s" "s' \<in> set xs" "s' \<noteq> s"
  shows "compare (fst s) (fst s') < 0"
  using assms by (cases xs) (auto simp: keys_sorted_def first_or_def)

lemma last_or_mem: "last_or xs None = Some s \<Longrightarrow> s \<in> set xs" "first_or xs None = Some s \<Longrightarrow> s \<in> set xs"
  by (auto simp: last_or_def first_or_def split: if_splits)

text \<open>\<^verbatim>\<open>cucon_rbtree_nearest2p\<close> on a sorted tree gives the slot with the greatest key below the
  argument, the slot with an equal key, and the slot with the least key above it, each when there is one.
\<close>

theorem rbtree_nearest2p_correct:
  assumes "ordered_keys compare" "rb_sorted compare tree"
    and "cucon_rbtree_nearest2p tree compare key = (below, equal, abv)"
  shows "equal = cucon_rbtree_find2p_node tree compare key \<and>
    (case below of
       None \<Rightarrow> \<forall>s \<in> set (rb_inorder (rb_root tree)). compare key (fst s) \<le> 0
     | Some b \<Rightarrow> b \<in> set (rb_inorder (rb_root tree)) \<and> compare key (fst b) > 0 \<and>
         (\<forall>s \<in> set (rb_inorder (rb_root tree)). compare key (fst s) > 0 \<longrightarrow> s = b \<or> compare (fst s) (fst b) < 0)) \<and>
    (case abv of
       None \<Rightarrow> \<forall>s \<in> set (rb_inorder (rb_root tree)). compare key (fst s) \<ge> 0
     | Some a \<Rightarrow> a \<in> set (rb_inorder (rb_root tree)) \<and> compare key (fst a) < 0 \<and>
         (\<forall>s \<in> set (rb_inorder (rb_root tree)). compare key (fst s) < 0 \<longrightarrow> s = a \<or> compare (fst a) (fst s) < 0))"
proof -
  let ?xs = "rb_inorder (rb_root tree)"
  let ?lo = "filter (\<lambda>v. slot_compare compare key v > 0) ?xs"
  let ?hi = "filter (\<lambda>v. slot_compare compare key v < 0) ?xs"
  have out: "below = last_or ?lo None" "abv = first_or ?hi None" "equal = list_lookup compare key ?xs"
    using assms(3) unfolding cucon_rbtree_nearest2p_def
      rbnode_nearest_correct [OF rb_sorted_cut [OF assms(1,2)]] by simp_all
  have sorted: "keys_sorted compare ?lo" "keys_sorted compare ?hi"
    using assms(2) by (simp_all add: rb_sorted_def keys_sorted_def sorted_wrt_filter)
  have "case below of
       None \<Rightarrow> \<forall>s \<in> set ?xs. compare key (fst s) \<le> 0
     | Some b \<Rightarrow> b \<in> set ?xs \<and> compare key (fst b) > 0 \<and>
         (\<forall>s \<in> set ?xs. compare key (fst s) > 0 \<longrightarrow> s = b \<or> compare (fst s) (fst b) < 0)"
  proof (cases below)
    case None
    then show ?thesis using out(1) last_or_None(1) [of ?lo] by (auto simp: filter_empty_conv not_less)
  next
    case (Some b)
    with out(1) have b: "last_or ?lo None = Some b" by simp
    then have "b \<in> set ?lo" by (rule last_or_mem)
    then show ?thesis
      using Some keys_sorted_last [OF sorted(1) b] by auto
  qed
  moreover have "case abv of
       None \<Rightarrow> \<forall>s \<in> set ?xs. compare key (fst s) \<ge> 0
     | Some a \<Rightarrow> a \<in> set ?xs \<and> compare key (fst a) < 0 \<and>
         (\<forall>s \<in> set ?xs. compare key (fst s) < 0 \<longrightarrow> s = a \<or> compare (fst a) (fst s) < 0)"
  proof (cases abv)
    case None
    then show ?thesis using out(2) last_or_None(2) [of ?hi] by (auto simp: filter_empty_conv not_less)
  next
    case (Some a)
    with out(2) have a: "first_or ?hi None = Some a" by simp
    then have "a \<in> set ?hi" by (rule last_or_mem)
    then show ?thesis
      using Some keys_sorted_first [OF sorted(2) a] by auto
  qed
  ultimately show ?thesis
    by (simp only: out(3) find2p_node_lookup [OF assms(1,2)])
qed

theorem rbtree_nearest2p_correct_witness:
  "cucon_rbtree_nearest2p sample_tree cu_size_cmp 7 = (Some (5, 50), Some (7, 70), Some (9, 90)) \<and>
   Some (7, 70) = cucon_rbtree_find2p_node sample_tree cu_size_cmp 7"
proof -
  have near: "cucon_rbtree_nearest2p sample_tree cu_size_cmp 7 = (Some (5, 50), Some (7, 70), Some (9, 90))"
    by code_simp
  show ?thesis
    using rbtree_nearest2p_correct [OF size_keys.ordered_keys_axioms sample_tree_sorted near] near by simp
qed

section \<open>Iteration\<close>

text \<open>The iterators call the callback on the slots in the order of the tree or in the reverse
  order, the conjunctions up to the first call that returns false.
\<close>

theorem rbtree_iteration_order:
  "cucon_rbtree_iter_mem tree f s = fold f (rb_inorder (rb_root tree)) s \<and>
   cucon_rbtree_rev_iter_mem tree f s = fold f (rev (rb_inorder (rb_root tree))) s \<and>
   cucon_rbtree_conj_mem tree cb s = conj_list cb (rb_inorder (rb_root tree)) s \<and>
   cucon_rbtree_rev_conj_mem tree cb s = conj_list cb (rev (rb_inorder (rb_root tree))) s"
  by (simp_all add: cucon_rbtree_iter_mem_def cucon_rbtree_rev_iter_mem_def cucon_rbtree_conj_mem_def
      cucon_rbtree_rev_conj_mem_def rbnode_iter_inorder rbnode_rev_iter_inorder rbnode_conj_inorder
      rbnode_rev_conj_inorder)

section \<open>Merging\<close>

text \<open>\<^verbatim>\<open>cucon_rbtree_merge2p\<close> does not insert the elements of the source: it inserts the words that
  they point to. Merging the set of one element \<open>v\<close> into the empty set gives the set whose element is
  the word at the address \<open>v\<close>.
\<close>

theorem rbtree_merge_inserts_pointees:
  "cucon_rbtree_merge2p load cucon_rbtree_init \<lparr>rb_root = RbNode 1 RbNull (v, ()) RbNull\<rparr> cmp =
     Some \<lparr>rb_root = RbNode 1 RbNull (load v, ()) RbNull\<rparr>"
proof -
  have "cu_uint64_floor_log2 1 = Some 0" by code_simp
  then show ?thesis
    by (simp add: cucon_rbtree_merge2p_def cucon_rbtree_iter_ptr_def merge_ptr_cb_def
        cucon_rbtree_insert2p_ptr_def cucon_rbtree_insert2p_node_def cucon_rbtree_insert1m_mem_def
        cucon_rbtree_init_def cucon_rbtree_size_def rb_stack_size_def rbtree_rebalance_dtive_def)
qed

end
