(* ===== verification/Rbmap.thy ===== *)
theory Rbmap
  imports RbtreeDict
begin

text \<open>
  The sets of \<^verbatim>\<open>cucon/rbset.c\<close>, \<^verbatim>\<open>cucon/rbset.h\<close> and the maps of \<^verbatim>\<open>cucon/rbmap.c\<close>: a red-black tree with
  the comparison that orders it. The slot of a set is the element, that of a map is the key and
  what follows it. The result \<open>None\<close> of an operation is that of the tree.
\<close>

record 'k rbset =
  rbset_tree :: "('k \<times> unit) rbtree"
  rbset_cmp :: "'k \<Rightarrow> 'k \<Rightarrow> int"

record ('k, 'v) rbmap =
  rbmap_tree :: "('k \<times> 'v) rbtree"
  rbmap_cmp :: "'k \<Rightarrow> 'k \<Rightarrow> int"

section \<open>Sets\<close>

definition cucon_rbset_init :: "('k \<Rightarrow> 'k \<Rightarrow> int) \<Rightarrow> 'k rbset" where
  "cucon_rbset_init cmp = \<lparr>rbset_tree = cucon_rbtree_init, rbset_cmp = cmp\<rparr>"

definition cucon_rbset_new :: "('k \<Rightarrow> 'k \<Rightarrow> int) \<Rightarrow> 'k rbset" where
  "cucon_rbset_new cmp = \<lparr>rbset_tree = cucon_rbtree_init, rbset_cmp = cmp\<rparr>"

definition cucon_rbset_is_empty :: "'k rbset \<Rightarrow> bool" where
  "cucon_rbset_is_empty rbset \<longleftrightarrow> cucon_rbtree_is_empty (rbset_tree rbset)"

definition cucon_rbset_insert :: "'k rbset \<Rightarrow> 'k \<Rightarrow> (bool \<times> 'k rbset) option" where
  "cucon_rbset_insert rbset key =
     do {
       (inserted, key, tree) \<leftarrow> cucon_rbtree_insert2p_ptr (rbset_cmp rbset) key (rbset_tree rbset);
       Some (inserted, rbset\<lparr>rbset_tree := tree\<rparr>)
     }"

definition cucon_rbset_erase :: "'k rbset \<Rightarrow> 'k \<Rightarrow> (bool \<times> 'k rbset) option" where
  "cucon_rbset_erase rbset key =
     do {
       (node, tree) \<leftarrow> cucon_rbtree_erase2p (rbset_cmp rbset) key (rbset_tree rbset);
       Some (node \<noteq> None, rbset\<lparr>rbset_tree := tree\<rparr>)
     }"

definition cucon_rbset_find :: "'k rbset \<Rightarrow> 'k \<Rightarrow> 'k option" where
  "cucon_rbset_find rbset key = cucon_rbtree_find2p_ptr (rbset_tree rbset) (rbset_cmp rbset) key"

definition cucon_rbset_nearest :: "'k rbset \<Rightarrow> 'k \<Rightarrow> 'k option \<times> 'k option \<times> 'k option" where
  "cucon_rbset_nearest rbset key =
     (case cucon_rbtree_nearest2p (rbset_tree rbset) (rbset_cmp rbset) key of
        (below, equal, abv) \<Rightarrow> (map_option fst below, map_option fst equal, map_option fst abv))"

definition cucon_rbset_iter :: "'k rbset \<Rightarrow> ('k \<Rightarrow> 's \<Rightarrow> 's) \<Rightarrow> 's \<Rightarrow> 's" where
  "cucon_rbset_iter rbset cb = cucon_rbtree_iter_ptr (rbset_tree rbset) cb"

definition cucon_rbset_rev_iter :: "'k rbset \<Rightarrow> ('k \<Rightarrow> 's \<Rightarrow> 's) \<Rightarrow> 's \<Rightarrow> 's" where
  "cucon_rbset_rev_iter rbset cb = cucon_rbtree_rev_iter_ptr (rbset_tree rbset) cb"

definition cucon_rbset_conj :: "'k rbset \<Rightarrow> ('k \<Rightarrow> 's \<Rightarrow> bool \<times> 's) \<Rightarrow> 's \<Rightarrow> bool \<times> 's" where
  "cucon_rbset_conj rbset cb = cucon_rbtree_conj_ptr (rbset_tree rbset) cb"

definition cucon_rbset_rev_conj :: "'k rbset \<Rightarrow> ('k \<Rightarrow> 's \<Rightarrow> bool \<times> 's) \<Rightarrow> 's \<Rightarrow> bool \<times> 's" where
  "cucon_rbset_rev_conj rbset cb = cucon_rbtree_rev_conj_ptr (rbset_tree rbset) cb"

section \<open>Maps\<close>

definition cucon_rbmap_init :: "('k \<Rightarrow> 'k \<Rightarrow> int) \<Rightarrow> ('k, 'v) rbmap" where
  "cucon_rbmap_init cmp = \<lparr>rbmap_tree = cucon_rbtree_init, rbmap_cmp = cmp\<rparr>"

definition cucon_rbmap_new :: "('k \<Rightarrow> 'k \<Rightarrow> int) \<Rightarrow> ('k, 'v) rbmap" where
  "cucon_rbmap_new cmp = \<lparr>rbmap_tree = cucon_rbtree_init, rbmap_cmp = cmp\<rparr>"

definition cucon_rbmap_size :: "('k, 'v) rbmap \<Rightarrow> u64" where
  "cucon_rbmap_size m = cucon_rbtree_size (rbmap_tree m)"

definition cucon_rbmap_find_mem :: "('k, 'v) rbmap \<Rightarrow> 'k \<Rightarrow> 'v option" where
  "cucon_rbmap_find_mem m key =
     (case cucon_rbtree_find2p_node (rbmap_tree m) (rbmap_cmp m) key of
        Some node \<Rightarrow> Some (snd node)
      | None \<Rightarrow> None)"

text \<open>A value that is a pointer; the null pointer is zero.\<close>

definition cucon_rbmap_find_ptr :: "('k, u64) rbmap \<Rightarrow> 'k \<Rightarrow> u64" where
  "cucon_rbmap_find_ptr m key =
     (case cucon_rbtree_find2p_node (rbmap_tree m) (rbmap_cmp m) key of
        Some node \<Rightarrow> snd node
      | None \<Rightarrow> 0)"

text \<open>The slot of a new key has the content \<open>fresh\<close> until the caller fills it.\<close>

definition cucon_rbmap_insert_mem ::
    "('k, 'v) rbmap \<Rightarrow> 'k \<Rightarrow> 'v \<Rightarrow> (bool \<times> 'v \<times> ('k, 'v) rbmap) option" where
  "cucon_rbmap_insert_mem m key fresh =
     do {
       (st, node, tree) \<leftarrow> cucon_rbtree_insert2p_node (rbmap_cmp m) key fresh (rbmap_tree m);
       Some (st, snd node, m\<lparr>rbmap_tree := tree\<rparr>)
     }"

definition cucon_rbmap_insert_ptr :: "('k, u64) rbmap \<Rightarrow> 'k \<Rightarrow> u64 \<Rightarrow> (bool \<times> ('k, u64) rbmap) option" where
  "cucon_rbmap_insert_ptr m key val =
     do {
       (st, node, tree) \<leftarrow> cucon_rbtree_insert2p_node (rbmap_cmp m) key val (rbmap_tree m);
       Some (st, m\<lparr>rbmap_tree := tree\<rparr>)
     }"

definition cucon_rbmap_erase :: "('k, 'v) rbmap \<Rightarrow> 'k \<Rightarrow> (bool \<times> ('k, 'v) rbmap) option" where
  "cucon_rbmap_erase m key =
     do {
       (node, tree) \<leftarrow> cucon_rbtree_erase2p (rbmap_cmp m) key (rbmap_tree m);
       Some (node \<noteq> None, m\<lparr>rbmap_tree := tree\<rparr>)
     }"

fun rbmap_conj_mem :: "('k \<Rightarrow> 'v \<Rightarrow> 's \<Rightarrow> bool \<times> 's) \<Rightarrow> ('k \<times> 'v) rbnode \<Rightarrow> 's \<Rightarrow> bool \<times> 's" where
  "rbmap_conj_mem cb RbNull s = (True, s)"
| "rbmap_conj_mem cb (RbNode b l slot r) s =
     (case rbmap_conj_mem cb l s of
        (False, s) \<Rightarrow> (False, s)
      | (True, s) \<Rightarrow>
          (case cb (fst slot) (snd slot) s of (False, s) \<Rightarrow> (False, s) | (True, s) \<Rightarrow> rbmap_conj_mem cb r s))"

definition cucon_rbmap_conj_mem :: "('k, 'v) rbmap \<Rightarrow> ('k \<Rightarrow> 'v \<Rightarrow> 's \<Rightarrow> bool \<times> 's) \<Rightarrow> 's \<Rightarrow> bool \<times> 's" where
  "cucon_rbmap_conj_mem m cb = rbmap_conj_mem cb (rb_root (rbmap_tree m))"

fun rbmap_conj_ptr :: "('k \<Rightarrow> u64 \<Rightarrow> 's \<Rightarrow> bool \<times> 's) \<Rightarrow> ('k \<times> u64) rbnode \<Rightarrow> 's \<Rightarrow> bool \<times> 's" where
  "rbmap_conj_ptr cb RbNull s = (True, s)"
| "rbmap_conj_ptr cb (RbNode b l slot r) s =
     (case rbmap_conj_ptr cb l s of
        (False, s) \<Rightarrow> (False, s)
      | (True, s) \<Rightarrow>
          (case cb (fst slot) (snd slot) s of (False, s) \<Rightarrow> (False, s) | (True, s) \<Rightarrow> rbmap_conj_ptr cb r s))"

definition cucon_rbmap_conj_ptr :: "('k, u64) rbmap \<Rightarrow> ('k \<Rightarrow> u64 \<Rightarrow> 's \<Rightarrow> bool \<times> 's) \<Rightarrow> 's \<Rightarrow> bool \<times> 's" where
  "cucon_rbmap_conj_ptr m cb = rbmap_conj_ptr cb (rb_root (rbmap_tree m))"

section \<open>Correctness\<close>

definition rbset_wf :: "'k rbset \<Rightarrow> bool" where
  "rbset_wf rbset \<longleftrightarrow> ordered_keys (rbset_cmp rbset) \<and> rb_sorted (rbset_cmp rbset) (rbset_tree rbset)"

definition rbmap_wf :: "('k, 'v) rbmap \<Rightarrow> bool" where
  "rbmap_wf m \<longleftrightarrow> ordered_keys (rbmap_cmp m) \<and> rb_sorted (rbmap_cmp m) (rbmap_tree m)"

lemma rbmap_conj_nodes: "rbmap_conj_mem cb t s = rbnode_conj (\<lambda>slot. cb (fst slot) (snd slot)) t s"
  by (induction t arbitrary: s) (auto split: prod.split bool.split)

lemma rbmap_conj_ptr_nodes: "rbmap_conj_ptr cb t s = rbnode_conj (\<lambda>slot. cb (fst slot) (snd slot)) t s"
  by (induction t arbitrary: s) (auto split: prod.split bool.split)

theorem rbmap_conj_order:
  "cucon_rbmap_conj_mem m cb s =
     conj_list (\<lambda>slot. cb (fst slot) (snd slot)) (rb_inorder (rb_root (rbmap_tree m))) s"
  "cucon_rbmap_conj_ptr m' cb' s =
     conj_list (\<lambda>slot. cb' (fst slot) (snd slot)) (rb_inorder (rb_root (rbmap_tree m'))) s"
  by (simp_all add: cucon_rbmap_conj_mem_def cucon_rbmap_conj_ptr_def rbmap_conj_nodes rbmap_conj_ptr_nodes
      rbnode_conj_inorder)

lemma rbset_find_node:
  "cucon_rbset_find rbset key = map_option fst (cucon_rbtree_find2p_node (rbset_tree rbset) (rbset_cmp rbset) key)"
  by (simp add: cucon_rbset_find_def cucon_rbtree_find2p_ptr_def cucon_rbtree_find2p_node_def)

text \<open>Inserting an element into a well-formed set returns, tells whether no equal element was
  there, keeps the set well-formed and makes exactly the elements equal to the key found: as the element
  that was there, or else as the key.
\<close>

theorem rbset_insert_correct:
  assumes "rbset_wf rbset" "rb_count (rb_root (rbset_tree rbset)) + 1 < 2 ^ 64"
  shows "\<exists>rbset'. cucon_rbset_insert rbset key = Some (cucon_rbset_find rbset key = None, rbset') \<and>
    rbset_wf rbset' \<and>
    (\<forall>k. cucon_rbset_find rbset' k =
       (if rbset_cmp rbset k key \<noteq> 0 then cucon_rbset_find rbset k
        else case cucon_rbset_find rbset key of None \<Rightarrow> Some key | Some old \<Rightarrow> Some old))"
proof -
  have ord: "ordered_keys (rbset_cmp rbset)" and sorted: "rb_sorted (rbset_cmp rbset) (rbset_tree rbset)"
    using assms(1) by (simp_all add: rbset_wf_def)
  obtain inserted slot tree' where
    ins: "cucon_rbtree_insert2p_node (rbset_cmp rbset) key () (rbset_tree rbset) = Some (inserted, slot, tree')"
    and post: "rb_sorted (rbset_cmp rbset) tree'"
      "inserted = (cucon_rbtree_find2p_node (rbset_tree rbset) (rbset_cmp rbset) key = None)"
      "slot = (case cucon_rbtree_find2p_node (rbset_tree rbset) (rbset_cmp rbset) key of
         None \<Rightarrow> (key, ()) | Some s \<Rightarrow> s)"
      "\<And>k. cucon_rbtree_find2p_node tree' (rbset_cmp rbset) k =
         (if rbset_cmp rbset k key = 0 then Some slot
          else cucon_rbtree_find2p_node (rbset_tree rbset) (rbset_cmp rbset) k)"
    using insert2p_node_correct [OF ord sorted assms(2), of key "()"] by blast
  have "cucon_rbset_insert rbset key = Some (inserted, rbset\<lparr>rbset_tree := tree'\<rparr>)"
    using ins by (cases inserted) (auto simp: cucon_rbset_insert_def cucon_rbtree_insert2p_ptr_def)
  moreover have "rbset_wf (rbset\<lparr>rbset_tree := tree'\<rparr>)"
    using ord post(1) by (simp add: rbset_wf_def)
  moreover have "cucon_rbset_find (rbset\<lparr>rbset_tree := tree'\<rparr>) k =
       (if rbset_cmp rbset k key \<noteq> 0 then cucon_rbset_find rbset k
        else case cucon_rbset_find rbset key of None \<Rightarrow> Some key | Some old \<Rightarrow> Some old)" for k
    by (auto simp: rbset_find_node post(3,4) split: option.split)
  ultimately show ?thesis
    by (simp add: rbset_find_node post(2))
qed

theorem rbset_insert_correct_witness:
  "\<exists>rbset'. cucon_rbset_insert (cucon_rbset_new cu_size_cmp) 7 =
      Some (cucon_rbset_find (cucon_rbset_new cu_size_cmp) 7 = None, rbset') \<and>
    rbset_wf rbset' \<and>
    (\<forall>k. cucon_rbset_find rbset' k =
       (if rbset_cmp (cucon_rbset_new cu_size_cmp) k 7 \<noteq> 0 then cucon_rbset_find (cucon_rbset_new cu_size_cmp) k
        else case cucon_rbset_find (cucon_rbset_new cu_size_cmp) 7 of None \<Rightarrow> Some 7 | Some old \<Rightarrow> Some old))"
  by (rule rbset_insert_correct)
    (simp_all add: rbset_wf_def cucon_rbset_new_def size_keys.ordered_keys_axioms,
      simp add: cucon_rbtree_init_def)

text \<open>C25: In a map with pointer values, inserting a value tells whether the key was missing, and then
  only the lookup of that key changes, to the value; erasing the key again gives back every lookup.
\<close>

theorem rbmap_insert_erase_roundtrip:
  assumes "rbmap_wf m" "rb_count (rb_root (rbmap_tree m)) + 2 < 2 ^ 64"
    and "cucon_rbmap_find_mem m key = None"
  shows "\<exists>m' m''. cucon_rbmap_insert_ptr m key val = Some (True, m') \<and>
    rbmap_wf m' \<and> cucon_rbmap_size m' = cucon_rbmap_size m + 1 \<and>
    (\<forall>k. cucon_rbmap_find_ptr m' k =
       (if rbmap_cmp m k key = 0 then val else cucon_rbmap_find_ptr m k)) \<and>
    cucon_rbmap_erase m' key = Some (True, m'') \<and> rbmap_wf m'' \<and>
    (\<forall>k. cucon_rbmap_find_mem m'' k = cucon_rbmap_find_mem m k)"
proof -
  let ?cmp = "rbmap_cmp m" and ?t = "rbmap_tree m"
  have ord: "ordered_keys ?cmp" and sorted: "rb_sorted ?cmp ?t"
    using assms(1) by (simp_all add: rbmap_wf_def)
  have none: "cucon_rbtree_find2p_node ?t ?cmp key = None"
    using assms(3) by (simp add: cucon_rbmap_find_mem_def split: option.splits)
  obtain t1 where ins: "cucon_rbtree_insert2p_node ?cmp key val ?t = Some (True, (key, val), t1)"
      "rb_sorted ?cmp t1" "cucon_rbtree_size t1 = cucon_rbtree_size ?t + 1" "rb_count (rb_root t1) = rb_count (rb_root ?t) + 1"
      "\<And>k. cucon_rbtree_find2p_node t1 ?cmp k =
         (if ?cmp k key = 0 then Some (key, val) else cucon_rbtree_find2p_node ?t ?cmp k)"
    using insert2p_node_correct [OF ord sorted, of key val] assms(2) none by auto
  obtain t2 where del: "cucon_rbtree_erase2p ?cmp key t1 = Some (Some (key, val), t2)" "rb_sorted ?cmp t2"
      "\<And>k. cucon_rbtree_find2p_node t2 ?cmp k = (if ?cmp k key = 0 then None else cucon_rbtree_find2p_node t1 ?cmp k)"
    using erase2p_correct [OF ord ins(2), of key] assms(2) ins(4,5) ordered_keys.refl_zero [OF ord, of key] by auto
  have same: "cucon_rbtree_find2p_node ?t ?cmp k = None" if "?cmp k key = 0" for k
    using none ordered_keys.lookup_cong [OF ord that, of "rb_inorder (rb_root ?t)"]
    by (simp add: find2p_node_lookup [OF ord sorted])
  have lookup: "cucon_rbtree_find2p_node t2 ?cmp k = cucon_rbtree_find2p_node ?t ?cmp k" for k
    using same by (simp add: del(3) ins(5))
  have "cucon_rbmap_insert_ptr m key val = Some (True, m\<lparr>rbmap_tree := t1\<rparr>)"
    by (simp add: cucon_rbmap_insert_ptr_def ins(1))
  moreover have "cucon_rbmap_erase (m\<lparr>rbmap_tree := t1\<rparr>) key = Some (True, m\<lparr>rbmap_tree := t2\<rparr>)"
    by (simp add: cucon_rbmap_erase_def del(1))
  ultimately show ?thesis
    using ord ins(2,3) del(2)
    by (intro exI [of _ "m\<lparr>rbmap_tree := t1\<rparr>"] exI [of _ "m\<lparr>rbmap_tree := t2\<rparr>"])
      (simp add: rbmap_wf_def cucon_rbmap_size_def cucon_rbmap_find_ptr_def cucon_rbmap_find_mem_def ins(5) lookup)
qed

theorem rbmap_insert_erase_roundtrip_witness:
  "\<exists>m' m''. cucon_rbmap_insert_ptr (cucon_rbmap_new cu_size_cmp) 7 70 = Some (True, m') \<and>
    rbmap_wf m' \<and> cucon_rbmap_size m' = cucon_rbmap_size (cucon_rbmap_new cu_size_cmp :: (u64, u64) rbmap) + 1 \<and>
    (\<forall>k. cucon_rbmap_find_ptr m' k = (if rbmap_cmp (cucon_rbmap_new cu_size_cmp :: (u64, u64) rbmap) k 7 = 0 then 70
       else cucon_rbmap_find_ptr (cucon_rbmap_new cu_size_cmp) k)) \<and>
    cucon_rbmap_erase m' 7 = Some (True, m'') \<and> rbmap_wf m'' \<and>
    (\<forall>k. cucon_rbmap_find_mem m'' k = cucon_rbmap_find_mem (cucon_rbmap_new cu_size_cmp) k)"
  by (rule rbmap_insert_erase_roundtrip)
    (simp_all add: rbmap_wf_def cucon_rbmap_new_def size_keys.ordered_keys_axioms cucon_rbmap_find_mem_def,
      simp_all add: cucon_rbtree_init_def cucon_rbtree_find2p_node_def)

end
