(* ===== verification/CuStr.thy ===== *)
theory CuStr
  imports CLib "HOL-Library.Monad_Syntax"
begin

text \<open>
  The byte strings of \<^verbatim>\<open>cu/str.c\<close>. A string is an object that points into a block of memory, with
  a length and a capacity. Several strings share a block after copying; the one with a
  nonzero capacity may write behind its end. Strings are referred to by their index in the list of
  objects, so that a function may be called with the same string twice; character arrays passed by
  pointer are lists of bytes. The result \<open>None\<close> stands for an access outside a block or a failed check.
\<close>

section \<open>Memory\<close>

type_synonym pointer = "nat \<times> nat"

record cu_str =
  str_arr :: pointer
  str_len :: u64
  str_cap :: u64

text \<open>\<open>uninit\<close> is what a fresh block that is not cleared holds. Block 0 is empty; the null pointer points to it.\<close>

record str_mem =
  blocks :: "u8 list list"
  uninit :: "nat \<Rightarrow> nat \<Rightarrow> u8"
  objs :: "cu_str list"

type_synonym str_ref = nat

abbreviation str_at :: "str_mem \<Rightarrow> str_ref \<Rightarrow> cu_str" where
  "str_at m x \<equiv> objs m ! x"

definition str_upd :: "str_ref \<Rightarrow> (cu_str \<Rightarrow> cu_str) \<Rightarrow> str_mem \<Rightarrow> str_mem" where
  "str_upd x f m = m\<lparr>objs := (objs m)[x := f (objs m ! x)]\<rparr>"

definition ptr_add :: "pointer \<Rightarrow> nat \<Rightarrow> pointer" where
  "ptr_add p n = (fst p, snd p + n)"

definition load :: "str_mem \<Rightarrow> pointer \<Rightarrow> nat \<Rightarrow> u8 list option" where
  "load m p n =
     (if fst p < length (blocks m) \<and> snd p + n \<le> length (blocks m ! fst p)
      then Some (take n (drop (snd p) (blocks m ! fst p))) else None)"

definition overwrite :: "nat \<Rightarrow> u8 list \<Rightarrow> u8 list \<Rightarrow> u8 list" where
  "overwrite off bs block = take off block @ bs @ drop (off + length bs) block"

definition store :: "pointer \<Rightarrow> u8 list \<Rightarrow> str_mem \<Rightarrow> str_mem option" where
  "store p bs m =
     (if fst p < length (blocks m) \<and> snd p + length bs \<le> length (blocks m ! fst p)
      then Some (m\<lparr>blocks := (blocks m)[fst p := overwrite (snd p) bs (blocks m ! fst p)]\<rparr>) else None)"

definition cu_galloc :: "u64 \<Rightarrow> str_mem \<Rightarrow> pointer \<times> str_mem" where
  "cu_galloc n m = ((length (blocks m), 0), m\<lparr>blocks := blocks m @ [replicate (unat n) 0]\<rparr>)"

definition cu_galloc_atomic :: "u64 \<Rightarrow> str_mem \<Rightarrow> pointer \<times> str_mem" where
  "cu_galloc_atomic n m =
     ((length (blocks m), 0),
      m\<lparr>blocks := blocks m @ [map (uninit m (length (blocks m))) [0 ..< unat n]]\<rparr>)"

definition memcpy :: "pointer \<Rightarrow> pointer \<Rightarrow> u64 \<Rightarrow> str_mem \<Rightarrow> str_mem option" where
  "memcpy dst src n m = do { bs \<leftarrow> load m src (unat n); store dst bs m }"

definition memcpy_arr :: "pointer \<Rightarrow> u8 list \<Rightarrow> u64 \<Rightarrow> str_mem \<Rightarrow> str_mem option" where
  "memcpy_arr dst arr n m = (if length arr < unat n then None else store dst (take (unat n) arr) m)"

text \<open>\<open>cu_gnew\<close> for a string: a cleared object.\<close>

definition str_gnew :: "str_mem \<Rightarrow> str_ref \<times> str_mem" where
  "str_gnew m = (length (objs m), m\<lparr>objs := objs m @ [\<lparr>str_arr = (0, 0), str_len = 0, str_cap = 0\<rparr>]\<rparr>)"

section \<open>Construction\<close>

definition cu_str_is_empty :: "str_mem \<Rightarrow> str_ref \<Rightarrow> bool" where
  "cu_str_is_empty m x \<longleftrightarrow> str_len (str_at m x) = 0"

definition cu_str_size :: "str_mem \<Rightarrow> str_ref \<Rightarrow> u64" where
  "cu_str_size m x = str_len (str_at m x)"

definition cu_str_at :: "str_mem \<Rightarrow> str_ref \<Rightarrow> u64 \<Rightarrow> u8 option" where
  "cu_str_at m x i = map_option hd (load m (ptr_add (str_arr (str_at m x)) (unat i)) 1)"

definition cu_str_grab_cap :: "str_ref \<Rightarrow> str_mem \<Rightarrow> u64 \<times> str_mem" where
  "cu_str_grab_cap x m = (str_cap (str_at m x), str_upd x (\<lambda>s. s\<lparr>str_cap := 0\<rparr>) m)"

definition cu_str_set_capacity :: "str_ref \<Rightarrow> u64 \<Rightarrow> str_mem \<Rightarrow> str_mem option" where
  "cu_str_set_capacity x capacity m =
     (let old_arr = str_arr (str_at m x);
          (arr, m) = cu_galloc_atomic capacity (str_upd x (\<lambda>s. s\<lparr>str_cap := capacity\<rparr>) m);
          m = str_upd x (\<lambda>s. s\<lparr>str_arr := arr\<rparr>) m
      in memcpy arr old_arr (str_len (str_at m x)) m)"

definition cu_str_init :: "str_ref \<Rightarrow> str_mem \<Rightarrow> str_mem" where
  "cu_str_init x m = str_upd x (\<lambda>s. \<lparr>str_arr = (0, 0), str_len = 0, str_cap = 0\<rparr>) m"

definition cu_str_new :: "str_mem \<Rightarrow> str_ref \<times> str_mem" where
  "cu_str_new m = (let (x, m) = str_gnew m in (x, cu_str_init x m))"

definition cu_str_init_charr :: "str_ref \<Rightarrow> u8 list \<Rightarrow> u64 \<Rightarrow> str_mem \<Rightarrow> str_mem option" where
  "cu_str_init_charr x ptr n m =
     (let (arr, m) = cu_galloc_atomic (n + 1) m;
          m = str_upd x (\<lambda>s. \<lparr>str_arr = arr, str_len = n, str_cap = n + 1\<rparr>) m
      in do { m \<leftarrow> memcpy_arr arr ptr n m; store (ptr_add arr (unat n)) [0] m })"

definition cu_str_new_charr :: "u8 list \<Rightarrow> u64 \<Rightarrow> str_mem \<Rightarrow> (str_ref \<times> str_mem) option" where
  "cu_str_new_charr ptr n m =
     (let (x, m) = str_gnew m in do { m \<leftarrow> cu_str_init_charr x ptr n m; Some (x, m) })"

definition cu_str_new_cstr :: "u8 list \<Rightarrow> str_mem \<Rightarrow> (str_ref \<times> str_mem) option" where
  "cu_str_new_cstr ptr m = cu_str_new_charr ptr (strlen ptr) m"

text \<open>The static string is a block of its own, which the string does not own.\<close>

definition cu_str_init_static_cstr :: "str_ref \<Rightarrow> pointer \<Rightarrow> str_mem \<Rightarrow> str_mem option" where
  "cu_str_init_static_cstr x cstr m =
     (if fst cstr < length (blocks m) then
        Some (str_upd x (\<lambda>s. \<lparr>str_arr = cstr, str_len = strlen (drop (snd cstr) (blocks m ! fst cstr)), str_cap = 0\<rparr>) m)
      else None)"

definition cu_str_new_static_cstr :: "pointer \<Rightarrow> str_mem \<Rightarrow> (str_ref \<times> str_mem) option" where
  "cu_str_new_static_cstr cstr m =
     (let (x, m) = str_gnew m in do { m \<leftarrow> cu_str_init_static_cstr x cstr m; Some (x, m) })"

definition cu_str_init_uninit :: "str_ref \<Rightarrow> u64 \<Rightarrow> str_mem \<Rightarrow> str_mem" where
  "cu_str_init_uninit x n m =
     (let (arr, m) = cu_galloc_atomic (n + 1) m
      in str_upd x (\<lambda>s. \<lparr>str_arr = arr, str_len = n, str_cap = n + 1\<rparr>) m)"

definition cu_str_new_uninit :: "u64 \<Rightarrow> str_mem \<Rightarrow> str_ref \<times> str_mem" where
  "cu_str_new_uninit n m = (let (x, m) = str_gnew m in (x, cu_str_init_uninit x n m))"

definition cu_str_new_copy :: "str_ref \<Rightarrow> str_mem \<Rightarrow> str_ref \<times> str_mem" where
  "cu_str_new_copy str0 m =
     (let (x, m) = str_gnew m;
          m = str_upd str0 (\<lambda>s. s\<lparr>str_cap := 0\<rparr>) m
      in (x, str_upd x (\<lambda>s. \<lparr>str_arr = str_arr (str_at m str0), str_len = str_len (str_at m str0), str_cap = 0\<rparr>) m))"

definition cu_str_assign :: "str_ref \<Rightarrow> str_ref \<Rightarrow> str_mem \<Rightarrow> str_mem" where
  "cu_str_assign dest src m =
     (let m = str_upd dest (\<lambda>s. \<lparr>str_arr = str_arr (str_at m src), str_len = str_len (str_at m src), str_cap = 0\<rparr>) m
      in str_upd src (\<lambda>s. s\<lparr>str_cap := 0\<rparr>) m)"

section \<open>Concatenation\<close>

definition cu_str_append_str :: "str_ref \<Rightarrow> str_ref \<Rightarrow> str_mem \<Rightarrow> str_mem option" where
  "cu_str_append_str x y m =
     (let newsz = str_len (str_at m x) + str_len (str_at m y); cap = str_cap (str_at m x) in do {
        m \<leftarrow> (if newsz > cap then
                (let cap = (if newsz < cap * 2 then cap * 2 else newsz);
                     old = str_arr (str_at m x);
                     (arr, m) = cu_galloc cap m;
                     m = str_upd x (\<lambda>s. s\<lparr>str_arr := arr, str_cap := cap\<rparr>) m
                 in memcpy arr old (str_len (str_at m x)) m)
              else Some m);
        m \<leftarrow> memcpy (ptr_add (str_arr (str_at m x)) (unat (str_len (str_at m x))))
               (str_arr (str_at m y)) (str_len (str_at m y)) m;
        Some (str_upd x (\<lambda>s. s\<lparr>str_len := newsz\<rparr>) m)
      })"

text \<open>Concatenations that make a new string; where the capacity suffices, it takes over the array of \<open>x\<close>.\<close>

definition cu_str_init_2str :: "str_ref \<Rightarrow> str_ref \<Rightarrow> str_ref \<Rightarrow> str_mem \<Rightarrow> str_mem option" where
  "cu_str_init_2str str x y m =
     (let newsz = str_len (str_at m x) + str_len (str_at m y) in do {
        m \<leftarrow> (if newsz > str_cap (str_at m x) then
                (let (arr, m) = cu_galloc (newsz + 1) m;
                     m = str_upd str (\<lambda>s. \<lparr>str_arr = arr, str_len = newsz, str_cap = newsz + 1\<rparr>) m
                 in memcpy arr (str_arr (str_at m x)) (str_len (str_at m x)) m)
              else
                Some (str_upd x (\<lambda>s. s\<lparr>str_cap := 0\<rparr>)
                  (str_upd str (\<lambda>s. \<lparr>str_arr = str_arr (str_at m x), str_len = newsz, str_cap = str_cap (str_at m x)\<rparr>) m)));
        memcpy (ptr_add (str_arr (str_at m str)) (unat (str_len (str_at m x))))
          (str_arr (str_at m y)) (str_len (str_at m y)) m
      })"

definition cu_str_new_2str :: "str_ref \<Rightarrow> str_ref \<Rightarrow> str_mem \<Rightarrow> (str_ref \<times> str_mem) option" where
  "cu_str_new_2str x y m =
     (let (str, m) = str_gnew m in do { m \<leftarrow> cu_str_init_2str str x y m; Some (str, m) })"

definition cu_str_init_2charr :: "str_ref \<Rightarrow> u8 list \<Rightarrow> u64 \<Rightarrow> u8 list \<Rightarrow> u64 \<Rightarrow> str_mem \<Rightarrow> str_mem option" where
  "cu_str_init_2charr str s0 n0 s1 n1 m =
     (let n = n0 + n1 + 1;
          (arr, m) = cu_galloc n m;
          m = str_upd str (\<lambda>s. \<lparr>str_arr = arr, str_len = n - 1, str_cap = n\<rparr>) m
      in do { m \<leftarrow> memcpy_arr arr s0 n0 m; memcpy_arr (ptr_add arr (unat n0)) s1 n1 m })"

definition cu_str_new_2charr :: "u8 list \<Rightarrow> u64 \<Rightarrow> u8 list \<Rightarrow> u64 \<Rightarrow> str_mem \<Rightarrow> (str_ref \<times> str_mem) option" where
  "cu_str_new_2charr s0 n0 s1 n1 m =
     (let (str, m) = str_gnew m in do { m \<leftarrow> cu_str_init_2charr str s0 n0 s1 n1 m; Some (str, m) })"

definition cu_str_init_3charr ::
    "str_ref \<Rightarrow> u8 list \<Rightarrow> u64 \<Rightarrow> u8 list \<Rightarrow> u64 \<Rightarrow> u8 list \<Rightarrow> u64 \<Rightarrow> str_mem \<Rightarrow> str_mem option" where
  "cu_str_init_3charr str s0 n0 s1 n1 s2 n2 m =
     (let n = n0 + n1 + n2 + 1;
          (arr, m) = cu_galloc n m;
          m = str_upd str (\<lambda>s. \<lparr>str_arr = arr, str_len = n - 1, str_cap = n\<rparr>) m
      in do {
        m \<leftarrow> memcpy_arr arr s0 n0 m;
        m \<leftarrow> memcpy_arr (ptr_add arr (unat n0)) s1 n1 m;
        memcpy_arr (ptr_add arr (unat n0 + unat n1)) s2 n2 m
      })"

definition cu_str_new_3charr ::
    "u8 list \<Rightarrow> u64 \<Rightarrow> u8 list \<Rightarrow> u64 \<Rightarrow> u8 list \<Rightarrow> u64 \<Rightarrow> str_mem \<Rightarrow> (str_ref \<times> str_mem) option" where
  "cu_str_new_3charr s0 n0 s1 n1 s2 n2 m =
     (let (str, m) = str_gnew m in do { m \<leftarrow> cu_str_init_3charr str s0 n0 s1 n1 s2 n2 m; Some (str, m) })"

definition cu_str_init_str_cstr :: "str_ref \<Rightarrow> str_ref \<Rightarrow> u8 list \<Rightarrow> str_mem \<Rightarrow> str_mem option" where
  "cu_str_init_str_cstr str x y m =
     (let n_y = strlen y;
          n_str = str_len (str_at m x) + n_y;
          m = str_upd str (\<lambda>s. s\<lparr>str_len := n_str\<rparr>) m;
          (has_room, m) =
            (if n_str > str_cap (str_at m x) then (False, m)
             else (let (cap, m) = cu_str_grab_cap x m
                   in (\<not> n_str > cap, str_upd str (\<lambda>s. s\<lparr>str_cap := cap\<rparr>) m)))
      in do {
        m \<leftarrow> (if \<not> has_room then
                (let (arr, m) = cu_galloc (n_str + 1) m;
                     m = str_upd str (\<lambda>s. s\<lparr>str_arr := arr, str_cap := n_str + 1\<rparr>) m
                 in memcpy arr (str_arr (str_at m x)) (str_len (str_at m x)) m)
              else Some (str_upd str (\<lambda>s. s\<lparr>str_arr := str_arr (str_at m x)\<rparr>) m));
        memcpy_arr (ptr_add (str_arr (str_at m str)) (unat (str_len (str_at m x)))) y n_y m
      })"

definition cu_str_new_str_cstr :: "str_ref \<Rightarrow> u8 list \<Rightarrow> str_mem \<Rightarrow> (str_ref \<times> str_mem) option" where
  "cu_str_new_str_cstr x y m =
     (let (str, m) = str_gnew m in do { m \<leftarrow> cu_str_init_str_cstr str x y m; Some (str, m) })"

definition cu_str_init_cstr_str :: "str_ref \<Rightarrow> u8 list \<Rightarrow> str_ref \<Rightarrow> str_mem \<Rightarrow> str_mem option" where
  "cu_str_init_cstr_str str x y m =
     (let n_x = strlen x;
          n_new = n_x + str_len (str_at m y);
          (arr, m) = cu_galloc (n_new + 1) m;
          m = str_upd str (\<lambda>s. \<lparr>str_arr = arr, str_len = n_new, str_cap = n_new + 1\<rparr>) m
      in do {
        m \<leftarrow> memcpy_arr arr x n_x m;
        memcpy (ptr_add arr (unat n_x)) (str_arr (str_at m y)) (str_len (str_at m y)) m
      })"

definition cu_str_new_cstr_str :: "u8 list \<Rightarrow> str_ref \<Rightarrow> str_mem \<Rightarrow> (str_ref \<times> str_mem) option" where
  "cu_str_new_cstr_str x y m =
     (let (str, m) = str_gnew m in do { m \<leftarrow> cu_str_init_cstr_str str x y m; Some (str, m) })"

definition cu_str_new_2cstr :: "u8 list \<Rightarrow> u8 list \<Rightarrow> str_mem \<Rightarrow> (str_ref \<times> str_mem) option" where
  "cu_str_new_2cstr x y m = cu_str_new_2charr x (strlen x) y (strlen y) m"

definition cu_str_init_str_char :: "str_ref \<Rightarrow> str_ref \<Rightarrow> u8 \<Rightarrow> str_mem \<Rightarrow> str_mem option" where
  "cu_str_init_str_char str x c m =
     (let n = str_len (str_at m x) + 1;
          m = str_upd str (\<lambda>s. s\<lparr>str_len := n\<rparr>) m;
          (has_room, m) =
            (if n > str_cap (str_at m x) then (False, m)
             else (let (cap, m) = cu_str_grab_cap x m
                   in (\<not> n > cap, str_upd str (\<lambda>s. s\<lparr>str_cap := cap\<rparr>) m)))
      in do {
        m \<leftarrow> (if \<not> has_room then
                (let (arr, m) = cu_galloc n m;
                     m = str_upd str (\<lambda>s. s\<lparr>str_arr := arr, str_cap := n\<rparr>) m
                 in memcpy arr (str_arr (str_at m x)) (n - 1) m)
              else Some (str_upd str (\<lambda>s. s\<lparr>str_arr := str_arr (str_at m x)\<rparr>) m));
        store (ptr_add (str_arr (str_at m str)) (unat (n - 1))) [c] m
      })"

definition cu_str_new_str_char :: "str_ref \<Rightarrow> u8 \<Rightarrow> str_mem \<Rightarrow> (str_ref \<times> str_mem) option" where
  "cu_str_new_str_char x c m =
     (let (str, m) = str_gnew m in do { m \<leftarrow> cu_str_init_str_char str x c m; Some (str, m) })"

section \<open>Dynamically typed strings\<close>

text \<open>
  The variants that allocate a dynamically typed object have the same fields behind an object header,
  which the model leaves out.
\<close>

definition cu_str_onew :: "str_mem \<Rightarrow> str_ref \<times> str_mem" where
  "cu_str_onew m = cu_str_new m"

definition cu_str_onew_charr :: "u8 list \<Rightarrow> u64 \<Rightarrow> str_mem \<Rightarrow> (str_ref \<times> str_mem) option" where
  "cu_str_onew_charr ptr n m = cu_str_new_charr ptr n m"

definition cu_str_onew_cstr :: "u8 list \<Rightarrow> str_mem \<Rightarrow> (str_ref \<times> str_mem) option" where
  "cu_str_onew_cstr ptr m = cu_str_new_cstr ptr m"

definition cu_str_onew_static_cstr :: "pointer \<Rightarrow> str_mem \<Rightarrow> (str_ref \<times> str_mem) option" where
  "cu_str_onew_static_cstr cstr m = cu_str_new_static_cstr cstr m"

definition cu_str_onew_uninit :: "u64 \<Rightarrow> str_mem \<Rightarrow> str_ref \<times> str_mem" where
  "cu_str_onew_uninit n m = cu_str_new_uninit n m"

definition cu_str_onew_copy :: "str_ref \<Rightarrow> str_mem \<Rightarrow> str_ref \<times> str_mem" where
  "cu_str_onew_copy str0 m = cu_str_new_copy str0 m"

definition cu_str_onew_2str :: "str_ref \<Rightarrow> str_ref \<Rightarrow> str_mem \<Rightarrow> (str_ref \<times> str_mem) option" where
  "cu_str_onew_2str x y m = cu_str_new_2str x y m"

definition cu_str_onew_2charr :: "u8 list \<Rightarrow> u64 \<Rightarrow> u8 list \<Rightarrow> u64 \<Rightarrow> str_mem \<Rightarrow> (str_ref \<times> str_mem) option" where
  "cu_str_onew_2charr s0 n0 s1 n1 m = cu_str_new_2charr s0 n0 s1 n1 m"

definition cu_str_onew_3charr :: "u8 list \<Rightarrow> u64 \<Rightarrow> u8 list \<Rightarrow> u64 \<Rightarrow> u8 list \<Rightarrow> u64 \<Rightarrow> str_mem \<Rightarrow> (str_ref \<times> str_mem) option" where
  "cu_str_onew_3charr s0 n0 s1 n1 s2 n2 m = cu_str_new_3charr s0 n0 s1 n1 s2 n2 m"

definition cu_str_onew_str_cstr :: "str_ref \<Rightarrow> u8 list \<Rightarrow> str_mem \<Rightarrow> (str_ref \<times> str_mem) option" where
  "cu_str_onew_str_cstr x y m = cu_str_new_str_cstr x y m"

definition cu_str_onew_cstr_str :: "u8 list \<Rightarrow> str_ref \<Rightarrow> str_mem \<Rightarrow> (str_ref \<times> str_mem) option" where
  "cu_str_onew_cstr_str x y m = cu_str_new_cstr_str x y m"

definition cu_str_onew_2cstr :: "u8 list \<Rightarrow> u8 list \<Rightarrow> str_mem \<Rightarrow> (str_ref \<times> str_mem) option" where
  "cu_str_onew_2cstr x y m = cu_str_new_2cstr x y m"

definition cu_str_onew_str_char :: "str_ref \<Rightarrow> u8 \<Rightarrow> str_mem \<Rightarrow> (str_ref \<times> str_mem) option" where
  "cu_str_onew_str_char x c m = cu_str_new_str_char x c m"

section \<open>Substrings and updates\<close>

definition cu_str_assign_substr :: "str_ref \<Rightarrow> u64 \<Rightarrow> u64 \<Rightarrow> str_mem \<Rightarrow> str_mem" where
  "cu_str_assign_substr x pos len m =
     str_upd x (\<lambda>s. \<lparr>str_arr = ptr_add (str_arr s) (unat pos), str_len = len, str_cap = str_cap s - pos\<rparr>) m"

definition cu_str_substr :: "str_ref \<Rightarrow> u64 \<Rightarrow> u64 \<Rightarrow> str_mem \<Rightarrow> (str_ref \<times> str_mem) option" where
  "cu_str_substr x pos len m =
     (let (str, m) = str_gnew m in
      if pos + len \<le> str_len (str_at m x) then
        Some (str, str_upd x (\<lambda>s. s\<lparr>str_cap := 0\<rparr>)
          (str_upd str (\<lambda>s. \<lparr>str_arr = ptr_add (str_arr (str_at m x)) (unat pos), str_len = len, str_cap = 0\<rparr>) m))
      else None)"

definition cu_str_suffix :: "str_ref \<Rightarrow> u64 \<Rightarrow> str_mem \<Rightarrow> (str_ref \<times> str_mem) option" where
  "cu_str_suffix x pos m =
     (let (str, m) = str_gnew m in
      if pos \<le> str_len (str_at m x) then
        Some (str, str_upd x (\<lambda>s. s\<lparr>str_cap := 0\<rparr>)
          (str_upd str (\<lambda>s. \<lparr>str_arr = ptr_add (str_arr (str_at m x)) (unat pos),
             str_len = str_len (str_at m x) - pos, str_cap = 0\<rparr>) m))
      else None)"

definition cu_str_append_char :: "str_ref \<Rightarrow> u8 \<Rightarrow> str_mem \<Rightarrow> str_mem option" where
  "cu_str_append_char dest ch m =
     do {
       m \<leftarrow> (if str_cap (str_at m dest) \<le> str_len (str_at m dest) then
               (let old = str_arr (str_at m dest);
                    cap = 2 * str_len (str_at m dest) + 4;
                    (arr, m) = cu_galloc cap m;
                    m = str_upd dest (\<lambda>s. s\<lparr>str_arr := arr, str_cap := cap\<rparr>) m
                in memcpy arr old (str_len (str_at m dest)) m)
             else Some m);
       m \<leftarrow> store (ptr_add (str_arr (str_at m dest)) (unat (str_len (str_at m dest)))) [ch] m;
       Some (str_upd dest (\<lambda>s. s\<lparr>str_len := str_len s + 1\<rparr>) m)
     }"

definition cu_str_append_charr :: "str_ref \<Rightarrow> u8 list \<Rightarrow> u64 \<Rightarrow> str_mem \<Rightarrow> str_mem option" where
  "cu_str_append_charr dest cstr len m =
     (let newlen = str_len (str_at m dest) + len in do {
        m \<leftarrow> (if newlen > str_cap (str_at m dest) then
                (let old = str_arr (str_at m dest);
                     cap = str_cap (str_at m dest) * 2;
                     cap = (if newlen > cap then newlen else cap);
                     (arr, m) = cu_galloc cap m;
                     m = str_upd dest (\<lambda>s. s\<lparr>str_arr := arr, str_cap := cap\<rparr>) m
                 in memcpy arr old (str_len (str_at m dest)) m)
              else Some m);
        m \<leftarrow> memcpy_arr (ptr_add (str_arr (str_at m dest)) (unat (str_len (str_at m dest)))) cstr len m;
        Some (str_upd dest (\<lambda>s. s\<lparr>str_len := newlen\<rparr>) m)
      })"

definition cu_str_append_cstr :: "str_ref \<Rightarrow> u8 list \<Rightarrow> str_mem \<Rightarrow> str_mem option" where
  "cu_str_append_cstr dest cstr m = cu_str_append_charr dest cstr (strlen cstr) m"

definition cu_str_unappend :: "str_ref \<Rightarrow> u64 \<Rightarrow> str_mem \<Rightarrow> str_mem option" where
  "cu_str_unappend x char_count m =
     (if char_count > str_len (str_at m x) then None
      else Some (str_upd x (\<lambda>s. s\<lparr>str_len := str_len s - char_count\<rparr>) m))"

definition cu_str_insert_substr :: "str_ref \<Rightarrow> str_ref \<Rightarrow> u64 \<Rightarrow> str_mem \<Rightarrow> str_mem option" where
  "cu_str_insert_substr dst src pos m =
     (if pos < str_len (str_at m dst) then do {
        m \<leftarrow> (if str_cap (str_at m dst) = 0 \<or>
                   str_len (str_at m src) + str_len (str_at m dst) > str_cap (str_at m dst)
              then cu_str_set_capacity dst (str_len (str_at m src) + str_len (str_at m dst) + 1) m
              else Some m);
        (let s = ptr_add (str_arr (str_at m dst)) (unat pos) in do {
           m \<leftarrow> memcpy (ptr_add s (unat (str_len (str_at m src)))) s (str_len (str_at m dst) - pos) m;
           m \<leftarrow> memcpy s (str_arr (str_at m src)) (str_len (str_at m src)) m;
           Some (str_upd dst (\<lambda>x. x\<lparr>str_len := str_len x + str_len (str_at m src)\<rparr>) m)
         })
      }
      else None)"

definition cu_str_erase_substr :: "str_ref \<Rightarrow> u64 \<Rightarrow> u64 \<Rightarrow> str_mem \<Rightarrow> str_mem option" where
  "cu_str_erase_substr dst pos len m =
     (let endpos = pos + len in do {
        m \<leftarrow> (if str_cap (str_at m dst) = 0
              then cu_str_set_capacity dst (str_len (str_at m dst) - len + 1) m else Some m);
        (if pos + len \<le> str_len (str_at m dst) then do {
           m \<leftarrow> memcpy (ptr_add (str_arr (str_at m dst)) (unat pos))
                 (ptr_add (str_arr (str_at m dst)) (unat endpos)) (str_len (str_at m dst) - endpos) m;
           Some (str_upd dst (\<lambda>s. s\<lparr>str_len := str_len s - len\<rparr>) m)
         }
         else None)
      })"

text \<open>The result is a pointer to a C string.\<close>

definition cu_str_to_cstr :: "str_ref \<Rightarrow> str_mem \<Rightarrow> (pointer \<times> str_mem) option" where
  "cu_str_to_cstr src m =
     (let (grabbed, m) =
            (if str_cap (str_at m src) > str_len (str_at m src) then
               (let (cap, m) = cu_str_grab_cap src m in (cap \<noteq> 0, m))
             else (False, m))
      in
        if grabbed then do {
          m \<leftarrow> store (ptr_add (str_arr (str_at m src)) (unat (str_len (str_at m src)))) [0] m;
          (let m = str_upd src (\<lambda>s. s\<lparr>str_cap := 0\<rparr>) m in Some (str_arr (str_at m src), m))
        }
        else
          (let (cstr, m) = cu_galloc (str_len (str_at m src) + 1) m in do {
             m \<leftarrow> memcpy cstr (str_arr (str_at m src)) (str_len (str_at m src)) m;
             m \<leftarrow> store (ptr_add cstr (unat (str_len (str_at m src)))) [0] m;
             Some (cstr, m)
           }))"

section \<open>Comparison\<close>

text \<open>The bytes of a string.\<close>

definition str_bytes :: "str_mem \<Rightarrow> str_ref \<Rightarrow> u8 list option" where
  "str_bytes m x = load m (str_arr (str_at m x)) (unat (str_len (str_at m x)))"

definition bytes_cmp :: "u8 list \<Rightarrow> u8 list \<Rightarrow> int" where
  "bytes_cmp xs ys =
     (if length xs = length ys then strncmp (length xs) xs ys
      else if length xs < length ys then
        (let i = strncmp (length xs) xs ys in if i = 0 then -1 else i)
      else
        (let i = strncmp (length ys) xs ys in if i = 0 then 1 else i))"

definition cu_str_cmp :: "str_mem \<Rightarrow> str_ref \<Rightarrow> str_ref \<Rightarrow> int option" where
  "cu_str_cmp m x y = do { xs \<leftarrow> str_bytes m x; ys \<leftarrow> str_bytes m y; Some (bytes_cmp xs ys) }"

definition cu_str_cmp_charr :: "str_mem \<Rightarrow> str_ref \<Rightarrow> u8 list \<Rightarrow> u64 \<Rightarrow> int option" where
  "cu_str_cmp_charr m x y_arr y_size =
     (if str_len (str_at m x) < y_size then Some (-1)
      else if str_len (str_at m x) > y_size then Some 1
      else do {
        xs \<leftarrow> str_bytes m x;
        (if length y_arr < unat y_size then None else Some (memcmp (unat y_size) xs y_arr))
      })"

definition cu_str_cmp_cstr :: "str_mem \<Rightarrow> str_ref \<Rightarrow> u8 list \<Rightarrow> int option" where
  "cu_str_cmp_cstr m x y = cu_str_cmp_charr m x y (strlen y)"

definition cu_str_eq :: "str_mem \<Rightarrow> str_ref \<Rightarrow> str_ref \<Rightarrow> bool option" where
  "cu_str_eq m x y =
     (if str_len (str_at m x) \<noteq> str_len (str_at m y) then Some False
      else do { xs \<leftarrow> str_bytes m x; ys \<leftarrow> str_bytes m y; Some (memcmp (length xs) xs ys = 0) })"

definition PRIME0 :: u64 where "PRIME0 = 10000019"

definition PRIME2 :: u64 where "PRIME2 = 10000103"

text \<open>A plain \<^verbatim>\<open>char\<close> is signed.\<close>

definition cu_str_hash :: "str_mem \<Rightarrow> str_ref \<Rightarrow> u64 option" where
  "cu_str_hash m x =
     do { xs \<leftarrow> str_bytes m x; Some (fold (\<lambda>c h. h * PRIME2 + scast c) xs PRIME0) }"

section \<open>Searching\<close>

definition cu_str_index_none :: u64 where
  "cu_str_index_none = -1"

function str_chr_loop :: "u8 list \<Rightarrow> nat \<Rightarrow> nat \<Rightarrow> u8 \<Rightarrow> u64" where
  "str_chr_loop arr i n ch =
     (if i < n then (if arr ! i = ch then of_nat i else str_chr_loop arr (Suc i) n ch) else cu_str_index_none)"
  by auto

termination by (relation "measure (\<lambda>(arr, i, n, ch). n - i)") auto

declare str_chr_loop.simps [simp del]

fun str_rchr_loop :: "u8 list \<Rightarrow> nat \<Rightarrow> nat \<Rightarrow> u8 \<Rightarrow> u64" where
  "str_rchr_loop arr pos 0 ch = cu_str_index_none"
| "str_rchr_loop arr pos (Suc i) ch =
     (if pos < Suc i then (if arr ! i = ch then of_nat i else str_rchr_loop arr pos i ch) else cu_str_index_none)"

definition cu_str_chr :: "str_mem \<Rightarrow> str_ref \<Rightarrow> u8 \<Rightarrow> u64 option" where
  "cu_str_chr m str ch = do { arr \<leftarrow> str_bytes m str; Some (str_chr_loop arr 0 (length arr) ch) }"

definition cu_str_rchr :: "str_mem \<Rightarrow> str_ref \<Rightarrow> u8 \<Rightarrow> u64 option" where
  "cu_str_rchr m str ch = do { arr \<leftarrow> str_bytes m str; Some (str_rchr_loop arr 0 (length arr) ch) }"

definition cu_str_chr_in_substr :: "str_mem \<Rightarrow> str_ref \<Rightarrow> u64 \<Rightarrow> u64 \<Rightarrow> u8 \<Rightarrow> u64 option" where
  "cu_str_chr_in_substr m str pos len ch =
     (if pos \<le> pos + len \<and> pos + len \<le> str_len (str_at m str) then do {
        arr \<leftarrow> str_bytes m str;
        Some (str_chr_loop arr (unat pos) (unat (pos + len)) ch)
      }
      else None)"

definition cu_str_rchr_in_substr :: "str_mem \<Rightarrow> str_ref \<Rightarrow> u64 \<Rightarrow> u64 \<Rightarrow> u8 \<Rightarrow> u64 option" where
  "cu_str_rchr_in_substr m str pos len ch =
     (if pos \<le> pos + len \<and> pos + len \<le> str_len (str_at m str) then do {
        arr \<leftarrow> str_bytes m str;
        Some (str_rchr_loop arr (unat pos) (unat (pos + len)) ch)
      }
      else None)"

definition cu_str_subeq_charr :: "str_mem \<Rightarrow> str_ref \<Rightarrow> u64 \<Rightarrow> u8 list \<Rightarrow> u64 \<Rightarrow> bool option" where
  "cu_str_subeq_charr m str pos arr len =
     (if pos + len > str_len (str_at m str) then Some False
      else do {
        xs \<leftarrow> load m (ptr_add (str_arr (str_at m str)) (unat pos)) (unat len);
        (if length arr < unat len then None else Some (strncmp (unat len) xs arr = 0))
      })"

definition cu_str_subeq :: "str_mem \<Rightarrow> str_ref \<Rightarrow> u64 \<Rightarrow> str_ref \<Rightarrow> bool option" where
  "cu_str_subeq m str pos substr =
     do { arr \<leftarrow> str_bytes m substr; cu_str_subeq_charr m str pos arr (str_len (str_at m substr)) }"

definition cu_str_subeq_cstr :: "str_mem \<Rightarrow> str_ref \<Rightarrow> u64 \<Rightarrow> u8 list \<Rightarrow> bool option" where
  "cu_str_subeq_cstr m str pos cstr = cu_str_subeq_charr m str pos cstr (strlen cstr)"

section \<open>Spaces, case and quotes\<close>

text \<open>
  The length is kept in an \<^verbatim>\<open>int\<close>, which strings of \<open>2 ^ 31\<close> bytes or more overflow. \<open>str_chop_end\<close> is the loop at the end, for the bytes \<open>s\<close> after the leading spaces.
\<close>

fun str_chop_end :: "u8 list \<Rightarrow> nat \<Rightarrow> nat" where
  "str_chop_end s 0 = 0"
| "str_chop_end s (Suc n) = (if 0 < n \<and> isspace (s ! n) then str_chop_end s n else Suc n)"

definition cu_str_chop_space :: "str_ref \<Rightarrow> str_mem \<Rightarrow> str_mem option" where
  "cu_str_chop_space str m =
     do {
       arr \<leftarrow> str_bytes m str;
       (let s = dropWhile isspace arr;
            n = str_chop_end s (length s)
        in if 2 ^ 31 \<le> length arr then None else Some (str_upd str (\<lambda>x. \<lparr>str_arr = ptr_add (str_arr x) (length arr - length s), str_len = of_nat n,
                  str_cap = str_cap x - (str_len x - of_nat n)\<rparr>) m))
     }"

text \<open>The loops of the case conversions test the length of the new string, which does not change.\<close>

partial_function (option) str_convert_loop ::
    "(u8 \<Rightarrow> u8) \<Rightarrow> str_ref \<Rightarrow> str_ref \<Rightarrow> nat \<Rightarrow> str_mem \<Rightarrow> str_mem option" where
  "str_convert_loop f str newstr i m =
     (if str_len (str_at m newstr) \<noteq> 0 then do {
        c \<leftarrow> load m (ptr_add (str_arr (str_at m str)) i) 1;
        m \<leftarrow> store (ptr_add (str_arr (str_at m newstr)) i) (List.map f c) m;
        str_convert_loop f str newstr (Suc i) m
      }
      else Some m)"

definition cu_str_toupper :: "str_ref \<Rightarrow> str_mem \<Rightarrow> (str_ref \<times> str_mem) option" where
  "cu_str_toupper str m =
     (let (newstr, m) = cu_str_new_uninit (str_len (str_at m str)) m
      in do { m \<leftarrow> str_convert_loop toupper str newstr 0 m; Some (newstr, m) })"

definition cu_str_tolower :: "str_ref \<Rightarrow> str_mem \<Rightarrow> (str_ref \<times> str_mem) option" where
  "cu_str_tolower str m =
     (let (newstr, m) = cu_str_new_uninit (str_len (str_at m str)) m
      in do { m \<leftarrow> str_convert_loop tolower str newstr 0 m; Some (newstr, m) })"

text \<open>The new values of \<open>*pos\<close> and \<open>*len\<close> when a word is found.\<close>

definition cu_str_next_space_delimited :: "str_mem \<Rightarrow> str_ref \<Rightarrow> nat \<Rightarrow> nat \<Rightarrow> (nat \<times> nat) option option" where
  "cu_str_next_space_delimited m str pos len =
     do {
       arr \<leftarrow> str_bytes m str;
       (let s = dropWhile isspace (drop (pos + len) arr) in
        if pos + len > length arr then None
        else if s = [] then Some None
        else Some (Some (length arr - length s, length (takeWhile (\<lambda>c. \<not> isspace c) s))))
     }"

definition quote_char :: "u8 \<Rightarrow> u8 list" where
  "quote_char c =
     (if c = 10 then [92, 110]
      else if c = 9 then [92, 116]
      else if c = 11 then [92, 118]
      else if c = 12 then [92, 102]
      else if c = 8 then [92, 98]
      else if c = 13 then [92, 114]
      else if c = 92 then [92, 92]
      else if c = 34 then [92, 34]
      else [c])"

text \<open>
  The result is written while the source is read: each round of the loop reads the next byte of
  the source. An escape is appended with \<open>cu_str_append_charr\<close>, another character with \<open>cu_str_append_char\<close>.
\<close>

fun str_quote_loop :: "str_ref \<Rightarrow> nat \<Rightarrow> nat \<Rightarrow> str_ref \<Rightarrow> str_mem \<Rightarrow> str_mem option" where
  "str_quote_loop str i 0 res m = Some m"
| "str_quote_loop str i (Suc n) res m =
     do {
       s \<leftarrow> load m (ptr_add (str_arr (str_at m str)) i) 1;
       m \<leftarrow> (if length (quote_char (hd s)) = 2 then cu_str_append_charr res (quote_char (hd s)) 2 m
             else cu_str_append_char res (hd s) m);
       str_quote_loop str (Suc i) n res m
     }"

definition cu_str_quote :: "str_ref \<Rightarrow> str_mem \<Rightarrow> (str_ref \<times> str_mem) option" where
  "cu_str_quote str m =
     do {
       (res, m) \<leftarrow> cu_str_new_charr [34] 1 m;
       m \<leftarrow> str_quote_loop str 0 (unat (str_len (str_at m str))) res m;
       m \<leftarrow> cu_str_append_char res 34 m;
       Some (res, m)
     }"

end
