(* ===== verification/CuStrShare.thy ===== *)
theory CuStrShare
  imports CuStr
begin

text \<open>
  Sharing of the strings of \<^verbatim>\<open>cu/str.c\<close>. Of the strings that share a block at most one has a
  capacity, and no other reaches beyond its end; so what it appends is not seen through the others.
\<close>

section \<open>Blocks\<close>

lemma length_overwrite [simp]: "off + length bs \<le> length block \<Longrightarrow> length (overwrite off bs block) = length block"
  by (simp add: overwrite_def)

lemma overwrite_before:
  "off + length bs \<le> length block \<Longrightarrow> i + n \<le> off \<Longrightarrow> take n (drop i (overwrite off bs block)) = take n (drop i block)"
  by (simp add: overwrite_def drop_take)

lemma overwrite_at:
  assumes "off + length bs \<le> length block" and "i \<le> off" and "n = off - i + length bs"
  shows "take n (drop i (overwrite off bs block)) = take (off - i) (drop i block) @ bs"
  using assms by (simp add: overwrite_def drop_take)

lemma load_blocks: "blocks m' = blocks m \<Longrightarrow> load m' p n = load m p n"
  by (simp add: load_def)

lemma load_galloc:
  "fst p < length (blocks m) \<Longrightarrow> load (m\<lparr>blocks := blocks m @ [block]\<rparr>) p n = load m p n"
  by (simp add: load_def nth_append)

lemma store_Some:
  assumes "fst p < length (blocks m)" "snd p + length bs \<le> length (blocks m ! fst p)"
  shows "store p bs m = Some (m\<lparr>blocks := (blocks m)[fst p := overwrite (snd p) bs (blocks m ! fst p)]\<rparr>)"
  using assms by (simp add: store_def)

lemma load_Some:
  "fst p < length (blocks m) \<Longrightarrow> snd p + n \<le> length (blocks m ! fst p) \<Longrightarrow>
     load m p n = Some (take n (drop (snd p) (blocks m ! fst p)))"
  by (simp add: load_def)

section \<open>The invariant\<close>

definition str_ok :: "str_mem \<Rightarrow> cu_str \<Rightarrow> bool" where
  "str_ok m s \<longleftrightarrow>
     fst (str_arr s) < length (blocks m) \<and>
     snd (str_arr s) + unat (str_len s) \<le> length (blocks m ! fst (str_arr s)) \<and>
     (str_cap s \<noteq> 0 \<longrightarrow> str_len s \<le> str_cap s \<and>
        snd (str_arr s) + unat (str_cap s) \<le> length (blocks m ! fst (str_arr s)))"

text \<open>\<open>s\<close> may write behind its end without being noticed by \<open>t\<close>.\<close>

definition str_apart :: "cu_str \<Rightarrow> cu_str \<Rightarrow> bool" where
  "str_apart s t \<longleftrightarrow>
     (str_cap s \<noteq> 0 \<and> fst (str_arr s) = fst (str_arr t) \<longrightarrow>
        str_cap t = 0 \<and> snd (str_arr t) + unat (str_len t) \<le> snd (str_arr s) + unat (str_len s))"

definition str_mem_ok :: "str_mem \<Rightarrow> bool" where
  "str_mem_ok m \<longleftrightarrow>
     blocks m \<noteq> [] \<and> (\<forall>x < length (objs m). str_ok m (str_at m x)) \<and>
     (\<forall>x < length (objs m). \<forall>y < length (objs m). x \<noteq> y \<longrightarrow> str_apart (str_at m x) (str_at m y))"

definition str_appended :: "str_mem \<Rightarrow> str_ref \<Rightarrow> u8 list \<Rightarrow> str_mem \<Rightarrow> bool" where
  "str_appended m x bs m' \<longleftrightarrow>
     str_mem_ok m' \<and> length (objs m') = length (objs m) \<and>
     (\<forall>y < length (objs m). str_bytes m' y =
        (if y = x then map_option (\<lambda>s. s @ bs) (str_bytes m x) else str_bytes m y))"

definition str_created :: "str_mem \<Rightarrow> str_ref \<Rightarrow> u8 list \<Rightarrow> str_mem \<Rightarrow> bool" where
  "str_created m x bs m' \<longleftrightarrow>
     str_mem_ok m' \<and> x = length (objs m) \<and> length (objs m') = Suc (length (objs m)) \<and>
     str_bytes m' x = Some bs \<and> (\<forall>y < length (objs m). str_bytes m' y = str_bytes m y)"

lemma str_upd_simps [simp]:
  "blocks (str_upd x f m) = blocks m" "uninit (str_upd x f m) = uninit m"
  "length (objs (str_upd x f m)) = length (objs m)"
  "x < length (objs m) \<Longrightarrow> str_at (str_upd x f m) y = (if y = x then f (str_at m x) else str_at m y)"
  by (simp_all add: str_upd_def nth_list_update)

lemma ptr_add_simps [simp]: "fst (ptr_add p n) = fst p" "snd (ptr_add p n) = snd p + n"
  by (simp_all add: ptr_add_def)

lemma str_okD:
  assumes "str_mem_ok m" "x < length (objs m)"
  shows "fst (str_arr (str_at m x)) < length (blocks m)"
    "snd (str_arr (str_at m x)) + unat (str_len (str_at m x)) \<le> length (blocks m ! fst (str_arr (str_at m x)))"
    "str_cap (str_at m x) \<noteq> 0 \<Longrightarrow> str_len (str_at m x) \<le> str_cap (str_at m x)"
    "snd (str_arr (str_at m x)) + unat (str_cap (str_at m x)) \<le> length (blocks m ! fst (str_arr (str_at m x)))"
proof -
  have ok: "str_ok m (str_at m x)" using assms by (simp add: str_mem_ok_def)
  show "fst (str_arr (str_at m x)) < length (blocks m)"
    "snd (str_arr (str_at m x)) + unat (str_len (str_at m x)) \<le> length (blocks m ! fst (str_arr (str_at m x)))"
    "str_cap (str_at m x) \<noteq> 0 \<Longrightarrow> str_len (str_at m x) \<le> str_cap (str_at m x)"
    using ok by (simp_all add: str_ok_def)
  show "snd (str_arr (str_at m x)) + unat (str_cap (str_at m x)) \<le> length (blocks m ! fst (str_arr (str_at m x)))"
    using ok by (cases "str_cap (str_at m x) = 0") (simp_all add: str_ok_def)
qed

lemma str_bytes_Some:
  assumes "str_mem_ok m" "x < length (objs m)"
  shows "str_bytes m x = Some (take (unat (str_len (str_at m x)))
    (drop (snd (str_arr (str_at m x))) (blocks m ! fst (str_arr (str_at m x)))))"
  using str_okD [OF assms] by (simp add: str_bytes_def load_def)

text \<open>Writing into the free part of a string and taking it in.\<close>

lemma append_in_place:
  assumes ok: "str_mem_ok m" and x: "x < length (objs m)"
    and room: "unat (str_len (str_at m x)) + length bs \<le> unat (str_cap (str_at m x))"
    and len: "len' = str_len (str_at m x) + of_nat (length bs)"
  shows "\<exists>m'. store (ptr_add (str_arr (str_at m x)) (unat (str_len (str_at m x)))) bs m = Some m' \<and>
    objs m' = objs m \<and> str_appended m x bs (str_upd x (\<lambda>s. s\<lparr>str_len := len'\<rparr>) m')"
proof -
  let ?s = "str_at m x"
  let ?b = "fst (str_arr ?s)" and ?o = "snd (str_arr ?s)" and ?n = "unat (str_len ?s)"
  let ?block = "blocks m ! ?b"
  let ?m' = "m\<lparr>blocks := (blocks m)[?b := overwrite (?o + ?n) bs ?block]\<rparr>"
  let ?m'' = "str_upd x (\<lambda>s. s\<lparr>str_len := len'\<rparr>) ?m'"
  have b: "?b < length (blocks m)" and fit: "?o + ?n + length bs \<le> length ?block"
    using str_okD [OF ok x] room by simp_all
  have "?n + length bs < 2 ^ 64"
    using room unsigned_less [of "str_cap ?s", where 'a = nat] by simp
  then have len_eq: "unat len' = ?n + length bs"
    unfolding len by (simp add: unat_word_ariths unat_of_nat)
  have st: "store (ptr_add (str_arr ?s) ?n) bs m = Some ?m'"
    using b fit by (simp add: store_def)
  have lens: "length (blocks ?m' ! i) = length (blocks m ! i)" for i
    using fit b by (cases "i = ?b") simp_all
  have ok_y: "str_ok ?m'' (str_at ?m'' y)" if y: "y < length (objs m)" for y
  proof (cases "y = x")
    case True
    then show ?thesis
      using x b fit len_eq room lens [of ?b] str_okD(4) [OF ok x] by (simp add: str_ok_def word_le_nat_alt)
  next
    case False
    have "str_ok m (str_at m y)" using ok y by (simp add: str_mem_ok_def)
    then show ?thesis using False x lens by (simp add: str_ok_def)
  qed
  have apart: "str_apart (str_at ?m'' y) (str_at ?m'' z)"
    if yz: "y < length (objs m)" "z < length (objs m)" "y \<noteq> z" for y z
  proof -
    have old: "str_apart (str_at m y) (str_at m z)" using ok yz by (simp add: str_mem_ok_def)
    show ?thesis
    proof (cases "bs = []")
      case True
      then show ?thesis using old x len yz(3) by (auto simp: str_apart_def)
    next
      case False
      then have "str_cap ?s \<noteq> 0" using room by auto
      moreover have "str_apart ?s (str_at m y)" if "y \<noteq> x"
        using ok yz x that by (simp add: str_mem_ok_def)
      ultimately show ?thesis
        using old x len_eq yz by (auto simp: str_apart_def)
    qed
  qed
  have bytes_x: "str_bytes ?m'' x = map_option (\<lambda>s. s @ bs) (str_bytes m x)"
    using x b fit len_eq
    by (simp add: str_bytes_def load_def overwrite_at)
  have bytes_y: "str_bytes ?m'' y = str_bytes m y" if y: "y < length (objs m)" "y \<noteq> x" for y
  proof (cases "bs \<noteq> [] \<and> fst (str_arr (str_at m y)) = ?b")
    case True
    then have "str_cap ?s \<noteq> 0" using room by auto
    moreover have "str_apart ?s (str_at m y)"
      using ok y x by (simp add: str_mem_ok_def)
    ultimately have "snd (str_arr (str_at m y)) + unat (str_len (str_at m y)) \<le> ?o + ?n"
      using True by (auto simp: str_apart_def)
    then show ?thesis
      using True x y b fit by (simp add: str_bytes_def load_def overwrite_before)
  next
    case False
    then show ?thesis
      using x y b fit by (cases "bs = []") (auto simp: str_bytes_def load_def overwrite_def)
  qed
  have "str_mem_ok ?m''"
    using ok_y apart ok by (simp add: str_mem_ok_def)
  then have "str_appended m x bs ?m''"
    using bytes_x bytes_y by (simp add: str_appended_def)
  then show ?thesis using st by simp
qed

text \<open>Moving a string to a fresh block.\<close>

lemma load_fresh:
  assumes "fst p < length (blocks m)"
  shows "load (m\<lparr>blocks := blocks m @ [block], objs := os\<rparr>) p n = load m p n"
  using assms by (simp add: load_def nth_append)

lemma str_bytes_load: "str_at m y = str_at m' x \<Longrightarrow>
    load m (str_arr (str_at m y)) (unat (str_len (str_at m y))) = load m' (str_arr (str_at m y)) (unat (str_len (str_at m y))) \<Longrightarrow>
    str_bytes m y = str_bytes m' x"
  by (simp add: str_bytes_def)

lemma mem_ok_fresh:
  assumes ok: "str_mem_ok m" and x: "x < length (objs m)" and "unat c \<le> length block" "str_len (str_at m x) \<le> c"
  defines "s \<equiv> (str_at m x)\<lparr>str_arr := (length (blocks m), 0), str_cap := c\<rparr>"
  shows "str_mem_ok (m\<lparr>blocks := blocks m @ [block], objs := (objs m)[x := s]\<rparr>)"
proof -
  let ?m' = "m\<lparr>blocks := blocks m @ [block], objs := (objs m)[x := s]\<rparr>"
  have s: "str_arr s = (length (blocks m), 0)" "str_len s = str_len (str_at m x)" "str_cap s = c"
    by (simp_all add: s_def)
  have old: "fst (str_arr (str_at m y)) < length (blocks m)" if "y < length (objs m)" for y
    using str_okD(1) [OF ok that] .
  have "str_ok ?m' s"
    using assms(3,4) by (auto simp: str_ok_def s word_le_nat_alt)
  moreover have "str_ok ?m' (str_at m y)" if "y < length (objs m)" for y
  proof -
    have "str_ok m (str_at m y)" using ok that by (simp add: str_mem_ok_def)
    then show ?thesis by (simp add: str_ok_def nth_append)
  qed
  ultimately have "str_ok ?m' (str_at ?m' y)" if "y < length (objs m)" for y
    using that x by (cases "y = x") simp_all
  moreover have "str_apart (str_at ?m' y) (str_at ?m' z)"
    if yz: "y < length (objs m)" "z < length (objs m)" "y \<noteq> z" for y z
  proof -
    have "str_apart (str_at m y) (str_at m z)" using ok yz by (simp add: str_mem_ok_def)
    moreover have "str_apart s (str_at m z)" "str_apart (str_at m y) s"
      using old [OF yz(1)] old [OF yz(2)] by (auto simp: str_apart_def s)
    ultimately show ?thesis
      using yz x by (cases "y = x"; cases "z = x") simp_all
  qed
  ultimately show ?thesis by (simp add: str_mem_ok_def)
qed

lemma move_to_fresh:
  assumes ok: "str_mem_ok m" and x: "x < length (objs m)"
    and block: "unat c \<le> length block" and fits: "str_len (str_at m x) \<le> c"
  shows "\<exists>m'. memcpy (length (blocks m), 0) (str_arr (str_at m x)) (str_len (str_at m x))
      (str_upd x (\<lambda>s. s\<lparr>str_arr := (length (blocks m), 0), str_cap := c\<rparr>) (m\<lparr>blocks := blocks m @ [block]\<rparr>)) = Some m' \<and>
    objs m' = (objs m)[x := (str_at m x)\<lparr>str_arr := (length (blocks m), 0), str_cap := c\<rparr>] \<and>
    str_mem_ok m' \<and> (\<forall>y < length (objs m). str_bytes m' y = str_bytes m y)"
proof -
  let ?s = "str_at m x" and ?b = "length (blocks m)"
  define n where "n = unat (str_len ?s)"
  define bytes where "bytes = take n (drop (snd (str_arr ?s)) (blocks m ! fst (str_arr ?s)))"
  define s' where "s' = ?s\<lparr>str_arr := (?b, 0), str_cap := c\<rparr>"
  define m' where "m' = m\<lparr>blocks := blocks m @ [overwrite 0 bytes block], objs := (objs m)[x := s']\<rparr>"
  note s = str_okD [OF ok x]
  have n: "n \<le> length block" using fits block by (simp add: n_def word_le_nat_alt)
  have len: "length bytes = n" using s(2) by (simp add: bytes_def n_def)
  let ?m1 = "str_upd x (\<lambda>s. s\<lparr>str_arr := (?b, 0), str_cap := c\<rparr>) (m\<lparr>blocks := blocks m @ [block]\<rparr>)"
  have m1: "?m1 = m\<lparr>blocks := blocks m @ [block], objs := (objs m)[x := s']\<rparr>"
    by (simp add: str_upd_def s'_def)
  have "load ?m1 (str_arr ?s) n = Some bytes"
    unfolding m1 load_fresh [OF s(1)] using s(1,2) by (simp add: load_def bytes_def n_def)
  moreover have "store (?b, 0) bytes ?m1 = Some m'"
    unfolding m1 using n len by (simp add: store_def m'_def)
  ultimately have copy: "memcpy (?b, 0) (str_arr ?s) (str_len ?s) ?m1 = Some m'"
    by (simp add: memcpy_def n_def)
  have "take n (overwrite 0 bytes block) = bytes"
    using len by (simp add: overwrite_def)
  moreover have "str_bytes m x = Some bytes"
    using str_bytes_Some [OF ok x] by (simp add: bytes_def n_def)
  moreover have "str_at m' x = s'" "blocks m' = blocks m @ [overwrite 0 bytes block]"
    using x by (simp_all add: m'_def)
  moreover have "load m' (?b, 0) n = Some (take n (overwrite 0 bytes block))"
    using n len by (simp add: load_def m'_def)
  ultimately have "str_bytes m' x = str_bytes m x"
    unfolding str_bytes_def [of m'] by (simp add: s'_def n_def)
  moreover have "str_bytes m' y = str_bytes m y" if "y < length (objs m)" "y \<noteq> x" for y
    using str_okD(1) [OF ok that(1)] that x unfolding m'_def
    by (intro str_bytes_load load_fresh) simp_all
  moreover have "str_mem_ok m'"
    unfolding m'_def s'_def using block fits n len by (intro mem_ok_fresh [OF ok x]) simp_all
  moreover have "objs m' = (objs m)[x := s']"
    by (simp add: m'_def)
  ultimately show ?thesis
    using copy unfolding s'_def by blast
qed

text \<open>Growing a string to a capacity, as the appending functions do it, and then appending.\<close>

lemma append_after_growth:
  assumes ok: "str_mem_ok m" and x: "x < length (objs m)"
    and grown: "grown = (if grow then memcpy (length (blocks m), 0) (str_arr (str_at m x)) (str_len (str_at m x))
        (str_upd x (\<lambda>s. s\<lparr>str_arr := (length (blocks m), 0), str_cap := c\<rparr>)
          (m\<lparr>blocks := blocks m @ [replicate (unat c) 0]\<rparr>)) else Some m)"
    and room: "unat (str_len (str_at m x)) + length bs \<le> unat (if grow then c else str_cap (str_at m x))"
    and len: "len' = str_len (str_at m x) + of_nat (length bs)"
  shows "\<exists>m1 m2. grown = Some m1 \<and> (\<forall>y < length (objs m). str_len (str_at m1 y) = str_len (str_at m y)) \<and>
    length (objs m1) = length (objs m) \<and> str_mem_ok m1 \<and> (\<forall>y < length (objs m). str_bytes m1 y = str_bytes m y) \<and>
    store (ptr_add (str_arr (str_at m1 x)) (unat (str_len (str_at m1 x)))) bs m1 = Some m2 \<and>
    str_len (str_at m2 x) = str_len (str_at m x) \<and>
    str_appended m x bs (str_upd x (\<lambda>s. s\<lparr>str_len := len'\<rparr>) m2)"
proof -
  obtain m1 where m1: "grown = Some m1" "str_mem_ok m1" "length (objs m1) = length (objs m)"
      "\<forall>y < length (objs m). str_len (str_at m1 y) = str_len (str_at m y)"
      "str_cap (str_at m1 x) = (if grow then c else str_cap (str_at m x))"
      "\<forall>y < length (objs m). str_bytes m1 y = str_bytes m y"
  proof (cases grow)
    case True
    have "str_len (str_at m x) \<le> c"
      using room True by (simp add: word_le_nat_alt)
    from move_to_fresh [OF ok x _ this, of "replicate (unat c) 0"] obtain m1 where m1:
      "memcpy (length (blocks m), 0) (str_arr (str_at m x)) (str_len (str_at m x))
        (str_upd x (\<lambda>s. s\<lparr>str_arr := (length (blocks m), 0), str_cap := c\<rparr>)
          (m\<lparr>blocks := blocks m @ [replicate (unat c) 0]\<rparr>)) = Some m1"
      "objs m1 = (objs m)[x := (str_at m x)\<lparr>str_arr := (length (blocks m), 0), str_cap := c\<rparr>]"
      "str_mem_ok m1" "\<forall>y < length (objs m). str_bytes m1 y = str_bytes m y"
      by auto
    have "str_len (str_at m1 y) = str_len (str_at m y)" if "y < length (objs m)" for y
      using that x by (cases "y = x") (simp_all add: m1(2))
    then show ?thesis
      using m1 True x grown by (intro that [of m1]) simp_all
  next
    case False
    then show ?thesis using that [of m] grown ok by simp
  qed
  have x1: "x < length (objs m1)" using x m1(3) by simp
  have room1: "unat (str_len (str_at m1 x)) + length bs \<le> unat (str_cap (str_at m1 x))"
    using room m1(4,5) x by simp
  have len1: "len' = str_len (str_at m1 x) + of_nat (length bs)"
    using len m1(4) x by simp
  from append_in_place [OF m1(2) x1 room1 len1] obtain m2 where m2:
    "store (ptr_add (str_arr (str_at m1 x)) (unat (str_len (str_at m1 x)))) bs m1 = Some m2"
    "objs m2 = objs m1" "str_appended m1 x bs (str_upd x (\<lambda>s. s\<lparr>str_len := len'\<rparr>) m2)"
    by blast
  then have "str_appended m x bs (str_upd x (\<lambda>s. s\<lparr>str_len := len'\<rparr>) m2)"
    using m1(3,6) x by (auto simp: str_appended_def)
  then show ?thesis
    using m1 m2 x by (intro exI [of _ m1] exI [of _ m2]) simp
qed

lemma append_char_correct:
  assumes ok: "str_mem_ok m" and x: "x < length (objs m)" and small: "unat (str_len (str_at m x)) < 2 ^ 62"
  shows "\<exists>m'. cu_str_append_char x ch m = Some m' \<and> str_appended m x [ch] m'"
proof -
  let ?n = "str_len (str_at m x)" and ?cap = "str_cap (str_at m x)"
  let ?c = "2 * ?n + 4"
  have c: "unat ?c = 2 * unat ?n + 4"
    using small by (simp add: unat_word_ariths)
  have "unat ?n + length [ch] \<le> unat (if ?cap \<le> ?n then ?c else ?cap)"
    by (simp add: c word_le_nat_alt)
  from append_after_growth [OF ok x refl this, of "?n + 1"] obtain m1 m2 where m12:
    "(if ?cap \<le> ?n then memcpy (length (blocks m), 0) (str_arr (str_at m x)) ?n
        (str_upd x (\<lambda>s. s\<lparr>str_arr := (length (blocks m), 0), str_cap := ?c\<rparr>)
          (m\<lparr>blocks := blocks m @ [replicate (unat ?c) 0]\<rparr>)) else Some m) = Some m1"
    "store (ptr_add (str_arr (str_at m1 x)) (unat (str_len (str_at m1 x)))) [ch] m1 = Some m2"
    "str_len (str_at m2 x) = ?n" "str_appended m x [ch] (str_upd x (\<lambda>s. s\<lparr>str_len := ?n + 1\<rparr>) m2)"
    by auto
  have "str_upd x (\<lambda>s. s\<lparr>str_len := str_len s + 1\<rparr>) m2 = str_upd x (\<lambda>s. s\<lparr>str_len := ?n + 1\<rparr>) m2"
    by (simp add: str_upd_def m12(3))
  moreover have "cu_str_append_char x ch m = Some (str_upd x (\<lambda>s. s\<lparr>str_len := str_len s + 1\<rparr>) m2)"
    using m12(1,2) x by (simp add: cu_str_append_char_def cu_galloc_def Let_def split: if_splits)
  ultimately show ?thesis using m12(4) by simp
qed

end
