(* ===== verification/CuStrOps.thy ===== *)
theory CuStrOps
  imports CuStrShare
begin

text \<open>
  The functions of \<^verbatim>\<open>cu/str.c\<close> that append to a string or make a new one, in terms of the bytes of all
  strings: no other string changes, whichever of them share memory.
\<close>

section \<open>Appending\<close>

lemma append_bytes_correct:
  assumes ok: "str_mem_ok m" and x: "x < length (objs m)"
    and small: "unat (str_len (str_at m x)) + length bs < 2 ^ 64"
    and grown: "grown = (if newlen > str_cap (str_at m x)
      then memcpy (length (blocks m), 0) (str_arr (str_at m x)) (str_len (str_at m x))
        (str_upd x (\<lambda>s. s\<lparr>str_arr := (length (blocks m), 0), str_cap := c\<rparr>)
          (m\<lparr>blocks := blocks m @ [replicate (unat c) 0]\<rparr>)) else Some m)"
    and newlen: "newlen = str_len (str_at m x) + of_nat (length bs)" and c: "newlen \<le> c"
  shows "\<exists>m1 m2. grown = Some m1 \<and> (\<forall>y < length (objs m). str_len (str_at m1 y) = str_len (str_at m y)) \<and>
    length (objs m1) = length (objs m) \<and> str_mem_ok m1 \<and>
    (\<forall>y < length (objs m). str_bytes m1 y = str_bytes m y) \<and>
    store (ptr_add (str_arr (str_at m1 x)) (unat (str_len (str_at m1 x)))) bs m1 = Some m2 \<and>
    str_len (str_at m2 x) = str_len (str_at m x) \<and>
    str_appended m x bs (str_upd x (\<lambda>s. s\<lparr>str_len := newlen\<rparr>) m2)"
proof -
  have len: "unat newlen = unat (str_len (str_at m x)) + length bs"
    using small unfolding newlen by (simp add: unat_word_ariths unat_of_nat)
  have "unat (str_len (str_at m x)) + length bs
      \<le> unat (if newlen > str_cap (str_at m x) then c else str_cap (str_at m x))"
    using c by (auto simp: len [symmetric] simp flip: word_le_nat_alt)
  then show ?thesis
    by (rule append_after_growth [OF ok x grown _ newlen])
qed

lemma append_charr_correct:
  assumes ok: "str_mem_ok m" and x: "x < length (objs m)"
    and small: "unat (str_len (str_at m x)) + unat len < 2 ^ 64" and arr: "unat len \<le> length cstr"
  shows "\<exists>m'. cu_str_append_charr x cstr len m = Some m' \<and> str_appended m x (take (unat len) cstr) m'"
proof -
  let ?bs = "take (unat len) cstr"
  let ?newlen = "str_len (str_at m x) + len"
  let ?c = "if ?newlen > str_cap (str_at m x) * 2 then ?newlen else str_cap (str_at m x) * 2"
  have bs: "length ?bs = unat len" using arr by simp
  have c: "?newlen \<le> ?c" by (simp add: not_less)
  from append_bytes_correct [OF ok x _ refl _ c, of ?bs] small bs obtain m1 m2 where m12:
    "(if ?newlen > str_cap (str_at m x)
      then memcpy (length (blocks m), 0) (str_arr (str_at m x)) (str_len (str_at m x))
        (str_upd x (\<lambda>s. s\<lparr>str_arr := (length (blocks m), 0), str_cap := ?c\<rparr>)
          (m\<lparr>blocks := blocks m @ [replicate (unat ?c) 0]\<rparr>)) else Some m) = Some m1"
    "store (ptr_add (str_arr (str_at m1 x)) (unat (str_len (str_at m1 x)))) ?bs m1 = Some m2"
    "str_appended m x ?bs (str_upd x (\<lambda>s. s\<lparr>str_len := ?newlen\<rparr>) m2)"
    by auto
  have "cu_str_append_charr x cstr len m = Some (str_upd x (\<lambda>s. s\<lparr>str_len := ?newlen\<rparr>) m2)"
    using m12(1,2) x arr
    by (simp add: cu_str_append_charr_def cu_galloc_def Let_def memcpy_arr_def split: if_splits)
  then show ?thesis using m12(3) by simp
qed

lemma append_str_correct:
  assumes ok: "str_mem_ok m" and x: "x < length (objs m)" and y: "y < length (objs m)"
    and small: "unat (str_len (str_at m x)) + unat (str_len (str_at m y)) < 2 ^ 64"
    and bs: "str_bytes m y = Some bs"
  shows "\<exists>m'. cu_str_append_str x y m = Some m' \<and> str_appended m x bs m'"
proof -
  let ?newlen = "str_len (str_at m x) + str_len (str_at m y)" and ?cap = "str_cap (str_at m x)"
  let ?c = "if ?newlen < ?cap * 2 then ?cap * 2 else ?newlen"
  have len: "length bs = unat (str_len (str_at m y))"
    using bs str_bytes_Some [OF ok y] str_okD(2) [OF ok y] by auto
  have c: "?newlen \<le> ?c" by (simp add: less_imp_le)
  from append_bytes_correct [OF ok x _ refl _ c, of bs] small len obtain m1 m2 where m12:
    "(if ?newlen > ?cap
      then memcpy (length (blocks m), 0) (str_arr (str_at m x)) (str_len (str_at m x))
        (str_upd x (\<lambda>s. s\<lparr>str_arr := (length (blocks m), 0), str_cap := ?c\<rparr>)
          (m\<lparr>blocks := blocks m @ [replicate (unat ?c) 0]\<rparr>)) else Some m) = Some m1"
    "\<forall>y < length (objs m). str_len (str_at m1 y) = str_len (str_at m y)"
    "\<forall>y < length (objs m). str_bytes m1 y = str_bytes m y"
    "store (ptr_add (str_arr (str_at m1 x)) (unat (str_len (str_at m1 x)))) bs m1 = Some m2"
    "str_appended m x bs (str_upd x (\<lambda>s. s\<lparr>str_len := ?newlen\<rparr>) m2)"
    by auto
  have "load m1 (str_arr (str_at m1 y)) (unat (str_len (str_at m1 y))) = Some bs"
    using m12(3) y bs by (simp add: str_bytes_def)
  then have "memcpy (ptr_add (str_arr (str_at m1 x)) (unat (str_len (str_at m1 x))))
      (str_arr (str_at m1 y)) (str_len (str_at m1 y)) m1 = Some m2"
    using m12(4) by (simp add: memcpy_def)
  then have "cu_str_append_str x y m = Some (str_upd x (\<lambda>s. s\<lparr>str_len := ?newlen\<rparr>) m2)"
    using m12(1) x
    by (simp add: cu_str_append_str_def cu_galloc_def Let_def split: if_splits)
  then show ?thesis using m12(5) by simp
qed

section \<open>New strings\<close>

lemma nth_append_new: "y < Suc (length xs) \<Longrightarrow> (xs @ [z]) ! y = (if y = length xs then z else xs ! y)"
  by (simp add: nth_append)

text \<open>A new string in a fresh block, which it owns.\<close>

lemma created_fresh:
  assumes ok: "str_mem_ok m" and "unat n \<le> unat c" "unat c \<le> length block"
  shows "str_created m (length (objs m)) (take (unat n) block)
    (m\<lparr>blocks := blocks m @ [block], objs := objs m @ [\<lparr>str_arr = (length (blocks m), 0), str_len = n, str_cap = c\<rparr>]\<rparr>)"
    (is "str_created m ?x ?bs ?m'")
proof -
  let ?s = "\<lparr>str_arr = (length (blocks m), 0), str_len = n, str_cap = c\<rparr>"
  have old: "fst (str_arr (str_at m y)) < length (blocks m)" if "y < ?x" for y
    using str_okD(1) [OF ok that] .
  have s: "str_ok ?m' ?s"
    using assms(2,3) by (simp add: str_ok_def word_le_nat_alt)
  have "str_ok ?m' (str_at m y)" if "y < ?x" for y
  proof -
    have "str_ok m (str_at m y)" using ok that by (simp add: str_mem_ok_def)
    then show ?thesis by (simp add: str_ok_def nth_append)
  qed
  then have "str_ok ?m' (str_at ?m' y)" if "y < Suc ?x" for y
    using s that by (cases "y = ?x") (simp_all add: nth_append)
  moreover have "str_apart (str_at ?m' y) (str_at ?m' z)"
    if yz: "y < Suc ?x" "z < Suc ?x" "y \<noteq> z" for y z
  proof -
    consider "y < ?x" "z < ?x" | "y = ?x" "z < ?x" | "y < ?x" "z = ?x" using yz by linarith
    then show ?thesis
    proof cases
      case 1
      then show ?thesis using ok yz(3) by (simp add: str_mem_ok_def nth_append)
    next
      case 2
      then show ?thesis using old [of z] by (simp add: nth_append str_apart_def)
    next
      case 3
      then show ?thesis using old [of y] by (simp add: nth_append str_apart_def)
    qed
  qed
  ultimately have "str_mem_ok ?m'"
    by (simp add: str_mem_ok_def)
  moreover have "str_bytes ?m' ?x = Some ?bs"
    using assms(2,3) by (simp add: str_bytes_def load_def)
  moreover have "str_bytes ?m' y = str_bytes m y" if "y < ?x" for y
    using old [OF that] that by (intro str_bytes_load load_fresh) (simp_all add: nth_append)
  ultimately show ?thesis by (simp add: str_created_def)
qed

text \<open>A new string that shares the memory of \<open>x\<close>, which gives up its capacity; the new one may take it over.\<close>

lemma created_shared:
  assumes ok: "str_mem_ok m" and x: "x < length (objs m)"
    and sub: "pos + unat n \<le> unat (str_len (str_at m x))"
    and cap: "c = 0 \<or> c = str_cap (str_at m x) \<and> pos = 0 \<and> n = str_len (str_at m x)"
    and bs: "str_bytes m x = Some bs"
  shows "str_created m (length (objs m)) (take (unat n) (drop pos bs))
    (m\<lparr>objs := (objs m)[x := (str_at m x)\<lparr>str_cap := 0\<rparr>] @
       [\<lparr>str_arr = ptr_add (str_arr (str_at m x)) pos, str_len = n, str_cap = c\<rparr>]\<rparr>)"
    (is "str_created m ?new ?bs ?m'")
proof -
  let ?s = "str_at m x"
  define t where "t = \<lparr>str_arr = ptr_add (str_arr ?s) pos, str_len = n, str_cap = c\<rparr>"
  define s' where "s' = ?s\<lparr>str_cap := 0\<rparr>"
  define m' where "m' = m\<lparr>objs := (objs m)[x := s'] @ [t]\<rparr>"
  have t: "str_arr t = ptr_add (str_arr ?s) pos" "str_len t = n" "str_cap t = c"
    by (simp_all add: t_def)
  have s': "str_arr s' = str_arr ?s" "str_len s' = str_len ?s" "str_cap s' = 0"
    by (simp_all add: s'_def)
  note d = str_okD [OF ok x]
  have s: "str_ok m ?s" using ok x by (simp add: str_mem_ok_def)
  have at: "str_at m' y = (if y = ?new then t else if y = x then s' else str_at m y)" if "y < Suc ?new" for y
    using that x by (simp add: m'_def nth_append)
  have "str_ok m' t"
    using d(1,2) sub cap s by (auto simp: str_ok_def t m'_def)
  moreover have "str_ok m' s'"
    using s by (simp add: str_ok_def s' m'_def)
  moreover have "str_ok m' (str_at m y)" if "y < ?new" for y
  proof -
    have "str_ok m (str_at m y)" using ok that by (simp add: str_mem_ok_def)
    then show ?thesis by (simp add: str_ok_def m'_def)
  qed
  ultimately have ok_y: "str_ok m' (str_at m' y)" if "y < Suc ?new" for y
    using that unfolding at [OF that] by (cases "y < ?new") simp_all
  have apart: "str_apart (str_at m y) (str_at m z)" if "y < ?new" "z < ?new" "y \<noteq> z" for y z
    using ok that by (simp add: str_mem_ok_def)
  have from_x: "str_apart t (str_at m z)" if "z < ?new" "z \<noteq> x" for z
    using apart [OF x that(1)] that cap by (auto simp: str_apart_def t s')
  have to_x: "str_apart (str_at m z) t" "str_apart (str_at m z) s'" if "z < ?new" "z \<noteq> x" for z
    using apart [OF that(1) x that(2)] cap sub by (auto simp: str_apart_def t s')
  have own: "str_apart t s'" "str_apart s' u" for u
    using cap by (auto simp: str_apart_def t s')
  have "str_apart (str_at m' y) (str_at m' z)" if yz: "y < Suc ?new" "z < Suc ?new" "y \<noteq> z" for y z
  proof -
    have bound: "y \<noteq> ?new \<Longrightarrow> y < ?new" "z \<noteq> ?new \<Longrightarrow> z < ?new"
      using yz by simp_all
    consider "y = ?new" "z = x" | "y = ?new" "z \<noteq> x" "z < ?new" | "y = x" "y \<noteq> ?new"
      | "y \<noteq> x" "y < ?new" "z = ?new" | "y \<noteq> x" "y < ?new" "z = x" | "y \<noteq> x" "y < ?new" "z \<noteq> x" "z < ?new"
      using yz(3) bound by blast
    then show ?thesis
    proof cases
      case 1 then show ?thesis unfolding at [OF yz(1)] at [OF yz(2)] using x own(1) by auto
    next
      case 2 then show ?thesis unfolding at [OF yz(1)] at [OF yz(2)] using from_x by auto
    next
      case 3 then show ?thesis unfolding at [OF yz(1)] at [OF yz(2)] using own(2) by auto
    next
      case 4 then show ?thesis unfolding at [OF yz(1)] at [OF yz(2)] using to_x(1) by auto
    next
      case 5 then show ?thesis unfolding at [OF yz(1)] at [OF yz(2)] using x to_x(2) by auto
    next
      case 6 then show ?thesis unfolding at [OF yz(1)] at [OF yz(2)] using apart yz(3) by auto
    qed
  qed
  then have "str_mem_ok m'"
    using ok_y ok by (simp add: str_mem_ok_def m'_def)
  moreover have "str_bytes m' ?new = Some ?bs"
  proof -
    have "bs = take (unat (str_len ?s)) (drop (snd (str_arr ?s)) (blocks m ! fst (str_arr ?s)))"
      using bs str_bytes_Some [OF ok x] by simp
    then have "?bs = take (unat n) (drop (snd (str_arr ?s) + pos) (blocks m ! fst (str_arr ?s)))"
      using sub by (simp add: drop_take add.commute min_def)
    then have "load m' (str_arr t) (unat (str_len t)) = Some ?bs"
      using d(1,2) sub by (simp add: load_def t m'_def)
    then show ?thesis
      unfolding str_bytes_def at [OF lessI] by simp
  qed
  moreover have "str_bytes m' y = str_bytes m y" if "y < ?new" for y
    unfolding str_bytes_def at [OF less_SucI [OF that]] using that by (simp add: load_def s' m'_def)
  ultimately show ?thesis by (simp add: str_created_def m'_def s'_def t_def)
qed

lemma new_charr_correct:
  assumes ok: "str_mem_ok m" and "unat n < 2 ^ 64 - 1" "unat n \<le> length ptr"
  shows "\<exists>m'. cu_str_new_charr ptr n m = Some (length (objs m), m') \<and>
    str_created m (length (objs m)) (take (unat n) ptr) m'"
proof -
  let ?junk = "map (uninit m (length (blocks m))) [0 ..< unat (n + 1)]"
  let ?block = "overwrite (unat n) [0] (overwrite 0 (take (unat n) ptr) ?junk)"
  have n1: "unat (n + 1) = unat n + 1"
    using assms(2) by (simp add: unat_word_ariths)
  have len: "length ?block = unat n + 1" "length (overwrite 0 (take (unat n) ptr) ?junk) = unat n + 1"
    using assms(3) by (simp_all add: overwrite_def n1 del: upt_Suc)
  have "take (unat n) ?block = take (unat n) ptr"
    using assms(3) by (simp add: overwrite_def n1 min_def del: upt_Suc)
  moreover have "cu_str_new_charr ptr n m = Some (length (objs m), m\<lparr>blocks := blocks m @ [?block],
      objs := objs m @ [\<lparr>str_arr = (length (blocks m), 0), str_len = n, str_cap = n + 1\<rparr>]\<rparr>)"
    using assms(3) len(2)
    by (simp add: cu_str_new_charr_def str_gnew_def cu_str_init_charr_def cu_galloc_atomic_def Let_def
        memcpy_arr_def store_def str_upd_def n1 del: upt_Suc)
  ultimately show ?thesis
    using created_fresh [OF ok, of n "n + 1" ?block] n1 len(1) by simp
qed

lemma new_copy_correct:
  assumes ok: "str_mem_ok m" and x: "x < length (objs m)" and bs: "str_bytes m x = Some bs"
  shows "\<exists>m'. cu_str_new_copy x m = (length (objs m), m') \<and> str_created m (length (objs m)) bs m'"
proof -
  have "length bs = unat (str_len (str_at m x))"
    using bs str_bytes_Some [OF ok x] str_okD(2) [OF ok x] by auto
  then show ?thesis
    using created_shared [OF ok x, of 0 "str_len (str_at m x)" 0 bs] bs x
    by (simp add: cu_str_new_copy_def str_gnew_def Let_def str_upd_def nth_append list_update_append ptr_add_def)
qed

lemma substr_correct:
  assumes ok: "str_mem_ok m" and x: "x < length (objs m)" and bs: "str_bytes m x = Some bs"
    and sub: "unat pos + unat len \<le> unat (str_len (str_at m x))"
  shows "\<exists>m'. cu_str_substr x pos len m = Some (length (objs m), m') \<and>
    str_created m (length (objs m)) (take (unat len) (drop (unat pos) bs)) m'"
proof -
  have "unat (pos + len) = unat pos + unat len"
    using sub unsigned_less [of "str_len (str_at m x)", where 'a = nat] by (simp add: unat_word_ariths)
  then have "pos + len \<le> str_len (str_at m x)"
    using sub by (simp add: word_le_nat_alt)
  then show ?thesis
    using created_shared [OF ok x sub _ bs, of 0] x
    by (simp add: cu_str_substr_def str_gnew_def Let_def str_upd_def nth_append list_update_append ptr_add_def)
qed

lemma new_str_char_correct:
  assumes ok: "str_mem_ok m" and x: "x < length (objs m)" and bs: "str_bytes m x = Some bs"
    and small: "unat (str_len (str_at m x)) + 1 < 2 ^ 64"
  shows "\<exists>m'. cu_str_new_str_char x ch m = Some (length (objs m), m') \<and>
    str_created m (length (objs m)) (bs @ [ch]) m'"
proof -
  let ?s = "str_at m x" and ?new = "length (objs m)"
  let ?n = "str_len ?s + 1"
  note d = str_okD [OF ok x]
  have n: "unat ?n = unat (str_len ?s) + 1"
    using small by (simp add: unat_word_ariths)
  have bs_len: "length bs = unat (str_len ?s)" and bs_eq: "load m (str_arr ?s) (unat (str_len ?s)) = Some bs"
    using bs str_bytes_Some [OF ok x] d(2) by (auto simp: str_bytes_def)
  show ?thesis
  proof (cases "?n > str_cap ?s")
    case True
    let ?block = "overwrite (unat (str_len ?s)) [ch] (overwrite 0 bs (replicate (unat ?n) 0))"
    have "length ?block = unat ?n" "take (unat ?n) ?block = bs @ [ch]"
      using bs_len n by (simp_all add: overwrite_def)
    moreover have "cu_str_new_str_char x ch m = Some (?new, m\<lparr>blocks := blocks m @ [?block],
        objs := objs m @ [\<lparr>str_arr = (length (blocks m), 0), str_len = ?n, str_cap = ?n\<rparr>]\<rparr>)"
    proof -
      have ld: "load (m\<lparr>blocks := blocks m @ [b], objs := os\<rparr>) (str_arr ?s) (unat (str_len ?s)) = Some bs" for b os
        using load_fresh [OF d(1)] bs_eq by simp
      show ?thesis
        using True x bs_len n
        by (simp add: cu_str_new_str_char_def str_gnew_def cu_str_init_str_char_def cu_galloc_def Let_def
            str_upd_def nth_append memcpy_def ld store_def)
    qed
    ultimately show ?thesis
      using created_fresh [OF ok, of ?n ?n ?block] by simp
  next
    case False
    let ?m1 = "m\<lparr>objs := (objs m)[x := ?s\<lparr>str_cap := 0\<rparr>] @
       [\<lparr>str_arr = ptr_add (str_arr ?s) 0, str_len = str_len ?s, str_cap = str_cap ?s\<rparr>]\<rparr>"
    have "str_created m ?new (take (unat (str_len ?s)) (drop 0 bs)) ?m1"
      by (rule created_shared [OF ok x _ _ bs]) simp_all
    then have m1: "str_created m ?new bs ?m1" using bs_len by simp
    then have ok1: "str_mem_ok ?m1" "?new < length (objs ?m1)" by (simp_all add: str_created_def)
    have at: "str_at ?m1 ?new = \<lparr>str_arr = ptr_add (str_arr ?s) 0, str_len = str_len ?s, str_cap = str_cap ?s\<rparr>"
      by (simp add: nth_append)
    have room: "unat (str_len (str_at ?m1 ?new)) + length [ch] \<le> unat (str_cap (str_at ?m1 ?new))"
      using False n unfolding at by (simp add: not_less word_le_nat_alt)
    have len: "?n = str_len (str_at ?m1 ?new) + of_nat (length [ch])"
      unfolding at by simp
    from append_in_place [OF ok1 room len] obtain m2 where
      m2: "store (ptr_add (str_arr ?s) (unat (str_len ?s))) [ch] ?m1 = Some m2" "objs m2 = objs ?m1"
        "str_appended ?m1 ?new [ch] (str_upd ?new (\<lambda>s. s\<lparr>str_len := ?n\<rparr>) m2)"
      unfolding at by (auto simp: ptr_add_def)
    have created: "str_created m ?new (bs @ [ch]) (str_upd ?new (\<lambda>s. s\<lparr>str_len := ?n\<rparr>) m2)"
      using m1 m2(3) unfolding str_created_def str_appended_def by auto
    let ?m3 = "?m1\<lparr>objs := (objs m)[x := ?s\<lparr>str_cap := 0\<rparr>] @
       [\<lparr>str_arr = str_arr ?s, str_len = ?n, str_cap = str_cap ?s\<rparr>]\<rparr>"
    have "store (ptr_add (str_arr ?s) (unat (str_len ?s))) [ch] ?m3 = Some (str_upd ?new (\<lambda>s. s\<lparr>str_len := ?n\<rparr>) m2)"
      using m2(1) by (auto simp: store_def str_upd_def nth_append list_update_append ptr_add_def split: if_splits)
    moreover have "cu_str_new_str_char x ch m =
        do { m \<leftarrow> store (ptr_add (str_arr ?s) (unat (str_len ?s))) [ch] ?m3; Some (?new, m) }"
      using False x
      by (simp add: cu_str_new_str_char_def str_gnew_def cu_str_init_str_char_def cu_str_grab_cap_def Let_def
          str_upd_def nth_append list_update_append)
    ultimately show ?thesis
      using created by simp
  qed
qed

end
