(* ===== verification/CuStrCmp.thy ===== *)
theory CuStrCmp
  imports CuStrOps Rbmap
begin

text \<open>
  Comparison, hashing and searching of the strings of \<^verbatim>\<open>cu/str.c\<close>. \<open>bytes_cmp\<close>, the comparison of
  \<^verbatim>\<open>cu_str_cmp\<close>, provides the interface that the sorted sets and maps need of an order on keys.
\<close>

section \<open>The order of strings\<close>

lemma bytes_cmp_simps [simp]:
  "bytes_cmp [] [] = 0" "bytes_cmp [] (y # ys) = -1" "bytes_cmp (x # xs) [] = 1"
  "bytes_cmp (x # xs) (y # ys) =
     (if x < y then -1 else if x > y then 1
      else if x = 0 then (if length xs < length ys then -1 else if length xs > length ys then 1 else 0)
      else bytes_cmp xs ys)"
  by (auto simp: bytes_cmp_def Let_def)

lemma bytes_cmp_neg: "bytes_cmp ys xs = - bytes_cmp xs ys"
  by (induction xs ys rule: list_induct2') auto

lemma bytes_cmp_flip: "bytes_cmp xs ys < 0 \<longleftrightarrow> 0 < bytes_cmp ys xs"
  by (induction xs ys rule: list_induct2') auto

lemma bytes_cmp_trans:
  "bytes_cmp xs ys \<le> 0 \<Longrightarrow> bytes_cmp ys zs < 0 \<Longrightarrow> bytes_cmp xs zs < 0"
proof (induction xs arbitrary: ys zs)
  case Nil
  then show ?case by (cases ys; cases zs) auto
next
  case (Cons x xs)
  then show ?case
    by (cases ys; cases zs) (auto split: if_splits)
qed

lemma bytes_cmp_length: "bytes_cmp xs ys = 0 \<Longrightarrow> length xs = length ys"
  by (induction xs ys rule: list_induct2') (auto split: if_splits)

lemma bytes_cmp_zero: "0 \<notin> set xs \<Longrightarrow> bytes_cmp xs ys = 0 \<longleftrightarrow> xs = ys"
  by (induction xs ys rule: list_induct2') auto

interpretation str_keys: ordered_keys bytes_cmp
  by unfold_locales
    (rule bytes_cmp_flip, erule (1) bytes_cmp_trans [OF less_imp_le], erule (1) bytes_cmp_trans [OF eq_refl])

lemma cu_str_cmp_bytes:
  "str_bytes m x = Some xs \<Longrightarrow> str_bytes m y = Some ys \<Longrightarrow> cu_str_cmp m x y = Some (bytes_cmp xs ys)"
  by (simp add: cu_str_cmp_def)

lemma str_bytes_length:
  assumes "str_bytes m x = Some xs"
  shows "length xs = unat (str_len (str_at m x))"
  using assms by (auto simp: str_bytes_def load_def split: if_splits)

lemma cu_str_eq_bytes:
  assumes "str_bytes m x = Some xs" "str_bytes m y = Some ys"
  shows "cu_str_eq m x y = Some (xs = ys)"
proof (cases "length xs = length ys")
  case True
  then have "str_len (str_at m x) = str_len (str_at m y)"
    using str_bytes_length [OF assms(1)] str_bytes_length [OF assms(2)]
    by (simp add: word_unat_eq_iff)
  moreover have "memcmp (length xs) xs ys = 0 \<longleftrightarrow> xs = ys"
    by (rule memcmp_zero) (simp_all add: True)
  ultimately show ?thesis by (simp add: cu_str_eq_def assms)
next
  case False
  then have "str_len (str_at m x) \<noteq> str_len (str_at m y)"
    using str_bytes_length [OF assms(1)] str_bytes_length [OF assms(2)] by auto
  then show ?thesis using False by (auto simp: cu_str_eq_def)
qed

text \<open>C28: On a consistent memory \<^verbatim>\<open>cu_str_eq\<close> decides equality of the bytes, equal strings have equal hashes,
  and \<^verbatim>\<open>cu_str_cmp\<close> is antisymmetric and transitive; it is zero exactly on equal strings, provided the
  first has no zero byte. \<^verbatim>\<open>strncmp\<close> is taken to return -1, 0 or 1.\<close>

theorem str_comparison_correct:
  assumes "str_mem_ok m" "x < length (objs m)" "y < length (objs m)" "z < length (objs m)"
  shows "\<exists>xs ys i j k. str_bytes m x = Some xs \<and> str_bytes m y = Some ys \<and>
    cu_str_eq m x y = Some (xs = ys) \<and>
    (xs = ys \<longrightarrow> cu_str_hash m x = cu_str_hash m y) \<and>
    cu_str_cmp m x y = Some i \<and> cu_str_cmp m y x = Some (- i) \<and>
    cu_str_cmp m y z = Some j \<and> cu_str_cmp m x z = Some k \<and>
    (i \<le> 0 \<and> j < 0 \<longrightarrow> k < 0) \<and>
    (0 \<notin> set xs \<longrightarrow> (i = 0 \<longleftrightarrow> xs = ys))"
proof -
  obtain xs ys zs where b: "str_bytes m x = Some xs" "str_bytes m y = Some ys" "str_bytes m z = Some zs"
    using str_bytes_Some assms by blast
  have neg: "bytes_cmp ys xs = - bytes_cmp xs ys"
    by (rule bytes_cmp_neg)
  have eq: "cu_str_eq m x y = Some (xs = ys)" by (rule cu_str_eq_bytes [OF b(1,2)])
  have cmp: "cu_str_cmp m x y = Some (bytes_cmp xs ys)" "cu_str_cmp m y x = Some (- bytes_cmp xs ys)"
    "cu_str_cmp m y z = Some (bytes_cmp ys zs)" "cu_str_cmp m x z = Some (bytes_cmp xs zs)"
    using neg by (simp_all add: cu_str_cmp_bytes b)
  have "xs = ys \<longrightarrow> cu_str_hash m x = cu_str_hash m y"
    by (simp add: cu_str_hash_def b)
  then show ?thesis
    using b(1,2) eq cmp bytes_cmp_trans [of xs ys zs] bytes_cmp_zero [of xs ys]
    by (intro exI [of _ xs] exI [of _ ys] exI [of _ "bytes_cmp xs ys"] exI [of _ "bytes_cmp ys zs"]
      exI [of _ "bytes_cmp xs zs"]) simp
qed

definition sample_mem :: str_mem where
  "sample_mem = \<lparr>blocks = [[], [97, 98, 0, 0]], uninit = (\<lambda>b i. 0),
     objs = [\<lparr>str_arr = (1, 0), str_len = 2, str_cap = 4\<rparr>, \<lparr>str_arr = (1, 0), str_len = 1, str_cap = 0\<rparr>]\<rparr>"

lemma sample_mem_ok: "str_mem_ok sample_mem" "length (objs sample_mem) = 2"
  by (simp_all add: sample_mem_def str_mem_ok_def str_ok_def str_apart_def less_Suc_eq)

theorem str_comparison_correct_witness:
  "\<exists>xs ys i j k. str_bytes sample_mem 0 = Some xs \<and> str_bytes sample_mem 1 = Some ys \<and>
    cu_str_eq sample_mem 0 1 = Some (xs = ys) \<and>
    (xs = ys \<longrightarrow> cu_str_hash sample_mem 0 = cu_str_hash sample_mem 1) \<and>
    cu_str_cmp sample_mem 0 1 = Some i \<and> cu_str_cmp sample_mem 1 0 = Some (- i) \<and>
    cu_str_cmp sample_mem 1 0 = Some j \<and> cu_str_cmp sample_mem 0 0 = Some k \<and>
    (i \<le> 0 \<and> j < 0 \<longrightarrow> k < 0) \<and>
    (0 \<notin> set xs \<longrightarrow> (i = 0 \<longleftrightarrow> xs = ys))"
  by (rule str_comparison_correct [OF sample_mem_ok(1)]) (simp_all add: sample_mem_ok(2))

text \<open>Strings that differ after a zero byte compare as equal but are not: \<^verbatim>\<open>cu_str_cmp\<close> stops there.\<close>

theorem str_cmp_ignores_after_zero:
  assumes "str_bytes m x = Some (s @ 0 # t)" "str_bytes m y = Some (s @ 0 # u)"
    and "0 \<notin> set s" "length t = length u" "t \<noteq> u"
  shows "cu_str_cmp m x y = Some 0 \<and> cu_str_eq m x y = Some False"
proof -
  have "bytes_cmp (s @ 0 # t) (s @ 0 # u) = 0"
    using assms(3,4) by (induction s) auto
  then show ?thesis
    using assms(5) by (simp add: cu_str_cmp_bytes [OF assms(1,2)] cu_str_eq_bytes [OF assms(1,2)])
qed

theorem str_cmp_ignores_after_zero_witness:
  "\<exists>m. cu_str_cmp m 0 1 = Some 0 \<and> cu_str_eq m 0 1 = Some False"
proof -
  let ?m = "\<lparr>blocks = [[], [97, 0, 98], [97, 0, 99]], uninit = (\<lambda>b i. 0),
     objs = [\<lparr>str_arr = (1, 0), str_len = 3, str_cap = 0\<rparr>, \<lparr>str_arr = (2, 0), str_len = 3, str_cap = 0\<rparr>]\<rparr>"
  show ?thesis
    by (rule exI [of _ ?m], rule str_cmp_ignores_after_zero [of ?m 0 "[97]" "[98]" 1 "[99]"])
      (simp_all add: str_bytes_def load_def)
qed

section \<open>Sets of strings\<close>

text \<open>The elements are given by their bytes, which must not change while they are in a set.\<close>

definition cucon_rbset_init_str_cmp :: "u8 list rbset" where
  "cucon_rbset_init_str_cmp = cucon_rbset_init bytes_cmp"

definition cucon_rbset_new_str_cmp :: "u8 list rbset" where
  "cucon_rbset_new_str_cmp = cucon_rbset_new bytes_cmp"

lemma string_set_wf: "rbset_wf cucon_rbset_init_str_cmp" "rbset_wf cucon_rbset_new_str_cmp"
  by (simp_all add: rbset_wf_def cucon_rbset_init_str_cmp_def cucon_rbset_init_def
      cucon_rbset_new_str_cmp_def cucon_rbset_new_def str_keys.ordered_keys_axioms)

section \<open>Searching\<close>

lemma str_chr_loop_correct:
  "i \<le> n \<Longrightarrow> str_chr_loop arr i n ch =
     (case List.find (\<lambda>k. arr ! k = ch) [i ..< n] of None \<Rightarrow> cu_str_index_none | Some k \<Rightarrow> of_nat k)"
proof (induction arr i n ch rule: str_chr_loop.induct)
  case (1 arr i n ch)
  show ?case
    by (subst str_chr_loop.simps) (use 1 in \<open>auto simp: upt_rec [of i n]\<close>)
qed

lemma str_rchr_loop_correct:
  "pos \<le> i \<Longrightarrow> str_rchr_loop arr pos i ch =
     (case List.find (\<lambda>k. arr ! k = ch) (rev [pos ..< i]) of None \<Rightarrow> cu_str_index_none | Some k \<Rightarrow> of_nat k)"
  by (induction arr pos i ch rule: str_rchr_loop.induct) (auto simp: le_Suc_eq)

section \<open>Case conversion\<close>

lemma store_length:
  "store p bs m = Some m' \<Longrightarrow> objs m' = objs m \<and> length (blocks m' ! b) = length (blocks m ! b)"
  by (cases "b = fst p") (auto simp: store_def split: if_splits)

lemma convert_loop_diverges:
  assumes "str_len (str_at m newstr) \<noteq> 0"
  shows "str_convert_loop f str newstr i m = None"
  using assms
proof (induction "length (blocks m ! fst (str_arr (str_at m newstr))) - i" arbitrary: i m rule: less_induct)
  case less
  let ?dst = "ptr_add (str_arr (str_at m newstr)) i"
  show ?case
  proof (cases "load m (ptr_add (str_arr (str_at m str)) i) 1")
    case None
    then show ?thesis using less.prems by (subst str_convert_loop.simps) simp
  next
    case (Some c)
    then have len: "length c = 1" by (auto simp: load_def split: if_splits)
    show ?thesis
    proof (cases "store ?dst (List.map f c) m")
      case None
      then show ?thesis using less.prems Some by (subst str_convert_loop.simps) simp
    next
      case (Some m')
      note st = store_length [OF Some]
      have "i < length (blocks m ! fst (str_arr (str_at m newstr)))"
        using Some len by (simp add: store_def split: if_splits)
      then have "str_convert_loop f str newstr (Suc i) m' = None"
        using st less.prems by (intro less.hyps) auto
      then show ?thesis
        using less.prems \<open>load m _ 1 = Some c\<close> Some by (subst str_convert_loop.simps) simp
    qed
  qed
qed

text \<open>\<^verbatim>\<open>cu_str_toupper\<close> and \<^verbatim>\<open>cu_str_tolower\<close> do not return on a nonempty string: their loop does not
  test the index and runs out of the array.\<close>

theorem str_case_conversion_fails:
  assumes "x < length (objs m)" "str_len (str_at m x) \<noteq> 0"
  shows "cu_str_toupper x m = None \<and> cu_str_tolower x m = None"
  using assms
  by (simp add: cu_str_toupper_def cu_str_tolower_def cu_str_new_uninit_def str_gnew_def cu_str_init_uninit_def
      cu_galloc_atomic_def Let_def convert_loop_diverges nth_append)

theorem str_case_conversion_fails_witness:
  "cu_str_toupper 0 sample_mem = None \<and> cu_str_tolower 0 sample_mem = None"
  by (rule str_case_conversion_fails) (simp_all add: sample_mem_def)

section \<open>Updates of shared strings\<close>

text \<open>C40: Erasing from a string without capacity fails when more than one byte is erased:
  \<^verbatim>\<open>cu_str_erase_substr\<close> allocates an array for the result and copies the whole string into it.\<close>

theorem str_erase_shared_overflows:
  assumes "str_mem_ok m" "x < length (objs m)" "str_cap (str_at m x) = 0"
    and "1 < len" "pos + len \<le> str_len (str_at m x)" "pos \<le> pos + len" "unat (str_len (str_at m x)) < 2 ^ 64 - 1"
  shows "cu_str_erase_substr x pos len m = None"
proof -
  let ?n = "str_len (str_at m x)"
  have "unat len \<le> unat (pos + len)"
    using assms(6) by (metis add.commute word_le_nat_alt le_no_overflow olen_add_eqv)
  then have "unat len \<le> unat ?n" using assms(5) by (simp add: word_le_nat_alt)
  then have "unat (?n - len + 1) < unat ?n"
    using assms(4) by (simp add: unat_word_ariths unat_sub word_le_nat_alt word_less_nat_alt)
  then have "cu_str_set_capacity x (?n - len + 1) m = None"
    using assms(2) str_bytes_Some [OF assms(1,2)] str_okD(1,2) [OF assms(1,2)]
    by (simp add: cu_str_set_capacity_def cu_galloc_atomic_def Let_def memcpy_def load_def store_def nth_append)
  then show ?thesis
    using assms(3) by (simp add: cu_str_erase_substr_def Let_def)
qed

theorem str_erase_shared_overflows_witness:
  "cu_str_erase_substr 0 0 2
     (sample_mem\<lparr>objs := [\<lparr>str_arr = (1, 0), str_len = 3, str_cap = 0\<rparr>]\<rparr>) = None"
  by (rule str_erase_shared_overflows) (simp_all add: sample_mem_def str_mem_ok_def str_ok_def)

text \<open>Shortening a string and appending again changes a string that shares its memory: with \<open>ab\<close> made
  the string \<open>abc\<close> by adding a character, which takes over its array, cutting two characters off the new
  string and appending \<open>z\<close> turns the old one into \<open>az\<close>.\<close>

theorem str_unappend_breaks_sharing:
  "\<exists>m0 m1 m2 m3. str_mem_ok m0 \<and> str_bytes m0 0 = Some [97, 98] \<and>
     cu_str_new_str_char 0 99 m0 = Some (2, m1) \<and> str_bytes m1 2 = Some [97, 98, 99] \<and>
     cu_str_unappend 2 2 m1 = Some m2 \<and> cu_str_append_char 2 122 m2 = Some m3 \<and>
     str_bytes m3 2 = Some [97, 122] \<and> str_bytes m3 0 = Some [97, 122]"
proof -
  let ?m1 = "snd (the (cu_str_new_str_char 0 99 sample_mem))"
  let ?m2 = "the (cu_str_unappend 2 2 ?m1)"
  let ?m3 = "the (cu_str_append_char 2 122 ?m2)"
  have "map_option fst (cu_str_new_str_char 0 99 sample_mem) = Some 2"
    "\<not> Option.is_none (cu_str_unappend 2 2 ?m1)" "\<not> Option.is_none (cu_str_append_char 2 122 ?m2)"
    by code_simp+
  then have "cu_str_new_str_char 0 99 sample_mem = Some (2, ?m1)"
    "cu_str_unappend 2 2 ?m1 = Some ?m2" "cu_str_append_char 2 122 ?m2 = Some ?m3"
    by (auto simp: Option.is_none_def)
  moreover have "str_bytes sample_mem 0 = Some [97, 98]" "str_bytes ?m1 2 = Some [97, 98, 99]"
    "str_bytes ?m3 2 = Some [97, 122]" "str_bytes ?m3 0 = Some [97, 122]"
    by code_simp+
  ultimately show ?thesis using sample_mem_ok(1) by blast
qed

end
