(* ===== verification/CuStrQuote.thy ===== *)
theory CuStrQuote
  imports CuStrCmp
begin

text \<open>
  What the strings of \<^verbatim>\<open>cu/str.c\<close> promise about their bytes: appending and copying, and the quoted
  representation with its inverse.
\<close>

section \<open>Appending and copying\<close>

text \<open>C27: On a consistent memory the appending functions succeed, append to the bytes of their string, leave
  the bytes of every other string as they were, also of those that share the array, and keep the memory consistent.\<close>

theorem str_append_is_private:
  assumes "str_mem_ok m" "x < length (objs m)" "y < length (objs m)"
    and "str_bytes m y = Some ys" "unat (str_len (str_at m x)) + length ys < 2 ^ 62"
    and "unat (str_len (str_at m x)) + unat len < 2 ^ 62" "unat len \<le> length arr"
  shows "(\<exists>m'. cu_str_append_char x ch m = Some m' \<and> str_appended m x [ch] m') \<and>
    (\<exists>m'. cu_str_append_charr x arr len m = Some m' \<and> str_appended m x (take (unat len) arr) m') \<and>
    (\<exists>m'. cu_str_append_str x y m = Some m' \<and> str_appended m x ys m')"
proof (intro conjI)
  show "\<exists>m'. cu_str_append_char x ch m = Some m' \<and> str_appended m x [ch] m'"
    using assms(1,2,5) by (intro append_char_correct) simp_all
  show "\<exists>m'. cu_str_append_charr x arr len m = Some m' \<and> str_appended m x (take (unat len) arr) m'"
    using assms(1,2,6,7) by (intro append_charr_correct) simp_all
  show "\<exists>m'. cu_str_append_str x y m = Some m' \<and> str_appended m x ys m'"
    using assms(1-5) str_bytes_length [OF assms(4)] by (intro append_str_correct) simp_all
qed

theorem str_append_is_private_witness:
  "(\<exists>m'. cu_str_append_char 0 99 sample_mem = Some m' \<and> str_appended sample_mem 0 [99] m') \<and>
    (\<exists>m'. cu_str_append_charr 0 [100, 101] 2 sample_mem = Some m' \<and>
       str_appended sample_mem 0 (take (unat (2::u64)) [100, 101]) m') \<and>
    (\<exists>m'. cu_str_append_str 0 1 sample_mem = Some m' \<and> str_appended sample_mem 0 [97] m')"
  by (rule str_append_is_private)
    (simp_all add: sample_mem_ok, simp_all add: sample_mem_def str_bytes_def load_def)

text \<open>Copies, substrings, extensions by a character and strings made of an array have the bytes
  they should, whether they share memory or not, and making them changes no other string.\<close>

theorem str_new_has_bytes:
  assumes "str_mem_ok m" "x < length (objs m)" "str_bytes m x = Some bs"
    and "unat (str_len (str_at m x)) < 2 ^ 62"
    and "unat pos + unat len \<le> unat (str_len (str_at m x))" "unat n < 2 ^ 62" "unat n \<le> length arr"
  shows "(\<exists>m'. cu_str_new_copy x m = (length (objs m), m') \<and> str_created m (length (objs m)) bs m') \<and>
    (\<exists>m'. cu_str_substr x pos len m = Some (length (objs m), m') \<and>
       str_created m (length (objs m)) (take (unat len) (drop (unat pos) bs)) m') \<and>
    (\<exists>m'. cu_str_new_str_char x ch m = Some (length (objs m), m') \<and>
       str_created m (length (objs m)) (bs @ [ch]) m') \<and>
    (\<exists>m'. cu_str_new_charr arr n m = Some (length (objs m), m') \<and>
       str_created m (length (objs m)) (take (unat n) arr) m')"
proof (intro conjI)
  show "\<exists>m'. cu_str_new_copy x m = (length (objs m), m') \<and> str_created m (length (objs m)) bs m'"
    by (rule new_copy_correct [OF assms(1-3)])
  show "\<exists>m'. cu_str_substr x pos len m = Some (length (objs m), m') \<and>
       str_created m (length (objs m)) (take (unat len) (drop (unat pos) bs)) m'"
    by (rule substr_correct [OF assms(1-3,5)])
  show "\<exists>m'. cu_str_new_str_char x ch m = Some (length (objs m), m') \<and>
       str_created m (length (objs m)) (bs @ [ch]) m'"
    using assms(4) by (intro new_str_char_correct [OF assms(1-3)]) simp
  show "\<exists>m'. cu_str_new_charr arr n m = Some (length (objs m), m') \<and>
       str_created m (length (objs m)) (take (unat n) arr) m'"
    using assms(6) by (intro new_charr_correct [OF assms(1) _ assms(7)]) simp
qed

theorem str_new_has_bytes_witness:
  "(\<exists>m'. cu_str_new_copy 0 sample_mem = (2, m') \<and> str_created sample_mem 2 [97, 98] m') \<and>
    (\<exists>m'. cu_str_substr 0 1 1 sample_mem = Some (2, m') \<and> str_created sample_mem 2 [98] m') \<and>
    (\<exists>m'. cu_str_new_str_char 0 99 sample_mem = Some (2, m') \<and> str_created sample_mem 2 [97, 98, 99] m') \<and>
    (\<exists>m'. cu_str_new_charr [100, 101] 1 sample_mem = Some (2, m') \<and> str_created sample_mem 2 [100] m')"
proof -
  have bs: "str_bytes sample_mem 0 = Some [97, 98]" "str_len (str_at sample_mem 0) = 2"
    by (simp_all add: sample_mem_def str_bytes_def load_def)
  show ?thesis
    using str_new_has_bytes [OF sample_mem_ok(1) _ bs(1), of 1 1 1 "[100, 101]" 99]
    by (simp add: sample_mem_ok(2) bs(2))
qed

section \<open>Quoting\<close>

lemma str_byte_load:
  assumes "str_bytes m x = Some bs" "i < length bs"
  shows "load m (ptr_add (str_arr (str_at m x)) i) 1 = Some [bs ! i]"
proof -
  let ?b = "blocks m ! fst (str_arr (str_at m x))" and ?o = "snd (str_arr (str_at m x))"
  have bs: "bs = take (unat (str_len (str_at m x))) (drop ?o ?b)" and b: "fst (str_arr (str_at m x)) < length (blocks m)"
    and fit: "?o + unat (str_len (str_at m x)) \<le> length ?b"
    using assms(1) by (auto simp: str_bytes_def load_def split: if_splits)
  have i: "?o + i < length ?b" using assms(2) fit by (simp add: bs)
  have "bs ! i = ?b ! (?o + i)" using assms(2) fit by (simp add: bs)
  then show ?thesis
    using b i by (simp add: load_def take_Suc_conv_app_nth flip: Cons_nth_drop_Suc)
qed

lemma quote_char_length: "length (quote_char c) = 2 \<or> quote_char c = [c]"
  by (simp add: quote_char_def)

lemma quoted_length: "length (concat (map quote_char bs)) \<le> 2 * length bs"
proof (induction bs)
  case (Cons c bs)
  then show ?case using quote_char_length [of c] by auto
qed simp

lemma str_appended_trans:
  assumes "str_appended m x bs m1" "str_appended m1 x cs m2"
  shows "str_appended m x (bs @ cs) m2"
  using assms by (auto simp: str_appended_def option.map_comp o_def)

lemma quote_loop_correct:
  assumes "str_mem_ok m" "x < length (objs m)" "res < length (objs m)" "x \<noteq> res"
    and "str_bytes m x = Some bs" "i + k = length bs" "unat (str_len (str_at m res)) + 2 * k < 2 ^ 62"
  shows "\<exists>m'. str_quote_loop x i k res m = Some m' \<and> str_appended m res (concat (map quote_char (drop i bs))) m'"
  using assms
proof (induction x i k res m rule: str_quote_loop.induct)
  case (1 x i res m)
  then have "map_option (\<lambda>s. s @ []) (str_bytes m res) = str_bytes m res"
    by (simp add: option.map_ident)
  with 1 show ?case by (simp add: str_appended_def)
next
  case (2 x i k res m)
  have i: "i < length bs" using "2.prems"(6) by simp
  note ld = str_byte_load [OF "2.prems"(5) i]
  let ?c = "bs ! i"
  let ?op = "if length (quote_char ?c) = 2 then cu_str_append_charr res (quote_char ?c) 2 m
             else cu_str_append_char res ?c m"
  have "\<exists>m1. ?op = Some m1 \<and> str_appended m res (quote_char ?c) m1"
  proof (cases "length (quote_char ?c) = 2")
    case True
    then show ?thesis
      using append_charr_correct [OF "2.prems"(1,3), of 2 "quote_char ?c"] "2.prems"(7) by simp
  next
    case False
    then have "quote_char ?c = [?c]" using quote_char_length by blast
    then show ?thesis
      using append_char_correct [OF "2.prems"(1,3), of ?c] "2.prems"(7) by simp
  qed
  then obtain m1 where m1: "?op = Some m1" "str_appended m res (quote_char ?c) m1" by blast
  then have m1ok: "str_mem_ok m1" "length (objs m1) = length (objs m)" "str_bytes m1 x = Some bs"
    using "2.prems"(2,4,5) by (simp_all add: str_appended_def)
  obtain rs where rs: "str_bytes m res = Some rs" using str_bytes_Some "2.prems"(1,3) by blast
  then have "str_bytes m1 res = Some (rs @ quote_char ?c)"
    using m1(2) "2.prems"(3) by (simp add: str_appended_def)
  then have "unat (str_len (str_at m1 res)) = unat (str_len (str_at m res)) + length (quote_char ?c)"
    using str_bytes_length [OF rs] str_bytes_length [of m1 res] by simp
  moreover have "length (quote_char ?c) \<le> 2" using quote_char_length [of ?c] by auto
  ultimately have room: "unat (str_len (str_at m1 res)) + 2 * k < 2 ^ 62"
    using "2.prems"(7) by simp
  have "\<exists>m'. str_quote_loop x (Suc i) k res m1 = Some m' \<and>
      str_appended m1 res (concat (map quote_char (drop (Suc i) bs))) m'"
    by (rule "2.IH" [OF ld, unfolded list.sel, OF m1(1)]) (use m1ok "2.prems"(2,3,4,6) room in simp_all)
  then obtain m' where m': "str_quote_loop x (Suc i) k res m1 = Some m'"
    "str_appended m1 res (concat (map quote_char (drop (Suc i) bs))) m'" by blast
  moreover have "concat (map quote_char (drop i bs)) = quote_char ?c @ concat (map quote_char (drop (Suc i) bs))"
    using i by (simp flip: Cons_nth_drop_Suc)
  moreover have "str_quote_loop x i (Suc k) res m = Some m'"
    unfolding str_quote_loop.simps ld by (simp only: Option.bind.simps list.sel m1(1) m'(1))
  ultimately show ?case
    using str_appended_trans [OF m1(2) m'(2)] by simp
qed

text \<open>
  A reader of string literals: after the opening quote it takes the bytes up to the next quote that is not escaped.
  It knows the escapes of C for these bytes only, and rejects the control characters that have such an escape when they are bare.
\<close>

definition escaped_byte :: "u8 \<Rightarrow> u8 option" where
  "escaped_byte d =
     (if d = 110 then Some 10 else if d = 116 then Some 9 else if d = 118 then Some 11 else if d = 102 then Some 12
      else if d = 98 then Some 8 else if d = 114 then Some 13 else if d = 92 \<or> d = 34 then Some d else None)"

fun read_body :: "u8 list \<Rightarrow> (u8 list \<times> u8 list) option" where
  "read_body [] = None"
| "read_body (c # s) =
     (if c = 34 then Some ([], s)
      else if c = 92 then
        (case s of
           [] \<Rightarrow> None
         | d # s \<Rightarrow> (case escaped_byte d of None \<Rightarrow> None | Some b \<Rightarrow> map_option (\<lambda>(bs, r). (b # bs, r)) (read_body s)))
      else if c \<in> {8, 9, 10, 11, 12, 13} then None
      else map_option (\<lambda>(bs, r). (c # bs, r)) (read_body s))"

definition read_literal :: "u8 list \<Rightarrow> (u8 list \<times> u8 list) option" where
  "read_literal s = (case s of [] \<Rightarrow> None | c # s \<Rightarrow> if c = 34 then read_body s else None)"

lemma read_quote_char: "read_body (quote_char c @ s) = map_option (\<lambda>(bs, r). (c # bs, r)) (read_body s)"
  by (simp add: quote_char_def escaped_byte_def)

lemma read_quoted: "read_body (concat (map quote_char bs) @ 34 # r) = Some (bs, r)"
  by (induction bs) (simp_all add: read_quote_char)

text \<open>C29: Quoting succeeds on a consistent memory and creates a string, changing no other one, from which a reader of
  string literals gets exactly the bytes of the original, whatever follows: the quote, the backslash and the control characters are escaped,
  so that the literal neither ends early nor contains a bare control character.\<close>

theorem str_quote_roundtrip:
  assumes "str_mem_ok m" "x < length (objs m)" "str_bytes m x = Some bs" "length bs < 2 ^ 60"
  shows "\<exists>m' lit. cu_str_quote x m = Some (length (objs m), m') \<and> str_created m (length (objs m)) lit m' \<and>
    (\<forall>rest. read_literal (lit @ rest) = Some (bs, rest))"
proof -
  let ?res = "length (objs m)" and ?body = "concat (map quote_char bs)"
  obtain m1 where m1: "cu_str_new_charr [34] 1 m = Some (?res, m1)" "str_created m ?res [34] m1"
    using new_charr_correct [OF assms(1), of 1 "[34]"] by auto
  then have c1: "str_mem_ok m1" "length (objs m1) = Suc ?res" "str_bytes m1 ?res = Some [34]"
    "\<And>y. y < ?res \<Longrightarrow> str_bytes m1 y = str_bytes m y"
    by (simp_all add: str_created_def)
  have len: "unat (str_len (str_at m x)) = length bs"
    using str_bytes_length [OF assms(3)] by simp
  have len1: "unat (str_len (str_at m1 ?res)) = 1"
    using str_bytes_length [OF c1(3)] by simp
  have len_x: "unat (str_len (str_at m1 x)) = length bs"
    using str_bytes_length [of m1 x bs] c1(4) [OF assms(2)] assms(3) by simp
  obtain m2 where m2: "str_quote_loop x 0 (length bs) ?res m1 = Some m2" "str_appended m1 ?res ?body m2"
    using quote_loop_correct [OF c1(1), of x ?res bs 0 "length bs"] c1 assms(2-4) len1 by auto
  then have c2: "str_mem_ok m2" "length (objs m2) = Suc ?res" "str_bytes m2 ?res = Some (34 # ?body)"
    using c1 by (simp_all add: str_appended_def)
  have "length ?body \<le> 2 * length bs" by (rule quoted_length)
  then have "unat (str_len (str_at m2 ?res)) < 2 ^ 62"
    using str_bytes_length [OF c2(3)] assms(4) by simp
  then obtain m3 where m3: "cu_str_append_char ?res 34 m2 = Some m3" "str_appended m2 ?res [34] m3"
    using append_char_correct [OF c2(1)] c2(2) by auto
  have "str_created m ?res (34 # ?body @ [34]) m3"
    using m2(2) m3(2) c1 c2 by (auto simp: str_created_def str_appended_def)
  moreover have "cu_str_quote x m = Some (?res, m3)"
    using m1(1) m2(1) m3(1) len_x len by (simp add: cu_str_quote_def)
  moreover have "read_literal ((34 # ?body @ [34]) @ rest) = Some (bs, rest)" for rest
    by (simp add: read_literal_def read_quoted)
  ultimately show ?thesis by blast
qed

theorem str_quote_roundtrip_witness:
  "\<exists>m' lit. cu_str_quote 0 sample_mem = Some (length (objs sample_mem), m') \<and>
    str_created sample_mem (length (objs sample_mem)) lit m' \<and> (\<forall>rest. read_literal (lit @ rest) = Some ([97, 98], rest))"
  by (rule str_quote_roundtrip [OF sample_mem_ok(1)])
    (simp_all add: sample_mem_ok(2), simp add: sample_mem_def str_bytes_def load_def)

end
