(* ===== verification/Umap.thy ===== *)
theory Umap
  imports RbtreeKeys "HOL-Library.Monad_Syntax"
begin

text \<open>
  The hash maps of \<^verbatim>\<open>cucon/umap.c\<close>: an array of buckets, each a chain of nodes, indexed by the hash
  of the key masked to the size of the array, a power of two. A node is a key with the content of its slot, a
  chain the list of its nodes. The array ends with an entry that is no valid pointer, so reading a
  bucket behind the last one is \<open>None\<close>, like a loop that does not end. The maps with pointer keys of \<^verbatim>\<open>cucon/pmap.h\<close> and the sets of
  \<^verbatim>\<open>cucon/uset.h\<close> and \<^verbatim>\<open>cucon/pset.h\<close> are these maps.
\<close>

section \<open>Representation\<close>

type_synonym 'v umap_node = "u64 \<times> 'v"

record 'v umap =
  um_size :: u64
  um_mask :: u64
  um_arr :: "'v umap_node list list"

definition MIN_SIZE :: nat where "MIN_SIZE = 8"
definition MIN_FILL_NUMER :: u64 where "MIN_FILL_NUMER = 1"
definition MIN_FILL_DENOM :: u64 where "MIN_FILL_DENOM = 2"
definition MAX_FILL_NUMER :: u64 where "MAX_FILL_NUMER = 3"
definition MAX_FILL_DENOM :: u64 where "MAX_FILL_DENOM = 2"

definition UMAP_HASH :: "u64 \<Rightarrow> u64" where
  "UMAP_HASH key = (key XOR drop_bit 7 key) - (drop_bit 11 key XOR drop_bit 19 key)"

definition umap_index :: "u64 \<Rightarrow> u64 \<Rightarrow> nat" where
  "umap_index umap_mask key = unat (UMAP_HASH key AND umap_mask)"

definition cucon_umap_init :: "'v umap" where
  "cucon_umap_init = \<lparr>um_size = 0, um_mask = of_nat MIN_SIZE - 1, um_arr = replicate MIN_SIZE []\<rparr>"

definition cucon_umap_new :: "'v umap" where
  "cucon_umap_new = cucon_umap_init"

definition cucon_umap_size :: "'v umap \<Rightarrow> u64" where
  "cucon_umap_size umap = um_size umap"

definition cucon_umap_is_empty :: "'v umap \<Rightarrow> bool" where
  "cucon_umap_is_empty umap \<longleftrightarrow> um_size umap = 0"

text \<open>Copies, without the slots, of the slots, by a constructor for slots and by one for nodes.\<close>

definition cucon_umap_init_copy_void :: "'v umap \<Rightarrow> unit umap" where
  "cucon_umap_init_copy_void src =
     \<lparr>um_size = um_size src, um_mask = um_mask src,
      um_arr = map (map (\<lambda>(key, slot). (key, ()))) (um_arr src)\<rparr>"

definition cucon_umap_new_copy_void :: "'v umap \<Rightarrow> unit umap" where
  "cucon_umap_new_copy_void src = cucon_umap_init_copy_void src"

definition cucon_umap_init_copy_mem :: "'v umap \<Rightarrow> 'v umap" where
  "cucon_umap_init_copy_mem src =
     \<lparr>um_size = um_size src, um_mask = um_mask src, um_arr = map (map (\<lambda>node. node)) (um_arr src)\<rparr>"

definition cucon_umap_init_copy_mem_ctor :: "'v umap \<Rightarrow> ('v \<Rightarrow> u64 \<Rightarrow> 'w) \<Rightarrow> 'w umap" where
  "cucon_umap_init_copy_mem_ctor src value_cct_copy =
     \<lparr>um_size = um_size src, um_mask = um_mask src,
      um_arr = map (map (\<lambda>(key, slot). (key, value_cct_copy slot key))) (um_arr src)\<rparr>"

definition cucon_umap_init_copy_node :: "'v umap \<Rightarrow> ('v \<Rightarrow> u64 \<Rightarrow> 'w) \<Rightarrow> 'w umap" where
  "cucon_umap_init_copy_node src node_new_copy =
     \<lparr>um_size = um_size src, um_mask = um_mask src,
      um_arr = map (map (\<lambda>(key, slot). (key, node_new_copy slot key))) (um_arr src)\<rparr>"

definition cucon_umap_swap :: "'v umap \<Rightarrow> 'v umap \<Rightarrow> 'v umap \<times> 'v umap" where
  "cucon_umap_swap umap0 umap1 = (umap1, umap0)"

section \<open>Capacity\<close>

definition rehash_node :: "u64 \<Rightarrow> 'v umap_node \<Rightarrow> 'v umap_node list list \<Rightarrow> 'v umap_node list list" where
  "rehash_node new_mask node new_arr =
     (let index = umap_index new_mask (fst node) in new_arr[index := node # new_arr ! index])"

definition set_capacity :: "'v umap \<Rightarrow> u64 \<Rightarrow> 'v umap" where
  "set_capacity umap new_cap =
     (if um_mask umap + 1 = new_cap then umap
      else
        (let new_mask = new_cap - 1 in
         umap\<lparr>um_mask := new_mask,
           um_arr := fold (rehash_node new_mask) (concat (um_arr umap)) (replicate (unat new_cap) [])\<rparr>))"

definition update_cap_after_erase :: "'v umap \<Rightarrow> 'v umap" where
  "update_cap_after_erase umap =
     (if um_size umap * MIN_FILL_DENOM \<le> um_mask umap * MIN_FILL_NUMER then
        (let new_cap = cu_uint64_exp2_ceil_log2 (um_size umap + 1) in
         if new_cap > of_nat MIN_SIZE then set_capacity umap new_cap
         else set_capacity umap (of_nat MIN_SIZE))
      else umap)"

definition update_cap_after_insert :: "'v umap \<Rightarrow> 'v umap" where
  "update_cap_after_insert umap =
     (if um_size umap * MAX_FILL_DENOM > um_mask umap * MAX_FILL_NUMER then
        set_capacity umap (cu_uint64_exp2_ceil_log2 (um_size umap + 1))
      else umap)"

definition cucon_umap_update_cap :: "'v umap \<Rightarrow> 'v umap" where
  "cucon_umap_update_cap umap =
     (if um_size umap * MAX_FILL_DENOM > um_mask umap * MAX_FILL_NUMER then
        set_capacity umap (cu_uint64_exp2_ceil_log2 (um_size umap + 1))
      else if um_size umap * MIN_FILL_DENOM \<le> um_mask umap * MIN_FILL_NUMER then
        (let new_cap = cu_uint64_exp2_ceil_log2 (um_size umap + 1) in
         if new_cap > of_nat MIN_SIZE then set_capacity umap new_cap
         else set_capacity umap (of_nat MIN_SIZE))
      else umap)"

section \<open>Lookup\<close>

fun chain_find :: "u64 \<Rightarrow> 'v umap_node list \<Rightarrow> 'v option" where
  "chain_find key [] = None"
| "chain_find key (node # next) = (if fst node = key then Some (snd node) else chain_find key next)"

definition cucon_umap_find_mem :: "'v umap \<Rightarrow> u64 \<Rightarrow> 'v option" where
  "cucon_umap_find_mem umap key = chain_find key (um_arr umap ! umap_index (um_mask umap) key)"

definition cucon_umap_find_node :: "'v umap \<Rightarrow> u64 \<Rightarrow> 'v umap_node option" where
  "cucon_umap_find_node umap key =
     map_option (\<lambda>slot. (key, slot)) (chain_find key (um_arr umap ! umap_index (um_mask umap) key))"

definition cucon_umap_find_void :: "'v umap \<Rightarrow> u64 \<Rightarrow> bool" where
  "cucon_umap_find_void umap key \<longleftrightarrow> cucon_umap_find_node umap key \<noteq> None"

text \<open>Slots that are pointers, null if there is no slot, or \<^verbatim>\<open>int\<close>, \<open>INT_MIN\<close> if there is none.\<close>

definition cucon_umap_find_ptr :: "u64 umap \<Rightarrow> u64 \<Rightarrow> u64" where
  "cucon_umap_find_ptr umap key =
     (case chain_find key (um_arr umap ! umap_index (um_mask umap) key) of Some ptr \<Rightarrow> ptr | None \<Rightarrow> 0)"

definition INT_MIN :: u32 where "INT_MIN = 0x80000000"

definition cucon_umap_find_int :: "u32 umap \<Rightarrow> u64 \<Rightarrow> u32" where
  "cucon_umap_find_int umap key =
     (case chain_find key (um_arr umap ! umap_index (um_mask umap) key) of Some val \<Rightarrow> val | None \<Rightarrow> INT_MIN)"

section \<open>Insertion\<close>

text \<open>Returns whether a node was inserted, and the slot; the content of a new slot is \<open>fresh\<close>.\<close>

definition cucon_umap_insert_mem :: "'v umap \<Rightarrow> u64 \<Rightarrow> 'v \<Rightarrow> bool \<times> 'v \<times> 'v umap" where
  "cucon_umap_insert_mem umap key fresh =
     (let index = umap_index (um_mask umap) key; chain = um_arr umap ! index in
      case chain_find key chain of
        Some slot \<Rightarrow> (False, slot, umap)
      | None \<Rightarrow> (True, fresh, update_cap_after_insert
          (umap\<lparr>um_size := um_size umap + 1, um_arr := (um_arr umap)[index := chain @ [(key, fresh)]]\<rparr>)))"

definition cucon_umap_insert_void :: "unit umap \<Rightarrow> u64 \<Rightarrow> bool \<times> unit umap" where
  "cucon_umap_insert_void umap key =
     (case cucon_umap_insert_mem umap key () of (inserted, slot, umap) \<Rightarrow> (inserted, umap))"

definition cucon_umap_insert_general :: "'v umap \<Rightarrow> u64 \<Rightarrow> 'v \<Rightarrow> bool \<times> 'v umap_node \<times> 'v umap" where
  "cucon_umap_insert_general umap key alloc_node =
     (let index = umap_index (um_mask umap) key; chain = um_arr umap ! index in
      case chain_find key chain of
        Some slot \<Rightarrow> (False, (key, slot), umap)
      | None \<Rightarrow> (True, (key, alloc_node), update_cap_after_insert
          (umap\<lparr>um_size := um_size umap + 1, um_arr := (um_arr umap)[index := chain @ [(key, alloc_node)]]\<rparr>)))"

text \<open>This variant puts the new node in front.\<close>

definition cucon_umap_insert_new_node :: "'v umap \<Rightarrow> u64 \<Rightarrow> 'v \<Rightarrow> bool \<times> 'v umap_node \<times> 'v umap" where
  "cucon_umap_insert_new_node umap key fresh =
     (let index = umap_index (um_mask umap) key; chain = um_arr umap ! index in
      case chain_find key chain of
        Some slot \<Rightarrow> (False, (key, slot), umap)
      | None \<Rightarrow> (True, (key, fresh), update_cap_after_insert
          (umap\<lparr>um_size := um_size umap + 1, um_arr := (um_arr umap)[index := (key, fresh) # chain]\<rparr>)))"

definition cucon_umap_insert_init_node :: "'v umap \<Rightarrow> 'v umap_node \<Rightarrow> bool \<times> 'v umap" where
  "cucon_umap_insert_init_node umap node =
     (let index = umap_index (um_mask umap) (fst node); chain = um_arr umap ! index in
      case chain_find (fst node) chain of
        Some slot \<Rightarrow> (False, umap)
      | None \<Rightarrow> (True, update_cap_after_insert
          (umap\<lparr>um_size := um_size umap + 1, um_arr := (um_arr umap)[index := chain @ [node]]\<rparr>)))"

definition cucon_umap_insert_ptr :: "u64 umap \<Rightarrow> u64 \<Rightarrow> u64 \<Rightarrow> bool \<times> u64 umap" where
  "cucon_umap_insert_ptr umap key ptr =
     (case cucon_umap_insert_mem umap key ptr of (inserted, slot, umap) \<Rightarrow> (inserted, umap))"

definition cucon_umap_insert_int :: "u32 umap \<Rightarrow> u64 \<Rightarrow> u32 \<Rightarrow> bool \<times> u32 umap" where
  "cucon_umap_insert_int umap key val =
     (case cucon_umap_insert_mem umap key val of (inserted, slot, umap) \<Rightarrow> (inserted, umap))"

section \<open>Erasure\<close>

fun chain_erase :: "u64 \<Rightarrow> 'v umap_node list \<Rightarrow> 'v umap_node list" where
  "chain_erase key [] = []"
| "chain_erase key (node # next) = (if fst node = key then next else node # chain_erase key next)"

definition umap_unlink :: "'v umap \<Rightarrow> u64 \<Rightarrow> 'v umap" where
  "umap_unlink umap key =
     (let index = umap_index (um_mask umap) key in
      umap\<lparr>um_size := um_size umap - 1, um_arr := (um_arr umap)[index := chain_erase key (um_arr umap ! index)]\<rparr>)"

definition cucon_umap_erase_keep_cap :: "'v umap \<Rightarrow> u64 \<Rightarrow> bool \<times> 'v umap" where
  "cucon_umap_erase_keep_cap umap key =
     (case chain_find key (um_arr umap ! umap_index (um_mask umap) key) of
        Some slot \<Rightarrow> (True, umap_unlink umap key)
      | None \<Rightarrow> (False, umap))"

definition cucon_umap_erase :: "'v umap \<Rightarrow> u64 \<Rightarrow> bool \<times> 'v umap" where
  "cucon_umap_erase umap key =
     (case chain_find key (um_arr umap ! umap_index (um_mask umap) key) of
        Some slot \<Rightarrow> (True, update_cap_after_erase (umap_unlink umap key))
      | None \<Rightarrow> (False, umap))"

definition cucon_umap_erase_ptr :: "u64 umap \<Rightarrow> u64 \<Rightarrow> u64 \<times> u64 umap" where
  "cucon_umap_erase_ptr umap key =
     (case chain_find key (um_arr umap ! umap_index (um_mask umap) key) of
        Some ptr \<Rightarrow> (ptr, update_cap_after_erase (umap_unlink umap key))
      | None \<Rightarrow> (0, umap))"

definition cucon_umap_erase_int :: "u32 umap \<Rightarrow> u64 \<Rightarrow> u32 \<times> u32 umap" where
  "cucon_umap_erase_int umap key =
     (case chain_find key (um_arr umap ! umap_index (um_mask umap) key) of
        Some val \<Rightarrow> (val, update_cap_after_erase (umap_unlink umap key))
      | None \<Rightarrow> (INT_MIN, umap))"

text \<open>Storing to a slot that was found.\<close>

fun chain_store :: "u64 \<Rightarrow> 'v \<Rightarrow> 'v umap_node list \<Rightarrow> 'v umap_node list" where
  "chain_store key slot [] = []"
| "chain_store key slot (node # next) =
     (if fst node = key then (key, slot) # next else node # chain_store key slot next)"

definition umap_store :: "'v umap \<Rightarrow> u64 \<Rightarrow> 'v \<Rightarrow> 'v umap" where
  "umap_store umap key slot =
     (let index = umap_index (um_mask umap) key in
      umap\<lparr>um_arr := (um_arr umap)[index := chain_store key slot (um_arr umap ! index)]\<rparr>)"

definition cucon_umap_replace_ptr :: "u64 umap \<Rightarrow> u64 \<Rightarrow> u64 \<Rightarrow> u64 \<times> u64 umap" where
  "cucon_umap_replace_ptr umap key ptr =
     (if ptr = 0 then cucon_umap_erase_ptr umap key
      else
        (case cucon_umap_insert_mem umap key ptr of
           (True, slot, umap) \<Rightarrow> (0, umap)
         | (False, oldptr, umap) \<Rightarrow> (oldptr, umap_store umap key ptr)))"

definition cucon_umap_replace_int :: "u32 umap \<Rightarrow> u64 \<Rightarrow> u32 \<Rightarrow> u32 \<times> u32 umap" where
  "cucon_umap_replace_int umap key val =
     (if val = INT_MIN then cucon_umap_erase_int umap key
      else
        (case cucon_umap_insert_mem umap key val of
           (True, slot, umap) \<Rightarrow> (INT_MIN, umap)
         | (False, old_val, umap) \<Rightarrow> (old_val, umap_store umap key val)))"

text \<open>The search for a nonempty bucket from a random one, \<open>random\<close> being the random number.\<close>

partial_function (option) umap_pop_search :: "'v umap \<Rightarrow> nat \<Rightarrow> nat option" where
  "umap_pop_search umap head =
     (if um_arr umap ! head \<noteq> [] then Some head
      else umap_pop_search umap (if Suc head > unat (um_mask umap) then 0 else Suc head))"

definition cucon_umap_pop_any_node :: "u64 \<Rightarrow> 'v umap \<Rightarrow> ('v umap_node \<times> 'v umap) option" where
  "cucon_umap_pop_any_node random umap =
     (if cucon_umap_is_empty umap then None
      else do {
        head \<leftarrow> umap_pop_search umap (unat (random AND um_mask umap));
        (case um_arr umap ! head of
           [] \<Rightarrow> None
         | node # next \<Rightarrow>
             Some (node, update_cap_after_erase
               (umap\<lparr>um_size := um_size umap - 1, um_arr := (um_arr umap)[head := next]\<rparr>)))
      })"

definition cucon_umap_pop_any_key :: "u64 \<Rightarrow> 'v umap \<Rightarrow> (u64 \<times> 'v umap) option" where
  "cucon_umap_pop_any_key random umap =
     do { (node, umap) \<leftarrow> cucon_umap_pop_any_node random umap; Some (fst node, umap) }"

end
