(* ===== verification/UmapIter.thy ===== *)
theory UmapIter
  imports Umap CLib
begin

text \<open>
  Iteration over the hash maps of \<^verbatim>\<open>cucon/umap.c\<close> with callbacks and iterators, comparison,
  hash codes, and the operations that combine maps. The loops over the indices up to the mask
  visit the buckets in the order of the array. A callback works on a state of its own.
\<close>

section \<open>Callbacks\<close>

fun chain_iter :: "(u64 \<Rightarrow> 'v \<Rightarrow> 's \<Rightarrow> 's) \<Rightarrow> 'v umap_node list \<Rightarrow> 's \<Rightarrow> 's" where
  "chain_iter cb [] s = s"
| "chain_iter cb (node # next) s = chain_iter cb next (cb (fst node) (snd node) s)"

definition cucon_umap_iter_mem :: "'v umap \<Rightarrow> (u64 \<Rightarrow> 'v \<Rightarrow> 's \<Rightarrow> 's) \<Rightarrow> 's \<Rightarrow> 's" where
  "cucon_umap_iter_mem umap cb s = fold (chain_iter cb) (um_arr umap) s"

definition cucon_umap_iter_keys :: "'v umap \<Rightarrow> (u64 \<Rightarrow> 's \<Rightarrow> 's) \<Rightarrow> 's \<Rightarrow> 's" where
  "cucon_umap_iter_keys umap cb s = fold (chain_iter (\<lambda>key slot. cb key)) (um_arr umap) s"

fun chain_conj :: "('v umap_node \<Rightarrow> 's \<Rightarrow> bool \<times> 's) \<Rightarrow> 'v umap_node list \<Rightarrow> 's \<Rightarrow> bool \<times> 's" where
  "chain_conj cb [] s = (True, s)"
| "chain_conj cb (node # next) s =
     (case cb node s of (True, s) \<Rightarrow> chain_conj cb next s | (False, s) \<Rightarrow> (False, s))"

definition cucon_umap_conj_node ::
  "'v umap \<Rightarrow> ('v umap_node \<Rightarrow> 's \<Rightarrow> bool \<times> 's) \<Rightarrow> 's \<Rightarrow> bool \<times> 's" where
  "cucon_umap_conj_node umap cb s = conj_list (chain_conj cb) (um_arr umap) s"

definition cucon_umap_conj_mem :: "'v umap \<Rightarrow> (u64 \<Rightarrow> 'v \<Rightarrow> 's \<Rightarrow> bool \<times> 's) \<Rightarrow> 's \<Rightarrow> bool \<times> 's" where
  "cucon_umap_conj_mem umap cb s =
     conj_list (chain_conj (\<lambda>node. cb (fst node) (snd node))) (um_arr umap) s"

definition cucon_umap_conj_keys :: "'v umap \<Rightarrow> (u64 \<Rightarrow> 's \<Rightarrow> bool \<times> 's) \<Rightarrow> 's \<Rightarrow> bool \<times> 's" where
  "cucon_umap_conj_keys umap cb s = conj_list (chain_conj (\<lambda>node. cb (fst node))) (um_arr umap) s"

text \<open>The callback receives the address of the object the node is embedded in at an offset.\<close>

definition cucon_umap_conj_general ::
  "'v umap \<Rightarrow> ('v umap_node \<Rightarrow> 'o) \<Rightarrow> (u64 \<Rightarrow> 'o \<Rightarrow> 's \<Rightarrow> bool \<times> 's) \<Rightarrow> 's \<Rightarrow> bool \<times> 's" where
  "cucon_umap_conj_general umap object_at cb s =
     conj_list (chain_conj (\<lambda>node. cb (fst node) (object_at node))) (um_arr umap) s"

text \<open>The same for maps whose keys are pointers, and with slots that are pointers.\<close>

definition cucon_pmap_iter_mem :: "'v umap \<Rightarrow> (u64 \<Rightarrow> 'v \<Rightarrow> 's \<Rightarrow> 's) \<Rightarrow> 's \<Rightarrow> 's" where
  "cucon_pmap_iter_mem pmap cb s = fold (chain_iter cb) (um_arr pmap) s"

definition cucon_pmap_iter_ptr :: "u64 umap \<Rightarrow> (u64 \<Rightarrow> u64 \<Rightarrow> 's \<Rightarrow> 's) \<Rightarrow> 's \<Rightarrow> 's" where
  "cucon_pmap_iter_ptr pmap cb s = fold (chain_iter cb) (um_arr pmap) s"

definition cucon_pmap_iter_keys :: "'v umap \<Rightarrow> (u64 \<Rightarrow> 's \<Rightarrow> 's) \<Rightarrow> 's \<Rightarrow> 's" where
  "cucon_pmap_iter_keys pmap cb s = fold (chain_iter (\<lambda>key slot. cb key)) (um_arr pmap) s"

definition cucon_pmap_conj_general ::
  "'v umap \<Rightarrow> ('v umap_node \<Rightarrow> 'o) \<Rightarrow> (u64 \<Rightarrow> 'o \<Rightarrow> 's \<Rightarrow> bool \<times> 's) \<Rightarrow> 's \<Rightarrow> bool \<times> 's" where
  "cucon_pmap_conj_general pmap object_at cb s =
     conj_list (chain_conj (\<lambda>node. cb (fst node) (object_at node))) (um_arr pmap) s"

definition cucon_pmap_conj_mem :: "'v umap \<Rightarrow> (u64 \<Rightarrow> 'v \<Rightarrow> 's \<Rightarrow> bool \<times> 's) \<Rightarrow> 's \<Rightarrow> bool \<times> 's" where
  "cucon_pmap_conj_mem pmap cb s =
     conj_list (chain_conj (\<lambda>node. cb (fst node) (snd node))) (um_arr pmap) s"

definition cucon_pmap_conj_ptr :: "u64 umap \<Rightarrow> (u64 \<Rightarrow> u64 \<Rightarrow> 's \<Rightarrow> bool \<times> 's) \<Rightarrow> 's \<Rightarrow> bool \<times> 's" where
  "cucon_pmap_conj_ptr pmap cb s =
     conj_list (chain_conj (\<lambda>node. cb (fst node) (snd node))) (um_arr pmap) s"

definition cucon_pmap_conj_keys :: "'v umap \<Rightarrow> (u64 \<Rightarrow> 's \<Rightarrow> bool \<times> 's) \<Rightarrow> 's \<Rightarrow> bool \<times> 's" where
  "cucon_pmap_conj_keys pmap cb s = conj_list (chain_conj (\<lambda>node. cb (fst node))) (um_arr pmap) s"

definition uintptr_cmp :: "u64 \<Rightarrow> u64 \<Rightarrow> int" where
  "uintptr_cmp x y = sint (ucast (x - y) :: u32)"

definition cucon_umap_iter_increasing_keys :: "'v umap \<Rightarrow> (u64 \<Rightarrow> 's \<Rightarrow> 's) \<Rightarrow> 's \<Rightarrow> 's" where
  "cucon_umap_iter_increasing_keys umap cb s =
     (let arr = rev (fold (chain_iter (\<lambda>key slot p. key # p)) (um_arr umap) []) in
      fold cb (qsort uintptr_cmp arr) s)"

section \<open>Comparison and hash codes\<close>

definition cucon_umap_eq_keys :: "'v umap \<Rightarrow> 'w umap \<Rightarrow> bool" where
  "cucon_umap_eq_keys umap0 umap1 =
     (if cucon_umap_size umap0 \<noteq> cucon_umap_size umap1 then False
      else fst (conj_list (chain_conj (\<lambda>node s. (cucon_umap_find_mem umap1 (fst node) \<noteq> None, s)))
        (um_arr umap0) ()))"

text \<open>The inner loop of the comparison with slots, which does not advance to the next node.\<close>

partial_function (option) eq_mem_chain ::
  "u8 list umap \<Rightarrow> nat \<Rightarrow> u8 list umap_node list \<Rightarrow> bool option" where
  "eq_mem_chain umap1 slot_size node =
     (case node of
        [] \<Rightarrow> Some True
      | (key, slot0) # next \<Rightarrow>
          (case cucon_umap_find_mem umap1 key of
             None \<Rightarrow> Some False
           | Some slot \<Rightarrow>
               if memcmp slot_size slot0 slot \<noteq> 0 then Some False
               else eq_mem_chain umap1 slot_size node))"

fun eq_mem_arr :: "u8 list umap \<Rightarrow> nat \<Rightarrow> u8 list umap_node list list \<Rightarrow> bool option" where
  "eq_mem_arr umap1 slot_size [] = Some True"
| "eq_mem_arr umap1 slot_size (node # arr) =
     do { eq \<leftarrow> eq_mem_chain umap1 slot_size node; if eq then eq_mem_arr umap1 slot_size arr else Some False }"

definition cucon_umap_eq_mem :: "u8 list umap \<Rightarrow> u8 list umap \<Rightarrow> nat \<Rightarrow> bool option" where
  "cucon_umap_eq_mem umap0 umap1 slot_size =
     (if cucon_umap_size umap0 \<noteq> cucon_umap_size umap1 then Some False
      else eq_mem_arr umap1 slot_size (um_arr umap0))"

text \<open>The loop over the buckets with indices up to \<open>n\<close>, \<open>None\<close> if it reaches the end of the array.\<close>

definition umap_upto :: "'v umap \<Rightarrow> u64 \<Rightarrow> 'v umap_node list list option" where
  "umap_upto umap n = (if unat n < length (um_arr umap) then Some (take (Suc (unat n)) (um_arr umap)) else None)"

definition cucon_umap_hash_keys :: "'v umap \<Rightarrow> u64 option" where
  "cucon_umap_hash_keys umap =
     do { arr \<leftarrow> umap_upto umap (um_size umap);
          Some (UMAP_HASH (fold (chain_iter (\<lambda>key slot hash. hash + UMAP_HASH key)) arr 178841123)) }"

text \<open>Here a slot is the sequence of its words, padded with zeros.\<close>

definition cucon_umap_hash_mem :: "u64 list umap \<Rightarrow> u64 option" where
  "cucon_umap_hash_mem umap =
     do { arr \<leftarrow> umap_upto umap (um_size umap);
          Some (UMAP_HASH (fold (chain_iter (\<lambda>key slot hash.
            hash + fold (\<lambda>word subhash. UMAP_HASH (subhash + word)) slot (UMAP_HASH key))) arr 178841123)) }"

section \<open>Combination\<close>

text \<open>
  The two maps become their intersection and their union: the nodes of the smaller one whose keys
  are not in the larger one are moved there. The code uses the mask of the smaller map for both.
\<close>

fun isecn_union_chain ::
  "u64 \<Rightarrow> 'v umap_node list \<Rightarrow> u64 \<Rightarrow> 'v umap \<Rightarrow> ('v umap_node list \<times> u64 \<times> 'v umap) option" where
  "isecn_union_chain mask0 [] size0 umap1 = Some ([], size0, umap1)"
| "isecn_union_chain mask0 (node0 # next) size0 umap1 =
     (let key0 = fst node0; j = umap_index mask0 key0 in
      if j < length (um_arr umap1) then
        (case chain_find key0 (um_arr umap1 ! j) of
           Some slot \<Rightarrow>
             do { (kept, size0, umap1) \<leftarrow> isecn_union_chain mask0 next size0 umap1;
                  Some (node0 # kept, size0, umap1) }
         | None \<Rightarrow> isecn_union_chain mask0 next (size0 - 1)
             (umap1\<lparr>um_size := um_size umap1 + 1, um_arr := (um_arr umap1)[j := node0 # um_arr umap1 ! j]\<rparr>))
      else None)"

fun isecn_union_arr ::
  "u64 \<Rightarrow> 'v umap_node list list \<Rightarrow> u64 \<Rightarrow> 'v umap \<Rightarrow> ('v umap_node list list \<times> u64 \<times> 'v umap) option" where
  "isecn_union_arr mask0 [] size0 umap1 = Some ([], size0, umap1)"
| "isecn_union_arr mask0 (node0 # arr) size0 umap1 =
     do { (kept, size0, umap1) \<leftarrow> isecn_union_chain mask0 node0 size0 umap1;
          (arr0, size0, umap1) \<leftarrow> isecn_union_arr mask0 arr size0 umap1;
          Some (kept # arr0, size0, umap1) }"

definition cucon_umap_assign_isecn_union :: "'v umap \<Rightarrow> 'v umap \<Rightarrow> ('v umap \<times> 'v umap) option" where
  "cucon_umap_assign_isecn_union umap0 umap1 =
     (let (umap0, umap1) = (if cucon_umap_size umap0 > cucon_umap_size umap1
                            then cucon_umap_swap umap0 umap1 else (umap0, umap1)) in
      do { (arr0, size0, umap1) \<leftarrow> isecn_union_arr (um_mask umap0) (um_arr umap0) (um_size umap0) umap1;
           Some (update_cap_after_erase (umap0\<lparr>um_size := size0, um_arr := arr0\<rparr>),
                 update_cap_after_insert umap1) })"

fun move_isecn_chain ::
  "'v umap_node list \<Rightarrow> u64 \<Rightarrow> 'v umap \<Rightarrow> 'v umap \<Rightarrow> 'v umap_node list \<times> u64 \<times> 'v umap \<times> 'v umap" where
  "move_isecn_chain [] size0 src1 dst = ([], size0, src1, dst)"
| "move_isecn_chain (node0 # next) size0 src1 dst =
     (case cucon_umap_erase_keep_cap src1 (fst node0) of
        (True, src1) \<Rightarrow>
          (let k = umap_index (um_mask dst) (fst node0) in
           move_isecn_chain next (size0 - 1) src1
             (dst\<lparr>um_size := um_size dst + 1, um_arr := (um_arr dst)[k := node0 # um_arr dst ! k]\<rparr>))
      | (False, src1) \<Rightarrow>
          (case move_isecn_chain next size0 src1 dst of
             (kept, size0, src1, dst) \<Rightarrow> (node0 # kept, size0, src1, dst)))"

fun move_isecn_arr ::
  "'v umap_node list list \<Rightarrow> u64 \<Rightarrow> 'v umap \<Rightarrow> 'v umap \<Rightarrow> 'v umap_node list list \<times> u64 \<times> 'v umap \<times> 'v umap"
where
  "move_isecn_arr [] size0 src1 dst = ([], size0, src1, dst)"
| "move_isecn_arr (node0 # arr) size0 src1 dst =
     (case move_isecn_chain node0 size0 src1 dst of
        (kept, size0, src1, dst) \<Rightarrow>
          (case move_isecn_arr arr size0 src1 dst of
             (arr0, size0, src1, dst) \<Rightarrow> (kept # arr0, size0, src1, dst)))"

text \<open>Returns the target and the two sources, which are different objects.\<close>

definition cucon_umap_move_isecn :: "'v umap \<Rightarrow> 'v umap \<Rightarrow> 'v umap \<Rightarrow> 'v umap \<times> 'v umap \<times> 'v umap" where
  "cucon_umap_move_isecn dst src0 src1 =
     (let tmp = cucon_umap_size src0 > cucon_umap_size src1;
          (src0, src1) = (if tmp then (src1, src0) else (src0, src1));
          (arr0, size0, src1, dst) = move_isecn_arr (um_arr src0) (um_size src0) src1 dst;
          src0 = update_cap_after_erase (src0\<lparr>um_size := size0, um_arr := arr0\<rparr>);
          src1 = update_cap_after_erase src1;
          dst = update_cap_after_insert dst in
      if tmp then (dst, src1, src0) else (dst, src0, src1))"

fun chain_isecn :: "'w umap \<Rightarrow> 'v umap_node list \<Rightarrow> 'v umap_node list" where
  "chain_isecn src [] = []"
| "chain_isecn src (dst_node # next) =
     (if cucon_umap_find_mem src (fst dst_node) \<noteq> None then dst_node # chain_isecn src next
      else chain_isecn src next)"

definition cucon_umap_assign_isecn :: "'v umap \<Rightarrow> 'w umap \<Rightarrow> 'v umap" where
  "cucon_umap_assign_isecn dst src = dst\<lparr>um_arr := map (chain_isecn src) (um_arr dst)\<rparr>"

definition cucon_umap_assign_union_void :: "unit umap \<Rightarrow> 'w umap \<Rightarrow> unit umap" where
  "cucon_umap_assign_union_void dst src =
     fold (chain_iter (\<lambda>key slot dst. snd (cucon_umap_insert_void dst key))) (um_arr src) dst"

section \<open>Iterators\<close>

text \<open>The index of a bucket with the rest of its chain, \<open>None\<close> for the pointer that ends the array.\<close>

type_synonym 'v umap_it = "nat \<times> 'v umap_node list option"

function umap_scan :: "'v umap \<Rightarrow> nat \<Rightarrow> nat" where
  "umap_scan umap node_head =
     (if node_head < length (um_arr umap) \<and> um_arr umap ! node_head = []
      then umap_scan umap (Suc node_head) else node_head)"
  by auto
termination by (relation "measure (\<lambda>(umap, node_head). length (um_arr umap) - node_head)") auto

declare umap_scan.simps [simp del]

definition umap_it_at :: "'v umap \<Rightarrow> nat \<Rightarrow> 'v umap_it" where
  "umap_it_at umap node_head =
     (node_head, if node_head < length (um_arr umap) then Some (um_arr umap ! node_head) else None)"

definition cucon_umap_end :: "'v umap \<Rightarrow> 'v umap_it" where
  "cucon_umap_end umap = (Suc (unat (um_mask umap)), None)"

definition cucon_umap_begin :: "'v umap \<Rightarrow> 'v umap_it" where
  "cucon_umap_begin umap =
     (if um_size umap = 0 then (Suc (unat (um_mask umap)), None)
      else umap_it_at umap (umap_scan umap 0))"

definition cucon_umap_end_eq :: "'v umap \<Rightarrow> 'v umap_it \<Rightarrow> bool" where
  "cucon_umap_end_eq umap it \<longleftrightarrow> snd it = None"

definition cucon_umap_it_next :: "'v umap \<Rightarrow> 'v umap_it \<Rightarrow> 'v umap_it option" where
  "cucon_umap_it_next umap it =
     (case snd it of
        Some (node # next) \<Rightarrow>
          if next = [] then Some (umap_it_at umap (umap_scan umap (Suc (fst it))))
          else Some (fst it, Some next)
      | _ \<Rightarrow> None)"

definition cucon_umap_it_key :: "'v umap_it \<Rightarrow> u64 option" where
  "cucon_umap_it_key it = (case snd it of Some (node # next) \<Rightarrow> Some (fst node) | _ \<Rightarrow> None)"

definition cucon_umap_it_value_mem :: "'v umap_it \<Rightarrow> 'v option" where
  "cucon_umap_it_value_mem it = (case snd it of Some (node # next) \<Rightarrow> Some (snd node) | _ \<Rightarrow> None)"

end
