(* ===== verification/UmapContents.thy ===== *)
theory UmapContents
  imports UmapIter "HOL-Library.Multiset"
begin

text \<open>
  The invariant of the hash maps of \<^verbatim>\<open>cucon/umap.c\<close> and the effect of their operations on the
  finite map they represent: every key is in the bucket of its hash, no key occurs twice, the size counts the nodes.
  Changes of the capacity permute the nodes.
\<close>

named_theorems umap_facts \<open>effects of the operations of hash maps\<close>

section \<open>Chains and arrays of chains\<close>

lemma chain_find_map_of: "chain_find key chain = map_of chain key"
  by (induction chain) auto

lemma chain_erase_mset: "map_of chain key = Some v \<Longrightarrow> add_mset (key, v) (mset (chain_erase key chain)) = mset chain"
  by (induction chain) (auto split: if_splits simp: add_mset_commute)

lemma chain_store_mset:
  "map_of chain key = Some v \<Longrightarrow> add_mset (key, v) (mset (chain_store key w chain)) = add_mset (key, w) (mset chain)"
  by (induction chain) (auto split: if_splits simp: add_mset_commute)

lemma concat_update:
  "i < length arr \<Longrightarrow> concat (arr[i := c]) = concat (take i arr) @ c @ concat (drop (Suc i) arr)"
  by (simp add: upd_conv_take_nth_drop)

lemma concat_at:
  "i < length arr \<Longrightarrow> concat arr = concat (take i arr) @ arr ! i @ concat (drop (Suc i) arr)"
  by (metis concat_update list_update_id)

lemma mset_concat_update:
  "i < length arr \<Longrightarrow> mset (concat (arr[i := c])) + mset (arr ! i) = mset (concat arr) + mset c"
  by (simp add: concat_update concat_at [of i arr])

lemma map_of_mset_eq:
  assumes "mset xs = mset ys" "distinct (map fst xs)"
  shows "map_of xs = map_of ys"
proof -
  have "distinct (map fst ys)"
    using assms by (metis mset_eq_imp_distinct_iff mset_map)
  moreover have "set xs = set ys" using assms(1) by (rule mset_eq_setD)
  ultimately show ?thesis using assms(2) by (metis map_of_inject_set)
qed

text \<open>Every key is in the bucket of its index.\<close>

definition in_buckets :: "u64 \<Rightarrow> 'v umap_node list list \<Rightarrow> bool" where
  "in_buckets msk arr \<longleftrightarrow> (\<forall>i < length arr. \<forall>node \<in> set (arr ! i). umap_index msk (fst node) = i)"

lemma in_bucketsD: "in_buckets msk arr \<Longrightarrow> i < length arr \<Longrightarrow> node \<in> set (arr ! i) \<Longrightarrow> umap_index msk (fst node) = i"
  by (simp add: in_buckets_def)

lemma in_buckets_update:
  "in_buckets msk arr \<Longrightarrow> (\<And>node. node \<in> set c \<Longrightarrow> umap_index msk (fst node) = i) \<Longrightarrow> in_buckets msk (arr[i := c])"
  unfolding in_buckets_def by (metis length_list_update nth_list_update_eq nth_list_update_neq)

lemma in_buckets_empty: "in_buckets msk (replicate n [])"
  by (simp add: in_buckets_def)

lemma in_buckets_map:
  assumes "in_buckets msk arr" "\<And>chain. fst ` set (f chain) \<subseteq> fst ` set chain"
  shows "in_buckets msk (map f arr)"
  unfolding in_buckets_def
proof (intro allI impI ballI)
  fix i node
  assume "i < length (map f arr)" "node \<in> set (map f arr ! i)"
  then obtain node' where "node' \<in> set (arr ! i)" "fst node' = fst node" "i < length arr"
    using assms(2) [of "arr ! i"] by (auto simp: image_subset_iff)
  then show "umap_index msk (fst node) = i" using in_bucketsD [OF assms(1)] by metis
qed

lemma map_of_bucket:
  assumes "in_buckets msk arr" "umap_index msk key < length arr"
  shows "map_of (concat arr) key = map_of (arr ! umap_index msk key) key"
proof -
  let ?i = "umap_index msk key"
  have none: "map_of (concat chains) key = None"
    if "\<And>j. j < length chains \<Longrightarrow> \<exists>i. i \<noteq> ?i \<and> i < length arr \<and> chains ! j = arr ! i" for chains
  proof -
    have "key \<notin> fst ` set (concat chains)"
    proof
      assume "key \<in> fst ` set (concat chains)"
      then obtain chain node where "chain \<in> set chains" "node \<in> set chain" "key = fst node" by auto
      then obtain j where "j < length chains" "node \<in> set (chains ! j)" "key = fst node"
        by (metis in_set_conv_nth)
      then show False using that in_bucketsD [OF assms(1)] by metis
    qed
    then show ?thesis by (simp add: map_of_eq_None_iff)
  qed
  have "map_of (concat (take ?i arr)) key = None"
    by (rule none, rule_tac x = j in exI) (use assms(2) in simp)
  moreover have "map_of (concat (drop (Suc ?i) arr)) key = None"
    by (rule none, rule_tac x = "Suc ?i + j" in exI) (use assms(2) in simp)
  ultimately show ?thesis
    by (simp add: concat_at [OF assms(2)] map_add_def split: option.split)
qed

section \<open>The invariant\<close>

definition umap_nodes :: "'v umap \<Rightarrow> 'v umap_node list" where
  "umap_nodes umap = concat (um_arr umap)"

definition umap_count :: "'v umap \<Rightarrow> nat" where
  "umap_count umap = length (umap_nodes umap)"

definition umap_lookup :: "'v umap \<Rightarrow> u64 \<Rightarrow> 'v option" where
  "umap_lookup umap = map_of (umap_nodes umap)"

definition cap_ok :: "u64 \<Rightarrow> 'v umap_node list list \<Rightarrow> bool" where
  "cap_ok msk arr \<longleftrightarrow> (\<exists>k. 3 \<le> k \<and> k \<le> 61 \<and> msk = 2 ^ k - 1 \<and> length arr = 2 ^ k)"

definition umap_wf :: "'v umap \<Rightarrow> bool" where
  "umap_wf umap \<longleftrightarrow>
     cap_ok (um_mask umap) (um_arr umap) \<and> in_buckets (um_mask umap) (um_arr umap) \<and>
     distinct (map fst (umap_nodes umap)) \<and> um_size umap = of_nat (umap_count umap) \<and>
     umap_count umap < 2 ^ 60"

lemma umap_wfD:
  assumes "umap_wf umap"
  shows "cap_ok (um_mask umap) (um_arr umap)" "in_buckets (um_mask umap) (um_arr umap)"
    "distinct (map fst (umap_nodes umap))" "um_size umap = of_nat (umap_count umap)" "umap_count umap < 2 ^ 60"
    "unat (um_size umap) = umap_count umap"
  using assms by (simp_all add: umap_wf_def unat_of_nat_u64)

lemma unat_pow2_minus_1:
  assumes "k \<le> 64"
  shows "unat ((2::u64) ^ k - 1) = 2 ^ k - 1"
proof -
  have "unat (mask k :: u64) = mask k"
    using assms by (intro bit_eqI) (auto simp: bit_unsigned_iff bit_mask_iff)
  then show ?thesis by (simp add: mask_eq_exp_minus_1)
qed

lemma cap_okD:
  assumes "cap_ok msk arr"
  obtains k where "3 \<le> k" "k \<le> 61" "msk = mask k" "unat msk = 2 ^ k - 1" "length arr = Suc (unat msk)"
proof -
  obtain k where k: "3 \<le> k" "k \<le> 61" "msk = 2 ^ k - 1" "length arr = 2 ^ k"
    using assms by (auto simp: cap_ok_def)
  have m: "msk = mask k" using k(3) by (simp add: mask_eq_exp_minus_1)
  moreover have "unat msk = 2 ^ k - 1" using k(2,3) by (simp add: unat_pow2_minus_1)
  moreover have "length arr = Suc (unat msk)" using k(4) calculation by simp
  ultimately show thesis using that k by blast
qed

lemma umap_index_less: "cap_ok msk arr \<Longrightarrow> umap_index msk key < length arr"
proof (erule cap_okD)
  fix k
  assume "length arr = Suc (unat msk)"
  moreover have "UMAP_HASH key AND msk \<le> msk" by (rule word_and_le1)
  ultimately show ?thesis by (simp add: umap_index_def word_le_nat_alt)
qed

text \<open>A change that keeps every key in its bucket and counts the nodes.\<close>

lemma umap_wfI:
  assumes "cap_ok (um_mask umap) (um_arr umap)" "in_buckets (um_mask umap) (um_arr umap)"
    and "mset (concat (um_arr umap)) = mset ns" "distinct (map fst ns)" "um_size umap = of_nat (length ns)"
    and "length ns < 2 ^ 60"
  shows "umap_wf umap" "umap_lookup umap = map_of ns" "umap_count umap = length ns"
proof -
  have m: "mset (umap_nodes umap) = mset ns" using assms(3) by (simp add: umap_nodes_def)
  then have "distinct (map fst (umap_nodes umap))" using assms(4) by (metis mset_eq_imp_distinct_iff mset_map)
  then show "umap_lookup umap = map_of ns" unfolding umap_lookup_def using m by (rule map_of_mset_eq [rotated])
  show c: "umap_count umap = length ns" using m by (metis size_mset umap_count_def)
  show "umap_wf umap"
    using assms c \<open>distinct (map fst (umap_nodes umap))\<close> by (simp add: umap_wf_def)
qed

lemma umap_find: "umap_wf umap \<Longrightarrow>
    chain_find key (um_arr umap ! umap_index (um_mask umap) key) = umap_lookup umap key"
  by (simp add: chain_find_map_of umap_lookup_def umap_nodes_def umap_wfD(2)
      map_of_bucket [symmetric] umap_index_less [OF umap_wfD(1)])

lemma find_mem_lookup [umap_facts]: "umap_wf umap \<Longrightarrow> cucon_umap_find_mem umap key = umap_lookup umap key"
  by (simp add: cucon_umap_find_mem_def umap_find)

lemma lookup_count: "umap_wf umap \<Longrightarrow> card (dom (umap_lookup umap)) = umap_count umap"
  using umap_wfD(3) [of umap]
  by (simp add: umap_lookup_def umap_count_def dom_map_of_conv_image_fst flip: distinct_card [of "map fst (umap_nodes umap)", simplified])

section \<open>Rehashing\<close>

lemma rehash_fold:
  assumes "cap_ok msk arr" "in_buckets msk arr"
  shows "length (fold (rehash_node msk) ns arr) = length arr \<and> in_buckets msk (fold (rehash_node msk) ns arr) \<and>
    mset (concat (fold (rehash_node msk) ns arr)) = mset ns + mset (concat arr)"
  using assms
proof (induction ns arbitrary: arr)
  case (Cons n ns)
  let ?i = "umap_index msk (fst n)"
  have i: "?i < length arr" using Cons.prems(1) by (rule umap_index_less)
  have "rehash_node msk n arr = arr[?i := n # arr ! ?i]" by (simp add: rehash_node_def Let_def)
  moreover have "cap_ok msk (arr[?i := n # arr ! ?i])" using Cons.prems(1) by (simp add: cap_ok_def)
  moreover have "in_buckets msk (arr[?i := n # arr ! ?i])"
    using Cons.prems(2) by (rule in_buckets_update) (use in_bucketsD [OF Cons.prems(2) i] in auto)
  moreover have "mset (concat (arr[?i := n # arr ! ?i])) = add_mset n (mset (concat arr))"
    using mset_concat_update [OF i, of "n # arr ! ?i"] by simp
  ultimately show ?case using Cons.IH [of "arr[?i := n # arr ! ?i]"] by simp
qed simp

lemma set_capacity_nodes:
  assumes "cap_ok (um_mask umap) (um_arr umap)" "in_buckets (um_mask umap) (um_arr umap)" "3 \<le> k" "k \<le> 61"
    and "umap' = set_capacity umap (2 ^ k)"
  shows "cap_ok (um_mask umap') (um_arr umap')" "in_buckets (um_mask umap') (um_arr umap')"
    "mset (concat (um_arr umap')) = mset (concat (um_arr umap))" "um_size umap' = um_size umap"
    "um_mask umap' = 2 ^ k - 1"
proof -
  let ?arr = "fold (rehash_node (2 ^ k - 1)) (concat (um_arr umap)) (replicate (unat ((2::u64) ^ k)) [])"
  have "(2::nat) ^ k < 2 ^ 64" using assms(4) by (intro power_strict_increasing) simp_all
  then have "unat ((2::u64) ^ k) = 2 ^ k" using unat_of_nat_u64 [of "2 ^ k"] by simp
  then have "cap_ok (2 ^ k - 1) (replicate (unat ((2::u64) ^ k)) [])"
    using assms(3,4) by (auto simp: cap_ok_def)
  note r = rehash_fold [OF this in_buckets_empty, of "concat (um_arr umap)"]
  have c: "cap_ok (2 ^ k - 1) ?arr"
    using r assms(3,4) \<open>unat ((2::u64) ^ k) = 2 ^ k\<close> by (auto simp: cap_ok_def)
  have e: "um_mask umap = 2 ^ k - 1" if "um_mask umap + 1 = 2 ^ k" using that by (metis add_diff_cancel_right')
  show "cap_ok (um_mask umap') (um_arr umap')" "in_buckets (um_mask umap') (um_arr umap')"
    "mset (concat (um_arr umap')) = mset (concat (um_arr umap))" "um_size umap' = um_size umap"
    "um_mask umap' = 2 ^ k - 1"
    using assms c r e by (auto simp: set_capacity_def Let_def)
qed

text \<open>The capacity that is chosen for a number of nodes.\<close>

lemma new_cap:
  assumes "n < 2 ^ 60"
  obtains r where "r \<le> 60" "cu_uint64_exp2_ceil_log2 (of_nat n + 1) = 2 ^ r" "n + 1 \<le> 2 ^ r" "\<forall>s<r. 2 ^ s < n + 1"
proof -
  have u: "unat (of_nat n + 1 :: u64) = n + 1"
    using assms unat_of_nat_u64 [of "n + 1"] by (simp add: add.commute)
  then have "(of_nat n + 1 :: u64) \<noteq> 0" by (metis Suc_eq_plus1 nat.simps(3) unat_0)
  then obtain r where r: "is_ceil_log2 (n + 1) r" "cu_uint64_exp2_ceil_log2 (of_nat n + 1) = 2 ^ r"
    using exp2_ceil_log2_correct u by metis
  have "r \<le> 60"
  proof (rule ccontr)
    assume "\<not> r \<le> 60"
    then have "2 ^ 60 < n + 1" using r(1) unfolding is_ceil_log2_def by (meson not_le)
    then show False using assms by simp
  qed
  then show thesis using that r by (auto simp: is_ceil_log2_def)
qed

end
