(* ===== verification/UmapOps.thy ===== *)
theory UmapOps
  imports UmapContents
begin

text \<open>
  The operations of the hash maps of \<^verbatim>\<open>cucon/umap.c\<close> on the finite map they represent: changes of capacity,
  insertion, erasure, replacement and removal of any node.
\<close>

definition umap_rep :: "'v umap \<Rightarrow> 'v umap_node list \<Rightarrow> bool" where
  "umap_rep umap ns \<longleftrightarrow>
     cap_ok (um_mask umap) (um_arr umap) \<and> in_buckets (um_mask umap) (um_arr umap) \<and>
     mset (concat (um_arr umap)) = mset ns \<and> distinct (map fst ns) \<and> um_size umap = of_nat (length ns) \<and>
     length ns < 2 ^ 60"

lemma umap_repD:
  assumes "umap_rep umap ns"
  shows "umap_wf umap" "umap_lookup umap = map_of ns" "umap_count umap = length ns"
  using assms umap_wfI [of umap ns] by (simp_all add: umap_rep_def)

lemma umap_rep_self: "umap_wf umap \<Longrightarrow> umap_rep umap (umap_nodes umap)"
  by (simp add: umap_rep_def umap_wf_def umap_nodes_def umap_count_def)

section \<open>Changes of capacity\<close>

text \<open>The bounds on the number of nodes that the operations keep.\<close>

definition umap_not_overfull :: "'v umap \<Rightarrow> bool" where
  "umap_not_overfull umap \<longleftrightarrow> 2 * umap_count umap \<le> 3 * unat (um_mask umap)"

definition umap_not_underfull :: "'v umap \<Rightarrow> bool" where
  "umap_not_underfull umap \<longleftrightarrow> unat (um_mask umap) \<le> 2 * umap_count umap \<or> unat (um_mask umap) = 7"

lemma mask_bounds:
  assumes "cap_ok msk arr"
  shows "7 \<le> unat msk" "unat msk < 2 ^ 61" "odd (unat msk)"
proof -
  obtain k where k: "3 \<le> k" "k \<le> 61" "unat msk = 2 ^ k - 1" using assms by (rule cap_okD)
  have "(2::nat) ^ 3 \<le> 2 ^ k" "(2::nat) ^ k \<le> 2 ^ 61" using k(1,2) by (simp_all only: power_increasing one_le_numeral)
  then show "7 \<le> unat msk" "unat msk < 2 ^ 61" using k(3) by simp_all
  show "odd (unat msk)" using k(1,3) by simp
qed

lemma fill_overfull:
  assumes "n < 2 ^ 60" "unat (msk :: u64) < 2 ^ 61"
  shows "(of_nat n :: u64) * MAX_FILL_DENOM > msk * MAX_FILL_NUMER \<longleftrightarrow> 2 * n > 3 * unat msk"
proof -
  have "unat ((of_nat n :: u64) * 2) = 2 * n" using assms(1) by (simp add: unat_word_ariths unat_of_nat_u64)
  moreover have "unat (msk * 3) = 3 * unat msk" using assms(2) by (simp add: unat_word_ariths)
  ultimately show ?thesis by (simp add: MAX_FILL_DENOM_def MAX_FILL_NUMER_def word_less_nat_alt)
qed

lemma fill_underfull:
  assumes "n < 2 ^ 60"
  shows "(of_nat n :: u64) * MIN_FILL_DENOM \<le> msk * MIN_FILL_NUMER \<longleftrightarrow> 2 * n \<le> unat msk"
proof -
  have "unat ((of_nat n :: u64) * 2) = 2 * n" using assms(1) by (simp add: unat_word_ariths unat_of_nat_u64)
  then show ?thesis by (simp add: MIN_FILL_DENOM_def MIN_FILL_NUMER_def word_le_nat_alt)
qed

lemma set_capacity_rep:
  assumes "umap_rep umap ns" "3 \<le> k" "k \<le> 61"
  shows "umap_rep (set_capacity umap (2 ^ k)) ns" "unat (um_mask (set_capacity umap (2 ^ k))) = 2 ^ k - 1"
proof -
  have a: "cap_ok (um_mask umap) (um_arr umap)" "in_buckets (um_mask umap) (um_arr umap)"
    using assms(1) by (simp_all add: umap_rep_def)
  note s = set_capacity_nodes [OF a assms(2,3) refl]
  show "umap_rep (set_capacity umap (2 ^ k)) ns" using assms(1) s by (simp add: umap_rep_def)
  show "unat (um_mask (set_capacity umap (2 ^ k))) = 2 ^ k - 1"
    using assms(3) unfolding s(5) by (intro unat_pow2_minus_1) simp
qed

text \<open>The capacity after a change: the least power of two above the number of nodes, but at least eight.\<close>

lemma shrink_rep:
  assumes "umap_rep umap ns"
    and "umap' = (let new_cap = cu_uint64_exp2_ceil_log2 (um_size umap + 1) in
      if new_cap > of_nat MIN_SIZE then set_capacity umap new_cap else set_capacity umap (of_nat MIN_SIZE))"
  shows "umap_rep umap' ns" "length ns \<le> unat (um_mask umap')" "umap_not_underfull umap'"
proof -
  have n: "length ns < 2 ^ 60" "um_size umap = of_nat (length ns)" using assms(1) by (simp_all add: umap_rep_def)
  obtain r where r: "r \<le> 60" "cu_uint64_exp2_ceil_log2 (um_size umap + 1) = 2 ^ r" "length ns + 1 \<le> 2 ^ r"
    "\<forall>s<r. 2 ^ s < length ns + 1"
    unfolding n(2) by (rule new_cap [OF n(1)])
  have u: "unat ((2::u64) ^ r) = 2 ^ r"
  proof -
    have "(2::nat) ^ r < 2 ^ 64" using r(1) by (intro power_strict_increasing) simp_all
    then show ?thesis using unat_of_nat_u64 [of "2 ^ r"] by simp
  qed
  have gt: "(2::u64) ^ r > of_nat MIN_SIZE \<longleftrightarrow> 3 < r"
  proof -
    have "(2::u64) ^ r > of_nat MIN_SIZE \<longleftrightarrow> (2::nat) ^ 3 < 2 ^ r" by (simp add: word_less_nat_alt u MIN_SIZE_def)
    then show ?thesis by (simp only: power_strict_increasing_iff one_less_numeral_iff semiring_norm)
  qed
  define k where "k = (if 3 < r then r else 3)"
  have k: "3 \<le> k" "k \<le> 61" "length ns + 1 \<le> 2 ^ k"
  proof -
    show "3 \<le> k" "k \<le> 61" using r(1) by (simp_all add: k_def)
    have "(2::nat) ^ r \<le> 2 ^ k" by (rule power_increasing) (simp_all add: k_def)
    then show "length ns + 1 \<le> 2 ^ k" using r(3) le_trans by blast
  qed
  have "umap' = set_capacity umap (2 ^ k)"
    using assms(2) gt by (simp add: r(2) Let_def k_def MIN_SIZE_def)
  note s = set_capacity_rep [OF assms(1) k(1,2), folded this]
  show rep: "umap_rep umap' ns" by (rule s(1))
  show "length ns \<le> unat (um_mask umap')" using s(2) k(3) by simp
  show "umap_not_underfull umap'"
  proof (cases "3 < r")
    case True
    then have "2 ^ (r - 1) < length ns + 1" using r(4) by simp
    moreover have "(2::nat) ^ r = 2 * 2 ^ (r - 1)" using True by (cases r) simp_all
    ultimately have "2 ^ r - 1 \<le> 2 * length ns" by linarith
    then show ?thesis unfolding umap_not_underfull_def s(2) umap_repD(3) [OF rep] k_def using True by simp
  next
    case False
    then show ?thesis using s(2) by (simp add: umap_not_underfull_def k_def)
  qed
qed

lemma grow_rep:
  assumes "umap_rep umap ns" "11 \<le> length ns"
    and "umap' = set_capacity umap (cu_uint64_exp2_ceil_log2 (um_size umap + 1))"
  shows "umap_rep umap' ns" "length ns \<le> unat (um_mask umap')" "umap_not_underfull umap'"
proof -
  have "cu_uint64_exp2_ceil_log2 (um_size umap + 1) > of_nat MIN_SIZE"
  proof -
    have n: "length ns < 2 ^ 60" "um_size umap = of_nat (length ns)" using assms(1) by (simp_all add: umap_rep_def)
    obtain r where r: "r \<le> 60" "cu_uint64_exp2_ceil_log2 (um_size umap + 1) = 2 ^ r" "length ns + 1 \<le> 2 ^ r"
      unfolding n(2) by (rule new_cap [OF n(1)])
    have "(2::nat) ^ r < 2 ^ 64" using r(1) by (intro power_strict_increasing) simp_all
    then have "unat ((2::u64) ^ r) = 2 ^ r" using unat_of_nat_u64 [of "2 ^ r"] by simp
    then show ?thesis using assms(2) r(2,3) by (simp add: word_less_nat_alt MIN_SIZE_def)
  qed
  then have "umap' = (let new_cap = cu_uint64_exp2_ceil_log2 (um_size umap + 1) in
      if new_cap > of_nat MIN_SIZE then set_capacity umap new_cap else set_capacity umap (of_nat MIN_SIZE))"
    using assms(3) by (simp add: Let_def)
  then show "umap_rep umap' ns" "length ns \<le> unat (um_mask umap')" "umap_not_underfull umap'"
    using shrink_rep [OF assms(1)] by auto
qed

lemma after_insert_rep:
  assumes "umap_rep umap ns"
  shows "umap_rep (update_cap_after_insert umap) ns" "umap_not_overfull (update_cap_after_insert umap)"
    "unat (um_mask umap) \<le> 2 * length ns \<or> unat (um_mask umap) = 7 \<Longrightarrow> umap_not_underfull (update_cap_after_insert umap)"
proof -
  have n: "length ns < 2 ^ 60" "um_size umap = of_nat (length ns)" "cap_ok (um_mask umap) (um_arr umap)"
    using assms by (simp_all add: umap_rep_def)
  note m = mask_bounds [OF n(3)]
  note f = fill_overfull [OF n(1) m(2)]
  have "umap_rep (update_cap_after_insert umap) ns \<and> umap_not_overfull (update_cap_after_insert umap) \<and>
    (unat (um_mask umap) \<le> 2 * length ns \<or> unat (um_mask umap) = 7 \<longrightarrow> umap_not_underfull (update_cap_after_insert umap))"
  proof (cases "2 * length ns > 3 * unat (um_mask umap)")
    case True
    then have "update_cap_after_insert umap = set_capacity umap (cu_uint64_exp2_ceil_log2 (um_size umap + 1))"
      using f n(2) by (simp add: update_cap_after_insert_def)
    note g = grow_rep [OF assms _ this]
    have "11 \<le> length ns" using True m(1) by simp
    then show ?thesis using g umap_repD(3) [OF g(1)] by (simp add: umap_not_overfull_def)
  next
    case False
    then have "update_cap_after_insert umap = umap"
      using f n(2) by (simp add: update_cap_after_insert_def)
    then show ?thesis
      using assms False umap_repD(3) [OF assms] by (simp add: umap_not_overfull_def umap_not_underfull_def)
  qed
  then show "umap_rep (update_cap_after_insert umap) ns" "umap_not_overfull (update_cap_after_insert umap)"
    "unat (um_mask umap) \<le> 2 * length ns \<or> unat (um_mask umap) = 7 \<Longrightarrow> umap_not_underfull (update_cap_after_insert umap)"
    by simp_all
qed

lemma after_erase_rep:
  assumes "umap_rep umap ns"
  shows "umap_rep (update_cap_after_erase umap) ns" "umap_not_underfull (update_cap_after_erase umap)"
    "2 * length ns \<le> 3 * unat (um_mask umap) \<Longrightarrow> umap_not_overfull (update_cap_after_erase umap)"
proof -
  have n: "length ns < 2 ^ 60" "um_size umap = of_nat (length ns)" "cap_ok (um_mask umap) (um_arr umap)"
    using assms by (simp_all add: umap_rep_def)
  note f = fill_underfull [OF n(1), of "um_mask umap"]
  have "umap_rep (update_cap_after_erase umap) ns \<and> umap_not_underfull (update_cap_after_erase umap) \<and>
    (2 * length ns \<le> 3 * unat (um_mask umap) \<longrightarrow> umap_not_overfull (update_cap_after_erase umap))"
  proof (cases "2 * length ns \<le> unat (um_mask umap)")
    case True
    then have "update_cap_after_erase umap = (let new_cap = cu_uint64_exp2_ceil_log2 (um_size umap + 1) in
      if new_cap > of_nat MIN_SIZE then set_capacity umap new_cap else set_capacity umap (of_nat MIN_SIZE))"
      using f n(2) by (simp add: update_cap_after_erase_def)
    note g = shrink_rep [OF assms this]
    then show ?thesis using umap_repD(3) [OF g(1)] by (simp add: umap_not_overfull_def)
  next
    case False
    then have "update_cap_after_erase umap = umap"
      using f n(2) by (simp add: update_cap_after_erase_def)
    then show ?thesis
      using assms False umap_repD(3) [OF assms] by (simp add: umap_not_overfull_def umap_not_underfull_def)
  qed
  then show "umap_rep (update_cap_after_erase umap) ns" "umap_not_underfull (update_cap_after_erase umap)"
    "2 * length ns \<le> 3 * unat (um_mask umap) \<Longrightarrow> umap_not_overfull (update_cap_after_erase umap)"
    by simp_all
qed

section \<open>Insertion\<close>

definition umap_balanced :: "'v umap \<Rightarrow> bool" where
  "umap_balanced umap \<longleftrightarrow> umap_not_overfull umap \<and> umap_not_underfull umap"

lemma mset_keys_distinct: "mset xs = mset ys \<Longrightarrow> distinct (map fst xs) \<Longrightarrow> distinct (map fst ys)"
  by (metis mset_eq_imp_distinct_iff mset_map)

lemma map_of_add_mset:
  assumes "mset xs = add_mset (k, v) (mset ys)" "distinct (map fst xs)"
  shows "map_of xs = (map_of ys)(k \<mapsto> v)" "map_of ys = (map_of xs)(k := None)" "distinct (map fst ys)"
    "length xs = Suc (length ys)"
proof -
  have m: "mset xs = mset ((k, v) # ys)" using assms(1) by simp
  then have d: "distinct (map fst ((k, v) # ys))" using assms(2) by (rule mset_keys_distinct)
  show x: "map_of xs = (map_of ys)(k \<mapsto> v)" using map_of_mset_eq [OF m assms(2)] by simp
  show "map_of ys = (map_of xs)(k := None)" using d by (simp add: x fun_upd_idem map_of_eq_None_iff)
  show "distinct (map fst ys)" using d by simp
  show "length xs = Suc (length ys)" using m by (metis length_Cons size_mset)
qed

text \<open>What an insertion of a key that may be present leaves behind.\<close>

definition umap_inserted :: "'v umap \<Rightarrow> u64 \<Rightarrow> 'v \<Rightarrow> 'v umap \<Rightarrow> bool" where
  "umap_inserted umap key v umap' \<longleftrightarrow>
     umap_wf umap' \<and> (umap_balanced umap \<longrightarrow> umap_balanced umap') \<and>
     (if umap_lookup umap key = None
      then umap_lookup umap' = (umap_lookup umap)(key \<mapsto> v) \<and> umap_count umap' = Suc (umap_count umap)
      else umap' = umap)"

lemma link_rep:
  assumes "umap_wf umap" "umap_lookup umap key = None" "Suc (umap_count umap) < 2 ^ 60"
    and "mset c = add_mset (key, v) (mset (um_arr umap ! umap_index (um_mask umap) key))"
  shows "umap_rep (umap\<lparr>um_size := um_size umap + 1, um_arr := (um_arr umap)[umap_index (um_mask umap) key := c]\<rparr>)
    ((key, v) # umap_nodes umap)"
proof -
  let ?i = "umap_index (um_mask umap) key"
  note w = umap_wfD [OF assms(1)]
  have i: "?i < length (um_arr umap)" using w(1) by (rule umap_index_less)
  have "mset (concat ((um_arr umap)[?i := c])) = mset ((key, v) # umap_nodes umap)"
    using mset_concat_update [OF i, of c] assms(4) by (simp add: umap_nodes_def)
  moreover have "in_buckets (um_mask umap) ((um_arr umap)[?i := c])"
  proof (rule in_buckets_update [OF w(2)])
    fix node
    assume "node \<in> set c"
    then have "node \<in># add_mset (key, v) (mset (um_arr umap ! ?i))" using assms(4) by (metis set_mset_mset)
    then show "umap_index (um_mask umap) (fst node) = ?i" using in_bucketsD [OF w(2) i, of node] by auto
  qed
  moreover have "key \<notin> fst ` set (umap_nodes umap)"
    using assms(2) by (simp add: umap_lookup_def map_of_eq_None_iff)
  ultimately show ?thesis
    using w assms(3) by (simp add: umap_rep_def cap_ok_def umap_count_def add.commute)
qed

lemma link_inserted:
  assumes "umap_wf umap" "umap_lookup umap key = None" "Suc (umap_count umap) < 2 ^ 60"
    and "mset c = add_mset (key, v) (mset (um_arr umap ! umap_index (um_mask umap) key))"
  shows "umap_inserted umap key v (update_cap_after_insert
    (umap\<lparr>um_size := um_size umap + 1, um_arr := (um_arr umap)[umap_index (um_mask umap) key := c]\<rparr>))"
proof -
  note a = after_insert_rep [OF link_rep [OF assms]]
  note r = umap_repD [OF a(1)]
  have "umap_count umap \<le> length (umap_nodes umap)" by (simp add: umap_count_def)
  then show ?thesis
    using assms(2) a(2,3) r
    by (auto simp: umap_inserted_def umap_balanced_def umap_not_underfull_def umap_lookup_def umap_count_def)
qed

lemma present_inserted: "umap_wf umap \<Longrightarrow> umap_lookup umap key = Some w \<Longrightarrow> umap_inserted umap key v umap"
  by (simp add: umap_inserted_def)

lemma insert_mem_inserted:
  assumes "umap_wf umap" "Suc (umap_count umap) < 2 ^ 60"
    and "cucon_umap_insert_mem umap key fresh = (inserted, slot, umap')"
  shows "umap_inserted umap key fresh umap'" "inserted \<longleftrightarrow> umap_lookup umap key = None"
    "slot = (case umap_lookup umap key of Some slot \<Rightarrow> slot | None \<Rightarrow> fresh)"
  using assms link_inserted [OF assms(1) _ assms(2), of key] present_inserted [OF assms(1), of key]
  by (auto simp: cucon_umap_insert_mem_def Let_def umap_find split: option.splits)

lemma insert_general_inserted:
  assumes "umap_wf umap" "Suc (umap_count umap) < 2 ^ 60"
    and "cucon_umap_insert_general umap key fresh = (inserted, node, umap')"
  shows "umap_inserted umap key fresh umap'" "inserted \<longleftrightarrow> umap_lookup umap key = None"
    "node = (key, case umap_lookup umap key of Some slot \<Rightarrow> slot | None \<Rightarrow> fresh)"
  using assms link_inserted [OF assms(1) _ assms(2), of key] present_inserted [OF assms(1), of key]
  by (auto simp: cucon_umap_insert_general_def Let_def umap_find split: option.splits)

lemma insert_new_node_inserted:
  assumes "umap_wf umap" "Suc (umap_count umap) < 2 ^ 60"
    and "cucon_umap_insert_new_node umap key fresh = (inserted, node, umap')"
  shows "umap_inserted umap key fresh umap'" "inserted \<longleftrightarrow> umap_lookup umap key = None"
    "node = (key, case umap_lookup umap key of Some slot \<Rightarrow> slot | None \<Rightarrow> fresh)"
  using assms link_inserted [OF assms(1) _ assms(2), of key] present_inserted [OF assms(1), of key]
  by (auto simp: cucon_umap_insert_new_node_def Let_def umap_find split: option.splits)

lemma insert_init_node_inserted:
  assumes "umap_wf umap" "Suc (umap_count umap) < 2 ^ 60"
    and "cucon_umap_insert_init_node umap (key, v) = (inserted, umap')"
  shows "umap_inserted umap key v umap'" "inserted \<longleftrightarrow> umap_lookup umap key = None"
  using assms link_inserted [OF assms(1) _ assms(2), of key] present_inserted [OF assms(1), of key]
  by (auto simp: cucon_umap_insert_init_node_def Let_def umap_find split: option.splits)

section \<open>Erasure\<close>

definition umap_erased :: "'v umap \<Rightarrow> u64 \<Rightarrow> 'v umap \<Rightarrow> bool" where
  "umap_erased umap key umap' \<longleftrightarrow>
     umap_wf umap' \<and> (umap_not_overfull umap \<longrightarrow> umap_not_overfull umap') \<and>
     (umap_balanced umap \<longrightarrow> umap_balanced umap') \<and> umap_lookup umap' = (umap_lookup umap)(key := None) \<and>
     umap_count umap' = (if umap_lookup umap key = None then umap_count umap else umap_count umap - 1)"

text \<open>Removing one node from its chain.\<close>

lemma remove_node_rep:
  assumes "umap_wf umap" "i < length (um_arr umap)" "mset (um_arr umap ! i) = add_mset (key, v) (mset c)"
    and "umap' = umap\<lparr>um_size := um_size umap - 1, um_arr := (um_arr umap)[i := c]\<rparr>"
  shows "umap_rep umap' (umap_nodes umap')" "umap_lookup umap' = (umap_lookup umap)(key := None)"
    "umap_lookup umap key = Some v" "umap_count umap = Suc (umap_count umap')"
proof -
  note w = umap_wfD [OF assms(1)]
  have "mset (umap_nodes umap) = add_mset (key, v) (mset (umap_nodes umap'))"
    using mset_concat_update [OF assms(2), of c] assms(3,4) by (simp add: umap_nodes_def)
  note m = map_of_add_mset [OF this w(3)]
  have "in_buckets (um_mask umap) ((um_arr umap)[i := c])"
  proof (rule in_buckets_update [OF w(2)])
    fix node
    assume "node \<in> set c"
    then have "node \<in># mset (um_arr umap ! i)" using assms(3) by simp
    then show "umap_index (um_mask umap) (fst node) = i" using in_bucketsD [OF w(2) assms(2)] by simp
  qed
  then show "umap_rep umap' (umap_nodes umap')"
    using w m(3,4) assms(4) by (simp add: umap_rep_def cap_ok_def umap_count_def umap_nodes_def)
  show "umap_lookup umap' = (umap_lookup umap)(key := None)" "umap_count umap = Suc (umap_count umap')"
    using m(2,4) by (simp_all add: umap_lookup_def umap_count_def)
  show "umap_lookup umap key = Some v" unfolding umap_lookup_def m(1) by simp
qed

lemma remove_node_erased:
  assumes "umap_wf umap" "i < length (um_arr umap)" "mset (um_arr umap ! i) = add_mset (key, v) (mset c)"
    and "umap' = umap\<lparr>um_size := um_size umap - 1, um_arr := (um_arr umap)[i := c]\<rparr>"
  shows "umap_erased umap key (update_cap_after_erase umap')"
proof -
  note r = remove_node_rep [OF assms]
  note e = after_erase_rep [OF r(1)] and q = umap_repD [OF after_erase_rep(1) [OF r(1)]]
  have "umap_lookup (update_cap_after_erase umap') = umap_lookup umap'"
    "umap_count (update_cap_after_erase umap') = umap_count umap'"
    using q umap_repD [OF r(1)] by simp_all
  moreover have "umap_not_overfull umap \<longrightarrow> umap_not_overfull (update_cap_after_erase umap')"
    using e(3) r(4) assms(4) by (simp add: umap_not_overfull_def umap_count_def)
  ultimately show ?thesis
    using e(2) q(1) r by (simp add: umap_erased_def umap_balanced_def)
qed

lemma unlink_node:
  assumes "umap_wf umap" "umap_lookup umap key = Some v"
  shows "mset (um_arr umap ! umap_index (um_mask umap) key) =
    add_mset (key, v) (mset (chain_erase key (um_arr umap ! umap_index (um_mask umap) key)))"
  using chain_erase_mset [of "um_arr umap ! umap_index (um_mask umap) key" key v] assms umap_find [OF assms(1), of key]
  by (simp add: chain_find_map_of)

lemma unlink_erased:
  assumes "umap_wf umap" "umap_lookup umap key = Some v"
  shows "umap_erased umap key (update_cap_after_erase (umap_unlink umap key))"
  by (rule remove_node_erased [OF assms(1) umap_index_less [OF umap_wfD(1) [OF assms(1)]] unlink_node [OF assms]])
    (simp add: umap_unlink_def Let_def)

lemma erased_absent: "umap_wf umap \<Longrightarrow> umap_lookup umap key = None \<Longrightarrow> umap_erased umap key umap"
  by (simp add: umap_erased_def fun_upd_idem)

lemma erase_erased:
  assumes "umap_wf umap" "cucon_umap_erase umap key = (erased, umap')"
  shows "umap_erased umap key umap'" "erased \<longleftrightarrow> umap_lookup umap key \<noteq> None"
  using assms unlink_erased [OF assms(1)] erased_absent [OF assms(1)]
  by (auto simp: cucon_umap_erase_def umap_find split: option.splits)

lemma erase_ptr_erased:
  assumes "umap_wf umap" "cucon_umap_erase_ptr umap key = (ptr, umap')"
  shows "umap_erased umap key umap'" "ptr = (case umap_lookup umap key of Some ptr \<Rightarrow> ptr | None \<Rightarrow> 0)"
  using assms unlink_erased [OF assms(1)] erased_absent [OF assms(1)]
  by (auto simp: cucon_umap_erase_ptr_def umap_find split: option.splits)

lemma erase_int_erased:
  assumes "umap_wf umap" "cucon_umap_erase_int umap key = (val, umap')"
  shows "umap_erased umap key umap'" "val = (case umap_lookup umap key of Some val \<Rightarrow> val | None \<Rightarrow> INT_MIN)"
  using assms unlink_erased [OF assms(1)] erased_absent [OF assms(1)]
  by (auto simp: cucon_umap_erase_int_def umap_find split: option.splits)

lemma erase_keep_cap_wf:
  assumes "umap_wf umap" "cucon_umap_erase_keep_cap umap key = (erased, umap')"
  shows "umap_wf umap'" "erased \<longleftrightarrow> umap_lookup umap key \<noteq> None" "umap_lookup umap' = (umap_lookup umap)(key := None)"
    "umap_count umap = (if erased then Suc (umap_count umap') else umap_count umap')" "um_mask umap' = um_mask umap"
proof -
  have "umap_wf umap' \<and> (erased \<longleftrightarrow> umap_lookup umap key \<noteq> None) \<and> umap_lookup umap' = (umap_lookup umap)(key := None) \<and>
    umap_count umap = (if erased then Suc (umap_count umap') else umap_count umap') \<and> um_mask umap' = um_mask umap"
  proof (cases "umap_lookup umap key")
    case None
    then show ?thesis using assms by (auto simp: cucon_umap_erase_keep_cap_def umap_find)
  next
    case (Some v)
    then have u: "umap' = umap_unlink umap key" "erased" using assms by (auto simp: cucon_umap_erase_keep_cap_def umap_find)
    note r = remove_node_rep [OF assms(1) umap_index_less [OF umap_wfD(1) [OF assms(1)]] unlink_node [OF assms(1) Some]]
    show ?thesis using r [of umap'] umap_repD(1) u Some by (auto simp: umap_unlink_def Let_def)
  qed
  then show "umap_wf umap'" "erased \<longleftrightarrow> umap_lookup umap key \<noteq> None" "umap_lookup umap' = (umap_lookup umap)(key := None)"
    "umap_count umap = (if erased then Suc (umap_count umap') else umap_count umap')" "um_mask umap' = um_mask umap"
    by simp_all
qed

end
