(* ===== verification/UmapMap.thy ===== *)
theory UmapMap
  imports UmapOps
begin

text \<open>
  The hash maps of \<^verbatim>\<open>cucon/umap.c\<close> as finite maps: replacement, removal of any node, iteration, comparison and
  the operations on several maps.
\<close>

section \<open>Replacement\<close>

lemma store_rep:
  assumes "umap_wf umap" "umap_lookup umap key = Some w" "umap' = umap_store umap key v"
  shows "umap_wf umap'" "umap_lookup umap' = (umap_lookup umap)(key \<mapsto> v)" "umap_count umap' = umap_count umap"
    "um_mask umap' = um_mask umap"
proof -
  let ?i = "umap_index (um_mask umap) key"
  let ?c = "chain_store key v (um_arr umap ! ?i)"
  note wf = umap_wfD [OF assms(1)]
  have i: "?i < length (um_arr umap)" using wf(1) by (rule umap_index_less)
  have "map_of (um_arr umap ! ?i) key = Some w"
    using umap_find [OF assms(1), of key] assms(2) by (simp add: chain_find_map_of)
  note c = chain_store_mset [OF this, of v]
  define ns where "ns = concat ((um_arr umap)[?i := chain_erase key (um_arr umap ! ?i)])"
  have e: "mset (umap_nodes umap) = add_mset (key, w) (mset ns)"
    using remove_node_rep(4) mset_concat_update [OF i, of "chain_erase key (um_arr umap ! ?i)"] unlink_node [OF assms(1,2)]
    by (simp add: umap_nodes_def ns_def)
  have "add_mset (key, w) (mset (concat ((um_arr umap)[?i := ?c]))) + mset (um_arr umap ! ?i) =
      add_mset (key, w) (mset (concat (um_arr umap)) + mset ?c)"
    using mset_concat_update [OF i, of ?c] by simp
  also have "\<dots> = add_mset (key, v) (mset (concat (um_arr umap))) + mset (um_arr umap ! ?i)" using c by simp
  finally have "mset (concat ((um_arr umap)[?i := ?c])) = mset ((key, v) # ns)"
    using e by (simp add: umap_nodes_def)
  moreover have "in_buckets (um_mask umap) ((um_arr umap)[?i := ?c])"
  proof (rule in_buckets_update [OF wf(2)])
    fix node
    assume "node \<in> set ?c"
    then have "node \<in># add_mset (key, v) (mset (um_arr umap ! ?i))" using c by (metis set_mset_mset union_iff add_mset_add_single)
    then show "umap_index (um_mask umap) (fst node) = ?i" using in_bucketsD [OF wf(2) i, of node] by auto
  qed
  ultimately have r: "umap_rep umap' ((key, v) # ns)"
    using wf map_of_add_mset [OF e wf(3)] assms(3)
    by (auto simp: umap_rep_def umap_store_def Let_def cap_ok_def umap_count_def map_of_eq_None_iff [symmetric])
  show "umap_wf umap'" "um_mask umap' = um_mask umap"
    using umap_repD(1) [OF r] assms(3) by (simp_all add: umap_store_def Let_def)
  show "umap_lookup umap' = (umap_lookup umap)(key \<mapsto> v)"
    using umap_repD(2) [OF r] map_of_add_mset(2) [OF e wf(3)] by (simp add: umap_lookup_def)
  show "umap_count umap' = umap_count umap"
    using umap_repD(3) [OF r] map_of_add_mset(4) [OF e wf(3)] by (simp add: umap_count_def)
qed

text \<open>A map after the entry of one key has been set, or removed with \<open>None\<close>.\<close>

definition umap_updated :: "'v umap \<Rightarrow> u64 \<Rightarrow> 'v option \<Rightarrow> 'v umap \<Rightarrow> bool" where
  "umap_updated umap key v umap' \<longleftrightarrow>
     umap_wf umap' \<and> umap_lookup umap' = (umap_lookup umap)(key := v) \<and> (umap_balanced umap \<longrightarrow> umap_balanced umap')"

lemma erased_updated: "umap_erased umap key umap' \<Longrightarrow> umap_updated umap key None umap'"
  by (simp add: umap_erased_def umap_updated_def)

lemma store_updated:
  "umap_wf umap \<Longrightarrow> umap_lookup umap key = Some w \<Longrightarrow> umap_updated umap key (Some v) (umap_store umap key v)"
  using store_rep [of umap key w "umap_store umap key v" v]
  by (simp add: umap_updated_def umap_balanced_def umap_not_overfull_def umap_not_underfull_def)

lemma inserted_updated:
  "umap_inserted umap key v umap' \<Longrightarrow> umap_lookup umap key = None \<Longrightarrow> umap_updated umap key (Some v) umap'"
  by (simp add: umap_inserted_def umap_updated_def)

lemma insert_then_store:
  assumes "umap_wf umap" "Suc (umap_count umap) < 2 ^ 60"
    and "cucon_umap_insert_mem umap key v = (inserted, slot, umap')"
  shows "umap_updated umap key (Some v) (if inserted then umap' else umap_store umap' key v)"
proof (cases "umap_lookup umap key")
  case None
  then show ?thesis using insert_mem_inserted [OF assms] inserted_updated by simp
next
  case (Some w)
  then have "\<not> inserted" "umap' = umap" using insert_mem_inserted [OF assms] by (simp_all add: umap_inserted_def)
  then show ?thesis using store_updated [OF assms(1) Some, of v] by simp
qed

lemma replace_ptr_updated:
  assumes "umap_wf umap" "Suc (umap_count umap) < 2 ^ 60"
    and "cucon_umap_replace_ptr umap key ptr = (old, umap')"
  shows "umap_updated umap key (if ptr = 0 then None else Some ptr) umap' \<and>
    old = (case umap_lookup umap key of Some old \<Rightarrow> old | None \<Rightarrow> 0)"
proof (cases "ptr = 0")
  case True
  then have e: "cucon_umap_erase_ptr umap key = (old, umap')" using assms(3) by (simp add: cucon_umap_replace_ptr_def)
  show ?thesis using True erase_ptr_erased [OF assms(1) e] erased_updated [of umap key umap'] by simp
next
  case False
  obtain inserted slot umap'' where i: "cucon_umap_insert_mem umap key ptr = (inserted, slot, umap'')"
    by (metis surj_pair)
  show ?thesis
    using False assms(3) insert_then_store [OF assms(1,2) i] insert_mem_inserted [OF assms(1,2) i]
    by (auto simp: cucon_umap_replace_ptr_def i split: bool.splits option.splits)
qed

lemma replace_int_updated:
  assumes "umap_wf umap" "Suc (umap_count umap) < 2 ^ 60"
    and "cucon_umap_replace_int umap key val = (old, umap')"
  shows "umap_updated umap key (if val = INT_MIN then None else Some val) umap' \<and>
    old = (case umap_lookup umap key of Some old \<Rightarrow> old | None \<Rightarrow> INT_MIN)"
proof (cases "val = INT_MIN")
  case True
  then have e: "cucon_umap_erase_int umap key = (old, umap')" using assms(3) by (simp add: cucon_umap_replace_int_def)
  show ?thesis using True erase_int_erased [OF assms(1) e] erased_updated [of umap key umap'] by simp
next
  case False
  obtain inserted slot umap'' where i: "cucon_umap_insert_mem umap key val = (inserted, slot, umap'')"
    by (metis surj_pair)
  show ?thesis
    using False assms(3) insert_then_store [OF assms(1,2) i] insert_mem_inserted [OF assms(1,2) i]
    by (auto simp: cucon_umap_replace_int_def i split: bool.splits option.splits)
qed

section \<open>Removal of any node\<close>

lemma pop_search_forward:
  assumes "head \<le> j" "j < length (um_arr umap)" "um_arr umap ! j \<noteq> []" "length (um_arr umap) = Suc (unat (um_mask umap))"
  shows "\<exists>i. umap_pop_search umap head = Some i \<and> i < length (um_arr umap) \<and> um_arr umap ! i \<noteq> []"
  using assms(1)
proof (induction "j - head" arbitrary: head)
  case 0
  then show ?case using assms(2,3) by (auto simp: umap_pop_search.simps [of umap head])
next
  case (Suc d)
  show ?case
  proof (cases "um_arr umap ! head = []")
    case True
    have "d = j - Suc head" "Suc head \<le> j" using Suc.hyps(2) by simp_all
    then obtain i where i: "umap_pop_search umap (Suc head) = Some i" "i < length (um_arr umap)" "um_arr umap ! i \<noteq> []"
      using Suc.hyps(1) by blast
    have "umap_pop_search umap head = umap_pop_search umap (Suc head)"
      using True assms(2,4) \<open>Suc head \<le> j\<close> by (subst umap_pop_search.simps) simp
    then show ?thesis using i by simp
  next
    case False
    then show ?thesis using Suc.prems assms(2) by (auto simp: umap_pop_search.simps [of umap head])
  qed
qed

lemma pop_search_wraps:
  assumes "head < length (um_arr umap)" "length (um_arr umap) = Suc (unat (um_mask umap))"
    and "\<forall>j. head \<le> j \<and> j < length (um_arr umap) \<longrightarrow> um_arr umap ! j = []"
  shows "umap_pop_search umap head = umap_pop_search umap 0"
  using assms(1,3)
proof (induction "unat (um_mask umap) - head" arbitrary: head)
  case 0
  then have "Suc head > unat (um_mask umap)" by simp
  then show ?case using 0 by (subst umap_pop_search.simps) simp
next
  case (Suc d)
  have s: "d = unat (um_mask umap) - Suc head" "Suc head < length (um_arr umap)"
    using Suc.hyps(2) assms(2) by simp_all
  have "umap_pop_search umap head = umap_pop_search umap (Suc head)"
    using Suc.prems s assms(2) by (subst umap_pop_search.simps) simp
  then show ?case using Suc.hyps(1) [OF s] Suc.prems(2) by simp
qed

lemma pop_search_finds:
  assumes "head < length (um_arr umap)" "length (um_arr umap) = Suc (unat (um_mask umap))" "concat (um_arr umap) \<noteq> []"
  shows "\<exists>i. umap_pop_search umap head = Some i \<and> i < length (um_arr umap) \<and> um_arr umap ! i \<noteq> []"
proof -
  obtain j where j: "j < length (um_arr umap)" "um_arr umap ! j \<noteq> []"
    using assms(3) by (metis concat_eq_Nil_conv in_set_conv_nth)
  show ?thesis
  proof (cases "\<exists>j. head \<le> j \<and> j < length (um_arr umap) \<and> um_arr umap ! j \<noteq> []")
    case True
    then show ?thesis using pop_search_forward assms(2) by blast
  next
    case False
    then have "umap_pop_search umap head = umap_pop_search umap 0"
      using pop_search_wraps [OF assms(1,2)] by blast
    then show ?thesis using pop_search_forward [of 0 j umap] j assms(2) by simp
  qed
qed

lemma pop_any_node_result:
  assumes "umap_wf umap" "umap_count umap \<noteq> 0"
  shows "\<exists>key v umap'. cucon_umap_pop_any_node random umap = Some ((key, v), umap') \<and>
    umap_lookup umap key = Some v \<and> umap_erased umap key umap'"
proof -
  note wf = umap_wfD [OF assms(1)]
  have len: "length (um_arr umap) = Suc (unat (um_mask umap))" using wf(1) by (rule cap_okD)
  have "random AND um_mask umap \<le> um_mask umap" by (rule word_and_le1)
  then have h: "unat (random AND um_mask umap) < length (um_arr umap)" using len by (simp add: word_le_nat_alt)
  have ne: "concat (um_arr umap) \<noteq> []" using assms(2) by (metis list.size(3) umap_count_def umap_nodes_def)
  obtain i where i: "umap_pop_search umap (unat (random AND um_mask umap)) = Some i" "i < length (um_arr umap)"
    "um_arr umap ! i \<noteq> []"
    using pop_search_finds [OF h len ne] by blast
  obtain key v c where c: "um_arr umap ! i = (key, v) # c" using i(3) by (metis list.exhaust surj_pair)
  let ?umap' = "umap\<lparr>um_size := um_size umap - 1, um_arr := (um_arr umap)[i := c]\<rparr>"
  have m: "mset (um_arr umap ! i) = add_mset (key, v) (mset c)" by (simp add: c)
  have "\<not> cucon_umap_is_empty umap"
    using assms(2) wf(6) by (metis cucon_umap_is_empty_def unat_0)
  then have "cucon_umap_pop_any_node random umap = Some ((key, v), update_cap_after_erase ?umap')"
    by (simp add: cucon_umap_pop_any_node_def i(1) c)
  then show ?thesis
    using remove_node_erased [OF assms(1) i(2) m refl] remove_node_rep(3) [OF assms(1) i(2) m refl] by blast
qed

section \<open>Iteration\<close>

lemma chain_iter_fold: "chain_iter cb chain s = fold (\<lambda>node. cb (fst node) (snd node)) chain s"
  by (induction chain arbitrary: s) simp_all

lemma fold_chain_iter: "fold (chain_iter cb) arr s = fold (\<lambda>node. cb (fst node) (snd node)) (concat arr) s"
  by (induction arr arbitrary: s) (simp_all add: chain_iter_fold)

lemma chain_conj_list: "chain_conj cb chain s = conj_list cb chain s"
  by (induction chain arbitrary: s) (auto split: prod.split bool.split)

lemma conj_chain_conj: "conj_list (chain_conj cb) arr s = conj_list cb (concat arr) s"
  by (induction arr arbitrary: s) (auto simp: chain_conj_list conj_list_append split: prod.split bool.split)

lemma conj_list_pure: "conj_list (\<lambda>x s. (p x, s)) xs s = (\<forall>x \<in> set xs. p x, s)"
  by (induction xs) (auto split: bool.split)

text \<open>The nodes an iterator has ahead of it.\<close>

definition umap_ahead :: "'v umap \<Rightarrow> 'v umap_it \<Rightarrow> 'v umap_node list" where
  "umap_ahead umap it = (case snd it of None \<Rightarrow> [] | Some chain \<Rightarrow> chain @ concat (drop (Suc (fst it)) (um_arr umap)))"

definition umap_it_ok :: "'v umap \<Rightarrow> 'v umap_it \<Rightarrow> bool" where
  "umap_it_ok umap it \<longleftrightarrow>
     (case snd it of None \<Rightarrow> fst it = length (um_arr umap) | Some chain \<Rightarrow> chain \<noteq> [] \<and> fst it < length (um_arr umap))"

lemma scan_ahead:
  "i \<le> length (um_arr umap) \<Longrightarrow> umap_ahead umap (umap_it_at umap (umap_scan umap i)) = concat (drop i (um_arr umap)) \<and>
    umap_it_ok umap (umap_it_at umap (umap_scan umap i))"
proof (induction umap i rule: umap_scan.induct)
  case (1 umap i)
  show ?case
  proof (cases "i < length (um_arr umap) \<and> um_arr umap ! i = []")
    case True
    then have "umap_scan umap i = umap_scan umap (Suc i)" by (simp add: umap_scan.simps [of umap i])
    moreover have "concat (drop i (um_arr umap)) = concat (drop (Suc i) (um_arr umap))"
      using True by (simp flip: Cons_nth_drop_Suc)
    ultimately show ?thesis using 1 True by simp
  next
    case False
    then have "umap_scan umap i = i" by (subst umap_scan.simps) auto
    then show ?thesis
      using 1 False by (auto simp: umap_ahead_def umap_it_ok_def umap_it_at_def simp flip: Cons_nth_drop_Suc)
  qed
qed

lemma begin_ahead:
  assumes "umap_wf umap"
  shows "umap_ahead umap (cucon_umap_begin umap) = umap_nodes umap \<and> umap_it_ok umap (cucon_umap_begin umap)"
proof -
  note wf = umap_wfD [OF assms]
  have len: "length (um_arr umap) = Suc (unat (um_mask umap))" using wf(1) by (rule cap_okD)
  show ?thesis
  proof (cases "um_size umap = 0")
    case True
    then have "umap_nodes umap = []" using wf(6) by (simp add: umap_count_def)
    then show ?thesis using True len by (simp add: cucon_umap_begin_def umap_ahead_def umap_it_ok_def)
  next
    case False
    then show ?thesis using scan_ahead [of 0 umap] by (simp add: cucon_umap_begin_def umap_nodes_def)
  qed
qed

lemma it_next_ahead:
  assumes "umap_it_ok umap it" "umap_ahead umap it = node # ns"
  shows "cucon_umap_it_key it = Some (fst node)" "cucon_umap_it_value_mem it = Some (snd node)"
    "\<exists>it'. cucon_umap_it_next umap it = Some it' \<and> umap_ahead umap it' = ns \<and> umap_it_ok umap it'"
proof -
  obtain chain where c: "snd it = Some (node # chain)" "ns = chain @ concat (drop (Suc (fst it)) (um_arr umap))"
      "fst it < length (um_arr umap)"
    using assms by (auto simp: umap_ahead_def umap_it_ok_def neq_Nil_conv split: option.splits)
  then show "cucon_umap_it_key it = Some (fst node)" "cucon_umap_it_value_mem it = Some (snd node)"
    by (simp_all add: cucon_umap_it_key_def cucon_umap_it_value_mem_def)
  show "\<exists>it'. cucon_umap_it_next umap it = Some it' \<and> umap_ahead umap it' = ns \<and> umap_it_ok umap it'"
  proof (cases "chain = []")
    case True
    then have "cucon_umap_it_next umap it = Some (umap_it_at umap (umap_scan umap (Suc (fst it))))"
      using c(1) by (simp add: cucon_umap_it_next_def)
    then show ?thesis using True c scan_ahead [of "Suc (fst it)" umap] by simp
  next
    case False
    then have "cucon_umap_it_next umap it = Some (fst it, Some chain)"
      using c(1) by (simp add: cucon_umap_it_next_def)
    then show ?thesis using False c(2,3) by (simp add: umap_ahead_def umap_it_ok_def)
  qed
qed

text \<open>The loop of a client from the first iterator to the end, with a bound on the number of steps.\<close>

fun umap_it_collect :: "nat \<Rightarrow> 'v umap \<Rightarrow> 'v umap_it \<Rightarrow> 'v umap_node list option" where
  "umap_it_collect 0 umap it = None"
| "umap_it_collect (Suc fuel) umap it =
     (if cucon_umap_end_eq umap it then Some []
      else do {
        key \<leftarrow> cucon_umap_it_key it;
        v \<leftarrow> cucon_umap_it_value_mem it;
        it' \<leftarrow> cucon_umap_it_next umap it;
        nodes \<leftarrow> umap_it_collect fuel umap it';
        Some ((key, v) # nodes) })"

lemma collect_ahead:
  "umap_it_ok umap it \<Longrightarrow> length (umap_ahead umap it) < fuel \<Longrightarrow> umap_it_collect fuel umap it = Some (umap_ahead umap it)"
proof (induction fuel arbitrary: it)
  case (Suc fuel)
  show ?case
  proof (cases "umap_ahead umap it")
    case Nil
    then have "snd it = None" using Suc.prems(1) by (auto simp: umap_ahead_def umap_it_ok_def split: option.splits)
    then show ?thesis using Nil by (simp add: cucon_umap_end_eq_def)
  next
    case (Cons node ns)
    note n = it_next_ahead [OF Suc.prems(1) Cons]
    obtain it' where it': "cucon_umap_it_next umap it = Some it'" "umap_ahead umap it' = ns" "umap_it_ok umap it'"
      using n(3) by blast
    have "\<not> cucon_umap_end_eq umap it"
      using Cons by (auto simp: cucon_umap_end_eq_def umap_ahead_def split: option.splits)
    moreover have "umap_it_collect fuel umap it' = Some ns"
      using Suc.IH [OF it'(3)] Suc.prems(2) Cons it'(2) by simp
    ultimately show ?thesis using n(1,2) it'(1) Cons by simp
  qed
qed simp

section \<open>Comparison\<close>

lemma lookup_dom: "dom (umap_lookup umap) = fst ` set (umap_nodes umap)"
  by (simp add: umap_lookup_def dom_map_of_conv_image_fst)

lemma eq_keys_iff:
  assumes "umap_wf umap0" "umap_wf umap1"
  shows "cucon_umap_eq_keys umap0 umap1 \<longleftrightarrow> dom (umap_lookup umap0) = dom (umap_lookup umap1)"
proof -
  have size: "cucon_umap_size umap0 = cucon_umap_size umap1 \<longleftrightarrow> umap_count umap0 = umap_count umap1"
    using umap_wfD(6) [OF assms(1)] umap_wfD(6) [OF assms(2)] by (metis cucon_umap_size_def word_unat_eq_iff)
  have "fst (conj_list (chain_conj (\<lambda>node s. (cucon_umap_find_mem umap1 (fst node) \<noteq> None, s))) (um_arr umap0) ()) \<longleftrightarrow>
      dom (umap_lookup umap0) \<subseteq> dom (umap_lookup umap1)"
    by (auto simp: conj_chain_conj conj_list_pure find_mem_lookup [OF assms(2)] lookup_dom [of umap0] umap_nodes_def)
  moreover have "dom (umap_lookup umap0) = dom (umap_lookup umap1)"
    if "umap_count umap0 = umap_count umap1" "dom (umap_lookup umap0) \<subseteq> dom (umap_lookup umap1)"
    using that lookup_count [OF assms(1)] lookup_count [OF assms(2)]
    by (intro card_subset_eq) (simp_all add: lookup_dom)
  moreover have "umap_count umap0 = umap_count umap1" if "dom (umap_lookup umap0) = dom (umap_lookup umap1)"
    using that lookup_count [OF assms(1)] lookup_count [OF assms(2)] by simp
  ultimately show ?thesis using size by (auto simp: cucon_umap_eq_keys_def)
qed

end
