(* ===== verification/UmapCombine.thy ===== *)
theory UmapCombine
  imports UmapMap
begin

text \<open>
  The operations of \<^verbatim>\<open>cucon/umap.c\<close> on several hash maps: unions by repeated insertion, and intersections
  that move nodes from one map to another.
\<close>

section \<open>Maps built by insertion\<close>

text \<open>The contract of an insertion that keeps the entry of a key that is present.\<close>

locale map_by_insertion =
  fixes invar :: "'m \<Rightarrow> bool" and lookup :: "'m \<Rightarrow> 'k \<Rightarrow> 'v option" and count :: "'m \<Rightarrow> nat"
    and insert :: "'m \<Rightarrow> 'k \<Rightarrow> 'v \<Rightarrow> 'm" and limit :: nat
  assumes insert_invar: "invar m \<Longrightarrow> Suc (count m) < limit \<Longrightarrow> invar (insert m k v)"
    and insert_lookup: "invar m \<Longrightarrow> Suc (count m) < limit \<Longrightarrow>
      lookup (insert m k v) = (if lookup m k = None then (lookup m)(k \<mapsto> v) else lookup m)"
    and insert_count: "invar m \<Longrightarrow> Suc (count m) < limit \<Longrightarrow> count (insert m k v) \<le> Suc (count m)"
begin

definition insert_nodes :: "('k \<times> 'v) list \<Rightarrow> 'm \<Rightarrow> 'm" where
  "insert_nodes ns m = fold (\<lambda>node m. insert m (fst node) (snd node)) ns m"

lemma insert_nodes_union:
  "invar m \<Longrightarrow> count m + length ns < limit \<Longrightarrow>
    invar (insert_nodes ns m) \<and> lookup (insert_nodes ns m) = map_of ns ++ lookup m \<and>
    count (insert_nodes ns m) \<le> count m + length ns"
proof (induction ns arbitrary: m)
  case (Cons n ns)
  let ?m = "insert m (fst n) (snd n)"
  have s: "Suc (count m) < limit" using Cons.prems(2) by simp
  have "invar ?m" "count ?m \<le> Suc (count m)" using Cons.prems(1) s by (simp_all add: insert_invar insert_count)
  then have "invar (insert_nodes ns ?m) \<and> lookup (insert_nodes ns ?m) = map_of ns ++ lookup ?m \<and>
      count (insert_nodes ns ?m) \<le> count ?m + length ns"
    using Cons.prems(2) by (intro Cons.IH) simp_all
  moreover have "map_of ns ++ lookup ?m = map_of (n # ns) ++ lookup m"
    by (rule ext) (auto simp: insert_lookup [OF Cons.prems(1) s] map_add_def split: option.splits)
  ultimately show ?case
    using \<open>count ?m \<le> Suc (count m)\<close> by (auto simp: insert_nodes_def fun_upd_def)
qed (simp add: insert_nodes_def)

lemma insert_nodes_dom:
  "invar m \<Longrightarrow> count m + length ns < limit \<Longrightarrow> dom (lookup (insert_nodes ns m)) = dom (lookup m) \<union> fst ` set ns"
  using insert_nodes_union [of m ns] by (simp add: dom_map_of_conv_image_fst)

end

interpretation umap_insertion:
  map_by_insertion umap_wf umap_lookup umap_count "\<lambda>umap key v. snd (snd (cucon_umap_insert_mem umap key v))" "2 ^ 60"
proof
  fix umap :: "'a umap" and key v
  assume "umap_wf umap" "Suc (umap_count umap) < 2 ^ 60"
  note i = insert_mem_inserted [OF this, of key v]
  obtain b slot umap' where e: "cucon_umap_insert_mem umap key v = (b, slot, umap')" by (metis surj_pair)
  show "umap_wf (snd (snd (cucon_umap_insert_mem umap key v)))"
    "umap_lookup (snd (snd (cucon_umap_insert_mem umap key v))) =
      (if umap_lookup umap key = None then (umap_lookup umap)(key \<mapsto> v) else umap_lookup umap)"
    "umap_count (snd (snd (cucon_umap_insert_mem umap key v))) \<le> Suc (umap_count umap)"
    using i [OF e] e by (simp_all add: umap_inserted_def split: if_splits)
qed

lemma assign_union_void_nodes:
  "cucon_umap_assign_union_void dst src = umap_insertion.insert_nodes (map (\<lambda>node. (fst node, ())) (umap_nodes src)) dst"
proof -
  have "fold (\<lambda>node dst. snd (cucon_umap_insert_void dst (fst node))) ns dst =
      umap_insertion.insert_nodes (map (\<lambda>node. (fst node, ())) ns) dst" for ns :: "'a umap_node list"
    unfolding umap_insertion.insert_nodes_def
    by (induction ns arbitrary: dst) (simp_all add: cucon_umap_insert_void_def case_prod_beta)
  then show ?thesis by (simp add: cucon_umap_assign_union_void_def fold_chain_iter umap_nodes_def)
qed

section \<open>Moving nodes\<close>

lemma filter_chains_rep:
  assumes "umap_wf umap" "umap' = umap\<lparr>um_size := um_size umap - of_nat (length (filter (\<lambda>n. \<not> p n) (umap_nodes umap))),
      um_arr := map (filter p) (um_arr umap)\<rparr>"
  shows "umap_rep umap' (filter p (umap_nodes umap))"
proof -
  note wf = umap_wfD [OF assms(1)]
  have s: "umap_count umap = length (filter p (umap_nodes umap)) + length (filter (\<lambda>n. \<not> p n) (umap_nodes umap))"
    by (simp add: umap_count_def sum_length_filter_compl)
  have "in_buckets (um_mask umap) (map (filter p) (um_arr umap))"
    by (rule in_buckets_map [OF wf(2)]) auto
  moreover have "mset (concat (map (filter p) (um_arr umap))) = mset (filter p (umap_nodes umap))"
    by (simp add: umap_nodes_def filter_concat)
  moreover have "um_size umap - of_nat (length (filter (\<lambda>n. \<not> p n) (umap_nodes umap))) =
      of_nat (length (filter p (umap_nodes umap)))"
    unfolding wf(4) s by simp
  ultimately show ?thesis
    using wf s assms(2) by (simp add: umap_rep_def cap_ok_def distinct_map_filter)
qed

lemma link_node_rep:
  assumes "umap_rep umap ns" "key \<notin> fst ` set ns" "Suc (length ns) < 2 ^ 60"
  shows "umap_rep (umap\<lparr>um_size := um_size umap + 1,
    um_arr := (um_arr umap)[umap_index (um_mask umap) key := (key, v) # um_arr umap ! umap_index (um_mask umap) key]\<rparr>)
    ((key, v) # ns)"
proof -
  note r = umap_repD [OF assms(1)]
  have "umap_lookup umap key = None" using assms(2) by (simp add: r(2) map_of_eq_None_iff)
  note l = link_rep [OF r(1) this, of "(key, v) # um_arr umap ! umap_index (um_mask umap) key" v]
  have "mset (umap_nodes umap) = mset ns" using assms(1) by (simp add: umap_rep_def umap_nodes_def)
  then show ?thesis using l assms r(3) by (simp add: umap_rep_def umap_count_def)
qed

lemma move_isecn_chain_result:
  assumes "move_isecn_chain ns size0 src1 dst = (kept, size0', src1', dst')"
    and "umap_wf src1" "umap_rep dst ds" "distinct (map fst ns)" "length ds + length ns < 2 ^ 60"
    and "\<forall>node \<in> set ns. umap_lookup src1 (fst node) \<noteq> None \<longrightarrow> fst node \<notin> fst ` set ds"
  shows "kept = filter (\<lambda>node. umap_lookup src1 (fst node) = None) ns \<and>
    size0' = size0 - of_nat (length (filter (\<lambda>node. umap_lookup src1 (fst node) \<noteq> None) ns)) \<and>
    umap_wf src1' \<and> umap_lookup src1' = umap_lookup src1 |` (- fst ` set ns) \<and>
    umap_rep dst' (rev (filter (\<lambda>node. umap_lookup src1 (fst node) \<noteq> None) ns) @ ds)"
  using assms
proof (induction ns arbitrary: size0 src1 dst ds kept)
  case Nil
  then show ?case by simp
next
  case (Cons n ns)
  obtain key v where n: "n = (key, v)" by (cases n)
  obtain e src where e: "cucon_umap_erase_keep_cap src1 key = (e, src)" by (metis surj_pair)
  note k = erase_keep_cap_wf [OF Cons.prems(2) e]
  have same: "umap_lookup src (fst node) = umap_lookup src1 (fst node)" if "node \<in> set ns" for node
    using that Cons.prems(4) by (auto simp: k(3) n)
  have f: "filter (\<lambda>node. umap_lookup src (fst node) \<noteq> None) ns = filter (\<lambda>node. umap_lookup src1 (fst node) \<noteq> None) ns"
    "filter (\<lambda>node. umap_lookup src (fst node) = None) ns = filter (\<lambda>node. umap_lookup src1 (fst node) = None) ns"
    using same by (simp_all cong: filter_cong)
  have r: "(umap_lookup src1)(key := None) |` (- fst ` set ns) = umap_lookup src1 |` (- fst ` set (n # ns))"
    by (rule ext) (auto simp: restrict_map_def n)
  show ?case
  proof (cases e)
    case True
    let ?dst = "dst\<lparr>um_size := um_size dst + 1,
      um_arr := (um_arr dst)[umap_index (um_mask dst) key := n # um_arr dst ! umap_index (um_mask dst) key]\<rparr>"
    have "move_isecn_chain ns (size0 - 1) src ?dst = (kept, size0', src1', dst')"
      using Cons.prems(1) True by (simp add: n e Let_def)
    moreover have "umap_rep ?dst (n # ds)"
      unfolding n by (rule link_node_rep) (use Cons.prems(3,5,6) True k(2) in \<open>auto simp: n\<close>)
    moreover have "\<forall>node \<in> set ns. umap_lookup src (fst node) \<noteq> None \<longrightarrow> fst node \<notin> fst ` set (n # ds)"
      using Cons.prems(4,6) same by (auto simp: n)
    ultimately have "kept = filter (\<lambda>node. umap_lookup src (fst node) = None) ns \<and>
      size0' = size0 - 1 - of_nat (length (filter (\<lambda>node. umap_lookup src (fst node) \<noteq> None) ns)) \<and>
      umap_wf src1' \<and> umap_lookup src1' = umap_lookup src |` (- fst ` set ns) \<and>
      umap_rep dst' (rev (filter (\<lambda>node. umap_lookup src (fst node) \<noteq> None) ns) @ n # ds)"
      using Cons.prems(4,5) k(1) by (intro Cons.IH) simp_all
    then show ?thesis using True k(2,3) r unfolding f by (auto simp: n)
  next
    case False
    obtain kept' where k': "move_isecn_chain ns size0 src dst = (kept', size0', src1', dst')" "kept = n # kept'"
      using Cons.prems(1) False by (auto simp: n e split: prod.splits)
    have "kept' = filter (\<lambda>node. umap_lookup src (fst node) = None) ns \<and>
      size0' = size0 - of_nat (length (filter (\<lambda>node. umap_lookup src (fst node) \<noteq> None) ns)) \<and>
      umap_wf src1' \<and> umap_lookup src1' = umap_lookup src |` (- fst ` set ns) \<and>
      umap_rep dst' (rev (filter (\<lambda>node. umap_lookup src (fst node) \<noteq> None) ns) @ ds)"
      using Cons.prems(3-6) same k(1) by (intro Cons.IH [OF k'(1)]) simp_all
    then show ?thesis using False k(2,3) k'(2) r unfolding f by (auto simp: n)
  qed
qed

lemma move_isecn_arr_result:
  assumes "move_isecn_arr arr size0 src1 dst = (arr0, size0', src1', dst')"
    and "umap_wf src1" "umap_rep dst ds" "distinct (map fst (concat arr))" "length ds + length (concat arr) < 2 ^ 60"
    and "\<forall>node \<in> set (concat arr). umap_lookup src1 (fst node) \<noteq> None \<longrightarrow> fst node \<notin> fst ` set ds"
  shows "arr0 = map (filter (\<lambda>node. umap_lookup src1 (fst node) = None)) arr \<and>
    size0' = size0 - of_nat (length (filter (\<lambda>node. umap_lookup src1 (fst node) \<noteq> None) (concat arr))) \<and>
    umap_wf src1' \<and> umap_lookup src1' = umap_lookup src1 |` (- fst ` set (concat arr)) \<and>
    umap_rep dst' (rev (filter (\<lambda>node. umap_lookup src1 (fst node) \<noteq> None) (concat arr)) @ ds)"
  using assms
proof (induction arr arbitrary: size0 src1 dst ds arr0)
  case Nil
  then show ?case by simp
next
  case (Cons ns arr)
  obtain kept size1 src dst1 arr1 where k: "move_isecn_chain ns size0 src1 dst = (kept, size1, src, dst1)"
    "move_isecn_arr arr size1 src dst1 = (arr1, size0', src1', dst')" "arr0 = kept # arr1"
    using Cons.prems(1) by (auto split: prod.splits)
  let ?moved = "filter (\<lambda>node. umap_lookup src1 (fst node) \<noteq> None) ns"
  have c: "kept = filter (\<lambda>node. umap_lookup src1 (fst node) = None) ns \<and>
    size1 = size0 - of_nat (length ?moved) \<and>
    umap_wf src \<and> umap_lookup src = umap_lookup src1 |` (- fst ` set ns) \<and> umap_rep dst1 (rev ?moved @ ds)"
    using Cons.prems(4-6) by (intro move_isecn_chain_result [OF k(1) Cons.prems(2,3)]) simp_all
  have same: "umap_lookup src (fst node) = umap_lookup src1 (fst node)" if "node \<in> set (concat arr)" for node
  proof -
    have "fst node \<notin> fst ` set ns" using that Cons.prems(4) by force
    then show ?thesis using c by (simp add: restrict_map_def)
  qed
  have f: "filter (\<lambda>node. umap_lookup src (fst node) \<noteq> None) (concat arr) = filter (\<lambda>node. umap_lookup src1 (fst node) \<noteq> None) (concat arr)"
    using same by (intro filter_cong refl) simp
  have g: "map (filter (\<lambda>node. umap_lookup src (fst node) = None)) arr = map (filter (\<lambda>node. umap_lookup src1 (fst node) = None)) arr"
    by (intro map_cong refl filter_cong) (metis UN_I set_concat same)
  have "arr1 = map (filter (\<lambda>node. umap_lookup src (fst node) = None)) arr \<and>
    size0' = size1 - of_nat (length (filter (\<lambda>node. umap_lookup src (fst node) \<noteq> None) (concat arr))) \<and>
    umap_wf src1' \<and> umap_lookup src1' = umap_lookup src |` (- fst ` set (concat arr)) \<and>
    umap_rep dst' (rev (filter (\<lambda>node. umap_lookup src (fst node) \<noteq> None) (concat arr)) @ (rev ?moved @ ds))"
  proof (rule Cons.IH [OF k(2)])
    show "umap_wf src" "umap_rep dst1 (rev ?moved @ ds)" using c by simp_all
    show "distinct (map fst (concat arr))" using Cons.prems(4) by simp
    have "length ?moved \<le> length ns" by (rule length_filter_le)
    moreover have "length ds + (length ns + length (concat arr)) < 2 ^ 60" using Cons.prems(5) by simp
    ultimately show "length (rev ?moved @ ds) + length (concat arr) < 2 ^ 60"
      unfolding length_append length_rev by linarith
    show "\<forall>node \<in> set (concat arr). umap_lookup src (fst node) \<noteq> None \<longrightarrow> fst node \<notin> fst ` set (rev ?moved @ ds)"
    proof (intro ballI impI)
      fix node
      assume n: "node \<in> set (concat arr)" "umap_lookup src (fst node) \<noteq> None"
      have "fst node \<notin> fst ` set ns" using n(1) Cons.prems(4) by force
      then show "fst node \<notin> fst ` set (rev ?moved @ ds)" using n same Cons.prems(6) by auto
    qed
  qed
  moreover have "umap_lookup src |` (- fst ` set (concat arr)) = umap_lookup src1 |` (- fst ` set (concat (ns # arr)))"
    using c by (simp add: image_Un)
  ultimately show ?case unfolding f g using c k(3) by simp
qed

text \<open>The result, with the smaller of the two sources called \<open>small\<close>.\<close>

lemma move_isecn_sources:
  assumes "umap_wf dst" "umap_wf small" "umap_wf large" "umap_count dst + umap_count small < 2 ^ 60"
    and "dom (umap_lookup dst) \<inter> dom (umap_lookup small) \<inter> dom (umap_lookup large) = {}"
    and "move_isecn_arr (um_arr small) (um_size small) large dst = (arr0, size0, large', dst')"
    and "small' = update_cap_after_erase (small\<lparr>um_size := size0, um_arr := arr0\<rparr>)"
  shows "umap_wf small' \<and> umap_lookup small' = umap_lookup small |` (- dom (umap_lookup large))"
    "umap_wf (update_cap_after_erase large') \<and>
     umap_lookup (update_cap_after_erase large') = umap_lookup large |` (- dom (umap_lookup small))"
    "umap_wf (update_cap_after_insert dst') \<and>
     umap_lookup (update_cap_after_insert dst') = umap_lookup dst ++ umap_lookup small |` dom (umap_lookup large)"
proof -
  note wf = umap_wfD [OF assms(2)]
  let ?p = "\<lambda>node. umap_lookup large (fst node) = None"
  have dom: "\<forall>node \<in> set (concat (um_arr small)). umap_lookup large (fst node) \<noteq> None \<longrightarrow> fst node \<notin> fst ` set (umap_nodes dst)"
  proof (intro ballI impI)
    fix node
    assume n: "node \<in> set (concat (um_arr small))" "umap_lookup large (fst node) \<noteq> None"
    then have "fst node \<in> dom (umap_lookup small)" by (simp add: lookup_dom umap_nodes_def)
    then show "fst node \<notin> fst ` set (umap_nodes dst)" using n(2) assms(5) by (auto simp: lookup_dom [of dst, symmetric])
  qed
  have m: "arr0 = map (filter ?p) (um_arr small) \<and>
    size0 = um_size small - of_nat (length (filter (\<lambda>node. umap_lookup large (fst node) \<noteq> None) (concat (um_arr small)))) \<and>
    umap_wf large' \<and> umap_lookup large' = umap_lookup large |` (- fst ` set (concat (um_arr small))) \<and>
    umap_rep dst' (rev (filter (\<lambda>node. umap_lookup large (fst node) \<noteq> None) (concat (um_arr small))) @ umap_nodes dst)"
    by (rule move_isecn_arr_result [OF assms(6) assms(3) umap_rep_self [OF assms(1)] _ _ dom])
      (use wf(3) assms(4) in \<open>simp_all add: umap_nodes_def umap_count_def\<close>)
  have "umap_rep (small\<lparr>um_size := size0, um_arr := arr0\<rparr>) (filter ?p (umap_nodes small))"
    by (rule filter_chains_rep [OF assms(2)]) (use m in \<open>simp add: umap_nodes_def\<close>)
  note s = umap_repD [OF after_erase_rep(1) [OF this]]
  have "map_of (filter ?p (umap_nodes small)) = umap_lookup small |` (- dom (umap_lookup large))"
    by (simp add: map_of_filter [of "\<lambda>key. umap_lookup large key = None"] umap_lookup_def [of small] dom_def Collect_neg_eq [symmetric])
  then show "umap_wf small' \<and> umap_lookup small' = umap_lookup small |` (- dom (umap_lookup large))"
    using s assms(7) by simp
  note l = umap_repD [OF after_erase_rep(1) [OF umap_rep_self]]
  show "umap_wf (update_cap_after_erase large') \<and>
     umap_lookup (update_cap_after_erase large') = umap_lookup large |` (- dom (umap_lookup small))"
    using l(1,2) [of large', folded umap_lookup_def] m by (simp add: lookup_dom umap_nodes_def [of small])
  have "umap_rep dst' (rev (filter (\<lambda>node. umap_lookup large (fst node) \<noteq> None) (concat (um_arr small))) @ umap_nodes dst)"
    using m by blast
  note d = umap_repD [OF after_insert_rep(1) [OF this]]
  have "map_of (rev (filter (\<lambda>node. umap_lookup large (fst node) \<noteq> None) (umap_nodes small))) =
      map_of (filter (\<lambda>node. umap_lookup large (fst node) \<noteq> None) (umap_nodes small))"
    by (rule map_of_mset_eq) (simp_all add: rev_map [symmetric] distinct_map_filter wf(3) rev_filter [symmetric])
  also have "\<dots> = umap_lookup small |` dom (umap_lookup large)"
    by (simp add: map_of_filter [of "\<lambda>key. umap_lookup large key \<noteq> None"] umap_lookup_def [of small] dom_def del: not_None_eq)
  finally have u: "map_of (rev (filter (\<lambda>node. umap_lookup large (fst node) \<noteq> None) (concat (um_arr small))) @ umap_nodes dst) =
      umap_lookup dst ++ umap_lookup small |` dom (umap_lookup large)"
    by (simp add: umap_nodes_def [of small] umap_lookup_def [of dst] del: not_None_eq)
  show "umap_wf (update_cap_after_insert dst') \<and>
     umap_lookup (update_cap_after_insert dst') = umap_lookup dst ++ umap_lookup small |` dom (umap_lookup large)"
    unfolding d(2) using d(1) u by (rule conjI)
qed

lemma move_isecn_result:
  assumes "umap_wf dst" "umap_wf src0" "umap_wf src1"
    and "umap_count dst + min (umap_count src0) (umap_count src1) < 2 ^ 60"
    and "dom (umap_lookup dst) \<inter> dom (umap_lookup src0) \<inter> dom (umap_lookup src1) = {}"
    and "cucon_umap_move_isecn dst src0 src1 = (dst', src0', src1')"
  shows "umap_wf dst' \<and> umap_wf src0' \<and> umap_wf src1' \<and>
    umap_lookup dst' = umap_lookup dst ++
      (if umap_count src0 > umap_count src1 then umap_lookup src1 |` dom (umap_lookup src0)
       else umap_lookup src0 |` dom (umap_lookup src1)) \<and>
    umap_lookup src0' = umap_lookup src0 |` (- dom (umap_lookup src1)) \<and>
    umap_lookup src1' = umap_lookup src1 |` (- dom (umap_lookup src0))"
proof -
  have size: "cucon_umap_size src0 > cucon_umap_size src1 \<longleftrightarrow> umap_count src0 > umap_count src1"
    using umap_wfD(6) [OF assms(2)] umap_wfD(6) [OF assms(3)] by (simp add: cucon_umap_size_def word_less_nat_alt)
  show ?thesis
  proof (cases "umap_count src0 > umap_count src1")
    case True
    obtain arr0 size0 large dst1 where m: "move_isecn_arr (um_arr src1) (um_size src1) src0 dst = (arr0, size0, large, dst1)"
      by (metis surj_pair)
    have d: "dom (umap_lookup dst) \<inter> dom (umap_lookup src1) \<inter> dom (umap_lookup src0) = {}" using assms(5) by blast
    have c: "umap_count dst + umap_count src1 < 2 ^ 60" using assms(4) True by simp
    show ?thesis
      using move_isecn_sources [OF assms(1,3,2) c d m refl] assms(6) True size
      by (auto simp: cucon_umap_move_isecn_def Let_def m)
  next
    case False
    obtain arr0 size0 large dst1 where m: "move_isecn_arr (um_arr src0) (um_size src0) src1 dst = (arr0, size0, large, dst1)"
      by (metis surj_pair)
    have c: "umap_count dst + umap_count src0 < 2 ^ 60" using assms(4) False by simp
    show ?thesis
      using move_isecn_sources [OF assms(1,2,3) c assms(5) m refl] assms(6) False size
      by (auto simp: cucon_umap_move_isecn_def Let_def m)
  qed
qed

text \<open>Intersection in place leaves the size as it was.\<close>

lemma assign_isecn_nodes:
  fixes dst :: "'v umap"
  assumes "umap_wf src"
  shows "um_arr (cucon_umap_assign_isecn dst src) =
    map (filter (\<lambda>node. umap_lookup src (fst node) \<noteq> None)) (um_arr dst)"
proof -
  have "chain_isecn src chain = filter (\<lambda>node. umap_lookup src (fst node) \<noteq> None) chain" for chain :: "'v umap_node list"
    by (induction chain) (simp_all add: find_mem_lookup [OF assms])
  then show ?thesis by (simp add: cucon_umap_assign_isecn_def)
qed

lemma assign_isecn_result:
  assumes "umap_wf dst" "umap_wf src" "dst' = cucon_umap_assign_isecn dst src"
  shows "umap_lookup dst' = umap_lookup dst |` dom (umap_lookup src) \<and> cucon_umap_size dst' = cucon_umap_size dst \<and>
    (umap_wf dst' \<longleftrightarrow> dom (umap_lookup dst) \<subseteq> dom (umap_lookup src))"
proof -
  let ?p = "\<lambda>node. umap_lookup src (fst node) \<noteq> None"
  note arr = assign_isecn_nodes [OF assms(2), of dst, folded assms(3)]
  have nodes: "umap_nodes dst' = filter ?p (umap_nodes dst)"
    by (simp add: umap_nodes_def arr filter_concat del: not_None_eq)
  have "umap_lookup dst' = umap_lookup dst |` dom (umap_lookup src)"
    unfolding umap_lookup_def [of dst'] umap_lookup_def [of dst] nodes
    by (simp add: map_of_filter [of "\<lambda>key. umap_lookup src key \<noteq> None"] dom_def del: not_None_eq)
  moreover have size: "cucon_umap_size dst' = cucon_umap_size dst"
    by (simp add: assms(3) cucon_umap_assign_isecn_def cucon_umap_size_def)
  moreover have "umap_wf dst' \<longleftrightarrow> dom (umap_lookup dst) \<subseteq> dom (umap_lookup src)"
  proof
    assume "umap_wf dst'"
    then have c: "umap_count dst' = umap_count dst"
      using umap_wfD(6) [OF assms(1)] umap_wfD(6) [of dst'] size by (simp add: cucon_umap_size_def)
    have "?p node" if "node \<in> set (umap_nodes dst)" for node
    proof (rule ccontr)
      assume "\<not> ?p node"
      from length_filter_less [of node "umap_nodes dst" ?p, OF that this]
      show False using c by (simp only: umap_count_def nodes less_irrefl)
    qed
    then show "dom (umap_lookup dst) \<subseteq> dom (umap_lookup src)" by (auto simp: lookup_dom [of dst])
  next
    assume s: "dom (umap_lookup dst) \<subseteq> dom (umap_lookup src)"
    have "?p node" if "chain \<in> set (um_arr dst)" "node \<in> set chain" for chain node
    proof -
      have "fst node \<in> dom (umap_lookup dst)" using that by (auto simp: lookup_dom umap_nodes_def)
      then show ?thesis using s by auto
    qed
    then have "map (filter ?p) (um_arr dst) = um_arr dst" by (intro map_idI) (simp add: filter_id_conv del: not_None_eq)
    then have "um_arr dst' = um_arr dst" by (simp only: arr)
    then have "dst' = dst" by (simp add: assms(3) cucon_umap_assign_isecn_def)
    then show "umap_wf dst'" using assms(1) by simp
  qed
  ultimately show ?thesis by blast
qed

end
