(* ===== verification/UmapDict.thy ===== *)
theory UmapDict
  imports UmapCombine
begin

text \<open>The properties of the hash maps of \<^verbatim>\<open>cucon/umap.c\<close>, and the operations that fail.\<close>

section \<open>Copies\<close>

lemma map_of_map_slots: "map_of (map (\<lambda>(key, v). (key, g key v)) ns) = (\<lambda>key. map_option (g key) (map_of ns key))"
  by (induction ns) (auto simp: fun_eq_iff)

lemma copy_rep:
  fixes g :: "u64 \<Rightarrow> 'v \<Rightarrow> 'w"
  assumes "umap_wf src" "dst = \<lparr>um_size = um_size src, um_mask = um_mask src, um_arr = map (map (\<lambda>(key, v). (key, g key v))) (um_arr src)\<rparr>"
  shows "umap_wf dst" "umap_lookup dst = (\<lambda>key. map_option (g key) (umap_lookup src key))" "umap_count dst = umap_count src"
proof -
  note wf = umap_wfD [OF assms(1)]
  have nodes: "umap_nodes dst = map (\<lambda>(key, v). (key, g key v)) (umap_nodes src)"
    by (simp add: umap_nodes_def assms(2) map_concat)
  then show c: "umap_count dst = umap_count src" by (simp add: umap_count_def)
  have "in_buckets (um_mask src) (map (map (\<lambda>(key, v). (key, g key v))) (um_arr src))"
    by (rule in_buckets_map [OF wf(2)]) force
  moreover have "map fst (umap_nodes dst) = map fst (umap_nodes src)" by (simp add: nodes case_prod_beta')
  ultimately show "umap_wf dst" using wf c assms(2) by (simp add: umap_wf_def cap_ok_def)
  show "umap_lookup dst = (\<lambda>key. map_option (g key) (umap_lookup src key))"
    unfolding umap_lookup_def nodes by (rule map_of_map_slots)
qed

lemma init_copy_void_wf:
  "umap_wf src \<Longrightarrow> umap_wf (cucon_umap_init_copy_void src) \<and> umap_count (cucon_umap_init_copy_void src) = umap_count src"
  using copy_rep [of src "cucon_umap_init_copy_void src" "\<lambda>key v. ()"] by (simp add: cucon_umap_init_copy_void_def)

section \<open>Updates\<close>

lemma init_wf: "umap_wf (cucon_umap_init :: 'v umap)" "umap_lookup (cucon_umap_init :: 'v umap) = Map.empty" "umap_count (cucon_umap_init :: 'v umap) = 0"
  "umap_balanced (cucon_umap_init :: 'v umap)"
proof -
  have "umap_rep (cucon_umap_init :: 'v umap) []"
    by (auto simp: umap_rep_def cucon_umap_init_def cap_ok_def in_buckets_empty MIN_SIZE_def numeral_3_eq_3 intro!: exI [of _ 3])
  note r = umap_repD [OF this]
  show "umap_wf (cucon_umap_init :: 'v umap)" "umap_lookup (cucon_umap_init :: 'v umap) = Map.empty" "umap_count (cucon_umap_init :: 'v umap) = 0" using r by simp_all
  moreover have "unat (um_mask (cucon_umap_init :: 'v umap)) = 7" by (simp add: cucon_umap_init_def MIN_SIZE_def)
  ultimately show "umap_balanced (cucon_umap_init :: 'v umap)"
    by (simp add: umap_balanced_def umap_not_overfull_def umap_not_underfull_def)
qed

text \<open>C9: Inserting a key, with the new node behind or before its chain, gives the slot that was there or the new one,
  sets the entry of this key only if it had none, changes no other entry and counts the new node.\<close>

theorem umap_insert_correct:
  assumes "umap_wf umap" "unat (cucon_umap_size umap) + 1 < 2 ^ 60"
    and "cucon_umap_insert_mem umap key v = (inserted, slot, umap')"
    and "cucon_umap_insert_new_node umap key v = (inserted2, node2, umap2)"
  shows "umap_wf umap' \<and> umap_wf umap2 \<and> (inserted \<longleftrightarrow> cucon_umap_find_mem umap key = None) \<and>
    (inserted2 \<longleftrightarrow> inserted) \<and> node2 = (key, slot) \<and>
    slot = (case cucon_umap_find_mem umap key of Some old \<Rightarrow> old | None \<Rightarrow> v) \<and>
    cucon_umap_find_mem umap' = (cucon_umap_find_mem umap)(key \<mapsto> slot) \<and>
    cucon_umap_find_mem umap2 = (cucon_umap_find_mem umap)(key \<mapsto> slot) \<and>
    cucon_umap_size umap' = cucon_umap_size umap + (if inserted then 1 else 0) \<and>
    cucon_umap_size umap2 = cucon_umap_size umap'"
proof -
  note wf = umap_wfD [OF assms(1)]
  have c: "Suc (umap_count umap) < 2 ^ 60" using assms(2) wf(6) by (simp add: cucon_umap_size_def)
  note i = insert_mem_inserted [OF assms(1) c assms(3)] and j = insert_new_node_inserted [OF assms(1) c assms(4)]
  have w: "umap_wf umap'" "umap_wf umap2" using i(1) j(1) by (simp_all add: umap_inserted_def)
  have f: "cucon_umap_find_mem umap = umap_lookup umap" "cucon_umap_find_mem umap' = umap_lookup umap'"
    "cucon_umap_find_mem umap2 = umap_lookup umap2"
    using w assms(1) by (auto simp: find_mem_lookup)
  have s: "cucon_umap_size u = of_nat (umap_count u)" if "umap_wf u" for u :: "'a umap"
    using umap_wfD(4) [OF that] by (simp add: cucon_umap_size_def)
  show ?thesis
    using i j w unfolding f s [OF w(1)] s [OF w(2)] s [OF assms(1)]
    by (auto simp: umap_inserted_def fun_upd_idem split: option.splits if_splits)
qed

text \<open>A map with two entries in one bucket, as a concrete input.\<close>

definition sample_umap :: "u64 umap" where
  "sample_umap = snd (snd (cucon_umap_insert_mem (snd (snd (cucon_umap_insert_mem cucon_umap_init 1 10))) 9 20))"

lemma sample_umap_eval:
  "sample_umap = \<lparr>um_size = 2, um_mask = 7, um_arr = [[], [(1, 10), (9, 20)], [], [], [], [], [], []]\<rparr>"
  by code_simp

lemma insert_mem_inserted':
  assumes "umap_wf umap" "Suc (umap_count umap) < 2 ^ 60"
  shows "umap_inserted umap key v (snd (snd (cucon_umap_insert_mem umap key v)))"
  using insert_mem_inserted(1) [OF assms] by (metis prod.collapse)

lemma sample_umap_wf: "umap_wf sample_umap" "umap_count sample_umap = 2" "umap_balanced sample_umap"
  "umap_lookup sample_umap = [1 \<mapsto> 10, 9 \<mapsto> 20]"
proof -
  define u where "u = snd (snd (cucon_umap_insert_mem cucon_umap_init 1 (10 :: u64)))"
  have "umap_inserted cucon_umap_init 1 10 u" unfolding u_def by (rule insert_mem_inserted') (simp_all add: init_wf)
  then have u: "umap_wf u" "umap_balanced u" "umap_lookup u = [1 \<mapsto> 10]" "umap_count u = 1"
    by (simp_all add: umap_inserted_def init_wf)
  have "umap_inserted u 9 20 sample_umap"
    unfolding sample_umap_def u_def [symmetric] by (rule insert_mem_inserted') (simp_all add: u)
  then show "umap_wf sample_umap" "umap_count sample_umap = 2" "umap_balanced sample_umap"
    "umap_lookup sample_umap = [1 \<mapsto> 10, 9 \<mapsto> 20]"
    by (simp_all add: umap_inserted_def u)
qed

theorem umap_insert_correct_witness:
  "let (inserted, slot, umap') = cucon_umap_insert_mem sample_umap 17 30 in
     inserted \<and> slot = 30 \<and> cucon_umap_find_mem umap' 17 = Some 30 \<and> cucon_umap_find_mem umap' 9 = Some 20"
proof -
  obtain b s u b2 n2 u2 where e: "cucon_umap_insert_mem sample_umap 17 30 = (b, s, u)"
    "cucon_umap_insert_new_node sample_umap 17 30 = (b2, n2, u2)" by (metis surj_pair)
  have "cucon_umap_find_mem sample_umap 17 = None" "cucon_umap_find_mem sample_umap 9 = Some 20"
    "cucon_umap_size sample_umap = 2"
    by code_simp+
  then show ?thesis using umap_insert_correct [OF sample_umap_wf(1) _ e] e(1) by simp
qed

text \<open>C10: Erasing a key removes its entry only and gives its slot; replacing the pointer of a key stores the new one and gives
  the old one, where the null pointer stands for no entry.\<close>

theorem umap_erase_replace_correct:
  assumes "umap_wf umap" "unat (cucon_umap_size umap) + 1 < 2 ^ 60"
    and "cucon_umap_erase_ptr umap key = (old, umap')"
    and "cucon_umap_replace_ptr umap key ptr = (old2, umap2)"
  shows "umap_wf umap' \<and> umap_wf umap2 \<and>
    old = (case cucon_umap_find_mem umap key of Some slot \<Rightarrow> slot | None \<Rightarrow> 0) \<and> old2 = old \<and>
    cucon_umap_find_mem umap' = (cucon_umap_find_mem umap)(key := None) \<and>
    cucon_umap_find_mem umap2 = (cucon_umap_find_mem umap)(key := if ptr = 0 then None else Some ptr)"
proof -
  have c: "Suc (umap_count umap) < 2 ^ 60" using assms(2) umap_wfD(6) [OF assms(1)] by (simp add: cucon_umap_size_def)
  note e = erase_ptr_erased [OF assms(1,3)] and r = replace_ptr_updated [OF assms(1) c assms(4)]
  have w: "umap_wf umap'" "umap_wf umap2" using e(1) r by (simp_all add: umap_erased_def umap_updated_def)
  have f: "cucon_umap_find_mem umap = umap_lookup umap" "cucon_umap_find_mem umap' = umap_lookup umap'"
    "cucon_umap_find_mem umap2 = umap_lookup umap2"
    using w assms(1) by (auto simp: find_mem_lookup)
  show ?thesis using e r w unfolding f by (simp add: umap_erased_def umap_updated_def)
qed

theorem umap_erase_replace_correct_witness:
  "\<exists>umap' umap2. cucon_umap_erase_ptr sample_umap 9 = (20, umap') \<and> cucon_umap_find_mem umap' 9 = None \<and>
     cucon_umap_find_mem umap' 1 = Some 10 \<and>
     cucon_umap_replace_ptr sample_umap 9 25 = (20, umap2) \<and> cucon_umap_find_mem umap2 9 = Some 25"
proof -
  obtain old u old2 u2 where e: "cucon_umap_erase_ptr sample_umap 9 = (old, u)"
    "cucon_umap_replace_ptr sample_umap 9 25 = (old2, u2)" by (metis surj_pair)
  have "cucon_umap_find_mem sample_umap 9 = Some 20" "cucon_umap_find_mem sample_umap 1 = Some 10"
    "cucon_umap_size sample_umap = 2"
    by code_simp+
  then show ?thesis using umap_erase_replace_correct [OF sample_umap_wf(1) _ e] e by simp
qed

text \<open>C11: The capacity follows the number of nodes: insertion and erasure keep at most three nodes per two
  buckets, and, but for the least capacity, at least one node per two buckets.\<close>

theorem umap_load_bounds:
  assumes "umap_wf umap" "umap_balanced umap" "unat (cucon_umap_size umap) + 1 < 2 ^ 60"
    and "umap' \<in> {snd (snd (cucon_umap_insert_mem umap key v)), snd (cucon_umap_erase umap key)}"
  shows "umap_wf umap' \<and> umap_balanced umap' \<and>
    2 * unat (cucon_umap_size umap') \<le> 3 * unat (um_mask umap') \<and>
    (unat (um_mask umap') \<le> 2 * unat (cucon_umap_size umap') \<or> um_mask umap' = 7)"
proof -
  have c: "Suc (umap_count umap) < 2 ^ 60" using assms(3) umap_wfD(6) [OF assms(1)] by (simp add: cucon_umap_size_def)
  obtain b u where e: "cucon_umap_erase umap key = (b, u)" by (metis surj_pair)
  have w: "umap_wf umap'" "umap_balanced umap'"
    using assms(1,2,4) insert_mem_inserted' [OF assms(1) c, of key v] erase_erased(1) [OF assms(1) e] e
    by (auto simp: umap_inserted_def umap_erased_def split: if_splits)
  have "um_mask umap' = 7 \<longleftrightarrow> unat (um_mask umap') = 7" by (simp add: word_unat_eq_iff)
  then show ?thesis
    using w umap_wfD(6) [OF w(1)]
    by (simp add: umap_balanced_def umap_not_overfull_def umap_not_underfull_def cucon_umap_size_def)
qed

theorem umap_load_bounds_witness:
  "2 * unat (cucon_umap_size (snd (cucon_umap_erase sample_umap 9))) \<le> 3 * unat (um_mask (snd (cucon_umap_erase sample_umap 9)))"
proof -
  have "cucon_umap_size sample_umap = 2" by code_simp
  then show ?thesis
    using umap_load_bounds [OF sample_umap_wf(1,3), of "snd (cucon_umap_erase sample_umap 9)" 9 0] by simp
qed

text \<open>C12: Taking any node from a map that is not empty returns, whatever the random number, and removes the entry
  it gives.\<close>

theorem umap_pop_any_returns:
  assumes "umap_wf umap" "cucon_umap_size umap \<noteq> 0"
  shows "\<exists>key v umap'. cucon_umap_pop_any_node random umap = Some ((key, v), umap') \<and> umap_wf umap' \<and>
    cucon_umap_find_mem umap key = Some v \<and> cucon_umap_find_mem umap' = (cucon_umap_find_mem umap)(key := None) \<and>
    cucon_umap_size umap' = cucon_umap_size umap - 1"
proof -
  have "umap_count umap \<noteq> 0" using assms(2) umap_wfD(4) [OF assms(1)] by (intro notI) (simp add: cucon_umap_size_def)
  then obtain key v umap' where p: "cucon_umap_pop_any_node random umap = Some ((key, v), umap')"
    "umap_lookup umap key = Some v" "umap_erased umap key umap'"
    using pop_any_node_result [OF assms(1)] by blast
  then have w: "umap_wf umap'" "umap_count umap' = umap_count umap - 1" by (simp_all add: umap_erased_def)
  have "cucon_umap_find_mem umap = umap_lookup umap" "cucon_umap_find_mem umap' = umap_lookup umap'"
    using w(1) assms(1) by (auto simp: find_mem_lookup)
  moreover have "cucon_umap_size umap' = cucon_umap_size umap - 1"
    using umap_wfD(4) [OF w(1)] umap_wfD(4) [OF assms(1)] w(2) \<open>umap_count umap \<noteq> 0\<close>
    by (simp add: cucon_umap_size_def of_nat_diff)
  ultimately show ?thesis using p w(1) by (auto simp: umap_erased_def)
qed

theorem umap_pop_any_returns_witness:
  "\<exists>key v umap'. cucon_umap_pop_any_node 5 sample_umap = Some ((key, v), umap') \<and> cucon_umap_size umap' = 1"
proof -
  have s: "cucon_umap_size sample_umap = 2" by code_simp
  then show ?thesis using umap_pop_any_returns [OF sample_umap_wf(1), of 5] by auto
qed

section \<open>Iteration and comparison\<close>

text \<open>From the first iterator to the end the nodes are visited in the order of the buckets, every entry once;
  \<^verbatim>\<open>cucon_umap_iter_mem\<close> calls its callback in the same order.\<close>

theorem umap_iterators_visit:
  assumes "umap_wf umap" "unat (cucon_umap_size umap) < fuel"
  shows "\<exists>ns. umap_it_collect fuel umap (cucon_umap_begin umap) = Some ns \<and> distinct (map fst ns) \<and>
    map_of ns = cucon_umap_find_mem umap \<and> length ns = unat (cucon_umap_size umap) \<and>
    cucon_umap_iter_mem umap cb s = fold (\<lambda>(key, v). cb key v) ns s"
proof -
  note wf = umap_wfD [OF assms(1)] and b = begin_ahead [OF assms(1)]
  have "umap_it_collect fuel umap (cucon_umap_begin umap) = Some (umap_nodes umap)"
    using collect_ahead [of umap "cucon_umap_begin umap" fuel] b assms(2) wf(6)
    by (simp add: cucon_umap_size_def umap_count_def)
  moreover have "map_of (umap_nodes umap) = cucon_umap_find_mem umap"
    using assms(1) by (auto simp: find_mem_lookup umap_lookup_def)
  moreover have "cucon_umap_iter_mem umap cb s = fold (\<lambda>(key, v). cb key v) (umap_nodes umap) s"
    by (simp add: cucon_umap_iter_mem_def fold_chain_iter umap_nodes_def case_prod_beta')
  ultimately show ?thesis using wf(3,6) by (auto simp: cucon_umap_size_def umap_count_def)
qed

theorem umap_iterators_visit_witness:
  "\<exists>ns. umap_it_collect 3 sample_umap (cucon_umap_begin sample_umap) = Some ns \<and> length ns = 2 \<and>
    cucon_umap_iter_mem sample_umap (\<lambda>key v s. s + v) 0 = fold (\<lambda>(key, v) s. s + v) ns 0"
proof -
  have "cucon_umap_size sample_umap = 2" by code_simp
  then show ?thesis
    using umap_iterators_visit [OF sample_umap_wf(1), of 3 "\<lambda>key v s. s + v" 0] by (auto simp: case_prod_beta)
qed

text \<open>\<^verbatim>\<open>cucon_umap_eq_keys\<close> decides whether two maps, of whatever capacities, have the same keys, and
  \<^verbatim>\<open>cucon_umap_assign_union_void\<close> unites the keys.\<close>

theorem umap_keys_compared_united:
  assumes "umap_wf umap0" "umap_wf umap1" "unat (cucon_umap_size umap0) + unat (cucon_umap_size umap1) < 2 ^ 60"
  shows "(cucon_umap_eq_keys umap0 umap1 \<longleftrightarrow> dom (cucon_umap_find_mem umap0) = dom (cucon_umap_find_mem umap1)) \<and>
    umap_wf (cucon_umap_assign_union_void umap0 umap1) \<and>
    dom (cucon_umap_find_mem (cucon_umap_assign_union_void umap0 umap1)) =
      dom (cucon_umap_find_mem umap0) \<union> dom (cucon_umap_find_mem umap1)"
proof -
  have f: "cucon_umap_find_mem u = umap_lookup u" if "umap_wf u" for u :: "'a umap" using that by (auto simp: find_mem_lookup)
  have g: "cucon_umap_find_mem u = umap_lookup u" if "umap_wf u" for u :: "unit umap" using that by (auto simp: find_mem_lookup)
  let ?ns = "map (\<lambda>node. (fst node, ())) (umap_nodes umap1)"
  have c: "umap_count umap0 + length ?ns < 2 ^ 60"
    using assms(3) umap_wfD(6) [OF assms(1)] umap_wfD(6) [OF assms(2)] by (simp add: cucon_umap_size_def umap_count_def)
  note u = umap_insertion.insert_nodes_union [OF assms(1) c] umap_insertion.insert_nodes_dom [OF assms(1) c]
  have w: "umap_wf (cucon_umap_assign_union_void umap0 umap1)" using u(1) by (simp add: assign_union_void_nodes)
  have "dom (umap_lookup (cucon_umap_assign_union_void umap0 umap1)) = dom (umap_lookup umap0) \<union> dom (umap_lookup umap1)"
    unfolding assign_union_void_nodes u(2) by (simp add: lookup_dom image_image)
  then show ?thesis using eq_keys_iff [OF assms(1,2)] w by (simp add: f [OF assms(2)] g [OF assms(1)] g [OF w])
qed

theorem umap_keys_compared_united_witness:
  "cucon_umap_eq_keys (cucon_umap_init_copy_void sample_umap) sample_umap \<longleftrightarrow>
     dom (cucon_umap_find_mem (cucon_umap_init_copy_void sample_umap)) = dom (cucon_umap_find_mem sample_umap)"
  using umap_keys_compared_united [OF conjunct1 [OF init_copy_void_wf [OF sample_umap_wf(1)]] sample_umap_wf(1)]
    umap_wfD(6) [OF conjunct1 [OF init_copy_void_wf [OF sample_umap_wf(1)]]] umap_wfD(6) [OF sample_umap_wf(1)]
    init_copy_void_wf [OF sample_umap_wf(1)] sample_umap_wf(2)
  by (simp add: cucon_umap_size_def)

section \<open>Operations on slots and hash codes that fail\<close>

text \<open>The comparison stays at a node whose slot equals the one found.\<close>

lemma memcmp_refl: "memcmp n xs xs = 0"
proof (induction n arbitrary: xs)
  case (Suc n)
  then show ?case by (cases xs) simp_all
qed simp

lemma eq_mem_chain_stays:
  assumes "cucon_umap_find_mem umap1 key = Some slot" "memcmp slot_size slot0 slot = 0"
  shows "eq_mem_chain umap1 slot_size ((key, slot0) # next) = None"
proof -
  have "\<not> (umap = umap1 \<and> n = slot_size \<and> node = (key, slot0) # next)" if "eq_mem_chain umap n node = Some eq"
    for umap n node eq
    by (rule eq_mem_chain.raw_induct [of "\<lambda>umap n node eq. \<not> (umap = umap1 \<and> n = slot_size \<and> node = (key, slot0) # next)", OF _ that])
      (use assms in auto, blast)
  then show ?thesis by (metis option.exhaust)
qed

text \<open>C39: \<^verbatim>\<open>cucon_umap_eq_mem\<close> never tells that two maps are equal, unless they are empty: on two nonempty maps
  with the same keys and the same slots it does not return.\<close>

theorem umap_eq_mem_diverges:
  assumes "umap_wf umap0" "umap_wf umap1" "cucon_umap_size umap0 \<noteq> 0"
    and "cucon_umap_find_mem umap0 = cucon_umap_find_mem umap1"
  shows "cucon_umap_eq_mem umap0 umap1 slot_size = None"
proof -
  have l: "umap_lookup umap0 = umap_lookup umap1"
    using assms(4) find_mem_lookup [OF assms(1)] find_mem_lookup [OF assms(2)] by (metis ext)
  then have c: "umap_count umap0 = umap_count umap1"
    using lookup_count [OF assms(1)] lookup_count [OF assms(2)] by simp
  then have s: "cucon_umap_size umap0 = cucon_umap_size umap1"
    using umap_wfD(4) [OF assms(1)] umap_wfD(4) [OF assms(2)] by (simp add: cucon_umap_size_def)
  have stay: "eq_mem_chain umap1 slot_size chain = None" if mem: "chain \<in> set (um_arr umap0)" and ne: "chain \<noteq> []" for chain
  proof -
    obtain key v next0 where ch: "chain = (key, v) # next0" using ne by (metis list.exhaust surj_pair)
    have "umap_lookup umap0 key = Some v"
      using umap_wfD(3) [OF assms(1)] mem ch by (force simp: umap_lookup_def umap_nodes_def intro!: map_of_is_SomeI)
    then have "cucon_umap_find_mem umap1 key = Some v" using l find_mem_lookup [OF assms(2)] by simp
    then show ?thesis using eq_mem_chain_stays memcmp_refl ch by metis
  qed
  have "umap_count umap0 \<noteq> 0" using assms(3) umap_wfD(4) [OF assms(1)] by (intro notI) (simp add: cucon_umap_size_def)
  then have "concat (um_arr umap0) \<noteq> []" by (metis list.size(3) umap_count_def umap_nodes_def)
  moreover have "eq_mem_arr umap1 slot_size arr = None" if "concat arr \<noteq> []" "set arr \<subseteq> set (um_arr umap0)" for arr
    using that
  proof (induction arr)
    case (Cons chain arr)
    show ?case
    proof (cases "chain = []")
      case True
      then have "eq_mem_chain umap1 slot_size chain = Some True" by (simp add: eq_mem_chain.simps)
      then show ?thesis using Cons True by simp
    next
      case False
      then show ?thesis using stay Cons.prems(2) by simp
    qed
  qed simp
  ultimately show ?thesis by (simp add: cucon_umap_eq_mem_def s)
qed

definition sample_slots :: "u8 list umap" where
  "sample_slots = snd (snd (cucon_umap_insert_mem cucon_umap_init 1 [65]))"

lemma sample_slots_wf: "umap_wf sample_slots" "umap_count sample_slots = 1"
proof -
  have "umap_inserted cucon_umap_init 1 [65] sample_slots"
    unfolding sample_slots_def by (rule insert_mem_inserted') (simp_all add: init_wf)
  then show "umap_wf sample_slots" "umap_count sample_slots = 1" by (simp_all add: umap_inserted_def init_wf)
qed

theorem umap_eq_mem_diverges_witness: "cucon_umap_eq_mem sample_slots sample_slots 1 = None"
proof -
  have "cucon_umap_size sample_slots \<noteq> 0"
    using umap_wfD(6) [OF sample_slots_wf(1)] sample_slots_wf(2) by (auto simp: cucon_umap_size_def)
  then show ?thesis by (intro umap_eq_mem_diverges sample_slots_wf refl)
qed

text \<open>The hash code of the keys is computed from as many buckets as there are nodes and one more: with more
  nodes than the mask the code reads behind the last bucket, with fewer it ignores the keys in later buckets.\<close>

theorem umap_hash_keys_buckets:
  assumes "umap_wf umap"
  shows "(cucon_umap_hash_keys umap = None \<longleftrightarrow> unat (um_mask umap) < unat (cucon_umap_size umap)) \<and>
    (unat (cucon_umap_size umap) \<le> unat (um_mask umap) \<longrightarrow>
      cucon_umap_hash_keys umap = Some (UMAP_HASH (fold (\<lambda>node hash. hash + UMAP_HASH (fst node))
        (filter (\<lambda>node. umap_index (um_mask umap) (fst node) \<le> unat (cucon_umap_size umap)) (umap_nodes umap)) 178841123)))"
proof -
  note wf = umap_wfD [OF assms]
  have len: "length (um_arr umap) = Suc (unat (um_mask umap))" using wf(1) by (rule cap_okD)
  have "concat (take n (um_arr umap)) = filter (\<lambda>node. umap_index (um_mask umap) (fst node) < n) (umap_nodes umap)"
    if "n \<le> length (um_arr umap)" for n
  proof -
    have first: "filter (\<lambda>node. umap_index (um_mask umap) (fst node) < n) (concat (take n (um_arr umap))) = concat (take n (um_arr umap))"
      unfolding filter_id_conv
    proof
      fix node
      assume "node \<in> set (concat (take n (um_arr umap)))"
      then obtain chain where "chain \<in> set (take n (um_arr umap))" "node \<in> set chain" by auto
      moreover then obtain i where "i < n" "i < length (um_arr umap)" "chain = um_arr umap ! i"
        by (auto simp: in_set_conv_nth [of chain])
      ultimately show "umap_index (um_mask umap) (fst node) < n" using in_bucketsD [OF wf(2)] by metis
    qed
    have rest: "filter (\<lambda>node. umap_index (um_mask umap) (fst node) < n) (concat (drop n (um_arr umap))) = []"
      unfolding filter_empty_conv
    proof
      fix node
      assume "node \<in> set (concat (drop n (um_arr umap)))"
      then obtain chain where "chain \<in> set (drop n (um_arr umap))" "node \<in> set chain" by auto
      moreover then obtain i where "n + i < length (um_arr umap)" "chain = um_arr umap ! (n + i)"
        by (fastforce simp: in_set_conv_nth [of chain] less_diff_conv add.commute)
      ultimately show "\<not> umap_index (um_mask umap) (fst node) < n" using in_bucketsD [OF wf(2)] by (metis not_add_less1)
    qed
    have "umap_nodes umap = concat (take n (um_arr umap)) @ concat (drop n (um_arr umap))"
      by (metis append_take_drop_id concat_append umap_nodes_def)
    then show ?thesis using first rest by simp
  qed
  note t = this [of "Suc (unat (um_size umap))", unfolded len]
  have "umap_upto umap (um_size umap) = (if unat (um_size umap) \<le> unat (um_mask umap)
      then Some (take (Suc (unat (um_size umap))) (um_arr umap)) else None)"
    by (simp add: umap_upto_def len)
  then show ?thesis
    using t by (simp add: cucon_umap_hash_keys_def cucon_umap_size_def fold_chain_iter less_Suc_eq_le not_le)
qed

theorem umap_hash_keys_buckets_witness:
  "cucon_umap_hash_keys sample_umap = Some (UMAP_HASH (fold (\<lambda>node hash. hash + UMAP_HASH (fst node))
     (filter (\<lambda>node. umap_index 7 (fst node) \<le> 2) [(1, 10 :: u64), (9, 20)]) 178841123))"
  using umap_hash_keys_buckets [OF sample_umap_wf(1)]
  by (simp add: sample_umap_eval cucon_umap_size_def umap_nodes_def)

section \<open>Intersections\<close>

text \<open>\<^verbatim>\<open>cucon_umap_move_isecn\<close> moves the entries of the smaller source whose keys both sources have to the target, and removes
  them from both, if the target has none of these keys.\<close>

theorem umap_move_isecn_correct:
  assumes "umap_wf dst" "umap_wf src0" "umap_wf src1"
    and "unat (cucon_umap_size dst) + min (unat (cucon_umap_size src0)) (unat (cucon_umap_size src1)) < 2 ^ 60"
    and "dom (cucon_umap_find_mem dst) \<inter> dom (cucon_umap_find_mem src0) \<inter> dom (cucon_umap_find_mem src1) = {}"
    and "cucon_umap_move_isecn dst src0 src1 = (dst', src0', src1')"
  shows "umap_wf dst' \<and> umap_wf src0' \<and> umap_wf src1' \<and>
    cucon_umap_find_mem dst' = cucon_umap_find_mem dst ++
      (if cucon_umap_size src0 > cucon_umap_size src1
       then cucon_umap_find_mem src1 |` dom (cucon_umap_find_mem src0)
       else cucon_umap_find_mem src0 |` dom (cucon_umap_find_mem src1)) \<and>
    cucon_umap_find_mem src0' = cucon_umap_find_mem src0 |` (- dom (cucon_umap_find_mem src1)) \<and>
    cucon_umap_find_mem src1' = cucon_umap_find_mem src1 |` (- dom (cucon_umap_find_mem src0))"
proof -
  have f: "cucon_umap_find_mem u = umap_lookup u" if "umap_wf u" for u :: "'a umap" using that by (auto simp: find_mem_lookup)
  have s: "unat (cucon_umap_size u) = umap_count u" if "umap_wf u" for u :: "'a umap"
    using umap_wfD(6) [OF that] by (simp add: cucon_umap_size_def)
  have c: "umap_count dst + min (umap_count src0) (umap_count src1) < 2 ^ 60"
    using assms(4) by (simp add: s [OF assms(1)] s [OF assms(2)] s [OF assms(3)])
  have d: "dom (umap_lookup dst) \<inter> dom (umap_lookup src0) \<inter> dom (umap_lookup src1) = {}"
    using assms(5) by (simp add: f [OF assms(1)] f [OF assms(2)] f [OF assms(3)])
  note m = move_isecn_result [OF assms(1-3) c d assms(6)]
  have g: "cucon_umap_size src0 > cucon_umap_size src1 \<longleftrightarrow> umap_count src0 > umap_count src1"
    by (simp add: word_less_nat_alt s [OF assms(2)] s [OF assms(3)])
  show ?thesis
    using m f [of dst'] f [of src0'] f [of src1'] by (simp add: f [OF assms(1)] f [OF assms(2)] f [OF assms(3)] g)
qed

theorem umap_move_isecn_correct_witness:
  "\<exists>dst' src0' src1'. cucon_umap_move_isecn cucon_umap_init sample_umap sample_umap = (dst', src0', src1') \<and>
     cucon_umap_find_mem dst' 9 = Some 20 \<and> cucon_umap_find_mem src0' 9 = None"
proof -
  obtain d s0 s1 where e: "cucon_umap_move_isecn cucon_umap_init sample_umap sample_umap = (d, s0, s1)" by (metis surj_pair)
  have f: "cucon_umap_find_mem sample_umap 9 = Some 20" "cucon_umap_size sample_umap = 2" by code_simp+
  have z: "cucon_umap_size (cucon_umap_init :: u64 umap) = 0" by code_simp
  have "cucon_umap_find_mem (cucon_umap_init :: u64 umap) = Map.empty"
    by (rule ext) (simp add: find_mem_lookup [OF init_wf(1)] init_wf(2))
  note z = z this
  show ?thesis
    using umap_move_isecn_correct [OF init_wf(1) sample_umap_wf(1) sample_umap_wf(1) _ _ e] e f by (simp add: z domI)
qed

text \<open>\<^verbatim>\<open>cucon_umap_assign_isecn\<close> keeps the entries whose keys the other map has, but not the size: unless it had nothing to
  remove, it leaves a map whose size is wrong.\<close>

theorem umap_assign_isecn_size:
  assumes "umap_wf dst" "umap_wf src" "dst' = cucon_umap_assign_isecn dst src"
  shows "cucon_umap_size dst' = cucon_umap_size dst \<and>
    map_of (umap_nodes dst') = cucon_umap_find_mem dst |` dom (cucon_umap_find_mem src) \<and>
    (umap_wf dst' \<longleftrightarrow> dom (cucon_umap_find_mem dst) \<subseteq> dom (cucon_umap_find_mem src))"
proof -
  have "cucon_umap_find_mem dst = umap_lookup dst" "cucon_umap_find_mem src = umap_lookup src"
    using assms(1,2) by (auto simp: find_mem_lookup)
  then show ?thesis using assign_isecn_result [OF assms] by (simp add: umap_lookup_def [of dst', symmetric])
qed

theorem umap_assign_isecn_size_witness:
  "cucon_umap_size (cucon_umap_assign_isecn sample_umap (cucon_umap_init :: u64 umap)) = 2 \<and>
    \<not> umap_wf (cucon_umap_assign_isecn sample_umap (cucon_umap_init :: u64 umap))"
proof -
  have f: "cucon_umap_find_mem sample_umap 9 = Some 20" "cucon_umap_size sample_umap = 2"
    "cucon_umap_find_mem (cucon_umap_init :: u64 umap) 9 = None" by code_simp+
  then have "\<not> dom (cucon_umap_find_mem sample_umap) \<subseteq> dom (cucon_umap_find_mem (cucon_umap_init :: u64 umap))" by auto
  then show ?thesis using umap_assign_isecn_size [OF sample_umap_wf(1) init_wf(1) refl] f(2) by metis
qed

end
