(* ===== verification/UmapKeys.thy ===== *)
theory UmapKeys
  imports UmapDict
begin

text \<open>
  The order in which \<^verbatim>\<open>cucon_umap_iter_increasing_keys\<close> visits the keys of a hash map, and examples of
  operations on two hash maps of \<^verbatim>\<open>cucon/umap.c\<close> that go wrong.
\<close>

section \<open>Increasing keys\<close>

lemma qsort_insert_insort:
  "\<forall>y \<in> set ys. compar x y \<le> 0 \<longleftrightarrow> x \<le> (y :: 'a::linorder) \<Longrightarrow> qsort_insert compar x ys = insort x ys"
  by (induction ys) auto

lemma qsort_sort:
  fixes xs :: "'a::linorder list"
  assumes "\<And>x y. x \<in> set xs \<Longrightarrow> y \<in> set xs \<Longrightarrow> compar x y \<le> 0 \<longleftrightarrow> x \<le> y"
  shows "qsort compar xs = sort xs"
proof -
  have "set ys \<subseteq> set xs \<Longrightarrow> foldr (qsort_insert compar) ys [] = sort ys" for ys
  proof (induction ys)
    case (Cons y ys)
    then have "foldr (qsort_insert compar) ys [] = sort ys" by simp
    moreover have "qsort_insert compar y (sort ys) = insort y (sort ys)"
      by (rule qsort_insert_insort) (use Cons.prems assms in auto)
    ultimately show ?case by simp
  qed simp
  then show ?thesis by (simp add: qsort_def)
qed

lemma uintptr_cmp_difference: "uintptr_cmp x y = signed_take_bit 31 (uint x - uint y)"
proof -
  have "(ucast (x - y) :: u32) = word_of_int (uint (x - y))" by (rule ucast_eq)
  also have "uint (x - y) = take_bit 64 (uint x - uint y)" by (simp only: uint_word_ariths take_bit_eq_mod) simp
  also have "(word_of_int \<dots> :: u32) = word_of_int (uint x - uint y)"
    by (simp only: word_of_int_eq_iff) (simp add: take_bit_take_bit)
  finally have "(ucast (x - y) :: u32) = word_of_int (uint x - uint y)" .
  then show ?thesis unfolding uintptr_cmp_def by (simp only: signed_of_int of_int_eq_id id_apply) simp
qed

lemma uintptr_cmp_le:
  assumes "x < 2 ^ 31" "y < 2 ^ 31"
  shows "uintptr_cmp x y \<le> 0 \<longleftrightarrow> x \<le> y"
proof -
  have "uint x < 2 ^ 31" "uint y < 2 ^ 31" using assms by (simp_all add: word_less_def)
  moreover have "0 \<le> uint x" "0 \<le> uint y" by simp_all
  ultimately have "uintptr_cmp x y = uint x - uint y"
    unfolding uintptr_cmp_difference by (intro signed_take_bit_int_eq_self) linarith+
  then show ?thesis by (simp add: word_le_def)
qed

lemma collected_keys: "rev (fold (chain_iter (\<lambda>key slot p. key # p)) arr []) = map fst (concat arr)"
proof -
  have "fold (\<lambda>node p. fst node # p) ns ks = rev (map fst ns) @ ks" for ns :: "'a umap_node list" and ks
    by (induction ns arbitrary: ks) simp_all
  then show ?thesis by (simp add: fold_chain_iter rev_map)
qed

text \<open>C26: The keys of a map are visited in increasing order, each once, if they are all below \<open>2 ^ 31\<close>; the comparison
  truncates differences to \<open>int\<close>, so that \<open>2 ^ 31 + 1\<close> comes before \<open>0\<close>.\<close>

theorem umap_increasing_keys:
  assumes "umap_wf umap" "\<forall>key \<in> dom (cucon_umap_find_mem umap). key < 2 ^ 31"
  shows "cucon_umap_iter_increasing_keys umap cb s = fold cb (sorted_list_of_set (dom (cucon_umap_find_mem umap))) s \<and>
    uintptr_cmp (2 ^ 31 + 1) 0 < 0 \<and> 0 < uintptr_cmp 0 (2 ^ 31 + 1)"
proof -
  have f: "cucon_umap_find_mem umap = umap_lookup umap" using assms(1) by (auto simp: find_mem_lookup)
  have d: "dom (umap_lookup umap) = set (map fst (umap_nodes umap))" by (simp add: lookup_dom)
  have "qsort uintptr_cmp (map fst (umap_nodes umap)) = sort (map fst (umap_nodes umap))"
  proof (rule qsort_sort)
    fix x y
    assume "x \<in> set (map fst (umap_nodes umap))" "y \<in> set (map fst (umap_nodes umap))"
    then show "uintptr_cmp x y \<le> 0 \<longleftrightarrow> x \<le> y" using assms(2) unfolding f d by (intro uintptr_cmp_le) blast+
  qed
  also have "\<dots> = sorted_list_of_set (dom (umap_lookup umap))"
    using umap_wfD(3) [OF assms(1)] unfolding d sorted_list_of_set_sort_remdups by (simp only: distinct_remdups_id)
  finally have "cucon_umap_iter_increasing_keys umap cb s = fold cb (sorted_list_of_set (dom (umap_lookup umap))) s"
    by (simp add: cucon_umap_iter_increasing_keys_def Let_def collected_keys umap_nodes_def)
  moreover have "uintptr_cmp (2 ^ 31 + 1) 0 < 0" "0 < uintptr_cmp 0 (2 ^ 31 + 1)" by code_simp+
  ultimately show ?thesis by (simp add: f)
qed

theorem umap_increasing_keys_witness:
  "cucon_umap_iter_increasing_keys sample_umap (\<lambda>key ks. ks @ [key]) [] =
     fold (\<lambda>key ks. ks @ [key]) (sorted_list_of_set (dom (cucon_umap_find_mem sample_umap))) []"
proof -
  have "cucon_umap_find_mem sample_umap = umap_lookup sample_umap" using sample_umap_wf(1) by (auto simp: find_mem_lookup)
  then have "\<forall>key \<in> dom (cucon_umap_find_mem sample_umap). key < 2 ^ 31" by (simp add: sample_umap_wf(4))
  then show ?thesis by (rule umap_increasing_keys [OF sample_umap_wf(1), THEN conjunct1])
qed

lemma increasing_keys_reversed:
  "cucon_umap_iter_increasing_keys
     (snd (snd (cucon_umap_insert_mem (snd (snd (cucon_umap_insert_mem cucon_umap_init 0 ()))) (2 ^ 31 + 1) ())))
     (\<lambda>key ks. ks @ [key]) [] = [2 ^ 31 + 1, 0]"
  by code_simp

section \<open>Two maps\<close>

text \<open>A key that the target already has is moved there a second time.\<close>

lemma move_isecn_duplicates:
  "filter (\<lambda>node. fst node = 9) (umap_nodes (fst (cucon_umap_move_isecn sample_umap sample_umap sample_umap))) =
     [(9, 20), (9, 20)]"
  by code_simp

text \<open>
  The union of a map of eight buckets with one of sixteen: the new key goes to a bucket where the lookup
  does not find it.
\<close>

definition sixteen_buckets :: "u64 umap" where
  "sixteen_buckets = fold (\<lambda>key umap. snd (snd (cucon_umap_insert_mem umap key 0)))
     [1, 2, 3, 4, 5, 6, 7, 8, 9, 10, 11, 12] cucon_umap_init"

lemma isecn_union_loses:
  "\<exists>umap0 umap1. cucon_umap_assign_isecn_union (snd (snd (cucon_umap_insert_mem cucon_umap_init 15 99))) sixteen_buckets =
     Some (umap0, umap1) \<and> cucon_umap_find_mem umap1 15 = None \<and> (15, 99) \<in> set (umap_nodes umap1)"
proof -
  define r where "r = cucon_umap_assign_isecn_union (snd (snd (cucon_umap_insert_mem cucon_umap_init 15 99))) sixteen_buckets"
  have "r \<noteq> None" "cucon_umap_find_mem (snd (the r)) 15 = None" "(15, 99) \<in> set (umap_nodes (snd (the r)))"
    unfolding r_def by code_simp+
  then show ?thesis unfolding r_def [symmetric] by (metis option.collapse prod.collapse)
qed

end
