(* ===== verification/Atree.thy ===== *)
theory Atree
  imports KeyCover RbtreeKeys
begin

text \<open>
  The associative trees of \<^verbatim>\<open>cuex/atree.c\<close>: binary tries over the keys of their elements. An element is a
  leaf, a branch node holds the centre of the block of keys it covers. Nodes are hash-consed, so trees are
  the same object if they have the same structure, and \<open>None\<close> is the null pointer, the empty tree. A merge callback
  that returns null makes the operation fail. The function that gives the key of an element is a parameter.
\<close>

section \<open>Representation\<close>

datatype 'e atree = ALeaf 'e | ANode (acentre: u64) (aleft: "'e atree") (aright: "'e atree")

type_synonym 'e merge = "'e \<Rightarrow> 'e \<Rightarrow> 'e option"

definition merge_as_first :: "'e merge" where "merge_as_first e0 e1 = Some e0"
definition merge_as_second :: "'e merge" where "merge_as_second e0 e1 = Some e1"
definition merge_disjoin :: "'e merge" where "merge_disjoin e0 e1 = None"

definition subseteq_true :: "'e \<Rightarrow> 'e \<Rightarrow> bool" where "subseteq_true e0 e1 = True"

datatype cu_order = cu_order_none | cu_order_lt | cu_order_gt | cu_order_eq

definition order_eq :: "'e \<Rightarrow> 'e \<Rightarrow> cu_order" where "order_eq e0 e1 = cu_order_eq"

definition cuex_atree_empty :: "'e atree option" where "cuex_atree_empty = None"

definition cuex_atree_is_empty :: "'e atree option \<Rightarrow> bool" where
  "cuex_atree_is_empty tree \<longleftrightarrow> tree = None"

definition cuex_atree_singleton :: "'e \<Rightarrow> 'e atree option" where
  "cuex_atree_singleton e = Some (ALeaf e)"

definition cuex_atree_is_singleton :: "'e atree option \<Rightarrow> bool" where
  "cuex_atree_is_singleton tree = (case tree of Some (ALeaf e) \<Rightarrow> True | _ \<Rightarrow> False)"

definition cuex_atree_is_empty_or_singleton :: "'e atree option \<Rightarrow> bool" where
  "cuex_atree_is_empty_or_singleton tree = (case tree of Some (ANode c l r) \<Rightarrow> False | _ \<Rightarrow> True)"

definition pair_centre :: "u64 \<Rightarrow> u64 \<Rightarrow> u64" where
  "pair_centre left right =
     (let msk = cu_uint64_dcover (left XOR right) in (left AND NOT msk) OR drop_bit 1 (msk + 1))"

definition centre_to_min :: "u64 \<Rightarrow> u64" where
  "centre_to_min centre = (let msk = centre XOR (centre - 1) in centre AND NOT msk)"

definition centre_to_max :: "u64 \<Rightarrow> u64" where
  "centre_to_max centre = (let msk = centre XOR (centre - 1) in centre OR msk)"

section \<open>Lookup\<close>

fun atree_find :: "('e \<Rightarrow> u64) \<Rightarrow> 'e atree \<Rightarrow> u64 \<Rightarrow> 'e option" where
  "atree_find get_key (ALeaf e) key = (if get_key e = key then Some e else None)"
| "atree_find get_key (ANode centre left right) key =
     (if key < centre then
        if key < centre_to_min centre then None else atree_find get_key left key
      else
        if key > centre_to_max centre then None else atree_find get_key right key)"

definition cuex_atree_find :: "('e \<Rightarrow> u64) \<Rightarrow> 'e atree option \<Rightarrow> u64 \<Rightarrow> 'e option" where
  "cuex_atree_find get_key tree key =
     (case tree of None \<Rightarrow> None | Some tree \<Rightarrow> atree_find get_key tree key)"

text \<open>The loop runs down the right branches and calls itself on left branches, like that of the depth.\<close>

fun atree_card_loop :: "'e atree \<Rightarrow> u64 \<Rightarrow> u64" where
  "atree_card_loop (ALeaf e) n = n"
| "atree_card_loop (ANode centre left right) n = atree_card_loop right (n + atree_card_loop left 1)"

definition atree_card :: "'e atree \<Rightarrow> u64" where
  "atree_card tree = atree_card_loop tree 1"

definition cuex_atree_card :: "'e atree option \<Rightarrow> u64" where
  "cuex_atree_card tree = (case tree of None \<Rightarrow> 0 | Some tree \<Rightarrow> atree_card tree)"

fun atree_depth_loop :: "'e atree \<Rightarrow> nat \<Rightarrow> nat \<Rightarrow> nat" where
  "atree_depth_loop (ALeaf e) depth max_depth = max_depth"
| "atree_depth_loop (ANode centre left right) depth max_depth =
     (let depth = depth + 1; left_depth = depth + atree_depth_loop left 0 0 in
      atree_depth_loop right depth (if left_depth > max_depth then left_depth else max_depth))"

definition atree_depth :: "'e atree \<Rightarrow> nat" where
  "atree_depth tree = atree_depth_loop tree 0 0"

definition cuex_atree_depth :: "'e atree option \<Rightarrow> nat" where
  "cuex_atree_depth tree = (case tree of None \<Rightarrow> 0 | Some tree \<Rightarrow> atree_depth tree)"

text \<open>The index of a key in the order of the leaves, \<open>-1\<close> if it is not there.\<close>

fun atree_find_index :: "('e \<Rightarrow> u64) \<Rightarrow> 'e atree \<Rightarrow> u64 \<Rightarrow> u64 \<Rightarrow> u64" where
  "atree_find_index get_key (ALeaf e) key index = (if get_key e \<noteq> key then -1 else index)"
| "atree_find_index get_key (ANode centre left right) key index =
     (if key < centre then
        if key < centre_to_min centre then -1 else atree_find_index get_key left key index
      else
        if key > centre_to_max centre then -1
        else atree_find_index get_key right key (index + atree_card left))"

definition cuex_atree_find_index :: "('e \<Rightarrow> u64) \<Rightarrow> 'e atree option \<Rightarrow> u64 \<Rightarrow> u64" where
  "cuex_atree_find_index get_key tree key =
     (case tree of None \<Rightarrow> -1 | Some tree \<Rightarrow> atree_find_index get_key tree key 0)"

section \<open>Insertion and erasure\<close>

fun atree_insert :: "('e \<Rightarrow> u64) \<Rightarrow> 'e merge \<Rightarrow> 'e atree \<Rightarrow> 'e \<Rightarrow> 'e atree option" where
  "atree_insert get_key merge_values (ALeaf e) v =
     (let value_key = get_key v; atree_key = get_key e in
      if value_key = atree_key then map_option ALeaf (merge_values e v)
      else if value_key < atree_key then Some (ANode (pair_centre value_key atree_key) (ALeaf v) (ALeaf e))
      else Some (ANode (pair_centre atree_key value_key) (ALeaf e) (ALeaf v)))"
| "atree_insert get_key merge_values (ANode centre left right) v =
     (let value_key = get_key v in
      if value_key < centre then
        if value_key < centre_to_min centre then
          Some (ANode (pair_centre value_key centre) (ALeaf v) (ANode centre left right))
        else
          (case atree_insert get_key merge_values left v of
             None \<Rightarrow> None | Some left \<Rightarrow> Some (ANode centre left right))
      else
        if value_key > centre_to_max centre then
          Some (ANode (pair_centre centre value_key) (ANode centre left right) (ALeaf v))
        else
          (case atree_insert get_key merge_values right v of
             None \<Rightarrow> None | Some right \<Rightarrow> Some (ANode centre left right)))"

fun atree_insert_rev :: "('e \<Rightarrow> u64) \<Rightarrow> 'e merge \<Rightarrow> 'e atree \<Rightarrow> 'e \<Rightarrow> 'e atree option" where
  "atree_insert_rev get_key merge_values (ALeaf e) v =
     (let value_key = get_key v; atree_key = get_key e in
      if value_key = atree_key then map_option ALeaf (merge_values v e)
      else if value_key < atree_key then Some (ANode (pair_centre value_key atree_key) (ALeaf v) (ALeaf e))
      else Some (ANode (pair_centre atree_key value_key) (ALeaf e) (ALeaf v)))"
| "atree_insert_rev get_key merge_values (ANode centre left right) v =
     (let value_key = get_key v in
      if value_key < centre then
        if value_key < centre_to_min centre then
          Some (ANode (pair_centre value_key centre) (ALeaf v) (ANode centre left right))
        else
          (case atree_insert_rev get_key merge_values left v of
             None \<Rightarrow> None | Some left \<Rightarrow> Some (ANode centre left right))
      else
        if value_key > centre_to_max centre then
          Some (ANode (pair_centre centre value_key) (ANode centre left right) (ALeaf v))
        else
          (case atree_insert_rev get_key merge_values right v of
             None \<Rightarrow> None | Some right \<Rightarrow> Some (ANode centre left right)))"

definition cuex_atree_insert :: "('e \<Rightarrow> u64) \<Rightarrow> 'e atree option \<Rightarrow> 'e \<Rightarrow> 'e atree option" where
  "cuex_atree_insert get_key tree v =
     (case tree of None \<Rightarrow> Some (ALeaf v) | Some tree \<Rightarrow> atree_insert get_key merge_as_first tree v)"

definition cuex_atree_replace :: "('e \<Rightarrow> u64) \<Rightarrow> 'e atree option \<Rightarrow> 'e \<Rightarrow> 'e atree option" where
  "cuex_atree_replace get_key tree v =
     (case tree of None \<Rightarrow> Some (ALeaf v) | Some tree \<Rightarrow> atree_insert get_key merge_as_second tree v)"

definition cuex_atree_deep_insert ::
  "('e \<Rightarrow> u64) \<Rightarrow> 'e merge \<Rightarrow> 'e atree option \<Rightarrow> 'e \<Rightarrow> 'e atree option" where
  "cuex_atree_deep_insert get_key merge_values tree v =
     (case tree of None \<Rightarrow> Some (ALeaf v) | Some tree \<Rightarrow> atree_insert get_key merge_values tree v)"

text \<open>The second component is the erased element, if there was one.\<close>

fun atree_erase :: "('e \<Rightarrow> u64) \<Rightarrow> 'e atree \<Rightarrow> u64 \<Rightarrow> 'e atree option \<times> 'e option" where
  "atree_erase get_key (ALeaf e) key = (if key = get_key e then (None, Some e) else (Some (ALeaf e), None))"
| "atree_erase get_key (ANode centre left right) key =
     (if key < centre then
        if key < centre_to_min centre then (Some (ANode centre left right), None)
        else
          (case atree_erase get_key left key of
             (None, elt) \<Rightarrow> (Some right, elt)
           | (Some new_left, elt) \<Rightarrow> (Some (ANode centre new_left right), elt))
      else
        if key > centre_to_max centre then (Some (ANode centre left right), None)
        else
          (case atree_erase get_key right key of
             (None, elt) \<Rightarrow> (Some left, elt)
           | (Some new_right, elt) \<Rightarrow> (Some (ANode centre left new_right), elt)))"

definition cuex_atree_erase :: "('e \<Rightarrow> u64) \<Rightarrow> 'e atree option \<Rightarrow> u64 \<Rightarrow> 'e atree option" where
  "cuex_atree_erase get_key tree key =
     (case tree of None \<Rightarrow> None | Some tree \<Rightarrow> fst (atree_erase get_key tree key))"

definition cuex_atree_find_erase ::
  "('e \<Rightarrow> u64) \<Rightarrow> 'e atree option \<Rightarrow> u64 \<Rightarrow> 'e option \<times> 'e atree option" where
  "cuex_atree_find_erase get_key tree key =
     (case tree of None \<Rightarrow> (None, None)
      | Some tree \<Rightarrow> (case atree_erase get_key tree key of (res, elt) \<Rightarrow> (elt, res)))"

section \<open>Union and intersection\<close>

fun atree_union :: "('e \<Rightarrow> u64) \<Rightarrow> 'e merge \<Rightarrow> 'e atree \<Rightarrow> 'e atree \<Rightarrow> 'e atree option" where
  "atree_union get_key merge_values (ALeaf e0) tree1 = atree_insert_rev get_key merge_values tree1 e0"
| "atree_union get_key merge_values (ANode c l r) (ALeaf e1) = atree_insert get_key merge_values (ANode c l r) e1"
| "atree_union get_key merge_values (ANode centre0 left0 right0) (ANode centre1 left1 right1) =
     (if centre0 = centre1 then
        (case atree_union get_key merge_values left0 left1 of
           None \<Rightarrow> None
         | Some left \<Rightarrow>
             (case atree_union get_key merge_values right0 right1 of
                None \<Rightarrow> None | Some right \<Rightarrow> Some (ANode centre0 left right)))
      else if centre0 < centre1 then
        if centre_to_max centre0 < centre1 then
          if centre_to_max centre0 < centre_to_min centre1 then
            Some (ANode (pair_centre centre0 centre1) (ANode centre0 left0 right0) (ANode centre1 left1 right1))
          else
            (case atree_union get_key merge_values (ANode centre0 left0 right0) left1 of
               None \<Rightarrow> None | Some left \<Rightarrow> Some (ANode centre1 left right1))
        else
          (case atree_union get_key merge_values right0 (ANode centre1 left1 right1) of
             None \<Rightarrow> None | Some right \<Rightarrow> Some (ANode centre0 left0 right))
      else
        if centre_to_max centre1 < centre0 then
          if centre_to_max centre1 < centre_to_min centre0 then
            Some (ANode (pair_centre centre1 centre0) (ANode centre1 left1 right1) (ANode centre0 left0 right0))
          else
            (case atree_union get_key merge_values left0 (ANode centre1 left1 right1) of
               None \<Rightarrow> None | Some left \<Rightarrow> Some (ANode centre0 left right0))
        else
          (case atree_union get_key merge_values (ANode centre0 left0 right0) right1 of
             None \<Rightarrow> None | Some right \<Rightarrow> Some (ANode centre1 left1 right)))"

definition cuex_atree_deep_union ::
  "('e \<Rightarrow> u64) \<Rightarrow> 'e merge \<Rightarrow> 'e atree option \<Rightarrow> 'e atree option \<Rightarrow> 'e atree option" where
  "cuex_atree_deep_union get_key merge_values tree0 tree1 =
     (case (tree0, tree1) of
        (None, _) \<Rightarrow> tree1
      | (_, None) \<Rightarrow> tree0
      | (Some tree0, Some tree1) \<Rightarrow> atree_union get_key merge_values tree0 tree1)"

definition cuex_atree_left_union ::
  "('e \<Rightarrow> u64) \<Rightarrow> 'e atree option \<Rightarrow> 'e atree option \<Rightarrow> 'e atree option" where
  "cuex_atree_left_union get_key tree0 tree1 =
     (case (tree0, tree1) of
        (None, _) \<Rightarrow> tree1
      | (_, None) \<Rightarrow> tree0
      | (Some tree0, Some tree1) \<Rightarrow> atree_union get_key merge_as_first tree0 tree1)"

definition cuex_atree_disjoint_union ::
  "('e \<Rightarrow> u64) \<Rightarrow> 'e atree option \<Rightarrow> 'e atree option \<Rightarrow> 'e atree option" where
  "cuex_atree_disjoint_union get_key tree0 tree1 =
     (case (tree0, tree1) of
        (None, _) \<Rightarrow> tree1
      | (_, None) \<Rightarrow> tree0
      | (Some tree0, Some tree1) \<Rightarrow> atree_union get_key merge_disjoin tree0 tree1)"

fun atree_isecn :: "('e \<Rightarrow> u64) \<Rightarrow> 'e merge \<Rightarrow> 'e atree \<Rightarrow> 'e atree \<Rightarrow> 'e atree option" where
  "atree_isecn get_key merge_values (ALeaf e0) tree1 =
     (case cuex_atree_find get_key (Some tree1) (get_key e0) of
        Some leaf1 \<Rightarrow> map_option ALeaf (merge_values e0 leaf1) | None \<Rightarrow> None)"
| "atree_isecn get_key merge_values (ANode c l r) (ALeaf e1) =
     (case cuex_atree_find get_key (Some (ANode c l r)) (get_key e1) of
        Some leaf0 \<Rightarrow> map_option ALeaf (merge_values leaf0 e1) | None \<Rightarrow> None)"
| "atree_isecn get_key merge_values (ANode centre0 left0 right0) (ANode centre1 left1 right1) =
     (if centre0 = centre1 then
        (case (atree_isecn get_key merge_values left0 left1, atree_isecn get_key merge_values right0 right1) of
           (None, new_right) \<Rightarrow> new_right
         | (Some new_left, None) \<Rightarrow> Some new_left
         | (Some new_left, Some new_right) \<Rightarrow> Some (ANode centre0 new_left new_right))
      else if centre0 < centre1 then
        if centre_to_max centre0 < centre1 then
          if centre_to_max centre0 < centre_to_min centre1 then None
          else atree_isecn get_key merge_values (ANode centre0 left0 right0) left1
        else atree_isecn get_key merge_values right0 (ANode centre1 left1 right1)
      else
        if centre_to_max centre1 < centre0 then
          if centre_to_max centre1 < centre_to_min centre0 then None
          else atree_isecn get_key merge_values left0 (ANode centre1 left1 right1)
        else atree_isecn get_key merge_values (ANode centre0 left0 right0) right1)"

definition cuex_atree_deep_isecn ::
  "('e \<Rightarrow> u64) \<Rightarrow> 'e merge \<Rightarrow> 'e atree option \<Rightarrow> 'e atree option \<Rightarrow> 'e atree option" where
  "cuex_atree_deep_isecn get_key merge_values tree0 tree1 =
     (case (tree0, tree1) of
        (None, _) \<Rightarrow> tree0
      | (_, None) \<Rightarrow> tree1
      | (Some tree0, Some tree1) \<Rightarrow> atree_isecn get_key merge_values tree0 tree1)"

definition cuex_atree_left_isecn ::
  "('e \<Rightarrow> u64) \<Rightarrow> 'e atree option \<Rightarrow> 'e atree option \<Rightarrow> 'e atree option" where
  "cuex_atree_left_isecn get_key tree0 tree1 =
     (case (tree0, tree1) of
        (None, _) \<Rightarrow> tree0
      | (_, None) \<Rightarrow> tree1
      | (Some tree0, Some tree1) \<Rightarrow> atree_isecn get_key merge_as_first tree0 tree1)"

section \<open>Comparison\<close>

fun atree_subseteq :: "('e \<Rightarrow> u64) \<Rightarrow> ('e \<Rightarrow> 'e \<Rightarrow> bool) \<Rightarrow> 'e atree \<Rightarrow> 'e atree \<Rightarrow> bool" where
  "atree_subseteq get_key value_subseteq (ALeaf e0) tree1 =
     (if ALeaf e0 = tree1 then True
      else (case cuex_atree_find get_key (Some tree1) (get_key e0) of
              Some leaf1 \<Rightarrow> value_subseteq e0 leaf1 | None \<Rightarrow> False))"
| "atree_subseteq get_key value_subseteq (ANode c l r) (ALeaf e1) = False"
| "atree_subseteq get_key value_subseteq (ANode centre0 left0 right0) (ANode centre1 left1 right1) =
     (if ANode centre0 left0 right0 = ANode centre1 left1 right1 then True
      else if centre0 = centre1 then
        if \<not> atree_subseteq get_key value_subseteq left0 left1 then False
        else atree_subseteq get_key value_subseteq right0 right1
      else if centre0 < centre1 then
        if centre_to_min centre1 < centre0
        then atree_subseteq get_key value_subseteq (ANode centre0 left0 right0) left1 else False
      else
        if centre_to_max centre1 > centre0
        then atree_subseteq get_key value_subseteq (ANode centre0 left0 right0) right1 else False)"

definition cuex_atree_deep_subseteq ::
  "('e \<Rightarrow> u64) \<Rightarrow> ('e \<Rightarrow> 'e \<Rightarrow> bool) \<Rightarrow> 'e atree option \<Rightarrow> 'e atree option \<Rightarrow> bool" where
  "cuex_atree_deep_subseteq get_key value_subseteq tree0 tree1 =
     (if tree0 = tree1 then True
      else (case (tree0, tree1) of
              (None, _) \<Rightarrow> True
            | (_, None) \<Rightarrow> False
            | (Some tree0, Some tree1) \<Rightarrow> atree_subseteq get_key value_subseteq tree0 tree1))"

definition cuex_atree_subseteq :: "('e \<Rightarrow> u64) \<Rightarrow> 'e atree option \<Rightarrow> 'e atree option \<Rightarrow> bool" where
  "cuex_atree_subseteq get_key tree0 tree1 =
     (if tree0 = tree1 then True
      else (case (tree0, tree1) of
              (None, _) \<Rightarrow> True
            | (_, None) \<Rightarrow> False
            | (Some tree0, Some tree1) \<Rightarrow> atree_subseteq get_key subseteq_true tree0 tree1))"

fun atree_order ::
  "('e \<Rightarrow> u64) \<Rightarrow> ('e \<Rightarrow> 'e \<Rightarrow> bool) \<Rightarrow> ('e \<Rightarrow> 'e \<Rightarrow> cu_order) \<Rightarrow> 'e atree \<Rightarrow> 'e atree \<Rightarrow> cu_order" where
  "atree_order get_key value_subseteq value_order (ALeaf e0) (ALeaf e1) =
     (if ALeaf e0 = ALeaf e1 then cu_order_eq
      else if get_key e0 = get_key e1 then value_order e0 e1 else cu_order_none)"
| "atree_order get_key value_subseteq value_order (ALeaf e0) (ANode c l r) =
     (case cuex_atree_find get_key (Some (ANode c l r)) (get_key e0) of
        Some leaf1 \<Rightarrow> if value_subseteq e0 leaf1 then cu_order_lt else cu_order_none
      | None \<Rightarrow> cu_order_none)"
| "atree_order get_key value_subseteq value_order (ANode c l r) (ALeaf e1) =
     (case cuex_atree_find get_key (Some (ANode c l r)) (get_key e1) of
        Some leaf0 \<Rightarrow> if value_subseteq e1 leaf0 then cu_order_gt else cu_order_none
      | None \<Rightarrow> cu_order_none)"
| "atree_order get_key value_subseteq value_order (ANode centre0 left0 right0) (ANode centre1 left1 right1) =
     (if ANode centre0 left0 right0 = ANode centre1 left1 right1 then cu_order_eq
      else if centre0 = centre1 then
        (let left_order = atree_order get_key value_subseteq value_order left0 left1 in
         if left_order = cu_order_none then cu_order_none
         else
           (let right_order = atree_order get_key value_subseteq value_order right0 right1 in
            if left_order = right_order then left_order
            else if left_order = cu_order_eq then right_order
            else if right_order = cu_order_eq then left_order
            else cu_order_none))
      else if centre0 < centre1 then
        if centre_to_max centre0 < centre1 then
          if centre_to_max centre0 < centre_to_min centre1 then cu_order_none
          else if atree_subseteq get_key value_subseteq (ANode centre0 left0 right0) left1
          then cu_order_lt else cu_order_none
        else if atree_subseteq get_key value_subseteq (ANode centre1 left1 right1) right0
        then cu_order_gt else cu_order_none
      else
        if centre_to_max centre1 < centre0 then
          if centre_to_max centre1 < centre_to_min centre0 then cu_order_none
          else if atree_subseteq get_key value_subseteq (ANode centre1 left1 right1) left0
          then cu_order_gt else cu_order_none
        else if atree_subseteq get_key value_subseteq (ANode centre0 left0 right0) right1
        then cu_order_lt else cu_order_none)"

definition cuex_atree_order :: "('e \<Rightarrow> u64) \<Rightarrow> 'e atree option \<Rightarrow> 'e atree option \<Rightarrow> cu_order" where
  "cuex_atree_order get_key tree0 tree1 =
     (if tree0 = tree1 then cu_order_eq
      else (case (tree0, tree1) of
              (None, _) \<Rightarrow> cu_order_lt
            | (_, None) \<Rightarrow> cu_order_gt
            | (Some tree0, Some tree1) \<Rightarrow> atree_order get_key subseteq_true order_eq tree0 tree1))"

section \<open>Iteration\<close>

fun atree_iter :: "'e atree \<Rightarrow> ('e \<Rightarrow> 's \<Rightarrow> 's) \<Rightarrow> 's \<Rightarrow> 's" where
  "atree_iter (ALeaf e) f s = f e s"
| "atree_iter (ANode centre left right) f s = atree_iter right f (atree_iter left f s)"

definition cuex_atree_iter :: "'e atree option \<Rightarrow> ('e \<Rightarrow> 's \<Rightarrow> 's) \<Rightarrow> 's \<Rightarrow> 's" where
  "cuex_atree_iter tree f s = (case tree of None \<Rightarrow> s | Some tree \<Rightarrow> atree_iter tree f s)"

fun atree_conj :: "'e atree \<Rightarrow> ('e \<Rightarrow> 's \<Rightarrow> bool \<times> 's) \<Rightarrow> 's \<Rightarrow> bool \<times> 's" where
  "atree_conj (ALeaf e) f s = f e s"
| "atree_conj (ANode centre left right) f s =
     (case atree_conj left f s of (False, s) \<Rightarrow> (False, s) | (True, s) \<Rightarrow> atree_conj right f s)"

definition cuex_atree_conj :: "'e atree option \<Rightarrow> ('e \<Rightarrow> 's \<Rightarrow> bool \<times> 's) \<Rightarrow> 's \<Rightarrow> bool \<times> 's" where
  "cuex_atree_conj tree f s = (case tree of None \<Rightarrow> (True, s) | Some tree \<Rightarrow> atree_conj tree f s)"

fun atree_image ::
  "'e atree \<Rightarrow> ('e \<Rightarrow> 'f) \<Rightarrow> ('f \<Rightarrow> u64) \<Rightarrow> 'f atree option \<Rightarrow> 'f atree option" where
  "atree_image (ALeaf e) f get_key accu =
     (case accu of None \<Rightarrow> Some (ALeaf (f e)) | Some accu \<Rightarrow> atree_insert get_key merge_as_first accu (f e))"
| "atree_image (ANode centre left right) f get_key accu =
     atree_image right f get_key (atree_image left f get_key accu)"

definition cuex_atree_image ::
  "'e atree option \<Rightarrow> ('e \<Rightarrow> 'f) \<Rightarrow> ('f \<Rightarrow> u64) \<Rightarrow> 'f atree option" where
  "cuex_atree_image tree f get_key =
     (case tree of None \<Rightarrow> None | Some tree \<Rightarrow> atree_image tree f get_key None)"

fun atree_isokey_image :: "'e atree \<Rightarrow> ('e \<Rightarrow> 'f) \<Rightarrow> 'f atree" where
  "atree_isokey_image (ALeaf e) f = ALeaf (f e)"
| "atree_isokey_image (ANode centre left right) f =
     ANode centre (atree_isokey_image left f) (atree_isokey_image right f)"

definition cuex_atree_isokey_image :: "'e atree option \<Rightarrow> ('e \<Rightarrow> 'f) \<Rightarrow> 'f atree option" where
  "cuex_atree_isokey_image tree f =
     (case tree of None \<Rightarrow> None | Some tree \<Rightarrow> Some (atree_isokey_image tree f))"

text \<open>
  The state of an iterator is a stack of trees, here a list with the top in front; the null pointer at its
  bottom, which marks the end, is the empty list.
\<close>

definition cuex_atree_itr_size :: "'e atree option \<Rightarrow> nat" where
  "cuex_atree_itr_size tree = 16 + (cuex_atree_depth tree + 1) * 8"

definition cuex_atree_itr_init :: "'e atree option \<Rightarrow> 'e atree list" where
  "cuex_atree_itr_init tree = (case tree of None \<Rightarrow> [] | Some tree \<Rightarrow> [tree])"

fun atree_itr_descend :: "'e atree \<Rightarrow> 'e atree list \<Rightarrow> 'e \<times> 'e atree list" where
  "atree_itr_descend (ALeaf e) sp = (e, sp)"
| "atree_itr_descend (ANode centre left right) sp = atree_itr_descend left (right # sp)"

definition cuex_atree_itr_get :: "'e atree list \<Rightarrow> 'e option \<times> 'e atree list" where
  "cuex_atree_itr_get sp =
     (case sp of
        [] \<Rightarrow> (None, [])
      | tree # sp \<Rightarrow> (case atree_itr_descend tree sp of (e, sp) \<Rightarrow> (Some e, sp)))"

end
