(* ===== verification/AtreeContents.thy ===== *)
theory AtreeContents
  imports Atree
begin

text \<open>
  The invariant of the trees of \<^verbatim>\<open>cuex/atree.c\<close> and the finite maps they represent, for keys below \<open>2 ^ 63\<close>:
  the keys on the left of a branch are the keys of its block below the centre, those on the right the others.
\<close>

section \<open>Blocks of centres\<close>

abbreviation in_block :: "u64 \<Rightarrow> u64 \<Rightarrow> bool" where
  "in_block c k \<equiv> block (lowest c) k = block (lowest c) c"

lemma centre_mask: "c \<noteq> 0 \<Longrightarrow> c XOR (c - 1) = (mask (Suc (lowest c)) :: u64)"
  by (rule xor_minus_one)

lemma unat_centre_min:
  assumes "c \<noteq> 0"
  shows "unat (centre_to_min c) = block (lowest c) c * 2 ^ Suc (lowest c)"
proof -
  have m: "centre_to_min c = c AND NOT (mask (Suc (lowest c)))"
    by (simp only: centre_to_min_def Let_def centre_mask [OF assms])
  have "centre_to_min c + take_bit (Suc (lowest c)) c = centre_to_min c OR take_bit (Suc (lowest c)) c"
    unfolding m by (rule disjunctive_add) (auto simp: bit_simps)
  also have "\<dots> = c" unfolding m by (rule word_eq_bitI) (auto simp: bit_simps)
  finally have "centre_to_min c + take_bit (Suc (lowest c)) c = c" .
  moreover have "take_bit (Suc (lowest c)) c \<le> c" by (simp add: word_le_nat_alt unat_take_bit)
  ultimately have "unat (centre_to_min c) = unat c - unat c mod 2 ^ Suc (lowest c)"
    by (metis add_diff_cancel_right' unat_sub unat_take_bit)
  then show ?thesis by (simp add: block_def minus_mod_eq_div_mult)
qed

lemma less_centre_min: "c \<noteq> 0 \<Longrightarrow> k < centre_to_min c \<longleftrightarrow> block (lowest c) k < block (lowest c) c"
  by (simp add: word_less_nat_alt unat_centre_min block_def div_less_iff_less_mult del: power_Suc)

lemma unat_centre_max:
  assumes "c \<noteq> 0"
  shows "Suc (unat (centre_to_max c)) = (block (lowest c) c + 1) * 2 ^ Suc (lowest c)"
proof -
  have "centre_to_max c = centre_to_min c + mask (Suc (lowest c))"
  proof -
    have "centre_to_max c = centre_to_min c OR mask (Suc (lowest c))"
      by (rule word_eq_bitI) (auto simp: centre_to_min_def centre_to_max_def Let_def centre_mask [OF assms] bit_simps)
    also have "\<dots> = centre_to_min c + mask (Suc (lowest c))"
      by (rule disjunctive_add [symmetric]) (auto simp: centre_to_min_def Let_def centre_mask [OF assms] bit_simps)
    finally show ?thesis .
  qed
  moreover have "unat (mask (Suc (lowest c)) :: u64) = 2 ^ Suc (lowest c) - 1"
  proof -
    have "unat (mask (Suc (lowest c)) :: u64) = mask (Suc (lowest c))"
      by (rule bit_eqI) (use lowest_less [OF assms] in \<open>auto simp: bit_simps\<close>)
    then show ?thesis by (simp add: mask_eq_exp_minus_1)
  qed
  moreover have "unat (centre_to_min c) + (2 ^ Suc (lowest c) - 1) < 2 ^ 64"
  proof -
    have "(block (lowest c) c + 1) * 2 ^ Suc (lowest c) \<le> 2 ^ 64"
    proof -
      have "(2::nat) ^ 64 = 2 ^ (63 - lowest c) * 2 ^ Suc (lowest c)"
        using lowest_less [OF assms] by (simp flip: power_add add: power_Suc [symmetric] del: power_Suc)
      moreover from this have "block (lowest c) c < 2 ^ (63 - lowest c)"
        using unat_u64_bound [of c] by (simp add: block_def div_less_iff_less_mult del: power_Suc)
      ultimately show ?thesis by (metis Suc_eq_plus1 Suc_leI mult_le_mono1)
    qed
    then show ?thesis by (simp add: unat_centre_min [OF assms] algebra_simps)
  qed
  ultimately have "unat (centre_to_max c) = unat (centre_to_min c) + (2 ^ Suc (lowest c) - 1)"
    by (simp add: unat_word_ariths)
  then show ?thesis by (simp add: unat_centre_min [OF assms])
qed

lemma greater_centre_max: "c \<noteq> 0 \<Longrightarrow> centre_to_max c < k \<longleftrightarrow> block (lowest c) c < block (lowest c) k"
proof -
  assume c: "c \<noteq> 0"
  have "centre_to_max c < k \<longleftrightarrow> Suc (unat (centre_to_max c)) \<le> unat k" by (simp add: word_less_nat_alt Suc_le_eq)
  also have "\<dots> \<longleftrightarrow> block (lowest c) c + 1 \<le> unat k div 2 ^ Suc (lowest c)"
    unfolding unat_centre_max [OF c] by (subst less_eq_div_iff_mult_less_eq) simp_all
  finally show ?thesis by (simp add: block_def Suc_le_eq)
qed

lemmas centre_range = less_centre_min greater_centre_max

text \<open>Keys that have no highest bit, for which the centre of two keys is what it should be.\<close>

definition small_key :: "u64 \<Rightarrow> bool" where
  "small_key k \<longleftrightarrow> \<not> bit k 63"

definition in_left :: "u64 \<Rightarrow> u64 \<Rightarrow> bool" where
  "in_left c k \<longleftrightarrow> in_block c k \<and> k < c"

definition in_right :: "u64 \<Rightarrow> u64 \<Rightarrow> bool" where
  "in_right c k \<longleftrightarrow> in_block c k \<and> c \<le> k"

lemma pair_centre_tight:
  assumes "top_diff a b h" "small_key a" "small_key b"
  shows "pair_centre a b = tight_join a b" "h < 63"
proof -
  have "h \<noteq> 63" using assms by (auto simp: top_diff_def small_key_def)
  then show h: "h < 63" using top_diff_bound [OF assms(1)] by simp
  have d: "cu_uint64_dcover (a XOR b) = mask (Suc h)"
    using dcover_top_diff [OF assms(1)] by (simp add: cu_uintptr_dcover_def)
  have "(mask (Suc h) + 1 :: u64) = 2 ^ Suc h" by (simp add: mask_eq_exp_minus_1)
  then have "drop_bit 1 (mask (Suc h) + 1 :: u64) = 2 ^ h"
    using h by (intro word_eq_bitI) (auto simp: bit_simps)
  moreover have "drop_bit 1 (mask (Suc h)) + 1 = (2 ^ h :: u64)"
  proof -
    have "drop_bit 1 (mask (Suc h)) = (mask h :: u64)"
      using h by (intro word_eq_bitI) (auto simp: bit_simps)
    then show ?thesis by (simp add: mask_eq_exp_minus_1)
  qed
  ultimately show "pair_centre a b = tight_join a b"
    by (simp add: pair_centre_def tight_join_def d dcover_top_diff [OF assms(1)])
qed

text \<open>The centre of two keys separates them, in the smallest block that holds both.\<close>

lemma pair_centre_separates:
  assumes "a < b" "small_key a" "small_key b"
  shows "pair_centre a b \<noteq> 0" "in_left (pair_centre a b) a" "in_right (pair_centre a b) b" "small_key (pair_centre a b)"
proof -
  obtain h where h: "top_diff a b h" using top_diff_exists assms(1) by (metis less_irrefl)
  note p = pair_centre_tight [OF h assms(2,3)] and t = tight_join_props [OF h] tight_join_between [OF assms(1) h]
  show "pair_centre a b \<noteq> 0" using t(4) p(1) by auto
  show "in_left (pair_centre a b) a" "in_right (pair_centre a b) b"
    using t by (simp_all add: in_left_def in_right_def p(1))
  show "small_key (pair_centre a b)"
    using p tight_join_bits [OF h] assms(2) by (auto simp: small_key_def)
qed

lemma pair_centre_sym: "pair_centre a b = pair_centre b a"
proof (cases "a = b")
  case False
  then obtain h where h: "top_diff a b h" using top_diff_exists by blast
  let ?msk = "cu_uint64_dcover (a XOR b)"
  have d: "?msk = mask (Suc h)" using dcover_top_diff [OF h] by (simp add: cu_uintptr_dcover_def)
  have "a AND NOT ?msk = b AND NOT ?msk"
    unfolding d by (rule word_eq_bitI) (use h in \<open>auto simp: bit_simps top_diff_def\<close>)
  then show ?thesis by (simp add: pair_centre_def xor.commute)
qed simp

text \<open>The centre depends on a key only through a block that does not hold the other.\<close>

lemma pair_centre_block:
  assumes "block z b = block z b'" "block z a \<noteq> block z b" "small_key a" "small_key b" "small_key b'"
  shows "pair_centre a b = pair_centre a b'"
proof -
  obtain h where h: "top_diff a b h" using top_diff_exists assms(2) by metis
  have zh: "z < h"
  proof (rule ccontr)
    assume "\<not> z < h"
    then have "block z a = block z b" using h by (auto simp: block_eq_iff_bits top_diff_def)
    then show False using assms(2) by simp
  qed
  have same: "bit b n \<longleftrightarrow> bit b' n" if "h \<le> n" for n using assms(1) that zh by (auto simp: block_eq_iff_bits)
  then have h': "top_diff a b' h" using h by (auto simp: top_diff_def)
  have "tight_join a b = tight_join a b'"
    by (rule word_eq_bitI) (simp add: tight_join_bits [OF h] tight_join_bits [OF h'])
  then show ?thesis using pair_centre_tight(1) [OF h assms(3,4)] pair_centre_tight(1) [OF h' assms(3,5)] by simp
qed

text \<open>Two blocks are disjoint or one is inside a half of the other.\<close>

lemma block_trans:
  "in_block c a \<Longrightarrow> block z a = block z b \<Longrightarrow> z \<le> lowest c \<Longrightarrow> in_block c b"
  using block_mono by metis

lemma nested_left:
  assumes "c0 \<noteq> 0" "c1 \<noteq> 0" "centre_to_max c0 < c1" "\<not> centre_to_max c0 < centre_to_min c1" "in_block c0 k"
  shows "in_left c1 k"
proof -
  let ?m = "centre_to_max c0"
  have m0: "in_block c0 ?m"
  proof -
    define P where "P = (2::nat) ^ Suc (lowest c0)"
    have "Suc (unat ?m) = (block (lowest c0) c0 + 1) * P" unfolding P_def by (rule unat_centre_max [OF assms(1)])
    moreover have "0 < P" by (simp add: P_def)
    ultimately have "unat ?m = block (lowest c0) c0 * P + (P - 1)" by simp
    then have "unat ?m div P = block (lowest c0) c0"
      using \<open>0 < P\<close> by (intro div_nat_eqI) (simp_all add: algebra_simps)
    then show ?thesis unfolding block_def [of "lowest c0" ?m] P_def .
  qed
  have m1: "in_block c1 ?m"
  proof -
    have "\<not> block (lowest c1) ?m < block (lowest c1) c1" using assms(4) less_centre_min [OF assms(2)] by simp
    moreover have "block (lowest c1) ?m \<le> block (lowest c1) c1"
      using assms(3) by (simp add: block_def word_less_nat_alt div_le_mono)
    ultimately show ?thesis by simp
  qed
  have le: "k \<le> ?m" using greater_centre_max [OF assms(1), of k] assms(5) by (simp add: not_less [symmetric])
  have "lowest c0 \<le> lowest c1"
  proof (rule ccontr)
    assume "\<not> lowest c0 \<le> lowest c1"
    then have "in_block c0 c1" using block_trans [OF m0, of "lowest c1" c1] m1 by simp
    then show False using greater_centre_max [OF assms(1), of c1] assms(3) by simp
  qed
  then have "in_block c1 k" using block_trans [OF m1, of "lowest c0" k] m0 assms(5) by simp
  then show ?thesis using le assms(3) by (auto simp: in_left_def)
qed

lemma nested_right:
  assumes "c0 \<noteq> 0" "c1 \<noteq> 0" "c0 < c1" "\<not> centre_to_max c0 < c1" "in_block c1 k"
  shows "in_right c0 k" "lowest c1 < lowest c0"
proof -
  have b: "in_block c0 c1"
  proof -
    have "\<not> block (lowest c0) c0 < block (lowest c0) c1" using assms(4) greater_centre_max [OF assms(1)] by simp
    moreover have "block (lowest c0) c0 \<le> block (lowest c0) c1"
      using assms(3) by (simp add: block_def word_less_nat_alt div_le_mono)
    ultimately show ?thesis by simp
  qed
  show lt: "lowest c1 < lowest c0"
  proof (rule ccontr)
    assume n: "\<not> lowest c1 < lowest c0"
    have ne: "lowest c1 \<noteq> lowest c0" using same_block_unique [of c0 c1] b assms(3) by (metis less_irrefl)
    then have "2 ^ Suc (lowest c0) dvd unat c1"
    proof -
      have "unat c1 = (2 * block (lowest c1) c1 + 1) * 2 ^ lowest c1"
        by (rule lowest_pos [OF refl lowest_less [OF assms(2)]])
      moreover have "(2::nat) ^ Suc (lowest c0) dvd 2 ^ lowest c1" using n ne by (intro le_imp_power_dvd) simp
      ultimately show ?thesis by (simp only: dvd_mult)
    qed
    then have "unat c1 = block (lowest c0) c1 * 2 ^ Suc (lowest c0)" unfolding block_def by (rule dvd_div_mult_self [symmetric])
    then have "c1 = centre_to_min c0" using b unat_centre_min [OF assms(1)] by (simp add: word_unat_eq_iff)
    moreover have "centre_to_min c0 \<le> c0" using less_centre_min [OF assms(1), of c0] by simp
    ultimately show False using assms(3) by simp
  qed
  then have "in_block c0 k" using block_trans [OF b, of "lowest c1" k] assms(5) by simp
  moreover have "c0 \<le> k"
  proof -
    have u: "unat c0 = (2 * block (lowest c0) c0 + 1) * 2 ^ lowest c0"
      by (rule lowest_pos [OF refl lowest_less [OF assms(1)]])
    have "unat c1 div 2 ^ lowest c0 = unat k div 2 ^ lowest c0"
      using assms(5) lt nat_div_pow2_mono [of "unat c1" "Suc (lowest c1)" "unat k" "lowest c0"] by (simp add: block_def)
    moreover have "2 * block (lowest c0) c0 + 1 \<le> unat c1 div 2 ^ lowest c0"
      using assms(3) u by (simp add: word_less_nat_alt less_eq_div_iff_mult_less_eq)
    ultimately show ?thesis unfolding word_le_nat_alt u by (simp add: less_eq_div_iff_mult_less_eq)
  qed
  ultimately show "in_right c0 k" by (simp add: in_right_def)
qed

end
