(* ===== verification/AtreeMap.thy ===== *)
theory AtreeMap
  imports AtreeContents
begin

text \<open>
  The operations of \<^verbatim>\<open>cuex/atree.c\<close> on the finite maps the trees represent: lookup, insertion, erasure, union and intersection
  with a callback for elements with the same key.
\<close>

section \<open>The invariant\<close>

fun atree_leaves :: "'e atree \<Rightarrow> 'e list" where
  "atree_leaves (ALeaf e) = [e]"
| "atree_leaves (ANode centre left right) = atree_leaves left @ atree_leaves right"

definition atree_keys :: "('e \<Rightarrow> u64) \<Rightarrow> 'e atree \<Rightarrow> u64 set" where
  "atree_keys get_key t = get_key ` set (atree_leaves t)"

definition atree_lookup :: "('e \<Rightarrow> u64) \<Rightarrow> 'e atree \<Rightarrow> u64 \<Rightarrow> 'e option" where
  "atree_lookup get_key t = map_of (map (\<lambda>e. (get_key e, e)) (atree_leaves t))"

fun atree_ok :: "('e \<Rightarrow> u64) \<Rightarrow> 'e atree \<Rightarrow> bool" where
  "atree_ok get_key (ALeaf e) \<longleftrightarrow> small_key (get_key e)"
| "atree_ok get_key (ANode centre left right) \<longleftrightarrow>
     centre \<noteq> 0 \<and> small_key centre \<and> atree_ok get_key left \<and> atree_ok get_key right \<and>
     (\<forall>key \<in> atree_keys get_key left. in_left centre key) \<and> (\<forall>key \<in> atree_keys get_key right. in_right centre key)"

lemma atree_keys_simps [simp]:
  "atree_keys get_key (ALeaf e) = {get_key e}"
  "atree_keys get_key (ANode centre left right) = atree_keys get_key left \<union> atree_keys get_key right"
  by (auto simp: atree_keys_def)

lemma atree_keys_ne: "atree_keys get_key t \<noteq> {}"
  by (induction t) auto

lemma atree_small: "atree_ok get_key t \<Longrightarrow> key \<in> atree_keys get_key t \<Longrightarrow> small_key key"
  by (induction t) auto

lemma atree_lookup_dom: "dom (atree_lookup get_key t) = atree_keys get_key t"
  by (auto simp: atree_lookup_def atree_keys_def dom_map_of_conv_image_fst image_image)

lemma lookup_None: "atree_lookup get_key t key = None \<longleftrightarrow> key \<notin> atree_keys get_key t"
  using atree_lookup_dom [of get_key t] by (auto simp: domIff)

lemma lookup_key: "atree_lookup get_key t key = Some e \<Longrightarrow> get_key e = key"
  unfolding atree_lookup_def by (drule map_of_SomeD) auto

lemma lookup_leaf: "atree_lookup get_key (ALeaf e) key = (if key = get_key e then Some e else None)"
  by (simp add: atree_lookup_def)

lemma lookup_node:
  assumes "atree_ok get_key (ANode centre left right)"
  shows "atree_lookup get_key (ANode centre left right) key =
    (if key < centre then atree_lookup get_key left key else atree_lookup get_key right key)"
proof -
  have a: "atree_lookup get_key (ANode centre left right) = atree_lookup get_key right ++ atree_lookup get_key left"
    by (simp add: atree_lookup_def)
  have "atree_lookup get_key right key = None" if "key < centre"
    using assms that by (auto simp: lookup_None in_right_def)
  moreover have "atree_lookup get_key left key = None" if "\<not> key < centre"
    using assms that by (auto simp: lookup_None in_left_def)
  ultimately show ?thesis unfolding a by (simp add: map_add_def split: option.split)
qed

lemma outside_block:
  assumes "atree_ok get_key (ANode centre left right)" "\<not> in_block centre key"
  shows "atree_lookup get_key (ANode centre left right) key = None"
  using assms by (auto simp: lookup_None in_left_def in_right_def)

lemma find_lookup: "atree_ok get_key t \<Longrightarrow> atree_find get_key t key = atree_lookup get_key t key"
proof (induction t)
  case (ANode centre left right)
  have c: "centre \<noteq> 0" using ANode.prems by simp
  show ?case
  proof (cases "in_block centre key")
    case True
    then show ?thesis using ANode c lookup_node [OF ANode.prems] by (simp add: centre_range)
  next
    case False
    have "key < centre \<Longrightarrow> block (lowest centre) key \<le> block (lowest centre) centre"
      "\<not> key < centre \<Longrightarrow> block (lowest centre) centre \<le> block (lowest centre) key"
      by (simp_all add: block_def word_less_nat_alt div_le_mono)
    then have "atree_find get_key (ANode centre left right) key = None"
      using False c by (auto simp: centre_range)
    then show ?thesis using outside_block [OF ANode.prems False] by simp
  qed
qed (simp add: lookup_leaf)

lemma cuex_find_lookup: "atree_ok get_key t \<Longrightarrow> cuex_atree_find get_key (Some t) key = atree_lookup get_key t key"
  by (simp add: cuex_atree_find_def find_lookup)

text \<open>Joining two trees whose keys lie in disjoint blocks.\<close>

lemma join_ok:
  assumes "atree_ok get_key t0" "atree_ok get_key t1"
    and "\<And>k0 k1. k0 \<in> atree_keys get_key t0 \<Longrightarrow> k1 \<in> atree_keys get_key t1 \<Longrightarrow> k0 < k1 \<and> pair_centre k0 k1 = c"
  shows "atree_ok get_key (ANode c t0 t1)"
proof -
  have s: "c \<noteq> 0 \<and> small_key c \<and> in_left c k0 \<and> in_right c k1"
    if "k0 \<in> atree_keys get_key t0" "k1 \<in> atree_keys get_key t1" for k0 k1
    using pair_centre_separates [of k0 k1] assms(3) [OF that] atree_small [OF assms(1) that(1)] atree_small [OF assms(2) that(2)]
    by metis
  obtain a b where "a \<in> atree_keys get_key t0" "b \<in> atree_keys get_key t1"
    using atree_keys_ne [of get_key t0] atree_keys_ne [of get_key t1] by blast
  then show ?thesis using s assms(1,2) by auto
qed

lemma node_keys_block: "atree_ok get_key (ANode c l r) \<Longrightarrow> key \<in> atree_keys get_key (ANode c l r) \<Longrightarrow> in_block c key"
  by (auto simp: in_left_def in_right_def)

lemma join_below:
  assumes "atree_ok get_key (ANode c l r)" "small_key k" "k < centre_to_min c" "key \<in> atree_keys get_key (ANode c l r)"
  shows "k < key \<and> pair_centre k key = pair_centre k c"
proof -
  have c: "c \<noteq> 0" "small_key c" using assms(1) by simp_all
  have b: "block (lowest c) k < block (lowest c) c" using assms(3) by (simp add: less_centre_min [OF c(1)])
  note i = node_keys_block [OF assms(1,4)]
  have "k < key"
    using less_centre_min [OF c(1), of key] i assms(3) by (metis less_irrefl not_le order_less_le_trans)
  moreover have "pair_centre k c = pair_centre k key"
    by (rule pair_centre_block [of "lowest c"]) (use b i assms(2) c(2) atree_small [OF assms(1,4)] in simp_all)
  ultimately show ?thesis by simp
qed

lemma join_above:
  assumes "atree_ok get_key (ANode c l r)" "small_key k" "centre_to_max c < k" "key \<in> atree_keys get_key (ANode c l r)"
  shows "key < k \<and> pair_centre key k = pair_centre c k"
proof -
  have c: "c \<noteq> 0" "small_key c" using assms(1) by simp_all
  have b: "block (lowest c) c < block (lowest c) k" using assms(3) by (simp add: greater_centre_max [OF c(1)])
  note i = node_keys_block [OF assms(1,4)]
  have "key < k"
    using greater_centre_max [OF c(1), of key] i assms(3) by (metis less_irrefl not_le order_le_less_trans)
  moreover have "pair_centre k c = pair_centre k key"
    by (rule pair_centre_block [of "lowest c"]) (use b i assms(2) c(2) atree_small [OF assms(1,4)] in simp_all)
  ultimately show ?thesis by (simp add: pair_centre_sym)
qed

lemma join_disjoint:
  assumes "atree_ok get_key (ANode c0 l0 r0)" "atree_ok get_key (ANode c1 l1 r1)" "centre_to_max c0 < centre_to_min c1"
  shows "atree_ok get_key (ANode (pair_centre c0 c1) (ANode c0 l0 r0) (ANode c1 l1 r1))"
proof (rule join_ok [OF assms(1,2)])
  fix k0 k1
  assume k: "k0 \<in> atree_keys get_key (ANode c0 l0 r0)" "k1 \<in> atree_keys get_key (ANode c1 l1 r1)"
  have c: "c0 \<noteq> 0" "small_key c0" "c1 \<noteq> 0" "small_key c1" using assms(1,2) by simp_all
  have "c0 \<le> centre_to_max c0" using greater_centre_max [OF c(1), of c0] by simp
  then have "c0 < centre_to_min c1" using assms(3) by simp
  note b = join_below [OF assms(2) c(2) this k(2)]
  have "\<not> k1 < centre_to_min c1" using less_centre_min [OF c(3), of k1] node_keys_block [OF assms(2) k(2)] by simp
  then have "centre_to_max c0 < k1" using assms(3) by simp
  note a = join_above [OF assms(1) atree_small [OF assms(2) k(2)] this k(1)]
  show "k0 < k1 \<and> pair_centre k0 k1 = pair_centre c0 c1" using a b by simp
qed

section \<open>Merging\<close>

definition combine :: "'e merge \<Rightarrow> 'e option \<Rightarrow> 'e option \<Rightarrow> 'e option" where
  "combine m v0 v1 =
     (case v0 of None \<Rightarrow> v1 | Some e0 \<Rightarrow> (case v1 of None \<Rightarrow> Some e0 | Some e1 \<Rightarrow> m e0 e1))"

definition conflict :: "'e merge \<Rightarrow> (u64 \<Rightarrow> 'e option) \<Rightarrow> (u64 \<Rightarrow> 'e option) \<Rightarrow> bool" where
  "conflict m M0 M1 \<longleftrightarrow> (\<exists>k e0 e1. M0 k = Some e0 \<and> M1 k = Some e1 \<and> m e0 e1 = None)"

definition keeps_keys :: "('e \<Rightarrow> u64) \<Rightarrow> 'e merge \<Rightarrow> bool" where
  "keeps_keys get_key m \<longleftrightarrow> (\<forall>e0 e1 e. get_key e0 = get_key e1 \<and> m e0 e1 = Some e \<longrightarrow> get_key e = get_key e0)"

text \<open>The result of uniting two maps: null if a merge fails, else a tree of the combined entries.\<close>

definition unites ::
  "('e \<Rightarrow> u64) \<Rightarrow> 'e merge \<Rightarrow> (u64 \<Rightarrow> 'e option) \<Rightarrow> (u64 \<Rightarrow> 'e option) \<Rightarrow> 'e atree option \<Rightarrow> bool" where
  "unites get_key m M0 M1 res \<longleftrightarrow>
     (case res of
        None \<Rightarrow> conflict m M0 M1
      | Some t \<Rightarrow> atree_ok get_key t \<and> \<not> conflict m M0 M1 \<and> atree_lookup get_key t = (\<lambda>k. combine m (M0 k) (M1 k)))"

lemma unites_keys: "unites get_key m M0 M1 (Some t) \<Longrightarrow> atree_keys get_key t = dom M0 \<union> dom M1"
  unfolding atree_lookup_dom [symmetric]
  by (auto simp: unites_def combine_def conflict_def dom_def split: option.splits)

lemma unites_empty:
  assumes "atree_ok get_key t"
  shows "unites get_key m Map.empty (atree_lookup get_key t) (Some t)" "unites get_key m (atree_lookup get_key t) Map.empty (Some t)"
  using assms by (auto simp: unites_def conflict_def combine_def fun_eq_iff split: option.split)

text \<open>Maps that are split at a centre are united half by half.\<close>

definition split_at :: "u64 \<Rightarrow> (u64 \<Rightarrow> 'e option) \<Rightarrow> (u64 \<Rightarrow> 'e option) \<Rightarrow> u64 \<Rightarrow> 'e option" where
  "split_at c L R = (\<lambda>k. if k < c then L k else R k)"

definition halves :: "u64 \<Rightarrow> (u64 \<Rightarrow> 'e option) \<Rightarrow> (u64 \<Rightarrow> 'e option) \<Rightarrow> bool" where
  "halves c L R \<longleftrightarrow> (\<forall>k \<in> dom L. in_left c k) \<and> (\<forall>k \<in> dom R. in_right c k)"

lemma conflict_split:
  assumes "halves c L0 R0" "halves c L1 R1"
  shows "conflict m (split_at c L0 R0) (split_at c L1 R1) \<longleftrightarrow> conflict m L0 L1 \<or> conflict m R0 R1"
proof -
  have l: "k < c" if "L0 k = Some e" for k e using assms(1) that by (auto simp: halves_def in_left_def)
  have r: "\<not> k < c" if "R0 k = Some e" for k e
  proof -
    have "in_right c k" using assms(1) that unfolding halves_def by blast
    then show ?thesis by (simp add: in_right_def not_less)
  qed
  show ?thesis
  proof
    assume "conflict m (split_at c L0 R0) (split_at c L1 R1)"
    then obtain k e0 e1 where k: "split_at c L0 R0 k = Some e0" "split_at c L1 R1 k = Some e1" "m e0 e1 = None"
      unfolding conflict_def by blast
    then show "conflict m L0 L1 \<or> conflict m R0 R1"
      unfolding split_at_def conflict_def by (cases "k < c") (simp_all, blast+)
  next
    assume "conflict m L0 L1 \<or> conflict m R0 R1"
    then obtain k e0 e1 where k: "L0 k = Some e0 \<and> L1 k = Some e1 \<or> R0 k = Some e0 \<and> R1 k = Some e1" "m e0 e1 = None"
      unfolding conflict_def by blast
    then have "split_at c L0 R0 k = Some e0 \<and> split_at c L1 R1 k = Some e1"
      using l r unfolding split_at_def by fastforce
    then show "conflict m (split_at c L0 R0) (split_at c L1 R1)" using k(2) unfolding conflict_def by blast
  qed
qed

lemma unites_node:
  assumes "unites get_key m L0 L1 ll" "\<And>l. ll = Some l \<Longrightarrow> unites get_key m R0 R1 rr" "c \<noteq> 0" "small_key c"
    and "halves c L0 R0" "halves c L1 R1"
  shows "unites get_key m (split_at c L0 R0) (split_at c L1 R1)
    (case ll of None \<Rightarrow> None | Some l \<Rightarrow> (case rr of None \<Rightarrow> None | Some r \<Rightarrow> Some (ANode c l r)))"
proof (cases ll)
  case None
  then show ?thesis using assms(1) conflict_split [OF assms(5,6)] by (simp add: unites_def)
next
  case l: (Some l)
  show ?thesis
  proof (cases rr)
    case None
    then show ?thesis using assms(2) l conflict_split [OF assms(5,6)] by (simp add: unites_def)
  next
    case r: (Some r)
    have k: "atree_keys get_key l = dom L0 \<union> dom L1" "atree_keys get_key r = dom R0 \<union> dom R1"
      using assms(1,2) l r unites_keys by blast+
    then have ok: "atree_ok get_key (ANode c l r)"
      using assms l r by (auto simp: unites_def halves_def)
    moreover have "atree_lookup get_key (ANode c l r) = (\<lambda>k. combine m (split_at c L0 R0 k) (split_at c L1 R1 k))"
      using assms(1,2) l r by (auto simp: unites_def split_at_def lookup_node [OF ok])
    ultimately show ?thesis
      using assms(1,2) l r conflict_split [OF assms(5,6)] by (simp add: unites_def)
  qed
qed

lemma lookup_split:
  assumes "atree_ok get_key (ANode c l r)"
  shows "atree_lookup get_key (ANode c l r) = split_at c (atree_lookup get_key l) (atree_lookup get_key r)"
    "halves c (atree_lookup get_key l) (atree_lookup get_key r)"
  using assms by (auto simp: split_at_def halves_def atree_lookup_dom lookup_node [OF assms] fun_eq_iff)

lemma left_split:
  assumes "\<And>k. k \<in> dom M \<Longrightarrow> in_left c k"
  shows "M = split_at c M Map.empty" "halves c M Map.empty"
proof -
  have "M k = None" if "\<not> k < c" for k using assms [of k] that by (auto simp: in_left_def)
  then show "M = split_at c M Map.empty" by (auto simp: split_at_def fun_eq_iff)
  show "halves c M Map.empty" using assms by (simp add: halves_def)
qed

lemma right_split:
  assumes "\<And>k. k \<in> dom M \<Longrightarrow> in_right c k"
  shows "M = split_at c Map.empty M" "halves c Map.empty M"
proof -
  have "M k = None" if "k < c" for k using assms [of k] that leD by (fastforce simp: in_right_def)
  then show "M = split_at c Map.empty M" by (auto simp: split_at_def fun_eq_iff)
  show "halves c Map.empty M" using assms by (simp add: halves_def)
qed

text \<open>Uniting a node with a map on one of its sides, and two trees side by side.\<close>

lemma unites_left:
  assumes "atree_ok get_key (ANode c l r)" "\<And>k. k \<in> dom M \<Longrightarrow> in_left c k"
  shows "unites get_key m (atree_lookup get_key l) M ll \<Longrightarrow>
      unites get_key m (atree_lookup get_key (ANode c l r)) M (case ll of None \<Rightarrow> None | Some l \<Rightarrow> Some (ANode c l r))"
    "unites get_key m M (atree_lookup get_key l) ll \<Longrightarrow>
      unites get_key m M (atree_lookup get_key (ANode c l r)) (case ll of None \<Rightarrow> None | Some l \<Rightarrow> Some (ANode c l r))"
proof -
  note n = lookup_split [OF assms(1)] and s = left_split [OF assms(2)]
  have c: "c \<noteq> 0" "small_key c" and r: "atree_ok get_key r" using assms(1) by simp_all
  assume "unites get_key m (atree_lookup get_key l) M ll"
  from unites_node [OF this unites_empty(2) [OF r] c n(2) s(2)]
  show "unites get_key m (atree_lookup get_key (ANode c l r)) M (case ll of None \<Rightarrow> None | Some l \<Rightarrow> Some (ANode c l r))"
    by (simp only: n(1) s(1) [symmetric] option.case)
next
  note n = lookup_split [OF assms(1)] and s = left_split [OF assms(2)]
  have c: "c \<noteq> 0" "small_key c" and r: "atree_ok get_key r" using assms(1) by simp_all
  assume "unites get_key m M (atree_lookup get_key l) ll"
  from unites_node [OF this unites_empty(1) [OF r] c s(2) n(2)]
  show "unites get_key m M (atree_lookup get_key (ANode c l r)) (case ll of None \<Rightarrow> None | Some l \<Rightarrow> Some (ANode c l r))"
    by (simp only: n(1) s(1) [symmetric] option.case)
qed

lemma unites_right:
  assumes "atree_ok get_key (ANode c l r)" "\<And>k. k \<in> dom M \<Longrightarrow> in_right c k"
  shows "unites get_key m (atree_lookup get_key r) M rr \<Longrightarrow>
      unites get_key m (atree_lookup get_key (ANode c l r)) M (case rr of None \<Rightarrow> None | Some r \<Rightarrow> Some (ANode c l r))"
    "unites get_key m M (atree_lookup get_key r) rr \<Longrightarrow>
      unites get_key m M (atree_lookup get_key (ANode c l r)) (case rr of None \<Rightarrow> None | Some r \<Rightarrow> Some (ANode c l r))"
proof -
  note n = lookup_split [OF assms(1)] and s = right_split [OF assms(2)]
  have c: "c \<noteq> 0" "small_key c" and l: "atree_ok get_key l" using assms(1) by simp_all
  assume "unites get_key m (atree_lookup get_key r) M rr"
  from unites_node [OF unites_empty(2) [OF l] this c n(2) s(2)]
  show "unites get_key m (atree_lookup get_key (ANode c l r)) M (case rr of None \<Rightarrow> None | Some r \<Rightarrow> Some (ANode c l r))"
    by (simp only: n(1) s(1) [symmetric] option.case)
next
  note n = lookup_split [OF assms(1)] and s = right_split [OF assms(2)]
  have c: "c \<noteq> 0" "small_key c" and l: "atree_ok get_key l" using assms(1) by simp_all
  assume "unites get_key m M (atree_lookup get_key r) rr"
  from unites_node [OF unites_empty(1) [OF l] this c s(2) n(2)]
  show "unites get_key m M (atree_lookup get_key (ANode c l r)) (case rr of None \<Rightarrow> None | Some r \<Rightarrow> Some (ANode c l r))"
    by (simp only: n(1) s(1) [symmetric] option.case)
qed

lemma unites_join:
  assumes "atree_ok get_key (ANode c t0 t1)"
  shows "unites get_key m (atree_lookup get_key t0) (atree_lookup get_key t1) (Some (ANode c t0 t1))"
    "unites get_key m (atree_lookup get_key t1) (atree_lookup get_key t0) (Some (ANode c t0 t1))"
proof -
  have c: "c \<noteq> 0" "small_key c" and ok: "atree_ok get_key t0" "atree_ok get_key t1" using assms by simp_all
  have "in_left c k" if "k \<in> dom (atree_lookup get_key t0)" for k using assms that by (simp add: atree_lookup_dom)
  note l = left_split [OF this]
  have "in_right c k" if "k \<in> dom (atree_lookup get_key t1)" for k using assms that by (simp add: atree_lookup_dom)
  note r = right_split [OF this]
  show "unites get_key m (atree_lookup get_key t0) (atree_lookup get_key t1) (Some (ANode c t0 t1))"
    using unites_node [OF unites_empty(2) [OF ok(1)] unites_empty(1) [OF ok(2)] c l(2) r(2)]
    by (simp only: l(1) [symmetric] r(1) [symmetric] option.case)
  show "unites get_key m (atree_lookup get_key t1) (atree_lookup get_key t0) (Some (ANode c t0 t1))"
    using unites_node [OF unites_empty(1) [OF ok(1)] unites_empty(2) [OF ok(2)] c r(2) l(2)]
    by (simp only: l(1) [symmetric] r(1) [symmetric] option.case)
qed

section \<open>The operations\<close>

lemma if_order:
  "(a :: u64) < b \<Longrightarrow> (if a = b then x else if a < b then y else z) = y"
  "(a :: u64) < b \<Longrightarrow> (if b = a then x else if b < a then y else z) = z"
  by auto

lemma unites_leaf:
  assumes "keeps_keys get_key m" "small_key (get_key e0)" "small_key (get_key e1)"
  shows "unites get_key m (atree_lookup get_key (ALeaf e0)) (atree_lookup get_key (ALeaf e1))
    (if get_key e0 = get_key e1 then map_option ALeaf (m e0 e1)
     else if get_key e0 < get_key e1 then Some (ANode (pair_centre (get_key e0) (get_key e1)) (ALeaf e0) (ALeaf e1))
     else Some (ANode (pair_centre (get_key e1) (get_key e0)) (ALeaf e1) (ALeaf e0)))"
proof -
  consider "get_key e0 = get_key e1" | "get_key e0 < get_key e1" | "get_key e1 < get_key e0" by fastforce
  then show ?thesis
  proof cases
    case 1
    then show ?thesis
    proof (cases "m e0 e1")
      case None
      then show ?thesis using 1 by (auto simp: unites_def conflict_def lookup_leaf)
    next
      case (Some e)
      then have "get_key e = get_key e0" using assms(1) 1 Some unfolding keeps_keys_def by blast
      then show ?thesis using 1 Some assms(2) by (auto simp: unites_def conflict_def combine_def fun_eq_iff lookup_leaf)
    qed
  next
    case 2
    have "atree_ok get_key (ANode (pair_centre (get_key e0) (get_key e1)) (ALeaf e0) (ALeaf e1))"
      by (rule join_ok) (use assms 2 in auto)
    from unites_join(1) [OF this, of m] show ?thesis using 2 by (simp add: if_order)
  next
    case 3
    have "atree_ok get_key (ANode (pair_centre (get_key e1) (get_key e0)) (ALeaf e1) (ALeaf e0))"
      by (rule join_ok) (use assms 3 in auto)
    from unites_join(2) [OF this, of m] show ?thesis using 3 by (simp add: if_order)
  qed
qed

text \<open>An element outside the block of a node, or on one of its sides.\<close>

lemma node_key_cases:
  assumes "atree_ok get_key (ANode c l r)" "small_key (get_key v)"
  obtains "get_key v < centre_to_min c" "get_key v < c" "atree_ok get_key (ANode (pair_centre (get_key v) c) (ALeaf v) (ANode c l r))"
  | "\<not> get_key v < centre_to_min c" "get_key v < c" "in_left c (get_key v)"
  | "centre_to_max c < get_key v" "\<not> get_key v < c" "atree_ok get_key (ANode (pair_centre c (get_key v)) (ANode c l r) (ALeaf v))"
  | "\<not> centre_to_max c < get_key v" "\<not> get_key v < c" "in_right c (get_key v)"
proof -
  have c: "c \<noteq> 0" using assms(1) by simp
  have le: "centre_to_min c \<le> c" "c \<le> centre_to_max c"
    using less_centre_min [OF c, of c] greater_centre_max [OF c, of c] by simp_all
  have mono: "get_key v < c \<Longrightarrow> block (lowest c) (get_key v) \<le> block (lowest c) c"
    "\<not> get_key v < c \<Longrightarrow> block (lowest c) c \<le> block (lowest c) (get_key v)"
    by (simp_all add: block_def word_less_nat_alt div_le_mono)
  show thesis
  proof (cases "get_key v < c")
    case True
    show thesis
    proof (cases "get_key v < centre_to_min c")
      case below: True
      have "atree_ok get_key (ANode (pair_centre (get_key v) c) (ALeaf v) (ANode c l r))"
        by (rule join_ok [OF _ assms(1)]) (use assms(2) join_below [OF assms below] in simp_all)
      then show thesis using that(1) True below by blast
    next
      case False
      then have "in_left c (get_key v)" using True mono(1) less_centre_min [OF c] by (simp add: in_left_def)
      then show thesis using that(2) True False by blast
    qed
  next
    case False
    show thesis
    proof (cases "centre_to_max c < get_key v")
      case above: True
      have "atree_ok get_key (ANode (pair_centre c (get_key v)) (ANode c l r) (ALeaf v))"
        by (rule join_ok [OF assms(1)]) (use assms(2) join_above [OF assms above] in simp_all)
      then show thesis using that(3) False above by blast
    next
      case n: False
      then have "in_right c (get_key v)" using False mono(2) greater_centre_max [OF c] by (simp add: in_right_def)
      then show thesis using that(4) False n by blast
    qed
  qed
qed

lemma leaf_dom: "k \<in> dom (atree_lookup get_key (ALeaf v)) \<Longrightarrow> k = get_key v"
  by (simp add: atree_lookup_dom)

lemma insert_unites:
  assumes "keeps_keys get_key m" "atree_ok get_key t" "small_key (get_key v)"
  shows "unites get_key m (atree_lookup get_key t) (atree_lookup get_key (ALeaf v)) (atree_insert get_key m t v)"
  using assms(2)
proof (induction t)
  case (ALeaf e)
  then show ?case using unites_leaf [OF assms(1), of e v] assms(3)
    by (cases "get_key e" "get_key v" rule: linorder_cases) (simp_all add: Let_def if_order)
next
  case (ANode c l r)
  have ih: "unites get_key m (atree_lookup get_key l) (atree_lookup get_key (ALeaf v)) (atree_insert get_key m l v)"
    "unites get_key m (atree_lookup get_key r) (atree_lookup get_key (ALeaf v)) (atree_insert get_key m r v)"
    using ANode by simp_all
  show ?case
  proof (rule node_key_cases [OF ANode.prems assms(3)], goal_cases)
    case 1
    from unites_join(2) [OF 1(3), of m] show ?case using 1(1,2) by (simp add: Let_def)
  next
    case 2
    then have "\<And>k. k \<in> dom (atree_lookup get_key (ALeaf v)) \<Longrightarrow> in_left c k" using leaf_dom by metis
    from unites_left(1) [OF ANode.prems this ih(1)] show ?case using 2 by (simp add: Let_def)
  next
    case 3
    from unites_join(1) [OF 3(3), of m] show ?case using 3(1,2) by (simp add: Let_def)
  next
    case 4
    then have "\<And>k. k \<in> dom (atree_lookup get_key (ALeaf v)) \<Longrightarrow> in_right c k" using leaf_dom by metis
    from unites_right(1) [OF ANode.prems this ih(2)] show ?case using 4 by (simp add: Let_def)
  qed
qed

lemma insert_rev_unites:
  assumes "keeps_keys get_key m" "atree_ok get_key t" "small_key (get_key v)"
  shows "unites get_key m (atree_lookup get_key (ALeaf v)) (atree_lookup get_key t) (atree_insert_rev get_key m t v)"
  using assms(2)
proof (induction t)
  case (ALeaf e)
  then show ?case using unites_leaf [OF assms(1), of v e] assms(3)
    by (cases "get_key e" "get_key v" rule: linorder_cases) (simp_all add: Let_def if_order)
next
  case (ANode c l r)
  have ih: "unites get_key m (atree_lookup get_key (ALeaf v)) (atree_lookup get_key l) (atree_insert_rev get_key m l v)"
    "unites get_key m (atree_lookup get_key (ALeaf v)) (atree_lookup get_key r) (atree_insert_rev get_key m r v)"
    using ANode by simp_all
  show ?case
  proof (rule node_key_cases [OF ANode.prems assms(3)], goal_cases)
    case 1
    from unites_join(1) [OF 1(3), of m] show ?case using 1(1,2) by (simp add: Let_def)
  next
    case 2
    then have "\<And>k. k \<in> dom (atree_lookup get_key (ALeaf v)) \<Longrightarrow> in_left c k" using leaf_dom by metis
    from unites_left(2) [OF ANode.prems this ih(1)] show ?case using 2 by (simp add: Let_def)
  next
    case 3
    from unites_join(2) [OF 3(3), of m] show ?case using 3(1,2) by (simp add: Let_def)
  next
    case 4
    then have "\<And>k. k \<in> dom (atree_lookup get_key (ALeaf v)) \<Longrightarrow> in_right c k" using leaf_dom by metis
    from unites_right(2) [OF ANode.prems this ih(2)] show ?case using 4 by (simp add: Let_def)
  qed
qed

text \<open>Two nodes with different centres.\<close>

lemma nodes_cases:
  assumes "atree_ok get_key (ANode c0 l0 r0)" "atree_ok get_key (ANode c1 l1 r1)" "c0 < c1"
  obtains "centre_to_max c0 < c1" "centre_to_max c0 < centre_to_min c1"
      "atree_ok get_key (ANode (pair_centre c0 c1) (ANode c0 l0 r0) (ANode c1 l1 r1))"
  | "centre_to_max c0 < c1" "\<not> centre_to_max c0 < centre_to_min c1"
      "\<And>k. k \<in> atree_keys get_key (ANode c0 l0 r0) \<Longrightarrow> in_left c1 k"
  | "\<not> centre_to_max c0 < c1" "\<And>k. k \<in> atree_keys get_key (ANode c1 l1 r1) \<Longrightarrow> in_right c0 k"
proof -
  have c: "c0 \<noteq> 0" "c1 \<noteq> 0" using assms(1,2) by simp_all
  show thesis
  proof (cases "centre_to_max c0 < c1")
    case t: True
    show thesis
    proof (cases "centre_to_max c0 < centre_to_min c1")
      case True
      then show thesis using that(1) t join_disjoint [OF assms(1,2)] by blast
    next
      case False
      have "in_left c1 k" if "k \<in> atree_keys get_key (ANode c0 l0 r0)" for k
        by (rule nested_left [OF c t False node_keys_block [OF assms(1) that]])
      then show thesis using that(2) t False by blast
    qed
  next
    case False
    have "in_right c0 k" if "k \<in> atree_keys get_key (ANode c1 l1 r1)" for k
      by (rule nested_right(1) [OF c assms(3) False node_keys_block [OF assms(2) that]])
    then show thesis using that(3) False by blast
  qed
qed

lemma union_unites:
  assumes "keeps_keys get_key m" "atree_ok get_key t0" "atree_ok get_key t1"
  shows "unites get_key m (atree_lookup get_key t0) (atree_lookup get_key t1) (atree_union get_key m t0 t1)"
  using assms
proof (induction get_key m t0 t1 rule: atree_union.induct)
  case (1 get_key m e0 t1)
  then show ?case using insert_rev_unites by (simp)
next
  case (2 get_key m c l r e1)
  then show ?case using insert_unites [of get_key m "ANode c l r" e1] by (simp)
next
  case (3 get_key m c0 l0 r0 c1 l1 r1)
  note ok = "3.prems"(2,3) and ih = "3.IH"
  have sub: "atree_ok get_key l0" "atree_ok get_key r0" "atree_ok get_key l1" "atree_ok get_key r1" using ok by simp_all
  have keys: "k \<in> dom (atree_lookup get_key t) \<longleftrightarrow> k \<in> atree_keys get_key t" for t k by (simp add: atree_lookup_dom)
  consider "c0 = c1" | "c0 < c1" | "c1 < c0" by fastforce
  then show ?case
  proof cases
    case 1
    have l: "unites get_key m (atree_lookup get_key l0) (atree_lookup get_key l1) (atree_union get_key m l0 l1)"
      by (rule ih(1) [OF 1 "3.prems"(1) sub(1,3)])
    have r: "unites get_key m (atree_lookup get_key r0) (atree_lookup get_key r1) (atree_union get_key m r0 r1)"
      if "atree_union get_key m l0 l1 = Some l" for l
      by (rule ih(2) [OF 1 that "3.prems"(1) sub(2,4)])
    have "unites get_key m (split_at c0 (atree_lookup get_key l0) (atree_lookup get_key r0))
      (split_at c0 (atree_lookup get_key l1) (atree_lookup get_key r1))
      (case atree_union get_key m l0 l1 of None \<Rightarrow> None
       | Some l \<Rightarrow> (case atree_union get_key m r0 r1 of None \<Rightarrow> None | Some r \<Rightarrow> Some (ANode c0 l r)))"
    proof (rule unites_node [OF l])
      show "c0 \<noteq> 0" "small_key c0" using ok by simp_all
      show "halves c0 (atree_lookup get_key l0) (atree_lookup get_key r0)" by (rule lookup_split(2) [OF ok(1)])
      show "halves c0 (atree_lookup get_key l1) (atree_lookup get_key r1)" unfolding 1 by (rule lookup_split(2) [OF ok(2)])
    qed (rule r)
    moreover have "atree_union get_key m (ANode c0 l0 r0) (ANode c1 l1 r1) =
      (case atree_union get_key m l0 l1 of None \<Rightarrow> None
       | Some l \<Rightarrow> (case atree_union get_key m r0 r1 of None \<Rightarrow> None | Some r \<Rightarrow> Some (ANode c0 l r)))"
      by (simp add: 1 [symmetric])
    moreover have "atree_lookup get_key (ANode c1 l1 r1) = split_at c0 (atree_lookup get_key l1) (atree_lookup get_key r1)"
      using lookup_split(1) [OF ok(2)] 1 by simp
    ultimately show ?thesis by (simp only: lookup_split(1) [OF ok(1)])
  next
    case 2
    then have ne: "c0 \<noteq> c1" by simp
    show ?thesis
    proof (rule nodes_cases [OF ok 2], goal_cases)
      case c: 1
      from unites_join(1) [OF c(3), of m] show ?case using 2 ne c(1,2) by simp
    next
      case c: 2
      have l: "unites get_key m (atree_lookup get_key (ANode c0 l0 r0)) (atree_lookup get_key l1) (atree_union get_key m (ANode c0 l0 r0) l1)"
        by (rule ih(3) [OF ne 2 c(1,2) "3.prems"(1) ok(1) sub(3)])
      from unites_left(2) [OF ok(2) c(3) [unfolded keys [symmetric]] l] show ?case using 2 ne c(1,2) by simp
    next
      case c: 3
      have r: "unites get_key m (atree_lookup get_key r0) (atree_lookup get_key (ANode c1 l1 r1)) (atree_union get_key m r0 (ANode c1 l1 r1))"
        by (rule ih(4) [OF ne 2 c(1) "3.prems"(1) sub(2) ok(2)])
      from unites_right(1) [OF ok(1) c(2) [unfolded keys [symmetric]] r] show ?case using 2 ne c(1) by simp
    qed
  next
    case 3
    then have ne: "c0 \<noteq> c1" and n: "\<not> c0 < c1" by auto
    show ?thesis
    proof (rule nodes_cases [OF ok(2,1) 3], goal_cases)
      case c: 1
      from unites_join(2) [OF c(3), of m] show ?case using n ne c(1,2) by simp
    next
      case c: 2
      have l: "unites get_key m (atree_lookup get_key l0) (atree_lookup get_key (ANode c1 l1 r1)) (atree_union get_key m l0 (ANode c1 l1 r1))"
        by (rule ih(5) [OF ne n c(1,2) "3.prems"(1) sub(1) ok(2)])
      from unites_left(1) [OF ok(1) c(3) [unfolded keys [symmetric]] l] show ?case using n ne c(1,2) by simp
    next
      case c: 3
      have r: "unites get_key m (atree_lookup get_key (ANode c0 l0 r0)) (atree_lookup get_key r1) (atree_union get_key m (ANode c0 l0 r0) r1)"
        by (rule ih(6) [OF ne n c(1) "3.prems"(1) ok(1) sub(4)])
      from unites_right(2) [OF ok(2) c(2) [unfolded keys [symmetric]] r] show ?case using n ne c(1) by simp
    qed
  qed
qed

section \<open>Intersection\<close>

definition meet :: "'e merge \<Rightarrow> (u64 \<Rightarrow> 'e option) \<Rightarrow> (u64 \<Rightarrow> 'e option) \<Rightarrow> u64 \<Rightarrow> 'e option" where
  "meet m M0 M1 = (\<lambda>k. case M0 k of None \<Rightarrow> None | Some e0 \<Rightarrow> (case M1 k of None \<Rightarrow> None | Some e1 \<Rightarrow> m e0 e1))"

definition shows_map :: "('e \<Rightarrow> u64) \<Rightarrow> 'e atree option \<Rightarrow> (u64 \<Rightarrow> 'e option) \<Rightarrow> bool" where
  "shows_map get_key res M \<longleftrightarrow>
     (case res of None \<Rightarrow> M = Map.empty | Some t \<Rightarrow> atree_ok get_key t \<and> atree_lookup get_key t = M)"

lemma shows_keys: "shows_map get_key (Some t) M \<Longrightarrow> atree_keys get_key t = dom M"
  by (auto simp: shows_map_def atree_lookup_dom [symmetric])

lemma shows_node:
  assumes "shows_map get_key ll L" "shows_map get_key rr R" "c \<noteq> 0" "small_key c" "halves c L R"
  shows "shows_map get_key
    (case (ll, rr) of (None, r) \<Rightarrow> r | (Some l, None) \<Rightarrow> Some l | (Some l, Some r) \<Rightarrow> Some (ANode c l r)) (split_at c L R)"
proof -
  have one: "split_at c Map.empty R = R" "split_at c L Map.empty = L"
    using assms(5) right_split(1) [of R c] left_split(1) [of L c] by (simp_all add: halves_def)
  have "atree_ok get_key (ANode c l r) \<and> atree_lookup get_key (ANode c l r) = split_at c L R" if "ll = Some l" "rr = Some r" for l r
  proof -
    have ok: "atree_ok get_key (ANode c l r)"
      using assms that shows_keys [of get_key l L] shows_keys [of get_key r R] by (simp add: halves_def shows_map_def)
    show ?thesis using lookup_split(1) [OF ok] ok assms(1,2) that by (simp add: shows_map_def)
  qed
  then show ?thesis using assms(1,2) one by (auto simp: shows_map_def split: option.splits)
qed

lemma meet_split:
  assumes "halves c L0 R0" "halves c L1 R1"
  shows "meet m (split_at c L0 R0) (split_at c L1 R1) = split_at c (meet m L0 L1) (meet m R0 R1)"
    "halves c (meet m L0 L1) (meet m R0 R1)"
  using assms by (auto simp: meet_def split_at_def halves_def dom_def split: option.splits)

lemma meet_halves:
  assumes "atree_ok get_key (ANode c l r)"
  shows "(\<And>k. k \<in> dom M \<Longrightarrow> in_left c k) \<Longrightarrow> meet m (atree_lookup get_key (ANode c l r)) M = meet m (atree_lookup get_key l) M"
    "(\<And>k. k \<in> dom M \<Longrightarrow> in_left c k) \<Longrightarrow> meet m M (atree_lookup get_key (ANode c l r)) = meet m M (atree_lookup get_key l)"
    "(\<And>k. k \<in> dom M \<Longrightarrow> in_right c k) \<Longrightarrow> meet m (atree_lookup get_key (ANode c l r)) M = meet m (atree_lookup get_key r) M"
    "(\<And>k. k \<in> dom M \<Longrightarrow> in_right c k) \<Longrightarrow> meet m M (atree_lookup get_key (ANode c l r)) = meet m M (atree_lookup get_key r)"
  by (rule ext, force simp: meet_def lookup_node [OF assms] in_left_def in_right_def dom_def not_less [symmetric] split: option.split)+

lemma meet_disjoint:
  assumes "atree_ok get_key (ANode c t0 t1)"
  shows "meet m (atree_lookup get_key t0) (atree_lookup get_key t1) = Map.empty"
    "meet m (atree_lookup get_key t1) (atree_lookup get_key t0) = Map.empty"
proof -
  have "atree_lookup get_key t0 k = None \<or> atree_lookup get_key t1 k = None" for k
    using assms by (auto simp: lookup_None in_left_def in_right_def dest: leD)
  then show "meet m (atree_lookup get_key t0) (atree_lookup get_key t1) = Map.empty"
    "meet m (atree_lookup get_key t1) (atree_lookup get_key t0) = Map.empty"
    by (auto simp: meet_def fun_eq_iff split: option.splits) (metis option.distinct(1))+
qed

lemma leaf_shows:
  assumes "e1 = None \<or> (\<exists>e. e1 = Some e \<and> get_key e = key)" "small_key key"
  shows "shows_map get_key (map_option ALeaf e1) (\<lambda>k. if k = key then e1 else None)"
  using assms by (auto simp: shows_map_def lookup_leaf fun_eq_iff)

lemma meet_leaf:
  assumes "keeps_keys get_key m" "small_key (get_key e)" "atree_ok get_key t"
  shows "shows_map get_key (case cuex_atree_find get_key (Some t) (get_key e) of Some e' \<Rightarrow> map_option ALeaf (m e e') | None \<Rightarrow> None)
      (meet m (atree_lookup get_key (ALeaf e)) (atree_lookup get_key t))"
    "shows_map get_key (case cuex_atree_find get_key (Some t) (get_key e) of Some e' \<Rightarrow> map_option ALeaf (m e' e) | None \<Rightarrow> None)
      (meet m (atree_lookup get_key t) (atree_lookup get_key (ALeaf e)))"
proof -
  note f = cuex_find_lookup [OF assms(3)]
  let ?r = "case atree_lookup get_key t (get_key e) of None \<Rightarrow> None | Some e' \<Rightarrow> m e e'"
  let ?s = "case atree_lookup get_key t (get_key e) of None \<Rightarrow> None | Some e' \<Rightarrow> m e' e"
  have k: "?r = None \<or> (\<exists>e1. ?r = Some e1 \<and> get_key e1 = get_key e)" "?s = None \<or> (\<exists>e1. ?s = Some e1 \<and> get_key e1 = get_key e)"
  proof -
    have "get_key e1 = get_key e" if "atree_lookup get_key t (get_key e) = Some e'" "m e e' = Some e1 \<or> m e' e = Some e1" for e' e1
      using assms(1) lookup_key [OF that(1)] that(2) unfolding keeps_keys_def by metis
    then show "?r = None \<or> (\<exists>e1. ?r = Some e1 \<and> get_key e1 = get_key e)" "?s = None \<or> (\<exists>e1. ?s = Some e1 \<and> get_key e1 = get_key e)"
      by (auto split: option.split)
  qed
  have "meet m (atree_lookup get_key (ALeaf e)) (atree_lookup get_key t) = (\<lambda>k. if k = get_key e then ?r else None)"
    "meet m (atree_lookup get_key t) (atree_lookup get_key (ALeaf e)) = (\<lambda>k. if k = get_key e then ?s else None)"
    by (auto simp: meet_def lookup_leaf fun_eq_iff split: option.split)
  moreover have "(case cuex_atree_find get_key (Some t) (get_key e) of Some e' \<Rightarrow> map_option ALeaf (m e e') | None \<Rightarrow> None) = map_option ALeaf ?r"
    "(case cuex_atree_find get_key (Some t) (get_key e) of Some e' \<Rightarrow> map_option ALeaf (m e' e) | None \<Rightarrow> None) = map_option ALeaf ?s"
    by (simp_all add: f split: option.split)
  ultimately show "shows_map get_key (case cuex_atree_find get_key (Some t) (get_key e) of Some e' \<Rightarrow> map_option ALeaf (m e e') | None \<Rightarrow> None)
      (meet m (atree_lookup get_key (ALeaf e)) (atree_lookup get_key t))"
    "shows_map get_key (case cuex_atree_find get_key (Some t) (get_key e) of Some e' \<Rightarrow> map_option ALeaf (m e' e) | None \<Rightarrow> None)
      (meet m (atree_lookup get_key t) (atree_lookup get_key (ALeaf e)))"
    using leaf_shows [OF k(1) assms(2)] leaf_shows [OF k(2) assms(2)] by simp_all
qed

lemma isecn_meets:
  assumes "keeps_keys get_key m" "atree_ok get_key t0" "atree_ok get_key t1"
  shows "shows_map get_key (atree_isecn get_key m t0 t1) (meet m (atree_lookup get_key t0) (atree_lookup get_key t1))"
  using assms
proof (induction get_key m t0 t1 rule: atree_isecn.induct)
  case (1 get_key m e0 t1)
  then show ?case using meet_leaf(1) [of get_key m e0 t1] by simp
next
  case (2 get_key m c l r e1)
  then show ?case using meet_leaf(2) [OF "2.prems"(1) _ "2.prems"(2), of e1] by simp
next
  case (3 get_key m c0 l0 r0 c1 l1 r1)
  note ok = "3.prems"(2,3) and ih = "3.IH"
  have sub: "atree_ok get_key l0" "atree_ok get_key r0" "atree_ok get_key l1" "atree_ok get_key r1" using ok by simp_all
  have keys: "k \<in> dom (atree_lookup get_key t) \<longleftrightarrow> k \<in> atree_keys get_key t" for t k by (simp add: atree_lookup_dom)
  consider "c0 = c1" | "c0 < c1" | "c1 < c0" by fastforce
  then show ?case
  proof cases
    case 1
    note l = ih(1) [OF 1 "3.prems"(1) sub(1,3)] and r = ih(2) [OF 1 "3.prems"(1) sub(2,4)]
    have c: "c0 \<noteq> 0" "small_key c0" using ok by simp_all
    note s = meet_split [OF lookup_split(2) [OF ok(1)] lookup_split(2) [OF ok(2), folded 1], where m = m]
    note shows_node [OF l r c s(2)]
    moreover have "atree_isecn get_key m (ANode c0 l0 r0) (ANode c1 l1 r1) =
      (case (atree_isecn get_key m l0 l1, atree_isecn get_key m r0 r1) of
         (None, r) \<Rightarrow> r | (Some l, None) \<Rightarrow> Some l | (Some l, Some r) \<Rightarrow> Some (ANode c0 l r))"
      by (simp add: 1 [symmetric])
    moreover have "atree_lookup get_key (ANode c1 l1 r1) = split_at c0 (atree_lookup get_key l1) (atree_lookup get_key r1)"
      using lookup_split(1) [OF ok(2)] 1 by simp
    ultimately show ?thesis by (simp only: lookup_split(1) [OF ok(1)] s(1))
  next
    case 2
    then have ne: "c0 \<noteq> c1" by simp
    show ?thesis
    proof (rule nodes_cases [OF ok 2], goal_cases)
      case c: 1
      show ?case using 2 ne c(1,2) meet_disjoint(1) [OF c(3), where m = m] by (simp add: shows_map_def)
    next
      case c: 2
      show ?case
        using ih(3) [OF ne 2 c(1,2) "3.prems"(1) ok(1) sub(3)] meet_halves(2) [OF ok(2) c(3) [unfolded keys [symmetric]], where m = m] 2 ne c(1,2) by simp
    next
      case c: 3
      show ?case
        using ih(4) [OF ne 2 c(1) "3.prems"(1) sub(2) ok(2)] meet_halves(3) [OF ok(1) c(2) [unfolded keys [symmetric]], where m = m] 2 ne c(1) by simp
    qed
  next
    case 3
    then have ne: "c0 \<noteq> c1" and n: "\<not> c0 < c1" by auto
    show ?thesis
    proof (rule nodes_cases [OF ok(2,1) 3], goal_cases)
      case c: 1
      show ?case using n ne c(1,2) meet_disjoint(2) [OF c(3), where m = m] by (simp add: shows_map_def)
    next
      case c: 2
      show ?case
        using ih(5) [OF ne n c(1,2) "3.prems"(1) sub(1) ok(2)] meet_halves(1) [OF ok(1) c(3) [unfolded keys [symmetric]], where m = m] n ne c(1,2) by simp
    next
      case c: 3
      show ?case
        using ih(6) [OF ne n c(1) "3.prems"(1) ok(1) sub(4)] meet_halves(4) [OF ok(2) c(2) [unfolded keys [symmetric]], where m = m] n ne c(1) by simp
    qed
  qed
qed

section \<open>Erasure\<close>

lemma erase_shows:
  assumes "atree_ok get_key t" "atree_erase get_key t key = (res, elt)"
  shows "shows_map get_key res ((atree_lookup get_key t)(key := None)) \<and> elt = atree_lookup get_key t key"
  using assms
proof (induction t arbitrary: res elt)
  case (ALeaf e)
  then show ?case by (auto simp: shows_map_def lookup_leaf fun_eq_iff split: if_splits)
next
  case (ANode c l r)
  have c: "c \<noteq> 0" "small_key c" and ok: "atree_ok get_key l" "atree_ok get_key r" using ANode.prems(1) by simp_all
  note ls = lookup_split [OF ANode.prems(1)]
  have same: "shows_map get_key (Some t) (atree_lookup get_key t)" if "atree_ok get_key t" for t
    using that by (simp add: shows_map_def)
  obtain nl el where l: "atree_erase get_key l key = (nl, el)" by (metis surj_pair)
  obtain nr er where r: "atree_erase get_key r key = (nr, er)" by (metis surj_pair)
  note ihl = ANode.IH(1) [OF ok(1) l] and ihr = ANode.IH(2) [OF ok(2) r]
  consider "key < c" "key < centre_to_min c" | "key < c" "\<not> key < centre_to_min c" | "\<not> key < c" "key > centre_to_max c"
    | "\<not> key < c" "\<not> key > centre_to_max c" by blast
  then show ?case
  proof cases
    case 1
    then have "atree_lookup get_key (ANode c l r) key = None"
      using outside_block [OF ANode.prems(1)] less_centre_min [OF c(1), of key] by simp
    then have "(atree_lookup get_key (ANode c l r))(key := None) = atree_lookup get_key (ANode c l r)" by (rule fun_upd_idem)
    moreover have "res = Some (ANode c l r)" "elt = None" using ANode.prems(2) 1 by simp_all
    ultimately show ?thesis using same [OF ANode.prems(1)] \<open>atree_lookup get_key (ANode c l r) key = None\<close> by simp
  next
    case 3
    then have "atree_lookup get_key (ANode c l r) key = None"
      using outside_block [OF ANode.prems(1)] greater_centre_max [OF c(1), of key] by simp
    then have "(atree_lookup get_key (ANode c l r))(key := None) = atree_lookup get_key (ANode c l r)" by (rule fun_upd_idem)
    moreover have "res = Some (ANode c l r)" "elt = None" using ANode.prems(2) 3 by simp_all
    ultimately show ?thesis using same [OF ANode.prems(1)] \<open>atree_lookup get_key (ANode c l r) key = None\<close> by simp
  next
    case 2
    have h: "halves c ((atree_lookup get_key l)(key := None)) (atree_lookup get_key r)"
      using ls(2) by (auto simp: halves_def)
    have s: "split_at c ((atree_lookup get_key l)(key := None)) (atree_lookup get_key r) = (atree_lookup get_key (ANode c l r))(key := None)"
      using 2 unfolding ls(1) by (auto simp: split_at_def)
    have "shows_map get_key (case (nl, Some r) of (None, r) \<Rightarrow> r | (Some l, None) \<Rightarrow> Some l | (Some l, Some r) \<Rightarrow> Some (ANode c l r))
      ((atree_lookup get_key (ANode c l r))(key := None))"
      using shows_node [OF conjunct1 [OF ihl] same [OF ok(2)] c h] unfolding s .
    then have "shows_map get_key (case nl of None \<Rightarrow> Some r | Some l \<Rightarrow> Some (ANode c l r)) ((atree_lookup get_key (ANode c l r))(key := None))"
      by (simp split: option.splits)
    moreover have "elt = el" "res = (case nl of None \<Rightarrow> Some r | Some l \<Rightarrow> Some (ANode c l r))"
      using 2 ANode.prems(2) l by (auto split: option.splits)
    moreover from this have "elt = atree_lookup get_key (ANode c l r) key"
      using ihl lookup_node [OF ANode.prems(1), of key] 2 by simp
    ultimately show ?thesis by (simp only: simp_thms)
  next
    case 4
    have h: "halves c (atree_lookup get_key l) ((atree_lookup get_key r)(key := None))"
      using ls(2) by (auto simp: halves_def)
    have s: "split_at c (atree_lookup get_key l) ((atree_lookup get_key r)(key := None)) = (atree_lookup get_key (ANode c l r))(key := None)"
      using 4 unfolding ls(1) by (auto simp: split_at_def)
    have "shows_map get_key (case (Some l, nr) of (None, r) \<Rightarrow> r | (Some l, None) \<Rightarrow> Some l | (Some l, Some r) \<Rightarrow> Some (ANode c l r))
      ((atree_lookup get_key (ANode c l r))(key := None))"
      using shows_node [OF same [OF ok(1)] conjunct1 [OF ihr] c h] unfolding s .
    then have "shows_map get_key (case nr of None \<Rightarrow> Some l | Some r \<Rightarrow> Some (ANode c l r)) ((atree_lookup get_key (ANode c l r))(key := None))"
      by (simp split: option.splits)
    moreover have "elt = er" "res = (case nr of None \<Rightarrow> Some l | Some r \<Rightarrow> Some (ANode c l r))"
      using 4 ANode.prems(2) r by (auto split: option.splits)
    moreover from this have "elt = atree_lookup get_key (ANode c l r) key"
      using ihr lookup_node [OF ANode.prems(1), of key] 4 by simp
    ultimately show ?thesis by (simp only: simp_thms)
  qed
qed

end
