(* ===== verification/AtreeDict.thy ===== *)
theory AtreeDict
  imports AtreeMap MapSpec
begin

text \<open>
  What the functions of \<^verbatim>\<open>cuex/atree.h\<close> promise, in terms of the finite maps from keys to elements: lookup, insertion with its
  three ways to treat an element with the same key, erasure, unions, intersections, and that a map has one tree only, so
  that trees of the same elements are the same hash-consed object. The trees with replacement form the constructive
  maps of the library's interface, with keys of 63 bits.
\<close>

section \<open>Canonical trees\<close>

text \<open>The centre of a node is determined by any key on its left and any on its right.\<close>

lemma separating_half:
  assumes "in_left c a" "in_right c b" "c \<noteq> 0" "lowest p < lowest c"
  shows "block (lowest p) a \<noteq> block (lowest p) b"
proof
  assume "block (lowest p) a = block (lowest p) b"
  then have "unat a div 2 ^ lowest c = unat b div 2 ^ lowest c"
    using nat_div_pow2_mono [of "unat a" "Suc (lowest p)" "unat b" "lowest c"] assms(4) by (simp add: block_def)
  moreover have u: "unat c = (2 * block (lowest c) c + 1) * 2 ^ lowest c"
    by (rule lowest_pos [OF refl lowest_less [OF assms(3)]])
  have "unat a div 2 ^ lowest c < 2 * block (lowest c) c + 1"
    using assms(1) u by (simp add: in_left_def word_less_nat_alt div_less_iff_less_mult)
  moreover have "2 * block (lowest c) c + 1 \<le> unat b div 2 ^ lowest c"
    using assms(2) u by (simp add: in_right_def word_le_nat_alt less_eq_div_iff_mult_less_eq)
  ultimately show False by simp
qed

lemma separating_unique:
  assumes "in_left c a" "in_right c b" "c \<noteq> 0" "in_left p a" "in_right p b" "p \<noteq> 0"
  shows "c = p"
proof -
  have same: "block (lowest c) a = block (lowest c) b" "block (lowest p) a = block (lowest p) b"
    using assms by (auto simp: in_left_def in_right_def)
  have "\<not> lowest p < lowest c" using separating_half [OF assms(1-3), of p] same(2) by blast
  moreover have "\<not> lowest c < lowest p" using separating_half [OF assms(4-6), of c] same(1) by blast
  ultimately have l: "lowest c = lowest p" by simp
  have "block (lowest c) c = block (lowest c) p" using assms(1,4) l by (simp add: in_left_def)
  then show ?thesis by (rule same_block_unique) (rule l)
qed

lemma node_sides:
  assumes "atree_ok get_key (ANode c l r)"
  obtains a b where "a \<in> atree_keys get_key l" "b \<in> atree_keys get_key r" "in_left c a" "in_right c b" "a < b"
proof -
  obtain a b where k: "a \<in> atree_keys get_key l" "b \<in> atree_keys get_key r"
    using atree_keys_ne [of get_key l] atree_keys_ne [of get_key r] by blast
  then have "in_left c a" "in_right c b" using assms by simp_all
  moreover from this have "a < b" unfolding in_left_def in_right_def by (meson order.strict_trans2)
  ultimately show thesis using that k by blast
qed

lemma same_keys_same_centre:
  assumes "atree_ok get_key (ANode c l r)" "atree_ok get_key (ANode c' l' r')"
    and "atree_keys get_key (ANode c l r) = atree_keys get_key (ANode c' l' r')"
  shows "c = c'"
proof -
  let ?K = "atree_keys get_key (ANode c l r)"
  have fin: "finite ?K" by (simp only: atree_keys_def) simp
  have sides: "in_left d (Min ?K) \<and> in_right d (Max ?K)"
    if ok: "atree_ok get_key (ANode d x y)" and K: "?K = atree_keys get_key (ANode d x y)" for d x y
  proof -
    obtain a b where k: "a \<in> ?K" "b \<in> ?K" "in_left d a" "in_right d b"
      using node_sides [OF ok] K by (metis UnCI atree_keys_simps(2))
    have all: "in_left d k \<or> in_right d k" if "k \<in> ?K" for k
      using ok that unfolding K by auto
    have m: "Min ?K \<le> a" "b \<le> Max ?K" using k fin by simp_all
    have "Min ?K \<in> ?K" "Max ?K \<in> ?K" using fin k(1) by (intro Min_in Max_in; blast)+
    note all [OF this(1)] all [OF this(2)]
    moreover have "\<not> in_right d (Min ?K)"
    proof
      assume "in_right d (Min ?K)"
      then have "d \<le> a" using m(1) unfolding in_right_def by (metis order.trans)
      then show False using k(3) unfolding in_left_def by (metis leD)
    qed
    moreover have "\<not> in_left d (Max ?K)"
    proof
      assume "in_left d (Max ?K)"
      then have "b < d" using m(2) unfolding in_left_def by (metis order.strict_trans1)
      then show False using k(4) unfolding in_right_def by (metis leD)
    qed
    ultimately show ?thesis by blast
  qed
  have "c \<noteq> 0" "c' \<noteq> 0" using assms(1,2) by simp_all
  then show ?thesis
    using separating_unique [of c "Min ?K" "Max ?K" c'] sides [OF assms(1) refl] sides [OF assms(2,3)] by blast
qed

lemma leaf_not_node:
  assumes "atree_ok get_key (ANode c l r)"
  shows "atree_keys get_key (ANode c l r) \<noteq> {k}"
proof -
  obtain a b where "a \<in> atree_keys get_key l" "b \<in> atree_keys get_key r" "a < b" using node_sides [OF assms] by blast
  then show ?thesis by (metis UnCI atree_keys_simps(2) less_irrefl singletonD)
qed

lemma lookup_half:
  assumes "atree_ok get_key (ANode c l r)"
  shows "atree_lookup get_key l = (\<lambda>k. if k < c then atree_lookup get_key (ANode c l r) k else None)"
    "atree_lookup get_key r = (\<lambda>k. if k < c then None else atree_lookup get_key (ANode c l r) k)"
proof -
  have "k < c" if "k \<in> atree_keys get_key l" for k using assms that by (simp add: in_left_def)
  moreover have "\<not> k < c" if "k \<in> atree_keys get_key r" for k
  proof -
    have "in_right c k" using assms that by simp
    then show ?thesis by (simp add: in_right_def not_less)
  qed
  ultimately show "atree_lookup get_key l = (\<lambda>k. if k < c then atree_lookup get_key (ANode c l r) k else None)"
    "atree_lookup get_key r = (\<lambda>k. if k < c then None else atree_lookup get_key (ANode c l r) k)"
    by (auto simp: lookup_node [OF assms] lookup_None fun_eq_iff)
qed

lemma atree_canonical:
  "atree_ok get_key t \<Longrightarrow> atree_ok get_key t' \<Longrightarrow> atree_lookup get_key t = atree_lookup get_key t' \<Longrightarrow> t = t'"
proof (induction t arbitrary: t')
  case (ALeaf e)
  have k: "atree_keys get_key t' = {get_key e}" using ALeaf.prems(3) atree_lookup_dom [of get_key] by (metis atree_keys_simps(1))
  show ?case
  proof (cases t')
    case (ALeaf e')
    then show ?thesis using fun_cong [OF ALeaf.prems(3), of "get_key e"] by (simp add: lookup_leaf split: if_splits)
  next
    case (ANode c l r)
    then show ?thesis using leaf_not_node ALeaf.prems(2) k by metis
  qed
next
  case (ANode c l r)
  have k: "atree_keys get_key (ANode c l r) = atree_keys get_key t'" using ANode.prems(3) atree_lookup_dom [of get_key] by metis
  show ?case
  proof (cases t')
    case (ALeaf e')
    then show ?thesis using leaf_not_node [OF ANode.prems(1)] k by (metis atree_keys_simps(1))
  next
    case n: (ANode c' l' r')
    have c: "c = c'" using same_keys_same_centre ANode.prems(1,2) k unfolding n by blast
    have "atree_lookup get_key l = atree_lookup get_key l'" "atree_lookup get_key r = atree_lookup get_key r'"
      by (simp_all only: lookup_half [OF ANode.prems(1)] lookup_half [OF ANode.prems(2) [unfolded n]] ANode.prems(3) n c [symmetric])
    then have "l = l'" "r = r'" using ANode.IH ANode.prems(1,2) by (simp_all add: n)
    then show ?thesis by (simp add: n c)
  qed
qed

section \<open>The functions of the interface\<close>

definition atree_valid :: "('e \<Rightarrow> u64) \<Rightarrow> 'e atree option \<Rightarrow> bool" where
  "atree_valid get_key t = (case t of None \<Rightarrow> True | Some t \<Rightarrow> atree_ok get_key t)"

definition atree_map :: "('e \<Rightarrow> u64) \<Rightarrow> 'e atree option \<Rightarrow> u64 \<Rightarrow> 'e option" where
  "atree_map get_key t = (case t of None \<Rightarrow> Map.empty | Some t \<Rightarrow> atree_lookup get_key t)"

lemma valid_simps [simp]:
  "atree_valid get_key None" "atree_valid get_key (Some t) = atree_ok get_key t"
  "atree_map get_key None = Map.empty" "atree_map get_key (Some t) = atree_lookup get_key t"
  by (simp_all add: atree_valid_def atree_map_def)

lemma shows_valid: "shows_map get_key t M \<longleftrightarrow> atree_valid get_key t \<and> atree_map get_key t = M"
  by (cases t) (auto simp: shows_map_def)

lemma map_ne: "atree_map get_key t = Map.empty \<longleftrightarrow> t = None"
proof (cases t)
  case (Some u)
  have "atree_lookup get_key u \<noteq> Map.empty" using atree_keys_ne [of get_key u] atree_lookup_dom [of get_key u] by auto
  then show ?thesis using Some by simp
qed simp

lemma valid_canonical:
  assumes "atree_valid get_key t" "atree_valid get_key t'" "atree_map get_key t = atree_map get_key t'"
  shows "t = t'"
proof (cases t)
  case None
  then have "t' = None" using assms(3) map_ne [of get_key t'] by simp
  then show ?thesis using None by simp
next
  case t: (Some u)
  then obtain u' where u': "t' = Some u'" using assms(3) map_ne [of get_key t] by (cases t') auto
  then show ?thesis using atree_canonical assms t by simp
qed

lemma unites_valid:
  assumes "\<not> conflict m M0 M1" "unites get_key m M0 M1 res"
  shows "atree_valid get_key res \<and> atree_map get_key res = (\<lambda>k. combine m (M0 k) (M1 k))"
  using assms by (auto simp: unites_def split: option.splits)

lemma keeps_keys_simps [simp]: "keeps_keys get_key merge_as_first" "keeps_keys get_key merge_as_second" "keeps_keys get_key merge_disjoin"
  by (simp_all add: keeps_keys_def merge_as_first_def merge_as_second_def merge_disjoin_def)

lemma no_conflict [simp]: "\<not> conflict merge_as_first M0 M1" "\<not> conflict merge_as_second M0 M1"
  by (simp_all add: conflict_def merge_as_first_def merge_as_second_def)

lemma insert_valid:
  assumes "keeps_keys get_key m" "atree_valid get_key t" "small_key (get_key v)"
  shows "unites get_key m (atree_map get_key t) [get_key v \<mapsto> v]
    (case t of None \<Rightarrow> Some (ALeaf v) | Some t \<Rightarrow> atree_insert get_key m t v)"
proof -
  have s: "atree_lookup get_key (ALeaf v) = [get_key v \<mapsto> v]" by (auto simp: lookup_leaf fun_eq_iff)
  show ?thesis
  proof (cases t)
    case None
    have "atree_ok get_key (ALeaf v)" using assms(3) by simp
    from unites_empty(1) [OF this, of m] show ?thesis using None s by simp
  next
    case (Some u)
    then show ?thesis using insert_unites [of get_key m u v] assms s by simp
  qed
qed

lemma union_valid:
  assumes "keeps_keys get_key m" "atree_valid get_key t0" "atree_valid get_key t1"
  shows "(t0 = None \<and> t1 = None) \<or> unites get_key m (atree_map get_key t0) (atree_map get_key t1)
    (case (t0, t1) of (None, _) \<Rightarrow> t1 | (_, None) \<Rightarrow> t0 | (Some t0, Some t1) \<Rightarrow> atree_union get_key m t0 t1)"
  using assms unites_empty [of get_key _ m] union_unites [of get_key m] by (cases t0; cases t1) auto

lemma erase_valid:
  assumes "atree_valid get_key t" "(case t of None \<Rightarrow> (None, None) | Some t \<Rightarrow> atree_erase get_key t key) = (res, elt)"
  shows "atree_valid get_key res \<and> atree_map get_key res = (atree_map get_key t)(key := None) \<and> elt = atree_map get_key t key"
  using assms erase_shows [of get_key _ key res elt] by (cases t) (auto simp: shows_valid)

lemma isecn_valid:
  assumes "keeps_keys get_key m" "atree_valid get_key t0" "atree_valid get_key t1"
  shows "shows_map get_key
    (case (t0, t1) of (None, _) \<Rightarrow> t0 | (_, None) \<Rightarrow> t1 | (Some t0, Some t1) \<Rightarrow> atree_isecn get_key m t0 t1)
    (meet m (atree_map get_key t0) (atree_map get_key t1))"
  using assms isecn_meets [of get_key m] by (cases t0; cases t1) (auto simp: shows_map_def meet_def split: option.splits)

lemma find_valid: "atree_valid get_key t \<Longrightarrow> cuex_atree_find get_key t key = atree_map get_key t key"
  by (cases t) (simp_all add: cuex_atree_find_def find_lookup)

lemma replace_valid:
  assumes "atree_valid get_key t" "small_key (get_key v)"
  shows "atree_valid get_key (cuex_atree_replace get_key t v) \<and>
    atree_map get_key (cuex_atree_replace get_key t v) = (atree_map get_key t)(get_key v \<mapsto> v)"
proof -
  have "(\<lambda>k. combine merge_as_second (atree_map get_key t k) ([get_key v \<mapsto> v] k)) = (atree_map get_key t)(get_key v \<mapsto> v)"
    by (auto simp: combine_def merge_as_second_def fun_eq_iff split: option.split)
  then show ?thesis
    using unites_valid [OF no_conflict(2) insert_valid [OF keeps_keys_simps(2) assms]] by (simp add: cuex_atree_replace_def)
qed

lemma insert_first_valid:
  assumes "atree_valid get_key t" "small_key (get_key v)"
  shows "atree_valid get_key (cuex_atree_insert get_key t v) \<and>
    atree_map get_key (cuex_atree_insert get_key t v) = [get_key v \<mapsto> v] ++ atree_map get_key t"
proof -
  have "(\<lambda>k. combine merge_as_first (atree_map get_key t k) ([get_key v \<mapsto> v] k)) = [get_key v \<mapsto> v] ++ atree_map get_key t"
    by (auto simp: combine_def merge_as_first_def map_add_def fun_eq_iff split: option.split)
  then show ?thesis
    using unites_valid [OF no_conflict(1) insert_valid [OF keeps_keys_simps(1) assms]] by (simp add: cuex_atree_insert_def)
qed

lemma left_union_valid:
  assumes "atree_valid get_key t0" "atree_valid get_key t1"
  shows "atree_valid get_key (cuex_atree_left_union get_key t0 t1) \<and>
    atree_map get_key (cuex_atree_left_union get_key t0 t1) = atree_map get_key t1 ++ atree_map get_key t0"
proof -
  have c: "(\<lambda>k. combine merge_as_first (M0 k) (M1 k)) = M1 ++ M0" for M0 M1 :: "u64 \<Rightarrow> 'a option"
    by (auto simp: combine_def merge_as_first_def map_add_def fun_eq_iff split: option.split)
  show ?thesis
    using union_valid [OF keeps_keys_simps(1) assms] unfolding cuex_atree_left_union_def [symmetric]
    by (elim disjE) (simp_all add: cuex_atree_left_union_def unites_valid [OF no_conflict(1)] flip: c)
qed

lemma cuex_erase_valid:
  assumes "atree_valid get_key t"
  shows "atree_valid get_key (cuex_atree_erase get_key t key) \<and>
    atree_map get_key (cuex_atree_erase get_key t key) = (atree_map get_key t)(key := None)"
proof -
  obtain res elt where r: "(case t of None \<Rightarrow> (None, None) | Some t \<Rightarrow> atree_erase get_key t key) = (res, elt)" by (metis surj_pair)
  have "cuex_atree_erase get_key t key = res" using r by (cases t) (simp_all add: cuex_atree_erase_def)
  then show ?thesis using erase_valid [OF assms r] by simp
qed

section \<open>Trees of pairs as constructive maps\<close>

definition pair_lookup :: "(u64 \<times> 'v) atree option \<Rightarrow> 63 word \<Rightarrow> 'v option" where
  "pair_lookup t k = map_option snd (atree_map fst t (ucast k))"

definition pair_insert :: "(u64 \<times> 'v) atree option \<Rightarrow> 63 word \<Rightarrow> 'v \<Rightarrow> (u64 \<times> 'v) atree option" where
  "pair_insert t k v = cuex_atree_replace fst t (ucast k, v)"

definition pair_erase :: "(u64 \<times> 'v) atree option \<Rightarrow> 63 word \<Rightarrow> (u64 \<times> 'v) atree option" where
  "pair_erase t k = cuex_atree_erase fst t (ucast k)"

lemma small_ucast: "small_key (ucast (k :: 63 word))"
  using bit_imp_le_length [of k 63] by (auto simp: small_key_def bit_ucast_iff)

lemma small_is_ucast: "small_key k \<Longrightarrow> \<exists>j :: 63 word. k = ucast j"
proof -
  assume k: "small_key k"
  have "bit k n = bit (ucast (ucast k :: 63 word) :: u64) n" if "n < 64" for n
  proof (cases "n = 63")
    case True
    then show ?thesis using k bit_imp_le_length [of "ucast k :: 63 word" 63] by (auto simp: small_key_def bit_ucast_iff)
  qed (use that in \<open>auto simp: bit_ucast_iff\<close>)
  then have "k = ucast (ucast k :: 63 word)" by (intro bit_word_eqI) simp
  then show ?thesis by blast
qed

lemma ucast_63_inj: "ucast (j :: 63 word) = (ucast k :: u64) \<longleftrightarrow> j = k"
proof
  assume "ucast j = (ucast k :: u64)"
  then have "unat (ucast j :: u64) = unat (ucast k :: u64)" by simp
  moreover have "unat (ucast i :: u64) = unat i" for i :: "63 word"
  proof -
    have "unat i < 2 ^ 64" using unsigned_less [of i, where 'a=nat] by simp
    then show ?thesis by (simp add: unsigned_ucast_eq take_bit_nat_eq_self)
  qed
  ultimately show "j = k" by (simp add: word_unat_eq_iff)
qed simp

lemma map_key: "atree_map get_key t k = Some e \<Longrightarrow> get_key e = k"
  by (cases t) (auto dest: lookup_key)

lemma map_small: "atree_valid get_key t \<Longrightarrow> atree_map get_key t k = Some e \<Longrightarrow> small_key k"
proof (cases t)
  case (Some u)
  assume a: "atree_valid get_key t" "atree_map get_key t k = Some e"
  then have "k \<in> dom (atree_lookup get_key u)" using Some by auto
  then show ?thesis using a(1) Some atree_small [of get_key u k] unfolding atree_lookup_dom by simp
qed simp

lemma pair_option_eq:
  assumes "map_option snd x = map_option snd y" "\<And>e. x = Some e \<Longrightarrow> fst e = k" "\<And>e. y = Some e \<Longrightarrow> fst e = k"
  shows "x = y"
proof (cases x)
  case None
  then show ?thesis using assms(1) by (cases y) simp_all
next
  case (Some a)
  then obtain b where b: "y = Some b" "snd a = snd b" using assms(1) by (cases y) auto
  then have "fst a = fst b" using assms(2) [OF Some] assms(3) [OF b(1)] by simp
  then show ?thesis using Some b by (simp add: prod_eq_iff)
qed

lemma pair_lookup_eq:
  assumes "atree_valid fst s" "atree_valid fst t" "pair_lookup s = pair_lookup t"
  shows "atree_map fst s = atree_map fst t"
proof
  fix k
  have out: "atree_map fst u k = None" if "\<not> small_key k" "atree_valid fst u" for u :: "(u64 \<times> 'a) atree option"
  proof (rule ccontr)
    assume "atree_map fst u k \<noteq> None"
    then show False using map_small [OF that(2), of k] that(1) by blast
  qed
  show "atree_map fst s k = atree_map fst t k"
  proof (cases "small_key k")
    case True
    then obtain j :: "63 word" where "k = ucast j" using small_is_ucast by blast
    then have "map_option snd (atree_map fst s k) = map_option snd (atree_map fst t k)"
      using fun_cong [OF assms(3), of j] by (simp add: pair_lookup_def)
    then show ?thesis by (rule pair_option_eq [of _ _ k]) (rule map_key, assumption)+
  next
    case False
    then show ?thesis using out [OF False assms(1)] out [OF False assms(2)] by simp
  qed
qed

interpretation atree: constructive_map "atree_valid fst" pair_lookup "\<lambda>_ :: 'v. True" cuex_atree_empty
  pair_insert pair_erase "cuex_atree_left_union fst"
proof
  fix m n :: "(u64 \<times> 'v) atree option" and k :: "63 word" and v :: 'v
  note empty = cuex_atree_empty_def
  show "atree_valid fst (cuex_atree_empty :: (u64 \<times> 'v) atree option)" "pair_lookup (cuex_atree_empty :: (u64 \<times> 'v) atree option) = Map.empty"
    by (simp_all add: empty pair_lookup_def fun_eq_iff)
  assume m: "atree_valid fst m"
  note ins = replace_valid [OF m, of "(ucast k, v)"]
  show "atree_valid fst (pair_insert m k v)" using ins small_ucast by (simp add: pair_insert_def)
  show "pair_lookup (pair_insert m k v) = (pair_lookup m)(k \<mapsto> v)"
    using ins small_ucast by (auto simp: pair_insert_def pair_lookup_def fun_eq_iff ucast_63_inj)
  show "atree_valid fst (pair_erase m k)" using cuex_erase_valid [OF m] by (simp add: pair_erase_def)
  show "pair_lookup (pair_erase m k) = (pair_lookup m)(k := None)"
    using cuex_erase_valid [OF m] by (auto simp: pair_erase_def pair_lookup_def fun_eq_iff ucast_63_inj)
  assume n: "atree_valid fst n"
  show "atree_valid fst (cuex_atree_left_union fst m n)" using left_union_valid [OF m n] by simp
  show "pair_lookup (cuex_atree_left_union fst m n) = pair_lookup n ++ pair_lookup m"
    using left_union_valid [OF m n] by (auto simp: pair_lookup_def fun_eq_iff map_add_def split: option.split)
  assume "pair_lookup m = pair_lookup n"
  then show "m = n" using pair_lookup_eq [OF m n] valid_canonical [OF m n] by blast
qed

end
