(* ===== verification/AtreeOrder.thy ===== *)
theory AtreeOrder
  imports AtreeDict
begin

text \<open>
  Comparison of the trees of \<^verbatim>\<open>cuex/atree.c\<close>: with keys that are even, as the addresses of aligned objects are,
  the subset test decides inclusion of the finite maps and the ordering function computes their order.
\<close>

section \<open>Inclusion of maps\<close>

definition included :: "('e \<Rightarrow> 'e \<Rightarrow> bool) \<Rightarrow> (u64 \<Rightarrow> 'e option) \<Rightarrow> (u64 \<Rightarrow> 'e option) \<Rightarrow> bool" where
  "included le M0 M1 \<longleftrightarrow> (\<forall>k e0. M0 k = Some e0 \<longrightarrow> (\<exists>e1. M1 k = Some e1 \<and> le e0 e1))"

lemma included_dom: "included le M0 M1 \<Longrightarrow> dom M0 \<subseteq> dom M1"
  by (auto simp: included_def)

lemma included_refl: "(\<And>e. le e e) \<Longrightarrow> included le M M"
  by (simp add: included_def)

lemma included_split:
  assumes "halves c L0 R0" "halves c L1 R1"
  shows "included le (split_at c L0 R0) (split_at c L1 R1) \<longleftrightarrow> included le L0 L1 \<and> included le R0 R1"
proof -
  have l: "k < c" if "L0 k = Some e" for k e using assms(1) that by (auto simp: halves_def in_left_def)
  have r: "\<not> k < c" if "R0 k = Some e" for k e
  proof -
    have "in_right c k" using assms(1) that unfolding halves_def by blast
    then show ?thesis by (simp add: in_right_def not_less)
  qed
  show ?thesis
  proof
    assume i: "included le (split_at c L0 R0) (split_at c L1 R1)"
    have "\<exists>e1. L1 k = Some e1 \<and> le e0 e1" if "L0 k = Some e0" for k e0
      using i [unfolded included_def, rule_format, of k e0] l [OF that] that by (simp add: split_at_def)
    moreover have "\<exists>e1. R1 k = Some e1 \<and> le e0 e1" if "R0 k = Some e0" for k e0
      using i [unfolded included_def, rule_format, of k e0] r [OF that] that by (simp add: split_at_def)
    ultimately show "included le L0 L1 \<and> included le R0 R1" unfolding included_def by blast
  qed (auto simp: included_def split_at_def)
qed

lemma included_left:
  assumes "atree_ok get_key (ANode c l r)" "\<And>k. k \<in> dom M \<Longrightarrow> in_left c k"
  shows "included le M (atree_lookup get_key (ANode c l r)) \<longleftrightarrow> included le M (atree_lookup get_key l)"
proof -
  have "k < c" if "M k = Some e" for k e using assms(2) that by (auto simp: in_left_def)
  then show ?thesis unfolding included_def lookup_node [OF assms(1)] by auto
qed

lemma included_right:
  assumes "atree_ok get_key (ANode c l r)" "\<And>k. k \<in> dom M \<Longrightarrow> in_right c k"
  shows "included le M (atree_lookup get_key (ANode c l r)) \<longleftrightarrow> included le M (atree_lookup get_key r)"
proof -
  have "\<not> k < c" if "M k = Some e" for k e
  proof -
    have "in_right c k" using assms(2) that by blast
    then show ?thesis by (simp add: in_right_def not_less)
  qed
  then show ?thesis unfolding included_def lookup_node [OF assms(1)] by auto
qed

text \<open>A node has keys on both sides, so its map is not included in one that misses a side.\<close>

lemma node_not_included:
  assumes "atree_ok get_key (ANode c l r)" "(\<forall>k \<in> dom M. \<not> in_left c k) \<or> (\<forall>k \<in> dom M. \<not> in_right c k)"
  shows "\<not> included le (atree_lookup get_key (ANode c l r)) M"
proof
  assume "included le (atree_lookup get_key (ANode c l r)) M"
  then have "atree_keys get_key (ANode c l r) \<subseteq> dom M" using included_dom atree_lookup_dom by metis
  then show False using node_sides [OF assms(1)] assms(2) by (metis UnCI atree_keys_simps(2) subsetD)
qed

lemma side_not_other: "in_left c k \<Longrightarrow> \<not> in_right c k"
  unfolding in_left_def in_right_def by (metis leD)

lemma key_not_included:
  assumes "k \<in> atree_keys get_key t0" "k \<notin> atree_keys get_key t1"
  shows "\<not> included le (atree_lookup get_key t0) (atree_lookup get_key t1)"
proof
  assume "included le (atree_lookup get_key t0) (atree_lookup get_key t1)"
  from included_dom [OF this] show False using assms by (auto simp: atree_lookup_dom)
qed

section \<open>The subset test\<close>

definition even_keys :: "('e \<Rightarrow> u64) \<Rightarrow> 'e atree \<Rightarrow> bool" where
  "even_keys get_key t \<longleftrightarrow> (\<forall>k \<in> atree_keys get_key t. \<not> bit k 0)"

lemma even_node: "even_keys get_key (ANode c l r) \<longleftrightarrow> even_keys get_key l \<and> even_keys get_key r"
  by (auto simp: even_keys_def)

lemma centre_max_odd: "c \<noteq> 0 \<Longrightarrow> bit (centre_to_max c) 0"
  by (simp add: centre_to_max_def Let_def centre_mask bit_simps)

text \<open>The only centre that is the end of the block of another belongs to a node of an even and an odd key.\<close>

lemma even_centre:
  assumes "atree_ok get_key (ANode c l r)" "even_keys get_key (ANode c l r)"
  shows "\<not> bit c 0"
proof
  assume o: "bit c 0"
  then have z: "lowest c = 0" using lowest_below [of 0 c] by force
  obtain a b where k: "b \<in> atree_keys get_key r" "in_right c b" using node_sides [OF assms(1)] by blast
  have "unat c div 2 = unat b div 2" using k(2) z by (simp add: in_right_def block_def)
  moreover have bu: "bit x 0 \<longleftrightarrow> odd (unat x)" for x :: u64 by (simp add: bit_unsigned_iff flip: bit_0)
  then have "odd (unat c)" using o by blast
  moreover have "unat c \<le> unat b" using k(2) by (simp add: in_right_def word_le_nat_alt)
  ultimately have "odd (unat b)" by presburger
  then show False using assms(2) k(1) by (simp only: even_keys_def bu atree_keys_simps Un_iff) blast
qed

lemma node_cases_max:
  assumes "atree_ok get_key (ANode c0 l0 r0)" "even_keys get_key (ANode c0 l0 r0)" "atree_ok get_key (ANode c1 l1 r1)"
    and "c1 < c0"
  shows "centre_to_max c1 > c0 \<longleftrightarrow> \<not> centre_to_max c1 < c0"
proof -
  have "c1 \<noteq> 0" using assms(3) by simp
  then have "centre_to_max c1 \<noteq> c0" using centre_max_odd [of c1] even_centre [OF assms(1,2)] by metis
  then show ?thesis by (metis less_linear less_asym)
qed

lemma subseteq_included:
  assumes "\<And>e. le e e" "atree_ok get_key t0" "atree_ok get_key t1" "even_keys get_key t0"
  shows "atree_subseteq get_key le t0 t1 \<longleftrightarrow> included le (atree_lookup get_key t0) (atree_lookup get_key t1)"
  using assms
proof (induction get_key le t0 t1 rule: atree_subseteq.induct)
  case (1 get_key le e0 t1)
  have "included le (atree_lookup get_key (ALeaf e0)) (atree_lookup get_key t1) \<longleftrightarrow>
      (case atree_lookup get_key t1 (get_key e0) of None \<Rightarrow> False | Some e1 \<Rightarrow> le e0 e1)"
    by (auto simp: included_def lookup_leaf split: option.splits)
  then show ?case
    using "1.prems"(1) included_refl [of le] by (cases "t1 = ALeaf e0") (simp_all add: cuex_find_lookup [OF "1.prems"(3)])
next
  case (2 get_key le c l r e1)
  have "dom (atree_lookup get_key (ALeaf e1)) = {get_key e1}" by (simp add: atree_lookup_dom)
  then have "\<not> included le (atree_lookup get_key (ANode c l r)) (atree_lookup get_key (ALeaf e1))"
    using node_not_included [OF "2.prems"(2)] side_not_other by (metis singletonD)
  then show ?case by simp
next
  case (3 get_key le c0 l0 r0 c1 l1 r1)
  note ok = "3.prems"(2,3) and ih = "3.IH" and r = "3.prems"(1) and ev = "3.prems"(4)
  have sub: "atree_ok get_key l0" "atree_ok get_key r0" "atree_ok get_key l1" "atree_ok get_key r1" using ok by simp_all
  have evs: "even_keys get_key l0" "even_keys get_key r0" using ev by (simp_all add: even_node)
  have keys: "k \<in> dom (atree_lookup get_key t) \<longleftrightarrow> k \<in> atree_keys get_key t" for t k by (simp add: atree_lookup_dom)
  have c: "c0 \<noteq> 0" "c1 \<noteq> 0" using ok by simp_all
  show ?case
  proof (cases "ANode c0 l0 r0 = ANode c1 l1 r1")
    case True
    then show ?thesis using included_refl [of le] r by simp
  next
    case ne: False
    consider "c0 = c1" | "c0 < c1" | "c1 < c0" by fastforce
    then show ?thesis
    proof cases
      case 1
      have "atree_lookup get_key (ANode c1 l1 r1) = split_at c0 (atree_lookup get_key l1) (atree_lookup get_key r1)"
        using lookup_split(1) [OF ok(2)] 1 by simp
      then have "included le (atree_lookup get_key (ANode c0 l0 r0)) (atree_lookup get_key (ANode c1 l1 r1)) \<longleftrightarrow>
          included le (atree_lookup get_key l0) (atree_lookup get_key l1) \<and> included le (atree_lookup get_key r0) (atree_lookup get_key r1)"
        using included_split [OF lookup_split(2) [OF ok(1)] lookup_split(2) [OF ok(2), folded 1]] lookup_split(1) [OF ok(1)]
        by (simp only:)
      moreover have "atree_subseteq get_key le (ANode c0 l0 r0) (ANode c1 l1 r1) \<longleftrightarrow>
          atree_subseteq get_key le l0 l1 \<and> atree_subseteq get_key le r0 r1"
        using ne 1 by auto
      ultimately show ?thesis
        using ih(1) [OF ne 1 r sub(1,3) evs(1)] ih(2) [OF ne 1 _ r sub(2,4) evs(2)] by blast
    next
      case 2
      then have n: "c0 \<noteq> c1" by simp
      show ?thesis
      proof (cases "centre_to_min c1 < c0")
        case True
        have le: "c0 \<le> centre_to_max c0" using greater_centre_max [OF c(1), of c0] by (simp add: not_less [symmetric])
        have "centre_to_max c0 < c1"
        proof (rule ccontr)
          assume n: "\<not> centre_to_max c0 < c1"
          have "in_block c1 (centre_to_min c1)"
            using unat_centre_min [OF c(2)] by (simp add: block_def [of _ "centre_to_min c1"] del: power_Suc)
          from nested_right(1) [OF c 2 n this] show False using True unfolding in_right_def by (metis leD)
        qed
        moreover have "\<not> centre_to_max c0 < centre_to_min c1" using True le by (metis not_less order.strict_trans1 order.strict_trans2 order.asym)
        ultimately have "in_left c1 k" if "k \<in> dom (atree_lookup get_key (ANode c0 l0 r0))" for k
          using nested_left [OF c] node_keys_block [OF ok(1)] that unfolding keys by blast
        from included_left [where M = "atree_lookup get_key (ANode c0 l0 r0)" and le = le, OF ok(2) this] show ?thesis
          using ih(3) [OF ne n 2 True r ok(1) sub(3) ev]
          by (simp only: atree_subseteq.simps(3) if_not_P [OF ne] if_not_P [OF n] if_P [OF 2] if_P [OF True])
      next
        case False
        obtain a where a: "a \<in> atree_keys get_key l0" "a < c0"
          using node_sides [OF ok(1)] unfolding in_left_def by metis
        have "a < centre_to_min c1" using a(2) False by (metis not_less order.strict_trans2)
        then have "\<not> in_block c1 a" using less_centre_min [OF c(2), of a] by simp
        then have "a \<notin> atree_keys get_key (ANode c1 l1 r1)" using node_keys_block [OF ok(2)] by blast
        then have "\<not> included le (atree_lookup get_key (ANode c0 l0 r0)) (atree_lookup get_key (ANode c1 l1 r1))"
          by (rule key_not_included [of a, rotated]) (use a(1) in simp)
        then show ?thesis by (simp only: atree_subseteq.simps(3) if_not_P [OF ne] if_not_P [OF n] if_P [OF 2] if_not_P [OF False])
      qed
    next
      case 3
      then have n: "c0 \<noteq> c1" "\<not> c0 < c1" by auto
      note m = node_cases_max [OF ok(1) ev ok(2) 3]
      show ?thesis
      proof (cases "centre_to_max c1 < c0")
        case True
        obtain b where b: "b \<in> atree_keys get_key r0" "c0 \<le> b"
          using node_sides [OF ok(1)] unfolding in_right_def by metis
        have "centre_to_max c1 < b" using b(2) True by (metis order.strict_trans2)
        then have "\<not> in_block c1 b" using greater_centre_max [OF c(2), of b] by simp
        then have "b \<notin> atree_keys get_key (ANode c1 l1 r1)" using node_keys_block [OF ok(2)] by blast
        then have "\<not> included le (atree_lookup get_key (ANode c0 l0 r0)) (atree_lookup get_key (ANode c1 l1 r1))"
          by (rule key_not_included [of b, rotated]) (use b(1) in simp)
        then show ?thesis using ne n m True by simp
      next
        case False
        then have "in_right c1 k" if "k \<in> dom (atree_lookup get_key (ANode c0 l0 r0))" for k
          using nested_right(1) [OF c(2,1) 3 False] node_keys_block [OF ok(1)] that unfolding keys by blast
        from included_right [where M = "atree_lookup get_key (ANode c0 l0 r0)" and le = le, OF ok(2) this] show ?thesis
          using ih(4) [OF ne n _ r ok(1) sub(4) ev] ne n m False by simp
      qed
    qed
  qed
qed

section \<open>The order of trees\<close>

definition order_by :: "bool \<Rightarrow> bool \<Rightarrow> cu_order" where
  "order_by le ge = (if le then if ge then cu_order_eq else cu_order_lt else if ge then cu_order_gt else cu_order_none)"

lemma order_by_simps [simp]:
  "order_by True True = cu_order_eq" "order_by True False = cu_order_lt"
  "order_by False True = cu_order_gt" "order_by False False = cu_order_none"
  by (simp_all add: order_by_def)

definition order_maps :: "('e \<Rightarrow> 'e \<Rightarrow> bool) \<Rightarrow> (u64 \<Rightarrow> 'e option) \<Rightarrow> (u64 \<Rightarrow> 'e option) \<Rightarrow> cu_order" where
  "order_maps le M0 M1 = order_by (included le M0 M1) (included le M1 M0)"

lemma order_pairs:
  assumes "x = order_by a b" "x \<noteq> cu_order_none \<Longrightarrow> y = order_by c d"
  shows "(let left_order = x in
       if left_order = cu_order_none then cu_order_none
       else
         (let right_order = y in
          if left_order = right_order then left_order
          else if left_order = cu_order_eq then right_order
          else if right_order = cu_order_eq then left_order
          else cu_order_none)) = order_by (a \<and> c) (b \<and> d)"
  using assms by (cases a; cases b; cases c; cases d) simp_all

lemma not_in_side:
  assumes "atree_ok get_key (ANode c l r)"
  shows "(\<And>k. k \<in> dom M \<Longrightarrow> in_left c k) \<Longrightarrow> \<not> included le (atree_lookup get_key (ANode c l r)) M"
    "(\<And>k. k \<in> dom M \<Longrightarrow> in_right c k) \<Longrightarrow> \<not> included le (atree_lookup get_key (ANode c l r)) M"
  using node_not_included [OF assms] side_not_other by metis+

lemma included_leaf:
  "included le (atree_lookup get_key (ALeaf e)) M \<longleftrightarrow> (case M (get_key e) of None \<Rightarrow> False | Some e' \<Rightarrow> le e e')"
  by (auto simp: included_def lookup_leaf split: option.splits)

lemma node_not_in_leaf:
  assumes "atree_ok get_key (ANode c l r)"
  shows "\<not> included le (atree_lookup get_key (ANode c l r)) (atree_lookup get_key (ALeaf e))"
proof -
  have "dom (atree_lookup get_key (ALeaf e)) = {get_key e}" by (simp add: atree_lookup_dom)
  then show ?thesis using node_not_included [OF assms] side_not_other by (metis singletonD)
qed

lemma disjoint_not_included:
  assumes "atree_ok get_key (ANode c t0 t1)"
  shows "\<not> included le (atree_lookup get_key t0) (atree_lookup get_key t1)" "\<not> included le (atree_lookup get_key t1) (atree_lookup get_key t0)"
proof -
  obtain a b where k: "a \<in> atree_keys get_key t0" "b \<in> atree_keys get_key t1" "in_left c a" "in_right c b"
    using node_sides [OF assms] by metis
  have "a \<notin> atree_keys get_key t1" "b \<notin> atree_keys get_key t0" using k(3,4) assms side_not_other by auto
  then show "\<not> included le (atree_lookup get_key t0) (atree_lookup get_key t1)"
    "\<not> included le (atree_lookup get_key t1) (atree_lookup get_key t0)"
    using included_dom [of le "atree_lookup get_key t0" "atree_lookup get_key t1"]
      included_dom [of le "atree_lookup get_key t1" "atree_lookup get_key t0"] k(1,2)
    unfolding atree_lookup_dom by blast+
qed

lemma order_maps_eq:
  assumes "\<And>e. le e e"
  shows "order_maps le M M = cu_order_eq"
  using included_refl [of le M] assms by (simp add: order_maps_def)

lemma order_included:
  assumes "\<And>e. le e e" "\<And>e0 e1. ord e0 e1 = order_by (le e0 e1) (le e1 e0)"
    and "atree_ok get_key t0" "atree_ok get_key t1" "even_keys get_key t0" "even_keys get_key t1"
  shows "atree_order get_key le ord t0 t1 = order_maps le (atree_lookup get_key t0) (atree_lookup get_key t1)"
  using assms
proof (induction get_key le ord t0 t1 rule: atree_order.induct)
  case (1 get_key le ord e0 e1)
  have l: "included le (atree_lookup get_key (ALeaf a)) (atree_lookup get_key (ALeaf b)) \<longleftrightarrow> get_key a = get_key b \<and> le a b" for a b
    unfolding included_leaf lookup_leaf by simp
  show ?case using "1.prems"(1,2) unfolding order_maps_def l by auto
next
  case (2 get_key le ord e0 c l r)
  then show ?case
    using node_not_in_leaf [OF "2.prems"(4), where le = le and e = e0] cuex_find_lookup [OF "2.prems"(4), of "get_key e0"]
    by (simp add: order_maps_def included_leaf split: option.split del: atree_ok.simps)
next
  case (3 get_key le ord c l r e1)
  then show ?case
    using node_not_in_leaf [OF "3.prems"(3), where le = le and e = e1] cuex_find_lookup [OF "3.prems"(3), of "get_key e1"]
    by (simp add: order_maps_def included_leaf split: option.split del: atree_ok.simps)
next
  case (4 get_key le ord c0 l0 r0 c1 l1 r1)
  note ok = "4.prems"(3,4) and ih = "4.IH" and r = "4.prems"(1) and o = "4.prems"(2) and ev = "4.prems"(5,6)
  have sub: "atree_ok get_key l0" "atree_ok get_key r0" "atree_ok get_key l1" "atree_ok get_key r1" using ok by simp_all
  have evs: "even_keys get_key l0" "even_keys get_key r0" "even_keys get_key l1" "even_keys get_key r1"
    using ev by (simp_all add: even_node)
  note s = subseteq_included [where le = le and get_key = get_key, OF r]
  have keys: "k \<in> dom (atree_lookup get_key t) \<longleftrightarrow> k \<in> atree_keys get_key t" for t k by (simp add: atree_lookup_dom)
  show ?case
  proof (cases "ANode c0 l0 r0 = ANode c1 l1 r1")
    case True
    then show ?thesis using order_maps_eq [of le] r by simp
  next
    case ne: False
    consider "c0 = c1" | "c0 < c1" | "c1 < c0" by fastforce
    then show ?thesis
    proof cases
      case 1
      have l: "atree_lookup get_key (ANode c1 l1 r1) = split_at c0 (atree_lookup get_key l1) (atree_lookup get_key r1)"
        using lookup_split(1) [OF ok(2)] 1 by simp
      note h = lookup_split(2) [OF ok(1)] lookup_split(2) [OF ok(2), folded 1]
      have m: "order_maps le (atree_lookup get_key (ANode c0 l0 r0)) (atree_lookup get_key (ANode c1 l1 r1)) =
          order_by (included le (atree_lookup get_key l0) (atree_lookup get_key l1) \<and> included le (atree_lookup get_key r0) (atree_lookup get_key r1))
            (included le (atree_lookup get_key l1) (atree_lookup get_key l0) \<and> included le (atree_lookup get_key r1) (atree_lookup get_key r0))"
        unfolding order_maps_def l lookup_split(1) [OF ok(1)] included_split [OF h] included_split [OF h(2,1)] ..
      have "atree_order get_key le ord l0 l1 = order_maps le (atree_lookup get_key l0) (atree_lookup get_key l1)"
        by (rule ih(1) [OF ne 1 r o sub(1,3) evs(1,3)])
      moreover have "atree_order get_key le ord r0 r1 = order_maps le (atree_lookup get_key r0) (atree_lookup get_key r1)"
        if "atree_order get_key le ord l0 l1 \<noteq> cu_order_none"
        by (rule ih(2) [OF ne 1 refl that r o sub(2,4) evs(2,4)])
      ultimately have "(let left_order = atree_order get_key le ord l0 l1 in
         if left_order = cu_order_none then cu_order_none
         else
           (let right_order = atree_order get_key le ord r0 r1 in
            if left_order = right_order then left_order
            else if left_order = cu_order_eq then right_order
            else if right_order = cu_order_eq then left_order
            else cu_order_none)) = order_maps le (atree_lookup get_key (ANode c0 l0 r0)) (atree_lookup get_key (ANode c1 l1 r1))"
        unfolding m unfolding order_maps_def by (rule order_pairs)
      then show ?thesis using ne 1 by auto
    next
      case 2
      then have n: "c0 \<noteq> c1" by simp
      show ?thesis
      proof (rule nodes_cases [OF ok 2], goal_cases)
        case c: 1
        show ?case using c(1,2) disjoint_not_included [OF c(3), where le = le] ne n 2 by (simp add: order_maps_def)
      next
        case c: 2
        note d = c(3) [unfolded keys [symmetric]]
        show ?case
          using c(1,2) included_left [OF ok(2) d, where le = le] not_in_side(1) [OF ok(2) d, where le = le] s [OF ok(1) sub(3) ev(1)] ne n 2
          by (simp add: order_maps_def)
      next
        case c: 3
        note d = c(2) [unfolded keys [symmetric]]
        show ?case
          using c(1) included_right [OF ok(1) d, where le = le] not_in_side(2) [OF ok(1) d, where le = le] s [OF ok(2) sub(2) ev(2)] ne n 2
          by (simp add: order_maps_def)
      qed
    next
      case 3
      then have n: "c0 \<noteq> c1" "\<not> c0 < c1" by auto
      show ?thesis
      proof (rule nodes_cases [OF ok(2,1) 3], goal_cases)
        case c: 1
        show ?case using c(1,2) disjoint_not_included [OF c(3), where le = le] ne n by (simp add: order_maps_def)
      next
        case c: 2
        note d = c(3) [unfolded keys [symmetric]]
        show ?case
          using c(1,2) included_left [OF ok(1) d, where le = le] not_in_side(1) [OF ok(1) d, where le = le] s [OF ok(2) sub(1) ev(2)] ne n
          by (simp add: order_maps_def)
      next
        case c: 3
        note d = c(2) [unfolded keys [symmetric]]
        show ?case
          using c(1) included_right [OF ok(2) d, where le = le] not_in_side(2) [OF ok(2) d, where le = le] s [OF ok(1) sub(4) ev(1)] ne n
          by (simp add: order_maps_def)
      qed
    qed
  qed
qed

end
