(* ===== verification/AtreeIter.thy ===== *)
theory AtreeIter
  imports AtreeOrder
begin

text \<open>
  Traversals of the trees of \<^verbatim>\<open>cuex/atree.c\<close>: callbacks see the elements in the order of their keys, the
  cardinality and the index of a key refer to that order, and an iterator needs no more stack than was allocated for it.
\<close>

section \<open>Order of the elements\<close>

lemma leaves_ne [simp]: "atree_leaves t \<noteq> []"
  by (induction t) auto

lemma leaves_sorted: "atree_ok get_key t \<Longrightarrow> sorted_wrt (<) (map get_key (atree_leaves t))"
proof (induction t)
  case (ANode c l r)
  have "get_key x < get_key y" if "x \<in> set (atree_leaves l)" "y \<in> set (atree_leaves r)" for x y
  proof -
    have "in_left c (get_key x)" "in_right c (get_key y)"
      using ANode.prems that by (simp_all add: atree_keys_def)
    then show ?thesis unfolding in_left_def in_right_def by (meson order.strict_trans2)
  qed
  then show ?case using ANode by (simp add: sorted_wrt_append)
qed simp

lemma atree_iter_fold: "atree_iter t f s = fold f (atree_leaves t) s"
  by (induction t arbitrary: s) simp_all

lemma conj_conj_list: "atree_conj t f s = conj_list f (atree_leaves t) s"
  by (induction t arbitrary: s) (auto simp: conj_list_append split: prod.split bool.split)

section \<open>Cardinality, depth and index\<close>

lemma atree_card_sum: "atree_card_loop t n + 1 = n + word_of_nat (length (atree_leaves t))"
proof (induction t arbitrary: n)
  case (ANode c l r)
  have "atree_card_loop l 1 = word_of_nat (length (atree_leaves l))" using ANode.IH(1) [of 1] by (simp only: add.commute add_left_cancel)
  then show ?case using ANode.IH(2) by simp
qed simp

lemma card_leaves: "atree_card t = word_of_nat (length (atree_leaves t))"
  using atree_card_sum [of t 1] by (simp only: atree_card_def add.commute add_left_cancel)

fun height :: "'e atree \<Rightarrow> nat" where
  "height (ALeaf e) = 0"
| "height (ANode c l r) = 1 + max (height l) (height r)"

lemma depth_loop: "max_depth \<ge> depth \<Longrightarrow> atree_depth_loop t depth max_depth = max max_depth (depth + height t)"
proof (induction t arbitrary: depth max_depth)
  case (ANode c l r)
  show ?case using ANode.prems ANode.IH(1) [of 0 0] by (simp add: Let_def ANode.IH(2) max_def)
qed simp

lemma depth_height: "atree_depth t = height t"
  by (simp add: atree_depth_def depth_loop)

lemma distinct_leaves: "atree_ok get_key t \<Longrightarrow> distinct (map get_key (atree_leaves t))"
  using leaves_sorted strict_sorted_iff by metis

lemma find_index_at:
  assumes "atree_ok get_key t" "i < length (atree_leaves t)"
  shows "atree_find_index get_key t (get_key (atree_leaves t ! i)) n = n + word_of_nat i"
  using assms
proof (induction t arbitrary: n i)
  case (ANode c l r)
  let ?k = "get_key (atree_leaves (ANode c l r) ! i)"
  have c: "c \<noteq> 0" using ANode.prems(1) by simp
  have "?k \<in> atree_keys get_key (ANode c l r)" using ANode.prems(2) unfolding atree_keys_def by (intro imageI nth_mem)
  then have b: "\<not> ?k < centre_to_min c" "\<not> centre_to_max c < ?k"
    using node_keys_block [OF ANode.prems(1)] by (simp_all add: centre_range [OF c])
  show ?case
  proof (cases "i < length (atree_leaves l)")
    case True
    then have "in_left c ?k" using ANode.prems(1) by (simp add: atree_keys_def nth_append)
    then have "?k < c" by (simp add: in_left_def)
    then show ?thesis using b ANode True by (simp add: nth_append)
  next
    case False
    then have j: "i - length (atree_leaves l) < length (atree_leaves r)" using ANode.prems(2) by simp
    then have "in_right c ?k" using ANode.prems(1) False by (simp add: atree_keys_def nth_append)
    then have "\<not> ?k < c" by (simp add: in_right_def not_less)
    moreover have "(word_of_nat (length (atree_leaves l)) :: u64) + word_of_nat (i - length (atree_leaves l)) = word_of_nat i"
      using False by (simp flip: of_nat_add)
    moreover have "atree_ok get_key r" using ANode.prems(1) by simp
    note ANode.IH(2) [OF this j, of "n + atree_card l"]
    ultimately show ?thesis using b False by (simp add: nth_append card_leaves add.assoc)
  qed
qed simp

lemma find_index_absent:
  assumes "atree_ok get_key t" "k \<notin> atree_keys get_key t"
  shows "atree_find_index get_key t k n = - 1"
  using assms by (induction t arbitrary: n) auto

section \<open>Iterators\<close>

text \<open>The elements an iterator has still to return, and the stack it uses: one slot for the null pointer, one for each tree.\<close>

definition remaining :: "'e atree list \<Rightarrow> 'e list" where
  "remaining sp = concat (map atree_leaves sp)"

fun fits :: "nat \<Rightarrow> 'e atree list \<Rightarrow> bool" where
  "fits room [] \<longleftrightarrow> True"
| "fits room (t # sp) \<longleftrightarrow> height t + length sp < room \<and> fits room sp"

lemma descend_remaining:
  "atree_itr_descend t sp = (e, sp') \<Longrightarrow> e # remaining sp' = atree_leaves t @ remaining sp"
  by (induction t arbitrary: sp) (auto simp: remaining_def)

lemma descend_fits:
  "atree_itr_descend t sp = (e, sp') \<Longrightarrow> height t + length sp < room \<Longrightarrow> fits room sp \<Longrightarrow> fits room sp'"
  by (induction t arbitrary: sp) auto

lemma fits_length: "fits room sp \<Longrightarrow> length sp \<le> room"
  by (cases sp) auto

lemma itr_get:
  "cuex_atree_itr_get sp = (e, sp') \<Longrightarrow>
    (case remaining sp of [] \<Rightarrow> e = None \<and> remaining sp' = [] | x # xs \<Rightarrow> e = Some x \<and> remaining sp' = xs)"
proof (cases sp)
  case (Cons t sp0)
  assume a: "cuex_atree_itr_get sp = (e, sp')"
  obtain x sq where d: "atree_itr_descend t sp0 = (x, sq)" by (metis surj_pair)
  then have "remaining sp = x # remaining sq" using descend_remaining [OF d] by (simp add: Cons remaining_def)
  moreover have "e = Some x" "sp' = sq" using a d by (simp_all add: Cons cuex_atree_itr_get_def)
  ultimately show ?thesis by simp
qed (simp add: cuex_atree_itr_get_def remaining_def)

lemma itr_get_fits: "cuex_atree_itr_get sp = (e, sp') \<Longrightarrow> fits room sp \<Longrightarrow> fits room sp'"
  by (cases sp) (auto simp: cuex_atree_itr_get_def split: prod.splits intro: descend_fits)

end
