(* ===== verification/CuexEx.thy ===== *)
theory CuexEx
  imports CuInt
begin

unbundle bit_operations_syntax

text \<open>
  The expressions of \<^verbatim>\<open>cuex\<close>: the layout of the metaword (\<^verbatim>\<open>cuoo/meta.h\<close>, \<^verbatim>\<open>cuex/ex.h\<close>, \<^verbatim>\<open>cuex/var.h\<close>), operations with
  their operands (\<^verbatim>\<open>cuex/opn.h\<close>, \<^verbatim>\<open>cuex/opn.c\<close>) and the generic algorithms on them (\<^verbatim>\<open>cuex/algo.c\<close>). Operations are hash-consed, so that
  operations with equal operators and operands are the same object; any other object is known by
  its metaword and its identity.
\<close>

section \<open>Metawords\<close>

definition cuex_meta_mask :: "nat \<Rightarrow> nat \<Rightarrow> u64" where
  "cuex_meta_mask shift width = push_bit shift (push_bit width 1 - 1)"

definition CUEX_METAKIND_MASK :: u64 where "CUEX_METAKIND_MASK = 3"
definition CUEX_OPR_FLAGS_MASK :: u64 where "CUEX_OPR_FLAGS_MASK = cuex_meta_mask 2 1"
definition CUEX_OPR_ARITY_MASK :: u64 where "CUEX_OPR_ARITY_MASK = cuex_meta_mask 3 24"
definition CUEX_OPR_SELECT_MASK :: u64 where "CUEX_OPR_SELECT_MASK = cuex_meta_mask 27 37"
definition CUEX_OPRFLAG_CTOR :: u64 where "CUEX_OPRFLAG_CTOR = push_bit 2 1"

definition cuex_meta_kind :: "u64 \<Rightarrow> u64" where "cuex_meta_kind meta = meta AND 3"

definition cuex_meta_is_type :: "u64 \<Rightarrow> bool" where "cuex_meta_is_type meta \<longleftrightarrow> cuex_meta_kind meta = 0"
definition cuex_meta_is_opr :: "u64 \<Rightarrow> bool" where "cuex_meta_is_opr meta \<longleftrightarrow> cuex_meta_kind meta = 1"

definition cuex_opr_r :: "u64 \<Rightarrow> nat" where
  "cuex_opr_r opr = unat (drop_bit 3 (opr AND CUEX_OPR_ARITY_MASK))"

definition cuex_meta_is_opr_r :: "nat \<Rightarrow> u64 \<Rightarrow> bool" where
  "cuex_meta_is_opr_r r meta \<longleftrightarrow> cuex_meta_is_opr meta \<and> cuex_opr_r meta = r"

definition cuex_opr :: "u64 \<Rightarrow> u64 \<Rightarrow> u64" where
  "cuex_opr index arity = push_bit 27 index OR push_bit 3 arity OR 1"

definition cuex_opr_with_ctor :: "u64 \<Rightarrow> u64 \<Rightarrow> u64" where
  "cuex_opr_with_ctor index arity = cuex_opr index arity OR CUEX_OPRFLAG_CTOR"

definition cuex_opr_index :: "u64 \<Rightarrow> u64" where
  "cuex_opr_index opr = drop_bit 27 (opr AND CUEX_OPR_SELECT_MASK)"

definition cuex_opr_sans_arity :: "u64 \<Rightarrow> u64" where
  "cuex_opr_sans_arity opr = opr AND NOT CUEX_OPR_ARITY_MASK"

definition cuex_opr_flags :: "u64 \<Rightarrow> u64" where "cuex_opr_flags opr = opr AND CUEX_OPR_FLAGS_MASK"
definition cuex_opr_sans_flags :: "u64 \<Rightarrow> u64" where "cuex_opr_sans_flags opr = opr AND NOT CUEX_OPR_FLAGS_MASK"
definition cuex_opr_has_ctor :: "u64 \<Rightarrow> bool" where "cuex_opr_has_ctor opr \<longleftrightarrow> opr AND CUEX_OPRFLAG_CTOR \<noteq> 0"
definition cuex_opr_null :: u64 where "cuex_opr_null = cuex_opr 0 0"

text \<open>Variables: the quantification code is in bits 5 and 6, the kind in bits 7 to 9, the index above.\<close>

definition cuex_varmeta_kqis :: "u64 \<Rightarrow> u64 \<Rightarrow> u64 \<Rightarrow> u64 \<Rightarrow> u64" where
  "cuex_varmeta_kqis kind qcode index wsize = 6 OR push_bit 3 wsize OR push_bit 7 kind OR push_bit 5 qcode OR push_bit 10 index"

definition cuex_varmeta_kqi :: "u64 \<Rightarrow> u64 \<Rightarrow> u64 \<Rightarrow> u64" where
  "cuex_varmeta_kqi kind qcode index = cuex_varmeta_kqis kind qcode index 0"

definition cuex_is_varmeta :: "u64 \<Rightarrow> bool" where "cuex_is_varmeta meta \<longleftrightarrow> 7 AND meta = cuex_varmeta_kqi 0 0 0"

definition cuex_varmeta_qcode :: "u64 \<Rightarrow> u64" where
  "cuex_varmeta_qcode meta = drop_bit 5 (meta AND cuex_meta_mask 5 2)"

definition cuex_varmeta_index :: "u64 \<Rightarrow> u64" where
  "cuex_varmeta_index meta = drop_bit 10 (meta AND cuex_meta_mask 10 54)"

definition cuex_qcode_u :: u64 where "cuex_qcode_u = 0"
definition cuex_qcode_e :: u64 where "cuex_qcode_e = 1"
definition cuex_qcode_w :: u64 where "cuex_qcode_w = 2"
definition cuex_qcode_n :: u64 where "cuex_qcode_n = 3"

definition cuex_is_varmeta_w :: "u64 \<Rightarrow> bool" where
  "cuex_is_varmeta_w meta \<longleftrightarrow> (7 OR cuex_meta_mask 5 2) AND meta = cuex_varmeta_kqi 0 cuex_qcode_w 0"

definition cuex_qcset_singleton :: "u64 \<Rightarrow> u64" where "cuex_qcset_singleton qc = push_bit (unat qc) 1"
definition cuex_qcset_union :: "u64 \<Rightarrow> u64 \<Rightarrow> u64" where "cuex_qcset_union s0 s1 = s0 OR s1"
definition cuex_qcset_isecn :: "u64 \<Rightarrow> u64 \<Rightarrow> u64" where "cuex_qcset_isecn s0 s1 = s0 AND s1"
definition cuex_qcset_contains :: "u64 \<Rightarrow> u64 \<Rightarrow> bool" where "cuex_qcset_contains s qc \<longleftrightarrow> push_bit (unat qc) 1 AND s \<noteq> 0"

section \<open>Expressions\<close>

datatype cuex = Opn u64 "cuex list" | Obj u64 nat

primrec cuex_meta :: "cuex \<Rightarrow> u64" where
  "cuex_meta (Opn opr operands) = opr"
| "cuex_meta (Obj meta i) = meta"

primrec cuex_operands :: "cuex \<Rightarrow> cuex list" where
  "cuex_operands (Opn opr operands) = operands"
| "cuex_operands (Obj meta i) = []"

definition cuex_opn_at :: "cuex \<Rightarrow> nat \<Rightarrow> cuex" where "cuex_opn_at e i = cuex_operands e ! i"
definition cuex_opn_arity :: "cuex \<Rightarrow> nat" where "cuex_opn_arity e = cuex_opr_r (cuex_meta e)"

definition cuex_is_opn :: "cuex \<Rightarrow> bool" where "cuex_is_opn e \<longleftrightarrow> cuex_meta_kind (cuex_meta e) = 1"
definition cuex_is_obj :: "cuex \<Rightarrow> bool" where "cuex_is_obj e \<longleftrightarrow> cuex_meta_kind (cuex_meta e) = 0"
definition cuex_is_var :: "cuex \<Rightarrow> bool" where "cuex_is_var e \<longleftrightarrow> cuex_is_varmeta (cuex_meta e)"

definition cuex_opn_by_arr :: "u64 \<Rightarrow> cuex list \<Rightarrow> cuex" where
  "cuex_opn_by_arr opr operands = Opn opr operands"

text \<open>
  An object is well formed if its metaword has the kind of its constructor and an operation has as many
  operands as its operator says.
\<close>

fun ex_ok :: "cuex \<Rightarrow> bool" where
  "ex_ok (Opn opr operands) \<longleftrightarrow> cuex_meta_is_opr opr \<and> length operands = cuex_opr_r opr \<and> (\<forall>e \<in> set operands. ex_ok e)"
| "ex_ok (Obj meta i) \<longleftrightarrow> \<not> cuex_meta_is_opr meta"

lemma ex_ok_opn: "ex_ok e \<Longrightarrow> cuex_meta_is_opr (cuex_meta e) \<longleftrightarrow> (\<exists>opr operands. e = Opn opr operands)"
  by (cases e) auto

text \<open>
  The transformation of the operands of an operation: the operation itself is the result if no operand
  changed, which with hash-consing is also what a new operation would be.
\<close>

definition cuex_opn_tran :: "u64 \<Rightarrow> cuex list \<Rightarrow> (cuex \<Rightarrow> cuex) \<Rightarrow> cuex" where
  "cuex_opn_tran opr operands f =
     (let new_arr = map f operands in
      if new_arr = operands then Opn opr operands else cuex_opn_by_arr opr new_arr)"

lemma opn_tran_map [simp]: "cuex_opn_tran opr operands f = Opn opr (map f operands)"
  by (simp add: cuex_opn_tran_def cuex_opn_by_arr_def Let_def)

lemma opn_tran_cong [fundef_cong]:
  "opr = opr' \<Longrightarrow> operands = operands' \<Longrightarrow> (\<And>e. e \<in> set operands' \<Longrightarrow> f e = g e) \<Longrightarrow>
    cuex_opn_tran opr operands f = cuex_opn_tran opr' operands' g"
  by (simp only: opn_tran_map cong: map_cong)

section \<open>Binary operations\<close>

text \<open>The loops follow the right, or left, spine of an operation of the same operator, which is binary.\<close>

function (sequential) cuex_opn2_left :: "u64 \<Rightarrow> cuex \<Rightarrow> cuex \<Rightarrow> cuex" where
  "cuex_opn2_left opr x (Opn opr' [y0, y1]) =
     (if opr' = opr then cuex_opn2_left opr (cuex_opn2_left opr x y0) y1
      else cuex_opn_by_arr opr [x, Opn opr' [y0, y1]])"
| "cuex_opn2_left opr x y = cuex_opn_by_arr opr [x, y]"
  by pat_completeness auto
termination by (relation "measure (\<lambda>(opr, x, y). size y)") auto

function (sequential) cuex_opn2_right :: "u64 \<Rightarrow> cuex \<Rightarrow> cuex \<Rightarrow> cuex" where
  "cuex_opn2_right opr (Opn opr' [x0, x1]) y =
     (if opr' = opr then cuex_opn2_right opr x0 (cuex_opn2_right opr x1 y)
      else cuex_opn_by_arr opr [Opn opr' [x0, x1], y])"
| "cuex_opn2_right opr x y = cuex_opn_by_arr opr [x, y]"
  by pat_completeness auto
termination by (relation "measure (\<lambda>(opr, x, y). size x)") auto

text \<open>The operands of nested binary operations of one operator, and the two associated forms.\<close>

fun opr_leaves :: "u64 \<Rightarrow> cuex \<Rightarrow> cuex list" where
  "opr_leaves opr (Opn opr' [x, y]) = (if opr' = opr then opr_leaves opr x @ opr_leaves opr y else [Opn opr' [x, y]])"
| "opr_leaves opr e = [e]"

lemma opn2_left_leaves: "opr_leaves opr (cuex_opn2_left opr x y) = opr_leaves opr x @ opr_leaves opr y"
  by (induction opr x y rule: cuex_opn2_left.induct) (simp_all add: cuex_opn_by_arr_def)

lemma opn2_right_leaves: "opr_leaves opr (cuex_opn2_right opr x y) = opr_leaves opr x @ opr_leaves opr y"
  by (induction opr x y rule: cuex_opn2_right.induct) (simp_all add: cuex_opn_by_arr_def)

text \<open>The result is a left comb if \<open>x\<close> is one: no right operand is an operation of the same operator.\<close>

fun left_assoc :: "u64 \<Rightarrow> cuex \<Rightarrow> bool" where
  "left_assoc opr (Opn opr' [x, y]) \<longleftrightarrow> (opr' = opr \<longrightarrow> left_assoc opr x \<and> opr_leaves opr y = [y])"
| "left_assoc opr e \<longleftrightarrow> True"

fun right_assoc :: "u64 \<Rightarrow> cuex \<Rightarrow> bool" where
  "right_assoc opr (Opn opr' [x, y]) \<longleftrightarrow> (opr' = opr \<longrightarrow> right_assoc opr y \<and> opr_leaves opr x = [x])"
| "right_assoc opr e \<longleftrightarrow> True"

lemma opn2_left_assoc: "left_assoc opr x \<Longrightarrow> left_assoc opr (cuex_opn2_left opr x y)"
  by (induction opr x y rule: cuex_opn2_left.induct) (simp_all add: cuex_opn_by_arr_def)

lemma opn2_right_assoc: "right_assoc opr y \<Longrightarrow> right_assoc opr (cuex_opn2_right opr x y)"
  by (induction opr x y rule: cuex_opn2_right.induct) (simp_all add: cuex_opn_by_arr_def)

section \<open>Fields of metawords\<close>

lemma meta_mask_bit: "bit (cuex_meta_mask shift width) n \<longleftrightarrow> shift \<le> n \<and> n < shift + width \<and> n < 64"
proof -
  have "push_bit width 1 - 1 = (mask width :: u64)" by (simp add: mask_eq_exp_minus_1)
  then show ?thesis by (auto simp: cuex_meta_mask_def bit_simps)
qed

lemma above_width:
  assumes "x < 2 ^ w" "w < 64" "w \<le> n"
  shows "\<not> bit (x :: u64) n"
proof -
  have "(2::nat) ^ w < 2 ^ 64" using assms(2) by (intro power_strict_increasing) simp_all
  then have "unat (word_of_nat (2 ^ w) :: u64) = 2 ^ w" by (simp only: unsigned_of_nat) (simp add: take_bit_nat_eq_self assms(2))
  then have "unat (2 ^ w :: u64) = 2 ^ w" by simp
  then have "unat x < 2 ^ w" using assms(1) by (simp add: word_less_nat_alt)
  also have "(2::nat) ^ w \<le> 2 ^ n" using assms(3) by simp
  finally have "\<not> bit (unat x) n" by (simp add: bit_iff_odd)
  then show ?thesis by (simp add: bit_unsigned_iff)
qed

lemma opr_fields:
  assumes "index < 2 ^ 37" "arity < 2 ^ 24"
  shows "cuex_opr_r (cuex_opr index arity) = unat arity" "cuex_opr_index (cuex_opr index arity) = index"
    "cuex_meta_is_opr (cuex_opr index arity)" "\<not> cuex_opr_has_ctor (cuex_opr index arity)"
    "cuex_opr_has_ctor (cuex_opr_with_ctor index arity)"
proof -
  have i: "bit index n \<Longrightarrow> n < 37" for n using above_width [OF assms(1), of n] by (cases "37 \<le> n") simp_all
  have a: "bit arity n \<Longrightarrow> n < 24" for n using above_width [OF assms(2), of n] by (cases "24 \<le> n") simp_all
  have a': "bit arity n \<Longrightarrow> n < 61" "bit arity n \<Longrightarrow> n < 24 + k" for n k using a [of n] by simp_all
  have b1: "bit (1 :: u64) n \<longleftrightarrow> n = 0" for n by (simp add: bit_1_iff)
  have "drop_bit 3 (cuex_opr index arity AND CUEX_OPR_ARITY_MASK) = arity"
    by (rule bit_word_eqI) (use a a' in \<open>auto simp: cuex_opr_def CUEX_OPR_ARITY_MASK_def bit_simps meta_mask_bit b1 not_less\<close>)
  then show "cuex_opr_r (cuex_opr index arity) = unat arity" by (simp add: cuex_opr_r_def)
  show "cuex_opr_index (cuex_opr index arity) = index"
    unfolding cuex_opr_index_def
    by (rule bit_word_eqI) (use i a in \<open>auto simp: cuex_opr_def CUEX_OPR_SELECT_MASK_def bit_simps meta_mask_bit b1 not_less\<close>)
  have "cuex_opr index arity AND 3 = 1"
  proof (rule bit_word_eqI)
    fix n :: nat
    have "bit (3 :: u64) n \<longleftrightarrow> n < 2" using bit_mask_iff [of 2 n, where 'a = "64 word"] by (auto simp: mask_eq_exp_minus_1)
    then show "bit (cuex_opr index arity AND 3) n \<longleftrightarrow> bit (1 :: u64) n"
      by (auto simp: cuex_opr_def bit_simps b1)
  qed
  then show "cuex_meta_is_opr (cuex_opr index arity)" by (simp add: cuex_meta_is_opr_def cuex_meta_kind_def)
  have f: "x AND CUEX_OPRFLAG_CTOR \<noteq> 0 \<longleftrightarrow> bit x 2" for x :: u64
  proof -
    have "x AND 2 ^ 2 \<noteq> 0 \<longleftrightarrow> bit x 2" by (simp only: and_exp_eq_0_iff_not_bit not_not)
    then show ?thesis by (simp add: CUEX_OPRFLAG_CTOR_def)
  qed
  show "\<not> cuex_opr_has_ctor (cuex_opr index arity)"
    unfolding cuex_opr_has_ctor_def f by (simp add: cuex_opr_def bit_simps b1)
  show "cuex_opr_has_ctor (cuex_opr_with_ctor index arity)"
    unfolding cuex_opr_has_ctor_def f cuex_opr_with_ctor_def by (simp add: CUEX_OPRFLAG_CTOR_def bit_simps b1)
qed

lemma varmeta_fields:
  assumes "kind < 8" "qcode < 4" "index < 2 ^ 54"
  shows "cuex_is_varmeta (cuex_varmeta_kqi kind qcode index)" "cuex_varmeta_qcode (cuex_varmeta_kqi kind qcode index) = qcode"
    "cuex_varmeta_index (cuex_varmeta_kqi kind qcode index) = index" "\<not> cuex_meta_is_opr (cuex_varmeta_kqi kind qcode index)"
proof -
  have k: "bit kind n \<Longrightarrow> n < 3" for n using above_width [of kind 3 n] assms(1) by (cases "3 \<le> n") simp_all
  have q: "bit qcode n \<Longrightarrow> n < 2" for n using above_width [of qcode 2 n] assms(2) by (cases "2 \<le> n") simp_all
  have i: "bit index n \<Longrightarrow> n < 54" for n using above_width [OF assms(3), of n] by (cases "54 \<le> n") simp_all
  have q': "bit qcode n \<Longrightarrow> n < 59" "bit qcode n \<Longrightarrow> \<not> 59 \<le> n" for n using q [of n] by simp_all
  have q'': "\<not> bit qcode (5 + n)" "\<not> bit kind (3 + n)" for n using q [of "5 + n"] k [of "3 + n"] by auto
  have b7: "bit (7 :: int) n \<longleftrightarrow> n < 3" for n
    using bit_mask_iff [of 3 n, where 'a = int] by (auto simp: mask_eq_exp_minus_1)
  have b3: "bit (3 :: int) n \<longleftrightarrow> n < 2" for n
    using bit_mask_iff [of 2 n, where 'a = int] by (auto simp: mask_eq_exp_minus_1)
  have b6: "bit (6 :: int) n \<longleftrightarrow> n = 1 \<or> n = 2" for n
  proof -
    have "bit (push_bit 1 3 :: int) n \<longleftrightarrow> 1 \<le> n \<and> bit (3 :: int) (n - 1)" by (simp only: bit_push_bit_iff) auto
    moreover have "(push_bit 1 3 :: int) = 6" by (simp add: push_bit_eq_mult)
    ultimately show ?thesis using b3 [of "n - 1"] by auto
  qed
  note d = cuex_varmeta_kqi_def cuex_varmeta_kqis_def
  have "7 AND cuex_varmeta_kqi kind qcode index = 6"
    by (rule bit_word_eqI) (auto simp: d bit_simps b6 b7)
  then show "cuex_is_varmeta (cuex_varmeta_kqi kind qcode index)" by (simp add: cuex_is_varmeta_def d)
  show "cuex_varmeta_qcode (cuex_varmeta_kqi kind qcode index) = qcode"
    unfolding cuex_varmeta_qcode_def
    by (rule bit_word_eqI) (use q q' in \<open>auto simp: d bit_simps meta_mask_bit b6 not_less\<close>)
  show "cuex_varmeta_index (cuex_varmeta_kqi kind qcode index) = index"
    unfolding cuex_varmeta_index_def
    by (rule bit_word_eqI) (use q q' q'' k i in \<open>auto simp: d bit_simps meta_mask_bit b6 not_less\<close>)
  have "cuex_varmeta_kqi kind qcode index AND 3 = 2"
  proof (rule bit_word_eqI)
    fix n :: nat
    have "bit (2 :: int) n \<longleftrightarrow> n = 1" using bit_exp_iff [of 1 n, where 'a = int] by auto
    then show "bit (cuex_varmeta_kqi kind qcode index AND 3) n \<longleftrightarrow> bit (2 :: u64) n"
      by (auto simp: d bit_simps b6 b3)
  qed
  then show "\<not> cuex_meta_is_opr (cuex_varmeta_kqi kind qcode index)" by (simp add: cuex_meta_is_opr_def cuex_meta_kind_def)
qed

lemma var_not_opr: "cuex_is_varmeta meta \<Longrightarrow> \<not> cuex_meta_is_opr meta"
proof -
  assume "cuex_is_varmeta meta"
  then have m: "7 AND meta = 6" by (simp add: cuex_is_varmeta_def cuex_varmeta_kqi_def cuex_varmeta_kqis_def)
  have "meta AND 3 = 3 AND (7 AND meta)" by (simp add: and.left_commute and.commute)
  also have "\<dots> = 2" unfolding m by simp
  finally show ?thesis by (simp add: cuex_meta_is_opr_def cuex_meta_kind_def)
qed

end
