(* ===== verification/AtreeExpr.thy ===== *)
theory AtreeExpr
  imports AtreeIter CuexEx
begin

text \<open>
  The functions of \<^verbatim>\<open>cuex/atree.c\<close> whose elements are operations and whose callbacks act on one operand
  (\<open>_iv\<close>) or on a key and a value, the first two operands (\<open>_kv\<close>). The address of an expression, which
  serves as its key, is a parameter.
\<close>

definition get_key_0 :: "(cuex \<Rightarrow> u64) \<Rightarrow> cuex \<Rightarrow> u64" where
  "get_key_0 addr e = addr (cuex_opn_at e 0)"

definition merge_iv_adaptor :: "nat \<Rightarrow> cuex merge \<Rightarrow> cuex merge" where
  "merge_iv_adaptor value_index value_merge e0 e1 =
     value_merge (cuex_opn_at e0 value_index) (cuex_opn_at e1 value_index)"

definition merge_kv_adaptor :: "(cuex \<Rightarrow> cuex merge) \<Rightarrow> cuex merge" where
  "merge_kv_adaptor merge e0 e1 = merge (cuex_opn_at e0 0) (cuex_opn_at e0 1) (cuex_opn_at e1 1)"

definition subseteq_iv_adaptor :: "nat \<Rightarrow> (cuex \<Rightarrow> cuex \<Rightarrow> bool) \<Rightarrow> cuex \<Rightarrow> cuex \<Rightarrow> bool" where
  "subseteq_iv_adaptor value_index value_subseteq e0 e1 =
     value_subseteq (cuex_opn_at e0 value_index) (cuex_opn_at e1 value_index)"

definition subseteq_kv_adaptor :: "(cuex \<Rightarrow> cuex \<Rightarrow> cuex \<Rightarrow> bool) \<Rightarrow> cuex \<Rightarrow> cuex \<Rightarrow> bool" where
  "subseteq_kv_adaptor value_subseteq e0 e1 =
     value_subseteq (cuex_opn_at e0 0) (cuex_opn_at e0 1) (cuex_opn_at e1 1)"

definition order_iv_adaptor :: "nat \<Rightarrow> (cuex \<Rightarrow> cuex \<Rightarrow> cu_order) \<Rightarrow> cuex \<Rightarrow> cuex \<Rightarrow> cu_order" where
  "order_iv_adaptor value_index value_order e0 e1 =
     value_order (cuex_opn_at e0 value_index) (cuex_opn_at e1 value_index)"

definition order_kv_adaptor :: "(cuex \<Rightarrow> cuex \<Rightarrow> cuex \<Rightarrow> cu_order) \<Rightarrow> cuex \<Rightarrow> cuex \<Rightarrow> cu_order" where
  "order_kv_adaptor value_order e0 e1 = value_order (cuex_opn_at e0 0) (cuex_opn_at e0 1) (cuex_opn_at e1 1)"

definition cuex_atree_deep_insert_iv ::
  "(cuex \<Rightarrow> u64) \<Rightarrow> nat \<Rightarrow> cuex merge \<Rightarrow> cuex atree option \<Rightarrow> cuex \<Rightarrow> cuex atree option" where
  "cuex_atree_deep_insert_iv get_key i merge_values tree v =
     cuex_atree_deep_insert get_key (merge_iv_adaptor i merge_values) tree v"

definition cuex_atree_deep_insert_kv ::
  "(cuex \<Rightarrow> u64) \<Rightarrow> (cuex \<Rightarrow> cuex merge) \<Rightarrow> cuex atree option \<Rightarrow> cuex \<Rightarrow> cuex atree option" where
  "cuex_atree_deep_insert_kv addr merge_values tree v =
     cuex_atree_deep_insert (get_key_0 addr) (merge_kv_adaptor merge_values) tree v"

definition cuex_atree_deep_union_iv ::
  "(cuex \<Rightarrow> u64) \<Rightarrow> nat \<Rightarrow> cuex merge \<Rightarrow> cuex atree option \<Rightarrow> cuex atree option \<Rightarrow> cuex atree option" where
  "cuex_atree_deep_union_iv get_key value_index value_merge tree0 tree1 =
     (case (tree0, tree1) of
        (None, _) \<Rightarrow> tree1
      | (_, None) \<Rightarrow> tree0
      | (Some tree0, Some tree1) \<Rightarrow> atree_union get_key (merge_iv_adaptor value_index value_merge) tree0 tree1)"

definition cuex_atree_deep_union_kv ::
  "(cuex \<Rightarrow> u64) \<Rightarrow> (cuex \<Rightarrow> cuex merge) \<Rightarrow> cuex atree option \<Rightarrow> cuex atree option \<Rightarrow> cuex atree option" where
  "cuex_atree_deep_union_kv addr merge_values tree0 tree1 =
     (case (tree0, tree1) of
        (None, _) \<Rightarrow> tree1
      | (_, None) \<Rightarrow> tree0
      | (Some tree0, Some tree1) \<Rightarrow> atree_union (get_key_0 addr) (merge_kv_adaptor merge_values) tree0 tree1)"

definition cuex_atree_deep_isecn_iv ::
  "(cuex \<Rightarrow> u64) \<Rightarrow> nat \<Rightarrow> cuex merge \<Rightarrow> cuex atree option \<Rightarrow> cuex atree option \<Rightarrow> cuex atree option" where
  "cuex_atree_deep_isecn_iv get_key value_index value_merge tree0 tree1 =
     (case (tree0, tree1) of
        (None, _) \<Rightarrow> tree0
      | (_, None) \<Rightarrow> tree1
      | (Some tree0, Some tree1) \<Rightarrow> atree_isecn get_key (merge_iv_adaptor value_index value_merge) tree0 tree1)"

definition cuex_atree_deep_isecn_kv ::
  "(cuex \<Rightarrow> u64) \<Rightarrow> (cuex \<Rightarrow> cuex merge) \<Rightarrow> cuex atree option \<Rightarrow> cuex atree option \<Rightarrow> cuex atree option" where
  "cuex_atree_deep_isecn_kv addr merge_values tree0 tree1 =
     (case (tree0, tree1) of
        (None, _) \<Rightarrow> tree0
      | (_, None) \<Rightarrow> tree1
      | (Some tree0, Some tree1) \<Rightarrow> atree_isecn (get_key_0 addr) (merge_kv_adaptor merge_values) tree0 tree1)"

definition cuex_atree_deep_subseteq_iv ::
  "(cuex \<Rightarrow> u64) \<Rightarrow> nat \<Rightarrow> (cuex \<Rightarrow> cuex \<Rightarrow> bool) \<Rightarrow> cuex atree option \<Rightarrow> cuex atree option \<Rightarrow> bool" where
  "cuex_atree_deep_subseteq_iv get_key value_index value_subseteq tree0 tree1 =
     (if tree0 = tree1 then True
      else (case (tree0, tree1) of
              (None, _) \<Rightarrow> True
            | (_, None) \<Rightarrow> False
            | (Some tree0, Some tree1) \<Rightarrow>
                atree_subseteq get_key (subseteq_iv_adaptor value_index value_subseteq) tree0 tree1))"

definition cuex_atree_deep_subseteq_kv ::
  "(cuex \<Rightarrow> u64) \<Rightarrow> (cuex \<Rightarrow> cuex \<Rightarrow> cuex \<Rightarrow> bool) \<Rightarrow> cuex atree option \<Rightarrow> cuex atree option \<Rightarrow> bool" where
  "cuex_atree_deep_subseteq_kv addr value_subseteq tree0 tree1 =
     (if tree0 = tree1 then True
      else (case (tree0, tree1) of
              (None, _) \<Rightarrow> True
            | (_, None) \<Rightarrow> False
            | (Some tree0, Some tree1) \<Rightarrow>
                atree_subseteq (get_key_0 addr) (subseteq_kv_adaptor value_subseteq) tree0 tree1))"

text \<open>
  The \<open>_iv\<close> variant of the ordering passes its ordering callback where a subset callback is expected; the
  value of an ordering is zero, false, only if there is no order.
\<close>

definition cuex_atree_deep_order_iv ::
  "(cuex \<Rightarrow> u64) \<Rightarrow> nat \<Rightarrow> (cuex \<Rightarrow> cuex \<Rightarrow> bool) \<Rightarrow> (cuex \<Rightarrow> cuex \<Rightarrow> cu_order) \<Rightarrow>
    cuex atree option \<Rightarrow> cuex atree option \<Rightarrow> cu_order" where
  "cuex_atree_deep_order_iv get_key value_index value_subseteq value_order tree0 tree1 =
     (if tree0 = tree1 then cu_order_eq
      else (case (tree0, tree1) of
              (None, _) \<Rightarrow> cu_order_lt
            | (_, None) \<Rightarrow> cu_order_gt
            | (Some tree0, Some tree1) \<Rightarrow>
                atree_order get_key
                  (subseteq_iv_adaptor value_index (\<lambda>v0 v1. value_order v0 v1 \<noteq> cu_order_none))
                  (order_iv_adaptor value_index value_order) tree0 tree1))"

definition cuex_atree_deep_order_kv ::
  "(cuex \<Rightarrow> u64) \<Rightarrow> (cuex \<Rightarrow> cuex \<Rightarrow> cuex \<Rightarrow> bool) \<Rightarrow> (cuex \<Rightarrow> cuex \<Rightarrow> cuex \<Rightarrow> cu_order) \<Rightarrow>
    cuex atree option \<Rightarrow> cuex atree option \<Rightarrow> cu_order" where
  "cuex_atree_deep_order_kv addr value_subseteq value_order tree0 tree1 =
     (if tree0 = tree1 then cu_order_eq
      else (case (tree0, tree1) of
              (None, _) \<Rightarrow> cu_order_lt
            | (_, None) \<Rightarrow> cu_order_gt
            | (Some tree0, Some tree1) \<Rightarrow>
                atree_order (get_key_0 addr) (subseteq_kv_adaptor value_subseteq) (order_kv_adaptor value_order)
                  tree0 tree1))"

fun atree_conj_iv :: "cuex atree \<Rightarrow> nat \<Rightarrow> (cuex \<Rightarrow> 's \<Rightarrow> bool \<times> 's) \<Rightarrow> 's \<Rightarrow> bool \<times> 's" where
  "atree_conj_iv (ALeaf e) i f s = f (cuex_opn_at e i) s"
| "atree_conj_iv (ANode centre left right) i f s =
     (case atree_conj_iv left i f s of (False, s) \<Rightarrow> (False, s) | (True, s) \<Rightarrow> atree_conj_iv right i f s)"

definition cuex_atree_conj_iv :: "cuex atree option \<Rightarrow> nat \<Rightarrow> (cuex \<Rightarrow> 's \<Rightarrow> bool \<times> 's) \<Rightarrow> 's \<Rightarrow> bool \<times> 's" where
  "cuex_atree_conj_iv tree i f s = (case tree of None \<Rightarrow> (True, s) | Some tree \<Rightarrow> atree_conj_iv tree i f s)"

fun atree_conj_kv :: "cuex atree \<Rightarrow> (cuex \<Rightarrow> cuex \<Rightarrow> 's \<Rightarrow> bool \<times> 's) \<Rightarrow> 's \<Rightarrow> bool \<times> 's" where
  "atree_conj_kv (ALeaf e) f s = f (cuex_opn_at e 0) (cuex_opn_at e 1) s"
| "atree_conj_kv (ANode centre left right) f s =
     (case atree_conj_kv left f s of (False, s) \<Rightarrow> (False, s) | (True, s) \<Rightarrow> atree_conj_kv right f s)"

definition cuex_atree_conj_kv :: "cuex atree option \<Rightarrow> (cuex \<Rightarrow> cuex \<Rightarrow> 's \<Rightarrow> bool \<times> 's) \<Rightarrow> 's \<Rightarrow> bool \<times> 's" where
  "cuex_atree_conj_kv tree f s = (case tree of None \<Rightarrow> (True, s) | Some tree \<Rightarrow> atree_conj_kv tree f s)"

fun atree_isokey_image_iv :: "cuex atree \<Rightarrow> nat \<Rightarrow> (cuex \<Rightarrow> cuex) \<Rightarrow> cuex atree" where
  "atree_isokey_image_iv (ALeaf e) i f =
     (let arr = cuex_operands e in ALeaf (cuex_opn_by_arr (cuex_meta e) (arr[i := f (arr ! i)])))"
| "atree_isokey_image_iv (ANode centre left right) i f =
     ANode centre (atree_isokey_image_iv left i f) (atree_isokey_image_iv right i f)"

definition cuex_atree_isokey_image_iv :: "cuex atree option \<Rightarrow> nat \<Rightarrow> (cuex \<Rightarrow> cuex) \<Rightarrow> cuex atree option" where
  "cuex_atree_isokey_image_iv tree i f =
     (case tree of None \<Rightarrow> None | Some tree \<Rightarrow> Some (atree_isokey_image_iv tree i f))"

fun atree_isokey_image_kv :: "cuex atree \<Rightarrow> (cuex \<Rightarrow> cuex \<Rightarrow> cuex) \<Rightarrow> cuex atree" where
  "atree_isokey_image_kv (ALeaf e) f =
     (let arr = cuex_operands e in ALeaf (cuex_opn_by_arr (cuex_meta e) (arr[1 := f (arr ! 0) (arr ! 1)])))"
| "atree_isokey_image_kv (ANode centre left right) f =
     ANode centre (atree_isokey_image_kv left f) (atree_isokey_image_kv right f)"

definition cuex_atree_isokey_image_kv :: "cuex atree option \<Rightarrow> (cuex \<Rightarrow> cuex \<Rightarrow> cuex) \<Rightarrow> cuex atree option" where
  "cuex_atree_isokey_image_kv tree f =
     (case tree of None \<Rightarrow> None | Some tree \<Rightarrow> Some (atree_isokey_image_kv tree f))"

definition cuex_atree_itr_get_at_1 :: "cuex atree list \<Rightarrow> cuex option \<times> cuex atree list" where
  "cuex_atree_itr_get_at_1 sp =
     (case sp of
        [] \<Rightarrow> (None, [])
      | tree # sp \<Rightarrow> (case atree_itr_descend tree sp of (e, sp) \<Rightarrow> (Some (cuex_opn_at e 1), sp)))"

section \<open>Traversals of values\<close>

lemma conj_iv: "atree_conj_iv t i f s = conj_list (\<lambda>e. f (cuex_opn_at e i)) (atree_leaves t) s"
  by (induction t arbitrary: s) (auto simp: conj_list_append split: prod.split bool.split)

lemma conj_kv: "atree_conj_kv t f s = conj_list (\<lambda>e. f (cuex_opn_at e 0) (cuex_opn_at e 1)) (atree_leaves t) s"
  by (induction t arbitrary: s) (auto simp: conj_list_append split: prod.split bool.split)

lemma isokey_leaves: "atree_leaves (atree_isokey_image t f) = map f (atree_leaves t)"
  by (induction t) simp_all

lemma isokey_keys:
  assumes "\<And>e. e \<in> set (atree_leaves t) \<Longrightarrow> get_key (f e) = get_key e"
  shows "atree_keys get_key (atree_isokey_image t f) = atree_keys get_key t"
  using assms by (force simp: atree_keys_def isokey_leaves image_image)

lemma isokey_ok:
  assumes "atree_ok get_key t" "\<And>e. e \<in> set (atree_leaves t) \<Longrightarrow> get_key (f e) = get_key e"
  shows "atree_ok get_key (atree_isokey_image t f)"
  using assms
proof (induction t)
  case (ANode c l r)
  then show ?case using isokey_keys [of l get_key f] isokey_keys [of r get_key f] by simp
qed simp

lemma isokey_lookup:
  assumes "\<And>e. e \<in> set (atree_leaves t) \<Longrightarrow> get_key (f e) = get_key e"
  shows "atree_lookup get_key (atree_isokey_image t f) k = map_option f (atree_lookup get_key t k)"
proof -
  have "map_of (map (\<lambda>e. (get_key e, e)) (map f es)) k = map_option f (map_of (map (\<lambda>e. (get_key e, e)) es) k)"
    if "\<And>e. e \<in> set es \<Longrightarrow> get_key (f e) = get_key e" for es
    using that by (induction es) auto
  then show ?thesis using assms by (simp only: atree_lookup_def isokey_leaves)
qed

lemma isokey_iv: "atree_isokey_image_iv t i f =
    atree_isokey_image t (\<lambda>e. cuex_opn_by_arr (cuex_meta e) ((cuex_operands e)[i := f (cuex_operands e ! i)]))"
  by (induction t) (simp_all add: Let_def)

end
