(* ===== verification/AtreeProps.thy ===== *)
theory AtreeProps
  imports AtreeExpr
begin

text \<open>
  The properties of the associative trees of \<^verbatim>\<open>cuex/atree.c\<close>, and examples of where the code departs from them.
\<close>

section \<open>Trees as finite maps\<close>

definition atree_of_list :: "('e \<Rightarrow> u64) \<Rightarrow> 'e list \<Rightarrow> 'e atree option" where
  "atree_of_list get_key vs = fold (\<lambda>v t. cuex_atree_insert get_key t v) vs cuex_atree_empty"

lemma insert_list_valid:
  "atree_valid get_key t \<Longrightarrow> \<forall>v \<in> set vs. small_key (get_key v) \<Longrightarrow>
    atree_valid get_key (fold (\<lambda>v t. cuex_atree_insert get_key t v) vs t)"
  using insert_first_valid [of get_key] by (induction vs arbitrary: t) simp_all

lemma of_list_valid: "\<forall>v \<in> set vs. small_key (get_key v) \<Longrightarrow> atree_valid get_key (atree_of_list get_key vs)"
  using insert_list_valid [of get_key None vs] by (simp add: atree_of_list_def cuex_atree_empty_def)

text \<open>looking up a key in a valid tree gives the element that has this key, and null if there is none; no comparison with the
  bounds of a node cuts off an element.\<close>

theorem atree_find_correct:
  "atree_valid get_key t \<Longrightarrow> cuex_atree_find get_key t key = atree_map get_key t key"
  by (rule find_valid)

lemma atree_find_correct_witness:
  "cuex_atree_find id (atree_of_list id [5, 9, 4]) 9 = atree_map id (atree_of_list id [5, 9, 4]) 9 \<and>
   cuex_atree_find id (atree_of_list id [5, 9, 4]) 9 = Some (9 :: u64)"
  by (rule conjI [OF atree_find_correct [OF of_list_valid]]) (simp add: small_key_def, code_simp)

text \<open>C16: inserting an element whose key is below \<open>2 ^ 63\<close> gives a valid tree that maps the key to the element: insertion keeps an
  element that has the key already, replacement overwrites it, and erasing a key removes exactly it.\<close>

theorem atree_updates_correct:
  assumes "atree_valid get_key t" "small_key (get_key v)"
  shows "atree_valid get_key (cuex_atree_insert get_key t v) \<and> atree_valid get_key (cuex_atree_replace get_key t v) \<and>
    atree_valid get_key (cuex_atree_erase get_key t key) \<and>
    atree_map get_key (cuex_atree_insert get_key t v) = [get_key v \<mapsto> v] ++ atree_map get_key t \<and>
    atree_map get_key (cuex_atree_replace get_key t v) = (atree_map get_key t)(get_key v \<mapsto> v) \<and>
    atree_map get_key (cuex_atree_erase get_key t key) = (atree_map get_key t)(key := None)"
  using insert_first_valid [OF assms] replace_valid [OF assms] cuex_erase_valid [OF assms(1)] by blast

lemma atree_updates_correct_witness:
  "atree_map fst (cuex_atree_replace fst (atree_of_list fst [(5 :: u64, ''a''), (9, ''b'')]) (5, ''c'')) =
    (atree_map fst (atree_of_list fst [(5, ''a''), (9, ''b'')]))(5 \<mapsto> (5, ''c''))"
  using atree_updates_correct [of fst "atree_of_list fst [(5 :: u64, ''a''), (9, ''b'')]" "(5, ''c'')" 0]
    of_list_valid [of "[(5 :: u64, ''a''), (9, ''b'')]" fst]
  by (simp add: small_key_def)

text \<open>C17: the union of two valid trees (with keys below \<open>2 ^ 63\<close>), each of which may be empty, under a merge function that keeps keys: it
  is null exactly if both trees are empty or the merge fails on elements with the same key, and without such a failure it is a
  valid tree that has the elements of both, merged where both have one.\<close>

theorem atree_union_correct:
  assumes "keeps_keys get_key m" "atree_valid get_key t0" "atree_valid get_key t1"
  shows "(cuex_atree_deep_union get_key m t0 t1 = None \<longleftrightarrow>
      t0 = None \<and> t1 = None \<or>
      (\<exists>k e0 e1. atree_map get_key t0 k = Some e0 \<and> atree_map get_key t1 k = Some e1 \<and> m e0 e1 = None)) \<and>
    ((\<exists>k e0 e1. atree_map get_key t0 k = Some e0 \<and> atree_map get_key t1 k = Some e1 \<and> m e0 e1 = None) \<or>
      atree_valid get_key (cuex_atree_deep_union get_key m t0 t1) \<and>
      atree_map get_key (cuex_atree_deep_union get_key m t0 t1) =
        (\<lambda>k. combine m (atree_map get_key t0 k) (atree_map get_key t1 k)))"
proof (cases "t0 = None \<and> t1 = None")
  case True
  then show ?thesis by (simp add: cuex_atree_deep_union_def combine_def)
next
  case False
  then have u: "unites get_key m (atree_map get_key t0) (atree_map get_key t1) (cuex_atree_deep_union get_key m t0 t1)"
    using union_valid [OF assms] unfolding cuex_atree_deep_union_def by blast
  show ?thesis
  proof (cases "cuex_atree_deep_union get_key m t0 t1")
    case None
    then show ?thesis using u unfolding conflict_def [symmetric] by (simp add: unites_def)
  next
    case (Some t)
    then show ?thesis using u False unfolding conflict_def [symmetric] by (auto simp: unites_def)
  qed
qed

lemma atree_union_correct_witness:
  "cuex_atree_deep_union id merge_disjoin (atree_of_list id [2, 8]) (atree_of_list id [6, 8]) = None \<and>
   (\<exists>k e0 e1. atree_map id (atree_of_list id [2, 8]) k = Some e0 \<and> atree_map id (atree_of_list id [6, 8 :: u64]) k = Some e1 \<and>
      merge_disjoin e0 e1 = None)"
proof -
  have n: "cuex_atree_deep_union id merge_disjoin (atree_of_list id [2, 8]) (atree_of_list id [6, 8 :: u64]) = None" by code_simp
  have ne: "atree_of_list id [2, 8 :: u64] \<noteq> None" by code_simp
  have v: "atree_valid id (atree_of_list id [2, 8 :: u64])" "atree_valid id (atree_of_list id [6, 8 :: u64])"
    by (simp_all add: of_list_valid small_key_def)
  show ?thesis
    using atree_union_correct [OF keeps_keys_simps(3) v, THEN conjunct1, THEN iffD1, OF n] n ne by blast
qed

text \<open>C30: the intersection of two valid trees has exactly the keys for which both have an element and the merge does not fail, and
  the merged elements.\<close>

theorem atree_isecn_correct:
  assumes "keeps_keys get_key m" "atree_valid get_key t0" "atree_valid get_key t1"
  shows "atree_valid get_key (cuex_atree_deep_isecn get_key m t0 t1) \<and>
    atree_map get_key (cuex_atree_deep_isecn get_key m t0 t1) =
      (\<lambda>k. case (atree_map get_key t0 k, atree_map get_key t1 k) of (Some e0, Some e1) \<Rightarrow> m e0 e1 | _ \<Rightarrow> None)"
proof -
  have "meet m (atree_map get_key t0) (atree_map get_key t1) =
      (\<lambda>k. case (atree_map get_key t0 k, atree_map get_key t1 k) of (Some e0, Some e1) \<Rightarrow> m e0 e1 | _ \<Rightarrow> None)"
    by (auto simp: meet_def fun_eq_iff split: option.split)
  then show ?thesis using isecn_valid [OF assms] unfolding cuex_atree_deep_isecn_def shows_valid by simp
qed

lemma atree_isecn_correct_witness:
  "atree_valid id (cuex_atree_deep_isecn id merge_as_first (atree_of_list id [2, 8]) (atree_of_list id [6, 8 :: u64]))"
  using atree_isecn_correct [OF keeps_keys_simps(1) of_list_valid of_list_valid, of "[2, 8]" id "[6, 8]"]
  by (simp add: small_key_def)

text \<open>C18: a finite map has one tree: valid trees with the same elements are the same object, whatever operations made them.\<close>

theorem atree_extensional:
  assumes "atree_valid get_key t" "atree_valid get_key t'" "\<And>key. cuex_atree_find get_key t key = cuex_atree_find get_key t' key"
  shows "t = t'"
proof (rule valid_canonical [OF assms(1,2)])
  show "atree_map get_key t = atree_map get_key t'" using assms(3) find_valid assms(1,2) by (metis ext)
qed

lemma atree_extensional_witness:
  "atree_of_list id [2, 8, 5 :: u64] = cuex_atree_erase id (atree_of_list id [5, 7, 8, 2]) 7"
proof -
  have v: "atree_valid id (atree_of_list id [2, 8, 5 :: u64])" "atree_valid id (atree_of_list id [5, 7, 8, 2 :: u64])"
    by (simp_all add: of_list_valid small_key_def)
  have "atree_valid id (cuex_atree_erase id (atree_of_list id [5, 7, 8, 2 :: u64]) 7)"
    using cuex_erase_valid [OF v(2)] by blast
  moreover have e: "atree_of_list id [2, 8, 5 :: u64] = cuex_atree_erase id (atree_of_list id [5, 7, 8, 2]) 7" by code_simp
  ultimately show ?thesis by (intro atree_extensional [of id]) (use v e in simp_all)
qed

text \<open>trees of pairs with keys of 63 bits are constructive maps; in particular replacements at different keys commute.\<close>

theorem atree_replace_commute:
  "atree_valid fst t \<Longrightarrow> j \<noteq> k \<Longrightarrow> pair_insert (pair_insert t j v) k w = pair_insert (pair_insert t k w) j v"
  by (rule atree.insert_commute) simp_all

lemma atree_replace_commute_witness:
  "pair_insert (pair_insert cuex_atree_empty 1 ''a'') 2 ''b'' = pair_insert (pair_insert cuex_atree_empty 2 ''b'') 1 ''a''"
  by (rule atree_replace_commute) (simp_all add: cuex_atree_empty_def)

section \<open>Comparison\<close>

text \<open>C19: with even keys and a reflexive comparison of values the subset test decides whether each element of the first tree has
  one in the second with the same key and a value not less, and the ordering is that of these two inclusions.\<close>

theorem atree_comparison_correct:
  assumes "\<And>e. le e e" "\<And>e0 e1. ord e0 e1 = order_by (le e0 e1) (le e1 e0)"
    and "atree_ok get_key t0" "atree_ok get_key t1" "even_keys get_key t0" "even_keys get_key t1"
  shows "(atree_subseteq get_key le t0 t1 \<longleftrightarrow>
      (\<forall>k e0. atree_lookup get_key t0 k = Some e0 \<longrightarrow> (\<exists>e1. atree_lookup get_key t1 k = Some e1 \<and> le e0 e1))) \<and>
    atree_order get_key le ord t0 t1 = order_by (atree_subseteq get_key le t0 t1) (atree_subseteq get_key le t1 t0)"
  using order_included [OF assms] subseteq_included [where le = le, OF assms(1,3,4,5)] subseteq_included [where le = le, OF assms(1,4,3,6)]
  by (simp add: order_maps_def included_def)

lemma atree_comparison_correct_witness:
  "atree_order id subseteq_true order_eq (ALeaf 4) (ANode 4 (ALeaf 2) (ALeaf 4)) =
    order_by (atree_subseteq id subseteq_true (ALeaf 4) (ANode 4 (ALeaf 2) (ALeaf (4 :: u64))))
      (atree_subseteq id subseteq_true (ANode 4 (ALeaf 2) (ALeaf (4 :: u64))) (ALeaf 4))"
proof -
  have t: "atree_of_list id [2, 4 :: u64] = Some (ANode 4 (ALeaf 2) (ALeaf 4))" by code_simp
  have "atree_valid id (atree_of_list id [2, 4 :: u64])" by (simp add: of_list_valid small_key_def)
  then have ok: "atree_ok id (ANode 4 (ALeaf 2) (ALeaf (4 :: u64)))" by (simp only: t valid_simps)
  have ev: "even_keys id (ALeaf (4 :: u64))" "even_keys id (ANode 4 (ALeaf 2) (ALeaf (4 :: u64)))"
    by (simp_all add: even_keys_def)
  show ?thesis
    by (rule atree_comparison_correct [THEN conjunct2, OF _ _ _ ok ev])
      (simp_all add: subseteq_true_def order_eq_def small_key_def)
qed

section \<open>Iteration\<close>

fun atree_itr_run :: "nat \<Rightarrow> 'e atree list \<Rightarrow> 'e option list \<times> 'e atree list" where
  "atree_itr_run 0 sp = ([], sp)"
| "atree_itr_run (Suc n) sp =
     (case cuex_atree_itr_get sp of (e, sp) \<Rightarrow> (case atree_itr_run n sp of (es, sp) \<Rightarrow> (e # es, sp)))"

lemma run_remaining: "n \<le> length (remaining sp) \<Longrightarrow> fst (atree_itr_run n sp) = map Some (take n (remaining sp))"
proof (induction n arbitrary: sp)
  case (Suc n)
  obtain e sp' where g: "cuex_atree_itr_get sp = (e, sp')" by (metis surj_pair)
  obtain x xs where r: "remaining sp = x # xs" using Suc.prems by (cases "remaining sp") simp_all
  then have "e = Some x" "remaining sp' = xs" using itr_get [OF g] by simp_all
  then show ?case using Suc g r by (simp add: split_beta)
qed simp

lemma run_fits: "fits room sp \<Longrightarrow> fits room (snd (atree_itr_run n sp))"
proof (induction n arbitrary: sp)
  case (Suc n)
  obtain e sp' where g: "cuex_atree_itr_get sp = (e, sp')" by (metis surj_pair)
  show ?case using Suc.IH [OF itr_get_fits [OF g Suc.prems]] g by (simp add: split_beta)
qed simp

text \<open>C31: an iterator returns the elements in the order of their keys, and at any time the pointer to its stack, the null pointer at
  the bottom and the trees on it fit into the memory that \<^verbatim>\<open>cuex_atree_itr_size\<close> asks for.\<close>

theorem atree_iterator:
  "atree_ok get_key t \<Longrightarrow>
    fst (atree_itr_run (length (atree_leaves t)) (cuex_atree_itr_init (Some t))) = map Some (atree_leaves t) \<and>
    sorted_wrt (<) (map get_key (atree_leaves t)) \<and>
    8 + 8 * (1 + length (snd (atree_itr_run n (cuex_atree_itr_init (Some t))))) \<le> cuex_atree_itr_size (Some t)"
proof -
  assume ok: "atree_ok get_key t"
  have "fits (height t + 1) [t]" by simp
  from fits_length [OF run_fits [OF this]] have "length (snd (atree_itr_run n [t])) \<le> height t + 1" .
  then have "8 + 8 * (1 + length (snd (atree_itr_run n (cuex_atree_itr_init (Some t))))) \<le> cuex_atree_itr_size (Some t)"
    by (simp add: cuex_atree_itr_init_def cuex_atree_itr_size_def cuex_atree_depth_def depth_height)
  moreover have "fst (atree_itr_run (length (atree_leaves t)) [t]) = map Some (atree_leaves t)"
    by (subst run_remaining) (simp_all add: remaining_def)
  ultimately show ?thesis using leaves_sorted [OF ok] by (simp add: cuex_atree_itr_init_def)
qed

lemma atree_iterator_witness:
  "sorted_wrt (<) (map id (atree_leaves (ALeaf (3 :: u64)))) \<and>
    8 + 8 * (1 + length (snd (atree_itr_run 1 (cuex_atree_itr_init (Some (ALeaf (3 :: u64))))))) \<le> cuex_atree_itr_size (Some (ALeaf (3 :: u64)))"
  using atree_iterator [of id "ALeaf (3 :: u64)" 1] by (simp add: small_key_def)

text \<open>C32: the index of a key is its position in the order of the elements, and minus one if it is not there.\<close>

theorem atree_index:
  assumes "atree_ok get_key t"
  shows "(i < length (atree_leaves t) \<longrightarrow> cuex_atree_find_index get_key (Some t) (get_key (atree_leaves t ! i)) = word_of_nat i) \<and>
    (cuex_atree_find get_key (Some t) key = None \<longrightarrow> cuex_atree_find_index get_key (Some t) key = - 1)"
proof -
  have "key \<notin> atree_keys get_key t" if "cuex_atree_find get_key (Some t) key = None"
    using that cuex_find_lookup [OF assms] lookup_None by metis
  then show ?thesis using find_index_at [OF assms, of i 0] find_index_absent [OF assms]
    by (simp add: cuex_atree_find_index_def)
qed

lemma atree_index_witness:
  "cuex_atree_find_index id (Some (ALeaf (3 :: u64))) 3 = 0"
  using atree_index [of id "ALeaf (3 :: u64)" 0 0] by (simp add: small_key_def)

section \<open>Where the code departs\<close>

text \<open>
  The centre of two keys that differ in the highest bit is zero, as the mask is all ones and its successor wraps; the
  smaller key is then not found.
\<close>

lemma top_bit_lost:
  "pair_centre 1 (- 1) = 0" "cuex_atree_find id (atree_of_list id [1, - 1 :: u64]) 1 = None"
  by code_simp+

text \<open>The subset test rejects a subset whose greatest key ends the block of the larger tree's left branch.\<close>

lemma subset_missed:
  "\<not> cuex_atree_subseteq id (atree_of_list id [6, 7 :: u64]) (atree_of_list id [0, 6, 7])"
  "cuex_atree_find id (atree_of_list id [0, 6, 7 :: u64]) 6 = Some 6" "cuex_atree_find id (atree_of_list id [0, 6, 7 :: u64]) 7 = Some 7"
  by code_simp+

text \<open>
  A merge of two key-value operations returns the merged value, which becomes a leaf instead of an operation with
  that value: the key is lost.
\<close>

definition kv :: "cuex \<Rightarrow> cuex \<Rightarrow> cuex" where
  "kv k v = Opn (cuex_opr 1 2) [k, v]"

definition addr_of_id :: "cuex \<Rightarrow> u64" where
  "addr_of_id e = (case e of Obj meta i \<Rightarrow> word_of_nat i | Opn opr es \<Rightarrow> 0)"

lemma merged_value_is_leaf:
  "cuex_atree_deep_insert_kv addr_of_id (\<lambda>k v0 v1. Some v1)
     (cuex_atree_deep_insert_kv addr_of_id (\<lambda>k v0 v1. Some v1) None (kv (Obj 0 1) (Obj 0 2))) (kv (Obj 0 1) (Obj 0 3)) =
   Some (ALeaf (Obj 0 3))"
  by code_simp

end
