(* ===== verification/CuexAlgo.thy ===== *)
theory CuexAlgo
  imports CuexEx
begin

text \<open>
  The algorithms of \<^verbatim>\<open>cuex/algo.c\<close> on expressions. A pointer map from expressions is a finite map; a
  callback that is called for its effect gets a state and returns it. The objects are well formed, so that an
  object is an operation exactly if its metaword is an operator.
\<close>

lemma operand_size [termination_simp]: "e \<in> set es \<Longrightarrow> size (e :: cuex) < Suc (size_list size es)"
  by (induction es) auto

lemma zip_operand_size [termination_simp]: "(a, b) \<in> set (zip es fs) \<Longrightarrow> size (a :: cuex) < Suc (size_list size es)"
  using operand_size set_zip_leftD by metis

section \<open>Definitions\<close>

fun cuex_max_depth :: "cuex \<Rightarrow> nat" where
  "cuex_max_depth (Opn opr es) = fold (\<lambda>ep d. max d (cuex_max_depth ep)) es 0 + 1"
| "cuex_max_depth (Obj meta i) = 0"

text \<open>The operator of a pattern is compared with that of the expression by its arity only.\<close>

fun cuex_match_pmap :: "cuex \<Rightarrow> cuex \<Rightarrow> (cuex \<rightharpoonup> cuex) \<Rightarrow> bool \<times> (cuex \<rightharpoonup> cuex)"
  and match_operands :: "cuex list \<Rightarrow> cuex list \<Rightarrow> (cuex \<rightharpoonup> cuex) \<Rightarrow> bool \<times> (cuex \<rightharpoonup> cuex)" where
  "cuex_match_pmap (Opn patn_meta ps) ex vm =
     (if \<not> cuex_is_opn ex then (False, vm)
      else if cuex_opr_r patn_meta \<noteq> cuex_opr_r (cuex_meta ex) then (False, vm)
      else match_operands ps (cuex_operands ex) vm)"
| "cuex_match_pmap (Obj patn_meta i) ex vm =
     (if cuex_is_varmeta patn_meta then
        (case vm (Obj patn_meta i) of
           None \<Rightarrow> (True, vm(Obj patn_meta i \<mapsto> ex))
         | Some slot \<Rightarrow> (slot = ex, vm))
      else (Obj patn_meta i = ex, vm))"
| "match_operands [] es vm = (True, vm)"
| "match_operands (p # ps) es vm =
     (case cuex_match_pmap p (hd es) vm of
        (False, vm) \<Rightarrow> (False, vm)
      | (True, vm) \<Rightarrow> match_operands ps (tl es) vm)"

definition cuex_unify :: "cuex \<Rightarrow> cuex \<Rightarrow> cuex \<Rightarrow> cuex" where
  "cuex_unify unknown ex0 ex1 =
     (if ex0 = ex1 then ex0 else if ex0 = unknown then ex1 else if ex1 = unknown then ex0
      else Opn cuex_opr_null [])"

fun cuex_fallback_tran :: "cuex \<Rightarrow> (cuex \<Rightarrow> cuex option) \<Rightarrow> cuex" where
  "cuex_fallback_tran (Opn opr es) cb =
     (case cb (Opn opr es) of Some r \<Rightarrow> r | None \<Rightarrow> cuex_opn_tran opr es (\<lambda>se. cuex_fallback_tran se cb))"
| "cuex_fallback_tran (Obj meta i) cb = (case cb (Obj meta i) of Some r \<Rightarrow> r | None \<Rightarrow> Obj meta i)"

fun cuex_depth_conj_vars :: "cuex \<Rightarrow> (cuex \<Rightarrow> 's \<Rightarrow> bool \<times> 's) \<Rightarrow> 's \<Rightarrow> bool \<times> 's"
  and conj_vars_operands :: "cuex list \<Rightarrow> (cuex \<Rightarrow> 's \<Rightarrow> bool \<times> 's) \<Rightarrow> 's \<Rightarrow> bool \<times> 's" where
  "cuex_depth_conj_vars (Opn opr es) cb s = conj_vars_operands es cb s"
| "cuex_depth_conj_vars (Obj meta i) cb s = (if cuex_is_varmeta meta then cb (Obj meta i) s else (True, s))"
| "conj_vars_operands [] cb s = (True, s)"
| "conj_vars_operands (e # es) cb s =
     (case cuex_depth_conj_vars e cb s of (False, s) \<Rightarrow> (False, s) | (True, s) \<Rightarrow> conj_vars_operands es cb s)"

definition var_is_nonweak_clop :: "cuex \<Rightarrow> bool" where
  "var_is_nonweak_clop ex \<longleftrightarrow> \<not> cuex_is_varmeta_w (cuex_meta ex)"

definition cuex_has_weak_var :: "cuex \<Rightarrow> bool" where
  "cuex_has_weak_var ex \<longleftrightarrow> \<not> fst (cuex_depth_conj_vars ex (\<lambda>v s. (var_is_nonweak_clop v, s)) ())"

fun cuex_depthout_conj :: "cuex \<Rightarrow> (cuex \<Rightarrow> 's \<Rightarrow> bool \<times> 's) \<Rightarrow> 's \<Rightarrow> bool \<times> 's"
  and depthout_conj_operands :: "cuex list \<Rightarrow> (cuex \<Rightarrow> 's \<Rightarrow> bool \<times> 's) \<Rightarrow> 's \<Rightarrow> bool \<times> 's" where
  "cuex_depthout_conj (Opn opr es) cb s =
     (case depthout_conj_operands es cb s of (False, s) \<Rightarrow> (False, s) | (True, s) \<Rightarrow> cb (Opn opr es) s)"
| "cuex_depthout_conj (Obj meta i) cb s = cb (Obj meta i) s"
| "depthout_conj_operands [] cb s = (True, s)"
| "depthout_conj_operands (e # es) cb s =
     (case cuex_depthout_conj e cb s of (False, s) \<Rightarrow> (False, s) | (True, s) \<Rightarrow> depthout_conj_operands es cb s)"

fun cuex_depthout_tran :: "cuex \<Rightarrow> (cuex \<Rightarrow> cuex) \<Rightarrow> cuex" where
  "cuex_depthout_tran (Opn opr es) cb = cb (cuex_opn_tran opr es (\<lambda>subex. cuex_depthout_tran subex cb))"
| "cuex_depthout_tran (Obj meta i) cb = cb (Obj meta i)"

fun cuex_depth_tran_leaves :: "cuex \<Rightarrow> (cuex \<Rightarrow> cuex) \<Rightarrow> cuex" where
  "cuex_depth_tran_leaves (Opn opr es) cb = cuex_opn_tran opr es (\<lambda>subex. cuex_depth_tran_leaves subex cb)"
| "cuex_depth_tran_leaves (Obj meta i) cb = cb (Obj meta i)"

fun cuex_depth_tran_vars :: "cuex \<Rightarrow> (cuex \<Rightarrow> cuex) \<Rightarrow> cuex" where
  "cuex_depth_tran_vars (Opn opr es) cb = cuex_opn_tran opr es (\<lambda>subex. cuex_depth_tran_vars subex cb)"
| "cuex_depth_tran_vars (Obj meta i) cb = (if cuex_is_varmeta meta then cb (Obj meta i) else Obj meta i)"

text \<open>The second component of the result lists the arguments of the calls of \<^verbatim>\<open>recv\<close>, in order.\<close>

fun cuex_maxtrees_of_leaftest_iter :: "cuex \<Rightarrow> (cuex \<Rightarrow> bool) \<Rightarrow> bool \<times> cuex list" where
  "cuex_maxtrees_of_leaftest_iter (Opn opr es) test =
     (let rs = map (\<lambda>e. cuex_maxtrees_of_leaftest_iter e test) es;
          c = map fst rs; acc = list_all (\<lambda>b. b) c in
      (acc, concat (map snd rs) @ (if \<not> acc then map snd (filter fst (zip c es)) else [])))"
| "cuex_maxtrees_of_leaftest_iter (Obj meta i) test = (test (Obj meta i), [])"

fun maxtrees_of_leaftest_tran :: "cuex \<Rightarrow> (cuex \<Rightarrow> bool) \<Rightarrow> (cuex \<Rightarrow> cuex) \<Rightarrow> bool \<times> cuex" where
  "maxtrees_of_leaftest_tran (Opn opr es) test tran =
     (let rs = map (\<lambda>e. maxtrees_of_leaftest_tran e test tran) es;
          acc = length (filter fst rs) in
      if acc = length es then (True, Opn opr es)
      else (False, cuex_opn_by_arr opr (map (\<lambda>(c, x). if c then tran x else x) rs)))"
| "maxtrees_of_leaftest_tran (Obj meta i) test tran = (test (Obj meta i), Obj meta i)"

definition cuex_maxtrees_of_leaftest_tran :: "cuex \<Rightarrow> (cuex \<Rightarrow> bool) \<Rightarrow> (cuex \<Rightarrow> cuex) \<Rightarrow> cuex" where
  "cuex_maxtrees_of_leaftest_tran ex test tran =
     (case maxtrees_of_leaftest_tran ex test tran of (True, ex) \<Rightarrow> tran ex | (False, ex) \<Rightarrow> ex)"

fun cuex_msg_unify :: "cuex \<Rightarrow> cuex \<Rightarrow> (cuex \<Rightarrow> cuex \<Rightarrow> cuex) \<Rightarrow> cuex" where
  "cuex_msg_unify (Opn e0_meta es) e1 f =
     (if Opn e0_meta es = e1 then e1
      else if e0_meta = cuex_meta e1 then
        cuex_opn_by_arr e0_meta (map (\<lambda>(x, y). cuex_msg_unify x y f) (zip es (cuex_operands e1)))
      else f (Opn e0_meta es) e1)"
| "cuex_msg_unify (Obj meta i) e1 f = (if Obj meta i = e1 then e1 else f (Obj meta i) e1)"

text \<open>The array has at least one element.\<close>

function cuex_msg_unify_by_arr :: "cuex list \<Rightarrow> (cuex list \<Rightarrow> cuex) \<Rightarrow> cuex" where
  "cuex_msg_unify_by_arr arr f =
     (case arr of
        [] \<Rightarrow> f []
      | Obj meta i # rest \<Rightarrow> if list_all (\<lambda>e. e = Obj meta i) rest then Obj meta i else f arr
      | Opn meta es # rest \<Rightarrow>
          if list_ex (\<lambda>e. cuex_meta e \<noteq> meta) arr then f arr
          else cuex_opn_by_arr meta
            (map (\<lambda>j. cuex_msg_unify_by_arr (es ! j # map (\<lambda>e. cuex_opn_at e j) rest) f) [0 ..< length es]))"
  by pat_completeness auto
termination
proof (relation "measure (\<lambda>(arr, f). size (hd arr))", goal_cases)
  case (2 arr f e rest meta es j)
  then show ?case using operand_size [of "es ! j" es] by simp
qed simp

fun cuex_count_unique_nodes_except :: "cuex \<Rightarrow> cuex set \<Rightarrow> nat \<times> cuex set"
  and count_unique_operands :: "cuex list \<Rightarrow> nat \<Rightarrow> cuex set \<Rightarrow> nat \<times> cuex set" where
  "cuex_count_unique_nodes_except (Opn opr es) cache =
     (if Opn opr es \<in> cache then (0, cache) else count_unique_operands es 1 (insert (Opn opr es) cache))"
| "cuex_count_unique_nodes_except (Obj meta i) cache =
     (if Obj meta i \<in> cache then (0, cache) else (1, insert (Obj meta i) cache))"
| "count_unique_operands [] count cache = (count, cache)"
| "count_unique_operands (e # es) count cache =
     (case cuex_count_unique_nodes_except e cache of (n, cache) \<Rightarrow> count_unique_operands es (count + n) cache)"

definition cuex_count_unique_nodes :: "cuex \<Rightarrow> nat" where
  "cuex_count_unique_nodes ex = fst (cuex_count_unique_nodes_except ex {})"

definition cuex_contains_var_in_pmap :: "cuex \<Rightarrow> (cuex \<rightharpoonup> 'v) \<Rightarrow> bool" where
  "cuex_contains_var_in_pmap ex pmap \<longleftrightarrow> \<not> fst (cuex_depth_conj_vars ex (\<lambda>v s. (pmap v = None, s)) ())"

fun cuex_contains_ex :: "cuex \<Rightarrow> cuex \<Rightarrow> bool" where
  "cuex_contains_ex (Opn opr es) sub \<longleftrightarrow> Opn opr es = sub \<or> (\<exists>e \<in> set es. cuex_contains_ex e sub)"
| "cuex_contains_ex (Obj meta i) sub \<longleftrightarrow> Obj meta i = sub"

fun cuex_substitute_ex :: "cuex \<Rightarrow> cuex \<Rightarrow> cuex \<Rightarrow> cuex" where
  "cuex_substitute_ex (Opn opr es) var v =
     (if Opn opr es = var then v else cuex_opn_tran opr es (\<lambda>subex. cuex_substitute_ex subex var v))"
| "cuex_substitute_ex (Obj meta i) var v = (if Obj meta i = var then v else Obj meta i)"

fun cuex_substitute_pmap :: "cuex \<Rightarrow> (cuex \<rightharpoonup> cuex) \<Rightarrow> cuex" where
  "cuex_substitute_pmap (Opn opr es) pmap =
     (case pmap (Opn opr es) of Some repl \<Rightarrow> repl
      | None \<Rightarrow> cuex_opn_tran opr es (\<lambda>subex. cuex_substitute_pmap subex pmap))"
| "cuex_substitute_pmap (Obj meta i) pmap = (case pmap (Obj meta i) of Some repl \<Rightarrow> repl | None \<Rightarrow> Obj meta i)"

fun cuex_leftmost_with_meta :: "cuex \<Rightarrow> u64 \<Rightarrow> cuex option"
  and leftmost_operand :: "cuex list \<Rightarrow> u64 \<Rightarrow> cuex option" where
  "cuex_leftmost_with_meta (Opn opr es) search_meta =
     (case leftmost_operand es search_meta of
        Some res \<Rightarrow> Some res | None \<Rightarrow> if opr = search_meta then Some (Opn opr es) else None)"
| "cuex_leftmost_with_meta (Obj meta i) search_meta = (if meta = search_meta then Some (Obj meta i) else None)"
| "leftmost_operand [] search_meta = None"
| "leftmost_operand (e # es) search_meta =
     (case cuex_leftmost_with_meta e search_meta of Some res \<Rightarrow> Some res | None \<Rightarrow> leftmost_operand es search_meta)"

text \<open>
  The search from the right starts at the end of the operands, so it reads the word behind them; the outer \<open>None\<close> is
  this access outside the array.
\<close>

definition cuex_rightmost_with_meta :: "cuex \<Rightarrow> u64 \<Rightarrow> cuex option option" where
  "cuex_rightmost_with_meta ex search_meta =
     (case ex of Opn opr es \<Rightarrow> None
      | Obj meta i \<Rightarrow> Some (if meta = search_meta then Some (Obj meta i) else None))"

fun cuex_leftmost_var :: "cuex \<Rightarrow> u64 \<Rightarrow> cuex option"
  and leftmost_var_operand :: "cuex list \<Rightarrow> u64 \<Rightarrow> cuex option" where
  "cuex_leftmost_var (Opn opr es) qcset = leftmost_var_operand es qcset"
| "cuex_leftmost_var (Obj meta i) qcset =
     (if cuex_is_varmeta meta \<and> cuex_qcset_contains qcset (cuex_varmeta_qcode meta) then Some (Obj meta i) else None)"
| "leftmost_var_operand [] qcset = None"
| "leftmost_var_operand (e # es) qcset =
     (case cuex_leftmost_var e qcset of Some res \<Rightarrow> Some res | None \<Rightarrow> leftmost_var_operand es qcset)"

fun cuex_rightmost_var :: "cuex \<Rightarrow> u64 \<Rightarrow> cuex option"
  and rightmost_var_operand :: "cuex list \<Rightarrow> u64 \<Rightarrow> cuex option" where
  "cuex_rightmost_var (Opn opr es) qcset = rightmost_var_operand es qcset"
| "cuex_rightmost_var (Obj meta i) qcset =
     (if cuex_is_varmeta meta \<and> cuex_qcset_contains qcset (cuex_varmeta_qcode meta) then Some (Obj meta i) else None)"
| "rightmost_var_operand [] qcset = None"
| "rightmost_var_operand (e # es) qcset =
     (case rightmost_var_operand es qcset of Some res \<Rightarrow> Some res | None \<Rightarrow> cuex_rightmost_var e qcset)"

fun cuex_opr_depth_at :: "u64 \<Rightarrow> nat \<Rightarrow> cuex \<Rightarrow> nat" where
  "cuex_opr_depth_at opr i (Opn meta es) =
     (if meta = opr \<and> i < length es then 1 + cuex_opr_depth_at opr i (es ! i) else 0)"
| "cuex_opr_depth_at opr i (Obj meta j) = 0"

fun cuex_binary_left_subex :: "cuex \<Rightarrow> nat \<Rightarrow> cuex" where
  "cuex_binary_left_subex ex 0 = ex"
| "cuex_binary_left_subex ex (Suc depth) = cuex_binary_left_subex (cuex_opn_at ex 0) depth"

fun cuex_binary_right_subex :: "cuex \<Rightarrow> nat \<Rightarrow> cuex" where
  "cuex_binary_right_subex ex 0 = ex"
| "cuex_binary_right_subex ex (Suc depth) = cuex_binary_right_subex (cuex_opn_at ex 1) depth"

fun cuex_binary_inject_left :: "u64 \<Rightarrow> cuex \<Rightarrow> cuex \<Rightarrow> cuex" where
  "cuex_binary_inject_left opr (Opn meta [x, y]) lhs =
     (if meta = opr then cuex_opn_by_arr opr [cuex_binary_inject_left opr x lhs, y]
      else cuex_opn_by_arr opr [lhs, Opn meta [x, y]])"
| "cuex_binary_inject_left opr ex lhs = cuex_opn_by_arr opr [lhs, ex]"

text \<open>The variables of a set are listed in the order of its iteration.\<close>

definition cuex_outmost_quantify_vars :: "u64 \<Rightarrow> cuex list \<Rightarrow> cuex \<Rightarrow> cuex" where
  "cuex_outmost_quantify_vars opr vars e = fold (\<lambda>var e. cuex_opn_by_arr opr [var, e]) vars e"

record cuex_stats =
  st_node_cnt :: nat
  st_var_cnt :: nat
  st_strong_var_cnt :: nat
  st_weak_var_cnt :: nat
  st_passive_var_cnt :: nat
  st_other_var_cnt :: nat
  st_opn_cnt :: nat
  st_obj_cnt :: nat
  st_other_node_cnt :: nat

definition ex_stats_cb :: "cuex \<Rightarrow> cuex_stats \<Rightarrow> bool \<times> cuex_stats" where
  "ex_stats_cb ex stats =
     (let meta = cuex_meta ex in
      (True,
       if cuex_meta_kind meta = 0 then stats\<lparr>st_obj_cnt := st_obj_cnt stats + 1\<rparr>
       else if cuex_meta_kind meta = 1 then stats\<lparr>st_opn_cnt := st_opn_cnt stats + 1\<rparr>
       else if cuex_is_varmeta meta then
         (if cuex_varmeta_qcode meta = cuex_qcode_u then stats\<lparr>st_strong_var_cnt := st_strong_var_cnt stats + 1\<rparr>
          else if cuex_varmeta_qcode meta = cuex_qcode_e then stats\<lparr>st_passive_var_cnt := st_passive_var_cnt stats + 1\<rparr>
          else if cuex_varmeta_qcode meta = cuex_qcode_w then stats\<lparr>st_weak_var_cnt := st_weak_var_cnt stats + 1\<rparr>
          else stats\<lparr>st_other_var_cnt := st_other_var_cnt stats + 1\<rparr>)
       else stats\<lparr>st_other_node_cnt := st_other_node_cnt stats + 1\<rparr>))"

definition cuex_stats_of :: "cuex \<Rightarrow> cuex_stats" where
  "cuex_stats_of ex =
     (let stats = snd (cuex_depthout_conj ex ex_stats_cb
        \<lparr>st_node_cnt = 0, st_var_cnt = 0, st_strong_var_cnt = 0, st_weak_var_cnt = 0, st_passive_var_cnt = 0,
         st_other_var_cnt = 0, st_opn_cnt = 0, st_obj_cnt = 0, st_other_node_cnt = 0\<rparr>);
        var_cnt = st_strong_var_cnt stats + st_weak_var_cnt stats + st_passive_var_cnt stats + st_other_var_cnt stats in
      stats\<lparr>st_var_cnt := var_cnt,
        st_node_cnt := var_cnt + st_opn_cnt stats + st_obj_cnt stats + st_other_node_cnt stats\<rparr>)"

end
