(* ===== verification/CuexAlgoProps.thy ===== *)
theory CuexAlgoProps
  imports CuexAlgo
begin

text \<open>Correctness of the algorithms of \<^verbatim>\<open>cuex/algo.c\<close>.\<close>

declare cuex_msg_unify.simps [simp del] cuex_msg_unify_by_arr.simps [simp del]

section \<open>Subexpressions\<close>

definition subterms :: "cuex \<Rightarrow> cuex set" where
  "subterms e = {s. cuex_contains_ex e s}"

lemma subterms_simps [simp]:
  "subterms (Opn opr es) = insert (Opn opr es) (\<Union>e \<in> set es. subterms e)"
  "subterms (Obj meta i) = {Obj meta i}"
  by (auto simp: subterms_def)

lemma subterms_finite: "finite (subterms e)"
  by (induction e) simp_all

lemma contains_trans: "cuex_contains_ex a b \<Longrightarrow> cuex_contains_ex b c \<Longrightarrow> cuex_contains_ex a c"
  by (induction a) auto

lemma subterm_size: "s \<in> subterms e \<Longrightarrow> size s \<le> size e"
proof (induction e)
  case (Opn opr es)
  show ?case
  proof (cases "s = Opn opr es")
    case False
    then obtain e where e: "e \<in> set es" "s \<in> subterms e" using Opn.prems by auto
    have "size s \<le> size e" by (rule Opn.IH [OF e])
    then show ?thesis using operand_size [OF e(1)] by simp
  qed simp
qed simp

lemma not_in_operand: "e \<in> set es \<Longrightarrow> Opn opr es \<notin> subterms e"
  using subterm_size [of "Opn opr es" e] operand_size [of e es] by auto

lemma subterms_closed: "s \<in> subterms e \<Longrightarrow> subterms s \<subseteq> subterms e"
  by (auto simp: subterms_def intro: contains_trans)

lemma self_subterm: "e \<in> subterms e"
  by (cases e) simp_all

section \<open>Most specific generalisations\<close>

abbreviation instance_of :: "(cuex \<Rightarrow> cuex) \<Rightarrow> cuex \<Rightarrow> cuex" where
  "instance_of s e \<equiv> cuex_depth_tran_vars e s"

fun ex_vars :: "cuex \<Rightarrow> cuex set" where
  "ex_vars (Opn opr es) = (\<Union>e \<in> set es. ex_vars e)"
| "ex_vars (Obj meta i) = (if cuex_is_varmeta meta then {Obj meta i} else {})"

lemma instance_id: "(\<And>v. v \<in> ex_vars e \<Longrightarrow> s v = v) \<Longrightarrow> instance_of s e = e"
proof (induction e)
  case (Opn opr es)
  have "cuex_depth_tran_vars x s = x" if "x \<in> set es" for x using Opn that by fastforce
  then show ?case by (simp add: map_idI)
qed simp

lemma msg_same [simp]: "cuex_msg_unify e e f = e"
  by (cases e) (simp_all add: cuex_msg_unify.simps)

lemma msg_opn:
  assumes "length es = length fs"
  shows "cuex_msg_unify (Opn opr es) (Opn opr fs) f = Opn opr (map (\<lambda>(x, y). cuex_msg_unify x y f) (zip es fs))"
proof (cases "es = fs")
  case True
  have "map (\<lambda>(x, y). cuex_msg_unify x y f) (zip fs fs) = fs"
    by (rule nth_equalityI) simp_all
  then show ?thesis using True by simp
qed (simp add: cuex_opn_by_arr_def cuex_msg_unify.simps)

text \<open>Two substitutions that read back the two sides of the mismatches the callback may be called for.\<close>

definition reads_back :: "(cuex \<Rightarrow> cuex \<Rightarrow> cuex) \<Rightarrow> (cuex \<Rightarrow> cuex) \<Rightarrow> (cuex \<Rightarrow> cuex) \<Rightarrow> cuex \<Rightarrow> cuex \<Rightarrow> bool" where
  "reads_back f s0 s1 e0 e1 \<longleftrightarrow>
     (\<forall>a \<in> subterms e0. \<forall>b \<in> subterms e1.
       (case f a b of Obj meta i \<Rightarrow> cuex_is_varmeta meta | _ \<Rightarrow> False) \<and> s0 (f a b) = a \<and> s1 (f a b) = b)"

lemma reads_back_instance:
  assumes "reads_back f s0 s1 a b"
  shows "instance_of s0 (f a b) = a \<and> instance_of s1 (f a b) = b"
proof -
  have "(case f a b of Obj meta i \<Rightarrow> cuex_is_varmeta meta | _ \<Rightarrow> False) \<and> s0 (f a b) = a \<and> s1 (f a b) = b"
    using assms self_subterm unfolding reads_back_def by blast
  then show ?thesis by (cases "f a b") simp_all
qed

lemma reads_back_operands:
  "reads_back f s0 s1 (Opn opr es) (Opn opr' fs) \<Longrightarrow> e \<in> set es \<Longrightarrow> e' \<in> set fs \<Longrightarrow> reads_back f s0 s1 e e'"
  by (auto simp: reads_back_def)

lemma ok_operands: "ex_ok (Opn opr es) \<Longrightarrow> ex_ok e \<Longrightarrow> cuex_meta e = opr \<Longrightarrow> \<exists>fs. e = Opn opr fs \<and> length fs = length es"
  by (cases e) auto

lemma msg_generalises:
  assumes "reads_back f s0 s1 e0 e1" "ex_ok e0" "ex_ok e1" "\<And>v. v \<in> ex_vars e0 \<union> ex_vars e1 \<Longrightarrow> s0 v = v \<and> s1 v = v"
  shows "instance_of s0 (cuex_msg_unify e0 e1 f) = e0 \<and> instance_of s1 (cuex_msg_unify e0 e1 f) = e1"
  using assms
proof (induction e0 arbitrary: e1)
  case (Opn opr es)
  have id: "instance_of s0 e1 = e1 \<and> instance_of s1 e1 = e1" using Opn.prems(4) by (simp add: instance_id)
  consider "Opn opr es = e1" | "Opn opr es \<noteq> e1" "opr = cuex_meta e1" | "Opn opr es \<noteq> e1" "opr \<noteq> cuex_meta e1" by blast
  then show ?case
  proof cases
    case 1
    then show ?thesis using id by simp
  next
    case 2
    then obtain fs where fs: "e1 = Opn opr fs" "length fs = length es" using ok_operands [OF Opn.prems(2,3)] by metis
    have "instance_of s0 (cuex_msg_unify (es ! j) (fs ! j) f) = es ! j \<and> instance_of s1 (cuex_msg_unify (es ! j) (fs ! j) f) = fs ! j"
      if "j < length es" for j
    proof (rule Opn.IH)
      show "es ! j \<in> set es" "ex_ok (es ! j)" "ex_ok (fs ! j)" using that fs Opn.prems(2,3) by simp_all
      show "reads_back f s0 s1 (es ! j) (fs ! j)" by (rule reads_back_operands [OF Opn.prems(1) [unfolded fs(1)]]) (use that fs(2) in simp_all)
      fix v
      assume "v \<in> ex_vars (es ! j) \<union> ex_vars (fs ! j)"
      then have "v \<in> ex_vars (Opn opr es) \<union> ex_vars e1" using that fs nth_mem [of j es] nth_mem [of j fs] by auto
      then show "s0 v = v \<and> s1 v = v" by (rule Opn.prems(4))
    qed
    then have "map (instance_of s0) (map (\<lambda>(x, y). cuex_msg_unify x y f) (zip es fs)) = es \<and>
        map (instance_of s1) (map (\<lambda>(x, y). cuex_msg_unify x y f) (zip es fs)) = fs"
      by (intro conjI nth_equalityI) (simp_all add: fs(2))
    then show ?thesis unfolding fs(1) msg_opn [OF fs(2) [symmetric]] by (simp only: cuex_depth_tran_vars.simps opn_tran_map)
  next
    case 3
    then show ?thesis using reads_back_instance [OF Opn.prems(1)] by (simp add: cuex_msg_unify.simps)
  qed
next
  case (Obj meta i)
  show ?case
  proof (cases "Obj meta i = e1")
    case True
    then show ?thesis using Obj.prems(4) by (auto simp: instance_id)
  next
    case False
    then show ?thesis using reads_back_instance [OF Obj.prems(1)] by (simp add: cuex_msg_unify.simps)
  qed
qed

text \<open>Any other generalisation has the result as an instance.\<close>

lemma instance_ok_opn: "ex_ok (instance_of s g) \<Longrightarrow> g = Opn opr gs \<Longrightarrow> \<forall>e \<in> set gs. ex_ok (instance_of s e)"
  by auto

lemma msg_instance:
  "instance_of (\<lambda>v. cuex_msg_unify (t0 v) (t1 v) f) g = cuex_msg_unify (instance_of t0 g) (instance_of t1 g) f"
proof (induction g)
  case (Opn opr gs)
  have "map (instance_of (\<lambda>v. cuex_msg_unify (t0 v) (t1 v) f)) gs =
      map (\<lambda>(x, y). cuex_msg_unify x y f) (zip (map (instance_of t0) gs) (map (instance_of t1) gs))"
    using Opn by (intro nth_equalityI) simp_all
  then show ?case by (simp only: cuex_depth_tran_vars.simps opn_tran_map msg_opn length_map)
qed simp

section \<open>Comparing any number of expressions\<close>

lemma by_arr_two:
  assumes "ex_ok e0" "ex_ok e1"
  shows "cuex_msg_unify_by_arr [e0, e1] (\<lambda>arr. f (arr ! 0) (arr ! 1)) = cuex_msg_unify e0 e1 f"
  using assms
proof (induction e0 arbitrary: e1)
  case (Opn opr es)
  show ?case
  proof (cases "cuex_meta e1 = opr")
    case True
    then obtain fs where fs: "e1 = Opn opr fs" "length fs = length es" using ok_operands [OF Opn.prems] by metis
    have "map (\<lambda>j. cuex_msg_unify_by_arr [es ! j, fs ! j] (\<lambda>arr. f (arr ! 0) (arr ! 1))) [0 ..< length es] =
        map (\<lambda>(x, y). cuex_msg_unify x y f) (zip es fs)"
      using Opn.IH Opn.prems fs by (intro nth_equalityI) simp_all
    then show ?thesis
      unfolding fs(1) msg_opn [OF fs(2) [symmetric]]
      by (subst cuex_msg_unify_by_arr.simps) (simp add: cuex_opn_at_def cuex_opn_by_arr_def)
  next
    case False
    then have "Opn opr es \<noteq> e1" by auto
    then show ?thesis using False by (subst cuex_msg_unify_by_arr.simps) (simp add: cuex_msg_unify.simps)
  qed
next
  case (Obj meta i)
  show ?case by (subst cuex_msg_unify_by_arr.simps) (auto simp: cuex_msg_unify.simps)
qed

section \<open>Counting and substituting\<close>

text \<open>
  The expressions that were counted are closed under subexpressions, but for the operations \<open>X\<close> whose
  operands are being visited, which do not occur below.
\<close>

definition counted :: "cuex set \<Rightarrow> cuex set \<Rightarrow> bool" where
  "counted X cache \<longleftrightarrow> finite cache \<and> (\<forall>s \<in> cache - X. subterms s \<subseteq> cache)"

lemma counted_add: "counted X cache \<Longrightarrow> counted X (cache \<union> subterms e)"
  using subterms_closed subterms_finite by (fastforce simp: counted_def)

lemma count_unique:
  "(\<forall>X n cache'. counted X cache \<and> X \<inter> subterms e = {} \<and> cuex_count_unique_nodes_except e cache = (n, cache') \<longrightarrow>
      cache' = cache \<union> subterms e \<and> n + card cache = card cache')"
  "(\<forall>X n cache'. counted X cache \<and> (\<forall>e \<in> set es. X \<inter> subterms e = {}) \<and> count_unique_operands es count cache = (n, cache') \<longrightarrow>
      cache' = cache \<union> (\<Union>e \<in> set es. subterms e) \<and> n + card cache = count + card cache')"
proof (induction e cache and es count cache rule: cuex_count_unique_nodes_except_count_unique_operands.induct)
  case (1 opr es cache)
  show ?case
  proof (intro allI impI)
    fix X n cache'
    assume a: "counted X cache \<and> X \<inter> subterms (Opn opr es) = {} \<and> cuex_count_unique_nodes_except (Opn opr es) cache = (n, cache')"
    then have cX: "counted X cache" and dis: "X \<inter> subterms (Opn opr es) = {}"
      and run: "cuex_count_unique_nodes_except (Opn opr es) cache = (n, cache')" by blast+
    show "cache' = cache \<union> subterms (Opn opr es) \<and> n + card cache = card cache'"
    proof (cases "Opn opr es \<in> cache")
      case True
      moreover have "Opn opr es \<notin> X" using dis self_subterm [of "Opn opr es"] by blast
      ultimately have "subterms (Opn opr es) \<subseteq> cache" using cX unfolding counted_def by blast
      then show ?thesis using True run by (simp add: Un_absorb2 del: subterms_simps)
    next
      case False
      let ?X = "insert (Opn opr es) X" and ?C = "insert (Opn opr es) cache"
      have "counted ?X ?C" using cX by (auto simp: counted_def)
      moreover have "\<forall>e \<in> set es. ?X \<inter> subterms e = {}" using dis not_in_operand [of _ es opr] by auto
      moreover have "count_unique_operands es 1 ?C = (n, cache')" using run False by simp
      ultimately have "cache' = ?C \<union> (\<Union>e \<in> set es. subterms e) \<and> n + card ?C = 1 + card cache'"
        using 1 [OF False, rule_format, of ?X n cache'] by blast
      moreover have "card ?C = Suc (card cache)" using False cX by (simp add: counted_def)
      ultimately show ?thesis by simp
    qed
  qed
next
  case (4 e es count cache)
  show ?case
  proof (intro allI impI)
    fix X n cache'
    assume a: "counted X cache \<and> (\<forall>e \<in> set (e # es). X \<inter> subterms e = {}) \<and> count_unique_operands (e # es) count cache = (n, cache')"
    obtain m cache1 where r: "cuex_count_unique_nodes_except e cache = (m, cache1)" by (metis surj_pair)
    then have 1: "cache1 = cache \<union> subterms e" "m + card cache = card cache1" using "4.IH"(1) [rule_format, of X m cache1] a by simp_all
    have "count_unique_operands es (count + m) cache1 = (n, cache')" using a r by simp
    moreover have "counted X cache1" unfolding 1(1) by (rule counted_add) (use a in blast)
    moreover have "\<forall>e \<in> set es. X \<inter> subterms e = {}" using a by simp
    ultimately have "cache' = cache1 \<union> (\<Union>e \<in> set es. subterms e) \<and> n + card cache1 = (count + m) + card cache'"
      using "4.IH"(2) [OF r [symmetric], rule_format, of X n cache'] by blast
    then show "cache' = cache \<union> (\<Union>e \<in> set (e # es). subterms e) \<and> n + card cache = count + card cache'" using 1 by auto
  qed
qed (auto simp: counted_def)

lemma substitute_ex_pmap: "cuex_substitute_ex e var v = cuex_substitute_pmap e [var \<mapsto> v]"
  by (induction e) auto

section \<open>Transforming the maximal trees of leaves that pass a test\<close>

fun all_leaves :: "(cuex \<Rightarrow> bool) \<Rightarrow> cuex \<Rightarrow> bool" where
  "all_leaves test (Opn opr es) \<longleftrightarrow> (\<forall>e \<in> set es. all_leaves test e)"
| "all_leaves test (Obj meta i) \<longleftrightarrow> test (Obj meta i)"

fun tran_maxtrees :: "(cuex \<Rightarrow> bool) \<Rightarrow> (cuex \<Rightarrow> cuex) \<Rightarrow> cuex \<Rightarrow> cuex" where
  "tran_maxtrees test tran (Opn opr es) =
     (if all_leaves test (Opn opr es) then tran (Opn opr es) else Opn opr (map (tran_maxtrees test tran) es))"
| "tran_maxtrees test tran (Obj meta i) = (if test (Obj meta i) then tran (Obj meta i) else Obj meta i)"

lemma filter_all_length: "length (filter P xs) = length xs \<longleftrightarrow> (\<forall>x \<in> set xs. P x)"
proof
  assume l: "length (filter P xs) = length xs"
  show "\<forall>x \<in> set xs. P x"
  proof (rule ccontr)
    assume "\<not> (\<forall>x \<in> set xs. P x)"
    then obtain x where "x \<in> set xs" "\<not> P x" by blast
    then have "length (filter P xs) < length xs" by (rule length_filter_less)
    then show False using l by simp
  qed
qed simp

lemma tran_all: "all_leaves test e \<Longrightarrow> tran_maxtrees test tran e = tran e"
  by (cases e) simp_all

lemma maxtrees_tran:
  "maxtrees_of_leaftest_tran e test tran = (all_leaves test e, if all_leaves test e then e else tran_maxtrees test tran e)"
proof (induction e)
  case (Opn opr es)
  let ?rs = "map (\<lambda>e. maxtrees_of_leaftest_tran e test tran) es"
  have rs: "?rs = map (\<lambda>e. (all_leaves test e, if all_leaves test e then e else tran_maxtrees test tran e)) es"
    using Opn by simp
  have "length (filter fst ?rs) = length es \<longleftrightarrow> (\<forall>e \<in> set es. all_leaves test e)"
    unfolding rs by (simp add: filter_map comp_def filter_all_length)
  moreover have "map (\<lambda>(c, x). if c then tran x else x) ?rs = map (tran_maxtrees test tran) es"
    unfolding rs by (simp add: tran_all)
  ultimately show ?case by (simp add: Let_def cuex_opn_by_arr_def)
qed simp

section \<open>Properties\<close>

text \<open>C20: the generalisation of two expressions has both as instances under the substitutions that read back the mismatches, and
  it is the most specific one: any expression that has both as instances has the generalisation as an instance.\<close>

theorem msg_unify_most_specific:
  assumes "reads_back f s0 s1 e0 e1" "ex_ok e0" "ex_ok e1" "\<And>v. v \<in> ex_vars e0 \<union> ex_vars e1 \<Longrightarrow> s0 v = v \<and> s1 v = v"
  shows "cuex_depth_tran_vars (cuex_msg_unify e0 e1 f) s0 = e0 \<and> cuex_depth_tran_vars (cuex_msg_unify e0 e1 f) s1 = e1 \<and>
    (\<forall>g t0 t1. cuex_depth_tran_vars g t0 = e0 \<and> cuex_depth_tran_vars g t1 = e1 \<longrightarrow>
      (\<exists>t. cuex_depth_tran_vars g t = cuex_msg_unify e0 e1 f))"
  using msg_generalises [OF assms] msg_instance [where f = f] by blast

definition mismatch_var :: "cuex \<Rightarrow> cuex \<Rightarrow> cuex" where
  "mismatch_var a b = Obj 6 ((if a = Obj 0 0 then 0 else 2) + (if b = Obj 0 1 then 0 else 1))"

definition mismatch_side :: "cuex \<Rightarrow> cuex \<Rightarrow> nat \<Rightarrow> cuex \<Rightarrow> cuex" where
  "mismatch_side x y d v = (case v of Obj meta i \<Rightarrow> if (i div d) mod 2 = 0 then x else y | _ \<Rightarrow> v)"

lemma msg_unify_most_specific_witness:
  "cuex_depth_tran_vars (cuex_msg_unify (Opn (cuex_opr 1 1) [Obj 0 0]) (Opn (cuex_opr 1 1) [Obj 0 1]) mismatch_var)
     (mismatch_side (Obj 0 1) (Opn (cuex_opr 1 1) [Obj 0 1]) 1) = Opn (cuex_opr 1 1) [Obj 0 1]"
proof -
  have v: "cuex_is_varmeta 6" by code_simp
  have k: "cuex_meta_is_opr (cuex_opr 1 1)" "cuex_opr_r (cuex_opr 1 1) = 1" "\<not> cuex_meta_is_opr 0" "\<not> cuex_is_varmeta 0" by code_simp+
  show ?thesis
    by (rule msg_unify_most_specific [of mismatch_var "mismatch_side (Obj 0 0) (Opn (cuex_opr 1 1) [Obj 0 0]) 2",
        THEN conjunct2, THEN conjunct1])
      (auto simp: reads_back_def mismatch_var_def mismatch_side_def v k)
qed

text \<open>C33: the number of unique nodes is the number of different subexpressions.\<close>

theorem count_unique_nodes_correct:
  "cuex_count_unique_nodes e = card {s. cuex_contains_ex e s}"
proof -
  obtain n cache where r: "cuex_count_unique_nodes_except e {} = (n, cache)" by (metis surj_pair)
  have "counted {} {}" by (simp add: counted_def)
  then have "cache = {} \<union> subterms e \<and> n + card ({} :: cuex set) = card cache" using count_unique(1) r by blast
  then show ?thesis by (simp add: cuex_count_unique_nodes_def r subterms_def)
qed

text \<open>transforming the maximal trees whose leaves pass a test applies the transformation to each subexpression all of whose
  leaves pass it and that is not inside a larger one, and to nothing else.\<close>

theorem maxtrees_tran_correct:
  "cuex_maxtrees_of_leaftest_tran e test tran = tran_maxtrees test tran e"
  by (cases "all_leaves test e") (simp_all add: cuex_maxtrees_of_leaftest_tran_def maxtrees_tran tran_all)

text \<open>generalising two expressions given as an array is generalising them as a pair.\<close>

theorem msg_unify_by_arr_pair:
  "ex_ok e0 \<Longrightarrow> ex_ok e1 \<Longrightarrow>
    cuex_msg_unify_by_arr [e0, e1] (\<lambda>arr. f (arr ! 0) (arr ! 1)) = cuex_msg_unify e0 e1 f"
  by (rule by_arr_two)

lemma msg_unify_by_arr_pair_witness:
  "cuex_msg_unify_by_arr [Obj 0 1, Obj 0 2] (\<lambda>arr. (\<lambda>a b. Obj 6 0) (arr ! 0) (arr ! 1)) = cuex_msg_unify (Obj 0 1) (Obj 0 2) (\<lambda>a b. Obj 6 0)"
proof (rule msg_unify_by_arr_pair)
  have "\<not> cuex_meta_is_opr 0" by code_simp
  then show "ex_ok (Obj 0 1)" "ex_ok (Obj 0 2)" by simp_all
qed

text \<open>Pattern matching accepts an operation of another operator of the same arity.\<close>

lemma match_ignores_operator:
  "fst (cuex_match_pmap (Opn (cuex_opr 1 1) [Obj 0 0]) (Opn (cuex_opr 2 1) [Obj 0 0]) Map.empty)"
  by code_simp

end
