(* ===== verification/Subst.thy ===== *)
theory Subst
  imports CuexAlgo
begin

text \<open>
  The substitutions of \<^verbatim>\<open>cuex/subst.c\<close>: frames that map variables to shared, mutable equivalence classes of
  variables with an optional value. A frame may shadow another one, which it was cloned from. Frames and classes
  are objects in a heap and known by their index. The pointer maps of the frames are lists of pairs in the order in
  which the maps are iterated. The operator \<^verbatim>\<open>CUEX_O1_SUBST_BLOCK\<close> comes from a generated file, so it is a field of
  the heap that no operation changes. Functions that follow chains of frames or of values have fuel,
  and \<open>None\<close> is that it did not suffice.
\<close>

section \<open>Pointer maps\<close>

type_synonym 'a pmap = "(cuex \<times> 'a) list"

definition pmap_find :: "'a pmap \<Rightarrow> cuex \<Rightarrow> 'a option" where
  "pmap_find m v = map_of m v"

fun pmap_put :: "'a pmap \<Rightarrow> cuex \<Rightarrow> 'a \<Rightarrow> 'a pmap" where
  "pmap_put [] v x = [(v, x)]"
| "pmap_put ((w, y) # m) v x = (if w = v then (w, x) # m else (w, y) # pmap_put m v x)"

section \<open>Heap\<close>

record veqv =
  vq_qcode :: u64
  vq_vars :: "cuex list"
  vq_value :: "cuex option"

record subst_frame =
  sf_clone_cnt :: u64
  sf_shadow_access_cnt :: u64
  sf_shadowed :: "nat option"
  sf_var_to_veqv :: "nat pmap"
  sf_qcset :: u64
  sf_is_idem :: bool

record subst_heap =
  sh_veqvs :: "veqv list"
  sh_substs :: "subst_frame list"
  sh_next_var :: nat
  sh_block :: u64

definition veqv_at :: "subst_heap \<Rightarrow> nat \<Rightarrow> veqv" where "veqv_at h q = sh_veqvs h ! q"
definition subst_at :: "subst_heap \<Rightarrow> nat \<Rightarrow> subst_frame" where "subst_at h s = sh_substs h ! s"

definition veqv_upd :: "subst_heap \<Rightarrow> nat \<Rightarrow> veqv \<Rightarrow> subst_heap" where
  "veqv_upd h q vq = h\<lparr>sh_veqvs := (sh_veqvs h)[q := vq]\<rparr>"

definition subst_upd :: "subst_heap \<Rightarrow> nat \<Rightarrow> subst_frame \<Rightarrow> subst_heap" where
  "subst_upd h s f = h\<lparr>sh_substs := (sh_substs h)[s := f]\<rparr>"

definition veqv_alloc :: "subst_heap \<Rightarrow> veqv \<Rightarrow> nat \<times> subst_heap" where
  "veqv_alloc h vq = (length (sh_veqvs h), h\<lparr>sh_veqvs := sh_veqvs h @ [vq]\<rparr>)"

definition subst_alloc :: "subst_heap \<Rightarrow> subst_frame \<Rightarrow> nat \<times> subst_heap" where
  "subst_alloc h f = (length (sh_substs h), h\<lparr>sh_substs := sh_substs h @ [f]\<rparr>)"

definition set_value :: "subst_heap \<Rightarrow> nat \<Rightarrow> cuex option \<Rightarrow> subst_heap" where
  "set_value h q x = veqv_upd h q ((veqv_at h q)\<lparr>vq_value := x\<rparr>)"

definition put_var :: "subst_heap \<Rightarrow> nat \<Rightarrow> cuex \<Rightarrow> nat \<Rightarrow> subst_heap" where
  "put_var h s v q = subst_upd h s ((subst_at h s)\<lparr>sf_var_to_veqv := pmap_put (sf_var_to_veqv (subst_at h s)) v q\<rparr>)"

definition cuex_var_new :: "u64 \<Rightarrow> subst_heap \<Rightarrow> cuex \<times> subst_heap" where
  "cuex_var_new qcode h = (Obj (cuex_varmeta_kqi 0 qcode 0) (sh_next_var h), h\<lparr>sh_next_var := sh_next_var h + 1\<rparr>)"

section \<open>Variable equivalence classes\<close>

definition cuex_veqv_new :: "subst_heap \<Rightarrow> cuex \<Rightarrow> nat \<times> subst_heap" where
  "cuex_veqv_new h var = veqv_alloc h \<lparr>vq_qcode = cuex_varmeta_qcode (cuex_meta var), vq_vars = [var], vq_value = None\<rparr>"

definition cuex_veqv_new_copy :: "subst_heap \<Rightarrow> nat \<Rightarrow> nat \<times> subst_heap" where
  "cuex_veqv_new_copy h src = veqv_alloc h (veqv_at h src)"

definition cuex_veqv_primary_var :: "veqv \<Rightarrow> cuex" where
  "cuex_veqv_primary_var vq = hd (vq_vars vq)"

definition cuex_veqv_unify :: "subst_heap \<Rightarrow> nat \<Rightarrow> nat \<Rightarrow> cuex option \<Rightarrow> nat \<times> subst_heap" where
  "cuex_veqv_unify h q0 q1 new_value =
     (let v0 = veqv_at h q0; v1 = veqv_at h q1;
          qc = (if vq_qcode v1 = cuex_qcode_w then vq_qcode v0 else vq_qcode v1);
          varset = set (vq_vars v1);
          head_var = hd (vq_vars v1);
          dst = fold (\<lambda>var dst. if var \<notin> varset then var # dst else dst) (vq_vars v0) (tl (vq_vars v1)) in
      (q1, veqv_upd h q1 \<lparr>vq_qcode = qc, vq_vars = head_var # dst, vq_value = new_value\<rparr>))"

section \<open>Construction\<close>

definition subst_init :: "nat option \<Rightarrow> u64 \<Rightarrow> bool \<Rightarrow> subst_frame" where
  "subst_init src qcs idem =
     \<lparr>sf_clone_cnt = 1, sf_shadow_access_cnt = 0, sf_shadowed = src, sf_var_to_veqv = [], sf_qcset = qcs, sf_is_idem = idem\<rparr>"

definition cuex_subst_init :: "subst_heap \<Rightarrow> nat \<Rightarrow> u64 \<Rightarrow> subst_heap" where
  "cuex_subst_init h s qcs = subst_upd h s (subst_init None qcs True)"

definition cuex_subst_init_nonidem :: "subst_heap \<Rightarrow> nat \<Rightarrow> u64 \<Rightarrow> subst_heap" where
  "cuex_subst_init_nonidem h s qcs = subst_upd h s (subst_init None qcs False)"

definition cuex_subst_new :: "subst_heap \<Rightarrow> u64 \<Rightarrow> nat \<times> subst_heap" where
  "cuex_subst_new h qcs = subst_alloc h (subst_init None qcs True)"

definition cuex_subst_new_nonidem :: "subst_heap \<Rightarrow> u64 \<Rightarrow> nat \<times> subst_heap" where
  "cuex_subst_new_nonidem h qcs = subst_alloc h (subst_init None qcs False)"

fun skip_empty :: "nat \<Rightarrow> subst_heap \<Rightarrow> nat option \<Rightarrow> nat option option" where
  "skip_empty 0 h src = None"
| "skip_empty (Suc n) h src =
     (case src of
        None \<Rightarrow> Some None
      | Some s \<Rightarrow>
          if sf_var_to_veqv (subst_at h s) = [] then skip_empty n h (sf_shadowed (subst_at h s)) else Some (Some s))"

definition cuex_subst_new_clone :: "nat \<Rightarrow> subst_heap \<Rightarrow> nat option \<Rightarrow> u64 \<Rightarrow> (nat \<times> subst_heap) option" where
  "cuex_subst_new_clone n h src qcs =
     (case skip_empty n h src of
        None \<Rightarrow> None
      | Some None \<Rightarrow> Some (subst_alloc h (subst_init None qcs True))
      | Some (Some s) \<Rightarrow>
          (case subst_alloc h (subst_init (Some s) qcs (sf_is_idem (subst_at h s))) of
             (d, h) \<Rightarrow> Some (d, subst_upd h s ((subst_at h s)\<lparr>sf_clone_cnt := sf_clone_cnt (subst_at h s) + 1\<rparr>))))"

section \<open>Lookup\<close>

definition subst_merge_cb_move :: "nat \<Rightarrow> cuex \<times> nat \<Rightarrow> subst_heap \<Rightarrow> subst_heap" where
  "subst_merge_cb_move d slot h = put_var h d (fst slot) (snd slot)"

definition subst_merge_cb_copy :: "nat \<Rightarrow> cuex \<times> nat \<Rightarrow> subst_heap \<Rightarrow> subst_heap" where
  "subst_merge_cb_copy d slot h =
     (case slot of (var, q) \<Rightarrow>
        let vars = vq_vars (veqv_at h q) in
        if var = hd vars \<and> pmap_find (sf_var_to_veqv (subst_at h d)) var = None then
          (case cuex_veqv_new_copy h q of
             (c, h) \<Rightarrow> fold (\<lambda>v h. put_var h d v c) (tl vars) (put_var h d var c))
        else h)"

definition subst_merge :: "subst_heap \<Rightarrow> nat \<Rightarrow> subst_heap" where
  "subst_merge h dst =
     (case sf_shadowed (subst_at h dst) of
        None \<Rightarrow> h
      | Some src \<Rightarrow>
          let h1 =
            (if sf_clone_cnt (subst_at h src) = 1 then
               let sm = sf_var_to_veqv (subst_at h src); dm = sf_var_to_veqv (subst_at h dst);
                   h' = (if length sm > length dm then
                           subst_upd (subst_upd h src ((subst_at h src)\<lparr>sf_var_to_veqv := dm\<rparr>))
                             dst ((subst_at h dst)\<lparr>sf_var_to_veqv := sm\<rparr>)
                         else h) in
               fold (subst_merge_cb_move dst) (sf_var_to_veqv (subst_at h' src)) h'
             else fold (subst_merge_cb_copy dst) (sf_var_to_veqv (subst_at h src)) h) in
          subst_upd h1 dst ((subst_at h1 dst)\<lparr>sf_shadowed := sf_shadowed (subst_at h1 src)\<rparr>))"

fun merge_all :: "nat \<Rightarrow> subst_heap \<Rightarrow> nat \<Rightarrow> subst_heap option" where
  "merge_all 0 h s = None"
| "merge_all (Suc n) h s =
     (if sf_shadowed (subst_at h s) = None then Some h else merge_all n (subst_merge h s) s)"

definition cuex_subst_flatten :: "nat \<Rightarrow> subst_heap \<Rightarrow> nat option \<Rightarrow> subst_heap option" where
  "cuex_subst_flatten n h s = (case s of None \<Rightarrow> Some h | Some s \<Rightarrow> merge_all n h s)"

definition cuex_subst_new_copy :: "nat \<Rightarrow> subst_heap \<Rightarrow> nat option \<Rightarrow> (nat option \<times> subst_heap) option" where
  "cuex_subst_new_copy n h src =
     (case src of
        None \<Rightarrow> Some (None, h)
      | Some s \<Rightarrow>
          (case cuex_subst_new_clone n h (Some s) (sf_qcset (subst_at h s)) of
             None \<Rightarrow> None
           | Some (d, h) \<Rightarrow> (case merge_all n h d of None \<Rightarrow> None | Some h \<Rightarrow> Some (Some d, h))))"

definition cuex_subst_delete :: "subst_heap \<Rightarrow> nat \<Rightarrow> subst_heap" where
  "cuex_subst_delete h s =
     (case sf_shadowed (subst_at h s) of
        None \<Rightarrow> h
      | Some sh \<Rightarrow> subst_upd h sh ((subst_at h sh)\<lparr>sf_clone_cnt := sf_clone_cnt (subst_at h sh) - 1\<rparr>))"

fun cuex_subst_size :: "nat \<Rightarrow> subst_heap \<Rightarrow> nat option \<Rightarrow> u64 \<Rightarrow> u64 option" where
  "cuex_subst_size 0 h s acc = None"
| "cuex_subst_size (Suc n) h s acc =
     (case s of
        None \<Rightarrow> Some acc
      | Some s \<Rightarrow>
          cuex_subst_size n h (sf_shadowed (subst_at h s)) (acc + word_of_nat (length (sf_var_to_veqv (subst_at h s)))))"

text \<open>
  Every step of the lookup merges a frame or goes to the shadowed one; both shorten the chain, so that as
  many steps as there are frames suffice. The frame is not null.
\<close>

fun cref_loop :: "nat \<Rightarrow> subst_heap \<Rightarrow> nat \<Rightarrow> cuex \<Rightarrow> nat option \<times> subst_heap" where
  "cref_loop n h s var =
     (case pmap_find (sf_var_to_veqv (subst_at h s)) var of
        Some q \<Rightarrow> (Some q, h)
      | None \<Rightarrow>
          (case (n, sf_shadowed (subst_at h s)) of
             (Suc n, Some sh) \<Rightarrow>
               let cnt = sf_shadow_access_cnt (subst_at h s) + 1;
                   h = subst_upd h s ((subst_at h s)\<lparr>sf_shadow_access_cnt := cnt\<rparr>) in
               if cnt > 4 * word_of_nat (length (sf_var_to_veqv (subst_at h sh)))
               then cref_loop n (subst_merge h s) s var
               else cref_loop n h sh var
           | _ \<Rightarrow> (None, h)))"

definition cuex_subst_cref :: "subst_heap \<Rightarrow> nat \<Rightarrow> cuex \<Rightarrow> nat option \<times> subst_heap" where
  "cuex_subst_cref h s var = cref_loop (length (sh_substs h)) h s var"

definition cuex_subst_mref :: "subst_heap \<Rightarrow> nat \<Rightarrow> cuex \<Rightarrow> nat \<times> subst_heap" where
  "cuex_subst_mref h s var =
     (case pmap_find (sf_var_to_veqv (subst_at h s)) var of
        Some q \<Rightarrow> (q, h)
      | None \<Rightarrow>
          (case (case sf_shadowed (subst_at h s) of None \<Rightarrow> (None, h) | Some sh \<Rightarrow> cuex_subst_cref h sh var) of
             (Some src, h) \<Rightarrow>
               (case cuex_veqv_new_copy h src of
                  (c, h) \<Rightarrow>
                    (c, fold (\<lambda>v h. if v \<noteq> var then put_var h s v c else h) (vq_vars (veqv_at h src)) (put_var h s var c)))
           | (None, h) \<Rightarrow> (case cuex_veqv_new h var of (c, h) \<Rightarrow> (c, put_var h s var c))))"

definition subst_is_identity_cb :: "subst_heap \<Rightarrow> cuex \<times> nat \<Rightarrow> bool" where
  "subst_is_identity_cb h slot \<longleftrightarrow>
     vq_value (veqv_at h (snd slot)) = None \<and> tl (vq_vars (veqv_at h (snd slot))) = []"

text \<open>The loop never goes to the next frame.\<close>

fun cuex_subst_is_identity :: "nat \<Rightarrow> subst_heap \<Rightarrow> nat option \<Rightarrow> bool option" where
  "cuex_subst_is_identity 0 h s = None"
| "cuex_subst_is_identity (Suc n) h s =
     (case s of
        None \<Rightarrow> Some True
      | Some s \<Rightarrow>
          if \<not> list_all (subst_is_identity_cb h) (sf_var_to_veqv (subst_at h s)) then Some False
          else cuex_subst_is_identity n h (Some s))"

section \<open>Unification\<close>

text \<open>The fuel counts the variables that are replaced by their values along a path.\<close>

fun cuex_subst_ex_contains_veqv :: "nat \<Rightarrow> subst_heap \<Rightarrow> nat \<Rightarrow> cuex \<Rightarrow> nat \<Rightarrow> (bool \<times> subst_heap) option"
  and contains_veqv_operands :: "nat \<Rightarrow> subst_heap \<Rightarrow> nat \<Rightarrow> cuex list \<Rightarrow> nat \<Rightarrow> (bool \<times> subst_heap) option" where
  "cuex_subst_ex_contains_veqv n h s (Opn meta es) q = contains_veqv_operands n h s es q"
| "cuex_subst_ex_contains_veqv n h s (Obj meta i) q =
     (if cuex_is_varmeta meta then
        (case cuex_subst_cref h s (Obj meta i) of
           (None, h) \<Rightarrow> Some (False, h)
         | (Some sub, h) \<Rightarrow>
             if sub = q then Some (True, h)
             else (case (n, vq_value (veqv_at h sub)) of
                     (_, None) \<Rightarrow> Some (False, h)
                   | (0, _) \<Rightarrow> None
                   | (Suc n, Some x) \<Rightarrow> cuex_subst_ex_contains_veqv n h s x q))
      else Some (False, h))"
| "contains_veqv_operands n h s [] q = Some (False, h)"
| "contains_veqv_operands n h s (e # es) q =
     (case cuex_subst_ex_contains_veqv n h s e q of
        None \<Rightarrow> None
      | Some (True, h) \<Rightarrow> Some (True, h)
      | Some (False, h) \<Rightarrow> contains_veqv_operands n h s es q)"

definition occur_check_and_set_var :: "nat \<Rightarrow> subst_heap \<Rightarrow> nat \<Rightarrow> nat \<Rightarrow> cuex \<Rightarrow> (bool \<times> subst_heap) option" where
  "occur_check_and_set_var n h s q ex =
     (case (if sf_is_idem (subst_at h s) then cuex_subst_ex_contains_veqv n h s ex q else Some (False, h)) of
        None \<Rightarrow> None
      | Some (True, h) \<Rightarrow> Some (False, h)
      | Some (False, h) \<Rightarrow> Some (True, set_value h q (Some ex)))"

definition active_var :: "u64 \<Rightarrow> cuex \<Rightarrow> bool" where
  "active_var qcs e \<longleftrightarrow> cuex_is_varmeta (cuex_meta e) \<and> cuex_qcset_contains qcs (cuex_varmeta_qcode (cuex_meta e))"

text \<open>The occurs check of two classes that are to be united: neither may occur in the value of the other.\<close>

definition value_contains :: "nat \<Rightarrow> subst_heap \<Rightarrow> nat \<Rightarrow> nat \<Rightarrow> nat \<Rightarrow> (bool \<times> subst_heap) option" where
  "value_contains n h s q0 q1 =
     (case vq_value (veqv_at h q0) of None \<Rightarrow> Some (False, h) | Some x \<Rightarrow> cuex_subst_ex_contains_veqv n h s x q1)"

definition cross_occurs :: "nat \<Rightarrow> subst_heap \<Rightarrow> nat \<Rightarrow> nat \<Rightarrow> nat \<Rightarrow> (bool \<times> subst_heap) option" where
  "cross_occurs n h s q0 q1 =
     (if \<not> sf_is_idem (subst_at h s) then Some (False, h)
      else
        (case value_contains n h s q0 q1 of
           None \<Rightarrow> None
         | Some (True, h) \<Rightarrow> Some (True, h)
         | Some (False, h) \<Rightarrow> value_contains n h s q1 q0))"

definition redirect_vars :: "nat \<Rightarrow> nat \<Rightarrow> subst_heap \<Rightarrow> subst_heap" where
  "redirect_vars s q h =
     fold (\<lambda>var h. case cuex_subst_cref h s var of (r, h) \<Rightarrow> if r \<noteq> Some q then put_var h s var q else h)
       (vq_vars (veqv_at h q)) h"

definition join_classes :: "subst_heap \<Rightarrow> nat \<Rightarrow> nat \<Rightarrow> nat \<Rightarrow> cuex option \<Rightarrow> subst_heap" where
  "join_classes h s q0 q1 x = (case cuex_veqv_unify h q0 q1 x of (q2, h) \<Rightarrow> redirect_vars s q2 h)"

text \<open>
  The inner option of the result is null if the expressions do not unify. The callback \<open>aux\<close> is called
  where unification fails, if there is one.
\<close>

type_synonym unify_result = "(cuex option \<times> subst_heap) option"
type_synonym aux_unify = "subst_heap \<Rightarrow> nat \<Rightarrow> cuex \<Rightarrow> cuex \<Rightarrow> unify_result"

definition normal_fail :: "aux_unify option \<Rightarrow> subst_heap \<Rightarrow> nat \<Rightarrow> cuex \<Rightarrow> cuex \<Rightarrow> unify_result" where
  "normal_fail aux h s ex0 ex1 = (case aux of None \<Rightarrow> Some (None, h) | Some f \<Rightarrow> f h s ex0 ex1)"

text \<open>A variable without value, or two, are bound at once.\<close>

definition bind_var :: "nat \<Rightarrow> subst_heap \<Rightarrow> nat \<Rightarrow> nat \<Rightarrow> cuex \<Rightarrow> cuex \<Rightarrow> unify_result" where
  "bind_var n h s q var ex =
     (case occur_check_and_set_var n h s q ex of
        None \<Rightarrow> None | Some (True, h) \<Rightarrow> Some (Some var, h) | Some (False, h) \<Rightarrow> Some (None, h))"

definition store_result :: "nat \<Rightarrow> unify_result \<Rightarrow> unify_result" where
  "store_result q r =
     (case r of
        Some (Some x, h) \<Rightarrow> Some (Some x, set_value h q (Some x))
      | Some (None, h) \<Rightarrow> Some (None, h)
      | None \<Rightarrow> None)"

definition join_result :: "nat \<Rightarrow> nat \<Rightarrow> nat \<Rightarrow> cuex \<Rightarrow> cuex option \<Rightarrow> subst_heap \<Rightarrow> unify_result" where
  "join_result s q0 q1 ex0 x h = Some (Some (case x of Some x \<Rightarrow> x | None \<Rightarrow> ex0), join_classes h s q0 q1 x)"

function (sequential) cuex_subst_unify_aux ::
    "nat \<Rightarrow> aux_unify option \<Rightarrow> subst_heap \<Rightarrow> nat \<Rightarrow> cuex \<Rightarrow> cuex \<Rightarrow> unify_result"
  and unify_operands ::
    "nat \<Rightarrow> aux_unify option \<Rightarrow> subst_heap \<Rightarrow> nat \<Rightarrow> cuex list \<Rightarrow> cuex list \<Rightarrow> (cuex list option \<times> subst_heap) option" where
  "cuex_subst_unify_aux n aux h s ex0 ex1 =
     (if ex0 = ex1 then Some (Some ex0, h)
      else if active_var (sf_qcset (subst_at h s)) ex0 then
        (case cuex_subst_mref h s ex0 of (q0, h) \<Rightarrow>
          if active_var (sf_qcset (subst_at h s)) ex1 then
            (case cuex_subst_mref h s ex1 of (q1, h) \<Rightarrow>
              if q0 = q1 then Some (Some ex0, h)
              else
                (case cross_occurs n h s q0 q1 of
                   None \<Rightarrow> None
                 | Some (True, h) \<Rightarrow> Some (None, h)
                 | Some (False, h) \<Rightarrow>
                     (case (vq_value (veqv_at h q0), vq_value (veqv_at h q1)) of
                        (Some x0, Some x1) \<Rightarrow>
                          (case n of
                             0 \<Rightarrow> None
                           | Suc n \<Rightarrow>
                               (case cuex_subst_unify_aux n aux h s x0 x1 of
                                  None \<Rightarrow> None
                                | Some (None, h) \<Rightarrow> Some (None, h)
                                | Some (Some x, h) \<Rightarrow> join_result s q0 q1 ex0 (Some x) h))
                      | (Some x0, None) \<Rightarrow> join_result s q0 q1 ex0 (Some x0) h
                      | (None, x1) \<Rightarrow> join_result s q0 q1 ex0 x1 h)))
          else
            (case vq_value (veqv_at h q0) of
               Some x0 \<Rightarrow> (case n of 0 \<Rightarrow> None | Suc n \<Rightarrow> store_result q0 (cuex_subst_unify_aux n aux h s x0 ex1))
             | None \<Rightarrow> bind_var n h s q0 ex0 ex1))
      else if active_var (sf_qcset (subst_at h s)) ex1 then
        (case cuex_subst_mref h s ex1 of (q1, h) \<Rightarrow>
           (case vq_value (veqv_at h q1) of
              Some x1 \<Rightarrow> (case n of 0 \<Rightarrow> None | Suc n \<Rightarrow> store_result q1 (cuex_subst_unify_aux n aux h s ex0 x1))
            | None \<Rightarrow> bind_var n h s q1 ex1 ex0))
      else
        (case (ex0, ex1) of
           (Opn m0 es0, Opn m1 es1) \<Rightarrow>
             if m0 = m1 then
               (case unify_operands n aux h s es0 es1 of
                  None \<Rightarrow> None
                | Some (Some arr, h) \<Rightarrow> Some (Some (cuex_opn_by_arr m0 arr), h)
                | Some (None, h) \<Rightarrow> normal_fail aux h s ex0 ex1)
             else normal_fail aux h s ex0 ex1
         | _ \<Rightarrow> normal_fail aux h s ex0 ex1))"
| "unify_operands n aux h s [] es1 = Some (Some [], h)"
| "unify_operands n aux h s (e0 # es0) es1 =
     (case cuex_subst_unify_aux n aux h s e0 (hd es1) of
        None \<Rightarrow> None
      | Some (None, h) \<Rightarrow> Some (None, h)
      | Some (Some x, h) \<Rightarrow>
          (case unify_operands n aux h s es0 (tl es1) of
             Some (Some xs, h) \<Rightarrow> Some (Some (x # xs), h) | r \<Rightarrow> r))"
  by pat_completeness auto
termination
  by (relation "measures [\<lambda>x. case x of Inl (n, _) \<Rightarrow> n | Inr (n, _) \<Rightarrow> n,
      \<lambda>x. case x of Inl (n, aux, h, s, ex0, ex1) \<Rightarrow> size ex0 | Inr (n, aux, h, s, es0, es1) \<Rightarrow> size_list size es0]") auto

declare cuex_subst_unify_aux.simps [simp del] cref_loop.simps [simp del]

definition cuex_subst_unify :: "nat \<Rightarrow> subst_heap \<Rightarrow> nat \<Rightarrow> cuex \<Rightarrow> cuex \<Rightarrow> (bool \<times> subst_heap) option" where
  "cuex_subst_unify n h s ex0 ex1 =
     (case cuex_subst_unify_aux n None h s ex0 ex1 of None \<Rightarrow> None | Some (r, h) \<Rightarrow> Some (r \<noteq> None, h))"

section \<open>Blocking\<close>

definition is_blocked :: "subst_heap \<Rightarrow> cuex \<Rightarrow> bool" where
  "is_blocked h x \<longleftrightarrow> cuex_meta x = sh_block h"

definition cuex_subst_block :: "subst_heap \<Rightarrow> nat \<Rightarrow> cuex \<Rightarrow> subst_heap" where
  "cuex_subst_block h s v =
     (case cuex_subst_mref h s v of (q, h) \<Rightarrow>
        (case vq_value (veqv_at h q) of
           Some x \<Rightarrow> h
         | None \<Rightarrow> (case cuex_var_new cuex_qcode_n h of (w, h) \<Rightarrow> set_value h q (Some (cuex_opn_by_arr (sh_block h) [w])))))"

definition cuex_subst_unblock :: "subst_heap \<Rightarrow> nat \<Rightarrow> cuex \<Rightarrow> subst_heap" where
  "cuex_subst_unblock h s v = (case cuex_subst_mref h s v of (q, h) \<Rightarrow> set_value h q None)"

text \<open>The callbacks insert each variable into a set of visited ones.\<close>

definition value_blocked :: "subst_heap \<Rightarrow> nat \<Rightarrow> bool" where
  "value_blocked h q \<longleftrightarrow> (case vq_value (veqv_at h q) of Some x \<Rightarrow> is_blocked h x | None \<Rightarrow> False)"

definition unblock_all_cb0 :: "cuex \<times> nat \<Rightarrow> cuex set \<times> subst_heap \<Rightarrow> cuex set \<times> subst_heap" where
  "unblock_all_cb0 slot st =
     (case (slot, st) of ((var, q), (visited, h)) \<Rightarrow>
        if var \<in> visited then (visited, h)
        else (insert var visited, if value_blocked h q then set_value h q None else h))"

definition unblock_all_cb1 :: "nat \<Rightarrow> cuex \<times> nat \<Rightarrow> cuex set \<times> subst_heap \<Rightarrow> cuex set \<times> subst_heap" where
  "unblock_all_cb1 s slot st =
     (case (slot, st) of ((var, q), (visited, h)) \<Rightarrow>
        if var \<in> visited then (visited, h)
        else (insert var visited,
          if value_blocked h q then (case cuex_subst_mref h s var of (q', h) \<Rightarrow> set_value h q' None) else h))"

fun unblock_shadowed :: "nat \<Rightarrow> nat option \<Rightarrow> cuex set \<times> subst_heap \<Rightarrow> (cuex set \<times> subst_heap) option" where
  "unblock_shadowed 0 s st = None"
| "unblock_shadowed (Suc n) s st =
     (case s of
        None \<Rightarrow> Some st
      | Some s \<Rightarrow>
          (case fold (unblock_all_cb1 s) (sf_var_to_veqv (subst_at (snd st) s)) st of
             (visited, h) \<Rightarrow> unblock_shadowed n (sf_shadowed (subst_at h s)) (visited, h)))"

definition cuex_subst_unblock_all :: "nat \<Rightarrow> subst_heap \<Rightarrow> nat option \<Rightarrow> subst_heap option" where
  "cuex_subst_unblock_all n h s =
     (case s of
        None \<Rightarrow> Some h
      | Some s \<Rightarrow>
          (case fold unblock_all_cb0 (sf_var_to_veqv (subst_at h s)) ({}, h) of
             (visited, h) \<Rightarrow> map_option snd (unblock_shadowed n (sf_shadowed (subst_at h s)) (visited, h))))"

section \<open>Reading a substitution\<close>

definition cuex_subst_lookup :: "subst_heap \<Rightarrow> nat \<Rightarrow> cuex \<Rightarrow> cuex option \<times> subst_heap" where
  "cuex_subst_lookup h s var =
     (case cuex_subst_cref h s var of
        (None, h) \<Rightarrow> (None, h)
      | (Some q, h) \<Rightarrow>
          (let vq = veqv_at h q in
           ((case vq_value vq of
               Some x \<Rightarrow> if \<not> is_blocked h x then Some x
                         else if tl (vq_vars vq) \<noteq> [] then Some (hd (vq_vars vq)) else None
             | None \<Rightarrow> if tl (vq_vars vq) \<noteq> [] then Some (hd (vq_vars vq)) else None), h)))"

definition subst_freshen_var_cb :: "nat \<Rightarrow> nat \<Rightarrow> cuex \<Rightarrow> subst_heap \<Rightarrow> subst_heap option" where
  "subst_freshen_var_cb n s var h =
     (if active_var (sf_qcset (subst_at h s)) var then
        (case cuex_subst_lookup h s var of (r, h) \<Rightarrow>
           if r = None then
             (case cuex_var_new (cuex_varmeta_qcode (cuex_meta var)) h of (new_var, h) \<Rightarrow>
                map_option snd (cuex_subst_unify n (cuex_subst_block h s new_var) s var new_var))
           else Some h)
      else Some h)"

text \<open>The callback always returns true, so that all variables are visited; \<open>None\<close> is passed on.\<close>

definition cuex_subst_freshen_and_block_vars_in :: "nat \<Rightarrow> subst_heap \<Rightarrow> nat \<Rightarrow> cuex \<Rightarrow> subst_heap option" where
  "cuex_subst_freshen_and_block_vars_in n h s ex =
     snd (cuex_depth_conj_vars ex
       (\<lambda>var st. (True, case st of None \<Rightarrow> None | Some h \<Rightarrow> subst_freshen_var_cb n s var h)) (Some h))"

fun subst_apply :: "nat \<Rightarrow> subst_heap \<Rightarrow> nat \<Rightarrow> cuex \<Rightarrow> (cuex \<times> subst_heap) option"
  and apply_operands :: "nat \<Rightarrow> subst_heap \<Rightarrow> nat \<Rightarrow> cuex list \<Rightarrow> (cuex list \<times> subst_heap) option" where
  "subst_apply n h s (Obj meta i) =
     (if cuex_is_varmeta meta then
        (case cuex_subst_cref h s (Obj meta i) of
           (None, h) \<Rightarrow> Some (Obj meta i, h)
         | (Some q, h) \<Rightarrow>
             (case vq_value (veqv_at h q) of
                None \<Rightarrow> Some (hd (vq_vars (veqv_at h q)), h)
              | Some x \<Rightarrow>
                  if is_blocked h x then Some (Obj meta i, h)
                  else (case n of 0 \<Rightarrow> None | Suc n \<Rightarrow> subst_apply n h s x)))
      else Some (Obj meta i, h))"
| "subst_apply n h s (Opn meta es) =
     (case apply_operands n h s es of None \<Rightarrow> None | Some (es, h) \<Rightarrow> Some (cuex_opn_by_arr meta es, h))"
| "apply_operands n h s [] = Some ([], h)"
| "apply_operands n h s (e # es) =
     (case subst_apply n h s e of
        None \<Rightarrow> None
      | Some (x, h) \<Rightarrow> (case apply_operands n h s es of None \<Rightarrow> None | Some (xs, h) \<Rightarrow> Some (x # xs, h)))"

text \<open>Applying a substitution that is not idempotent ends the program, the inner \<open>None\<close>.\<close>

definition cuex_subst_apply :: "nat \<Rightarrow> subst_heap \<Rightarrow> nat option \<Rightarrow> cuex \<Rightarrow> (cuex option \<times> subst_heap) option" where
  "cuex_subst_apply n h s ex =
     (case s of
        None \<Rightarrow> Some (Some ex, h)
      | Some s \<Rightarrow>
          if sf_is_idem (subst_at h s) then map_option (\<lambda>(x, h). (Some x, h)) (subst_apply n h s ex)
          else Some (None, h))"

text \<open>The operands of an operation are transformed by the function for idempotent substitutions.\<close>

definition subst_expand :: "nat \<Rightarrow> subst_heap \<Rightarrow> nat \<Rightarrow> cuex \<Rightarrow> (cuex \<times> subst_heap) option" where
  "subst_expand n h s ex =
     (case ex of
        Obj meta i \<Rightarrow>
          if cuex_is_varmeta meta then
            (case cuex_subst_cref h s ex of
               (None, h) \<Rightarrow> Some (ex, h)
             | (Some q, h) \<Rightarrow>
                 (case vq_value (veqv_at h q) of
                    None \<Rightarrow> Some (hd (vq_vars (veqv_at h q)), h)
                  | Some x \<Rightarrow> Some (if is_blocked h x then ex else x, h)))
          else Some (ex, h)
      | Opn meta es \<Rightarrow>
          (case apply_operands n h s es of None \<Rightarrow> None | Some (es, h) \<Rightarrow> Some (cuex_opn_by_arr meta es, h)))"

definition cuex_subst_expand :: "nat \<Rightarrow> subst_heap \<Rightarrow> nat option \<Rightarrow> cuex \<Rightarrow> (cuex \<times> subst_heap) option" where
  "cuex_subst_expand n h s ex = (case s of None \<Rightarrow> Some (ex, h) | Some s \<Rightarrow> subst_expand n h s ex)"

text \<open>The first operand is visited last.\<close>

fun cuex_subst_collect_veqvset :: "subst_heap \<Rightarrow> nat \<Rightarrow> cuex \<Rightarrow> nat set \<Rightarrow> nat set \<times> subst_heap"
  and collect_operands :: "subst_heap \<Rightarrow> nat \<Rightarrow> cuex list \<Rightarrow> nat set \<Rightarrow> nat set \<times> subst_heap" where
  "cuex_subst_collect_veqvset h s (Opn meta es) qs =
     (case es of
        [] \<Rightarrow> (qs, h)
      | e # es \<Rightarrow> (case collect_operands h s es qs of (qs, h) \<Rightarrow> cuex_subst_collect_veqvset h s e qs))"
| "cuex_subst_collect_veqvset h s (Obj meta i) qs =
     (if active_var (sf_qcset (subst_at h s)) (Obj meta i)
      then (case cuex_subst_mref h s (Obj meta i) of (q, h) \<Rightarrow> (insert q qs, h)) else (qs, h))"
| "collect_operands h s [] qs = (qs, h)"
| "collect_operands h s (e # es) qs =
     (case cuex_subst_collect_veqvset h s e qs of (qs, h) \<Rightarrow> collect_operands h s es qs)"

text \<open>The variables that are left when the substitution has been applied; the first operand comes last here too.\<close>

fun cuex_subst_free_vars_conj ::
    "nat \<Rightarrow> subst_heap \<Rightarrow> nat \<Rightarrow> cuex \<Rightarrow> (cuex \<Rightarrow> 's \<Rightarrow> bool \<times> 's) \<Rightarrow> 's \<Rightarrow> (bool \<times> 's \<times> subst_heap) option"
  and free_vars_operands ::
    "nat \<Rightarrow> subst_heap \<Rightarrow> nat \<Rightarrow> cuex list \<Rightarrow> (cuex \<Rightarrow> 's \<Rightarrow> bool \<times> 's) \<Rightarrow> 's \<Rightarrow> (bool \<times> 's \<times> subst_heap) option" where
  "cuex_subst_free_vars_conj n h s (Opn meta es) cb st =
     (case es of
        [] \<Rightarrow> Some (True, st, h)
      | e # es \<Rightarrow>
          (case free_vars_operands n h s es cb st of
             Some (True, st, h) \<Rightarrow> cuex_subst_free_vars_conj n h s e cb st
           | r \<Rightarrow> r))"
| "cuex_subst_free_vars_conj n h s (Obj meta i) cb st =
     (if active_var (sf_qcset (subst_at h s)) (Obj meta i) then
        (case cuex_subst_cref h s (Obj meta i) of
           (None, h) \<Rightarrow> (case cb (Obj meta i) st of (r, st) \<Rightarrow> Some (r, st, h))
         | (Some q, h) \<Rightarrow>
             (case vq_value (veqv_at h q) of
                Some x \<Rightarrow>
                  if is_blocked h x then (case cb (hd (vq_vars (veqv_at h q))) st of (r, st) \<Rightarrow> Some (r, st, h))
                  else (case n of 0 \<Rightarrow> None | Suc n \<Rightarrow> cuex_subst_free_vars_conj n h s x cb st)
              | None \<Rightarrow> (case cb (hd (vq_vars (veqv_at h q))) st of (r, st) \<Rightarrow> Some (r, st, h))))
      else Some (True, st, h))"
| "free_vars_operands n h s [] cb st = Some (True, st, h)"
| "free_vars_operands n h s (e # es) cb st =
     (case cuex_subst_free_vars_conj n h s e cb st of
        Some (True, st, h) \<Rightarrow> free_vars_operands n h s es cb st
      | r \<Rightarrow> r)"

definition cuex_subst_free_vars_insert ::
    "nat \<Rightarrow> subst_heap \<Rightarrow> nat \<Rightarrow> cuex \<Rightarrow> cuex set \<Rightarrow> (cuex set \<times> subst_heap) option" where
  "cuex_subst_free_vars_insert n h s ex accu =
     map_option snd (cuex_subst_free_vars_conj n h s ex (\<lambda>v accu. (True, insert v accu)) accu)"

definition cuex_subst_free_vars_erase ::
    "nat \<Rightarrow> subst_heap \<Rightarrow> nat \<Rightarrow> cuex \<Rightarrow> cuex set \<Rightarrow> (cuex set \<times> subst_heap) option" where
  "cuex_subst_free_vars_erase n h s ex accu =
     map_option snd (cuex_subst_free_vars_conj n h s ex (\<lambda>v accu. (True, accu - {v})) accu)"

text \<open>The classes of all frames, each where its primary variable is, for a callback that leaves the heap as it is.\<close>

definition subst_iter_cb :: "subst_heap \<Rightarrow> (nat \<Rightarrow> 's \<Rightarrow> 's) \<Rightarrow> cuex \<times> nat \<Rightarrow> cuex set \<times> 's \<Rightarrow> cuex set \<times> 's" where
  "subst_iter_cb h cb slot st =
     (case (slot, st) of ((var, q), (visited, acc)) \<Rightarrow>
        (insert var visited,
         if var \<notin> visited \<and> var = hd (vq_vars (veqv_at h q)) \<and>
            (vq_value (veqv_at h q) \<noteq> None \<or> tl (vq_vars (veqv_at h q)) \<noteq> [])
         then cb q acc else acc))"

fun iter_frames :: "nat \<Rightarrow> subst_heap \<Rightarrow> nat option \<Rightarrow> (nat \<Rightarrow> 's \<Rightarrow> 's) \<Rightarrow> cuex set \<times> 's \<Rightarrow> (cuex set \<times> 's) option" where
  "iter_frames 0 h s cb st = None"
| "iter_frames (Suc n) h s cb st =
     (case s of
        None \<Rightarrow> Some st
      | Some s \<Rightarrow>
          iter_frames n h (sf_shadowed (subst_at h s)) cb (fold (subst_iter_cb h cb) (sf_var_to_veqv (subst_at h s)) st))"

definition cuex_subst_iter_veqv :: "nat \<Rightarrow> subst_heap \<Rightarrow> nat option \<Rightarrow> (nat \<Rightarrow> 's \<Rightarrow> 's) \<Rightarrow> 's \<Rightarrow> 's option" where
  "cuex_subst_iter_veqv n h s cb acc = map_option snd (iter_frames n h s cb ({}, acc))"

end
