(* ===== verification/SubstView.thy ===== *)
theory SubstView
  imports Subst
begin

text \<open>
  Substitutions that shadow no other one, as finite sets of equations: which class a variable has, which
  variables and value a class has, how the operations of \<^verbatim>\<open>cuex/subst.c\<close> change that, and which valuations of the
  variables solve the equations.
\<close>

section \<open>Heap updates\<close>

lemma find_put [simp]: "pmap_find (pmap_put m v x) w = (if w = v then Some x else pmap_find m w)"
  by (induction m v x rule: pmap_put.induct) (auto simp: pmap_find_def)

definition class_of :: "subst_heap \<Rightarrow> nat \<Rightarrow> cuex \<Rightarrow> nat option" where
  "class_of h s v = pmap_find (sf_var_to_veqv (subst_at h s)) v"

definition active :: "subst_heap \<Rightarrow> nat \<Rightarrow> cuex \<Rightarrow> bool" where
  "active h s e \<longleftrightarrow> active_var (sf_qcset (subst_at h s)) e"

definition vars_of :: "subst_heap \<Rightarrow> nat \<Rightarrow> cuex list" where "vars_of h q = vq_vars (veqv_at h q)"
definition value_of :: "subst_heap \<Rightarrow> nat \<Rightarrow> cuex option" where "value_of h q = vq_value (veqv_at h q)"

definition simple_frame :: "subst_heap \<Rightarrow> nat \<Rightarrow> bool" where
  "simple_frame h s \<longleftrightarrow> s < length (sh_substs h) \<and> sf_shadowed (subst_at h s) = None \<and> sf_is_idem (subst_at h s)"

text \<open>Changes that keep all of a frame but its map.\<close>

definition same_frame :: "subst_heap \<Rightarrow> subst_heap \<Rightarrow> nat \<Rightarrow> bool" where
  "same_frame h h' s \<longleftrightarrow>
     length (sh_substs h') = length (sh_substs h) \<and> sf_shadowed (subst_at h' s) = sf_shadowed (subst_at h s) \<and>
     sf_qcset (subst_at h' s) = sf_qcset (subst_at h s) \<and> sf_is_idem (subst_at h' s) = sf_is_idem (subst_at h s) \<and>
     sh_block h' = sh_block h \<and> length (sh_veqvs h) \<le> length (sh_veqvs h')"

lemma same_frame_refl [simp]: "same_frame h h s"
  by (simp add: same_frame_def)

lemma same_frame_trans: "same_frame h h' s \<Longrightarrow> same_frame h' h'' s \<Longrightarrow> same_frame h h'' s"
  by (auto simp: same_frame_def)

lemma same_frame_simple: "same_frame h h' s \<Longrightarrow> simple_frame h' s = simple_frame h s"
  by (simp add: same_frame_def simple_frame_def)

lemma same_frame_active: "same_frame h h' s \<Longrightarrow> active h' s = active h s"
  by (simp add: same_frame_def active_def fun_eq_iff)

lemma set_value_veqvs: "sh_veqvs (set_value h q x) = (sh_veqvs h)[q := (sh_veqvs h ! q)\<lparr>vq_value := x\<rparr>]"
  by (simp add: set_value_def veqv_upd_def veqv_at_def)

lemma set_value_substs [simp]: "sh_substs (set_value h q x) = sh_substs h" "sh_block (set_value h q x) = sh_block h"
  by (simp_all add: set_value_def veqv_upd_def)

lemma set_value_class [simp]: "class_of (set_value h q x) s = class_of h s"
  by (simp add: class_of_def subst_at_def fun_eq_iff)

lemma set_value_vars [simp]: "vars_of (set_value h q x) p = vars_of h p"
  by (cases "q < length (sh_veqvs h)"; cases "p = q") (simp_all add: vars_of_def veqv_at_def set_value_veqvs list_update_beyond)

lemma set_value_value: "q < length (sh_veqvs h) \<Longrightarrow> value_of (set_value h q x) p = (if p = q then x else value_of h p)"
  by (simp add: value_of_def veqv_at_def set_value_veqvs)

lemma set_value_length [simp]: "length (sh_veqvs (set_value h q x)) = length (sh_veqvs h)"
  by (simp add: set_value_veqvs)

lemma set_value_frame [simp]: "same_frame h (set_value h q x) s"
  by (simp add: same_frame_def subst_at_def)

lemma put_var_veqvs [simp]: "sh_veqvs (put_var h s v q) = sh_veqvs h" "sh_block (put_var h s v q) = sh_block h"
  "length (sh_substs (put_var h s v q)) = length (sh_substs h)"
  by (simp_all add: put_var_def subst_upd_def)

lemma put_var_at: "s < length (sh_substs h) \<Longrightarrow> subst_at (put_var h s v q) s =
    (subst_at h s)\<lparr>sf_var_to_veqv := pmap_put (sf_var_to_veqv (subst_at h s)) v q\<rparr>"
  by (simp add: put_var_def subst_upd_def subst_at_def)

lemma put_var_beyond: "\<not> s < length (sh_substs h) \<Longrightarrow> put_var h s v q = h"
  by (simp add: put_var_def subst_upd_def list_update_beyond)

lemma put_var_class [simp]: "s < length (sh_substs h) \<Longrightarrow> class_of (put_var h s v q) s w = (if w = v then Some q else class_of h s w)"
  by (simp add: class_of_def put_var_at)

lemma put_var_cells [simp]: "vars_of (put_var h s v q) p = vars_of h p" "value_of (put_var h s v q) p = value_of h p"
  "veqv_at (put_var h s v q) p = veqv_at h p"
  by (simp_all add: vars_of_def value_of_def veqv_at_def)

lemma put_var_frame [simp]: "same_frame h (put_var h s v q) s"
  by (cases "s < length (sh_substs h)") (simp_all add: same_frame_def put_var_at put_var_beyond)

lemma cref_simple: "simple_frame h s \<Longrightarrow> cuex_subst_cref h s v = (class_of h s v, h)"
  unfolding cuex_subst_cref_def by (subst cref_loop.simps) (auto simp: simple_frame_def class_of_def split: option.split nat.split)

text \<open>A new class for a variable that has none.\<close>

lemma mref_simple:
  assumes "simple_frame h s" "cuex_subst_mref h s v = (q, h')"
  shows "class_of h s v = Some q \<and> h' = h \<or>
    class_of h s v = None \<and> q = length (sh_veqvs h) \<and> same_frame h h' s \<and> length (sh_veqvs h') = Suc q \<and>
    class_of h' s = (class_of h s)(v \<mapsto> q) \<and>
    (\<forall>p < q. vars_of h' p = vars_of h p \<and> value_of h' p = value_of h p) \<and> vars_of h' q = [v] \<and> value_of h' q = None"
proof (cases "class_of h s v")
  case (Some p)
  then show ?thesis using assms by (simp add: cuex_subst_mref_def class_of_def)
next
  case None
  have s: "s < length (sh_substs h)" "sf_shadowed (subst_at h s) = None" using assms(1) by (simp_all add: simple_frame_def)
  define h1 where "h1 = h\<lparr>sh_veqvs := sh_veqvs h @ [\<lparr>vq_qcode = cuex_varmeta_qcode (cuex_meta v), vq_vars = [v], vq_value = None\<rparr>]\<rparr>"
  have "cuex_subst_mref h s v = (length (sh_veqvs h), put_var h1 s v (length (sh_veqvs h)))"
    using None s(2) by (simp add: cuex_subst_mref_def class_of_def cuex_veqv_new_def veqv_alloc_def h1_def)
  then have q: "q = length (sh_veqvs h)" and h': "h' = put_var h1 s v q"
    using assms(2) by simp_all
  have "same_frame h h1 s" by (simp add: same_frame_def subst_at_def h1_def)
  then have "same_frame h h' s" unfolding h' by (rule same_frame_trans) simp
  moreover have "class_of h1 s = class_of h s" by (simp add: class_of_def subst_at_def h1_def fun_eq_iff)
  then have "class_of h' s = (class_of h s)(v \<mapsto> q)"
    using s(1) unfolding h' by (simp add: fun_eq_iff h1_def)
  moreover have "vars_of h1 p = (if p = q then [v] else vars_of h p)" "value_of h1 p = (if p = q then None else value_of h p)"
    if "p \<le> q" for p using that by (auto simp: vars_of_def value_of_def veqv_at_def h1_def q nth_append)
  ultimately show ?thesis using None by (simp add: h' q) (simp add: h1_def)
qed

text \<open>Joining two classes.\<close>

lemma redirect_simple:
  assumes "simple_frame h s"
  shows "simple_frame (fold (\<lambda>var h. case cuex_subst_cref h s var of (r, h) \<Rightarrow> if r \<noteq> Some q then put_var h s var q else h) vs h) s \<and>
    same_frame h (fold (\<lambda>var h. case cuex_subst_cref h s var of (r, h) \<Rightarrow> if r \<noteq> Some q then put_var h s var q else h) vs h) s \<and>
    class_of (fold (\<lambda>var h. case cuex_subst_cref h s var of (r, h) \<Rightarrow> if r \<noteq> Some q then put_var h s var q else h) vs h) s =
      (\<lambda>v. if v \<in> set vs then Some q else class_of h s v) \<and>
    sh_veqvs (fold (\<lambda>var h. case cuex_subst_cref h s var of (r, h) \<Rightarrow> if r \<noteq> Some q then put_var h s var q else h) vs h) = sh_veqvs h"
  using assms
proof (induction vs arbitrary: h)
  case (Cons v vs)
  let ?h = "if class_of h s v \<noteq> Some q then put_var h s v q else h"
  have f: "same_frame h ?h s" by simp
  then have "simple_frame ?h s" using Cons.prems same_frame_simple by blast
  note IH = Cons.IH [OF this]
  have s: "s < length (sh_substs h)" using Cons.prems by (simp add: simple_frame_def)
  have c: "class_of ?h s = (\<lambda>w. if w = v then Some q else class_of h s w)" using s by (auto simp: fun_eq_iff)
  have veq: "sh_veqvs ?h = sh_veqvs h" by simp
  show ?case
    using IH f unfolding c veq
    by (simp add: cref_simple [OF Cons.prems]) (auto intro: same_frame_trans simp: fun_eq_iff)
qed simp

lemma join_fold: "set (fold (\<lambda>v dst. if v \<notin> A then v # dst else dst) vs dst) = (set vs - A) \<union> set dst"
  by (induction vs arbitrary: dst) auto

lemma class_veqv_unify:
  assumes "q1 < length (sh_veqvs h)" "vars_of h q1 \<noteq> []" "cuex_veqv_unify h q0 q1 x = (q, h')"
  shows "q = q1 \<and> sh_substs h' = sh_substs h \<and> sh_block h' = sh_block h \<and> length (sh_veqvs h') = length (sh_veqvs h) \<and>
    set (vars_of h' q1) = set (vars_of h q0) \<union> set (vars_of h q1) \<and> hd (vars_of h' q1) = hd (vars_of h q1) \<and>
    value_of h' q1 = x \<and> (\<forall>p. p \<noteq> q1 \<longrightarrow> vars_of h' p = vars_of h p \<and> value_of h' p = value_of h p)"
proof -
  obtain v vs where vs: "vars_of h q1 = v # vs" using assms(2) by (cases "vars_of h q1") auto
  define qc where "qc = (if vq_qcode (veqv_at h q1) = cuex_qcode_w then vq_qcode (veqv_at h q0) else vq_qcode (veqv_at h q1))"
  define dst where "dst = v # fold (\<lambda>var dst. if var \<notin> set (vars_of h q1) then var # dst else dst) (vars_of h q0) vs"
  have "cuex_veqv_unify h q0 q1 x = (q1, veqv_upd h q1 \<lparr>vq_qcode = qc, vq_vars = dst, vq_value = x\<rparr>)"
    using vs by (simp add: cuex_veqv_unify_def Let_def qc_def dst_def vars_of_def)
  then have q: "q = q1" and h': "h' = veqv_upd h q1 \<lparr>vq_qcode = qc, vq_vars = dst, vq_value = x\<rparr>" using assms(3) by simp_all
  have "set dst = set (vars_of h q0) \<union> set (vars_of h q1)"
    unfolding dst_def list.set(2) join_fold vs by auto
  moreover have "hd dst = v" by (simp add: dst_def)
  ultimately show ?thesis using assms(1) vs
    by (simp add: q h' veqv_upd_def vars_of_def value_of_def veqv_at_def)
qed

lemma join_simple:
  assumes "simple_frame h s" "q1 < length (sh_veqvs h)" "vars_of h q1 \<noteq> []"
  shows "same_frame h (join_classes h s q0 q1 x) s \<and> length (sh_veqvs (join_classes h s q0 q1 x)) = length (sh_veqvs h) \<and>
    class_of (join_classes h s q0 q1 x) s = (\<lambda>v. if v \<in> set (vars_of h q0) \<union> set (vars_of h q1) then Some q1 else class_of h s v) \<and>
    set (vars_of (join_classes h s q0 q1 x) q1) = set (vars_of h q0) \<union> set (vars_of h q1) \<and>
    hd (vars_of (join_classes h s q0 q1 x) q1) = hd (vars_of h q1) \<and>
    value_of (join_classes h s q0 q1 x) q1 = x \<and>
    (\<forall>p. p \<noteq> q1 \<longrightarrow> vars_of (join_classes h s q0 q1 x) p = vars_of h p \<and> value_of (join_classes h s q0 q1 x) p = value_of h p)"
proof -
  obtain q h2 where u: "cuex_veqv_unify h q0 q1 x = (q, h2)" by (cases "cuex_veqv_unify h q0 q1 x")
  note c = class_veqv_unify [OF assms(2,3) u]
  have f: "same_frame h h2 s" using c by (simp add: same_frame_def subst_at_def)
  have k: "class_of h2 s = class_of h s" using c by (simp add: class_of_def subst_at_def fun_eq_iff)
  have "simple_frame h2 s" using same_frame_simple [OF f] assms(1) by simp
  note r = redirect_simple [OF this, of q1 "vars_of h2 q1"]
  define h3 where "h3 = join_classes h s q0 q1 x"
  have h3: "h3 = fold (\<lambda>var h. case cuex_subst_cref h s var of (r, h) \<Rightarrow> if r \<noteq> Some q1 then put_var h s var q1 else h) (vars_of h2 q1) h2"
    using u c by (simp add: h3_def join_classes_def redirect_vars_def vars_of_def)
  have r: "same_frame h2 h3 s" "class_of h3 s = (\<lambda>v. if v \<in> set (vars_of h2 q1) then Some q1 else class_of h2 s v)"
    "sh_veqvs h3 = sh_veqvs h2" using r unfolding h3 by blast+
  have same: "vars_of h3 = vars_of h2" "value_of h3 = value_of h2"
    by (simp_all add: vars_of_def value_of_def veqv_at_def r(3) fun_eq_iff)
  show ?thesis
    using same_frame_trans [OF f r(1)] c unfolding h3_def [symmetric] r(2) r(3) k same by simp
qed

end
