(* ===== verification/SubstGraph.thy ===== *)
theory SubstGraph
  imports SubstView CuexAlgoProps
begin

text \<open>
  The equations of a frame and the graph of its classes. A class depends on the classes of the variables of its value;
  a frame is well formed if this has no cycle. Solutions are taken relative to a set of classes whose
  equations are left out, and the operations are shown to keep classes that what they are given does not mention.
\<close>

section \<open>Well-formed frames\<close>

definition subst_ok :: "subst_heap \<Rightarrow> nat \<Rightarrow> bool" where
  "subst_ok h s \<longleftrightarrow> simple_frame h s \<and>
     (\<forall>v q. class_of h s v = Some q \<longrightarrow>
        active h s v \<and> q < length (sh_veqvs h) \<and> set (vars_of h q) = {w. class_of h s w = Some q} \<and>
        (\<forall>x. value_of h q = Some x \<longrightarrow> ex_ok x \<and> \<not> active h s x))"

definition classes_in :: "subst_heap \<Rightarrow> nat \<Rightarrow> cuex \<Rightarrow> nat set" where
  "classes_in h s e = {q. \<exists>v \<in> ex_vars e. class_of h s v = Some q}"

definition live :: "subst_heap \<Rightarrow> nat \<Rightarrow> nat \<Rightarrow> bool" where
  "live h s q \<longleftrightarrow> (\<exists>v. class_of h s v = Some q)"

definition dep :: "subst_heap \<Rightarrow> nat \<Rightarrow> (nat \<times> nat) set" where
  "dep h s = {(a, b). live h s b \<and> (\<exists>x. value_of h b = Some x \<and> a \<in> classes_in h s x)}"

definition ranked :: "subst_heap \<Rightarrow> nat \<Rightarrow> (nat \<Rightarrow> nat) \<Rightarrow> bool" where
  "ranked h s r \<longleftrightarrow> (\<forall>(a, b) \<in> dep h s. r a < r b)"

definition subst_wf :: "subst_heap \<Rightarrow> nat \<Rightarrow> bool" where
  "subst_wf h s \<longleftrightarrow> subst_ok h s \<and> (\<exists>r. ranked h s r)"

definition reaches :: "subst_heap \<Rightarrow> nat \<Rightarrow> cuex \<Rightarrow> nat \<Rightarrow> bool" where
  "reaches h s e q \<longleftrightarrow> (\<exists>a \<in> classes_in h s e. (q, a) \<in> (dep h s)\<^sup>*)"

text \<open>The solutions of the equations of all classes but those of a set.\<close>

definition solves :: "subst_heap \<Rightarrow> nat \<Rightarrow> nat set \<Rightarrow> (cuex \<Rightarrow> cuex) \<Rightarrow> bool" where
  "solves h s P \<sigma> \<longleftrightarrow>
     (\<forall>v. \<not> active h s v \<longrightarrow> \<sigma> v = v) \<and>
     (\<forall>v q. class_of h s v = Some q \<and> q \<notin> P \<longrightarrow>
        (\<forall>w. class_of h s w = Some q \<longrightarrow> \<sigma> w = \<sigma> v) \<and> (\<forall>x. value_of h q = Some x \<longrightarrow> \<sigma> v = instance_of \<sigma> x))"

lemma okD:
  assumes "subst_ok h s" "class_of h s v = Some q"
  shows "active h s v" "q < length (sh_veqvs h)" "set (vars_of h q) = {w. class_of h s w = Some q}" "vars_of h q \<noteq> []"
    "value_of h q = Some x \<Longrightarrow> ex_ok x" "value_of h q = Some x \<Longrightarrow> \<not> active h s x"
proof -
  note a = assms(1) [unfolded subst_ok_def, THEN conjunct2, rule_format, OF assms(2)]
  show "active h s v" "q < length (sh_veqvs h)" and vs: "set (vars_of h q) = {w. class_of h s w = Some q}"
    and "value_of h q = Some x \<Longrightarrow> ex_ok x" "value_of h q = Some x \<Longrightarrow> \<not> active h s x"
    using a by simp_all
  show "vars_of h q \<noteq> []" using vs assms(2) by (metis (mono_tags) mem_Collect_eq list.set(1) empty_iff)
qed

lemma ok_simple: "subst_ok h s \<Longrightarrow> simple_frame h s"
  by (simp add: subst_ok_def)

lemma wf_ok: "subst_wf h s \<Longrightarrow> subst_ok h s"
  by (simp add: subst_wf_def)

lemma active_is_var: "active h s v \<Longrightarrow> cuex_is_varmeta (cuex_meta v)"
  by (simp add: active_def active_var_def)

lemma opr_not_var: "cuex_meta_is_opr m \<Longrightarrow> \<not> cuex_is_varmeta m"
  using var_not_opr by (auto simp: cuex_is_var_def)

lemma active_obj: "ex_ok e \<Longrightarrow> active h s e \<Longrightarrow> \<exists>m i. e = Obj m i"
  using active_is_var opr_not_var by (cases e) fastforce+

lemma classes_in_simps [simp]:
  "classes_in h s (Opn m es) = (\<Union>e \<in> set es. classes_in h s e)"
  by (auto simp: classes_in_def)

lemma class_in_var: "class_of h s v = Some q \<Longrightarrow> ex_vars v = {v} \<Longrightarrow> classes_in h s v = {q}"
  by (simp add: classes_in_def)

section \<open>Solutions\<close>

lemma instance_var: "active h s v \<Longrightarrow> ex_ok v \<Longrightarrow> instance_of \<sigma> v = \<sigma> v"
  using active_obj [of v h s] active_is_var [of h s v] by auto

lemma var_self: "active h s v \<Longrightarrow> ex_ok v \<Longrightarrow> ex_vars v = {v}"
  using active_obj [of v h s] active_is_var [of h s v] by auto

lemma instance_size: "v \<in> ex_vars e \<Longrightarrow> size (\<sigma> v) \<le> size (instance_of \<sigma> e)"
proof (induction e)
  case (Opn m es)
  then obtain e where e: "e \<in> set es" "v \<in> ex_vars e" by auto
  have "size (\<sigma> v) \<le> size (instance_of \<sigma> e)" by (rule Opn.IH [OF e])
  also have "\<dots> < size (instance_of \<sigma> (Opn m es))"
    using operand_size [of "instance_of \<sigma> e" "map (instance_of \<sigma>) es"] e(1) by simp
  finally show ?case by simp
qed (simp split: if_splits)

lemma instance_size_opn: "v \<in> ex_vars (Opn m es) \<Longrightarrow> size (\<sigma> v) < size (instance_of \<sigma> (Opn m es))"
proof -
  assume "v \<in> ex_vars (Opn m es)"
  then obtain e where e: "e \<in> set es" "v \<in> ex_vars e" by auto
  have "size (\<sigma> v) \<le> size (instance_of \<sigma> e)" by (rule instance_size [OF e(2)])
  then show ?thesis
    using operand_size [of "instance_of \<sigma> e" "map (instance_of \<sigma>) es"] e(1) by simp
qed

lemma solvesD:
  assumes "solves h s P \<sigma>"
  shows "\<not> active h s v \<Longrightarrow> \<sigma> v = v"
    "class_of h s v = Some q \<Longrightarrow> q \<notin> P \<Longrightarrow> class_of h s w = Some q \<Longrightarrow> \<sigma> w = \<sigma> v"
    "class_of h s v = Some q \<Longrightarrow> q \<notin> P \<Longrightarrow> value_of h q = Some x \<Longrightarrow> \<sigma> v = instance_of \<sigma> x"
  using assms unfolding solves_def by blast+

text \<open>A class with a value that mentions another class.\<close>

lemma dep_size:
  assumes "subst_ok h s" "solves h s {} \<sigma>" "(a, b) \<in> dep h s" "class_of h s v = Some a" "class_of h s w = Some b"
  shows "size (\<sigma> v) < size (\<sigma> w)"
proof -
  obtain x u where x: "value_of h b = Some x" and u: "u \<in> ex_vars x" "class_of h s u = Some a"
    using assms(3) by (auto simp: dep_def classes_in_def)
  have na: "\<not> active h s x" using okD(6) [OF assms(1,5) x] .
  have "x \<noteq> u" using na okD(1) [OF assms(1) u(2)] by auto
  then have "\<exists>m es. x = Opn m es" using u(1) by (cases x) (auto split: if_splits)
  then have "size (\<sigma> u) < size (instance_of \<sigma> x)" using instance_size_opn u(1) by blast
  moreover have "\<sigma> v = \<sigma> u" by (rule solvesD(2) [OF assms(2) u(2) _ assms(4)]) simp
  moreover have "\<sigma> w = instance_of \<sigma> x" by (rule solvesD(3) [OF assms(2,5) _ x]) simp
  ultimately show ?thesis by simp
qed

lemma deps_size:
  assumes "subst_ok h s" "solves h s {} \<sigma>" "(q, a) \<in> (dep h s)\<^sup>*" "class_of h s v = Some q" "class_of h s w = Some a"
  shows "size (\<sigma> v) \<le> size (\<sigma> w)"
  using assms(3,5)
proof (induction arbitrary: w)
  case base
  have "\<sigma> v = \<sigma> w" by (rule solvesD(2) [OF assms(2) base _ assms(4)]) simp
  then show ?case by simp
next
  case (step b a)
  obtain u where u: "class_of h s u = Some b" using step.hyps(2) by (auto simp: dep_def classes_in_def)
  show ?case using step.IH [OF u] dep_size [OF assms(1,2) step.hyps(2) u step.prems] by simp
qed

lemma reaches_size:
  assumes "subst_ok h s" "solves h s {} \<sigma>" "reaches h s e q" "class_of h s v = Some q"
  shows "size (\<sigma> v) \<le> size (instance_of \<sigma> e)" "e = Opn m es \<Longrightarrow> size (\<sigma> v) < size (instance_of \<sigma> e)"
proof -
  obtain a u where u: "u \<in> ex_vars e" "class_of h s u = Some a" "(q, a) \<in> (dep h s)\<^sup>*"
    using assms(3) by (auto simp: reaches_def classes_in_def)
  have *: "size (\<sigma> v) \<le> size (\<sigma> u)" by (rule deps_size [OF assms(1,2) u(3) assms(4) u(2)])
  show "size (\<sigma> v) \<le> size (instance_of \<sigma> e)" using * instance_size [OF u(1), of \<sigma>] by simp
  show "e = Opn m es \<Longrightarrow> size (\<sigma> v) < size (instance_of \<sigma> e)"
    using * instance_size_opn [of u m es \<sigma>] u(1) by simp
qed

lemma reaches_no_solution:
  assumes "subst_ok h s" "solves h s {} \<sigma>" "reaches h s e q" "class_of h s v = Some q" "\<not> active h s e"
  shows "\<sigma> v \<noteq> instance_of \<sigma> e"
proof (cases e)
  case (Opn m es)
  then show ?thesis using reaches_size(2) [OF assms(1-4)] by auto
next
  case (Obj m i)
  then have "\<exists>q. class_of h s e = Some q" using assms(3) by (auto simp: reaches_def classes_in_def split: if_splits)
  then show ?thesis using okD(1) [OF assms(1)] assms(5) by auto
qed

lemma no_self_reach: "ranked h s r \<Longrightarrow> (a, b) \<in> (dep h s)\<^sup>* \<Longrightarrow> r a \<le> r b"
  by (rotate_tac, induction rule: rtrancl_induct) (fastforce simp: ranked_def)+

lemma value_not_reaches: "subst_wf h s \<Longrightarrow> live h s q \<Longrightarrow> value_of h q = Some x \<Longrightarrow> \<not> reaches h s x q"
proof
  assume "subst_wf h s" "live h s q" "value_of h q = Some x" "reaches h s x q"
  then obtain r a where r: "ranked h s r" and a: "a \<in> classes_in h s x" "(q, a) \<in> (dep h s)\<^sup>*"
    by (auto simp: subst_wf_def reaches_def)
  then have "(a, q) \<in> dep h s" using \<open>live h s q\<close> \<open>value_of h q = Some x\<close> by (auto simp: dep_def)
  then have "r a < r q" using r by (auto simp: ranked_def)
  then show False using no_self_reach [OF r a(2)] by simp
qed

end
