(* ===== verification/SubstReach.thy ===== *)
theory SubstReach
  imports SubstGraph
begin

text \<open>The occurs check decides whether an expression depends on a class.\<close>

lemma reaches_opn [simp]: "reaches h s (Opn m es) q \<longleftrightarrow> (\<exists>e \<in> set es. reaches h s e q)"
  by (auto simp: reaches_def)

lemma reaches_obj:
  "reaches h s (Obj m i) q \<longleftrightarrow> cuex_is_varmeta m \<and> (\<exists>p. class_of h s (Obj m i) = Some p \<and> (q, p) \<in> (dep h s)\<^sup>*)"
  by (auto simp: reaches_def classes_in_def)

lemma dep_unfold: "live h s p \<Longrightarrow> (q, p) \<in> (dep h s)\<^sup>* \<longleftrightarrow> q = p \<or> (\<exists>x. value_of h p = Some x \<and> reaches h s x q)"
proof (rule iffI)
  assume "(q, p) \<in> (dep h s)\<^sup>*"
  then show "q = p \<or> (\<exists>x. value_of h p = Some x \<and> reaches h s x q)"
    by (cases rule: rtranclE) (auto simp: dep_def reaches_def)
next
  assume l: "live h s p"
  assume "q = p \<or> (\<exists>x. value_of h p = Some x \<and> reaches h s x q)"
  moreover have "(q, p) \<in> (dep h s)\<^sup>*" if x: "value_of h p = Some x" "reaches h s x q" for x
  proof -
    obtain a where "a \<in> classes_in h s x" "(q, a) \<in> (dep h s)\<^sup>*" using x(2) by (auto simp: reaches_def)
    moreover then have "(a, p) \<in> dep h s" using x(1) l by (auto simp: dep_def)
    ultimately show ?thesis by simp
  qed
  ultimately show "(q, p) \<in> (dep h s)\<^sup>*" by blast
qed

lemma vq_value_of: "vq_value (veqv_at h q) = value_of h q"
  by (simp add: value_of_def)

lemma contains_sound:
  "simple_frame h s \<Longrightarrow> cuex_subst_ex_contains_veqv n h s e q = Some (b, h') \<Longrightarrow> h' = h \<and> (b \<longleftrightarrow> reaches h s e q)"
  "simple_frame h s \<Longrightarrow> contains_veqv_operands n h s es q = Some (b, h') \<Longrightarrow> h' = h \<and> (b \<longleftrightarrow> (\<exists>e \<in> set es. reaches h s e q))"
proof (induction n h s e q and n h s es q arbitrary: b h' and b h'
    rule: cuex_subst_ex_contains_veqv_contains_veqv_operands.induct)
  case (2 n h s m i q)
  show ?case
  proof (cases "cuex_is_varmeta m \<and> (\<exists>p. class_of h s (Obj m i) = Some p)")
    case False
    then show ?thesis using 2(2,3) by (auto simp: cref_simple reaches_obj split: if_splits option.splits)
  next
    case True
    then obtain p where p: "class_of h s (Obj m i) = Some p" and m: "cuex_is_varmeta m" by auto
    have r: "reaches h s (Obj m i) q \<longleftrightarrow> q = p \<or> (\<exists>x. value_of h p = Some x \<and> reaches h s x q)"
      using m p dep_unfold [of h s p q] by (auto simp: reaches_obj live_def)
    show ?thesis
    proof (cases "p = q")
      case True
      then show ?thesis using 2(2,3) m p r by (simp add: cref_simple)
    next
      case False
      show ?thesis
      proof (cases "value_of h p")
        case None
        then show ?thesis using 2(2,3) m p r False by (simp add: cref_simple vq_value_of split: nat.splits)
      next
        case (Some x)
        then obtain k where n: "n = Suc k" using 2(2,3) m p False by (cases n) (simp_all add: cref_simple vq_value_of)
        have "cuex_subst_ex_contains_veqv k h s x q = Some (b, h')"
          using 2(2,3) m p False Some n by (simp add: cref_simple vq_value_of)
        then have "h' = h \<and> (b \<longleftrightarrow> reaches h s x q)"
          using 2(1) [OF m _ refl False _ n refl, of h x b h'] 2(2) p Some n by (simp add: cref_simple vq_value_of)
        then show ?thesis using r Some False by auto
      qed
    qed
  qed
next
  case (4 n h s e es q)
  obtain b1 h1 where 1: "cuex_subst_ex_contains_veqv n h s e q = Some (b1, h1)"
    using 4(4) by (cases "cuex_subst_ex_contains_veqv n h s e q") auto
  have h1: "h1 = h" "b1 \<longleftrightarrow> reaches h s e q" using 4(1) [OF 4(3) 1] by auto
  show ?case
  proof (cases b1)
    case True
    then show ?thesis using 4(4) 1 h1 by auto
  next
    case False
    then have "contains_veqv_operands n h s es q = Some (b, h')" using 4(4) 1 h1 by simp
    then show ?thesis using 4(2) [OF 1 refl] 4(3) False h1 by simp
  qed
qed auto

text \<open>With fuel above the ranks of the classes that the expression mentions it returns.\<close>

lemma contains_returns:
  "simple_frame h s \<Longrightarrow> ranked h s r \<Longrightarrow> \<forall>a \<in> classes_in h s e. r a < n \<Longrightarrow> cuex_subst_ex_contains_veqv n h s e q \<noteq> None"
  "simple_frame h s \<Longrightarrow> ranked h s r \<Longrightarrow> \<forall>e \<in> set es. \<forall>a \<in> classes_in h s e. r a < n \<Longrightarrow>
    contains_veqv_operands n h s es q \<noteq> None"
proof (induction n h s e q and n h s es q rule: cuex_subst_ex_contains_veqv_contains_veqv_operands.induct)
  case (2 n h s m i q)
  show ?case
  proof (cases "\<exists>p x. cuex_is_varmeta m \<and> class_of h s (Obj m i) = Some p \<and> p \<noteq> q \<and> value_of h p = Some x")
    case False
    then show ?thesis using 2(2) by (auto simp: cref_simple vq_value_of split: option.splits nat.splits)
  next
    case True
    then obtain p x where p: "cuex_is_varmeta m" "class_of h s (Obj m i) = Some p" "p \<noteq> q" "value_of h p = Some x" by blast
    then have "r p < n" using 2(4) by (simp add: classes_in_def)
    then obtain k where n: "n = Suc k" by (cases n) auto
    have "\<forall>a \<in> classes_in h s x. r a < k"
    proof
      fix a assume "a \<in> classes_in h s x"
      then have "(a, p) \<in> dep h s" using p(2,4) by (auto simp: dep_def live_def)
      then show "r a < k" using 2(3) \<open>r p < n\<close> n by (fastforce simp: ranked_def)
    qed
    then have "cuex_subst_ex_contains_veqv k h s x q \<noteq> None"
      using 2(1) [OF p(1) _ refl p(3) _ n refl, of h x] 2(2,3) p(2,4) n by (simp add: cref_simple vq_value_of)
    then show ?thesis using p n 2(2) by (simp add: cref_simple vq_value_of)
  qed
next
  case (4 n h s e es q)
  obtain b h1 where 1: "cuex_subst_ex_contains_veqv n h s e q = Some (b, h1)"
    using 4(1) [OF 4(3,4)] 4(5) by auto
  have "h1 = h" using contains_sound(1) [OF 4(3) 1] by simp
  then show ?case using 4(2) [OF 1 refl] 4(3-5) 1 by (cases b) simp_all
qed auto

lemma contains_enough:
  assumes "subst_wf h s"
  shows "\<exists>n. \<forall>m \<ge> n. cuex_subst_ex_contains_veqv m h s e q = Some (reaches h s e q, h)"
proof -
  obtain r where r: "ranked h s r" using assms by (auto simp: subst_wf_def)
  have s: "simple_frame h s" using assms by (simp add: subst_wf_def subst_ok_def)
  have "finite (classes_in h s e)"
  proof -
    have "finite (ex_vars e)" by (induction e) auto
    then have "finite ((\<lambda>v. the (class_of h s v)) ` ex_vars e)" by simp
    then show ?thesis by (rule rev_finite_subset) (force simp: classes_in_def image_def)
  qed
  then obtain n where n: "\<forall>a \<in> classes_in h s e. r a < n"
    using finite_nat_set_iff_bounded [of "r ` classes_in h s e"] by auto
  have "cuex_subst_ex_contains_veqv m h s e q = Some (reaches h s e q, h)" if "n \<le> m" for m
  proof -
    have "\<forall>a \<in> classes_in h s e. r a < m" using n that by auto
    then obtain b h' where "cuex_subst_ex_contains_veqv m h s e q = Some (b, h')"
      using contains_returns(1) [OF s r] by (metis not_None_eq surj_pair)
    then show ?thesis using contains_sound(1) [OF s] by simp
  qed
  then show ?thesis by blast
qed

end
