(* ===== verification/SubstStep.thy ===== *)
theory SubstStep
  imports SubstReach
begin

text \<open>
  What the elementary changes of a frame keep: looking up a variable for writing, giving a class a value, joining
  two classes.
\<close>

section \<open>Classes that are kept\<close>

definition kept :: "subst_heap \<Rightarrow> subst_heap \<Rightarrow> nat \<Rightarrow> nat set \<Rightarrow> bool" where
  "kept h h' s P \<longleftrightarrow> (\<forall>p \<in> P. (\<forall>v. class_of h' s v = Some p \<longleftrightarrow> class_of h s v = Some p) \<and>
     (live h s p \<longrightarrow> vars_of h' p = vars_of h p \<and> value_of h' p = value_of h p))"

definition avoids :: "subst_heap \<Rightarrow> nat \<Rightarrow> nat set \<Rightarrow> cuex \<Rightarrow> bool" where
  "avoids h s P e \<longleftrightarrow> classes_in h s e \<inter> P = {}"

definition closed_off :: "subst_heap \<Rightarrow> nat \<Rightarrow> nat set \<Rightarrow> bool" where
  "closed_off h s P \<longleftrightarrow> (\<forall>(a, b) \<in> dep h s. a \<in> P \<longrightarrow> b \<in> P)"

definition above :: "subst_heap \<Rightarrow> nat \<Rightarrow> nat set \<Rightarrow> nat set" where
  "above h s A = {b. \<exists>a \<in> A. (a, b) \<in> (dep h s)\<^sup>*}"

lemma kept_refl [simp]: "kept h h s P"
  by (simp add: kept_def)

lemma kept_mono: "kept h h' s Q \<Longrightarrow> P \<subseteq> Q \<Longrightarrow> kept h h' s P"
  by (auto simp: kept_def)

lemma kept_live: "kept h h' s P \<Longrightarrow> p \<in> P \<Longrightarrow> live h' s p = live h s p"
  by (simp add: kept_def live_def)

lemma kept_trans: "kept h h' s P \<Longrightarrow> kept h' h'' s P \<Longrightarrow> kept h h'' s P"
  by (simp add: kept_def live_def)

lemma kept_class: "kept h h' s P \<Longrightarrow> p \<in> P \<Longrightarrow> class_of h' s v = Some p \<longleftrightarrow> class_of h s v = Some p"
  by (simp add: kept_def)

lemma kept_value: "kept h h' s P \<Longrightarrow> class_of h s v = Some p \<Longrightarrow> p \<in> P \<Longrightarrow> value_of h' p = value_of h p"
  by (auto simp: kept_def live_def)

lemma kept_avoids: "kept h h' s P \<Longrightarrow> avoids h' s P e = avoids h s P e"
  by (auto simp: kept_def avoids_def classes_in_def)

lemma avoids_opn [simp]: "avoids h s P (Opn m es) \<longleftrightarrow> (\<forall>e \<in> set es. avoids h s P e)"
  by (auto simp: avoids_def)

lemma avoids_var: "avoids h s P v \<Longrightarrow> class_of h s v = Some q \<Longrightarrow> ex_vars v = {v} \<Longrightarrow> q \<notin> P"
  by (auto simp: avoids_def classes_in_def)

lemma closed_value: "closed_off h s P \<Longrightarrow> class_of h s v = Some q \<Longrightarrow> q \<notin> P \<Longrightarrow> value_of h q = Some x \<Longrightarrow> avoids h s P x"
  by (fastforce simp: closed_off_def dep_def avoids_def live_def)

lemma closed_above: "closed_off h s P \<Longrightarrow> (a, b) \<in> (dep h s)\<^sup>* \<Longrightarrow> a \<in> P \<Longrightarrow> b \<in> P"
  by (rotate_tac, induction rule: rtrancl_induct) (auto simp: closed_off_def)

lemma avoids_not_reaches: "closed_off h s P \<Longrightarrow> avoids h s P e \<Longrightarrow> p \<in> P \<Longrightarrow> \<not> reaches h s e p"
  using closed_above by (fastforce simp: avoids_def reaches_def)

lemma closed_off_above: "closed_off h s (above h s A)"
  by (auto simp: closed_off_def above_def) (meson rtrancl.rtrancl_into_rtrancl)

lemma closed_off_Un: "closed_off h s P \<Longrightarrow> closed_off h s Q \<Longrightarrow> closed_off h s (P \<union> Q)"
  by (fastforce simp: closed_off_def)

lemma avoids_Un [simp]: "avoids h s (P \<union> Q) e \<longleftrightarrow> avoids h s P e \<and> avoids h s Q e"
  by (auto simp: avoids_def)

lemma avoids_above: "avoids h s (above h s A) e \<longleftrightarrow> (\<forall>a \<in> A. \<not> reaches h s e a)"
  by (auto simp: avoids_def above_def reaches_def)

lemma above_self: "a \<in> A \<Longrightarrow> a \<in> above h s A"
  by (auto simp: above_def)

lemma above_live: "b \<in> above h s A \<Longrightarrow> \<forall>a \<in> A. live h s a \<Longrightarrow> live h s b"
  by (auto simp: above_def dep_def elim: rtranclE)

lemma closed_off_step:
  assumes k: "kept h h' s (- A)" and c: "closed_off h s P" and d: "A \<inter> P = {}"
    and a: "\<And>q x. q \<in> A \<Longrightarrow> live h' s q \<Longrightarrow> value_of h' q = Some x \<Longrightarrow> avoids h s P x"
  shows "closed_off h' s P"
  unfolding closed_off_def
proof (clarify)
  have kP: "kept h h' s P" using kept_mono [OF k] d by blast
  fix p b assume p: "(p, b) \<in> dep h' s" "p \<in> P"
  then obtain x w where x: "value_of h' b = Some x" "p \<in> classes_in h' s x" "class_of h' s w = Some b"
    by (auto simp: dep_def live_def)
  have na: "\<not> avoids h s P x" using x(2) p(2) kept_avoids [OF kP] by (auto simp: avoids_def)
  then have b: "b \<notin> A" using a x(1,3) by (auto simp: live_def)
  have w: "class_of h s w = Some b" using kept_class [OF k] b x(3) by simp
  then have "value_of h b = Some x" using kept_value [OF k w] b x(1) by simp
  then show "b \<in> P" using closed_value [OF c w] na by blast
qed

section \<open>Solutions\<close>

definition class_eqs :: "subst_heap \<Rightarrow> nat \<Rightarrow> nat \<Rightarrow> (cuex \<Rightarrow> cuex) \<Rightarrow> bool" where
  "class_eqs h s q \<sigma> \<longleftrightarrow> (\<forall>v. class_of h s v = Some q \<longrightarrow>
     (\<forall>w. class_of h s w = Some q \<longrightarrow> \<sigma> w = \<sigma> v) \<and> (\<forall>x. value_of h q = Some x \<longrightarrow> \<sigma> v = instance_of \<sigma> x))"

lemma solves_eqs: "solves h s P \<sigma> \<longleftrightarrow> (\<forall>v. \<not> active h s v \<longrightarrow> \<sigma> v = v) \<and> (\<forall>q. q \<notin> P \<longrightarrow> class_eqs h s q \<sigma>)"
  unfolding solves_def class_eqs_def by blast

lemma class_eqs_kept:
  assumes "kept h h' s P" "q \<in> P"
  shows "class_eqs h' s q \<sigma> = class_eqs h s q \<sigma>"
proof (cases "live h s q")
  case True
  then show ?thesis using assms by (simp add: class_eqs_def kept_def)
next
  case False
  then have "\<not> live h' s q" using kept_live [OF assms] by simp
  then show ?thesis using False by (simp add: class_eqs_def live_def)
qed

lemma solves_kept:
  assumes "kept h h' s (- A)" "active h' s = active h s" "A \<subseteq> P"
  shows "solves h' s P \<sigma> = solves h s P \<sigma>"
proof -
  have "class_eqs h' s q \<sigma> = class_eqs h s q \<sigma>" if "q \<notin> P" for q
    using class_eqs_kept [OF assms(1)] that assms(3) by blast
  then show ?thesis by (simp add: solves_eqs assms(2))
qed

lemma solves_insert: "q \<notin> P \<Longrightarrow> solves h s P \<sigma> \<longleftrightarrow> solves h s (insert q P) \<sigma> \<and> class_eqs h s q \<sigma>"
  unfolding solves_eqs by auto

lemma solves_mono: "solves h s P \<sigma> \<Longrightarrow> P \<subseteq> Q \<Longrightarrow> solves h s Q \<sigma>"
  unfolding solves_eqs by auto

section \<open>Ranks\<close>

lemma finite_classes: "finite (classes_in h s e)"
proof -
  have "finite (ex_vars e)" by (induction e) auto
  then have "finite ((\<lambda>v. the (class_of h s v)) ` ex_vars e)" by simp
  then show ?thesis by (rule rev_finite_subset) (force simp: classes_in_def image_def)
qed

lemma rank_step:
  assumes r: "ranked h s r" and q: "q \<in> A"
    and c: "\<And>v. class_of h' s v = map_option (\<lambda>p. if p \<in> A then q else p) (class_of h s v)"
    and keep: "\<And>p. p \<notin> A \<Longrightarrow> value_of h' p = value_of h p"
    and new: "\<And>x p. value_of h' q = Some x \<Longrightarrow> p \<in> A \<Longrightarrow> \<not> reaches h s x p"
  shows "\<exists>r. ranked h' s r"
proof -
  define D where "D = above h s A"
  define S where "S = (case value_of h' q of None \<Rightarrow> {} | Some x \<Rightarrow> classes_in h s x)"
  have "finite S" unfolding S_def by (simp add: finite_classes split: option.split)
  then obtain K where K: "\<forall>a \<in> S. r a < K" using finite_nat_set_iff_bounded [of "r ` S"] by auto
  define r' where "r' c = (if c = q then K else if c \<in> D then K + 1 + r c else r c)" for c
  have "r' a < r' b" if ab: "(a, b) \<in> dep h' s" for a b
  proof -
    obtain x w u where x: "value_of h' b = Some x" and w: "class_of h' s w = Some b"
      and u: "u \<in> ex_vars x" "class_of h' s u = Some a"
      using ab by (auto simp: dep_def live_def classes_in_def)
    obtain p where p: "class_of h s u = Some p" "a = (if p \<in> A then q else p)" using u(2) c by auto
    have px: "p \<in> classes_in h s x" using u(1) p(1) by (auto simp: classes_in_def)
    show ?thesis
    proof (cases "b = q")
      case True
      have "p' \<in> A \<Longrightarrow> (p', p) \<notin> (dep h s)\<^sup>*" for p' using new [of x p'] x True px by (auto simp: reaches_def)
      then have "p \<notin> D" "p \<notin> A" by (auto simp: D_def above_def)
      moreover have "r p < K" using K px x True by (simp add: S_def)
      moreover have "p \<noteq> q" using \<open>p \<notin> A\<close> q by auto
      ultimately show ?thesis using p(2) True by (simp add: r'_def)
    next
      case False
      then have b: "b \<notin> A" "class_of h s w = Some b" using w c by (auto split: if_splits)
      then have d: "(p, b) \<in> dep h s" using keep x px by (auto simp: dep_def live_def)
      then have lt: "r p < r b" using r by (auto simp: ranked_def)
      show ?thesis
      proof (cases "p \<in> A")
        case True
        then have "b \<in> D" using d by (auto simp: D_def above_def)
        then show ?thesis using p(2) True False by (simp add: r'_def)
      next
        case pA: False
        then have "a = p" "p \<noteq> q" using p(2) q by auto
        moreover have "p \<in> D \<Longrightarrow> b \<in> D" using d closed_off_above [of h s A] by (auto simp: D_def closed_off_def)
        ultimately show ?thesis using lt False by (auto simp: r'_def)
      qed
    qed
  qed
  then show ?thesis by (auto simp: ranked_def)
qed

end
