(* ===== verification/SubstOps.thy ===== *)
theory SubstOps
  imports SubstStep
begin

text \<open>The elementary changes of a frame on well-formed frames.\<close>

definition bounded :: "subst_heap \<Rightarrow> nat set \<Rightarrow> bool" where
  "bounded h P \<longleftrightarrow> (\<forall>p \<in> P. p < length (sh_veqvs h))"

lemma bounded_frame: "same_frame h h' s \<Longrightarrow> bounded h P \<Longrightarrow> bounded h' P"
  by (force simp: bounded_def same_frame_def)

lemma bounded_Un [simp]: "bounded h (P \<union> Q) \<longleftrightarrow> bounded h P \<and> bounded h Q"
  by (auto simp: bounded_def)

lemma bounded_above: "subst_ok h s \<Longrightarrow> \<forall>a \<in> A. live h s a \<Longrightarrow> bounded h (above h s A)"
  using above_live okD(2) unfolding bounded_def live_def by metis

lemma okI:
  assumes "simple_frame h s"
    and "\<And>v q. class_of h s v = Some q \<Longrightarrow> active h s v"
    and "\<And>v q. class_of h s v = Some q \<Longrightarrow> q < length (sh_veqvs h)"
    and "\<And>v q. class_of h s v = Some q \<Longrightarrow> set (vars_of h q) = {w. class_of h s w = Some q}"
    and "\<And>v q x. class_of h s v = Some q \<Longrightarrow> value_of h q = Some x \<Longrightarrow> ex_ok x \<and> \<not> active h s x"
  shows "subst_ok h s"
  using assms unfolding subst_ok_def by blast

section \<open>Looking up for writing\<close>

lemma mref_new:
  assumes wf: "subst_wf h s" and v: "active h s v" and new: "class_of h s v = None"
    and q: "q = length (sh_veqvs h)" and f: "same_frame h h' s" and l: "length (sh_veqvs h') = Suc q"
    and c: "class_of h' s = (class_of h s)(v \<mapsto> q)"
    and keep: "\<forall>p < q. vars_of h' p = vars_of h p \<and> value_of h' p = value_of h p"
    and vq: "vars_of h' q = [v]" "value_of h' q = None"
  shows "subst_wf h' s" "kept h h' s (- {q})" "class_eqs h' s q \<sigma>" "class_eqs h s q \<sigma>"
proof -
  note ok = wf_ok [OF wf]
  have lt: "p < q" if "class_of h s w = Some p" for w p using okD(2) [OF ok that] q by simp
  have nq: "class_of h s w \<noteq> Some q" for w using lt [of w q] by auto
  have act: "active h' s = active h s" by (rule same_frame_active [OF f])
  show k: "kept h h' s (- {q})"
  proof -
    have "class_of h' s w = Some p \<longleftrightarrow> class_of h s w = Some p" if "p \<noteq> q" for w p using that new by (auto simp: c)
    moreover have "vars_of h' p = vars_of h p \<and> value_of h' p = value_of h p" if "live h s p" for p
      using that lt keep by (auto simp: live_def)
    ultimately show ?thesis by (simp add: kept_def)
  qed
  show "class_eqs h' s q \<sigma>"
  proof -
    have "w = v" if "class_of h' s w = Some q" for w using that nq [of w] by (auto simp: c split: if_splits)
    then show ?thesis using vq by (auto simp: class_eqs_def)
  qed
  show "class_eqs h s q \<sigma>" by (simp add: class_eqs_def nq)
  have "subst_ok h' s"
  proof (rule okI)
    show "simple_frame h' s" using same_frame_simple [OF f] ok_simple [OF ok] by simp
    fix w p assume w: "class_of h' s w = Some p"
    show "active h' s w" using w okD(1) [OF ok, of w] v by (auto simp: c act split: if_splits)
    show "p < length (sh_veqvs h')" using w lt [of w p] by (auto simp: c l split: if_splits)
    show "set (vars_of h' p) = {w. class_of h' s w = Some p}"
    proof (cases "p = q")
      case True
      have "{w. class_of h' s w = Some q} = {v}" by (auto simp: c nq)
      then show ?thesis using True vq by simp
    next
      case False
      then have w': "class_of h s w = Some p" using kept_class [OF k, of p w] w by simp
      have "{w. class_of h' s w = Some p} = {w. class_of h s w = Some p}" using kept_class [OF k, of p] False by auto
      then show ?thesis using okD(3) [OF ok w'] keep lt [OF w'] by simp
    qed
    fix x assume x: "value_of h' p = Some x"
    then have "p \<noteq> q" using vq by auto
    then have w': "class_of h s w = Some p" using kept_class [OF k, of p w] w by simp
    then have "value_of h p = Some x" using x keep lt [OF w'] by simp
    then show "ex_ok x \<and> \<not> active h' s x" using okD(5,6) [OF ok w'] by (simp add: act)
  qed
  moreover obtain r where r: "ranked h s r" using wf by (auto simp: subst_wf_def)
  have "ranked h' s (\<lambda>p. if p = q then 0 else Suc (r p))"
    unfolding ranked_def
  proof (clarify)
    fix a b assume "(a, b) \<in> dep h' s"
    then obtain x w u where x: "value_of h' b = Some x" and w: "class_of h' s w = Some b"
      and u: "u \<in> ex_vars x" "class_of h' s u = Some a"
      by (auto simp: dep_def live_def classes_in_def)
    have b: "b \<noteq> q" using x vq by auto
    then have w': "class_of h s w = Some b" using kept_class [OF k, of b w] w by simp
    have x': "value_of h b = Some x" using kept_value [OF k w'] b x by simp
    show "(if a = q then 0 else Suc (r a)) < (if b = q then 0 else Suc (r b))"
    proof (cases "a = q")
      case False
      then have "class_of h s u = Some a" using kept_class [OF k, of a u] u(2) by simp
      then have "(a, b) \<in> dep h s" using w' x' u(1) by (auto simp: dep_def live_def classes_in_def)
      then show ?thesis using r False b by (auto simp: ranked_def)
    qed (simp add: b)
  qed
  ultimately show "subst_wf h' s" by (auto simp: subst_wf_def)
qed

lemma mref_step:
  assumes wf: "subst_wf h s" and v: "active h s v" and m: "cuex_subst_mref h s v = (q, h')"
  shows "subst_wf h' s" "same_frame h h' s" "class_of h' s v = Some q"
    "class_of h s w = Some p \<Longrightarrow> class_of h' s w = Some p"
    "bounded h P \<Longrightarrow> kept h h' s P"
    "bounded h P \<Longrightarrow> closed_off h s P \<Longrightarrow> closed_off h' s P"
    "bounded h P \<Longrightarrow> solves h' s P \<sigma> = solves h s P \<sigma>"
    "class_of h s v = None \<Longrightarrow> value_of h' q = None"
proof -
  note ok = wf_ok [OF wf]
  note c = mref_simple [OF ok_simple [OF ok] m]
  show "subst_wf h' s" using c mref_new(1) [OF wf v] wf by blast
  show f: "same_frame h h' s" using c by auto
  show "class_of h' s v = Some q" using c by auto
  show "class_of h s w = Some p \<Longrightarrow> class_of h' s w = Some p" using c by auto
  show "class_of h s v = None \<Longrightarrow> value_of h' q = None" using c by auto
  have k: "kept h h' s (- {length (sh_veqvs h)})" using c mref_new(2) [OF wf v] by auto
  assume P: "bounded h P"
  then have n: "length (sh_veqvs h) \<notin> P" by (auto simp: bounded_def)
  show "kept h h' s P" by (rule kept_mono [OF k]) (use n in auto)
  show "closed_off h' s P" if "closed_off h s P"
  proof (cases "h' = h")
    case False
    then have "q = length (sh_veqvs h)" "value_of h' q = None" using c by auto
    then show ?thesis using closed_off_step [OF k that] n by auto
  qed (use that in simp)
  show "solves h' s P \<sigma> = solves h s P \<sigma>"
  proof (cases "h' = h")
    case False
    then have q: "q = length (sh_veqvs h)" using c by auto
    have e: "class_eqs h' s q \<sigma>" "class_eqs h s q \<sigma>" using c mref_new(3,4) [OF wf v] False by blast+
    have "solves h' s (insert q P) \<sigma> = solves h s (insert q P) \<sigma>"
      using solves_kept [OF k same_frame_active [OF f]] q by simp
    then show ?thesis using solves_insert [of q P h'] solves_insert [of q P h] e n q by simp
  qed simp
qed

lemma mref_avoids:
  assumes wf: "subst_wf h s" and v: "active h s v" "ex_ok v" and m: "cuex_subst_mref h s v = (q, h')"
    and P: "bounded h P" "avoids h s P v"
  shows "q \<notin> P"
  using avoids_var [of h' s P v q] kept_avoids [OF mref_step(5) [OF wf v(1) m P(1)]] P(2)
    mref_step(3) [OF wf v(1) m] var_self [OF v] by simp

section \<open>Merging classes\<close>

text \<open>A set of classes becomes one class with a value that depends on none of them.\<close>

definition merges :: "subst_heap \<Rightarrow> subst_heap \<Rightarrow> nat \<Rightarrow> nat set \<Rightarrow> nat \<Rightarrow> cuex option \<Rightarrow> bool" where
  "merges h h' s A q y \<longleftrightarrow>
     q \<in> A \<and> (\<forall>a \<in> A. live h s a) \<and> same_frame h h' s \<and>
     (\<forall>v. class_of h' s v = map_option (\<lambda>p. if p \<in> A then q else p) (class_of h s v)) \<and>
     set (vars_of h' q) = {w. \<exists>a \<in> A. class_of h s w = Some a} \<and>
     (\<forall>p. p \<notin> A \<longrightarrow> vars_of h' p = vars_of h p \<and> value_of h' p = value_of h p) \<and>
     value_of h' q = y \<and> (\<forall>x. y = Some x \<longrightarrow> ex_ok x \<and> \<not> active h s x \<and> (\<forall>a \<in> A. \<not> reaches h s x a))"

lemma merges_class: "merges h h' s A q y \<Longrightarrow> class_of h' s v = map_option (\<lambda>p. if p \<in> A then q else p) (class_of h s v)"
  unfolding merges_def by blast

lemma merges_kept:
  assumes m: "merges h h' s A q y"
  shows "kept h h' s (- A)"
proof -
  have q: "q \<in> A" and keep: "\<And>p. p \<notin> A \<Longrightarrow> vars_of h' p = vars_of h p \<and> value_of h' p = value_of h p"
    using m by (auto simp: merges_def)
  have "class_of h' s v = Some p \<longleftrightarrow> class_of h s v = Some p" if "p \<notin> A" for v p
    unfolding merges_class [OF m] using q that by (cases "class_of h s v") auto
  then show ?thesis using keep by (simp add: kept_def)
qed

lemma merges_wf:
  assumes wf: "subst_wf h s" and m: "merges h h' s A q y"
  shows "subst_wf h' s"
proof -
  note ok = wf_ok [OF wf] and c = merges_class [OF m]
  have q: "q \<in> A" and A: "\<And>a. a \<in> A \<Longrightarrow> live h s a" and f: "same_frame h h' s"
    and vars: "set (vars_of h' q) = {w. \<exists>a \<in> A. class_of h s w = Some a}"
    and keep: "\<And>p. p \<notin> A \<Longrightarrow> vars_of h' p = vars_of h p \<and> value_of h' p = value_of h p"
    and y: "value_of h' q = y" and x: "\<And>x. y = Some x \<Longrightarrow> ex_ok x \<and> \<not> active h s x \<and> (\<forall>a \<in> A. \<not> reaches h s x a)"
    using m by (auto simp: merges_def)
  note k = merges_kept [OF m] and act = same_frame_active [OF f]
  have old: "class_of h s v = Some p" if "class_of h' s v = Some p" "p \<notin> A" for v p
    using kept_class [OF k, of p v] that by simp
  have cq: "p = q" if "class_of h' s v = Some p" "p \<in> A" for v p using that by (auto simp: c split: if_splits)
  obtain r where r: "ranked h s r" using wf by (auto simp: subst_wf_def)
  have "\<exists>r. ranked h' s r" by (rule rank_step [OF r q c]) (use keep y x in auto)
  moreover have "subst_ok h' s"
  proof (rule okI)
    show "simple_frame h' s" using same_frame_simple [OF f] ok_simple [OF ok] by simp
    fix v p assume v: "class_of h' s v = Some p"
    then obtain p' where v': "class_of h s v = Some p'" by (auto simp: c)
    show "active h' s v" using okD(1) [OF ok v'] by (simp add: act)
    have le: "length (sh_veqvs h) \<le> length (sh_veqvs h')" using f by (simp add: same_frame_def)
    show "p < length (sh_veqvs h')"
    proof (cases "p \<in> A")
      case True
      then obtain w where "class_of h s w = Some p" using A by (auto simp: live_def)
      then show ?thesis using okD(2) [OF ok] le by fastforce
    qed (use okD(2) [OF ok old [OF v]] le in simp)
    show "set (vars_of h' p) = {w. class_of h' s w = Some p}"
    proof (cases "p \<in> A")
      case True
      have "class_of h' s w = Some q \<longleftrightarrow> (\<exists>a \<in> A. class_of h s w = Some a)" for w
        using q by (auto simp: c)
      then show ?thesis using vars cq [OF v True] by simp
    next
      case False
      have "{w. class_of h' s w = Some p} = {w. class_of h s w = Some p}" using kept_class [OF k, of p] False by auto
      then show ?thesis using okD(3) [OF ok old [OF v False]] keep False by simp
    qed
    fix z assume z: "value_of h' p = Some z"
    show "ex_ok z \<and> \<not> active h' s z"
    proof (cases "p \<in> A")
      case True
      then show ?thesis using cq [OF v True] y z x [of z] act by auto
    next
      case False
      then have "value_of h p = Some z" using z keep by simp
      then show ?thesis using okD(5,6) [OF ok old [OF v False]] act by simp
    qed
  qed
  ultimately show ?thesis by (simp add: subst_wf_def)
qed

lemma merges_closed:
  assumes m: "merges h h' s A q y" and P: "closed_off h s P" "A \<inter> P = {}"
    and x: "\<And>x. y = Some x \<Longrightarrow> avoids h s P x"
  shows "closed_off h' s P"
proof (rule closed_off_step [OF merges_kept [OF m] P])
  fix a z assume a: "a \<in> A" "live h' s a" "value_of h' a = Some z"
  then have "a = q" using merges_class [OF m] by (auto simp: live_def split: if_splits)
  then show "avoids h s P z" using a(3) x m by (auto simp: merges_def)
qed

lemma merges_solves:
  assumes m: "merges h h' s A q y" and P: "A \<inter> P = {}" and v: "class_of h s v = Some a" "a \<in> A"
  shows "solves h' s P \<sigma> \<longleftrightarrow> solves h s (A \<union> P) \<sigma> \<and> (\<forall>w. \<forall>b \<in> A. class_of h s w = Some b \<longrightarrow> \<sigma> w = \<sigma> v) \<and>
    (\<forall>x. y = Some x \<longrightarrow> \<sigma> v = instance_of \<sigma> x)"
proof -
  note c = merges_class [OF m]
  have q: "q \<in> A" and f: "same_frame h h' s" and y: "value_of h' q = y" using m by (simp_all add: merges_def)
  have 1: "solves h' s (A \<union> P) \<sigma> = solves h s (A \<union> P) \<sigma>"
    by (rule solves_kept [OF merges_kept [OF m] same_frame_active [OF f]]) simp
  have 2: "solves h' s P \<sigma> \<longleftrightarrow> solves h' s (A \<union> P) \<sigma> \<and> (\<forall>a \<in> A. class_eqs h' s a \<sigma>)"
    unfolding solves_eqs using P by auto
  have 3: "class_eqs h' s b \<sigma>" if "b \<in> A" "b \<noteq> q" for b
  proof -
    have "class_of h' s w \<noteq> Some b" for w using that by (auto simp: c)
    then show ?thesis by (simp add: class_eqs_def)
  qed
  have cq: "class_of h' s w = Some q \<longleftrightarrow> (\<exists>b \<in> A. class_of h s w = Some b)" for w
    using q by (auto simp: c)
  have 4: "class_eqs h' s q \<sigma> \<longleftrightarrow> (\<forall>w. \<forall>b \<in> A. class_of h s w = Some b \<longrightarrow> \<sigma> w = \<sigma> v) \<and> (\<forall>x. y = Some x \<longrightarrow> \<sigma> v = instance_of \<sigma> x)"
    (is "_ \<longleftrightarrow> ?R")
  proof
    assume "class_eqs h' s q \<sigma>"
    then show ?R using v unfolding class_eqs_def cq y by blast
  next
    assume R: ?R
    then have "\<sigma> u = \<sigma> v" if "\<exists>b \<in> A. class_of h s u = Some b" for u using that by blast
    then show "class_eqs h' s q \<sigma>" using R unfolding class_eqs_def cq y by simp
  qed
  show ?thesis using 1 2 3 4 q by blast
qed

lemma set_value_merges:
  assumes wf: "subst_wf h s" and v: "class_of h s v = Some q" and e: "ex_ok e" "\<not> active h s e" "\<not> reaches h s e q"
  shows "merges h (set_value h q (Some e)) s {q} q (Some e)"
proof -
  note ok = wf_ok [OF wf]
  have "(if p \<in> {q} then q else p) = p" for p by simp
  then show ?thesis
    using v e okD(2,3) [OF ok v] by (auto simp: merges_def live_def set_value_value option.map_ident)
qed

lemma join_merges:
  assumes wf: "subst_wf h s" and v: "class_of h s v0 = Some q0" "class_of h s v1 = Some q1"
    and y: "\<And>x. y = Some x \<Longrightarrow> ex_ok x \<and> \<not> active h s x \<and> \<not> reaches h s x q0 \<and> \<not> reaches h s x q1"
  shows "merges h (join_classes h s q0 q1 y) s {q0, q1} q1 y"
proof -
  note ok = wf_ok [OF wf]
  note j = join_simple [OF ok_simple [OF ok] okD(2) [OF ok v(2)] okD(4) [OF ok v(2)], of q0 y]
  define h' where "h' = join_classes h s q0 q1 y"
  have vars: "set (vars_of h q0) \<union> set (vars_of h q1) = {w. \<exists>a \<in> {q0, q1}. class_of h s w = Some a}"
    using okD(3) [OF ok v(1)] okD(3) [OF ok v(2)] by auto
  have c: "class_of h' s w = map_option (\<lambda>p. if p \<in> {q0, q1} then q1 else p) (class_of h s w)" for w
  proof -
    have "class_of h' s w = (if w \<in> set (vars_of h q0) \<union> set (vars_of h q1) then Some q1 else class_of h s w)"
      using j unfolding h'_def by simp
    then show ?thesis unfolding vars by (cases "class_of h s w") auto
  qed
  have s: "same_frame h h' s" "set (vars_of h' q1) = {w. \<exists>a \<in> {q0, q1}. class_of h s w = Some a}" "value_of h' q1 = y"
    "\<And>p. p \<notin> {q0, q1} \<Longrightarrow> vars_of h' p = vars_of h p \<and> value_of h' p = value_of h p"
    using j unfolding h'_def vars by simp_all
  show ?thesis
    unfolding merges_def h'_def [symmetric] using c s y v by (simp add: live_def) blast
qed

lemma join_solves:
  assumes m: "merges h h' s {q0, q1} q1 y" and v: "class_of h s v0 = Some q0" "class_of h s v1 = Some q1"
    and P: "q0 \<notin> P" "q1 \<notin> P"
    and y: "\<And>x. y = Some x \<Longrightarrow> value_of h q0 \<noteq> None \<or> value_of h q1 \<noteq> None"
    and x0: "\<And>x0. value_of h q0 = Some x0 \<Longrightarrow> \<exists>x. y = Some x \<and> (solves h s ({q0, q1} \<union> P) \<sigma> \<longrightarrow> instance_of \<sigma> x = instance_of \<sigma> x0)"
    and x1: "\<And>x1. value_of h q1 = Some x1 \<Longrightarrow> \<exists>x. y = Some x \<and> (solves h s ({q0, q1} \<union> P) \<sigma> \<longrightarrow> instance_of \<sigma> x = instance_of \<sigma> x1)"
  shows "solves h' s P \<sigma> \<longleftrightarrow> solves h s P \<sigma> \<and> \<sigma> v0 = \<sigma> v1"
    "solves h' s P \<sigma> \<Longrightarrow> y = Some x \<Longrightarrow> \<sigma> v0 = instance_of \<sigma> x"
proof -
  let ?S = "solves h s ({q0, q1} \<union> P) \<sigma>"
  have e: "solves h s P \<sigma> \<longleftrightarrow> ?S \<and> class_eqs h s q0 \<sigma> \<and> class_eqs h s q1 \<sigma>"
    unfolding solves_eqs using P by auto
  have d: "{q0, q1} \<inter> P = {}" using P by simp
  note ms = merges_solves [OF m d v(1), of \<sigma>, simplified]
  have c: "class_eqs h s q \<sigma> \<longleftrightarrow> (\<forall>w. class_of h s w = Some q \<longrightarrow> \<sigma> w = \<sigma> v) \<and> (\<forall>x. value_of h q = Some x \<longrightarrow> \<sigma> v = instance_of \<sigma> x)"
    if "class_of h s v = Some q" for v q
  proof -
    have "\<sigma> u = \<sigma> v" if "\<forall>w. class_of h s w = Some q \<longrightarrow> \<sigma> w = \<sigma> v" "class_of h s u = Some q" for u using that by blast
    then show ?thesis using that unfolding class_eqs_def by (metis (no_types))
  qed
  show "solves h' s P \<sigma> \<longleftrightarrow> solves h s P \<sigma> \<and> \<sigma> v0 = \<sigma> v1"
  proof
    assume "solves h' s P \<sigma>"
    then have s: ?S "\<And>w. class_of h s w = Some q0 \<or> class_of h s w = Some q1 \<Longrightarrow> \<sigma> w = \<sigma> v0" "\<And>x. y = Some x \<Longrightarrow> \<sigma> v0 = instance_of \<sigma> x"
      using ms by auto
    have "\<sigma> v0 = \<sigma> v1" using s(2) [of v1] v(2) by simp
    moreover have "class_eqs h s q0 \<sigma>" unfolding c [OF v(1)] using s x0 by fastforce
    moreover have "class_eqs h s q1 \<sigma>" unfolding c [OF v(2)] using s x1 \<open>\<sigma> v0 = \<sigma> v1\<close> by fastforce
    ultimately show "solves h s P \<sigma> \<and> \<sigma> v0 = \<sigma> v1" using e s(1) by blast
  next
    assume a: "solves h s P \<sigma> \<and> \<sigma> v0 = \<sigma> v1"
    then have s: ?S "class_eqs h s q0 \<sigma>" "class_eqs h s q1 \<sigma>" using e by auto
    have "\<sigma> v0 = instance_of \<sigma> x" if yx: "y = Some x" for x
    proof (cases "value_of h q0")
      case (Some x0)
      then show ?thesis using x0 [OF Some] s(1,2) yx c [OF v(1)] by auto
    next
      case None
      then obtain x1 where q1: "value_of h q1 = Some x1" using y [OF yx] by auto
      then show ?thesis using x1 [OF q1] s(1,3) yx c [OF v(2)] a by auto
    qed
    then show "solves h' s P \<sigma>" using ms s a c [OF v(1)] c [OF v(2)] by auto
  qed
  show "solves h' s P \<sigma> \<Longrightarrow> y = Some x \<Longrightarrow> \<sigma> v0 = instance_of \<sigma> x" using ms by blast
qed

end
