(* ===== verification/SubstRun.thy ===== *)
theory SubstRun
  imports SubstReach
begin

text \<open>
  The runs of \<^verbatim>\<open>cuex_subst_unify_aux\<close> on a frame that shadows no other one, without callback, as a relation. Every result
  of the code is a run, and every run of a well-formed frame is the result of the code with enough fuel.
\<close>

definition crosses :: "subst_heap \<Rightarrow> nat \<Rightarrow> nat \<Rightarrow> nat \<Rightarrow> bool" where
  "crosses h s q0 q1 \<longleftrightarrow>
     (\<exists>x. value_of h q0 = Some x \<and> reaches h s x q1) \<or> (\<exists>x. value_of h q1 = Some x \<and> reaches h s x q0)"

definition either :: "cuex option \<Rightarrow> cuex option \<Rightarrow> cuex option" where
  "either x y = (case x of Some z \<Rightarrow> Some z | None \<Rightarrow> y)"

definition sides :: "cuex \<Rightarrow> cuex \<Rightarrow> cuex \<Rightarrow> cuex \<Rightarrow> bool" where
  "sides v e e0 e1 \<longleftrightarrow> e0 = v \<and> e1 = e \<or> e0 = e \<and> e1 = v"

definition stored :: "nat \<Rightarrow> cuex option \<Rightarrow> subst_heap \<Rightarrow> subst_heap" where
  "stored q r h = (case r of None \<Rightarrow> h | Some y \<Rightarrow> set_value h q (Some y))"

inductive unify_run :: "nat \<Rightarrow> subst_heap \<Rightarrow> cuex \<Rightarrow> cuex \<Rightarrow> cuex option \<Rightarrow> subst_heap \<Rightarrow> bool"
  and operands_run :: "nat \<Rightarrow> subst_heap \<Rightarrow> cuex list \<Rightarrow> cuex list \<Rightarrow> cuex list option \<Rightarrow> subst_heap \<Rightarrow> bool"
  for s :: nat where
  same: "unify_run s h e e (Some e) h"
| vars_same:
    "e0 \<noteq> e1 \<Longrightarrow> active h s e0 \<Longrightarrow> active h s e1 \<Longrightarrow> cuex_subst_mref h s e0 = (q, h1) \<Longrightarrow> cuex_subst_mref h1 s e1 = (q, h2) \<Longrightarrow>
     unify_run s h e0 e1 (Some e0) h2"
| vars_occur:
    "e0 \<noteq> e1 \<Longrightarrow> active h s e0 \<Longrightarrow> active h s e1 \<Longrightarrow> cuex_subst_mref h s e0 = (q0, h1) \<Longrightarrow> cuex_subst_mref h1 s e1 = (q1, h2) \<Longrightarrow>
     q0 \<noteq> q1 \<Longrightarrow> crosses h2 s q0 q1 \<Longrightarrow> unify_run s h e0 e1 None h2"
| vars_fail:
    "e0 \<noteq> e1 \<Longrightarrow> active h s e0 \<Longrightarrow> active h s e1 \<Longrightarrow> cuex_subst_mref h s e0 = (q0, h1) \<Longrightarrow> cuex_subst_mref h1 s e1 = (q1, h2) \<Longrightarrow>
     q0 \<noteq> q1 \<Longrightarrow> \<not> crosses h2 s q0 q1 \<Longrightarrow> value_of h2 q0 = Some x0 \<Longrightarrow> value_of h2 q1 = Some x1 \<Longrightarrow>
     unify_run s h2 x0 x1 None h3 \<Longrightarrow> unify_run s h e0 e1 None h3"
| vars_values:
    "e0 \<noteq> e1 \<Longrightarrow> active h s e0 \<Longrightarrow> active h s e1 \<Longrightarrow> cuex_subst_mref h s e0 = (q0, h1) \<Longrightarrow> cuex_subst_mref h1 s e1 = (q1, h2) \<Longrightarrow>
     q0 \<noteq> q1 \<Longrightarrow> \<not> crosses h2 s q0 q1 \<Longrightarrow> value_of h2 q0 = Some x0 \<Longrightarrow> value_of h2 q1 = Some x1 \<Longrightarrow>
     unify_run s h2 x0 x1 (Some x) h3 \<Longrightarrow> unify_run s h e0 e1 (Some x) (join_classes h3 s q0 q1 (Some x))"
| vars_join:
    "e0 \<noteq> e1 \<Longrightarrow> active h s e0 \<Longrightarrow> active h s e1 \<Longrightarrow> cuex_subst_mref h s e0 = (q0, h1) \<Longrightarrow> cuex_subst_mref h1 s e1 = (q1, h2) \<Longrightarrow>
     q0 \<noteq> q1 \<Longrightarrow> \<not> crosses h2 s q0 q1 \<Longrightarrow> value_of h2 q0 = None \<or> value_of h2 q1 = None \<Longrightarrow>
     y = either (value_of h2 q0) (value_of h2 q1) \<Longrightarrow> unify_run s h e0 e1 (either y (Some e0)) (join_classes h2 s q0 q1 y)"
| var_occur:
    "sides v e e0 e1 \<Longrightarrow> active h s v \<Longrightarrow> \<not> active h s e \<Longrightarrow> cuex_subst_mref h s v = (q, h1) \<Longrightarrow> value_of h1 q = None \<Longrightarrow>
     reaches h1 s e q \<Longrightarrow> unify_run s h e0 e1 None h1"
| var_bind:
    "sides v e e0 e1 \<Longrightarrow> active h s v \<Longrightarrow> \<not> active h s e \<Longrightarrow> cuex_subst_mref h s v = (q, h1) \<Longrightarrow> value_of h1 q = None \<Longrightarrow>
     \<not> reaches h1 s e q \<Longrightarrow> unify_run s h e0 e1 (Some v) (set_value h1 q (Some e))"
| var_left:
    "active h s v \<Longrightarrow> \<not> active h s e \<Longrightarrow> cuex_subst_mref h s v = (q, h1) \<Longrightarrow> value_of h1 q = Some x \<Longrightarrow>
     unify_run s h1 x e r h2 \<Longrightarrow> unify_run s h v e r (stored q r h2)"
| var_right:
    "active h s v \<Longrightarrow> \<not> active h s e \<Longrightarrow> cuex_subst_mref h s v = (q, h1) \<Longrightarrow> value_of h1 q = Some x \<Longrightarrow>
     unify_run s h1 e x r h2 \<Longrightarrow> unify_run s h e v r (stored q r h2)"
| clash:
    "e0 \<noteq> e1 \<Longrightarrow> \<not> active h s e0 \<Longrightarrow> \<not> active h s e1 \<Longrightarrow> \<not> (\<exists>m es fs. e0 = Opn m es \<and> e1 = Opn m fs) \<Longrightarrow>
     unify_run s h e0 e1 None h"
| opn:
    "es \<noteq> fs \<Longrightarrow> \<not> active h s (Opn m es) \<Longrightarrow> \<not> active h s (Opn m fs) \<Longrightarrow> operands_run s h es fs r h' \<Longrightarrow>
     unify_run s h (Opn m es) (Opn m fs) (map_option (Opn m) r) h'"
| nil: "operands_run s h [] fs (Some []) h"
| cons_fail: "unify_run s h e (hd fs) None h' \<Longrightarrow> operands_run s h (e # es) fs None h'"
| cons:
    "unify_run s h e (hd fs) (Some y) h1 \<Longrightarrow> operands_run s h1 es (tl fs) r h2 \<Longrightarrow>
     operands_run s h (e # es) fs (map_option ((#) y) r) h2"

section \<open>Results of the code are runs\<close>

lemma mref_frame: "simple_frame h s \<Longrightarrow> cuex_subst_mref h s v = (q, h') \<Longrightarrow> same_frame h h' s"
  using mref_simple [of h s v q h'] by auto

lemma join_frame: "simple_frame h s \<Longrightarrow> same_frame h (join_classes h s q0 q1 x) s"
proof -
  assume s: "simple_frame h s"
  obtain q h2 where u: "cuex_veqv_unify h q0 q1 x = (q, h2)" by (cases "cuex_veqv_unify h q0 q1 x")
  then have f: "same_frame h h2 s"
    by (auto simp: cuex_veqv_unify_def Let_def veqv_upd_def same_frame_def subst_at_def)
  then have "simple_frame h2 s" using same_frame_simple [OF f] s by simp
  then have "same_frame h2 (redirect_vars s q h2) s" unfolding redirect_vars_def by (simp add: redirect_simple)
  then show ?thesis using same_frame_trans [OF f] u by (simp add: join_classes_def)
qed

lemma value_contains_sound:
  "simple_frame h s \<Longrightarrow> value_contains n h s q0 q1 = Some (b, h') \<Longrightarrow> h' = h \<and> (b \<longleftrightarrow> (\<exists>x. value_of h q0 = Some x \<and> reaches h s x q1))"
  using contains_sound(1) by (fastforce simp: value_contains_def vq_value_of split: option.splits)

lemma cross_occurs_sound:
  assumes "simple_frame h s" "cross_occurs n h s q0 q1 = Some (b, h')"
  shows "h' = h \<and> (b \<longleftrightarrow> crosses h s q0 q1)"
proof -
  have i: "sf_is_idem (subst_at h s)" using assms(1) by (simp add: simple_frame_def)
  obtain b0 h0 where 0: "value_contains n h s q0 q1 = Some (b0, h0)"
    using assms(2) i by (cases "value_contains n h s q0 q1") (auto simp: cross_occurs_def)
  note v = value_contains_sound [OF assms(1) 0]
  show ?thesis
  proof (cases b0)
    case True
    then show ?thesis using assms(2) i 0 v by (auto simp: cross_occurs_def crosses_def)
  next
    case False
    then have "value_contains n h s q1 q0 = Some (b, h')" using assms(2) i 0 conjunct1 [OF v] by (simp add: cross_occurs_def)
    then show ?thesis using value_contains_sound [OF assms(1)] v False by (auto simp: crosses_def)
  qed
qed

lemma bind_var_sound:
  assumes "simple_frame h s" "bind_var n h s q v e = Some (r, h')"
  shows "reaches h s e q \<and> r = None \<and> h' = h \<or> \<not> reaches h s e q \<and> r = Some v \<and> h' = set_value h q (Some e)"
  using assms contains_sound(1) [OF assms(1)]
  by (fastforce simp: bind_var_def occur_check_and_set_var_def simple_frame_def split: option.splits prod.splits bool.splits if_splits)

text \<open>One step of the code, by cases.\<close>

lemma aux_same: "cuex_subst_unify_aux n aux h s e e = Some (Some e, h)"
  by (simp add: cuex_subst_unify_aux.simps)

lemma aux_vars:
  assumes "e0 \<noteq> e1" "active h s e0" "active h s e1" "cuex_subst_mref h s e0 = (q0, h1)" "cuex_subst_mref h1 s e1 = (q1, h2)"
    "sf_qcset (subst_at h1 s) = sf_qcset (subst_at h s)"
  shows "cuex_subst_unify_aux n aux h s e0 e1 =
    (if q0 = q1 then Some (Some e0, h2)
     else case cross_occurs n h2 s q0 q1 of
            None \<Rightarrow> None
          | Some (True, h) \<Rightarrow> Some (None, h)
          | Some (False, h) \<Rightarrow>
              (case (value_of h q0, value_of h q1) of
                 (Some x0, Some x1) \<Rightarrow>
                   (case n of
                      0 \<Rightarrow> None
                    | Suc n \<Rightarrow>
                        (case cuex_subst_unify_aux n aux h s x0 x1 of
                           None \<Rightarrow> None
                         | Some (None, h) \<Rightarrow> Some (None, h)
                         | Some (Some x, h) \<Rightarrow> join_result s q0 q1 e0 (Some x) h))
               | (Some x0, None) \<Rightarrow> join_result s q0 q1 e0 (Some x0) h
               | (None, x1) \<Rightarrow> join_result s q0 q1 e0 x1 h))"
  unfolding value_of_def using assms by (subst cuex_subst_unify_aux.simps) (simp add: active_def)

lemma aux_left:
  assumes "active h s v" "\<not> active h s e" "cuex_subst_mref h s v = (q, h1)"
    "sf_qcset (subst_at h1 s) = sf_qcset (subst_at h s)"
  shows "cuex_subst_unify_aux n aux h s v e =
    (case value_of h1 q of
       Some x \<Rightarrow> (case n of 0 \<Rightarrow> None | Suc n \<Rightarrow> store_result q (cuex_subst_unify_aux n aux h1 s x e))
     | None \<Rightarrow> bind_var n h1 s q v e)"
proof -
  have "v \<noteq> e" using assms by auto
  then show ?thesis using assms by (subst cuex_subst_unify_aux.simps) (simp add: active_def vq_value_of)
qed

lemma aux_right:
  assumes "active h s v" "\<not> active h s e" "cuex_subst_mref h s v = (q, h1)"
    "sf_qcset (subst_at h1 s) = sf_qcset (subst_at h s)"
  shows "cuex_subst_unify_aux n aux h s e v =
    (case value_of h1 q of
       Some x \<Rightarrow> (case n of 0 \<Rightarrow> None | Suc n \<Rightarrow> store_result q (cuex_subst_unify_aux n aux h1 s e x))
     | None \<Rightarrow> bind_var n h1 s q v e)"
proof -
  have "e \<noteq> v" using assms by auto
  then show ?thesis using assms by (subst cuex_subst_unify_aux.simps) (simp add: active_def vq_value_of)
qed

lemma aux_clash:
  assumes "e0 \<noteq> e1" "\<not> active h s e0" "\<not> active h s e1" "\<not> (\<exists>m es fs. e0 = Opn m es \<and> e1 = Opn m fs)"
  shows "cuex_subst_unify_aux n None h s e0 e1 = Some (None, h)"
  using assms by (subst cuex_subst_unify_aux.simps) (auto simp: active_def normal_fail_def split: cuex.splits)

lemma aux_opn:
  assumes "es \<noteq> fs" "\<not> active h s (Opn m es)" "\<not> active h s (Opn m fs)"
  shows "cuex_subst_unify_aux n None h s (Opn m es) (Opn m fs) =
    map_option (\<lambda>(r, h). (map_option (Opn m) r, h)) (unify_operands n None h s es fs)"
  using assms by (subst cuex_subst_unify_aux.simps)
    (auto simp: active_def normal_fail_def cuex_opn_by_arr_def split: option.splits prod.splits)

lemma stored_result: "store_result q (Some (r, h)) = Some (r, stored q r h)"
  by (cases r) (simp_all add: store_result_def stored_def)

lemma stored_frame: "same_frame h h' s \<Longrightarrow> same_frame h (stored q r h') s"
  by (cases r) (auto simp: stored_def intro: same_frame_trans)

definition is_run :: "nat \<Rightarrow> nat \<Rightarrow> subst_heap \<Rightarrow> cuex \<Rightarrow> cuex \<Rightarrow> bool" where
  "is_run n s h e0 e1 \<longleftrightarrow> (\<forall>r h'. simple_frame h s \<longrightarrow> cuex_subst_unify_aux n None h s e0 e1 = Some (r, h') \<longrightarrow>
     unify_run s h e0 e1 r h' \<and> same_frame h h' s)"

lemma is_runD: "is_run n s h e0 e1 \<Longrightarrow> simple_frame h s \<Longrightarrow> cuex_subst_unify_aux n None h s e0 e1 = Some (r, h') \<Longrightarrow>
    unify_run s h e0 e1 r h' \<and> same_frame h h' s"
  by (simp add: is_run_def)

lemma operands_are_run:
  assumes "\<And>e h f. e \<in> set es \<Longrightarrow> is_run n s h e f" "simple_frame h s" "unify_operands n None h s es fs = Some (r, h')"
  shows "operands_run s h es fs r h' \<and> same_frame h h' s"
  using assms
proof (induction es arbitrary: h fs r)
  case Nil
  then show ?case by (auto intro: unify_run_operands_run.nil)
next
  case (Cons e es)
  obtain r1 h1 where 1: "cuex_subst_unify_aux n None h s e (hd fs) = Some (r1, h1)"
    using Cons.prems(3) by (cases "cuex_subst_unify_aux n None h s e (hd fs)") auto
  have u: "unify_run s h e (hd fs) r1 h1" and f: "same_frame h h1 s"
    using is_runD [OF Cons.prems(1) Cons.prems(2) 1] by simp_all
  show ?case
  proof (cases r1)
    case None
    then show ?thesis using Cons.prems(3) 1 u f by (auto intro: cons_fail)
  next
    case (Some y)
    have "simple_frame h1 s" using same_frame_simple [OF f] Cons.prems(2) by simp
    moreover obtain r2 where 2: "unify_operands n None h1 s es (tl fs) = Some (r2, h')" and r: "r = map_option ((#) y) r2"
      using Cons.prems(3) 1 Some by (auto split: option.splits prod.splits)
    ultimately have "operands_run s h1 es (tl fs) r2 h'" "same_frame h1 h' s" using Cons.IH [of h1] Cons.prems(1) by simp_all
    then show ?thesis using cons [OF u [unfolded Some]] same_frame_trans [OF f] r by simp
  qed
qed

lemma stored_none [simp]: "stored q None h = h" "stored q (Some y) h = set_value h q (Some y)"
  by (simp_all add: stored_def)

lemma bind_run:
  assumes "sides v e e0 e1" "active h s v" "\<not> active h s e" "cuex_subst_mref h s v = (q, h1)" "value_of h1 q = None"
    and f: "same_frame h h1 s" and s1: "simple_frame h1 s" and b: "bind_var n h1 s q v e = Some (r, h')"
  shows "unify_run s h e0 e1 r h' \<and> same_frame h h' s"
  using bind_var_sound [OF s1 b]
proof (elim disjE conjE)
  assume "reaches h1 s e q" "r = None" "h' = h1"
  then show ?thesis using var_occur [OF assms(1-5)] f by simp
next
  assume "\<not> reaches h1 s e q" "r = Some v" "h' = set_value h1 q (Some e)"
  then show ?thesis using var_bind [OF assms(1-5)] same_frame_trans [OF f set_value_frame] by simp
qed

lemma vars_are_run:
  assumes deeper: "\<And>k h e0 e1. k < n \<Longrightarrow> is_run k s h e0 e1" and sf: "simple_frame h s"
    and u: "cuex_subst_unify_aux n None h s e0 e1 = Some (r, h')"
    and vars: "e0 \<noteq> e1" "active h s e0" "active h s e1"
  shows "unify_run s h e0 e1 r h' \<and> same_frame h h' s"
proof -
  obtain q0 h1 where m0: "cuex_subst_mref h s e0 = (q0, h1)" by (cases "cuex_subst_mref h s e0")
  note f0 = mref_frame [OF sf m0]
  have s1: "simple_frame h1 s" using same_frame_simple [OF f0] sf by simp
  obtain q1 h2 where m1: "cuex_subst_mref h1 s e1 = (q1, h2)" by (cases "cuex_subst_mref h1 s e1")
  note f1 = mref_frame [OF s1 m1]
  have s2: "simple_frame h2 s" using same_frame_simple [OF f1] s1 by simp
  note f = same_frame_trans [OF f0 f1]
  have qc: "sf_qcset (subst_at h1 s) = sf_qcset (subst_at h s)" using f0 by (simp add: same_frame_def)
  note u1 = u [unfolded aux_vars [OF vars m0 m1 qc]]
  show ?thesis
  proof (cases "q0 = q1")
    case True
    then show ?thesis using u1 f vars_same [OF vars m0 m1 [folded True]] by auto
  next
    case False
    obtain b hc where c: "cross_occurs n h2 s q0 q1 = Some (b, hc)"
      using u1 False by (cases "cross_occurs n h2 s q0 q1") auto
    have hc: "hc = h2" "b \<longleftrightarrow> crosses h2 s q0 q1" using cross_occurs_sound [OF s2 c] by simp_all
    show ?thesis
    proof (cases b)
      case True
      then show ?thesis using u1 False c hc f vars_occur [OF vars m0 m1 False] by auto
    next
      case nc: False
      then have nx: "\<not> crosses h2 s q0 q1" using hc by simp
      show ?thesis
      proof (cases "value_of h2 q0 = None \<or> value_of h2 q1 = None")
        case True
        then have "r = Some (case either (value_of h2 q0) (value_of h2 q1) of Some x \<Rightarrow> x | None \<Rightarrow> e0)"
          "h' = join_classes h2 s q0 q1 (either (value_of h2 q0) (value_of h2 q1))"
          using u1 False c hc nc
          by (cases "value_of h2 q0"; auto simp: join_result_def either_def)+
        then have "r = either (either (value_of h2 q0) (value_of h2 q1)) (Some e0)"
          by (simp add: either_def split: option.splits)
        then show ?thesis
          using vars_join [OF vars m0 m1 False nx True refl] \<open>h' = _\<close> same_frame_trans [OF f join_frame [OF s2]] by simp
      next
        case False
        then obtain x0 x1 where x: "value_of h2 q0 = Some x0" "value_of h2 q1 = Some x1" by auto
        obtain k where n: "n = Suc k" using u1 \<open>q0 \<noteq> q1\<close> c hc nc x by (cases n) simp_all
        obtain r3 h3 where 3: "cuex_subst_unify_aux k None h2 s x0 x1 = Some (r3, h3)"
          using u1 \<open>q0 \<noteq> q1\<close> c hc nc x n by (cases "cuex_subst_unify_aux k None h2 s x0 x1") auto
        have run: "unify_run s h2 x0 x1 r3 h3" and f3: "same_frame h2 h3 s"
          using is_runD [OF deeper s2 3] n by simp_all
        have s3: "simple_frame h3 s" using same_frame_simple [OF f3] s2 by simp
        note f' = same_frame_trans [OF f f3]
        show ?thesis
        proof (cases r3)
          case None
          then have "r = None" "h' = h3" using u1 \<open>q0 \<noteq> q1\<close> c hc nc x n 3 by simp_all
          then show ?thesis using vars_fail [OF vars m0 m1 \<open>q0 \<noteq> q1\<close> nx x run [unfolded None]] f' by simp
        next
          case (Some y)
          then have "r = Some y" "h' = join_classes h3 s q0 q1 (Some y)"
            using u1 \<open>q0 \<noteq> q1\<close> c hc nc x n 3 by (auto simp: join_result_def)
          then show ?thesis
            using vars_values [OF vars m0 m1 \<open>q0 \<noteq> q1\<close> nx x run [unfolded Some]] same_frame_trans [OF f' join_frame [OF s3]] by simp
        qed
      qed
    qed
  qed
qed

lemma left_is_run:
  assumes deeper: "\<And>k h e0 e1. k < n \<Longrightarrow> is_run k s h e0 e1" and sf: "simple_frame h s"
    and u: "cuex_subst_unify_aux n None h s e0 e1 = Some (r, h')"
    and left: "active h s e0" "\<not> active h s e1"
  shows "unify_run s h e0 e1 r h' \<and> same_frame h h' s"
proof -
  obtain q h1 where m: "cuex_subst_mref h s e0 = (q, h1)" by (cases "cuex_subst_mref h s e0")
  note f = mref_frame [OF sf m]
  have s1: "simple_frame h1 s" using same_frame_simple [OF f] sf by simp
  have qc: "sf_qcset (subst_at h1 s) = sf_qcset (subst_at h s)" using f by (simp add: same_frame_def)
  note u1 = u [unfolded aux_left [OF left m qc]]
  show ?thesis
  proof (cases "value_of h1 q")
    case None
    then have b: "bind_var n h1 s q e0 e1 = Some (r, h')" using u1 by simp
    show ?thesis by (rule bind_run [OF _ left m None f s1 b]) (simp add: sides_def)
  next
    case (Some x)
    obtain k where n: "n = Suc k" using u1 Some by (cases n) simp_all
    obtain r2 h2 where 2: "cuex_subst_unify_aux k None h1 s x e1 = Some (r2, h2)"
      using u1 Some n by (cases "cuex_subst_unify_aux k None h1 s x e1") (auto simp: store_result_def)
    then have "r2 = r" "h' = stored q r h2" using u1 Some n by (auto simp: stored_result)
    then show ?thesis
      using is_runD [OF deeper s1 2] n var_left [OF left m Some] stored_frame [OF same_frame_trans [OF f]] by blast
  qed
qed

lemma right_is_run:
  assumes deeper: "\<And>k h e0 e1. k < n \<Longrightarrow> is_run k s h e0 e1" and sf: "simple_frame h s"
    and u: "cuex_subst_unify_aux n None h s e0 e1 = Some (r, h')"
    and right: "active h s e1" "\<not> active h s e0"
  shows "unify_run s h e0 e1 r h' \<and> same_frame h h' s"
proof -
  obtain q h1 where m: "cuex_subst_mref h s e1 = (q, h1)" by (cases "cuex_subst_mref h s e1")
  note f = mref_frame [OF sf m]
  have s1: "simple_frame h1 s" using same_frame_simple [OF f] sf by simp
  have qc: "sf_qcset (subst_at h1 s) = sf_qcset (subst_at h s)" using f by (simp add: same_frame_def)
  note u1 = u [unfolded aux_right [OF right m qc]]
  show ?thesis
  proof (cases "value_of h1 q")
    case None
    then have b: "bind_var n h1 s q e1 e0 = Some (r, h')" using u1 by simp
    show ?thesis by (rule bind_run [OF _ right m None f s1 b]) (simp add: sides_def)
  next
    case (Some x)
    obtain k where n: "n = Suc k" using u1 Some by (cases n) simp_all
    obtain r2 h2 where 2: "cuex_subst_unify_aux k None h1 s e0 x = Some (r2, h2)"
      using u1 Some n by (cases "cuex_subst_unify_aux k None h1 s e0 x") (auto simp: store_result_def)
    then have "r2 = r" "h' = stored q r h2" using u1 Some n by (auto simp: stored_result)
    then show ?thesis
      using is_runD [OF deeper s1 2] n var_right [OF right m Some] stored_frame [OF same_frame_trans [OF f]] by blast
  qed
qed

lemma code_is_run: "is_run n s h e0 e1"
proof (induction n arbitrary: h e0 e1 rule: less_induct)
  case (less n)
  note deeper = less.IH
  have "\<forall>h e1. is_run n s h e0 e1" for e0
  proof (induction e0 rule: measure_induct_rule [where f = size])
    case (less e0)
    show ?case unfolding is_run_def
    proof (intro allI impI)
      fix h e1 r h'
      assume sf: "simple_frame h s" and u: "cuex_subst_unify_aux n None h s e0 e1 = Some (r, h')"
      consider (same) "e0 = e1"
        | (vars) "e0 \<noteq> e1" "active h s e0" "active h s e1"
        | (left) "active h s e0" "\<not> active h s e1"
        | (right) "active h s e1" "\<not> active h s e0"
        | (opn) m es fs where "\<not> active h s e0" "\<not> active h s e1" "e0 = Opn m es" "e1 = Opn m fs" "es \<noteq> fs"
        | (clash) "\<not> active h s e0" "\<not> active h s e1" "e0 \<noteq> e1" "\<not> (\<exists>m es fs. e0 = Opn m es \<and> e1 = Opn m fs)"
        by blast
      then show "unify_run s h e0 e1 r h' \<and> same_frame h h' s"
      proof cases
        case same
        then show ?thesis using u by (auto simp: aux_same intro: unify_run_operands_run.same)
      next
        case vars
        show ?thesis by (rule vars_are_run [OF deeper sf u vars])
      next
        case left
        show ?thesis by (rule left_is_run [OF deeper sf u left])
      next
        case right
        show ?thesis by (rule right_is_run [OF deeper sf u right])
      next
        case opn
        have "is_run n s h e f" if "e \<in> set es" for e h f using less.IH operand_size [OF that] opn(3) by simp
        note ops = operands_are_run [OF this sf]
        obtain r1 where 1: "unify_operands n None h s es fs = Some (r1, h')" and r: "r = map_option (Opn m) r1"
          using u opn aux_opn [OF opn(5) opn(1,2) [unfolded opn(3,4)]] by auto
        show ?thesis
          using unify_run_operands_run.opn [OF opn(5) opn(1,2) [unfolded opn(3,4)]] ops [OF _ 1] opn(3,4) r by simp
      next
        case clash
        then show ?thesis using u aux_clash [OF clash(3) clash(1,2,4)] unify_run_operands_run.clash by auto
      qed
    qed
  qed
  then show ?case by simp
qed

end
