(* ===== verification/SubstSound.thy ===== *)
theory SubstSound
  imports SubstOps SubstRun
begin

text \<open>
  Unification solves equations: a successful run adds the equation of the two expressions to those of the frame and
  keeps every class that the expressions do not depend on; a failing run means that there is no common solution.
\<close>

section \<open>The canonical solution\<close>

primrec canon :: "subst_heap \<Rightarrow> nat \<Rightarrow> nat \<Rightarrow> cuex \<Rightarrow> cuex" where
  "canon h s 0 v = v"
| "canon h s (Suc k) v =
     (case class_of h s v of
        None \<Rightarrow> v
      | Some q \<Rightarrow> (case value_of h q of None \<Rightarrow> hd (vars_of h q) | Some x \<Rightarrow> instance_of (canon h s k) x))"

lemma instance_cong: "(\<And>v. v \<in> ex_vars e \<Longrightarrow> f v = g v) \<Longrightarrow> instance_of f e = instance_of g e"
proof (induction e)
  case (Opn m es)
  have "instance_of f x = instance_of g x" if "x \<in> set es" for x using Opn that by fastforce
  then show ?case by simp
qed simp

lemma canon_stable:
  assumes "ranked h s r" "\<And>q. class_of h s v = Some q \<Longrightarrow> r q < k" "k \<le> m"
  shows "canon h s m v = canon h s k v"
  using assms(2,3)
proof (induction k arbitrary: v m)
  case 0
  then have "class_of h s v = None" by (cases "class_of h s v") auto
  then show ?case by (cases m) simp_all
next
  case (Suc k)
  then obtain m' where m: "m = Suc m'" by (cases m) auto
  have "instance_of (canon h s m') x = instance_of (canon h s k) x" if q: "class_of h s v = Some q" "value_of h q = Some x" for q x
  proof (rule instance_cong)
    fix u assume u: "u \<in> ex_vars x"
    have "r a < k" if "class_of h s u = Some a" for a
    proof -
      have "(a, q) \<in> dep h s" using q u that by (auto simp: dep_def live_def classes_in_def)
      then have "r a < r q" using assms(1) by (auto simp: ranked_def)
      then show ?thesis using Suc.prems(1) [OF q(1)] by simp
    qed
    then show "canon h s m' u = canon h s k u" using Suc.IH [of u m'] Suc.prems(2) m by simp
  qed
  then show ?case by (simp add: m split: option.split)
qed

lemma canon_fixed:
  assumes wf: "subst_wf h s"
  shows "\<exists>k. \<forall>m \<ge> k. \<forall>v. canon h s m v = canon h s k v"
proof -
  obtain r where r: "ranked h s r" using wf by (auto simp: subst_wf_def)
  obtain k where k: "\<forall>q \<in> {..< length (sh_veqvs h)}. r q < k"
    using finite_nat_set_iff_bounded [of "r ` {..< length (sh_veqvs h)}"] by auto
  have "canon h s m v = canon h s k v" if "k \<le> m" for m v
    by (rule canon_stable [OF r _ that]) (use k okD(2) [OF wf_ok [OF wf]] in auto)
  then show ?thesis by blast
qed

lemma canon_solves:
  assumes wf: "subst_wf h s" and fx: "\<And>v. canon h s (Suc k) v = canon h s k v"
  shows "solves h s {} (canon h s k)"
  unfolding solves_def
proof (intro conjI allI impI)
  fix v assume "\<not> active h s v"
  then have "class_of h s v = None" using okD(1) [OF wf_ok [OF wf]] by (cases "class_of h s v") auto
  then show "canon h s k v = v" by (cases k) simp_all
next
  fix v q w assume "class_of h s v = Some q \<and> q \<notin> {}" "class_of h s w = Some q"
  then show "canon h s k w = canon h s k v" using fx [of v] fx [of w] by simp
next
  fix v q x assume "class_of h s v = Some q \<and> q \<notin> {}" "value_of h q = Some x"
  then show "canon h s k v = instance_of (canon h s k) x" using fx [of v] by simp
qed

lemma solvable: "subst_wf h s \<Longrightarrow> \<exists>\<sigma>. solves h s {} \<sigma>"
  using canon_fixed canon_solves by (metis le_SucI order_refl)

section \<open>Steady changes\<close>

definition steady :: "subst_heap \<Rightarrow> subst_heap \<Rightarrow> nat \<Rightarrow> bool" where
  "steady h h' s \<longleftrightarrow> same_frame h h' s \<and>
     (\<forall>P. bounded h P \<longrightarrow> kept h h' s P \<and> (closed_off h s P \<longrightarrow> closed_off h' s P) \<and> (\<forall>\<sigma>. solves h' s P \<sigma> = solves h s P \<sigma>))"

lemma steady_trans: "steady h h1 s \<Longrightarrow> steady h1 h2 s \<Longrightarrow> steady h h2 s"
  unfolding steady_def using bounded_frame same_frame_trans kept_trans by meson

lemma mref_steady: "subst_wf h s \<Longrightarrow> active h s v \<Longrightarrow> cuex_subst_mref h s v = (q, h') \<Longrightarrow> steady h h' s"
proof -
  assume a: "subst_wf h s" "active h s v" "cuex_subst_mref h s v = (q, h')"
  note m = mref_step [OF a]
  show "steady h h' s" unfolding steady_def using m(2) m(5) m(6) m(7) by simp
qed

lemma steady_solves: "steady h h' s \<Longrightarrow> solves h' s {} \<sigma> = solves h s {} \<sigma>"
  by (simp add: steady_def bounded_def)

lemma steady_active: "steady h h' s \<Longrightarrow> active h' s = active h s"
  by (simp add: steady_def same_frame_active)

section \<open>Effects\<close>

definition effect :: "subst_heap \<Rightarrow> subst_heap \<Rightarrow> nat \<Rightarrow> cuex \<Rightarrow> cuex \<Rightarrow> cuex \<Rightarrow> bool" where
  "effect h h' s e0 e1 y \<longleftrightarrow>
     subst_wf h' s \<and> same_frame h h' s \<and> ex_ok y \<and> (\<not> active h s e0 \<and> \<not> active h s e1 \<longrightarrow> \<not> active h s y) \<and>
     (\<forall>P. bounded h P \<and> closed_off h s P \<and> avoids h s P e0 \<and> avoids h s P e1 \<longrightarrow>
        kept h h' s P \<and> closed_off h' s P \<and> avoids h' s P y \<and>
        (\<forall>\<sigma>. (solves h' s P \<sigma> \<longleftrightarrow> solves h s P \<sigma> \<and> instance_of \<sigma> e0 = instance_of \<sigma> e1) \<and>
             (solves h' s P \<sigma> \<longrightarrow> instance_of \<sigma> y = instance_of \<sigma> e0)))"

lemma effectD:
  assumes "effect h h' s e0 e1 y"
  shows "subst_wf h' s" "same_frame h h' s" "ex_ok y" "\<not> active h s e0 \<Longrightarrow> \<not> active h s e1 \<Longrightarrow> \<not> active h s y"
  using assms by (auto simp: effect_def)

lemma effectP:
  assumes "effect h h' s e0 e1 y" "bounded h P" "closed_off h s P" "avoids h s P e0" "avoids h s P e1"
  shows "kept h h' s P" "closed_off h' s P" "avoids h' s P y"
    "solves h' s P \<sigma> \<longleftrightarrow> solves h s P \<sigma> \<and> instance_of \<sigma> e0 = instance_of \<sigma> e1"
    "solves h' s P \<sigma> \<Longrightarrow> instance_of \<sigma> y = instance_of \<sigma> e0"
  using assms unfolding effect_def by blast+

lemma effectI:
  assumes "subst_wf h' s" "same_frame h h' s" "ex_ok y" "\<not> active h s e0 \<Longrightarrow> \<not> active h s e1 \<Longrightarrow> \<not> active h s y"
    and "\<And>P. bounded h P \<Longrightarrow> closed_off h s P \<Longrightarrow> avoids h s P e0 \<Longrightarrow> avoids h s P e1 \<Longrightarrow>
      kept h h' s P \<and> closed_off h' s P \<and> avoids h' s P y"
    and "\<And>P \<sigma>. bounded h P \<Longrightarrow> closed_off h s P \<Longrightarrow> avoids h s P e0 \<Longrightarrow> avoids h s P e1 \<Longrightarrow>
      solves h' s P \<sigma> \<longleftrightarrow> solves h s P \<sigma> \<and> instance_of \<sigma> e0 = instance_of \<sigma> e1"
    and "\<And>P \<sigma>. bounded h P \<Longrightarrow> closed_off h s P \<Longrightarrow> avoids h s P e0 \<Longrightarrow> avoids h s P e1 \<Longrightarrow>
      solves h' s P \<sigma> \<Longrightarrow> instance_of \<sigma> y = instance_of \<sigma> e0"
  shows "effect h h' s e0 e1 y"
  using assms unfolding effect_def by blast

lemma effect_sym: "effect h h' s e0 e1 y \<Longrightarrow> effect h h' s e1 e0 y"
  unfolding effect_def by metis

lemma effect_steady:
  assumes st: "steady h h1 s" and e: "effect h1 h' s e0 e1 y"
  shows "effect h h' s e0 e1 y"
proof (rule effectI)
  have f: "same_frame h h1 s" using st by (simp add: steady_def)
  show "subst_wf h' s" "ex_ok y" using effectD [OF e] by simp_all
  show "same_frame h h' s" by (rule same_frame_trans [OF f effectD(2) [OF e]])
  show "\<not> active h s e0 \<Longrightarrow> \<not> active h s e1 \<Longrightarrow> \<not> active h s y" using effectD(4) [OF e] steady_active [OF st] by simp
  fix P assume P: "bounded h P" "closed_off h s P" "avoids h s P e0" "avoids h s P e1"
  have k: "kept h h1 s P" and c: "closed_off h1 s P" and so: "\<And>\<sigma>. solves h1 s P \<sigma> = solves h s P \<sigma>"
    using st P(1,2) by (auto simp: steady_def)
  note p = effectP [OF e bounded_frame [OF f P(1)] c kept_avoids [OF k, THEN iffD2, OF P(3)] kept_avoids [OF k, THEN iffD2, OF P(4)]]
  show "kept h h' s P \<and> closed_off h' s P \<and> avoids h' s P y" using p(1-3) kept_trans [OF k] by blast
  show "solves h' s P \<sigma> \<longleftrightarrow> solves h s P \<sigma> \<and> instance_of \<sigma> e0 = instance_of \<sigma> e1" for \<sigma> using p(4) so by simp
  show "solves h' s P \<sigma> \<Longrightarrow> instance_of \<sigma> y = instance_of \<sigma> e0" for \<sigma> by (rule p(5))
qed

lemma same_effect: "subst_wf h s \<Longrightarrow> ex_ok e \<Longrightarrow> effect h h s e e e"
  by (simp add: effect_def)

lemma same_class_effect:
  assumes wf: "subst_wf h s" and e: "ex_ok e0" "ex_ok e1" and c: "class_of h s e0 = Some q" "class_of h s e1 = Some q"
  shows "effect h h s e0 e1 e0"
proof (rule effectI)
  note act = okD(1) [OF wf_ok [OF wf] c(1)] okD(1) [OF wf_ok [OF wf] c(2)]
  fix P \<sigma> assume P: "avoids h s P e0" "avoids h s P e1"
  then have "q \<notin> P" using avoids_var [OF P(1) c(1) var_self [OF act(1) e(1)]] by simp
  then show "solves h s P \<sigma> \<longleftrightarrow> solves h s P \<sigma> \<and> instance_of \<sigma> e0 = instance_of \<sigma> e1"
    using solvesD(2) [of h s P \<sigma> e1 q e0] c instance_var [OF act(1) e(1)] instance_var [OF act(2) e(2)] by auto
qed (use wf e in auto)

section \<open>Binding a variable\<close>

lemma class_eqs_at:
  assumes "class_of h s v = Some q"
  shows "class_eqs h s q \<sigma> \<longleftrightarrow> (\<forall>w. class_of h s w = Some q \<longrightarrow> \<sigma> w = \<sigma> v) \<and> (\<forall>x. value_of h q = Some x \<longrightarrow> \<sigma> v = instance_of \<sigma> x)"
proof -
  have "\<sigma> u = \<sigma> v" if "\<forall>w. class_of h s w = Some q \<longrightarrow> \<sigma> w = \<sigma> v" "class_of h s u = Some q" for u using that by blast
  then show ?thesis using assms unfolding class_eqs_def by (metis (no_types))
qed

lemma bind_effect:
  assumes wf: "subst_wf h s" and v: "class_of h s v = Some q" "value_of h q = None" "ex_ok v"
    and e: "ex_ok e" "\<not> active h s e" "\<not> reaches h s e q"
  shows "effect h (set_value h q (Some e)) s v e v"
proof (rule effectI)
  note m = set_value_merges [OF wf v(1) e] and act = okD(1) [OF wf_ok [OF wf] v(1)]
  show "subst_wf (set_value h q (Some e)) s" by (rule merges_wf [OF wf m])
  show "\<not> active h s v" if "\<not> active h s v" using that .
  fix P assume P: "closed_off h s P" "avoids h s P v" "avoids h s P e"
  have q: "q \<notin> P" by (rule avoids_var [OF P(2) v(1) var_self [OF act v(3)]])
  have k: "kept h (set_value h q (Some e)) s P" by (rule kept_mono [OF merges_kept [OF m]]) (use q in auto)
  have "closed_off (set_value h q (Some e)) s P" by (rule merges_closed [OF m P(1)]) (use q P in auto)
  then show "kept h (set_value h q (Some e)) s P \<and> closed_off (set_value h q (Some e)) s P \<and> avoids (set_value h q (Some e)) s P v"
    using k kept_avoids [OF k] P(2) by simp
  show so: "solves (set_value h q (Some e)) s P \<sigma> \<longleftrightarrow> solves h s P \<sigma> \<and> instance_of \<sigma> v = instance_of \<sigma> e" for \<sigma>
    using merges_solves [OF m _ v(1), of P \<sigma>] q solves_insert [OF q, of h s \<sigma>] class_eqs_at [OF v(1), of \<sigma>] v(2)
      instance_var [OF act v(3), of \<sigma>] by auto
qed (use v in simp_all)

lemma value_kept:
  assumes wf: "subst_wf h s" and v: "class_of h s v = Some q" "value_of h q = Some x"
    and e: "ex_ok e" "\<not> active h s e" "\<not> reaches h s e q" and ef: "effect h h2 s x e y"
  shows "class_of h2 s v = Some q" "value_of h2 q = Some x" "merges h2 (set_value h2 q (Some y)) s {q} q (Some y)"
    "bounded h (above h s {q})" "closed_off h s (above h s {q})" "avoids h s (above h s {q}) x" "avoids h s (above h s {q}) e"
proof -
  define U where "U = above h s {q}"
  note ok = wf_ok [OF wf]
  have act: "\<not> active h s x" using okD(6) [OF ok v] .
  have lq: "live h s q" using v(1) by (auto simp: live_def)
  have U: "bounded h U" "closed_off h s U" "avoids h s U x" "avoids h s U e" "q \<in> U"
    using bounded_above [OF ok, of "{q}"] closed_off_above above_self [of q "{q}"] lq value_not_reaches [OF wf lq v(2)] e(3)
    by (auto simp: U_def avoids_above)
  then show "bounded h (above h s {q})" "closed_off h s (above h s {q})" "avoids h s (above h s {q}) x" "avoids h s (above h s {q}) e"
    by (simp_all add: U_def)
  note ep = effectP [OF ef] and ed = effectD [OF ef]
  show v2: "class_of h2 s v = Some q" using kept_class [OF ep(1) [OF U(1-4)] U(5)] v(1) by simp
  show "value_of h2 q = Some x" using kept_value [OF ep(1) [OF U(1-4)] v(1) U(5)] v(2) by simp
  have ny: "\<not> reaches h2 s y q" using avoids_not_reaches [OF ep(2) [OF U(1-4)] ep(3) [OF U(1-4)] U(5)] .
  have a2: "active h2 s = active h s" by (rule same_frame_active [OF ed(2)])
  show "merges h2 (set_value h2 q (Some y)) s {q} q (Some y)"
    by (rule set_value_merges [OF ed(1) v2 ed(3) _ ny, unfolded a2, OF ed(4) [OF act e(2)]])
qed

lemma value_effect:
  assumes wf: "subst_wf h s" and v: "class_of h s v = Some q" "value_of h q = Some x" "ex_ok v"
    and e: "ex_ok e" "\<not> active h s e" "\<not> reaches h s e q" and ef: "effect h h2 s x e y"
  shows "effect h (set_value h2 q (Some y)) s v e y"
proof -
  define U where "U = above h s {q}"
  define h' where "h' = set_value h2 q (Some y)"
  note kept = value_kept [OF wf v(1,2) e ef]
  note v2 = kept(1) and q2 = kept(2) and m = kept(3) [folded h'_def] and U = kept(4-7) [folded U_def]
  have qU: "q \<in> U" by (simp add: U_def above_self)
  have act: "active h s v" "\<not> active h s x" using okD(1,6) [OF wf_ok [OF wf] v(1)] v(2) by auto
  note ep = effectP [OF ef] and ed = effectD [OF ef]
  have P: "q \<notin> P" "avoids h s P x" if "closed_off h s P" "avoids h s P v" for P
    using avoids_var [OF that(2) v(1) var_self [OF act(1) v(3)]] closed_value [OF that(1) v(1) _ v(2)] by auto
  have so: "solves h' s P \<sigma> \<longleftrightarrow> solves h2 s P \<sigma>"
    if p: "bounded h P" "closed_off h s P" "avoids h s P v" "avoids h s P e" for P \<sigma>
  proof -
    note p' = P [OF p(2,3)]
    have "solves h2 s (P \<union> U) \<sigma> \<Longrightarrow> instance_of \<sigma> y = instance_of \<sigma> x"
      using ep(5) [of "P \<union> U" \<sigma>] p p' U closed_off_Un [of h s P U] by simp
    then have "solves h2 s (insert q P) \<sigma> \<Longrightarrow> instance_of \<sigma> y = instance_of \<sigma> x"
      using solves_mono [of h2 s "insert q P" \<sigma> "P \<union> U"] qU by auto
    then show ?thesis
      using merges_solves [OF m _ v2, of P \<sigma>] p'(1) solves_insert [OF p'(1), of h2 s \<sigma>] class_eqs_at [OF v2, of \<sigma>] q2 by auto
  qed
  have "effect h h' s v e y"
  proof (rule effectI)
    show "subst_wf h' s" by (rule merges_wf [OF ed(1) m])
    show "same_frame h h' s" using same_frame_trans [OF ed(2) set_value_frame] by (simp add: h'_def)
    show "ex_ok y" by (rule ed(3))
    show "\<not> active h s v \<Longrightarrow> \<not> active h s y" using act by simp
    fix P assume p: "bounded h P" "closed_off h s P" "avoids h s P v" "avoids h s P e"
    note p' = P [OF p(2,3)]
    have k2: "kept h2 h' s P" by (rule kept_mono [OF merges_kept [OF m]]) (use p' in auto)
    note epP = ep [OF p(1,2) p'(2) p(4)]
    have "closed_off h' s P" by (rule merges_closed [OF m epP(2)]) (use p' epP(3) in auto)
    then show "kept h h' s P \<and> closed_off h' s P \<and> avoids h' s P y"
      using kept_trans [OF epP(1) k2] kept_avoids [OF k2] epP(3) by simp
    have xv: "solves h s P \<sigma> \<Longrightarrow> instance_of \<sigma> x = instance_of \<sigma> v" for \<sigma>
      using solvesD(3) [of h s P \<sigma> v q x] v(1,2) p'(1) instance_var [OF act(1) v(3)] by simp
    show s1: "solves h' s P \<sigma> \<longleftrightarrow> solves h s P \<sigma> \<and> instance_of \<sigma> v = instance_of \<sigma> e" for \<sigma>
      using so [OF p] epP(4) xv by auto
    show "solves h' s P \<sigma> \<Longrightarrow> instance_of \<sigma> y = instance_of \<sigma> v" for \<sigma>
      using so [OF p] epP(5) s1 xv by auto
  qed
  then show ?thesis by (simp add: h'_def)
qed

section \<open>Joining classes\<close>

lemma either_some: "either x y = Some z \<Longrightarrow> x = Some z \<or> y = Some z"
  by (auto simp: either_def split: option.splits)

lemma either_simps [simp]: "either (Some x) y = Some x" "either None y = y"
  by (simp_all add: either_def)

text \<open>
  The conditions under which the two classes of two variables are joined with the value \<open>y\<close>, which under the
  equations of the classes below them equals each of their values.
\<close>

lemma join_effect_on:
  assumes wf: "subst_wf h s" and e: "ex_ok e0" "ex_ok e1" and c: "class_of h s e0 = Some q0" "class_of h s e1 = Some q1"
    and m: "merges h h' s {q0, q1} q1 y" and z: "either y (Some e0) = Some z"
    and P: "closed_off h s P" "avoids h s P e0" "avoids h s P e1" "\<And>x. y = Some x \<Longrightarrow> avoids h s P x"
    and y: "\<And>x. y = Some x \<Longrightarrow> value_of h q0 \<noteq> None \<or> value_of h q1 \<noteq> None"
    and x: "\<And>x q \<sigma>. q \<in> {q0, q1} \<Longrightarrow> value_of h q = Some x \<Longrightarrow>
      \<exists>x'. y = Some x' \<and> (solves h s ({q0, q1} \<union> P) \<sigma> \<longrightarrow> instance_of \<sigma> x' = instance_of \<sigma> x)"
  shows "kept h h' s P \<and> closed_off h' s P \<and> avoids h' s P z"
    "solves h' s P \<sigma> \<longleftrightarrow> solves h s P \<sigma> \<and> instance_of \<sigma> e0 = instance_of \<sigma> e1"
    "solves h' s P \<sigma> \<Longrightarrow> instance_of \<sigma> z = instance_of \<sigma> e0"
proof -
  note act = okD(1) [OF wf_ok [OF wf] c(1)] okD(1) [OF wf_ok [OF wf] c(2)]
  have q: "q0 \<notin> P" "q1 \<notin> P"
    using avoids_var [OF P(2) c(1) var_self [OF act(1) e(1)]] avoids_var [OF P(3) c(2) var_self [OF act(2) e(2)]] by simp_all
  have k: "kept h h' s P" by (rule kept_mono [OF merges_kept [OF m]]) (use q in auto)
  have "closed_off h' s P" by (rule merges_closed [OF m P(1)]) (use q P(4) in auto)
  moreover have "avoids h s P z" using z P(2,4) by (auto simp: either_def split: option.splits)
  ultimately show "kept h h' s P \<and> closed_off h' s P \<and> avoids h' s P z" using k kept_avoids [OF k] by simp
  have qs: "q0 \<in> {q0, q1}" "q1 \<in> {q0, q1}" by simp_all
  note js = join_solves [OF m c q y x [OF qs(1)] x [OF qs(2)]]
  show "solves h' s P \<sigma> \<longleftrightarrow> solves h s P \<sigma> \<and> instance_of \<sigma> e0 = instance_of \<sigma> e1"
    using js(1) instance_var [OF act(1) e(1)] instance_var [OF act(2) e(2)] by simp
  show "solves h' s P \<sigma> \<Longrightarrow> instance_of \<sigma> z = instance_of \<sigma> e0"
    using js(2) z instance_var [OF act(1) e(1)] by (cases y) auto
qed

lemma join_kept:
  assumes wf: "subst_wf h s" and c: "class_of h s e0 = Some q0" "class_of h s e1 = Some q1"
    and nx: "\<not> crosses h s q0 q1" and y: "y = either (value_of h q0) (value_of h q1)"
  shows "merges h (join_classes h s q0 q1 y) s {q0, q1} q1 y"
proof (rule join_merges [OF wf c])
  note ok = wf_ok [OF wf]
  have live: "live h s q0" "live h s q1" using c by (auto simp: live_def)
  fix x assume "y = Some x"
  then have "value_of h q0 = Some x \<or> value_of h q1 = Some x" using either_some y by metis
  then show "ex_ok x \<and> \<not> active h s x \<and> \<not> reaches h s x q0 \<and> \<not> reaches h s x q1"
    using okD(5,6) [OF ok c(1)] okD(5,6) [OF ok c(2)] value_not_reaches [OF wf live(1)] value_not_reaches [OF wf live(2)]
      nx by (auto simp: crosses_def)
qed

lemma join_effect:
  assumes wf: "subst_wf h s" and e: "ex_ok e0" "ex_ok e1" and c: "class_of h s e0 = Some q0" "class_of h s e1 = Some q1"
    and x: "\<not> crosses h s q0 q1" "value_of h q0 = None \<or> value_of h q1 = None"
    and y: "y = either (value_of h q0) (value_of h q1)" and z: "either y (Some e0) = Some z"
  shows "effect h (join_classes h s q0 q1 y) s e0 e1 z"
proof (rule effectI)
  note ok = wf_ok [OF wf]
  note act = okD(1) [OF ok c(1)] okD(1) [OF ok c(2)]
  have vy: "value_of h q0 = Some x \<or> value_of h q1 = Some x" if "y = Some x" for x using either_some y that by metis
  note m = join_kept [OF wf c x(1) y]
  show "subst_wf (join_classes h s q0 q1 y) s" by (rule merges_wf [OF wf m])
  show "same_frame h (join_classes h s q0 q1 y) s" by (rule join_frame [OF ok_simple [OF ok]])
  show "ex_ok z" using z vy okD(5) [OF ok c(1)] okD(5) [OF ok c(2)] e by (cases y) auto
  show "\<not> active h s e0 \<Longrightarrow> \<not> active h s z" using act by simp
  fix P assume P: "closed_off h s P" "avoids h s P e0" "avoids h s P e1"
  have q: "q0 \<notin> P" "q1 \<notin> P"
    using avoids_var [OF P(2) c(1) var_self [OF act(1) e(1)]] avoids_var [OF P(3) c(2) var_self [OF act(2) e(2)]] by simp_all
  have yP: "avoids h s P x" if "y = Some x" for x
    using vy [OF that] closed_value [OF P(1) c(1) q(1)] closed_value [OF P(1) c(2) q(2)] by blast
  have yv: "y = Some x" if "q \<in> {q0, q1}" "value_of h q = Some x" for q x
    using that x(2) by (auto simp: y either_def)
  show "kept h (join_classes h s q0 q1 y) s P \<and> closed_off (join_classes h s q0 q1 y) s P \<and> avoids (join_classes h s q0 q1 y) s P z"
    by (rule join_effect_on(1) [OF wf e c m z P yP]) (use vy yv in auto)
  show "solves (join_classes h s q0 q1 y) s P \<sigma> \<longleftrightarrow> solves h s P \<sigma> \<and> instance_of \<sigma> e0 = instance_of \<sigma> e1" for \<sigma>
    by (rule join_effect_on(2) [OF wf e c m z P yP]) (use vy yv in auto)
  show "solves (join_classes h s q0 q1 y) s P \<sigma> \<Longrightarrow> instance_of \<sigma> z = instance_of \<sigma> e0" for \<sigma>
    by (rule join_effect_on(3) [OF wf e c m z P yP]) (use vy yv in auto)
qed

lemma values_kept:
  assumes wf: "subst_wf h s" and c: "class_of h s e0 = Some q0" "class_of h s e1 = Some q1"
    and nx: "\<not> crosses h s q0 q1" and x: "value_of h q0 = Some x0" "value_of h q1 = Some x1"
    and ef: "effect h h3 s x0 x1 z"
  shows "class_of h3 s e0 = Some q0" "class_of h3 s e1 = Some q1" "value_of h3 q0 = Some x0" "value_of h3 q1 = Some x1"
    "merges h3 (join_classes h3 s q0 q1 (Some z)) s {q0, q1} q1 (Some z)"
    "bounded h (above h s {q0, q1})" "closed_off h s (above h s {q0, q1})"
    "avoids h s (above h s {q0, q1}) x0" "avoids h s (above h s {q0, q1}) x1"
proof -
  define U where "U = above h s {q0, q1}"
  note ok = wf_ok [OF wf]
  have live: "live h s q0" "live h s q1" using c by (auto simp: live_def)
  have nact: "\<not> active h s x0" "\<not> active h s x1" using okD(6) [OF ok c(1) x(1)] okD(6) [OF ok c(2) x(2)] by simp_all
  have U: "bounded h U" "closed_off h s U" "avoids h s U x0" "avoids h s U x1" "q0 \<in> U" "q1 \<in> U"
    using bounded_above [OF ok, of "{q0, q1}"] closed_off_above above_self [of _ "{q0, q1}"] live
      value_not_reaches [OF wf live(1) x(1)] value_not_reaches [OF wf live(2) x(2)] nx x
    by (auto simp: U_def avoids_above crosses_def)
  then show "bounded h (above h s {q0, q1})" "closed_off h s (above h s {q0, q1})"
    "avoids h s (above h s {q0, q1}) x0" "avoids h s (above h s {q0, q1}) x1"
    by (simp_all add: U_def)
  note ep = effectP [OF ef] and ed = effectD [OF ef]
  note kU = ep(1) [OF U(1-4)]
  show c3: "class_of h3 s e0 = Some q0" "class_of h3 s e1 = Some q1"
    using kept_class [OF kU] U(5,6) c by simp_all
  show "value_of h3 q0 = Some x0" "value_of h3 q1 = Some x1"
    using kept_value [OF kU c(1) U(5)] kept_value [OF kU c(2) U(6)] x by simp_all
  have nr: "\<not> reaches h3 s z q" if "q \<in> U" for q
    by (rule avoids_not_reaches [OF ep(2) [OF U(1-4)] ep(3) [OF U(1-4)] that])
  have a3: "active h3 s = active h s" by (rule same_frame_active [OF ed(2)])
  show "merges h3 (join_classes h3 s q0 q1 (Some z)) s {q0, q1} q1 (Some z)"
    by (rule join_merges [OF ed(1) c3]) (use ed(3) ed(4) [OF nact] nr U(5,6) a3 in auto)
qed

lemma values_effect:
  assumes wf: "subst_wf h s" and e: "ex_ok e0" "ex_ok e1" and c: "class_of h s e0 = Some q0" "class_of h s e1 = Some q1"
    and nx: "\<not> crosses h s q0 q1" and x: "value_of h q0 = Some x0" "value_of h q1 = Some x1"
    and ef: "effect h h3 s x0 x1 z"
  shows "effect h (join_classes h3 s q0 q1 (Some z)) s e0 e1 z"
proof -
  define U where "U = above h s {q0, q1}"
  define h' where "h' = join_classes h3 s q0 q1 (Some z)"
  note kept = values_kept [OF wf c nx x ef]
  note c3 = kept(1,2) and x3 = kept(3,4) and m = kept(5) [folded h'_def] and U = kept(6-9) [folded U_def]
  have qU: "q0 \<in> U" "q1 \<in> U" by (simp_all add: U_def above_self)
  note act = okD(1) [OF wf_ok [OF wf] c(1)] okD(1) [OF wf_ok [OF wf] c(2)]
  note ep = effectP [OF ef] and ed = effectD [OF ef]
  have "effect h h' s e0 e1 z"
  proof (rule effectI)
    show "subst_wf h' s" by (rule merges_wf [OF ed(1) m])
    show "same_frame h h' s" unfolding h'_def
      by (rule same_frame_trans [OF ed(2) join_frame [OF ok_simple [OF wf_ok [OF ed(1)]]]])
    show "ex_ok z" by (rule ed(3))
    show "\<not> active h s e0 \<Longrightarrow> \<not> active h s z" using act by simp
    fix P assume P: "bounded h P" "closed_off h s P" "avoids h s P e0" "avoids h s P e1"
    have q: "q0 \<notin> P" "q1 \<notin> P"
      using avoids_var [OF P(3) c(1) var_self [OF act(1) e(1)]] avoids_var [OF P(4) c(2) var_self [OF act(2) e(2)]] by simp_all
    have xP: "avoids h s P x0" "avoids h s P x1"
      using closed_value [OF P(2) c(1) q(1) x(1)] closed_value [OF P(2) c(2) q(2) x(2)] by simp_all
    note epP = ep [OF P(1,2) xP]
    have PU: "instance_of \<sigma> z = instance_of \<sigma> x0" "instance_of \<sigma> z = instance_of \<sigma> x1"
      if "solves h3 s ({q0, q1} \<union> P) \<sigma>" for \<sigma>
    proof -
      have "solves h3 s (P \<union> U) \<sigma>" by (rule solves_mono [OF that]) (use qU in auto)
      then show "instance_of \<sigma> z = instance_of \<sigma> x0" "instance_of \<sigma> z = instance_of \<sigma> x1"
        using ep(4,5) [of "P \<union> U" \<sigma>] P(1,2) U xP closed_off_Un [OF P(2) U(2)] by auto
    qed
    have ex: "\<exists>x'. Some z = Some x' \<and> (solves h3 s ({q0, q1} \<union> P) \<sigma> \<longrightarrow> instance_of \<sigma> x' = instance_of \<sigma> x)"
      if "q \<in> {q0, q1}" "value_of h3 q = Some x" for x q \<sigma>
      using that x3 PU [of \<sigma>] by auto
    have eP: "avoids h3 s P e0" "avoids h3 s P e1" using kept_avoids [OF epP(1)] P(3,4) by simp_all
    have zP: "avoids h3 s P x" if "Some z = Some x" for x using epP(3) that by simp
    have nv: "value_of h3 q0 \<noteq> None \<or> value_of h3 q1 \<noteq> None" using x3 by simp
    have on1: "kept h3 h' s P \<and> closed_off h' s P \<and> avoids h' s P z"
      by (rule join_effect_on(1) [OF ed(1) e c3 m either_simps(1) epP(2) eP])
        (fact zP, rule nv, rule ex, assumption+)
    have on2: "solves h' s P \<sigma> \<longleftrightarrow> solves h3 s P \<sigma> \<and> instance_of \<sigma> e0 = instance_of \<sigma> e1" for \<sigma>
      by (rule join_effect_on(2) [OF ed(1) e c3 m either_simps(1) epP(2) eP])
        (fact zP, rule nv, rule ex, assumption+)
    show "kept h h' s P \<and> closed_off h' s P \<and> avoids h' s P z"
      using on1 kept_trans [OF epP(1)] by blast
    have sx: "solves h s P \<sigma> \<Longrightarrow> instance_of \<sigma> e0 = instance_of \<sigma> x0" "solves h s P \<sigma> \<Longrightarrow> instance_of \<sigma> e1 = instance_of \<sigma> x1" for \<sigma>
      using solvesD(3) [of h s P \<sigma> e0 q0 x0] solvesD(3) [of h s P \<sigma> e1 q1 x1] c x q
        instance_var [OF act(1) e(1)] instance_var [OF act(2) e(2)] by simp_all
    show "solves h' s P \<sigma> \<longleftrightarrow> solves h s P \<sigma> \<and> instance_of \<sigma> e0 = instance_of \<sigma> e1" for \<sigma>
      unfolding on2 epP(4) using sx [of \<sigma>] by (cases "solves h s P \<sigma>") simp_all
    show "instance_of \<sigma> z = instance_of \<sigma> e0" if "solves h' s P \<sigma>" for \<sigma>
      by (rule join_effect_on(3) [OF ed(1) e c3 m either_simps(1) epP(2) eP _ _ _ that])
        (fact zP, rule nv, rule ex, assumption+)
  qed
  then show ?thesis by (simp add: h'_def)
qed

lemma crosses_no_solution:
  assumes wf: "subst_wf h s" and c: "class_of h s e0 = Some q0" "class_of h s e1 = Some q1" and x: "crosses h s q0 q1"
    and so: "solves h s {} \<sigma>"
  shows "\<sigma> e0 \<noteq> \<sigma> e1"
proof -
  note ok = wf_ok [OF wf]
  consider y where "value_of h q0 = Some y" "reaches h s y q1" | y where "value_of h q1 = Some y" "reaches h s y q0"
    using x by (auto simp: crosses_def)
  then show ?thesis
  proof cases
    case 1
    then show ?thesis using reaches_no_solution [OF ok so 1(2) c(2) okD(6) [OF ok c(1) 1(1)]] solvesD(3) [OF so c(1) _ 1(1)] by simp
  next
    case 2
    then show ?thesis using reaches_no_solution [OF ok so 2(2) c(1) okD(6) [OF ok c(2) 2(1)]] solvesD(3) [OF so c(2) _ 2(1)] by simp
  qed
qed

end
