(* ===== verification/SubstUnify.thy ===== *)
theory SubstUnify
  imports SubstSound
begin

text \<open>The runs of unification, whole.\<close>

definition effects :: "subst_heap \<Rightarrow> subst_heap \<Rightarrow> nat \<Rightarrow> cuex list \<Rightarrow> cuex list \<Rightarrow> cuex list \<Rightarrow> bool" where
  "effects h h' s es fs ys \<longleftrightarrow>
     subst_wf h' s \<and> same_frame h h' s \<and> length ys = length es \<and> (\<forall>y \<in> set ys. ex_ok y) \<and>
     (\<forall>P. bounded h P \<and> closed_off h s P \<and> (\<forall>e \<in> set es. avoids h s P e) \<and> (\<forall>e \<in> set fs. avoids h s P e) \<longrightarrow>
        kept h h' s P \<and> closed_off h' s P \<and> (\<forall>y \<in> set ys. avoids h' s P y) \<and>
        (\<forall>\<sigma>. (solves h' s P \<sigma> \<longleftrightarrow> solves h s P \<sigma> \<and> map (instance_of \<sigma>) es = map (instance_of \<sigma>) fs) \<and>
             (solves h' s P \<sigma> \<longrightarrow> map (instance_of \<sigma>) ys = map (instance_of \<sigma>) es)))"

definition outcome :: "subst_heap \<Rightarrow> nat \<Rightarrow> cuex \<Rightarrow> cuex \<Rightarrow> cuex option \<Rightarrow> subst_heap \<Rightarrow> bool" where
  "outcome h s e0 e1 r h' \<longleftrightarrow>
     (case r of Some y \<Rightarrow> effect h h' s e0 e1 y | None \<Rightarrow> \<forall>\<sigma>. solves h s {} \<sigma> \<longrightarrow> instance_of \<sigma> e0 \<noteq> instance_of \<sigma> e1)"

definition outcomes :: "subst_heap \<Rightarrow> nat \<Rightarrow> cuex list \<Rightarrow> cuex list \<Rightarrow> cuex list option \<Rightarrow> subst_heap \<Rightarrow> bool" where
  "outcomes h s es fs r h' \<longleftrightarrow>
     (case r of Some ys \<Rightarrow> effects h h' s es fs ys
      | None \<Rightarrow> \<forall>\<sigma>. solves h s {} \<sigma> \<longrightarrow> map (instance_of \<sigma>) es \<noteq> map (instance_of \<sigma>) fs)"

lemma outcome_simps [simp]:
  "outcome h s e0 e1 (Some y) h' = effect h h' s e0 e1 y"
  "outcome h s e0 e1 None h' = (\<forall>\<sigma>. solves h s {} \<sigma> \<longrightarrow> instance_of \<sigma> e0 \<noteq> instance_of \<sigma> e1)"
  "outcomes h s es fs (Some ys) h' = effects h h' s es fs ys"
  "outcomes h s es fs None h' = (\<forall>\<sigma>. solves h s {} \<sigma> \<longrightarrow> map (instance_of \<sigma>) es \<noteq> map (instance_of \<sigma>) fs)"
  by (simp_all add: outcome_def outcomes_def)

lemma outcome_steady: "steady h h1 s \<Longrightarrow> outcome h1 s e0 e1 r h' \<Longrightarrow> outcome h s e0 e1 r h'"
  by (cases r) (auto simp: steady_solves intro: effect_steady)

lemma outcome_sym: "outcome h s e0 e1 r h' \<Longrightarrow> outcome h s e1 e0 r h'"
  by (cases r) (auto intro: effect_sym dest: sym)

lemma effect_all:
  assumes "effect h h' s e0 e1 y"
  shows "solves h' s {} \<sigma> \<longleftrightarrow> solves h s {} \<sigma> \<and> instance_of \<sigma> e0 = instance_of \<sigma> e1"
    "solves h' s {} \<sigma> \<Longrightarrow> instance_of \<sigma> y = instance_of \<sigma> e0"
  using effectP(4,5) [OF assms, of "{}"] by (simp_all add: bounded_def closed_off_def avoids_def)

section \<open>Variables\<close>

text \<open>Two variables that are looked up for writing have their classes in a frame with the same solutions.\<close>

lemma two_classes:
  assumes wf: "subst_wf h s" and a: "active h s e0" "active h s e1"
    and m: "cuex_subst_mref h s e0 = (q0, h1)" "cuex_subst_mref h1 s e1 = (q1, h2)"
  shows "subst_wf h2 s" "steady h h2 s" "class_of h2 s e0 = Some q0" "class_of h2 s e1 = Some q1"
proof -
  note 1 = mref_step [OF wf a(1) m(1)]
  have "active h1 s = active h s" by (rule same_frame_active [OF 1(2)])
  then have a1: "active h1 s e1" using a(2) by simp
  note 2 = mref_step [OF 1(1) a1 m(2)]
  show "subst_wf h2 s" by (rule 2(1))
  show "steady h h2 s" by (rule steady_trans [OF mref_steady [OF wf a(1) m(1)] mref_steady [OF 1(1) a1 m(2)]])
  show "class_of h2 s e0 = Some q0" by (rule 2(4) [OF 1(3)])
  show "class_of h2 s e1 = Some q1" by (rule 2(3))
qed

lemma one_class:
  assumes wf: "subst_wf h s" and a: "active h s v" "\<not> active h s e" and m: "cuex_subst_mref h s v = (q, h1)"
  shows "subst_wf h1 s" "steady h h1 s" "class_of h1 s v = Some q" "active h1 s v" "\<not> active h1 s e"
proof -
  note 1 = mref_step [OF wf a(1) m]
  show "subst_wf h1 s" "class_of h1 s v = Some q" by (rule 1)+
  show "steady h h1 s" by (rule mref_steady [OF wf a(1) m])
  show "active h1 s v" "\<not> active h1 s e" using same_frame_active [OF 1(2)] a by simp_all
qed

lemma occur_outcome:
  assumes wf: "subst_wf h s" and v: "class_of h s v = Some q" "ex_ok v" and e: "\<not> active h s e" "reaches h s e q"
  shows "outcome h s v e None h'"
  using reaches_no_solution [OF wf_ok [OF wf] _ e(2) v(1) e(1)] instance_var [OF okD(1) [OF wf_ok [OF wf] v(1)] v(2)] by simp

lemma value_outcome:
  assumes wf: "subst_wf h s" and v: "class_of h s v = Some q" "value_of h q = Some x" "ex_ok v"
    and e: "ex_ok e" "\<not> active h s e" and o: "outcome h s x e r h2"
  shows "outcome h s v e r (stored q r h2)"
proof -
  have vx: "instance_of \<sigma> v = instance_of \<sigma> x" if "solves h s {} \<sigma>" for \<sigma>
    using solvesD(3) [OF that v(1) _ v(2)] instance_var [OF okD(1) [OF wf_ok [OF wf] v(1)] v(3)] by simp
  show ?thesis
  proof (cases r)
    case None
    then show ?thesis using o vx by simp
  next
    case (Some y)
    then have ef: "effect h h2 s x e y" using o by simp
    obtain \<sigma> where \<sigma>: "solves h2 s {} \<sigma>" using solvable [OF effectD(1) [OF ef]] by blast
    then have so: "solves h s {} \<sigma>" and "instance_of \<sigma> x = instance_of \<sigma> e" using effect_all(1) [OF ef] by auto
    then have "\<sigma> v = instance_of \<sigma> e" using solvesD(3) [OF so v(1) _ v(2)] by simp
    then have "\<not> reaches h s e q" using reaches_no_solution [OF wf_ok [OF wf] so _ v(1) e(2)] by blast
    then show ?thesis using value_effect [OF wf v e _ ef] Some by simp
  qed
qed

section \<open>Operands\<close>

lemma cons_effects:
  assumes e: "effect h h1 s e f y" and es: "effects h1 h2 s es fs ys"
  shows "effects h h2 s (e # es) (f # fs) (y # ys)"
  unfolding effects_def
proof (intro conjI allI impI; (elim conjE)?)
  note ed = effectD [OF e]
  show "subst_wf h2 s" using es by (simp add: effects_def)
  show "same_frame h h2 s" using es same_frame_trans [OF ed(2)] by (simp add: effects_def)
  show "length (y # ys) = length (e # es)" using es by (simp add: effects_def)
  show "\<forall>y \<in> set (y # ys). ex_ok y" using es ed(3) by (simp add: effects_def)
  fix P assume P: "bounded h P" "closed_off h s P" "\<forall>e \<in> set (e # es). avoids h s P e" "\<forall>e \<in> set (f # fs). avoids h s P e"
  have av: "avoids h s P e" "avoids h s P f" using P(3,4) by simp_all
  note ep = effectP [OF e P(1,2) av]
  have "\<forall>e \<in> set es. avoids h1 s P e" "\<forall>e \<in> set fs. avoids h1 s P e" using P(3,4) kept_avoids [OF ep(1)] by simp_all
  then have p: "kept h1 h2 s P" "closed_off h2 s P" "\<forall>y \<in> set ys. avoids h2 s P y"
    "\<And>\<sigma>. solves h2 s P \<sigma> \<longleftrightarrow> solves h1 s P \<sigma> \<and> map (instance_of \<sigma>) es = map (instance_of \<sigma>) fs"
    "\<And>\<sigma>. solves h2 s P \<sigma> \<Longrightarrow> map (instance_of \<sigma>) ys = map (instance_of \<sigma>) es"
    using es bounded_frame [OF ed(2) P(1)] ep(2) unfolding effects_def by blast+
  show "kept h h2 s P" by (rule kept_trans [OF ep(1) p(1)])
  show "closed_off h2 s P" by (rule p(2))
  show "\<forall>y \<in> set (y # ys). avoids h2 s P y" using p(3) kept_avoids [OF p(1)] ep(3) by simp
  show "solves h2 s P \<sigma> \<longleftrightarrow> solves h s P \<sigma> \<and> map (instance_of \<sigma>) (e # es) = map (instance_of \<sigma>) (f # fs)" for \<sigma>
    unfolding p(4) ep(4) by auto
  show "map (instance_of \<sigma>) (y # ys) = map (instance_of \<sigma>) (e # es)" if "solves h2 s P \<sigma>" for \<sigma>
    using p(4,5) [of \<sigma>] that ep(5) by simp
qed

lemma nil_effects: "subst_wf h s \<Longrightarrow> effects h h s [] [] []"
  by (simp add: effects_def)

lemma opn_effect:
  assumes "effects h h' s es fs ys" "ex_ok (Opn m es)" "\<not> active h s (Opn m es)"
  shows "effect h h' s (Opn m es) (Opn m fs) (Opn m ys)"
proof -
  have "active h s (Opn m ys) = active h s (Opn m es)" by (simp add: active_def active_var_def)
  moreover have "ex_ok (Opn m ys)" using assms(1,2) by (simp add: effects_def)
  moreover have "\<not> cuex_is_varmeta m" using assms(2) opr_not_var by simp
  ultimately show ?thesis using assms(1,3) by (simp add: effects_def effect_def)
qed

section \<open>Soundness of runs\<close>

lemma inactive_instance: "solves h s P \<sigma> \<Longrightarrow> \<not> active h s (Obj m i) \<Longrightarrow> instance_of \<sigma> (Obj m i) = Obj m i"
  using solvesD(1) by simp

lemma clash_outcome:
  assumes e: "ex_ok e0" "ex_ok e1" "e0 \<noteq> e1" "\<not> active h s e0" "\<not> active h s e1" "\<not> (\<exists>m es fs. e0 = Opn m es \<and> e1 = Opn m fs)"
  shows "outcome h s e0 e1 None h'"
proof -
  have "instance_of \<sigma> e0 \<noteq> instance_of \<sigma> e1" if so: "solves h s {} \<sigma>" for \<sigma>
    using e by (cases e0; cases e1) (auto simp: solvesD(1) [OF so] opr_not_var dest: sym)
  then show ?thesis by simp
qed

lemma cons_outcomes:
  assumes e: "effect h h1 s e f y" and es: "outcomes h1 s es fs r h2"
  shows "outcomes h s (e # es) (f # fs) (map_option ((#) y) r) h2"
proof (cases r)
  case None
  then show ?thesis using es effect_all(1) [OF e] by auto
next
  case (Some ys)
  then show ?thesis using cons_effects [OF e] es by simp
qed

lemma run_outcome:
  "unify_run s h e0 e1 r h' \<Longrightarrow> subst_wf h s \<Longrightarrow> ex_ok e0 \<Longrightarrow> ex_ok e1 \<Longrightarrow> outcome h s e0 e1 r h'"
  "operands_run s h es fs rs h' \<Longrightarrow> subst_wf h s \<Longrightarrow> \<forall>e \<in> set es. ex_ok e \<Longrightarrow> \<forall>f \<in> set fs. ex_ok f \<Longrightarrow>
    length es = length fs \<Longrightarrow> outcomes h s es fs rs h'"
proof (induction rule: unify_run_operands_run.inducts)
  case (same h e)
  then show ?case by (simp add: same_effect)
next
  case (vars_same e0 e1 h q h1 h2)
  have f: "e0 \<noteq> e1" "active h s e0" "active h s e1" "cuex_subst_mref h s e0 = (q, h1)" "cuex_subst_mref h1 s e1 = (q, h2)"
    and p: "subst_wf h s" "ex_ok e0" "ex_ok e1"
    by (fact vars_same)+
  note t = two_classes [OF p(1) f(2,3,4,5)]
  show ?case by (rule outcome_steady [OF t(2)]) (simp add: same_class_effect [OF t(1) p(2,3) t(3,4)])
next
  case (vars_occur e0 e1 h q0 h1 q1 h2)
  have f: "e0 \<noteq> e1" "active h s e0" "active h s e1" "cuex_subst_mref h s e0 = (q0, h1)" "cuex_subst_mref h1 s e1 = (q1, h2)" "q0 \<noteq> q1" "crosses h2 s q0 q1"
    and p: "subst_wf h s" "ex_ok e0" "ex_ok e1"
    by (fact vars_occur)+
  note t = two_classes [OF p(1) f(2,3,4,5)]
  have "active h2 s e0" "active h2 s e1" using f(2,3) steady_active [OF t(2)] by simp_all
  then have "outcome h2 s e0 e1 None h2"
    using crosses_no_solution [OF t(1,3,4) f(7)] instance_var p(2,3) by simp
  then show ?case by (rule outcome_steady [OF t(2)])
next
  case (vars_fail e0 e1 h q0 h1 q1 h2 x0 x1 h3)
  have f: "e0 \<noteq> e1" "active h s e0" "active h s e1" "cuex_subst_mref h s e0 = (q0, h1)" "cuex_subst_mref h1 s e1 = (q1, h2)" "q0 \<noteq> q1" "\<not> crosses h2 s q0 q1" "value_of h2 q0 = Some x0" "value_of h2 q1 = Some x1"
    and p: "subst_wf h s" "ex_ok e0" "ex_ok e1"
    and IH: "subst_wf h2 s \<Longrightarrow> ex_ok x0 \<Longrightarrow> ex_ok x1 \<Longrightarrow> outcome h2 s x0 x1 None h3"
    by (fact vars_fail)+
  note t = two_classes [OF p(1) f(2,3,4,5)]
  note ok = wf_ok [OF t(1)]
  have o: "outcome h2 s x0 x1 None h3"
    using IH [OF t(1)] okD(5) [OF ok t(3) f(8)] okD(5) [OF ok t(4) f(9)] by simp
  have "instance_of \<sigma> e0 \<noteq> instance_of \<sigma> e1" if so: "solves h2 s {} \<sigma>" for \<sigma>
    using o so solvesD(3) [OF so t(3) _ f(8)] solvesD(3) [OF so t(4) _ f(9)]
      instance_var [OF okD(1) [OF ok t(3)]] instance_var [OF okD(1) [OF ok t(4)]] p(2,3) by simp
  then show ?case using outcome_steady [OF t(2), of e0 e1 None h3] by simp
next
  case (vars_values e0 e1 h q0 h1 q1 h2 x0 x1 x h3)
  have f: "e0 \<noteq> e1" "active h s e0" "active h s e1" "cuex_subst_mref h s e0 = (q0, h1)" "cuex_subst_mref h1 s e1 = (q1, h2)" "q0 \<noteq> q1" "\<not> crosses h2 s q0 q1" "value_of h2 q0 = Some x0" "value_of h2 q1 = Some x1"
    and p: "subst_wf h s" "ex_ok e0" "ex_ok e1"
    and IH: "subst_wf h2 s \<Longrightarrow> ex_ok x0 \<Longrightarrow> ex_ok x1 \<Longrightarrow> outcome h2 s x0 x1 (Some x) h3"
    by (fact vars_values)+
  note t = two_classes [OF p(1) f(2,3,4,5)]
  note ok = wf_ok [OF t(1)]
  have "effect h2 h3 s x0 x1 x"
    using IH [OF t(1)] okD(5) [OF ok t(3) f(8)] okD(5) [OF ok t(4) f(9)] by simp
  then have "effect h2 (join_classes h3 s q0 q1 (Some x)) s e0 e1 x"
    by (rule values_effect [OF t(1) p(2,3) t(3,4) f(7,8,9)])
  then show ?case using outcome_steady [OF t(2), of e0 e1 "Some x"] by simp
next
  case (vars_join e0 e1 h q0 h1 q1 h2 y)
  have f: "e0 \<noteq> e1" "active h s e0" "active h s e1" "cuex_subst_mref h s e0 = (q0, h1)" "cuex_subst_mref h1 s e1 = (q1, h2)" "q0 \<noteq> q1" "\<not> crosses h2 s q0 q1" "value_of h2 q0 = None \<or> value_of h2 q1 = None" "y = either (value_of h2 q0) (value_of h2 q1)"
    and p: "subst_wf h s" "ex_ok e0" "ex_ok e1"
    by (fact vars_join)+
  note t = two_classes [OF p(1) f(2,3,4,5)]
  obtain z where z: "either y (Some e0) = Some z" by (cases y) auto
  have "effect h2 (join_classes h2 s q0 q1 y) s e0 e1 z"
    by (rule join_effect [OF t(1) p(2,3) t(3,4) f(7,8,9) z])
  then show ?case using outcome_steady [OF t(2), of e0 e1 "Some z"] z by simp
next
  case (var_occur v e e0 e1 h q h1)
  have f: "sides v e e0 e1" "active h s v" "\<not> active h s e" "cuex_subst_mref h s v = (q, h1)" "value_of h1 q = None" "reaches h1 s e q"
    and p: "subst_wf h s" "ex_ok e0" "ex_ok e1"
    by (fact var_occur)+
  have ok: "ex_ok v" using f(1) p(2,3) by (auto simp: sides_def)
  note t = one_class [OF p(1) f(2,3,4)]
  have "outcome h s v e None h1"
    by (rule outcome_steady [OF t(2) occur_outcome [OF t(1,3) ok t(5) f(6)]])
  then show ?case using f(1) outcome_sym by (auto simp: sides_def)
next
  case (var_bind v e e0 e1 h q h1)
  have f: "sides v e e0 e1" "active h s v" "\<not> active h s e" "cuex_subst_mref h s v = (q, h1)" "value_of h1 q = None" "\<not> reaches h1 s e q"
    and p: "subst_wf h s" "ex_ok e0" "ex_ok e1"
    by (fact var_bind)+
  have ok: "ex_ok v" "ex_ok e" using f(1) p(2,3) by (auto simp: sides_def)
  note t = one_class [OF p(1) f(2,3,4)]
  have "effect h1 (set_value h1 q (Some e)) s v e v"
    by (rule bind_effect [OF t(1,3) f(5) ok t(5) f(6)])
  then have "effect h (set_value h1 q (Some e)) s v e v" by (rule effect_steady [OF t(2)])
  then show ?case using f(1) effect_sym by (auto simp: sides_def)
next
  case (var_left h v e q h1 x r h2)
  have f: "active h s v" "\<not> active h s e" "cuex_subst_mref h s v = (q, h1)" "value_of h1 q = Some x"
    and p: "subst_wf h s" "ex_ok v" "ex_ok e"
    and IH: "subst_wf h1 s \<Longrightarrow> ex_ok x \<Longrightarrow> ex_ok e \<Longrightarrow> outcome h1 s x e r h2"
    by (fact var_left)+
  note t = one_class [OF p(1) f(1,2,3)]
  have "outcome h1 s x e r h2" using IH [OF t(1) okD(5) [OF wf_ok [OF t(1)] t(3) f(4)]] p(3) by simp
  then show ?case by (rule outcome_steady [OF t(2) value_outcome [OF t(1,3) f(4) p(2,3) t(5)]])
next
  case (var_right h v e q h1 x r h2)
  have f: "active h s v" "\<not> active h s e" "cuex_subst_mref h s v = (q, h1)" "value_of h1 q = Some x"
    and p: "subst_wf h s" "ex_ok e" "ex_ok v"
    and IH: "subst_wf h1 s \<Longrightarrow> ex_ok e \<Longrightarrow> ex_ok x \<Longrightarrow> outcome h1 s e x r h2"
    by (fact var_right)+
  note t = one_class [OF p(1) f(1,2,3)]
  have "outcome h1 s e x r h2" using IH [OF t(1)] okD(5) [OF wf_ok [OF t(1)] t(3) f(4)] p(2) by simp
  then have "outcome h1 s x e r h2" by (rule outcome_sym)
  then have "outcome h s v e r (stored q r h2)"
    by (rule outcome_steady [OF t(2) value_outcome [OF t(1,3) f(4) p(3,2) t(5)]])
  then show ?case by (rule outcome_sym)
next
  case (clash e0 e1 h)
  then show ?case by (intro clash_outcome)
next
  case (opn es fs h m r h')
  have f: "es \<noteq> fs" "\<not> active h s (Opn m es)" "\<not> active h s (Opn m fs)"
    and p: "subst_wf h s" "ex_ok (Opn m es)" "ex_ok (Opn m fs)"
    by (fact opn)+
  have o: "outcomes h s es fs r h'" using opn by simp
  have m: "\<not> cuex_is_varmeta m" using p(2) opr_not_var by simp
  show ?case
  proof (cases r)
    case None
    then show ?thesis using o m by simp
  next
    case (Some ys)
    then show ?thesis using opn_effect [OF _ p(2) f(2)] o by simp
  qed
next
  case (nil h fs)
  then show ?case by (simp add: nil_effects)
next
  case (cons_fail h e fs h' es)
  then obtain f fs' where fs: "fs = f # fs'" by (cases fs) auto
  then show ?case using cons_fail by auto
next
  case (cons h e fs y h1 es r h2)
  then obtain f fs' where fs: "fs = f # fs'" by (cases fs) auto
  have e: "effect h h1 s e f y" using cons fs by simp
  have "outcomes h1 s es fs' r h2" using cons fs effectD(1) [OF e] by simp
  then show ?case using cons_outcomes [OF e] fs by simp
qed

end
