(* ===== verification/SubstTotal.thy ===== *)
theory SubstTotal
  imports SubstUnify
begin

text \<open>
  Unification returns. A successful run either leaves fewer classes and variables without value or its equation held
  already; so the recursion goes down in the number of these and then in the size of the expressions under a solution.
\<close>

section \<open>Variables and classes without value\<close>

definition vars_in :: "subst_heap \<Rightarrow> nat \<Rightarrow> cuex set \<Rightarrow> bool" where
  "vars_in h s V \<longleftrightarrow> (\<forall>v q. class_of h s v = Some q \<longrightarrow> v \<in> V \<and> (\<forall>x. value_of h q = Some x \<longrightarrow> ex_vars x \<subseteq> V))"

definition open_vars :: "subst_heap \<Rightarrow> nat \<Rightarrow> cuex set \<Rightarrow> cuex set" where
  "open_vars h s V = {v \<in> V. active h s v \<and> class_of h s v = None}"

definition open_classes :: "subst_heap \<Rightarrow> nat \<Rightarrow> nat set" where
  "open_classes h s = {q. live h s q \<and> value_of h q = None}"

definition freedom :: "subst_heap \<Rightarrow> nat \<Rightarrow> cuex set \<Rightarrow> nat" where
  "freedom h s V = card (open_vars h s V) + card (open_classes h s)"

lemma open_classes_finite: "subst_ok h s \<Longrightarrow> finite (open_classes h s)"
  by (rule finite_subset [of _ "{..< length (sh_veqvs h)}"]) (auto simp: open_classes_def live_def dest: okD(2))

lemma vars_inD: "vars_in h s V \<Longrightarrow> class_of h s v = Some q \<Longrightarrow> value_of h q = Some x \<Longrightarrow> ex_vars x \<subseteq> V"
  by (simp add: vars_in_def)

lemma mref_freedom:
  assumes wf: "subst_wf h s" and v: "active h s v" "v \<in> V" and V: "finite V" "vars_in h s V"
    and m: "cuex_subst_mref h s v = (q, h')"
  shows "vars_in h' s V" "freedom h' s V = freedom h s V"
proof -
  note ok = wf_ok [OF wf]
  have "vars_in h' s V \<and> freedom h' s V = freedom h s V"
  proof (cases "h' = h")
    case False
    then have new: "class_of h s v = None" "q = length (sh_veqvs h)" "same_frame h h' s" "class_of h' s = (class_of h s)(v \<mapsto> q)"
      "\<forall>p < q. value_of h' p = value_of h p" "value_of h' q = None"
      using mref_simple [OF ok_simple [OF ok] m] by auto
    have lt: "p < q" if "class_of h s w = Some p" for w p using okD(2) [OF ok that] new(2) by simp
    have act: "active h' s = active h s" by (rule same_frame_active [OF new(3)])
    have "vars_in h' s V" using V(2) v(2) new(5,6) lt by (auto simp: vars_in_def new(4))
    moreover have "open_vars h' s V = open_vars h s V - {v}" by (auto simp: open_vars_def act new(4))
    moreover have "v \<in> open_vars h s V" using v new(1) by (simp add: open_vars_def)
    moreover have "open_classes h' s = insert q (open_classes h s)"
      using new(5,6) lt new(1) by (auto simp: open_classes_def live_def new(4) split: if_splits) (metis option.distinct(1))+
    moreover have "q \<notin> open_classes h s" using lt by (fastforce simp: open_classes_def live_def)
    moreover have "finite (open_vars h s V)" using V(1) by (simp add: open_vars_def)
    moreover have "card (open_vars h s V) > 0" using calculation(3,6) by (auto simp: card_gt_0_iff)
    ultimately show ?thesis using open_classes_finite [OF ok] by (simp add: freedom_def card_Diff_singleton)
  qed (simp add: V)
  then show "vars_in h' s V" "freedom h' s V = freedom h s V" by simp_all
qed

lemma merges_freedom:
  assumes wf: "subst_wf h s" and m: "merges h h' s A q y" and V: "vars_in h s V" "\<And>x. y = Some x \<Longrightarrow> ex_vars x \<subseteq> V"
  shows "vars_in h' s V" "open_vars h' s V = open_vars h s V"
    "open_classes h' s = open_classes h s - A \<union> (if y = None then {q} else {})"
proof -
  note c = merges_class [OF m]
  have q: "q \<in> A" and A: "\<And>a. a \<in> A \<Longrightarrow> live h s a" and f: "same_frame h h' s" and y: "value_of h' q = y"
    and keep: "\<And>p. p \<notin> A \<Longrightarrow> value_of h' p = value_of h p"
    using m by (auto simp: merges_def)
  have act: "active h' s = active h s" by (rule same_frame_active [OF f])
  show "open_vars h' s V = open_vars h s V" by (auto simp: open_vars_def act c)
  have l: "live h' s p \<longleftrightarrow> p = q \<or> live h s p \<and> p \<notin> A" for p
    using A [OF q] q by (auto simp: live_def c)
  show "open_classes h' s = open_classes h s - A \<union> (if y = None then {q} else {})"
    using y keep q by (auto simp: open_classes_def l)
  show "vars_in h' s V"
    unfolding vars_in_def
  proof (intro allI impI conjI)
    fix v p assume v: "class_of h' s v = Some p"
    then obtain p' where p': "class_of h s v = Some p'" "p = (if p' \<in> A then q else p')" by (auto simp: c)
    show "v \<in> V" using V(1) p'(1) by (simp add: vars_in_def)
    fix x assume x: "value_of h' p = Some x"
    show "ex_vars x \<subseteq> V"
    proof (cases "p' \<in> A")
      case True
      then show ?thesis using p'(2) x y V(2) by simp
    next
      case False
      then show ?thesis using p' x keep vars_inD [OF V(1) p'(1)] by simp
    qed
  qed
qed

definition narrows :: "subst_heap \<Rightarrow> subst_heap \<Rightarrow> nat \<Rightarrow> cuex set \<Rightarrow> ((cuex \<Rightarrow> cuex) \<Rightarrow> bool) \<Rightarrow> bool" where
  "narrows h h' s V E \<longleftrightarrow> vars_in h' s V \<and>
     (freedom h' s V < freedom h s V \<or> freedom h' s V = freedom h s V \<and> (\<forall>\<sigma>. solves h s {} \<sigma> \<longrightarrow> E \<sigma>))"

abbreviation equation :: "cuex \<Rightarrow> cuex \<Rightarrow> (cuex \<Rightarrow> cuex) \<Rightarrow> bool" where
  "equation e0 e1 \<sigma> \<equiv> instance_of \<sigma> e0 = instance_of \<sigma> e1"

lemma bind_narrows:
  assumes wf: "subst_wf h s" and m: "merges h h' s {q} q (Some x)" and V: "vars_in h s V" "ex_vars x \<subseteq> V"
    and q: "value_of h q = None"
  shows "narrows h h' s V E"
proof -
  have "q \<in> open_classes h s" using m q by (auto simp: merges_def open_classes_def)
  moreover have "vars_in h' s V" "open_vars h' s V = open_vars h s V" "open_classes h' s = open_classes h s - {q}"
    using merges_freedom [OF wf m V(1)] V(2) by simp_all
  moreover have "finite (open_classes h s)" by (rule open_classes_finite [OF wf_ok [OF wf]])
  ultimately show ?thesis using card_Diff1_less [of "open_classes h s" q] by (simp add: narrows_def freedom_def)
qed

lemma store_narrows:
  assumes wf: "subst_wf h s" and m: "merges h h' s A q (Some x)" and V: "vars_in h s V" "ex_vars x \<subseteq> V"
    and q: "\<And>a. a \<in> A \<Longrightarrow> value_of h a \<noteq> None"
  shows "vars_in h' s V" "freedom h' s V = freedom h s V"
proof -
  have "open_classes h s - A = open_classes h s" using q by (fastforce simp: open_classes_def)
  then show "vars_in h' s V" "freedom h' s V = freedom h s V"
    using merges_freedom [OF wf m V(1)] V(2) by (simp_all add: freedom_def)
qed

lemma join_narrows:
  assumes wf: "subst_wf h s" and m: "merges h h' s {q0, q1} q1 y" and V: "vars_in h s V"
    and q: "q0 \<noteq> q1" "value_of h q0 = None \<or> value_of h q1 = None" and y: "y = either (value_of h q0) (value_of h q1)"
  shows "narrows h h' s V E"
proof -
  obtain v0 v1 where v: "class_of h s v0 = Some q0" "class_of h s v1 = Some q1" using m by (auto simp: merges_def live_def)
  have yV: "ex_vars x \<subseteq> V" if "y = Some x" for x
    using that either_some [of "value_of h q0" "value_of h q1" x] y vars_inD [OF V v(1)] vars_inD [OF V v(2)] by auto
  note f = merges_freedom [OF wf m V yV]
  have fin: "finite (open_classes h s)" by (rule open_classes_finite [OF wf_ok [OF wf]])
  have l: "live h s q0" "live h s q1" using v by (auto simp: live_def)
  have "open_classes h' s \<subset> open_classes h s"
  proof (cases y)
    case None
    then have "value_of h q0 = None" "value_of h q1 = None" using y by (auto simp: either_def split: option.splits)
    then show ?thesis using f(3) None l q(1) by (auto simp: open_classes_def)
  next
    case (Some x)
    then show ?thesis using f(3) l q(2) by (auto simp: open_classes_def)
  qed
  then have "card (open_classes h' s) < card (open_classes h s)" by (rule psubset_card_mono [OF fin])
  then show ?thesis using f(1,2) by (simp add: narrows_def freedom_def)
qed

section \<open>Runs\<close>

definition narrowing :: "subst_heap \<Rightarrow> nat \<Rightarrow> cuex set \<Rightarrow> cuex \<Rightarrow> cuex \<Rightarrow> cuex option \<Rightarrow> subst_heap \<Rightarrow> bool" where
  "narrowing h s V e0 e1 r h' \<longleftrightarrow>
     (case r of None \<Rightarrow> True | Some y \<Rightarrow> ex_vars y \<subseteq> V \<and> narrows h h' s V (equation e0 e1))"

lemma narrowing_simps [simp]:
  "narrowing h s V e0 e1 None h'"
  "narrowing h s V e0 e1 (Some y) h' \<longleftrightarrow> ex_vars y \<subseteq> V \<and> narrows h h' s V (equation e0 e1)"
  by (simp_all add: narrowing_def)

lemma narrowing_steady:
  "freedom h1 s V = freedom h s V \<Longrightarrow> (\<And>\<sigma>. solves h1 s {} \<sigma> = solves h s {} \<sigma>) \<Longrightarrow> narrowing h1 s V e0 e1 r h' \<Longrightarrow>
    narrowing h s V e0 e1 r h'"
  by (cases r) (auto simp: narrows_def)

lemma narrowing_sym: "narrowing h s V e0 e1 r h' \<Longrightarrow> narrowing h s V e1 e0 r h'"
  by (cases r) (auto simp: narrows_def dest: sym)

lemma value_narrowing:
  assumes wf: "subst_wf h s" and v: "class_of h s v = Some q" "value_of h q = Some x" "ex_ok v"
    and e: "ex_ok e" "\<not> active h s e" and o: "outcome h s x e r h2" and V: "vars_in h s V" and n: "narrowing h s V x e r h2"
  shows "narrowing h s V v e r (stored q r h2)"
proof (cases r)
  case (Some y)
  then have ef: "effect h h2 s x e y" and yV: "ex_vars y \<subseteq> V" and nw: "narrows h h2 s V (equation x e)" using o n by simp_all
  obtain \<sigma> where \<sigma>: "solves h2 s {} \<sigma>" using solvable [OF effectD(1) [OF ef]] by blast
  then have so: "solves h s {} \<sigma>" and "instance_of \<sigma> x = instance_of \<sigma> e" using effect_all(1) [OF ef] by auto
  then have "\<sigma> v = instance_of \<sigma> e" using solvesD(3) [OF so v(1) _ v(2)] by simp
  then have nr: "\<not> reaches h s e q" using reaches_no_solution [OF wf_ok [OF wf] so _ v(1) e(2)] by blast
  note k = value_kept [OF wf v(1,2) e nr ef]
  have q: "value_of h2 a \<noteq> None" if "a \<in> {q}" for a using that k(2) by simp
  have "vars_in h2 s V" using nw by (simp add: narrows_def)
  note st = store_narrows [OF effectD(1) [OF ef] k(3) this yV q]
  have "equation v e \<tau>" if "solves h s {} \<tau>" "equation x e \<tau>" for \<tau>
    using solvesD(3) [OF that(1) v(1) _ v(2)] instance_var [OF okD(1) [OF wf_ok [OF wf] v(1)] v(3)] that(2) by simp
  then show ?thesis using st nw yV Some by (auto simp: narrows_def)
qed simp

lemma two_freedom:
  assumes wf: "subst_wf h s" and a: "active h s e0" "active h s e1" and e: "ex_ok e0" "ex_ok e1"
    and m: "cuex_subst_mref h s e0 = (q0, h1)" "cuex_subst_mref h1 s e1 = (q1, h2)"
    and V: "finite V" "vars_in h s V" "ex_vars e0 \<subseteq> V" "ex_vars e1 \<subseteq> V"
  shows "vars_in h2 s V" "freedom h2 s V = freedom h s V"
proof -
  have v: "e0 \<in> V" "e1 \<in> V" using V(3,4) var_self [OF a(1) e(1)] var_self [OF a(2) e(2)] by simp_all
  note 1 = mref_step [OF wf a(1) m(1)]
  have a1: "active h1 s e1" using a(2) same_frame_active [OF 1(2)] by simp
  note f1 = mref_freedom [OF wf a(1) v(1) V(1,2) m(1)]
  note f2 = mref_freedom [OF 1(1) a1 v(2) V(1) f1(1) m(2)]
  show "vars_in h2 s V" "freedom h2 s V = freedom h s V" using f1 f2 by simp_all
qed

lemma cons_narrows:
  assumes e: "effect h h1 s e f y" and n1: "narrows h h1 s V (equation e f)"
    and n2: "narrows h1 h2 s V (\<lambda>\<sigma>. map (instance_of \<sigma>) es = map (instance_of \<sigma>) fs)"
  shows "narrows h h2 s V (\<lambda>\<sigma>. map (instance_of \<sigma>) (e # es) = map (instance_of \<sigma>) (f # fs))"
proof (cases "freedom h2 s V < freedom h s V")
  case True
  then show ?thesis using n2 by (simp add: narrows_def)
next
  case False
  then have eq: "freedom h2 s V = freedom h s V" "freedom h1 s V = freedom h s V"
    using n1 n2 unfolding narrows_def by linarith+
  then have 1: "equation e f \<sigma>" if "solves h s {} \<sigma>" for \<sigma> using n1 that by (simp add: narrows_def)
  have 2: "map (instance_of \<sigma>) es = map (instance_of \<sigma>) fs" if "solves h1 s {} \<sigma>" for \<sigma>
    using n2 that eq by (simp add: narrows_def)
  have "map (instance_of \<sigma>) (e # es) = map (instance_of \<sigma>) (f # fs)" if so: "solves h s {} \<sigma>" for \<sigma>
  proof -
    have "solves h1 s {} \<sigma>" using effect_all(1) [OF e] so 1 [OF so] by blast
    then show ?thesis using 1 [OF so] 2 by simp
  qed
  then show ?thesis using n2 eq(1) by (simp add: narrows_def)
qed

lemma values_narrowing:
  assumes wf: "subst_wf h s" and e: "ex_ok e0" "ex_ok e1" and c: "class_of h s e0 = Some q0" "class_of h s e1 = Some q1"
    and nx: "\<not> crosses h s q0 q1" and x: "value_of h q0 = Some x0" "value_of h q1 = Some x1"
    and ef: "effect h h3 s x0 x1 z" and n: "narrowing h s V x0 x1 (Some z) h3"
  shows "narrowing h s V e0 e1 (Some z) (join_classes h3 s q0 q1 (Some z))"
proof -
  note k = values_kept [OF wf c nx x ef]
  have zV: "ex_vars z \<subseteq> V" and nw: "narrows h h3 s V (equation x0 x1)" using n by simp_all
  have q: "value_of h3 a \<noteq> None" if "a \<in> {q0, q1}" for a using that k(3,4) by auto
  have "vars_in h3 s V" using nw by (simp add: narrows_def)
  note st = store_narrows [OF effectD(1) [OF ef] k(5) this zV q]
  have act: "active h s e0" "active h s e1" using okD(1) [OF wf_ok [OF wf] c(1)] okD(1) [OF wf_ok [OF wf] c(2)] by simp_all
  have "equation e0 e1 \<tau>" if "solves h s {} \<tau>" "equation x0 x1 \<tau>" for \<tau>
    using solvesD(3) [OF that(1) c(1) _ x(1)] solvesD(3) [OF that(1) c(2) _ x(2)] that(2)
      instance_var [OF act(1) e(1)] instance_var [OF act(2) e(2)] by simp
  then show ?thesis using st nw zV by (auto simp: narrows_def)
qed

lemma run_narrowing:
  assumes V: "finite V"
  shows "unify_run s h e0 e1 r h' \<Longrightarrow> subst_wf h s \<Longrightarrow> ex_ok e0 \<Longrightarrow> ex_ok e1 \<Longrightarrow> vars_in h s V \<Longrightarrow>
    ex_vars e0 \<subseteq> V \<Longrightarrow> ex_vars e1 \<subseteq> V \<Longrightarrow> narrowing h s V e0 e1 r h'"
  "operands_run s h es fs rs h' \<Longrightarrow> subst_wf h s \<Longrightarrow> \<forall>e \<in> set es. ex_ok e \<Longrightarrow> \<forall>f \<in> set fs. ex_ok f \<Longrightarrow>
    length es = length fs \<Longrightarrow> vars_in h s V \<Longrightarrow> \<forall>e \<in> set es. ex_vars e \<subseteq> V \<Longrightarrow> \<forall>e \<in> set fs. ex_vars e \<subseteq> V \<Longrightarrow>
    (case rs of None \<Rightarrow> True | Some ys \<Rightarrow> (\<forall>y \<in> set ys. ex_vars y \<subseteq> V) \<and>
      narrows h h' s V (\<lambda>\<sigma>. map (instance_of \<sigma>) es = map (instance_of \<sigma>) fs))"
proof (induction rule: unify_run_operands_run.inducts)
  case (same h e)
  then show ?case by (simp add: narrows_def)
next
  case (vars_same e0 e1 h q h1 h2)
  have f: "active h s e0" "active h s e1" "cuex_subst_mref h s e0 = (q, h1)" "cuex_subst_mref h1 s e1 = (q, h2)"
    and p: "subst_wf h s" "ex_ok e0" "ex_ok e1" "vars_in h s V" "ex_vars e0 \<subseteq> V" "ex_vars e1 \<subseteq> V"
    by (fact vars_same)+
  note t = two_classes [OF p(1) f] and tf = two_freedom [OF p(1) f(1,2) p(2,3) f(3,4) V p(4-6)]
  have "equation e0 e1 \<sigma>" if "solves h s {} \<sigma>" for \<sigma>
    using solvesD(2) [of h2 s "{}" \<sigma> e1 q e0] steady_solves [OF t(2)] that t(3,4) instance_var [OF f(1) p(2)]
      instance_var [OF f(2) p(3)] by simp
  then show ?case using tf p(5) by (simp add: narrows_def)
next
  case (vars_values e0 e1 h q0 h1 q1 h2 x0 x1 x h3)
  have f: "active h s e0" "active h s e1" "cuex_subst_mref h s e0 = (q0, h1)" "cuex_subst_mref h1 s e1 = (q1, h2)"
      "\<not> crosses h2 s q0 q1" "value_of h2 q0 = Some x0" "value_of h2 q1 = Some x1"
    and p: "subst_wf h s" "ex_ok e0" "ex_ok e1" "vars_in h s V" "ex_vars e0 \<subseteq> V" "ex_vars e1 \<subseteq> V"
    and run: "unify_run s h2 x0 x1 (Some x) h3"
    and IH: "subst_wf h2 s \<Longrightarrow> ex_ok x0 \<Longrightarrow> ex_ok x1 \<Longrightarrow> vars_in h2 s V \<Longrightarrow> ex_vars x0 \<subseteq> V \<Longrightarrow> ex_vars x1 \<subseteq> V \<Longrightarrow>
      narrowing h2 s V x0 x1 (Some x) h3"
    by (fact vars_values)+
  note t = two_classes [OF p(1) f(1-4)] and tf = two_freedom [OF p(1) f(1,2) p(2,3) f(3,4) V p(4-6)]
  have ok: "ex_ok x0" "ex_ok x1" using okD(5) [OF wf_ok [OF t(1)] t(3) f(6)] okD(5) [OF wf_ok [OF t(1)] t(4) f(7)] by simp_all
  have n: "narrowing h2 s V x0 x1 (Some x) h3"
    by (rule IH [OF t(1) ok tf(1) vars_inD [OF tf(1) t(3) f(6)] vars_inD [OF tf(1) t(4) f(7)]])
  have ef: "effect h2 h3 s x0 x1 x" using run_outcome(1) [OF run t(1) ok] by simp
  show ?case
    by (rule narrowing_steady [OF tf(2) steady_solves [OF t(2)] values_narrowing [OF t(1) p(2,3) t(3,4) f(5-7) ef n]])
next
  case (vars_join e0 e1 h q0 h1 q1 h2 y)
  have f: "active h s e0" "active h s e1" "cuex_subst_mref h s e0 = (q0, h1)" "cuex_subst_mref h1 s e1 = (q1, h2)"
      "\<not> crosses h2 s q0 q1" "value_of h2 q0 = None \<or> value_of h2 q1 = None" "y = either (value_of h2 q0) (value_of h2 q1)" "q0 \<noteq> q1"
    and p: "subst_wf h s" "ex_ok e0" "ex_ok e1" "vars_in h s V" "ex_vars e0 \<subseteq> V" "ex_vars e1 \<subseteq> V"
    by (fact vars_join)+
  note t = two_classes [OF p(1) f(1-4)] and tf = two_freedom [OF p(1) f(1,2) p(2,3) f(3,4) V p(4-6)]
  note m = join_kept [OF t(1,3,4) f(5,7)]
  obtain z where z: "either y (Some e0) = Some z" by (cases y) auto
  have "z = e0 \<or> value_of h2 q0 = Some z \<or> value_of h2 q1 = Some z"
    using either_some [OF z] either_some [of "value_of h2 q0" "value_of h2 q1" z] f(7) by auto
  then have "ex_vars z \<subseteq> V" using p(5) vars_inD [OF tf(1) t(3)] vars_inD [OF tf(1) t(4)] by blast
  then have "narrowing h2 s V e0 e1 (Some z) (join_classes h2 s q0 q1 y)"
    using join_narrows [OF t(1) m tf(1) f(8,6,7)] by simp
  then show ?case unfolding z by (rule narrowing_steady [OF tf(2) steady_solves [OF t(2)]])
next
  case (var_bind v e e0 e1 h q h1)
  have f: "sides v e e0 e1" "active h s v" "\<not> active h s e" "cuex_subst_mref h s v = (q, h1)" "value_of h1 q = None" "\<not> reaches h1 s e q"
    and p: "subst_wf h s" "ex_ok e0" "ex_ok e1" "vars_in h s V" "ex_vars e0 \<subseteq> V" "ex_vars e1 \<subseteq> V"
    by (fact var_bind)+
  have ok: "ex_ok v" "ex_ok e" "ex_vars v \<subseteq> V" "ex_vars e \<subseteq> V" using f(1) p by (auto simp: sides_def)
  note t = one_class [OF p(1) f(2-4)]
  have "v \<in> V" using ok(3) var_self [OF f(2) ok(1)] by simp
  note tf = mref_freedom [OF p(1) f(2) this V p(4) f(4)]
  have "narrows h1 (set_value h1 q (Some e)) s V (equation e0 e1)"
    by (rule bind_narrows [OF t(1) set_value_merges [OF t(1,3) ok(2) t(5) f(6)] tf(1) ok(4) f(5)])
  then have "narrowing h1 s V e0 e1 (Some v) (set_value h1 q (Some e))" using ok(3) by simp
  then show ?case by (rule narrowing_steady [OF tf(2) steady_solves [OF t(2)]])
next
  case (var_left h v e q h1 x r h2)
  have f: "active h s v" "\<not> active h s e" "cuex_subst_mref h s v = (q, h1)" "value_of h1 q = Some x" "unify_run s h1 x e r h2"
    and p: "subst_wf h s" "ex_ok v" "ex_ok e" "vars_in h s V" "ex_vars v \<subseteq> V" "ex_vars e \<subseteq> V"
    and IH: "subst_wf h1 s \<Longrightarrow> ex_ok x \<Longrightarrow> ex_ok e \<Longrightarrow> vars_in h1 s V \<Longrightarrow> ex_vars x \<subseteq> V \<Longrightarrow> ex_vars e \<subseteq> V \<Longrightarrow> narrowing h1 s V x e r h2"
    by (fact var_left)+
  note t = one_class [OF p(1) f(1-3)]
  have "v \<in> V" using p(5) var_self [OF f(1) p(2)] by simp
  note tf = mref_freedom [OF p(1) f(1) this V p(4) f(3)]
  have ok: "ex_ok x" by (rule okD(5) [OF wf_ok [OF t(1)] t(3) f(4)])
  note n = IH [OF t(1) ok p(3) tf(1) vars_inD [OF tf(1) t(3) f(4)] p(6)]
  show ?case
    by (rule narrowing_steady [OF tf(2) steady_solves [OF t(2)]
      value_narrowing [OF t(1,3) f(4) p(2,3) t(5) run_outcome(1) [OF f(5) t(1) ok p(3)] tf(1) n]])
next
  case (var_right h v e q h1 x r h2)
  have f: "active h s v" "\<not> active h s e" "cuex_subst_mref h s v = (q, h1)" "value_of h1 q = Some x" "unify_run s h1 e x r h2"
    and p: "subst_wf h s" "ex_ok e" "ex_ok v" "vars_in h s V" "ex_vars e \<subseteq> V" "ex_vars v \<subseteq> V"
    and IH: "subst_wf h1 s \<Longrightarrow> ex_ok e \<Longrightarrow> ex_ok x \<Longrightarrow> vars_in h1 s V \<Longrightarrow> ex_vars e \<subseteq> V \<Longrightarrow> ex_vars x \<subseteq> V \<Longrightarrow> narrowing h1 s V e x r h2"
    by (fact var_right)+
  note t = one_class [OF p(1) f(1-3)]
  have "v \<in> V" using p(6) var_self [OF f(1) p(3)] by simp
  note tf = mref_freedom [OF p(1) f(1) this V p(4) f(3)]
  have ok: "ex_ok x" by (rule okD(5) [OF wf_ok [OF t(1)] t(3) f(4)])
  note n = narrowing_sym [OF IH [OF t(1) p(2) ok tf(1) p(5) vars_inD [OF tf(1) t(3) f(4)]]]
  note o = outcome_sym [OF run_outcome(1) [OF f(5) t(1) p(2) ok]]
  show ?case
    by (rule narrowing_sym, rule narrowing_steady [OF tf(2) steady_solves [OF t(2)]
      value_narrowing [OF t(1,3) f(4) p(3,2) t(5) o tf(1) n]])
next
  case (opn es fs h m r h')
  have e: "ex_ok (Opn m es)" "ex_ok (Opn m fs)" "subst_wf h s" "vars_in h s V" "ex_vars (Opn m es) \<subseteq> V" "ex_vars (Opn m fs) \<subseteq> V"
    and IH: "subst_wf h s \<Longrightarrow> \<forall>e \<in> set es. ex_ok e \<Longrightarrow> \<forall>f \<in> set fs. ex_ok f \<Longrightarrow> length es = length fs \<Longrightarrow> vars_in h s V \<Longrightarrow>
      \<forall>e \<in> set es. ex_vars e \<subseteq> V \<Longrightarrow> \<forall>e \<in> set fs. ex_vars e \<subseteq> V \<Longrightarrow>
      (case r of None \<Rightarrow> True | Some ys \<Rightarrow> (\<forall>y \<in> set ys. ex_vars y \<subseteq> V) \<and>
        narrows h h' s V (\<lambda>\<sigma>. map (instance_of \<sigma>) es = map (instance_of \<sigma>) fs))"
    by (fact opn)+
  have "length es = length fs" "\<forall>e \<in> set es. ex_ok e" "\<forall>f \<in> set fs. ex_ok f" "\<forall>e \<in> set es. ex_vars e \<subseteq> V" "\<forall>e \<in> set fs. ex_vars e \<subseteq> V"
    using e by auto
  then show ?case using IH e(3,4) by (cases r) auto
next
  case (nil h fs)
  then show ?case by (simp add: narrows_def)
next
  case (cons h e fs y h1 es r h2)
  obtain f fs' where fs: "fs = f # fs'" using cons.prems by (cases fs) auto
  have run: "unify_run s h e f (Some y) h1" and p: "subst_wf h s" "ex_ok e" "ex_ok f" using cons fs by auto
  have ef: "effect h h1 s e f y" using run_outcome(1) [OF run p] by simp
  have n1: "ex_vars y \<subseteq> V" "narrows h h1 s V (equation e f)" using cons fs by auto
  have n2: "case r of None \<Rightarrow> True | Some ys \<Rightarrow> (\<forall>y \<in> set ys. ex_vars y \<subseteq> V) \<and>
      narrows h1 h2 s V (\<lambda>\<sigma>. map (instance_of \<sigma>) es = map (instance_of \<sigma>) fs')"
    using cons fs effectD(1) [OF ef] n1(2) by (cases r) (simp_all add: narrows_def)
  show ?case
  proof (cases r)
    case (Some ys)
    then show ?thesis using cons_narrows [OF ef n1(2), of h2 es fs'] n1(1) n2 fs by simp
  qed simp
qed simp_all

end
