(* ===== verification/SubstReturns.thy ===== *)
theory SubstReturns
  imports SubstTotal
begin

text \<open>Every unification has a run, and with enough fuel the code gives its result.\<close>

section \<open>There is a run\<close>

definition state_ok :: "subst_heap \<Rightarrow> nat \<Rightarrow> cuex set \<Rightarrow> bool" where
  "state_ok h s V \<longleftrightarrow> subst_wf h s \<and> vars_in h s V"

definition fit :: "cuex set \<Rightarrow> cuex \<Rightarrow> bool" where
  "fit V e \<longleftrightarrow> ex_ok e \<and> ex_vars e \<subseteq> V"

definition has_run :: "nat \<Rightarrow> subst_heap \<Rightarrow> cuex \<Rightarrow> cuex \<Rightarrow> bool" where
  "has_run s h e f \<longleftrightarrow> (\<exists>r h'. unify_run s h e f r h')"

lemma run_state:
  assumes V: "finite V" and run: "unify_run s h e f (Some y) h'" and h: "state_ok h s V" and e: "fit V e" "fit V f"
  shows "state_ok h' s V" "freedom h' s V < freedom h s V \<or> freedom h' s V = freedom h s V \<and> (\<forall>\<sigma>. solves h s {} \<sigma> \<longrightarrow> solves h' s {} \<sigma>)"
proof -
  have p: "subst_wf h s" "ex_ok e" "ex_ok f" "vars_in h s V" "ex_vars e \<subseteq> V" "ex_vars f \<subseteq> V"
    using h e by (simp_all add: state_ok_def fit_def)
  have ef: "effect h h' s e f y" using run_outcome(1) [OF run p(1-3)] by simp
  have n: "narrows h h' s V (equation e f)" using run_narrowing(1) [OF V run p] by simp
  show "state_ok h' s V" using effectD(1) [OF ef] n by (simp add: state_ok_def narrows_def)
  show "freedom h' s V < freedom h s V \<or> freedom h' s V = freedom h s V \<and> (\<forall>\<sigma>. solves h s {} \<sigma> \<longrightarrow> solves h' s {} \<sigma>)"
    using n effect_all(1) [OF ef] unfolding narrows_def by blast
qed

lemma operands_total:
  assumes V: "finite V"
    and deep: "\<And>h e f. state_ok h s V \<Longrightarrow> freedom h s V < u \<Longrightarrow> fit V e \<Longrightarrow> fit V f \<Longrightarrow> has_run s h e f"
    and near: "\<And>h e f. state_ok h s V \<Longrightarrow> freedom h s V = u \<Longrightarrow> solves h s {} \<sigma> \<Longrightarrow> size (instance_of \<sigma> e) < K \<Longrightarrow>
      fit V e \<Longrightarrow> fit V f \<Longrightarrow> has_run s h e f"
  shows "state_ok h s V \<Longrightarrow> freedom h s V < u \<or> freedom h s V = u \<and> solves h s {} \<sigma> \<Longrightarrow>
    \<forall>e \<in> set es. fit V e \<and> size (instance_of \<sigma> e) < K \<Longrightarrow> \<forall>f \<in> set fs. fit V f \<Longrightarrow> length es = length fs \<Longrightarrow>
    \<exists>r h'. operands_run s h es fs r h'"
proof (induction es arbitrary: h fs)
  case Nil
  then show ?case using nil by blast
next
  case (Cons e es)
  obtain f fs' where fs: "fs = f # fs'" using Cons.prems(5) by (cases fs) auto
  have fit: "fit V e" "fit V f" using Cons.prems(3,4) fs by simp_all
  have "has_run s h e f" using deep near Cons.prems fit by auto
  then obtain r1 h1 where run: "unify_run s h e f r1 h1" by (auto simp: has_run_def)
  show ?case
  proof (cases r1)
    case None
    then show ?thesis using cons_fail [of s h e fs h1 es] run fs by auto
  next
    case (Some y)
    note st = run_state [OF V run [unfolded Some] Cons.prems(1) fit]
    have "freedom h1 s V < u \<or> freedom h1 s V = u \<and> solves h1 s {} \<sigma>" using st(2) Cons.prems(2) by auto
    then obtain r h' where "operands_run s h1 es fs' r h'"
      using Cons.IH [OF st(1), of fs'] Cons.prems(3-5) fs by auto
    then show ?thesis using cons [of s h e fs y h1 es r h'] run Some fs by auto
  qed
qed

text \<open>A call for two expressions, given that there are runs wherever less is free or the first expression is smaller.\<close>

definition rest :: "subst_heap \<Rightarrow> nat \<Rightarrow> (cuex \<Rightarrow> cuex) \<Rightarrow> cuex \<Rightarrow> cuex \<Rightarrow> nat" where
  "rest h s \<sigma> e0 e1 = 2 * size (instance_of \<sigma> e0) + (if active h s e0 \<or> active h s e1 then 1 else 0)"

lemma vars_total:
  assumes V: "finite V" and h: "state_ok h s V" "freedom h s V = u" "solves h s {} \<sigma>" and e: "fit V e0" "fit V e1"
    and near: "\<And>h f0 f1. state_ok h s V \<Longrightarrow> freedom h s V = u \<Longrightarrow> solves h s {} \<sigma> \<Longrightarrow> rest h s \<sigma> f0 f1 < k \<Longrightarrow>
      fit V f0 \<Longrightarrow> fit V f1 \<Longrightarrow> has_run s h f0 f1"
    and k: "k = rest h s \<sigma> e0 e1" and a: "e0 \<noteq> e1" "active h s e0" "active h s e1"
  shows "has_run s h e0 e1"
proof -
  have p: "subst_wf h s" "ex_ok e0" "ex_ok e1" "vars_in h s V" "ex_vars e0 \<subseteq> V" "ex_vars e1 \<subseteq> V"
    using h(1) e by (simp_all add: state_ok_def fit_def)
  obtain q0 h1 where m0: "cuex_subst_mref h s e0 = (q0, h1)" by (cases "cuex_subst_mref h s e0")
  obtain q1 h2 where m1: "cuex_subst_mref h1 s e1 = (q1, h2)" by (cases "cuex_subst_mref h1 s e1")
  note t = two_classes [OF p(1) a(2,3) m0 m1] and tf = two_freedom [OF p(1) a(2,3) p(2,3) m0 m1 V p(4-6)]
  consider "q0 = q1" | "q0 \<noteq> q1" "crosses h2 s q0 q1" | "q0 \<noteq> q1" "\<not> crosses h2 s q0 q1" "value_of h2 q0 = None \<or> value_of h2 q1 = None"
    | x0 x1 where "q0 \<noteq> q1" "\<not> crosses h2 s q0 q1" "value_of h2 q0 = Some x0" "value_of h2 q1 = Some x1"
    by (metis not_None_eq)
  then show ?thesis
  proof cases
    case 1
    then show ?thesis using vars_same [OF a m0] m1 by (auto simp: has_run_def)
  next
    case 2
    then show ?thesis using vars_occur [OF a m0 m1] by (auto simp: has_run_def)
  next
    case 3
    then show ?thesis using vars_join [OF a m0 m1 3 refl] by (auto simp: has_run_def)
  next
    case 4
    note ok2 = wf_ok [OF t(1)]
    have x: "fit V x0" "fit V x1"
      using okD(5) [OF ok2 t(3) 4(3)] okD(5) [OF ok2 t(4) 4(4)] vars_inD [OF tf(1) t(3) 4(3)] vars_inD [OF tf(1) t(4) 4(4)]
      by (simp_all add: fit_def)
    have so: "solves h2 s {} \<sigma>" using h(3) steady_solves [OF t(2)] by simp
    have "instance_of \<sigma> x0 = instance_of \<sigma> e0"
      using solvesD(3) [OF so t(3) _ 4(3)] instance_var [OF a(2) p(2)] by simp
    moreover have "\<not> active h2 s x0" "\<not> active h2 s x1" using okD(6) [OF ok2 t(3) 4(3)] okD(6) [OF ok2 t(4) 4(4)] .
    ultimately have "rest h2 s \<sigma> x0 x1 < k" using a k by (simp add: rest_def)
    then have "has_run s h2 x0 x1" using near [OF _ _ so _ x] t(1) tf h(2) by (simp add: state_ok_def)
    then obtain r h3 where run: "unify_run s h2 x0 x1 r h3" by (auto simp: has_run_def)
    show ?thesis
    proof (cases r)
      case None
      then show ?thesis using vars_fail [OF a m0 m1 4] run by (auto simp: has_run_def)
    next
      case (Some x)
      then show ?thesis using vars_values [OF a m0 m1 4] run by (auto simp: has_run_def)
    qed
  qed
qed

lemma var_total:
  assumes V: "finite V" and h: "state_ok h s V" "freedom h s V = u" "solves h s {} \<sigma>" and e: "fit V e0" "fit V e1"
    and near: "\<And>h f0 f1. state_ok h s V \<Longrightarrow> freedom h s V = u \<Longrightarrow> solves h s {} \<sigma> \<Longrightarrow> rest h s \<sigma> f0 f1 < k \<Longrightarrow>
      fit V f0 \<Longrightarrow> fit V f1 \<Longrightarrow> has_run s h f0 f1"
    and k: "k = rest h s \<sigma> e0 e1" and a: "sides v e e0 e1" "active h s v" "\<not> active h s e"
  shows "has_run s h e0 e1"
proof -
  have p: "subst_wf h s" "ex_ok v" "ex_ok e" "vars_in h s V" "ex_vars v \<subseteq> V" "ex_vars e \<subseteq> V" and fe: "fit V e"
    using h(1) e a(1) by (auto simp: state_ok_def fit_def sides_def)
  obtain q h1 where m: "cuex_subst_mref h s v = (q, h1)" by (cases "cuex_subst_mref h s v")
  note t = one_class [OF p(1) a(2,3) m]
  have "v \<in> V" using p(5) var_self [OF a(2) p(2)] by simp
  note tf = mref_freedom [OF p(1) a(2) this V p(4) m]
  show ?thesis
  proof (cases "value_of h1 q")
    case None
    then show ?thesis using var_occur [OF a m] var_bind [OF a m] by (cases "reaches h1 s e q") (auto simp: has_run_def)
  next
    case (Some x)
    note ok1 = wf_ok [OF t(1)]
    have fx: "fit V x" using okD(5) [OF ok1 t(3) Some] vars_inD [OF tf(1) t(3) Some] by (simp add: fit_def)
    have so: "solves h1 s {} \<sigma>" using h(3) steady_solves [OF t(2)] by simp
    have sx: "instance_of \<sigma> x = instance_of \<sigma> v" using solvesD(3) [OF so t(3) _ Some] instance_var [OF a(2) p(2)] by simp
    have nx: "\<not> active h1 s x" by (rule okD(6) [OF ok1 t(3) Some])
    have st: "state_ok h1 s V" "freedom h1 s V = u" using t(1) tf h(2) by (simp_all add: state_ok_def)
    show ?thesis
    proof (cases "e0 = v \<and> e1 = e")
      case True
      then have "rest h1 s \<sigma> x e < k" using k a(2) sx nx t(5) by (simp add: rest_def)
      then have "has_run s h1 x e" using near [OF st so _ fx fe] by simp
      then show ?thesis using var_left [OF a(2,3) m Some] True by (auto simp: has_run_def)
    next
      case False
      then have o: "e0 = e" "e1 = v" using a(1) by (auto simp: sides_def)
      then have "rest h1 s \<sigma> e x < k" using k a(2) nx t(5) by (simp add: rest_def)
      then have "has_run s h1 e x" using near [OF st so _ fe fx] by simp
      then show ?thesis using var_right [OF a(2,3) m Some] o by (auto simp: has_run_def)
    qed
  qed
qed

lemma run_exists:
  assumes V: "finite V"
  shows "state_ok h s V \<Longrightarrow> fit V e0 \<Longrightarrow> fit V e1 \<Longrightarrow> has_run s h e0 e1"
proof (induction "freedom h s V" arbitrary: h e0 e1 rule: less_induct)
  case less
  define u where "u = freedom h s V"
  have deep: "has_run s h' f0 f1" if "state_ok h' s V" "freedom h' s V < u" "fit V f0" "fit V f1" for h' f0 f1
    using less.hyps that by (simp add: u_def)
  obtain \<sigma> where so: "solves h s {} \<sigma>" using solvable less.prems(1) by (auto simp: state_ok_def)
  have "has_run s h e0 e1"
    if "state_ok h s V" "freedom h s V = u" "solves h s {} \<sigma>" "fit V e0" "fit V e1" for h e0 e1
    using that
  proof (induction "rest h s \<sigma> e0 e1" arbitrary: h e0 e1 rule: less_induct)
    case less
    note near = less.hyps
    note prems = less.prems
    consider "e0 = e1" | "e0 \<noteq> e1" "active h s e0" "active h s e1" | "active h s e0" "\<not> active h s e1" | "\<not> active h s e0" "active h s e1"
      | m es fs where "\<not> active h s e0" "\<not> active h s e1" "e0 = Opn m es" "e1 = Opn m fs" "es \<noteq> fs"
      | "\<not> active h s e0" "\<not> active h s e1" "e0 \<noteq> e1" "\<not> (\<exists>m es fs. e0 = Opn m es \<and> e1 = Opn m fs)"
      by blast
    then show ?case
    proof cases
      case 1
      then show ?thesis unfolding has_run_def using same by blast
    next
      case 2
      show ?thesis by (rule vars_total [OF V prems near refl 2])
    next
      case 3
      have "sides e0 e1 e0 e1" by (simp add: sides_def)
      from var_total [OF V prems near refl this 3] show ?thesis .
    next
      case 4
      have "sides e1 e0 e0 e1" by (simp add: sides_def)
      from var_total [OF V prems near refl this 4(2,1)] show ?thesis .
    next
      case 5
      have fit: "\<forall>e \<in> set es. fit V e" "\<forall>f \<in> set fs. fit V f" "length es = length fs"
        using prems(4,5) 5(3,4) by (auto simp: fit_def)
      have m: "\<not> cuex_is_varmeta m" using prems(4) 5(3) opr_not_var by (simp add: fit_def)
      have near': "has_run s h' f0 f1" if "state_ok h' s V" "freedom h' s V = u" "solves h' s {} \<sigma>"
        "size (instance_of \<sigma> f0) < size (instance_of \<sigma> e0)" "fit V f0" "fit V f1" for h' f0 f1
        using near [OF _ that(1-3,5,6)] that(4) 5 by (simp add: rest_def)
      have "\<forall>e \<in> set es. fit V e \<and> size (instance_of \<sigma> e) < size (instance_of \<sigma> e0)"
        using fit(1) operand_size [of _ "map (instance_of \<sigma>) es"] m 5(3) by auto
      then have "\<exists>r h'. operands_run s h es fs r h'"
        using operands_total [OF V deep near' prems(1) _ _ fit(2,3)] prems(2,3) by blast
      then show ?thesis using opn [OF 5(5), of h s m] 5(1-4) by (auto simp: has_run_def)
    next
      case 6
      show ?thesis using clash [OF 6(3,1,2,4)] by (auto simp: has_run_def)
    qed
  qed
  then show ?case using less.prems so by (simp add: u_def)
qed

section \<open>Fuel\<close>

definition returns :: "nat \<Rightarrow> subst_heap \<Rightarrow> cuex \<Rightarrow> cuex \<Rightarrow> cuex option \<Rightarrow> subst_heap \<Rightarrow> bool" where
  "returns s h e0 e1 r h' \<longleftrightarrow> (\<exists>n. \<forall>m \<ge> n. cuex_subst_unify_aux m None h s e0 e1 = Some (r, h'))"

lemma cross_occurs_enough:
  assumes wf: "subst_wf h s"
  shows "\<exists>n. \<forall>m \<ge> n. cross_occurs m h s q0 q1 = Some (crosses h s q0 q1, h)"
proof -
  have 1: "\<exists>n. \<forall>m \<ge> n. value_contains m h s p q = Some (\<exists>x. value_of h p = Some x \<and> reaches h s x q, h)" for p q
    using contains_enough [OF wf] by (cases "value_of h p") (auto simp: value_contains_def vq_value_of)
  obtain n0 n1 where n: "\<And>m. n0 \<le> m \<Longrightarrow> value_contains m h s q0 q1 = Some (\<exists>x. value_of h q0 = Some x \<and> reaches h s x q1, h)"
    "\<And>m. n1 \<le> m \<Longrightarrow> value_contains m h s q1 q0 = Some (\<exists>x. value_of h q1 = Some x \<and> reaches h s x q0, h)"
    using 1 [of q0 q1] 1 [of q1 q0] by blast
  have i: "sf_is_idem (subst_at h s)" using ok_simple [OF wf_ok [OF wf]] by (simp add: simple_frame_def)
  have "cross_occurs m h s q0 q1 = Some (crosses h s q0 q1, h)" if "max n0 n1 \<le> m" for m
    using n(1) [of m] n(2) [of m] that i by (auto simp: cross_occurs_def crosses_def split: bool.split)
  then show ?thesis by blast
qed

lemma bind_var_enough:
  assumes wf: "subst_wf h s"
  shows "\<exists>n. \<forall>m \<ge> n. bind_var m h s q v e = Some (if reaches h s e q then (None, h) else (Some v, set_value h q (Some e)))"
proof -
  obtain n where n: "\<And>m. n \<le> m \<Longrightarrow> cuex_subst_ex_contains_veqv m h s e q = Some (reaches h s e q, h)"
    using contains_enough [OF wf] by blast
  have i: "sf_is_idem (subst_at h s)" using ok_simple [OF wf_ok [OF wf]] by (simp add: simple_frame_def)
  have "bind_var m h s q v e = Some (if reaches h s e q then (None, h) else (Some v, set_value h q (Some e)))" if "n \<le> m" for m
    using n [OF that] i by (simp add: bind_var_def occur_check_and_set_var_def split: bool.split)
  then show ?thesis by blast
qed

lemma returns_later: "(\<And>m. n \<le> m \<Longrightarrow> cuex_subst_unify_aux (Suc m) None h s e0 e1 = Some (r, h')) \<Longrightarrow> returns s h e0 e1 r h'"
  unfolding returns_def by (metis Suc_le_D Suc_le_mono)

lemma returnsI: "(\<And>m. n \<le> m \<Longrightarrow> cuex_subst_unify_aux m None h s e0 e1 = Some (r, h')) \<Longrightarrow> returns s h e0 e1 r h'"
  unfolding returns_def by blast

lemma mref_qcset:
  "simple_frame h s \<Longrightarrow> cuex_subst_mref h s v = (q, h') \<Longrightarrow> sf_qcset (subst_at h' s) = sf_qcset (subst_at h s)"
  using mref_frame [of h s v q h'] by (simp add: same_frame_def)

lemma run_returns:
  "unify_run s h e0 e1 r h' \<Longrightarrow> subst_wf h s \<Longrightarrow> ex_ok e0 \<Longrightarrow> ex_ok e1 \<Longrightarrow> returns s h e0 e1 r h'"
  "operands_run s h es fs rs h' \<Longrightarrow> subst_wf h s \<Longrightarrow> \<forall>e \<in> set es. ex_ok e \<Longrightarrow> \<forall>f \<in> set fs. ex_ok f \<Longrightarrow>
    length es = length fs \<Longrightarrow> \<exists>n. \<forall>m \<ge> n. unify_operands m None h s es fs = Some (rs, h')"
proof (induction rule: unify_run_operands_run.inducts)
  case (same h e)
  then show ?case by (simp add: returns_def aux_same)
next
  case (vars_same e0 e1 h q h1 h2)
  have f: "e0 \<noteq> e1" "active h s e0" "active h s e1" "cuex_subst_mref h s e0 = (q, h1)" "cuex_subst_mref h1 s e1 = (q, h2)"
    and p: "subst_wf h s" by (fact vars_same)+
  show ?case using aux_vars [OF f mref_qcset [OF ok_simple [OF wf_ok [OF p]] f(4)]] by (simp add: returns_def)
next
  case (vars_occur e0 e1 h q0 h1 q1 h2)
  have f: "e0 \<noteq> e1" "active h s e0" "active h s e1" "cuex_subst_mref h s e0 = (q0, h1)" "cuex_subst_mref h1 s e1 = (q1, h2)"
    and c: "q0 \<noteq> q1" "crosses h2 s q0 q1" and p: "subst_wf h s" by (fact vars_occur)+
  obtain n where n: "\<And>m. n \<le> m \<Longrightarrow> cross_occurs m h2 s q0 q1 = Some (True, h2)"
    using cross_occurs_enough [OF two_classes(1) [OF p f(2-5)]] c(2) by metis
  show ?case
    by (rule returnsI [of n]) (simp add: aux_vars [OF f mref_qcset [OF ok_simple [OF wf_ok [OF p]] f(4)]] c n)
next
  case (vars_fail e0 e1 h q0 h1 q1 h2 x0 x1 h3)
  have f: "e0 \<noteq> e1" "active h s e0" "active h s e1" "cuex_subst_mref h s e0 = (q0, h1)" "cuex_subst_mref h1 s e1 = (q1, h2)"
    and c: "q0 \<noteq> q1" "\<not> crosses h2 s q0 q1" and x: "value_of h2 q0 = Some x0" "value_of h2 q1 = Some x1" and p: "subst_wf h s"
    and IH: "subst_wf h2 s \<Longrightarrow> ex_ok x0 \<Longrightarrow> ex_ok x1 \<Longrightarrow> returns s h2 x0 x1 None h3"
    by (fact vars_fail)+
  note t = two_classes [OF p f(2-5)]
  obtain n where n: "\<And>m. n \<le> m \<Longrightarrow> cross_occurs m h2 s q0 q1 = Some (False, h2)"
    using cross_occurs_enough [OF t(1)] c(2) by metis
  obtain k where k: "\<And>m. k \<le> m \<Longrightarrow> cuex_subst_unify_aux m None h2 s x0 x1 = Some (None, h3)"
    using IH [OF t(1) okD(5) [OF wf_ok [OF t(1)] t(3) x(1)] okD(5) [OF wf_ok [OF t(1)] t(4) x(2)]] by (auto simp: returns_def)
  show ?case
    by (rule returns_later [of "max n k"])
      (simp add: aux_vars [OF f mref_qcset [OF ok_simple [OF wf_ok [OF p]] f(4)]] c(1) n k x)
next
  case (vars_values e0 e1 h q0 h1 q1 h2 x0 x1 x h3)
  have f: "e0 \<noteq> e1" "active h s e0" "active h s e1" "cuex_subst_mref h s e0 = (q0, h1)" "cuex_subst_mref h1 s e1 = (q1, h2)"
    and c: "q0 \<noteq> q1" "\<not> crosses h2 s q0 q1" and x: "value_of h2 q0 = Some x0" "value_of h2 q1 = Some x1" and p: "subst_wf h s"
    and IH: "subst_wf h2 s \<Longrightarrow> ex_ok x0 \<Longrightarrow> ex_ok x1 \<Longrightarrow> returns s h2 x0 x1 (Some x) h3"
    by (fact vars_values)+
  note t = two_classes [OF p f(2-5)]
  obtain n where n: "\<And>m. n \<le> m \<Longrightarrow> cross_occurs m h2 s q0 q1 = Some (False, h2)"
    using cross_occurs_enough [OF t(1)] c(2) by metis
  obtain k where k: "\<And>m. k \<le> m \<Longrightarrow> cuex_subst_unify_aux m None h2 s x0 x1 = Some (Some x, h3)"
    using IH [OF t(1) okD(5) [OF wf_ok [OF t(1)] t(3) x(1)] okD(5) [OF wf_ok [OF t(1)] t(4) x(2)]] by (auto simp: returns_def)
  show ?case
    by (rule returns_later [of "max n k"])
      (simp add: aux_vars [OF f mref_qcset [OF ok_simple [OF wf_ok [OF p]] f(4)]] c(1) n k x join_result_def)
next
  case (vars_join e0 e1 h q0 h1 q1 h2 y)
  have f: "e0 \<noteq> e1" "active h s e0" "active h s e1" "cuex_subst_mref h s e0 = (q0, h1)" "cuex_subst_mref h1 s e1 = (q1, h2)"
    and c: "q0 \<noteq> q1" "\<not> crosses h2 s q0 q1" and x: "value_of h2 q0 = None \<or> value_of h2 q1 = None"
    and y: "y = either (value_of h2 q0) (value_of h2 q1)" and p: "subst_wf h s" by (fact vars_join)+
  obtain n where n: "\<And>m. n \<le> m \<Longrightarrow> cross_occurs m h2 s q0 q1 = Some (False, h2)"
    using cross_occurs_enough [OF two_classes(1) [OF p f(2-5)]] c(2) by metis
  have "cuex_subst_unify_aux m None h s e0 e1 = Some (either y (Some e0), join_classes h2 s q0 q1 y)" if "n \<le> m" for m
    using x n [OF that] c(1) aux_vars [OF f mref_qcset [OF ok_simple [OF wf_ok [OF p]] f(4)], of m None] unfolding y
    by (cases "value_of h2 q0"; cases "value_of h2 q1") (simp_all add: join_result_def)
  then show ?case by (rule returnsI)
next
  case (var_occur v e e0 e1 h q h1)
  have f: "active h s v" "\<not> active h s e" "cuex_subst_mref h s v = (q, h1)" and x: "value_of h1 q = None" "reaches h1 s e q"
    and p: "subst_wf h s" and o: "sides v e e0 e1" by (fact var_occur)+
  obtain n where n: "\<And>m. n \<le> m \<Longrightarrow> bind_var m h1 s q v e = Some (None, h1)"
    using bind_var_enough [OF one_class(1) [OF p f]] x(2) by metis
  note u = aux_left [OF f mref_qcset [OF ok_simple [OF wf_ok [OF p]] f(3)]] aux_right [OF f mref_qcset [OF ok_simple [OF wf_ok [OF p]] f(3)]]
  show ?case by (rule returnsI [of n]) (use o in \<open>auto simp: sides_def u x n\<close>)
next
  case (var_bind v e e0 e1 h q h1)
  have f: "active h s v" "\<not> active h s e" "cuex_subst_mref h s v = (q, h1)" and x: "value_of h1 q = None" "\<not> reaches h1 s e q"
    and p: "subst_wf h s" and o: "sides v e e0 e1" by (fact var_bind)+
  obtain n where n: "\<And>m. n \<le> m \<Longrightarrow> bind_var m h1 s q v e = Some (Some v, set_value h1 q (Some e))"
    using bind_var_enough [OF one_class(1) [OF p f]] x(2) by metis
  note u = aux_left [OF f mref_qcset [OF ok_simple [OF wf_ok [OF p]] f(3)]] aux_right [OF f mref_qcset [OF ok_simple [OF wf_ok [OF p]] f(3)]]
  show ?case by (rule returnsI [of n]) (use o in \<open>auto simp: sides_def u x n\<close>)
next
  case (var_left h v e q h1 x r h2)
  have f: "active h s v" "\<not> active h s e" "cuex_subst_mref h s v = (q, h1)" and x: "value_of h1 q = Some x"
    and p: "subst_wf h s" "ex_ok e" and IH: "subst_wf h1 s \<Longrightarrow> ex_ok x \<Longrightarrow> ex_ok e \<Longrightarrow> returns s h1 x e r h2"
    by (fact var_left)+
  note t = one_class [OF p(1) f]
  obtain k where k: "\<And>m. k \<le> m \<Longrightarrow> cuex_subst_unify_aux m None h1 s x e = Some (r, h2)"
    using IH [OF t(1) okD(5) [OF wf_ok [OF t(1)] t(3) x] p(2)] by (auto simp: returns_def)
  show ?case
    by (rule returns_later [of k]) (simp add: aux_left [OF f mref_qcset [OF ok_simple [OF wf_ok [OF p(1)]] f(3)]] x k stored_result)
next
  case (var_right h v e q h1 x r h2)
  have f: "active h s v" "\<not> active h s e" "cuex_subst_mref h s v = (q, h1)" and x: "value_of h1 q = Some x"
    and p: "subst_wf h s" "ex_ok e" and IH: "subst_wf h1 s \<Longrightarrow> ex_ok e \<Longrightarrow> ex_ok x \<Longrightarrow> returns s h1 e x r h2"
    by (fact var_right)+
  note t = one_class [OF p(1) f]
  obtain k where k: "\<And>m. k \<le> m \<Longrightarrow> cuex_subst_unify_aux m None h1 s e x = Some (r, h2)"
    using IH [OF t(1) p(2) okD(5) [OF wf_ok [OF t(1)] t(3) x]] by (auto simp: returns_def)
  show ?case
    by (rule returns_later [of k]) (simp add: aux_right [OF f mref_qcset [OF ok_simple [OF wf_ok [OF p(1)]] f(3)]] x k stored_result)
next
  case (clash e0 e1 h)
  then show ?case using aux_clash [of e0 e1 h s] by (simp add: returns_def)
next
  case (opn es fs h m r h')
  have f: "es \<noteq> fs" "\<not> active h s (Opn m es)" "\<not> active h s (Opn m fs)"
    and p: "subst_wf h s" "ex_ok (Opn m es)" "ex_ok (Opn m fs)"
    and IH: "subst_wf h s \<Longrightarrow> \<forall>e \<in> set es. ex_ok e \<Longrightarrow> \<forall>f \<in> set fs. ex_ok f \<Longrightarrow> length es = length fs \<Longrightarrow>
      \<exists>n. \<forall>m \<ge> n. unify_operands m None h s es fs = Some (r, h')"
    by (fact opn)+
  obtain n where "\<And>k. n \<le> k \<Longrightarrow> unify_operands k None h s es fs = Some (r, h')" using IH p by auto
  then show ?case by (intro returnsI [of n]) (simp add: aux_opn [OF f])
next
  case (nil h fs)
  then show ?case by simp
next
  case (cons_fail h e fs h' es)
  obtain f fs' where fs: "fs = f # fs'" using cons_fail.prems by (cases fs) auto
  then have "returns s h e f None h'" using cons_fail by auto
  then obtain n where n: "\<And>m. n \<le> m \<Longrightarrow> cuex_subst_unify_aux m None h s e f = Some (None, h')" by (auto simp: returns_def)
  then have "unify_operands m None h s (e # es) fs = Some (None, h')" if "n \<le> m" for m using that fs by simp
  then show ?case by blast
next
  case (cons h e fs y h1 es r h2)
  obtain f fs' where fs: "fs = f # fs'" using cons.prems by (cases fs) auto
  have run: "unify_run s h e f (Some y) h1" and p: "subst_wf h s" "ex_ok e" "ex_ok f" and "returns s h e f (Some y) h1"
    using cons fs by auto
  then obtain n where n: "\<And>m. n \<le> m \<Longrightarrow> cuex_subst_unify_aux m None h s e f = Some (Some y, h1)" by (auto simp: returns_def)
  have "effect h h1 s e f y" using run_outcome(1) [OF run p] by simp
  then have "\<exists>n. \<forall>m \<ge> n. unify_operands m None h1 s es fs' = Some (r, h2)" using cons fs effectD(1) by auto
  then obtain k where k: "\<And>m. k \<le> m \<Longrightarrow> unify_operands m None h1 s es fs' = Some (r, h2)" by blast
  have "unify_operands m None h s (e # es) fs = Some (map_option ((#) y) r, h2)" if "max n k \<le> m" for m
    using n [of m] k [of m] that fs by (cases r) simp_all
  then show ?case by blast
qed

end
