(* ===== verification/SubstBugs.thy ===== *)
theory SubstBugs
  imports SubstView
begin

text \<open>
  Where the code of \<^verbatim>\<open>cuex/subst.c\<close> does not do what it is meant to do: the test for the identity, merging a frame that
  has no other user, and blocked variables.
\<close>

section \<open>The test for the identity\<close>

lemma is_identity_stays:
  "list_all (subst_is_identity_cb h) (sf_var_to_veqv (subst_at h s)) \<Longrightarrow> cuex_subst_is_identity n h (Some s) = None"
  by (induction n) auto

text \<open>
  \<^verbatim>\<open>cuex_subst_is_identity\<close> returns false if a class of the frame has a value or a second variable. Otherwise it never returns,
  as it does not go on to the shadowed frame; so it is true of no frame.\<close>

lemma is_identity_outcome:
  "cuex_subst_is_identity n h (Some s) =
    (if n = 0 \<or> list_all (subst_is_identity_cb h) (sf_var_to_veqv (subst_at h s)) then None else Some False)"
  by (cases n) (auto simp: is_identity_stays)

section \<open>Merging\<close>

text \<open>When a frame that is not the larger one is moved into the frame that shadows it, its classes win.\<close>

lemma merge_move_fold:
  "s < length (sh_substs h) \<Longrightarrow> distinct (map fst m) \<Longrightarrow>
    class_of (fold (subst_merge_cb_move s) m h) s v = (case map_of m v of Some q \<Rightarrow> Some q | None \<Rightarrow> class_of h s v)"
proof (induction m arbitrary: h)
  case (Cons slot m)
  obtain w q where slot: "slot = (w, q)" by (cases slot)
  have "map_of m w = None" using Cons.prems(2) slot by (simp add: map_of_eq_None_iff)
  then show ?case using Cons slot by (auto simp: subst_merge_cb_move_def split: option.splits)
qed simp

lemma shadowed_class_wins:
  assumes sh: "sf_shadowed (subst_at h d) = Some src" and one: "sf_clone_cnt (subst_at h src) = 1" and d: "d < length (sh_substs h)"
    and le: "length (sf_var_to_veqv (subst_at h src)) \<le> length (sf_var_to_veqv (subst_at h d))"
    and dist: "distinct (map fst (sf_var_to_veqv (subst_at h src)))"
  shows "class_of (subst_merge h d) d v = (case class_of h src v of Some q \<Rightarrow> Some q | None \<Rightarrow> class_of h d v)"
proof -
  define h1 where "h1 = fold (subst_merge_cb_move d) (sf_var_to_veqv (subst_at h src)) h"
  have "length (sh_substs (fold (subst_merge_cb_move d) m h)) = length (sh_substs h)" for m
    by (induction m arbitrary: h) (simp_all add: subst_merge_cb_move_def)
  then have "d < length (sh_substs h1)" using d by (simp add: h1_def)
  then have "class_of (subst_merge h d) d v = class_of h1 d v"
    using sh one le by (simp add: subst_merge_def Let_def h1_def class_of_def subst_at_def subst_upd_def)
  also have "\<dots> = (case class_of h src v of Some q \<Rightarrow> Some q | None \<Rightarrow> class_of h d v)"
    unfolding h1_def by (simp add: merge_move_fold [OF d dist] class_of_def [of h src] pmap_find_def)
  finally show ?thesis .
qed

definition sv :: "nat \<Rightarrow> cuex" where "sv i = Obj (cuex_varmeta_kqi 0 cuex_qcode_e 0) i"
definition sk :: cuex where "sk = Opn (cuex_opr 0 0) []"
definition sq :: u64 where "sq = cuex_qcset_singleton cuex_qcode_e"
definition sheap :: subst_heap where "sheap = \<lparr>sh_veqvs = [], sh_substs = [], sh_next_var = 9, sh_block = cuex_opr 5 1\<rparr>"

definition bind_opt :: "'a option \<Rightarrow> ('a \<Rightarrow> 'b option) \<Rightarrow> 'b option" where
  "bind_opt x f = (case x of None \<Rightarrow> None | Some a \<Rightarrow> f a)"

text \<open>
  A frame in which two variables are equal, a clone of it in which they have a value, a clone of that, and
  then the middle one is deleted.
\<close>

definition clone_chain :: "(nat \<times> subst_heap) option" where
  "clone_chain =
     (case cuex_subst_new sheap sq of (a, h) \<Rightarrow>
        bind_opt (cuex_subst_unify 5 h a (sv 0) (sv 1)) (\<lambda>(_, h).
        bind_opt (cuex_subst_new_clone 5 h (Some a) sq) (\<lambda>(b, h).
        bind_opt (cuex_subst_unify 5 h b (sv 0) sk) (\<lambda>(_, h).
        bind_opt (cuex_subst_new_clone 5 h (Some b) sq) (\<lambda>(c, h).
          Some (c, cuex_subst_delete h b))))))"

text \<open>
  \<^verbatim>\<open>cuex_subst_flatten\<close> can lose a binding: merging a frame that no other one uses replaces what the newer frame
  has by what the older one has, so that a variable with a value has none afterwards.\<close>

lemma flatten_loses_value:
  "bind_opt clone_chain (\<lambda>(c, h). Some (fst (cuex_subst_lookup h c (sv 0)))) = Some (Some sk) \<and>
   bind_opt clone_chain (\<lambda>(c, h). bind_opt (cuex_subst_flatten 5 h (Some c)) (\<lambda>h. Some (fst (cuex_subst_lookup h c (sv 0))))) =
     Some (Some (sv 1))"
  by code_simp

section \<open>Blocked variables\<close>

lemma blocked_lookup_apply:
  assumes c: "cuex_subst_cref h s v = (Some q, h)" and x: "value_of h q = Some x" "is_blocked h x"
    and v: "v = Obj m i" "cuex_is_varmeta m" and two: "tl (vars_of h q) \<noteq> []"
  shows "cuex_subst_lookup h s v = (Some (hd (vars_of h q)), h)" "subst_apply n h s v = Some (v, h)"
  using assms by (simp_all add: cuex_subst_lookup_def value_of_def vars_of_def)

text \<open>
  Two variables are made equal, blocked, and looked up or replaced: the lookup of both gives the primary one, as do
  the free variables, but applying the substitution gives each of them back as it was.
\<close>

definition blocked_pair :: "(nat \<times> subst_heap) option" where
  "blocked_pair =
     (case cuex_subst_new sheap sq of (a, h) \<Rightarrow>
        bind_opt (cuex_subst_unify 5 h a (sv 0) (sv 1)) (\<lambda>(_, h). Some (a, cuex_subst_block h a (sv 0))))"

text \<open>
  For a blocked variable \<^verbatim>\<open>cuex_subst_lookup\<close> and \<^verbatim>\<open>cuex_subst_free_vars_insert\<close> give the primary variable of its class, but
  \<^verbatim>\<open>cuex_subst_apply\<close> gives the variable itself, so that it tells variables apart that were unified.\<close>

lemma apply_ignores_blocked_pair:
  "bind_opt blocked_pair (\<lambda>(a, h). Some (fst (cuex_subst_lookup h a (sv 0)))) = Some (Some (sv 1)) \<and>
   bind_opt blocked_pair (\<lambda>(a, h). map_option fst (cuex_subst_free_vars_insert 5 h a (sv 0) {})) = Some {sv 1} \<and>
   bind_opt blocked_pair (\<lambda>(a, h). map_option fst (cuex_subst_apply 5 h (Some a) (sv 0))) = Some (Some (sv 0)) \<and>
   bind_opt blocked_pair (\<lambda>(a, h). map_option fst (cuex_subst_apply 5 h (Some a) (sv 1))) = Some (Some (sv 1))"
  by (intro conjI; code_simp)

text \<open>
  The operands of an operation are replaced repeatedly, although \<^verbatim>\<open>cuex_subst_expand\<close> is documented to be a single
  expansion.
\<close>

lemma expand_is_not_single:
  "bind_opt (cuex_subst_unify 5 (snd (cuex_subst_new sheap sq)) 0 (sv 0) (Opn (cuex_opr 1 1) [sv 1]))
     (\<lambda>(_, h). bind_opt (cuex_subst_unify 5 h 0 (sv 1) sk) (\<lambda>(_, h).
        Some (map_option fst (cuex_subst_expand 5 h (Some 0) (sv 0)),
              map_option fst (cuex_subst_expand 5 h (Some 0) (Opn (cuex_opr 2 1) [sv 0]))))) =
   Some (Some (Opn (cuex_opr 1 1) [sv 1]), Some (Opn (cuex_opr 2 1) [Opn (cuex_opr 1 1) [sk]]))"
  by code_simp

end
