(* ===== verification/SubstProps.thy ===== *)
theory SubstProps
  imports SubstReturns SubstBugs
begin

text \<open>
  What unification promises, and applying a substitution: the variables are replaced by the canonical solution, of
  which every solution is an instance.
\<close>

definition subst_valid :: "subst_heap \<Rightarrow> nat \<Rightarrow> bool" where
  "subst_valid h s \<longleftrightarrow> subst_wf h s \<and> (\<forall>v q. class_of h s v = Some q \<longrightarrow> ex_ok v)"

definition unblocked :: "subst_heap \<Rightarrow> nat \<Rightarrow> bool" where
  "unblocked h s \<longleftrightarrow> (\<forall>q x. live h s q \<and> value_of h q = Some x \<longrightarrow> \<not> is_blocked h x)"

definition unifies :: "subst_heap \<Rightarrow> nat \<Rightarrow> (cuex \<Rightarrow> cuex) \<Rightarrow> cuex \<Rightarrow> cuex \<Rightarrow> bool" where
  "unifies h s \<sigma> e0 e1 \<longleftrightarrow> solves h s {} \<sigma> \<and> instance_of \<sigma> e0 = instance_of \<sigma> e1"

section \<open>Unification\<close>

lemma finite_vars: "finite (ex_vars e)"
  by (induction e) auto

lemma ex_vars_ok: "v \<in> ex_vars e \<Longrightarrow> ex_ok v \<and> ex_vars v = {v} \<and> cuex_is_varmeta (cuex_meta v)"
  by (induction e) (auto simp: opr_not_var split: if_splits)

text \<open>The variables that a frame and two expressions mention.\<close>

definition mentioned :: "subst_heap \<Rightarrow> nat \<Rightarrow> cuex set" where
  "mentioned h s = (\<Union>v \<in> dom (class_of h s). insert v
     (case value_of h (the (class_of h s v)) of None \<Rightarrow> {} | Some x \<Rightarrow> ex_vars x))"

lemma mentioned_finite: "finite (mentioned h s)"
proof -
  have "class_of h s = map_of (sf_var_to_veqv (subst_at h s))" by (simp add: class_of_def pmap_find_def fun_eq_iff)
  then have "finite (dom (class_of h s))" by (simp add: finite_dom_map_of)
  then show ?thesis by (auto simp: mentioned_def finite_vars split: option.split)
qed

lemma mentioned_vars: "vars_in h s (mentioned h s \<union> W)"
  unfolding vars_in_def mentioned_def by force

lemma mentioned_ok: "subst_valid h s \<Longrightarrow> v \<in> mentioned h s \<Longrightarrow> ex_ok v"
  by (auto simp: mentioned_def subst_valid_def split: option.splits dest: ex_vars_ok)

lemma aux_of_unify:
  assumes wf: "subst_wf h s" and u: "cuex_subst_unify n h s e0 e1 = Some (b, h')"
  obtains r where "unify_run s h e0 e1 r h'" "b \<longleftrightarrow> r \<noteq> None"
proof -
  obtain r where r: "cuex_subst_unify_aux n None h s e0 e1 = Some (r, h')" "b \<longleftrightarrow> r \<noteq> None"
    using u by (auto simp: cuex_subst_unify_def split: option.splits)
  have "unify_run s h e0 e1 r h'" using is_runD [OF code_is_run ok_simple [OF wf_ok [OF wf]] r(1)] by simp
  then show thesis using that r(2) by blast
qed

lemma run_valid:
  assumes h: "subst_valid h s" and e: "ex_ok e0" "ex_ok e1" and run: "unify_run s h e0 e1 (Some y) h'"
  shows "subst_valid h' s"
proof -
  define V where "V = mentioned h s \<union> (ex_vars e0 \<union> ex_vars e1)"
  have V: "finite V" "vars_in h s V" "ex_vars e0 \<subseteq> V" "ex_vars e1 \<subseteq> V"
    using mentioned_finite finite_vars mentioned_vars by (auto simp: V_def)
  have wf: "subst_wf h s" using h by (simp add: subst_valid_def)
  have "vars_in h' s V" using run_narrowing(1) [OF V(1) run wf e V(2-4)] by (simp add: narrows_def)
  moreover have "ex_ok v" if "v \<in> V" for v using that mentioned_ok [OF h] ex_vars_ok by (auto simp: V_def)
  moreover have "subst_wf h' s" using run_outcome(1) [OF run wf e] effectD(1) by simp
  ultimately show ?thesis by (auto simp: subst_valid_def vars_in_def)
qed

lemma unify_spec:
  assumes h: "subst_valid h s" and e: "ex_ok e0" "ex_ok e1" and u: "cuex_subst_unify n h s e0 e1 = Some (b, h')"
  shows "(b \<longleftrightarrow> (\<exists>\<sigma>. unifies h s \<sigma> e0 e1)) \<and>
    (b \<longrightarrow> subst_valid h' s \<and> (\<forall>\<sigma>. solves h' s {} \<sigma> \<longleftrightarrow> unifies h s \<sigma> e0 e1))"
proof -
  have wf: "subst_wf h s" using h by (simp add: subst_valid_def)
  obtain r where r: "unify_run s h e0 e1 r h'" "b \<longleftrightarrow> r \<noteq> None" by (rule aux_of_unify [OF wf u])
  have o: "outcome h s e0 e1 r h'" by (rule run_outcome(1) [OF r(1) wf e])
  show ?thesis
  proof (cases r)
    case None
    then show ?thesis using o r(2) by (auto simp: unifies_def)
  next
    case (Some y)
    then have ef: "effect h h' s e0 e1 y" using o by simp
    have "\<exists>\<sigma>. solves h' s {} \<sigma>" by (rule solvable [OF effectD(1) [OF ef]])
    then show ?thesis using effect_all(1) [OF ef] run_valid [OF h e] r Some by (auto simp: unifies_def)
  qed
qed


section \<open>Applying a substitution\<close>

declare canon.simps [simp del]

lemma instance_opn: "instance_of \<sigma> (Opn m es) = Opn m (map (instance_of \<sigma>) es)"
  by simp

lemma instance_self: "ex_vars v = {v} \<Longrightarrow> instance_of \<sigma> v = \<sigma> v"
  using ex_vars_ok [of v v] opr_not_var by (cases v) auto

lemma instance_twice: "instance_of \<sigma> (instance_of \<theta> e) = instance_of (\<lambda>u. instance_of \<sigma> (\<theta> u)) e"
proof (induction e)
  case (Opn m es)
  have "map (\<lambda>x. instance_of \<sigma> (instance_of \<theta> x)) es = map (instance_of (\<lambda>u. instance_of \<sigma> (\<theta> u))) es"
    by (rule map_cong [OF refl]) (rule Opn.IH)
  then show ?case by (simp only: instance_opn list.map_comp comp_def)
next
  case (Obj m i)
  show ?case by (cases "cuex_is_varmeta m") simp_all
qed

lemma canon_step:
  assumes h: "subst_valid h s" and so: "solves h s {} \<sigma>"
    and IH: "\<And>v. ex_vars v = {v} \<Longrightarrow> instance_of \<sigma> (canon h s k v) = \<sigma> v" and v: "ex_vars v = {v}"
  shows "instance_of \<sigma> (canon h s (Suc k) v) = \<sigma> v"
proof (cases "class_of h s v")
  case None
  then show ?thesis using instance_self [OF v] by (simp add: canon.simps)
next
  case (Some q)
  have wf: "subst_wf h s" and keys: "\<And>v q. class_of h s v = Some q \<Longrightarrow> ex_ok v" using h by (auto simp: subst_valid_def)
  show ?thesis
  proof (cases "value_of h q")
    case None
    have "hd (vars_of h q) \<in> set (vars_of h q)" using okD(4) [OF wf_ok [OF wf] Some] by simp
    then have w: "class_of h s (hd (vars_of h q)) = Some q" using okD(3) [OF wf_ok [OF wf] Some] by auto
    have "ex_vars (hd (vars_of h q)) = {hd (vars_of h q)}" by (rule var_self [OF okD(1) [OF wf_ok [OF wf] w] keys [OF w]])
    then show ?thesis using instance_self solvesD(2) [OF so Some _ w] Some None by (simp add: canon.simps)
  next
    case val: (Some x)
    have "instance_of (\<lambda>u. instance_of \<sigma> (canon h s k u)) x = instance_of \<sigma> x"
      by (rule instance_cong) (rule IH, simp add: ex_vars_ok)
    moreover have "\<sigma> v = instance_of \<sigma> x" by (rule solvesD(3) [OF so Some _ val]) simp
    ultimately show ?thesis using instance_twice [where \<sigma> = \<sigma> and \<theta> = "canon h s k" and e = x] Some val by (simp add: canon.simps)
  qed
qed

lemma canon_general:
  assumes "subst_valid h s" "solves h s {} \<sigma>"
  shows "ex_vars v = {v} \<Longrightarrow> instance_of \<sigma> (canon h s k v) = \<sigma> v"
proof (induction k arbitrary: v)
  case 0
  then show ?case using instance_self by (simp add: canon.simps)
next
  case (Suc k)
  show ?case by (rule canon_step [OF assms Suc.IH Suc.prems])
qed

lemma apply_canon:
  "simple_frame h s \<Longrightarrow> ranked h s r \<Longrightarrow> unblocked h s \<Longrightarrow> \<forall>a \<in> classes_in h s e. r a < n \<Longrightarrow>
    subst_apply n h s e = Some (instance_of (canon h s (Suc n)) e, h)"
  "simple_frame h s \<Longrightarrow> ranked h s r \<Longrightarrow> unblocked h s \<Longrightarrow> \<forall>e \<in> set es. \<forall>a \<in> classes_in h s e. r a < n \<Longrightarrow>
    apply_operands n h s es = Some (map (instance_of (canon h s (Suc n))) es, h)"
proof (induction n h s e and n h s es rule: subst_apply_apply_operands.induct)
  case (1 n h s m i)
  show ?case
  proof (cases "\<exists>p x. cuex_is_varmeta m \<and> class_of h s (Obj m i) = Some p \<and> value_of h p = Some x")
    case False
    then show ?thesis using 1(2) by (auto simp: cref_simple vq_value_of vars_of_def canon.simps split: option.splits)
  next
    case True
    then obtain p x where p: "cuex_is_varmeta m" "class_of h s (Obj m i) = Some p" "value_of h p = Some x" by blast
    have nb: "\<not> is_blocked h x" using 1(4) p(2,3) by (auto simp: unblocked_def live_def)
    have "r p < n" using 1(5) p by (simp add: classes_in_def)
    then obtain k where n: "n = Suc k" by (cases n) auto
    have "\<forall>a \<in> classes_in h s x. r a < k"
    proof
      fix a assume "a \<in> classes_in h s x"
      then have "(a, p) \<in> dep h s" using p(2,3) by (auto simp: dep_def live_def)
      then show "r a < k" using 1(3) \<open>r p < n\<close> n by (fastforce simp: ranked_def)
    qed
    then have "subst_apply k h s x = Some (instance_of (canon h s (Suc k)) x, h)"
      using 1(1) [OF p(1) _ refl _ _ n] 1(2-4) p nb by (simp add: cref_simple vq_value_of)
    moreover have "canon h s (Suc n) (Obj m i) = instance_of (canon h s n) x" using p by (simp add: canon.simps)
    ultimately show ?thesis using p nb n 1(2) by (simp add: cref_simple vq_value_of)
  qed
qed (auto simp: cuex_opn_by_arr_def)

lemma apply_spec:
  assumes h: "subst_valid h s" and b: "unblocked h s"
  shows "\<exists>\<theta>. solves h s {} \<theta> \<and> (\<forall>\<sigma> e. solves h s {} \<sigma> \<longrightarrow> instance_of \<sigma> (instance_of \<theta> e) = instance_of \<sigma> e) \<and>
    (\<forall>e. \<exists>n. \<forall>m \<ge> n. cuex_subst_apply m h (Some s) e = Some (Some (instance_of \<theta> e), h))"
proof -
  have wf: "subst_wf h s" using h by (simp add: subst_valid_def)
  note sf = ok_simple [OF wf_ok [OF wf]]
  obtain r where r: "ranked h s r" using wf by (auto simp: subst_wf_def)
  obtain k where k: "\<And>m v. k \<le> m \<Longrightarrow> canon h s m v = canon h s k v" using canon_fixed [OF wf] by blast
  define \<theta> where "\<theta> = canon h s k"
  have eq: "canon h s m = \<theta>" if "k \<le> m" for m using k [OF that] by (simp add: \<theta>_def fun_eq_iff)
  have 1: "solves h s {} \<theta>" unfolding \<theta>_def by (rule canon_solves [OF wf]) (rule k, simp)
  have 2: "instance_of \<sigma> (instance_of \<theta> e) = instance_of \<sigma> e" if so: "solves h s {} \<sigma>" for \<sigma> e
  proof -
    have "instance_of \<sigma> (instance_of \<theta> e) = instance_of (\<lambda>u. instance_of \<sigma> (\<theta> u)) e"
      by (rule instance_twice)
    also have "\<dots> = instance_of \<sigma> e"
      unfolding \<theta>_def
      by (rule instance_cong) (rule canon_general [OF h so], simp add: ex_vars_ok)
    finally show ?thesis .
  qed
  have 3: "\<exists>n. \<forall>m \<ge> n. cuex_subst_apply m h (Some s) e = Some (Some (instance_of \<theta> e), h)" for e
  proof -
    obtain n where n: "\<forall>a \<in> classes_in h s e. r a < n"
      using finite_classes finite_nat_set_iff_bounded [of "r ` classes_in h s e"] by auto
    have "cuex_subst_apply m h (Some s) e = Some (Some (instance_of \<theta> e), h)" if "max n k \<le> m" for m
    proof -
      have "\<forall>a \<in> classes_in h s e. r a < m" using n that by auto
      then show ?thesis using apply_canon(1) [OF sf r b] eq [of "Suc m"] that sf by (simp add: cuex_subst_apply_def simple_frame_def)
    qed
    then show ?thesis by blast
  qed
  show ?thesis using 1 2 3 by blast
qed

section \<open>New frames\<close>

lemma new_frame_valid:
  assumes "cuex_subst_new h qcs = (s, h')"
  shows "subst_valid h' s" "class_of h' s v = None"
proof -
  have h': "s = length (sh_substs h)" "h' = h\<lparr>sh_substs := sh_substs h @ [subst_init None qcs True]\<rparr>"
    using assms by (simp_all add: cuex_subst_new_def subst_alloc_def)
  have f: "subst_at h' s = subst_init None qcs True" by (simp add: h' subst_at_def)
  show c: "class_of h' s v = None" for v by (simp add: class_of_def f subst_init_def pmap_find_def)
  have "subst_ok h' s" using c by (simp add: subst_ok_def simple_frame_def f subst_init_def) (simp add: h')
  moreover have "ranked h' s (\<lambda>_. 0)" using c by (simp add: ranked_def dep_def live_def)
  ultimately show "subst_valid h' s" using c by (auto simp: subst_valid_def subst_wf_def)
qed

lemma unblocked_list:
  assumes "subst_valid h s" "list_all (\<lambda>vq. case vq_value vq of None \<Rightarrow> True | Some x \<Rightarrow> \<not> is_blocked h x) (sh_veqvs h)"
  shows "unblocked h s"
  unfolding unblocked_def
proof (intro allI impI; elim conjE)
  fix q x assume q: "live h s q" "value_of h q = Some x"
  then have "q < length (sh_veqvs h)" using assms(1) okD(2) by (auto simp: subst_valid_def subst_wf_def live_def)
  then have "sh_veqvs h ! q \<in> set (sh_veqvs h)" by simp
  then show "\<not> is_blocked h x" using assms(2) q(2) by (auto simp: list_all_iff value_of_def veqv_at_def)
qed

section \<open>Properties\<close>

text \<open>C13:
  \<^verbatim>\<open>cuex_subst_unify\<close> on a well-formed idempotent frame without shadowed frames: if it returns true, the frame is well formed again and its
  solutions are those of the equations that it had before and the new equation of the two expressions; it returns
  true exactly if there are such solutions. So it never misses a unifier, rejects every cyclic equation and adds no
  constraint but what is asked for.\<close>

theorem unify_most_general:
  assumes "subst_valid h s" "ex_ok e0" "ex_ok e1" "cuex_subst_unify n h s e0 e1 = Some (b, h')"
  shows "(b \<longleftrightarrow> (\<exists>\<sigma>. solves h s {} \<sigma> \<and> instance_of \<sigma> e0 = instance_of \<sigma> e1)) \<and>
    (b \<longrightarrow> subst_valid h' s \<and> (\<forall>\<sigma>. solves h' s {} \<sigma> \<longleftrightarrow> solves h s {} \<sigma> \<and> instance_of \<sigma> e0 = instance_of \<sigma> e1))"
  using unify_spec [OF assms] by (simp add: unifies_def)

definition up_heap :: subst_heap where "up_heap = snd (cuex_subst_new sheap sq)"
definition up0 :: cuex where "up0 = Opn (cuex_opr 1 2) [sv 0, Opn (cuex_opr 2 1) [sv 1]]"
definition up1 :: cuex where "up1 = Opn (cuex_opr 1 2) [Opn (cuex_opr 2 1) [sv 2], sv 0]"

lemma up_valid: "subst_valid up_heap 0"
proof -
  have "cuex_subst_new sheap sq = (0, up_heap)" by (simp add: up_heap_def cuex_subst_new_def subst_alloc_def sheap_def)
  then show ?thesis by (rule new_frame_valid(1))
qed

lemma up_ok: "ex_ok up0" "ex_ok up1" "ex_ok (sv 0)"
  by code_simp+

lemma up_unify: "\<exists>h'. cuex_subst_unify 9 up_heap 0 up0 up1 = Some (True, h') \<and>
    list_all (\<lambda>vq. case vq_value vq of None \<Rightarrow> True | Some x \<Rightarrow> \<not> is_blocked h' x) (sh_veqvs h')"
proof -
  have "map_option (\<lambda>(b, h'). b \<and> list_all (\<lambda>vq. case vq_value vq of None \<Rightarrow> True | Some x \<Rightarrow> \<not> is_blocked h' x) (sh_veqvs h'))
      (cuex_subst_unify 9 up_heap 0 up0 up1) = Some True"
    by code_simp
  then show ?thesis by auto
qed

lemma unify_most_general_witness:
  "\<exists>h'. cuex_subst_unify 9 up_heap 0 up0 up1 = Some (True, h') \<and> subst_valid h' 0 \<and>
    (\<exists>\<sigma>. solves up_heap 0 {} \<sigma> \<and> instance_of \<sigma> up0 = instance_of \<sigma> up1)"
proof -
  obtain h' where u: "cuex_subst_unify 9 up_heap 0 up0 up1 = Some (True, h')" using up_unify by blast
  show ?thesis using unify_most_general [OF up_valid up_ok(1,2) u] u by blast
qed



text \<open>C15:
  Unification followed by \<^verbatim>\<open>cuex_subst_apply\<close>: if \<^verbatim>\<open>cuex_subst_unify\<close> returns true and no variable is blocked, applying the substitution
  returns for every expression, replaces variables according to one solution \<open>\<theta>\<close> of the frame that every other
  solution factors through, and gives the same object for the two unified expressions.\<close>

theorem apply_after_unify:
  assumes "subst_valid h s" "ex_ok e0" "ex_ok e1" "cuex_subst_unify n h s e0 e1 = Some (True, h')" "unblocked h' s"
  shows "\<exists>\<theta>. solves h' s {} \<theta> \<and> instance_of \<theta> e0 = instance_of \<theta> e1 \<and>
    (\<forall>\<sigma> e. solves h s {} \<sigma> \<and> instance_of \<sigma> e0 = instance_of \<sigma> e1 \<longrightarrow> instance_of \<sigma> (instance_of \<theta> e) = instance_of \<sigma> e) \<and>
    (\<forall>e. \<exists>k. \<forall>m \<ge> k. cuex_subst_apply m h' (Some s) e = Some (Some (instance_of \<theta> e), h'))"
proof -
  have u: "subst_valid h' s" "\<And>\<sigma>. solves h' s {} \<sigma> \<longleftrightarrow> unifies h s \<sigma> e0 e1" using unify_spec [OF assms(1-4)] by simp_all
  show ?thesis using apply_spec [OF u(1) assms(5)] unfolding u(2) by (auto simp: unifies_def)
qed

lemma apply_after_unify_witness:
  "\<exists>h' x. cuex_subst_unify 9 up_heap 0 up0 up1 = Some (True, h') \<and>
    (\<exists>m. cuex_subst_apply m h' (Some 0) up0 = Some (Some x, h') \<and> cuex_subst_apply m h' (Some 0) up1 = Some (Some x, h'))"
proof -
  obtain h' where u: "cuex_subst_unify 9 up_heap 0 up0 up1 = Some (True, h')"
    and l: "list_all (\<lambda>vq. case vq_value vq of None \<Rightarrow> True | Some x \<Rightarrow> \<not> is_blocked h' x) (sh_veqvs h')" using up_unify by blast
  have "subst_valid h' 0" using unify_spec [OF up_valid up_ok(1,2) u] by simp
  note ub = unblocked_list [OF this l]
  obtain \<theta> where t: "instance_of \<theta> up0 = instance_of \<theta> up1"
    "\<And>e. \<exists>k. \<forall>m \<ge> k. cuex_subst_apply m h' (Some 0) e = Some (Some (instance_of \<theta> e), h')"
    using apply_after_unify [OF up_valid up_ok(1,2) u ub] by blast
  obtain k0 k1 where k: "\<And>m. k0 \<le> m \<Longrightarrow> cuex_subst_apply m h' (Some 0) up0 = Some (Some (instance_of \<theta> up0), h')"
    "\<And>m. k1 \<le> m \<Longrightarrow> cuex_subst_apply m h' (Some 0) up1 = Some (Some (instance_of \<theta> up1), h')"
    using t(2) [of up0] t(2) [of up1] by blast
  show ?thesis using u t(1) k(1) [of "max k0 k1"] k(2) [of "max k0 k1"] by auto
qed

end
